(* ===== verification/Nwb_Prelude.thy ===== *)
theory Nwb_Prelude
  imports Main "HOL-Library.Word"
begin

text \<open>
  The prelude of the NWB verification library: the names of the engine's machine types
  (\<^verbatim>\<open>src/global/type.h\<close>), the theorem collections the component theories fill, and
  the generic facts on lists, options and words that several components share.
\<close>

section \<open>Machine types\<close>

type_synonym u8 = "8 word"
type_synonym u16 = "16 word"
type_synonym u32 = "32 word"
type_synonym u64 = "64 word"
type_synonym usize = "64 word"

text \<open>Collections: \<open>op_defs\<close> holds the definitions a component's proofs unfold,
  \<open>inv_intros\<close> the preservation lemmas of its invariant.\<close>

named_theorems op_defs \<open>definitions unfolded by the component proofs\<close>
named_theorems inv_intros \<open>invariant preservation lemmas\<close>

section \<open>Lists\<close>

lemma nth_butlast_last:
  "xs \<noteq> [] \<Longrightarrow> i < length xs \<Longrightarrow> i \<noteq> length xs - 1 \<Longrightarrow> butlast xs ! i = xs ! i"
  by (simp add: nth_butlast)

lemma take_drop_split:
  "i \<le> length xs \<Longrightarrow> take i xs @ drop i xs = xs"
  by simp

lemma takeWhile_append_stop:
  "(\<And>x. x \<in> set xs \<Longrightarrow> P x) \<Longrightarrow> \<not> P y \<Longrightarrow> takeWhile P (xs @ y # ys) = xs"
  by (induction xs) auto

lemma length_takeWhile_le_length [simp]: "length (takeWhile P xs) \<le> length xs"
  by (rule length_takeWhile_le)

section \<open>Words read as naturals\<close>

text \<open>\<open>Limit<T>::s_Max\<close> of an unsigned type is the word with every bit set.\<close>

abbreviation umax :: "'a::len word" where
  "umax \<equiv> - 1"

lemma unat_umax: "unat (umax :: 'a::len word) = 2 ^ LENGTH('a) - 1"
  by (simp add: unsigned_minus_1_eq_mask mask_eq_exp_minus_1)

lemma unat_umax_minus: "unat (umax - x :: 'a::len word) = 2 ^ LENGTH('a) - 1 - unat x"
proof -
  have "x \<le> (umax :: 'a word)" by (rule word_order.extremum)
  then show ?thesis by (simp add: unat_sub unat_umax)
qed

lemma umax_minus_less: "(umax - y < x) \<longleftrightarrow> 2 ^ LENGTH('a) \<le> unat x + unat (y :: 'a::len word)"
proof -
  have "unat y < 2 ^ LENGTH('a)" and "unat x < 2 ^ LENGTH('a)"
    by (rule unsigned_less)+
  then show ?thesis
    unfolding word_less_nat_alt unat_umax_minus by arith
qed

lemma unat_plus_no_overflow:
  "unat x + unat y < 2 ^ LENGTH('a) \<Longrightarrow> unat (x + y :: 'a::len word) = unat x + unat y"
  by (simp add: unat_word_ariths)

lemma unat_mult_no_overflow:
  "unat x * unat y < 2 ^ LENGTH('a) \<Longrightarrow> unat (x * y :: 'a::len word) = unat x * unat y"
  by (simp add: unat_word_ariths)

lemma unat_of_nat_small:
  "n < 2 ^ LENGTH('a) \<Longrightarrow> unat (of_nat n :: 'a::len word) = n"
  by (simp add: unat_of_nat)

text \<open>\<open>Limit<usize>::s_Max\<close> as the bound of container sizes.\<close>

definition usize_max :: nat where "usize_max = 2 ^ 64 - 1"

end
