(* ===== verification/Overflow.thy ===== *)
theory Overflow
  imports Nwb_Prelude "HOL-Library.Signed_Division"
begin

text \<open>
  Checked integer arithmetic of \<^verbatim>\<open>src/global/overflow.h\<close>, \<^verbatim>\<open>limit.h\<close>,
  \<^verbatim>\<open>simplemath.h\<close>, \<^verbatim>\<open>allocation_size.h\<close> and the alignment and growth helpers of
  \<^verbatim>\<open>algorithm.h\<close>. An unsigned instantiation of a template is modelled on
  \<open>'a word\<close>, where \<open>+\<close>, \<open>-\<close> and \<open>*\<close> wrap; a signed one on \<open>int\<close> together with the
  bit width \<open>n\<close> of the type, where C++ leaves a result outside the range undefined, so the
  predicates have to be exact. Division is C++'s, which truncates (\<open>sdiv\<close>).
\<close>

section \<open>Ranges of the signed types\<close>

definition s_Min :: "nat \<Rightarrow> int" where
  "s_Min n = - (2 ^ (n - 1))"

definition s_Max :: "nat \<Rightarrow> int" where
  "s_Max n = 2 ^ (n - 1) - 1"

definition in_range :: "nat \<Rightarrow> int \<Rightarrow> bool" where
  "in_range n x \<longleftrightarrow> s_Min n \<le> x \<and> x \<le> s_Max n"

abbreviation i64_range :: "int \<Rightarrow> bool" where
  "i64_range \<equiv> in_range 64"

section \<open>Overflow predicates\<close>

definition NegateOverflows_s :: "nat \<Rightarrow> int \<Rightarrow> bool" where
  "NegateOverflows_s n x \<longleftrightarrow> x = s_Min n"

definition NegateOverflows_u :: "'a::len word \<Rightarrow> bool" where
  "NegateOverflows_u x \<longleftrightarrow> x \<noteq> 0"

definition AddOverflows_s :: "nat \<Rightarrow> int \<Rightarrow> int \<Rightarrow> bool" where
  "AddOverflows_s n lhs rhs =
     (if rhs > 0 then lhs > s_Max n - rhs
      else if rhs < 0 then lhs < s_Min n - rhs
      else False)"

definition AddOverflows_u :: "'a::len word \<Rightarrow> 'a word \<Rightarrow> bool" where
  "AddOverflows_u lhs rhs \<longleftrightarrow> lhs > umax - rhs"

definition SubtractOverflows_s :: "nat \<Rightarrow> int \<Rightarrow> int \<Rightarrow> bool" where
  "SubtractOverflows_s n lhs rhs =
     (if rhs > 0 then lhs < s_Min n + rhs
      else if rhs < 0 then lhs > s_Max n + rhs
      else False)"

definition SubtractOverflows_u :: "'a::len word \<Rightarrow> 'a word \<Rightarrow> bool" where
  "SubtractOverflows_u lhs rhs \<longleftrightarrow> lhs < rhs"

definition MultiplyOverflows_s :: "nat \<Rightarrow> int \<Rightarrow> int \<Rightarrow> bool" where
  "MultiplyOverflows_s n lhs rhs =
     (if lhs = 0 \<or> rhs = 0 then False
      else if lhs > 0 then
        (if rhs > 0 then lhs > s_Max n sdiv rhs else rhs < s_Min n sdiv lhs)
      else if rhs > 0 then lhs < s_Min n sdiv rhs
      else rhs < s_Max n sdiv lhs)"

definition MultiplyOverflows_u :: "'a::len word \<Rightarrow> 'a word \<Rightarrow> bool" where
  "MultiplyOverflows_u lhs rhs =
     (if lhs = 0 \<or> rhs = 0 then False else lhs > umax div rhs)"

definition TryMultiply_u :: "'a::len word \<Rightarrow> 'a word \<Rightarrow> bool \<times> 'a word" where
  "TryMultiply_u lhs rhs =
     (if MultiplyOverflows_u lhs rhs then (False, 0) else (True, lhs * rhs))"

definition DivideOverflows_s :: "nat \<Rightarrow> int \<Rightarrow> int \<Rightarrow> bool" where
  "DivideOverflows_s n lhs rhs \<longleftrightarrow> lhs = s_Min n \<and> rhs = - 1"

definition AddSaturating_u :: "'a::len word \<Rightarrow> 'a word \<Rightarrow> 'a word" where
  "AddSaturating_u lhs rhs = (if AddOverflows_u lhs rhs then umax else lhs + rhs)"

definition AddNoOverflow :: "'a::len word \<Rightarrow> 'a word \<Rightarrow> 'a word option" where
  "AddNoOverflow lhs rhs = (if lhs > umax - rhs then None else Some (lhs + rhs))"

section \<open>Representable ranges (limit.h)\<close>

definition FitsU32_s :: "int \<Rightarrow> bool" where
  "FitsU32_s x \<longleftrightarrow> x \<ge> 0 \<and> x \<le> 2 ^ 32 - 1"

definition FitsU32_u :: "u64 \<Rightarrow> bool" where
  "FitsU32_u x \<longleftrightarrow> x \<le> 2 ^ 32 - 1"

definition CanRepresentU64_s :: "nat \<Rightarrow> u64 \<Rightarrow> bool" where
  "CanRepresentU64_s bitCount x =
     (if bitCount \<ge> 64 then x \<le> drop_bit 1 umax
      else x \<le> push_bit (bitCount - 1) 1 - 1)"

definition CanRepresentU64_u :: "nat \<Rightarrow> u64 \<Rightarrow> bool" where
  "CanRepresentU64_u bitCount x =
     (if bitCount \<ge> 64 then x \<le> umax else x \<le> push_bit bitCount 1 - 1)"

section \<open>Allocation sizes (allocation\_size.h)\<close>

datatype alloc_error = BadArrayNewLength

definition SizeOf :: "usize \<Rightarrow> usize \<Rightarrow> alloc_error + usize" where
  "SizeOf elemSize count =
     (if elemSize > 1 \<and> count > umax div elemSize then Inl BadArrayNewLength
      else Inr (count * elemSize))"

definition AddSize :: "usize \<Rightarrow> usize \<Rightarrow> alloc_error + usize" where
  "AddSize lhs rhs = (if lhs > umax - rhs then Inl BadArrayNewLength else Inr (lhs + rhs))"

definition Alignment :: "usize \<Rightarrow> usize \<Rightarrow> alloc_error + usize" where
  "Alignment align bytes =
     (if align \<le> 1 then Inr bytes
      else let remainder = bytes mod align
           in if remainder = 0 then Inr bytes else AddSize bytes (align - remainder))"

section \<open>Growth, alignment and rounding (algorithm.h)\<close>

text \<open>The growth loop of \<open>NextGrowingCapacity\<close>. Started at capacity 0 it would never end, so
  the loop is a partial function: \<open>None\<close> is "does not return".\<close>

partial_function (option) grow_loop :: "usize \<Rightarrow> usize \<Rightarrow> usize option" where
  "grow_loop requiredCapacity capacity =
     (if capacity < requiredCapacity then
        (if capacity > umax div 2 then Some requiredCapacity
         else grow_loop requiredCapacity (capacity * 2))
      else Some capacity)"

declare grow_loop.simps [code]

definition NextGrowingCapacity :: "usize \<Rightarrow> usize \<Rightarrow> usize \<Rightarrow> usize option" where
  "NextGrowingCapacity currentCapacity requiredCapacity initialCapacity =
     (let capacity = (if currentCapacity > initialCapacity then currentCapacity
                      else initialCapacity);
          capacity = (if capacity = 0 then 1 else capacity)
      in grow_loop requiredCapacity capacity)"

definition AlignUp :: "'a::len word \<Rightarrow> 'a word \<Rightarrow> 'a word" where
  "AlignUp x alignment =
     (if alignment = 0 then x
      else x + (alignment - (x mod alignment)) mod alignment)"

definition DivideUp :: "'a::len word \<Rightarrow> 'a word \<Rightarrow> 'a word" where
  "DivideUp x divisor = (if x = 0 \<or> divisor = 0 then 0 else 1 + ((x - 1) div divisor))"

definition DivideUpChecked :: "'a::len word \<Rightarrow> 'a word \<Rightarrow> 'a word option" where
  "DivideUpChecked x divisor = (if divisor = 0 then None else Some (DivideUp x divisor))"

definition AlignUpChecked :: "'a::len word \<Rightarrow> 'a word \<Rightarrow> 'a word option" where
  "AlignUpChecked x alignment =
     (if alignment = 0 then Some x
      else let remainder = x mod alignment
           in if remainder = 0 then Some x
              else let addend = alignment - remainder
                   in if x > umax - addend then None else Some (x + addend))"

section \<open>Exactness of the predicates\<close>

lemma AddOverflows_u_iff:
  "AddOverflows_u lhs rhs \<longleftrightarrow> 2 ^ LENGTH('a) \<le> unat lhs + unat (rhs :: 'a::len word)"
  by (simp add: AddOverflows_u_def umax_minus_less)

lemma AddNoOverflow_Some_iff:
  "AddNoOverflow lhs rhs = Some r \<longleftrightarrow>
     unat lhs + unat rhs < 2 ^ LENGTH('a) \<and> r = lhs + (rhs :: 'a::len word)"
  by (auto simp: AddNoOverflow_def umax_minus_less)

lemma AddNoOverflow_None_iff:
  "AddNoOverflow lhs rhs = None \<longleftrightarrow> 2 ^ LENGTH('a) \<le> unat lhs + unat (rhs :: 'a::len word)"
  by (auto simp: AddNoOverflow_def umax_minus_less)

lemma umax_div_less_iff:
  assumes "rhs \<noteq> 0"
  shows "umax div rhs < lhs \<longleftrightarrow> 2 ^ LENGTH('a) \<le> unat lhs * unat (rhs :: 'a::len word)"
proof -
  have pos: "0 < unat rhs" using assms by (simp add: unat_gt_0)
  have "umax div rhs < lhs \<longleftrightarrow> (2 ^ LENGTH('a) - 1) div unat rhs < unat lhs"
    by (simp add: word_less_nat_alt unat_div unat_umax)
  also have "\<dots> \<longleftrightarrow> 2 ^ LENGTH('a) - 1 < unat lhs * unat rhs"
    using pos by (simp add: div_less_iff_less_mult)
  also have "\<dots> \<longleftrightarrow> 2 ^ LENGTH('a) \<le> unat lhs * unat rhs"
    using zero_less_power [of "2 :: nat" "LENGTH('a)"] by linarith
  finally show ?thesis .
qed

lemma MultiplyOverflows_u_iff:
  "MultiplyOverflows_u lhs rhs \<longleftrightarrow> 2 ^ LENGTH('a) \<le> unat lhs * unat (rhs :: 'a::len word)"
  by (auto simp: MultiplyOverflows_u_def umax_div_less_iff)

text \<open>Truncating division of ints, by the signs of the operands.\<close>

lemma sdiv_pos_pos: "0 \<le> (a::int) \<Longrightarrow> 0 < b \<Longrightarrow> a sdiv b = a div b"
  by (cases "a = 0") (simp_all add: signed_divide_int_def)

lemma sdiv_neg_pos: "a < 0 \<Longrightarrow> 0 < (b::int) \<Longrightarrow> a sdiv b = - ((- a) div b)"
  by (simp add: signed_divide_int_def)

lemma sdiv_pos_neg: "0 \<le> a \<Longrightarrow> (b::int) < 0 \<Longrightarrow> a sdiv b = - (a div (- b))"
  by (cases "a = 0") (simp_all add: signed_divide_int_def)

lemma int_div_less_iff: "0 < (b::int) \<Longrightarrow> a div b < c \<longleftrightarrow> a < c * b"
proof
  assume b: "0 < b" and less: "a div b < c"
  have "a < (a div b + 1) * b"
    using pos_mod_bound [OF b, of a] div_mult_mod_eq [of a b] by (simp only: distrib_right mult_1)
  also have "\<dots> \<le> c * b" using b less by (intro mult_right_mono) auto
  finally show "a < c * b" .
next
  assume b: "0 < b" and less: "a < c * b"
  have "a div b * b \<le> a"
    using b pos_mod_sign [of b a] div_mult_mod_eq [of a b] by linarith
  with less have "a div b * b < c * b" by linarith
  with b show "a div b < c" by simp
qed

lemma s_Min_neg: "s_Min n < 0"
  by (simp add: s_Min_def)

lemma s_Max_nonneg: "0 \<le> s_Max n"
  by (simp add: s_Max_def)

lemma s_Min_s_Max: "s_Min n = - s_Max n - 1"
  by (simp add: s_Min_def s_Max_def)

lemmas range_facts = in_range_def s_Min_s_Max

lemma MultiplyOverflows_s_pos_pos:
  "0 < lhs \<Longrightarrow> 0 < rhs \<Longrightarrow> MultiplyOverflows_s n lhs rhs \<longleftrightarrow> s_Max n < lhs * rhs"
  by (simp add: MultiplyOverflows_s_def sdiv_pos_pos s_Max_nonneg int_div_less_iff)

lemma MultiplyOverflows_s_pos_neg:
  assumes "0 < lhs" "rhs < 0"
  shows "MultiplyOverflows_s n lhs rhs \<longleftrightarrow> lhs * rhs < s_Min n"
proof -
  have "MultiplyOverflows_s n lhs rhs \<longleftrightarrow> (- s_Min n) div lhs < - rhs"
    using assms by (auto simp: MultiplyOverflows_s_def sdiv_neg_pos s_Min_neg)
  also have "\<dots> \<longleftrightarrow> lhs * rhs < s_Min n"
    using assms by (simp add: int_div_less_iff) (simp add: algebra_simps)
  finally show ?thesis .
qed

lemma MultiplyOverflows_s_neg_pos:
  assumes "lhs < 0" "0 < rhs"
  shows "MultiplyOverflows_s n lhs rhs \<longleftrightarrow> lhs * rhs < s_Min n"
proof -
  have "MultiplyOverflows_s n lhs rhs \<longleftrightarrow> (- s_Min n) div rhs < - lhs"
    using assms by (auto simp: MultiplyOverflows_s_def sdiv_neg_pos s_Min_neg)
  also have "\<dots> \<longleftrightarrow> lhs * rhs < s_Min n"
    using assms by (simp add: int_div_less_iff)
  finally show ?thesis .
qed

lemma MultiplyOverflows_s_neg_neg:
  assumes "lhs < 0" "rhs < 0"
  shows "MultiplyOverflows_s n lhs rhs \<longleftrightarrow> s_Max n < lhs * rhs"
proof -
  have "MultiplyOverflows_s n lhs rhs \<longleftrightarrow> s_Max n div (- lhs) < - rhs"
    using assms by (auto simp: MultiplyOverflows_s_def sdiv_pos_neg s_Max_nonneg)
  also have "\<dots> \<longleftrightarrow> s_Max n < lhs * rhs"
    using assms by (simp add: int_div_less_iff) (simp add: algebra_simps)
  finally show ?thesis .
qed

lemma MultiplyOverflows_s_iff:
  "MultiplyOverflows_s n lhs rhs \<longleftrightarrow> \<not> in_range n (lhs * rhs)"
proof (cases "lhs = 0 \<or> rhs = 0")
  case True
  then show ?thesis
    using s_Min_neg [of n] s_Max_nonneg [of n] by (auto simp: MultiplyOverflows_s_def in_range_def)
next
  case False
  then consider "0 < lhs \<and> 0 < rhs" | "0 < lhs \<and> rhs < 0" | "lhs < 0 \<and> 0 < rhs" | "lhs < 0 \<and> rhs < 0"
    by linarith
  then show ?thesis
  proof cases
    case 1
    then have "0 < lhs * rhs" by simp
    moreover have "MultiplyOverflows_s n lhs rhs \<longleftrightarrow> s_Max n < lhs * rhs"
      using 1 by (simp add: MultiplyOverflows_s_pos_pos)
    ultimately show ?thesis using s_Min_neg [of n] by (auto simp: in_range_def simp del: zero_less_mult_iff mult_less_0_iff)
  next
    case 2
    then have "lhs * rhs < 0" by (simp add: mult_pos_neg)
    moreover have "MultiplyOverflows_s n lhs rhs \<longleftrightarrow> lhs * rhs < s_Min n"
      using 2 by (simp add: MultiplyOverflows_s_pos_neg)
    ultimately show ?thesis using s_Max_nonneg [of n] by (auto simp: in_range_def simp del: zero_less_mult_iff mult_less_0_iff)
  next
    case 3
    then have "lhs * rhs < 0" by (simp add: mult_neg_pos)
    moreover have "MultiplyOverflows_s n lhs rhs \<longleftrightarrow> lhs * rhs < s_Min n"
      using 3 by (simp add: MultiplyOverflows_s_neg_pos)
    ultimately show ?thesis using s_Max_nonneg [of n] by (auto simp: in_range_def simp del: zero_less_mult_iff mult_less_0_iff)
  next
    case 4
    then have "0 < lhs * rhs" by (simp add: mult_neg_neg)
    moreover have "MultiplyOverflows_s n lhs rhs \<longleftrightarrow> s_Max n < lhs * rhs"
      using 4 by (simp add: MultiplyOverflows_s_neg_neg)
    ultimately show ?thesis using s_Min_neg [of n] by (auto simp: in_range_def simp del: zero_less_mult_iff mult_less_0_iff)
  qed
qed

lemma AddOverflows_s_iff:
  "in_range n lhs \<Longrightarrow> AddOverflows_s n lhs rhs \<longleftrightarrow> \<not> in_range n (lhs + rhs)"
  by (auto simp: AddOverflows_s_def range_facts)

lemma SubtractOverflows_s_iff:
  "in_range n lhs \<Longrightarrow> SubtractOverflows_s n lhs rhs \<longleftrightarrow> \<not> in_range n (lhs - rhs)"
  by (auto simp: SubtractOverflows_s_def range_facts)

lemma NegateOverflows_s_iff:
  "in_range n x \<Longrightarrow> NegateOverflows_s n x \<longleftrightarrow> \<not> in_range n (- x)"
  by (auto simp: NegateOverflows_s_def range_facts)

lemma sdiv_in_range:
  assumes "in_range n lhs" "rhs \<noteq> 0" "\<not> DivideOverflows_s n lhs rhs"
  shows "in_range n (lhs sdiv rhs)"
proof (cases "rhs = - 1")
  case True
  then have "lhs sdiv rhs = - lhs" by (simp add: signed_divide_int_def sgn_if)
  with True assms show ?thesis by (auto simp: DivideOverflows_s_def range_facts)
next
  case False
  note not_minus_one = this
  show ?thesis
  proof (cases "rhs = 1")
    case True
    then have "lhs sdiv rhs = lhs" by (simp add: signed_divide_int_def mult_sgn_abs)
    with assms(1) show ?thesis by simp
  next
    case False
    with not_minus_one assms(2) have two: "2 \<le> \<bar>rhs\<bar>" by linarith
    have "\<bar>lhs sdiv rhs\<bar> \<le> \<bar>lhs\<bar> div \<bar>rhs\<bar>"
      by (auto simp: signed_divide_int_def abs_mult sgn_if intro: div_int_pos_iff [THEN iffD2])
    also have "\<dots> \<le> \<bar>lhs\<bar> div 2" using two by (intro zdiv_mono2) auto
    finally have "\<bar>lhs sdiv rhs\<bar> \<le> \<bar>lhs\<bar> div 2" .
    with assms(1) s_Max_nonneg [of n] show ?thesis by (auto simp: range_facts)
  qed
qed

lemma DivideOverflows_s_iff:
  assumes "in_range n lhs" "rhs \<noteq> 0"
  shows "DivideOverflows_s n lhs rhs \<longleftrightarrow> \<not> in_range n (lhs sdiv rhs)"
proof (cases "DivideOverflows_s n lhs rhs")
  case True
  then have "lhs sdiv rhs = - s_Min n"
    using s_Min_neg [of n] by (simp add: DivideOverflows_s_def signed_divide_int_def)
  with True show ?thesis by (simp add: range_facts)
next
  case False
  with assms show ?thesis by (simp add: sdiv_in_range)
qed

text \<open>C39: For operands of an n-bit signed type, the signed overflow predicates answer exactly
  whether the mathematical sum, difference, product, negation or truncating quotient leaves
  the range of the type.\<close>

theorem signed_overflow_exact:
  assumes "in_range n lhs" and "in_range n rhs"
  shows "(AddOverflows_s n lhs rhs \<longleftrightarrow> \<not> in_range n (lhs + rhs))
    \<and> (SubtractOverflows_s n lhs rhs \<longleftrightarrow> \<not> in_range n (lhs - rhs))
    \<and> (MultiplyOverflows_s n lhs rhs \<longleftrightarrow> \<not> in_range n (lhs * rhs))
    \<and> (NegateOverflows_s n lhs \<longleftrightarrow> \<not> in_range n (- lhs))
    \<and> (rhs \<noteq> 0 \<longrightarrow> (DivideOverflows_s n lhs rhs \<longleftrightarrow> \<not> in_range n (lhs sdiv rhs)))"
  using assms
  by (simp add: AddOverflows_s_iff SubtractOverflows_s_iff MultiplyOverflows_s_iff
      NegateOverflows_s_iff DivideOverflows_s_iff)

theorem signed_overflow_exact_witness:
  "in_range 8 100 \<and> in_range 8 (- 2) \<and> MultiplyOverflows_s 8 100 (- 2)
    \<and> \<not> in_range 8 (100 * - 2)"
proof -
  have "in_range 8 100" "in_range 8 (- 2)" by (simp_all add: in_range_def s_Min_def s_Max_def)
  moreover from this have "MultiplyOverflows_s 8 100 (- 2) \<longleftrightarrow> \<not> in_range 8 (100 * - 2)"
    using signed_overflow_exact [of 8 100 "- 2"] by blast
  ultimately show ?thesis by (simp add: in_range_def s_Min_def s_Max_def)
qed

lemma unat_plus_word: "unat (x + y :: 'a::len word) = (unat x + unat y) mod 2 ^ LENGTH('a)"
  by (simp add: unat_word_ariths)

text \<open>On an unsigned type \<open>AddSaturating\<close> is the sum cut off at the type's maximum, and
  \<open>TryMultiply\<close> gives the exact product when it fits and otherwise fails with the output
  set to zero.\<close>

lemma unsigned_checked_arithmetic:
  "unat (AddSaturating_u lhs rhs) = min (unat lhs + unat rhs) (2 ^ LENGTH('a) - 1)
   \<and> (if unat lhs * unat rhs < 2 ^ LENGTH('a)
      then fst (TryMultiply_u lhs rhs) \<and> unat (snd (TryMultiply_u lhs rhs)) = unat lhs * unat rhs
      else TryMultiply_u lhs rhs = (False, 0))"
  for lhs rhs :: "'a::len word"
  by (auto simp: AddSaturating_u_def AddOverflows_u_iff TryMultiply_u_def MultiplyOverflows_u_iff
      unat_umax unat_plus_no_overflow unat_mult_no_overflow)

section \<open>Growth\<close>

lemma unat_double:
  "\<not> umax div 2 < (c :: usize) \<Longrightarrow> unat (c * 2) = 2 * unat c"
  using umax_div_less_iff [of "2 :: usize" c] by (simp add: unat_word_ariths)

lemma grow_loop_returns:
  "0 < c \<Longrightarrow> \<exists>r. grow_loop req c = Some r \<and> req \<le> r \<and> c \<le> r
     \<and> (r = c \<or> unat r < 2 * unat req)"
proof (induction "unat req - unat c" arbitrary: c rule: less_induct)
  case less
  show ?case
  proof (cases "c < req \<and> \<not> umax div 2 < c")
    case True
    then have dbl: "unat (c * 2) = 2 * unat c" by (simp add: unat_double)
    have pos: "0 < unat c" using less.prems by (simp add: unat_gt_0 word_neq_0_conv)
    have lt: "unat c < unat req" using True by (simp add: word_less_nat_alt)
    have "0 < c * 2" using dbl pos by (simp add: word_less_nat_alt)
    moreover have "unat req - unat (c * 2) < unat req - unat c" using dbl pos lt by linarith
    ultimately obtain r where r: "grow_loop req (c * 2) = Some r" "req \<le> r" "c * 2 \<le> r"
        "r = c * 2 \<or> unat r < 2 * unat req"
      using less.hyps [of "c * 2"] by blast
    have "c \<le> r" using r(3) dbl by (simp add: word_le_nat_alt)
    moreover have "unat r < 2 * unat req" using r(4) dbl lt by auto
    ultimately show ?thesis using True r by (subst grow_loop.simps) auto
  next
    case False
    then show ?thesis by (subst grow_loop.simps) (auto simp: word_less_nat_alt word_le_nat_alt unat_gt_0)
  qed
qed

text \<open>\<open>NextGrowingCapacity\<close> always returns, its result covers the required, the current and
  the initial capacity, and growth overshoots the requirement by less than a factor of two.\<close>

lemma NextGrowingCapacity_correct:
  "\<exists>r. NextGrowingCapacity cur req ini = Some r \<and> req \<le> r \<and> cur \<le> r \<and> ini \<le> r
    \<and> (r = max 1 (max cur ini) \<or> unat r < 2 * unat req)"
proof -
  define c where "c = (if max cur ini = 0 then 1 else max cur ini)"
  have c: "0 < c" "cur \<le> c" "ini \<le> c" "c = max 1 (max cur ini)"
    by (auto simp: c_def max_def word_neq_0_conv word_le_nat_alt unat_eq_zero unat_gt_0
        not_le Suc_le_eq split: if_splits)
  have "NextGrowingCapacity cur req ini = grow_loop req c"
    by (auto simp: NextGrowingCapacity_def c_def max_def Let_def word_neq_0_conv not_le)
  with grow_loop_returns [OF c(1), of req] c show ?thesis
    by (auto intro: order_trans)
qed

section \<open>Alignment\<close>

text \<open>The least multiple of \<open>a\<close> that is at least \<open>n\<close>.\<close>

definition round_up :: "nat \<Rightarrow> nat \<Rightarrow> nat" where
  "round_up n a = (if n mod a = 0 then n else n + (a - n mod a))"

lemma round_up_ge: "n \<le> round_up n a"
  by (simp add: round_up_def)

lemma round_up_dvd: "0 < a \<Longrightarrow> a dvd round_up n a"
proof -
  assume a: "0 < a"
  have "(n + (a - n mod a)) mod a = 0"
    using a by (metis le_add_diff_inverse mod_add_left_eq mod_less_divisor mod_self order_less_imp_le)
  then show ?thesis by (simp add: round_up_def mod_eq_0_iff_dvd)
qed

lemma round_up_least: "0 < a \<Longrightarrow> a dvd m \<Longrightarrow> n \<le> m \<Longrightarrow> round_up n a \<le> m"
proof (cases "n mod a = 0")
  case False
  assume a: "0 < a" "a dvd m" "n \<le> m"
  then obtain k where k: "m = a * k" by auto
  have "n < m" using False a k by (metis dvd_imp_mod_0 le_neq_implies_less)
  then have "n div a < k" using k a
    by (simp add: div_less_iff_less_mult mult.commute)
  then have "a * (n div a) + a \<le> a * k"
    by (metis Suc_leI add.commute mult_Suc_right mult_le_mono2)
  then have "n + (a - n mod a) \<le> m"
    using k mult_div_mod_eq [of a n] mod_less_divisor [OF a(1), of n] by linarith
  with False show ?thesis by (simp add: round_up_def)
qed (simp add: round_up_def)

lemma AlignUpChecked_round_up:
  fixes x alignment :: "'a::len word"
  assumes "alignment \<noteq> 0"
  shows "AlignUpChecked x alignment =
    (if round_up (unat x) (unat alignment) < 2 ^ LENGTH('a)
     then Some (of_nat (round_up (unat x) (unat alignment))) else None)"
proof -
  have le: "x mod alignment \<le> alignment"
    using assms by (simp add: word_le_nat_alt unat_mod unat_gt_0 less_imp_le)
  have sub: "unat (alignment - x mod alignment) = unat alignment - unat x mod unat alignment"
    using le by (simp add: unat_sub unat_mod)
  have zero: "x mod alignment = 0 \<longleftrightarrow> unat x mod unat alignment = 0"
    by (metis unat_eq_zero unat_mod)
  have val: "of_nat (unat x + (unat alignment - unat x mod unat alignment))
      = x + (alignment - x mod alignment)"
    by (simp flip: sub)
  show ?thesis
    using assms zero sub val unsigned_less [of x]
    by (auto simp: AlignUpChecked_def round_up_def Let_def umax_minus_less)
qed

text \<open>With a non-zero alignment \<open>AlignUpChecked\<close> succeeds exactly when the least multiple of
  the alignment not below the argument is representable, and then returns that multiple.\<close>

lemma AlignUpChecked_least_multiple:
  fixes x alignment :: "'a::len word"
  assumes "alignment \<noteq> 0"
  shows "(case AlignUpChecked x alignment of
            None \<Rightarrow> \<forall>m. unat alignment dvd m \<and> unat x \<le> m \<longrightarrow> 2 ^ LENGTH('a) \<le> m
          | Some r \<Rightarrow> unat alignment dvd unat r \<and> x \<le> r
              \<and> (\<forall>m. unat alignment dvd m \<and> unat x \<le> m \<longrightarrow> unat r \<le> m))"
proof -
  have pos: "0 < unat alignment" using assms by (simp add: unat_gt_0)
  note facts = round_up_ge [of "unat x" "unat alignment"] round_up_dvd [OF pos, of "unat x"]
    round_up_least [OF pos]
  show ?thesis
  proof (cases "round_up (unat x) (unat alignment) < 2 ^ LENGTH('a)")
    case True
    then have "unat (of_nat (round_up (unat x) (unat alignment)) :: 'a word)
        = round_up (unat x) (unat alignment)"
      by (rule unat_of_nat_small)
    with True facts assms show ?thesis
      by (simp add: AlignUpChecked_round_up word_le_nat_alt)
  next
    case False
    then show ?thesis using assms facts
      by (auto simp: AlignUpChecked_round_up not_less intro: order_trans)
  qed
qed

lemma AlignUpChecked_least_multiple_example:
  "AlignUpChecked (13 :: 32 word) 8 = Some 16 \<and> unat (8 :: 32 word) dvd unat (16 :: 32 word)"
proof -
  have "AlignUpChecked (13 :: 32 word) 8 = Some 16"
    by (simp add: AlignUpChecked_def Let_def)
  with AlignUpChecked_least_multiple [of "8 :: 32 word" 13] show ?thesis by simp
qed

end
