(* ===== verification/Entity_Id.thy ===== *)
theory Entity_Id
  imports Nwb_Prelude
begin

unbundle bit_operations_syntax

text \<open>
  Entity identifiers and the entity manager of the ECS, \<^verbatim>\<open>src/core/ecs/entity_id.h\<close> and
  \<^verbatim>\<open>entity_id.cpp\<close>. An identifier packs a 22-bit index and a 10-bit generation into a
  \<open>u32\<close>. The manager keeps one generation per index and a stack of free indices (its
  \<open>back()\<close> is the last element of the list). \<open>m_aliveCount\<close> is a \<open>usize\<close> and is incremented and
  decremented without a check, so it is a word here.
\<close>

section \<open>Identifiers\<close>

datatype EntityID = EntityID (raw_id: u32)

definition ENTITY_INDEX_BITS :: nat where
  "ENTITY_INDEX_BITS = 22"

definition ENTITY_GENERATION_BITS :: nat where
  "ENTITY_GENERATION_BITS = 10"

definition ENTITY_INDEX_MASK :: u32 where
  "ENTITY_INDEX_MASK = push_bit ENTITY_INDEX_BITS 1 - 1"

definition ENTITY_GENERATION_MASK :: u32 where
  "ENTITY_GENERATION_MASK = push_bit ENTITY_GENERATION_BITS 1 - 1"

definition ENTITY_INVALID_INDEX :: u32 where
  "ENTITY_INVALID_INDEX = ENTITY_INDEX_MASK"

definition make_EntityID :: "u32 \<Rightarrow> u32 \<Rightarrow> EntityID" where
  "make_EntityID idx gen =
     EntityID (push_bit ENTITY_INDEX_BITS (gen AND ENTITY_GENERATION_MASK)
               OR (idx AND ENTITY_INDEX_MASK))"

definition entity_index :: "EntityID \<Rightarrow> u32" where
  "entity_index e = raw_id e AND ENTITY_INDEX_MASK"

definition entity_generation :: "EntityID \<Rightarrow> u32" where
  "entity_generation e = drop_bit ENTITY_INDEX_BITS (raw_id e) AND ENTITY_GENERATION_MASK"

definition entity_valid :: "EntityID \<Rightarrow> bool" where
  "entity_valid e \<longleftrightarrow> entity_index e \<noteq> ENTITY_INVALID_INDEX"

definition ENTITY_ID_INVALID :: EntityID where
  "ENTITY_ID_INVALID = EntityID (NOT 0)"

section \<open>The manager\<close>

record EntityManager =
  m_generations :: "u16 list"
  m_freeIndices :: "u32 list"
  m_aliveCount :: usize

definition EntityManager_new :: EntityManager where
  "EntityManager_new = \<lparr>m_generations = [], m_freeIndices = [], m_aliveCount = 0\<rparr>"

definition alive :: "EntityManager \<Rightarrow> EntityID \<Rightarrow> bool" where
  "alive em e =
     (let idx = entity_index e
      in if idx \<ge> of_nat (length (m_generations em)) then False
         else ucast (m_generations em ! unat idx) = entity_generation e)"

definition create :: "EntityManager \<Rightarrow> EntityID \<times> EntityManager" where
  "create em =
     (if m_freeIndices em \<noteq> [] then
        let idx = last (m_freeIndices em)
        in (make_EntityID idx (ucast (m_generations em ! unat idx)),
            em\<lparr>m_freeIndices := butlast (m_freeIndices em), m_aliveCount := m_aliveCount em + 1\<rparr>)
      else if length (m_generations em) \<ge> unat ENTITY_INVALID_INDEX then (ENTITY_ID_INVALID, em)
      else let idx = of_nat (length (m_generations em));
               gens = m_generations em @ [0]
           in (make_EntityID idx (ucast (gens ! unat idx)),
               em\<lparr>m_generations := gens, m_aliveCount := m_aliveCount em + 1\<rparr>))"

definition destroyAlive :: "EntityManager \<Rightarrow> EntityID \<Rightarrow> EntityManager" where
  "destroyAlive em e =
     (let idx = entity_index e
      in em\<lparr>m_generations := (m_generations em)[unat idx :=
               ucast ((ucast (m_generations em ! unat idx) + 1) AND ENTITY_GENERATION_MASK)],
            m_freeIndices := m_freeIndices em @ [idx],
            m_aliveCount := m_aliveCount em - 1\<rparr>)"

definition destroy :: "EntityManager \<Rightarrow> EntityID \<Rightarrow> EntityManager" where
  "destroy em e = (if \<not> alive em e then em else destroyAlive em e)"

definition clear_entities :: "EntityManager \<Rightarrow> EntityManager" where
  "clear_entities em = em\<lparr>m_generations := [], m_freeIndices := [], m_aliveCount := 0\<rparr>"

section \<open>Packing\<close>

lemmas entity_bit_defs = ENTITY_INDEX_BITS_def ENTITY_GENERATION_BITS_def

lemma index_mask: "ENTITY_INDEX_MASK = mask 22"
  by (simp add: ENTITY_INDEX_MASK_def entity_bit_defs mask_eq_exp_minus_1)

lemma generation_mask: "ENTITY_GENERATION_MASK = mask 10"
  by (simp add: ENTITY_GENERATION_MASK_def entity_bit_defs mask_eq_exp_minus_1)

lemmas pack_defs = make_EntityID_def entity_index_def entity_generation_def
  index_mask generation_mask entity_bit_defs

lemma entity_index_make: "entity_index (make_EntityID i g) = i AND mask 22"
  by (rule bit_word_eqI) (auto simp: pack_defs bit_simps)

lemma entity_generation_make: "entity_generation (make_EntityID i g) = g AND mask 10"
  by (rule bit_word_eqI) (auto simp: pack_defs bit_simps)

lemma make_entity_parts: "make_EntityID (entity_index e) (entity_generation e) = e"
proof (rule EntityID.expand, rule bit_word_eqI)
  fix n
  assume "n < LENGTH(32)"
  then show "bit (raw_id (make_EntityID (entity_index e) (entity_generation e))) n = bit (raw_id e) n"
    by (auto simp: pack_defs bit_simps)
qed

text \<open>Packing and unpacking an entity identifier are inverse: the parts of a packed identifier are
  its arguments cut to 22 and 10 bits, and every identifier is the packing of its own parts.\<close>

lemma entity_id_roundtrip:
  "entity_index (make_EntityID i g) = i mod 2 ^ 22
   \<and> entity_generation (make_EntityID i g) = g mod 2 ^ 10
   \<and> make_EntityID (entity_index e) (entity_generation e) = e"
  by (simp add: entity_index_make entity_generation_make make_entity_parts flip: take_bit_eq_mask)
    (simp add: take_bit_eq_mod)

section \<open>Invariant and live identifiers\<close>

definition em_inv :: "EntityManager \<Rightarrow> bool" where
  "em_inv em \<longleftrightarrow>
     length (m_generations em) < 2 ^ 22
     \<and> (\<forall>g \<in> set (m_generations em). unat g < 2 ^ 10)
     \<and> distinct (m_freeIndices em)
     \<and> (\<forall>i \<in> set (m_freeIndices em). unat i < length (m_generations em))
     \<and> unat (m_aliveCount em) + length (m_freeIndices em) = length (m_generations em)"

text \<open>The identifier the manager associates with an index at present.\<close>

definition current_id :: "EntityManager \<Rightarrow> u32 \<Rightarrow> EntityID" where
  "current_id em i = make_EntityID i (ucast (m_generations em ! unat i))"

definition live :: "EntityManager \<Rightarrow> EntityID set" where
  "live em = current_id em `
     {i. unat i < length (m_generations em) \<and> i \<notin> set (m_freeIndices em)}"

lemma unat_and_mask: "unat (w AND mask n :: 'a::len word) = unat w mod 2 ^ n"
proof -
  have "unat (w AND mask n) = take_bit n (unat w)"
    unfolding take_bit_eq_mask [symmetric] by (rule unsigned_take_bit_eq)
  also have "\<dots> = unat w mod 2 ^ n" by (rule take_bit_eq_mod)
  finally show ?thesis .
qed

lemma unat_entity_index_less: "unat (entity_index e) < 2 ^ 22"
  by (simp add: entity_index_def index_mask unat_and_mask)

lemma entity_index_make_small: "unat i < 2 ^ 22 \<Longrightarrow> entity_index (make_EntityID i g) = i"
  by (rule word_unat_eq_iff [THEN iffD2]) (simp add: entity_index_make unat_and_mask)

lemma entity_generation_make_small:
  "unat g < 2 ^ 10 \<Longrightarrow> entity_generation (make_EntityID i g) = g"
  by (rule word_unat_eq_iff [THEN iffD2]) (simp add: entity_generation_make unat_and_mask)

lemma unat_ucast_u16: "unat (ucast (g :: u16) :: u32) = unat g"
proof -
  have "unat g < 2 ^ 16" using unsigned_less [of g] by simp
  then show ?thesis by (simp add: unsigned_ucast_eq take_bit_eq_mod)
qed

lemma invalid_index: "unat ENTITY_INVALID_INDEX = 2 ^ 22 - 1"
  by (simp add: ENTITY_INVALID_INDEX_def index_mask mask_eq_exp_minus_1)

lemma index_ge_length:
  assumes "length (m_generations em) < 2 ^ 22"
  shows "(of_nat (length (m_generations em)) \<le> entity_index e)
    = (length (m_generations em) \<le> unat (entity_index e))"
  using assms by (simp add: word_le_nat_alt unat_of_nat_small)

lemma alive_iff:
  "em_inv em \<Longrightarrow> alive em e \<longleftrightarrow>
     unat (entity_index e) < length (m_generations em) \<and> current_id em (entity_index e) = e"
proof -
  assume inv: "em_inv em"
  have gen: "entity_generation (current_id em (entity_index e)) = ucast (m_generations em ! unat (entity_index e))"
    if "unat (entity_index e) < length (m_generations em)"
    using inv that
    by (simp add: current_id_def entity_generation_make_small em_inv_def unat_ucast_u16)
  show ?thesis
  proof (cases "unat (entity_index e) < length (m_generations em)")
    case True
    then have "alive em e \<longleftrightarrow> ucast (m_generations em ! unat (entity_index e)) = entity_generation e"
      using inv by (simp add: alive_def Let_def index_ge_length em_inv_def)
    also have "\<dots> \<longleftrightarrow> current_id em (entity_index e) = e"
      using gen [OF True] make_entity_parts [of e] by (metis current_id_def)
    finally show ?thesis using True by simp
  next
    case False
    then show ?thesis
      using inv by (simp add: alive_def Let_def index_ge_length em_inv_def)
  qed
qed

lemma index_current_id:
  "em_inv em \<Longrightarrow> unat i < length (m_generations em) \<Longrightarrow> entity_index (current_id em i) = i"
  by (simp add: current_id_def em_inv_def entity_index_make_small)

lemma live_iff:
  "em_inv em \<Longrightarrow> e \<in> live em \<longleftrightarrow> alive em e \<and> entity_index e \<notin> set (m_freeIndices em)"
  by (auto simp: live_def alive_iff index_current_id intro!: image_eqI [where x = "entity_index e"])

lemma live_index_inj:
  "em_inv em \<Longrightarrow> e \<in> live em \<Longrightarrow> e' \<in> live em \<Longrightarrow> entity_index e = entity_index e' \<Longrightarrow> e = e'"
  by (auto simp: live_iff alive_iff)

lemma em_inv_new: "em_inv EntityManager_new"
  by (simp add: em_inv_def EntityManager_new_def)

lemma live_new: "live EntityManager_new = {}"
  by (simp add: live_def EntityManager_new_def)

section \<open>Operations\<close>

lemma unat_succ_count: "em_inv em \<Longrightarrow> unat (m_aliveCount em + 1) = unat (m_aliveCount em) + 1"
  by (subst unat_plus_no_overflow) (auto simp: em_inv_def)

lemma unat_pred_count:
  "0 < unat (m_aliveCount em) \<Longrightarrow> unat (m_aliveCount em - 1) = unat (m_aliveCount em) - 1"
  by (subst unat_sub) (auto simp: word_le_nat_alt)

lemma last_free_in: "m_freeIndices em \<noteq> [] \<Longrightarrow> last (m_freeIndices em) \<in> set (m_freeIndices em)"
  by simp

lemma not_in_butlast_last: "distinct xs \<Longrightarrow> xs \<noteq> [] \<Longrightarrow> last xs \<notin> set (butlast xs)"
  by (metis append_butlast_last_id distinct_butlast not_distinct_conv_prefix)

lemma set_butlast_distinct:
  "distinct xs \<Longrightarrow> xs \<noteq> [] \<Longrightarrow> set (butlast xs) = set xs - {last xs}"
  using not_in_butlast_last [of xs] by (cases xs rule: rev_cases) auto

text \<open>The three branches of \<open>create\<close>.\<close>

lemma create_recycle:
  "m_freeIndices em \<noteq> [] \<Longrightarrow>
   create em = (current_id em (last (m_freeIndices em)),
     em\<lparr>m_freeIndices := butlast (m_freeIndices em), m_aliveCount := m_aliveCount em + 1\<rparr>)"
  by (simp add: create_def current_id_def Let_def)

lemma create_full:
  "m_freeIndices em = [] \<Longrightarrow> length (m_generations em) \<ge> 2 ^ 22 - 1 \<Longrightarrow>
   create em = (ENTITY_ID_INVALID, em)"
  by (simp add: create_def invalid_index)

lemma create_grow:
  "m_freeIndices em = [] \<Longrightarrow> length (m_generations em) < 2 ^ 22 - 1 \<Longrightarrow>
   create em = (make_EntityID (of_nat (length (m_generations em))) 0,
     em\<lparr>m_generations := m_generations em @ [0], m_aliveCount := m_aliveCount em + 1\<rparr>)"
  by (simp add: create_def invalid_index Let_def unat_of_nat_small)

lemma invalid_not_valid: "\<not> entity_valid ENTITY_ID_INVALID"
  by (simp add: entity_valid_def ENTITY_ID_INVALID_def ENTITY_INVALID_INDEX_def entity_index_def)

lemma live_valid:
  assumes "em_inv em" "e \<in> live em"
  shows "unat (entity_index e) < length (m_generations em)"
  using assms by (simp add: live_iff alive_iff)

lemma create_cases:
  assumes "em_inv em"
  obtains (recycle) "m_freeIndices em \<noteq> []"
  | (full) "m_freeIndices em = []" "length (m_generations em) \<ge> 2 ^ 22 - 1"
  | (grow) "m_freeIndices em = []" "length (m_generations em) < 2 ^ 22 - 1"
  by (cases "m_freeIndices em = []"; cases "length (m_generations em) < 2 ^ 22 - 1") auto

lemma em_inv_create [inv_intros]: "em_inv em \<Longrightarrow> em_inv (snd (create em))"
proof -
  assume inv: "em_inv em"
  show ?thesis using inv
  proof (cases rule: create_cases)
    case recycle
    then show ?thesis using inv unat_succ_count [OF inv]
      by (auto simp: create_recycle em_inv_def distinct_butlast dest: in_set_butlastD
          simp flip: length_greater_0_conv)
  next
    case full
    then show ?thesis using inv by (simp add: create_full)
  next
    case grow
    then show ?thesis using inv unat_succ_count [OF inv] by (auto simp: create_grow em_inv_def)
  qed
qed

lemma live_create:
  assumes inv: "em_inv em" and "create em = (e, em')" and "e \<noteq> ENTITY_ID_INVALID"
  shows "live em' = insert e (live em) \<and> entity_index e \<notin> entity_index ` live em"
  using inv
proof (cases rule: create_cases)
  case recycle
  define j where "j = last (m_freeIndices em)"
  have j: "j \<in> set (m_freeIndices em)" "unat j < length (m_generations em)"
    using recycle inv by (auto simp: j_def em_inv_def)
  have e: "e = current_id em j"
    and em': "em' = em\<lparr>m_freeIndices := butlast (m_freeIndices em), m_aliveCount := m_aliveCount em + 1\<rparr>"
    using assms recycle by (auto simp: create_recycle j_def)
  have cur: "current_id em' = current_id em" by (simp add: fun_eq_iff current_id_def em')
  have free: "set (m_freeIndices em') = set (m_freeIndices em) - {j}"
    using recycle inv by (simp add: em' j_def em_inv_def set_butlast_distinct)
  have gens: "m_generations em' = m_generations em" by (simp add: em')
  have "live em' = insert e (live em)"
    using j by (auto simp: live_def cur e free gens)
  moreover have "entity_index e \<notin> entity_index ` live em"
    using j inv by (auto simp: live_iff e index_current_id)
  ultimately show ?thesis by simp
next
  case full
  then show ?thesis using assms by (simp add: create_full)
next
  case grow
  let ?n = "length (m_generations em)"
  have e: "e = make_EntityID (of_nat ?n) 0"
    and em': "em' = em\<lparr>m_generations := m_generations em @ [0], m_aliveCount := m_aliveCount em + 1\<rparr>"
    using assms grow by (auto simp: create_grow)
  have n: "unat (of_nat ?n :: u32) = ?n" using grow by (simp add: unat_of_nat_small)
  have idx: "unat i < Suc ?n \<longleftrightarrow> i = of_nat ?n \<or> unat i < ?n" for i :: u32
    using n by (metis less_Suc_eq word_unat_eq_iff)
  have cur: "current_id em' i = (if unat i < ?n then current_id em i else e)" if "unat i < Suc ?n" for i
    using that n idx [of i] by (auto simp: current_id_def em' e nth_append)
  have "live em' = insert e (live em)"
  proof -
    have "{i :: u32. unat i < Suc ?n} = insert (of_nat ?n) {i. unat i < ?n}"
      using idx by blast
    moreover have "live em' = current_id em' ` {i. unat i < Suc ?n}"
      unfolding live_def using grow by (simp add: em')
    ultimately have "live em' = current_id em' ` (insert (of_nat ?n) {i. unat i < ?n})"
      by (simp only:)
    also have "\<dots> = insert e (current_id em ` {i. unat i < ?n})"
      using n by (simp add: cur cong: image_cong_simp)
    finally show ?thesis using grow by (simp add: live_def)
  qed
  moreover have "entity_index e \<notin> entity_index ` live em"
  proof -
    have "entity_index e = of_nat ?n" using n grow by (simp add: e entity_index_make_small)
    then show ?thesis using n by (auto dest: live_valid [OF inv])
  qed
  ultimately show ?thesis by simp
qed

lemma create_invalid:
  assumes "em_inv em" and "create em = (ENTITY_ID_INVALID, em')"
  shows "em' = em \<and> m_freeIndices em = [] \<and> length (m_generations em) = 2 ^ 22 - 1"
  using assms(1)
proof (cases rule: create_cases)
  case recycle
  then have "entity_index ENTITY_ID_INVALID = last (m_freeIndices em)"
    and "unat (last (m_freeIndices em)) < length (m_generations em)"
    using assms index_current_id [OF assms(1), of "last (m_freeIndices em)"]
    by (auto simp: create_recycle em_inv_def)
  then show ?thesis using assms invalid_not_valid invalid_index
    by (simp add: entity_valid_def em_inv_def)
next
  case full
  then show ?thesis using assms by (auto simp: create_full em_inv_def)
next
  case grow
  then have "unat (entity_index ENTITY_ID_INVALID) = length (m_generations em)"
    using assms entity_index_make_small [of "of_nat (length (m_generations em))" 0]
    by (simp add: create_grow unat_of_nat_small)
  then show ?thesis using grow invalid_not_valid invalid_index
    by (simp add: entity_valid_def)
qed

lemma unat_mask_generation: "unat (ucast (w AND ENTITY_GENERATION_MASK :: u32) :: u16) = unat w mod 2 ^ 10"
proof -
  have "unat (w AND ENTITY_GENERATION_MASK) = unat w mod 2 ^ 10"
    by (simp add: generation_mask unat_and_mask)
  then show ?thesis by (simp add: unsigned_ucast_eq take_bit_eq_mod)
qed

lemma unat_next_generation:
  "unat (ucast ((ucast (g :: u16) + 1) AND ENTITY_GENERATION_MASK :: u32) :: u16) = (unat g + 1) mod 2 ^ 10"
proof -
  have "unat g < 2 ^ 16" using unsigned_less [of g] by simp
  then have "unat (ucast g + 1 :: u32) = unat g + 1"
    by (subst unat_plus_no_overflow) (simp_all add: unat_ucast_u16)
  then show ?thesis by (simp only: unat_mask_generation)
qed

lemma generations_destroyAlive:
  "unat (entity_index e) < length (m_generations em) \<Longrightarrow>
   unat (m_generations (destroyAlive em e) ! i)
     = (if i = unat (entity_index e) then (unat (m_generations em ! i) + 1) mod 2 ^ 10
        else unat (m_generations em ! i))"
  by (simp add: destroyAlive_def Let_def unat_next_generation)

lemma live_count:
  assumes "em_inv em"
  shows "card (live em) = unat (m_aliveCount em)"
proof -
  let ?n = "length (m_generations em)"
  let ?A = "{i :: u32. unat i < ?n}" and ?F = "set (m_freeIndices em)"
  have bound: "?n < 2 ^ LENGTH(32)" using assms by (simp add: em_inv_def)
  have "?A = of_nat ` {..<?n}"
  proof (intro set_eqI iffI)
    fix i :: u32
    assume "i \<in> ?A"
    then show "i \<in> of_nat ` {..<?n}"
      using bound by (intro image_eqI [where x = "unat i"]) (simp_all add: word_unat_eq_iff unat_of_nat_small)
  qed (use bound in \<open>auto simp: unat_of_nat_small\<close>)
  moreover have "inj_on (of_nat :: nat \<Rightarrow> u32) {..<?n}"
    using bound by (intro inj_onI) (metis lessThan_iff less_trans unat_of_nat_small)
  ultimately have "card ?A = ?n" by (simp add: card_image)
  moreover have "?F \<subseteq> ?A" using assms by (auto simp: em_inv_def)
  moreover have "card ?F = length (m_freeIndices em)"
    using assms by (simp add: em_inv_def distinct_card)
  ultimately have "card (?A - ?F) = unat (m_aliveCount em)"
    using assms by (auto simp: card_Diff_subset em_inv_def)
  moreover have "live em = current_id em ` (?A - ?F)" by (auto simp: live_def)
  moreover have "inj_on (current_id em) (?A - ?F)"
    using assms by (intro inj_onI) (metis DiffD1 index_current_id mem_Collect_eq)
  ultimately show ?thesis by (simp add: card_image)
qed

lemma live_finite: "finite (live em)"
  by (simp add: live_def)

lemma em_inv_destroyAlive [inv_intros]:
  assumes inv: "em_inv em" and e: "e \<in> live em"
  shows "em_inv (destroyAlive em e)"
proof -
  let ?em = "destroyAlive em e"
  have idx: "unat (entity_index e) < length (m_generations em)"
    and free: "entity_index e \<notin> set (m_freeIndices em)"
    using assms by (simp_all add: live_iff alive_iff)
  have "0 < unat (m_aliveCount em)"
    using live_count [OF inv] e live_finite [of em] by (metis card_gt_0_iff empty_iff)
  then have "unat (m_aliveCount ?em) + 1 = unat (m_aliveCount em)"
    by (simp add: destroyAlive_def Let_def unat_pred_count)
  moreover have "\<forall>i < length (m_generations ?em). unat (m_generations ?em ! i) < 2 ^ 10"
    using inv idx by (auto simp: generations_destroyAlive em_inv_def)
      (simp add: destroyAlive_def Let_def)
  then have "\<forall>g \<in> set (m_generations ?em). unat g < 2 ^ 10"
    by (auto simp: in_set_conv_nth)
  ultimately show ?thesis
    using inv idx free by (simp add: em_inv_def) (auto simp: destroyAlive_def Let_def)
qed

lemma live_destroyAlive:
  assumes inv: "em_inv em" and e: "e \<in> live em"
  shows "live (destroyAlive em e) = live em - {e}"
proof -
  have idx: "unat (entity_index e) < length (m_generations em)"
    using assms by (rule live_valid)
  have "current_id (destroyAlive em e) i = current_id em i" if "i \<noteq> entity_index e" for i
    using that by (simp add: current_id_def destroyAlive_def Let_def word_unat_eq_iff)
  moreover have "live (destroyAlive em e) = current_id (destroyAlive em e) `
      ({i. unat i < length (m_generations em) \<and> i \<notin> set (m_freeIndices em)} - {entity_index e})"
    unfolding live_def by (rule arg_cong [where f = "image _"]) (auto simp: destroyAlive_def Let_def)
  ultimately have "live (destroyAlive em e) = current_id em `
      ({i. unat i < length (m_generations em) \<and> i \<notin> set (m_freeIndices em)} - {entity_index e})"
    by (auto intro: image_cong)
  also have "\<dots> = live em - {e}"
  proof -
    have "current_id em (entity_index e) = e" using assms by (simp add: live_iff alive_iff)
    then show ?thesis using inv by (auto simp: live_def dest: index_current_id)
  qed
  finally show ?thesis .
qed

lemma clear_entities_new: "clear_entities em = EntityManager_new"
  by (simp add: clear_entities_def EntityManager_new_def)

section \<open>The manager as an identifier allocator\<close>

text \<open>What the rest of the engine relies on: the set of identifiers handed out grows by one fresh
  identifier per allocation and shrinks by the identifier released, and no two identifiers handed
  out share a key (the slot of the sparse arrays the key indexes).\<close>

locale id_allocator =
  fixes inv :: "'s \<Rightarrow> bool" and held :: "'s \<Rightarrow> 'i set" and mk :: "'s \<Rightarrow> 'i \<times> 's"
    and del :: "'s \<Rightarrow> 'i \<Rightarrow> 's" and ok :: "'s \<Rightarrow> 'i \<Rightarrow> bool" and key :: "'i \<Rightarrow> 'k" and bad :: 'i
  assumes inv_mk: "inv s \<Longrightarrow> inv (snd (mk s))"
    and inv_del: "inv s \<Longrightarrow> i \<in> held s \<Longrightarrow> inv (del s i)"
    and held_mk: "inv s \<Longrightarrow> mk s = (i, s') \<Longrightarrow> i \<noteq> bad \<Longrightarrow>
      held s' = insert i (held s) \<and> key i \<notin> key ` held s"
    and mk_bad: "inv s \<Longrightarrow> mk s = (bad, s') \<Longrightarrow> s' = s"
    and held_del: "inv s \<Longrightarrow> i \<in> held s \<Longrightarrow> held (del s i) = held s - {i}"
    and held_ok: "inv s \<Longrightarrow> i \<in> held s \<Longrightarrow> ok s i"
    and key_inj: "inv s \<Longrightarrow> inj_on key (held s)"
begin

lemma mk_fresh: "inv s \<Longrightarrow> mk s = (i, s') \<Longrightarrow> i \<noteq> bad \<Longrightarrow> i \<notin> held s"
  using held_mk by blast

lemma mk_ok: "inv s \<Longrightarrow> mk s = (i, s') \<Longrightarrow> i \<noteq> bad \<Longrightarrow> ok s' i"
  using held_mk [of s i s'] held_ok [of s' i] inv_mk [of s] by simp

lemma mk_keeps: "inv s \<Longrightarrow> mk s = (i, s') \<Longrightarrow> j \<in> held s \<Longrightarrow> ok s' j"
  using held_mk [of s i s'] mk_bad [of s s'] held_ok [of s' j] inv_mk [of s] by (cases "i = bad") auto

lemma mk_del_held: "inv s \<Longrightarrow> mk s = (i, s') \<Longrightarrow> i \<noteq> bad \<Longrightarrow> held (del s' i) = held s"
  using held_mk [of s i s'] held_del [of s' i] inv_mk [of s] mk_fresh [of s i s'] by simp

lemma del_keeps: "inv s \<Longrightarrow> i \<in> held s \<Longrightarrow> j \<in> held s \<Longrightarrow> j \<noteq> i \<Longrightarrow> ok (del s i) j"
  using held_del [of s i] held_ok [of "del s i" j] inv_del [of s i] by simp

end

lemma live_inj_on: "em_inv em \<Longrightarrow> inj_on entity_index (live em)"
  by (rule inj_onI) (rule live_index_inj)

lemma destroy_live: "em_inv em \<Longrightarrow> e \<in> live em \<Longrightarrow> destroy em e = destroyAlive em e"
  by (simp add: destroy_def live_iff)

interpretation em: id_allocator em_inv live create destroy alive entity_index ENTITY_ID_INVALID
proof
  show "em_inv (snd (create s))" if "em_inv s" for s
    using that by (rule em_inv_create)
  show "em_inv (destroy s i)" if "em_inv s" "i \<in> live s" for s i
    using that by (simp add: destroy_live em_inv_destroyAlive)
  show "live s' = insert i (live s) \<and> entity_index i \<notin> entity_index ` live s"
    if "em_inv s" "create s = (i, s')" "i \<noteq> ENTITY_ID_INVALID" for s i s'
    using that by (rule live_create)
  show "s' = s" if "em_inv s" "create s = (ENTITY_ID_INVALID, s')" for s s'
    using create_invalid [OF that] by simp
  show "live (destroy s i) = live s - {i}" if "em_inv s" "i \<in> live s" for s i
    using that by (simp add: destroy_live live_destroyAlive)
  show "alive s i" if "em_inv s" "i \<in> live s" for s i
    using that by (simp add: live_iff)
  show "inj_on entity_index (live s)" if "em_inv s" for s
    using that by (rule live_inj_on)
qed

section \<open>Histories\<close>

text \<open>The histories of a client that destroys only identifiers it holds: \<open>em_reach em H\<close> says that the
  manager can be in state \<open>em\<close> while the client holds the identifiers \<open>H\<close>.\<close>

inductive em_reach :: "EntityManager \<Rightarrow> EntityID set \<Rightarrow> bool" where
  new: "em_reach EntityManager_new {}"
| create: "em_reach em H \<Longrightarrow> create em = (e, em') \<Longrightarrow> e \<noteq> ENTITY_ID_INVALID \<Longrightarrow> em_reach em' (insert e H)"
| create_fail: "em_reach em H \<Longrightarrow> create em = (ENTITY_ID_INVALID, em') \<Longrightarrow> em_reach em' H"
| destroy: "em_reach em H \<Longrightarrow> e \<in> H \<Longrightarrow> em_reach (destroy em e) (H - {e})"
| clear: "em_reach em H \<Longrightarrow> em_reach (clear_entities em) {}"

inductive_cases em_reach_cases: "em_reach em H"

lemma em_reach_inv: "em_reach em H \<Longrightarrow> em_inv em \<and> live em = H"
proof (induction rule: em_reach.induct)
  case new
  then show ?case by (simp add: em_inv_new live_new)
next
  case (create em H e em')
  then show ?case using em.held_mk [of em e em'] em.inv_mk [of em] by simp
next
  case (create_fail em H em')
  then show ?case using em.mk_bad [of em em'] by simp
next
  case (destroy em H e)
  then show ?case using em.held_del [of em e] em.inv_del [of em e] by simp
next
  case (clear em H)
  then show ?case by (simp add: clear_entities_new em_inv_new live_new)
qed

text \<open>C6: In every history in which the client destroys only identifiers it holds, the manager's
  live identifiers are exactly those held, all of them answer \<open>alive\<close>, no two of them share an
  index, their number is \<open>count()\<close> (so the unchecked counter never wraps), and a new identifier is
  valid, fresh, and on an index that no held identifier uses.\<close>

theorem entity_manager_histories:
  assumes "em_reach em H"
  shows "live em = H \<and> (\<forall>e \<in> H. alive em e) \<and> inj_on entity_index H
    \<and> unat (m_aliveCount em) = card H
    \<and> (\<forall>e em'. create em = (e, em') \<and> e \<noteq> ENTITY_ID_INVALID \<longrightarrow>
         entity_valid e \<and> alive em' e \<and> entity_index e \<notin> entity_index ` H)"
proof -
  have inv: "em_inv em" and live: "live em = H" using em_reach_inv [OF assms] by simp_all
  have "entity_valid e \<and> alive em' e \<and> entity_index e \<notin> entity_index ` H"
    if c: "create em = (e, em')" and e: "e \<noteq> ENTITY_ID_INVALID" for e em'
  proof -
    have inv': "em_inv em'" using em.inv_mk [OF inv] c by simp
    have "e \<in> live em'" using em.held_mk [OF inv c e] by simp
    then have "unat (entity_index e) < length (m_generations em')" using inv' by (simp add: live_valid)
    moreover have "length (m_generations em') \<le> 2 ^ 22 - 1" using inv' by (simp add: em_inv_def)
    ultimately have "entity_valid e" using invalid_index by (auto simp: entity_valid_def)
    then show ?thesis using em.mk_ok [OF inv c e] em.held_mk [OF inv c e] live by simp
  qed
  then show ?thesis
    using inv live live_count [OF inv] em.held_ok [OF inv] em.key_inj [OF inv] by simp
qed

lemma create_new: "create EntityManager_new = (make_EntityID 0 0, \<lparr>m_generations = [0], m_freeIndices = [], m_aliveCount = 1\<rparr>)"
  by (simp add: create_grow EntityManager_new_def)

lemma make_zero_valid: "make_EntityID 0 0 \<noteq> ENTITY_ID_INVALID"
  by (simp add: make_EntityID_def ENTITY_ID_INVALID_def)

theorem entity_manager_histories_witness:
  "\<exists>em e. em_reach em {e} \<and> e = make_EntityID 0 0 \<and> alive em e \<and> unat (m_aliveCount em) = 1"
proof -
  let ?em = "snd (create EntityManager_new)" and ?e = "make_EntityID 0 0"
  have c: "create EntityManager_new = (?e, ?em)" by (simp add: create_new)
  have r: "em_reach ?em {?e}" using em_reach.create [OF em_reach.new c make_zero_valid] by simp
  show ?thesis using entity_manager_histories [OF r] r by auto
qed

section \<open>Stale identifiers\<close>

text \<open>Operations in any order, by any client (it may pass identifiers it does not hold).\<close>

datatype em_op = Create_op | Destroy_op EntityID | Clear_op

fun em_run :: "EntityManager \<Rightarrow> em_op list \<Rightarrow> EntityManager" where
  "em_run em [] = em"
| "em_run em (Create_op # ops) = em_run (snd (create em)) ops"
| "em_run em (Destroy_op e # ops) = em_run (destroy em e) ops"
| "em_run em (Clear_op # ops) = em_run (clear_entities em) ops"

fun names_index :: "u32 \<Rightarrow> em_op \<Rightarrow> bool" where
  "names_index i (Destroy_op e) \<longleftrightarrow> entity_index e = i"
| "names_index i op \<longleftrightarrow> False"

definition destroys_of :: "u32 \<Rightarrow> em_op list \<Rightarrow> nat" where
  "destroys_of i ops = length (filter (names_index i) ops)"

lemma em_run_append: "em_run em (pre @ post) = em_run (em_run em pre) post"
  by (induction em pre rule: em_run.induct) simp_all

text \<open>The part of the invariant that no client can break.\<close>

definition em_bounds :: "EntityManager \<Rightarrow> bool" where
  "em_bounds em \<longleftrightarrow> length (m_generations em) < 2 ^ 22
     \<and> (\<forall>g \<in> set (m_generations em). unat g < 2 ^ 10)
     \<and> (\<forall>i \<in> set (m_freeIndices em). unat i < length (m_generations em))"

definition gen_of :: "EntityManager \<Rightarrow> u32 \<Rightarrow> nat" where
  "gen_of em i = unat (m_generations em ! unat i)"

lemma alive_gen:
  "em_bounds em \<Longrightarrow> alive em e \<Longrightarrow>
   unat (entity_index e) < length (m_generations em) \<and> gen_of em (entity_index e) = unat (entity_generation e)"
  by (auto simp: alive_def Let_def em_bounds_def index_ge_length gen_of_def not_le unat_ucast_u16
      simp flip: unat_ucast_u16 split: if_splits)

lemma create_frame:
  "em_bounds em \<Longrightarrow> em_bounds (snd (create em))
   \<and> length (m_generations em) \<le> length (m_generations (snd (create em)))
   \<and> (\<forall>i. unat i < length (m_generations em) \<longrightarrow> gen_of (snd (create em)) i = gen_of em i)"
  by (cases "m_freeIndices em = []"; cases "length (m_generations em) < 2 ^ 22 - 1")
    (auto simp: create_recycle create_full create_grow em_bounds_def gen_of_def nth_append
      dest: in_set_butlastD)

lemma destroy_frame:
  assumes b: "em_bounds em"
  shows "em_bounds (destroy em e)
   \<and> length (m_generations (destroy em e)) = length (m_generations em)
   \<and> (\<forall>i. gen_of (destroy em e) i = (if alive em e \<and> i = entity_index e
        then (gen_of em i + 1) mod 2 ^ 10 else gen_of em i))"
proof (cases "alive em e")
  case True
  have idx: "unat (entity_index e) < length (m_generations em)" using alive_gen [OF b True] by simp
  then have gen: "gen_of (destroy em e) i = (if i = entity_index e
      then (gen_of em i + 1) mod 2 ^ 10 else gen_of em i)" for i
    using True by (simp add: destroy_def gen_of_def generations_destroyAlive word_unat_eq_iff)
  have len: "length (m_generations (destroy em e)) = length (m_generations em)"
    by (simp add: destroy_def destroyAlive_def Let_def)
  have "unat (m_generations (destroy em e) ! j) < 2 ^ 10" if "j < length (m_generations em)" for j
    using True idx b that
    by (auto simp: destroy_def generations_destroyAlive em_bounds_def)
  then have "\<forall>g \<in> set (m_generations (destroy em e)). unat g < 2 ^ 10"
    by (auto simp: in_set_conv_nth len)
  moreover have "set (m_freeIndices (destroy em e)) = insert (entity_index e) (set (m_freeIndices em))"
    using True by (simp add: destroy_def destroyAlive_def Let_def)
  ultimately show ?thesis using b True gen len idx by (simp add: em_bounds_def)
next
  case False
  then show ?thesis using b by (simp add: destroy_def)
qed

text \<open>After any creations and destructions, the generation of an index has advanced by the number of effective
  destructions of that index, which is at most the number of destructions requested.\<close>

lemma em_run_generation:
  assumes "em_bounds em" "unat i < length (m_generations em)" "Clear_op \<notin> set ops"
  shows "em_bounds (em_run em ops) \<and> unat i < length (m_generations (em_run em ops))
    \<and> (\<exists>k \<le> destroys_of i ops. gen_of (em_run em ops) i = (gen_of em i + k) mod 2 ^ 10)"
  using assms
proof (induction em ops rule: em_run.induct)
  case (1 em)
  have "gen_of em i < 2 ^ 10" using 1 by (simp add: em_bounds_def gen_of_def)
  then show ?case using 1 by (simp add: destroys_of_def)
next
  case (2 em ops)
  then show ?case using create_frame [of em] by (simp add: destroys_of_def)
next
  case (3 em e ops)
  note fr = destroy_frame [OF 3(2), of e]
  with 3 obtain k where k: "k \<le> destroys_of i ops"
    "gen_of (em_run (destroy em e) ops) i = (gen_of (destroy em e) i + k) mod 2 ^ 10"
    "em_bounds (em_run (destroy em e) ops)" "unat i < length (m_generations (em_run (destroy em e) ops))"
    by auto
  show ?case
  proof (cases "alive em e \<and> i = entity_index e")
    case True
    then have "gen_of (em_run (destroy em e) ops) i = (gen_of em i + Suc k) mod 2 ^ 10"
      using k fr by (simp add: mod_simps)
    moreover have "Suc k \<le> destroys_of i (Destroy_op e # ops)" using True k by (simp add: destroys_of_def)
    ultimately show ?thesis using k by auto
  next
    case False
    then have "gen_of (em_run (destroy em e) ops) i = (gen_of em i + k) mod 2 ^ 10" using k fr by auto
    moreover have "k \<le> destroys_of i (Destroy_op e # ops)" using k by (simp add: destroys_of_def)
    ultimately show ?thesis using k by auto
  qed
next
  case (4 em ops)
  have False using 4(4) by simp
  then show ?case ..
qed

text \<open>\<open>clear()\<close> forgets everything, the generations included: whatever happened before it, what
  follows behaves as on a new manager.\<close>

lemma em_run_cleared: "em_run em (pre @ Clear_op # post) = em_run EntityManager_new post"
  by (simp add: em_run_append clear_entities_new)

lemma mod_shift_neq:
  assumes "(g :: nat) < m" "0 < k" "k < m"
  shows "(g + k) mod m \<noteq> g"
proof (cases "g + k < m")
  case True
  then show ?thesis using assms by simp
next
  case False
  then have "(g + k) mod m = g + k - m" using assms by (simp add: le_mod_geq not_less)
  then show ?thesis using assms False by simp
qed

lemma destroyed_stays_dead:
  assumes "em_bounds em" and "alive em e" and "Clear_op \<notin> set ops" and "destroys_of (entity_index e) ops < 1023"
  shows "\<not> alive (em_run (destroy em e) ops) e"
proof
  let ?i = "entity_index e" and ?em = "em_run (destroy em e) ops"
  assume "alive ?em e"
  note fr = destroy_frame [OF assms(1), of e]
  have i: "unat ?i < length (m_generations em)" and g: "gen_of em ?i = unat (entity_generation e)"
    using alive_gen [OF assms(1,2)] by simp_all
  obtain k where k: "k \<le> destroys_of ?i ops" "gen_of ?em ?i = (gen_of (destroy em e) ?i + k) mod 2 ^ 10"
    and b: "em_bounds ?em"
    using em_run_generation [of "destroy em e" ?i ops] fr i assms(3) by auto
  have "gen_of ?em ?i = (gen_of em ?i + Suc k) mod 2 ^ 10" using k fr assms(2) by (simp add: mod_simps)
  moreover have "gen_of ?em ?i = unat (entity_generation e)" using alive_gen [OF b \<open>alive ?em e\<close>] by simp
  moreover have "gen_of em ?i < 2 ^ 10" using assms(1) i by (simp add: em_bounds_def gen_of_def)
  ultimately show False using mod_shift_neq [of "gen_of em ?i" "2 ^ 10" "Suc k"] k assms(4) g by simp
qed

text \<open>The bounds hold in every run of the manager, whatever the clients pass.\<close>

lemma em_bounds_run: "em_bounds em \<Longrightarrow> em_bounds (em_run em ops)"
proof (induction em ops rule: em_run.induct)
  case (4 em ops)
  then show ?case by (simp add: clear_entities_new EntityManager_new_def em_bounds_def)
qed (use create_frame destroy_frame in simp_all)

lemma em_bounds_new: "em_bounds EntityManager_new"
  by (simp add: EntityManager_new_def em_bounds_def)

text \<open>After the 1023 further destructions, or after a \<open>clear()\<close>, the identifier can be issued again:
  both limits of the property below are sharp. Here \<open>clear()\<close> alone revives it.\<close>

lemma cleared_identifier_revives:
  "let em = em_run EntityManager_new [Create_op]; e = make_EntityID 0 0
   in alive em e \<and> \<not> alive (destroy em e) e \<and> alive (em_run (destroy em e) [Clear_op, Create_op]) e"
proof -
  let ?em = "snd (create EntityManager_new)" and ?e = "make_EntityID 0 0"
  have al: "alive ?em ?e" using em.mk_ok [OF em_inv_new] create_new make_zero_valid by simp
  have "em_bounds ?em" using create_frame [OF em_bounds_new] by simp
  then have "\<not> alive (em_run (destroy ?em ?e) []) ?e"
    using destroyed_stays_dead [of ?em ?e "[]"] al by (simp add: destroys_of_def)
  then show ?thesis using al by (simp add: clear_entities_new Let_def)
qed

text \<open>C7: Take any run of the manager, with creations, destructions and clears in any order and with
  any identifiers passed, and an identifier that is alive after it. Once destroyed, the identifier
  does not answer \<open>alive\<close> after any further operations, as long as \<open>clear()\<close> is not among them and
  fewer than 1023 further destructions name its index (the generation field has 10 bits). A
  \<open>clear()\<close> ends the guarantee, because it also forgets the generations: after it the manager is in
  the state in which the operations that follow it leave a new manager, so it can issue the
  identifiers from before the clear again.\<close>

theorem destroyed_entity_stays_dead:
  assumes "em = em_run EntityManager_new before" and "alive em e"
  shows "(Clear_op \<notin> set ops \<and> destroys_of (entity_index e) ops < 1023
            \<longrightarrow> \<not> alive (em_run (destroy em e) ops) e)
    \<and> (\<forall>pre post. ops = pre @ Clear_op # post
            \<longrightarrow> em_run (destroy em e) ops = em_run EntityManager_new post)"
  using destroyed_stays_dead [of em e ops] em_bounds_run [OF em_bounds_new] assms em_run_cleared
  by metis

theorem destroyed_entity_stays_dead_witness:
  "\<exists>em e ops. em = em_run EntityManager_new [Create_op] \<and> alive em e \<and> Clear_op \<notin> set ops
     \<and> destroys_of (entity_index e) ops = 1 \<and> \<not> alive (em_run (destroy em e) ops) e"
proof -
  let ?em = "em_run EntityManager_new [Create_op]" and ?e = "make_EntityID 0 0"
    and ?ops = "[Create_op, Destroy_op (make_EntityID 0 1), Create_op]"
  have al: "alive ?em ?e" using em.mk_ok [OF em_inv_new] create_new make_zero_valid by simp
  have "entity_index (make_EntityID 0 1) = entity_index ?e" by (simp add: entity_index_make)
  then have d: "destroys_of (entity_index ?e) ?ops = 1" by (simp add: destroys_of_def)
  have "\<not> alive (em_run (destroy ?em ?e) ?ops) ?e"
    using destroyed_entity_stays_dead [OF refl al, of ?ops] d by simp
  then show ?thesis using al d by (intro exI [of _ ?em] exI [of _ ?e] exI [of _ ?ops]) simp
qed

end
