(* ===== verification/Component_Pool.thy ===== *)
theory Component_Pool
  imports Entity_Id
begin

text \<open>
  The sparse-set component pool of \<^verbatim>\<open>src/core/ecs/component.h\<close>. \<open>m_sparse\<close> maps an entity index to
  a position of the two parallel dense arrays. The component type \<open>T\<close> is the type parameter \<open>'c\<close>.
  A \<open>get\<close> whose assertions fail is \<open>None\<close>. The pool refines a finite map from identifiers to
  components; the locale \<open>component_store\<close> states that contract for the world and the views.
\<close>

section \<open>The pool\<close>

record 'c ComponentPool =
  m_sparse :: "u32 list"
  m_dense :: "EntityID list"
  m_components :: "'c list"
  m_mutationVersion :: u64

definition ComponentPool_new :: "'c ComponentPool" where
  "ComponentPool_new = \<lparr>m_sparse = [], m_dense = [], m_components = [], m_mutationVersion = 0\<rparr>"

definition findDenseIndex :: "'c ComponentPool \<Rightarrow> EntityID \<Rightarrow> u32 option" where
  "findDenseIndex p e =
     (let idx = entity_index e
      in if idx \<ge> of_nat (length (m_sparse p)) then None
         else let denseIndex = m_sparse p ! unat idx
              in if denseIndex \<ge> of_nat (length (m_dense p)) then None
                 else if m_dense p ! unat denseIndex \<noteq> e then None
                 else Some denseIndex)"

text \<open>The three assertions of \<open>requireDenseIndex\<close> are the three guards of \<open>findDenseIndex\<close>.\<close>

definition requireDenseIndex :: "'c ComponentPool \<Rightarrow> EntityID \<Rightarrow> u32 option" where
  "requireDenseIndex p e =
     (let idx = entity_index e
      in if \<not> idx < of_nat (length (m_sparse p)) then None
         else let denseIndex = m_sparse p ! unat idx
              in if \<not> denseIndex < of_nat (length (m_dense p)) then None
                 else if m_dense p ! unat denseIndex = e then Some denseIndex
                 else None)"

definition resize_u32 :: "u32 list \<Rightarrow> nat \<Rightarrow> u32 \<Rightarrow> u32 list" where
  "resize_u32 xs n v = take n xs @ replicate (n - length xs) v"

text \<open>\<open>pool_add\<close> returns the position of the component, which is the reference the source returns.\<close>

definition pool_add :: "'c ComponentPool \<Rightarrow> EntityID \<Rightarrow> 'c \<Rightarrow> u32 \<times> 'c ComponentPool" where
  "pool_add p e v =
     (case findDenseIndex p e of
        Some existingDenseIndex \<Rightarrow> (existingDenseIndex, p)
      | None \<Rightarrow>
          let idx = entity_index e;
              sparse = (if idx \<ge> of_nat (length (m_sparse p))
                        then resize_u32 (m_sparse p) (unat idx + 1) (NOT 0) else m_sparse p);
              denseIndex = of_nat (length (m_dense p))
          in (denseIndex,
              \<lparr>m_sparse = sparse[unat idx := denseIndex],
               m_dense = m_dense p @ [e],
               m_components = m_components p @ [v],
               m_mutationVersion = m_mutationVersion p + 1\<rparr>))"

definition pool_get :: "'c ComponentPool \<Rightarrow> EntityID \<Rightarrow> 'c option" where
  "pool_get p e = map_option (\<lambda>d. m_components p ! unat d) (requireDenseIndex p e)"

definition tryGet :: "'c ComponentPool \<Rightarrow> EntityID \<Rightarrow> 'c option" where
  "tryGet p e = map_option (\<lambda>d. m_components p ! unat d) (findDenseIndex p e)"

definition pool_has :: "'c ComponentPool \<Rightarrow> EntityID \<Rightarrow> bool" where
  "pool_has p e = (findDenseIndex p e \<noteq> None)"

definition pool_remove :: "'c ComponentPool \<Rightarrow> EntityID \<Rightarrow> bool \<times> 'c ComponentPool" where
  "pool_remove p e =
     (case findDenseIndex p e of
        None \<Rightarrow> (False, p)
      | Some denseIndex \<Rightarrow>
          let idx = entity_index e;
              lastDense = of_nat (length (m_dense p)) - 1;
              p1 = (if denseIndex \<noteq> lastDense then
                      let lastEntityId = m_dense p ! unat lastDense
                      in p\<lparr>m_dense := (m_dense p)[unat denseIndex := lastEntityId],
                           m_components := (m_components p)[unat denseIndex := m_components p ! unat lastDense],
                           m_sparse := (m_sparse p)[unat (entity_index lastEntityId) := denseIndex]\<rparr>
                    else p)
          in (True, p1\<lparr>m_dense := butlast (m_dense p1),
                       m_components := butlast (m_components p1),
                       m_sparse := (m_sparse p1)[unat idx := NOT 0],
                       m_mutationVersion := m_mutationVersion p1 + 1\<rparr>))"

definition pool_clear :: "'c ComponentPool \<Rightarrow> 'c ComponentPool" where
  "pool_clear p =
     \<lparr>m_sparse = [], m_dense = [], m_components = [],
      m_mutationVersion = (if m_dense p \<noteq> [] then m_mutationVersion p + 1 else m_mutationVersion p)\<rparr>"

definition pool_size :: "'c ComponentPool \<Rightarrow> usize" where
  "pool_size p = of_nat (length (m_dense p))"

section \<open>Invariant and abstraction\<close>

definition pool_inv :: "'c ComponentPool \<Rightarrow> bool" where
  "pool_inv p \<longleftrightarrow>
     length (m_components p) = length (m_dense p)
     \<and> length (m_sparse p) \<le> 2 ^ 22
     \<and> (\<forall>d < length (m_dense p).
          unat (entity_index (m_dense p ! d)) < length (m_sparse p)
          \<and> unat (m_sparse p ! unat (entity_index (m_dense p ! d))) = d)"

definition pool_map :: "'c ComponentPool \<Rightarrow> EntityID \<Rightarrow> 'c option" where
  "pool_map p = map_of (zip (m_dense p) (m_components p))"

text \<open>No stored identifier other than \<open>e\<close> uses the index of \<open>e\<close>.\<close>

definition slot_free :: "'c ComponentPool \<Rightarrow> EntityID \<Rightarrow> bool" where
  "slot_free p e \<longleftrightarrow> (\<forall>e' \<in> set (m_dense p). entity_index e' = entity_index e \<longrightarrow> e' = e)"

text \<open>The bound on the dense arrays follows by counting: the sparse array maps them injectively.\<close>

lemma dense_le_sparse:
  assumes "pool_inv p"
  shows "length (m_dense p) \<le> length (m_sparse p)"
proof -
  let ?f = "\<lambda>d. unat (entity_index (m_dense p ! d))"
  have "inj_on ?f {..<length (m_dense p)}"
    using assms by (intro inj_onI) (metis lessThan_iff pool_inv_def)
  then have "card {..<length (m_dense p)} \<le> card {..<length (m_sparse p)}"
    using assms by (intro card_inj_on_le) (auto simp: pool_inv_def)
  then show ?thesis by simp
qed

lemma pool_invD:
  assumes "pool_inv p"
  shows "length (m_components p) = length (m_dense p)" "length (m_sparse p) \<le> 2 ^ 22"
    "length (m_dense p) \<le> 2 ^ 22"
    "d < length (m_dense p) \<Longrightarrow> unat (entity_index (m_dense p ! d)) < length (m_sparse p)"
    "d < length (m_dense p) \<Longrightarrow> unat (m_sparse p ! unat (entity_index (m_dense p ! d))) = d"
  using assms dense_le_sparse [OF assms] by (auto simp: pool_inv_def)

lemma dense_index_inj:
  "pool_inv p \<Longrightarrow> d < length (m_dense p) \<Longrightarrow> d' < length (m_dense p) \<Longrightarrow>
   entity_index (m_dense p ! d) = entity_index (m_dense p ! d') \<Longrightarrow> d = d'"
  using pool_invD(5) by metis

lemma distinct_dense: "pool_inv p \<Longrightarrow> distinct (m_dense p)"
  by (auto simp: distinct_conv_nth dest: dense_index_inj)

lemma word_ge_length:
  "n \<le> 2 ^ 22 \<Longrightarrow> (of_nat n \<le> (w :: u32)) = (n \<le> unat w)"
  by (simp add: word_le_nat_alt unat_of_nat_small)

lemma word_less_length:
  "n \<le> 2 ^ 22 \<Longrightarrow> ((w :: u32) < of_nat n) = (unat w < n)"
  by (simp add: word_less_nat_alt unat_of_nat_small)

lemma length_word_compare:
  fixes w :: u32
  assumes "pool_inv p"
  shows "(of_nat (length (m_sparse p)) \<le> w) = (length (m_sparse p) \<le> unat w)"
    "(of_nat (length (m_dense p)) \<le> w) = (length (m_dense p) \<le> unat w)"
  using pool_invD(2,3) [OF assms] by (simp_all add: word_ge_length)

lemma findDenseIndex_iff:
  assumes "pool_inv p"
  shows "findDenseIndex p e = Some d \<longleftrightarrow> unat d < length (m_dense p) \<and> m_dense p ! unat d = e"
  using assms pool_invD(4,5) [OF assms, of "unat d"]
  by (auto simp: findDenseIndex_def Let_def length_word_compare word_unat_eq_iff)

lemma findDenseIndex_None:
  assumes "pool_inv p"
  shows "findDenseIndex p e = None \<longleftrightarrow> e \<notin> set (m_dense p)"
proof -
  have "\<exists>d :: u32. unat d < length (m_dense p) \<and> m_dense p ! unat d = e" if mem: "e \<in> set (m_dense p)"
  proof -
    obtain i where "i < length (m_dense p)" "m_dense p ! i = e"
      using mem by (auto simp: in_set_conv_nth)
    then show ?thesis using pool_invD(3) [OF assms]
      by (intro exI [where x = "of_nat i"]) (simp add: unat_of_nat_small)
  qed
  then show ?thesis
    using findDenseIndex_iff [OF assms, of e] by (metis nth_mem option.exhaust option.distinct(1))
qed

lemma pool_map_nth:
  assumes "pool_inv p" "d < length (m_dense p)"
  shows "pool_map p (m_dense p ! d) = Some (m_components p ! d)"
  using assms unfolding pool_map_def
  by (intro map_of_is_SomeI) (auto simp: distinct_dense pool_invD set_zip)

lemma pool_map_None: "pool_inv p \<Longrightarrow> pool_map p e = None \<longleftrightarrow> e \<notin> set (m_dense p)"
  by (simp add: pool_map_def map_of_zip_is_None pool_invD)

lemma dom_pool_map: "pool_inv p \<Longrightarrow> dom (pool_map p) = set (m_dense p)"
  by (auto simp: dom_def pool_map_None simp flip: not_None_eq)

lemma requireDenseIndex_find: "requireDenseIndex p e = findDenseIndex p e"
  by (simp add: requireDenseIndex_def findDenseIndex_def Let_def not_less)

lemma tryGet_pool_map: "pool_inv p \<Longrightarrow> tryGet p e = pool_map p e"
proof (cases "findDenseIndex p e")
  case None
  assume "pool_inv p"
  then show ?thesis using None
    by (metis tryGet_def findDenseIndex_None pool_map_None option.map_disc_iff)
next
  case (Some d)
  assume "pool_inv p"
  then have "unat d < length (m_dense p)" "m_dense p ! unat d = e"
    using Some findDenseIndex_iff by blast+
  then show ?thesis using Some pool_map_nth [OF \<open>pool_inv p\<close>, of "unat d"] by (simp add: tryGet_def)
qed

lemma pool_get_pool_map: "pool_inv p \<Longrightarrow> pool_get p e = pool_map p e"
  using tryGet_pool_map by (simp add: pool_get_def tryGet_def requireDenseIndex_find)

lemma pool_has_iff: "pool_inv p \<Longrightarrow> pool_has p e \<longleftrightarrow> pool_map p e \<noteq> None"
  by (simp add: pool_has_def findDenseIndex_None pool_map_None)

section \<open>Operations\<close>

lemma pool_inv_new [inv_intros]: "pool_inv ComponentPool_new"
  by (simp add: pool_inv_def ComponentPool_new_def)

lemma pool_map_new: "pool_map ComponentPool_new = Map.empty"
  by (simp add: pool_map_def ComponentPool_new_def)

lemma slot_free_index:
  assumes "slot_free p e" "e \<notin> set (m_dense p)" "d < length (m_dense p)"
  shows "entity_index (m_dense p ! d) \<noteq> entity_index e"
  using assms by (auto simp: slot_free_def)

lemma pool_add_known: "pool_inv p \<Longrightarrow> e \<in> set (m_dense p) \<Longrightarrow> snd (pool_add p e v) = p"
  using findDenseIndex_None [of p e] by (auto simp: pool_add_def split: option.splits)

definition grown_sparse :: "'c ComponentPool \<Rightarrow> EntityID \<Rightarrow> u32 list" where
  "grown_sparse p e = (if length (m_sparse p) \<le> unat (entity_index e)
     then m_sparse p @ replicate (unat (entity_index e) + 1 - length (m_sparse p)) (NOT 0) else m_sparse p)"

lemma grown_sparse_length:
  "unat (entity_index e) < length (grown_sparse p e)" "length (m_sparse p) \<le> length (grown_sparse p e)"
  by (auto simp: grown_sparse_def)

lemma grown_sparse_bound: "pool_inv p \<Longrightarrow> length (grown_sparse p e) \<le> 2 ^ 22"
  using unat_entity_index_less [of e] pool_invD(2) [of p] by (auto simp: grown_sparse_def)

lemma grown_sparse_nth: "i < length (m_sparse p) \<Longrightarrow> grown_sparse p e ! i = m_sparse p ! i"
  by (simp add: grown_sparse_def nth_append)

lemma pool_add_new:
  assumes "pool_inv p" "e \<notin> set (m_dense p)"
  shows "pool_add p e v = (of_nat (length (m_dense p)),
    \<lparr>m_sparse = (grown_sparse p e)[unat (entity_index e) := of_nat (length (m_dense p))],
     m_dense = m_dense p @ [e], m_components = m_components p @ [v],
     m_mutationVersion = m_mutationVersion p + 1\<rparr>)"
proof -
  have "findDenseIndex p e = None" using assms by (simp add: findDenseIndex_None)
  then show ?thesis using assms(1)
    by (simp add: pool_add_def Let_def grown_sparse_def resize_u32_def length_word_compare)
qed

lemma pool_inv_add [inv_intros]:
  assumes inv: "pool_inv p" and free: "slot_free p e"
  shows "pool_inv (snd (pool_add p e v))"
proof (cases "e \<in> set (m_dense p)")
  case True
  then show ?thesis using inv by (simp add: pool_add_known)
next
  case False
  define q where "q = snd (pool_add p e v)"
  let ?n = "length (m_dense p)" and ?i = "unat (entity_index e)"
  have sp: "m_sparse q = (grown_sparse p e)[?i := of_nat ?n]" and de: "m_dense q = m_dense p @ [e]"
    and co: "m_components q = m_components p @ [v]"
    using inv False by (simp_all add: q_def pool_add_new)
  have n: "unat (of_nat ?n :: u32) = ?n" using pool_invD(3) [OF inv] by (simp add: unat_of_nat_small)
  have "unat (entity_index (m_dense q ! d)) < length (m_sparse q)
      \<and> unat (m_sparse q ! unat (entity_index (m_dense q ! d))) = d" if d: "d < Suc ?n" for d
  proof (cases "d = ?n")
    case True
    then show ?thesis using n grown_sparse_length(1) [where p = p and e = e]
      by (simp add: sp de nth_append)
  next
    case neq: False
    then have "d < ?n" using d by simp
    moreover from this have "unat (entity_index (m_dense p ! d)) \<noteq> ?i"
      using slot_free_index [OF free False] by (simp add: word_unat_eq_iff)
    ultimately show ?thesis
      using pool_invD(4,5) [OF inv, of d] grown_sparse_length(2) [of p e]
      by (simp add: sp de nth_append grown_sparse_nth)
  qed
  moreover have "length (m_sparse q) \<le> 2 ^ 22" using grown_sparse_bound [OF inv] by (simp add: sp)
  ultimately show ?thesis
    using pool_invD(1) [OF inv] unfolding q_def [symmetric] by (simp add: pool_inv_def de co)
qed

lemma pool_map_add:
  assumes "pool_inv p"
  shows "pool_map (snd (pool_add p e v)) = (if e \<in> set (m_dense p) then pool_map p else (pool_map p)(e \<mapsto> v))"
proof (cases "e \<in> set (m_dense p)")
  case True
  then show ?thesis using assms by (simp add: pool_add_known)
next
  case False
  have none: "map_of (zip (m_dense p) (m_components p)) e = None"
    using assms False by (simp add: pool_map_None flip: pool_map_def)
  then show ?thesis using assms False
    by (simp add: pool_add_new pool_map_def pool_invD map_add_def fun_eq_iff none
        eq_commute [of None] map_of_zip_is_None split: option.split)
qed

text \<open>Removal swaps the last dense entry into the hole.\<close>

definition hole_fill :: "nat \<Rightarrow> 'a list \<Rightarrow> 'a list" where
  "hole_fill d xs = butlast (xs[d := last xs])"

lemma hole_fill_nth:
  "d < length xs \<Longrightarrow> i < length xs - 1 \<Longrightarrow> hole_fill d xs ! i = (if i = d then last xs else xs ! i)"
  by (auto simp: hole_fill_def nth_butlast)

lemma hole_fill_length [simp]: "length (hole_fill d xs) = length xs - 1"
  by (simp add: hole_fill_def)

lemma pool_remove_absent: "pool_inv p \<Longrightarrow> e \<notin> set (m_dense p) \<Longrightarrow> pool_remove p e = (False, p)"
  using findDenseIndex_None [of p e] by (simp add: pool_remove_def)

lemma last_dense_index:
  assumes "pool_inv p" "m_dense p \<noteq> []"
  shows "unat (of_nat (length (m_dense p)) - 1 :: u32) = length (m_dense p) - 1"
proof -
  have "of_nat (length (m_dense p)) - 1 = (of_nat (length (m_dense p) - 1) :: u32)"
    using assms(2) by (simp add: of_nat_diff Suc_leI)
  then show ?thesis using pool_invD(3) [OF assms(1)] by (simp add: unat_of_nat_small)
qed

lemma pool_remove_present:
  assumes inv: "pool_inv p" and d: "d < length (m_dense p)"
  shows "fst (pool_remove p (m_dense p ! d))"
    and "m_dense (snd (pool_remove p (m_dense p ! d))) = hole_fill d (m_dense p)"
    and "m_components (snd (pool_remove p (m_dense p ! d))) = hole_fill d (m_components p)"
    and "m_mutationVersion (snd (pool_remove p (m_dense p ! d))) = m_mutationVersion p + 1"
    and "m_sparse (snd (pool_remove p (m_dense p ! d)))
      = (m_sparse p)[unat (entity_index (last (m_dense p))) := of_nat d,
                     unat (entity_index (m_dense p ! d)) := NOT 0]"
proof -
  let ?e = "m_dense p ! d"
  have ne: "m_dense p \<noteq> []" "m_components p \<noteq> []" using d pool_invD(1) [OF inv] by auto
  have u: "unat (of_nat d :: u32) = d" using d pool_invD(3) [OF inv] by (simp add: unat_of_nat_small)
  have f: "findDenseIndex p ?e = Some (of_nat d)" using inv d u by (simp add: findDenseIndex_iff)
  note l = last_dense_index [OF inv ne(1)]
  have eq: "of_nat d = (of_nat (length (m_dense p)) - 1 :: u32) \<longleftrightarrow> d = length (m_dense p) - 1"
    using l u by (metis word_unat_eq_iff)
  have last: "m_dense p ! (length (m_dense p) - 1) = last (m_dense p)"
    "m_components p ! (length (m_dense p) - 1) = last (m_components p)"
    using ne pool_invD(1) [OF inv] by (simp_all add: last_conv_nth)
  have same: "xs[length xs - 1 := last xs] = xs" if "xs \<noteq> []" for xs :: "'b list"
    using that by (metis last_conv_nth list_update_id)
  note facts = pool_remove_def f u l eq last hole_fill_def Let_def
  show "fst (pool_remove p ?e)"
    and "m_mutationVersion (snd (pool_remove p ?e)) = m_mutationVersion p + 1" by (simp_all add: facts)
  show "m_dense (snd (pool_remove p ?e)) = hole_fill d (m_dense p)"
    using same [OF ne(1)] last by (simp add: facts)
  show "m_components (snd (pool_remove p ?e)) = hole_fill d (m_components p)"
    using same [OF ne(2)] last pool_invD(1) [OF inv] by (simp add: facts)
  show "m_sparse (snd (pool_remove p ?e)) = (m_sparse p)[unat (entity_index (last (m_dense p))) := of_nat d,
                     unat (entity_index ?e) := NOT 0]"
    using last by (auto simp: facts)
qed

lemma pool_inv_remove [inv_intros]:
  assumes inv: "pool_inv p"
  shows "pool_inv (snd (pool_remove p e))"
proof (cases "e \<in> set (m_dense p)")
  case False
  then show ?thesis using inv by (simp add: pool_remove_absent)
next
  case True
  then obtain d where d: "d < length (m_dense p)" and e: "e = m_dense p ! d" by (auto simp: in_set_conv_nth)
  define q where "q = snd (pool_remove p e)"
  let ?n = "length (m_dense p)" and ?l = "last (m_dense p)"
  have l: "?l = m_dense p ! (?n - 1)" using d by (cases "m_dense p = []") (auto simp: last_conv_nth)
  note fields = pool_remove_present [OF inv d, folded e, folded q_def]
  have u: "unat (of_nat d :: u32) = d" using d pool_invD(3) [OF inv] by (simp add: unat_of_nat_small)
  have inj: "unat (entity_index (m_dense p ! i)) = unat (entity_index (m_dense p ! j)) \<longleftrightarrow> i = j"
    if "i < ?n" "j < ?n" for i j
    using that dense_index_inj [OF inv that] by (auto simp: word_unat_eq_iff)
  have "unat (entity_index (m_dense q ! k)) < length (m_sparse q)
      \<and> unat (m_sparse q ! unat (entity_index (m_dense q ! k))) = k" if k: "k < ?n - 1" for k
  proof (cases "k = d")
    case True
    then have "m_dense q ! k = ?l" using k d by (simp add: fields hole_fill_nth)
    moreover have "unat (entity_index ?l) \<noteq> unat (entity_index e)" "unat (entity_index ?l) < length (m_sparse p)"
      using k d True inj [of "?n - 1" d] pool_invD(4) [OF inv, of "?n - 1"] by (auto simp: l e)
    ultimately show ?thesis using u True by (simp add: fields)
  next
    case False
    then have "m_dense q ! k = m_dense p ! k" using k d by (simp add: fields hole_fill_nth)
    moreover have "unat (entity_index (m_dense p ! k)) \<noteq> unat (entity_index ?l)"
      "unat (entity_index (m_dense p ! k)) \<noteq> unat (entity_index e)"
      using k d False inj [of k d] inj [of k "?n - 1"] by (auto simp: l e)
    ultimately show ?thesis using k pool_invD(4,5) [OF inv, of k] by (simp add: fields)
  qed
  then show ?thesis using pool_invD(1,2) [OF inv] unfolding q_def [symmetric]
    by (simp add: pool_inv_def fields)
qed

lemma set_hole_fill:
  assumes "distinct xs" "d < length xs"
  shows "set (hole_fill d xs) = set xs - {xs ! d}"
proof (cases "d = length xs - 1")
  case True
  have "last xs = xs ! d" using assms True by (subst last_conv_nth) auto
  then have "xs[d := last xs] = xs" "last xs = xs ! d" by simp_all
  moreover have "xs \<noteq> []" using assms(2) by auto
  ultimately show ?thesis using set_butlast_distinct [OF assms(1)] by (simp add: hole_fill_def)
next
  case False
  then obtain ys z where xs: "xs = ys @ [z]" and d: "d < length ys"
    using assms(2) by (cases xs rule: rev_cases) auto
  have "hole_fill d xs = ys[d := z]" using d by (simp add: hole_fill_def xs list_update_append)
  moreover have "set (ys[d := z]) = insert z (set ys - {ys ! d})"
    using assms(1) d by (simp add: xs set_update_distinct)
  ultimately show ?thesis using assms(1) d by (auto simp: xs nth_append)
qed

lemma pool_map_remove:
  assumes inv: "pool_inv p"
  shows "pool_map (snd (pool_remove p e)) = (pool_map p)(e := None)"
proof (cases "e \<in> set (m_dense p)")
  case False
  then show ?thesis using inv by (simp add: pool_remove_absent pool_map_None fun_upd_idem)
next
  case True
  then obtain d where d: "d < length (m_dense p)" and e: "e = m_dense p ! d" by (auto simp: in_set_conv_nth)
  define q where "q = snd (pool_remove p e)"
  have invq: "pool_inv q" unfolding q_def using inv by (rule pool_inv_remove)
  note fields = pool_remove_present [OF inv d, folded e, folded q_def]
  have "m_dense p \<noteq> []" "m_components p \<noteq> []" using d pool_invD(1) [OF inv] by auto
  then have lasts: "last (m_dense p) = m_dense p ! (length (m_dense p) - 1)"
    "last (m_components p) = m_components p ! (length (m_dense p) - 1)"
    using pool_invD(1) [OF inv] by (simp_all add: last_conv_nth)
  have dom: "set (m_dense q) = set (m_dense p) - {e}"
    using d distinct_dense [OF inv] by (simp add: fields set_hole_fill e)
  have "pool_map q x = ((pool_map p)(e := None)) x" for x
  proof (cases "x \<in> set (m_dense q)")
    case False
    have "pool_map q x = None" using False invq by (simp add: pool_map_None)
    moreover have "x = e \<or> x \<notin> set (m_dense p)" using False dom by auto
    then have "x = e \<or> pool_map p x = None" using inv by (simp add: pool_map_None)
    ultimately show ?thesis by auto
  next
    case in_q: True
    then obtain k where k: "k < length (m_dense p) - 1" and x: "x = m_dense q ! k"
      by (auto simp: in_set_conv_nth fields)
    let ?j = "if k = d then length (m_dense p) - 1 else k"
    have "x = m_dense p ! ?j" "m_components q ! k = m_components p ! ?j"
      using k d pool_invD(1) [OF inv] lasts by (simp_all add: x fields hole_fill_nth)
    moreover have "pool_map q x = Some (m_components q ! k)"
      using pool_map_nth [OF invq, of k] k by (simp add: x fields)
    moreover have "pool_map p (m_dense p ! ?j) = Some (m_components p ! ?j)"
      by (rule pool_map_nth [OF inv]) (use k d in auto)
    ultimately show ?thesis using in_q dom by auto
  qed
  then show ?thesis by (simp add: fun_eq_iff q_def)
qed

lemma pool_inv_clear [inv_intros]: "pool_inv (pool_clear p)"
  by (simp add: pool_inv_def pool_clear_def)

lemma pool_map_clear: "pool_map (pool_clear p) = Map.empty"
  by (simp add: pool_map_def pool_clear_def)

section \<open>The pool as a map\<close>

text \<open>What the world and the views rely on: a store of components is a map from identifiers, provided
  that the identifiers stored have pairwise different keys.\<close>

locale component_store =
  fixes inv :: "'p \<Rightarrow> bool" and abs :: "'p \<Rightarrow> 'i \<Rightarrow> 'c option" and key :: "'i \<Rightarrow> 'k"
    and ins :: "'p \<Rightarrow> 'i \<Rightarrow> 'c \<Rightarrow> 'p" and del :: "'p \<Rightarrow> 'i \<Rightarrow> bool \<times> 'p"
    and mem :: "'p \<Rightarrow> 'i \<Rightarrow> bool" and look :: "'p \<Rightarrow> 'i \<Rightarrow> 'c option"
  assumes inv_ins: "inv p \<Longrightarrow> (\<forall>j. abs p j \<noteq> None \<and> key j = key i \<longrightarrow> j = i) \<Longrightarrow> inv (ins p i c)"
    and abs_ins: "inv p \<Longrightarrow> (\<forall>j. abs p j \<noteq> None \<and> key j = key i \<longrightarrow> j = i) \<Longrightarrow>
      abs (ins p i c) = (if abs p i = None then (abs p)(i \<mapsto> c) else abs p)"
    and inv_del: "inv p \<Longrightarrow> inv (snd (del p i))"
    and abs_del: "inv p \<Longrightarrow> abs (snd (del p i)) = (abs p)(i := None)"
    and del_result: "inv p \<Longrightarrow> fst (del p i) \<longleftrightarrow> abs p i \<noteq> None"
    and mem_abs: "inv p \<Longrightarrow> mem p i \<longleftrightarrow> abs p i \<noteq> None"
    and look_abs: "inv p \<Longrightarrow> look p i = abs p i"
begin

lemma look_ins:
  "inv p \<Longrightarrow> (\<forall>j. abs p j \<noteq> None \<and> key j = key i \<longrightarrow> j = i) \<Longrightarrow>
   look (ins p i c) j = (if j = i \<and> look p i = None then Some c else look p j)"
  using abs_ins [of p i c] inv_ins [of p i c] by (simp add: look_abs)

lemma look_del: "inv p \<Longrightarrow> look (snd (del p i)) j = (if j = i then None else look p j)"
  using abs_del [of p i] inv_del [of p i] by (simp add: look_abs)

lemma mem_look: "inv p \<Longrightarrow> mem p i \<longleftrightarrow> look p i \<noteq> None"
  by (simp add: mem_abs look_abs)

lemma ins_del:
  "inv p \<Longrightarrow> abs p i = None \<Longrightarrow> (\<forall>j. abs p j \<noteq> None \<and> key j = key i \<longrightarrow> j = i) \<Longrightarrow>
   abs (snd (del (ins p i c) i)) = abs p"
  using abs_ins [of p i c] inv_ins [of p i c] by (simp add: abs_del fun_upd_idem)

end

lemma slot_free_abs:
  "pool_inv p \<Longrightarrow> slot_free p e \<longleftrightarrow> (\<forall>j. pool_map p j \<noteq> None \<and> entity_index j = entity_index e \<longrightarrow> j = e)"
  by (auto simp: slot_free_def pool_map_None)

lemma pool_remove_result: "pool_inv p \<Longrightarrow> fst (pool_remove p e) \<longleftrightarrow> e \<in> set (m_dense p)"
  using pool_remove_present(1) [of p] pool_remove_absent [of p e]
  by (cases "e \<in> set (m_dense p)") (auto simp: in_set_conv_nth)

interpretation cp: component_store pool_inv pool_map entity_index "\<lambda>p e c. snd (pool_add p e c)"
  pool_remove pool_has tryGet
proof
  fix p :: "'c ComponentPool" and e :: EntityID and c :: 'c
  assume inv: "pool_inv p"
  show "pool_inv (snd (pool_remove p e))" using inv by (rule pool_inv_remove)
  show "pool_map (snd (pool_remove p e)) = (pool_map p)(e := None)" using inv by (rule pool_map_remove)
  show "fst (pool_remove p e) \<longleftrightarrow> pool_map p e \<noteq> None"
    using inv by (simp add: pool_remove_result pool_map_None)
  show "pool_has p e \<longleftrightarrow> pool_map p e \<noteq> None" using inv by (rule pool_has_iff)
  show "tryGet p e = pool_map p e" using inv by (rule tryGet_pool_map)
  assume free: "\<forall>j. pool_map p j \<noteq> None \<and> entity_index j = entity_index e \<longrightarrow> j = e"
  show "pool_inv (snd (pool_add p e c))" using inv free by (simp add: pool_inv_add slot_free_abs)
  show "pool_map (snd (pool_add p e c)) = (if pool_map p e = None then (pool_map p)(e \<mapsto> c) else pool_map p)"
    using pool_map_add [OF inv, of e c] pool_map_None [OF inv, of e] by simp
qed

text \<open>C5: The sparse-set pool implements a map from entity identifiers to components: adding a component
  for an entity whose index no other stored entity uses binds it unless it was bound, removing
  unbinds exactly the given entity and reports whether it was bound, every other binding is kept
  through the swap with the last dense entry, the lookups read the map, the invariant is kept, and
  \<open>mutationVersion\<close> moves exactly when the set of stored entities changes.\<close>

theorem pool_refines_map:
  assumes inv: "pool_inv p" and free: "slot_free p e"
  shows "pool_inv (snd (pool_add p e c))
    \<and> (pool_map (snd (pool_add p e c)) = (if e \<in> dom (pool_map p) then pool_map p else (pool_map p)(e \<mapsto> c)))
    \<and> m_components (snd (pool_add p e c)) ! unat (fst (pool_add p e c)) = the (pool_map (snd (pool_add p e c)) e)
    \<and> pool_inv (snd (pool_remove p e))
    \<and> pool_map (snd (pool_remove p e)) = (pool_map p)(e := None)
    \<and> (fst (pool_remove p e) \<longleftrightarrow> e \<in> dom (pool_map p))
    \<and> pool_get p e = pool_map p e \<and> tryGet p e = pool_map p e \<and> (pool_has p e \<longleftrightarrow> e \<in> dom (pool_map p))
    \<and> m_mutationVersion (snd (pool_add p e c)) = m_mutationVersion p + (if e \<in> dom (pool_map p) then 0 else 1)
    \<and> m_mutationVersion (snd (pool_remove p e)) = m_mutationVersion p + (if e \<in> dom (pool_map p) then 1 else 0)"
proof -
  note dom = dom_pool_map [OF inv]
  have invs: "pool_inv (snd (pool_add p e c))" "pool_inv (snd (pool_remove p e))"
    using inv free by (auto intro: inv_intros)
  have add: "pool_map (snd (pool_add p e c)) = (if e \<in> dom (pool_map p) then pool_map p else (pool_map p)(e \<mapsto> c))"
    using pool_map_add [OF inv] by (simp add: dom)
  have rem: "pool_map (snd (pool_remove p e)) = (pool_map p)(e := None)" using inv by (rule cp.abs_del)
  have remr: "fst (pool_remove p e) \<longleftrightarrow> e \<in> dom (pool_map p)" using inv by (simp add: dom pool_remove_result)
  have get: "pool_get p e = pool_map p e \<and> tryGet p e = pool_map p e \<and> (pool_has p e \<longleftrightarrow> e \<in> dom (pool_map p))"
    using inv by (auto simp: pool_get_pool_map cp.look_abs cp.mem_abs)
  have v1: "m_mutationVersion (snd (pool_add p e c)) = m_mutationVersion p + (if e \<in> dom (pool_map p) then 0 else 1)"
    using inv by (simp add: dom pool_add_known pool_add_new)
  have v2: "m_mutationVersion (snd (pool_remove p e)) = m_mutationVersion p + (if e \<in> dom (pool_map p) then 1 else 0)"
    using inv pool_remove_present(4) [OF inv] by (auto simp: dom pool_remove_absent in_set_conv_nth)
  have comp: "m_components (snd (pool_add p e c)) ! unat (fst (pool_add p e c)) = the (pool_map (snd (pool_add p e c)) e)"
  proof (cases "findDenseIndex p e")
    case (Some d)
    then have "unat d < length (m_dense p)" "m_dense p ! unat d = e" using findDenseIndex_iff [OF inv] by blast+
    then show ?thesis using pool_map_nth [OF inv, of "unat d"] Some by (simp add: pool_add_def)
  next
    case None
    then have "e \<notin> set (m_dense p)" using inv by (simp add: findDenseIndex_None)
    moreover have "unat (of_nat (length (m_dense p)) :: u32) = length (m_components p)"
      using pool_invD(1,3) [OF inv] by (simp add: unat_of_nat_small)
    ultimately show ?thesis using pool_map_add [OF inv, of e c] inv by (simp add: pool_add_new)
  qed
  show ?thesis using invs add rem remr get v1 v2 comp by blast
qed

theorem pool_refines_map_witness:
  "\<exists>(p :: nat ComponentPool) e. pool_inv p \<and> slot_free p e \<and> pool_map (snd (pool_add p e 7)) e = Some 7
    \<and> pool_map (snd (pool_remove p e)) e = None"
proof -
  let ?p = "ComponentPool_new :: nat ComponentPool" and ?e = "make_EntityID 3 1"
  have h: "pool_inv ?p" "slot_free ?p ?e" by (rule pool_inv_new, simp add: slot_free_def ComponentPool_new_def)
  show ?thesis
    using h pool_refines_map [OF h, of 7]
    by (intro exI [of _ ?p] exI [of _ ?e]) (simp add: pool_map_new)
qed

end
