(* ===== verification/Scheduler.thy ===== *)
theory Scheduler
  imports Nwb_Prelude "HOL-Library.Multiset"
begin

text \<open>
  The system scheduler of \<^verbatim>\<open>src/core/ecs/system.h\<close> and \<^verbatim>\<open>system.cpp\<close>. A system is known to the
  scheduler by its pointer \<open>'s\<close>; the access lists the systems declare are the function \<open>acc\<close>.
  \<open>rebuild\<close> is the source's loop over the flags \<open>assignedSystems\<close>; the loop may not end for
  arbitrary flags, so it is a partial function whose totality is proved. Reserving capacity has no
  observable effect and is left out.
\<close>

section \<open>Access declarations\<close>

datatype AccessMode = Read | Write

record ComponentAccess =
  access_typeId :: usize
  access_mode :: AccessMode

definition accessesCanShareStage :: "ComponentAccess \<Rightarrow> ComponentAccess \<Rightarrow> bool" where
  "accessesCanShareStage stageAccess systemAccess =
     (if access_typeId stageAccess \<noteq> access_typeId systemAccess then True
      else access_mode stageAccess \<noteq> Write \<and> access_mode systemAccess \<noteq> Write)"

fun stageCanAddAccess :: "ComponentAccess list \<Rightarrow> ComponentAccess \<Rightarrow> bool" where
  "stageCanAddAccess [] systemAccess = True"
| "stageCanAddAccess (stageAccess # rest) systemAccess =
     (if \<not> accessesCanShareStage stageAccess systemAccess then False
      else stageCanAddAccess rest systemAccess)"

fun stageCanAddSystem :: "ComponentAccess list \<Rightarrow> ComponentAccess list \<Rightarrow> bool" where
  "stageCanAddSystem stageAccesses [] = True"
| "stageCanAddSystem stageAccesses (systemAccess # rest) =
     (if \<not> stageCanAddAccess stageAccesses systemAccess then False
      else stageCanAddSystem stageAccesses rest)"

fun mergeStageAccess :: "ComponentAccess list \<Rightarrow> ComponentAccess \<Rightarrow> ComponentAccess list" where
  "mergeStageAccess [] systemAccess = [systemAccess]"
| "mergeStageAccess (stageAccess # rest) systemAccess =
     (if access_typeId stageAccess \<noteq> access_typeId systemAccess
      then stageAccess # mergeStageAccess rest systemAccess
      else if access_mode systemAccess = Write then stageAccess\<lparr>access_mode := Write\<rparr> # rest
      else stageAccess # rest)"

definition mergeSystemAccess :: "ComponentAccess list \<Rightarrow> ComponentAccess list \<Rightarrow> ComponentAccess list" where
  "mergeSystemAccess stageAccesses systemAccesses = foldl mergeStageAccess stageAccesses systemAccesses"

fun registerAccess :: "ComponentAccess list \<Rightarrow> usize \<Rightarrow> AccessMode \<Rightarrow> ComponentAccess list" where
  "registerAccess [] typeId mode = [\<lparr>access_typeId = typeId, access_mode = mode\<rparr>]"
| "registerAccess (access # rest) typeId mode =
     (if access_typeId access \<noteq> typeId then access # registerAccess rest typeId mode
      else if mode = Write then access\<lparr>access_mode := Write\<rparr> # rest
      else access # rest)"

section \<open>The scheduler\<close>

record 's SystemScheduler =
  m_stages :: "'s list list"
  m_allSystems :: "'s list"
  m_dirty :: bool

definition SystemScheduler_new :: "'s SystemScheduler" where
  "SystemScheduler_new = \<lparr>m_stages = [], m_allSystems = [], m_dirty = False\<rparr>"

definition addSystem :: "'s SystemScheduler \<Rightarrow> 's \<Rightarrow> 's SystemScheduler" where
  "addSystem sch system =
     (if system \<in> set (m_allSystems sch) then sch
      else sch\<lparr>m_allSystems := m_allSystems sch @ [system], m_dirty := True\<rparr>)"

definition removeSystem :: "'s SystemScheduler \<Rightarrow> 's \<Rightarrow> 's SystemScheduler" where
  "removeSystem sch system =
     (if system \<in> set (m_allSystems sch)
      then sch\<lparr>m_allSystems := remove1 system (m_allSystems sch), m_dirty := True\<rparr>
      else sch)"

definition clear_scheduler :: "'s SystemScheduler \<Rightarrow> 's SystemScheduler" where
  "clear_scheduler sch = sch\<lparr>m_allSystems := [], m_stages := [], m_dirty := False\<rparr>"

record 's stage_state =
  assignedSystems :: "bool list"
  stageAccesses :: "ComponentAccess list"
  stageSystems :: "'s list"
  numAssigned :: nat

text \<open>One iteration of the inner loop, for the system at position \<open>i\<close>.\<close>

definition stage_step ::
  "('s \<Rightarrow> ComponentAccess list) \<Rightarrow> 's list \<Rightarrow> nat \<Rightarrow> 's stage_state \<Rightarrow> 's stage_state" where
  "stage_step acc systems i st =
     (if assignedSystems st ! i then st
      else let sys = systems ! i
           in if \<not> stageCanAddSystem (stageAccesses st) (acc sys) then st
              else st\<lparr>stageAccesses := mergeSystemAccess (stageAccesses st) (acc sys),
                      assignedSystems := (assignedSystems st)[i := True],
                      stageSystems := stageSystems st @ [sys],
                      numAssigned := numAssigned st + 1\<rparr>)"

definition stage_pass ::
  "('s \<Rightarrow> ComponentAccess list) \<Rightarrow> 's list \<Rightarrow> bool list \<Rightarrow> nat \<Rightarrow> nat \<Rightarrow> 's stage_state" where
  "stage_pass acc systems assigned num k =
     fold (stage_step acc systems) [0..<k]
       \<lparr>assignedSystems = assigned, stageAccesses = [], stageSystems = [], numAssigned = num\<rparr>"

partial_function (option) rebuild_loop ::
  "('s \<Rightarrow> ComponentAccess list) \<Rightarrow> 's list \<Rightarrow> bool list \<Rightarrow> nat \<Rightarrow> 's list list \<Rightarrow> 's list list option" where
  "rebuild_loop acc systems assigned num stages =
     (if num < length systems then
        let st = stage_pass acc systems assigned num (length systems)
        in rebuild_loop acc systems (assignedSystems st) (numAssigned st) (stages @ [stageSystems st])
      else Some stages)"

definition rebuild ::
  "('s \<Rightarrow> ComponentAccess list) \<Rightarrow> 's SystemScheduler \<Rightarrow> 's SystemScheduler option" where
  "rebuild acc sch =
     (let systems = m_allSystems sch; systemCount = length systems
      in if systemCount = 0 then Some (sch\<lparr>m_stages := [], m_dirty := False\<rparr>)
         else if systemCount = 1 then Some (sch\<lparr>m_stages := [[systems ! 0]], m_dirty := False\<rparr>)
         else map_option (\<lambda>stages. sch\<lparr>m_stages := stages, m_dirty := False\<rparr>)
                (rebuild_loop acc systems (replicate systemCount False) 0 []))"

text \<open>The systems of a stage run in an order of the thread pool's choosing, given here by
  \<open>order\<close>; a stage of one system is run directly.\<close>

definition run_stage :: "('s list \<Rightarrow> 's list) \<Rightarrow> ('s \<Rightarrow> 'w \<Rightarrow> 'w) \<Rightarrow> 's list \<Rightarrow> 'w \<Rightarrow> 'w" where
  "run_stage order update stage w =
     (if length stage = 1 then update (stage ! 0) w else fold update (order stage) w)"

definition execute ::
  "('s \<Rightarrow> ComponentAccess list) \<Rightarrow> ('s list \<Rightarrow> 's list) \<Rightarrow> ('s \<Rightarrow> 'w \<Rightarrow> 'w) \<Rightarrow> ('s \<Rightarrow> 'w \<Rightarrow> 'w)
   \<Rightarrow> 's SystemScheduler \<Rightarrow> 'w \<Rightarrow> ('s SystemScheduler \<times> 'w) option" where
  "execute acc order prepare update sch w =
     map_option
       (\<lambda>sch1. (sch1, fold (run_stage order update) (m_stages sch1) (fold prepare (m_allSystems sch1) w)))
       (if m_dirty sch then rebuild acc sch else Some sch)"

text \<open>What a client can do with the scheduler, in any order. A frame comes with the order the thread
  pool chooses in it, with what \<open>prepare\<close> and \<open>update\<close> of the systems do in it, and with the
  world it starts from.\<close>

datatype ('s, 'w) sched_op =
    Add_op 's
  | Remove_op 's
  | Clear_op
  | Rebuild_op
  | Frame_op "'s list \<Rightarrow> 's list" "'s \<Rightarrow> 'w \<Rightarrow> 'w" "'s \<Rightarrow> 'w \<Rightarrow> 'w" 'w

fun sched_step ::
  "('s \<Rightarrow> ComponentAccess list) \<Rightarrow> 's SystemScheduler \<Rightarrow> ('s, 'w) sched_op \<Rightarrow> 's SystemScheduler option" where
  "sched_step acc sch (Add_op system) = Some (addSystem sch system)"
| "sched_step acc sch (Remove_op system) = Some (removeSystem sch system)"
| "sched_step acc sch Clear_op = Some (clear_scheduler sch)"
| "sched_step acc sch Rebuild_op = rebuild acc sch"
| "sched_step acc sch (Frame_op order prepare update w) = map_option fst (execute acc order prepare update sch w)"

fun sched_run ::
  "('s \<Rightarrow> ComponentAccess list) \<Rightarrow> 's SystemScheduler \<Rightarrow> ('s, 'w) sched_op list \<Rightarrow> 's SystemScheduler option" where
  "sched_run acc sch [] = Some sch"
| "sched_run acc sch (op # ops) = Option.bind (sched_step acc sch op) (\<lambda>sch'. sched_run acc sch' ops)"

section \<open>Accesses of a stage\<close>

definition compatible :: "('s \<Rightarrow> ComponentAccess list) \<Rightarrow> 's \<Rightarrow> 's \<Rightarrow> bool" where
  "compatible acc s t \<longleftrightarrow> (\<forall>a \<in> set (acc s). \<forall>b \<in> set (acc t). accessesCanShareStage a b)"

lemma accessesCanShareStage_sym: "accessesCanShareStage a b = accessesCanShareStage b a"
  by (auto simp: accessesCanShareStage_def)

lemma compatible_sym: "compatible acc s t \<longleftrightarrow> compatible acc t s"
  unfolding compatible_def using accessesCanShareStage_sym by blast

lemma stageCanAddAccess_iff: "stageCanAddAccess SA a \<longleftrightarrow> (\<forall>b \<in> set SA. accessesCanShareStage b a)"
  by (induction SA) auto

lemma stageCanAddSystem_iff:
  "stageCanAddSystem SA as \<longleftrightarrow> (\<forall>a \<in> set as. \<forall>b \<in> set SA. accessesCanShareStage b a)"
  by (induction as) (auto simp: stageCanAddAccess_iff)

text \<open>\<open>summary SA as\<close>: the merged list \<open>SA\<close> has exactly the types of \<open>as\<close>, each with the strongest mode.\<close>

definition summary :: "ComponentAccess list \<Rightarrow> ComponentAccess set \<Rightarrow> bool" where
  "summary SA as \<longleftrightarrow>
     (\<forall>a \<in> as. \<exists>b \<in> set SA. access_typeId b = access_typeId a \<and> (access_mode a = Write \<longrightarrow> access_mode b = Write))
     \<and> (\<forall>b \<in> set SA. \<exists>a \<in> as. access_typeId a = access_typeId b \<and> access_mode a = access_mode b)"

lemma mode_cases: "access_mode a = Read \<or> access_mode a = Write"
  by (cases "access_mode a") auto

lemma mergeStageAccess_set:
  "set (mergeStageAccess SA a) \<subseteq> set SA \<union> {a} \<union> {b. access_typeId b = access_typeId a \<and> access_mode b = Write \<and> access_mode a = Write}"
  by (induction SA a rule: mergeStageAccess.induct) auto

lemma mergeStageAccess_covers:
  "\<exists>b \<in> set (mergeStageAccess SA a). access_typeId b = access_typeId a \<and> (access_mode a = Write \<longrightarrow> access_mode b = Write)"
  by (induction SA a rule: mergeStageAccess.induct) auto

lemma mergeStageAccess_keeps:
  "b \<in> set SA \<Longrightarrow> \<exists>b' \<in> set (mergeStageAccess SA a). access_typeId b' = access_typeId b
     \<and> (access_mode b = Write \<longrightarrow> access_mode b' = Write)"
  by (induction SA a rule: mergeStageAccess.induct) auto

lemma summary_merge: "summary SA as \<Longrightarrow> summary (mergeStageAccess SA a) (insert a as)"
  unfolding summary_def
proof (intro conjI ballI)
  fix c
  assume h: "(\<forall>a\<in>as. \<exists>b\<in>set SA. access_typeId b = access_typeId a \<and> (access_mode a = Write \<longrightarrow> access_mode b = Write))
     \<and> (\<forall>b\<in>set SA. \<exists>a\<in>as. access_typeId a = access_typeId b \<and> access_mode a = access_mode b)"
  show "\<exists>b\<in>set (mergeStageAccess SA a). access_typeId b = access_typeId c \<and> (access_mode c = Write \<longrightarrow> access_mode b = Write)"
    if "c \<in> insert a as"
    using that h mergeStageAccess_covers [of SA a] mergeStageAccess_keeps [of _ SA a] by (metis insertE)
  show "\<exists>a\<in>insert a as. access_typeId a = access_typeId c \<and> access_mode a = access_mode c"
    if "c \<in> set (mergeStageAccess SA a)"
    using that h mergeStageAccess_set [of SA a] by (auto 0 3)
qed

lemma summary_mergeSystem: "summary SA as \<Longrightarrow> summary (mergeSystemAccess SA bs) (as \<union> set bs)"
proof (induction bs arbitrary: SA as)
  case Nil
  then show ?case by (simp add: mergeSystemAccess_def)
next
  case (Cons b bs)
  then show ?case using Cons.IH [of "mergeStageAccess SA b" "insert b as"] summary_merge [of SA as b]
    by (simp add: mergeSystemAccess_def)
qed

lemma summary_canAdd:
  assumes "summary SA (\<Union> (set ` acc ` set SS))"
  shows "stageCanAddSystem SA (acc s) \<longleftrightarrow> (\<forall>t \<in> set SS. compatible acc t s)"
proof
  assume can: "stageCanAddSystem SA (acc s)"
  show "\<forall>t \<in> set SS. compatible acc t s"
    unfolding compatible_def
  proof (intro ballI)
    fix t a b
    assume "t \<in> set SS" "a \<in> set (acc t)" "b \<in> set (acc s)"
    then have "a \<in> \<Union> (set ` acc ` set SS)" by blast
    then obtain a' where "a' \<in> set SA" "access_typeId a' = access_typeId a" "access_mode a = Write \<longrightarrow> access_mode a' = Write"
      using assms unfolding summary_def by blast
    moreover have "accessesCanShareStage a' b"
      using can \<open>b \<in> set (acc s)\<close> \<open>a' \<in> set SA\<close> by (simp add: stageCanAddSystem_iff)
    ultimately show "accessesCanShareStage a b" by (auto simp: accessesCanShareStage_def split: if_splits)
  qed
next
  assume comp: "\<forall>t \<in> set SS. compatible acc t s"
  show "stageCanAddSystem SA (acc s)"
    unfolding stageCanAddSystem_iff
  proof (intro ballI)
    fix b a'
    assume "b \<in> set (acc s)" "a' \<in> set SA"
    then obtain t a where "t \<in> set SS" "a \<in> set (acc t)" "access_typeId a = access_typeId a'" "access_mode a = access_mode a'"
      using assms unfolding summary_def by blast
    then show "accessesCanShareStage a' b"
      using comp \<open>b \<in> set (acc s)\<close> unfolding compatible_def accessesCanShareStage_def by metis
  qed
qed

section \<open>One pass\<close>

definition chosen :: "bool list \<Rightarrow> nat \<Rightarrow> nat list" where
  "chosen bs k = filter (\<lambda>i. bs ! i) [0..<k]"

definition newly :: "bool list \<Rightarrow> bool list \<Rightarrow> nat \<Rightarrow> nat list" where
  "newly old new k = filter (\<lambda>i. new ! i \<and> \<not> old ! i) [0..<k]"

text \<open>What holds after the inner loop has looked at the first \<open>k\<close> systems.\<close>

definition pass_inv :: "('s \<Rightarrow> ComponentAccess list) \<Rightarrow> 's list \<Rightarrow> bool list \<Rightarrow> nat \<Rightarrow> nat \<Rightarrow> 's stage_state \<Rightarrow> bool" where
  "pass_inv acc systems old num k st \<longleftrightarrow>
     length (assignedSystems st) = length old
     \<and> (\<forall>i. k \<le> i \<longrightarrow> assignedSystems st ! i = old ! i)
     \<and> (\<forall>i. old ! i \<longrightarrow> i < length old \<longrightarrow> assignedSystems st ! i)
     \<and> stageSystems st = map ((!) systems) (newly old (assignedSystems st) k)
     \<and> numAssigned st = num + length (stageSystems st)
     \<and> summary (stageAccesses st) (\<Union> (set ` acc ` set (stageSystems st)))
     \<and> sorted_wrt (compatible acc) (stageSystems st)
     \<and> (\<forall>i < k. \<not> assignedSystems st ! i \<longrightarrow> (\<exists>t \<in> set (stageSystems st). \<not> compatible acc t (systems ! i)))"

lemma stage_pass_Suc:
  "stage_pass acc systems old num (Suc k) = stage_step acc systems k (stage_pass acc systems old num k)"
  by (simp add: stage_pass_def)

lemma newly_update:
  assumes "\<not> old ! k" "k < length new"
  shows "newly old (new[k := True]) (Suc k) = newly old new k @ [k]"
proof -
  have "newly old (new[k := True]) k = newly old new k"
    unfolding newly_def by (rule filter_cong) auto
  then show ?thesis using assms by (simp add: newly_def)
qed

lemma pass_inv_step:
  assumes inv: "pass_inv acc systems old num k st" and k: "k < length old"
  shows "pass_inv acc systems old num (Suc k) (stage_step acc systems k st)"
proof -
  note I = inv [unfolded pass_inv_def]
  have same: "assignedSystems st ! k = old ! k" using I by simp
  show ?thesis
  proof (cases "assignedSystems st ! k")
    case True
    then have "newly old (assignedSystems st) (Suc k) = newly old (assignedSystems st) k"
      using same by (simp add: newly_def)
    then show ?thesis using I True by (auto simp: pass_inv_def stage_step_def less_Suc_eq)
  next
    case free: False
    let ?s = "systems ! k"
    have can: "stageCanAddSystem (stageAccesses st) (acc ?s) \<longleftrightarrow> (\<forall>t \<in> set (stageSystems st). compatible acc t ?s)"
      by (rule summary_canAdd) (use I in blast)
    show ?thesis
    proof (cases "stageCanAddSystem (stageAccesses st) (acc ?s)")
      case False
      have "newly old (assignedSystems st) (Suc k) = newly old (assignedSystems st) k"
        using free by (simp add: newly_def)
      then show ?thesis using I False free can by (auto simp: pass_inv_def stage_step_def less_Suc_eq)
    next
      case True
      let ?st = "stage_step acc systems k st"
      have st: "assignedSystems ?st = (assignedSystems st)[k := True]" "stageSystems ?st = stageSystems st @ [?s]"
        "numAssigned ?st = numAssigned st + 1" "stageAccesses ?st = mergeSystemAccess (stageAccesses st) (acc ?s)"
        using free True by (simp_all add: stage_step_def Let_def)
      have "stageSystems ?st = map ((!) systems) (newly old (assignedSystems ?st) (Suc k))"
        using I free same k by (simp add: st newly_update)
      moreover have "summary (stageAccesses st) (\<Union> (set ` acc ` set (stageSystems st)))"
        using I by blast
      from summary_mergeSystem [OF this, of "acc ?s"]
      have "summary (stageAccesses ?st) (\<Union> (set ` acc ` set (stageSystems ?st)))"
        by (simp add: st Un_commute)
      moreover have "sorted_wrt (compatible acc) (stageSystems ?st)"
      proof -
        have "sorted_wrt (compatible acc) (stageSystems st)" using I by blast
        then show ?thesis using True can by (auto simp: st sorted_wrt_append)
      qed
      moreover have "\<exists>t \<in> set (stageSystems ?st). \<not> compatible acc t (systems ! i)"
        if "i < Suc k" "\<not> assignedSystems ?st ! i" for i
        using that I k by (cases "i = k") (auto simp: st less_Suc_eq)
      moreover have "numAssigned ?st = num + length (stageSystems ?st)" using I by (simp add: st)
      moreover have "length (assignedSystems ?st) = length old"
        "\<forall>i. Suc k \<le> i \<longrightarrow> assignedSystems ?st ! i = old ! i"
        "\<forall>i. old ! i \<longrightarrow> i < length old \<longrightarrow> assignedSystems ?st ! i"
        using I k by (simp_all add: st nth_list_update)
      ultimately show ?thesis unfolding pass_inv_def by blast
    qed
  qed
qed

lemma pass_inv_stage_pass:
  "k \<le> length old \<Longrightarrow> pass_inv acc systems old num k (stage_pass acc systems old num k)"
proof (induction k)
  case 0
  then show ?case by (simp add: pass_inv_def stage_pass_def newly_def summary_def)
next
  case (Suc k)
  then show ?case by (simp add: stage_pass_Suc pass_inv_step)
qed

lemma chosen_newly:
  assumes "\<And>i. i < n \<Longrightarrow> old ! i \<Longrightarrow> new ! i"
  shows "mset (chosen new n) = mset (chosen old n) + mset (newly old new n)"
  using assms by (induction n) (auto simp: chosen_def newly_def)

text \<open>The pass makes progress: the first unassigned system fits into the empty stage.\<close>

lemma pass_progress:
  assumes inv: "pass_inv acc systems old num n st" and "i < n" "\<not> old ! i"
  shows "stageSystems st \<noteq> []"
proof (cases "assignedSystems st ! i")
  case True
  then have "i \<in> set (newly old (assignedSystems st) n)" using assms by (simp add: newly_def)
  then have "newly old (assignedSystems st) n \<noteq> []" by auto
  moreover have "stageSystems st = map ((!) systems) (newly old (assignedSystems st) n)"
    using inv by (simp add: pass_inv_def)
  ultimately show ?thesis by simp
next
  case False
  then show ?thesis using assms by (auto simp: pass_inv_def)
qed

section \<open>The loop\<close>

definition first_fit :: "('s \<Rightarrow> ComponentAccess list) \<Rightarrow> 's list list \<Rightarrow> bool" where
  "first_fit acc stages \<longleftrightarrow>
     (\<forall>k < length stages. \<forall>j < k. \<forall>s \<in> set (stages ! k). \<exists>t \<in> set (stages ! j). \<not> compatible acc t s)"

definition loop_inv :: "('s \<Rightarrow> ComponentAccess list) \<Rightarrow> 's list \<Rightarrow> bool list \<Rightarrow> nat \<Rightarrow> 's list list \<Rightarrow> bool" where
  "loop_inv acc systems assigned num stages \<longleftrightarrow>
     length assigned = length systems
     \<and> num = length (chosen assigned (length systems))
     \<and> mset (concat stages) = mset (map ((!) systems) (chosen assigned (length systems)))
     \<and> (\<forall>stage \<in> set stages. stage \<noteq> [] \<and> sorted_wrt (compatible acc) stage)
     \<and> first_fit acc stages
     \<and> (\<forall>stage \<in> set stages. \<forall>i < length systems. \<not> assigned ! i \<longrightarrow>
          (\<exists>t \<in> set stage. \<not> compatible acc t (systems ! i)))"

lemma unassigned_exists:
  assumes "length (chosen assigned n) < n"
  obtains i where "i < n" "\<not> assigned ! i"
proof -
  have "\<exists>i < n. \<not> assigned ! i"
  proof (rule ccontr)
    assume "\<not> ?thesis"
    then have "chosen assigned n = [0..<n]" unfolding chosen_def by (simp add: filter_id_conv)
    then show False using assms by simp
  qed
  then show ?thesis using that by blast
qed

lemma all_assigned:
  assumes "length (chosen assigned n) \<ge> n"
  shows "chosen assigned n = [0..<n]"
proof -
  have "length (filter (\<lambda>i. assigned ! i) [0..<n]) = length [0..<n]"
    using assms length_filter_le [of "\<lambda>i. assigned ! i" "[0..<n]"] by (simp add: chosen_def)
  then show ?thesis unfolding chosen_def using length_filter_less by (metis filter_True less_irrefl)
qed

lemma first_fit_snoc:
  assumes "first_fit acc stages" "\<And>stage s. stage \<in> set stages \<Longrightarrow> s \<in> set new \<Longrightarrow> \<exists>t \<in> set stage. \<not> compatible acc t s"
  shows "first_fit acc (stages @ [new])"
  using assms by (auto simp: first_fit_def nth_append less_Suc_eq)

lemma loop_inv_step:
  fixes acc :: "'s \<Rightarrow> ComponentAccess list"
  assumes inv: "loop_inv acc systems assigned num stages" and more: "num < length systems"
    and st: "st = stage_pass acc systems assigned num (length systems)"
  shows "loop_inv acc systems (assignedSystems st) (numAssigned st) (stages @ [stageSystems st])
    \<and> num < numAssigned st"
proof -
  let ?n = "length systems" and ?new = "newly assigned (assignedSystems st) (length systems)"
  note L = inv [unfolded loop_inv_def]
  have P: "pass_inv acc systems assigned num ?n st"
    using L by (simp add: st pass_inv_stage_pass)
  note I = P [unfolded pass_inv_def]
  obtain i where "i < ?n" "\<not> assigned ! i" using L more by (metis unassigned_exists)
  then have ne: "stageSystems st \<noteq> []" using pass_progress [OF P] by simp
  have ch: "mset (chosen (assignedSystems st) ?n) = mset (chosen assigned ?n) + mset ?new"
    using I L by (intro chosen_newly) simp
  then have "length (chosen (assignedSystems st) ?n) = length (chosen assigned ?n) + length ?new"
    by (metis size_mset size_union)
  then have num: "numAssigned st = length (chosen (assignedSystems st) ?n)" using I L by simp
  have conc: "mset (concat (stages @ [stageSystems st])) = mset (map ((!) systems) (chosen (assignedSystems st) ?n))"
    using L I ch by simp
  have new: "s \<in> set (stageSystems st) \<Longrightarrow> \<exists>i < ?n. s = systems ! i \<and> \<not> assigned ! i" for s
    using I by (auto simp: newly_def)
  have ff: "first_fit acc (stages @ [stageSystems st])"
    using L new by (intro first_fit_snoc) blast+
  have "\<exists>t \<in> set stage. \<not> compatible acc t (systems ! i)"
    if stg: "stage \<in> set (stages @ [stageSystems st])" and i: "i < ?n" and free: "\<not> assignedSystems st ! i" for stage i
  proof (cases "stage \<in> set stages")
    case True
    have "\<not> assigned ! i" using I L i free by auto
    then show ?thesis using L True i by blast
  next
    case False
    then have "stage = stageSystems st" using stg by simp
    then show ?thesis using I i free by blast
  qed
  moreover have "sorted_wrt (compatible acc) (stageSystems st)" using I by blast
  moreover have "length (assignedSystems st) = ?n" using I L by simp
  ultimately have "loop_inv acc systems (assignedSystems st) (numAssigned st) (stages @ [stageSystems st])"
    unfolding loop_inv_def using L ne num conc ff by simp
  then show ?thesis using I ne by simp
qed

lemma rebuild_loop_total:
  assumes "loop_inv acc systems assigned num stages"
  shows "\<exists>stages'. rebuild_loop acc systems assigned num stages = Some stages'
    \<and> mset (concat stages') = mset systems \<and> first_fit acc stages'
    \<and> (\<forall>stage \<in> set stages'. stage \<noteq> [] \<and> sorted_wrt (compatible acc) stage)"
  using assms
proof (induction "length systems - num" arbitrary: assigned num stages rule: less_induct)
  case less
  show ?case
  proof (cases "num < length systems")
    case True
    let ?st = "stage_pass acc systems assigned num (length systems)"
    have step: "loop_inv acc systems (assignedSystems ?st) (numAssigned ?st) (stages @ [stageSystems ?st])"
      "num < numAssigned ?st" using loop_inv_step [OF less.prems True refl] by simp_all
    have "rebuild_loop acc systems assigned num stages
        = rebuild_loop acc systems (assignedSystems ?st) (numAssigned ?st) (stages @ [stageSystems ?st])"
      using True by (simp add: rebuild_loop.simps [of acc systems assigned num] Let_def)
    then show ?thesis using less.hyps [OF _ step(1)] step(2) True by simp
  next
    case False
    then have "chosen assigned (length systems) = [0..<length systems]"
      using less.prems by (intro all_assigned) (simp add: loop_inv_def)
    then have "mset (concat stages) = mset systems"
      using less.prems by (simp add: loop_inv_def map_nth)
    moreover have "rebuild_loop acc systems assigned num stages = Some stages"
      using False by (simp add: rebuild_loop.simps)
    ultimately show ?thesis using less.prems by (auto simp: loop_inv_def)
  qed
qed

lemma loop_inv_start: "loop_inv acc systems (replicate (length systems) False) 0 []"
  by (simp add: loop_inv_def chosen_def first_fit_def filter_empty_conv)

lemma rebuild_total:
  "\<exists>sch'. rebuild acc sch = Some sch' \<and> m_allSystems sch' = m_allSystems sch \<and> \<not> m_dirty sch'
    \<and> mset (concat (m_stages sch')) = mset (m_allSystems sch)
    \<and> (\<forall>stage \<in> set (m_stages sch'). stage \<noteq> [] \<and> sorted_wrt (compatible acc) stage)
    \<and> first_fit acc (m_stages sch')"
proof (cases "length (m_allSystems sch) \<le> 1")
  case True
  then show ?thesis by (cases "m_allSystems sch") (auto simp: rebuild_def first_fit_def)
next
  case False
  then show ?thesis
    using rebuild_loop_total [OF loop_inv_start [of acc "m_allSystems sch"]] by (auto simp: rebuild_def Let_def)
qed

text \<open>C8: \<open>rebuild\<close> always ends. The stages it builds are a partition of the registered systems into
  non-empty groups, no two systems of a group conflict (neither writes a component type the other
  reads or writes), every system was put into the earliest group it fits: it conflicts with a
  member of each group before its own, and the scheduler is no longer dirty.\<close>

theorem rebuild_correct:
  "\<exists>sch'. rebuild acc sch = Some sch' \<and> m_allSystems sch' = m_allSystems sch \<and> \<not> m_dirty sch'
    \<and> mset (concat (m_stages sch')) = mset (m_allSystems sch)
    \<and> (\<forall>stage \<in> set (m_stages sch'). stage \<noteq> [] \<and> sorted_wrt (compatible acc) stage)
    \<and> first_fit acc (m_stages sch')"
  by (rule rebuild_total)

section \<open>Execution\<close>

text \<open>The world seen by the updates: for each component type, all the data of that type. An update
  keeps to its declarations if what it reads is of declared types and what it changes is of types
  declared \<open>Write\<close>. Two updates of compatible systems that keep to their declarations commute.\<close>

definition keeps_to :: "ComponentAccess list \<Rightarrow> ((usize \<Rightarrow> 'c) \<Rightarrow> usize \<Rightarrow> 'c) \<Rightarrow> bool" where
  "keeps_to as f \<longleftrightarrow>
     (\<forall>w x. (\<forall>a \<in> set as. access_typeId a = x \<longrightarrow> access_mode a \<noteq> Write) \<longrightarrow> f w x = w x)
     \<and> (\<forall>w w'. (\<forall>a \<in> set as. w (access_typeId a) = w' (access_typeId a))
           \<longrightarrow> (\<forall>a \<in> set as. f w (access_typeId a) = f w' (access_typeId a)))"

lemma compatible_write:
  "compatible acc s t \<Longrightarrow> a \<in> set (acc s) \<Longrightarrow> access_mode a = Write \<Longrightarrow> b \<in> set (acc t)
     \<Longrightarrow> access_typeId b \<noteq> access_typeId a"
  by (auto simp: compatible_def accessesCanShareStage_def split: if_splits)

lemma keeps_to_unchanged:
  assumes "compatible acc s t" "keeps_to (acc t) g" "a \<in> set (acc s)"
  shows "g w (access_typeId a) = w (access_typeId a)"
proof -
  have "\<forall>b \<in> set (acc t). access_typeId b = access_typeId a \<longrightarrow> access_mode b \<noteq> Write"
    using compatible_write [of acc t s] assms(1,3) compatible_sym [of acc s t] by metis
  then show ?thesis using assms(2) unfolding keeps_to_def by blast
qed

lemma keeps_to_after:
  assumes "compatible acc s t" "keeps_to (acc s) f" "keeps_to (acc t) g" "a \<in> set (acc s)"
  shows "f (g w) (access_typeId a) = f w (access_typeId a) \<and> g (f w) (access_typeId a) = f w (access_typeId a)"
  using assms keeps_to_unchanged [OF assms(1,3)] unfolding keeps_to_def by blast

lemma keeps_to_commute:
  assumes "compatible acc s t" "keeps_to (acc s) f" "keeps_to (acc t) g"
  shows "f (g w) = g (f w)"
proof
  fix x
  have c: "compatible acc t s" using assms(1) compatible_sym by metis
  consider (s) a where "a \<in> set (acc s)" "access_typeId a = x"
    | (t) b where "b \<in> set (acc t)" "access_typeId b = x"
    | (n) "\<forall>a \<in> set (acc s) \<union> set (acc t). access_typeId a \<noteq> x" by blast
  then show "f (g w) x = g (f w) x"
  proof cases
    case s
    then show ?thesis using keeps_to_after [OF assms] by metis
  next
    case t
    then show ?thesis using keeps_to_after [OF c assms(3,2)] by metis
  next
    case n
    then have "f v x = v x" "g v x = v x" for v using assms(2,3) unfolding keeps_to_def by blast+
    then show ?thesis by simp
  qed
qed

text \<open>The updates of the registered systems commute wherever the systems can share a stage.\<close>

definition updates_commute :: "('s \<Rightarrow> ComponentAccess list) \<Rightarrow> 's set \<Rightarrow> ('s \<Rightarrow> 'w \<Rightarrow> 'w) \<Rightarrow> bool" where
  "updates_commute acc S update \<longleftrightarrow>
     (\<forall>s \<in> S. \<forall>t \<in> S. \<forall>w. compatible acc s t \<longrightarrow> update s (update t w) = update t (update s w))"

lemma updates_commute_keeps_to:
  assumes "\<forall>s \<in> S. keeps_to (acc s) (update s)"
  shows "updates_commute acc S update"
  unfolding updates_commute_def
proof (intro ballI allI impI)
  fix s t w
  assume "s \<in> S" "t \<in> S" "compatible acc s t"
  then show "update s (update t w) = update t (update s w)"
    using assms by (intro keeps_to_commute [of acc s t]) simp_all
qed

lemma fold_permuted:
  assumes "mset ys = mset xs" "\<And>s t w. s \<in> set xs \<Longrightarrow> t \<in> set xs \<Longrightarrow> f s (f t w) = f t (f s w)"
  shows "fold f ys w = fold f xs w"
proof -
  have "f s \<circ> f t = f t \<circ> f s" if "s \<in> set xs" "t \<in> set xs" for s t
    using assms(2) that by (simp add: fun_eq_iff)
  then have "fold f xs = fold f ys" using assms(1) by (intro fold_multiset_equiv) simp_all
  then show ?thesis by simp
qed

lemma sorted_wrt_compatible_commute:
  assumes "sorted_wrt (compatible acc) stage" "updates_commute acc (set stage) update" "s \<in> set stage" "t \<in> set stage"
  shows "update s (update t w) = update t (update s w)"
proof (cases "s = t")
  case False
  obtain i j where "i < length stage" "j < length stage" "s = stage ! i" "t = stage ! j"
    using assms(3,4) by (metis in_set_conv_nth)
  moreover from this False have "i \<noteq> j" by auto
  ultimately have "compatible acc s t"
    using assms(1) compatible_sym by (metis nat_neq_iff sorted_wrt_nth_less)
  then show ?thesis using assms(2-4) unfolding updates_commute_def by blast
qed simp

lemma fold_order_stage:
  assumes "sorted_wrt (compatible acc) stage" "updates_commute acc (set stage) update" "mset (order stage) = mset stage"
  shows "fold update (order stage) w = fold update stage w"
  using assms(3) sorted_wrt_compatible_commute [OF assms(1,2)] by (rule fold_permuted)

lemma fold_orders:
  assumes "\<forall>stage \<in> set stages. sorted_wrt (compatible acc) stage" "updates_commute acc (set (concat stages)) update"
    "\<And>xs. mset (order xs) = mset xs"
  shows "fold update (concat (map order stages)) w = fold update (concat stages) w"
  using assms(1,2)
proof (induction stages arbitrary: w)
  case (Cons stage stages)
  then have "updates_commute acc (set stage) update" "updates_commute acc (set (concat stages)) update"
    unfolding updates_commute_def by auto
  then show ?case using Cons fold_order_stage [of acc stage update order] assms(3) by simp
qed simp

text \<open>A stage runs the updates in the order chosen, the one of a single system included.\<close>

lemma run_stage_fold:
  assumes "\<And>xs. mset (order xs) = mset xs"
  shows "run_stage order update stage = fold update (order stage)"
proof (cases "length stage = 1")
  case True
  then obtain s where "stage = [s]" by (cases stage) auto
  moreover have "order [s] = [s]" using assms [of "[s]"] by simp
  ultimately show ?thesis by (simp add: run_stage_def fun_eq_iff)
qed (simp add: run_stage_def fun_eq_iff)

lemma run_stages_fold:
  assumes "\<And>xs. mset (order xs) = mset xs"
  shows "fold (run_stage order update) stages w = fold update (concat (map order stages)) w"
  by (induction stages arbitrary: w) (simp_all add: run_stage_fold [OF assms])

lemma mset_concat_orders:
  "(\<And>xs. mset (order xs) = mset xs) \<Longrightarrow> mset (concat (map order stages)) = mset (concat stages)"
  by (induction stages) simp_all

text \<open>The invariant of a scheduler: no system is registered twice, and while the scheduler is not
  dirty its stages are those that \<open>rebuild\<close> promises for the registered systems.\<close>

definition stages_ok :: "('s \<Rightarrow> ComponentAccess list) \<Rightarrow> 's list list \<Rightarrow> 's list \<Rightarrow> bool" where
  "stages_ok acc stages systems \<longleftrightarrow>
     mset (concat stages) = mset systems
     \<and> (\<forall>stage \<in> set stages. stage \<noteq> [] \<and> sorted_wrt (compatible acc) stage) \<and> first_fit acc stages"

definition sched_inv :: "('s \<Rightarrow> ComponentAccess list) \<Rightarrow> 's SystemScheduler \<Rightarrow> bool" where
  "sched_inv acc sch \<longleftrightarrow>
     distinct (m_allSystems sch) \<and> (\<not> m_dirty sch \<longrightarrow> stages_ok acc (m_stages sch) (m_allSystems sch))"

lemma rebuild_stages_ok:
  obtains sch' where "rebuild acc sch = Some sch'" "m_allSystems sch' = m_allSystems sch" "\<not> m_dirty sch'"
    "stages_ok acc (m_stages sch') (m_allSystems sch)"
  using rebuild_total [of acc sch] unfolding stages_ok_def by blast

lemma sched_inv_new: "sched_inv acc SystemScheduler_new"
  by (simp add: sched_inv_def SystemScheduler_new_def stages_ok_def first_fit_def)

text \<open>The scheduler a frame runs and leaves: the rebuilt one if it was dirty, else the same one.\<close>

definition frame_scheduler :: "('s \<Rightarrow> ComponentAccess list) \<Rightarrow> 's SystemScheduler \<Rightarrow> 's SystemScheduler" where
  "frame_scheduler acc sch = (if m_dirty sch then the (rebuild acc sch) else sch)"

lemma frame_scheduler_ok:
  assumes "sched_inv acc sch"
  shows "m_allSystems (frame_scheduler acc sch) = m_allSystems sch \<and> \<not> m_dirty (frame_scheduler acc sch)
    \<and> sched_inv acc (frame_scheduler acc sch)
    \<and> (if m_dirty sch then rebuild acc sch = Some (frame_scheduler acc sch) else frame_scheduler acc sch = sch)"
proof -
  obtain sch' where "rebuild acc sch = Some sch'" "m_allSystems sch' = m_allSystems sch" "\<not> m_dirty sch'"
    "stages_ok acc (m_stages sch') (m_allSystems sch)" by (rule rebuild_stages_ok)
  then show ?thesis using assms by (simp add: frame_scheduler_def sched_inv_def)
qed

lemma execute_frame:
  assumes "sched_inv acc sch"
  shows "execute acc order prepare update sch w = Some (frame_scheduler acc sch,
    fold (run_stage order update) (m_stages (frame_scheduler acc sch)) (fold prepare (m_allSystems sch) w))"
  using frame_scheduler_ok [OF assms] by (simp add: execute_def split: if_splits)

lemma sched_inv_step:
  assumes "sched_inv acc sch"
  shows "\<exists>sch'. sched_step acc sch op = Some sch' \<and> sched_inv acc sch'"
proof (cases op)
  case Rebuild_op
  obtain sch' where "rebuild acc sch = Some sch'" "m_allSystems sch' = m_allSystems sch" "\<not> m_dirty sch'"
    "stages_ok acc (m_stages sch') (m_allSystems sch)" by (rule rebuild_stages_ok)
  then show ?thesis using assms Rebuild_op by (simp add: sched_inv_def)
next
  case (Frame_op order prepare update w)
  then show ?thesis using frame_scheduler_ok [OF assms] by (simp add: execute_frame [OF assms])
qed (use assms in \<open>auto simp: sched_inv_def addSystem_def removeSystem_def clear_scheduler_def
    stages_ok_def first_fit_def\<close>)

lemma sched_inv_run: "sched_inv acc sch \<Longrightarrow> \<exists>sch'. sched_run acc sch ops = Some sch' \<and> sched_inv acc sch'"
proof (induction ops arbitrary: sch)
  case (Cons op ops)
  obtain sch1 where "sched_step acc sch op = Some sch1" "sched_inv acc sch1"
    using sched_inv_step [OF Cons.prems] by blast
  then show ?case using Cons.IH [of sch1] by simp
qed simp

text \<open>C9: Take any history of a scheduler, with systems added and removed, clears, rebuilds and frames
  in any order, the access declarations \<open>acc\<close> of the systems fixed. The history never gets stuck,
  and no system is registered twice after it. Take any frame then, whether the scheduler is dirty
  or not: it uses fresh stages if it is, else the ones it has, and the scheduler it leaves is not
  dirty. Whatever the systems do, the frame runs \<open>prepare\<close> of every registered system in
  registration order and then \<open>update\<close> of every registered system exactly once: the stages one
  after the other, the systems of a stage in the order the thread pool chooses, and the stages
  have the partition properties of \<open>rebuild\<close>. If moreover every registered system keeps to its
  declarations (it reads only declared types and changes only types declared \<open>Write\<close>), the
  resulting world is the one of running the stages sequentially, whatever order is chosen.

  The hypothesis is on the thread pool: it runs each index of its range once, in some order. An
  update is one step here: interleavings inside two updates of a stage are not modelled.\<close>

theorem execute_deterministic:
  assumes "\<And>xs. mset (order xs) = mset xs"
  shows "\<exists>sch sch'. sched_run acc SystemScheduler_new ops = Some sch \<and> distinct (m_allSystems sch)
    \<and> m_allSystems sch' = m_allSystems sch \<and> \<not> m_dirty sch'
    \<and> (if m_dirty sch then rebuild acc sch = Some sch' else sch' = sch)
    \<and> stages_ok acc (m_stages sch') (m_allSystems sch)
    \<and> (\<exists>us. us = concat (map order (m_stages sch')) \<and> mset us = mset (m_allSystems sch)
         \<and> (\<forall>prepare update w. execute acc order prepare update sch w
              = Some (sch', fold update us (fold prepare (m_allSystems sch) (w :: 'w)))))
    \<and> (\<forall>prepare update w. (\<forall>s \<in> set (m_allSystems sch). keeps_to (acc s) (update s))
         \<longrightarrow> execute acc order prepare update sch w
              = Some (sch', fold update (concat (m_stages sch')) (fold prepare (m_allSystems sch) (w :: usize \<Rightarrow> 'c))))"
proof -
  obtain sch where sch: "sched_run acc SystemScheduler_new ops = Some sch" "sched_inv acc sch"
    using sched_inv_run [OF sched_inv_new] by blast
  let ?sch = "frame_scheduler acc sch"
  note f = frame_scheduler_ok [OF sch(2)] and frame = execute_frame [OF sch(2)]
  have ok: "stages_ok acc (m_stages ?sch) (m_allSystems sch)" using f unfolding sched_inv_def by metis
  then have ms: "mset (concat (m_stages ?sch)) = mset (m_allSystems sch)"
    and srt: "\<forall>stage \<in> set (m_stages ?sch). sorted_wrt (compatible acc) stage" by (simp_all add: stages_ok_def)
  have S: "set (concat (m_stages ?sch)) = set (m_allSystems sch)" using ms by (rule mset_eq_setD)
  have us: "mset (concat (map order (m_stages ?sch))) = mset (m_allSystems sch)"
    using mset_concat_orders [of order, OF assms] ms by simp
  have seq: "execute acc order prepare update sch w
      = Some (?sch, fold update (concat (m_stages ?sch)) (fold prepare (m_allSystems sch) w))"
    if "\<forall>s \<in> set (m_allSystems sch). keeps_to (acc s) (update s)" for prepare update and w :: "usize \<Rightarrow> 'c"
    using fold_orders [OF srt _ assms, of update] updates_commute_keeps_to [OF that] S
    by (simp add: frame run_stages_fold [of order, OF assms])
  have once: "execute acc order prepare update sch w
      = Some (?sch, fold update (concat (map order (m_stages ?sch))) (fold prepare (m_allSystems sch) w))"
    for prepare update and w :: 'w
    by (simp add: frame run_stages_fold [of order, OF assms])
  have "distinct (m_allSystems sch)" using sch(2) by (simp add: sched_inv_def)
  then show ?thesis
    by (intro exI [of _ sch] exI [of _ ?sch] conjI exI [of _ "concat (map order (m_stages ?sch))"] allI impI)
      (use sch(1) f ok us seq once in blast)+
qed

definition sample_access :: "nat \<Rightarrow> ComponentAccess list" where
  "sample_access s = (if s = 0 then registerAccess [] 1 Write
     else if s = 1 then registerAccess (registerAccess [] 1 Read) 2 Write
     else registerAccess [] 2 Read)"

text \<open>Three systems, two of them conflicting with the second one; the data of a component type is a
  number.\<close>

definition sample_update :: "nat \<Rightarrow> (usize \<Rightarrow> nat) \<Rightarrow> usize \<Rightarrow> nat" where
  "sample_update s w = (if s = 0 then w(1 := w 1 + 1) else if s = 1 then w(2 := w 1 + w 2) else w)"

lemma sample_update_keeps: "keeps_to (sample_access s) (sample_update s)"
  by (auto simp: keeps_to_def sample_access_def sample_update_def)

lemma rebuild_sample:
  "rebuild sample_access \<lparr>m_stages = [], m_allSystems = [0, 1, 2], m_dirty = True\<rparr>
     = Some \<lparr>m_stages = [[0, 2], [1]], m_allSystems = [0, 1, 2], m_dirty = False\<rparr>"
  by (simp add: rebuild_def rebuild_loop.simps stage_pass_def stage_step_def sample_access_def
      mergeSystemAccess_def accessesCanShareStage_def Let_def numeral_eq_Suc upt_rec)

theorem rebuild_correct_witness:
  "\<exists>sch'. rebuild sample_access \<lparr>m_stages = [], m_allSystems = [0, 1, 2], m_dirty = True\<rparr> = Some sch'
    \<and> m_stages sch' = [[0, 2], [1]] \<and> compatible sample_access 0 2 \<and> first_fit sample_access [[0, 2], [1]]"
  using rebuild_correct [of sample_access "\<lparr>m_stages = [], m_allSystems = [0, 1, 2], m_dirty = True\<rparr>"]
  unfolding rebuild_sample by auto

lemma sample_history:
  "sched_run sample_access SystemScheduler_new (map Add_op [0, 1, 2])
     = Some \<lparr>m_stages = [], m_allSystems = [0, 1, 2], m_dirty = True\<rparr>"
  by (simp add: SystemScheduler_new_def addSystem_def)

theorem execute_deterministic_witness:
  "\<exists>sch sch'. sched_run sample_access SystemScheduler_new (map Add_op [0, 1, 2] :: (nat, unit) sched_op list) = Some sch
    \<and> m_stages sch' = [[0, 2], [1]]
    \<and> execute sample_access rev (\<lambda>s w. w) sample_update sch (\<lambda>_. 0) = Some (sch', (\<lambda>_. 0)(1 := 1, 2 := 1))"
proof -
  let ?sch = "\<lparr>m_stages = [], m_allSystems = [0, 1, 2], m_dirty = True\<rparr> :: nat SystemScheduler"
  note T = execute_deterministic [of rev sample_access "map Add_op [0, 1, 2] :: (nat, unit) sched_op list",
      OF mset_rev]
  from T obtain sch sch' where run: "sched_run sample_access SystemScheduler_new (map Add_op [0, 1, 2] :: (nat, unit) sched_op list) = Some sch"
    and sch': "if m_dirty sch then rebuild sample_access sch = Some sch' else sch' = sch"
    and ex: "\<forall>prepare update w. (\<forall>s \<in> set (m_allSystems sch). keeps_to (sample_access s) (update s))
         \<longrightarrow> execute sample_access rev prepare update sch w
              = Some (sch', fold update (concat (m_stages sch')) (fold prepare (m_allSystems sch) (w :: usize \<Rightarrow> nat)))"
    by (elim exE conjE) (rule that)
  have sch: "sch = ?sch" using run unfolding sample_history by simp
  have st: "m_stages sch' = [[0, 2], [1]]" using sch' unfolding sch rebuild_sample by auto
  have "execute sample_access rev (\<lambda>s w. w) sample_update ?sch (\<lambda>_. 0)
      = Some (sch', fold sample_update [0, 2, 1] (fold (\<lambda>s w. w) [0, 1, 2] (\<lambda>_. 0)))"
    using ex sample_update_keeps unfolding sch by (simp add: st)
  moreover have "fold sample_update [0, 2, 1] (fold (\<lambda>s w. w) [0 :: nat, 1, 2] (\<lambda>_. 0)) = (\<lambda>_. 0)(1 := 1, 2 := 1)"
    by (simp add: sample_update_def fun_eq_iff)
  ultimately show ?thesis using st sample_history by (intro exI [of _ ?sch] exI [of _ sch']) simp
qed

end
