(* ===== verification/Message_Bus.thy ===== *)
theory Message_Bus
  imports Nwb_Prelude
begin

text \<open>
  The double-buffered message bus of \<^verbatim>\<open>src/core/ecs/message_bus.h\<close>. The pending queue is the sequence
  of messages in the order in which the posts took effect; \<open>try_pop\<close> takes its head. The message
  types share the type parameter \<open>'m\<close>, and a channel slot is \<open>None\<close> until the first post of its type.
  Slots are indexed by the consecutive numbers of \<open>TypeCounter\<close>.
\<close>

section \<open>Channels\<close>

record 'm MessageChannel =
  m_pending :: "'m list"
  m_readBuffer :: "'m list"

definition MessageChannel_new :: "'m MessageChannel" where
  "MessageChannel_new = \<lparr>m_pending = [], m_readBuffer = []\<rparr>"

definition channel_post :: "'m MessageChannel \<Rightarrow> 'm \<Rightarrow> 'm MessageChannel" where
  "channel_post ch message = ch\<lparr>m_pending := m_pending ch @ [message]\<rparr>"

definition channel_consume :: "('m \<Rightarrow> 'r \<Rightarrow> 'r) \<Rightarrow> 'm MessageChannel \<Rightarrow> 'r \<Rightarrow> 'r" where
  "channel_consume func ch = fold func (m_readBuffer ch)"

text \<open>The loop over \<open>try_pop\<close>: \<open>func\<close> acts on the channel's read buffer.\<close>

fun drainPending :: "('m \<Rightarrow> 'm list \<Rightarrow> 'm list) \<Rightarrow> 'm list \<Rightarrow> 'm list \<Rightarrow> 'm MessageChannel" where
  "drainPending func [] readBuffer = \<lparr>m_pending = [], m_readBuffer = readBuffer\<rparr>"
| "drainPending func (message # pending) readBuffer = drainPending func pending (func message readBuffer)"

definition channel_swapBuffers :: "'m MessageChannel \<Rightarrow> 'm MessageChannel" where
  "channel_swapBuffers ch = drainPending (\<lambda>message buffer. buffer @ [message]) (m_pending ch) []"

definition channel_clear :: "'m MessageChannel \<Rightarrow> 'm MessageChannel" where
  "channel_clear ch = drainPending (\<lambda>message buffer. buffer) (m_pending ch) []"

section \<open>The bus\<close>

record 'm MessageBus =
  m_hasChannels :: bool
  m_channels :: "'m MessageChannel option list"

definition MessageBus_new :: "'m MessageBus" where
  "MessageBus_new = \<lparr>m_hasChannels = False, m_channels = []\<rparr>"

definition forEachChannel :: "('m MessageChannel \<Rightarrow> 'm MessageChannel) \<Rightarrow> 'm MessageBus \<Rightarrow> 'm MessageBus" where
  "forEachChannel func bus =
     (if \<not> m_hasChannels bus then bus
      else bus\<lparr>m_channels := map (map_option func) (m_channels bus)\<rparr>)"

definition getOrCreateChannel :: "'m MessageBus \<Rightarrow> nat \<Rightarrow> 'm MessageBus" where
  "getOrCreateChannel bus typeId =
     (if m_hasChannels bus \<and> typeId < length (m_channels bus) \<and> m_channels bus ! typeId \<noteq> None then bus
      else let channels = (if typeId \<ge> length (m_channels bus)
                           then m_channels bus @ replicate (typeId + 1 - length (m_channels bus)) None
                           else m_channels bus)
           in case channels ! typeId of
                Some channel \<Rightarrow> bus\<lparr>m_channels := channels\<rparr>
              | None \<Rightarrow> bus\<lparr>m_channels := channels[typeId := Some MessageChannel_new], m_hasChannels := True\<rparr>)"

definition getChannel :: "'m MessageBus \<Rightarrow> nat \<Rightarrow> 'm MessageChannel option" where
  "getChannel bus typeId =
     (if \<not> m_hasChannels bus then None
      else if typeId \<ge> length (m_channels bus) then None
      else m_channels bus ! typeId)"

definition bus_post :: "'m MessageBus \<Rightarrow> nat \<Rightarrow> 'm \<Rightarrow> 'm MessageBus" where
  "bus_post bus typeId message =
     (let bus1 = getOrCreateChannel bus typeId
      in bus1\<lparr>m_channels := (m_channels bus1)[typeId :=
            map_option (\<lambda>ch. channel_post ch message) (m_channels bus1 ! typeId)]\<rparr>)"

definition bus_consume :: "('m \<Rightarrow> 'r \<Rightarrow> 'r) \<Rightarrow> 'm MessageBus \<Rightarrow> nat \<Rightarrow> 'r \<Rightarrow> 'r" where
  "bus_consume func bus typeId r =
     (case getChannel bus typeId of None \<Rightarrow> r | Some channel \<Rightarrow> channel_consume func channel r)"

definition messageCount :: "'m MessageBus \<Rightarrow> nat \<Rightarrow> nat" where
  "messageCount bus typeId =
     (case getChannel bus typeId of None \<Rightarrow> 0 | Some channel \<Rightarrow> length (m_readBuffer channel))"

definition bus_swapBuffers :: "'m MessageBus \<Rightarrow> 'm MessageBus" where
  "bus_swapBuffers bus = forEachChannel channel_swapBuffers bus"

definition bus_clear :: "'m MessageBus \<Rightarrow> 'm MessageBus" where
  "bus_clear bus = forEachChannel channel_clear bus"

section \<open>Abstraction\<close>

text \<open>The fast path on \<open>m_hasChannels\<close> is sound because the flag is set as soon as a channel exists.\<close>

definition bus_inv :: "'m MessageBus \<Rightarrow> bool" where
  "bus_inv bus \<longleftrightarrow> (\<not> m_hasChannels bus \<longrightarrow> (\<forall>ch \<in> set (m_channels bus). ch = None))"

definition pending :: "'m MessageBus \<Rightarrow> nat \<Rightarrow> 'm list" where
  "pending bus t = (case getChannel bus t of None \<Rightarrow> [] | Some ch \<Rightarrow> m_pending ch)"

definition visible :: "'m MessageBus \<Rightarrow> nat \<Rightarrow> 'm list" where
  "visible bus t = (case getChannel bus t of None \<Rightarrow> [] | Some ch \<Rightarrow> m_readBuffer ch)"

lemma drain_append: "drainPending (\<lambda>m b. b @ [m]) p b = \<lparr>m_pending = [], m_readBuffer = b @ p\<rparr>"
  by (induction p arbitrary: b) simp_all

lemma drain_drop: "drainPending (\<lambda>m b. b) p b = \<lparr>m_pending = [], m_readBuffer = b\<rparr>"
  by (induction p) simp_all

lemma channel_swap: "channel_swapBuffers ch = \<lparr>m_pending = [], m_readBuffer = m_pending ch\<rparr>"
  by (simp add: channel_swapBuffers_def drain_append)

lemma channel_clear_new: "channel_clear ch = MessageChannel_new"
  by (simp add: channel_clear_def drain_drop MessageChannel_new_def)

lemma getChannel_forEach: "getChannel (forEachChannel f bus) t = map_option f (getChannel bus t)"
  by (simp add: getChannel_def forEachChannel_def)

lemma bus_inv_nth: "bus_inv bus \<Longrightarrow> \<not> m_hasChannels bus \<Longrightarrow> t < length (m_channels bus) \<Longrightarrow> m_channels bus ! t = None"
  by (simp add: bus_inv_def)

lemma bus_inv_Some: "bus_inv bus \<Longrightarrow> m_channels bus ! t = Some ch \<Longrightarrow> t < length (m_channels bus) \<Longrightarrow> m_hasChannels bus"
  using bus_inv_nth [of bus t] by auto

lemma getChannel_create:
  "bus_inv bus \<Longrightarrow> getChannel (getOrCreateChannel bus t) u =
     (if u = t \<and> getChannel bus t = None then Some MessageChannel_new else getChannel bus u)"
  by (auto simp: getOrCreateChannel_def getChannel_def Let_def nth_append nth_list_update simp: not_le bus_inv_nth dest: bus_inv_Some
      split: option.splits if_splits)

lemma getOrCreate_slot:
  "bus_inv bus \<Longrightarrow> t < length (m_channels (getOrCreateChannel bus t)) \<and> m_hasChannels (getOrCreateChannel bus t)
    \<and> m_channels (getOrCreateChannel bus t) ! t \<noteq> None"
  by (auto simp: getOrCreateChannel_def Let_def nth_append simp: not_le bus_inv_nth dest: bus_inv_Some split: option.splits)

lemma bus_inv_hasChannels: "m_hasChannels bus \<Longrightarrow> bus_inv bus"
  by (simp add: bus_inv_def)

lemma getChannel_post:
  assumes "bus_inv bus"
  shows "getChannel (bus_post bus t m) u =
    (if u = t then Some (channel_post (case getChannel bus t of None \<Rightarrow> MessageChannel_new | Some ch \<Rightarrow> ch) m)
     else getChannel bus u)"
proof -
  let ?b = "getOrCreateChannel bus t"
  note slot = getOrCreate_slot [OF assms, of t]
  have "getChannel (bus_post bus t m) u = (if u = t then map_option (\<lambda>ch. channel_post ch m) (getChannel ?b t) else getChannel ?b u)"
    using slot by (simp add: bus_post_def Let_def getChannel_def nth_list_update)
  then show ?thesis using getChannel_create [OF assms, of t] by (auto split: option.splits)
qed

lemma bus_inv_new [inv_intros]: "bus_inv MessageBus_new"
  by (simp add: bus_inv_def MessageBus_new_def)

lemma bus_inv_post [inv_intros]: "bus_inv bus \<Longrightarrow> bus_inv (bus_post bus t m)"
  using getOrCreate_slot [of bus t] by (simp add: bus_post_def Let_def bus_inv_def)

lemma bus_inv_forEach [inv_intros]: "bus_inv bus \<Longrightarrow> bus_inv (forEachChannel f bus)"
  by (simp add: bus_inv_def forEachChannel_def)

text \<open>The contract of a double-buffered queue per message type.\<close>

locale double_buffer =
  fixes inv :: "'b \<Rightarrow> bool" and pend :: "'b \<Rightarrow> 't \<Rightarrow> 'm list" and vis :: "'b \<Rightarrow> 't \<Rightarrow> 'm list"
    and post :: "'b \<Rightarrow> 't \<Rightarrow> 'm \<Rightarrow> 'b" and swap :: "'b \<Rightarrow> 'b" and clr :: "'b \<Rightarrow> 'b"
  assumes inv_post: "inv b \<Longrightarrow> inv (post b t m)"
    and inv_swap: "inv b \<Longrightarrow> inv (swap b)"
    and inv_clr: "inv b \<Longrightarrow> inv (clr b)"
    and pend_post: "inv b \<Longrightarrow> pend (post b t m) u = (if u = t then pend b t @ [m] else pend b u)"
    and vis_post: "inv b \<Longrightarrow> vis (post b t m) = vis b"
    and pend_swap: "inv b \<Longrightarrow> pend (swap b) t = []"
    and vis_swap: "inv b \<Longrightarrow> vis (swap b) = pend b"
    and pend_clr: "inv b \<Longrightarrow> pend (clr b) t = []"
    and vis_clr: "inv b \<Longrightarrow> vis (clr b) t = []"
begin

lemma posts_accumulate:
  "inv b \<Longrightarrow> inv (fold (\<lambda>(t, m) b. post b t m) ps b)
     \<and> pend (fold (\<lambda>(t, m) b. post b t m) ps b) u = pend b u @ map snd (filter (\<lambda>p. fst p = u) ps)
     \<and> vis (fold (\<lambda>(t, m) b. post b t m) ps b) = vis b"
proof (induction ps arbitrary: b)
  case (Cons p ps)
  obtain t m where "p = (t, m)" by fastforce
  then show ?case using Cons.prems Cons.IH [of "post b t m"] by (simp add: inv_post pend_post vis_post)
qed simp

text \<open>What one frame posts is what the next frame sees, whatever the next frame posts.\<close>

lemma frame_delivery:
  assumes "inv b"
  shows "vis (fold (\<lambda>(t, m) b. post b t m) qs (swap (fold (\<lambda>(t, m) b. post b t m) ps (swap b)))) u
    = map snd (filter (\<lambda>p. fst p = u) ps)"
proof -
  let ?b = "fold (\<lambda>(t, m) b. post b t m) ps (swap b)"
  have "inv (swap b)" using assms by (rule inv_swap)
  then have b: "inv ?b" "pend ?b u = map snd (filter (\<lambda>p. fst p = u) ps)"
    using posts_accumulate [of "swap b" ps u] pend_swap [OF assms] by simp_all
  then have "vis (swap ?b) u = map snd (filter (\<lambda>p. fst p = u) ps)" by (simp add: vis_swap)
  then show ?thesis using posts_accumulate [OF inv_swap [OF b(1)], of qs u] by simp
qed

end

interpretation bus: double_buffer bus_inv pending visible bus_post bus_swapBuffers bus_clear
proof
  fix b :: "'m MessageBus" and t u :: nat and m :: 'm
  assume inv: "bus_inv b"
  show "bus_inv (bus_post b t m)" "bus_inv (bus_swapBuffers b)" "bus_inv (bus_clear b)"
    using inv by (simp_all add: bus_swapBuffers_def bus_clear_def inv_intros)
  show "pending (bus_post b t m) u = (if u = t then pending b t @ [m] else pending b u)"
    using inv by (simp add: pending_def getChannel_post channel_post_def MessageChannel_new_def split: option.splits)
  show "visible (bus_post b t m) = visible b"
    using inv by (auto simp: fun_eq_iff visible_def getChannel_post channel_post_def MessageChannel_new_def split: option.splits)
  show "pending (bus_swapBuffers b) t = []" "pending (bus_clear b) t = []" "visible (bus_clear b) t = []"
    by (auto simp: pending_def visible_def bus_swapBuffers_def bus_clear_def getChannel_forEach channel_swap
        channel_clear_new MessageChannel_new_def split: option.splits)
  show "visible (bus_swapBuffers b) = pending b"
    by (auto simp: fun_eq_iff pending_def visible_def bus_swapBuffers_def getChannel_forEach channel_swap split: option.splits)
qed

text \<open>C10: Messages posted in a frame (between two buffer swaps) are exactly what every consumer of their
  type sees in the next frame, in posting order and once each, whatever is posted meanwhile;
  nothing is visible before the swap or after the following one; \<open>messageCount\<close> is their number.\<close>

theorem message_bus_frame_delivery:
  assumes "bus_inv bus"
    and "next = fold (\<lambda>(t, m) b. bus_post b t m) qs (bus_swapBuffers (fold (\<lambda>(t, m) b. bus_post b t m) ps (bus_swapBuffers bus)))"
  shows "bus_consume func next u r = fold func (map snd (filter (\<lambda>p. fst p = u) ps)) r
    \<and> messageCount next u = length (filter (\<lambda>p. fst p = u) ps)
    \<and> visible (bus_swapBuffers next) u = map snd (filter (\<lambda>p. fst p = u) qs)"
proof -
  let ?b = "fold (\<lambda>(t, m) b. bus_post b t m) ps (bus_swapBuffers bus)"
  have v: "visible next u = map snd (filter (\<lambda>p. fst p = u) ps)"
    using bus.frame_delivery [OF assms(1)] by (simp add: assms(2))
  have "bus_inv ?b" using bus.posts_accumulate [OF bus.inv_swap [OF assms(1)]] by blast
  then have "bus_inv next \<and> pending next u = map snd (filter (\<lambda>p. fst p = u) qs)"
    using bus.posts_accumulate [OF bus.inv_swap, of ?b qs u] bus.pend_swap [of ?b] by (simp add: assms(2))
  moreover have "bus_consume func next u r = fold func (visible next u) r"
    "messageCount next u = length (visible next u)"
    by (simp_all add: bus_consume_def messageCount_def visible_def channel_consume_def split: option.splits)
  ultimately show ?thesis using v by (simp add: bus.vis_swap)
qed

theorem message_bus_frame_delivery_witness:
  "bus_inv (MessageBus_new :: nat MessageBus)
   \<and> bus_consume (\<lambda>m r. r @ [m]) (fold (\<lambda>(t, m) b. bus_post b t m) [(1, 9)] (bus_swapBuffers
       (fold (\<lambda>(t, m) b. bus_post b t m) [(1, 5), (0, 6), (1, 7 :: nat)] (bus_swapBuffers MessageBus_new)))) 1 [] = [5, 7]"
  using message_bus_frame_delivery [OF bus_inv_new refl, where qs = "[(1, 9)]" and ps = "[(1, 5), (0, 6), (1, 7 :: nat)]"
      and func = "\<lambda>m r. r @ [m]" and u = 1 and r = "[]"]
  by (simp add: bus_inv_new)

end
