(* ===== verification/World.thy ===== *)
theory World
  imports Component_Pool Scheduler Message_Bus
begin

text \<open>
  The world of \<^verbatim>\<open>src/core/ecs/world.h\<close> and \<^verbatim>\<open>world.cpp\<close>: entity manager, one component pool per
  component type, and for every entity index a linked list of the component types it has, whose
  nodes live in one array with a free list. A pool pointer is the key of the pool in \<open>m_pools\<close>.
  A walk along a damaged list may not end or leave the array, so the walks are partial functions;
  a failed assertion is \<open>None\<close>. The type parameters are the component values, the system pointers
  and the messages.
\<close>

section \<open>State\<close>

record EntityComponentNode =
  node_typeId :: usize
  node_pool :: usize
  node_next :: u32

record ('c, 's, 'm) World =
  m_entityManager :: EntityManager
  m_entityComponentHeads :: "u32 list"
  m_entityComponentNodes :: "EntityComponentNode list"
  m_freeEntityComponentNode :: u32
  m_pools :: "usize \<Rightarrow> 'c ComponentPool option"
  m_systems :: "(usize \<times> 's) list"
  m_scheduler :: "'s SystemScheduler"
  m_messageBus :: "'m MessageBus"

definition s_InvalidEntityComponentNode :: u32 where
  "s_InvalidEntityComponentNode = umax"

definition World_new :: "('c, 's, 'm) World" where
  "World_new = \<lparr>m_entityManager = EntityManager_new, m_entityComponentHeads = [],
     m_entityComponentNodes = [], m_freeEntityComponentNode = s_InvalidEntityComponentNode,
     m_pools = Map.empty, m_systems = [], m_scheduler = SystemScheduler_new, m_messageBus = MessageBus_new\<rparr>"

section \<open>Component lists\<close>

definition releaseEntityComponentNode :: "('c, 's, 'm) World \<Rightarrow> u32 \<Rightarrow> ('c, 's, 'm) World" where
  "releaseEntityComponentNode w nodeIndex =
     w\<lparr>m_entityComponentNodes := (m_entityComponentNodes w)[unat nodeIndex :=
          (m_entityComponentNodes w ! unat nodeIndex)\<lparr>node_next := m_freeEntityComponentNode w\<rparr>],
       m_freeEntityComponentNode := nodeIndex\<rparr>"

definition acquireEntityComponentNode ::
  "('c, 's, 'm) World \<Rightarrow> usize \<Rightarrow> usize \<Rightarrow> u32 \<Rightarrow> (u32 \<times> ('c, 's, 'm) World) option" where
  "acquireEntityComponentNode w typeId pool nextNode =
     (if m_freeEntityComponentNode w \<noteq> s_InvalidEntityComponentNode then
        let nodeIndex = m_freeEntityComponentNode w
        in if unat nodeIndex \<ge> length (m_entityComponentNodes w) then None
           else Some (nodeIndex,
             w\<lparr>m_freeEntityComponentNode := node_next (m_entityComponentNodes w ! unat nodeIndex),
               m_entityComponentNodes := (m_entityComponentNodes w)[unat nodeIndex :=
                 \<lparr>node_typeId = typeId, node_pool = pool, node_next = nextNode\<rparr>]\<rparr>)
      else if \<not> length (m_entityComponentNodes w) < unat (umax :: u32) then None
      else Some (of_nat (length (m_entityComponentNodes w)),
             w\<lparr>m_entityComponentNodes := m_entityComponentNodes w @
                 [\<lparr>node_typeId = typeId, node_pool = pool, node_next = nextNode\<rparr>]\<rparr>))"

definition ensureEntityComponentHead :: "('c, 's, 'm) World \<Rightarrow> EntityID \<Rightarrow> ('c, 's, 'm) World" where
  "ensureEntityComponentHead w e =
     (let idx = unat (entity_index e)
      in if idx \<ge> length (m_entityComponentHeads w)
         then w\<lparr>m_entityComponentHeads := m_entityComponentHeads w @
                replicate (idx + 1 - length (m_entityComponentHeads w)) s_InvalidEntityComponentNode\<rparr>
         else w)"

text \<open>The search loop of \<open>addEntityComponentType\<close>: whether the list from \<open>nodeIndex\<close> has the type.\<close>

partial_function (option) list_has_type :: "EntityComponentNode list \<Rightarrow> u32 \<Rightarrow> usize \<Rightarrow> bool option" where
  "list_has_type nodes nodeIndex typeId =
     (if nodeIndex = s_InvalidEntityComponentNode then Some False
      else if unat nodeIndex \<ge> length nodes then None
      else if node_typeId (nodes ! unat nodeIndex) = typeId then Some True
      else list_has_type nodes (node_next (nodes ! unat nodeIndex)) typeId)"

definition addEntityComponentType ::
  "('c, 's, 'm) World \<Rightarrow> EntityID \<Rightarrow> usize \<Rightarrow> usize \<Rightarrow> ('c, 's, 'm) World option" where
  "addEntityComponentType w0 e typeId pool =
     (let w = ensureEntityComponentHead w0 e;
          idx = unat (entity_index e);
          headNode = m_entityComponentHeads w ! idx
      in case list_has_type (m_entityComponentNodes w) headNode typeId of
           None \<Rightarrow> None
         | Some True \<Rightarrow> Some w
         | Some False \<Rightarrow>
             map_option (\<lambda>(nodeIndex, w1). w1\<lparr>m_entityComponentHeads := (m_entityComponentHeads w1)[idx := nodeIndex]\<rparr>)
               (acquireEntityComponentNode w typeId pool headNode))"

text \<open>The cursor \<open>nextNodeSlot\<close> of \<open>removeEntityComponentType\<close> points into the array of heads or at the
  \<open>next\<close> field of a node.\<close>

datatype node_slot = Head_slot nat | Next_slot u32

fun read_slot :: "('c, 's, 'm) World \<Rightarrow> node_slot \<Rightarrow> u32" where
  "read_slot w (Head_slot i) = m_entityComponentHeads w ! i"
| "read_slot w (Next_slot n) = node_next (m_entityComponentNodes w ! unat n)"

fun write_slot :: "('c, 's, 'm) World \<Rightarrow> node_slot \<Rightarrow> u32 \<Rightarrow> ('c, 's, 'm) World" where
  "write_slot w (Head_slot i) v = w\<lparr>m_entityComponentHeads := (m_entityComponentHeads w)[i := v]\<rparr>"
| "write_slot w (Next_slot n) v = w\<lparr>m_entityComponentNodes := (m_entityComponentNodes w)[unat n :=
      (m_entityComponentNodes w ! unat n)\<lparr>node_next := v\<rparr>]\<rparr>"

partial_function (option) unlink_type :: "('c, 's, 'm) World \<Rightarrow> node_slot \<Rightarrow> usize \<Rightarrow> ('c, 's, 'm) World option" where
  "unlink_type w nextNodeSlot typeId =
     (if read_slot w nextNodeSlot = s_InvalidEntityComponentNode then Some w
      else if unat (read_slot w nextNodeSlot) \<ge> length (m_entityComponentNodes w) then None
      else let removedNodeIndex = read_slot w nextNodeSlot;
               node = m_entityComponentNodes w ! unat removedNodeIndex
           in if node_typeId node = typeId
              then Some (releaseEntityComponentNode (write_slot w nextNodeSlot (node_next node)) removedNodeIndex)
              else unlink_type w (Next_slot removedNodeIndex) typeId)"

definition removeEntityComponentType :: "('c, 's, 'm) World \<Rightarrow> EntityID \<Rightarrow> usize \<Rightarrow> ('c, 's, 'm) World option" where
  "removeEntityComponentType w e typeId =
     (let idx = unat (entity_index e)
      in if idx \<ge> length (m_entityComponentHeads w) then Some w
         else unlink_type w (Head_slot idx) typeId)"

partial_function (option) destroy_nodes :: "('c, 's, 'm) World \<Rightarrow> EntityID \<Rightarrow> u32 \<Rightarrow> ('c, 's, 'm) World option" where
  "destroy_nodes w e nodeIndex =
     (if nodeIndex = s_InvalidEntityComponentNode then Some w
      else if unat nodeIndex \<ge> length (m_entityComponentNodes w) then None
      else let node = m_entityComponentNodes w ! unat nodeIndex; nextNode = node_next node
           in case m_pools w (node_pool node) of
                None \<Rightarrow> None
              | Some pool \<Rightarrow>
                  destroy_nodes
                    (releaseEntityComponentNode
                      (w\<lparr>m_pools := (m_pools w)(node_pool node \<mapsto> snd (pool_remove pool e))\<rparr>) nodeIndex)
                    e nextNode)"

definition destroyEntityComponents :: "('c, 's, 'm) World \<Rightarrow> EntityID \<Rightarrow> ('c, 's, 'm) World option" where
  "destroyEntityComponents w e =
     (let idx = unat (entity_index e)
      in if idx \<ge> length (m_entityComponentHeads w) then Some w
         else destroy_nodes
                (w\<lparr>m_entityComponentHeads := (m_entityComponentHeads w)[idx := s_InvalidEntityComponentNode]\<rparr>)
                e (m_entityComponentHeads w ! idx))"

section \<open>Entities and components\<close>

definition createEntity :: "('c, 's, 'm) World \<Rightarrow> EntityID \<times> ('c, 's, 'm) World" where
  "createEntity w = (let (e, em) = create (m_entityManager w) in (e, w\<lparr>m_entityManager := em\<rparr>))"

definition destroyEntity :: "('c, 's, 'm) World \<Rightarrow> EntityID \<Rightarrow> ('c, 's, 'm) World option" where
  "destroyEntity w e =
     (if \<not> alive (m_entityManager w) e then Some w
      else map_option (\<lambda>w1. w1\<lparr>m_entityManager := destroyAlive (m_entityManager w1) e\<rparr>)
             (destroyEntityComponents w e))"

definition assurePool :: "('c, 's, 'm) World \<Rightarrow> usize \<Rightarrow> 'c ComponentPool \<times> ('c, 's, 'm) World" where
  "assurePool w typeId =
     (case m_pools w typeId of
        Some pool \<Rightarrow> (pool, w)
      | None \<Rightarrow> (ComponentPool_new, w\<lparr>m_pools := (m_pools w)(typeId \<mapsto> ComponentPool_new)\<rparr>))"

definition addComponent :: "('c, 's, 'm) World \<Rightarrow> usize \<Rightarrow> EntityID \<Rightarrow> 'c \<Rightarrow> ('c, 's, 'm) World option" where
  "addComponent w typeId e v =
     (if \<not> alive (m_entityManager w) e then None
      else let (pool, w1) = assurePool w typeId
           in case tryGet pool e of
                Some existing \<Rightarrow> Some w1
              | None \<Rightarrow>
                  addEntityComponentType (w1\<lparr>m_pools := (m_pools w1)(typeId \<mapsto> snd (pool_add pool e v))\<rparr>)
                    e typeId typeId)"

definition removeComponent :: "('c, 's, 'm) World \<Rightarrow> usize \<Rightarrow> EntityID \<Rightarrow> ('c, 's, 'm) World option" where
  "removeComponent w typeId e =
     (if \<not> alive (m_entityManager w) e then Some w
      else case m_pools w typeId of
             None \<Rightarrow> Some w
           | Some pool \<Rightarrow>
               let (removed, pool1) = pool_remove pool e;
                   w1 = w\<lparr>m_pools := (m_pools w)(typeId \<mapsto> pool1)\<rparr>
               in if removed then removeEntityComponentType w1 e typeId else Some w1)"

definition getComponent :: "('c, 's, 'm) World \<Rightarrow> usize \<Rightarrow> EntityID \<Rightarrow> 'c option" where
  "getComponent w typeId e =
     (if \<not> alive (m_entityManager w) e then None
      else case m_pools w typeId of None \<Rightarrow> None | Some pool \<Rightarrow> pool_get pool e)"

definition tryGetComponent :: "('c, 's, 'm) World \<Rightarrow> usize \<Rightarrow> EntityID \<Rightarrow> 'c option" where
  "tryGetComponent w typeId e = (case m_pools w typeId of None \<Rightarrow> None | Some pool \<Rightarrow> tryGet pool e)"

definition hasComponent :: "('c, 's, 'm) World \<Rightarrow> usize \<Rightarrow> EntityID \<Rightarrow> bool" where
  "hasComponent w typeId e = (case m_pools w typeId of None \<Rightarrow> False | Some pool \<Rightarrow> pool_has pool e)"

definition componentMutationVersion :: "('c, 's, 'm) World \<Rightarrow> usize \<Rightarrow> u64" where
  "componentMutationVersion w typeId = (case m_pools w typeId of None \<Rightarrow> 0 | Some pool \<Rightarrow> m_mutationVersion pool)"

section \<open>Systems, messages and frames\<close>

definition world_addSystem :: "('c, 's, 'm) World \<Rightarrow> usize \<Rightarrow> 's \<Rightarrow> ('c, 's, 'm) World" where
  "world_addSystem w typeId sys =
     w\<lparr>m_scheduler := addSystem (m_scheduler w) sys, m_systems := m_systems w @ [(typeId, sys)]\<rparr>"

fun erase_system :: "'s \<Rightarrow> (usize \<times> 's) list \<Rightarrow> (usize \<times> 's) list" where
  "erase_system sys [] = []"
| "erase_system sys (entry # rest) = (if snd entry = sys then rest else entry # erase_system sys rest)"

definition world_removeSystem :: "('c, 's, 'm) World \<Rightarrow> 's \<Rightarrow> ('c, 's, 'm) World" where
  "world_removeSystem w sys =
     w\<lparr>m_scheduler := removeSystem (m_scheduler w) sys, m_systems := erase_system sys (m_systems w)\<rparr>"

fun getSystem :: "(usize \<times> 's) list \<Rightarrow> usize \<Rightarrow> 's option" where
  "getSystem [] systemTypeId = None"
| "getSystem (entry # rest) systemTypeId =
     (if fst entry \<noteq> systemTypeId then getSystem rest systemTypeId else Some (snd entry))"

definition postMessage :: "('c, 's, 'm) World \<Rightarrow> nat \<Rightarrow> 'm \<Rightarrow> ('c, 's, 'm) World" where
  "postMessage w typeId message = w\<lparr>m_messageBus := bus_post (m_messageBus w) typeId message\<rparr>"

text \<open>\<open>prepare\<close> and \<open>update\<close> are the systems' virtual functions, \<open>order\<close> the thread pool's choice.\<close>

definition tick ::
  "('s \<Rightarrow> ComponentAccess list) \<Rightarrow> ('s list \<Rightarrow> 's list)
   \<Rightarrow> ('s \<Rightarrow> ('c, 's, 'm) World \<Rightarrow> ('c, 's, 'm) World) \<Rightarrow> ('s \<Rightarrow> ('c, 's, 'm) World \<Rightarrow> ('c, 's, 'm) World)
   \<Rightarrow> ('c, 's, 'm) World \<Rightarrow> ('c, 's, 'm) World option" where
  "tick acc order prepare update w =
     (let w1 = w\<lparr>m_messageBus := bus_swapBuffers (m_messageBus w)\<rparr>
      in case (if m_dirty (m_scheduler w1) then rebuild acc (m_scheduler w1) else Some (m_scheduler w1)) of
           None \<Rightarrow> None
         | Some sch \<Rightarrow>
             map_option snd (execute acc order prepare update sch (w1\<lparr>m_scheduler := sch\<rparr>)))"

definition world_clear :: "('c, 's, 'm) World \<Rightarrow> ('c, 's, 'm) World" where
  "world_clear w =
     \<lparr>m_entityManager = clear_entities (m_entityManager w), m_entityComponentHeads = [],
      m_entityComponentNodes = [], m_freeEntityComponentNode = s_InvalidEntityComponentNode,
      m_pools = Map.empty, m_systems = [], m_scheduler = clear_scheduler (m_scheduler w),
      m_messageBus = bus_clear (m_messageBus w)\<rparr>"

section \<open>Lists of nodes\<close>

abbreviation nodes_of :: "('c, 's, 'm) World \<Rightarrow> EntityComponentNode list" where
  "nodes_of w \<equiv> m_entityComponentNodes w"

abbreviation nxt :: "('c, 's, 'm) World \<Rightarrow> u32 \<Rightarrow> u32" where
  "nxt w n \<equiv> node_next (m_entityComponentNodes w ! unat n)"

abbreviation ty :: "('c, 's, 'm) World \<Rightarrow> u32 \<Rightarrow> usize" where
  "ty w n \<equiv> node_typeId (m_entityComponentNodes w ! unat n)"

abbreviation pl :: "('c, 's, 'm) World \<Rightarrow> u32 \<Rightarrow> usize" where
  "pl w n \<equiv> node_pool (m_entityComponentNodes w ! unat n)"

abbreviation nilnode :: u32 where
  "nilnode \<equiv> s_InvalidEntityComponentNode"

text \<open>\<open>chain w h ns\<close>: starting at \<open>h\<close> the \<open>next\<close> fields visit exactly the nodes \<open>ns\<close>.\<close>

fun chain :: "('c, 's, 'm) World \<Rightarrow> u32 \<Rightarrow> u32 list \<Rightarrow> bool" where
  "chain w h [] \<longleftrightarrow> h = nilnode"
| "chain w h (n # ns) \<longleftrightarrow> h = n \<and> n \<noteq> nilnode \<and> unat n < length (nodes_of w) \<and> chain w (nxt w n) ns"

lemma chain_cong:
  "chain w h ns \<Longrightarrow> length (nodes_of w) \<le> length (nodes_of w') \<Longrightarrow> (\<And>n. n \<in> set ns \<Longrightarrow> nxt w' n = nxt w n)
   \<Longrightarrow> chain w' h ns"
  by (induction ns arbitrary: h) auto

lemma chain_bounds: "chain w h ns \<Longrightarrow> n \<in> set ns \<Longrightarrow> unat n < length (nodes_of w) \<and> n \<noteq> nilnode"
  by (induction ns arbitrary: h) auto

lemma list_has_type_chain:
  "chain w h ns \<Longrightarrow> list_has_type (nodes_of w) h t = Some (t \<in> ty w ` set ns)"
proof (induction ns arbitrary: h)
  case Nil
  then show ?case by (simp add: list_has_type.simps)
next
  case (Cons n ns)
  then show ?case by (subst list_has_type.simps) auto
qed

text \<open>Two worlds whose nodes carry the same types and pools.\<close>

definition same_labels :: "('c, 's, 'm) World \<Rightarrow> ('c, 's, 'm) World \<Rightarrow> bool" where
  "same_labels w w' \<longleftrightarrow> length (nodes_of w') = length (nodes_of w)
     \<and> (\<forall>n. ty w' n = ty w n \<and> pl w' n = pl w n)"

lemma same_labels_refl: "same_labels w w"
  by (simp add: same_labels_def)

lemma same_labels_trans: "same_labels u v \<Longrightarrow> same_labels v w \<Longrightarrow> same_labels u w"
  by (simp add: same_labels_def)

lemma release_frame:
  assumes "unat n < length (nodes_of w)"
  shows "same_labels w (releaseEntityComponentNode w n)"
    and "m_freeEntityComponentNode (releaseEntityComponentNode w n) = n"
    and "nxt (releaseEntityComponentNode w n) k = (if k = n then m_freeEntityComponentNode w else nxt w k)"
    and "m_entityComponentHeads (releaseEntityComponentNode w n) = m_entityComponentHeads w"
    and "m_pools (releaseEntityComponentNode w n) = m_pools w"
    and "m_entityManager (releaseEntityComponentNode w n) = m_entityManager w"
  using assms
  by (auto simp: releaseEntityComponentNode_def same_labels_def nth_list_update word_unat_eq_iff)

lemma write_next_frame:
  assumes "unat s < length (nodes_of w)"
  shows "same_labels w (write_slot w (Next_slot s) v)"
    and "nxt (write_slot w (Next_slot s) v) k = (if k = s then v else nxt w k)"
  using assms by (auto simp: same_labels_def nth_list_update word_unat_eq_iff)

section \<open>Unlinking\<close>

definition slot_ok :: "('c, 's, 'm) World \<Rightarrow> node_slot \<Rightarrow> u32 list \<Rightarrow> bool" where
  "slot_ok w sl ns = (case sl of Head_slot i \<Rightarrow> i < length (m_entityComponentHeads w)
     | Next_slot s \<Rightarrow> unat s < length (nodes_of w) \<and> s \<notin> set ns)"

text \<open>The result of removing node \<open>n\<close> from the list \<open>as @ n # bs\<close> that starts at \<open>sl\<close>.\<close>

definition unlinked :: "('c, 's, 'm) World \<Rightarrow> ('c, 's, 'm) World \<Rightarrow> node_slot \<Rightarrow> u32 list \<Rightarrow> u32 \<Rightarrow> u32 list \<Rightarrow> bool" where
  "unlinked w w' sl as n bs \<longleftrightarrow>
     same_labels w w' \<and> chain w' (read_slot w' sl) (as @ bs)
     \<and> m_freeEntityComponentNode w' = n \<and> nxt w' n = m_freeEntityComponentNode w
     \<and> (\<forall>m. m \<notin> set (as @ [n]) \<and> sl \<noteq> Next_slot m \<longrightarrow> nxt w' m = nxt w m)
     \<and> length (m_entityComponentHeads w') = length (m_entityComponentHeads w)
     \<and> (\<forall>i. sl \<noteq> Head_slot i \<longrightarrow> m_entityComponentHeads w' ! i = m_entityComponentHeads w ! i)
     \<and> m_pools w' = m_pools w \<and> m_entityManager w' = m_entityManager w"

lemma unlink_here:
  assumes ch: "chain w (read_slot w sl) (n # bs)" and d: "distinct (n # bs)" and sl: "slot_ok w sl (n # bs)"
  shows "unlinked w (releaseEntityComponentNode (write_slot w sl (nxt w n)) n) sl [] n bs"
proof -
  let ?w1 = "write_slot w sl (nxt w n)" and ?w2 = "releaseEntityComponentNode (write_slot w sl (nxt w n)) n"
  have n: "unat n < length (nodes_of w)" using ch by simp
  have len: "length (nodes_of ?w1) = length (nodes_of w)" by (cases sl) simp_all
  have n1: "unat n < length (nodes_of ?w1)" using n len by simp
  note rel = release_frame [OF n1]
  have keep: "nxt ?w2 m = nxt w m" if "m \<noteq> n" "sl \<noteq> Next_slot m" for m
  proof -
    have "nxt ?w2 m = nxt ?w1 m" using rel(3) [of m] that by simp
    also have "\<dots> = nxt w m"
    proof (cases sl)
      case (Next_slot s)
      then have "unat s \<noteq> unat m" using that by (simp add: word_unat_eq_iff)
      then show ?thesis using Next_slot by simp
    qed simp
    finally show ?thesis .
  qed
  have "chain ?w2 (read_slot ?w2 sl) bs"
  proof -
    have rd: "read_slot ?w2 sl = nxt w n"
    proof (cases sl)
      case (Head_slot i)
      then show ?thesis using sl by (simp add: slot_ok_def releaseEntityComponentNode_def)
    next
      case (Next_slot s)
      then have "s \<noteq> n" "unat s < length (nodes_of w)" using sl by (auto simp: slot_ok_def)
      then show ?thesis using rel(3) [of s] Next_slot by simp
    qed
    have "chain w (nxt w n) bs" using ch by simp
    then show ?thesis unfolding rd
    proof (rule chain_cong)
      show "length (nodes_of w) \<le> length (nodes_of ?w2)" using rel(1) len by (simp add: same_labels_def)
      fix m
      assume "m \<in> set bs"
      then show "nxt ?w2 m = nxt w m" using d sl by (intro keep) (auto simp: slot_ok_def)
    qed
  qed
  moreover have "same_labels w ?w1"
  proof (cases sl)
    case (Head_slot i)
    then show ?thesis by (simp add: same_labels_def)
  next
    case (Next_slot s)
    then have "unat s < length (nodes_of w)" using sl by (simp add: slot_ok_def)
    then show ?thesis using write_next_frame(1) Next_slot by blast
  qed
  then have "same_labels w ?w2" using rel(1) same_labels_trans by blast
  moreover have "m_freeEntityComponentNode ?w1 = m_freeEntityComponentNode w" by (cases sl) simp_all
  then have "nxt ?w2 n = m_freeEntityComponentNode w" using rel(3) [of n] by simp
  moreover have "m_entityComponentHeads ?w2 ! i = m_entityComponentHeads w ! i" if "sl \<noteq> Head_slot i" for i
    unfolding rel(4) using that by (cases sl) auto
  moreover have "length (m_entityComponentHeads ?w2) = length (m_entityComponentHeads w)"
    "m_pools ?w2 = m_pools w" "m_entityManager ?w2 = m_entityManager w"
    unfolding rel(4-6) by (cases sl; simp)+
  ultimately show ?thesis using rel(2) keep by (simp add: unlinked_def)
qed

lemma unlink_type_chain:
  assumes "chain w (read_slot w sl) (as @ n # bs)" "distinct (as @ n # bs)"
    "t \<notin> ty w ` set as" "ty w n = t" "slot_ok w sl (as @ n # bs)"
  shows "\<exists>w'. unlink_type w sl t = Some w' \<and> unlinked w w' sl as n bs"
  using assms
proof (induction as arbitrary: sl)
  case Nil
  then have "unlink_type w sl t = Some (releaseEntityComponentNode (write_slot w sl (nxt w n)) n)"
    by (subst unlink_type.simps) (auto simp: Let_def)
  then show ?case using unlink_here Nil by auto
next
  case (Cons a as)
  have rd: "read_slot w sl = a" "a \<noteq> nilnode" "unat a < length (nodes_of w)"
    using Cons.prems(1) by simp_all
  then have eq: "unlink_type w sl t = unlink_type w (Next_slot a) t"
    using Cons.prems(3) by (subst unlink_type.simps) (auto simp: Let_def)
  have "\<exists>w'. unlink_type w (Next_slot a) t = Some w' \<and> unlinked w w' (Next_slot a) as n bs"
    using Cons.prems rd by (intro Cons.IH) (auto simp: slot_ok_def)
  then obtain w' where w': "unlink_type w (Next_slot a) t = Some w'" and u: "unlinked w w' (Next_slot a) as n bs"
    by blast
  have "read_slot w' sl = a"
  proof (cases sl)
    case (Head_slot i)
    then show ?thesis using u rd by (simp add: unlinked_def)
  next
    case (Next_slot s)
    then have "s \<notin> set (a # as @ [n])" using Cons.prems(5) by (auto simp: slot_ok_def)
    moreover have "\<forall>m. m \<notin> set (as @ [n]) \<and> Next_slot a \<noteq> Next_slot m \<longrightarrow> nxt w' m = nxt w m"
      using u unfolding unlinked_def by blast
    ultimately have "nxt w' s = nxt w s" by auto
    then show ?thesis using Next_slot rd by simp
  qed
  then have "unlinked w w' sl (a # as) n bs"
    using u rd by (auto simp: unlinked_def same_labels_def)
  then show ?case using eq w' by auto
qed

section \<open>Releasing a whole list\<close>

definition pools_without :: "('c, 's, 'm) World \<Rightarrow> EntityID \<Rightarrow> usize set \<Rightarrow> usize \<Rightarrow> 'c ComponentPool option" where
  "pools_without w e T t = (if t \<in> T then map_option (\<lambda>p. snd (pool_remove p e)) (m_pools w t) else m_pools w t)"

lemma destroy_nodes_chain:
  assumes "chain w h ns" "distinct ns" "distinct (map (pl w) ns)" "\<forall>n \<in> set ns. m_pools w (pl w n) \<noteq> None"
    "chain w (m_freeEntityComponentNode w) fs" "set ns \<inter> set fs = {}"
  shows "\<exists>w'. destroy_nodes w e h = Some w' \<and> same_labels w w'
    \<and> chain w' (m_freeEntityComponentNode w') (rev ns @ fs)
    \<and> (\<forall>m. m \<notin> set ns \<longrightarrow> nxt w' m = nxt w m)
    \<and> m_pools w' = pools_without w e (pl w ` set ns)
    \<and> m_entityComponentHeads w' = m_entityComponentHeads w \<and> m_entityManager w' = m_entityManager w"
  using assms
proof (induction ns arbitrary: w h fs)
  case Nil
  then show ?case
    by (subst destroy_nodes.simps) (simp add: same_labels_refl pools_without_def fun_eq_iff)
next
  case (Cons n ns)
  have h: "h = n" "n \<noteq> nilnode" and n: "unat n < length (nodes_of w)" and ch: "chain w (nxt w n) ns"
    using Cons.prems(1) by simp_all
  obtain pool where pool: "m_pools w (pl w n) = Some pool" using Cons.prems(4) by auto
  define w1 where "w1 = w\<lparr>m_pools := (m_pools w)(pl w n \<mapsto> snd (pool_remove pool e))\<rparr>"
  define w2 where "w2 = releaseEntityComponentNode w1 n"
  have eq: "destroy_nodes w e h = destroy_nodes w2 e (nxt w n)"
    using h n pool by (subst destroy_nodes.simps) (auto simp: Let_def w2_def w1_def not_le)
  have n1: "unat n < length (nodes_of w1)" using n by (simp add: w1_def)
  note rel = release_frame [OF n1, folded w2_def]
  have lab: "same_labels w w2" using rel(1) by (simp add: same_labels_def w1_def)
  have nx: "nxt w2 m = (if m = n then m_freeEntityComponentNode w else nxt w m)" for m
    using rel(3) [of m] by (simp add: w1_def)
  have chn: "chain w2 (nxt w n) ns"
    using ch by (rule chain_cong) (use lab nx Cons.prems(2) in \<open>auto simp: same_labels_def\<close>)
  have chf: "chain w2 (m_freeEntityComponentNode w2) (n # fs)"
  proof -
    have "chain w2 (m_freeEntityComponentNode w) fs"
      using Cons.prems(5) by (rule chain_cong) (use lab nx Cons.prems(6) in \<open>auto simp: same_labels_def\<close>)
    then show ?thesis using rel(2) h n lab nx [of n] by (simp add: same_labels_def)
  qed
  have pls: "map (pl w2) ns = map (pl w) ns" using lab by (simp add: same_labels_def)
  have pools2: "m_pools w2 = pools_without w e {pl w n}"
    using rel(5) pool by (auto simp: w1_def pools_without_def fun_eq_iff)
  have "\<forall>m \<in> set ns. m_pools w2 (pl w2 m) \<noteq> None"
    using Cons.prems(4) lab by (auto simp: pools2 pools_without_def same_labels_def)
  from Cons.IH [OF chn _ _ this chf] Cons.prems(2,3,6) pls
  obtain w' where w': "destroy_nodes w2 e (nxt w n) = Some w'" "same_labels w2 w'"
    "chain w' (m_freeEntityComponentNode w') (rev ns @ n # fs)"
    "\<forall>m. m \<notin> set ns \<longrightarrow> nxt w' m = nxt w2 m" "m_pools w' = pools_without w2 e (pl w2 ` set ns)"
    "m_entityComponentHeads w' = m_entityComponentHeads w2" "m_entityManager w' = m_entityManager w2"
    by auto
  have "pl w2 ` set ns = pl w ` set ns" using lab by (simp add: same_labels_def)
  moreover have "pl w n \<notin> pl w ` set ns" using Cons.prems(3) by auto
  ultimately have "m_pools w' = pools_without w e (pl w ` set (n # ns))"
    by (auto simp: w'(5) pools2 pools_without_def fun_eq_iff)
  moreover have "same_labels w w'" using lab w'(2) by (rule same_labels_trans)
  moreover have "m_entityComponentHeads w' = m_entityComponentHeads w" "m_entityManager w' = m_entityManager w"
    using w'(6,7) rel(4,6) by (simp_all add: w1_def)
  ultimately show ?case using eq w'(1,3,4) nx by auto
qed

section \<open>Invariant\<close>

definition lists_ok :: "('c, 's, 'm) World \<Rightarrow> (nat \<Rightarrow> u32 list) \<Rightarrow> u32 list \<Rightarrow> bool" where
  "lists_ok w cs fs \<longleftrightarrow>
     (\<forall>i < length (m_entityComponentHeads w). chain w (m_entityComponentHeads w ! i) (cs i))
     \<and> (\<forall>i \<ge> length (m_entityComponentHeads w). cs i = [])
     \<and> chain w (m_freeEntityComponentNode w) fs
     \<and> distinct fs \<and> (\<forall>i. distinct (cs i) \<and> set (cs i) \<inter> set fs = {})
     \<and> (\<forall>i j. i \<noteq> j \<longrightarrow> set (cs i) \<inter> set (cs j) = {})
     \<and> (\<forall>n. unat n < length (nodes_of w) \<longrightarrow> n \<in> set fs \<or> (\<exists>i. n \<in> set (cs i)))
     \<and> length (nodes_of w) \<le> unat (umax :: u32)"

definition holds :: "('c, 's, 'm) World \<Rightarrow> usize \<Rightarrow> nat \<Rightarrow> bool" where
  "holds w t i \<longleftrightarrow> (\<exists>p e. m_pools w t = Some p \<and> e \<in> set (m_dense p) \<and> unat (entity_index e) = i)"

definition labels_ok :: "('c, 's, 'm) World \<Rightarrow> (nat \<Rightarrow> u32 list) \<Rightarrow> bool" where
  "labels_ok w cs \<longleftrightarrow> (\<forall>i. distinct (map (ty w) (cs i)) \<and> (\<forall>n \<in> set (cs i). pl w n = ty w n)
     \<and> (\<forall>t. t \<in> ty w ` set (cs i) \<longleftrightarrow> holds w t i))"

definition pools_ok :: "('c, 's, 'm) World \<Rightarrow> bool" where
  "pools_ok w \<longleftrightarrow> em_inv (m_entityManager w)
     \<and> (\<forall>t p. m_pools w t = Some p \<longrightarrow> pool_inv p \<and> set (m_dense p) \<subseteq> live (m_entityManager w))"

definition world_inv :: "('c, 's, 'm) World \<Rightarrow> bool" where
  "world_inv w \<longleftrightarrow> pools_ok w \<and> (\<exists>cs fs. lists_ok w cs fs \<and> labels_ok w cs)"

text \<open>The abstract world: the live entities and the components they have.\<close>

definition entities :: "('c, 's, 'm) World \<Rightarrow> EntityID set" where
  "entities w = live (m_entityManager w)"

definition component :: "('c, 's, 'm) World \<Rightarrow> usize \<Rightarrow> EntityID \<Rightarrow> 'c option" where
  "component w t e = (case m_pools w t of None \<Rightarrow> None | Some p \<Rightarrow> pool_map p e)"

lemma pools_okD:
  assumes "pools_ok w"
  shows "em_inv (m_entityManager w)" "m_pools w t = Some p \<Longrightarrow> pool_inv p"
    "m_pools w t = Some p \<Longrightarrow> e \<in> set (m_dense p) \<Longrightarrow> e \<in> live (m_entityManager w)"
  using assms by (auto simp: pools_ok_def)

lemma same_index_same:
  assumes "pools_ok w" "m_pools w t = Some p" "e' \<in> set (m_dense p)" "e \<in> entities w" "entity_index e' = entity_index e"
  shows "e' = e"
  using assms pools_okD [OF assms(1)] live_index_inj unfolding entities_def by blast

lemma component_Some_iff:
  "pools_ok w \<Longrightarrow> component w t e \<noteq> None \<longleftrightarrow> (\<exists>p. m_pools w t = Some p \<and> e \<in> set (m_dense p))"
  using pools_okD(2) [of w t] by (auto simp: component_def pool_map_None simp flip: not_None_eq split: option.splits)

lemma holds_entity:
  assumes "pools_ok w" "e \<in> entities w"
  shows "holds w t (unat (entity_index e)) \<longleftrightarrow> component w t e \<noteq> None"
  using assms same_index_same [OF assms(1) _ _ assms(2)]
  unfolding component_Some_iff [OF assms(1)] holds_def by (metis word_unat_eq_iff)

lemma component_entity: "pools_ok w \<Longrightarrow> component w t e \<noteq> None \<Longrightarrow> e \<in> entities w"
  unfolding component_Some_iff entities_def using pools_okD(3) by blast

lemma slot_free_live:
  "pools_ok w \<Longrightarrow> m_pools w t = Some p \<Longrightarrow> e \<in> entities w \<Longrightarrow> slot_free p e"
  unfolding slot_free_def using same_index_same by blast

lemma world_inv_new: "world_inv World_new"
proof -
  have "lists_ok World_new (\<lambda>i. []) []" by (simp add: lists_ok_def World_new_def)
  moreover have "labels_ok World_new (\<lambda>i. [])" by (simp add: labels_ok_def holds_def World_new_def)
  moreover have "pools_ok World_new" by (simp add: pools_ok_def World_new_def em_inv_new)
  ultimately show ?thesis unfolding world_inv_def by blast
qed

section \<open>Effects on the pools\<close>

lemma dense_remove: "pool_inv p \<Longrightarrow> set (m_dense (snd (pool_remove p e))) = set (m_dense p) - {e}"
  using dom_pool_map [OF pool_inv_remove, of p e] dom_pool_map [of p] by (simp add: pool_map_remove)

lemma dense_add:
  "pool_inv p \<Longrightarrow> slot_free p e \<Longrightarrow> set (m_dense (snd (pool_add p e v))) = insert e (set (m_dense p))"
  using dom_pool_map [OF pool_inv_add, of p e v] dom_pool_map [of p]
  by (auto simp: pool_map_add split: if_splits)

lemma pools_removed:
  assumes ok: "pools_ok w" and e: "e \<in> entities w" and w': "m_pools w' = pools_without w e T"
  shows "m_pools w' t = Some p \<Longrightarrow> pool_inv p \<and> set (m_dense p) \<subseteq> (if t \<in> T then entities w - {e} else entities w)"
    and "component w' t e' = (if t \<in> T \<and> e' = e then None else component w t e')"
    and "holds w' t j \<longleftrightarrow> holds w t j \<and> \<not> (t \<in> T \<and> j = unat (entity_index e))"
proof -
  note D = pools_okD [OF ok]
  show "pool_inv p \<and> set (m_dense p) \<subseteq> (if t \<in> T then entities w - {e} else entities w)" if "m_pools w' t = Some p"
    using that D(2,3) [of t] by (auto simp: w' pools_without_def pool_inv_remove dense_remove entities_def)
  show "component w' t e' = (if t \<in> T \<and> e' = e then None else component w t e')"
    using D(2) [of t] by (auto simp: component_def w' pools_without_def pool_map_remove split: option.splits)
  show "holds w' t j \<longleftrightarrow> holds w t j \<and> \<not> (t \<in> T \<and> j = unat (entity_index e))"
  proof (cases "m_pools w t")
    case None
    then show ?thesis by (simp add: holds_def w' pools_without_def)
  next
    case (Some p)
    have "e' = e" if "e' \<in> set (m_dense p)" "unat (entity_index e') = unat (entity_index e)" for e'
      using same_index_same [OF ok Some _ e] that by (simp add: word_unat_eq_iff)
    then show ?thesis using Some D(2) [OF Some] by (auto simp: holds_def w' pools_without_def dense_remove)
  qed
qed

lemma pools_added:
  assumes ok: "pools_ok w" and e: "e \<in> entities w" and pool: "m_pools w t = Some pool"
    and w': "m_pools w' = (m_pools w)(t \<mapsto> snd (pool_add pool e v))"
  shows "m_pools w' u = Some p \<Longrightarrow> pool_inv p \<and> set (m_dense p) \<subseteq> entities w"
    and "component w' u e' = (if u = t \<and> e' = e \<and> component w t e = None then Some v else component w u e')"
    and "holds w' u j \<longleftrightarrow> holds w u j \<or> (u = t \<and> j = unat (entity_index e))"
proof -
  note D = pools_okD [OF ok]
  note free = slot_free_live [OF ok pool e]
  note inv = D(2) [OF pool]
  show "pool_inv p \<and> set (m_dense p) \<subseteq> entities w" if "m_pools w' u = Some p"
    using that e inv free D(2,3) [of u p] D(3) [OF pool]
    by (auto simp: w' pool_inv_add dense_add entities_def split: if_splits)
  show "component w' u e' = (if u = t \<and> e' = e \<and> component w t e = None then Some v else component w u e')"
    using inv pool by (auto simp: component_def w' pool_map_add pool_map_None)
  show "holds w' u j \<longleftrightarrow> holds w u j \<or> (u = t \<and> j = unat (entity_index e))"
    using inv free pool by (auto simp: holds_def w' dense_add)
qed

section \<open>Destroying an entity\<close>

lemma labels_types: "labels_ok w cs \<Longrightarrow> t \<in> ty w ` set (cs i) \<longleftrightarrow> holds w t i"
  by (simp add: labels_ok_def)

lemma labels_pools: "labels_ok w cs \<Longrightarrow> n \<in> set (cs i) \<Longrightarrow> pl w n = ty w n"
  by (simp add: labels_ok_def)

lemma lists_disjoint: "lists_ok w cs fs \<Longrightarrow> n \<in> set (cs j) \<Longrightarrow> j \<noteq> i \<Longrightarrow> n \<notin> set (cs i)"
  unfolding lists_ok_def by blast

lemma lists_free_disjoint: "lists_ok w cs fs \<Longrightarrow> n \<in> set (cs j) \<Longrightarrow> n \<notin> set fs"
  unfolding lists_ok_def by blast

lemma list_node_bound:
  assumes ok: "lists_ok w cs fs" and m: "m \<in> set (cs j)"
  shows "unat m < length (nodes_of w)"
proof -
  note L = ok [unfolded lists_ok_def]
  have "cs j \<noteq> []" using m by auto
  then have "j < length (m_entityComponentHeads w)" using L by (meson not_less)
  then have "chain w (m_entityComponentHeads w ! j) (cs j)" using L by blast
  then show ?thesis using chain_bounds m by blast
qed

lemma lists_released:
  assumes ok: "lists_ok w cs fs" and i: "i < length (m_entityComponentHeads w)"
    and heads: "m_entityComponentHeads w' = (m_entityComponentHeads w)[i := nilnode]"
    and lab: "same_labels w w'" and free: "chain w' (m_freeEntityComponentNode w') (rev (cs i) @ fs)"
    and nx: "\<forall>m. m \<notin> set (cs i) \<longrightarrow> nxt w' m = nxt w m"
  shows "lists_ok w' (cs(i := [])) (rev (cs i) @ fs)"
proof -
  note L = ok [unfolded lists_ok_def]
  have len: "length (nodes_of w') = length (nodes_of w)" using lab by (simp add: same_labels_def)
  have "chain w' (m_entityComponentHeads w' ! j) ((cs(i := [])) j)"
    if j: "j < length (m_entityComponentHeads w')" for j
  proof (cases "j = i")
    case True
    then show ?thesis using i heads by simp
  next
    case False
    then have "chain w (m_entityComponentHeads w ! j) (cs j)" using L j heads by simp
    then have "chain w' (m_entityComponentHeads w ! j) (cs j)"
      by (rule chain_cong) (use len nx lists_disjoint [OF ok _ False] in simp_all)
    then show ?thesis using False heads by simp
  qed
  moreover have "n \<in> set (rev (cs i) @ fs) \<or> (\<exists>j. n \<in> set ((cs(i := [])) j))" if "unat n < length (nodes_of w')" for n
    using L that len by (metis Un_iff fun_upd_other set_append set_rev)
  moreover have "distinct (rev (cs i) @ fs)" using L by auto
  moreover have "\<forall>j. distinct ((cs(i := [])) j) \<and> set ((cs(i := [])) j) \<inter> set (rev (cs i) @ fs) = {}"
    using L lists_disjoint [OF ok, where i = i] by auto
  moreover have "\<forall>j k. j \<noteq> k \<longrightarrow> set ((cs(i := [])) j) \<inter> set ((cs(i := [])) k) = {}" using L by auto
  moreover have "\<forall>j \<ge> length (m_entityComponentHeads w'). (cs(i := [])) j = []" using L heads by auto
  ultimately show ?thesis unfolding lists_ok_def using free L len by simp
qed

lemma destroyEntityComponents_ok:
  assumes ok: "pools_ok w" and lists: "lists_ok w cs fs" and labels: "labels_ok w cs" and e: "e \<in> entities w"
  shows "\<exists>w' cs' fs'. destroyEntityComponents w e = Some w' \<and> m_entityManager w' = m_entityManager w
    \<and> lists_ok w' cs' fs' \<and> labels_ok w' cs'
    \<and> m_pools w' = pools_without w e {t. component w t e \<noteq> None}"
proof -
  let ?i = "unat (entity_index e)"
  let ?T = "{t. component w t e \<noteq> None}"
  have types: "ty w ` set (cs ?i) = ?T"
    using labels_types [OF labels] holds_entity [OF ok e] by blast
  show ?thesis
  proof (cases "?i < length (m_entityComponentHeads w)")
    case False
    then have "cs ?i = []" using lists by (simp add: lists_ok_def)
    then have "?T = {}" using types by simp
    then show ?thesis using False lists labels
      by (intro exI [of _ w] exI [of _ cs] exI [of _ fs])
        (simp add: destroyEntityComponents_def pools_without_def fun_eq_iff)
  next
    case True
    define w0 where "w0 = w\<lparr>m_entityComponentHeads := (m_entityComponentHeads w)[?i := nilnode]\<rparr>"
    have eq: "destroyEntityComponents w e = destroy_nodes w0 e (m_entityComponentHeads w ! ?i)"
      using True by (simp add: destroyEntityComponents_def w0_def Let_def)
    have ch: "chain w0 h ns" if "chain w h ns" for h ns
      using that by (rule chain_cong) (simp_all add: w0_def)
    have pl: "pl w0 n = ty w n" if "n \<in> set (cs ?i)" for n
      using labels_pools [OF labels that] by (simp add: w0_def)
    have "map (pl w0) (cs ?i) = map (ty w) (cs ?i)" using pl by simp
    then have dist: "distinct (map (pl w0) (cs ?i))" using labels by (simp only: labels_ok_def)
    have some: "\<forall>n \<in> set (cs ?i). m_pools w0 (pl w0 n) \<noteq> None"
      using pl types component_Some_iff [OF ok] by (auto simp: w0_def)
    have "chain w0 (m_entityComponentHeads w ! ?i) (cs ?i)" "chain w0 (m_freeEntityComponentNode w0) fs"
      "distinct (cs ?i)" "set (cs ?i) \<inter> set fs = {}"
      using lists True ch [of _ fs] ch [of _ "cs ?i"] by (simp_all add: lists_ok_def w0_def)
    from destroy_nodes_chain [OF this(1,3) dist some this(2,4), of e]
    obtain w' where w': "destroy_nodes w0 e (m_entityComponentHeads w ! ?i) = Some w'" "same_labels w0 w'"
      "chain w' (m_freeEntityComponentNode w') (rev (cs ?i) @ fs)" "\<forall>m. m \<notin> set (cs ?i) \<longrightarrow> nxt w' m = nxt w0 m"
      "m_pools w' = pools_without w0 e (pl w0 ` set (cs ?i))"
      "m_entityComponentHeads w' = m_entityComponentHeads w0" "m_entityManager w' = m_entityManager w0"
      by blast
    have lab: "same_labels w w'" using w'(2) by (simp add: same_labels_def w0_def)
    have pools: "m_pools w' = pools_without w e ?T"
      using w'(5) pl types by (simp add: fun_eq_iff pools_without_def w0_def cong: image_cong_simp)
    have "lists_ok w' (cs(?i := [])) (rev (cs ?i) @ fs)"
      using w' lab by (intro lists_released [OF lists True]) (simp_all add: w0_def)
    moreover have "labels_ok w' (cs(?i := []))"
      using labels lab pools_removed(3) [OF ok e pools] holds_entity [OF ok e]
      by (auto simp: labels_ok_def same_labels_def)
    ultimately show ?thesis using eq w'(1,7) pools by (auto simp: w0_def)
  qed
qed

lemma entities_destroyed:
  assumes "em_inv (m_entityManager w)" "e \<in> entities w"
  shows "entities (w\<lparr>m_entityManager := destroyAlive (m_entityManager w) e\<rparr>) = entities w - {e}"
    "em_inv (destroyAlive (m_entityManager w) e)"
  using assms by (simp_all add: entities_def live_destroyAlive em_inv_destroyAlive)

lemma lists_ok_cong:
  assumes "lists_ok w cs fs" "m_entityComponentHeads w' = m_entityComponentHeads w"
    "nodes_of w' = nodes_of w" "m_freeEntityComponentNode w' = m_freeEntityComponentNode w"
  shows "lists_ok w' cs fs"
proof -
  have "chain w' h ns" if "chain w h ns" for h ns
    using that by (rule chain_cong) (simp_all add: assms(3))
  then show ?thesis using assms(1) by (simp add: lists_ok_def assms(2-4))
qed

lemma labels_ok_cong:
  "labels_ok w cs \<Longrightarrow> nodes_of w' = nodes_of w \<Longrightarrow> m_pools w' = m_pools w \<Longrightarrow> labels_ok w' cs"
  by (simp add: labels_ok_def holds_def)

lemma destroyEntity_ok:
  assumes inv: "world_inv w" and e: "e \<in> entities w"
  shows "\<exists>w'. destroyEntity w e = Some w' \<and> world_inv w' \<and> entities w' = entities w - {e}
    \<and> (\<forall>t e'. component w' t e' = (if e' = e then None else component w t e'))"
proof -
  obtain cs fs where ok: "pools_ok w" and lists: "lists_ok w cs fs" and labels: "labels_ok w cs"
    using inv by (auto simp: world_inv_def)
  note em = pools_okD(1) [OF ok]
  obtain w1 cs1 fs1 where w1: "destroyEntityComponents w e = Some w1" "m_entityManager w1 = m_entityManager w"
    "lists_ok w1 cs1 fs1" "labels_ok w1 cs1" and pools: "m_pools w1 = pools_without w e {t. component w t e \<noteq> None}"
    using destroyEntityComponents_ok [OF ok lists labels e] by blast
  define w' where "w' = w1\<lparr>m_entityManager := destroyAlive (m_entityManager w1) e\<rparr>"
  have "alive (m_entityManager w) e" using em e by (simp add: entities_def live_iff)
  then have eq: "destroyEntity w e = Some w'" using w1(1) by (simp add: destroyEntity_def w'_def)
  have ents: "entities w' = entities w - {e}"
    using entities_destroyed [of w1 e] em e w1(2) by (simp add: w'_def entities_def)
  have comp: "component w' t e' = (if e' = e then None else component w t e')" for t e'
    using pools_removed(2) [OF ok e pools, of t e'] by (auto simp: w'_def component_def)
  have "pools_ok w'"
    unfolding pools_ok_def
  proof (intro conjI allI impI)
    show "em_inv (m_entityManager w')" using em e w1(2) by (simp add: w'_def entities_def em_inv_destroyAlive)
    fix t p
    assume p: "m_pools w' t = Some p"
    then have p1: "m_pools w1 t = Some p" by (simp add: w'_def)
    from pools_removed(1) [OF ok e pools p1] show "pool_inv p" by simp
    have "set (m_dense p) \<subseteq> entities w" using pools_removed(1) [OF ok e pools p1] by (auto split: if_splits)
    moreover have "e \<notin> set (m_dense p)"
      using comp [of t e] p pools_removed(1) [OF ok e pools p1] by (auto simp: component_def pool_map_None)
    ultimately show "set (m_dense p) \<subseteq> live (m_entityManager w')" using ents by (auto simp: entities_def)
  qed
  moreover have "lists_ok w' cs1 fs1" using w1(3) by (rule lists_ok_cong) (simp_all add: w'_def)
  moreover have "labels_ok w' cs1" using w1(4) by (rule labels_ok_cong) (simp_all add: w'_def)
  ultimately have "world_inv w'" unfolding world_inv_def by blast
  then show ?thesis using eq ents comp by blast
qed

text \<open>C1: Destroying a live entity always succeeds (the walk along its component list ends), removes
  the entity and every component it had from every pool, keeps every component of every other
  entity, and keeps the world's invariant: the per-entity lists and the free list stay disjoint,
  cover all nodes, and name exactly the pools that hold the entity.\<close>

theorem destroyEntity_correct:
  assumes "world_inv w" and "e \<in> entities w"
  shows "\<exists>w'. destroyEntity w e = Some w' \<and> world_inv w' \<and> entities w' = entities w - {e}
    \<and> (\<forall>t e'. component w' t e' = (if e' = e then None else component w t e'))"
  using assms by (rule destroyEntity_ok)

section \<open>Removing a component\<close>

lemma lists_unlinked:
  assumes ok: "lists_ok w cs fs" and i: "i < length (m_entityComponentHeads w)" and ci: "cs i = as @ n # bs"
    and u: "unlinked w w' (Head_slot i) as n bs"
  shows "lists_ok w' (cs(i := as @ bs)) (n # fs)"
proof -
  note L = ok [unfolded lists_ok_def]
  note U = u [unfolded unlinked_def]
  have len: "length (nodes_of w') = length (nodes_of w)" using U by (simp add: same_labels_def)
  have mem: "n \<in> set (cs i)" by (simp add: ci)
  have chi: "chain w (m_entityComponentHeads w ! i) (cs i)" and "distinct (cs i)" using L i by blast+
  then have n: "unat n < length (nodes_of w)" "n \<noteq> nilnode" "n \<notin> set fs" "distinct (as @ n # bs)"
    using chain_bounds [OF chi mem] lists_free_disjoint [OF ok mem] by (simp_all add: ci)
  have nx: "nxt w' m = nxt w m" if "m \<notin> set (cs i)" for m using U that ci by auto
  have "chain w' (m_entityComponentHeads w' ! j) ((cs(i := as @ bs)) j)"
    if j: "j < length (m_entityComponentHeads w')" for j
  proof (cases "j = i")
    case True
    then show ?thesis using U by simp
  next
    case False
    then have "chain w (m_entityComponentHeads w ! j) (cs j)" using L j U by simp
    then have "chain w' (m_entityComponentHeads w ! j) (cs j)"
      by (rule chain_cong) (use len nx lists_disjoint [OF ok _ False] in simp_all)
    then show ?thesis using False U by simp
  qed
  moreover have "chain w' (m_freeEntityComponentNode w') (n # fs)"
  proof -
    have "chain w (m_freeEntityComponentNode w) fs" using L by simp
    then have "chain w' (m_freeEntityComponentNode w) fs"
      by (rule chain_cong) (use len nx lists_free_disjoint [OF ok] in auto)
    then show ?thesis using U n len by simp
  qed
  moreover have "m \<in> set (n # fs) \<or> (\<exists>j. m \<in> set ((cs(i := as @ bs)) j))" if "unat m < length (nodes_of w')" for m
  proof -
    have "m \<in> set fs \<or> (\<exists>j. m \<in> set (cs j))" using L that len by simp
    then show ?thesis using ci by (metis fun_upd_apply in_set_conv_decomp list.set_intros set_ConsD Un_iff set_append)
  qed
  moreover have "distinct fs" "\<forall>j. distinct (cs j)" using L by blast+
  then have "distinct (n # fs)" "\<forall>j. distinct ((cs(i := as @ bs)) j)" using n by auto
  moreover have "\<forall>j. set ((cs(i := as @ bs)) j) \<inter> set (n # fs) = {}"
    using lists_free_disjoint [OF ok] lists_free_disjoint [OF ok, where j = i] lists_disjoint [OF ok mem] ci n
    by auto
  moreover have "\<forall>j k. j \<noteq> k \<longrightarrow> set ((cs(i := as @ bs)) j) \<inter> set ((cs(i := as @ bs)) k) = {}"
  proof -
    have "set ((cs(i := as @ bs)) j) \<subseteq> set (cs j)" for j using ci by auto
    then show ?thesis using lists_disjoint [OF ok] by blast
  qed
  moreover have "\<forall>j \<ge> length (m_entityComponentHeads w'). (cs(i := as @ bs)) j = []" using L U i by auto
  ultimately show ?thesis unfolding lists_ok_def using L len by simp
qed

lemma removeEntityComponentType_ok:
  assumes lists: "lists_ok w cs fs" and types: "distinct (map (ty w) (cs i))" and i: "i = unat (entity_index e)"
    and t: "t \<in> ty w ` set (cs i)"
  shows "\<exists>w' as n bs. cs i = as @ n # bs \<and> ty w n = t
    \<and> removeEntityComponentType w e t = Some w' \<and> unlinked w w' (Head_slot i) as n bs
    \<and> lists_ok w' (cs(i := as @ bs)) (n # fs)"
proof -
  have len: "i < length (m_entityComponentHeads w)"
    using lists t by (cases "i < length (m_entityComponentHeads w)") (auto simp: lists_ok_def)
  obtain n where n: "n \<in> set (cs i)" "ty w n = t" using t by auto
  then obtain as bs where ci: "cs i = as @ n # bs" by (meson split_list)
  have "t \<notin> ty w ` set as" using types n(2) by (auto simp: ci)
  moreover have "chain w (read_slot w (Head_slot i)) (as @ n # bs)" "distinct (as @ n # bs)"
    using lists len unfolding lists_ok_def ci [symmetric] by simp_all
  ultimately obtain w' where "unlink_type w (Head_slot i) t = Some w'" "unlinked w w' (Head_slot i) as n bs"
    using unlink_type_chain [of w "Head_slot i" as n bs t] n(2) len by (auto simp: slot_ok_def)
  moreover from this have "lists_ok w' (cs(i := as @ bs)) (n # fs)" using lists_unlinked [OF lists len ci] by simp
  ultimately show ?thesis using ci n(2) len by (auto simp: removeEntityComponentType_def i)
qed

lemma removeComponent_ok:
  assumes inv: "world_inv w" and e: "e \<in> entities w"
  shows "\<exists>w'. removeComponent w t e = Some w' \<and> world_inv w' \<and> entities w' = entities w
    \<and> (\<forall>u e'. component w' u e' = (if u = t \<and> e' = e then None else component w u e'))"
proof -
  obtain cs fs where ok: "pools_ok w" and lists: "lists_ok w cs fs" and labels: "labels_ok w cs"
    using inv by (auto simp: world_inv_def)
  have al: "alive (m_entityManager w) e" using pools_okD(1) [OF ok] e by (simp add: entities_def live_iff)
  show ?thesis
  proof (cases "component w t e")
    case None
    have "removeComponent w t e = Some w"
      using al None pools_okD(2) [OF ok, of t]
      by (auto simp: removeComponent_def component_def pool_map_None pool_remove_absent fun_upd_idem split: option.splits)
    then show ?thesis using inv None by auto
  next
    case (Some v)
    then obtain pool where pool: "m_pools w t = Some pool" "e \<in> set (m_dense pool)"
      using component_Some_iff [OF ok, of t e] by auto
    define w1 where "w1 = w\<lparr>m_pools := (m_pools w)(t \<mapsto> snd (pool_remove pool e))\<rparr>"
    have "fst (pool_remove pool e)" using pools_okD(2) [OF ok pool(1)] pool(2) by (simp add: pool_remove_result)
    then have eq: "removeComponent w t e = removeEntityComponentType w1 e t"
      using al pool by (simp add: removeComponent_def w1_def case_prod_beta Let_def)
    let ?i = "unat (entity_index e)"
    have p1: "m_pools w1 = pools_without w e {t}" using pool by (auto simp: w1_def pools_without_def fun_eq_iff)
    have lists1: "lists_ok w1 cs fs" using lists by (rule lists_ok_cong) (simp_all add: w1_def)
    have "t \<in> ty w ` set (cs ?i)" using labels_types [OF labels] holds_entity [OF ok e] Some by blast
    then have t1: "t \<in> ty w1 ` set (cs ?i)" by (simp add: w1_def)
    have "distinct (map (ty w1) (cs ?i))" using labels by (simp add: labels_ok_def w1_def)
    from removeEntityComponentType_ok [OF lists1 this refl t1]
    obtain w' as n bs where ci: "cs ?i = as @ n # bs" "ty w1 n = t" and r: "removeEntityComponentType w1 e t = Some w'"
      and u: "unlinked w1 w' (Head_slot ?i) as n bs" and l: "lists_ok w' (cs(?i := as @ bs)) (n # fs)"
      by blast
    have w': "m_pools w' = pools_without w e {t}" "m_entityManager w' = m_entityManager w" "same_labels w w'"
      using u p1 by (simp_all add: unlinked_def same_labels_def w1_def)
    note R = pools_removed [OF ok e w'(1)]
    have "labels_ok w' (cs(?i := as @ bs))"
      unfolding labels_ok_def
    proof (intro allI conjI ballI)
      fix j u m
      have tys: "ty w' m = ty w m \<and> pl w' m = pl w m" for m using w'(3) by (simp add: same_labels_def)
      have d: "distinct (map (ty w) (cs ?i))" using labels by (simp add: labels_ok_def)
      show "distinct (map (ty w') ((cs(?i := as @ bs)) j))"
        using labels d by (auto simp: tys labels_ok_def ci)
      show "pl w' m = ty w' m" if "m \<in> set ((cs(?i := as @ bs)) j)"
        using that labels_pools [OF labels, of m j] ci by (auto simp: tys split: if_splits)
      have "t \<notin> ty w ` set (as @ bs)" "ty w n = t" using d ci by (auto simp: w1_def)
      then have "ty w ` set (as @ bs) = ty w ` set (cs ?i) - {t}" by (simp add: ci)
      then show "u \<in> ty w' ` set ((cs(?i := as @ bs)) j) \<longleftrightarrow> holds w' u j"
        using R(3) [of u j] labels_types [OF labels, of u j] labels_types [OF labels, of u ?i] by (auto simp: tys)
    qed
    moreover have "pools_ok w'"
    proof -
      have "pool_inv p \<and> set (m_dense p) \<subseteq> live (m_entityManager w')" if "m_pools w' u = Some p" for u p
        using R(1) [OF that] w'(2) by (auto simp: entities_def split: if_splits)
      then show ?thesis using pools_okD(1) [OF ok] w'(2) by (simp add: pools_ok_def)
    qed
    ultimately have "world_inv w'" using l unfolding world_inv_def by blast
    then show ?thesis using eq r R(2) w'(2) by (auto simp: entities_def)
  qed
qed

text \<open>C3: Removing a component from a live entity always succeeds, unbinds exactly that component,
  unlinks its type from the entity's list, and keeps the world's invariant.\<close>

theorem removeComponent_correct:
  assumes "world_inv w" and "e \<in> entities w"
  shows "\<exists>w'. removeComponent w t e = Some w' \<and> world_inv w' \<and> entities w' = entities w
    \<and> (\<forall>u e'. component w' u e' = (if u = t \<and> e' = e then None else component w u e'))"
  using assms by (rule removeComponent_ok)

section \<open>Adding a component\<close>

lemma lists_grown:
  assumes "lists_ok w cs fs"
  shows "lists_ok (ensureEntityComponentHead w e) cs fs"
proof -
  let ?w = "ensureEntityComponentHead w e"
  have nodes: "nodes_of ?w = nodes_of w" "m_freeEntityComponentNode ?w = m_freeEntityComponentNode w"
    by (simp_all add: ensureEntityComponentHead_def Let_def)
  have ch: "chain ?w h ns" if "chain w h ns" for h ns using that by (rule chain_cong) (simp_all add: nodes)
  have len: "length (m_entityComponentHeads w) \<le> length (m_entityComponentHeads ?w)"
    by (simp add: ensureEntityComponentHead_def Let_def)
  have hd: "m_entityComponentHeads ?w ! i = (if i < length (m_entityComponentHeads w) then m_entityComponentHeads w ! i else nilnode)"
    if "i < length (m_entityComponentHeads ?w)" for i
    using that by (auto simp: ensureEntityComponentHead_def Let_def nth_append split: if_splits)
  show ?thesis using assms ch hd len by (auto simp: lists_ok_def nodes)
qed

lemma ensured_head: "unat (entity_index e) < length (m_entityComponentHeads (ensureEntityComponentHead w e))"
  by (simp add: ensureEntityComponentHead_def Let_def)

text \<open>What linking node \<open>n\<close> in front of list \<open>i\<close> does.\<close>

definition linked :: "('c, 's, 'm) World \<Rightarrow> ('c, 's, 'm) World \<Rightarrow> nat \<Rightarrow> u32 \<Rightarrow> usize \<Rightarrow> bool" where
  "linked w w' i n t \<longleftrightarrow> nodes_of w' ! unat n = \<lparr>node_typeId = t, node_pool = t, node_next = m_entityComponentHeads w ! i\<rparr>
     \<and> (\<forall>m. unat m < length (nodes_of w) \<and> m \<noteq> n \<longrightarrow> nodes_of w' ! unat m = nodes_of w ! unat m)
     \<and> m_entityComponentHeads w' = (m_entityComponentHeads w)[i := n]
     \<and> m_pools w' = m_pools w \<and> m_entityManager w' = m_entityManager w"

lemma lists_linked:
  assumes ok: "lists_ok w cs fs" and i: "i < length (m_entityComponentHeads w)" and l: "linked w w' i n t"
    and n: "n \<noteq> nilnode" "unat n < length (nodes_of w')" "\<And>j. n \<notin> set (cs j)"
    and len: "length (nodes_of w) \<le> length (nodes_of w')" "length (nodes_of w') \<le> unat (umax :: u32)"
    and free: "(set fs = insert n (set fs') \<and> length (nodes_of w') = length (nodes_of w)) \<or> (fs' = fs \<and> length (nodes_of w') = Suc (length (nodes_of w)) \<and> unat n = length (nodes_of w))"
    and fs': "distinct fs'" "n \<notin> set fs'" "set fs' \<subseteq> set fs" "chain w (m_freeEntityComponentNode w') fs'"
  shows "lists_ok w' (cs(i := n # cs i)) fs'"
proof -
  note L = ok [unfolded lists_ok_def]
  note K = l [unfolded linked_def]
  have ch: "chain w' h ns" if "chain w h ns" "n \<notin> set ns" for h ns
    using that(1)
  proof (rule chain_cong)
    show "nxt w' m = nxt w m" if "m \<in> set ns" for m
      using K chain_bounds [OF \<open>chain w h ns\<close> that] that \<open>n \<notin> set ns\<close> by auto
  qed (rule len(1))
  have "chain w' (m_entityComponentHeads w' ! j) ((cs(i := n # cs i)) j)"
    if j: "j < length (m_entityComponentHeads w')" for j
  proof (cases "j = i")
    case True
    have "chain w' (m_entityComponentHeads w ! i) (cs i)" using L i n(3) by (intro ch) simp_all
    then show ?thesis using True i n K by simp
  next
    case False
    have "chain w' (m_entityComponentHeads w ! j) (cs j)" using L j K n(3) by (intro ch) simp_all
    then show ?thesis using False K by simp
  qed
  moreover have "chain w' (m_freeEntityComponentNode w') fs'" using fs' by (intro ch)
  moreover have "m \<in> set fs' \<or> (\<exists>j. m \<in> set ((cs(i := n # cs i)) j))" if m: "unat m < length (nodes_of w')" for m
  proof (cases "m = n")
    case False
    then have "unat m < length (nodes_of w)"
      using m free by (auto simp: word_unat_eq_iff less_Suc_eq)
    then have "m \<in> set fs \<or> (\<exists>j. m \<in> set (cs j))" using L by blast
    then show ?thesis using free False by (metis fun_upd_apply insertE list.set_intros(2))
  qed (auto intro: exI [of _ i])
  moreover have "\<forall>j. distinct (cs j) \<and> set (cs j) \<inter> set fs = {}" "\<forall>j k. j \<noteq> k \<longrightarrow> set (cs j) \<inter> set (cs k) = {}"
    using L by blast+
  then have "\<forall>j. distinct ((cs(i := n # cs i)) j) \<and> set ((cs(i := n # cs i)) j) \<inter> set fs' = {}"
    "\<forall>j k. j \<noteq> k \<longrightarrow> set ((cs(i := n # cs i)) j) \<inter> set ((cs(i := n # cs i)) k) = {}"
  proof -
    assume d: "\<forall>j. distinct (cs j) \<and> set (cs j) \<inter> set fs = {}" "\<forall>j k. j \<noteq> k \<longrightarrow> set (cs j) \<inter> set (cs k) = {}"
    then have "set (cs j) \<inter> set fs' = {}" for j using fs'(3) by blast
    then show "\<forall>j. distinct ((cs(i := n # cs i)) j) \<and> set ((cs(i := n # cs i)) j) \<inter> set fs' = {}"
      using d(1) n(3) fs'(2) by auto
    show "\<forall>j k. j \<noteq> k \<longrightarrow> set ((cs(i := n # cs i)) j) \<inter> set ((cs(i := n # cs i)) k) = {}"
      using d(2) n(3) by auto
  qed
  moreover have "\<forall>j \<ge> length (m_entityComponentHeads w'). (cs(i := n # cs i)) j = []" using L K i by auto
  ultimately show ?thesis unfolding lists_ok_def using fs'(1) len(2) by simp
qed

definition node_room :: "('c, 's, 'm) World \<Rightarrow> bool" where
  "node_room w \<longleftrightarrow> m_freeEntityComponentNode w \<noteq> nilnode \<or> length (nodes_of w) < unat (umax :: u32)"

lemma acquire_ok:
  assumes ok: "lists_ok w cs fs" and i: "i < length (m_entityComponentHeads w)" and room: "node_room w"
  shows "\<exists>n w1 fs'. acquireEntityComponentNode w t t (m_entityComponentHeads w ! i) = Some (n, w1)
    \<and> linked w (w1\<lparr>m_entityComponentHeads := (m_entityComponentHeads w1)[i := n]\<rparr>) i n t
    \<and> lists_ok (w1\<lparr>m_entityComponentHeads := (m_entityComponentHeads w1)[i := n]\<rparr>) (cs(i := n # cs i)) fs'"
proof (cases "m_freeEntityComponentNode w = nilnode")
  case False
  let ?n = "m_freeEntityComponentNode w"
  have chf: "chain w ?n fs" "distinct fs" using ok unfolding lists_ok_def by blast+
  then obtain fs' where fs: "fs = ?n # fs'" and n: "unat ?n < length (nodes_of w)" "chain w (nxt w ?n) fs'"
    using False by (cases fs) auto
  let ?node = "\<lparr>node_typeId = t, node_pool = t, node_next = m_entityComponentHeads w ! i\<rparr>"
  let ?w1 = "w\<lparr>m_freeEntityComponentNode := nxt w ?n, m_entityComponentNodes := (nodes_of w)[unat ?n := ?node]\<rparr>"
  let ?w' = "?w1\<lparr>m_entityComponentHeads := (m_entityComponentHeads ?w1)[i := ?n]\<rparr>"
  have a: "acquireEntityComponentNode w t t (m_entityComponentHeads w ! i) = Some (?n, ?w1)"
    using False n by (simp add: acquireEntityComponentNode_def Let_def)
  have l: "linked w ?w' i ?n t" using n by (auto simp: linked_def nth_list_update word_unat_eq_iff)
  have "\<And>j. ?n \<notin> set (cs j)" using lists_free_disjoint [OF ok] fs by (metis list.set_intros(1))
  moreover have "length (nodes_of w) \<le> unat (umax :: u32)" using ok unfolding lists_ok_def by blast
  ultimately have "lists_ok ?w' (cs(i := ?n # cs i)) fs'"
    using False n fs chf by (intro lists_linked [OF ok i l]) auto
  then show ?thesis using a l by blast
next
  case True
  let ?n = "of_nat (length (nodes_of w)) :: u32"
  have bound: "length (nodes_of w) < unat (umax :: u32)" using room True by (simp add: node_room_def)
  have fs: "fs = []" using ok True by (cases fs) (auto simp: lists_ok_def)
  have un: "unat ?n = length (nodes_of w)" using bound by (simp add: unat_of_nat_small unat_umax)
  let ?node = "\<lparr>node_typeId = t, node_pool = t, node_next = m_entityComponentHeads w ! i\<rparr>"
  let ?w1 = "w\<lparr>m_entityComponentNodes := nodes_of w @ [?node]\<rparr>"
  let ?w' = "?w1\<lparr>m_entityComponentHeads := (m_entityComponentHeads ?w1)[i := ?n]\<rparr>"
  have a: "acquireEntityComponentNode w t t (m_entityComponentHeads w ! i) = Some (?n, ?w1)"
    using True bound by (simp add: acquireEntityComponentNode_def)
  have l: "linked w ?w' i ?n t" using un by (simp add: linked_def nth_append)
  have "?n \<notin> set (cs j)" for j using list_node_bound [OF ok, of ?n j] un by auto
  moreover have "?n \<noteq> nilnode" using un bound by (auto simp: s_InvalidEntityComponentNode_def)
  ultimately have "lists_ok ?w' (cs(i := ?n # cs i)) []"
    using un bound True fs by (intro lists_linked [OF ok i l]) auto
  then show ?thesis using a l by blast
qed

lemma labels_linked:
  assumes labels: "labels_ok w cs" and lists: "lists_ok w cs fs" and nn: "ty w' n = t" "pl w' n = t"
    and old: "\<And>m. unat m < length (nodes_of w) \<Longrightarrow> m \<noteq> n \<Longrightarrow> nodes_of w' ! unat m = nodes_of w ! unat m"
    and others: "\<And>j. n \<notin> set (cs j)" and t: "\<not> holds w t i"
    and h: "\<And>u j. holds w' u j \<longleftrightarrow> holds w u j \<or> (u = t \<and> j = i)"
  shows "labels_ok w' (cs(i := n # cs i))"
proof -
  have node: "nodes_of w' ! unat m = nodes_of w ! unat m" if "m \<in> set (cs j)" for m j
  proof -
    have "unat m < length (nodes_of w)" using list_node_bound [OF lists that] .
    moreover have "m \<noteq> n" using others that by blast
    ultimately show ?thesis by (rule old)
  qed
  have tys: "map (ty w') (cs j) = map (ty w) (cs j)" "ty w' ` set (cs j) = ty w ` set (cs j)" for j
    using node by (simp_all cong: image_cong)
  show ?thesis
    unfolding labels_ok_def
  proof (intro allI conjI ballI)
    fix j u m
    note T = labels_types [OF labels]
    have "distinct (map (ty w) (cs j))" using labels by (simp add: labels_ok_def)
    moreover have "t \<notin> ty w ` set (cs i)" using t T by blast
    ultimately show "distinct (map (ty w') ((cs(i := n # cs i)) j))"
      by (cases "j = i") (simp_all only: fun_upd_same fun_upd_other list.map tys distinct.simps nn set_map not_False_eq_True simp_thms)
    show "pl w' m = ty w' m" if "m \<in> set ((cs(i := n # cs i)) j)"
    proof (cases "m = n")
      case False
      then have "m \<in> set (cs j)" using that by (auto split: if_splits)
      then show ?thesis using node labels_pools [OF labels] by simp
    qed (simp add: nn)
    show "u \<in> ty w' ` set ((cs(i := n # cs i)) j) \<longleftrightarrow> holds w' u j"
      using T [of u j] h [of u j] tys(2) [of j] nn(1) by (cases "j = i") auto
  qed
qed

lemma addEntityComponentType_ok:
  assumes lists: "lists_ok w cs fs" and room: "node_room w" and i: "i = unat (entity_index e)"
    and t: "t \<notin> ty w ` set (cs i)"
  shows "\<exists>w' n fs'. addEntityComponentType w e t t = Some w' \<and> (\<forall>j. n \<notin> set (cs j))
    \<and> linked (ensureEntityComponentHead w e) w' i n t \<and> lists_ok w' (cs(i := n # cs i)) fs'"
proof -
  define w0 where "w0 = ensureEntityComponentHead w e"
  have lists0: "lists_ok w0 cs fs" unfolding w0_def using lists by (rule lists_grown)
  have len: "i < length (m_entityComponentHeads w0)" by (simp add: w0_def i ensured_head)
  have same: "nodes_of w0 = nodes_of w" "m_freeEntityComponentNode w0 = m_freeEntityComponentNode w"
    by (simp_all add: w0_def ensureEntityComponentHead_def Let_def)
  have room0: "node_room w0" using room by (simp add: node_room_def same)
  have "chain w0 (m_entityComponentHeads w0 ! i) (cs i)" using lists0 len unfolding lists_ok_def by blast
  then have has: "list_has_type (nodes_of w0) (m_entityComponentHeads w0 ! i) t = Some False"
    using list_has_type_chain [of w0 "m_entityComponentHeads w0 ! i" "cs i" t] t by (simp add: same)
  obtain n w1 fs' where a: "acquireEntityComponentNode w0 t t (m_entityComponentHeads w0 ! i) = Some (n, w1)"
    and l: "linked w0 (w1\<lparr>m_entityComponentHeads := (m_entityComponentHeads w1)[i := n]\<rparr>) i n t"
    and ok: "lists_ok (w1\<lparr>m_entityComponentHeads := (m_entityComponentHeads w1)[i := n]\<rparr>) (cs(i := n # cs i)) fs'"
    using acquire_ok [OF lists0 len room0] by blast
  have "n \<notin> set (cs j)" for j
  proof (cases "j = i")
    case True
    have "distinct ((cs(i := n # cs i)) i)" using ok unfolding lists_ok_def by blast
    then show ?thesis using True by simp
  next
    case False
    then show ?thesis using lists_disjoint [OF ok, of n i j] by simp
  qed
  moreover have "addEntityComponentType w e t t = Some (w1\<lparr>m_entityComponentHeads := (m_entityComponentHeads w1)[i := n]\<rparr>)"
    using has a by (simp add: addEntityComponentType_def Let_def i flip: w0_def)
  ultimately show ?thesis using l ok unfolding w0_def by blast
qed

lemma addComponent_ok:
  assumes inv: "world_inv w" and e: "e \<in> entities w" and room: "node_room w"
  shows "\<exists>w'. addComponent w t e v = Some w' \<and> world_inv w' \<and> entities w' = entities w
    \<and> (\<forall>u e'. component w' u e' = (if u = t \<and> e' = e \<and> component w t e = None then Some v else component w u e'))"
proof -
  obtain cs fs where ok: "pools_ok w" and lists: "lists_ok w cs fs" and labels: "labels_ok w cs"
    using inv by (auto simp: world_inv_def)
  have al: "alive (m_entityManager w) e" using pools_okD(1) [OF ok] e by (simp add: entities_def live_iff)
  obtain pool wa where ap: "assurePool w t = (pool, wa)" by fastforce
  have wa: "m_pools wa t = Some pool" "m_entityManager wa = m_entityManager w" "nodes_of wa = nodes_of w"
    "m_freeEntityComponentNode wa = m_freeEntityComponentNode w" "m_entityComponentHeads wa = m_entityComponentHeads w"
    using ap by (auto simp: assurePool_def split: option.splits)
  have dense: "(\<exists>p. m_pools wa u = Some p \<and> x \<in> set (m_dense p)) \<longleftrightarrow> (\<exists>p. m_pools w u = Some p \<and> x \<in> set (m_dense p))" for u x
    using ap by (auto simp: assurePool_def ComponentPool_new_def split: option.splits if_splits)
  have comp: "component wa = component w"
    using ap by (auto simp: fun_eq_iff assurePool_def component_def pool_map_new split: option.splits if_splits)
  have hold: "holds wa u j \<longleftrightarrow> holds w u j" for u j unfolding holds_def using dense by blast
  have oka: "pools_ok wa"
  proof -
    have "pool_inv p \<and> set (m_dense p) \<subseteq> live (m_entityManager w)" if p: "m_pools wa u = Some p" for u p
    proof (cases "m_pools w u = Some p")
      case True
      then show ?thesis using ok by (simp add: pools_ok_def)
    next
      case False
      then have "p = ComponentPool_new"
        using p ap by (auto simp: assurePool_def split: option.splits if_splits)
      then show ?thesis by (simp add: pool_inv_new) (simp add: ComponentPool_new_def)
    qed
    then show ?thesis using ok wa(2) by (simp add: pools_ok_def)
  qed
  have listsa: "lists_ok wa cs fs" using lists by (rule lists_ok_cong) (simp_all add: wa)
  have labelsa: "labels_ok wa cs" using labels by (simp add: labels_ok_def hold wa)
  have ea: "e \<in> entities wa" using e wa by (simp add: entities_def)
  have get: "tryGet pool e = component w t e"
  proof -
    have "tryGet pool e = component wa t e"
      using wa(1) pools_okD(2) [OF oka wa(1)] by (simp add: tryGet_pool_map component_def)
    then show ?thesis by (simp add: comp)
  qed
  show ?thesis
  proof (cases "component w t e")
    case (Some x)
    then have "addComponent w t e v = Some wa" using al ap get by (simp add: addComponent_def)
    moreover have "world_inv wa" unfolding world_inv_def using oka listsa labelsa by blast
    ultimately show ?thesis using comp wa(2) Some by (auto simp: entities_def)
  next
    case None
    define w1 where "w1 = wa\<lparr>m_pools := (m_pools wa)(t \<mapsto> snd (pool_add pool e v))\<rparr>"
    let ?i = "unat (entity_index e)"
    have eq: "addComponent w t e v = addEntityComponentType w1 e t t"
      using al ap get None by (simp add: addComponent_def w1_def)
    have nh: "\<not> holds wa t ?i" using holds_entity [OF oka ea] comp None by simp
    have lists1: "lists_ok w1 cs fs" using listsa by (rule lists_ok_cong) (simp_all add: w1_def)
    have "t \<notin> ty w1 ` set (cs ?i)" using nh labels_types [OF labelsa] by (simp add: w1_def)
    moreover have "node_room w1" using room by (simp add: node_room_def w1_def wa)
    ultimately obtain w' n fs' where w': "addEntityComponentType w1 e t t = Some w'" "\<forall>j. n \<notin> set (cs j)"
      "linked (ensureEntityComponentHead w1 e) w' ?i n t" "lists_ok w' (cs(?i := n # cs ?i)) fs'"
      using addEntityComponentType_ok [OF lists1 _ refl] by blast
    have ens: "nodes_of (ensureEntityComponentHead w1 e) = nodes_of wa" "m_pools (ensureEntityComponentHead w1 e) = m_pools w1"
      "m_entityManager (ensureEntityComponentHead w1 e) = m_entityManager wa"
      by (simp_all add: ensureEntityComponentHead_def Let_def w1_def)
    have p': "m_pools w' = (m_pools wa)(t \<mapsto> snd (pool_add pool e v))" "m_entityManager w' = m_entityManager wa"
      using w'(3) by (simp_all add: linked_def ens) (simp add: w1_def)
    note A = pools_added [OF oka ea wa(1) p'(1)]
    have "pools_ok w'"
      using A(1) pools_okD(1) [OF oka] p'(2) by (simp add: pools_ok_def entities_def)
    moreover have "labels_ok w' (cs(?i := n # cs ?i))"
      using w'(2,3) nh A(3) by (intro labels_linked [OF labelsa listsa]) (auto simp: linked_def ens)
    ultimately have "world_inv w'" using w'(4) unfolding world_inv_def by blast
    then show ?thesis using eq w'(1) A(2) comp wa(2) p'(2) None by (auto simp: entities_def)
  qed
qed

text \<open>C2: Adding a component to a live entity succeeds while a list node is available (a free node, or
  fewer than \<open>2^32 - 1\<close> nodes in all): the entity then has the component it had, or the new one if
  it had none; no other component changes, and the world's invariant is kept.\<close>

theorem addComponent_correct:
  assumes "world_inv w" and "e \<in> entities w" and "node_room w"
  shows "\<exists>w'. addComponent w t e v = Some w' \<and> world_inv w' \<and> entities w' = entities w
    \<and> (\<forall>u e'. component w' u e' = (if u = t \<and> e' = e \<and> component w t e = None then Some v else component w u e'))"
  using assms by (rule addComponent_ok)

section \<open>Creating an entity\<close>

lemma createEntity_ok:
  assumes inv: "world_inv w" and c: "createEntity w = (e, w')"
  shows "world_inv w' \<and> component w' = component w
    \<and> (if e = ENTITY_ID_INVALID then entities w' = entities w
       else e \<notin> entities w \<and> entities w' = insert e (entities w))"
proof -
  obtain cs fs where ok: "pools_ok w" and lists: "lists_ok w cs fs" and labels: "labels_ok w cs"
    using inv by (auto simp: world_inv_def)
  obtain em where em: "create (m_entityManager w) = (e, em)" "w' = w\<lparr>m_entityManager := em\<rparr>"
    using c by (auto simp: createEntity_def split: prod.splits)
  note emi = pools_okD(1) [OF ok]
  have ents: "if e = ENTITY_ID_INVALID then live em = live (m_entityManager w)
      else e \<notin> live (m_entityManager w) \<and> live em = insert e (live (m_entityManager w))"
    using em.mk_bad [OF emi] em.held_mk [OF emi em(1)] em.mk_fresh [OF emi em(1)] em(1) by auto
  have "em_inv em" using em.inv_mk [OF emi] em(1) by simp
  moreover have "live (m_entityManager w) \<subseteq> live em" using ents by (auto split: if_splits)
  ultimately have "pools_ok w'" using ok em(2) by (auto simp: pools_ok_def)
  moreover have "lists_ok w' cs fs" using lists by (rule lists_ok_cong) (simp_all add: em)
  moreover have "labels_ok w' cs" using labels by (rule labels_ok_cong) (simp_all add: em)
  ultimately have "world_inv w'" unfolding world_inv_def by blast
  then show ?thesis using ents em(2) by (simp add: entities_def component_def fun_eq_iff)
qed

text \<open>A created entity is fresh and starts without any component, even though its index, and with
  it the slots of the sparse arrays and the list head, may have belonged to a destroyed entity;
  nothing else changes. When no index is left the invalid identifier is returned and the world is
  unchanged.\<close>

lemma createEntity_correct:
  assumes "world_inv w" and "createEntity w = (e, w')"
  shows "world_inv w' \<and> component w' = component w
    \<and> (if e = ENTITY_ID_INVALID then entities w' = entities w
       else e \<notin> entities w \<and> entities w' = insert e (entities w) \<and> (\<forall>t. component w' t e = None))"
proof -
  have "component w t e = None" if "e \<notin> entities w" for t
    using assms(1) that component_entity [of w t e] unfolding world_inv_def by blast
  then show ?thesis using createEntity_ok [OF assms] by auto
qed

section \<open>Histories of a world\<close>

text \<open>The worlds reachable through the public operations by clients that use live entities.\<close>

inductive world_reach :: "('c, 's, 'm) World \<Rightarrow> bool" where
  new: "world_reach World_new"
| createEntity: "world_reach w \<Longrightarrow> createEntity w = (e, w') \<Longrightarrow> world_reach w'"
| destroyEntity: "world_reach w \<Longrightarrow> e \<in> entities w \<Longrightarrow> destroyEntity w e = Some w' \<Longrightarrow> world_reach w'"
| addComponent: "world_reach w \<Longrightarrow> e \<in> entities w \<Longrightarrow> node_room w \<Longrightarrow> addComponent w t e v = Some w' \<Longrightarrow> world_reach w'"
| removeComponent: "world_reach w \<Longrightarrow> e \<in> entities w \<Longrightarrow> removeComponent w t e = Some w' \<Longrightarrow> world_reach w'"
| addSystem: "world_reach w \<Longrightarrow> world_reach (world_addSystem w t sys)"
| removeSystem: "world_reach w \<Longrightarrow> world_reach (world_removeSystem w sys)"
| postMessage: "world_reach w \<Longrightarrow> world_reach (postMessage w mt m)"
| clear: "world_reach w \<Longrightarrow> world_reach (world_clear w)"

inductive_cases world_reachE: "world_reach w"

lemma world_inv_frame:
  assumes "world_inv w" "m_entityManager w' = m_entityManager w" "m_entityComponentHeads w' = m_entityComponentHeads w"
    "nodes_of w' = nodes_of w" "m_freeEntityComponentNode w' = m_freeEntityComponentNode w" "m_pools w' = m_pools w"
  shows "world_inv w'"
proof -
  obtain cs fs where ok: "pools_ok w" "lists_ok w cs fs" "labels_ok w cs"
    using assms(1) by (auto simp: world_inv_def)
  have "pools_ok w'" using ok(1) by (simp add: pools_ok_def assms)
  moreover have "lists_ok w' cs fs" using ok(2) assms by (intro lists_ok_cong [OF ok(2)])
  moreover have "labels_ok w' cs" using assms by (intro labels_ok_cong [OF ok(3)])
  ultimately show ?thesis unfolding world_inv_def by blast
qed

lemma world_inv_clear: "world_inv (world_clear w)"
proof -
  have "lists_ok (world_clear w) (\<lambda>i. []) []" by (simp add: lists_ok_def world_clear_def)
  moreover have "labels_ok (world_clear w) (\<lambda>i. [])" by (simp add: labels_ok_def holds_def world_clear_def)
  moreover have "pools_ok (world_clear w)" by (simp add: pools_ok_def world_clear_def clear_entities_new em_inv_new)
  ultimately show ?thesis unfolding world_inv_def by blast
qed

lemma world_reach_inv: "world_reach w \<Longrightarrow> world_inv w"
proof (induction rule: world_reach.induct)
  case new
  show ?case by (rule world_inv_new)
next
  case (createEntity w e w')
  then show ?case using createEntity_ok by blast
next
  case (destroyEntity w e w')
  then show ?case using destroyEntity_ok [of w e] by auto
next
  case (addComponent w e t v w')
  then show ?case using addComponent_ok [of w e t v] by auto
next
  case (removeComponent w e t w')
  then show ?case using removeComponent_ok [of w e t] by auto
next
  case (addSystem w t sys)
  then show ?case by (intro world_inv_frame [OF addSystem.IH]) (simp_all add: world_addSystem_def)
next
  case (removeSystem w sys)
  then show ?case by (intro world_inv_frame [OF removeSystem.IH]) (simp_all add: world_removeSystem_def)
next
  case (postMessage w mt m)
  then show ?case by (intro world_inv_frame [OF postMessage.IH]) (simp_all add: postMessage_def)
next
  case (clear w)
  show ?case by (rule world_inv_clear)
qed

text \<open>C4: In every reachable world the lookups read the abstract component map, a component can only be
  found for a live entity, \<open>entityCount\<close> is the number of live entities, and no operation on a live
  entity can fail or hang.\<close>

theorem world_histories:
  assumes "world_reach w"
  shows "world_inv w
    \<and> (\<forall>t e. tryGetComponent w t e = component w t e \<and> (hasComponent w t e \<longleftrightarrow> component w t e \<noteq> None))
    \<and> (\<forall>t e. component w t e \<noteq> None \<longrightarrow> e \<in> entities w \<and> getComponent w t e = component w t e)
    \<and> unat (m_aliveCount (m_entityManager w)) = card (entities w)
    \<and> (\<forall>t e. e \<in> entities w \<longrightarrow> destroyEntity w e \<noteq> None \<and> removeComponent w t e \<noteq> None
         \<and> (node_room w \<longrightarrow> (\<forall>v. addComponent w t e v \<noteq> None)))"
proof -
  have inv: "world_inv w" using assms by (rule world_reach_inv)
  then have ok: "pools_ok w" by (simp add: world_inv_def)
  have look: "tryGetComponent w t e = component w t e" "hasComponent w t e \<longleftrightarrow> component w t e \<noteq> None" for t e
    using pools_okD(2) [OF ok, of t]
    by (auto simp: tryGetComponent_def hasComponent_def component_def cp.look_abs cp.mem_abs split: option.splits)
  have live: "e \<in> entities w \<and> getComponent w t e = component w t e" if "component w t e \<noteq> None" for t e
  proof
    show e: "e \<in> entities w" using component_entity [OF ok that] .
    then have "alive (m_entityManager w) e" using pools_okD(1) [OF ok] by (simp add: entities_def live_iff)
    then show "getComponent w t e = component w t e" using pools_okD(2) [OF ok, of t]
      by (auto simp: getComponent_def component_def pool_get_pool_map split: option.splits)
  qed
  have "unat (m_aliveCount (m_entityManager w)) = card (entities w)"
    using live_count [OF pools_okD(1) [OF ok]] by (simp add: entities_def)
  moreover have "destroyEntity w e \<noteq> None" "removeComponent w t e \<noteq> None"
    "node_room w \<Longrightarrow> addComponent w t e v \<noteq> None" if "e \<in> entities w" for t e v
    using destroyEntity_ok [OF inv that] removeComponent_ok [OF inv that, of t] addComponent_ok [OF inv that, of t v]
    by auto
  ultimately show ?thesis using inv look live by blast
qed

section \<open>A concrete world\<close>

text \<open>One entity with one component of type 1.\<close>

definition sample_entity :: EntityID where
  "sample_entity = make_EntityID 0 0"

definition sample_world :: "(nat, nat, nat) World" where
  "sample_world = the (addComponent (snd (createEntity World_new)) 1 sample_entity 7)"

lemma sample_facts:
  "world_reach sample_world \<and> sample_entity \<in> entities sample_world
   \<and> component sample_world 1 sample_entity = Some 7 \<and> node_room sample_world"
proof -
  let ?w0 = "World_new :: (nat, nat, nat) World"
  obtain w1 where c: "createEntity ?w0 = (sample_entity, w1)"
    by (simp add: createEntity_def World_new_def create_new sample_entity_def)
  have ne: "sample_entity \<noteq> ENTITY_ID_INVALID" using make_zero_valid by (simp add: sample_entity_def)
  have r1: "world_reach w1" using world_reach.createEntity [OF world_reach.new c] .
  have e1: "sample_entity \<in> entities w1" using createEntity_ok [OF world_inv_new c] ne by simp
  have none: "component w1 1 sample_entity = None"
    using createEntity_ok [OF world_inv_new c] by (simp add: component_def World_new_def)
  have nodes: "nodes_of w1 = []" using c by (auto simp: createEntity_def World_new_def split: prod.splits)
  then have room: "node_room w1" by (simp add: node_room_def unat_umax)
  obtain w2 where w2: "addComponent w1 1 sample_entity 7 = Some w2" "entities w2 = entities w1"
    "component w2 1 sample_entity = Some 7"
    using addComponent_ok [OF world_reach_inv [OF r1] e1 room, of 1 7] none by auto
  have s: "sample_world = w2" using w2 c by (simp add: sample_world_def)
  have free: "m_freeEntityComponentNode w1 = nilnode" "m_entityComponentHeads w1 = []"
    using c by (auto simp: createEntity_def World_new_def split: prod.splits)
  have "length (nodes_of w2) \<le> 1"
    using w2(1) nodes free
    by (auto simp: addComponent_def assurePool_def addEntityComponentType_def acquireEntityComponentNode_def
        ensureEntityComponentHead_def Let_def split: if_splits option.splits bool.splits)
  then have "node_room w2" by (simp add: node_room_def unat_umax)
  then show ?thesis using world_reach.addComponent [OF r1 e1 room w2(1)] w2 e1 s by simp
qed

theorem destroyEntity_correct_witness:
  "\<exists>w'. world_inv sample_world \<and> sample_entity \<in> entities sample_world
    \<and> destroyEntity sample_world sample_entity = Some w' \<and> component w' 1 sample_entity = None"
  using destroyEntity_correct [of sample_world sample_entity] sample_facts world_reach_inv by auto

theorem removeComponent_correct_witness:
  "\<exists>w'. world_inv sample_world \<and> sample_entity \<in> entities sample_world
    \<and> removeComponent sample_world 1 sample_entity = Some w' \<and> component w' 1 sample_entity = None"
  using removeComponent_correct [of sample_world sample_entity 1] sample_facts world_reach_inv by auto

theorem addComponent_correct_witness:
  "\<exists>w'. world_inv sample_world \<and> sample_entity \<in> entities sample_world \<and> node_room sample_world
    \<and> addComponent sample_world 2 sample_entity 5 = Some w' \<and> component w' 1 sample_entity = Some 7"
  using addComponent_correct [of sample_world sample_entity 2 5] sample_facts world_reach_inv by auto

lemma createEntity_correct_example:
  "\<exists>e w'. world_inv sample_world \<and> createEntity sample_world = (e, w') \<and> component w' 1 sample_entity = Some 7"
  using createEntity_correct [of sample_world "fst (createEntity sample_world)" "snd (createEntity sample_world)"]
    sample_facts world_reach_inv by (metis prod.collapse)

theorem world_histories_witness:
  "world_reach sample_world \<and> tryGetComponent sample_world 1 sample_entity = Some 7"
  using world_histories [of sample_world] sample_facts by simp

end
