(* ===== verification/View_Query.thy ===== *)
theory View_Query
  imports Component_Pool
begin

text \<open>
  Views over several component pools, \<^verbatim>\<open>src/core/ecs/query.h\<close>. The tuple of pool pointers is a
  list (a null pointer is \<open>None\<close>); a reference to a component is its position in the pool's dense
  array. \<open>view_each\<close> gives the calls \<open>each\<close> makes, in order, and \<open>view_iterate\<close> the values a
  range-based loop over the view's iterators sees.
\<close>

section \<open>The view\<close>

record 'c View =
  v_pools :: "'c ComponentPool option list"
  m_anchorEntities :: "EntityID list option"
  m_anchorPoolIndex :: nat
  m_count :: usize
  m_valid :: bool

definition updateAnchor :: "nat \<Rightarrow> 'c View \<Rightarrow> 'c View" where
  "updateAnchor i v =
     (case v_pools v ! i of
        None \<Rightarrow> v\<lparr>m_valid := False\<rparr>
      | Some pool \<Rightarrow>
          let poolSize = pool_size pool
          in if poolSize < m_count v
             then v\<lparr>m_count := poolSize, m_anchorEntities := Some (m_dense pool), m_anchorPoolIndex := i\<rparr>
             else v)"

definition initializeAnchor :: "'c View \<Rightarrow> 'c View" where
  "initializeAnchor v =
     (let v1 = fold updateAnchor [0..<length (v_pools v)]
                 (v\<lparr>m_valid := True, m_anchorEntities := None, m_anchorPoolIndex := 0, m_count := umax\<rparr>)
      in if \<not> m_valid v1 then v1\<lparr>m_anchorEntities := None, m_count := 0\<rparr> else v1)"

definition make_View :: "'c ComponentPool option list \<Rightarrow> 'c View" where
  "make_View pools = initializeAnchor
     \<lparr>v_pools = pools, m_anchorEntities = None, m_anchorPoolIndex = 0, m_count = 0, m_valid = False\<rparr>"

definition candidateCount :: "'c View \<Rightarrow> usize" where
  "candidateCount v = (if m_valid v then m_count v else 0)"

definition view_findDenseIndex :: "'c View \<Rightarrow> nat \<Rightarrow> nat \<Rightarrow> EntityID \<Rightarrow> u32 option" where
  "view_findDenseIndex v i anchorDenseIndex e =
     (if i = m_anchorPoolIndex v then Some (of_nat anchorDenseIndex)
      else case v_pools v ! i of None \<Rightarrow> None | Some pool \<Rightarrow> findDenseIndex pool e)"

definition entityAt :: "'c View \<Rightarrow> nat \<Rightarrow> EntityID" where
  "entityAt v denseIndex = the (m_anchorEntities v) ! denseIndex"

text \<open>\<open>tryApplyFunc\<close> for the pools from \<open>i\<close> on; \<open>args\<close> are the components found so far. \<open>None\<close> is the early
  return without a call.\<close>

function tryApplyFunc :: "'c View \<Rightarrow> nat \<Rightarrow> EntityID \<Rightarrow> nat \<Rightarrow> u32 list \<Rightarrow> (EntityID \<times> u32 list) option" where
  "tryApplyFunc v i e denseIndex args =
     (if i < length (v_pools v) then
        case view_findDenseIndex v i denseIndex e of
          None \<Rightarrow> None
        | Some componentDenseIndex \<Rightarrow> tryApplyFunc v (i + 1) e denseIndex (args @ [componentDenseIndex])
      else Some (e, args))"
  by pat_completeness auto
termination by (relation "measure (\<lambda>(v, i, _). length (v_pools v) - i)") auto

declare tryApplyFunc.simps [simp del]

definition applyFunc :: "'c View \<Rightarrow> nat \<Rightarrow> (EntityID \<times> u32 list) option" where
  "applyFunc v denseIndex =
     (let e = entityAt v denseIndex
      in if length (v_pools v) = 1 then Some (e, [of_nat denseIndex])
         else tryApplyFunc v 0 e denseIndex [])"

definition view_each :: "'c View \<Rightarrow> (EntityID \<times> u32 list) list" where
  "view_each v = (if \<not> m_valid v then [] else List.map_filter (applyFunc v) [0..<unat (m_count v)])"

section \<open>Iterators\<close>

text \<open>\<open>resolveDenseIndices\<close> writes the positions of every pool up to the first failure; the iterator keeps
  them only when all are found.\<close>

definition resolveDenseIndices :: "'c View \<Rightarrow> EntityID \<Rightarrow> nat \<Rightarrow> u32 list option" where
  "resolveDenseIndices v e anchorDenseIndex =
     those (map (\<lambda>i. view_findDenseIndex v i anchorDenseIndex e) [0..<length (v_pools v)])"

record view_iterator =
  it_index :: nat
  it_denseIndices :: "u32 list"
  it_entity :: EntityID

function skip_loop :: "'c View \<Rightarrow> nat \<Rightarrow> view_iterator" where
  "skip_loop v i =
     (if i < unat (m_count v) then
        case resolveDenseIndices v (entityAt v i) i of
          Some ds \<Rightarrow> \<lparr>it_index = i, it_denseIndices = ds, it_entity = entityAt v i\<rparr>
        | None \<Rightarrow> skip_loop v (i + 1)
      else \<lparr>it_index = i, it_denseIndices = [], it_entity = ENTITY_ID_INVALID\<rparr>)"
  by pat_completeness auto
termination by (relation "measure (\<lambda>(v, i). unat (m_count v) - i)") auto

declare skip_loop.simps [simp del]

definition skipInvalid :: "'c View \<Rightarrow> nat \<Rightarrow> view_iterator" where
  "skipInvalid v i =
     (if length (v_pools v) = 1 then
        if i < unat (m_count v) then \<lparr>it_index = i, it_denseIndices = [of_nat i], it_entity = entityAt v i\<rparr>
        else \<lparr>it_index = i, it_denseIndices = [], it_entity = ENTITY_ID_INVALID\<rparr>
      else skip_loop v i)"

definition view_end :: "'c View \<Rightarrow> view_iterator" where
  "view_end v = \<lparr>it_index = unat (m_count v), it_denseIndices = [], it_entity = ENTITY_ID_INVALID\<rparr>"

definition view_begin :: "'c View \<Rightarrow> view_iterator" where
  "view_begin v = (if m_valid v then skipInvalid v 0 else view_end v)"

text \<open>\<open>for(auto x : view)\<close>: iterators are compared by their index.\<close>

partial_function (option) iterate_loop ::
  "'c View \<Rightarrow> view_iterator \<Rightarrow> (EntityID \<times> u32 list) list \<Rightarrow> (EntityID \<times> u32 list) list option" where
  "iterate_loop v it seen =
     (if it_index it = it_index (view_end v) then Some seen
      else iterate_loop v (skipInvalid v (it_index it + 1)) (seen @ [(it_entity it, it_denseIndices it)]))"

definition view_iterate :: "'c View \<Rightarrow> (EntityID \<times> u32 list) list option" where
  "view_iterate v = iterate_loop v (view_begin v) []"

section \<open>The anchor\<close>

definition pools_valid :: "'c ComponentPool option list \<Rightarrow> bool" where
  "pools_valid pools \<longleftrightarrow> pools \<noteq> [] \<and> (\<forall>p \<in> set pools. \<forall>q. p = Some q \<longrightarrow> pool_inv q)"

lemma unat_pool_size: "pool_inv p \<Longrightarrow> unat (pool_size p) = length (m_dense p)"
  using pool_invD(3) [of p] by (simp add: pool_size_def unat_of_nat_small)

definition anchor_inv :: "'c ComponentPool option list \<Rightarrow> nat \<Rightarrow> 'c View \<Rightarrow> bool" where
  "anchor_inv pools k v \<longleftrightarrow> v_pools v = pools
     \<and> (m_valid v \<longleftrightarrow> (\<forall>i < k. pools ! i \<noteq> None))
     \<and> (m_valid v \<and> 0 < k \<longrightarrow> m_anchorPoolIndex v < k
          \<and> (\<exists>p. pools ! m_anchorPoolIndex v = Some p \<and> m_anchorEntities v = Some (m_dense p) \<and> m_count v = pool_size p))
     \<and> (k = 0 \<longrightarrow> m_count v = umax)
     \<and> (\<forall>i < k. \<forall>q. pools ! i = Some q \<longrightarrow> m_count v \<le> pool_size q)"

lemma pool_size_less_umax: "pool_inv p \<Longrightarrow> pool_size p < umax"
  using pool_invD(3) [of p] by (simp add: word_less_nat_alt unat_pool_size unat_umax)

lemma anchor_step:
  assumes inv: "anchor_inv pools k v" and ok: "pools_valid pools" and k: "k < length pools"
  shows "anchor_inv pools (Suc k) (updateAnchor k v)"
proof (cases "pools ! k")
  case None
  then show ?thesis using inv by (auto simp: anchor_inv_def updateAnchor_def less_Suc_eq)
next
  case (Some p)
  have p: "pool_inv p" using ok k Some by (metis nth_mem pools_valid_def)
  show ?thesis
  proof (cases "pool_size p < m_count v")
    case True
    then have "updateAnchor k v = v\<lparr>m_count := pool_size p, m_anchorEntities := Some (m_dense p), m_anchorPoolIndex := k\<rparr>"
      using Some inv by (simp add: updateAnchor_def anchor_inv_def)
    then show ?thesis using inv Some True
      by (auto simp: anchor_inv_def less_Suc_eq intro: less_imp_le order_trans)
  next
    case False
    then have "0 < k" using inv pool_size_less_umax [OF p] by (auto simp: anchor_inv_def)
    moreover have "updateAnchor k v = v" using Some inv False by (simp add: updateAnchor_def anchor_inv_def)
    ultimately show ?thesis using inv Some False by (auto simp: anchor_inv_def less_Suc_eq)
  qed
qed

lemma anchor_fold:
  "pools_valid pools \<Longrightarrow> k \<le> length pools \<Longrightarrow>
   anchor_inv pools k (fold updateAnchor [0..<k]
     \<lparr>v_pools = pools, m_anchorEntities = None, m_anchorPoolIndex = 0, m_count = umax, m_valid = True\<rparr>)"
proof (induction k)
  case 0
  then show ?case by (simp add: anchor_inv_def)
next
  case (Suc k)
  then show ?case by (simp add: anchor_step)
qed

lemma make_View_facts:
  assumes ok: "pools_valid pools"
  shows "v_pools (make_View pools) = pools"
    and "m_valid (make_View pools) \<longleftrightarrow> None \<notin> set pools"
    and "None \<notin> set pools \<Longrightarrow> m_anchorPoolIndex (make_View pools) < length pools
      \<and> (\<exists>p. pools ! m_anchorPoolIndex (make_View pools) = Some p \<and> pool_inv p
           \<and> m_anchorEntities (make_View pools) = Some (m_dense p) \<and> m_count (make_View pools) = pool_size p
           \<and> (\<forall>q. Some q \<in> set pools \<longrightarrow> pool_size p \<le> pool_size q))"
proof -
  define v1 where "v1 = fold updateAnchor [0..<length pools]
     \<lparr>v_pools = pools, m_anchorEntities = None, m_anchorPoolIndex = 0, m_count = umax, m_valid = True\<rparr>"
  have mk: "make_View pools = (if \<not> m_valid v1 then v1\<lparr>m_anchorEntities := None, m_count := 0\<rparr> else v1)"
    by (simp add: make_View_def initializeAnchor_def v1_def Let_def)
  have inv: "anchor_inv pools (length pools) v1" using anchor_fold [OF ok order_refl] by (simp add: v1_def)
  have ne: "0 < length pools" using ok by (simp add: pools_valid_def)
  show "v_pools (make_View pools) = pools" using inv by (simp add: mk anchor_inv_def)
  show v: "m_valid (make_View pools) \<longleftrightarrow> None \<notin> set pools"
    using inv by (auto simp: mk anchor_inv_def in_set_conv_nth)
  assume "None \<notin> set pools"
  then have "m_valid v1" using v by (auto simp: mk split: if_splits)
  then have mk1: "make_View pools = v1" by (simp add: mk)
  obtain p where "m_anchorPoolIndex v1 < length pools" "pools ! m_anchorPoolIndex v1 = Some p"
    "m_anchorEntities v1 = Some (m_dense p)" "m_count v1 = pool_size p"
    using inv ne \<open>m_valid v1\<close> by (auto simp: anchor_inv_def)
  moreover from this have "pool_inv p" using ok by (metis nth_mem pools_valid_def)
  moreover have "pool_size p \<le> pool_size q" if "Some q \<in> set pools" for q
    using that inv \<open>m_count v1 = pool_size p\<close> by (auto simp: anchor_inv_def in_set_conv_nth)
  ultimately show "m_anchorPoolIndex (make_View pools) < length pools
      \<and> (\<exists>p. pools ! m_anchorPoolIndex (make_View pools) = Some p \<and> pool_inv p
           \<and> m_anchorEntities (make_View pools) = Some (m_dense p) \<and> m_count (make_View pools) = pool_size p
           \<and> (\<forall>q. Some q \<in> set pools \<longrightarrow> pool_size p \<le> pool_size q))"
    unfolding mk1 by blast
qed

section \<open>Resolving positions\<close>

lemma those_Some_iff: "those xs = Some ys \<longleftrightarrow> xs = map Some ys"
proof (induction xs arbitrary: ys)
  case (Cons x xs)
  then show ?case by (cases ys; cases x) auto
qed auto

lemma tryApplyFunc_those:
  "tryApplyFunc v i e d args =
     map_option (\<lambda>ds. (e, args @ ds)) (those (map (\<lambda>j. view_findDenseIndex v j d e) [i..<length (v_pools v)]))"
proof (induction v i e d args rule: tryApplyFunc.induct)
  case (1 v i e d args)
  show ?case
  proof (cases "i < length (v_pools v)")
    case True
    then have "[i..<length (v_pools v)] = i # [i + 1..<length (v_pools v)]" by (simp add: upt_conv_Cons)
    then show ?thesis using 1 True by (subst tryApplyFunc.simps) (auto simp: option.map_comp comp_def split: option.splits)
  next
    case False
    then show ?thesis by (subst tryApplyFunc.simps) simp
  qed
qed

definition valid_view :: "'c ComponentPool option list \<Rightarrow> 'c View \<Rightarrow> bool" where
  "valid_view pools v \<longleftrightarrow> pools_valid pools \<and> None \<notin> set pools \<and> v = make_View pools"

lemma view_facts:
  assumes "valid_view pools v"
  shows "v_pools v = pools" "m_valid v" "m_anchorPoolIndex v < length pools" "pools \<noteq> []"
  using make_View_facts [of pools] assms by (auto simp: valid_view_def pools_valid_def)

lemma view_anchor:
  assumes "valid_view pools v"
  shows "\<exists>p. pools ! m_anchorPoolIndex v = Some p \<and> pool_inv p \<and> m_anchorEntities v = Some (m_dense p)
    \<and> unat (m_count v) = length (m_dense p)"
proof -
  have h: "pools_valid pools" "None \<notin> set pools" and v: "v = make_View pools"
    using assms by (simp_all add: valid_view_def)
  from make_View_facts(3) [OF h] obtain p where "pools ! m_anchorPoolIndex v = Some p" "pool_inv p"
    "m_anchorEntities v = Some (m_dense p)" "m_count v = pool_size p"
    unfolding v by blast
  then show ?thesis by (simp add: unat_pool_size)
qed

lemma pool_at: "valid_view pools v \<Longrightarrow> i < length pools \<Longrightarrow> \<exists>q. pools ! i = Some q \<and> pool_inv q"
  unfolding valid_view_def pools_valid_def by (metis not_None_eq nth_mem)

lemma entityAt_inj:
  assumes "valid_view pools v" "i < unat (m_count v)" "j < unat (m_count v)" "entityAt v i = entityAt v j"
  shows "i = j"
proof -
  obtain p where "pools ! m_anchorPoolIndex v = Some p"
    and p: "pool_inv p" "m_anchorEntities v = Some (m_dense p)" "unat (m_count v) = length (m_dense p)"
    using view_anchor [OF assms(1)] by blast
  then show ?thesis using assms distinct_dense [OF p(1)] by (simp add: entityAt_def nth_eq_iff_index_eq)
qed

lemma find_at:
  assumes v: "valid_view pools v" and d: "d < unat (m_count v)" and i: "i < length pools"
  shows "view_findDenseIndex v i d (entityAt v d) = findDenseIndex (the (pools ! i)) (entityAt v d)"
proof (cases "i = m_anchorPoolIndex v")
  case True
  then obtain p where p: "pools ! i = Some p" "pool_inv p" "m_anchorEntities v = Some (m_dense p)" "unat (m_count v) = length (m_dense p)"
    using view_anchor [OF v] by metis
  have u: "unat (of_nat d :: u32) = d" using d p pool_invD(3) [OF p(2)] by (simp add: unat_of_nat_small)
  have "findDenseIndex p (entityAt v d) = Some (of_nat d)"
    using d p u by (simp add: findDenseIndex_iff entityAt_def)
  then show ?thesis using True p(1) by (simp add: view_findDenseIndex_def)
next
  case False
  then show ?thesis using view_facts [OF v] pool_at [OF v i] by (auto simp: view_findDenseIndex_def)
qed

lemma resolve_iff:
  assumes v: "valid_view pools v" and d: "d < unat (m_count v)"
  shows "resolveDenseIndices v (entityAt v d) d = Some ds \<longleftrightarrow> length ds = length pools
    \<and> (\<forall>i < length pools. findDenseIndex (the (pools ! i)) (entityAt v d) = Some (ds ! i))"
proof -
  have "resolveDenseIndices v (entityAt v d) d = Some ds
      \<longleftrightarrow> map (\<lambda>i. findDenseIndex (the (pools ! i)) (entityAt v d)) [0..<length pools] = map Some ds"
    unfolding resolveDenseIndices_def those_Some_iff view_facts(1) [OF v]
    using find_at [OF v d] by (intro arg_cong [where f = "\<lambda>xs. xs = map Some ds"] map_cong) simp_all
  also have "\<dots> \<longleftrightarrow> length ds = length pools
    \<and> (\<forall>i < length pools. findDenseIndex (the (pools ! i)) (entityAt v d) = Some (ds ! i))"
    unfolding list_eq_iff_nth_eq by auto
  finally show ?thesis .
qed

lemma resolve_exists:
  assumes v: "valid_view pools v" and d: "d < unat (m_count v)"
  shows "resolveDenseIndices v (entityAt v d) d \<noteq> None \<longleftrightarrow>
    (\<forall>q. Some q \<in> set pools \<longrightarrow> entityAt v d \<in> set (m_dense q))"
proof -
  let ?f = "\<lambda>i. findDenseIndex (the (pools ! i)) (entityAt v d)"
  have at: "?f i \<noteq> None \<longleftrightarrow> entityAt v d \<in> set (m_dense (the (pools ! i)))" if "i < length pools" for i
    using pool_at [OF v that] findDenseIndex_None by (metis option.sel)
  have "resolveDenseIndices v (entityAt v d) d \<noteq> None \<longleftrightarrow> (\<forall>i < length pools. ?f i \<noteq> None)"
  proof
    assume "\<forall>i < length pools. ?f i \<noteq> None"
    then have "resolveDenseIndices v (entityAt v d) d = Some (map (\<lambda>i. the (?f i)) [0..<length pools])"
      using resolve_iff [OF v d] by simp
    then show "resolveDenseIndices v (entityAt v d) d \<noteq> None" by simp
  qed (use resolve_iff [OF v d] in auto)
  also have "\<dots> \<longleftrightarrow> (\<forall>q. Some q \<in> set pools \<longrightarrow> entityAt v d \<in> set (m_dense q))"
    using at pool_at [OF v] by (metis in_set_conv_nth option.sel)
  finally show ?thesis .
qed

lemma applyFunc_resolve:
  assumes v: "valid_view pools v" and d: "d < unat (m_count v)"
  shows "applyFunc v d = map_option (Pair (entityAt v d)) (resolveDenseIndices v (entityAt v d) d)"
proof (cases "length (v_pools v) = 1")
  case True
  then have "m_anchorPoolIndex v = 0" using view_facts [OF v] by simp
  then show ?thesis using True by (simp add: applyFunc_def resolveDenseIndices_def view_findDenseIndex_def)
next
  case False
  then show ?thesis
    by (simp add: applyFunc_def tryApplyFunc_those resolveDenseIndices_def Let_def)
qed

section \<open>Visiting\<close>

lemma map_filter_in: "x \<in> set (List.map_filter f xs) \<longleftrightarrow> (\<exists>y \<in> set xs. f y = Some x)"
  by (induction xs) (auto simp: List.map_filter_simps split: option.splits)

lemma view_each_in:
  assumes v: "valid_view pools v"
  shows "(e, ds) \<in> set (view_each v) \<longleftrightarrow>
    (\<exists>d < unat (m_count v). e = entityAt v d \<and> resolveDenseIndices v e d = Some ds)"
  using view_facts(2) [OF v] applyFunc_resolve [OF v] by (auto simp: view_each_def map_filter_in Bex_def)

lemma view_each_distinct:
  assumes v: "valid_view pools v"
  shows "distinct (map fst (view_each v))"
proof -
  have "distinct (map fst (List.map_filter (applyFunc v) ds))"
    if "distinct ds" "set ds \<subseteq> {..<unat (m_count v)}" for ds
    using that
  proof (induction ds)
    case (Cons d ds)
    have d: "d < unat (m_count v)" "d \<notin> set ds" using Cons.prems by auto
    have "entityAt v d \<notin> fst ` set (List.map_filter (applyFunc v) ds)"
    proof
      assume "entityAt v d \<in> fst ` set (List.map_filter (applyFunc v) ds)"
      then obtain d' x where "d' \<in> set ds" "applyFunc v d' = Some x" "fst x = entityAt v d" by (auto simp: map_filter_in)
      moreover from this have "d' < unat (m_count v)" using Cons.prems by auto
      ultimately have "entityAt v d' = entityAt v d" using applyFunc_resolve [OF v, of d'] by auto
      then show False using entityAt_inj [OF v \<open>d' < unat (m_count v)\<close> d(1)] d(2) \<open>d' \<in> set ds\<close> by simp
    qed
    then show ?case using Cons applyFunc_resolve [OF v d(1)] by (auto simp: List.map_filter_simps split: option.splits)
  qed (simp add: List.map_filter_simps)
  from this [of "[0..<unat (m_count v)]"] show ?thesis
    using view_facts(2) [OF v] by (simp add: view_each_def atLeast_upt subset_iff)
qed

lemma entity_in_anchor:
  assumes v: "valid_view pools v" and e: "\<forall>q. Some q \<in> set pools \<longrightarrow> e \<in> set (m_dense q)"
  shows "\<exists>d < unat (m_count v). e = entityAt v d"
proof -
  obtain p where p: "pools ! m_anchorPoolIndex v = Some p" "m_anchorEntities v = Some (m_dense p)"
    "unat (m_count v) = length (m_dense p)"
    using view_anchor [OF v] by blast
  then have "e \<in> set (m_dense p)" using e view_facts(3) [OF v] by (metis nth_mem)
  then show ?thesis using p by (auto simp: entityAt_def in_set_conv_nth)
qed

text \<open>C11: \<open>each\<close> on a view calls its function exactly once for every entity that has all the view's
  components and for no other entity, with references to that entity's own components; a view in
  which a pool does not exist makes no call.\<close>

theorem view_each_correct:
  assumes ok: "pools_valid pools" and v: "v = make_View pools"
  shows "distinct (map fst (view_each v))
    \<and> fst ` set (view_each v)
        = (if None \<in> set pools then {} else {e. \<forall>q. Some q \<in> set pools \<longrightarrow> pool_map q e \<noteq> None})
    \<and> (\<forall>(e, ds) \<in> set (view_each v). length ds = length pools
         \<and> (\<forall>i < length pools. pool_map (the (pools ! i)) e = Some (m_components (the (pools ! i)) ! unat (ds ! i))))"
proof (cases "None \<in> set pools")
  case True
  then have "view_each v = []" using make_View_facts(2) [OF ok] by (simp add: view_each_def v)
  then show ?thesis using True by simp
next
  case False
  then have vv: "valid_view pools v" using ok v by (simp add: valid_view_def)
  have inv: "pool_inv q" if "Some q \<in> set pools" for q using that ok by (auto simp: pools_valid_def)
  have "fst ` set (view_each v) = {e. \<forall>q. Some q \<in> set pools \<longrightarrow> e \<in> set (m_dense q)}"
  proof (intro set_eqI iffI)
    fix e
    assume "e \<in> fst ` set (view_each v)"
    then obtain ds where "(e, ds) \<in> set (view_each v)" by force
    then show "e \<in> {e. \<forall>q. Some q \<in> set pools \<longrightarrow> e \<in> set (m_dense q)}"
      using view_each_in [OF vv] resolve_exists [OF vv] by fastforce
  next
    fix e
    assume e: "e \<in> {e. \<forall>q. Some q \<in> set pools \<longrightarrow> e \<in> set (m_dense q)}"
    then obtain d where d: "d < unat (m_count v)" "e = entityAt v d" using entity_in_anchor [OF vv] by blast
    then have "resolveDenseIndices v e d \<noteq> None" using resolve_exists [OF vv d(1)] e by simp
    then obtain ds where "resolveDenseIndices v e d = Some ds" by blast
    then have "(e, ds) \<in> set (view_each v)" using view_each_in [OF vv] d by blast
    then show "e \<in> fst ` set (view_each v)" by force
  qed
  also have "\<dots> = {e. \<forall>q. Some q \<in> set pools \<longrightarrow> pool_map q e \<noteq> None}"
    using inv pool_map_None by blast
  finally have dom: "fst ` set (view_each v) = {e. \<forall>q. Some q \<in> set pools \<longrightarrow> pool_map q e \<noteq> None}" .
  have refs: "length ds = length pools
      \<and> (\<forall>i < length pools. pool_map (the (pools ! i)) e = Some (m_components (the (pools ! i)) ! unat (ds ! i)))"
    if mem: "(e, ds) \<in> set (view_each v)" for e ds
  proof -
    obtain d where d: "d < unat (m_count v)" "e = entityAt v d" "resolveDenseIndices v e d = Some ds"
      using mem view_each_in [OF vv] by blast
    then have r: "length ds = length pools" "\<forall>i < length pools. findDenseIndex (the (pools ! i)) e = Some (ds ! i)"
      using resolve_iff [OF vv d(1), of ds] by auto
    have "pool_map (the (pools ! i)) e = Some (m_components (the (pools ! i)) ! unat (ds ! i))" if i: "i < length pools" for i
    proof -
      obtain q where q: "pools ! i = Some q" "pool_inv q" using pool_at [OF vv i] by blast
      then have "findDenseIndex q e = Some (ds ! i)" using r(2) i by force
      then show ?thesis using q tryGet_pool_map [OF q(2), of e] by (simp add: tryGet_def)
    qed
    then show ?thesis using r by blast
  qed
  then show ?thesis using False dom view_each_distinct [OF vv] by auto
qed

section \<open>Iterators visit the same entities\<close>

definition visits_from :: "'c View \<Rightarrow> nat \<Rightarrow> (EntityID \<times> u32 list) list" where
  "visits_from v i = List.map_filter (applyFunc v) [i..<unat (m_count v)]"

lemma visits_from_step:
  "visits_from v i = (if i < unat (m_count v)
     then (case applyFunc v i of None \<Rightarrow> [] | Some x \<Rightarrow> [x]) @ visits_from v (i + 1) else [])"
  by (simp add: visits_from_def upt_rec [of i] List.map_filter_simps split: option.splits)

text \<open>The iterator found by \<open>skipInvalid\<close> stands at the next visit, or at the end.\<close>

definition stands_at :: "'c View \<Rightarrow> nat \<Rightarrow> view_iterator \<Rightarrow> bool" where
  "stands_at v i it \<longleftrightarrow> i \<le> it_index it \<and> it_index it \<le> unat (m_count v)
     \<and> (if it_index it = unat (m_count v) then visits_from v i = []
        else visits_from v i = (it_entity it, it_denseIndices it) # visits_from v (it_index it + 1))"

lemma skip_loop_stands:
  assumes "valid_view pools v" "i \<le> unat (m_count v)"
  shows "stands_at v i (skip_loop v i)"
  using assms
proof (induction v i rule: skip_loop.induct)
  case (1 v i)
  note v = 1(2)
  show ?case
  proof (cases "i < unat (m_count v)")
    case False
    then have "i = unat (m_count v)" using 1(3) by simp
    then show ?thesis by (subst skip_loop.simps) (simp add: stands_at_def visits_from_def List.map_filter_simps)
  next
    case True
    show ?thesis
    proof (cases "resolveDenseIndices v (entityAt v i) i")
      case None
      have "applyFunc v i = None" using applyFunc_resolve [OF v True] None by simp
      then have "visits_from v i = visits_from v (i + 1)" using True visits_from_step [of v i] by simp
      moreover have "skip_loop v i = skip_loop v (i + 1)" using True None by (simp add: skip_loop.simps [of v i])
      moreover have "stands_at v (i + 1) (skip_loop v (i + 1))" using 1(1) [OF True None v] True by simp
      ultimately show ?thesis by (simp add: stands_at_def)
    next
      case (Some ds)
      have "applyFunc v i = Some (entityAt v i, ds)" using applyFunc_resolve [OF v True] Some by simp
      then have "visits_from v i = (entityAt v i, ds) # visits_from v (i + 1)"
        using True visits_from_step [of v i] by simp
      then show ?thesis using True Some by (simp add: skip_loop.simps [of v i] stands_at_def)
    qed
  qed
qed

lemma skipInvalid_stands:
  assumes v: "valid_view pools v" and i: "i \<le> unat (m_count v)"
  shows "stands_at v i (skipInvalid v i)"
proof (cases "length (v_pools v) = 1")
  case True
  then have "applyFunc v j = Some (entityAt v j, [of_nat j])" for j by (simp add: applyFunc_def Let_def)
  then show ?thesis using True i visits_from_step [of v i] by (simp add: skipInvalid_def stands_at_def)
next
  case False
  then show ?thesis using skip_loop_stands [OF v i] by (simp add: skipInvalid_def)
qed

lemma iterate_loop_visits:
  assumes "valid_view pools v" "stands_at v i it"
  shows "iterate_loop v it seen = Some (seen @ visits_from v i)"
  using assms(2)
proof (induction "unat (m_count v) - it_index it" arbitrary: i it seen rule: less_induct)
  case less
  show ?case
  proof (cases "it_index it = unat (m_count v)")
    case True
    then show ?thesis using less.prems by (simp add: iterate_loop.simps [of v it] view_end_def stands_at_def)
  next
    case False
    let ?it = "skipInvalid v (it_index it + 1)" and ?seen = "seen @ [(it_entity it, it_denseIndices it)]"
    have lt: "it_index it < unat (m_count v)" using less.prems False by (simp add: stands_at_def)
    have st: "stands_at v (it_index it + 1) ?it" using skipInvalid_stands [OF assms(1)] lt by simp
    have "unat (m_count v) - it_index ?it < unat (m_count v) - it_index it"
      using st lt unfolding stands_at_def by linarith
    then have "iterate_loop v ?it ?seen = Some (?seen @ visits_from v (it_index it + 1))" using less.hyps st by blast
    then show ?thesis using False less.prems by (simp add: iterate_loop.simps [of v it] view_end_def stands_at_def)
  qed
qed

text \<open>C12: Iterating over a view always ends and yields exactly the calls of \<open>each\<close>, in the same order.\<close>

theorem view_iterate_each:
  assumes ok: "pools_valid pools" and v: "v = make_View pools"
  shows "view_iterate v = Some (view_each v)"
proof (cases "None \<in> set pools")
  case True
  then have "\<not> m_valid v" using make_View_facts(2) [OF ok] v by simp
  then show ?thesis by (simp add: view_iterate_def view_begin_def view_each_def iterate_loop.simps)
next
  case False
  then have vv: "valid_view pools v" using ok v by (simp add: valid_view_def)
  have "view_begin v = skipInvalid v 0" using view_facts(2) [OF vv] by (simp add: view_begin_def)
  then have "view_iterate v = Some (visits_from v 0)"
    using iterate_loop_visits [OF vv skipInvalid_stands [OF vv]] by (simp add: view_iterate_def)
  then show ?thesis using view_facts(2) [OF vv] by (simp add: view_each_def visits_from_def)
qed

section \<open>A concrete view\<close>

definition sample_pools :: "nat ComponentPool option list" where
  "sample_pools =
     (let a = make_EntityID 0 0; b = make_EntityID 1 0;
          p = snd (pool_add (snd (pool_add ComponentPool_new a 10)) b 11);
          q = snd (pool_add ComponentPool_new b 21)
      in [Some p, Some q])"

lemma sample_pools_valid: "pools_valid sample_pools"
proof -
  let ?a = "make_EntityID 0 0" and ?b = "make_EntityID 1 0"
  let ?p0 = "ComponentPool_new :: nat ComponentPool"
  let ?p1 = "snd (pool_add ?p0 ?a 10)"
  have dense: "m_dense ?p1 = [?a]" "m_dense ?p0 = []"
    using pool_add_new [OF pool_inv_new, of ?a "10 :: nat"] by (simp_all add: ComponentPool_new_def)
  have free: "slot_free ?p0 e" for e by (simp add: slot_free_def ComponentPool_new_def)
  have "entity_index ?a \<noteq> entity_index ?b"
    using entity_index_make_small [of 0 0] entity_index_make_small [of 1 0] by simp
  then have "slot_free ?p1 ?b" by (simp add: slot_free_def dense)
  then have "pool_inv (snd (pool_add ?p1 ?b 11))" "pool_inv (snd (pool_add ?p0 ?b 21))"
    using free by (simp_all add: pool_inv_add pool_inv_new)
  then show ?thesis by (simp add: pools_valid_def sample_pools_def Let_def)
qed

theorem view_each_correct_witness:
  "pools_valid sample_pools \<and> distinct (map fst (view_each (make_View sample_pools)))"
  using view_each_correct [OF sample_pools_valid refl] sample_pools_valid by blast

theorem view_iterate_each_witness:
  "pools_valid sample_pools \<and> view_iterate (make_View sample_pools) = Some (view_each (make_View sample_pools))"
  using view_iterate_each [OF sample_pools_valid refl] sample_pools_valid by blast

end
