(* ===== verification/Text_Utils.thy ===== *)
theory Text_Utils
  imports Nwb_Prelude
begin

text \<open>
  Text helpers of \<^verbatim>\<open>src/global/text_utils.h\<close>, for byte characters. A view is the list of its
  bytes; loops over positions keep their indices. \<open>std::from_chars\<close> in base 10 is modelled by its
  documented behaviour: an optional minus sign for signed types, then a non-empty run of digits
  whose value must be representable.
\<close>

unbundle bit_operations_syntax

section \<open>Characters\<close>

definition CR :: u8 where "CR = 0x0D"
definition LF :: u8 where "LF = 0x0A"

definition IsAsciiSpace :: "u8 \<Rightarrow> bool" where
  "IsAsciiSpace ch = (ch = 0x20 \<or> ch = 0x09 \<or> ch = 0x0A \<or> ch = 0x0D \<or> ch = 0x0C \<or> ch = 0x0B)"

definition ToAsciiLower :: "u8 \<Rightarrow> u8" where
  "ToAsciiLower c = (if c \<ge> 0x41 \<and> c \<le> 0x5A then c + (0x61 - 0x41) else c)"

definition ToAsciiUpper :: "u8 \<Rightarrow> u8" where
  "ToAsciiUpper c = (if c \<ge> 0x61 \<and> c \<le> 0x7A then c - (0x61 - 0x41) else c)"

definition IsAsciiAlphaNumeric :: "u8 \<Rightarrow> bool" where
  "IsAsciiAlphaNumeric ch =
     (ch \<ge> 0x30 \<and> ch \<le> 0x39 \<or> ch \<ge> 0x41 \<and> ch \<le> 0x5A \<or> ch \<ge> 0x61 \<and> ch \<le> 0x7A)"

definition Canonicalize :: "u8 \<Rightarrow> u8" where
  "Canonicalize c = (if c = 0x5C then 0x2F else ToAsciiLower c)"

definition ToAsciiLowerInPlace :: "u8 list \<Rightarrow> u8 list" where
  "ToAsciiLowerInPlace t = map ToAsciiLower t"

definition CanonicalizeText :: "u8 list \<Rightarrow> u8 list" where
  "CanonicalizeText t = map Canonicalize t"

definition HasEmbeddedNull :: "u8 list \<Rightarrow> bool" where
  "HasEmbeddedNull t = list_ex (\<lambda>ch. ch = 0) t"

section \<open>Trimming\<close>

function trim_begin :: "u8 list \<Rightarrow> nat \<Rightarrow> nat" where
  "trim_begin t i = (if i < length t \<and> IsAsciiSpace (t ! i) then trim_begin t (i + 1) else i)"
  by pat_completeness auto
termination by (relation "measure (\<lambda>(t, i). length t - i)") auto

fun trim_end :: "u8 list \<Rightarrow> nat \<Rightarrow> nat \<Rightarrow> nat" where
  "trim_end t b 0 = 0"
| "trim_end t b (Suc e) = (if Suc e > b \<and> IsAsciiSpace (t ! e) then trim_end t b e else Suc e)"

definition TrimView :: "u8 list \<Rightarrow> u8 list" where
  "TrimView t = (let b = trim_begin t 0; e = trim_end t b (length t) in take (e - b) (drop b t))"

fun TrimLeftView :: "u8 list \<Rightarrow> u8 list" where
  "TrimLeftView [] = []"
| "TrimLeftView (c # t) = (if IsAsciiSpace c then TrimLeftView t else c # t)"

text \<open>The two erasures: first behind, then before the trimmed view.\<close>

definition TrimInPlace :: "u8 list \<Rightarrow> u8 list" where
  "TrimInPlace t =
     (let b = trim_begin t 0; trimmed = TrimView t
      in if length trimmed = length t then t else drop b (take (b + length trimmed) t))"

definition TrimTrailingCarriageReturn :: "u8 list \<Rightarrow> u8 list" where
  "TrimTrailingCarriageReturn t = (if t \<noteq> [] \<and> last t = CR then butlast t else t)"

definition UnquoteMatchingAsciiQuotes :: "u8 list \<Rightarrow> u8 list" where
  "UnquoteMatchingAsciiQuotes t0 =
     (let t = TrimInPlace t0
      in if length t \<ge> 2 \<and> (hd t = 0x22 \<and> last t = 0x22 \<or> hd t = 0x27 \<and> last t = 0x27)
         then drop 1 (take (length t - 1) t) else t)"

definition StartsWith :: "u8 list \<Rightarrow> u8 list \<Rightarrow> bool" where
  "StartsWith t prefix = (length t \<ge> length prefix \<and> take (length prefix) t = prefix)"

section \<open>Line endings\<close>

function has_crlf_from :: "u8 list \<Rightarrow> nat \<Rightarrow> bool" where
  "has_crlf_from t i =
     (if i < length t then if t ! (i - 1) = CR \<and> t ! i = LF then True else has_crlf_from t (i + 1) else False)"
  by pat_completeness auto
termination by (relation "measure (\<lambda>(t, i). length t - i)") auto

definition HasCrlfLineEndings :: "u8 list \<Rightarrow> bool" where
  "HasCrlfLineEndings t = has_crlf_from t 1"

text \<open>The compacting loop: reads at \<open>rd\<close>, writes at \<open>wr\<close> into the same array.\<close>

function lf_loop :: "u8 list \<Rightarrow> nat \<Rightarrow> nat \<Rightarrow> u8 list" where
  "lf_loop t rd wr =
     (if rd < length t then
        let ch = t ! rd
        in if ch = CR then
             let rd1 = (if rd + 1 < length t \<and> t ! (rd + 1) = LF then rd + 1 else rd)
             in lf_loop (t[wr := LF]) (rd1 + 1) (wr + 1)
           else lf_loop (t[wr := ch]) (rd + 1) (wr + 1)
      else take wr t)"
  by pat_completeness auto
termination by (relation "measure (\<lambda>(t, rd, wr). length t - rd)") (auto simp: Let_def)

function crlf_growth :: "u8 list \<Rightarrow> nat \<Rightarrow> nat \<Rightarrow> nat" where
  "crlf_growth t i growthCount =
     (if i < length t then
        let ch = t ! i
        in if ch = CR then
             if i + 1 < length t \<and> t ! (i + 1) = LF then crlf_growth t (i + 2) growthCount
             else crlf_growth t (i + 1) (growthCount + 1)
           else if ch = LF then crlf_growth t (i + 1) (growthCount + 1)
           else crlf_growth t (i + 1) growthCount
      else growthCount)"
  by pat_completeness auto
termination by (relation "measure (\<lambda>(t, i, g). length t - i)") (auto simp: Let_def)

text \<open>The expanding loop runs backwards over the enlarged array.\<close>

function crlf_loop :: "u8 list \<Rightarrow> nat \<Rightarrow> nat \<Rightarrow> u8 list" where
  "crlf_loop t rd wr =
     (if rd > 0 then
        let r = rd - 1; ch = t ! r
        in if ch = LF then
             let r1 = (if r > 0 \<and> t ! (r - 1) = CR then r - 1 else r)
             in crlf_loop (t[wr - 1 := LF, wr - 2 := CR]) r1 (wr - 2)
           else if ch = CR then crlf_loop (t[wr - 1 := LF, wr - 2 := CR]) r (wr - 2)
           else crlf_loop (t[wr - 1 := ch]) r (wr - 1)
      else t)"
  by pat_completeness auto
termination by (relation "measure (\<lambda>(t, rd, wr). rd)") (auto simp: Let_def)

definition NormalizeLineEndingsInPlace :: "u8 list \<Rightarrow> bool \<Rightarrow> u8 list" where
  "NormalizeLineEndingsInPlace t useCrlf =
     (if \<not> useCrlf then if \<not> list_ex (\<lambda>ch. ch = CR) t then t else lf_loop t 0 0
      else let growthCount = crlf_growth t 0 0
           in if growthCount = 0 \<or> growthCount > 2 ^ 64 - 1 - length t then t
              else crlf_loop (t @ replicate growthCount 0) (length t) (length t + growthCount))"

declare trim_begin.simps [simp del] has_crlf_from.simps [simp del] lf_loop.simps [simp del]
  crlf_growth.simps [simp del] crlf_loop.simps [simp del]

section \<open>Lines and fields\<close>

function skip_while :: "(u8 \<Rightarrow> bool) \<Rightarrow> u8 list \<Rightarrow> nat \<Rightarrow> nat" where
  "skip_while P t i = (if i < length t \<and> P (t ! i) then skip_while P t (i + 1) else i)"
  by pat_completeness auto
termination by (relation "measure (\<lambda>(P, t, i). length t - i)") auto

declare skip_while.simps [simp del]

text \<open>\<open>NextTextLine\<close> returns the line and the new cursor.\<close>

definition NextTextLine :: "u8 list \<Rightarrow> nat \<Rightarrow> (u8 list \<times> nat) option" where
  "NextTextLine t cursor =
     (if cursor \<ge> length t then None
      else let stop = skip_while (\<lambda>c. c \<noteq> LF \<and> c \<noteq> CR) t cursor
           in Some (take (stop - cursor) (drop cursor t), skip_while (\<lambda>c. c = LF \<or> c = CR) t stop))"

definition NextTrimmedTextLine :: "u8 list \<Rightarrow> nat \<Rightarrow> (u8 list \<times> nat) option" where
  "NextTrimmedTextLine t cursor = map_option (\<lambda>(line, c). (TrimView line, c)) (NextTextLine t cursor)"

text \<open>On failure the cursor has been moved to the end; the result pairs the line with the cursor.\<close>

definition NextLfByteLine :: "u8 list \<Rightarrow> nat \<Rightarrow> u8 list option \<times> nat" where
  "NextLfByteLine t cursor =
     (if cursor \<ge> length t then (None, cursor)
      else let stop = skip_while (\<lambda>c. c \<noteq> LF) t cursor
           in if stop \<ge> length t then (None, stop)
              else let e = (if stop > cursor \<and> t ! (stop - 1) = CR then stop - 1 else stop)
                   in (Some (take (e - cursor) (drop cursor t)), stop + 1))"

partial_function (option) find_key_from :: "u8 list \<Rightarrow> u8 list \<Rightarrow> nat \<Rightarrow> u8 list option option" where
  "find_key_from t key cursor =
     (case NextTextLine t cursor of
        None \<Rightarrow> Some None
      | Some (line, cursor1) \<Rightarrow>
          if length line \<le> length key \<or> \<not> StartsWith line key \<or> line ! length key \<noteq> 0x3D
          then find_key_from t key cursor1
          else Some (Some (drop (length key + 1) line)))"

definition FindLineKeyValue :: "u8 list \<Rightarrow> u8 list \<Rightarrow> u8 list option option" where
  "FindLineKeyValue t key = find_key_from t key 0"

function split_from :: "u8 list \<Rightarrow> u8 \<Rightarrow> nat \<Rightarrow> nat \<Rightarrow> u8 list list" where
  "split_from line delimiter b i =
     (if i \<le> length line then
        if i \<noteq> length line \<and> line ! i \<noteq> delimiter then split_from line delimiter b (i + 1)
        else take (i - b) (drop b line) # split_from line delimiter (i + 1) (i + 1)
      else [])"
  by pat_completeness auto
termination by (relation "measure (\<lambda>(line, d, b, i). Suc (length line) - i)") auto

declare split_from.simps [simp del]

definition SplitText :: "u8 list \<Rightarrow> u8 \<Rightarrow> u8 list list" where
  "SplitText line delimiter = split_from line delimiter 0 0"

section \<open>Quoting\<close>

fun json_escape_char :: "u8 \<Rightarrow> u8 list" where
  "json_escape_char ch =
     (if ch = 0x22 then [0x5C, 0x22]
      else if ch = 0x5C then [0x5C, 0x5C]
      else if ch = 0x08 then [0x5C, 0x62]
      else if ch = 0x0C then [0x5C, 0x66]
      else if ch = 0x0A then [0x5C, 0x6E]
      else if ch = 0x0D then [0x5C, 0x72]
      else if ch = 0x09 then [0x5C, 0x74]
      else if ch < 0x20 then [0x3F]
      else [ch])"

definition AppendJsonEscapedText :: "u8 list \<Rightarrow> u8 list \<Rightarrow> u8 list" where
  "AppendJsonEscapedText out t = foldl (\<lambda>o1 ch. o1 @ json_escape_char ch) out t"

definition AppendJsonQuotedText :: "u8 list \<Rightarrow> u8 list \<Rightarrow> u8 list" where
  "AppendJsonQuotedText out t = AppendJsonEscapedText (out @ [0x22]) t @ [0x22]"

definition csv_needs_quote :: "u8 list \<Rightarrow> bool" where
  "csv_needs_quote t = list_ex (\<lambda>ch. ch = 0x2C \<or> ch = 0x22 \<or> ch = 0x0A \<or> ch = 0x0D) t"

definition AppendCsvCell :: "u8 list \<Rightarrow> u8 list \<Rightarrow> u8 list" where
  "AppendCsvCell out t =
     (if \<not> csv_needs_quote t then out @ t
      else foldl (\<lambda>o1 ch. if ch = 0x22 then o1 @ [0x22, 0x22] else o1 @ [ch]) (out @ [0x22]) t @ [0x22])"

definition AppendDotQuotedText :: "u8 list \<Rightarrow> u8 list \<Rightarrow> u8 list" where
  "AppendDotQuotedText out t =
     foldl (\<lambda>o1 ch. if ch = 0x0A then o1 @ [0x5C, 0x6E]
                    else if ch = 0x22 \<or> ch = 0x5C then o1 @ [0x5C, ch] else o1 @ [ch])
       (out @ [0x22]) t @ [0x22]"

section \<open>Comparison\<close>

definition EqualsAsciiIgnoreCase :: "u8 list \<Rightarrow> u8 list \<Rightarrow> bool" where
  "EqualsAsciiIgnoreCase t expected =
     (if t = expected then True
      else if length t \<noteq> length expected then False
      else list_all (\<lambda>i. ToAsciiLower (t ! i) = ToAsciiLower (expected ! i)) [0..<length t])"

definition ContainsAsciiIgnoreCase :: "u8 list \<Rightarrow> u8 list \<Rightarrow> bool" where
  "ContainsAsciiIgnoreCase t expected =
     (if expected = [] then True
      else if length t < length expected then False
      else list_ex (\<lambda>b. list_all (\<lambda>i. ToAsciiLower (t ! (b + i)) = ToAsciiLower (expected ! i)) [0..<length expected])
             [0..<length t - length expected + 1])"

definition IsSafeCacheNameChar :: "u8 \<Rightarrow> bool" where
  "IsSafeCacheNameChar ch =
     (ch \<ge> 0x61 \<and> ch \<le> 0x7A \<or> ch \<ge> 0x30 \<and> ch \<le> 0x39 \<or> ch = 0x2E \<or> ch = 0x5F \<or> ch = 0x2D)"

definition SanitizeSafeCacheName :: "bool \<Rightarrow> u8 list \<Rightarrow> u8 list" where
  "SanitizeSafeCacheName canonical t =
     map (\<lambda>ch. let c = (if canonical then Canonicalize ch else ch)
               in if \<not> IsSafeCacheNameChar c then 0x5F else c) t"

definition BuildSafeCacheName :: "bool \<Rightarrow> u8 list \<Rightarrow> u8 list" where
  "BuildSafeCacheName canonical t = (if t = [] then [] else SanitizeSafeCacheName canonical t)"

text \<open>\<open>src\<close> is the C string without its terminator, \<open>None\<close> a null pointer; the result is the part of the
  buffer that was written.\<close>

definition CopyCanonical :: "nat \<Rightarrow> u8 list option \<Rightarrow> u8 list" where
  "CopyCanonical dstSize src =
     (if dstSize = 0 then []
      else case src of None \<Rightarrow> [0] | Some s \<Rightarrow> map Canonicalize (take (dstSize - 1) s) @ [0])"

section \<open>Decimal numbers\<close>

fun decimal_digits :: "nat \<Rightarrow> u8 list" where
  "decimal_digits n = (if n < 10 then [0x30 + of_nat n] else decimal_digits (n div 10) @ [0x30 + of_nat (n mod 10)])"

declare decimal_digits.simps [simp del]

text \<open>\<open>std::to_chars\<close> fails when the buffer of \<open>N\<close> characters is too small.\<close>

definition FormatDecimal :: "nat \<Rightarrow> usize \<Rightarrow> u8 list" where
  "FormatDecimal N v = (let ds = decimal_digits (unat v) in if length ds \<le> N then ds else [])"

definition is_digit :: "u8 \<Rightarrow> bool" where
  "is_digit c = (c \<ge> 0x30 \<and> c \<le> 0x39)"

definition digits_value :: "u8 list \<Rightarrow> nat" where
  "digits_value ds = foldl (\<lambda>n c. 10 * n + unat (c - 0x30)) 0 ds"

definition ParseU64FromChars :: "u8 list \<Rightarrow> u64 option" where
  "ParseU64FromChars t =
     (let ds = takeWhile is_digit t
      in if ds = [] then None
         else if digits_value ds \<ge> 2 ^ 64 then None
         else if length ds \<noteq> length t then None
         else Some (of_nat (digits_value ds)))"

definition ParseU64 :: "u8 list \<Rightarrow> u64 option" where
  "ParseU64 t = (if t = [] then None else ParseU64FromChars t)"

definition ParseI64FromChars :: "u8 list \<Rightarrow> int option" where
  "ParseI64FromChars t =
     (let neg = (t \<noteq> [] \<and> hd t = 0x2D);
          body = (if neg then tl t else t);
          ds = takeWhile is_digit body;
          v = (if neg then - int (digits_value ds) else int (digits_value ds))
      in if ds = [] then None
         else if v < - (2 ^ 63) \<or> v > 2 ^ 63 - 1 then None
         else if length ds \<noteq> length body then None
         else Some v)"

definition ParseI64 :: "u8 list \<Rightarrow> int option" where
  "ParseI64 t = (if t = [] then None else ParseI64FromChars t)"

definition FindLineKeyValueU64 :: "u8 list \<Rightarrow> u8 list \<Rightarrow> u64 option option" where
  "FindLineKeyValueU64 t key =
     map_option (\<lambda>r. case r of None \<Rightarrow> None | Some v \<Rightarrow> ParseU64 v) (FindLineKeyValue t key)"

section \<open>Line endings: the reference\<close>

text \<open>Every CR LF pair, lone CR and lone LF becomes \<open>eol\<close>.\<close>

fun norm_eol :: "u8 list \<Rightarrow> u8 list \<Rightarrow> u8 list" where
  "norm_eol eol [] = []"
| "norm_eol eol (c # t) =
     (if c = CR then eol @ (case t of [] \<Rightarrow> [] | d # t' \<Rightarrow> if d = LF then norm_eol eol t' else norm_eol eol t)
      else if c = LF then eol @ norm_eol eol t
      else c # norm_eol eol t)"

lemma CR_neq_LF [simp]: "CR \<noteq> LF" "LF \<noteq> CR"
  by (simp_all add: CR_def LF_def)

lemma norm_eqs:
  "norm_eol eol (CR # LF # t) = eol @ norm_eol eol t"
  "t = [] \<or> hd t \<noteq> LF \<Longrightarrow> norm_eol eol (CR # t) = eol @ norm_eol eol t"
  "norm_eol eol (LF # t) = eol @ norm_eol eol t"
  "c \<noteq> CR \<Longrightarrow> c \<noteq> LF \<Longrightarrow> norm_eol eol (c # t) = c # norm_eol eol t"
  by (auto split: list.splits)

lemma norm_cases:
  obtains (empty) "t = []" | (pair) t' where "t = CR # LF # t'" | (cr) t' where "t = CR # t'" "t' = [] \<or> hd t' \<noteq> LF"
  | (lf) t' where "t = LF # t'" | (other) c t' where "t = c # t'" "c \<noteq> CR" "c \<noteq> LF"
proof (cases t)
  case (Cons c t')
  show ?thesis
  proof (cases "c = CR \<and> t' \<noteq> [] \<and> hd t' = LF")
    case True
    then show ?thesis using pair [of "tl t'"] Cons by (cases t') auto
  next
    case False
    then show ?thesis using Cons cr lf other by (cases "c = CR"; cases "c = LF") auto
  qed
qed (use empty in simp)

lemma lf_loop_norm:
  "wr \<le> rd \<Longrightarrow> lf_loop t rd wr = take wr t @ norm_eol [LF] (drop rd t)"
proof (induction t rd wr rule: lf_loop.induct)
  case (1 t rd wr)
  show ?case
  proof (cases "rd < length t")
    case False
    then show ?thesis by (simp add: lf_loop.simps)
  next
    case True
    then have wl: "wr < length t" and dr: "drop rd t = t ! rd # drop (Suc rd) t"
      using 1(3) by (simp_all add: Cons_nth_drop_Suc)
    have upd: "take (Suc wr) (t[wr := x]) = take wr t @ [x]" "wr < k \<Longrightarrow> drop k (t[wr := x]) = drop k t" for x k
      using wl by (simp_all add: take_Suc_conv_app_nth)
    show ?thesis
    proof (cases "t ! rd = CR")
      case False
      have "lf_loop t rd wr = lf_loop (t[wr := t ! rd]) (rd + 1) (wr + 1)"
        using True False by (simp add: lf_loop.simps [of t rd wr])
      also have "\<dots> = take (wr + 1) (t[wr := t ! rd]) @ norm_eol [LF] (drop (rd + 1) (t[wr := t ! rd]))"
        using 1(2) [OF True refl False] 1(3) by simp
      finally show ?thesis using dr False 1(3) by (simp add: upd LF_def)
    next
      case cr: True
      let ?r = "if rd + 1 < length t \<and> t ! (rd + 1) = LF then rd + 1 else rd"
      have "lf_loop t rd wr = lf_loop (t[wr := LF]) (?r + 1) (wr + 1)"
        using True cr by (simp add: lf_loop.simps [of t rd wr] Let_def)
      also have "\<dots> = take (wr + 1) (t[wr := LF]) @ norm_eol [LF] (drop (?r + 1) (t[wr := LF]))"
        using 1(1) [OF True refl cr refl] 1(3) by simp
      also have "\<dots> = take wr t @ [LF] @ norm_eol [LF] (drop (?r + 1) t)"
        using 1(3) by (simp add: upd)
      also have "[LF] @ norm_eol [LF] (drop (?r + 1) t) = norm_eol [LF] (drop rd t)"
      proof (cases "rd + 1 < length t")
        case True
        then have "drop (Suc rd) t = t ! (rd + 1) # drop (rd + 2) t" by (simp add: Cons_nth_drop_Suc)
        then show ?thesis using dr cr True by simp
      next
        case False
        then show ?thesis using dr cr by simp
      qed
      finally show ?thesis .
    qed
  qed
qed

lemma norm_no_cr: "\<not> list_ex (\<lambda>ch. ch = CR) t \<Longrightarrow> norm_eol [LF] t = t"
  by (induction t) auto

lemma crlf_growth_length:
  "crlf_growth t i g + length t = g + i + length (norm_eol [CR, LF] (drop i t))" if "i \<le> length t"
  using that
proof (induction t i g rule: crlf_growth.induct)
  case (1 t i g)
  show ?case
  proof (cases "i < length t")
    case False
    then show ?thesis using 1(5) by (simp add: crlf_growth.simps)
  next
    case True
    then have dr: "drop i t = t ! i # drop (Suc i) t" by (simp add: Cons_nth_drop_Suc)
    let ?d = "drop (Suc i) t"
    consider (pair) "t ! i = CR" "i + 1 < length t" "t ! (i + 1) = LF"
      | (cr) "t ! i = CR" "\<not> (i + 1 < length t \<and> t ! (i + 1) = LF)"
      | (lf) "t ! i = LF" | (other) "t ! i \<noteq> CR" "t ! i \<noteq> LF" by blast
    then show ?thesis
    proof cases
      case pair
      then have "?d = LF # drop (i + 2) t" using Cons_nth_drop_Suc [of "Suc i" t] by simp
      then have "norm_eol [CR, LF] (drop i t) = [CR, LF] @ norm_eol [CR, LF] (drop (i + 2) t)"
        using dr pair norm_eqs(1) by simp
      moreover have "crlf_growth t i g = crlf_growth t (i + 2) g" using pair True by (simp add: crlf_growth.simps [of t i g])
      ultimately show ?thesis using 1(1) [OF True refl pair(1)] pair by simp
    next
      case cr
      then have "?d = [] \<or> hd ?d \<noteq> LF" by (auto simp: hd_drop_conv_nth)
      then have "norm_eol [CR, LF] (drop i t) = [CR, LF] @ norm_eol [CR, LF] ?d"
        using dr cr norm_eqs(2) by simp
      moreover have "crlf_growth t i g = crlf_growth t (i + 1) (g + 1)" using cr True by (auto simp: crlf_growth.simps [of t i g])
      ultimately show ?thesis using 1(2) [OF True refl cr] True by simp
    next
      case lf
      then have "norm_eol [CR, LF] (drop i t) = [CR, LF] @ norm_eol [CR, LF] ?d" using dr norm_eqs(3) by simp
      moreover have "crlf_growth t i g = crlf_growth t (i + 1) (g + 1)" using lf True by (simp add: crlf_growth.simps [of t i g])
      ultimately show ?thesis using 1(3) [OF True refl _ lf] lf True by simp
    next
      case other
      then have "norm_eol [CR, LF] (drop i t) = t ! i # norm_eol [CR, LF] ?d" using dr norm_eqs(4) by simp
      moreover have "crlf_growth t i g = crlf_growth t (i + 1) g" using other True by (simp add: crlf_growth.simps [of t i g])
      ultimately show ?thesis using 1(4) [OF True refl other] True by simp
    qed
  qed
qed

text \<open>The reference seen from the end of the text.\<close>

lemma norm_snoc_other: "c \<noteq> LF \<Longrightarrow> norm_eol eol (t @ [c]) = norm_eol eol t @ (if c = CR then eol else [c])"
proof (induction t rule: length_induct)
  case (1 t)
  then have IH: "norm_eol eol (u @ [c]) = norm_eol eol u @ (if c = CR then eol else [c])" if "length u < length t" for u
    using that by blast
  show ?case
  proof (cases t rule: norm_cases)
    case empty
    then show ?thesis using 1 by simp
  next
    case (pair t')
    then show ?thesis using IH [of t'] by (simp add: norm_eqs(1) del: norm_eol.simps)
  next
    case (cr t')
    then have "t' @ [c] = [] \<or> hd (t' @ [c]) \<noteq> LF" using 1 by (cases t') auto
    then show ?thesis using cr IH [of t'] norm_eqs(2) [of "t' @ [c]"] norm_eqs(2) [of t'] by (simp del: norm_eol.simps)
  next
    case (lf t')
    then show ?thesis using IH [of t'] by (simp add: norm_eqs(3) del: norm_eol.simps)
  next
    case (other d t')
    then show ?thesis using IH [of t'] by (simp add: norm_eqs(4) del: norm_eol.simps)
  qed
qed

lemma norm_snoc_lf:
  "norm_eol eol (t @ [LF]) = (if t \<noteq> [] \<and> last t = CR then norm_eol eol (butlast t) else norm_eol eol t) @ eol"
proof (induction t rule: length_induct)
  case (1 t)
  let ?P = "\<lambda>u. (if u \<noteq> [] \<and> last u = CR then norm_eol eol (butlast u) else norm_eol eol u) @ eol"
  have IH: "norm_eol eol (u @ [LF]) = ?P u" if "length u < length t" for u
    using 1 that by blast
  show ?case
  proof (cases t rule: norm_cases)
    case empty
    then show ?thesis by simp
  next
    case (pair t')
    then show ?thesis using IH [of t'] by (cases "t' = []") (simp_all add: norm_eqs(1) del: norm_eol.simps)
  next
    case (cr t')
    show ?thesis
    proof (cases "t' = []")
      case True
      then show ?thesis using cr by simp
    next
      case False
      then have "hd (t' @ [LF]) \<noteq> LF" "butlast t' = [] \<or> hd (butlast t') \<noteq> LF"
        using cr by (cases t'; auto)+
      then show ?thesis
        using cr False IH [of t'] norm_eqs(2) [of "t' @ [LF]" eol] norm_eqs(2) [of t' eol] norm_eqs(2) [of "butlast t'" eol]
        by (simp del: norm_eol.simps)
    qed
  next
    case (lf t')
    then show ?thesis using IH [of t'] by (cases "t' = []") (simp_all add: norm_eqs(3) del: norm_eol.simps)
  next
    case (other d t')
    then show ?thesis using IH [of t'] by (cases "t' = []") (simp_all add: norm_eqs(4) del: norm_eol.simps)
  qed
qed

lemma drop_two:
  assumes "2 \<le> wr" "wr \<le> length t"
  shows "drop (wr - 2) (t[wr - 1 := LF, wr - 2 := CR]) = [CR, LF] @ drop wr t"
proof -
  obtain k where wr: "wr = k + 2" using assms by (metis add.commute le_Suc_ex)
  then have "drop k t = t ! k # t ! (k + 1) # drop (k + 2) t"
    using assms Cons_nth_drop_Suc [of k t] Cons_nth_drop_Suc [of "k + 1" t] by simp
  moreover have "drop k (t[k + 1 := LF, k := CR]) = (drop k t)[1 := LF, 0 := CR]"
    using assms wr by (simp add: drop_update_swap)
  ultimately show ?thesis using wr by simp
qed

lemma drop_one: "1 \<le> wr \<Longrightarrow> wr \<le> length t \<Longrightarrow> drop (wr - 1) (t[wr - 1 := x]) = x # drop wr t"
  by (cases wr) (simp_all add: drop_update_swap Cons_nth_drop_Suc [symmetric])

lemma norm_grows: "length t \<le> length (norm_eol [CR, LF] t)"
proof (induction t rule: length_induct)
  case (1 t)
  then have IH: "length u \<le> length (norm_eol [CR, LF] u)" if "length u < length t" for u using that by blast
  show ?case
    by (cases t rule: norm_cases)
      (auto simp: norm_eqs simp del: norm_eol.simps(2) intro!: le_SucI IH)
qed

lemma norm_same_length: "length (norm_eol [CR, LF] t) = length t \<Longrightarrow> norm_eol [CR, LF] t = t"
proof (induction t rule: length_induct)
  case (1 t)
  then have IH: "norm_eol [CR, LF] u = u" if "length u < length t" "length (norm_eol [CR, LF] u) = length u" for u
    using that by blast
  show ?case
  proof (cases t rule: norm_cases)
    case (pair t')
    then show ?thesis using 1(2) IH [of t'] by (simp add: norm_eqs(1) del: norm_eol.simps(2))
  next
    case (cr t')
    then show ?thesis using 1(2) norm_grows [of t'] by (simp add: norm_eqs(2) del: norm_eol.simps(2))
  next
    case (lf t')
    then show ?thesis using 1(2) norm_grows [of t'] by (simp add: norm_eqs(3) del: norm_eol.simps(2))
  next
    case (other c t')
    then show ?thesis using 1(2) IH [of t'] by (simp add: norm_eqs(4) del: norm_eol.simps(2))
  qed simp
qed

text \<open>In the expanding loop the write position is always where the normalised prefix ends.\<close>

lemma crlf_loop_norm:
  "rd \<le> length t \<Longrightarrow> wr \<le> length t \<Longrightarrow> wr = length (norm_eol [CR, LF] (take rd t)) \<Longrightarrow>
   crlf_loop t rd wr = norm_eol [CR, LF] (take rd t) @ drop wr t"
proof (induction t rd wr rule: crlf_loop.induct)
  case (1 t rd wr)
  let ?N = "norm_eol [CR, LF]"
  show ?case
  proof (cases "rd > 0")
    case False
    then show ?thesis using 1 by (simp add: crlf_loop.simps)
  next
    case True
    define r where "r = rd - 1"
    have rl: "r < length t" and rd: "rd = Suc r" using True 1(4) by (auto simp: r_def)
    then have tk: "take rd t = take r t @ [t ! r]" by (simp add: take_Suc_conv_app_nth)
    have two: "crlf_loop (t[wr - 1 := LF, wr - 2 := CR]) r1 (wr - 2) = ?N (take rd t) @ drop wr t"
      if ih: "r1 \<le> length (t[wr - 1 := LF, wr - 2 := CR]) \<Longrightarrow> wr - 2 \<le> length (t[wr - 1 := LF, wr - 2 := CR]) \<Longrightarrow>
          wr - 2 = length (?N (take r1 (t[wr - 1 := LF, wr - 2 := CR]))) \<Longrightarrow>
          crlf_loop (t[wr - 1 := LF, wr - 2 := CR]) r1 (wr - 2)
          = ?N (take r1 (t[wr - 1 := LF, wr - 2 := CR])) @ drop (wr - 2) (t[wr - 1 := LF, wr - 2 := CR])"
        and r1: "?N (take rd t) = ?N (take r1 t) @ [CR, LF]" "r1 \<le> r" for r1
    proof -
      have w: "wr = length (?N (take r1 t)) + 2" using r1 1(6) by simp
      have "r1 \<le> wr - 2" using norm_grows [of "take r1 t"] w r1 rl by simp
      then have tk1: "take r1 (t[wr - 1 := LF, wr - 2 := CR]) = take r1 t" by simp
      show ?thesis using ih w 1(5) r1 rl drop_two [of wr t] unfolding tk1 by simp
    qed
    consider (lf) "t ! r = LF" | (cr) "t ! r = CR" | (other) "t ! r \<noteq> CR" "t ! r \<noteq> LF" by blast
    then show ?thesis
    proof cases
      case lf
      let ?r1 = "if r > 0 \<and> t ! (r - 1) = CR then r - 1 else r"
      have "?N (take rd t) = ?N (take ?r1 t) @ [CR, LF]"
      proof (cases "r > 0")
        case True
        then have "take r t = take (r - 1) t @ [t ! (r - 1)]" using rl by (cases r) (simp_all add: take_Suc_conv_app_nth)
        then have "take r t \<noteq> []" "last (take r t) = t ! (r - 1)" "butlast (take r t) = take (r - 1) t" by simp_all
        then show ?thesis using norm_snoc_lf [of "[CR, LF]" "take r t"] tk lf True
          by (simp del: norm_eol.simps)
      next
        case False
        then show ?thesis using tk lf by simp
      qed
      then have "crlf_loop (t[wr - 1 := LF, wr - 2 := CR]) ?r1 (wr - 2) = ?N (take rd t) @ drop wr t"
        using 1(1) [OF True r_def refl lf refl] by (intro two) auto
      moreover have "crlf_loop t rd wr = crlf_loop (t[wr - 1 := LF, wr - 2 := CR]) ?r1 (wr - 2)"
        using lf by (simp add: rd crlf_loop.simps [of t "Suc r" wr] Let_def)
      ultimately show ?thesis by simp
    next
      case cr
      then have "?N (take rd t) = ?N (take r t) @ [CR, LF]" using tk by (simp add: norm_snoc_other del: norm_eol.simps)
      then have "crlf_loop (t[wr - 1 := LF, wr - 2 := CR]) r (wr - 2) = ?N (take rd t) @ drop wr t"
        using 1(2) [OF True r_def refl _ cr] cr by (intro two) auto
      moreover have "crlf_loop t rd wr = crlf_loop (t[wr - 1 := LF, wr - 2 := CR]) r (wr - 2)"
        using cr by (simp add: rd crlf_loop.simps [of t "Suc r" wr] Let_def)
      ultimately show ?thesis by simp
    next
      case other
      then have n: "?N (take rd t) = ?N (take r t) @ [t ! r]" using tk by (simp add: norm_snoc_other del: norm_eol.simps)
      then have w: "wr = length (?N (take r t)) + 1" using 1(6) by simp
      have "r \<le> wr - 1" using norm_grows [of "take r t"] w rl by simp
      then have tk1: "take r (t[wr - 1 := t ! r]) = take r t" by simp
      have "crlf_loop (t[wr - 1 := t ! r]) r (wr - 1) = ?N (take r t) @ t ! r # drop wr t"
        using 1(3) [OF True r_def refl other(2,1)] w 1(5) rl drop_one [of wr t "t ! r"] unfolding tk1 by simp
      moreover have "crlf_loop t rd wr = crlf_loop (t[wr - 1 := t ! r]) r (wr - 1)"
        using other by (simp add: rd crlf_loop.simps [of t "Suc r" wr] Let_def)
      ultimately show ?thesis using n by simp
    qed
  qed
qed

text \<open>C29: \<open>NormalizeLineEndingsInPlace\<close> rewrites every CR LF pair, lone CR and lone LF to the chosen line
  ending and changes nothing else. The in-place loops never overwrite text they still have to
  read, in the compacting direction as well as in the expanding one (for texts whose size is far
  enough from the limit of \<open>usize\<close>).\<close>

theorem NormalizeLineEndings_correct:
  assumes "length (norm_eol [CR, LF] t) < 2 ^ 64"
  shows "NormalizeLineEndingsInPlace t False = norm_eol [LF] t
    \<and> NormalizeLineEndingsInPlace t True = norm_eol [CR, LF] t"
proof
  show "NormalizeLineEndingsInPlace t False = norm_eol [LF] t"
    unfolding NormalizeLineEndingsInPlace_def using lf_loop_norm [of 0 0 t] norm_no_cr [of t]
    by (simp del: norm_eol.simps)
  let ?g = "crlf_growth t 0 0"
  have g: "length (norm_eol [CR, LF] t) = length t + ?g" using crlf_growth_length [of 0 t 0] by simp
  show "NormalizeLineEndingsInPlace t True = norm_eol [CR, LF] t"
  proof (cases "?g = 0")
    case True
    have "length (norm_eol [CR, LF] t) = length t" using g True by simp
    then have "norm_eol [CR, LF] t = t" by (rule norm_same_length)
    then show ?thesis using True by (simp add: NormalizeLineEndingsInPlace_def)
  next
    case False
    have "crlf_loop (t @ replicate ?g 0) (length t) (length t + ?g) = norm_eol [CR, LF] t"
      using g by (subst crlf_loop_norm) (simp_all only: take_append take_all length_append length_replicate
        diff_self_eq_0 take_0 append_Nil2 le_add1 order_refl drop_all)
    moreover have "\<not> ?g > 2 ^ 64 - 1 - length t" using g assms by linarith
    ultimately show ?thesis using False by (simp add: NormalizeLineEndingsInPlace_def)
  qed
qed

theorem NormalizeLineEndings_correct_witness:
  "length (norm_eol [CR, LF] [0x61, CR, LF, CR, LF, LF]) < 2 ^ 64
   \<and> NormalizeLineEndingsInPlace [0x61, CR, LF, CR, LF, LF] True = [0x61, CR, LF, CR, LF, CR, LF]"
  using NormalizeLineEndings_correct [of "[0x61, CR, LF, CR, LF, LF]"] by (simp add: CR_def LF_def)

section \<open>Trimming: the reference\<close>

lemma trim_begin_drop: "drop (trim_begin t i) t = dropWhile IsAsciiSpace (drop i t) \<and> i \<le> trim_begin t i"
proof (induction t i rule: trim_begin.induct)
  case (1 t i)
  show ?case
  proof (cases "i < length t")
    case True
    then have "drop i t = t ! i # drop (i + 1) t" by (simp add: Cons_nth_drop_Suc)
    then show ?thesis using 1 True by (auto simp: trim_begin.simps [of t i])
  next
    case False
    then show ?thesis by (simp add: trim_begin.simps [of t i])
  qed
qed

lemma trim_end_take:
  "e \<le> length t \<Longrightarrow> b \<le> e \<Longrightarrow>
   take (trim_end t b e - b) (drop b t) = rev (dropWhile IsAsciiSpace (rev (take (e - b) (drop b t))))"
proof (induction t b e rule: trim_end.induct)
  case (1 t b)
  then show ?case by simp
next
  case (2 t b e)
  show ?case
  proof (cases "Suc e > b")
    case False
    then show ?thesis using 2 by simp
  next
    case True
    then have "take (Suc e - b) (drop b t) = take (e - b) (drop b t) @ [t ! e]"
      using 2(2) by (simp add: Suc_diff_le take_Suc_conv_app_nth)
    then show ?thesis using 2 True by (cases "IsAsciiSpace (t ! e)") auto
  qed
qed

lemma trim_begin_le: "i \<le> length t \<Longrightarrow> trim_begin t i \<le> length t"
  by (induction t i rule: trim_begin.induct) (simp add: trim_begin.simps)

lemma TrimView_reference:
  "TrimView t = rev (dropWhile IsAsciiSpace (rev (dropWhile IsAsciiSpace t)))"
proof -
  let ?b = "trim_begin t 0"
  have "TrimView t = rev (dropWhile IsAsciiSpace (rev (take (length t - ?b) (drop ?b t))))"
    using trim_begin_le [of 0 t] by (simp add: TrimView_def Let_def trim_end_take)
  also have "take (length t - ?b) (drop ?b t) = drop ?b t" by simp
  finally show ?thesis using trim_begin_drop [of t 0] by simp
qed

lemma TrimInPlace_view: "TrimInPlace t = TrimView t"
proof -
  let ?b = "trim_begin t 0" and ?e = "trim_end t (trim_begin t 0) (length t)"
  have "TrimView t = take (?e - ?b) (drop ?b t)" by (simp add: TrimView_def Let_def)
  then have pre: "drop ?b (take (?b + length (TrimView t)) t) = TrimView t"
    by (simp add: drop_take min_def)
  show ?thesis
  proof (cases "length (TrimView t) = length t")
    case True
    then have "take (?b + length (TrimView t)) t = t" by simp
    then have "drop ?b t = TrimView t" using pre by simp
    moreover from this True have "length t - ?b = length t" by (metis length_drop)
    then have "?b = 0 \<or> length t = 0" by linarith
    then have "drop ?b t = t" by auto
    ultimately show ?thesis using True by (simp add: TrimInPlace_def Let_def)
  next
    case False
    then show ?thesis using pre by (simp add: TrimInPlace_def Let_def)
  qed
qed

lemma dropWhile_idem: "dropWhile P (dropWhile P xs) = dropWhile P xs"
  by (induction xs) auto

lemma dropWhile_butlast: "xs = [] \<or> \<not> P (hd xs) \<Longrightarrow> rev (dropWhile P (rev xs)) = [] \<or> \<not> P (hd (rev (dropWhile P (rev xs))))"
proof (induction xs rule: rev_induct)
  case (snoc x xs)
  then show ?case by (cases "xs = []"; cases "P x") (auto simp: hd_append)
qed simp

text \<open>Trimming returns the text between the first and the last character that is not ASCII white
  space, trimming in place gives the same text, and trimming twice changes nothing more.\<close>

lemma Trim_correct:
  "TrimView t = rev (dropWhile IsAsciiSpace (rev (dropWhile IsAsciiSpace t)))
   \<and> TrimInPlace t = TrimView t \<and> TrimView (TrimView t) = TrimView t
   \<and> TrimLeftView t = dropWhile IsAsciiSpace t"
proof -
  have left: "TrimLeftView t = dropWhile IsAsciiSpace t" by (induction t) auto
  have "dropWhile IsAsciiSpace (TrimView t) = TrimView t"
    using dropWhile_butlast [of "dropWhile IsAsciiSpace t" IsAsciiSpace] hd_dropWhile [of IsAsciiSpace t]
    unfolding TrimView_reference by (metis dropWhile_eq_self_iff)
  then have "TrimView (TrimView t) = TrimView t"
    unfolding TrimView_reference [of "TrimView t"] by (simp add: TrimView_reference [of t] dropWhile_idem)
  then show ?thesis using TrimView_reference TrimInPlace_view left by simp
qed

section \<open>Lines: the reference\<close>

definition eol_char :: "u8 \<Rightarrow> bool" where
  "eol_char c \<longleftrightarrow> c = LF \<or> c = CR"

text \<open>The lines of a text; a run of line-ending characters separates two lines.\<close>

function lines_of :: "u8 list \<Rightarrow> u8 list list" where
  "lines_of [] = []"
| "lines_of (c # t) = takeWhile (\<lambda>x. \<not> eol_char x) (c # t)
     # lines_of (dropWhile eol_char (dropWhile (\<lambda>x. \<not> eol_char x) (c # t)))"
  by pat_completeness auto
termination
proof (relation "measure length")
  fix c :: u8 and t :: "u8 list"
  have le: "length (dropWhile P xs) \<le> length xs" for P and xs :: "u8 list" by (rule length_dropWhile_le)
  show "(dropWhile eol_char (dropWhile (\<lambda>x. \<not> eol_char x) (c # t)), c # t) \<in> measure length"
    using le [of eol_char t] le [of eol_char "dropWhile (\<lambda>x. \<not> eol_char x) t"] le [of "\<lambda>x. \<not> eol_char x" t]
    by (cases "eol_char c") auto
qed simp

declare lines_of.simps(2) [simp del]

lemma skip_while_drop:
  "drop (skip_while P t i) t = dropWhile P (drop i t) \<and> i \<le> skip_while P t i
   \<and> take (skip_while P t i - i) (drop i t) = takeWhile P (drop i t)"
proof (induction P t i rule: skip_while.induct)
  case (1 P t i)
  show ?case
  proof (cases "i < length t \<and> P (t ! i)")
    case True
    then have d: "drop i t = t ! i # drop (i + 1) t" by (simp add: Cons_nth_drop_Suc)
    have s: "skip_while P t i = skip_while P t (i + 1)" using True by (simp add: skip_while.simps [of P t i])
    have IH: "drop (skip_while P t (i + 1)) t = dropWhile P (drop (i + 1) t)" "i + 1 \<le> skip_while P t (i + 1)"
      "take (skip_while P t (i + 1) - (i + 1)) (drop (i + 1) t) = takeWhile P (drop (i + 1) t)"
      using 1 True by blast+
    have "skip_while P t (i + 1) - i = Suc (skip_while P t (i + 1) - (i + 1))" using IH(2) by simp
    then show ?thesis using IH True unfolding s d by simp
  next
    case False
    then have "skip_while P t i = i" by (auto simp: skip_while.simps [of P t i])
    moreover have "drop i t = [] \<or> \<not> P (hd (drop i t))" using False by (auto simp: hd_drop_conv_nth)
    ultimately show ?thesis by (cases "drop i t") auto
  qed
qed

lemma NextTextLine_lines:
  "NextTextLine t c = (if c < length t
     then Some (hd (lines_of (drop c t)), skip_while eol_char t (skip_while (\<lambda>x. \<not> eol_char x) t c)) else None)"
proof (cases "c < length t")
  case True
  then obtain d ds where d: "drop c t = d # ds" by (metis Cons_nth_drop_Suc)
  have "(\<lambda>x. x \<noteq> LF \<and> x \<noteq> CR) = (\<lambda>x. \<not> eol_char x)" "(\<lambda>x. x = LF \<or> x = CR) = eol_char"
    by (auto simp: eol_char_def)
  then show ?thesis using True skip_while_drop [of "\<lambda>x. \<not> eol_char x" t c] d
    by (simp add: NextTextLine_def Let_def lines_of.simps(2))
qed (simp add: NextTextLine_def)

lemma next_cursor:
  assumes "c < length t"
  shows "lines_of (drop (skip_while eol_char t (skip_while (\<lambda>x. \<not> eol_char x) t c)) t) = tl (lines_of (drop c t))"
    "c < skip_while eol_char t (skip_while (\<lambda>x. \<not> eol_char x) t c)"
proof -
  let ?s = "skip_while (\<lambda>x. \<not> eol_char x) t c"
  obtain d ds where d: "drop c t = d # ds" using assms by (metis Cons_nth_drop_Suc)
  show "lines_of (drop (skip_while eol_char t ?s) t) = tl (lines_of (drop c t))"
    using skip_while_drop [of "\<lambda>x. \<not> eol_char x" t c] skip_while_drop [of eol_char t ?s] d
    by (simp add: lines_of.simps(2))
  have "c < ?s \<or> c < skip_while eol_char t ?s"
  proof (cases "eol_char (t ! c)")
    case True
    then have "?s = c" by (simp add: skip_while.simps [of _ t c])
    then show ?thesis using True assms skip_while_drop [of eol_char t "c + 1"] by (simp add: skip_while.simps [of eol_char t c])
  next
    case False
    then have "?s = skip_while (\<lambda>x. \<not> eol_char x) t (c + 1)" using assms by (simp add: skip_while.simps [of _ t c])
    then show ?thesis using skip_while_drop [of "\<lambda>x. \<not> eol_char x" t "c + 1"] by simp
  qed
  then show "c < skip_while eol_char t ?s" using skip_while_drop [of eol_char t ?s] skip_while_drop [of "\<lambda>x. \<not> eol_char x" t c] by linarith
qed

lemma find_key_from_lines:
  "find_key_from t key c = Some (map_option (drop (length key + 1))
     (find (\<lambda>line. StartsWith line (key @ [0x3D])) (lines_of (drop c t))))"
proof (induction "length t - c" arbitrary: c rule: less_induct)
  case less
  show ?case
  proof (cases "c < length t")
    case False
    then show ?thesis by (subst find_key_from.simps) (simp add: NextTextLine_lines)
  next
    case True
    let ?c = "skip_while eol_char t (skip_while (\<lambda>x. \<not> eol_char x) t c)"
    obtain line rest where lines: "lines_of (drop c t) = line # rest"
      using True by (metis Cons_nth_drop_Suc lines_of.simps(2))
    have key: "StartsWith line (key @ [0x3D])
        \<longleftrightarrow> \<not> (length line \<le> length key \<or> \<not> StartsWith line key \<or> line ! length key \<noteq> 0x3D)"
      by (auto simp: StartsWith_def take_Suc_conv_app_nth)
    have IH: "find_key_from t key ?c = Some (map_option (drop (length key + 1))
        (find (\<lambda>line. StartsWith line (key @ [0x3D])) rest))"
      using less [of ?c] next_cursor [OF True] True lines by simp
    have "find_key_from t key c = (if StartsWith line (key @ [0x3D]) then Some (Some (drop (length key + 1) line))
        else find_key_from t key ?c)"
      using True lines key by (subst find_key_from.simps) (simp add: NextTextLine_lines)
    then show ?thesis using IH lines by simp
  qed
qed

text \<open>\<open>FindLineKeyValue\<close> always ends and returns what follows \<open>key=\<close> on the first line that starts with
  \<open>key=\<close>, or fails when there is none.\<close>

lemma FindLineKeyValue_correct:
  "FindLineKeyValue t key = Some (map_option (drop (length key + 1))
     (find (\<lambda>line. StartsWith line (key @ [0x3D])) (lines_of t)))"
  by (simp add: FindLineKeyValue_def find_key_from_lines)

section \<open>Splitting\<close>

fun join :: "u8 \<Rightarrow> u8 list list \<Rightarrow> u8 list" where
  "join d [] = []"
| "join d [p] = p"
| "join d (p # q # ps) = p @ [d] @ join d (q # ps)"

lemma split_from_spec:
  assumes "b \<le> i" "i \<le> length line" "d \<notin> set (take (i - b) (drop b line))"
  shows "split_from line d b i \<noteq> [] \<and> join d (split_from line d b i) = drop b line
    \<and> (\<forall>p \<in> set (split_from line d b i). d \<notin> set p)"
  using assms
proof (induction line d b i rule: split_from.induct)
  case (1 line d b i)
  show ?case
  proof (cases "i \<noteq> length line \<and> line ! i \<noteq> d")
    case True
    have "take (i + 1 - b) (drop b line) = take (i - b) (drop b line) @ [line ! i]"
    proof -
      have "i < length line" using 1(4) True by simp
      then show ?thesis using 1(3) by (simp add: Suc_diff_le take_Suc_conv_app_nth)
    qed
    then show ?thesis using 1(1) [OF 1(4) True] 1(3-5) True by (auto simp: split_from.simps [of line d b i])
  next
    case stop: False
    have eq: "split_from line d b i = take (i - b) (drop b line) # split_from line d (i + 1) (i + 1)"
      using 1(4) stop by (auto simp: split_from.simps [of line d b i])
    show ?thesis
    proof (cases "i = length line")
      case True
      then have "split_from line d (i + 1) (i + 1) = []" by (simp add: split_from.simps)
      then show ?thesis using eq 1(5) True 1(3) by simp
    next
      case False
      then have di: "line ! i = d" "i < length line" using stop 1(4) by auto
      have IH: "split_from line d (i + 1) (i + 1) \<noteq> []" "join d (split_from line d (i + 1) (i + 1)) = drop (i + 1) line"
        "\<forall>p \<in> set (split_from line d (i + 1) (i + 1)). d \<notin> set p"
        using 1(2) [OF 1(4) stop] di by auto
      have "drop b line = take (i - b) (drop b line) @ d # drop (i + 1) line"
        using di 1(3) by (metis Cons_nth_drop_Suc Suc_eq_plus1 append_take_drop_id drop_drop le_add_diff_inverse2)
      moreover obtain q qs where "split_from line d (i + 1) (i + 1) = q # qs" using IH(1) by (cases "split_from line d (i + 1) (i + 1)") auto
      ultimately show ?thesis using eq IH 1(5) by simp
    qed
  qed
qed

lemma join_length: "ps \<noteq> [] \<Longrightarrow> (\<forall>p \<in> set ps. d \<notin> set p) \<Longrightarrow> length ps = Suc (length (filter (\<lambda>c. c = d) (join d ps)))"
  by (induction d ps rule: join.induct) (auto simp: filter_empty_conv)

text \<open>\<open>SplitText\<close> cuts a line at every delimiter: joining the parts with the delimiter gives the line
  back, no part contains the delimiter, and there is one part more than delimiters.\<close>

lemma SplitText_correct:
  "join d (SplitText line d) = line \<and> (\<forall>p \<in> set (SplitText line d). d \<notin> set p)
   \<and> length (SplitText line d) = Suc (length (filter (\<lambda>c. c = d) line))"
  using split_from_spec [where b = 0 and i = 0 and line = line and d = d] join_length [of "split_from line d 0 0" d]
  by (simp add: SplitText_def)

lemma SplitText_correct_example: "SplitText [1, 0x2C, 0x2C, 2] 0x2C = [[1], [], [2]]
  \<and> join 0x2C (SplitText [1, 0x2C, 0x2C, 2] 0x2C) = [1, 0x2C, 0x2C, 2]"
  using SplitText_correct [where d = "0x2C" and line = "[1, 0x2C, 0x2C, 2]"] by (simp add: SplitText_def split_from.simps)

section \<open>Decimal numbers: round trip\<close>

lemma digits_value_snoc: "digits_value (ds @ [c]) = 10 * digits_value ds + unat (c - 0x30)"
  by (simp add: digits_value_def)

lemma digit_word: "n < 10 \<Longrightarrow> is_digit (0x30 + of_nat n) \<and> unat (0x30 + of_nat n - 0x30 :: u8) = n"
proof -
  assume n: "n < 10"
  have u: "unat (of_nat n :: u8) = n" using n by (simp add: unat_of_nat_small)
  moreover have "unat (0x30 + of_nat n :: u8) = 0x30 + n" using n u by (subst unat_plus_no_overflow) simp_all
  ultimately show ?thesis using n by (simp add: is_digit_def word_le_nat_alt)
qed

lemma decimal_digits_spec:
  "decimal_digits n \<noteq> [] \<and> list_all is_digit (decimal_digits n) \<and> digits_value (decimal_digits n) = n"
proof (induction n rule: decimal_digits.induct)
  case (1 n)
  show ?case
  proof (cases "n < 10")
    case True
    then show ?thesis using digit_word [of n] by (simp add: decimal_digits.simps [of n] digits_value_def)
  next
    case False
    then show ?thesis using 1 digit_word [of "n mod 10"]
      by (simp add: decimal_digits.simps [of n] digits_value_snoc)
  qed
qed

lemma decimal_digits_length: "n < 10 ^ Suc k \<Longrightarrow> length (decimal_digits n) \<le> Suc k"
proof (induction k arbitrary: n)
  case 0
  then show ?case by (simp add: decimal_digits.simps)
next
  case (Suc k)
  show ?case
  proof (cases "n < 10")
    case True
    then show ?thesis by (simp add: decimal_digits.simps)
  next
    case False
    have "n div 10 < 10 ^ Suc k" using Suc.prems by (simp add: less_mult_imp_div_less)
    then show ?thesis using False Suc.IH [of "n div 10"] by (simp add: decimal_digits.simps [of n])
  qed
qed

lemma takeWhile_all: "list_all P xs \<Longrightarrow> takeWhile P xs = xs"
  by (simp add: takeWhile_eq_all_conv list_all_iff)

text \<open>Decimal text round trip: parsing what \<open>FormatDecimal\<close> wrote into a buffer of 20 characters or more
  gives the number back, unsigned and (below \<open>2^63\<close>) signed.\<close>

lemma decimal_roundtrip:
  assumes "20 \<le> N"
  shows "ParseU64 (FormatDecimal N v) = Some v
    \<and> ParseI64 (FormatDecimal N v) = (if unat v < 2 ^ 63 then Some (int (unat v)) else None)"
proof -
  let ?d = "decimal_digits (unat v)"
  have d: "?d \<noteq> []" "takeWhile is_digit ?d = ?d" "digits_value ?d = unat v"
    using decimal_digits_spec [of "unat v"] takeWhile_all by auto
  have lt: "unat v < 2 ^ 64" using unsigned_less [of v] by simp
  have "length ?d \<le> 20" using decimal_digits_length [of "unat v" 19] lt by simp
  then have fmt: "FormatDecimal N v = ?d" using assms by (simp add: FormatDecimal_def Let_def)
  have "is_digit (hd ?d)" using decimal_digits_spec [of "unat v"] by (cases ?d) auto
  then have hd: "hd ?d \<noteq> 0x2D" by (auto simp: is_digit_def)
  have neg: "(?d \<noteq> [] \<and> hd ?d = 0x2D) = False" using hd by simp
  have "ParseU64 ?d = Some v"
    unfolding ParseU64_def ParseU64FromChars_def Let_def d(2,3) using d(1) lt by simp
  moreover have "ParseI64 ?d = (if unat v < 2 ^ 63 then Some (int (unat v)) else None)"
  proof -
    define n where "n = unat v"
    show ?thesis
      unfolding ParseI64_def ParseI64FromChars_def Let_def neg if_False d(2,3) unfolding n_def [symmetric]
      using d(1) [folded n_def] by auto
  qed
  ultimately show ?thesis by (simp add: fmt)
qed

lemma decimal_roundtrip_example: "(20 :: nat) \<le> 32 \<and> ParseU64 (FormatDecimal 32 1234) = Some 1234"
  using decimal_roundtrip [of 32 1234] by simp

end
