(* ===== verification/Hex_Name.thy ===== *)
theory Hex_Name
  imports Text_Utils
begin

text \<open>
  Hashing, hexadecimal text and names: \<^verbatim>\<open>src/global/hash_utils.h\<close> and \<^verbatim>\<open>src/global/name.h\<close>,
  for byte characters. A name is its hash of eight 64-bit lanes (the debug text some build modes
  carry beside it does not take part in any comparison). A C string is the list of its characters
  before the terminator, a null pointer is \<open>None\<close>.
\<close>

section \<open>FNV hashing\<close>

definition FNV64_OFFSET_BASIS :: u64 where "FNV64_OFFSET_BASIS = 14695981039346656037"
definition FNV64_PRIME :: u64 where "FNV64_PRIME = 1099511628211"

definition FNV1a64 :: "u8 list option \<Rightarrow> u64 \<Rightarrow> u64" where
  "FNV1a64 str seed =
     (case str of None \<Rightarrow> seed
      | Some s \<Rightarrow> foldl (\<lambda>h c. (h XOR ucast (Canonicalize c)) * FNV64_PRIME) seed s)"

definition UpdateFnv64 :: "u64 \<Rightarrow> u8 list \<Rightarrow> u64" where
  "UpdateFnv64 hash bytes = foldl (\<lambda>h b. (h XOR ucast b) * FNV64_PRIME) hash bytes"

definition UpdateFnv64TextCanonical :: "u64 \<Rightarrow> u8 list \<Rightarrow> u64" where
  "UpdateFnv64TextCanonical hash t = foldl (\<lambda>h c. (h XOR ucast (Canonicalize c)) * FNV64_PRIME) hash t"

definition UpdateFnv64TextExact :: "u64 \<Rightarrow> u8 list \<Rightarrow> u64" where
  "UpdateFnv64TextExact hash t = UpdateFnv64 hash t"

definition ComputeFnv64Bytes :: "u8 list \<Rightarrow> u64" where
  "ComputeFnv64Bytes bytes = UpdateFnv64 FNV64_OFFSET_BASIS bytes"

definition ComputeFnv64Text :: "u8 list \<Rightarrow> u64" where
  "ComputeFnv64Text t = ComputeFnv64Bytes t"

definition HashCombineHash :: "usize \<Rightarrow> usize \<Rightarrow> usize" where
  "HashCombineHash seed hash = seed XOR (hash + 0x9e3779b9 + push_bit 6 seed + drop_bit 2 seed)"

section \<open>Hexadecimal text\<close>

definition ParseHexDigit :: "u8 \<Rightarrow> u8 option" where
  "ParseHexDigit ch =
     (if ch \<ge> 0x30 \<and> ch \<le> 0x39 then Some (ch - 0x30)
      else if ch \<ge> 0x61 \<and> ch \<le> 0x66 then Some (ch - 0x61 + 10)
      else if ch \<ge> 0x41 \<and> ch \<le> 0x46 then Some (ch - 0x41 + 10)
      else None)"

text \<open>The accumulating loop shared by both parsers.\<close>

fun parse_hex_loop :: "u64 \<Rightarrow> u8 list \<Rightarrow> u64 option" where
  "parse_hex_loop acc [] = Some acc"
| "parse_hex_loop acc (ch # t) =
     (case ParseHexDigit ch of None \<Rightarrow> None | Some nibble \<Rightarrow> parse_hex_loop (push_bit 4 acc OR ucast nibble) t)"

definition ParseHexU64 :: "u8 list \<Rightarrow> u64 option" where
  "ParseHexU64 t = (if length t \<noteq> 16 then None else parse_hex_loop 0 t)"

definition ParseVariableHexU64 :: "u8 list \<Rightarrow> u64 option" where
  "ParseVariableHexU64 t0 =
     (let t = (if length t0 \<ge> 2 \<and> t0 ! 0 = 0x30 \<and> (t0 ! 1 = 0x78 \<or> t0 ! 1 = 0x58) then drop 2 t0 else t0)
      in if t = [] \<or> length t > 16 then None else parse_hex_loop 0 t)"

definition HexDigit :: "nat \<Rightarrow> u8" where
  "HexDigit nibble = (if nibble < 10 then of_nat (0x30 + nibble) else of_nat (0x61 + (nibble - 10)))"

text \<open>\<open>maxSize\<close> is the container's \<open>max_size()\<close>; without room for all digits nothing is appended.\<close>

definition AppendFixedHexImpl :: "nat \<Rightarrow> u64 \<Rightarrow> nat \<Rightarrow> u8 list \<Rightarrow> u8 list" where
  "AppendFixedHexImpl maxSize v nibbleCount out =
     (if length out > maxSize \<or> maxSize - length out < nibbleCount then out
      else foldl (\<lambda>o1 nibbleIndex.
             let shift = (nibbleCount - 1 - nibbleIndex) * 4
             in o1 @ [HexDigit (unat (drop_bit shift v AND 0xF))]) out [0..<nibbleCount])"

definition AppendHexU32 :: "nat \<Rightarrow> u32 \<Rightarrow> u8 list \<Rightarrow> u8 list" where
  "AppendHexU32 maxSize v out = AppendFixedHexImpl maxSize (ucast v) 8 out"

definition AppendHexU64 :: "nat \<Rightarrow> u64 \<Rightarrow> u8 list \<Rightarrow> u8 list" where
  "AppendHexU64 maxSize v out = AppendFixedHexImpl maxSize v 16 out"

definition AppendHexU32UnsignedLiteral :: "nat \<Rightarrow> u32 \<Rightarrow> u8 list \<Rightarrow> u8 list" where
  "AppendHexU32UnsignedLiteral maxSize v out = AppendHexU32 maxSize v (out @ [0x30] @ [0x78]) @ [0x75]"

definition FormatHex64A :: "nat \<Rightarrow> u64 \<Rightarrow> u8 list" where
  "FormatHex64A maxSize v = AppendHexU64 maxSize v []"

section \<open>Name hashes\<close>

type_synonym NameHash = "u64 list"

definition LANE_SEEDS :: "u64 list" where
  "LANE_SEEDS =
     [FNV64_OFFSET_BASIS,
      FNV64_OFFSET_BASIS XOR 0x0123456789ABCDEF,
      FNV64_OFFSET_BASIS XOR 0xFEDCBA9876543210,
      FNV64_OFFSET_BASIS XOR 0x0F1E2D3C4B5A6978,
      FNV64_OFFSET_BASIS XOR 0x8796A5B4C3D2E1F0,
      FNV64_OFFSET_BASIS XOR 0xDEADBEEFCAFEBABE,
      FNV64_OFFSET_BASIS XOR 0x1234ABCD5678EF01,
      FNV64_OFFSET_BASIS XOR 0xA0B1C2D3E4F50617]"

definition zero_hash :: NameHash where
  "zero_hash = replicate 8 0"

definition InitializeNameHash :: NameHash where
  "InitializeNameHash = LANE_SEEDS"

definition UpdateCanonicalNameHashLanes :: "NameHash \<Rightarrow> u8 \<Rightarrow> NameHash" where
  "UpdateCanonicalNameHashLanes hash ch = map (\<lambda>q. (q XOR ucast (Canonicalize ch)) * FNV64_PRIME) hash"

text \<open>The lanes are updated in place, so a text with a null leaves them updated up to it.\<close>

fun UpdateCanonicalNameHashText :: "NameHash \<Rightarrow> u8 list \<Rightarrow> bool \<times> NameHash" where
  "UpdateCanonicalNameHashText hash [] = (True, hash)"
| "UpdateCanonicalNameHashText hash (ch # t) =
     (if ch = 0 then (False, hash) else UpdateCanonicalNameHashText (UpdateCanonicalNameHashLanes hash ch) t)"

definition ComputeNameHash_cstr :: "u8 list option \<Rightarrow> NameHash" where
  "ComputeNameHash_cstr str =
     (case str of None \<Rightarrow> zero_hash | Some s \<Rightarrow> foldl UpdateCanonicalNameHashLanes InitializeNameHash s)"

definition ComputeNameHash_view :: "u8 list \<Rightarrow> NameHash" where
  "ComputeNameHash_view t =
     (let (ok, hash) = UpdateCanonicalNameHashText InitializeNameHash t in if \<not> ok then zero_hash else hash)"

fun less_lanes :: "u64 list \<Rightarrow> u64 list \<Rightarrow> bool" where
  "less_lanes (a # as) (b # bs) = (if a < b then True else if a > b then False else less_lanes as bs)"
| "less_lanes _ _ = False"

definition LessNameHash :: "NameHash \<Rightarrow> NameHash \<Rightarrow> bool" where
  "LessNameHash lhs rhs = less_lanes lhs rhs"

definition EqualHash :: "NameHash \<Rightarrow> NameHash \<Rightarrow> bool" where
  "EqualHash a b = list_all (\<lambda>i. a ! i = b ! i) [0..<8]"

definition IsZeroHash :: "NameHash \<Rightarrow> bool" where
  "IsZeroHash h = list_all (\<lambda>i. h ! i = 0) [0..<8]"

definition HashValue :: "NameHash \<Rightarrow> usize" where
  "HashValue h = foldl (\<lambda>seed i. seed XOR (h ! i + 0x9e3779b97f4a7c15 + push_bit 6 seed + drop_bit 2 seed)) (h ! 0) [1..<8]"

section \<open>Text forms of a hash\<close>

definition hex_lane :: "u64 \<Rightarrow> u8 list" where
  "hex_lane v = map (\<lambda>k. HexDigit (unat (drop_bit (60 - 4 * k) v AND 0xF))) [0..<16]"

text \<open>\<open>HashToDebugString\<close>: what is written before the terminator; the buffer has \<open>dstSize\<close> characters.\<close>

definition HashToDebugString :: "NameHash \<Rightarrow> nat \<Rightarrow> u8 list" where
  "HashToDebugString h dstSize =
     (if dstSize \<le> 135 then []
      else concat (map (\<lambda>i. (if i > 0 then [0x5F] else []) @ hex_lane (h ! i)) [0..<8]))"

fun decode_debug_lanes :: "u8 list \<Rightarrow> nat \<Rightarrow> nat \<Rightarrow> nat \<Rightarrow> (u64 list \<times> nat) option" where
  "decode_debug_lanes t cursor lane 0 = Some ([], cursor)"
| "decode_debug_lanes t cursor lane (Suc k) =
     (let sepBad = (lane > 0 \<and> t ! cursor \<noteq> 0x5F);
          cursor1 = (if lane > 0 then cursor + 1 else cursor)
      in if sepBad \<or> cursor1 + 16 > length t then None
         else case ParseHexU64 (take 16 (drop cursor1 t)) of
                None \<Rightarrow> None
              | Some q \<Rightarrow> map_option (\<lambda>(qs, c). (q # qs, c)) (decode_debug_lanes t (cursor1 + 16) (lane + 1) k))"

definition DecodeDebugHashText :: "u8 list \<Rightarrow> NameHash option" where
  "DecodeDebugHashText t =
     (if length t \<noteq> 135 then None
      else case decode_debug_lanes t 0 0 8 of
             None \<Rightarrow> None
           | Some (hash, cursor) \<Rightarrow> if cursor = length t then Some hash else None)"

definition IsNameHashTokenChar :: "u8 \<Rightarrow> bool" where
  "IsNameHashTokenChar ch =
     (ch \<ge> 0x30 \<and> ch \<le> 0x39 \<or> ch \<ge> 0x61 \<and> ch \<le> 0x66 \<or> ch \<ge> 0x41 \<and> ch \<le> 0x46 \<or> ch = 0x5F)"

definition CopyDebugHashToken :: "u8 list \<Rightarrow> nat \<Rightarrow> u8 list option" where
  "CopyDebugHashToken t offset =
     (if offset + 135 > length t then None
      else if offset > 0 \<and> IsNameHashTokenChar (t ! (offset - 1)) then None
      else if offset + 135 < length t \<and> IsNameHashTokenChar (t ! (offset + 135)) then None
      else if list_all (\<lambda>i. let ch = t ! (offset + i)
                            in if (i + 1) mod 17 = 0 then ch = 0x5F
                               else IsNameHashTokenChar ch \<and> ch \<noteq> 0x5F) [0..<135]
           then Some (take 135 (drop offset t)) else None)"

definition EncodeNameHash :: "nat \<Rightarrow> NameHash \<Rightarrow> u8 list" where
  "EncodeNameHash maxSize h = foldl (\<lambda>encoded lane. AppendHexU64 maxSize (h ! lane) encoded) [] [0..<8]"

fun decode_lanes :: "u8 list \<Rightarrow> nat \<Rightarrow> nat \<Rightarrow> u64 list option" where
  "decode_lanes t lane 0 = Some []"
| "decode_lanes t lane (Suc k) =
     (case ParseHexU64 (take 16 (drop (lane * 16) t)) of
        None \<Rightarrow> None
      | Some q \<Rightarrow> map_option (\<lambda>qs. q # qs) (decode_lanes t (lane + 1) k))"

definition DecodeNameHash :: "u8 list \<Rightarrow> NameHash option" where
  "DecodeNameHash t = (if length t \<noteq> 128 then None else decode_lanes t 0 8)"

section \<open>Derived names\<close>

definition UpdateFnv64U64 :: "u64 \<Rightarrow> u64 \<Rightarrow> u64" where
  "UpdateFnv64U64 hash v =
     foldl (\<lambda>h byteIndex. (h XOR (drop_bit (byteIndex * 8) v AND 0xFF)) * FNV64_PRIME) hash [0..<8]"

text \<open>\<open>"nwb/name/derive"\<close>.\<close>

definition s_DerivePrefixHash :: u64 where
  "s_DerivePrefixHash = FNV1a64 (Some [0x6E, 0x77, 0x62, 0x2F, 0x6E, 0x61, 0x6D, 0x65, 0x2F, 0x64, 0x65, 0x72, 0x69, 0x76, 0x65])
     FNV64_OFFSET_BASIS"

definition BeginDerivedNameHash :: "NameHash \<Rightarrow> NameHash option" where
  "BeginDerivedNameHash base =
     (if IsZeroHash base then None
      else Some (map (\<lambda>lane. UpdateFnv64U64 s_DerivePrefixHash (base ! lane)) [0..<8]))"

definition DeriveName :: "NameHash \<Rightarrow> u8 list \<Rightarrow> NameHash" where
  "DeriveName base suffix =
     (if IsZeroHash base \<or> suffix = [] then zero_hash
      else case BeginDerivedNameHash base of
             None \<Rightarrow> zero_hash
           | Some derived \<Rightarrow>
               let (ok, h) = UpdateCanonicalNameHashText derived suffix in if \<not> ok then zero_hash else h)"

definition ToName :: "u8 list \<Rightarrow> NameHash" where
  "ToName t = (if t = [] then zero_hash else ComputeNameHash_view t)"

definition CopyDebugName :: "u8 list \<Rightarrow> nat \<Rightarrow> u8 list" where
  "CopyDebugName t dstSize =
     (if dstSize = 0 then [] else if 0 \<in> set t then [0] else map Canonicalize (take (dstSize - 1) t) @ [0])"

section \<open>Hexadecimal round trip\<close>

lemma ParseHexDigit_HexDigit: "n < 16 \<Longrightarrow> ParseHexDigit (HexDigit n) = Some (of_nat n)"
proof -
  assume n: "n < 16"
  have "list_all (\<lambda>n. ParseHexDigit (HexDigit n) = Some (of_nat n)) [0..<16]"
    by (simp add: upt_rec HexDigit_def ParseHexDigit_def)
  then show ?thesis using n by (simp add: list_all_iff)
qed

lemma nibble_less: "unat (w AND 0xF :: u64) < 16"
proof -
  have "w AND 0xF \<le> (0xF :: u64)" by (rule word_and_le1)
  then show ?thesis by (simp add: word_le_nat_alt)
qed

lemma unat_ucast_u8: "unat (ucast (b :: u8) :: u64) = unat b"
proof -
  have "unat b < 2 ^ 8" using unsigned_less [of b] by simp
  then show ?thesis by (simp add: unsigned_ucast_eq take_bit_eq_mod)
qed

lemma ucast_nibble: "ucast (of_nat (unat (w AND 0xF :: u64)) :: u8) = w AND 0xF"
proof (rule word_unat_eq_iff [THEN iffD2])
  have "unat (ucast (of_nat (unat (w AND 0xF)) :: u8) :: u64) = unat (of_nat (unat (w AND 0xF)) :: u8)"
    by (rule unat_ucast_u8)
  also have "\<dots> = unat (w AND 0xF)"
    using nibble_less [of w] by (intro unat_of_nat_small) simp
  finally show "unat (ucast (of_nat (unat (w AND 0xF)) :: u8) :: u64) = unat (w AND 0xF)" .
qed

lemma next_nibble: "push_bit 4 (drop_bit (4 * m + 4) v) OR (drop_bit (4 * m) v AND 0xF) = drop_bit (4 * m) (v :: u64)"
proof (rule bit_word_eqI)
  fix n
  assume n: "n < LENGTH(64)"
  have mask: "(0xF :: u64) = mask 4" by (simp add: mask_eq_exp_minus_1)
  show "bit (push_bit 4 (drop_bit (4 * m + 4) v) OR (drop_bit (4 * m) v AND 0xF)) n = bit (drop_bit (4 * m) v) n"
    using n unfolding mask by (cases "n < 4") (simp_all add: bit_simps add.commute)
qed

lemma parse_hex_digits:
  "parse_hex_loop (drop_bit (4 * k) v) (map (\<lambda>i. HexDigit (unat (drop_bit (4 * (k - 1 - i)) v AND 0xF))) [0..<k]) = Some v"
proof (induction k)
  case 0
  then show ?case by simp
next
  case (Suc k)
  have "[0..<Suc k] = 0 # map Suc [0..<k]" by (simp add: upt_conv_Cons map_Suc_upt del: upt_Suc)
  then have "map (\<lambda>i. HexDigit (unat (drop_bit (4 * (Suc k - 1 - i)) v AND 0xF))) [0..<Suc k]
      = HexDigit (unat (drop_bit (4 * k) v AND 0xF))
        # map (\<lambda>i. HexDigit (unat (drop_bit (4 * (k - 1 - i)) v AND 0xF))) [0..<k]"
    by simp
  moreover have "push_bit 4 (drop_bit (4 * Suc k) v) OR ucast (of_nat (unat (drop_bit (4 * k) v AND 0xF)) :: u8) = drop_bit (4 * k) v"
    using next_nibble [of k v] unfolding ucast_nibble by (simp add: add.commute)
  ultimately show ?case
    using Suc ParseHexDigit_HexDigit [OF nibble_less [of "drop_bit (4 * k) v"]] by simp
qed

lemma hex_lane_length [simp]: "length (hex_lane v) = 16"
  by (simp add: hex_lane_def)

lemma drop_bit_all: "drop_bit 64 (v :: u64) = 0"
  by (rule bit_word_eqI) (simp add: bit_simps)

lemma hex_lane_digits: "hex_lane v = map (\<lambda>i. HexDigit (unat (drop_bit (4 * (16 - 1 - i)) v AND 0xF))) [0..<16]"
  unfolding hex_lane_def by (rule map_cong) (auto simp: algebra_simps)

lemma ParseHexU64_hex_lane: "ParseHexU64 (hex_lane v) = Some v"
  using parse_hex_digits [of 16 v] by (simp add: ParseHexU64_def hex_lane_digits drop_bit_all)

lemma foldl_append_map: "foldl (\<lambda>o1 i. o1 @ [f i]) out xs = out @ map f xs"
  by (induction xs arbitrary: out) simp_all

lemma AppendHexU64_room:
  "length out + 16 \<le> maxSize \<Longrightarrow> AppendHexU64 maxSize v out = out @ hex_lane v"
  by (simp add: AppendHexU64_def AppendFixedHexImpl_def Let_def foldl_append_map hex_lane_digits mult.commute)

lemma encode_prefix:
  "k * 16 \<le> maxSize \<Longrightarrow> foldl (\<lambda>encoded lane. AppendHexU64 maxSize (h ! lane) encoded) [] [0..<k]
     = concat (map (\<lambda>i. hex_lane (h ! i)) [0..<k])"
proof (induction k)
  case (Suc k)
  have "length (concat (map (\<lambda>i. hex_lane (h ! i)) [0..<k])) = k * 16"
    by (simp add: length_concat comp_def sum_list_triv)
  then show ?case using Suc by (simp add: AppendHexU64_room)
qed simp

lemma EncodeNameHash_lanes:
  "128 \<le> maxSize \<Longrightarrow> EncodeNameHash maxSize h = concat (map (\<lambda>i. hex_lane (h ! i)) [0..<8])"
  using encode_prefix [of 8 maxSize h] by (simp add: EncodeNameHash_def)

lemma drop_concat_lanes:
  assumes "\<And>x. length (f x) = n"
  shows "drop (k * n) (concat (map f xs)) = concat (map f (drop k xs))"
proof (induction xs arbitrary: k)
  case (Cons x xs)
  then show ?case using assms by (cases k) simp_all
qed simp

lemma decode_lanes_concat:
  "lane + k = length qs \<Longrightarrow> decode_lanes (concat (map hex_lane qs)) lane k = Some (drop lane qs)"
proof (induction k arbitrary: lane)
  case (Suc k)
  then have "lane < length qs" by simp
  then obtain q where d: "drop lane qs = q # drop (lane + 1) qs" by (metis Cons_nth_drop_Suc Suc_eq_plus1)
  then have "take 16 (drop (lane * 16) (concat (map hex_lane qs))) = hex_lane q"
    using drop_concat_lanes [of hex_lane 16 lane qs] by simp
  then show ?case using Suc.IH [of "lane + 1"] Suc.prems d by (simp add: ParseHexU64_hex_lane)
qed simp

lemma lanes_map: "length h = 8 \<Longrightarrow> map (\<lambda>i. hex_lane (h ! i)) [0..<8] = map hex_lane h"
  by (simp add: list_eq_iff_nth_eq)

lemma decode_encode:
  assumes "length h = 8" "128 \<le> maxSize"
  shows "DecodeNameHash (EncodeNameHash maxSize h) = Some h"
proof -
  have e: "EncodeNameHash maxSize h = concat (map hex_lane h)"
    using EncodeNameHash_lanes [OF assms(2)] lanes_map [OF assms(1)] by simp
  have "length (concat (map hex_lane h)) = 128"
    using assms(1) by (simp add: length_concat comp_def sum_list_triv)
  then show ?thesis using decode_lanes_concat [of 0 8 h] assms(1) by (simp add: DecodeNameHash_def e)
qed

text \<open>The separated form is the list of lanes joined by underscores.\<close>

fun debug_text :: "u64 list \<Rightarrow> u8 list" where
  "debug_text [] = []"
| "debug_text (q # qs) = hex_lane q @ (case qs of [] \<Rightarrow> [] | _ \<Rightarrow> 0x5F # debug_text qs)"

lemma decode_debug_text:
  "lane > 0 \<Longrightarrow> qs \<noteq> [] \<Longrightarrow> decode_debug_lanes (pre @ 0x5F # debug_text qs) (length pre) lane (length qs)
     = Some (qs, length (pre @ 0x5F # debug_text qs))"
proof (induction qs arbitrary: pre lane)
  case (Cons q qs)
  let ?t = "pre @ 0x5F # debug_text (q # qs)"
  have lane: "take 16 (drop (length pre + 1) ?t) = hex_lane q" by simp
  show ?case
  proof (cases "qs = []")
    case True
    then show ?thesis using Cons.prems lane by (simp add: ParseHexU64_hex_lane Let_def)
  next
    case False
    then have dt: "debug_text (q # qs) = hex_lane q @ 0x5F # debug_text qs" by (cases qs) simp_all
    have "decode_debug_lanes ((pre @ 0x5F # hex_lane q) @ 0x5F # debug_text qs) (length (pre @ 0x5F # hex_lane q)) (lane + 1) (length qs)
        = Some (qs, length ((pre @ 0x5F # hex_lane q) @ 0x5F # debug_text qs))"
      using False by (intro Cons.IH) simp_all
    then have rest: "decode_debug_lanes (pre @ 0x5F # hex_lane q @ 0x5F # debug_text qs) (17 + length pre) (Suc lane) (length qs)
        = Some (qs, length ?t)" unfolding dt by (simp add: add.commute [of "length pre"])
    show ?thesis unfolding dt using Cons.prems rest dt by (simp del: debug_text.simps add: ParseHexU64_hex_lane Let_def)
  qed
qed simp

lemma decode_debug_first:
  assumes "qs \<noteq> []"
  shows "decode_debug_lanes (debug_text (q # qs)) 0 0 (Suc (length qs)) = Some (q # qs, length (debug_text (q # qs)))"
proof -
  have dt: "debug_text (q # qs) = hex_lane q @ 0x5F # debug_text qs" using assms by (cases qs) simp_all
  then show ?thesis using decode_debug_text [of 1 qs "hex_lane q"] assms
    by (simp add: ParseHexU64_hex_lane Let_def)
qed

lemma HashToDebugString_text:
  "length h = 8 \<Longrightarrow> dstSize > 135 \<Longrightarrow> HashToDebugString h dstSize = debug_text h"
  by (auto simp: HashToDebugString_def upt_rec length_Suc_conv eval_nat_numeral)

lemma debug_text_length: "qs \<noteq> [] \<Longrightarrow> length (debug_text qs) = 17 * length qs - 1"
proof (induction qs)
  case (Cons q qs)
  then show ?case by (cases qs) simp_all
qed simp

text \<open>C31: The text forms of a name hash are faithful: decoding what \<open>EncodeNameHash\<close> wrote (128 digits), or
  the underscore-separated text of \<open>HashToDebugString\<close> (in a buffer with room), returns the hash.\<close>

theorem name_hash_text_roundtrip:
  assumes "length h = 8" and "128 \<le> maxSize" and "135 < dstSize"
  shows "DecodeNameHash (EncodeNameHash maxSize h) = Some h
    \<and> DecodeDebugHashText (HashToDebugString h dstSize) = Some h"
proof -
  obtain q qs where h: "h = q # qs" "length qs = 7" using assms(1) by (cases h) auto
  then have ne: "qs \<noteq> []" by auto
  have "length (debug_text h) = 135" using debug_text_length [of h] assms(1) h by auto
  then have "DecodeDebugHashText (debug_text h) = Some h"
    using decode_debug_first [OF ne, of q] h by (simp add: DecodeDebugHashText_def)
  then show ?thesis using decode_encode assms HashToDebugString_text by simp
qed

theorem name_hash_text_roundtrip_witness:
  "length (LANE_SEEDS) = 8 \<and> (128 :: nat) \<le> 256 \<and> DecodeNameHash (EncodeNameHash 256 LANE_SEEDS) = Some LANE_SEEDS"
  using name_hash_text_roundtrip [of LANE_SEEDS 256 256] by (simp add: LANE_SEEDS_def)

section \<open>Names\<close>

lemma UpdateText_foldl:
  "UpdateCanonicalNameHashText h t = (if 0 \<in> set t
     then (False, foldl UpdateCanonicalNameHashLanes h (takeWhile (\<lambda>c. c \<noteq> 0) t))
     else (True, foldl UpdateCanonicalNameHashLanes h t))"
  by (induction h t rule: UpdateCanonicalNameHashText.induct) auto

lemma update_lanes_canonical:
  "Canonicalize c = Canonicalize d \<Longrightarrow> UpdateCanonicalNameHashLanes h c = UpdateCanonicalNameHashLanes h d"
  by (simp add: UpdateCanonicalNameHashLanes_def)

lemma foldl_lanes_canonical:
  "map Canonicalize s = map Canonicalize t \<Longrightarrow>
   foldl UpdateCanonicalNameHashLanes h s = foldl UpdateCanonicalNameHashLanes h t"
proof (induction s arbitrary: t h)
  case (Cons c s)
  then obtain d ds where "t = d # ds" "Canonicalize c = Canonicalize d" "map Canonicalize s = map Canonicalize ds" by auto
  then show ?case using Cons.IH [of ds] update_lanes_canonical [of c d h] by simp
qed simp

lemma foldl_lanes_length: "length (foldl UpdateCanonicalNameHashLanes h t) = length h"
  by (induction t arbitrary: h) (simp_all add: UpdateCanonicalNameHashLanes_def)

lemma less_lanes_irrefl: "\<not> less_lanes a a"
  by (induction a) simp_all

lemma less_lanes_trans: "less_lanes a b \<Longrightarrow> less_lanes b c \<Longrightarrow> less_lanes a c"
proof (induction a b arbitrary: c rule: less_lanes.induct)
  case (1 a as b bs)
  then show ?case by (cases c) (auto split: if_splits)
qed simp_all

lemma less_lanes_total: "length a = length b \<Longrightarrow> a \<noteq> b \<Longrightarrow> less_lanes a b \<or> less_lanes b a"
  by (induction a b rule: less_lanes.induct) (auto split: if_splits)

lemma EqualHash_iff: "length a = 8 \<Longrightarrow> length b = 8 \<Longrightarrow> EqualHash a b \<longleftrightarrow> a = b"
  by (auto simp: EqualHash_def list_all_iff list_eq_iff_nth_eq)

text \<open>C32: Names identify texts up to canonical form: texts that differ only in ASCII case and in the
  direction of their slashes have equal hashes, as C strings, as views and when derived from a
  base; a view with an embedded null has no name; and the ordering of names is a strict linear
  order that agrees with their equality.\<close>

theorem name_hash_canonical_order:
  assumes "map Canonicalize s = map Canonicalize t" and "0 \<notin> set s" "0 \<notin> set t"
    and "length a = 8" "length b = 8" "length c = 8"
  shows "ComputeNameHash_cstr (Some s) = ComputeNameHash_cstr (Some t)
    \<and> ComputeNameHash_view s = ComputeNameHash_view t
    \<and> ComputeNameHash_view s = ComputeNameHash_cstr (Some s)
    \<and> DeriveName a s = DeriveName a t
    \<and> ComputeNameHash_view (s @ 0 # t) = zero_hash
    \<and> \<not> LessNameHash a a \<and> (LessNameHash a b \<and> LessNameHash b c \<longrightarrow> LessNameHash a c)
    \<and> (LessNameHash a b \<or> EqualHash a b \<or> LessNameHash b a)"
proof -
  note f = foldl_lanes_canonical [OF assms(1)]
  have "s = [] \<longleftrightarrow> t = []" using assms(1) by auto
  then show ?thesis
    using f assms less_lanes_irrefl less_lanes_trans [of a b c] less_lanes_total [of a b] EqualHash_iff [of a b]
    by (auto simp: ComputeNameHash_cstr_def ComputeNameHash_view_def DeriveName_def UpdateText_foldl LessNameHash_def
        split: option.splits)
qed

theorem name_hash_canonical_order_witness:
  "ComputeNameHash_view [0x41, 0x5C, 0x42] = ComputeNameHash_view [0x61, 0x2F, 0x62]"
  using name_hash_canonical_order [of "[0x41, 0x5C, 0x42]" "[0x61, 0x2F, 0x62]" LANE_SEEDS LANE_SEEDS LANE_SEEDS]
  by (simp add: Canonicalize_def ToAsciiLower_def LANE_SEEDS_def)

end
