(* ===== verification/Compact_String.thy ===== *)
theory Compact_String
  imports Text_Utils
begin

text \<open>
  The inline string of \<^verbatim>\<open>src/global/compact_string.h\<close> for byte characters: 255 bytes of storage
  and a one-byte length, always null-terminated, canonicalised on the way in. A source text that
  does not alias the string is the list of its bytes; assigning a view of the string itself is
  modelled separately, because \<open>assign\<close> clears before it reads.
\<close>

section \<open>State\<close>

record ACompactString =
  m_storage :: "u8 list"
  m_size :: u8

definition s_BufferLength :: nat where "s_BufferLength = 256 - 1"
definition s_MaxLength :: nat where "s_MaxLength = s_BufferLength - 1"

definition CompactString_new :: ACompactString where
  "CompactString_new = \<lparr>m_storage = replicate s_BufferLength 0, m_size = 0\<rparr>"

definition cs_clear :: "ACompactString \<Rightarrow> ACompactString" where
  "cs_clear s = s\<lparr>m_size := 0, m_storage := (m_storage s)[0 := 0]\<rparr>"

definition remainingCapacity :: "ACompactString \<Rightarrow> nat" where
  "remainingCapacity s = s_MaxLength - unat (m_size s)"

definition cs_view :: "ACompactString \<Rightarrow> u8 list" where
  "cs_view s = take (unat (m_size s)) (m_storage s)"

section \<open>Operations\<close>

text \<open>The copying loops write from position \<open>i\<close> on and stop at a null character.\<close>

fun copy_chars :: "u8 list \<Rightarrow> nat \<Rightarrow> u8 list \<Rightarrow> u8 list \<times> bool" where
  "copy_chars storage i [] = (storage, True)"
| "copy_chars storage i (c # cs) =
     (if c = 0 then (storage, False) else copy_chars (storage[i := Canonicalize c]) (i + 1) cs)"

definition cs_assign :: "ACompactString \<Rightarrow> u8 list \<Rightarrow> bool \<times> ACompactString" where
  "cs_assign s0 t =
     (let s = cs_clear s0
      in if t = [] then (True, s)
         else if length t > s_MaxLength then (False, s)
         else let (storage, ok) = copy_chars (m_storage s) 0 t
              in if \<not> ok then (False, cs_clear (s\<lparr>m_storage := storage\<rparr>))
                 else let sz = of_nat (length t)
                      in (True, s\<lparr>m_size := sz, m_storage := storage[unat sz := 0]\<rparr>))"

definition cs_append :: "ACompactString \<Rightarrow> u8 list \<Rightarrow> bool \<times> ACompactString" where
  "cs_append s t =
     (if t = [] then (True, s)
      else if length t > remainingCapacity s then (False, s)
      else let oldSize = m_size s; (storage, ok) = copy_chars (m_storage s) (unat oldSize) t
           in if \<not> ok then (False, s\<lparr>m_storage := storage[unat oldSize := 0]\<rparr>)
              else let sz = oldSize + of_nat (length t)
                   in (True, s\<lparr>m_size := sz, m_storage := storage[unat sz := 0]\<rparr>))"

definition pushBack :: "ACompactString \<Rightarrow> u8 \<Rightarrow> bool \<times> ACompactString" where
  "pushBack s ch =
     (if ch = 0 \<or> remainingCapacity s = 0 then (False, s)
      else let storage = (m_storage s)[unat (m_size s) := Canonicalize ch]; sz = m_size s + 1
           in (True, s\<lparr>m_size := sz, m_storage := storage[unat sz := 0]\<rparr>))"

definition cs_substr :: "ACompactString \<Rightarrow> nat \<Rightarrow> nat \<Rightarrow> ACompactString" where
  "cs_substr s pos count =
     (let result = CompactString_new
      in if pos \<ge> unat (m_size s) then result
         else let remaining = unat (m_size s) - pos;
                  copiedCount = (if count = 2 ^ 64 - 1 \<or> count > remaining then remaining else count);
                  storage = take copiedCount (drop pos (m_storage s)) @ drop copiedCount (m_storage result);
                  sz = of_nat copiedCount
              in \<lparr>m_storage = storage[unat sz := 0], m_size = sz\<rparr>)"

definition cs_plus :: "ACompactString \<Rightarrow> u8 list \<Rightarrow> ACompactString" where
  "cs_plus lhs rhs = snd (cs_append lhs rhs)"

definition cs_equal :: "ACompactString \<Rightarrow> ACompactString \<Rightarrow> bool" where
  "cs_equal lhs rhs = (cs_view lhs = cs_view rhs)"

text \<open>\<open>assign\<close> given a view into the string's own storage: the loop reads what \<open>clear\<close> and the loop itself
  have written.\<close>

fun copy_own_chars :: "u8 list \<Rightarrow> nat \<Rightarrow> nat \<Rightarrow> nat \<Rightarrow> u8 list \<times> bool" where
  "copy_own_chars storage pos i 0 = (storage, True)"
| "copy_own_chars storage pos i (Suc n) =
     (let c = storage ! (pos + i)
      in if c = 0 then (storage, False) else copy_own_chars (storage[i := Canonicalize c]) pos (i + 1) n)"

definition cs_assign_own :: "ACompactString \<Rightarrow> nat \<Rightarrow> nat \<Rightarrow> bool \<times> ACompactString" where
  "cs_assign_own s0 pos count =
     (let s = cs_clear s0
      in if count = 0 then (True, s)
         else if count > s_MaxLength then (False, s)
         else let (storage, ok) = copy_own_chars (m_storage s) pos 0 count
              in if \<not> ok then (False, cs_clear (s\<lparr>m_storage := storage\<rparr>))
                 else let sz = of_nat count
                      in (True, s\<lparr>m_size := sz, m_storage := storage[unat sz := 0]\<rparr>))"

section \<open>Invariant\<close>

definition is_canonical :: "u8 \<Rightarrow> bool" where
  "is_canonical c \<longleftrightarrow> c \<noteq> 0 \<and> c \<noteq> 0x5C \<and> \<not> (0x41 \<le> c \<and> c \<le> 0x5A)"

definition cs_inv :: "ACompactString \<Rightarrow> bool" where
  "cs_inv s \<longleftrightarrow> length (m_storage s) = s_BufferLength \<and> unat (m_size s) \<le> s_MaxLength
     \<and> m_storage s ! unat (m_size s) = 0 \<and> (\<forall>c \<in> set (cs_view s). is_canonical c)"

lemma lengths [simp]: "s_BufferLength = 255" "s_MaxLength = 254"
  by (simp_all add: s_BufferLength_def s_MaxLength_def)

lemma lower_nat:
  assumes "0x41 \<le> c" "c \<le> (0x5A :: u8)"
  shows "unat (c + 0x20) = unat c + 0x20"
  using assms by (subst unat_plus_no_overflow) (simp_all add: word_le_nat_alt)

lemma Canonicalize_canonical: "c \<noteq> 0 \<Longrightarrow> is_canonical (Canonicalize c)"
proof (cases "0x41 \<le> c \<and> c \<le> 0x5A")
  case True
  then have "unat (c + 0x20) = unat c + 0x20" using lower_nat by blast
  moreover have "0x41 \<le> unat c" "unat c \<le> 0x5A" using True by (simp_all add: word_le_nat_alt)
  ultimately have "unat (c + 0x20) \<noteq> 0x5C" "\<not> unat (c + 0x20) \<le> 0x5A" "unat (c + 0x20) \<noteq> 0" by simp_all
  then have "is_canonical (c + 0x20)" by (auto simp: is_canonical_def word_le_nat_alt)
  moreover have "c \<noteq> 0x5C" using True by auto
  ultimately show ?thesis using True by (simp add: Canonicalize_def ToAsciiLower_def)
next
  case False
  assume "c \<noteq> 0"
  then show ?thesis using False by (auto simp: Canonicalize_def ToAsciiLower_def is_canonical_def)
qed

lemma Canonicalize_idem: "Canonicalize (Canonicalize c) = Canonicalize c"
proof (cases "c = 0")
  case True
  then show ?thesis by (simp add: Canonicalize_def ToAsciiLower_def)
next
  case False
  then have "is_canonical (Canonicalize c)" by (rule Canonicalize_canonical)
  then show ?thesis by (auto simp: is_canonical_def Canonicalize_def [of "Canonicalize c"] ToAsciiLower_def)
qed

lemma copy_chars_spec:
  assumes "i + length t \<le> length st"
  shows "length (fst (copy_chars st i t)) = length st
    \<and> (snd (copy_chars st i t) \<longleftrightarrow> 0 \<notin> set t)
    \<and> take i (fst (copy_chars st i t)) = take i st
    \<and> (0 \<notin> set t \<longrightarrow> take (i + length t) (fst (copy_chars st i t)) = take i st @ map Canonicalize t)"
  using assms
proof (induction st i t rule: copy_chars.induct)
  case (1 st i)
  then show ?case by simp
next
  case (2 st i c t)
  show ?case
  proof (cases "c = 0")
    case True
    then show ?thesis by simp
  next
    case False
    let ?st = "st[i := Canonicalize c]"
    have IH: "length (fst (copy_chars ?st (i + 1) t)) = length ?st
      \<and> (snd (copy_chars ?st (i + 1) t) \<longleftrightarrow> 0 \<notin> set t)
      \<and> take (i + 1) (fst (copy_chars ?st (i + 1) t)) = take (i + 1) ?st
      \<and> (0 \<notin> set t \<longrightarrow> take (i + 1 + length t) (fst (copy_chars ?st (i + 1) t)) = take (i + 1) ?st @ map Canonicalize t)"
      using 2 False by simp
    have "i < length st" using 2(2) by simp
    then have tk: "take (i + 1) ?st = take i st @ [Canonicalize c]" by (simp add: take_Suc_conv_app_nth)
    have "take i (fst (copy_chars ?st (i + 1) t)) = take i (take (i + 1) (fst (copy_chars ?st (i + 1) t)))" by simp
    also have "\<dots> = take i st" using IH tk \<open>i < length st\<close> by simp
    finally have "take i (fst (copy_chars ?st (i + 1) t)) = take i st" .
    then show ?thesis using IH False tk by auto
  qed
qed

lemma unat_size: "n \<le> 254 \<Longrightarrow> unat (of_nat n :: u8) = n"
  by (simp add: unat_of_nat_small)

lemma finish_write:
  assumes "length st = 255" "n \<le> 254" "take n st = xs" "\<forall>c \<in> set xs. is_canonical c"
  shows "cs_inv \<lparr>m_storage = st[n := 0], m_size = of_nat n\<rparr> \<and> cs_view \<lparr>m_storage = st[n := 0], m_size = of_nat n\<rparr> = xs"
  using assms by (auto simp: cs_inv_def cs_view_def unat_size)

lemma cs_inv_clear: "cs_inv s \<Longrightarrow> cs_inv (cs_clear s) \<and> cs_view (cs_clear s) = []"
  by (simp add: cs_inv_def cs_clear_def cs_view_def)

lemma clear_storage: "length (m_storage s) = 255 \<Longrightarrow> cs_inv (cs_clear s) \<and> cs_view (cs_clear s) = []"
  by (simp add: cs_inv_def cs_clear_def cs_view_def)

lemma all_canonical: "0 \<notin> set t \<Longrightarrow> \<forall>c \<in> set (map Canonicalize t). is_canonical c"
  using Canonicalize_canonical by (metis image_iff set_map)

lemma cs_assign_ok:
  assumes inv: "cs_inv s"
  shows "cs_inv (snd (cs_assign s t)) \<and> (fst (cs_assign s t) \<longleftrightarrow> length t \<le> s_MaxLength \<and> 0 \<notin> set t)
    \<and> cs_view (snd (cs_assign s t)) = (if length t \<le> s_MaxLength \<and> 0 \<notin> set t then map Canonicalize t else [])"
proof -
  let ?s = "cs_clear s"
  have c: "cs_inv ?s" "cs_view ?s = []" using cs_inv_clear [OF inv] by simp_all
  have len: "length (m_storage ?s) = 255" using c by (simp add: cs_inv_def)
  show ?thesis
  proof (cases "t = [] \<or> length t > 254")
    case True
    then show ?thesis using c by (auto simp: cs_assign_def Let_def)
  next
    case False
    obtain st ok where st: "copy_chars (m_storage ?s) 0 t = (st, ok)" by fastforce
    have sp: "length st = 255" "ok \<longleftrightarrow> 0 \<notin> set t" "0 \<notin> set t \<Longrightarrow> take (length t) st = map Canonicalize t"
      using copy_chars_spec [of 0 t "m_storage ?s"] st len False by auto
    show ?thesis
    proof (cases ok)
      case True
      then have "cs_assign s t = (True, \<lparr>m_storage = st[length t := 0], m_size = of_nat (length t)\<rparr>)"
        using False st unat_size [of "length t"] by (simp add: cs_assign_def Let_def)
      then show ?thesis
        using finish_write [OF sp(1) _ sp(3) all_canonical] True sp(2) False by simp
    next
      case nok: False
      then have "cs_assign s t = (False, cs_clear (?s\<lparr>m_storage := st\<rparr>))"
        using False st by (simp add: cs_assign_def Let_def)
      then show ?thesis using clear_storage [of "?s\<lparr>m_storage := st\<rparr>"] sp nok by simp
    qed
  qed
qed

lemma cs_append_ok:
  assumes inv: "cs_inv s"
  shows "cs_inv (snd (cs_append s t))
    \<and> (fst (cs_append s t) \<longleftrightarrow> length (cs_view s) + length t \<le> s_MaxLength \<and> 0 \<notin> set t)
    \<and> cs_view (snd (cs_append s t)) = cs_view s @
        (if length (cs_view s) + length t \<le> s_MaxLength \<and> 0 \<notin> set t then map Canonicalize t else [])"
proof -
  let ?n = "unat (m_size s)"
  have I: "length (m_storage s) = 255" "?n \<le> 254" "m_storage s ! ?n = 0" "\<forall>c \<in> set (cs_view s). is_canonical c"
    using inv by (simp_all add: cs_inv_def)
  have view: "cs_view s = take ?n (m_storage s)" "length (cs_view s) = ?n" using I by (simp_all add: cs_view_def)
  show ?thesis
  proof (cases "t = [] \<or> length t > remainingCapacity s")
    case True
    then show ?thesis using inv view(2) I(2) by (auto simp: cs_append_def remainingCapacity_def)
  next
    case False
    then have room: "?n + length t \<le> 254" using I(2) by (auto simp: remainingCapacity_def)
    obtain st ok where st: "copy_chars (m_storage s) ?n t = (st, ok)" by fastforce
    have sp: "length st = 255" "ok \<longleftrightarrow> 0 \<notin> set t" "take ?n st = cs_view s"
      "0 \<notin> set t \<Longrightarrow> take (?n + length t) st = cs_view s @ map Canonicalize t"
      using copy_chars_spec [of ?n t "m_storage s"] st I(1) room view(1) by auto
    show ?thesis
    proof (cases ok)
      case True
      have sz: "m_size s + of_nat (length t) = of_nat (?n + length t)" by simp
      then have "cs_append s t = (True, \<lparr>m_storage = st[?n + length t := 0], m_size = of_nat (?n + length t)\<rparr>)"
        using False st True unat_size [OF room] by (simp add: cs_append_def Let_def del: of_nat_add)
      moreover have "\<forall>c \<in> set (cs_view s @ map Canonicalize t). is_canonical c"
        using I(4) all_canonical sp(2) True by auto
      ultimately show ?thesis
        using finish_write [OF sp(1) room sp(4)] True sp(2) room view(2) by simp
    next
      case nok: False
      let ?s = "s\<lparr>m_storage := st[?n := 0]\<rparr>"
      have "cs_append s t = (False, ?s)" using False st nok by (simp add: cs_append_def Let_def)
      moreover have "cs_inv ?s \<and> cs_view ?s = cs_view s"
        using sp I by (simp add: cs_inv_def cs_view_def)
      ultimately show ?thesis using nok sp(2) by simp
    qed
  qed
qed

text \<open>\<open>pushBack\<close> is \<open>append\<close> of one character.\<close>

lemma pushBack_append: "cs_inv s \<Longrightarrow> pushBack s ch = cs_append s [ch]"
proof -
  assume inv: "cs_inv s"
  then have "(m_storage s)[unat (m_size s) := 0] = m_storage s" by (metis cs_inv_def list_update_id)
  then show ?thesis by (auto simp: pushBack_def cs_append_def Let_def)
qed

lemma cs_substr_ok:
  assumes inv: "cs_inv s"
  shows "cs_inv (cs_substr s pos count) \<and> cs_view (cs_substr s pos count)
    = (if count = 2 ^ 64 - 1 then drop pos (cs_view s) else take count (drop pos (cs_view s)))"
proof -
  let ?n = "unat (m_size s)"
  have I: "length (m_storage s) = 255" "?n \<le> 254" "\<forall>c \<in> set (cs_view s). is_canonical c"
    using inv by (simp_all add: cs_inv_def)
  show ?thesis
  proof (cases "pos < ?n")
    case False
    then show ?thesis by (simp add: cs_substr_def cs_view_def CompactString_new_def cs_inv_def)
  next
    case True
    define k where "k = (if count = 2 ^ 64 - 1 \<or> count > ?n - pos then ?n - pos else count)"
    let ?st = "take k (drop pos (m_storage s)) @ drop k (replicate 255 0)"
    have k: "k \<le> ?n - pos" "k \<le> 254" using I(2) by (auto simp: k_def)
    have "take k (drop pos (cs_view s)) = take k (drop pos (m_storage s))"
      using k True by (simp add: cs_view_def drop_take)
    then have tk: "take k ?st = take k (drop pos (cs_view s))" using I(1,2) k True by simp
    have can: "\<forall>c \<in> set (take k (drop pos (cs_view s))). is_canonical c"
      using I(3) by (meson in_set_dropD in_set_takeD)
    have "cs_substr s pos count = \<lparr>m_storage = ?st[k := 0], m_size = of_nat k\<rparr>"
    proof -
      have "cs_substr s pos count = (let storage = take k (drop pos (m_storage s)) @ drop k (replicate 255 0); sz = of_nat k
          in \<lparr>m_storage = storage[unat sz := 0], m_size = sz\<rparr>)"
        using True unfolding cs_substr_def Let_def k_def CompactString_new_def by simp
      then show ?thesis using unat_size [OF k(2)] by (simp add: Let_def)
    qed
    moreover have "length ?st = 255" using I k True by simp
    moreover have "take k (drop pos (cs_view s))
        = (if count = 2 ^ 64 - 1 then drop pos (cs_view s) else take count (drop pos (cs_view s)))"
      using I(1,2) by (auto simp: k_def cs_view_def)
    ultimately show ?thesis using finish_write [OF _ k(2) tk can] by simp
  qed
qed

text \<open>C30: The inline string keeps its invariant (null-terminated, at most 254 canonical characters) through
  every operation. Assigning succeeds exactly for texts of at most 254 characters without a null
  and then holds their canonical form, otherwise it is left empty; appending succeeds exactly when
  the text fits and has no null and otherwise leaves the text as it was; \<open>substr\<close> is the
  substring.\<close>

theorem compact_string_correct:
  assumes "cs_inv s"
  shows "cs_inv (snd (cs_assign s t)) \<and> (fst (cs_assign s t) \<longleftrightarrow> length t \<le> s_MaxLength \<and> 0 \<notin> set t)
    \<and> cs_view (snd (cs_assign s t)) = (if fst (cs_assign s t) then map Canonicalize t else [])
    \<and> cs_inv (snd (cs_append s t))
    \<and> (fst (cs_append s t) \<longleftrightarrow> length (cs_view s) + length t \<le> s_MaxLength \<and> 0 \<notin> set t)
    \<and> cs_view (snd (cs_append s t)) = (if fst (cs_append s t) then cs_view s @ map Canonicalize t else cs_view s)
    \<and> pushBack s ch = cs_append s [ch]
    \<and> cs_inv (cs_substr s pos count) \<and> (count < 2 ^ 64 - 1 \<longrightarrow> cs_view (cs_substr s pos count) = take count (drop pos (cs_view s)))"
  using cs_assign_ok [OF assms, of t] cs_append_ok [OF assms, of t] pushBack_append [OF assms] cs_substr_ok [OF assms]
  by auto

lemma cs_inv_new: "cs_inv CompactString_new"
  by (simp add: cs_inv_def CompactString_new_def cs_view_def)

theorem compact_string_correct_witness:
  "cs_inv CompactString_new \<and> cs_view (snd (cs_assign CompactString_new [0x41, 0x5C, 0x62])) = [0x61, 0x2F, 0x62]"
  using compact_string_correct [OF cs_inv_new, of "[0x41, 0x5C, 0x62]" 0 0 0] cs_inv_new
  by (simp add: Canonicalize_def ToAsciiLower_def)

text \<open>Assigning a non-empty prefix of the string to the string itself fails and clears it, because the
  string is cleared before the text is read.\<close>

lemma assign_own_prefix_fails:
  assumes "cs_inv s" "0 < count" "count \<le> unat (m_size s)"
  shows "\<not> fst (cs_assign_own s 0 count) \<and> cs_view (snd (cs_assign_own s 0 count)) = []"
proof -
  have len: "length (m_storage (cs_clear s)) = 255" and le: "count \<le> 254"
    using assms by (simp_all add: cs_inv_def cs_clear_def)
  obtain n where n: "count = Suc n" using assms(2) by (cases count) auto
  have "m_storage (cs_clear s) ! 0 = 0" using assms(1) by (simp add: cs_clear_def cs_inv_def)
  then have "copy_own_chars (m_storage (cs_clear s)) 0 0 count = (m_storage (cs_clear s), False)"
    by (simp add: n)
  then have "cs_assign_own s 0 count = (False, cs_clear (cs_clear s))"
    using n le by (simp add: cs_assign_own_def Let_def)
  then show ?thesis using clear_storage [OF len] by simp
qed

end
