(* ===== verification/Binary.thy ===== *)
theory Binary
  imports Compact_String
begin

text \<open>
  Binary serialisation helpers of \<^verbatim>\<open>src/global/binary.h\<close>. A byte container is the list of its
  bytes, an offset into it a natural number; every byte count and reserve size that the code
  computes stays at the width of \<open>usize\<close> (64 bits), with its limit written out where a container
  size is compared to it. Integers are stored in little-endian order, as on the engine's x86-64
  targets. The size and the memory image of a trivially copyable element type are arguments of
  the vector operations.
\<close>

section \<open>Byte images of integers\<close>

fun le_bytes :: "nat \<Rightarrow> 'a::len word \<Rightarrow> u8 list" where
  "le_bytes 0 w = []"
| "le_bytes (Suc n) w = ucast w # le_bytes n (drop_bit 8 w)"

fun le_value :: "u8 list \<Rightarrow> 'a::len word" where
  "le_value [] = 0"
| "le_value (b # bs) = ucast b OR push_bit 8 (le_value bs)"

section \<open>Bytes\<close>

definition CanAppendBytes :: "u8 list \<Rightarrow> nat \<Rightarrow> bool" where
  "CanAppendBytes outBinary byteCount = (length outBinary \<le> usize_max - byteCount)"

definition AppendBytesNoReserveUnchecked :: "u8 list \<Rightarrow> u8 list \<Rightarrow> u8 list" where
  "AppendBytesNoReserveUnchecked outBinary bytes = (if bytes = [] then outBinary else outBinary @ bytes)"

definition AppendBytesUnchecked :: "u8 list \<Rightarrow> u8 list \<Rightarrow> u8 list" where
  "AppendBytesUnchecked outBinary bytes =
     (if bytes = [] then outBinary else AppendBytesNoReserveUnchecked outBinary bytes)"

definition CanReadBytes :: "u8 list \<Rightarrow> nat \<Rightarrow> nat \<Rightarrow> bool" where
  "CanReadBytes binary offset byteCount =
     (if offset > length binary then False else length binary - offset \<ge> byteCount)"

text \<open>\<open>ReadBytes\<close>: the bytes and the advanced offset, or \<open>None\<close> with the offset unchanged.\<close>

definition ReadBytes :: "u8 list \<Rightarrow> nat \<Rightarrow> nat \<Rightarrow> (u8 list \<times> nat) option" where
  "ReadBytes binary offset byteCount =
     (if \<not> CanReadBytes binary offset byteCount then None
      else Some (take byteCount (drop offset binary), offset + byteCount))"

definition CanStoreValueCount :: "nat option \<Rightarrow> nat \<Rightarrow> bool" where
  "CanStoreValueCount max_size count = (case max_size of Some m \<Rightarrow> count \<le> m | None \<Rightarrow> True)"

datatype binary_error = AppendPOD_size_overflow

definition AppendPOD :: "u8 list \<Rightarrow> u8 list \<Rightarrow> binary_error + u8 list" where
  "AppendPOD outBinary podBytes =
     (if \<not> CanAppendBytes outBinary (length podBytes) then Inl AppendPOD_size_overflow
      else Inr (AppendBytesNoReserveUnchecked outBinary podBytes))"

definition ReadPOD :: "u8 list \<Rightarrow> nat \<Rightarrow> nat \<Rightarrow> (u8 list \<times> nat) option" where
  "ReadPOD binary offset sizeofPod = ReadBytes binary offset sizeofPod"

definition AppendTextBytesNoReserveUnchecked :: "u8 list \<Rightarrow> u8 list \<Rightarrow> u8 list" where
  "AppendTextBytesNoReserveUnchecked outBinary t =
     (if t \<noteq> [] then AppendBytesNoReserveUnchecked outBinary t else outBinary)"

section \<open>Length-prefixed strings\<close>

definition ReadLengthPrefixedString :: "u8 list \<Rightarrow> nat \<Rightarrow> (u8 list \<times> nat) option" where
  "ReadLengthPrefixedString binary offset =
     (case ReadPOD binary offset 4 of
        None \<Rightarrow> None
      | Some (podBytes, cursor) \<Rightarrow>
          let textLength = unat (le_value podBytes :: u32)
          in if \<not> CanReadBytes binary cursor textLength then None
             else Some (take textLength (drop cursor binary), cursor + textLength))"

definition AppendString :: "u8 list \<Rightarrow> u8 list \<Rightarrow> bool \<times> u8 list" where
  "AppendString outBinary t =
     (if length t > 2 ^ 32 - 1 then (False, outBinary)
      else let textLength = of_nat (length t) :: u32; byteCount = 4 + unat textLength
           in if \<not> CanAppendBytes outBinary byteCount then (False, outBinary)
              else (True, AppendBytesNoReserveUnchecked
                            (AppendBytesNoReserveUnchecked outBinary (le_bytes 4 textLength))
                            (take (unat textLength) t)))"

text \<open>The output string and the offset are only written on success.\<close>

definition ReadString :: "u8 list \<Rightarrow> nat \<Rightarrow> u8 list \<Rightarrow> bool \<times> nat \<times> u8 list" where
  "ReadString binary offset outText =
     (case ReadLengthPrefixedString binary offset of
        None \<Rightarrow> (False, offset, outText)
      | Some (parsedText, cursor) \<Rightarrow> (True, cursor, parsedText))"

definition ReadString_compact :: "u8 list \<Rightarrow> nat \<Rightarrow> ACompactString \<Rightarrow> bool \<times> nat \<times> ACompactString" where
  "ReadString_compact binary offset outText =
     (case ReadLengthPrefixedString binary offset of
        None \<Rightarrow> (False, offset, outText)
      | Some (parsedTextView, cursor) \<Rightarrow>
          let (ok, parsedText) = cs_assign CompactString_new parsedTextView
          in if \<not> ok then (False, offset, outText) else (True, cursor, parsedText))"

section \<open>Vectors of trivially copyable values\<close>

datatype BinaryVectorPayloadFailure = None_ok | CountOverflow | SourceTruncated | OutputOverflow

definition ComputeBinaryVectorPayloadBytes :: "usize \<Rightarrow> u64 \<Rightarrow> bool \<times> usize" where
  "ComputeBinaryVectorPayloadBytes sizeofValue count =
     (if count > umax div sizeofValue then (False, 0) else (True, count * sizeofValue))"

text \<open>\<open>bulk\<close> is the compile-time choice between one copy into the resized vector and the element loop.\<close>

fun chunks :: "nat \<Rightarrow> nat \<Rightarrow> u8 list \<Rightarrow> u8 list list" where
  "chunks n 0 bytes = []"
| "chunks n (Suc k) bytes = take n bytes # chunks n k (drop n bytes)"

fun read_values :: "nat \<Rightarrow> (u8 list \<Rightarrow> 'v) \<Rightarrow> u8 list \<Rightarrow> nat \<Rightarrow> nat \<Rightarrow> 'v list \<Rightarrow> 'v list \<times> nat" where
  "read_values sizeofValue dec binary cursor 0 out = (out, cursor)"
| "read_values sizeofValue dec binary cursor (Suc k) out =
     read_values sizeofValue dec binary (cursor + sizeofValue) k
       (out @ [dec (take sizeofValue (drop cursor binary))])"

definition ReadBinaryVectorPayload ::
    "bool \<Rightarrow> nat option \<Rightarrow> usize \<Rightarrow> (u8 list \<Rightarrow> 'v) \<Rightarrow> u8 list \<Rightarrow> nat \<Rightarrow> u64
     \<Rightarrow> BinaryVectorPayloadFailure \<times> nat \<times> 'v list" where
  "ReadBinaryVectorPayload bulk max_size sizeofValue dec binary offset count =
     (let (ok, byteCount) = ComputeBinaryVectorPayloadBytes sizeofValue count
      in if \<not> ok then (CountOverflow, offset, [])
         else if \<not> CanReadBytes binary offset (unat byteCount) then (SourceTruncated, offset, [])
         else if \<not> CanStoreValueCount max_size (unat count) then (OutputOverflow, offset, [])
         else if bulk then
           (None_ok, offset + unat byteCount,
            map dec (chunks (unat sizeofValue) (unat count) (take (unat byteCount) (drop offset binary))))
         else let (values, cursor) = read_values (unat sizeofValue) dec binary offset (unat count) []
              in (None_ok, cursor, values))"

definition AppendBinaryVectorPayload ::
    "usize \<Rightarrow> ('v \<Rightarrow> u8 list) \<Rightarrow> u8 list \<Rightarrow> 'v list \<Rightarrow> BinaryVectorPayloadFailure \<times> u8 list" where
  "AppendBinaryVectorPayload sizeofValue enc outBinary values =
     (let (ok, byteCount) = ComputeBinaryVectorPayloadBytes sizeofValue (of_nat (length values))
      in if \<not> ok then (CountOverflow, outBinary)
         else if \<not> CanAppendBytes outBinary (unat byteCount) then (OutputOverflow, outBinary)
         else (None_ok, AppendBytesUnchecked outBinary (concat (map enc values))))"

section \<open>Reserve sizes\<close>

definition AddBinaryReserveBytes :: "usize \<Rightarrow> usize \<Rightarrow> bool \<times> usize" where
  "AddBinaryReserveBytes inOutBytes additionalBytes =
     (if additionalBytes > umax - inOutBytes then (False, inOutBytes) else (True, inOutBytes + additionalBytes))"

definition AddBinaryRepeatedReserveBytes :: "usize \<Rightarrow> usize \<Rightarrow> usize \<Rightarrow> bool \<times> usize" where
  "AddBinaryRepeatedReserveBytes inOutBytes count bytesPerItem =
     (if bytesPerItem \<noteq> 0 \<and> count > umax div bytesPerItem then (False, inOutBytes)
      else AddBinaryReserveBytes inOutBytes (count * bytesPerItem))"

definition AddBinaryStringReserveBytes :: "usize \<Rightarrow> usize \<Rightarrow> bool \<times> usize" where
  "AddBinaryStringReserveBytes inOutBytes textSize =
     (if textSize > 2 ^ 32 - 1 then (False, inOutBytes)
      else let (ok, bytes) = AddBinaryReserveBytes inOutBytes 4
           in if ok then AddBinaryReserveBytes bytes textSize else (False, bytes))"

definition AddBinaryVectorReserveBytes :: "usize \<Rightarrow> usize \<Rightarrow> usize \<Rightarrow> bool \<times> usize" where
  "AddBinaryVectorReserveBytes inOutBytes count sizeofValue =
     AddBinaryRepeatedReserveBytes inOutBytes count sizeofValue"

definition AddStringTableTextReserveBytes :: "usize \<Rightarrow> usize \<Rightarrow> bool \<times> usize" where
  "AddStringTableTextReserveBytes inOutBytes textSize =
     (if textSize = 0 then (False, inOutBytes)
      else if textSize > umax - 1 then (False, inOutBytes)
      else let byteCount = textSize + 1; s_U32Max = 2 ^ 32 - 1 :: usize
           in if byteCount > s_U32Max then (False, inOutBytes)
              else if inOutBytes > s_U32Max - byteCount then (False, inOutBytes)
              else AddBinaryReserveBytes inOutBytes byteCount)"

section \<open>String tables\<close>

text \<open>\<open>textLength\<close> of the scan: it stops at a zero byte or at the end of the table.\<close>

function text_scan :: "u8 list \<Rightarrow> nat \<Rightarrow> nat \<Rightarrow> nat \<Rightarrow> nat" where
  "text_scan binary absoluteOffset remainingBytes textLength =
     (if textLength < remainingBytes \<and> binary ! (absoluteOffset + textLength) \<noteq> 0
      then text_scan binary absoluteOffset remainingBytes (textLength + 1) else textLength)"
  by pat_completeness auto
termination by (relation "measure (\<lambda>(b, a, r, t). r - t)") auto

declare text_scan.simps [simp del]

definition ReadStringTableTextView :: "u8 list \<Rightarrow> nat \<Rightarrow> nat \<Rightarrow> u32 \<Rightarrow> u8 list option" where
  "ReadStringTableTextView binary stringTableOffset stringTableByteCount textOffset =
     (if textOffset = umax \<or> unat textOffset \<ge> stringTableByteCount then None
      else if \<not> CanReadBytes binary stringTableOffset stringTableByteCount then None
      else let relativeOffset = unat textOffset;
               absoluteOffset = stringTableOffset + relativeOffset;
               remainingBytes = stringTableByteCount - relativeOffset;
               textLength = text_scan binary absoluteOffset remainingBytes 0
           in if textLength = 0 \<or> textLength \<ge> remainingBytes then None
              else Some (take textLength (drop absoluteOffset binary)))"

definition AppendStringTableText :: "u8 list \<Rightarrow> u8 list \<Rightarrow> bool \<times> u8 list \<times> u32" where
  "AppendStringTableText outStringTable t =
     (let (ok, reserveBytes) = AddStringTableTextReserveBytes (of_nat (length outStringTable)) (of_nat (length t))
      in if \<not> ok then (False, outStringTable, umax)
         else (True, AppendBytesNoReserveUnchecked outStringTable t @ [0], of_nat (length outStringTable)))"

definition ReadStringTableText ::
    "u8 list \<Rightarrow> nat \<Rightarrow> nat \<Rightarrow> u32 \<Rightarrow> ACompactString \<Rightarrow> bool \<times> ACompactString" where
  "ReadStringTableText binary stringTableOffset stringTableByteCount textOffset outText0 =
     (let outText = cs_clear outText0
      in case ReadStringTableTextView binary stringTableOffset stringTableByteCount textOffset of
           None \<Rightarrow> (False, outText)
         | Some parsedTextView \<Rightarrow>
             let (ok, parsedText) = cs_assign CompactString_new parsedTextView
             in if \<not> ok then (False, outText) else (True, parsedText))"

section \<open>Integer images\<close>

lemma length_le_bytes [simp]: "length (le_bytes n w) = n"
  by (induction n arbitrary: w) simp_all

lemma le_value_bytes: "le_value (le_bytes n w) = (take_bit (8 * n) w :: 'a::len word)"
proof (induction n arbitrary: w)
  case (Suc n)
  have "ucast (ucast w :: u8) OR push_bit 8 (take_bit (8 * n) (drop_bit 8 w)) = take_bit (8 * Suc n) w"
  proof (rule bit_word_eqI)
    fix i
    assume "i < LENGTH('a)"
    then show "bit (ucast (ucast w :: u8) OR push_bit 8 (take_bit (8 * n) (drop_bit 8 w))) i = bit (take_bit (8 * Suc n) w) i"
      by (cases "i < 8") (auto simp: bit_simps)
  qed
  then show ?case using Suc by simp
qed simp

lemma le_bytes_4: "le_bytes 4 w = [ucast w, ucast (drop_bit 8 w), ucast (drop_bit 16 w), ucast (drop_bit 24 w)]"
proof -
  have "(4 :: nat) = Suc (Suc (Suc (Suc 0)))" by simp
  then show ?thesis by (simp only: le_bytes.simps drop_bit_drop_bit) simp
qed

lemma le_u32: "le_value (le_bytes 4 w) = (w :: u32)"
  by (simp add: le_value_bytes take_bit_word_eq_self)

lemma le_u64: "le_value (le_bytes 8 w) = (w :: u64)"
  by (simp add: le_value_bytes take_bit_word_eq_self)

section \<open>Reading and writing bytes\<close>

lemma ReadBytes_bounds:
  "ReadBytes b off n = Some (bs, off') \<Longrightarrow> off' = off + n \<and> off' \<le> length b \<and> length bs = n"
  by (auto simp: ReadBytes_def CanReadBytes_def split: if_splits)

lemma CanReadBytes_middle [simp]: "CanReadBytes (pre @ t @ suf) (length pre) (length t)"
  by (simp add: CanReadBytes_def)

lemma ReadBytes_middle: "ReadBytes (pre @ t @ suf) (length pre) (length t) = Some (t, length pre + length t)"
  by (simp add: ReadBytes_def)

lemma ReadPOD_u32: "ReadPOD (pre @ le_bytes 4 w @ suf) (length pre) 4 = Some (le_bytes 4 w, length pre + 4)"
  using ReadBytes_middle [of pre "le_bytes 4 w" suf] by (simp add: ReadPOD_def)

lemma append_unchecked [simp]: "AppendBytesNoReserveUnchecked a b = a @ b" "AppendBytesUnchecked a b = a @ b"
  by (simp_all add: AppendBytesNoReserveUnchecked_def AppendBytesUnchecked_def)

section \<open>Strings\<close>

lemma AppendString_cases:
  "AppendString out t = (if length t < 2 ^ 32 \<and> length out + 4 + length t < 2 ^ 64
     then (True, out @ le_bytes 4 (of_nat (length t) :: u32) @ t) else (False, out))"
proof (cases "length t < 2 ^ 32")
  case True
  then have "unat (of_nat (length t) :: u32) = length t" by (intro unat_of_nat_small) simp
  then show ?thesis using True
    by (auto simp: AppendString_def CanAppendBytes_def usize_max_def Let_def)
next
  case False
  then show ?thesis by (simp add: AppendString_def)
qed

lemma ReadLengthPrefixedString_appended:
  assumes "length t < 2 ^ 32"
  shows "ReadLengthPrefixedString (pre @ le_bytes 4 (of_nat (length t) :: u32) @ t @ suf) (length pre)
    = Some (t, length pre + 4 + length t)"
proof -
  have n: "unat (of_nat (length t) :: u32) = length t" using assms by (intro unat_of_nat_small) simp
  let ?pre = "pre @ le_bytes 4 (of_nat (length t) :: u32)"
  have "CanReadBytes (?pre @ t @ suf) (length ?pre) (length t)" by (rule CanReadBytes_middle)
  then have "CanReadBytes (pre @ le_bytes 4 (of_nat (length t) :: u32) @ t @ suf) (length pre + 4) (length t)" by simp
  moreover have "take (length t) (drop (length pre + 4) (pre @ le_bytes 4 (of_nat (length t) :: u32) @ t @ suf)) = t" by simp
  ultimately show ?thesis
    unfolding ReadLengthPrefixedString_def ReadPOD_u32 by (simp only: option.case prod.case le_u32 Let_def n not_True_eq_False if_False)
qed

lemma ReadLengthPrefixedString_bounds:
  "ReadLengthPrefixedString b off = Some (t, off') \<Longrightarrow> off' = off + 4 + length t \<and> off' \<le> length b"
  by (auto simp: ReadLengthPrefixedString_def ReadPOD_def Let_def CanReadBytes_def split: option.splits if_splits
      dest!: ReadBytes_bounds)

text \<open>Length-prefixed strings round-trip. \<open>AppendString\<close> succeeds exactly when the length fits 32 bits and
  the container can grow that far, and otherwise leaves the container as it was. Whatever follows
  the appended bytes, \<open>ReadString\<close> at their offset returns the text and the offset behind it; the
  compact overload returns its canonical form. A read that succeeds at all stays inside the
  container.\<close>

lemma string_roundtrip:
  assumes "AppendString out t = (ok, out')"
  shows "(ok \<longleftrightarrow> length t < 2 ^ 32 \<and> length out + 4 + length t < 2 ^ 64) \<and> (\<not> ok \<longrightarrow> out' = out)
    \<and> (ok \<longrightarrow> ReadString (out' @ suf) (length out) old = (True, length out', t))
    \<and> (ok \<and> length t \<le> s_MaxLength \<and> 0 \<notin> set t \<longrightarrow>
         (\<exists>s. ReadString_compact (out' @ suf) (length out) c = (True, length out', s)
            \<and> cs_inv s \<and> cs_view s = map Canonicalize t))
    \<and> (\<forall>b off. fst (ReadString b off old) \<longrightarrow> fst (snd (ReadString b off old)) \<le> length b)"
proof (intro conjI)
  have o: "out' = out @ le_bytes 4 (of_nat (length t) :: u32) @ t" "length t < 2 ^ 32" if ok
    using assms that by (auto simp: AppendString_cases split: if_splits)
  show "ok \<longleftrightarrow> length t < 2 ^ 32 \<and> length out + 4 + length t < 2 ^ 64" "\<not> ok \<longrightarrow> out' = out"
    using assms by (auto simp: AppendString_cases split: if_splits)
  have r: "ReadLengthPrefixedString (out' @ suf) (length out) = Some (t, length out')" if ok
    using ReadLengthPrefixedString_appended [of t out suf] o that by simp
  show "ok \<longrightarrow> ReadString (out' @ suf) (length out) old = (True, length out', t)"
    using r by (simp add: ReadString_def)
  show "ok \<and> length t \<le> s_MaxLength \<and> 0 \<notin> set t \<longrightarrow>
         (\<exists>s. ReadString_compact (out' @ suf) (length out) c = (True, length out', s)
            \<and> cs_inv s \<and> cs_view s = map Canonicalize t)"
    using r cs_assign_ok [OF cs_inv_new, of t]
    by (cases "cs_assign CompactString_new t") (auto simp: ReadString_compact_def)
  show "\<forall>b off. fst (ReadString b off old) \<longrightarrow> fst (snd (ReadString b off old)) \<le> length b"
    by (auto simp: ReadString_def split: option.splits dest: ReadLengthPrefixedString_bounds)
qed

lemma string_roundtrip_example:
  "ReadString ([7, 2, 0, 0, 0, 0x41, 0x42] @ [9]) 1 [] = (True, 7, [0x41, 0x42])"
proof -
  have "AppendString [7] [0x41, 0x42] = (True, [7, 2, 0, 0, 0, 0x41, 0x42])"
    by (simp add: AppendString_cases le_bytes_4)
  from string_roundtrip [OF this, of "[9]" "[]"] show ?thesis by simp
qed

section \<open>Vector payloads\<close>

lemma payload_bytes:
  assumes "ComputeBinaryVectorPayloadBytes sz count = (ok, n)" "sz \<noteq> 0"
  shows "(ok \<longleftrightarrow> unat count * unat sz < 2 ^ 64) \<and> (ok \<longrightarrow> unat n = unat count * unat sz)"
proof -
  have pos: "0 < unat sz" using assms(2) by (simp add: unat_gt_0)
  have "(umax div sz < count) = ((2 ^ 64 - 1) div unat sz < unat count)"
    using unat_div [of "umax :: u64" sz] by (simp add: word_less_nat_alt unat_umax)
  also have "\<dots> = (\<not> unat count * unat sz \<le> 2 ^ 64 - 1)"
    using less_eq_div_iff_mult_less_eq [OF pos, of "unat count" "2 ^ 64 - 1"] by (metis not_le)
  finally have c: "(umax div sz < count) \<longleftrightarrow> \<not> unat count * unat sz < 2 ^ 64" by auto
  then show ?thesis using assms(1) unat_mult_no_overflow [of count sz]
    by (auto simp: ComputeBinaryVectorPayloadBytes_def split: if_splits)
qed

lemma chunks_concat:
  assumes "\<And>v. length (enc v) = n"
  shows "chunks n (length vs) (concat (map enc vs) @ suf) = map enc vs"
  using assms by (induction vs) simp_all

lemma read_values_loop:
  "read_values n dec b cur k out = (out @ map dec (chunks n k (drop cur b)), cur + k * n)"
  by (induction n dec b cur k out rule: read_values.induct) (simp_all add: add.commute add.left_commute)

lemma chunks_take: "k * n \<le> m \<Longrightarrow> chunks n k (take m bs) = chunks n k bs"
proof (induction n k bs arbitrary: m rule: chunks.induct)
  case (2 n k bs)
  have "chunks n k (drop n (take m bs)) = chunks n k (drop n bs)"
    using "2.IH" [of "m - n"] "2.prems" by (simp add: drop_take)
  then show ?case using "2.prems" by simp
qed simp

lemma ReadBinaryVectorPayload_bulk:
  assumes "sz \<noteq> 0"
  shows "ReadBinaryVectorPayload False ms sz dec b off count = ReadBinaryVectorPayload True ms sz dec b off count"
proof -
  obtain ok n where c: "ComputeBinaryVectorPayloadBytes sz count = (ok, n)" by fastforce
  have "ok \<Longrightarrow> unat n = unat count * unat sz" using payload_bytes [OF c assms] by simp
  then show ?thesis using c by (auto simp: ReadBinaryVectorPayload_def read_values_loop chunks_take)
qed

text \<open>Vectors round-trip: a payload that was appended (which happens exactly when its byte count and the
  grown container fit \<open>usize\<close>) is read back as the same values, by the copying and by the
  element-wise variant alike, whatever precedes and follows it; a payload cut short is reported
  as truncated with no values and the offset kept.\<close>

lemma vector_payload_roundtrip:
  assumes enc: "\<And>v. length (enc v) = unat sz" "\<And>v. dec (enc v) = v" and "sz \<noteq> 0"
    and "length vs < 2 ^ 64" and "max_size = None \<or> (\<exists>m. max_size = Some m \<and> length vs \<le> m)"
    and app: "AppendBinaryVectorPayload sz enc out vs = (r, out')"
  shows "(r = None_ok \<longleftrightarrow> length out + length vs * unat sz < 2 ^ 64) \<and> (r \<noteq> None_ok \<longrightarrow> out' = out)
    \<and> (r = None_ok \<longrightarrow> ReadBinaryVectorPayload bulk max_size sz dec (out' @ suf) (length out) (of_nat (length vs))
          = (None_ok, length out', vs))
    \<and> (r = None_ok \<and> k < length vs * unat sz \<longrightarrow>
          ReadBinaryVectorPayload bulk max_size sz dec (take (length out + k) out') (length out) (of_nat (length vs))
          = (SourceTruncated, length out, []))"
proof -
  obtain ok n where c: "ComputeBinaryVectorPayloadBytes sz (of_nat (length vs)) = (ok, n)" by fastforce
  have u: "unat (of_nat (length vs) :: u64) = length vs" using assms(4) by (intro unat_of_nat_small) simp
  have b: "ok \<longleftrightarrow> length vs * unat sz < 2 ^ 64" "ok \<Longrightarrow> unat n = length vs * unat sz"
    using payload_bytes [OF c assms(3)] unfolding u by simp_all
  have len: "length (concat (map enc vs)) = length vs * unat sz"
    by (simp add: length_concat comp_def enc(1) sum_list_triv)
  have pos: "vs = [] \<or> length vs * unat sz > 0" using assms(3) by (auto simp: unat_gt_0)
  have r1: "r = None_ok \<longleftrightarrow> length out + length vs * unat sz < 2 ^ 64" "r \<noteq> None_ok \<longrightarrow> out' = out"
    using app c b by (auto simp: AppendBinaryVectorPayload_def CanAppendBytes_def usize_max_def split: if_splits)
  have ok: "ok \<and> out' = out @ concat (map enc vs)" if "r = None_ok"
    using app c that by (auto simp: AppendBinaryVectorPayload_def split: if_splits)
  have st: "CanStoreValueCount max_size (length vs)" using assms(5) by (auto simp: CanStoreValueCount_def)
  have "ReadBinaryVectorPayload True max_size sz dec (out' @ suf) (length out) (of_nat (length vs)) = (None_ok, length out', vs)"
    if "r = None_ok"
    using ok [OF that] c b u len st chunks_concat [of enc "unat sz" vs "[]", OF enc(1)] enc(2)
    by (simp add: ReadBinaryVectorPayload_def CanReadBytes_def comp_def)
  moreover have "ReadBinaryVectorPayload True max_size sz dec (take (length out + k) out') (length out) (of_nat (length vs))
      = (SourceTruncated, length out, [])" if "r = None_ok" "k < length vs * unat sz"
    using ok [OF that(1)] c b that len by (simp add: ReadBinaryVectorPayload_def CanReadBytes_def)
  ultimately show ?thesis
    using r1 ReadBinaryVectorPayload_bulk [OF assms(3), of max_size dec] by (cases bulk) auto
qed

lemma vector_payload_roundtrip_example:
  "ReadBinaryVectorPayload False (Some 10) 4 (le_value :: u8 list \<Rightarrow> u32)
     ([5] @ concat (map (le_bytes 4) [1, 256 :: u32]) @ [6]) 1 2 = (None_ok, 9, [1, 256])"
proof -
  have "AppendBinaryVectorPayload 4 (le_bytes 4) [5] [1, 256 :: u32] = (None_ok, [5] @ concat (map (le_bytes 4) [1, 256 :: u32]))"
    by (simp add: AppendBinaryVectorPayload_def ComputeBinaryVectorPayloadBytes_def CanAppendBytes_def usize_max_def)
  from vector_payload_roundtrip [OF _ le_u32 _ _ _ this, of "Some 10" False "[6]"] show ?thesis by simp
qed

section \<open>String tables\<close>

lemma unat_small_u64: "n < 2 ^ 64 \<Longrightarrow> unat (of_nat n :: u64) = n"
  by (rule unat_of_nat_small) simp

lemma table_reserve_words:
  fixes a n :: u64
  shows "fst (AddStringTableTextReserveBytes a n) \<longleftrightarrow> 0 < unat n \<and> unat a + unat n + 1 < 2 ^ 32"
proof (cases "unat n + 1 < 2 ^ 64")
  case True
  have s: "unat (n + 1) = unat n + 1" using True by (subst unat_plus_no_overflow) simp_all
  have big: "\<not> n > umax - 1" using True umax_minus_less [of 1 n] by simp
  have m: "unat (2 ^ 32 - 1 :: u64) = 2 ^ 32 - 1" by simp
  show ?thesis
  proof (cases "unat n + 1 < 2 ^ 32")
    case small: True
    have le: "n + 1 \<le> 2 ^ 32 - 1" using small unfolding word_le_nat_alt s m by simp
    have "unat ((2 ^ 32 - 1) - (n + 1)) = 2 ^ 32 - 1 - (unat n + 1)" unfolding unat_sub [OF le] s m ..
    then have gt: "a > (2 ^ 32 - 1) - (n + 1) \<longleftrightarrow> \<not> unat a + unat n + 1 < 2 ^ 32"
      using small by (simp only: word_less_nat_alt) linarith
    have "\<not> n + 1 > umax - a" if "unat a + unat n + 1 < 2 ^ 32"
      using that umax_minus_less [of a "n + 1"] s by simp
    then show ?thesis using gt le big unfolding AddStringTableTextReserveBytes_def AddBinaryReserveBytes_def Let_def
      by (auto simp: unat_gt_0 not_less)
  next
    case False
    have "n + 1 > 2 ^ 32 - 1" using False unfolding word_less_nat_alt s m by simp
    then show ?thesis using False by (simp add: AddStringTableTextReserveBytes_def)
  qed
next
  case False
  then have "n > umax - 1" using umax_minus_less [of 1 n] by simp
  then show ?thesis using False by (simp add: AddStringTableTextReserveBytes_def)
qed

lemma table_reserve:
  assumes "a < 2 ^ 64" "n < 2 ^ 64"
  shows "fst (AddStringTableTextReserveBytes (of_nat a) (of_nat n)) \<longleftrightarrow> 0 < n \<and> a + n + 1 < 2 ^ 32"
  using table_reserve_words [of "of_nat a" "of_nat n"] unfolding unat_small_u64 [OF assms(1)] unat_small_u64 [OF assms(2)] .

lemma AppendStringTableText_cases:
  assumes "length tbl < 2 ^ 64" "length t < 2 ^ 64"
  shows "AppendStringTableText tbl t = (if t \<noteq> [] \<and> length tbl + length t + 1 < 2 ^ 32
    then (True, tbl @ t @ [0], of_nat (length tbl)) else (False, tbl, umax))"
  using table_reserve [OF assms] by (auto simp: AppendStringTableText_def split: prod.splits)

lemma text_scan_stop:
  assumes "k \<le> length t" "0 \<notin> set t" "length t < r"
  shows "text_scan (pre @ t @ 0 # suf) (length pre) r k = length t"
  using assms
proof (induction "length t - k" arbitrary: k)
  case 0
  then show ?case by (subst text_scan.simps) (simp add: nth_append)
next
  case (Suc m)
  then have k: "k < length t" by simp
  then have "(pre @ t @ 0 # suf) ! (length pre + k) \<noteq> 0" using Suc.prems(2) by (simp add: nth_append) (metis nth_mem)
  then show ?case using Suc k by (subst text_scan.simps) simp
qed

lemma ReadStringTableTextView_entry:
  assumes "t \<noteq> []" "0 \<notin> set t" "length a < 2 ^ 32 - 1"
  shows "ReadStringTableTextView (pre @ (a @ t @ 0 # b) @ suf) (length pre) (length (a @ t @ 0 # b)) (of_nat (length a)) = Some t"
proof -
  have u: "unat (of_nat (length a) :: u32) = length a" using assms(3) by (intro unat_of_nat_small) simp
  have ne: "of_nat (length a) \<noteq> (umax :: u32)"
  proof
    assume "of_nat (length a) = (umax :: u32)"
    then have "unat (of_nat (length a) :: u32) = 2 ^ 32 - 1" by (simp add: unat_umax)
    then show False using u assms(3) by simp
  qed
  have "text_scan ((pre @ a) @ t @ 0 # b @ suf) (length (pre @ a)) (length (t @ 0 # b)) 0 = length t"
    using assms by (intro text_scan_stop) simp_all
  then show ?thesis using ne u assms(1) by (simp add: ReadStringTableTextView_def Let_def CanReadBytes_def)
qed

text \<open>Appending a list of texts to a table, with the offsets handed out.\<close>

fun append_texts :: "u8 list \<Rightarrow> u8 list list \<Rightarrow> (u8 list \<times> u32 list) option" where
  "append_texts tbl [] = Some (tbl, [])"
| "append_texts tbl (t # ts) =
     (case AppendStringTableText tbl t of
        (ok, tbl', off) \<Rightarrow> if \<not> ok then None else map_option (\<lambda>(r, offs). (r, off # offs)) (append_texts tbl' ts))"

lemma append_texts_prefix: "append_texts tbl ts = Some (tbl', offs) \<Longrightarrow> \<exists>x. tbl' = tbl @ x"
proof (induction tbl ts arbitrary: tbl' offs rule: append_texts.induct)
  case (2 tbl t ts)
  then obtain ok t1 off r where s: "AppendStringTableText tbl t = (ok, t1, off)" "ok" "append_texts t1 ts = Some (tbl', r)"
    by (auto split: prod.splits if_splits)
  then have "\<exists>y. t1 = tbl @ y" by (auto simp: AppendStringTableText_def split: prod.splits if_splits)
  moreover have "\<exists>x. tbl' = t1 @ x" using 2(1) s by simp
  ultimately show ?case by auto
qed simp

lemma append_texts_read:
  assumes "append_texts tbl ts = Some (tbl', offs)" "\<forall>t \<in> set ts. 0 \<notin> set t \<and> length t < 2 ^ 64" "length tbl < 2 ^ 64"
  shows "length offs = length ts \<and> (\<forall>i < length ts.
    ReadStringTableTextView (pre @ tbl' @ suf) (length pre) (length tbl') (offs ! i) = Some (ts ! i))"
  using assms
proof (induction tbl ts arbitrary: tbl' offs rule: append_texts.induct)
  case (2 tbl t ts)
  from 2(2) obtain t1 off r where s: "AppendStringTableText tbl t = (True, t1, off)"
    "append_texts t1 ts = Some (tbl', r)" "offs = off # r" by (auto split: prod.splits if_splits)
  have c: "t \<noteq> []" "length tbl + length t + 1 < 2 ^ 32" "t1 = tbl @ t @ [0]" "off = of_nat (length tbl)"
    using s(1) 2(3,4) AppendStringTableText_cases [of tbl t] by (auto split: if_splits)
  obtain x where x: "tbl' = t1 @ x" using append_texts_prefix [OF s(2)] by blast
  have "ReadStringTableTextView (pre @ tbl' @ suf) (length pre) (length tbl') off = Some t"
    using ReadStringTableTextView_entry [of t tbl pre x suf] c x 2(3) by simp
  moreover have "length r = length ts \<and> (\<forall>i < length ts.
      ReadStringTableTextView (pre @ tbl' @ suf) (length pre) (length tbl') (r ! i) = Some (ts ! i))"
    using 2(1) [OF s(1) [symmetric] refl _ s(2)] 2(3) c by simp
  ultimately show ?case using s(3) by (auto simp: nth_Cons split: nat.split)
qed simp

text \<open>C33: String tables keep what they are given. After appending any list of null-free texts to a table,
  each offset that was handed out reads back its own text from the finished table, wherever the
  table lies in a binary; and appending fails exactly for an empty text or when the table would
  reach the 32-bit offset limit, returning the invalid offset, at which every read fails.\<close>

theorem string_table_roundtrip:
  assumes "append_texts tbl ts = Some (tbl', offs)" and "\<forall>t \<in> set ts. 0 \<notin> set t \<and> length t < 2 ^ 64"
    and "length tbl < 2 ^ 64" and "length t < 2 ^ 64"
  shows "length offs = length ts
    \<and> (\<forall>i < length ts. ReadStringTableTextView (pre @ tbl' @ suf) (length pre) (length tbl') (offs ! i) = Some (ts ! i))
    \<and> AppendStringTableText tbl t = (if t \<noteq> [] \<and> length tbl + length t + 1 < 2 ^ 32
        then (True, tbl @ t @ [0], of_nat (length tbl)) else (False, tbl, umax))
    \<and> ReadStringTableTextView b p n umax = None"
  using append_texts_read [OF assms(1-3)] AppendStringTableText_cases [OF assms(3,4)]
  by (simp add: ReadStringTableTextView_def)

theorem string_table_roundtrip_witness:
  "append_texts [] [[0x61], [0x62, 0x63]] = Some ([0x61, 0, 0x62, 0x63, 0], [0, 2])
   \<and> ReadStringTableTextView ([9] @ [0x61, 0, 0x62, 0x63, 0] @ [9]) 1 5 2 = Some [0x62, 0x63]"
proof -
  have a: "append_texts [] [[0x61], [0x62, 0x63]] = Some ([0x61, 0, 0x62, 0x63, 0], [0, 2])"
    by (simp add: AppendStringTableText_cases)
  have n: "\<forall>t \<in> set [[0x61], [0x62, 0x63 :: u8]]. 0 \<notin> set t \<and> length t < 2 ^ 64" "length ([] :: u8 list) < 2 ^ 64" by simp_all
  from string_table_roundtrip [OF a n n(2), of "[9]" "[9]"]
  have "\<forall>i < length [[0x61], [0x62, 0x63 :: u8]]. ReadStringTableTextView ([9] @ [0x61, 0, 0x62, 0x63, 0] @ [9]) (length [9 :: u8])
      (length [0x61, 0, 0x62, 0x63, 0 :: u8]) ([0, 2] ! i) = Some ([[0x61], [0x62, 0x63]] ! i)" by blast
  from this [rule_format, of 1]
  have "ReadStringTableTextView ([9] @ [0x61, 0, 0x62, 0x63, 0] @ [9]) 1 5 2 = Some [0x62, 0x63]" by (simp add: eval_nat_numeral)
  with a show ?thesis ..
qed

text \<open>Reserve sizes add up exactly or fail without a change.\<close>

lemma AddBinaryReserveBytes_spec:
  "fst (AddBinaryReserveBytes a b) \<longleftrightarrow> unat a + unat b < 2 ^ 64"
  "fst (AddBinaryReserveBytes a b) \<Longrightarrow> unat (snd (AddBinaryReserveBytes a b)) = unat a + unat b"
proof -
  have c: "b > umax - a \<longleftrightarrow> \<not> unat a + unat b < 2 ^ 64" unfolding umax_minus_less by auto
  then show "fst (AddBinaryReserveBytes a b) \<longleftrightarrow> unat a + unat b < 2 ^ 64" by (simp add: AddBinaryReserveBytes_def)
  show "unat (snd (AddBinaryReserveBytes a b)) = unat a + unat b" if "fst (AddBinaryReserveBytes a b)"
  proof -
    have n: "\<not> b > umax - a" using that by (auto simp: AddBinaryReserveBytes_def)
    then have "unat (a + b) = unat a + unat b" using c by (intro unat_plus_no_overflow) simp
    then show ?thesis using n by (simp add: AddBinaryReserveBytes_def)
  qed
qed

end
