(* ===== verification/Meta_Lexer.thy ===== *)
theory Meta_Lexer
  imports Text_Utils
begin

text \<open>
  The lexer of the metascript language: \<^verbatim>\<open>src/core/metascript/lexer.h\<close> and
  \<^verbatim>\<open>lexer.cpp\<close>. A character is its byte (the range tests of the code give the same answer for the
  signed \<open>char\<close>, because they only accept ASCII). Characters appear by their codes: newline 0x0A,
  carriage return 0x0D, tab 0x09, space 0x20, quote 0x22, \<open>( ) * + , - . /\<close> 0x28 to 0x2F, digits
  0x30 to 0x39, \<open>: ; =\<close> 0x3A 0x3B 0x3D, letters 0x41 to 0x5A and 0x61 to 0x7A, \<open>[ \ ]\<close>
  0x5B to 0x5D, underscore 0x5F, braces 0x7B and 0x7D. Every loop of the lexer is a total
  function: it moves the cursor towards the end of the source.
\<close>

section \<open>Tokens\<close>

datatype TokenType = Identifier | IntegerLiteral | DoubleLiteral | StringLiteral
  | Plus | Minus | Star | Slash | PlusEqual | MinusEqual | StarEqual | SlashEqual | Equal
  | Semicolon | Dot | Comma | Colon | LeftBracket | RightBracket | LeftBrace | RightBrace | LeftParen | RightParen
  | EndOfFile | Error

record Token =
  tok_type :: TokenType
  tok_text :: "u8 list"
  tok_line :: u32
  tok_column :: u32

definition s_UnexpectedCharacter :: "u8 list" where
  "s_UnexpectedCharacter = map of_char ''unexpected character''"
definition s_UnterminatedComment :: "u8 list" where
  "s_UnterminatedComment = map of_char ''unterminated block comment''"
definition s_InvalidExponent :: "u8 list" where
  "s_InvalidExponent = map of_char ''invalid exponent in number literal''"
definition s_NewlineInString :: "u8 list" where
  "s_NewlineInString = map of_char ''newline in string literal''"
definition s_UnterminatedString :: "u8 list" where
  "s_UnterminatedString = map of_char ''unterminated string literal''"

definition isDigit :: "u8 \<Rightarrow> bool" where "isDigit c = (c \<ge> 0x30 \<and> c \<le> 0x39)"
definition isAlpha :: "u8 \<Rightarrow> bool" where
  "isAlpha c = (c \<ge> 0x61 \<and> c \<le> 0x7A \<or> c \<ge> 0x41 \<and> c \<le> 0x5A \<or> c = 0x5F)"
definition isAlphaNumeric :: "u8 \<Rightarrow> bool" where "isAlphaNumeric c = (isAlpha c \<or> isDigit c)"

section \<open>State\<close>

record Lexer =
  m_source :: "u8 list"
  m_current :: nat
  m_line :: u32
  m_column :: u32
  m_hasPendingError :: bool
  m_errorLine :: u32
  m_errorColumn :: u32
  m_errorMessage :: "u8 list"

definition Lexer_new :: "u8 list \<Rightarrow> Lexer" where
  "Lexer_new source = \<lparr>m_source = source, m_current = 0, m_line = 1, m_column = 1,
     m_hasPendingError = False, m_errorLine = 1, m_errorColumn = 1, m_errorMessage = []\<rparr>"

definition isAtEnd :: "Lexer \<Rightarrow> bool" where
  "isAtEnd lx = (m_current lx \<ge> length (m_source lx))"

definition peek :: "Lexer \<Rightarrow> u8" where
  "peek lx = (if isAtEnd lx then 0 else m_source lx ! m_current lx)"

definition peekNext :: "Lexer \<Rightarrow> u8" where
  "peekNext lx = (if m_current lx + 1 \<ge> length (m_source lx) then 0 else m_source lx ! (m_current lx + 1))"

definition advance :: "Lexer \<Rightarrow> Lexer" where
  "advance lx =
     (if isAtEnd lx then lx
      else let c = m_source lx ! m_current lx; lx1 = lx\<lparr>m_current := m_current lx + 1\<rparr>
           in if c = 0x0A then lx1\<lparr>m_line := m_line lx1 + 1, m_column := 1\<rparr>
              else lx1\<lparr>m_column := m_column lx1 + 1\<rparr>)"

definition remaining :: "Lexer \<Rightarrow> nat" where
  "remaining lx = length (m_source lx) - m_current lx"

lemma remaining_advance: "\<not> isAtEnd lx \<Longrightarrow> remaining (advance lx) = remaining lx - 1 \<and> remaining lx > 0"
  by (simp add: remaining_def advance_def isAtEnd_def Let_def)

lemma remaining_advance_le: "remaining (advance lx) \<le> remaining lx"
  by (cases "isAtEnd lx") (use remaining_advance [of lx] in \<open>auto simp: advance_def\<close>)

section \<open>Reading\<close>

text \<open>\<open>while(!isAtEnd() && P(peek())) advance();\<close>\<close>

function advance_while :: "(u8 \<Rightarrow> bool) \<Rightarrow> Lexer \<Rightarrow> Lexer" where
  "advance_while P lx = (if \<not> isAtEnd lx \<and> P (peek lx) then advance_while P (advance lx) else lx)"
  by pat_completeness auto
termination by (relation "measure (\<lambda>(P, lx). remaining lx)") (auto dest: remaining_advance)

declare advance_while.simps [simp del]

lemma remaining_advance_while: "remaining (advance_while P lx) \<le> remaining lx"
proof (induction P lx rule: advance_while.induct)
  case (1 P lx)
  then show ?case using remaining_advance_le [of lx] by (subst advance_while.simps) auto
qed

lemma remaining_advance_while_less:
  "\<not> isAtEnd lx \<Longrightarrow> P (peek lx) \<Longrightarrow> remaining (advance_while P lx) < remaining lx"
  using remaining_advance [of lx] remaining_advance_while [of P "advance lx"]
  by (subst advance_while.simps) auto

function comment_loop :: "Lexer \<Rightarrow> Lexer \<times> bool" where
  "comment_loop lx =
     (if isAtEnd lx then (lx, False)
      else if peek lx = 0x2A \<and> peekNext lx = 0x2F then (advance (advance lx), True)
      else comment_loop (advance lx))"
  by pat_completeness auto
termination by (relation "measure remaining") (auto dest: remaining_advance)

declare comment_loop.simps [simp del]

lemma remaining_comment_loop: "remaining (fst (comment_loop lx)) \<le> remaining lx"
proof (induction lx rule: comment_loop.induct)
  case (1 lx)
  then show ?case using remaining_advance_le [of lx] remaining_advance_le [of "advance lx"]
    by (subst comment_loop.simps) auto
qed

function skipWhitespaceAndComments :: "Lexer \<Rightarrow> Lexer" where
  "skipWhitespaceAndComments lx =
     (if isAtEnd lx then lx
      else let c = peek lx in
        if c = 0x20 \<or> c = 0x09 \<or> c = 0x0D then skipWhitespaceAndComments (advance lx)
        else if c = 0x0A then skipWhitespaceAndComments (advance lx)
        else if c = 0x2F \<and> peekNext lx = 0x2F then
          skipWhitespaceAndComments (advance_while (\<lambda>c. c \<noteq> 0x0A) lx)
        else if c = 0x2F \<and> peekNext lx = 0x2A then
          (let r = comment_loop (advance (advance lx))
           in if \<not> snd r then
                (fst r)\<lparr>m_hasPendingError := True, m_errorLine := m_line lx, m_errorColumn := m_column lx,
                        m_errorMessage := s_UnterminatedComment\<rparr>
              else skipWhitespaceAndComments (fst r))
        else lx)"
  by pat_completeness auto
termination
proof (relation "measure remaining", goal_cases)
  case (4 lx c)
  then show ?case using remaining_advance_while_less [of lx "\<lambda>c. c \<noteq> 0x0A"] by simp
next
  case (5 lx c r)
  then show ?case
    using remaining_advance [OF 5(1)] remaining_advance_le [of "advance lx"] remaining_comment_loop [of "advance (advance lx)"]
    by (simp only: in_measure) linarith
qed (auto dest: remaining_advance)

declare skipWhitespaceAndComments.simps [simp del]

definition substr_text :: "Lexer \<Rightarrow> nat \<Rightarrow> nat \<Rightarrow> u8 list" where
  "substr_text lx start n = take n (drop start (m_source lx))"

definition makeErrorToken :: "u8 list \<Rightarrow> u32 \<Rightarrow> u32 \<Rightarrow> Token" where
  "makeErrorToken message line column =
     \<lparr>tok_type = Error, tok_text = message, tok_line = line, tok_column = column\<rparr>"

definition makeToken :: "TokenType \<Rightarrow> nat \<Rightarrow> Lexer \<Rightarrow> Token \<times> Lexer" where
  "makeToken type len lx =
     (\<lparr>tok_type = type, tok_text = substr_text lx (m_current lx) len, tok_line = m_line lx, tok_column = m_column lx\<rparr>,
      (advance ^^ len) lx)"

definition readIdentifier :: "Lexer \<Rightarrow> Token \<times> Lexer" where
  "readIdentifier lx =
     (let start = m_current lx; lx1 = advance_while isAlphaNumeric lx
      in (\<lparr>tok_type = Identifier, tok_text = substr_text lx1 start (m_current lx1 - start),
           tok_line = m_line lx, tok_column = m_column lx\<rparr>, lx1))"

text \<open>The optional fraction and the optional exponent of a number literal; the exponent fails with \<open>None\<close>.\<close>

definition read_fraction :: "Lexer \<Rightarrow> bool \<times> Lexer" where
  "read_fraction lx =
     (if \<not> isAtEnd lx \<and> peek lx = 0x2E then
        let afterDot = peekNext lx
        in if afterDot \<ge> 0x30 \<and> afterDot \<le> 0x39 then (True, advance_while isDigit (advance lx)) else (False, lx)
      else (False, lx))"

definition read_exponent :: "bool \<Rightarrow> Lexer \<Rightarrow> bool option \<times> Lexer" where
  "read_exponent isDouble lx =
     (if \<not> isAtEnd lx \<and> (peek lx = 0x65 \<or> peek lx = 0x45) then
        let lx1 = advance lx;
            lx2 = (if \<not> isAtEnd lx1 \<and> (peek lx1 = 0x2B \<or> peek lx1 = 0x2D) then advance lx1 else lx1)
        in if isAtEnd lx2 \<or> \<not> isDigit (peek lx2) then (None, lx2)
           else (Some True, advance_while isDigit lx2)
      else (Some isDouble, lx))"

definition readNumber :: "Lexer \<Rightarrow> Token \<times> Lexer" where
  "readNumber lx =
     (let start = m_current lx;
          lx1 = advance_while isDigit lx;
          (frac, lx2) = read_fraction lx1;
          (isDouble, lx3) = read_exponent frac lx2
      in case isDouble of
           None \<Rightarrow> (makeErrorToken s_InvalidExponent (m_line lx) (m_column lx), lx3)
         | Some d \<Rightarrow> (\<lparr>tok_type = (if d then DoubleLiteral else IntegerLiteral),
                       tok_text = substr_text lx3 start (m_current lx3 - start),
                       tok_line = m_line lx, tok_column = m_column lx\<rparr>, lx3))"

text \<open>The body of a string literal: \<open>Inl\<close> the error message, or \<open>Inr\<close> at the closing quote or the end.\<close>

function string_loop :: "Lexer \<Rightarrow> (u8 list + unit) \<times> Lexer" where
  "string_loop lx =
     (if isAtEnd lx \<or> peek lx = 0x22 then (Inr (), lx)
      else if peek lx = 0x0A \<or> peek lx = 0x0D then (Inl s_NewlineInString, lx)
      else if peek lx = 0x5C then
        (let lx1 = advance lx
         in if isAtEnd lx1 then (Inl s_UnterminatedString, lx1)
            else if peek lx1 = 0x0A \<or> peek lx1 = 0x0D then (Inl s_NewlineInString, lx1)
            else string_loop (advance lx1))
      else string_loop (advance lx))"
  by pat_completeness auto
termination
proof (relation "measure remaining", goal_cases)
  case (2 lx x)
  then show ?case using remaining_advance [of lx] remaining_advance_le [of "advance lx"] by auto
qed (auto dest: remaining_advance)

declare string_loop.simps [simp del]

definition readString :: "Lexer \<Rightarrow> Token \<times> Lexer" where
  "readString lx =
     (let lx1 = advance lx; contentStart = m_current lx1; (r, lx2) = string_loop lx1
      in case r of
           Inl message \<Rightarrow> (makeErrorToken message (m_line lx) (m_column lx), lx2)
         | Inr _ \<Rightarrow>
             let contentEnd = m_current lx2
             in if isAtEnd lx2 then (makeErrorToken s_UnterminatedString (m_line lx) (m_column lx), lx2)
                else (\<lparr>tok_type = StringLiteral, tok_text = substr_text lx2 contentStart (contentEnd - contentStart),
                       tok_line = m_line lx, tok_column = m_column lx\<rparr>, advance lx2))"

definition single_char_type :: "u8 \<Rightarrow> TokenType option" where
  "single_char_type c =
     (if c = 0x3D then Some Equal else if c = 0x3B then Some Semicolon else if c = 0x2E then Some Dot
      else if c = 0x2C then Some Comma else if c = 0x3A then Some Colon
      else if c = 0x5B then Some LeftBracket else if c = 0x5D then Some RightBracket
      else if c = 0x7B then Some LeftBrace else if c = 0x7D then Some RightBrace
      else if c = 0x28 then Some LeftParen else if c = 0x29 then Some RightParen else None)"

definition operator_token :: "Lexer \<Rightarrow> TokenType \<Rightarrow> TokenType \<Rightarrow> Token \<times> Lexer" where
  "operator_token lx compound plain =
     (if peekNext lx = 0x3D then makeToken compound 2 lx else makeToken plain 1 lx)"

text \<open>The dispatch of \<open>next\<close> on the first character after the trivia.\<close>

definition dispatch :: "Lexer \<Rightarrow> Token \<times> Lexer" where
  "dispatch lx = (let c = peek lx in
           if isAlpha c then readIdentifier lx
           else if isDigit c then readNumber lx
           else if c = 0x22 then readString lx
           else if c = 0x2B then operator_token lx PlusEqual Plus
           else if c = 0x2D then operator_token lx MinusEqual Minus
           else if c = 0x2A then operator_token lx StarEqual Star
           else if c = 0x2F then operator_token lx SlashEqual Slash
           else case single_char_type c of
                  Some type \<Rightarrow> makeToken type 1 lx
                | None \<Rightarrow> (makeErrorToken s_UnexpectedCharacter (m_line lx) (m_column lx), advance lx))"

definition next_token :: "Lexer \<Rightarrow> Token \<times> Lexer" where
  "next_token lx0 =
     (let lx = skipWhitespaceAndComments lx0
      in if m_hasPendingError lx then
           (makeErrorToken (m_errorMessage lx) (m_errorLine lx) (m_errorColumn lx), lx\<lparr>m_hasPendingError := False\<rparr>)
         else if isAtEnd lx then makeToken EndOfFile 0 lx
         else dispatch lx)"

section \<open>Positions\<close>

text \<open>The line and column of a source position, as 32-bit counters, and a lexer moved to a position.\<close>

definition line_of :: "u8 list \<Rightarrow> nat \<Rightarrow> u32" where
  "line_of src n = 1 + of_nat (count_list (take n src) 0x0A)"

definition column_of :: "u8 list \<Rightarrow> nat \<Rightarrow> u32" where
  "column_of src n = 1 + of_nat (length (takeWhile (\<lambda>c. c \<noteq> 0x0A) (rev (take n src))))"

definition rest :: "Lexer \<Rightarrow> u8 list" where
  "rest lx = drop (m_current lx) (m_source lx)"

definition moved :: "Lexer \<Rightarrow> nat \<Rightarrow> Lexer" where
  "moved lx k = lx\<lparr>m_current := m_current lx + k, m_line := line_of (m_source lx) (m_current lx + k),
     m_column := column_of (m_source lx) (m_current lx + k)\<rparr>"

definition pos_inv :: "Lexer \<Rightarrow> bool" where
  "pos_inv lx \<longleftrightarrow> m_current lx \<le> length (m_source lx)
     \<and> m_line lx = line_of (m_source lx) (m_current lx) \<and> m_column lx = column_of (m_source lx) (m_current lx)"

lemma moved_simps [simp]:
  "m_source (moved lx k) = m_source lx" "m_current (moved lx k) = m_current lx + k"
  "m_line (moved lx k) = line_of (m_source lx) (m_current lx + k)"
  "m_column (moved lx k) = column_of (m_source lx) (m_current lx + k)"
  "m_hasPendingError (moved lx k) = m_hasPendingError lx"
  "moved (moved lx j) k = moved lx (j + k)"
  by (simp_all add: moved_def add.assoc)

lemma moved_0: "pos_inv lx \<Longrightarrow> moved lx 0 = lx"
  by (simp add: moved_def pos_inv_def)

lemma pos_inv_moved [simp]: "pos_inv lx \<Longrightarrow> k \<le> length (rest lx) \<Longrightarrow> pos_inv (moved lx k)"
  by (auto simp: pos_inv_def rest_def)

lemma rest_moved [simp]: "rest (moved lx k) = drop k (rest lx)"
  by (simp add: rest_def add.commute)

lemma isAtEnd_rest [simp]: "isAtEnd lx \<longleftrightarrow> rest lx = []"
  by (simp add: isAtEnd_def rest_def)

lemma remaining_rest: "remaining lx = length (rest lx)"
  by (simp add: remaining_def rest_def)

lemma peek_rest: "peek lx = (case rest lx of [] \<Rightarrow> 0 | c # _ \<Rightarrow> c)"
proof (cases "rest lx")
  case (Cons c cs)
  then have "m_source lx ! m_current lx = c" by (simp add: rest_def) (metis hd_drop_conv_nth drop_eq_Nil list.sel(1) list.distinct(1) not_le)
  then show ?thesis using Cons by (simp add: peek_def)
qed (simp add: peek_def)

lemma peekNext_rest: "peekNext lx = (case rest lx of _ # d # _ \<Rightarrow> d | _ \<Rightarrow> 0)"
proof -
  have d: "drop (m_current lx + 1) (m_source lx) = tl (rest lx)" by (simp add: rest_def drop_Suc tl_drop)
  show ?thesis
  proof (cases "tl (rest lx)")
    case Nil
    then have "length (m_source lx) \<le> m_current lx + 1" using d by simp
    then show ?thesis using Nil by (auto simp: peekNext_def split: list.split)
  next
    case (Cons e es)
    then have lt: "m_current lx + 1 < length (m_source lx)" using d by (metis drop_all list.distinct(1) not_le)
    then have "m_source lx ! (m_current lx + 1) = e" using d Cons by (metis hd_drop_conv_nth list.sel(1))
    then show ?thesis using Cons lt by (cases "rest lx") (simp_all add: peekNext_def)
  qed
qed

lemma advance_moved: "pos_inv lx \<Longrightarrow> rest lx \<noteq> [] \<Longrightarrow> advance lx = moved lx 1"
proof -
  assume inv: "pos_inv lx" and ne: "rest lx \<noteq> []"
  let ?n = "m_current lx" and ?s = "m_source lx"
  have t: "take (Suc ?n) ?s = take ?n ?s @ [?s ! ?n]" using ne by (simp add: rest_def take_Suc_conv_app_nth)
  then have "line_of ?s (Suc ?n) = (if ?s ! ?n = 0x0A then line_of ?s ?n + 1 else line_of ?s ?n)"
    "column_of ?s (Suc ?n) = (if ?s ! ?n = 0x0A then 1 else column_of ?s ?n + 1)"
    by (simp_all add: line_of_def column_of_def count_list_append)
  then show ?thesis using inv ne by (auto simp: advance_def Let_def moved_def pos_inv_def)
qed

lemma advance_at_end: "rest lx = [] \<Longrightarrow> advance lx = lx"
  by (simp add: advance_def)

lemma advance_while_moved:
  "pos_inv lx \<Longrightarrow> advance_while P lx = moved lx (length (takeWhile P (rest lx)))"
proof (induction P lx rule: advance_while.induct)
  case (1 P lx)
  show ?case
  proof (cases "\<not> isAtEnd lx \<and> P (peek lx)")
    case True
    then obtain c cs where r: "rest lx = c # cs" "P c" by (cases "rest lx") (auto simp: peek_rest)
    have "advance lx = moved lx 1" using advance_moved [OF "1.prems"] r by simp
    then show ?thesis using "1.IH" [OF True] "1.prems" True r by (subst advance_while.simps) simp
  next
    case False
    then have "takeWhile P (rest lx) = []" by (cases "rest lx") (auto simp: peek_rest)
    moreover have "advance_while P lx = lx" using False by (subst advance_while.simps) auto
    ultimately show ?thesis using moved_0 [OF "1.prems"] by simp
  qed
qed

section \<open>Trivia\<close>

text \<open>The first closing mark of a block comment, and blank text: whitespace and complete comments.\<close>

fun comment_end :: "u8 list \<Rightarrow> nat option" where
  "comment_end [] = None"
| "comment_end (c # t) = (if c = 0x2A \<and> t \<noteq> [] \<and> hd t = 0x2F then Some 2 else map_option Suc (comment_end t))"

inductive trivia :: "u8 list \<Rightarrow> bool" where
  trivia_nil: "trivia []"
| trivia_space: "c = 0x20 \<or> c = 0x09 \<or> c = 0x0D \<or> c = 0x0A \<Longrightarrow> trivia t \<Longrightarrow> trivia (c # t)"
| trivia_line: "0x0A \<notin> set body \<Longrightarrow> trivia t \<Longrightarrow> t = [] \<or> hd t = 0x0A \<Longrightarrow> trivia (0x2F # 0x2F # body @ t)"
| trivia_block: "comment_end body = Some (length body) \<Longrightarrow> trivia t \<Longrightarrow> trivia (0x2F # 0x2A # body @ t)"

definition starts_trivia :: "u8 list \<Rightarrow> bool" where
  "starts_trivia t = (case t of [] \<Rightarrow> False | c # u \<Rightarrow>
     c = 0x20 \<or> c = 0x09 \<or> c = 0x0D \<or> c = 0x0A \<or> c = 0x2F \<and> u \<noteq> [] \<and> (hd u = 0x2F \<or> hd u = 0x2A))"

lemma comment_end_le: "comment_end t = Some k \<Longrightarrow> 2 \<le> k \<and> k \<le> length t \<and> comment_end (take k t) = Some k"
proof (induction t arbitrary: k)
  case (Cons c t)
  show ?case
  proof (cases "c = 0x2A \<and> t \<noteq> [] \<and> hd t = 0x2F")
    case True
    then show ?thesis using Cons.prems by (cases t) auto
  next
    case False
    then obtain j where j: "comment_end t = Some j" "k = Suc j" using Cons.prems by auto
    then have "2 \<le> j" "j \<le> length t" "comment_end (take j t) = Some j" using Cons.IH by auto
    moreover have "take j t \<noteq> [] \<Longrightarrow> hd (take j t) = hd t" by (cases t; cases j) auto
    ultimately show ?thesis using j False by (auto simp: take_eq_Nil)
  qed
qed simp

lemma comment_loop_moved:
  "pos_inv lx \<Longrightarrow> comment_loop lx = (case comment_end (rest lx) of
     Some k \<Rightarrow> (moved lx k, True) | None \<Rightarrow> (moved lx (length (rest lx)), False))"
proof (induction lx rule: comment_loop.induct)
  case (1 lx)
  show ?case
  proof (cases "rest lx")
    case Nil
    then show ?thesis using moved_0 [OF "1.prems"] by (subst comment_loop.simps) simp
  next
    case (Cons c t)
    then have a: "advance lx = moved lx 1" using advance_moved [OF "1.prems"] by simp
    show ?thesis
    proof (cases "c = 0x2A \<and> t \<noteq> [] \<and> hd t = 0x2F")
      case True
      then have "advance (advance lx) = moved lx 2"
        using advance_moved [of "moved lx 1"] "1.prems" Cons a by (simp add: numeral_2_eq_2)
      then show ?thesis using True Cons by (subst comment_loop.simps) (auto simp: peek_rest peekNext_rest split: list.splits)
    next
      case False
      then have n: "\<not> (peek lx = 0x2A \<and> peekNext lx = 0x2F)" using Cons by (auto simp: peek_rest peekNext_rest split: list.splits)
      have "comment_loop lx = comment_loop (moved lx 1)" using Cons n a by (subst comment_loop.simps) auto
      also have "\<dots> = (case comment_end t of Some k \<Rightarrow> (moved lx (1 + k), True) | None \<Rightarrow> (moved lx (1 + length t), False))"
        using "1.IH" [OF _ n] Cons a "1.prems" by (simp split: option.split)
      also have "\<dots> = (case comment_end (rest lx) of Some k \<Rightarrow> (moved lx k, True) | None \<Rightarrow> (moved lx (length (rest lx)), False))"
        using Cons False by (auto split: option.split)
      finally show ?thesis .
    qed
  qed
qed

text \<open>\<open>skipWhitespaceAndComments\<close> moves over blank text and stops in front of something else, or records the
  unterminated comment it ran into, having consumed the rest of the source.\<close>

definition unterminated :: "Lexer \<Rightarrow> nat \<Rightarrow> Lexer" where
  "unterminated lx k = (moved lx (length (rest lx)))\<lparr>m_hasPendingError := True,
     m_errorLine := line_of (m_source lx) (m_current lx + k), m_errorColumn := column_of (m_source lx) (m_current lx + k),
     m_errorMessage := s_UnterminatedComment\<rparr>"

lemma unterminated_moved: "j \<le> length (rest lx) \<Longrightarrow> unterminated (moved lx j) k = unterminated lx (j + k)"
  by (simp add: unterminated_def add.assoc)

definition skips :: "Lexer \<Rightarrow> Lexer \<Rightarrow> bool" where
  "skips lx lx' \<longleftrightarrow>
     (\<exists>k. k \<le> length (rest lx) \<and> trivia (take k (rest lx)) \<and>
       (lx' = moved lx k \<and> \<not> starts_trivia (drop k (rest lx))
        \<or> lx' = unterminated lx k \<and> (\<exists>t. drop k (rest lx) = 0x2F # 0x2A # t \<and> comment_end t = None)))"

lemma skips_step:
  assumes "skips (moved lx j) lx'" "j \<le> length (rest lx)"
    and "\<And>k. trivia (take k (drop j (rest lx))) \<Longrightarrow> trivia (take j (rest lx) @ take k (drop j (rest lx)))"
  shows "skips lx lx'"
proof -
  obtain k where k: "k \<le> length (rest lx) - j" "trivia (take k (drop j (rest lx)))"
    "lx' = moved lx (j + k) \<and> \<not> starts_trivia (drop (j + k) (rest lx))
     \<or> lx' = unterminated lx (j + k) \<and> (\<exists>t. drop (j + k) (rest lx) = 0x2F # 0x2A # t \<and> comment_end t = None)"
    using assms(1,2) by (auto simp: skips_def unterminated_moved add.commute)
  then have "trivia (take (j + k) (rest lx))" using assms(3) [OF k(2)] by (simp add: take_add)
  then show ?thesis using k assms(2) unfolding skips_def by (intro exI [of _ "j + k"]) auto
qed

lemma skips_line:
  assumes "rest lx = 0x2F # 0x2F # u" "j = length (takeWhile (\<lambda>c. c \<noteq> 0x0A) (rest lx))" "trivia (take k (drop j (rest lx)))"
  shows "trivia (take j (rest lx) @ take k (drop j (rest lx)))"
proof -
  have tw: "takeWhile (\<lambda>c. c \<noteq> 0x0A) (rest lx) = 0x2F # 0x2F # takeWhile (\<lambda>c. c \<noteq> 0x0A) u" using assms(1) by simp
  have tk: "take j (rest lx) = 0x2F # 0x2F # takeWhile (\<lambda>c. c \<noteq> 0x0A) u"
    using tw assms(2) by (metis takeWhile_eq_take)
  have dr: "drop j (rest lx) = dropWhile (\<lambda>c. c \<noteq> 0x0A) (rest lx)" using assms(2) by (metis dropWhile_eq_drop)
  have "drop j (rest lx) = [] \<or> hd (drop j (rest lx)) = 0x0A"
    unfolding dr using hd_dropWhile [of "\<lambda>c. c \<noteq> 0x0A" "rest lx"] by auto
  then have "take k (drop j (rest lx)) = [] \<or> hd (take k (drop j (rest lx))) = 0x0A"
    by (cases "drop j (rest lx)"; cases k) auto
  moreover have "0x0A \<notin> set (takeWhile (\<lambda>c. c \<noteq> 0x0A) u)" by (auto dest: set_takeWhileD)
  ultimately show ?thesis using trivia_line assms(3) tk by simp
qed

lemma skips_block:
  assumes "rest lx = 0x2F # 0x2A # u" "comment_end u = Some n" "trivia (take k (drop (2 + n) (rest lx)))"
  shows "trivia (take (2 + n) (rest lx) @ take k (drop (2 + n) (rest lx)))"
  using trivia_block [of "take n u" "take k (drop n u)"] comment_end_le [OF assms(2)] assms by simp

lemma skip_correct: "pos_inv lx \<Longrightarrow> skips lx (skipWhitespaceAndComments lx)"
proof (induction lx rule: skipWhitespaceAndComments.induct)
  case (1 lx)
  note inv = "1.prems" and IH = "1.IH"
  have stop: "skips lx lx" if "\<not> starts_trivia (rest lx)"
    unfolding skips_def using that trivia_nil moved_0 [OF inv] by (intro exI [of _ 0]) simp
  show ?case
  proof (cases "rest lx")
    case Nil
    then have "skipWhitespaceAndComments lx = lx" by (subst skipWhitespaceAndComments.simps) simp
    then show ?thesis using stop Nil by (simp add: starts_trivia_def)
  next
    case (Cons c u)
    then have ne: "\<not> isAtEnd lx" and pk: "peek lx = c" and a: "advance lx = moved lx 1"
      using advance_moved [OF inv] by (simp_all add: peek_rest)
    have pn: "peekNext lx = d \<longleftrightarrow> u \<noteq> [] \<and> hd u = d" if "d \<noteq> 0" for d
      using Cons that by (auto simp: peekNext_rest split: list.split)
    consider (space) "c = 0x20 \<or> c = 0x09 \<or> c = 0x0D \<or> c = 0x0A"
      | (line) v where "c = 0x2F" "u = 0x2F # v"
      | (block) v where "c = 0x2F" "u = 0x2A # v"
      | (other) "\<not> starts_trivia (rest lx)"
      using Cons by (cases u) (auto simp: starts_trivia_def)
    then show ?thesis
    proof cases
      case space
      then have "skipWhitespaceAndComments lx = skipWhitespaceAndComments (moved lx 1)"
        using ne pk a by (subst skipWhitespaceAndComments.simps) (auto simp: Let_def)
      moreover have "skips (moved lx 1) (skipWhitespaceAndComments (moved lx 1))"
        using IH(1,2) [OF ne refl] space pk a inv Cons by auto
      ultimately show ?thesis
        using skips_step [of lx 1] trivia_space [OF space] Cons by simp
    next
      case line
      let ?j = "length (takeWhile (\<lambda>c. c \<noteq> 0x0A) (rest lx))"
      have m: "advance_while (\<lambda>c. c \<noteq> 0x0A) lx = moved lx ?j" by (rule advance_while_moved [OF inv])
      have "skipWhitespaceAndComments lx = skipWhitespaceAndComments (moved lx ?j)"
        using ne pk line pn [of "0x2F"] m by (subst skipWhitespaceAndComments.simps) (simp add: Let_def)
      moreover have "skips (moved lx ?j) (skipWhitespaceAndComments (moved lx ?j))"
        using IH(3) [OF ne refl] line pk pn [of "0x2F"] m inv by simp
      ultimately show ?thesis
        using skips_step [of lx ?j] skips_line [of lx _ ?j] line Cons by simp
    next
      case block
      have a2: "advance (advance lx) = moved lx 2"
        using advance_moved [of "moved lx 1"] inv Cons block a by (simp add: numeral_2_eq_2)
      have dr: "rest (moved lx 2) = v" using Cons block by simp
      have inv2: "pos_inv (moved lx 2)" using inv Cons block by simp
      have sk: "skipWhitespaceAndComments lx = (let r = comment_loop (moved lx 2)
           in if \<not> snd r then (fst r)\<lparr>m_hasPendingError := True, m_errorLine := m_line lx, m_errorColumn := m_column lx,
                        m_errorMessage := s_UnterminatedComment\<rparr> else skipWhitespaceAndComments (fst r))"
        using ne pk block pn [of "0x2F"] pn [of "0x2A"] a2 by (subst skipWhitespaceAndComments.simps) (simp add: Let_def)
      show ?thesis
      proof (cases "comment_end v")
        case None
        then have "skipWhitespaceAndComments lx = unterminated lx 0"
          using sk comment_loop_moved [OF inv2] dr Cons block inv by (simp add: unterminated_def pos_inv_def)
        then show ?thesis unfolding skips_def using trivia_nil None Cons block by (intro exI [of _ 0]) simp
      next
        case (Some n)
        then have r: "comment_loop (moved lx 2) = (moved lx (2 + n), True)"
          using comment_loop_moved [OF inv2] dr by simp
        have le: "2 + n \<le> length (rest lx)" using comment_end_le [OF Some] Cons block by simp
        have "skips (moved lx (2 + n)) (skipWhitespaceAndComments (moved lx (2 + n)))"
          using IH(4) [OF ne refl] block pk pn [of "0x2F"] pn [of "0x2A"] a2 r inv le by simp
        then show ?thesis
          using skips_step [OF _ le] skips_block [OF _ Some] Cons block sk r by simp
      qed
    next
      case other
      then have "skipWhitespaceAndComments lx = lx"
        using ne pk Cons pn [of "0x2F"] pn [of "0x2A"]
        by (subst skipWhitespaceAndComments.simps) (auto simp: Let_def starts_trivia_def)
      then show ?thesis using stop other by simp
    qed
  qed
qed

section \<open>Lexemes\<close>

text \<open>The lexical grammar: a token type, the text of the token and the characters of the source it stands
  for.\<close>

definition op_text :: "TokenType \<Rightarrow> u8 list option" where
  "op_text type = (case type of Plus \<Rightarrow> Some [0x2B] | Minus \<Rightarrow> Some [0x2D] | Star \<Rightarrow> Some [0x2A] | Slash \<Rightarrow> Some [0x2F]
     | PlusEqual \<Rightarrow> Some [0x2B, 0x3D] | MinusEqual \<Rightarrow> Some [0x2D, 0x3D] | StarEqual \<Rightarrow> Some [0x2A, 0x3D]
     | SlashEqual \<Rightarrow> Some [0x2F, 0x3D] | Equal \<Rightarrow> Some [0x3D] | Semicolon \<Rightarrow> Some [0x3B] | Dot \<Rightarrow> Some [0x2E]
     | Comma \<Rightarrow> Some [0x2C] | Colon \<Rightarrow> Some [0x3A] | LeftBracket \<Rightarrow> Some [0x5B] | RightBracket \<Rightarrow> Some [0x5D]
     | LeftBrace \<Rightarrow> Some [0x7B] | RightBrace \<Rightarrow> Some [0x7D] | LeftParen \<Rightarrow> Some [0x28] | RightParen \<Rightarrow> Some [0x29]
     | _ \<Rightarrow> None)"

inductive string_body :: "u8 list \<Rightarrow> bool" where
  body_nil: "string_body []"
| body_char: "c \<notin> {0x22, 0x0A, 0x0D, 0x5C} \<Longrightarrow> string_body t \<Longrightarrow> string_body (c # t)"
| body_escape: "c \<notin> {0x0A, 0x0D} \<Longrightarrow> string_body t \<Longrightarrow> string_body (0x5C # c # t)"

definition digits1 :: "u8 list \<Rightarrow> bool" where
  "digits1 t \<longleftrightarrow> t \<noteq> [] \<and> list_all isDigit t"

definition fraction :: "u8 list \<Rightarrow> bool" where
  "fraction t \<longleftrightarrow> t = [] \<or> (\<exists>d. t = 0x2E # d \<and> digits1 d)"

definition exponent :: "u8 list \<Rightarrow> bool" where
  "exponent t \<longleftrightarrow> t = [] \<or> (\<exists>e g d. t = e # g @ d \<and> e \<in> {0x65, 0x45} \<and> g \<in> {[], [0x2B], [0x2D]} \<and> digits1 d)"

inductive lexeme :: "TokenType \<Rightarrow> u8 list \<Rightarrow> u8 list \<Rightarrow> bool" where
  lex_identifier: "isAlpha c \<Longrightarrow> list_all isAlphaNumeric t \<Longrightarrow> lexeme Identifier (c # t) (c # t)"
| lex_integer: "digits1 t \<Longrightarrow> lexeme IntegerLiteral t t"
| lex_double: "digits1 t \<Longrightarrow> fraction f \<Longrightarrow> exponent e \<Longrightarrow> f \<noteq> [] \<or> e \<noteq> [] \<Longrightarrow>
    lexeme DoubleLiteral (t @ f @ e) (t @ f @ e)"
| lex_string: "string_body t \<Longrightarrow> lexeme StringLiteral t (0x22 # t @ [0x22])"
| lex_operator: "op_text type = Some t \<Longrightarrow> lexeme type t t"

section \<open>The readers are sound\<close>

text \<open>What a reader returns: a token that stands for the next \<open>n\<close> characters, and the lexer behind them.\<close>

definition reads :: "Lexer \<Rightarrow> Token \<times> Lexer \<Rightarrow> bool" where
  "reads lx r \<longleftrightarrow> (\<exists>n. 0 < n \<and> n \<le> length (rest lx) \<and> snd r = moved lx n
     \<and> (tok_type (fst r) \<noteq> Error \<longrightarrow> lexeme (tok_type (fst r)) (tok_text (fst r)) (take n (rest lx)))
     \<and> tok_line (fst r) = m_line lx \<and> tok_column (fst r) = m_column lx)"

lemma substr_moved [simp]: "substr_text (moved lx k) n m = substr_text lx n m"
  by (simp add: substr_text_def)

lemma substr_rest: "substr_text lx (m_current lx) n = take n (rest lx)"
  by (simp add: substr_text_def rest_def)

lemma substr_rest_from: "substr_text lx (m_current lx + k) n = take n (drop k (rest lx))"
  by (simp add: substr_text_def rest_def add.commute)

lemma readIdentifier_reads:
  assumes "pos_inv lx" "rest lx = c # t" "isAlpha c"
  shows "reads lx (readIdentifier lx)"
proof -
  let ?w = "takeWhile isAlphaNumeric (rest lx)"
  have w: "?w = c # takeWhile isAlphaNumeric t" using assms by (simp add: isAlphaNumeric_def)
  have "list_all isAlphaNumeric (takeWhile isAlphaNumeric t)" by (auto simp: list_all_iff dest: set_takeWhileD)
  then have "lexeme Identifier ?w ?w" using w lex_identifier assms(3) by simp
  moreover have "take (length ?w) (rest lx) = ?w" by (metis takeWhile_eq_take)
  ultimately show ?thesis
    unfolding reads_def readIdentifier_def Let_def advance_while_moved [OF assms(1)]
    using w assms(2) by (intro exI [of _ "length ?w"]) (simp add: substr_rest)
qed

lemma digits_prefix: "list_all isDigit (takeWhile isDigit t)"
  by (auto simp: list_all_iff dest: set_takeWhileD)

lemma read_fraction_spec:
  assumes "pos_inv lx"
  shows "\<exists>n. n \<le> length (rest lx) \<and> snd (read_fraction lx) = moved lx n \<and> fraction (take n (rest lx))
    \<and> (fst (read_fraction lx) \<longleftrightarrow> take n (rest lx) \<noteq> [])"
proof (cases "\<exists>d u. rest lx = 0x2E # d # u \<and> isDigit d")
  case True
  then obtain d u where r: "rest lx = 0x2E # d # u" "isDigit d" by blast
  let ?n = "1 + length (takeWhile isDigit (d # u))"
  have a: "advance lx = moved lx 1" using advance_moved [OF assms] r by simp
  have inv: "pos_inv (moved lx 1)" using assms r by simp
  have rm: "rest (moved lx 1) = d # u" using r by simp
  have "read_fraction lx = (True, moved lx ?n)"
    using r a advance_while_moved [OF inv, of isDigit] rm by (simp add: read_fraction_def peek_rest peekNext_rest isDigit_def)
  moreover have "take ?n (rest lx) = 0x2E # takeWhile isDigit (d # u)" using r by (simp flip: takeWhile_eq_take)
  moreover have "digits1 (takeWhile isDigit (d # u))" using r digits_prefix [of "d # u"] by (simp add: digits1_def)
  moreover have "?n \<le> length (rest lx)" using r by (simp add: length_takeWhile_le)
  ultimately show ?thesis by (intro exI [of _ ?n]) (auto simp: fraction_def)
next
  case False
  then have "read_fraction lx = (False, lx)"
    by (cases "rest lx") (auto simp: read_fraction_def Let_def peek_rest peekNext_rest isDigit_def split: list.splits)
  then show ?thesis using moved_0 [OF assms] by (intro exI [of _ 0]) (simp add: fraction_def)
qed

lemma read_exponent_spec:
  assumes "pos_inv lx"
  shows "\<exists>n. n \<le> length (rest lx) \<and> snd (read_exponent b lx) = moved lx n
    \<and> (\<forall>d. fst (read_exponent b lx) = Some d \<longrightarrow> exponent (take n (rest lx)) \<and> (d \<longleftrightarrow> b \<or> take n (rest lx) \<noteq> []))"
proof (cases "\<exists>e u. rest lx = e # u \<and> (e = 0x65 \<or> e = 0x45)")
  case True
  then obtain e u where r: "rest lx = e # u" and e: "e = 0x65 \<or> e = 0x45" by blast
  define g where "g = (if u \<noteq> [] \<and> (hd u = 0x2B \<or> hd u = 0x2D) then [hd u] else [])"
  define v where "v = drop (length g) u"
  have u: "u = g @ v" by (cases u) (auto simp: g_def v_def)
  have g: "g \<in> {[], [0x2B], [0x2D]}" by (auto simp: g_def)
  let ?k = "1 + length g"
  have a: "advance lx = moved lx 1" using advance_moved [OF assms] r by simp
  have rk: "rest (moved lx ?k) = v" "pos_inv (moved lx ?k)" using r u assms by simp_all
  have l2: "(if \<not> isAtEnd (moved lx 1) \<and> (peek (moved lx 1) = 0x2B \<or> peek (moved lx 1) = 0x2D) then advance (moved lx 1) else moved lx 1)
      = moved lx ?k"
    using advance_moved [of "moved lx 1"] r assms by (cases u) (auto simp: g_def peek_rest)
  have sp: "read_exponent b lx = (if isAtEnd (moved lx ?k) \<or> \<not> isDigit (peek (moved lx ?k)) then (None, moved lx ?k)
      else (Some True, advance_while isDigit (moved lx ?k)))"
    unfolding read_exponent_def Let_def a l2 using r e by (simp add: peek_rest)
  show ?thesis
  proof (cases "v \<noteq> [] \<and> isDigit (hd v)")
    case True
    let ?n = "?k + length (takeWhile isDigit v)"
    have "read_exponent b lx = (Some True, moved lx ?n)"
      using sp rk True advance_while_moved [OF rk(2), of isDigit] by (auto simp: peek_rest add.assoc split: list.split)
    moreover have "take ?n (rest lx) = e # g @ takeWhile isDigit v" using r u by (simp flip: takeWhile_eq_take)
    moreover have "digits1 (takeWhile isDigit v)" using True digits_prefix [of v] by (cases v) (auto simp: digits1_def)
    moreover have "?n \<le> length (rest lx)" using r u by simp
    ultimately show ?thesis using e g by (intro exI [of _ ?n]) (auto simp: exponent_def)
  next
    case False
    then have "read_exponent b lx = (None, moved lx ?k)" using sp rk by (auto simp: peek_rest split: list.split)
    then show ?thesis using r u by (intro exI [of _ ?k]) simp
  qed
next
  case False
  then have "read_exponent b lx = (Some b, lx)"
    by (cases "rest lx") (auto simp: read_exponent_def peek_rest)
  then show ?thesis using moved_0 [OF assms] by (intro exI [of _ 0]) (simp add: exponent_def)
qed

lemma readNumber_reads:
  assumes "pos_inv lx" "rest lx = c # t" "isDigit c"
  shows "reads lx (readNumber lx)"
proof -
  let ?w = "takeWhile isDigit (rest lx)"
  define lx1 where "lx1 = advance_while isDigit lx"
  have l1: "lx1 = moved lx (length ?w)" unfolding lx1_def by (rule advance_while_moved [OF assms(1)])
  have i1: "pos_inv lx1" using assms(1) l1 by (simp add: length_takeWhile_le)
  obtain n2 where n2: "n2 \<le> length (rest lx1)" "snd (read_fraction lx1) = moved lx1 n2" "fraction (take n2 (rest lx1))"
    "fst (read_fraction lx1) \<longleftrightarrow> take n2 (rest lx1) \<noteq> []" using read_fraction_spec [OF i1] by blast
  define lx2 where "lx2 = moved lx1 n2"
  have i2: "pos_inv lx2" using i1 n2 by (simp add: lx2_def)
  obtain n3 where n3: "n3 \<le> length (rest lx2)" "snd (read_exponent (fst (read_fraction lx1)) lx2) = moved lx2 n3"
    "\<And>d. fst (read_exponent (fst (read_fraction lx1)) lx2) = Some d \<Longrightarrow> exponent (take n3 (rest lx2))
       \<and> (d \<longleftrightarrow> fst (read_fraction lx1) \<or> take n3 (rest lx2) \<noteq> [])"
    using read_exponent_spec [OF i2, of "fst (read_fraction lx1)"] by blast
  let ?n = "length ?w + n2 + n3"
  have l3: "moved lx2 n3 = moved lx ?n" by (simp add: lx2_def l1 add.assoc)
  have raw: "take ?n (rest lx) = ?w @ take n2 (rest lx1) @ take n3 (rest lx2)"
    by (simp add: take_add lx2_def l1 flip: takeWhile_eq_take)
  have "digits1 ?w" using assms digits_prefix [of "rest lx"] by (simp add: digits1_def)
  then have lex: "lexeme (if d then DoubleLiteral else IntegerLiteral) (take ?n (rest lx)) (take ?n (rest lx))"
    if "fst (read_exponent (fst (read_fraction lx1)) lx2) = Some d" for d
    using n2(3,4) n3(3) [OF that] raw lex_integer lex_double [of ?w "take n2 (rest lx1)" "take n3 (rest lx2)"] by (cases d) auto
  have "?n \<le> length (rest lx)" using n2(1) n3(1) l1
    by (simp add: lx2_def) (use length_takeWhile_le [of isDigit "rest lx"] in linarith)
  moreover have "0 < ?n" using assms by simp
  moreover have "readNumber lx = (case fst (read_exponent (fst (read_fraction lx1)) lx2) of
           None \<Rightarrow> (makeErrorToken s_InvalidExponent (m_line lx) (m_column lx), moved lx ?n)
         | Some d \<Rightarrow> (\<lparr>tok_type = (if d then DoubleLiteral else IntegerLiteral), tok_text = take ?n (rest lx),
                       tok_line = m_line lx, tok_column = m_column lx\<rparr>, moved lx ?n))"
    using n2(2) n3(2) l3 unfolding readNumber_def Let_def lx1_def [symmetric]
    by (simp add: split_beta lx2_def [symmetric] substr_rest cong: option.case_cong)
  ultimately show ?thesis using lex
    unfolding reads_def by (intro exI [of _ ?n]) (auto simp: makeErrorToken_def split: option.split)
qed

text \<open>The result of the string loop: it moved over a string body up to a quote or the end, or it reports an
  error.\<close>

definition string_ok :: "Lexer \<Rightarrow> (u8 list + unit) \<times> Lexer \<Rightarrow> bool" where
  "string_ok lx r \<longleftrightarrow> (\<exists>n. n \<le> length (rest lx) \<and> snd r = moved lx n
     \<and> (fst r = Inr () \<longrightarrow> string_body (take n (rest lx)) \<and> (drop n (rest lx) = [] \<or> hd (drop n (rest lx)) = 0x22)))"

lemma string_ok_step:
  assumes "string_ok (moved lx j) r" "j \<le> length (rest lx)" "\<And>t. string_body t \<Longrightarrow> string_body (take j (rest lx) @ t)"
  shows "string_ok lx r"
proof -
  obtain n where "n \<le> length (rest lx) - j" "snd r = moved lx (j + n)"
    "fst r = Inr () \<longrightarrow> string_body (take n (drop j (rest lx))) \<and> (drop (j + n) (rest lx) = [] \<or> hd (drop (j + n) (rest lx)) = 0x22)"
    using assms(1) by (auto simp: string_ok_def add.commute)
  then show ?thesis using assms(2,3) unfolding string_ok_def by (intro exI [of _ "j + n"]) (auto simp: take_add)
qed

lemma string_ok_error: "k \<le> length (rest lx) \<Longrightarrow> string_ok lx (Inl m, moved lx k)"
  by (auto simp: string_ok_def)

lemma string_loop_escape:
  assumes "pos_inv lx" "rest lx = 0x5C # t"
  shows "string_loop lx = (case t of [] \<Rightarrow> (Inl s_UnterminatedString, moved lx 1)
    | d # u \<Rightarrow> if d = 0x0A \<or> d = 0x0D then (Inl s_NewlineInString, moved lx 1) else string_loop (moved lx 2))"
proof -
  have a: "advance lx = moved lx 1" using advance_moved [OF assms(1)] assms(2) by simp
  have "advance (moved lx 1) = moved lx 2" if "t \<noteq> []"
    using advance_moved [of "moved lx 1"] assms that by (simp add: numeral_2_eq_2)
  then show ?thesis using assms(2) a
    by (subst string_loop.simps) (auto simp: Let_def peek_rest split: list.splits)
qed

lemma string_loop_ok: "pos_inv lx \<Longrightarrow> string_ok lx (string_loop lx)"
proof (induction "length (rest lx)" arbitrary: lx rule: less_induct)
  case less
  note inv = \<open>pos_inv lx\<close>
  have IH: "string_ok (moved lx j) (string_loop (moved lx j))" if "0 < j" "j \<le> length (rest lx)" for j
    using less.hyps [of "moved lx j"] inv that by simp
  have stay: ?case if "string_loop lx = (Inr (), lx)" "rest lx = [] \<or> hd (rest lx) = 0x22"
    unfolding string_ok_def using that moved_0 [OF inv] body_nil by (intro exI [of _ 0]) simp
  consider (stop) "rest lx = [] \<or> hd (rest lx) = 0x22" | (newline) c t where "rest lx = c # t" "c = 0x0A \<or> c = 0x0D"
    | (escape) t where "rest lx = 0x5C # t" | (plain) c t where "rest lx = c # t" "c \<notin> {0x22, 0x0A, 0x0D, 0x5C}"
    by (cases "rest lx") auto
  then show ?case
  proof cases
    case stop
    then have "string_loop lx = (Inr (), lx)" by (subst string_loop.simps) (auto simp: peek_rest split: list.splits)
    then show ?thesis using stay stop by blast
  next
    case newline
    then have "string_loop lx = (Inl s_NewlineInString, moved lx 0)"
      using moved_0 [OF inv] by (subst string_loop.simps) (auto simp: peek_rest)
    then show ?thesis using string_ok_error [of 0 lx] by simp
  next
    case escape
    then show ?thesis
    proof (cases "\<exists>d u. t = d # u \<and> d \<noteq> 0x0A \<and> d \<noteq> 0x0D")
      case True
      then obtain d u where t: "t = d # u" "d \<noteq> 0x0A" "d \<noteq> 0x0D" by blast
      then have "string_ok lx (string_loop (moved lx 2))"
        using string_ok_step [OF IH] escape body_escape [of d] by simp
      then show ?thesis using string_loop_escape [OF inv escape] t by simp
    next
      case False
      then show ?thesis using string_loop_escape [OF inv escape] string_ok_error [of 1 lx] escape
        by (auto split: list.splits)
    qed
  next
    case plain
    then have "string_loop lx = string_loop (moved lx 1)"
      using advance_moved [OF inv] by (subst string_loop.simps) (auto simp: peek_rest)
    then show ?thesis using string_ok_step [OF IH, of 1] plain body_char [of c] by simp
  qed
qed

lemma readString_reads:
  assumes "pos_inv lx" "rest lx = 0x22 # t"
  shows "reads lx (readString lx)"
proof -
  have a: "advance lx = moved lx 1" and inv: "pos_inv (moved lx 1)" and r: "rest (moved lx 1) = t"
    using advance_moved [OF assms(1)] assms by simp_all
  obtain res lx2 where sl: "string_loop (moved lx 1) = (res, lx2)" by fastforce
  obtain n where n: "n \<le> length t" "lx2 = moved lx (1 + n)"
    "res = Inr () \<longrightarrow> string_body (take n t) \<and> (drop n t = [] \<or> hd (drop n t) = 0x22)"
  proof -
    from string_loop_ok [OF inv] obtain n where "n \<le> length (rest (moved lx 1))" "lx2 = moved (moved lx 1) n"
      "res = Inr () \<longrightarrow> string_body (take n (rest (moved lx 1)))
         \<and> (drop n (rest (moved lx 1)) = [] \<or> hd (drop n (rest (moved lx 1))) = 0x22)"
      unfolding string_ok_def sl fst_conv snd_conv by blast
    then show thesis using that unfolding r by simp
  qed
  show ?thesis
  proof (cases "res = Inr () \<and> drop n t \<noteq> []")
    case True
    then obtain u where u: "drop n t = 0x22 # u" using n(3) by (cases "drop n t") auto
    then have lt: "n < length t" using n(1) by (metis drop_all list.distinct(1) not_less)
    have "advance lx2 = moved lx (2 + n)" using advance_moved [of lx2] assms n lt by simp
    moreover have "substr_text lx (Suc (m_current lx)) n = take n t"
      using substr_rest_from [of lx 1 n] assms(2) by simp
    moreover have "take (2 + n) (rest lx) = 0x22 # take n t @ [0x22]"
      using assms(2) u lt by (simp add: take_Suc_conv_app_nth) (metis hd_drop_conv_nth list.sel(1))
    ultimately show ?thesis
      using True sl n a u lt lex_string [of "take n t"] assms(2) unfolding reads_def
      by (intro exI [of _ "2 + n"]) (simp add: readString_def Let_def)
  next
    case False
    then have "tok_type (fst (readString lx)) = Error" "snd (readString lx) = moved lx (1 + n)"
        "tok_line (fst (readString lx)) = m_line lx" "tok_column (fst (readString lx)) = m_column lx"
      using sl n a assms(2) by (auto simp: readString_def makeErrorToken_def Let_def split: sum.splits)
    then show ?thesis using n assms(2) unfolding reads_def by (intro exI [of _ "1 + n"]) simp
  qed
qed

lemma advance_power: "pos_inv lx \<Longrightarrow> n \<le> length (rest lx) \<Longrightarrow> (advance ^^ n) lx = moved lx n"
proof (induction n)
  case (Suc n)
  then have "pos_inv (moved lx n)" "rest (moved lx n) \<noteq> []" by simp_all
  then have "advance (moved lx n) = moved lx (n + 1)" using advance_moved [of "moved lx n"] by simp
  then show ?case using Suc by simp
qed (simp add: moved_0)

lemma makeToken_moved:
  "pos_inv lx \<Longrightarrow> n \<le> length (rest lx) \<Longrightarrow> makeToken type n lx
     = (\<lparr>tok_type = type, tok_text = take n (rest lx), tok_line = m_line lx, tok_column = m_column lx\<rparr>, moved lx n)"
  by (simp add: makeToken_def substr_rest advance_power)

lemma makeToken_reads:
  "pos_inv lx \<Longrightarrow> rest lx = t @ u \<Longrightarrow> t \<noteq> [] \<Longrightarrow> op_text type = Some t \<Longrightarrow> reads lx (makeToken type (length t) lx)"
  using lex_operator [of type t] makeToken_moved [of lx "length t" type] unfolding reads_def
  by (intro exI [of _ "length t"]) simp

lemma operator_token_reads:
  assumes "pos_inv lx" "rest lx = c # u" "op_text plain = Some [c]" "op_text compound = Some [c, 0x3D]"
  shows "reads lx (operator_token lx compound plain)"
proof (cases "peekNext lx = 0x3D")
  case True
  then obtain v where "u = 0x3D # v" using assms(2) by (cases u) (auto simp: peekNext_rest)
  then show ?thesis using True makeToken_reads [of lx "[c, 0x3D]" v compound] assms
    by (simp add: operator_token_def numeral_2_eq_2)
next
  case False
  then show ?thesis using makeToken_reads [of lx "[c]" u plain] assms by (simp add: operator_token_def)
qed

lemma single_char_op: "single_char_type c = Some type \<Longrightarrow> op_text type = Some [c]"
  by (auto simp: single_char_type_def op_text_def split: if_splits)

lemma dispatch_reads:
  assumes "pos_inv lx" "rest lx \<noteq> []"
  shows "reads lx (dispatch lx)"
proof -
  obtain c u where r: "rest lx = c # u" using assms(2) by (cases "rest lx") auto
  then have pk: "peek lx = c" by (simp add: peek_rest)
  note op = operator_token_reads [OF assms(1) r]
  show ?thesis
  proof (cases "isAlpha c \<or> isDigit c \<or> c \<in> {0x22, 0x2B, 0x2D, 0x2A, 0x2F}")
    case True
    then show ?thesis
      using readIdentifier_reads [OF assms(1) r] readNumber_reads [OF assms(1) r] readString_reads [OF assms(1)] r op pk
      unfolding dispatch_def Let_def pk by (auto simp: op_text_def)
  next
    case False
    show ?thesis
    proof (cases "single_char_type c")
      case None
      then have "dispatch lx = (makeErrorToken s_UnexpectedCharacter (m_line lx) (m_column lx), moved lx 1)"
        using False advance_moved [OF assms] pk by (simp add: dispatch_def)
      then show ?thesis using r unfolding reads_def by (intro exI [of _ 1]) (simp add: makeErrorToken_def)
    next
      case (Some type)
      then have "dispatch lx = makeToken type 1 lx" using False pk by (simp add: dispatch_def)
      then show ?thesis using makeToken_reads [OF assms(1) _ _ single_char_op [OF Some]] r by simp
    qed
  qed
qed

definition lex_inv :: "Lexer \<Rightarrow> bool" where
  "lex_inv lx \<longleftrightarrow> pos_inv lx \<and> \<not> m_hasPendingError lx"

lemma next_token_cases:
  assumes "lex_inv lx"
  shows "\<exists>k. k \<le> length (rest lx) \<and> trivia (take k (rest lx)) \<and>
    ((\<exists>t. drop k (rest lx) = 0x2F # 0x2A # t \<and> comment_end t = None
        \<and> tok_type (fst (next_token lx)) = Error \<and> tok_line (fst (next_token lx)) = line_of (m_source lx) (m_current lx + k)
        \<and> tok_column (fst (next_token lx)) = column_of (m_source lx) (m_current lx + k)
        \<and> pos_inv (snd (next_token lx)) \<and> \<not> m_hasPendingError (snd (next_token lx))
        \<and> m_source (snd (next_token lx)) = m_source lx \<and> rest (snd (next_token lx)) = [])
     \<or> \<not> starts_trivia (drop k (rest lx)) \<and> next_token lx = (if drop k (rest lx) = [] then makeToken EndOfFile 0 (moved lx k)
          else dispatch (moved lx k)))"
proof -
  have inv: "pos_inv lx" and np: "\<not> m_hasPendingError lx" using assms by (simp_all add: lex_inv_def)
  obtain k where k: "k \<le> length (rest lx)" "trivia (take k (rest lx))"
    and c: "skipWhitespaceAndComments lx = moved lx k \<and> \<not> starts_trivia (drop k (rest lx))
      \<or> skipWhitespaceAndComments lx = unterminated lx k \<and> (\<exists>t. drop k (rest lx) = 0x2F # 0x2A # t \<and> comment_end t = None)"
    using skip_correct [OF inv] by (auto simp: skips_def)
  from c show ?thesis
  proof
    assume "skipWhitespaceAndComments lx = moved lx k \<and> \<not> starts_trivia (drop k (rest lx))"
    then show ?thesis using k np by (intro exI [of _ k]) (simp add: next_token_def)
  next
    assume u: "skipWhitespaceAndComments lx = unterminated lx k \<and> (\<exists>t. drop k (rest lx) = 0x2F # 0x2A # t \<and> comment_end t = None)"
    have "pos_inv (moved lx (length (rest lx)))" using inv by simp
    then have "pos_inv ((unterminated lx k)\<lparr>m_hasPendingError := False\<rparr>)" by (simp add: pos_inv_def unterminated_def)
    moreover have "rest ((unterminated lx k)\<lparr>m_hasPendingError := False\<rparr>) = []" by (simp add: unterminated_def rest_def)
    moreover have "next_token lx = (makeErrorToken s_UnterminatedComment (line_of (m_source lx) (m_current lx + k))
        (column_of (m_source lx) (m_current lx + k)), (unterminated lx k)\<lparr>m_hasPendingError := False\<rparr>)"
      using u by (simp add: next_token_def unterminated_def)
    moreover have "m_source (unterminated lx k) = m_source lx" by (simp add: unterminated_def)
    ultimately show ?thesis using k u by (intro exI [of _ k]) (auto simp: makeErrorToken_def)
  qed
qed

text \<open>A token stands for \<open>n\<close> characters behind \<open>k\<close> characters of trivia.\<close>

definition token_at :: "Lexer \<Rightarrow> nat \<Rightarrow> nat \<Rightarrow> Token \<Rightarrow> bool" where
  "token_at lx k n tok \<longleftrightarrow> k + n \<le> length (rest lx) \<and> trivia (take k (rest lx))
     \<and> tok_line tok = line_of (m_source lx) (m_current lx + k) \<and> tok_column tok = column_of (m_source lx) (m_current lx + k)
     \<and> (if tok_type tok = EndOfFile then k = length (rest lx) else 0 < n)
     \<and> (tok_type tok \<notin> {EndOfFile, Error} \<longrightarrow> lexeme (tok_type tok) (tok_text tok) (take n (drop k (rest lx))))"

lemma lexeme_not_special: "lexeme type t raw \<Longrightarrow> type \<noteq> EndOfFile \<and> type \<noteq> Error"
  by (auto elim: lexeme.cases simp: op_text_def)

lemma next_token_ok:
  assumes "lex_inv lx" "next_token lx = (tok, lx')"
  shows "lex_inv lx' \<and> m_source lx' = m_source lx \<and> (\<exists>k n. token_at lx k n tok \<and> m_current lx' = m_current lx + k + n)"
proof -
  have inv: "pos_inv lx" "\<not> m_hasPendingError lx" using assms(1) by (simp_all add: lex_inv_def)
  obtain k where k: "k \<le> length (rest lx)" "trivia (take k (rest lx))" and c:
    "(\<exists>t. drop k (rest lx) = 0x2F # 0x2A # t \<and> tok_type tok = Error \<and> tok_line tok = line_of (m_source lx) (m_current lx + k)
        \<and> tok_column tok = column_of (m_source lx) (m_current lx + k) \<and> pos_inv lx' \<and> \<not> m_hasPendingError lx'
       \<and> m_source lx' = m_source lx \<and> rest lx' = [])
     \<or> (tok, lx') = (if drop k (rest lx) = [] then makeToken EndOfFile 0 (moved lx k) else dispatch (moved lx k))"
    using next_token_cases [OF assms(1)] unfolding assms(2) fst_conv snd_conv by blast
  from c show ?thesis
  proof
    assume u: "\<exists>t. drop k (rest lx) = 0x2F # 0x2A # t \<and> tok_type tok = Error \<and> tok_line tok = line_of (m_source lx) (m_current lx + k)
        \<and> tok_column tok = column_of (m_source lx) (m_current lx + k) \<and> pos_inv lx' \<and> \<not> m_hasPendingError lx'
       \<and> m_source lx' = m_source lx \<and> rest lx' = []"
    then have lt: "k < length (rest lx)" by (metis drop_all list.distinct(1) not_less)
    have "m_current lx' = m_current lx + k + (length (rest lx) - k)"
      using u k inv by (auto simp: pos_inv_def rest_def)
    moreover have "token_at lx k (length (rest lx) - k) tok" using u k lt by (auto simp: token_at_def)
    ultimately show ?thesis using u by (auto simp: lex_inv_def)
  next
    assume t: "(tok, lx') = (if drop k (rest lx) = [] then makeToken EndOfFile 0 (moved lx k) else dispatch (moved lx k))"
    have ik: "pos_inv (moved lx k)" using inv k by simp
    show ?thesis
    proof (cases "drop k (rest lx) = []")
      case True
      then have "tok_type tok = EndOfFile \<and> tok_line tok = line_of (m_source lx) (m_current lx + k)
          \<and> tok_column tok = column_of (m_source lx) (m_current lx + k) \<and> lx' = moved lx k"
        using t makeToken_moved [OF ik, of 0 EndOfFile] by simp
      then show ?thesis using True inv ik k by (auto simp: lex_inv_def token_at_def)
    next
      case False
      then have d: "dispatch (moved lx k) = (tok, lx')" using t by simp
      obtain n where n: "0 < n" "n \<le> length (drop k (rest lx))" "lx' = moved lx (k + n)"
        "tok_type tok \<noteq> Error \<longrightarrow> lexeme (tok_type tok) (tok_text tok) (take n (drop k (rest lx)))"
        "tok_line tok = line_of (m_source lx) (m_current lx + k)" "tok_column tok = column_of (m_source lx) (m_current lx + k)"
        using dispatch_reads [OF ik] False d by (auto simp: reads_def)
      then have "token_at lx k n tok" using k by (auto simp: token_at_def dest: lexeme_not_special)
      moreover have "m_current lx' = m_current lx + k + n" "lex_inv lx'" using n inv k by (simp_all add: lex_inv_def)
      ultimately show ?thesis using n(3) by auto
    qed
  qed
qed

text \<open>Every token but the last consumes characters; the end of file stays the end of file.\<close>

lemma next_token_progress:
  assumes "lex_inv lx" "next_token lx = (tok, lx')"
  shows "lex_inv lx' \<and> (if tok_type tok = EndOfFile then rest lx' = [] else length (rest lx') < length (rest lx))"
proof -
  obtain k n where t: "token_at lx k n tok" "m_current lx' = m_current lx + k + n" and l: "lex_inv lx'" "m_source lx' = m_source lx"
    using next_token_ok [OF assms] by blast
  then have "rest lx' = drop (k + n) (rest lx)" by (simp add: rest_def add.commute add.left_commute)
  then show ?thesis using t l by (auto simp: token_at_def split: if_splits)
qed

lemma lex_inv_new: "lex_inv (Lexer_new src)"
  by (simp add: lex_inv_def pos_inv_def Lexer_new_def line_of_def column_of_def)

text \<open>C34: \<open>Lexer::next\<close> always returns, and what it returns is right: behind a run of whitespace and complete
  comments stands a lexeme of the token's type with the token's text (or the source ends, or an
  error is reported), the token carries the line and column at which it starts, the lexer stands
  right behind it, and every token except the end of file consumes at least one character.\<close>

theorem next_token_correct:
  assumes "lex_inv lx"
  shows "\<exists>tok lx' k n. next_token lx = (tok, lx') \<and> lex_inv lx' \<and> m_source lx' = m_source lx \<and> m_current lx' = m_current lx + k + n
    \<and> k + n \<le> length (rest lx) \<and> trivia (take k (rest lx))
    \<and> tok_line tok = line_of (m_source lx) (m_current lx + k) \<and> tok_column tok = column_of (m_source lx) (m_current lx + k)
    \<and> (if tok_type tok = EndOfFile then k = length (rest lx) else 0 < n)
    \<and> (tok_type tok \<notin> {EndOfFile, Error} \<longrightarrow> lexeme (tok_type tok) (tok_text tok) (take n (drop k (rest lx))))"
proof -
  obtain tok lx' where n: "next_token lx = (tok, lx')" by fastforce
  then show ?thesis using next_token_ok [OF assms n] unfolding token_at_def by blast
qed

theorem next_token_correct_witness:
  "lex_inv (Lexer_new [0x20, 0x61]) \<and> (\<exists>tok lx'. next_token (Lexer_new [0x20, 0x61]) = (tok, lx') \<and> lex_inv lx')"
  using next_token_correct [OF lex_inv_new [of "[0x20, 0x61]"]] lex_inv_new by blast

section \<open>The readers are complete\<close>

text \<open>A lexeme followed by a blank is read as itself.\<close>

definition token_of :: "TokenType \<Rightarrow> u8 list \<Rightarrow> Lexer \<Rightarrow> Token" where
  "token_of type t lx = \<lparr>tok_type = type, tok_text = t, tok_line = m_line lx, tok_column = m_column lx\<rparr>"

lemma blank_not [simp]: "\<not> isAlphaNumeric 0x20" "\<not> isDigit 0x20" "\<not> isDigit 0x65" "\<not> isDigit 0x45" "\<not> isDigit 0x2E"
  by (simp_all add: isAlphaNumeric_def isAlpha_def isDigit_def)

lemma takeWhile_list_all: "list_all P t \<Longrightarrow> u = [] \<or> \<not> P (hd u) \<Longrightarrow> takeWhile P (t @ u) = t"
  by (induction t) (auto simp: takeWhile_eq_Nil_iff)

lemma readIdentifier_complete:
  assumes "pos_inv lx" "rest lx = (c # t) @ 0x20 # u" "isAlpha c" "list_all isAlphaNumeric t"
  shows "readIdentifier lx = (token_of Identifier (c # t) lx, moved lx (length (c # t)))"
proof -
  have "takeWhile isAlphaNumeric (rest lx) = c # t"
    unfolding assms(2) using assms(3,4) by (intro takeWhile_list_all) (auto simp: isAlphaNumeric_def [of c])
  then show ?thesis
    using advance_while_moved [OF assms(1), of isAlphaNumeric] substr_rest [of lx "length (c # t)"] assms(2)
    by (simp add: readIdentifier_def Let_def token_of_def)
qed

lemma read_fraction_complete:
  assumes "pos_inv lx" "rest lx = f @ v" "fraction f" "v \<noteq> []" "\<not> isDigit (hd v)" "hd v \<noteq> 0x2E"
  shows "read_fraction lx = (f \<noteq> [], moved lx (length f))"
proof (cases f)
  case Nil
  then have "peek lx \<noteq> 0x2E" using assms by (cases v) (auto simp: peek_rest)
  then show ?thesis using Nil moved_0 [OF assms(1)] by (simp add: read_fraction_def)
next
  case (Cons c d)
  then have f: "f = 0x2E # d" "digits1 d" using assms(3) by (auto simp: fraction_def)
  then obtain d0 ds where d: "d = d0 # ds" "isDigit d0" by (cases d) (auto simp: digits1_def)
  have a: "advance lx = moved lx 1" using advance_moved [OF assms(1)] assms(2) f by simp
  have "takeWhile isDigit (d @ v) = d" using f(2) assms(5) by (intro takeWhile_list_all) (auto simp: digits1_def)
  moreover have "pos_inv (moved lx 1)" using assms f by simp
  ultimately have "advance_while isDigit (moved lx 1) = moved lx (1 + length d)"
    using advance_while_moved [of "moved lx 1" isDigit] assms(2) f by simp
  then show ?thesis using assms(2) f d a by (simp add: read_fraction_def Let_def peek_rest peekNext_rest isDigit_def)
qed

lemma read_exponent_complete:
  assumes "pos_inv lx" "rest lx = e @ 0x20 # u" "exponent e"
  shows "read_exponent b lx = (Some (b \<or> e \<noteq> []), moved lx (length e))"
proof (cases e)
  case Nil
  then show ?thesis using assms(2) moved_0 [OF assms(1)] by (simp add: read_exponent_def peek_rest)
next
  case (Cons c0 cs)
  then obtain c g d where e: "e = c # g @ d" "c \<in> {0x65, 0x45}" "g \<in> {[], [0x2B], [0x2D]}" "digits1 d"
    using assms(3) by (auto simp: exponent_def)
  then obtain d0 ds where d: "d = d0 # ds" "isDigit d0" by (cases d) (auto simp: digits1_def)
  have nd: "d0 \<noteq> 0x2B" "d0 \<noteq> 0x2D" using d(2) by (auto simp: isDigit_def)
  have a: "advance lx = moved lx 1" using advance_moved [OF assms(1)] assms(2) e by simp
  let ?k = "1 + length g"
  have l2: "(if \<not> isAtEnd (moved lx 1) \<and> (peek (moved lx 1) = 0x2B \<or> peek (moved lx 1) = 0x2D) then advance (moved lx 1) else moved lx 1)
      = moved lx ?k"
    using advance_moved [of "moved lx 1"] assms(1,2) e d nd by (auto simp: peek_rest)
  have r: "rest (moved lx ?k) = d @ 0x20 # u" "pos_inv (moved lx ?k)" using assms(1,2) e by simp_all
  have "takeWhile isDigit (d @ 0x20 # u) = d" using e(4) by (intro takeWhile_list_all) (auto simp: digits1_def)
  then have "advance_while isDigit (moved lx ?k) = moved lx (?k + length d)"
    using advance_while_moved [OF r(2), of isDigit] r(1) by simp
  then show ?thesis using e d r assms(2)
    unfolding read_exponent_def Let_def a l2 by (auto simp: peek_rest)
qed

lemma readNumber_complete:
  assumes "pos_inv lx" "rest lx = (t @ f @ e) @ 0x20 # u" "digits1 t" "fraction f" "exponent e"
  shows "readNumber lx = (token_of (if f \<noteq> [] \<or> e \<noteq> [] then DoubleLiteral else IntegerLiteral) (t @ f @ e) lx,
    moved lx (length (t @ f @ e)))"
proof -
  have hd_e: "e = [] \<or> (hd e = 0x65 \<or> hd e = 0x45)" using assms(5) by (auto simp: exponent_def)
  then have v: "\<not> isDigit (hd (e @ 0x20 # u))" "hd (e @ 0x20 # u) \<noteq> 0x2E" by (cases e; auto)+
  have "\<not> isDigit (hd (f @ e @ 0x20 # u))" using v assms(4) by (cases f) (auto simp: fraction_def)
  then have "takeWhile isDigit (t @ f @ e @ 0x20 # u) = t"
    using assms(3) by (intro takeWhile_list_all) (auto simp: digits1_def)
  then have l1: "advance_while isDigit lx = moved lx (length t)"
    using advance_while_moved [OF assms(1), of isDigit] assms(2) by simp
  have r1: "pos_inv (moved lx (length t))" "rest (moved lx (length t)) = f @ e @ 0x20 # u" using assms(1,2) by simp_all
  have l2: "read_fraction (moved lx (length t)) = (f \<noteq> [], moved lx (length t + length f))"
    using read_fraction_complete [OF r1 assms(4)] v by simp
  have r2: "pos_inv (moved lx (length t + length f))" "rest (moved lx (length t + length f)) = e @ 0x20 # u"
    using assms(1,2) by simp_all
  show ?thesis
    unfolding readNumber_def Let_def l1 l2
    using read_exponent_complete [OF r2 assms(5)] substr_rest [of lx "length (t @ f @ e)"] assms(2)
    by (simp add: token_of_def add.assoc)
qed

lemma string_loop_complete:
  "string_body t \<Longrightarrow> pos_inv lx \<Longrightarrow> rest lx = t @ 0x22 # u \<Longrightarrow> string_loop lx = (Inr (), moved lx (length t))"
proof (induction t arbitrary: lx rule: string_body.induct)
  case body_nil
  then show ?case using moved_0 [of lx] by (subst string_loop.simps) (simp add: peek_rest)
next
  case (body_char c t)
  then have "string_loop lx = string_loop (moved lx 1)"
    using advance_moved [of lx] by (subst string_loop.simps) (auto simp: peek_rest)
  then show ?case using body_char.IH [of "moved lx 1"] body_char.prems by simp
next
  case (body_escape c t)
  then have "string_loop lx = string_loop (moved lx 2)" using string_loop_escape [of lx "c # t @ 0x22 # u"] by simp
  then show ?case using body_escape.IH [of "moved lx 2"] body_escape.prems by (simp add: numeral_2_eq_2)
qed

lemma readString_complete:
  assumes "pos_inv lx" "rest lx = (0x22 # t @ [0x22]) @ u" "string_body t"
  shows "readString lx = (token_of StringLiteral t lx, moved lx (length t + 2))"
proof -
  have a: "advance lx = moved lx 1" using advance_moved [OF assms(1)] assms(2) by simp
  have sl: "string_loop (moved lx 1) = (Inr (), moved lx (1 + length t))"
    using string_loop_complete [OF assms(3), of "moved lx 1"] assms(1,2) by simp
  have "advance (moved lx (1 + length t)) = moved lx (length t + 2)"
    using advance_moved [of "moved lx (1 + length t)"] assms(1,2) by simp
  then show ?thesis using substr_rest_from [of lx 1 "length t"] assms(2)
    unfolding readString_def a Let_def sl by (simp add: token_of_def)
qed

lemma operator_complete:
  assumes "pos_inv lx" "rest lx = raw @ 0x20 # u" "op_text type = Some raw"
  shows "dispatch lx = (token_of type raw lx, moved lx (length raw))"
proof -
  have m: "makeToken type (length raw) lx = (token_of type raw lx, moved lx (length raw))"
    using makeToken_moved [OF assms(1), of "length raw" type] assms(2) by (simp add: token_of_def)
  have raw: "raw = the (op_text type)" "op_text type \<noteq> None" using assms(3) by simp_all
  have "dispatch lx = makeToken type (length raw) lx"
    by (cases type) (use assms(2) raw in \<open>simp_all add: op_text_def dispatch_def operator_token_def single_char_type_def
        peek_rest peekNext_rest isAlpha_def isDigit_def flip: numeral_2_eq_2\<close>)
  then show ?thesis using m by simp
qed

lemma isAlpha_not: "isAlpha c \<Longrightarrow> \<not> isDigit c" "isDigit c \<Longrightarrow> \<not> isAlpha c"
  by (auto simp: isAlpha_def isDigit_def word_le_nat_alt)

lemma dispatch_complete:
  assumes "lexeme type t raw" "pos_inv lx" "rest lx = raw @ 0x20 # u"
  shows "dispatch lx = (token_of type t lx, moved lx (length raw))"
  using assms(1)
proof cases
  case (lex_identifier c v)
  then show ?thesis using readIdentifier_complete [OF assms(2)] assms(3) by (simp add: dispatch_def peek_rest)
next
  case lex_integer
  then obtain c v where r: "raw = c # v" "isDigit c" by (cases raw) (auto simp: digits1_def)
  then show ?thesis using readNumber_complete [OF assms(2), of t "[]" "[]" u] assms(3) lex_integer
    by (simp add: dispatch_def peek_rest isAlpha_not fraction_def exponent_def)
next
  case (lex_double d f e)
  then obtain c v where r: "d = c # v" "isDigit c" by (cases d) (auto simp: digits1_def)
  then show ?thesis using readNumber_complete [OF assms(2), of d f e u] assms(3) lex_double
    by (auto simp: dispatch_def peek_rest isAlpha_not)
next
  case lex_string
  then show ?thesis using readString_complete [OF assms(2), of t "0x20 # u"] assms(3)
    by (simp add: dispatch_def peek_rest isAlpha_def isDigit_def)
next
  case lex_operator
  then show ?thesis using operator_complete [OF assms(2,3)] by simp
qed

lemma digits1_no_trivia: "digits1 d \<Longrightarrow> \<not> starts_trivia (d @ u) \<and> d \<noteq> []"
  by (cases d) (auto simp: digits1_def isDigit_def starts_trivia_def)

lemma op_no_trivia: "op_text type = Some raw \<Longrightarrow> \<not> starts_trivia (raw @ 0x20 # u) \<and> raw \<noteq> []"
  by (cases type) (auto simp: op_text_def starts_trivia_def)

lemma lexeme_no_trivia: "lexeme type t raw \<Longrightarrow> \<not> starts_trivia (raw @ 0x20 # u) \<and> raw \<noteq> []"
  by (erule lexeme.cases) (auto simp: digits1_no_trivia op_no_trivia, auto simp: starts_trivia_def isAlpha_def)

lemma skip_blank:
  assumes "pos_inv lx" "rest lx = 0x20 # t" "\<not> starts_trivia t"
  shows "skipWhitespaceAndComments lx = moved lx 1"
proof -
  have s: "skipWhitespaceAndComments lx = skipWhitespaceAndComments (moved lx 1)"
    using assms advance_moved [OF assms(1)] by (subst skipWhitespaceAndComments.simps) (simp add: peek_rest)
  have "rest (moved lx 1) = t" using assms(2) by simp
  then have "skipWhitespaceAndComments (moved lx 1) = moved lx 1" using assms(3)
    by (subst skipWhitespaceAndComments.simps)
      (cases t, auto simp: Let_def peek_rest peekNext_rest starts_trivia_def split: list.splits)
  then show ?thesis using s by simp
qed

text \<open>Sources written as lexemes separated by blanks, and reading the first \<open>n\<close> tokens of a source.\<close>

definition render :: "(TokenType \<times> u8 list \<times> u8 list) list \<Rightarrow> u8 list" where
  "render ls = concat (map (\<lambda>(type, t, raw). 0x20 # raw) ls) @ [0x20]"

fun lex_tokens :: "nat \<Rightarrow> Lexer \<Rightarrow> Token list" where
  "lex_tokens 0 lx = []"
| "lex_tokens (Suc n) lx = (let (tok, lx') = next_token lx in tok # lex_tokens n lx')"

definition token_key :: "Token \<Rightarrow> TokenType \<times> u8 list" where
  "token_key tok = (tok_type tok, tok_text tok)"

lemma token_key_of [simp]: "token_key (token_of type t lx) = (type, t)"
  by (simp add: token_key_def token_of_def)

lemma render_Cons: "render ((type, t, raw) # ls) = 0x20 # raw @ render ls"
  by (simp add: render_def)

lemma render_blank: "\<exists>u. render ls = 0x20 # u"
  by (cases ls) (auto simp: render_def)

lemma lex_tokens_render:
  assumes "\<forall>(type, t, raw) \<in> set ls. lexeme type t raw" "lex_inv lx" "rest lx = render ls"
  shows "map token_key (lex_tokens (Suc (length ls)) lx) = map (\<lambda>(type, t, raw). (type, t)) ls @ [(EndOfFile, [])]"
  using assms
proof (induction ls arbitrary: lx)
  case Nil
  then have inv: "pos_inv lx" "\<not> m_hasPendingError lx" "rest lx = [0x20]" by (simp_all add: lex_inv_def render_def)
  have "skipWhitespaceAndComments lx = moved lx 1" using skip_blank [OF inv(1,3)] by (simp add: starts_trivia_def)
  then have "next_token lx = makeToken EndOfFile 0 (moved lx 1)" using inv by (simp add: next_token_def)
  then show ?case by (simp add: makeToken_def token_key_def substr_text_def)
next
  case (Cons l ls)
  obtain type t raw where l: "l = (type, t, raw)" by (cases l)
  have inv: "pos_inv lx" "\<not> m_hasPendingError lx" using Cons.prems by (simp_all add: lex_inv_def)
  have lex: "lexeme type t raw" using Cons.prems l by simp
  obtain u where u: "render ls = 0x20 # u" using render_blank by blast
  then have r: "rest lx = 0x20 # raw @ 0x20 # u" using Cons.prems l by (simp add: render_Cons)
  have sk: "skipWhitespaceAndComments lx = moved lx 1" using skip_blank [OF inv(1) r] lexeme_no_trivia [OF lex] by simp
  have "pos_inv (moved lx 1)" "rest (moved lx 1) = raw @ 0x20 # u" using inv r by simp_all
  then have "next_token lx = (token_of type t (moved lx 1), moved lx (1 + length raw))"
    using dispatch_complete [OF lex] sk inv lexeme_no_trivia [OF lex] by (simp add: next_token_def)
  moreover have "lex_inv (moved lx (1 + length raw))" "rest (moved lx (1 + length raw)) = render ls"
    using inv r u by (simp_all add: lex_inv_def)
  ultimately show ?case using Cons.IH [of "moved lx (1 + length raw)"] Cons.prems l
    by (simp add: token_key_of)
qed

text \<open>C35: Lexing undoes rendering: a source that consists of lexemes separated by blanks, of whatever types and
  however many, is read as exactly those tokens with their texts, followed by the end of file.\<close>

theorem lexer_roundtrip:
  assumes "\<forall>(type, t, raw) \<in> set ls. lexeme type t raw"
  shows "map token_key (lex_tokens (Suc (length ls)) (Lexer_new (render ls)))
    = map (\<lambda>(type, t, raw). (type, t)) ls @ [(EndOfFile, [])]"
  using lex_tokens_render [OF assms lex_inv_new] by (simp add: rest_def Lexer_new_def)

theorem lexer_roundtrip_witness:
  "map token_key (lex_tokens 4 (Lexer_new [0x20, 0x61, 0x20, 0x2B, 0x3D, 0x20, 0x22, 0x5C, 0x22, 0x22, 0x20]))
    = [(Identifier, [0x61]), (PlusEqual, [0x2B, 0x3D]), (StringLiteral, [0x5C, 0x22]), (EndOfFile, [])]"
proof -
  let ?ls = "[(Identifier, [0x61], [0x61]), (PlusEqual, [0x2B, 0x3D], [0x2B, 0x3D]), (StringLiteral, [0x5C, 0x22], [0x22, 0x5C, 0x22, 0x22])]
      :: (TokenType \<times> u8 list \<times> u8 list) list"
  have "lexeme Identifier [0x61] [0x61]" by (intro lex_identifier) (simp_all add: isAlpha_def)
  moreover have "lexeme PlusEqual [0x2B, 0x3D] [0x2B, 0x3D]" by (intro lex_operator) (simp add: op_text_def)
  moreover have "lexeme StringLiteral [0x5C, 0x22] [0x22, 0x5C, 0x22, 0x22]"
    using lexeme.lex_string [OF string_body.body_escape [OF _ string_body.body_nil, where c = "0x22"]] by simp
  ultimately have "\<forall>(type, t, raw) \<in> set ?ls. lexeme type t raw" by simp
  from lexer_roundtrip [OF this] show ?thesis by (simp add: render_def eval_nat_numeral)
qed

end
