(* ===== verification/Meta_Value.thy ===== *)
theory Meta_Value
  imports Overflow
begin

text \<open>
  The values of the metascript language: \<^verbatim>\<open>src/core/metascript/value.h\<close> and \<^verbatim>\<open>value.cpp\<close>.
  A 64-bit integer is an \<open>int\<close> that the overflow tests of \<open>Overflow\<close> keep in range; a text is the list
  of its bytes; a hash map is the association list of its entries in insertion order, with distinct keys
  (no operation depends on that order). Floating-point numbers are a type parameter \<open>'f\<close> whose
  operations are the record \<open>f64_ops\<close>. A violated assertion of an accessor is \<open>None\<close>; the operators
  are modelled in the release build, where a failed assertion returns the null value, or leaves the
  target as it was.
\<close>

section \<open>Data\<close>

record 'f f64_ops =
  f_add :: "'f \<Rightarrow> 'f \<Rightarrow> 'f"
  f_sub :: "'f \<Rightarrow> 'f \<Rightarrow> 'f"
  f_mul :: "'f \<Rightarrow> 'f \<Rightarrow> 'f"
  f_div :: "'f \<Rightarrow> 'f \<Rightarrow> 'f"
  f_neg :: "'f \<Rightarrow> 'f"
  f_of_int :: "int \<Rightarrow> 'f"
  f_is_zero :: "'f \<Rightarrow> bool"
  f_from_chars :: "u8 list \<Rightarrow> 'f option"

datatype 'f Value = Null | Integer int | Double 'f | String_v "u8 list" | Reference "u8 list"
  | List_v "'f Value list" | Map_v "(u8 list \<times> 'f Value) list"

definition isNull :: "'f Value \<Rightarrow> bool" where "isNull v = (v = Null)"
definition isInteger :: "'f Value \<Rightarrow> bool" where "isInteger v = (case v of Integer _ \<Rightarrow> True | _ \<Rightarrow> False)"
definition isDouble :: "'f Value \<Rightarrow> bool" where "isDouble v = (case v of Double _ \<Rightarrow> True | _ \<Rightarrow> False)"
definition isString :: "'f Value \<Rightarrow> bool" where "isString v = (case v of String_v _ \<Rightarrow> True | _ \<Rightarrow> False)"
definition isReference :: "'f Value \<Rightarrow> bool" where "isReference v = (case v of Reference _ \<Rightarrow> True | _ \<Rightarrow> False)"
definition isList :: "'f Value \<Rightarrow> bool" where "isList v = (case v of List_v _ \<Rightarrow> True | _ \<Rightarrow> False)"
definition isMap :: "'f Value \<Rightarrow> bool" where "isMap v = (case v of Map_v _ \<Rightarrow> True | _ \<Rightarrow> False)"
definition isNumeric :: "'f Value \<Rightarrow> bool" where
  "isNumeric v = (case v of Integer _ \<Rightarrow> True | Double _ \<Rightarrow> True | _ \<Rightarrow> False)"

lemmas value_tests = isNull_def isInteger_def isDouble_def isString_def isReference_def isList_def isMap_def isNumeric_def

section \<open>Accessors\<close>

fun asInteger :: "'f Value \<Rightarrow> int option" where
  "asInteger (Integer i) = Some i" | "asInteger _ = None"

fun asDouble :: "'f Value \<Rightarrow> 'f option" where
  "asDouble (Double d) = Some d" | "asDouble _ = None"

fun toDouble :: "'f f64_ops \<Rightarrow> 'f Value \<Rightarrow> 'f option" where
  "toDouble fo (Integer i) = Some (f_of_int fo i)"
| "toDouble fo (Double d) = Some d"
| "toDouble fo _ = None"

fun asString :: "'f Value \<Rightarrow> u8 list option" where
  "asString (String_v s) = Some s" | "asString _ = None"

fun asReference :: "'f Value \<Rightarrow> u8 list option" where
  "asReference (Reference s) = Some s" | "asReference _ = None"

fun asList :: "'f Value \<Rightarrow> 'f Value list option" where
  "asList (List_v xs) = Some xs" | "asList _ = None"

fun asMap :: "'f Value \<Rightarrow> (u8 list \<times> 'f Value) list option" where
  "asMap (Map_v m) = Some m" | "asMap _ = None"

fun copyString :: "'f Value \<Rightarrow> u8 list" where
  "copyString (String_v s) = s" | "copyString _ = []"

text \<open>\<open>copyStringList\<close> appends to the output list only after every element was found to be a string.\<close>

definition copyStringList :: "'f Value \<Rightarrow> u8 list list \<Rightarrow> bool \<times> u8 list list" where
  "copyStringList v outList =
     (case v of List_v xs \<Rightarrow>
        if list_all isString xs then (True, outList @ map (\<lambda>e. the (asString e)) xs) else (False, outList)
      | _ \<Rightarrow> (False, outList))"

section \<open>Maps and lists\<close>

text \<open>\<open>map_modify\<close> is a write through the reference that \<open>field\<close> returns: an existing entry is changed, a
  missing one is first added as null.\<close>

fun map_modify :: "(u8 list \<times> 'f Value) list \<Rightarrow> u8 list \<Rightarrow> ('f Value \<Rightarrow> 'f Value) \<Rightarrow> (u8 list \<times> 'f Value) list" where
  "map_modify [] name g = [(name, g Null)]"
| "map_modify ((k, v) # m) name g = (if k = name then (k, g v) # m else (k, v) # map_modify m name g)"

definition field :: "'f Value \<Rightarrow> u8 list \<Rightarrow> ('f Value \<Rightarrow> 'f Value) \<Rightarrow> 'f Value option" where
  "field v name g =
     (case v of Null \<Rightarrow> Some (Map_v (map_modify [] name g))
      | Map_v m \<Rightarrow> Some (Map_v (map_modify m name g))
      | _ \<Rightarrow> None)"

definition findField :: "'f Value \<Rightarrow> u8 list \<Rightarrow> 'f Value option option" where
  "findField v name = (case v of Map_v m \<Rightarrow> Some (map_of m name) | _ \<Rightarrow> None)"

text \<open>\<open>append\<close> of a value that is not part of the list, of the list itself, and of one of its elements (which
  is left null).\<close>

definition value_append :: "'f Value \<Rightarrow> 'f Value \<Rightarrow> 'f Value option" where
  "value_append v x =
     (case v of Null \<Rightarrow> Some (List_v [x])
      | List_v xs \<Rightarrow> if length xs = usize_max then Some v else Some (List_v (xs @ [x]))
      | _ \<Rightarrow> None)"

definition value_append_self :: "'f Value \<Rightarrow> 'f Value option" where
  "value_append_self v =
     (case v of Null \<Rightarrow> Some (List_v [Null])
      | List_v xs \<Rightarrow> if length xs = usize_max then Some v else Some (List_v (xs @ [v]))
      | _ \<Rightarrow> None)"

definition value_append_element :: "'f Value \<Rightarrow> nat \<Rightarrow> 'f Value option" where
  "value_append_element v i =
     (case v of List_v xs \<Rightarrow>
        if length xs = usize_max then Some v else Some (List_v ((xs @ [xs ! i])[i := Null]))
      | _ \<Rightarrow> None)"

text \<open>\<open>copyFrom\<close> copies element by element and entry by entry.\<close>

fun copyFrom :: "'f Value \<Rightarrow> 'f Value" where
  "copyFrom Null = Null"
| "copyFrom (Integer i) = Integer i"
| "copyFrom (Double d) = Double d"
| "copyFrom (String_v s) = String_v s"
| "copyFrom (Reference s) = Reference s"
| "copyFrom (List_v xs) = List_v (map copyFrom xs)"
| "copyFrom (Map_v m) = Map_v (fold (\<lambda>(k, v) out. if k \<in> fst ` set out then out else out @ [(k, v)])
     (map (\<lambda>(k, v). (k, copyFrom v)) m) [])"

section \<open>Operators\<close>

definition value_plus :: "'f f64_ops \<Rightarrow> 'f Value \<Rightarrow> 'f Value \<Rightarrow> 'f Value" where
  "value_plus fo l r =
     (case (l, r) of
        (Integer a, Integer b) \<Rightarrow> if AddOverflows_s 64 a b then Null else Integer (a + b)
      | (String_v a, String_v b) \<Rightarrow> if length a > usize_max - length b then Null else String_v (a @ b)
      | (List_v a, List_v b) \<Rightarrow> if length a > usize_max - length b then Null else List_v (a @ b)
      | _ \<Rightarrow> (case (toDouble fo l, toDouble fo r) of (Some a, Some b) \<Rightarrow> Double (f_add fo a b) | _ \<Rightarrow> Null))"

definition value_minus :: "'f f64_ops \<Rightarrow> 'f Value \<Rightarrow> 'f Value \<Rightarrow> 'f Value" where
  "value_minus fo l r =
     (case (l, r) of
        (Integer a, Integer b) \<Rightarrow> if SubtractOverflows_s 64 a b then Null else Integer (a - b)
      | _ \<Rightarrow> (case (toDouble fo l, toDouble fo r) of (Some a, Some b) \<Rightarrow> Double (f_sub fo a b) | _ \<Rightarrow> Null))"

definition value_times :: "'f f64_ops \<Rightarrow> 'f Value \<Rightarrow> 'f Value \<Rightarrow> 'f Value" where
  "value_times fo l r =
     (case (l, r) of
        (Integer a, Integer b) \<Rightarrow> if MultiplyOverflows_s 64 a b then Null else Integer (a * b)
      | _ \<Rightarrow> (case (toDouble fo l, toDouble fo r) of (Some a, Some b) \<Rightarrow> Double (f_mul fo a b) | _ \<Rightarrow> Null))"

definition value_divide :: "'f f64_ops \<Rightarrow> 'f Value \<Rightarrow> 'f Value \<Rightarrow> 'f Value" where
  "value_divide fo l r =
     (case (l, r) of
        (Integer a, Integer b) \<Rightarrow>
          if b = 0 then Null else if DivideOverflows_s 64 a b then Null else Integer (a sdiv b)
      | _ \<Rightarrow> (case (toDouble fo l, toDouble fo r) of
                (Some a, Some b) \<Rightarrow> if f_is_zero fo b then Null else Double (f_div fo a b) | _ \<Rightarrow> Null))"

definition value_plus_assign :: "'f f64_ops \<Rightarrow> 'f Value \<Rightarrow> 'f Value \<Rightarrow> 'f Value" where
  "value_plus_assign fo l r =
     (case (l, r) of
        (Integer a, Integer b) \<Rightarrow> if AddOverflows_s 64 a b then l else Integer (a + b)
      | (String_v a, String_v b) \<Rightarrow> if length a > usize_max - length b then l else String_v (a @ b)
      | (List_v a, List_v b) \<Rightarrow> if length a > usize_max - length b then l else List_v (a @ b)
      | (List_v a, _) \<Rightarrow> if length a = usize_max then l else List_v (a @ [r])
      | _ \<Rightarrow> (case (toDouble fo l, toDouble fo r) of (Some a, Some b) \<Rightarrow> Double (f_add fo a b) | _ \<Rightarrow> l))"

definition value_minus_assign :: "'f f64_ops \<Rightarrow> 'f Value \<Rightarrow> 'f Value \<Rightarrow> 'f Value" where
  "value_minus_assign fo l r =
     (case (l, r) of
        (Integer a, Integer b) \<Rightarrow> if SubtractOverflows_s 64 a b then l else Integer (a - b)
      | _ \<Rightarrow> (case (toDouble fo l, toDouble fo r) of (Some a, Some b) \<Rightarrow> Double (f_sub fo a b) | _ \<Rightarrow> l))"

definition value_times_assign :: "'f f64_ops \<Rightarrow> 'f Value \<Rightarrow> 'f Value \<Rightarrow> 'f Value" where
  "value_times_assign fo l r =
     (case (l, r) of
        (Integer a, Integer b) \<Rightarrow> if MultiplyOverflows_s 64 a b then l else Integer (a * b)
      | _ \<Rightarrow> (case (toDouble fo l, toDouble fo r) of (Some a, Some b) \<Rightarrow> Double (f_mul fo a b) | _ \<Rightarrow> l))"

definition value_divide_assign :: "'f f64_ops \<Rightarrow> 'f Value \<Rightarrow> 'f Value \<Rightarrow> 'f Value" where
  "value_divide_assign fo l r =
     (case (l, r) of
        (Integer a, Integer b) \<Rightarrow>
          if b = 0 then l else if DivideOverflows_s 64 a b then l else Integer (a sdiv b)
      | _ \<Rightarrow> (case (toDouble fo l, toDouble fo r) of
                (Some a, Some b) \<Rightarrow> if f_is_zero fo b then l else Double (f_div fo a b) | _ \<Rightarrow> l))"

section \<open>Well-formed values\<close>

text \<open>Integers in range and distinct keys, all the way down.\<close>

fun value_ok :: "'f Value \<Rightarrow> bool" where
  "value_ok (Integer i) \<longleftrightarrow> in_range 64 i"
| "value_ok (List_v xs) \<longleftrightarrow> (\<forall>x \<in> set xs. value_ok x)"
| "value_ok (Map_v m) \<longleftrightarrow> distinct (map fst m) \<and> (\<forall>p \<in> set m. value_ok (snd p))"
| "value_ok _ \<longleftrightarrow> True"

lemma toDouble_numeric: "isNumeric v \<longleftrightarrow> (\<exists>d. toDouble fo v = Some d)"
  by (cases v) (simp_all add: isNumeric_def)

section \<open>Operators\<close>

lemmas value_operators = value_plus_def value_minus_def value_times_def value_divide_def
lemmas value_assignments = value_plus_assign_def value_minus_assign_def value_times_assign_def value_divide_assign_def

lemma integer_operators:
  assumes "in_range 64 a" "in_range 64 b"
  shows "value_plus fo (Integer a) (Integer b) = (if in_range 64 (a + b) then Integer (a + b) else Null)"
    and "value_minus fo (Integer a) (Integer b) = (if in_range 64 (a - b) then Integer (a - b) else Null)"
    and "value_times fo (Integer a) (Integer b) = (if in_range 64 (a * b) then Integer (a * b) else Null)"
    and "value_divide fo (Integer a) (Integer b) = (if b \<noteq> 0 \<and> in_range 64 (a sdiv b) then Integer (a sdiv b) else Null)"
  using assms by (simp_all add: value_operators AddOverflows_s_iff SubtractOverflows_s_iff MultiplyOverflows_s_iff
      DivideOverflows_s_iff)

text \<open>An assignment operator stores what the operator returns, and keeps the target where the operator
  fails; a list target also takes a single value.\<close>

lemma plus_assign_operator:
  "\<not> (isList l \<and> \<not> isList r) \<Longrightarrow> value_plus_assign fo l r = (if value_plus fo l r = Null then l else value_plus fo l r)"
  by (cases l; cases r) (simp_all add: value_plus_def value_plus_assign_def isList_def)

lemma other_assign_operators:
  "value_minus_assign fo l r = (if value_minus fo l r = Null then l else value_minus fo l r)"
  "value_times_assign fo l r = (if value_times fo l r = Null then l else value_times fo l r)"
  "value_divide_assign fo l r = (if value_divide fo l r = Null then l else value_divide fo l r)"
  by (cases l; cases r; simp add: value_operators value_assignments)+

lemma mixed_operators_ok:
  assumes "\<not> (isInteger l \<and> isInteger r)" "value_ok l" "value_ok r"
  shows "value_ok (value_plus fo l r)" "value_ok (value_minus fo l r)" "value_ok (value_times fo l r)" "value_ok (value_divide fo l r)"
  using assms by (cases l; cases r; auto simp: value_operators isInteger_def)+

lemma operators_ok:
  assumes "value_ok l" "value_ok r"
  shows "value_ok (value_plus fo l r)" "value_ok (value_minus fo l r)" "value_ok (value_times fo l r)" "value_ok (value_divide fo l r)"
proof -
  have "value_ok (value_plus fo l r) \<and> value_ok (value_minus fo l r) \<and> value_ok (value_times fo l r) \<and> value_ok (value_divide fo l r)"
  proof (cases "isInteger l \<and> isInteger r")
    case True
    then obtain a b where ab: "l = Integer a" "r = Integer b" by (auto simp: isInteger_def split: Value.splits)
    then have r: "in_range 64 a" "in_range 64 b" using assms by simp_all
    show ?thesis unfolding ab integer_operators [OF r] by simp
  next
    case False
    then show ?thesis using mixed_operators_ok [OF False assms, of fo] by simp
  qed
  then show "value_ok (value_plus fo l r)" "value_ok (value_minus fo l r)" "value_ok (value_times fo l r)" "value_ok (value_divide fo l r)"
    by blast+
qed

lemma assignments_ok:
  assumes "value_ok l" "value_ok r"
  shows "value_ok (value_plus_assign fo l r)" "value_ok (value_minus_assign fo l r)"
    "value_ok (value_times_assign fo l r)" "value_ok (value_divide_assign fo l r)"
proof -
  have "value_ok (value_plus_assign fo l r)" if "isList l" "\<not> isList r"
    using assms that by (cases l; cases r) (auto simp: value_plus_assign_def isList_def)
  then show "value_ok (value_plus_assign fo l r)"
    using plus_assign_operator [of l r fo] operators_ok [OF assms, of fo] assms by (metis (full_types))
  show "value_ok (value_minus_assign fo l r)" "value_ok (value_times_assign fo l r)" "value_ok (value_divide_assign fo l r)"
    unfolding other_assign_operators using operators_ok [OF assms, of fo] assms by simp_all
qed

text \<open>C36: Arithmetic on script values never wraps. On two integers each operator returns the exact result
  (quotients truncate towards zero) when it fits 64 bits and the null value otherwise, also for a zero divisor;
  every operator and every assignment operator keeps values well-formed, and an assignment operator
  stores the operator's result, or keeps its target where the operator fails.\<close>

theorem value_operators_correct:
  assumes "value_ok l" "value_ok r" "in_range 64 a" "in_range 64 b"
  shows "value_plus fo (Integer a) (Integer b) = (if in_range 64 (a + b) then Integer (a + b) else Null)
    \<and> value_minus fo (Integer a) (Integer b) = (if in_range 64 (a - b) then Integer (a - b) else Null)
    \<and> value_times fo (Integer a) (Integer b) = (if in_range 64 (a * b) then Integer (a * b) else Null)
    \<and> value_divide fo (Integer a) (Integer b) = (if b \<noteq> 0 \<and> in_range 64 (a sdiv b) then Integer (a sdiv b) else Null)
    \<and> value_ok (value_plus fo l r) \<and> value_ok (value_minus fo l r) \<and> value_ok (value_times fo l r) \<and> value_ok (value_divide fo l r)
    \<and> value_ok (value_plus_assign fo l r) \<and> value_ok (value_minus_assign fo l r)
    \<and> value_ok (value_times_assign fo l r) \<and> value_ok (value_divide_assign fo l r)
    \<and> value_minus_assign fo l r = (if value_minus fo l r = Null then l else value_minus fo l r)
    \<and> value_times_assign fo l r = (if value_times fo l r = Null then l else value_times fo l r)
    \<and> value_divide_assign fo l r = (if value_divide fo l r = Null then l else value_divide fo l r)
    \<and> (isList l \<and> \<not> isList r \<or> value_plus_assign fo l r = (if value_plus fo l r = Null then l else value_plus fo l r))"
proof (intro conjI)
  show "isList l \<and> \<not> isList r \<or> value_plus_assign fo l r = (if value_plus fo l r = Null then l else value_plus fo l r)"
    using plus_assign_operator [of l r fo] by blast
qed (use integer_operators [OF assms(3,4), of fo] operators_ok [OF assms(1,2), of fo] assignments_ok [OF assms(1,2), of fo]
    other_assign_operators [of fo l r] in \<open>simp_all only:\<close>)

definition int_f64_ops :: "int f64_ops" where
  "int_f64_ops = \<lparr>f_add = (+), f_sub = (-), f_mul = (*), f_div = (sdiv), f_neg = uminus, f_of_int = id,
     f_is_zero = (\<lambda>d. d = 0), f_from_chars = (\<lambda>t. None)\<rparr>"

theorem value_operators_correct_witness:
  "value_divide int_f64_ops (Integer (- 7)) (Integer 2) = Integer (- 3)
   \<and> value_plus int_f64_ops (Integer (2 ^ 63 - 1)) (Integer 2) = Null"
proof -
  have r: "in_range 64 (- 7)" "in_range 64 2" "in_range 64 (2 ^ 63 - 1)" "in_range 64 (- 3)" "\<not> in_range 64 (2 ^ 63 - 1 + 2)"
    by (simp_all add: in_range_def s_Min_def s_Max_def)
  have q: "- 7 sdiv (2 :: int) = - 3" by (simp add: sdiv_neg_pos)
  have "value_divide int_f64_ops (Integer (- 7)) (Integer 2) = Integer (- 3)"
    using value_operators_correct [of Null Null "- 7" 2 int_f64_ops] r q by simp
  moreover have "value_plus int_f64_ops (Integer (2 ^ 63 - 1)) (Integer 2) = Null"
    using value_operators_correct [of Null Null "2 ^ 63 - 1" 2 int_f64_ops] r(2,3,5) by simp
  ultimately show ?thesis ..
qed

section \<open>Maps and copies\<close>

lemma map_of_modify:
  "map_of (map_modify m name g) k = (if k = name then Some (g (case map_of m name of None \<Rightarrow> Null | Some v \<Rightarrow> v)) else map_of m k)"
  by (induction m name g rule: map_modify.induct) auto

lemma keys_modify: "fst ` set (map_modify m name g) = insert name (fst ` set m)"
  by (induction m name g rule: map_modify.induct) auto

lemma distinct_modify: "distinct (map fst m) \<Longrightarrow> distinct (map fst (map_modify m name g))"
proof (induction m name g rule: map_modify.induct)
  case (2 k v m name g)
  then show ?case using keys_modify [of m name g] by auto
qed simp

lemma modify_values:
  assumes "\<And>v. value_ok v \<Longrightarrow> value_ok (g v)" "\<forall>p \<in> set m. value_ok (snd p)"
  shows "\<forall>p \<in> set (map_modify m name g). value_ok (snd p)"
  using assms(2)
proof (induction m)
  case Nil
  then show ?case using assms(1) [of Null] by simp
next
  case (Cons p m)
  then show ?case using assms(1) by (cases p) auto
qed

lemma copy_entries:
  "distinct (map fst m) \<Longrightarrow> fst ` set m \<inter> fst ` set out = {} \<Longrightarrow>
   fold (\<lambda>(k, v) out. if k \<in> fst ` set out then out else out @ [(k, v)]) m out = out @ m"
proof (induction m arbitrary: out)
  case (Cons p m)
  obtain k v where p: "p = (k, v)" by fastforce
  have "fst ` set m \<inter> fst ` set (out @ [(k, v)]) = {}" using Cons.prems p by auto
  then show ?case using Cons p by simp
qed simp

lemma copyFrom_id: "value_ok v \<Longrightarrow> copyFrom v = v"
proof (induction v)
  case (List_v xs)
  then show ?case by (simp add: map_idI)
next
  case (Map_v m)
  have "map (\<lambda>(k, v). (k, copyFrom v)) m = m"
  proof (rule map_idI)
    fix p assume p: "p \<in> set m"
    obtain k v where kv: "p = (k, v)" by fastforce
    then have "copyFrom v = v" using Map_v p by (metis value_ok.simps(3) snds.intros snd_conv)
    then show "(case p of (k, v) \<Rightarrow> (k, copyFrom v)) = p" using kv by simp
  qed
  then show ?case using Map_v.prems copy_entries [of m "[]"] by simp
qed simp_all

text \<open>Fields behave like a map: writing through \<open>field\<close> creates a missing entry as null first, changes
  only the entry of that name and keeps the value well-formed; it fails only on a value that is
  neither null nor a map. Copying a value yields an equal value, and appending keeps all elements
  in order.\<close>

lemma value_fields_correct:
  assumes "value_ok v" "\<And>x. value_ok x \<Longrightarrow> value_ok (g x)"
  shows "(field v name g = None \<longleftrightarrow> \<not> isNull v \<and> \<not> isMap v)
    \<and> (\<forall>w. field v name g = Some w \<longrightarrow> value_ok w
         \<and> findField w name = Some (Some (g (case findField v name of Some (Some old) \<Rightarrow> old | _ \<Rightarrow> Null)))
         \<and> (\<forall>other. other \<noteq> name \<longrightarrow> findField w other = (if isNull v then Some None else findField v other)))
    \<and> copyFrom v = v
    \<and> (\<forall>xs x. v = List_v xs \<longrightarrow> length xs < usize_max \<longrightarrow> value_append v x = Some (List_v (xs @ [x])))"
proof -
  have f: "field v name g = None \<longleftrightarrow> \<not> isNull v \<and> \<not> isMap v"
    by (cases v) (simp_all add: field_def isNull_def isMap_def)
  have w: "value_ok w \<and> findField w name = Some (Some (g (case findField v name of Some (Some old) \<Rightarrow> old | _ \<Rightarrow> Null)))
      \<and> (\<forall>other. other \<noteq> name \<longrightarrow> findField w other = (if isNull v then Some None else findField v other))"
    if "field v name g = Some w" for w
  proof (cases v)
    case Null
    then show ?thesis using that assms(2) [of Null] by (auto simp: field_def findField_def isNull_def)
  next
    case (Map_v m)
    then have w: "w = Map_v (map_modify m name g)" using that by (simp add: field_def)
    have "value_ok w" using w assms Map_v distinct_modify [of m name g] modify_values [of g m name] by simp
    then show ?thesis using w Map_v by (simp add: findField_def map_of_modify isNull_def split: option.split)
  qed (use that in \<open>simp_all add: field_def\<close>)
  show ?thesis using f w copyFrom_id [OF assms(1)] by (auto simp: value_append_def)
qed

lemma value_fields_correct_example:
  "\<exists>w. field (Map_v [([0x61], Integer 1)] :: int Value) [0x62] (\<lambda>_. Integer 2) = Some w
     \<and> findField w [0x62] = Some (Some (Integer 2)) \<and> findField w [0x61] = Some (Some (Integer 1))"
proof -
  have ok: "value_ok (Map_v [([0x61], Integer 1)] :: int Value)" "value_ok (Integer 2 :: int Value)"
    by (simp_all add: in_range_def s_Min_def s_Max_def)
  obtain w where w: "field (Map_v [([0x61], Integer 1)] :: int Value) [0x62] (\<lambda>_. Integer 2) = Some w"
    by (simp add: field_def)
  then show ?thesis
    using value_fields_correct [OF ok(1), of "\<lambda>_. Integer 2" "[0x62]"] ok(2) by (auto simp: findField_def isNull_def)
qed

end
