(* ===== verification/Meta_Expr.thy ===== *)
theory Meta_Expr
  imports Meta_Lexer Meta_Value "HOL-Library.Monad_Syntax"
begin

text \<open>
  The expression part of the metascript parser, \<^verbatim>\<open>src/core/metascript/parser.cpp\<close>: the parser state,
  its token and error primitives and the recursive-descent functions for expressions. A state is
  passed along and returned. Every recursive function takes fuel and returns \<open>None\<close> only when it runs
  out of it; the lemma \<open>parseExpression_returns\<close> shows that three units more than twice the work left (the
  characters behind the current token, and the token) are always enough. A parse that fails leaves an entry in the error list, as in the code, and
  returns the null value. A member of a scratch container is an ordinary list, exceptions of the
  arenas are not modelled.
\<close>

section \<open>State\<close>

record ParseError =
  err_line :: u32
  err_column :: u32
  err_message :: "u8 list"

record Declaration =
  decl_type :: "u8 list"
  decl_variable :: "u8 list"

record 'f Parser =
  m_lexer :: Lexer
  m_token :: Token
  m_previous :: Token
  m_errors :: "ParseError list"
  m_variables :: "(u8 list \<times> 'f Value) list"
  m_declarations :: "Declaration list"
  m_declaredStructs :: "u8 list list"
  m_declaredAssetVariable :: "u8 list"

abbreviation type_of :: "'f Parser \<Rightarrow> TokenType" where
  "type_of st \<equiv> tok_type (m_token st)"

abbreviation msg :: "string \<Rightarrow> u8 list" where
  "msg s \<equiv> map of_char s"

section \<open>Errors and tokens\<close>

definition error_at :: "u32 \<Rightarrow> u32 \<Rightarrow> u8 list \<Rightarrow> 'f Parser \<Rightarrow> 'f Parser" where
  "error_at line column message st =
     st\<lparr>m_errors := m_errors st @ [\<lparr>err_line = line, err_column = column, err_message = message\<rparr>]\<rparr>"

definition p_error :: "u8 list \<Rightarrow> 'f Parser \<Rightarrow> 'f Parser" where
  "p_error message st = error_at (tok_line (m_token st)) (tok_column (m_token st)) message st"

definition tokenDescription :: "Token \<Rightarrow> u8 list" where
  "tokenDescription tok =
     (case tok_type tok of
        Identifier \<Rightarrow> msg ''identifier '' @ [0x27] @ tok_text tok @ [0x27]
      | IntegerLiteral \<Rightarrow> msg ''number '' @ [0x27] @ tok_text tok @ [0x27]
      | DoubleLiteral \<Rightarrow> msg ''number '' @ [0x27] @ tok_text tok @ [0x27]
      | StringLiteral \<Rightarrow> msg ''string literal''
      | Plus \<Rightarrow> [0x27, 0x2B, 0x27] | Minus \<Rightarrow> [0x27, 0x2D, 0x27] | Star \<Rightarrow> [0x27, 0x2A, 0x27]
      | Slash \<Rightarrow> [0x27, 0x2F, 0x27] | PlusEqual \<Rightarrow> [0x27, 0x2B, 0x3D, 0x27]
      | MinusEqual \<Rightarrow> [0x27, 0x2D, 0x3D, 0x27] | StarEqual \<Rightarrow> [0x27, 0x2A, 0x3D, 0x27]
      | SlashEqual \<Rightarrow> [0x27, 0x2F, 0x3D, 0x27] | Equal \<Rightarrow> [0x27, 0x3D, 0x27]
      | Semicolon \<Rightarrow> [0x27, 0x3B, 0x27] | Dot \<Rightarrow> [0x27, 0x2E, 0x27] | Comma \<Rightarrow> [0x27, 0x2C, 0x27]
      | Colon \<Rightarrow> [0x27, 0x3A, 0x27] | LeftBracket \<Rightarrow> [0x27, 0x5B, 0x27] | RightBracket \<Rightarrow> [0x27, 0x5D, 0x27]
      | LeftBrace \<Rightarrow> [0x27, 0x7B, 0x27] | RightBrace \<Rightarrow> [0x27, 0x7D, 0x27]
      | LeftParen \<Rightarrow> [0x27, 0x28, 0x27] | RightParen \<Rightarrow> [0x27, 0x29, 0x27]
      | EndOfFile \<Rightarrow> msg ''end of file'' | Error \<Rightarrow> msg ''error'')"

definition errorExpected :: "u8 list \<Rightarrow> 'f Parser \<Rightarrow> 'f Parser" where
  "errorExpected expected st = p_error (expected @ msg '', found '' @ tokenDescription (m_token st)) st"

definition p_advance :: "'f Parser \<Rightarrow> 'f Parser" where
  "p_advance st =
     (let (tok, lx) = next_token (m_lexer st);
          st1 = st\<lparr>m_previous := m_token st, m_token := tok, m_lexer := lx\<rparr>
      in if tok_type tok = Error then p_error (tok_text tok) st1 else st1)"

definition p_expect :: "TokenType \<Rightarrow> u8 list \<Rightarrow> 'f Parser \<Rightarrow> bool \<times> 'f Parser" where
  "p_expect type expected st =
     (if type_of st = type then (True, p_advance st) else (False, errorExpected expected st))"

definition has_errors :: "'f Parser \<Rightarrow> bool" where
  "has_errors st = (m_errors st \<noteq> [])"

section \<open>Operand validation\<close>

definition BinaryI64Overflows :: "TokenType \<Rightarrow> int \<Rightarrow> int \<Rightarrow> bool" where
  "BinaryI64Overflows op lhs rhs =
     (case op of Plus \<Rightarrow> AddOverflows_s 64 lhs rhs | PlusEqual \<Rightarrow> AddOverflows_s 64 lhs rhs
      | Minus \<Rightarrow> SubtractOverflows_s 64 lhs rhs | MinusEqual \<Rightarrow> SubtractOverflows_s 64 lhs rhs
      | Star \<Rightarrow> MultiplyOverflows_s 64 lhs rhs | StarEqual \<Rightarrow> MultiplyOverflows_s 64 lhs rhs
      | Slash \<Rightarrow> DivideOverflows_s 64 lhs rhs | SlashEqual \<Rightarrow> DivideOverflows_s 64 lhs rhs
      | _ \<Rightarrow> False)"

definition isZero :: "'f f64_ops \<Rightarrow> 'f Value \<Rightarrow> bool" where
  "isZero fo v = (case v of Integer i \<Rightarrow> i = 0 | Double d \<Rightarrow> f_is_zero fo d | _ \<Rightarrow> False)"

text \<open>A validation returns \<open>None\<close>, or \<open>Some\<close> of the error messages it reports (none for a null message).\<close>

definition validateNumericOperands ::
    "'f f64_ops \<Rightarrow> TokenType \<Rightarrow> 'f Value \<Rightarrow> 'f Value \<Rightarrow> u8 list option \<Rightarrow> bool \<Rightarrow> u8 list option option" where
  "validateNumericOperands fo op lhs rhs operandError rejectZeroDivisor =
     (if \<not> (isNumeric lhs \<and> isNumeric rhs) then Some operandError
      else if rejectZeroDivisor \<and> isZero fo rhs then Some (Some (msg ''division by zero''))
      else if (case (lhs, rhs) of (Integer a, Integer b) \<Rightarrow> BinaryI64Overflows op a b | _ \<Rightarrow> False)
           then Some (Some (msg ''integer overflow''))
      else None)"

definition size_overflows :: "nat \<Rightarrow> nat \<Rightarrow> bool" where
  "size_overflows a b = (a > usize_max - b)"

definition validateBinaryOperation ::
    "'f f64_ops \<Rightarrow> TokenType \<Rightarrow> 'f Value \<Rightarrow> 'f Value \<Rightarrow> u8 list option option" where
  "validateBinaryOperation fo op lhs rhs =
     (case op of
        Plus \<Rightarrow>
          if isNumeric lhs \<and> isNumeric rhs then validateNumericOperands fo op lhs rhs None False
          else (case (lhs, rhs) of
              (String_v a, String_v b) \<Rightarrow>
                if size_overflows (length a) (length b) then Some (Some (msg ''string concatenation size overflow'')) else None
            | (List_v a, List_v b) \<Rightarrow>
                if size_overflows (length a) (length b) then Some (Some (msg ''list concatenation size overflow'')) else None
            | _ \<Rightarrow> Some (Some (msg ''operator '' @ [0x27, 0x2B, 0x27] @ msg '' requires numeric, string, or list operands of matching types'')))
      | Minus \<Rightarrow> validateNumericOperands fo op lhs rhs (Some (msg ''operator '' @ [0x27, 0x2D, 0x27] @ msg '' requires numeric operands'')) False
      | Star \<Rightarrow> validateNumericOperands fo op lhs rhs (Some (msg ''operator '' @ [0x27, 0x2A, 0x27] @ msg '' requires numeric operands'')) False
      | Slash \<Rightarrow> validateNumericOperands fo op lhs rhs (Some (msg ''operator '' @ [0x27, 0x2F, 0x27] @ msg '' requires numeric operands'')) True
      | _ \<Rightarrow> Some (Some (msg ''unsupported binary operator'')))"

definition report :: "u32 \<Rightarrow> u32 \<Rightarrow> u8 list option \<Rightarrow> 'f Parser \<Rightarrow> 'f Parser" where
  "report line column m st = (case m of None \<Rightarrow> st | Some message \<Rightarrow> error_at line column message st)"

section \<open>References\<close>

definition isNameInList :: "u8 list list \<Rightarrow> u8 list \<Rightarrow> bool" where
  "isNameInList names name = list_ex (\<lambda>currentName. currentName = name) names"

definition isDeclaredVariable :: "'f Parser \<Rightarrow> u8 list \<Rightarrow> bool" where
  "isDeclaredVariable st name = list_ex (\<lambda>declaration. decl_variable declaration = name) (m_declarations st)"

fun join_path :: "u8 list list \<Rightarrow> u8 list" where
  "join_path [] = []"
| "join_path [p] = p"
| "join_path (p # ps) = p @ 0x2E # join_path ps"

definition makeReference :: "u8 list list \<Rightarrow> 'f Parser \<Rightarrow> 'f Value \<times> 'f Parser" where
  "makeReference path st =
     (if \<not> isDeclaredVariable st (hd path) then (Null, p_error (msg ''references must target a declared variable'') st)
      else (Reference (join_path path), st))"

text \<open>The dotted path behind a name; \<open>None\<close> is a missing identifier.\<close>

fun path_loop :: "nat \<Rightarrow> u8 list list \<Rightarrow> 'f Parser \<Rightarrow> (u8 list list option \<times> 'f Parser) option" where
  "path_loop 0 path st = None"
| "path_loop (Suc n) path st =
     (if type_of st = Dot then
        let st1 = p_advance st
        in if type_of st1 \<noteq> Identifier then
             Some (None, errorExpected (msg ''expected identifier after '' @ [0x27, 0x2E, 0x27]) st1)
           else path_loop n (path @ [tok_text (m_token st1)]) (p_advance st1)
      else Some (Some path, st))"

section \<open>Expressions\<close>

text \<open>Each function takes the recursive expression parser \<open>expr\<close> it calls; \<open>parseExpression\<close> ties the knot.\<close>

definition list_append :: "'f Value list \<Rightarrow> 'f Value \<Rightarrow> 'f Value list" where
  "list_append xs x = (if length xs = usize_max then xs else xs @ [x])"

fun list_loop :: "nat \<Rightarrow> ('f Parser \<Rightarrow> ('f Value \<times> 'f Parser) option) \<Rightarrow> TokenType \<Rightarrow> 'f Value list
    \<Rightarrow> 'f Parser \<Rightarrow> ('f Value \<times> 'f Parser) option" where
  "list_loop 0 expr close xs st = None"
| "list_loop (Suc n) expr close xs st = do {
     (elem, st1) \<leftarrow> expr st;
     if has_errors st1 then Some (Null, st1)
     else let xs1 = list_append xs elem
       in if type_of st1 = close then Some (List_v xs1, p_advance st1)
          else let (ok, st2) = p_expect Comma (msg ''expected '' @ [0x27, 0x2C, 0x27] @ msg '' or closing delimiter in list'') st1
            in if \<not> ok then Some (Null, st2)
               else if type_of st2 = close then Some (List_v xs1, p_advance st2)
               else list_loop n expr close xs1 st2 }"

definition parseListLiteral :: "nat \<Rightarrow> ('f Parser \<Rightarrow> ('f Value \<times> 'f Parser) option) \<Rightarrow> TokenType
    \<Rightarrow> 'f Parser \<Rightarrow> ('f Value \<times> 'f Parser) option" where
  "parseListLiteral n expr close st0 =
     (let st = p_advance st0
      in if type_of st = close then Some (List_v [], p_advance st) else list_loop n expr close [] st)"

definition s_ListComma :: "u8 list" where
  "s_ListComma = msg ''expected '' @ [0x27, 0x2C, 0x27] @ msg '' or '' @ [0x27, 0x7D, 0x27] @ msg '' in list''"
definition s_MapComma :: "u8 list" where
  "s_MapComma = msg ''expected '' @ [0x27, 0x2C, 0x27] @ msg '' or '' @ [0x27, 0x7D, 0x27] @ msg '' in map''"
definition s_MapColon :: "u8 list" where
  "s_MapColon = msg ''expected '' @ [0x27, 0x3A, 0x27] @ msg '' after map key''"
definition s_MapKeys :: "u8 list" where
  "s_MapKeys = msg ''map keys must be strings''"

fun map_loop :: "nat \<Rightarrow> ('f Parser \<Rightarrow> ('f Value \<times> 'f Parser) option) \<Rightarrow> (u8 list \<times> 'f Value) list
    \<Rightarrow> 'f Parser \<Rightarrow> ('f Value \<times> 'f Parser) option" where
  "map_loop 0 expr m st = None"
| "map_loop (Suc n) expr m st =
     (if type_of st = RightBrace then Some (Map_v m, p_advance st)
      else do {
        (key, st1) \<leftarrow> expr st;
        if has_errors st1 then Some (Null, st1)
        else case asString key of
            None \<Rightarrow> Some (Null, p_error s_MapKeys st1)
          | Some k \<Rightarrow>
              let (ok, st2) = p_expect Colon s_MapColon st1
              in if \<not> ok then Some (Null, st2)
                 else do {
                   (val, st3) \<leftarrow> expr st2;
                   if has_errors st3 then Some (Null, st3)
                   else let m1 = map_modify m k (\<lambda>_. val)
                     in if type_of st3 = RightBrace then Some (Map_v m1, p_advance st3)
                        else let (ok, st4) = p_expect Comma s_MapComma st3
                          in if \<not> ok then Some (Null, st4)
                             else if type_of st4 = RightBrace then Some (Map_v m1, p_advance st4)
                             else map_loop n expr m1 st4 } })"

definition parseMapLiteralContinuation :: "nat \<Rightarrow> ('f Parser \<Rightarrow> ('f Value \<times> 'f Parser) option)
    \<Rightarrow> 'f Value \<Rightarrow> 'f Parser \<Rightarrow> ('f Value \<times> 'f Parser) option" where
  "parseMapLiteralContinuation n expr firstKey st0 =
     (let st = p_advance st0
      in case asString firstKey of
           None \<Rightarrow> Some (Null, p_error s_MapKeys st)
         | Some k \<Rightarrow> do {
             (firstValue, st1) \<leftarrow> expr st;
             if has_errors st1 then Some (Null, st1)
             else let m = map_modify [] k (\<lambda>_. firstValue)
               in if type_of st1 = RightBrace then Some (Map_v m, p_advance st1)
                  else let (ok, st2) = p_expect Comma s_MapComma st1
                    in if \<not> ok then Some (Null, st2)
                       else if type_of st2 = RightBrace then Some (Map_v m, p_advance st2)
                       else map_loop n expr m st2 })"

fun brace_list_loop :: "nat \<Rightarrow> ('f Parser \<Rightarrow> ('f Value \<times> 'f Parser) option) \<Rightarrow> 'f Value list
    \<Rightarrow> 'f Parser \<Rightarrow> ('f Value \<times> 'f Parser) option" where
  "brace_list_loop 0 expr xs st = None"
| "brace_list_loop (Suc n) expr xs st =
     (if type_of st = RightBrace then Some (List_v xs, p_advance st)
      else do {
        (elem, st1) \<leftarrow> expr st;
        if has_errors st1 then Some (Null, st1)
        else let xs1 = list_append xs elem
          in if type_of st1 = RightBrace then Some (List_v xs1, p_advance st1)
             else let (ok, st2) = p_expect Comma s_ListComma st1
               in if \<not> ok then Some (Null, st2)
                  else if type_of st2 = RightBrace then Some (List_v xs1, p_advance st2)
                  else brace_list_loop n expr xs1 st2 })"

definition parseBraceExpression :: "nat \<Rightarrow> ('f Parser \<Rightarrow> ('f Value \<times> 'f Parser) option)
    \<Rightarrow> 'f Parser \<Rightarrow> ('f Value \<times> 'f Parser) option" where
  "parseBraceExpression n expr st0 =
     (let st = p_advance st0
      in if type_of st = RightBrace then Some (List_v [], p_advance st)
         else do {
           (first, st1) \<leftarrow> expr st;
           if has_errors st1 then Some (Null, st1)
           else if type_of st1 = Colon then parseMapLiteralContinuation n expr first st1
           else let xs = list_append [] first
             in if type_of st1 = RightBrace then Some (List_v xs, p_advance st1)
                else let (ok, st2) = p_expect Comma s_ListComma st1
                  in if \<not> ok then Some (Null, st2)
                     else if type_of st2 = RightBrace then Some (List_v xs, p_advance st2)
                     else brace_list_loop n expr xs st2 })"

definition parsePrimary :: "'f f64_ops \<Rightarrow> nat \<Rightarrow> ('f Parser \<Rightarrow> ('f Value \<times> 'f Parser) option)
    \<Rightarrow> 'f Parser \<Rightarrow> ('f Value \<times> 'f Parser) option" where
  "parsePrimary fo n expr st =
     (case type_of st of
        IntegerLiteral \<Rightarrow>
          let t = tok_text (m_token st); st1 = p_advance st
          in (case ParseI64FromChars t of
                None \<Rightarrow> Some (Null, p_error (msg ''invalid integer literal'') st1)
              | Some i \<Rightarrow> Some (Integer i, st1))
      | DoubleLiteral \<Rightarrow>
          let t = tok_text (m_token st); st1 = p_advance st
          in (case f_from_chars fo t of
                None \<Rightarrow> Some (Null, p_error (msg ''invalid double literal'') st1)
              | Some d \<Rightarrow> Some (Double d, st1))
      | StringLiteral \<Rightarrow> Some (String_v (tok_text (m_token st)), p_advance st)
      | Identifier \<Rightarrow> do {
          (path, st1) \<leftarrow> path_loop n [tok_text (m_token st)] (p_advance st);
          case path of None \<Rightarrow> Some (Null, st1) | Some p \<Rightarrow> Some (makeReference p st1) }
      | LeftBracket \<Rightarrow> parseListLiteral n expr RightBracket st
      | LeftBrace \<Rightarrow> parseBraceExpression n expr st
      | LeftParen \<Rightarrow> do {
          (val, st1) \<leftarrow> expr (p_advance st);
          if has_errors st1 then Some (Null, st1)
          else let (ok, st2) = p_expect RightParen (msg ''expected '' @ [0x27, 0x29, 0x27] @ msg '' after expression'') st1
            in if \<not> ok then Some (Null, st2) else Some (val, st2) }
      | _ \<Rightarrow> Some (Null, errorExpected (msg ''expected expression'') st))"

definition negate :: "'f f64_ops \<Rightarrow> 'f Value \<Rightarrow> 'f Parser \<Rightarrow> 'f Value \<times> 'f Parser" where
  "negate fo val st =
     (case val of
        Integer i \<Rightarrow> if NegateOverflows_s 64 i then (Null, p_error (msg ''integer overflow'') st) else (Integer (- i), st)
      | Double d \<Rightarrow> (Double (f_neg fo d), st)
      | _ \<Rightarrow> (Null, p_error (msg ''unary '' @ [0x27, 0x2D, 0x27] @ msg '' requires numeric operand'') st))"

fun parseUnary :: "'f f64_ops \<Rightarrow> nat \<Rightarrow> ('f Parser \<Rightarrow> ('f Value \<times> 'f Parser) option)
    \<Rightarrow> 'f Parser \<Rightarrow> ('f Value \<times> 'f Parser) option" where
  "parseUnary fo 0 expr st = None"
| "parseUnary fo (Suc n) expr st =
     (if type_of st = Minus then do {
        (val, st1) \<leftarrow> parseUnary fo n expr (p_advance st);
        if has_errors st1 then Some (Null, st1) else Some (negate fo val st1) }
      else parsePrimary fo n expr st)"

text \<open>\<open>parseBinaryExpression\<close>: the loop over the operators of one precedence level, for any operand parser.\<close>

fun binary_loop :: "'f f64_ops \<Rightarrow> nat \<Rightarrow> ('f Parser \<Rightarrow> ('f Value \<times> 'f Parser) option) \<Rightarrow> TokenType \<Rightarrow> TokenType
    \<Rightarrow> (TokenType \<Rightarrow> 'f Value \<Rightarrow> 'f Value \<Rightarrow> 'f Value) \<Rightarrow> 'f Value \<Rightarrow> 'f Parser \<Rightarrow> ('f Value \<times> 'f Parser) option" where
  "binary_loop fo 0 parseNext lhsOp rhsOp applyOperation left st = None"
| "binary_loop fo (Suc n) parseNext lhsOp rhsOp applyOperation left st =
     (if type_of st = lhsOp \<or> type_of st = rhsOp then
        let op = type_of st; opLine = tok_line (m_token st); opColumn = tok_column (m_token st)
        in do {
          (right, st1) \<leftarrow> parseNext (p_advance st);
          if has_errors st1 then Some (Null, st1)
          else case validateBinaryOperation fo op left right of
              Some m \<Rightarrow> Some (Null, report opLine opColumn m st1)
            | None \<Rightarrow> binary_loop fo n parseNext lhsOp rhsOp applyOperation (applyOperation op left right) st1 }
      else Some (left, st))"

definition parseBinaryExpression :: "'f f64_ops \<Rightarrow> nat \<Rightarrow> ('f Parser \<Rightarrow> ('f Value \<times> 'f Parser) option) \<Rightarrow> TokenType
    \<Rightarrow> TokenType \<Rightarrow> (TokenType \<Rightarrow> 'f Value \<Rightarrow> 'f Value \<Rightarrow> 'f Value) \<Rightarrow> 'f Parser \<Rightarrow> ('f Value \<times> 'f Parser) option" where
  "parseBinaryExpression fo n parseNext lhsOp rhsOp applyOperation st = do {
     (left, st1) \<leftarrow> parseNext st;
     if has_errors st1 then Some (left, st1)
     else binary_loop fo n parseNext lhsOp rhsOp applyOperation left st1 }"

definition apply_multiplicative :: "'f f64_ops \<Rightarrow> TokenType \<Rightarrow> 'f Value \<Rightarrow> 'f Value \<Rightarrow> 'f Value" where
  "apply_multiplicative fo op left right = (if op = Star then value_times fo left right else value_divide fo left right)"

definition apply_additive :: "'f f64_ops \<Rightarrow> TokenType \<Rightarrow> 'f Value \<Rightarrow> 'f Value \<Rightarrow> 'f Value" where
  "apply_additive fo op left right = (if op = Plus then value_plus fo left right else value_minus fo left right)"

definition parseMultiplicative :: "'f f64_ops \<Rightarrow> nat \<Rightarrow> ('f Parser \<Rightarrow> ('f Value \<times> 'f Parser) option)
    \<Rightarrow> 'f Parser \<Rightarrow> ('f Value \<times> 'f Parser) option" where
  "parseMultiplicative fo n expr = parseBinaryExpression fo n (parseUnary fo n expr) Star Slash (apply_multiplicative fo)"

definition parseAdditive :: "'f f64_ops \<Rightarrow> nat \<Rightarrow> ('f Parser \<Rightarrow> ('f Value \<times> 'f Parser) option)
    \<Rightarrow> 'f Parser \<Rightarrow> ('f Value \<times> 'f Parser) option" where
  "parseAdditive fo n expr = parseBinaryExpression fo n (parseMultiplicative fo n expr) Plus Minus (apply_additive fo)"

fun parseExpression :: "'f f64_ops \<Rightarrow> nat \<Rightarrow> 'f Parser \<Rightarrow> ('f Value \<times> 'f Parser) option" where
  "parseExpression fo 0 st = None"
| "parseExpression fo (Suc n) st = parseAdditive fo n (parseExpression fo n) st"

section \<open>Progress\<close>

text \<open>The work left: the characters behind the current token and the token itself. Every step of the parser
  keeps the lexer valid, does not add work, only appends errors and leaves the declarations alone.\<close>

definition work :: "'f Parser \<Rightarrow> nat" where
  "work st = length (rest (m_lexer st)) + (if type_of st = EndOfFile then 0 else 1)"

definition ready :: "'f Parser \<Rightarrow> bool" where
  "ready st \<longleftrightarrow> lex_inv (m_lexer st)"

definition same_script :: "'f Parser \<Rightarrow> 'f Parser \<Rightarrow> bool" where
  "same_script st st' \<longleftrightarrow> m_variables st' = m_variables st \<and> m_declarations st' = m_declarations st
     \<and> m_declaredStructs st' = m_declaredStructs st \<and> m_declaredAssetVariable st' = m_declaredAssetVariable st"

definition moves :: "'f Parser \<Rightarrow> 'f Parser \<Rightarrow> bool" where
  "moves st st' \<longleftrightarrow> ready st' \<and> work st' \<le> work st \<and> (\<exists>es. m_errors st' = m_errors st @ es) \<and> same_script st st'"

inductive eats :: "'f Parser \<Rightarrow> (TokenType \<times> u8 list) list \<Rightarrow> 'f Parser \<Rightarrow> bool" where
  eats_none: "eats st [] st"
| eats_token: "type_of st \<noteq> EndOfFile \<Longrightarrow> eats (p_advance st) ts st' \<Longrightarrow> eats st (token_key (m_token st) # ts) st'"

lemma same_script_refl [simp]: "same_script st st"
  by (simp add: same_script_def)

lemma moves_refl: "ready st \<Longrightarrow> moves st st"
  by (simp add: moves_def)

lemma moves_trans: "moves st st1 \<Longrightarrow> moves st1 st2 \<Longrightarrow> moves st st2"
  by (auto simp: moves_def same_script_def)

lemma moves_ready: "moves st st' \<Longrightarrow> ready st'"
  by (simp add: moves_def)

lemma moves_no_errors: "moves st st' \<Longrightarrow> m_errors st' = [] \<Longrightarrow> m_errors st = []"
  by (auto simp: moves_def)

lemma error_at_simps [simp]:
  "m_token (error_at l c m st) = m_token st" "m_lexer (error_at l c m st) = m_lexer st"
  "m_errors (error_at l c m st) \<noteq> []" "same_script st (error_at l c m st)"
  "work (error_at l c m st) = work st" "ready (error_at l c m st) = ready st"
  by (simp_all add: error_at_def same_script_def work_def ready_def)

lemma moves_error_at: "ready st \<Longrightarrow> moves st (error_at l c m st)"
  by (simp add: moves_def) (simp add: error_at_def)

lemma moves_p_error: "ready st \<Longrightarrow> moves st (p_error m st) \<and> m_errors (p_error m st) \<noteq> []"
  by (simp add: p_error_def moves_error_at)

lemma moves_errorExpected: "ready st \<Longrightarrow> moves st (errorExpected m st) \<and> m_errors (errorExpected m st) \<noteq> []"
  by (simp add: errorExpected_def moves_p_error)

lemma p_advance_moves:
  assumes "ready st"
  shows "moves st (p_advance st) \<and> (type_of st \<noteq> EndOfFile \<longrightarrow> work (p_advance st) < work st)"
proof -
  obtain tok lx where n: "next_token (m_lexer st) = (tok, lx)" by fastforce
  let ?st1 = "st\<lparr>m_previous := m_token st, m_token := tok, m_lexer := lx\<rparr>"
  have p: "lex_inv lx \<and> (if tok_type tok = EndOfFile then rest lx = [] else length (rest lx) < length (rest (m_lexer st)))"
    using next_token_progress [OF _ n] assms by (simp add: ready_def)
  then have m1: "moves st ?st1" and w1: "type_of st \<noteq> EndOfFile \<longrightarrow> work ?st1 < work st" and "ready ?st1"
    by (auto simp: moves_def ready_def work_def same_script_def split: if_splits)
  then have m2: "moves ?st1 (p_error (tok_text tok) ?st1)" using moves_p_error by blast
  then have "work (p_error (tok_text tok) ?st1) \<le> work ?st1" by (simp add: moves_def)
  moreover have "p_advance st = (if tok_type tok = Error then p_error (tok_text tok) ?st1 else ?st1)"
    by (simp add: p_advance_def n Let_def)
  ultimately show ?thesis using m1 w1 moves_trans [OF m1 m2] by (cases "tok_type tok = Error") auto
qed

lemmas advance_moves = p_advance_moves [THEN conjunct1]
lemmas advance_works = p_advance_moves [THEN conjunct2, rule_format]

lemma eats_append: "eats st a st1 \<Longrightarrow> eats st1 b st2 \<Longrightarrow> eats st (a @ b) st2"
  by (induction rule: eats.induct) (auto intro: eats_token)

lemma eats_one: "type_of st \<noteq> EndOfFile \<Longrightarrow> eats st [token_key (m_token st)] (p_advance st)"
  by (intro eats_token eats_none)

lemma eats_snoc: "eats st a st1 \<Longrightarrow> type_of st1 \<noteq> EndOfFile \<Longrightarrow> eats st (a @ [token_key (m_token st1)]) (p_advance st1)"
  using eats_append eats_one by blast

lemma eats_work: "eats st ts st' \<Longrightarrow> ready st \<Longrightarrow> work st' + length ts \<le> work st \<and> ready st'"
proof (induction rule: eats.induct)
  case (eats_token st ts st')
  then have "work (p_advance st) < work st" "ready (p_advance st)"
    using advance_works advance_moves moves_ready by blast+
  then show ?case using eats_token by simp
qed simp

section \<open>Results\<close>

text \<open>A parsing function returns: it moves the parser, its value is well-formed, and unless an error was
  reported the result satisfies \<open>Q\<close>.\<close>

definition yields :: "'f Parser \<Rightarrow> ('f Value \<times> 'f Parser) option \<Rightarrow> ('f Value \<Rightarrow> 'f Parser \<Rightarrow> bool) \<Rightarrow> bool" where
  "yields st r Q \<longleftrightarrow> (\<exists>v st'. r = Some (v, st') \<and> moves st st' \<and> value_ok v \<and> (m_errors st' = [] \<longrightarrow> Q v st'))"

lemma yields_ok: "moves st st' \<Longrightarrow> value_ok v \<Longrightarrow> (m_errors st' = [] \<Longrightarrow> Q v st') \<Longrightarrow> yields st (Some (v, st')) Q"
  by (auto simp: yields_def)

lemma yields_error: "moves st st' \<Longrightarrow> m_errors st' \<noteq> [] \<Longrightarrow> yields st (Some (Null, st')) Q"
  by (auto simp: yields_def)

lemma yields_moves: "moves st st1 \<Longrightarrow> yields st1 r Q \<Longrightarrow> yields st r Q"
  unfolding yields_def using moves_trans by blast

lemma yields_mono: "yields st r Q \<Longrightarrow> (\<And>v st'. Q v st' \<Longrightarrow> R v st') \<Longrightarrow> yields st r R"
  unfolding yields_def by blast

lemma yields_seq:
  assumes "yields st f Q"
    and "\<And>v st1. moves st st1 \<Longrightarrow> value_ok v \<Longrightarrow> m_errors st1 = [] \<Longrightarrow> Q v st1 \<Longrightarrow> yields st (k v st1) R"
  shows "yields st (do { (v, st1) \<leftarrow> f; if has_errors st1 then Some (Null, st1) else k v st1 }) R"
proof -
  obtain v st1 where f: "f = Some (v, st1)" "moves st st1" "value_ok v" "m_errors st1 = [] \<longrightarrow> Q v st1"
    using assms(1) by (auto simp: yields_def)
  show ?thesis
  proof (cases "m_errors st1 = []")
    case True
    then show ?thesis using assms(2) f by (simp add: has_errors_def)
  next
    case False
    then show ?thesis using f by (auto simp: has_errors_def intro: yields_error)
  qed
qed

lemma yields_expect:
  assumes "moves st st1" "t \<noteq> EndOfFile"
    and "type_of st1 = t \<Longrightarrow> moves st (p_advance st1) \<Longrightarrow> work (p_advance st1) < work st1 \<Longrightarrow> yields st (k (p_advance st1)) R"
  shows "yields st (let (ok, st2) = p_expect t m st1 in if \<not> ok then Some (Null, st2) else k st2) R"
proof (cases "type_of st1 = t")
  case True
  have "moves st (p_advance st1)" "work (p_advance st1) < work st1"
    using p_advance_moves [OF moves_ready [OF assms(1)]] assms(1,2) True moves_trans by blast+
  then show ?thesis using assms(3) True by (simp add: p_expect_def)
next
  case False
  have "moves st (errorExpected m st1) \<and> m_errors (errorExpected m st1) \<noteq> []"
    using moves_errorExpected [OF moves_ready [OF assms(1)], of m] assms(1) moves_trans by blast
  then show ?thesis using False by (auto simp: p_expect_def intro: yields_error)
qed

section \<open>The expression grammar\<close>

text \<open>The abstract syntax and semantics of expressions: a token sequence and its value, for the declared names
  \<open>ds\<close>. Both binary levels associate to the left, multiplication binds tighter, a unary minus binds
  tighter still; lists and maps allow one trailing comma, and a later map key replaces an earlier one.\<close>

type_synonym key = "TokenType \<times> u8 list"

definition list_brackets :: "TokenType \<Rightarrow> TokenType \<Rightarrow> bool" where
  "list_brackets a b \<longleftrightarrow> a = LeftBracket \<and> b = RightBracket \<or> a = LeftBrace \<and> b = RightBrace"

inductive path_tokens :: "key list \<Rightarrow> u8 list list \<Rightarrow> bool" where
  path_one: "path_tokens [(Identifier, p)] [p]"
| path_more: "path_tokens ts path \<Longrightarrow> path_tokens (ts @ [(Dot, d), (Identifier, p)]) (path @ [p])"

fun negated :: "'f f64_ops \<Rightarrow> 'f Value \<Rightarrow> 'f Value option" where
  "negated fo (Integer i) = (if in_range 64 (- i) then Some (Integer (- i)) else None)"
| "negated fo (Double d) = Some (Double (f_neg fo d))"
| "negated fo _ = None"

inductive gAdditive :: "'f f64_ops \<Rightarrow> u8 list list \<Rightarrow> key list \<Rightarrow> 'f Value \<Rightarrow> bool"
    and gMultiplicative :: "'f f64_ops \<Rightarrow> u8 list list \<Rightarrow> key list \<Rightarrow> 'f Value \<Rightarrow> bool"
    and gUnary :: "'f f64_ops \<Rightarrow> u8 list list \<Rightarrow> key list \<Rightarrow> 'f Value \<Rightarrow> bool"
    and gPrimary :: "'f f64_ops \<Rightarrow> u8 list list \<Rightarrow> key list \<Rightarrow> 'f Value \<Rightarrow> bool"
    and gElements :: "'f f64_ops \<Rightarrow> u8 list list \<Rightarrow> key list \<Rightarrow> 'f Value list \<Rightarrow> bool"
    and gEntries :: "'f f64_ops \<Rightarrow> u8 list list \<Rightarrow> key list \<Rightarrow> (u8 list \<times> 'f Value) list \<Rightarrow> bool"
  for fo :: "'f f64_ops" and ds :: "u8 list list" where
  g_add_one: "gMultiplicative fo ds ts v \<Longrightarrow> gAdditive fo ds ts v"
| g_add_more: "gAdditive fo ds ts a \<Longrightarrow> gMultiplicative fo ds us b \<Longrightarrow> op = Plus \<or> op = Minus \<Longrightarrow>
    validateBinaryOperation fo op a b = None \<Longrightarrow> gAdditive fo ds (ts @ (op, c) # us) (apply_additive fo op a b)"
| g_mul_one: "gUnary fo ds ts v \<Longrightarrow> gMultiplicative fo ds ts v"
| g_mul_more: "gMultiplicative fo ds ts a \<Longrightarrow> gUnary fo ds us b \<Longrightarrow> op = Star \<or> op = Slash \<Longrightarrow>
    validateBinaryOperation fo op a b = None \<Longrightarrow> gMultiplicative fo ds (ts @ (op, c) # us) (apply_multiplicative fo op a b)"
| g_primary: "gPrimary fo ds ts v \<Longrightarrow> gUnary fo ds ts v"
| g_negate: "gUnary fo ds ts v \<Longrightarrow> negated fo v = Some w \<Longrightarrow> gUnary fo ds ((Minus, c) # ts) w"
| g_integer: "ParseI64FromChars t = Some i \<Longrightarrow> gPrimary fo ds [(IntegerLiteral, t)] (Integer i)"
| g_double: "f_from_chars fo t = Some d \<Longrightarrow> gPrimary fo ds [(DoubleLiteral, t)] (Double d)"
| g_string: "gPrimary fo ds [(StringLiteral, t)] (String_v t)"
| g_reference: "path_tokens ts path \<Longrightarrow> hd path \<in> set ds \<Longrightarrow> gPrimary fo ds ts (Reference (join_path path))"
| g_paren: "gAdditive fo ds ts v \<Longrightarrow> gPrimary fo ds ((LeftParen, c) # ts @ [(RightParen, d)]) v"
| g_empty: "list_brackets a b \<Longrightarrow> gPrimary fo ds [(a, c), (b, d)] (List_v [])"
| g_list: "list_brackets a b \<Longrightarrow> gElements fo ds ts xs \<Longrightarrow> tail = [] \<or> tail = [(Comma, e)] \<Longrightarrow>
    gPrimary fo ds ((a, c) # ts @ tail @ [(b, d)]) (List_v xs)"
| g_map: "gEntries fo ds ts m \<Longrightarrow> tail = [] \<or> tail = [(Comma, e)] \<Longrightarrow>
    gPrimary fo ds ((LeftBrace, c) # ts @ tail @ [(RightBrace, d)]) (Map_v m)"
| g_element_one: "gAdditive fo ds ts v \<Longrightarrow> gElements fo ds ts [v]"
| g_element_more: "gElements fo ds ts xs \<Longrightarrow> gAdditive fo ds us v \<Longrightarrow> gElements fo ds (ts @ (Comma, c) # us) (list_append xs v)"
| g_entry_one: "gAdditive fo ds ks (String_v k) \<Longrightarrow> gAdditive fo ds vs v \<Longrightarrow>
    gEntries fo ds (ks @ (Colon, c) # vs) (map_modify [] k (\<lambda>_. v))"
| g_entry_more: "gEntries fo ds ts m \<Longrightarrow> gAdditive fo ds ks (String_v k) \<Longrightarrow> gAdditive fo ds vs v \<Longrightarrow>
    gEntries fo ds (ts @ (Comma, e) # ks @ (Colon, c) # vs) (map_modify m k (\<lambda>_. v))"

section \<open>Lists and maps\<close>

definition eaten :: "'f Parser \<Rightarrow> (key list \<Rightarrow> 'f Value \<Rightarrow> bool) \<Rightarrow> 'f Value \<Rightarrow> 'f Parser \<Rightarrow> bool" where
  "eaten st G v st' \<longleftrightarrow> (\<exists>ts. ts \<noteq> [] \<and> eats st ts st' \<and> G ts v)"

abbreviation names_of :: "'f Parser \<Rightarrow> u8 list list" where
  "names_of st \<equiv> map decl_variable (m_declarations st)"

text \<open>\<open>f\<close> parses \<open>G\<close> in every state with fewer than \<open>k\<close> units of work.\<close>

definition parses :: "u8 list list \<Rightarrow> nat \<Rightarrow> (key list \<Rightarrow> 'f Value \<Rightarrow> bool) \<Rightarrow> ('f Parser \<Rightarrow> ('f Value \<times> 'f Parser) option) \<Rightarrow> bool" where
  "parses ds k G f \<longleftrightarrow> (\<forall>st. ready st \<longrightarrow> work st < k \<longrightarrow> names_of st = ds \<longrightarrow> yields st (f st) (eaten st G))"

lemma parsesD: "parses ds k G f \<Longrightarrow> ready st \<Longrightarrow> work st < k \<Longrightarrow> names_of st = ds \<Longrightarrow> yields st (f st) (eaten st G)"
  by (simp add: parses_def)

lemma moves_names: "moves st st' \<Longrightarrow> names_of st' = names_of st"
  by (simp add: moves_def same_script_def)

text \<open>Running the operand parser in the middle of a construct that started at \<open>st0\<close>.\<close>

lemma operand:
  assumes "parses ds k G f" "moves st0 st" "work st < k" "names_of st0 = ds" "eats st0 pre st"
    and "\<And>v st1 ts. moves st0 st1 \<Longrightarrow> value_ok v \<Longrightarrow> m_errors st1 = [] \<Longrightarrow> ts \<noteq> [] \<Longrightarrow> G ts v \<Longrightarrow>
       eats st0 (pre @ ts) st1 \<Longrightarrow> work st1 < work st \<Longrightarrow> yields st0 (c v st1) R"
  shows "yields st0 (do { (v, st1) \<leftarrow> f st; if has_errors st1 then Some (Null, st1) else c v st1 }) R"
proof (rule yields_seq)
  show "yields st0 (f st) (eaten st G)"
    using assms(1-4) parsesD moves_ready moves_names yields_moves by metis
next
  fix v st1
  assume a: "moves st0 st1" "value_ok v" "m_errors st1 = []" "eaten st G v st1"
  then obtain ts where ts: "ts \<noteq> []" "eats st ts st1" "G ts v" by (auto simp: eaten_def)
  have "work st1 + length ts \<le> work st" using eats_work [OF ts(2) moves_ready [OF assms(2)]] by simp
  moreover have "0 < length ts" using ts(1) by simp
  ultimately have "work st1 < work st" by linarith
  then show "yields st0 (c v st1) R" using assms(6) a ts eats_append [OF assms(5) ts(2)] by blast
qed

text \<open>Closing a construct.\<close>

lemma close_construct:
  assumes "moves st0 st1" "eats st0 ts st1" "type_of st1 \<noteq> EndOfFile" "value_ok v" "G (ts @ [token_key (m_token st1)]) v"
  shows "yields st0 (Some (v, p_advance st1)) (eaten st0 G)"
proof (rule yields_ok)
  show "moves st0 (p_advance st1)" using moves_trans advance_moves moves_ready assms(1) by blast
  show "eaten st0 G v (p_advance st1)"
    using eats_snoc [OF assms(2,3)] assms(5) by (auto simp: eaten_def)
qed (rule assms(4))

definition list_so_far :: "'f f64_ops \<Rightarrow> u8 list list \<Rightarrow> key \<Rightarrow> key list \<Rightarrow> 'f Value list \<Rightarrow> bool" where
  "list_so_far fo ds open pre xs \<longleftrightarrow> xs = [] \<and> pre = [open] \<or> (\<exists>es c. gElements fo ds es xs \<and> pre = open # es @ [(Comma, c)])"

lemma list_so_far_more:
  "list_so_far fo ds open pre xs \<Longrightarrow> gAdditive fo ds ts v \<Longrightarrow> \<exists>es. gElements fo ds es (list_append xs v) \<and> pre @ ts = open # es"
  unfolding list_so_far_def
  using g_element_one [of fo ds ts v] g_element_more [of fo ds _ xs ts v]
  by (auto simp: list_append_def usize_max_def)

lemma value_ok_append: "value_ok (List_v xs) \<Longrightarrow> value_ok v \<Longrightarrow> value_ok (List_v (list_append xs v))"
  by (auto simp: list_append_def)

lemma token_key_type: "type_of st = t \<Longrightarrow> \<exists>c. token_key (m_token st) = (t, c)"
  by (simp add: token_key_def)

lemma close_list:
  assumes "moves st0 st1" "eats st0 ((a, c) # es @ tail) st1" "type_of st1 = b" "list_brackets a b"
    "gElements fo ds es xs" "tail = [] \<or> (\<exists>e. tail = [(Comma, e)])" "value_ok (List_v xs)"
  shows "yields st0 (Some (List_v xs, p_advance st1)) (eaten st0 (gPrimary fo ds))"
proof -
  obtain d where d: "token_key (m_token st1) = (b, d)" using token_key_type [OF assms(3)] by blast
  obtain e where tail: "tail = [] \<or> tail = [(Comma, e)]" using assms(6) by blast
  have "gPrimary fo ds (((a, c) # es @ tail) @ [token_key (m_token st1)]) (List_v xs)"
    using g_list [OF assms(4,5) tail, of c d] d by simp
  then show ?thesis using assms by (intro close_construct) (auto simp: list_brackets_def)
qed

text \<open>What follows an element: the closing bracket, or a comma and then the bracket or the rest of the list.\<close>

lemma after_element:
  assumes "moves st0 st1" "eats st0 ((a, c) # es) st1" "gElements fo ds es xs" "value_ok (List_v xs)" "list_brackets a b"
    and "\<And>st2 e. moves st0 st2 \<Longrightarrow> work st2 < work st1 \<Longrightarrow> eats st0 ((a, c) # es @ [(Comma, e)]) st2 \<Longrightarrow>
      type_of st2 \<noteq> b \<Longrightarrow> yields st0 (cont st2) (eaten st0 (gPrimary fo ds))"
  shows "yields st0 (if type_of st1 = b then Some (List_v xs, p_advance st1)
      else let (ok, st2) = p_expect Comma m st1
        in if \<not> ok then Some (Null, st2) else if type_of st2 = b then Some (List_v xs, p_advance st2) else cont st2)
    (eaten st0 (gPrimary fo ds))"
proof (cases "type_of st1 = b")
  case True
  then show ?thesis using close_list [OF assms(1) _ True assms(5,3) _ assms(4), of c "[]"] assms(2) by simp
next
  case False
  have "yields st0 (if type_of (p_advance st1) = b then Some (List_v xs, p_advance (p_advance st1)) else cont (p_advance st1))
      (eaten st0 (gPrimary fo ds))"
    if t: "type_of st1 = Comma" and m: "moves st0 (p_advance st1)" and w: "work (p_advance st1) < work st1"
  proof -
    obtain e where e: "token_key (m_token st1) = (Comma, e)" using token_key_type [OF t] by blast
    have ea: "eats st0 ((a, c) # es @ [(Comma, e)]) (p_advance st1)" using eats_snoc [OF assms(2)] t e by simp
    show ?thesis
      using close_list [OF m ea _ assms(5,3) _ assms(4)] assms(6) [OF m w ea] by simp
  qed
  then show ?thesis using False
    by (simp only: if_False) (intro yields_expect [OF assms(1)], simp_all)
qed

lemma list_element:
  assumes "list_so_far fo ds (a, c) pre xs" "gAdditive fo ds ts v" "eats st0 (pre @ ts) st1" "value_ok (List_v xs)" "value_ok v"
  obtains es where "eats st0 ((a, c) # es) st1" "gElements fo ds es (list_append xs v)" "value_ok (List_v (list_append xs v))"
    "\<And>e. list_so_far fo ds (a, c) ((a, c) # es @ [(Comma, e)]) (list_append xs v)"
proof -
  obtain es where "gElements fo ds es (list_append xs v)" "pre @ ts = (a, c) # es"
    using list_so_far_more [OF assms(1,2)] by blast
  then show thesis using that assms(3) value_ok_append [OF assms(4,5)] by (auto simp: list_so_far_def)
qed

lemma list_loop_yields:
  assumes ex: "parses ds k (gAdditive fo ds) expr"
  shows "work st < n \<Longrightarrow> moves st0 st \<Longrightarrow> work st < k \<Longrightarrow> names_of st0 = ds \<Longrightarrow> eats st0 pre st \<Longrightarrow>
    list_so_far fo ds (LeftBracket, c) pre xs \<Longrightarrow> value_ok (List_v xs) \<Longrightarrow>
    yields st0 (list_loop n expr RightBracket xs st) (eaten st0 (gPrimary fo ds))"
proof (induction n arbitrary: st pre xs)
  case (Suc n)
  note p = Suc.prems
  show ?case unfolding list_loop.simps Let_def [of "list_append _ _"]
  proof (rule operand [OF ex p(2-5)])
    fix v st1 ts
    assume a: "moves st0 st1" "value_ok v" "gAdditive fo ds ts v" "eats st0 (pre @ ts) st1" "work st1 < work st"
    obtain es where es: "eats st0 ((LeftBracket, c) # es) st1" "gElements fo ds es (list_append xs v)"
      "value_ok (List_v (list_append xs v))" "\<And>e. list_so_far fo ds (LeftBracket, c) ((LeftBracket, c) # es @ [(Comma, e)]) (list_append xs v)"
      using list_element [OF p(6) a(3,4) p(7) a(2)] by blast
    show "yields st0 (if type_of st1 = RightBracket then Some (List_v (list_append xs v), p_advance st1)
        else let (ok, st2) = p_expect Comma (msg ''expected '' @ [0x27, 0x2C, 0x27] @ msg '' or closing delimiter in list'') st1
          in if \<not> ok then Some (Null, st2) else if type_of st2 = RightBracket then Some (List_v (list_append xs v), p_advance st2)
             else list_loop n expr RightBracket (list_append xs v) st2) (eaten st0 (gPrimary fo ds))"
      by (rule after_element [OF a(1) es(1-3)])
        (use Suc.IH [OF _ _ _ p(4) _ es(4,3)] p(1,3) a(5) in \<open>auto simp: list_brackets_def\<close>)
  qed
qed simp

lemma brace_list_loop_yields:
  assumes ex: "parses ds k (gAdditive fo ds) expr"
  shows "work st < n \<Longrightarrow> moves st0 st \<Longrightarrow> work st < k \<Longrightarrow> names_of st0 = ds \<Longrightarrow> eats st0 pre st \<Longrightarrow> type_of st \<noteq> RightBrace \<Longrightarrow>
    list_so_far fo ds (LeftBrace, c) pre xs \<Longrightarrow> value_ok (List_v xs) \<Longrightarrow>
    yields st0 (brace_list_loop n expr xs st) (eaten st0 (gPrimary fo ds))"
proof (induction n arbitrary: st pre xs)
  case (Suc n)
  note p = Suc.prems
  show ?case unfolding brace_list_loop.simps if_not_P [OF p(6)] Let_def [of "list_append _ _"]
  proof (rule operand [OF ex p(2-5)])
    fix v st1 ts
    assume a: "moves st0 st1" "value_ok v" "gAdditive fo ds ts v" "eats st0 (pre @ ts) st1" "work st1 < work st"
    obtain es where es: "eats st0 ((LeftBrace, c) # es) st1" "gElements fo ds es (list_append xs v)"
      "value_ok (List_v (list_append xs v))" "\<And>e. list_so_far fo ds (LeftBrace, c) ((LeftBrace, c) # es @ [(Comma, e)]) (list_append xs v)"
      using list_element [OF p(7) a(3,4) p(8) a(2)] by blast
    show "yields st0 (if type_of st1 = RightBrace then Some (List_v (list_append xs v), p_advance st1)
        else let (ok, st2) = p_expect Comma s_ListComma st1
          in if \<not> ok then Some (Null, st2) else if type_of st2 = RightBrace then Some (List_v (list_append xs v), p_advance st2)
             else brace_list_loop n expr (list_append xs v) st2) (eaten st0 (gPrimary fo ds))"
      by (rule after_element [OF a(1) es(1-3)])
        (use Suc.IH [OF _ _ _ p(4) _ _ es(4,3)] p(1,3) a(5) in \<open>auto simp: list_brackets_def\<close>)
  qed
qed simp

lemma close_map:
  assumes "moves st0 st1" "eats st0 ((LeftBrace, c) # es @ tail) st1" "type_of st1 = RightBrace"
    "gEntries fo ds es m" "tail = [] \<or> (\<exists>e. tail = [(Comma, e)])" "value_ok (Map_v m)"
  shows "yields st0 (Some (Map_v m, p_advance st1)) (eaten st0 (gPrimary fo ds))"
proof -
  obtain d where d: "token_key (m_token st1) = (RightBrace, d)" using token_key_type [OF assms(3)] by blast
  obtain e where tail: "tail = [] \<or> tail = [(Comma, e)]" using assms(5) by blast
  have "gPrimary fo ds (((LeftBrace, c) # es @ tail) @ [token_key (m_token st1)]) (Map_v m)"
    using g_map [OF assms(4) tail, of c d] d by simp
  then show ?thesis using assms by (intro close_construct) auto
qed

lemma after_entry:
  assumes "moves st0 st1" "eats st0 ((LeftBrace, c) # es) st1" "gEntries fo ds es m" "value_ok (Map_v m)"
    and "\<And>st2 e. moves st0 st2 \<Longrightarrow> work st2 < work st1 \<Longrightarrow> eats st0 ((LeftBrace, c) # es @ [(Comma, e)]) st2 \<Longrightarrow>
      type_of st2 \<noteq> RightBrace \<Longrightarrow> yields st0 (cont st2) (eaten st0 (gPrimary fo ds))"
  shows "yields st0 (if type_of st1 = RightBrace then Some (Map_v m, p_advance st1)
      else let (ok, st2) = p_expect Comma s_MapComma st1
        in if \<not> ok then Some (Null, st2) else if type_of st2 = RightBrace then Some (Map_v m, p_advance st2) else cont st2)
    (eaten st0 (gPrimary fo ds))"
proof (cases "type_of st1 = RightBrace")
  case True
  then show ?thesis using close_map [OF assms(1) _ True assms(3) _ assms(4), of c "[]"] assms(2) by simp
next
  case False
  have "yields st0 (if type_of (p_advance st1) = RightBrace then Some (Map_v m, p_advance (p_advance st1)) else cont (p_advance st1))
      (eaten st0 (gPrimary fo ds))"
    if t: "type_of st1 = Comma" and mv: "moves st0 (p_advance st1)" and w: "work (p_advance st1) < work st1"
  proof -
    obtain e where e: "token_key (m_token st1) = (Comma, e)" using token_key_type [OF t] by blast
    have ea: "eats st0 ((LeftBrace, c) # es @ [(Comma, e)]) (p_advance st1)" using eats_snoc [OF assms(2)] t e by simp
    show ?thesis using close_map [OF mv ea _ assms(3) _ assms(4)] assms(5) [OF mv w ea] by simp
  qed
  then show ?thesis using False
    by (simp only: if_False) (intro yields_expect [OF assms(1)], simp_all)
qed

definition map_so_far :: "'f f64_ops \<Rightarrow> u8 list list \<Rightarrow> key \<Rightarrow> key list \<Rightarrow> (u8 list \<times> 'f Value) list \<Rightarrow> bool" where
  "map_so_far fo ds open pre m \<longleftrightarrow> m = [] \<and> pre = [open] \<or> (\<exists>es c. gEntries fo ds es m \<and> pre = open # es @ [(Comma, c)])"

lemma map_entry:
  assumes "map_so_far fo ds (LeftBrace, c) pre m" "gAdditive fo ds ks (String_v k)" "gAdditive fo ds vs v"
    "eats st0 (pre @ ks @ (Colon, d) # vs) st1" "value_ok (Map_v m)" "value_ok v"
  obtains es where "eats st0 ((LeftBrace, c) # es) st1" "gEntries fo ds es (map_modify m k (\<lambda>_. v))"
    "value_ok (Map_v (map_modify m k (\<lambda>_. v)))"
    "\<And>e. map_so_far fo ds (LeftBrace, c) ((LeftBrace, c) # es @ [(Comma, e)]) (map_modify m k (\<lambda>_. v))"
proof -
  have ok: "value_ok (Map_v (map_modify m k (\<lambda>_. v)))"
    using assms(5,6) distinct_modify [of m k "\<lambda>_. v"] modify_values [of "\<lambda>_. v" m k] by simp
  from assms(1) have "\<exists>es. gEntries fo ds es (map_modify m k (\<lambda>_. v)) \<and> pre @ ks @ (Colon, d) # vs = (LeftBrace, c) # es"
    unfolding map_so_far_def using g_entry_one [OF assms(2,3), of d] g_entry_more [OF _ assms(2,3), of _ m _ d] by auto
  then show thesis using that ok assms(4) by (auto simp: map_so_far_def)
qed

text \<open>The value of a key, behind its colon.\<close>

lemma entry_value:
  assumes ex: "parses ds k (gAdditive fo ds) expr" and "moves st0 st" "work st < k" "names_of st0 = ds"
    "eats st0 (pre @ ks @ [(Colon, d)]) st" "map_so_far fo ds (LeftBrace, c) pre m" "gAdditive fo ds ks (String_v key)" "value_ok (Map_v m)"
    and cont: "\<And>st2 m' pre'. moves st0 st2 \<Longrightarrow> work st2 < work st \<Longrightarrow> eats st0 pre' st2 \<Longrightarrow> map_so_far fo ds (LeftBrace, c) pre' m' \<Longrightarrow>
      value_ok (Map_v m') \<Longrightarrow> type_of st2 \<noteq> RightBrace \<Longrightarrow> yields st0 (f m' st2) (eaten st0 (gPrimary fo ds))"
  shows "yields st0 (do { (val, st3) \<leftarrow> expr st;
     if has_errors st3 then Some (Null, st3)
     else let m1 = map_modify m key (\<lambda>_. val)
       in if type_of st3 = RightBrace then Some (Map_v m1, p_advance st3)
          else let (ok, st4) = p_expect Comma s_MapComma st3
            in if \<not> ok then Some (Null, st4)
               else if type_of st4 = RightBrace then Some (Map_v m1, p_advance st4)
               else f m1 st4 }) (eaten st0 (gPrimary fo ds))"
  unfolding Let_def [of "map_modify _ _ _"]
proof (rule operand [OF ex assms(2-5)])
  fix v st1 ts
  assume a: "moves st0 st1" "value_ok v" "gAdditive fo ds ts v" "eats st0 ((pre @ ks @ [(Colon, d)]) @ ts) st1" "work st1 < work st"
  have e1: "eats st0 (pre @ ks @ (Colon, d) # ts) st1" using a(4) by simp
  obtain es where es: "eats st0 ((LeftBrace, c) # es) st1" "gEntries fo ds es (map_modify m key (\<lambda>_. v))"
    "value_ok (Map_v (map_modify m key (\<lambda>_. v)))"
    "\<And>e. map_so_far fo ds (LeftBrace, c) ((LeftBrace, c) # es @ [(Comma, e)]) (map_modify m key (\<lambda>_. v))"
    using map_entry [OF assms(6,7) a(3) e1 assms(8) a(2)] by blast
  show "yields st0 (if type_of st1 = RightBrace then Some (Map_v (map_modify m key (\<lambda>_. v)), p_advance st1)
      else let (ok, st4) = p_expect Comma s_MapComma st1
        in if \<not> ok then Some (Null, st4)
           else if type_of st4 = RightBrace then Some (Map_v (map_modify m key (\<lambda>_. v)), p_advance st4)
           else f (map_modify m key (\<lambda>_. v)) st4) (eaten st0 (gPrimary fo ds))"
    by (rule after_entry [OF a(1) es(1-3)]) (use cont [OF _ _ _ es(4,3)] a(5) in auto)
qed

lemma asString_Some: "asString v = Some k \<longleftrightarrow> v = String_v k"
  by (cases v) auto

lemma map_loop_yields:
  assumes ex: "parses ds k (gAdditive fo ds) expr"
  shows "work st < n \<Longrightarrow> moves st0 st \<Longrightarrow> work st < k \<Longrightarrow> names_of st0 = ds \<Longrightarrow> eats st0 pre st \<Longrightarrow> type_of st \<noteq> RightBrace \<Longrightarrow>
    map_so_far fo ds (LeftBrace, c) pre m \<Longrightarrow> value_ok (Map_v m) \<Longrightarrow>
    yields st0 (map_loop n expr m st) (eaten st0 (gPrimary fo ds))"
proof (induction n arbitrary: st pre m)
  case (Suc n)
  note p = Suc.prems
  show ?case unfolding map_loop.simps if_not_P [OF p(6)]
  proof (rule operand [OF ex p(2-5)])
    fix v st1 ts
    assume a: "moves st0 st1" "gAdditive fo ds ts v" "eats st0 (pre @ ts) st1" "work st1 < work st"
    show "yields st0 (case asString v of None \<Rightarrow> Some (Null, p_error s_MapKeys st1)
       | Some key \<Rightarrow> let (ok, st2) = p_expect Colon s_MapColon st1
          in if \<not> ok then Some (Null, st2)
             else do { (val, st3) \<leftarrow> expr st2;
               if has_errors st3 then Some (Null, st3)
               else let m1 = map_modify m key (\<lambda>_. val)
                 in if type_of st3 = RightBrace then Some (Map_v m1, p_advance st3)
                    else let (ok, st4) = p_expect Comma s_MapComma st3
                      in if \<not> ok then Some (Null, st4)
                         else if type_of st4 = RightBrace then Some (Map_v m1, p_advance st4)
                         else map_loop n expr m1 st4 }) (eaten st0 (gPrimary fo ds))"
    proof (cases "asString v")
      case None
      then show ?thesis using moves_p_error [OF moves_ready [OF a(1)]] moves_trans [OF a(1)]
        by (auto intro: yields_error)
    next
      case (Some key)
      have key: "gAdditive fo ds ts (String_v key)" using Some a(2) by (simp add: asString_Some)
      show ?thesis unfolding Some option.case
      proof (rule yields_expect [OF a(1)])
        assume t: "type_of st1 = Colon" "moves st0 (p_advance st1)" "work (p_advance st1) < work st1"
        obtain d where d: "token_key (m_token st1) = (Colon, d)" using token_key_type [OF t(1)] by blast
        have e: "eats st0 (pre @ ts @ [(Colon, d)]) (p_advance st1)" using eats_snoc [OF a(3)] t(1) d by simp
        show "yields st0 (do { (val, st3) \<leftarrow> expr (p_advance st1);
               if has_errors st3 then Some (Null, st3)
               else let m1 = map_modify m key (\<lambda>_. val)
                 in if type_of st3 = RightBrace then Some (Map_v m1, p_advance st3)
                    else let (ok, st4) = p_expect Comma s_MapComma st3
                      in if \<not> ok then Some (Null, st4)
                         else if type_of st4 = RightBrace then Some (Map_v m1, p_advance st4)
                         else map_loop n expr m1 st4 }) (eaten st0 (gPrimary fo ds))"
          by (rule entry_value [OF ex t(2) _ p(4) e p(7) key p(8)])
            (use Suc.IH [OF _ _ _ p(4)] p(1,3) a(4) t(3) in auto)
      qed simp
    qed
  qed
qed simp

section \<open>Primary expressions\<close>

text \<open>Starting a construct by consuming its first token.\<close>

lemma start_construct:
  assumes "ready st" "type_of st = t" "t \<noteq> EndOfFile"
  obtains c where "moves st (p_advance st)" "work (p_advance st) < work st" "eats st [(t, c)] (p_advance st)"
  using assms advance_moves advance_works [OF assms(1)] eats_one [of st] token_key_type [OF assms(2)] by metis

lemma parseListLiteral_yields:
  assumes ex: "parses ds k (gAdditive fo ds) expr" and r: "ready st" and t: "type_of st = LeftBracket"
    and k: "work st \<le> k" "work st \<le> n" and ds: "names_of st = ds"
  shows "yields st (parseListLiteral n expr RightBracket st) (eaten st (gPrimary fo ds))"
proof -
  obtain c where s: "moves st (p_advance st)" "work (p_advance st) < work st" "eats st [(LeftBracket, c)] (p_advance st)"
    using start_construct [OF r t] by auto
  have "yields st (list_loop n expr RightBracket [] (p_advance st)) (eaten st (gPrimary fo ds))"
    by (rule list_loop_yields [OF ex _ s(1) _ ds s(3)]) (use s(2) k in \<open>auto simp: list_so_far_def\<close>)
  moreover have "yields st (Some (List_v [], p_advance (p_advance st))) (eaten st (gPrimary fo ds))"
    if b: "type_of (p_advance st) = RightBracket"
  proof -
    obtain d where "token_key (m_token (p_advance st)) = (RightBracket, d)" using token_key_type [OF b] by blast
    then show ?thesis using b g_empty [of LeftBracket RightBracket fo ds c d]
      by (intro close_construct [OF s(1,3)]) (simp_all add: list_brackets_def)
  qed
  ultimately show ?thesis by (simp add: parseListLiteral_def Let_def)
qed

lemma parseMapLiteralContinuation_yields:
  assumes ex: "parses ds k (gAdditive fo ds) expr" and "moves st0 st" "type_of st = Colon" "work st \<le> k" "work st \<le> n"
    "names_of st0 = ds" "eats st0 ((LeftBrace, c) # ks) st" "gAdditive fo ds ks first"
  shows "yields st0 (parseMapLiteralContinuation n expr first st) (eaten st0 (gPrimary fo ds))"
proof -
  have m: "moves st0 (p_advance st)" and w: "work (p_advance st) < work st"
    using p_advance_moves [OF moves_ready [OF assms(2)]] assms(2,3) moves_trans by auto
  obtain d where d: "token_key (m_token st) = (Colon, d)" using token_key_type [OF assms(3)] by blast
  have e: "eats st0 ([(LeftBrace, c)] @ ks @ [(Colon, d)]) (p_advance st)" using eats_snoc [OF assms(7)] assms(3) d by simp
  show ?thesis
  proof (cases "asString first")
    case None
    then show ?thesis using moves_p_error [OF moves_ready [OF m]] moves_trans [OF m]
      by (auto simp: parseMapLiteralContinuation_def Let_def intro: yields_error)
  next
    case (Some key)
    then have key: "gAdditive fo ds ks (String_v key)" using assms(8) by (simp add: asString_Some)
    have so: "map_so_far fo ds (LeftBrace, c) [(LeftBrace, c)] []" by (simp add: map_so_far_def)
    show ?thesis unfolding parseMapLiteralContinuation_def Let_def [of "p_advance _"] Some option.case
      by (rule entry_value [OF ex m _ assms(6) e so key])
        (use map_loop_yields [OF ex _ _ _ assms(6)] w assms(4,5) in auto)
  qed
qed

lemma parseBraceExpression_yields:
  assumes ex: "parses ds k (gAdditive fo ds) expr" and r: "ready st" and t: "type_of st = LeftBrace"
    and k: "work st \<le> k" "work st \<le> n" and ds: "names_of st = ds"
  shows "yields st (parseBraceExpression n expr st) (eaten st (gPrimary fo ds))"
proof -
  obtain c where s: "moves st (p_advance st)" "work (p_advance st) < work st" "eats st [(LeftBrace, c)] (p_advance st)"
    using start_construct [OF r t] by auto
  show ?thesis
  proof (cases "type_of (p_advance st) = RightBrace")
    case True
    obtain d where "token_key (m_token (p_advance st)) = (RightBrace, d)" using token_key_type [OF True] by blast
    then have "yields st (Some (List_v [], p_advance (p_advance st))) (eaten st (gPrimary fo ds))"
      using True g_empty [of LeftBrace RightBrace fo ds c d]
      by (intro close_construct [OF s(1,3)]) (simp_all add: list_brackets_def)
    then show ?thesis using True by (simp add: parseBraceExpression_def Let_def)
  next
    case False
    show ?thesis unfolding parseBraceExpression_def Let_def [of "p_advance _"] if_not_P [OF False]
        Let_def [of "list_append _ _"]
    proof (rule operand [OF ex s(1) _ ds s(3)])
      show "work (p_advance st) < k" using s(2) k by simp
    next
      fix v st1 ts
      assume a: "moves st st1" "value_ok v" "gAdditive fo ds ts v" "eats st ([(LeftBrace, c)] @ ts) st1" "work st1 < work (p_advance st)"
      have so: "list_so_far fo ds (LeftBrace, c) [(LeftBrace, c)] []" by (simp add: list_so_far_def)
      obtain es where es: "eats st ((LeftBrace, c) # es) st1" "gElements fo ds es (list_append [] v)"
        "value_ok (List_v (list_append [] v))" "\<And>e. list_so_far fo ds (LeftBrace, c) ((LeftBrace, c) # es @ [(Comma, e)]) (list_append [] v)"
        using list_element [OF so a(3,4) _ a(2)] by auto
      have "yields st (if type_of st1 = RightBrace then Some (List_v (list_append [] v), p_advance st1)
          else let (ok, st2) = p_expect Comma s_ListComma st1
            in if \<not> ok then Some (Null, st2) else if type_of st2 = RightBrace then Some (List_v (list_append [] v), p_advance st2)
               else brace_list_loop n expr (list_append [] v) st2) (eaten st (gPrimary fo ds))"
        by (rule after_element [OF a(1) es(1-3)])
          (use brace_list_loop_yields [OF ex _ _ _ ds _ _ es(4,3)] a(5) s(2) k in \<open>auto simp: list_brackets_def\<close>)
      moreover have "yields st (parseMapLiteralContinuation n expr v st1) (eaten st (gPrimary fo ds))" if "type_of st1 = Colon"
        using parseMapLiteralContinuation_yields [OF ex a(1) that _ _ ds _ a(3)] a(4,5) s(2) k by simp
      ultimately show "yields st (if type_of st1 = Colon then parseMapLiteralContinuation n expr v st1
          else if type_of st1 = RightBrace then Some (List_v (list_append [] v), p_advance st1)
          else let (ok, st2) = p_expect Comma s_ListComma st1
            in if \<not> ok then Some (Null, st2) else if type_of st2 = RightBrace then Some (List_v (list_append [] v), p_advance st2)
               else brace_list_loop n expr (list_append [] v) st2) (eaten st (gPrimary fo ds))"
        by simp
    qed
  qed
qed

text \<open>Paths.\<close>

lemma path_loop_returns:
  "work st < n \<Longrightarrow> moves st0 st \<Longrightarrow> eats st0 pre st \<Longrightarrow> path_tokens pre path \<Longrightarrow>
   \<exists>r st1. path_loop n path st = Some (r, st1) \<and> moves st0 st1
     \<and> (r = None \<longrightarrow> m_errors st1 \<noteq> [])
     \<and> (\<forall>p. r = Some p \<longrightarrow> (\<exists>ts. ts \<noteq> [] \<and> eats st0 ts st1 \<and> path_tokens ts p \<and> hd p = hd path))"
proof (induction n arbitrary: st pre path)
  case (Suc n)
  have ne: "pre \<noteq> [] \<and> path \<noteq> []" using Suc.prems(4) by (induction rule: path_tokens.induct) auto
  show ?case
  proof (cases "type_of st = Dot")
    case False
    then show ?thesis using Suc.prems ne by auto
  next
    case True
    let ?st1 = "p_advance st"
    have m1: "moves st0 ?st1" "work ?st1 < work st"
      using p_advance_moves [OF moves_ready [OF Suc.prems(2)]] Suc.prems(2) True moves_trans by auto
    obtain d where d: "token_key (m_token st) = (Dot, d)" using token_key_type [OF True] by blast
    have e1: "eats st0 (pre @ [(Dot, d)]) ?st1" using eats_snoc [OF Suc.prems(3)] True d by simp
    show ?thesis
    proof (cases "type_of ?st1 = Identifier")
      case False
      then show ?thesis using True moves_errorExpected [OF moves_ready [OF m1(1)]] moves_trans [OF m1(1)] by (auto simp: Let_def)
    next
      case id: True
      let ?p = "tok_text (m_token ?st1)"
      have m2: "moves st0 (p_advance ?st1)" "work (p_advance ?st1) < work ?st1"
        using p_advance_moves [OF moves_ready [OF m1(1)]] m1(1) id moves_trans by auto
      have e2: "eats st0 (pre @ [(Dot, d), (Identifier, ?p)]) (p_advance ?st1)"
        using eats_snoc [OF e1] id by (simp add: token_key_def)
      have pt: "path_tokens (pre @ [(Dot, d), (Identifier, ?p)]) (path @ [?p])" by (rule path_more [OF Suc.prems(4)])
      have "hd (path @ [?p]) = hd path" using ne by simp
      then show ?thesis
        using Suc.IH [OF _ m2(1) e2 pt] m1(2) m2(2) Suc.prems(1) True id by (simp add: Let_def)
    qed
  qed
qed simp

lemma ParseI64_range: "ParseI64FromChars t = Some i \<Longrightarrow> in_range 64 i"
  by (auto simp: ParseI64FromChars_def Let_def in_range_def s_Min_def s_Max_def split: if_splits)

lemma isDeclared_iff: "isDeclaredVariable st name \<longleftrightarrow> name \<in> set (names_of st)"
  by (auto simp: isDeclaredVariable_def list_ex_iff)

lemma single_token:
  assumes "ready st" "type_of st = t" "t \<noteq> EndOfFile" "value_ok v" "gPrimary fo ds [(t, tok_text (m_token st))] v"
  shows "yields st (Some (v, p_advance st)) (eaten st (gPrimary fo ds))"
  using close_construct [OF moves_refl [OF assms(1)] eats_none, of v "gPrimary fo ds"] assms by (simp add: token_key_def)

lemma advance_error:
  "ready st \<Longrightarrow> yields st (Some (Null, p_error m (p_advance st))) Q"
  using moves_p_error [of "p_advance st" m] advance_moves [of st] moves_ready moves_trans
  by (blast intro: yields_error)

lemma reference_yields:
  assumes "ready st" "type_of st = Identifier" "work st \<le> n" "names_of st = ds"
  shows "yields st (do { (path, st1) \<leftarrow> path_loop n [tok_text (m_token st)] (p_advance st);
    case path of None \<Rightarrow> Some (Null, st1) | Some p \<Rightarrow> Some (makeReference p st1) }) (eaten st (gPrimary fo ds))"
proof -
  obtain c where s: "moves st (p_advance st)" "work (p_advance st) < work st" "eats st [(Identifier, c)] (p_advance st)"
    using start_construct [OF assms(1,2)] by auto
  have e: "eats st [(Identifier, tok_text (m_token st))] (p_advance st)"
    using eats_one [of st] assms(2) by (simp add: token_key_def)
  then obtain r st1 where r: "path_loop n [tok_text (m_token st)] (p_advance st) = Some (r, st1)" "moves st st1"
    "r = None \<longrightarrow> m_errors st1 \<noteq> []" "\<forall>p. r = Some p \<longrightarrow> (\<exists>ts. ts \<noteq> [] \<and> eats st ts st1 \<and> path_tokens ts p)"
    using path_loop_returns [OF _ s(1) e path_one, of n] s(2) assms(3) by auto
  show ?thesis
  proof (cases r)
    case None
    then show ?thesis using r by (auto intro: yields_error)
  next
    case (Some p)
    then obtain ts where ts: "ts \<noteq> []" "eats st ts st1" "path_tokens ts p" using r(4) by auto
    show ?thesis
    proof (cases "isDeclaredVariable st1 (hd p)")
      case True
      then have "hd p \<in> set ds" using moves_names [OF r(2)] assms(4) by (simp add: isDeclared_iff)
      then have "eaten st (gPrimary fo ds) (Reference (join_path p)) st1"
        using ts g_reference [OF ts(3)] by (auto simp: eaten_def)
      then show ?thesis using r Some True by (auto simp: makeReference_def intro: yields_ok)
    next
      case False
      then show ?thesis using r Some moves_p_error [OF moves_ready [OF r(2)]] moves_trans [OF r(2)]
        by (auto simp: makeReference_def intro: yields_error)
    qed
  qed
qed

lemma paren_yields:
  assumes ex: "parses ds k (gAdditive fo ds) expr" and r: "ready st" and t: "type_of st = LeftParen"
    and k: "work st \<le> k" and ds: "names_of st = ds"
  shows "yields st (do { (val, st1) \<leftarrow> expr (p_advance st);
     if has_errors st1 then Some (Null, st1)
     else let (ok, st2) = p_expect RightParen m st1 in if \<not> ok then Some (Null, st2) else Some (val, st2) }) (eaten st (gPrimary fo ds))"
proof -
  obtain c where s: "moves st (p_advance st)" "work (p_advance st) < work st" "eats st [(LeftParen, c)] (p_advance st)"
    using start_construct [OF r t] by auto
  show ?thesis
  proof (rule operand [OF ex s(1) _ ds s(3)])
    show "work (p_advance st) < k" using s(2) k by simp
  next
    fix v st1 ts
    assume a: "moves st st1" "value_ok v" "gAdditive fo ds ts v" "eats st ([(LeftParen, c)] @ ts) st1"
    show "yields st (let (ok, st2) = p_expect RightParen m st1 in if \<not> ok then Some (Null, st2) else Some (v, st2)) (eaten st (gPrimary fo ds))"
    proof (rule yields_expect [OF a(1)])
      assume c: "type_of st1 = RightParen"
      obtain d where "token_key (m_token st1) = (RightParen, d)" using token_key_type [OF c] by blast
      then show "yields st (Some (v, p_advance st1)) (eaten st (gPrimary fo ds))"
        using g_paren [OF a(3)] c by (intro close_construct [OF a(1,4) _ a(2)]) simp_all
    qed simp
  qed
qed

lemma parsePrimary_yields:
  assumes ex: "parses ds k (gAdditive fo ds) expr" and r: "ready st"
    and k: "work st \<le> k" "work st \<le> n" and ds: "names_of st = ds"
  shows "yields st (parsePrimary fo n expr st) (eaten st (gPrimary fo ds))"
proof -
  have default: "yields st (Some (Null, errorExpected m st)) (eaten st (gPrimary fo ds))" for m
    using moves_errorExpected [OF r] by (auto intro: yields_error)
  have "yields st (case ParseI64FromChars (tok_text (m_token st)) of
      None \<Rightarrow> Some (Null, p_error m (p_advance st)) | Some i \<Rightarrow> Some (Integer i, p_advance st)) (eaten st (gPrimary fo ds))"
    if "type_of st = IntegerLiteral" for m
    by (auto split: option.split intro!: single_token [OF r that] advance_error [OF r] g_integer dest: ParseI64_range)
  moreover have "yields st (case f_from_chars fo (tok_text (m_token st)) of
      None \<Rightarrow> Some (Null, p_error m (p_advance st)) | Some d \<Rightarrow> Some (Double d, p_advance st)) (eaten st (gPrimary fo ds))"
    if "type_of st = DoubleLiteral" for m
    by (auto split: option.split intro!: single_token [OF r that] advance_error [OF r] g_double)
  moreover have "yields st (Some (String_v (tok_text (m_token st)), p_advance st)) (eaten st (gPrimary fo ds))"
    if "type_of st = StringLiteral" by (auto intro!: single_token [OF r that] g_string)
  moreover note reference_yields [OF r _ k(2) ds] parseListLiteral_yields [OF ex r _ k ds]
    parseBraceExpression_yields [OF ex r _ k ds] paren_yields [OF ex r _ k(1) ds]
  ultimately show ?thesis
    using default by (cases "type_of st") (simp_all add: parsePrimary_def Let_def cong: if_cong)
qed

section \<open>Operators\<close>

lemma negate_Some: "value_ok v \<Longrightarrow> negated fo v = Some w \<Longrightarrow> negate fo v st = (w, st) \<and> value_ok w"
  by (cases v) (auto simp: negate_def NegateOverflows_s_iff split: if_splits)

lemma negate_None: "value_ok v \<Longrightarrow> negated fo v = None \<Longrightarrow> \<exists>m. negate fo v st = (Null, p_error m st)"
  by (cases v) (auto simp: negate_def NegateOverflows_s_iff split: if_splits)

lemma parseUnary_yields:
  assumes ex: "parses ds k (gAdditive fo ds) expr"
  shows "ready st \<Longrightarrow> work st \<le> k \<Longrightarrow> 2 * work st < n \<Longrightarrow> names_of st = ds \<Longrightarrow>
    yields st (parseUnary fo n expr st) (eaten st (gUnary fo ds))"
proof (induction n arbitrary: st)
  case (Suc n)
  note p = Suc.prems
  show ?case
  proof (cases "type_of st = Minus")
    case False
    have "yields st (parsePrimary fo n expr st) (eaten st (gPrimary fo ds))"
      using parsePrimary_yields [OF ex p(1,2)] p(3,4) by simp
    then have "yields st (parsePrimary fo n expr st) (eaten st (gUnary fo ds))"
      by (rule yields_mono) (auto simp: eaten_def intro: g_primary)
    then show ?thesis using False by simp
  next
    case True
    obtain c where s: "moves st (p_advance st)" "work (p_advance st) < work st" "eats st [(Minus, c)] (p_advance st)"
      using start_construct [OF p(1) True] by auto
    have "yields (p_advance st) (parseUnary fo n expr (p_advance st)) (eaten (p_advance st) (gUnary fo ds))"
      using Suc.IH [OF moves_ready [OF s(1)]] s(2) p moves_names [OF s(1)] by simp
    then have "yields st (parseUnary fo n expr (p_advance st)) (eaten (p_advance st) (gUnary fo ds))"
      by (rule yields_moves [OF s(1)])
    then have "yields st (do { (val, st1) \<leftarrow> parseUnary fo n expr (p_advance st);
        if has_errors st1 then Some (Null, st1) else Some (negate fo val st1) }) (eaten st (gUnary fo ds))"
    proof (rule yields_seq)
      fix v st1
      assume a: "moves st st1" "value_ok v" "m_errors st1 = []" "eaten (p_advance st) (gUnary fo ds) v st1"
      then obtain ts where ts: "eats (p_advance st) ts st1" "gUnary fo ds ts v" by (auto simp: eaten_def)
      have e: "eats st ((Minus, c) # ts) st1" using eats_append [OF s(3) ts(1)] by simp
      show "yields st (Some (negate fo v st1)) (eaten st (gUnary fo ds))"
      proof (cases "negated fo v")
        case None
        then obtain m where "negate fo v st1 = (Null, p_error m st1)" using negate_None [OF a(2)] by blast
        then show ?thesis using moves_p_error [OF moves_ready [OF a(1)]] moves_trans [OF a(1)] by (auto intro: yields_error)
      next
        case (Some w)
        then have "negate fo v st1 = (w, st1)" "value_ok w" using negate_Some [OF a(2) Some] by simp_all
        moreover have "eaten st (gUnary fo ds) w st1" using e g_negate [OF ts(2) Some, of c] by (auto simp: eaten_def)
        ultimately show ?thesis using a(1) by (auto intro: yields_ok)
      qed
    qed
    then show ?thesis using True by simp
  qed
qed simp

lemma binary_loop_yields:
  assumes nx: "parses ds k H next"
    and more: "\<And>ts a us b op c. G ts a \<Longrightarrow> H us b \<Longrightarrow> op = lhsOp \<or> op = rhsOp \<Longrightarrow> validateBinaryOperation fo op a b = None \<Longrightarrow>
      G (ts @ (op, c) # us) (app op a b)"
    and ok: "\<And>op a b. value_ok a \<Longrightarrow> value_ok b \<Longrightarrow> value_ok (app op a b)"
    and rep: "\<And>op a b m. op = lhsOp \<or> op = rhsOp \<Longrightarrow> validateBinaryOperation fo op a b = Some m \<Longrightarrow> m \<noteq> None"
    and ops: "lhsOp \<noteq> EndOfFile" "rhsOp \<noteq> EndOfFile"
  shows "work st < n \<Longrightarrow> work st \<le> k \<Longrightarrow> moves st0 st \<Longrightarrow> names_of st0 = ds \<Longrightarrow> eats st0 pre st \<Longrightarrow> pre \<noteq> [] \<Longrightarrow> G pre left \<Longrightarrow>
    value_ok left \<Longrightarrow> yields st0 (binary_loop fo n next lhsOp rhsOp app left st) (eaten st0 G)"
proof (induction n arbitrary: st pre left)
  case (Suc n)
  note p = Suc.prems
  show ?case
  proof (cases "type_of st = lhsOp \<or> type_of st = rhsOp")
    case False
    then show ?thesis using p by (auto simp: eaten_def intro!: yields_ok)
  next
    case True
    let ?op = "type_of st"
    have neof: "?op \<noteq> EndOfFile" using True ops by auto
    have m: "moves st0 (p_advance st)" and w: "work (p_advance st) < work st"
      using p_advance_moves [OF moves_ready [OF p(3)]] p(3) neof moves_trans by auto
    obtain c where c: "token_key (m_token st) = (?op, c)" using token_key_type by blast
    have e: "eats st0 (pre @ [(?op, c)]) (p_advance st)" using eats_snoc [OF p(5) neof] c by simp
    have "yields st0 (do { (right, st1) \<leftarrow> next (p_advance st);
        if has_errors st1 then Some (Null, st1)
        else case validateBinaryOperation fo ?op left right of
          Some m \<Rightarrow> Some (Null, report (tok_line (m_token st)) (tok_column (m_token st)) m st1)
        | None \<Rightarrow> binary_loop fo n next lhsOp rhsOp app (app ?op left right) st1 }) (eaten st0 G)"
    proof (rule operand [OF nx m _ p(4) e])
      show "work (p_advance st) < k" using w p(2) by simp
    next
      fix v st1 ts
      assume a: "moves st0 st1" "value_ok v" "H ts v" "eats st0 ((pre @ [(?op, c)]) @ ts) st1" "work st1 < work (p_advance st)"
      show "yields st0 (case validateBinaryOperation fo ?op left v of
          Some m \<Rightarrow> Some (Null, report (tok_line (m_token st)) (tok_column (m_token st)) m st1)
        | None \<Rightarrow> binary_loop fo n next lhsOp rhsOp app (app ?op left v) st1) (eaten st0 G)"
      proof (cases "validateBinaryOperation fo ?op left v")
        case None
        have "G (pre @ (?op, c) # ts) (app ?op left v)" using more [OF p(7) a(3) True None] by simp
        then show ?thesis using Suc.IH [OF _ _ a(1) p(4), of "pre @ (?op, c) # ts"] ok [OF p(8) a(2)] a(4,5) w p(1,2) None by simp
      next
        case (Some mo)
        then obtain message where "mo = Some message" using rep [OF True Some] by auto
        then show ?thesis using Some moves_error_at [OF moves_ready [OF a(1)]] moves_trans [OF a(1)]
          by (auto simp: report_def intro: yields_error)
      qed
    qed
    then show ?thesis using True by (simp add: Let_def)
  qed
qed simp

lemma binary_yields:
  assumes nx: "parses ds (Suc k) H next" and one: "\<And>ts v. H ts v \<Longrightarrow> G ts v"
    and more: "\<And>ts a us b op c. G ts a \<Longrightarrow> H us b \<Longrightarrow> op = lhsOp \<or> op = rhsOp \<Longrightarrow> validateBinaryOperation fo op a b = None \<Longrightarrow>
      G (ts @ (op, c) # us) (app op a b)"
    and ok: "\<And>op a b. value_ok a \<Longrightarrow> value_ok b \<Longrightarrow> value_ok (app op a b)"
    and rep: "\<And>op a b m. op = lhsOp \<or> op = rhsOp \<Longrightarrow> validateBinaryOperation fo op a b = Some m \<Longrightarrow> m \<noteq> None"
    and ops: "lhsOp \<noteq> EndOfFile" "rhsOp \<noteq> EndOfFile" and n: "k < n"
  shows "parses ds (Suc k) G (parseBinaryExpression fo n next lhsOp rhsOp app)"
  unfolding parses_def
proof (intro allI impI)
  fix st :: "'a Parser"
  assume st: "ready st" "work st < Suc k" "names_of st = ds"
  obtain v st1 where r: "next st = Some (v, st1)" "moves st st1" "value_ok v" "m_errors st1 = [] \<longrightarrow> eaten st H v st1"
    using parsesD [OF nx st] by (auto simp: yields_def)
  show "yields st (parseBinaryExpression fo n next lhsOp rhsOp app st) (eaten st G)"
  proof (cases "m_errors st1 = []")
    case False
    then show ?thesis using r by (auto simp: parseBinaryExpression_def has_errors_def intro: yields_ok)
  next
    case True
    then obtain ts where ts: "ts \<noteq> []" "eats st ts st1" "H ts v" using r(4) by (auto simp: eaten_def)
    have "work st1 \<le> k" using r(2) st(2) by (auto simp: moves_def)
    then have "yields st (binary_loop fo n next lhsOp rhsOp app v st1) (eaten st G)"
      using binary_loop_yields [OF nx more ok rep ops _ _ r(2) st(3) ts(2,1) one [OF ts(3)] r(3)] n by simp
    then show ?thesis using r(1) True by (simp add: parseBinaryExpression_def has_errors_def)
  qed
qed

lemma validation_reports:
  "op \<in> {Plus, Minus, Star, Slash} \<Longrightarrow> validateBinaryOperation fo op a b = Some m \<Longrightarrow> m \<noteq> None"
  by (auto simp: validateBinaryOperation_def validateNumericOperands_def split: if_splits Value.splits)

lemma apply_ok:
  "value_ok a \<Longrightarrow> value_ok b \<Longrightarrow> value_ok (apply_multiplicative fo op a b)"
  "value_ok a \<Longrightarrow> value_ok b \<Longrightarrow> value_ok (apply_additive fo op a b)"
  by (auto simp: apply_multiplicative_def apply_additive_def intro: operators_ok)

lemma parseMultiplicative_parses:
  assumes "parses ds (Suc k) (gUnary fo ds) (parseUnary fo n expr)" "k < n"
  shows "parses ds (Suc k) (gMultiplicative fo ds) (parseMultiplicative fo n expr)"
  unfolding parseMultiplicative_def
  by (rule binary_yields [OF assms(1)]) (use assms(2) in \<open>auto intro: g_mul_one g_mul_more apply_ok dest: validation_reports [rotated]\<close>)

lemma parseAdditive_parses:
  assumes "parses ds (Suc k) (gMultiplicative fo ds) (parseMultiplicative fo n expr)" "k < n"
  shows "parses ds (Suc k) (gAdditive fo ds) (parseAdditive fo n expr)"
  unfolding parseAdditive_def
  by (rule binary_yields [OF assms(1)]) (use assms(2) in \<open>auto intro: g_add_one g_add_more apply_ok dest: validation_reports [rotated]\<close>)

lemma parseExpression_parses: "2 * k < n \<Longrightarrow> parses ds k (gAdditive fo ds) (parseExpression fo n)"
proof (induction n arbitrary: k)
  case (Suc n)
  show ?case
  proof (cases k)
    case 0
    then show ?thesis by (simp add: parses_def)
  next
    case (Suc j)
    have ex: "parses ds j (gAdditive fo ds) (parseExpression fo n)" using Suc.IH Suc.prems Suc by simp
    have "parses ds (Suc j) (gUnary fo ds) (parseUnary fo n (parseExpression fo n))"
      unfolding parses_def using parseUnary_yields [OF ex] Suc.prems Suc by simp
    then have "parses ds (Suc j) (gAdditive fo ds) (parseAdditive fo n (parseExpression fo n))"
      using Suc.prems Suc by (intro parseAdditive_parses parseMultiplicative_parses) simp_all
    then show ?thesis using Suc by (simp add: parses_def)
  qed
qed simp

text \<open>\<open>parseExpression\<close> returns when it has two units of fuel per unit of work, and what it accepts is an
  expression of the grammar with its value.\<close>

lemma parseExpression_returns:
  assumes "ready st" "2 * work st + 2 < n"
  shows "yields st (parseExpression fo n st) (eaten st (gAdditive fo (names_of st)))"
  using parsesD [OF parseExpression_parses [of "work st + 1" n "names_of st" fo] assms(1)] assms(2) by simp

end
