(* ===== verification/Meta_Document.thy ===== *)
theory Meta_Document
  imports Meta_Expr
begin

text \<open>
  Statements and documents of the metascript language, \<^verbatim>\<open>src/core/metascript/parser.cpp\<close>: attribute
  lists, struct declarations and instances, variable declarations, assignments through dotted
  paths, and \<open>Document::parse\<close> with its three entry points. Pointers into the variable map become
  paths: \<open>resolveTarget\<close> returns the variable's new value together with the value at the end of the
  path, and the assignment writes along the same path. The fuel of a document is fixed from the
  length of its source.
\<close>

section \<open>Attributes\<close>

definition parseAttributeArgument :: "'f Parser \<Rightarrow> 'f Value \<times> 'f Parser" where
  "parseAttributeArgument st =
     (if type_of st = StringLiteral then (String_v (tok_text (m_token st)), p_advance st)
      else (Null, errorExpected (msg ''expected string attribute argument'') st))"

text \<open>\<open>Inl\<close> is the early return after an error.\<close>

fun attribute_arguments :: "nat \<Rightarrow> 'f Value list \<Rightarrow> 'f Parser \<Rightarrow> ((unit + 'f Value list) \<times> 'f Parser) option" where
  "attribute_arguments 0 args st = None"
| "attribute_arguments (Suc n) args st =
     (let (argument, st1) = parseAttributeArgument st
      in if has_errors st1 then Some (Inl (), st1)
         else let args1 = list_append args argument
           in if type_of st1 = RightParen then Some (Inr args1, st1)
              else let (ok, st2) = p_expect Comma (msg ''expected '' @ [0x27, 0x2C, 0x27] @ msg '' or '' @ [0x27, 0x29, 0x27] @ msg '' in attribute arguments'') st1
                in if \<not> ok then Some (Inl (), st2) else attribute_arguments n args1 st2)"

definition attribute_value :: "u8 list \<Rightarrow> 'f Value list \<Rightarrow> 'f Value" where
  "attribute_value name args =
     Map_v (map_modify (map_modify [] (msg ''name'') (\<lambda>_. String_v name)) (msg ''arguments'') (\<lambda>_. List_v args))"

definition close_attribute :: "u8 list \<Rightarrow> 'f Value list \<Rightarrow> 'f Parser \<Rightarrow> 'f Value \<times> 'f Parser" where
  "close_attribute name args st =
     (let (ok, st1) = p_expect RightBracket (msg ''expected '' @ [0x27, 0x5D, 0x27] @ msg '' after attribute'') st
      in if \<not> ok then (Null, st1) else (attribute_value name args, st1))"

text \<open>The optional argument list behind the name of an attribute.\<close>

definition attribute_call :: "nat \<Rightarrow> 'f Parser \<Rightarrow> ((unit + 'f Value list) \<times> 'f Parser) option" where
  "attribute_call n st =
     (if type_of st = LeftParen then
        do {
          (r, st2) \<leftarrow> (let st1 = p_advance st
                      in if type_of st1 \<noteq> RightParen then attribute_arguments n [] st1 else Some (Inr [], st1));
          case r of
            Inl _ \<Rightarrow> Some (Inl (), st2)
          | Inr args \<Rightarrow>
              let (ok, st3) = p_expect RightParen (msg ''expected '' @ [0x27, 0x29, 0x27] @ msg '' after attribute arguments'') st2
              in if \<not> ok then Some (Inl (), st3) else Some (Inr args, st3) }
      else Some (Inr [], st))"

definition parseAttribute :: "nat \<Rightarrow> 'f Parser \<Rightarrow> ('f Value \<times> 'f Parser) option" where
  "parseAttribute n st =
     (let (ok, st1) = p_expect LeftBracket (msg ''expected '' @ [0x27, 0x5B, 0x27] @ msg '' before attribute'') st
      in if \<not> ok then Some (Null, st1)
         else if type_of st1 \<noteq> Identifier then Some (Null, errorExpected (msg ''expected attribute name'') st1)
         else let name = tok_text (m_token st1)
           in do {
             (r, st2) \<leftarrow> attribute_call n (p_advance st1);
             case r of Inl _ \<Rightarrow> Some (Null, st2) | Inr args \<Rightarrow> Some (close_attribute name args st2) })"

fun attribute_list :: "nat \<Rightarrow> 'f Value list \<Rightarrow> 'f Parser \<Rightarrow> ('f Value \<times> 'f Parser) option" where
  "attribute_list 0 attributes st = None"
| "attribute_list (Suc n) attributes st =
     (if type_of st = LeftBracket then do {
        (attribute, st1) \<leftarrow> parseAttribute n st;
        if has_errors st1 then Some (Null, st1)
        else attribute_list n (list_append attributes attribute) st1 }
      else Some (List_v attributes, st))"

definition parseAttributeList :: "nat \<Rightarrow> 'f Parser \<Rightarrow> ('f Value \<times> 'f Parser) option" where
  "parseAttributeList n st = attribute_list n [] st"

section \<open>Variables and paths\<close>

definition set_variable :: "u8 list \<Rightarrow> 'f Value \<Rightarrow> 'f Parser \<Rightarrow> 'f Parser" where
  "set_variable name v st = st\<lparr>m_variables := map_modify (m_variables st) name (\<lambda>_. v)\<rparr>"

definition declareVariable :: "u8 list \<Rightarrow> u8 list \<Rightarrow> 'f Value \<Rightarrow> u32 \<Rightarrow> u32 \<Rightarrow> u32 \<Rightarrow> u32 \<Rightarrow> 'f Parser \<Rightarrow> bool \<times> 'f Parser" where
  "declareVariable typeName variableName initialValue typeLine typeColumn variableLine variableColumn st =
     (if typeName = [] then (False, error_at typeLine typeColumn (msg ''type name must not be empty'') st)
      else if variableName = [] then (False, error_at variableLine variableColumn (msg ''variable name must not be empty'') st)
      else if map_of (m_variables st) variableName \<noteq> None then
        (False, error_at variableLine variableColumn (msg ''duplicate variable declaration'') st)
      else let st1 = (set_variable variableName initialValue st)
             \<lparr>m_declarations := m_declarations st @ [\<lparr>decl_type = typeName, decl_variable = variableName\<rparr>]\<rparr>
        in (True, if m_declaredAssetVariable st1 = [] then st1\<lparr>m_declaredAssetVariable := variableName\<rparr> else st1))"

text \<open>\<open>resolveTarget\<close> below the root: nulls on the way become maps and missing fields are created as null.
  The result is the value with those changes and, unless a field of a non-map was asked for, the
  value at the end.\<close>

fun resolve_walk :: "'f Value \<Rightarrow> u8 list list \<Rightarrow> 'f Value \<times> 'f Value option" where
  "resolve_walk current [] = (current, Some current)"
| "resolve_walk current (name # path) =
     (case (if isNull current then Map_v [] else current) of
        Map_v m \<Rightarrow>
          let (new, r) = resolve_walk (case map_of m name of None \<Rightarrow> Null | Some v \<Rightarrow> v) path
          in (Map_v (map_modify m name (\<lambda>_. new)), r)
      | _ \<Rightarrow> (current, None))"

fun write_path :: "'f Value \<Rightarrow> u8 list list \<Rightarrow> 'f Value \<Rightarrow> 'f Value" where
  "write_path current [] x = x"
| "write_path (Map_v m) (name # path) x = Map_v (map_modify m name (\<lambda>old. write_path old path x))"
| "write_path current (name # path) x = current"

definition resolveTarget :: "u8 list list \<Rightarrow> bool \<Rightarrow> u32 \<Rightarrow> u32 \<Rightarrow> 'f Parser \<Rightarrow> 'f Value option \<times> 'f Parser" where
  "resolveTarget path allowCreateRoot line column st =
     (if \<not> isDeclaredVariable st (hd path) then
        (None, error_at line column (msg ''assignments must target a declared variable'') st)
      else if map_of (m_variables st) (hd path) = None \<and> \<not> allowCreateRoot then
        (None, error_at line column (msg ''undefined variable'') st)
      else let root = (case map_of (m_variables st) (hd path) of None \<Rightarrow> Null | Some v \<Rightarrow> v);
               (new, target) = resolve_walk root (tl path);
               st1 = set_variable (hd path) new st
        in case target of
             None \<Rightarrow> (None, error_at line column (msg ''cannot access field on non-map value'') st1)
           | Some v \<Rightarrow> (Some v, st1))"

fun read_walk :: "'f Value \<Rightarrow> u8 list list \<Rightarrow> u8 list + 'f Value" where
  "read_walk current [] = Inr current"
| "read_walk current (name # path) =
     (case current of
        Map_v m \<Rightarrow> (case map_of m name of None \<Rightarrow> Inl (msg ''undefined field'') | Some v \<Rightarrow> read_walk v path)
      | _ \<Rightarrow> Inl (msg ''cannot access field on non-map value''))"

definition resolveRead :: "u8 list list \<Rightarrow> 'f Parser \<Rightarrow> 'f Value \<times> 'f Parser" where
  "resolveRead path st =
     (if \<not> isDeclaredVariable st (hd path) then (Null, p_error (msg ''references must target a declared variable'') st)
      else case map_of (m_variables st) (hd path) of
             None \<Rightarrow> (Null, p_error (msg ''undefined variable'') st)
           | Some root \<Rightarrow> (case read_walk root (tl path) of Inl m \<Rightarrow> (Null, p_error m st) | Inr v \<Rightarrow> (v, st)))"

definition validateAssignment ::
    "'f f64_ops \<Rightarrow> TokenType \<Rightarrow> 'f Value \<Rightarrow> 'f Value \<Rightarrow> u8 list option option" where
  "validateAssignment fo op target rhs =
     (case op of
        Equal \<Rightarrow> None
      | PlusEqual \<Rightarrow>
          if isNumeric target \<and> isNumeric rhs then validateNumericOperands fo op target rhs None False
          else (case (target, rhs) of
              (String_v a, String_v b) \<Rightarrow>
                if size_overflows (length a) (length b) then Some (Some (msg ''string append size overflow'')) else None
            | (List_v a, _) \<Rightarrow>
                if size_overflows (length a) (case rhs of List_v b \<Rightarrow> length b | _ \<Rightarrow> 1)
                then Some (Some (msg ''list append size overflow'')) else None
            | _ \<Rightarrow> Some (Some (msg ''operator '' @ [0x27, 0x2B, 0x3D, 0x27] @ msg '' requires numeric operands, string += string, or a list target'')))
      | MinusEqual \<Rightarrow> validateNumericOperands fo op target rhs (Some (msg ''operator '' @ [0x27, 0x2D, 0x3D, 0x27] @ msg '' requires numeric operands'')) False
      | StarEqual \<Rightarrow> validateNumericOperands fo op target rhs (Some (msg ''operator '' @ [0x27, 0x2A, 0x3D, 0x27] @ msg '' requires numeric operands'')) False
      | SlashEqual \<Rightarrow> validateNumericOperands fo op target rhs (Some (msg ''operator '' @ [0x27, 0x2F, 0x3D, 0x27] @ msg '' requires numeric operands'')) True
      | _ \<Rightarrow> Some (Some (msg ''unsupported assignment operator'')))"

definition apply_assignment :: "'f f64_ops \<Rightarrow> TokenType \<Rightarrow> 'f Value \<Rightarrow> 'f Value \<Rightarrow> 'f Value" where
  "apply_assignment fo op target rhs =
     (case op of Equal \<Rightarrow> rhs | PlusEqual \<Rightarrow> value_plus_assign fo target rhs
      | MinusEqual \<Rightarrow> value_minus_assign fo target rhs | StarEqual \<Rightarrow> value_times_assign fo target rhs
      | SlashEqual \<Rightarrow> value_divide_assign fo target rhs | _ \<Rightarrow> target)"

definition write_target :: "u8 list list \<Rightarrow> 'f Value \<Rightarrow> 'f Parser \<Rightarrow> 'f Parser" where
  "write_target path x st =
     st\<lparr>m_variables := map_modify (m_variables st) (hd path) (\<lambda>root. write_path root (tl path) x)\<rparr>"

section \<open>Structs\<close>

definition isDeclaredStruct :: "'f Parser \<Rightarrow> u8 list \<Rightarrow> bool" where
  "isDeclaredStruct st name = isNameInList (m_declaredStructs st) name"

definition declaredAssetRoot :: "u32 \<Rightarrow> u32 \<Rightarrow> 'f Parser \<Rightarrow> 'f Value option \<times> 'f Parser" where
  "declaredAssetRoot line column st =
     (case map_of (m_variables st) (m_declaredAssetVariable st) of
        None \<Rightarrow> (None, error_at line column (msg ''missing declared asset variable'') st)
      | Some root \<Rightarrow> (Some root, st))"

text \<open>\<open>ensureMapValue\<close> and \<open>ensureListValue\<close>: the entries of the value when it is null or of the kind.\<close>

definition ensureMapValue :: "'f Value \<Rightarrow> (u8 list \<times> 'f Value) list option" where
  "ensureMapValue v = (if isNull v then Some [] else asMap v)"

definition ensureListValue :: "'f Value \<Rightarrow> 'f Value list option" where
  "ensureListValue v = (if isNull v then Some [] else asList v)"

definition field_or_null :: "(u8 list \<times> 'f Value) list \<Rightarrow> u8 list \<Rightarrow> 'f Value" where
  "field_or_null m name = (case map_of m name of None \<Rightarrow> Null | Some v \<Rightarrow> v)"

definition containsBindInstanceName :: "'f Value list \<Rightarrow> u8 list \<Rightarrow> bool" where
  "containsBindInstanceName instances instanceName =
     list_ex (\<lambda>i. case findField i (msg ''name'') of Some (Some name) \<Rightarrow> asString name = Some instanceName | _ \<Rightarrow> False) instances"

text \<open>The maps that describe a struct, an instance and a field.\<close>

definition struct_value :: "'f Value \<Rightarrow> 'f Value \<Rightarrow> 'f Value" where
  "struct_value attributes fieldList =
     Map_v (map_modify (map_modify [] (msg ''attributes'') (\<lambda>_. attributes)) (msg ''fields'') (\<lambda>_. fieldList))"

definition instance_value :: "u8 list \<Rightarrow> u8 list \<Rightarrow> 'f Value" where
  "instance_value typeName instanceName =
     Map_v (map_modify (map_modify [] (msg ''type'') (\<lambda>_. String_v typeName)) (msg ''name'') (\<lambda>_. String_v instanceName))"

definition field_value :: "u8 list \<Rightarrow> u8 list \<Rightarrow> 'f Value \<Rightarrow> 'f Value" where
  "field_value typeName fieldName attributes =
     Map_v (map_modify (map_modify (map_modify [] (msg ''type'') (\<lambda>_. String_v typeName))
       (msg ''name'') (\<lambda>_. String_v fieldName)) (msg ''attributes'') (\<lambda>_. attributes))"

definition addBindStruct :: "u8 list \<Rightarrow> 'f Value \<Rightarrow> 'f Value \<Rightarrow> u32 \<Rightarrow> u32 \<Rightarrow> 'f Parser \<Rightarrow> bool \<times> 'f Parser" where
  "addBindStruct structName attributes fieldList line column st =
     (case declaredAssetRoot line column st of
        (None, st1) \<Rightarrow> (False, st1)
      | (Some root, st1) \<Rightarrow>
          (case ensureMapValue root of
             None \<Rightarrow> (False, error_at line column (msg ''bind declarations require asset root to be a map'') st1)
           | Some m \<Rightarrow>
               let var = m_declaredAssetVariable st; structs = field_or_null m (msg ''structs'')
               in case ensureMapValue structs of
                    None \<Rightarrow> (False, error_at line column (msg ''asset.structs must be a map'')
                              (set_variable var (Map_v (map_modify m (msg ''structs'') (\<lambda>_. structs))) st1))
                  | Some sm \<Rightarrow>
                      if map_of sm structName \<noteq> None then
                        (False, error_at line column (msg ''duplicate struct declaration'')
                           (set_variable var (Map_v (map_modify m (msg ''structs'') (\<lambda>_. Map_v sm))) st1))
                      else (True, set_variable var (Map_v (map_modify m (msg ''structs'')
                              (\<lambda>_. Map_v (map_modify sm structName (\<lambda>_. struct_value attributes fieldList))))) st1)))"

definition addBindInstance :: "u8 list \<Rightarrow> u8 list \<Rightarrow> u32 \<Rightarrow> u32 \<Rightarrow> 'f Parser \<Rightarrow> bool \<times> 'f Parser" where
  "addBindInstance typeName instanceName line column st =
     (case declaredAssetRoot line column st of
        (None, st1) \<Rightarrow> (False, st1)
      | (Some root, st1) \<Rightarrow>
          (case ensureMapValue root of
             None \<Rightarrow> (False, error_at line column (msg ''bind declarations require asset root to be a map'') st1)
           | Some m \<Rightarrow>
               let var = m_declaredAssetVariable st; instances = field_or_null m (msg ''instances'')
               in case ensureListValue instances of
                    None \<Rightarrow> (False, error_at line column (msg ''asset.instances must be a list'')
                              (set_variable var (Map_v (map_modify m (msg ''instances'') (\<lambda>_. instances))) st1))
                  | Some xs \<Rightarrow>
                      if containsBindInstanceName xs instanceName then
                        (False, error_at line column (msg ''duplicate struct instance declaration'')
                           (set_variable var (Map_v (map_modify m (msg ''instances'') (\<lambda>_. List_v xs))) st1))
                      else (True, set_variable var (Map_v (map_modify m (msg ''instances'')
                              (\<lambda>_. List_v (list_append xs (instance_value typeName instanceName))))) st1)))"

definition parseStructField :: "'f Value \<Rightarrow> u8 list list \<Rightarrow> 'f Parser \<Rightarrow> 'f Value \<times> u8 list list \<times> 'f Parser" where
  "parseStructField attributes fieldNames st =
     (if type_of st \<noteq> Identifier then (Null, fieldNames, errorExpected (msg ''expected field type'') st)
      else let typeName = tok_text (m_token st); st1 = p_advance st
        in if type_of st1 \<noteq> Identifier then (Null, fieldNames, errorExpected (msg ''expected field name after type'') st1)
           else let fieldName = tok_text (m_token st1); fieldLine = tok_line (m_token st1); fieldColumn = tok_column (m_token st1);
                    st2 = p_advance st1
             in if isNameInList fieldNames fieldName then
                  (Null, fieldNames, error_at fieldLine fieldColumn (msg ''duplicate struct field declaration'') st2)
                else let (ok, st3) = p_expect Semicolon (msg ''expected '' @ [0x27, 0x3B, 0x27] @ msg '' after field declaration'') st2
                  in if \<not> ok then (Null, fieldNames, st3)
                     else (field_value typeName fieldName attributes, fieldNames @ [fieldName], st3))"

text \<open>The field loop of a struct; \<open>Inl\<close> is the early return after an error.\<close>

fun struct_fields :: "nat \<Rightarrow> 'f Value list \<Rightarrow> u8 list list \<Rightarrow> 'f Parser \<Rightarrow> ((unit + 'f Value list) \<times> 'f Parser) option" where
  "struct_fields 0 fieldList names st = None"
| "struct_fields (Suc n) fieldList names st =
     (if type_of st = RightBrace then Some (Inr fieldList, st)
      else if type_of st = EndOfFile then
        Some (Inl (), errorExpected (msg ''expected field declaration or '' @ [0x27, 0x7D, 0x27] @ msg '' in struct'') st)
      else do {
        (attributes, st1) \<leftarrow> parseAttributeList n st;
        if has_errors st1 then Some (Inl (), st1)
        else if type_of st1 = RightBrace then
          (if attributes \<noteq> List_v [] then Some (Inl (), errorExpected (msg ''expected field declaration after attributes'') st1)
           else Some (Inr fieldList, st1))
        else let (field, names1, st2) = parseStructField attributes names st1
          in if has_errors st2 then Some (Inl (), st2)
             else struct_fields n (list_append fieldList field) names1 st2 })"

definition parseStructDeclaration :: "nat \<Rightarrow> 'f Value \<Rightarrow> u32 \<Rightarrow> u32 \<Rightarrow> 'f Parser \<Rightarrow> (bool \<times> 'f Parser) option" where
  "parseStructDeclaration n attributes structLine structColumn st =
     (let structName = tok_text (m_token st); st1 = p_advance st
      in if isDeclaredStruct st1 structName then
           Some (False, error_at structLine structColumn (msg ''duplicate struct declaration'') st1)
         else let (ok, st2) = p_expect LeftBrace (msg ''expected '' @ [0x27, 0x7B, 0x27] @ msg '' after struct name'') st1
           in if \<not> ok then Some (False, st2)
              else do {
                (r, st3) \<leftarrow> struct_fields n [] [] st2;
                case r of
                  Inl _ \<Rightarrow> Some (False, st3)
                | Inr fieldList \<Rightarrow>
                    let (ok, st4) = p_expect RightBrace (msg ''expected '' @ [0x27, 0x7D, 0x27] @ msg '' after struct fields'') st3
                    in if \<not> ok then Some (False, st4)
                       else let (ok, st5) = p_expect Semicolon (msg ''expected '' @ [0x27, 0x3B, 0x27] @ msg '' after struct declaration'') st4
                         in if \<not> ok then Some (False, st5)
                            else let (added, st6) = addBindStruct structName attributes (List_v fieldList) structLine structColumn st5
                              in if \<not> added then Some (False, st6)
                                 else Some (True, st6\<lparr>m_declaredStructs := m_declaredStructs st6 @ [structName]\<rparr>) })"

definition parseStructInstanceDeclaration :: "u8 list \<Rightarrow> 'f Parser \<Rightarrow> bool \<times> 'f Parser" where
  "parseStructInstanceDeclaration typeName st =
     (let instanceName = tok_text (m_token st); line = tok_line (m_token st); column = tok_column (m_token st);
          st1 = p_advance st;
          (ok, st2) = p_expect Semicolon (msg ''expected '' @ [0x27, 0x3B, 0x27] @ msg '' after instance declaration'') st1
      in if \<not> ok then (False, st2) else addBindInstance typeName instanceName line column st2)"

section \<open>Statements\<close>

definition parseDeclaration :: "'f f64_ops \<Rightarrow> nat \<Rightarrow> u8 list \<Rightarrow> u32 \<Rightarrow> u32 \<Rightarrow> 'f Parser \<Rightarrow> (bool \<times> 'f Parser) option" where
  "parseDeclaration fo n typeName typeLine typeColumn st =
     (let variableName = tok_text (m_token st); line = tok_line (m_token st); column = tok_column (m_token st); st1 = p_advance st
      in do {
        (initialValue, st2) \<leftarrow> (if type_of st1 = Equal then parseExpression fo n (p_advance st1) else Some (Null, st1));
        if type_of st1 = Equal \<and> has_errors st2 then Some (False, st2)
        else let (ok, st3) = p_expect Semicolon (msg ''expected '' @ [0x27, 0x3B, 0x27] @ msg '' after declaration'') st2
          in if \<not> ok then Some (False, st3)
             else Some (declareVariable typeName variableName initialValue typeLine typeColumn line column st3) })"

definition assignment_op :: "TokenType \<Rightarrow> bool" where
  "assignment_op op = (op = Equal \<or> op = PlusEqual \<or> op = MinusEqual \<or> op = StarEqual \<or> op = SlashEqual)"

text \<open>The assignment part of \<open>parseStatement\<close>: the update, and all of it behind the first name.\<close>

definition assign_to :: "'f f64_ops \<Rightarrow> TokenType \<Rightarrow> u8 list list \<Rightarrow> 'f Value \<Rightarrow> u32 \<Rightarrow> u32 \<Rightarrow> u32 \<Rightarrow> u32 \<Rightarrow> 'f Parser \<Rightarrow> (bool \<times> 'f Parser) option" where
  "assign_to fo op path rhs firstLine firstColumn line column st3 =
     (let (target, st4) = resolveTarget path (op = Equal) firstLine firstColumn st3
      in case target of
           None \<Rightarrow> Some (False, st4)
         | Some v \<Rightarrow>
             (case validateAssignment fo op v rhs of
                Some m \<Rightarrow> Some (False, report line column m st4)
              | None \<Rightarrow> Some (True, write_target path (apply_assignment fo op v rhs) st4)))"

definition parseAssignment :: "'f f64_ops \<Rightarrow> nat \<Rightarrow> u8 list \<Rightarrow> u32 \<Rightarrow> u32 \<Rightarrow> 'f Parser \<Rightarrow> (bool \<times> 'f Parser) option" where
  "parseAssignment fo n firstName firstLine firstColumn st = do {
     (p, st1) \<leftarrow> path_loop n [firstName] st;
     case p of
       None \<Rightarrow> Some (False, st1)
     | Some path \<Rightarrow>
         let op = type_of st1; line = tok_line (m_token st1); column = tok_column (m_token st1)
         in if \<not> assignment_op op then Some (False, errorExpected (msg ''expected assignment operator'') st1)
            else do {
              (rhs, st2) \<leftarrow> parseExpression fo n (p_advance st1);
              if has_errors st2 then Some (False, st2)
              else let (ok, st3) = p_expect Semicolon (msg ''expected '' @ [0x27, 0x3B, 0x27] @ msg '' after expression'') st2
                in if \<not> ok then Some (False, st3) else assign_to fo op path rhs firstLine firstColumn line column st3 } }"

definition parseStatement :: "'f f64_ops \<Rightarrow> nat \<Rightarrow> 'f Parser \<Rightarrow> (bool \<times> 'f Parser) option" where
  "parseStatement fo n st = do {
     (attributes, st1) \<leftarrow> parseAttributeList n st;
     if has_errors st1 then Some (False, st1)
     else if type_of st1 \<noteq> Identifier then Some (False, errorExpected (msg ''expected identifier at start of statement'') st1)
     else let firstName = tok_text (m_token st1); firstLine = tok_line (m_token st1); firstColumn = tok_column (m_token st1);
              st2 = p_advance st1
       in if firstName = msg ''struct'' \<and> type_of st2 = Identifier then
            parseStructDeclaration n attributes firstLine firstColumn st2
          else if attributes \<noteq> List_v [] then
            Some (False, error_at firstLine firstColumn (msg ''attributes are only supported on struct declarations'') st2)
          else if type_of st2 = Identifier then
            (if isDeclaredStruct st2 firstName then Some (parseStructInstanceDeclaration firstName st2)
             else parseDeclaration fo n firstName firstLine firstColumn st2)
          else parseAssignment fo n firstName firstLine firstColumn st2 }"

fun parseStatements :: "'f f64_ops \<Rightarrow> nat \<Rightarrow> nat \<Rightarrow> 'f Parser \<Rightarrow> (bool \<times> 'f Parser) option" where
  "parseStatements fo n 0 st = None"
| "parseStatements fo n (Suc k) st =
     (if type_of st \<noteq> EndOfFile then do {
        (ok, st1) \<leftarrow> parseStatement fo n st;
        if \<not> ok then Some (False, st1) else parseStatements fo n k st1 }
      else Some (m_errors st = [], st))"

section \<open>Documents\<close>

record 'f Document =
  d_assetType :: "u8 list"
  d_assetVariable :: "u8 list"
  d_variables :: "(u8 list \<times> 'f Value) list"
  d_declarations :: "Declaration list"
  d_errors :: "ParseError list"

definition Document_new :: "'f Document" where
  "Document_new = \<lparr>d_assetType = [], d_assetVariable = [], d_variables = [], d_declarations = [], d_errors = []\<rparr>"

definition Parser_new :: "u8 list \<Rightarrow> 'f Parser" where
  "Parser_new source = p_advance \<lparr>m_lexer = Lexer_new source,
     m_token = \<lparr>tok_type = EndOfFile, tok_text = [], tok_line = 1, tok_column = 1\<rparr>,
     m_previous = \<lparr>tok_type = EndOfFile, tok_text = [], tok_line = 1, tok_column = 1\<rparr>,
     m_errors = [], m_variables = [], m_declarations = [], m_declaredStructs = [], m_declaredAssetVariable = []\<rparr>"

text \<open>\<open>finalizeExplicitDeclaration\<close>: the asset is the first declaration.\<close>

definition finalizeExplicitDeclaration :: "'f Parser \<Rightarrow> (Declaration option) \<times> 'f Parser" where
  "finalizeExplicitDeclaration st =
     (case m_declarations st of
        [] \<Rightarrow> (None, error_at 1 1 (msg ''expected declaration'') st)
      | declaration # _ \<Rightarrow> (Some declaration,
          if m_declaredAssetVariable st = [] then st\<lparr>m_declaredAssetVariable := decl_variable declaration\<rparr> else st))"

definition declareImplicitAsset :: "u8 list \<Rightarrow> u8 list \<Rightarrow> 'f Parser \<Rightarrow> bool \<times> 'f Parser" where
  "declareImplicitAsset assetType assetVariable st =
     (if assetType = [] \<or> assetVariable = [] then
        (False, error_at 1 1 (msg ''implicit asset declaration requires asset type and variable'') st)
      else (True, (set_variable assetVariable Null st)\<lparr>m_declaredAssetVariable := assetVariable,
             m_declarations := m_declarations st @ [\<lparr>decl_type = assetType, decl_variable = assetVariable\<rparr>]\<rparr>))"

definition document_of :: "u8 list \<Rightarrow> u8 list \<Rightarrow> 'f Parser \<Rightarrow> 'f Document" where
  "document_of assetType assetVariable st =
     \<lparr>d_assetType = assetType, d_assetVariable = assetVariable, d_variables = m_variables st,
      d_declarations = m_declarations st, d_errors = m_errors st\<rparr>"

definition document_fuel :: "u8 list \<Rightarrow> nat" where
  "document_fuel source = 2 * length source + 6"

definition parse :: "'f f64_ops \<Rightarrow> u8 list \<Rightarrow> (bool \<times> 'f Document) option" where
  "parse fo source = do {
     (ok, st) \<leftarrow> parseStatements fo (document_fuel source) (document_fuel source) (Parser_new source);
     if \<not> ok then Some (False, document_of [] [] st)
     else (case finalizeExplicitDeclaration st of
             (None, st1) \<Rightarrow> Some (False, document_of [] [] st1)
           | (Some d, st1) \<Rightarrow> Some (True, document_of (decl_type d) (decl_variable d) st1)) }"

definition parseWithImplicitAsset :: "'f f64_ops \<Rightarrow> u8 list \<Rightarrow> u8 list \<Rightarrow> u8 list \<Rightarrow> (bool \<times> 'f Document) option" where
  "parseWithImplicitAsset fo source assetType assetVariable =
     (let (declared, st) = declareImplicitAsset assetType assetVariable (Parser_new source)
      in if \<not> declared then Some (False, document_of [] [] st)
         else do {
           (ok, st1) \<leftarrow> parseStatements fo (document_fuel source) (document_fuel source) st;
           Some (ok, document_of assetType assetVariable st1) })"

text \<open>\<open>parse(IMetaReader&)\<close>: the results of the reader's successive calls are given as a list; after its end the
  reader returns zero bytes.\<close>

definition s_DocumentReaderChunkBytes :: nat where "s_DocumentReaderChunkBytes = 4096"

fun read_all :: "(int \<times> u8 list) list \<Rightarrow> u8 list \<Rightarrow> u8 list + u8 list" where
  "read_all [] buffer = Inr buffer"
| "read_all ((bytesRead, chunk) # calls) buffer =
     (if bytesRead < 0 then Inl (msg ''read error'')
      else if bytesRead = 0 then Inr buffer
      else if bytesRead > int s_DocumentReaderChunkBytes then Inl (msg ''reader returned more bytes than requested'')
      else read_all calls (buffer @ take (nat bytesRead) chunk))"

definition parse_reader :: "'f f64_ops \<Rightarrow> (int \<times> u8 list) list \<Rightarrow> (bool \<times> 'f Document) option" where
  "parse_reader fo calls =
     (case read_all calls [] of
        Inl m \<Rightarrow> Some (False, Document_new\<lparr>d_errors := [\<lparr>err_line = 0, err_column = 0, err_message = m\<rparr>]\<rparr>)
      | Inr source \<Rightarrow> parse fo source)"

definition asset :: "'f Document \<Rightarrow> 'f Value option" where
  "asset d = map_of (d_variables d) (d_assetVariable d)"

definition findVariable :: "'f Document \<Rightarrow> u8 list \<Rightarrow> 'f Value option" where
  "findVariable d name = map_of (d_variables d) name"

end
