(* ===== verification/Meta_Script.thy ===== *)
theory Meta_Script
  imports Meta_Document
begin

text \<open>
  What the metascript parser promises. A script is the abstract state a document describes: the value of
  each variable, the declarations, the struct names and the asset. Each statement form has a grammar
  rule with its effect on the script. The lemmas show that paths read and write like lenses, that
  every statement keeps the state of the parser consistent and makes progress, and that an accepted
  source is a sequence of grammatical statements whose effects give the document.
\<close>

section \<open>Paths\<close>

text \<open>Changing the value at the end of a path: a null on the way counts as an empty map, a missing field
  as null; a field of any other value cannot be changed.\<close>

fun assign_at :: "'f Value \<Rightarrow> u8 list list \<Rightarrow> ('f Value \<Rightarrow> 'f Value option) \<Rightarrow> 'f Value option" where
  "assign_at v [] f = f v"
| "assign_at v (name # path) f =
     (case (if isNull v then Map_v [] else v) of
        Map_v m \<Rightarrow> map_option (\<lambda>w. Map_v (map_modify m name (\<lambda>_. w)))
          (assign_at (case map_of m name of None \<Rightarrow> Null | Some v \<Rightarrow> v) path f)
      | _ \<Rightarrow> None)"

lemma map_modify_twice: "map_modify (map_modify m name f) name g = map_modify m name (g \<circ> f)"
  by (induction m name f rule: map_modify.induct) auto

lemma map_modify_const: "map_modify (map_modify m name (\<lambda>_. a)) name g = map_modify m name (\<lambda>_. g a)"
  by (simp add: map_modify_twice comp_def)

lemma map_of_ok: "\<forall>p \<in> set m. value_ok (snd p) \<Longrightarrow> map_of m name = Some v \<Longrightarrow> value_ok v"
  by (metis map_of_SomeD snd_conv)

lemma map_entry_ok: "value_ok (Map_v m) \<Longrightarrow> value_ok (case map_of m name of None \<Rightarrow> Null | Some v \<Rightarrow> v)"
  by (auto split: option.split dest: map_of_ok)

lemma map_modify_ok:
  "value_ok (Map_v m) \<Longrightarrow> (\<And>v. value_ok v \<Longrightarrow> value_ok (g v)) \<Longrightarrow> value_ok (Map_v (map_modify m name g))"
  using distinct_modify [of m name g] modify_values [of g m name] by simp

lemma or_map_ok: "value_ok v \<Longrightarrow> (if isNull v then Map_v [] else v) = Map_v m \<Longrightarrow> value_ok (Map_v m)"
  by (auto split: if_splits)

lemma resolve_walk_ok:
  "value_ok v \<Longrightarrow> resolve_walk v path = (new, t) \<Longrightarrow> value_ok new \<and> (\<forall>x. t = Some x \<longrightarrow> value_ok x)"
proof (induction path arbitrary: v new t)
  case (Cons name path)
  show ?case
  proof (cases "if isNull v then Map_v [] else v")
    case (Map_v m)
    have ok: "value_ok (Map_v m)" using or_map_ok [OF Cons.prems(1) Map_v] .
    obtain w r where w: "resolve_walk (case map_of m name of None \<Rightarrow> Null | Some v \<Rightarrow> v) path = (w, r)" by fastforce
    have "value_ok w \<and> (\<forall>x. r = Some x \<longrightarrow> value_ok x)" using Cons.IH [OF map_entry_ok [OF ok] w] .
    moreover have "new = Map_v (map_modify m name (\<lambda>_. w))" "t = r" using Cons.prems(2) Map_v w by simp_all
    ultimately show ?thesis using map_modify_ok [OF ok, of "\<lambda>_. w" name] by simp
  qed (use Cons.prems in \<open>auto simp: isNull_def split: if_splits\<close>)
qed auto

lemma write_path_ok: "value_ok v \<Longrightarrow> value_ok x \<Longrightarrow> value_ok (write_path v path x)"
proof (induction v path x rule: write_path.induct)
  case (2 m name path x)
  then show ?case using map_modify_ok [OF 2(2), of "\<lambda>old. write_path old path x" name] by simp
qed simp_all

lemma resolve_write:
  "resolve_walk v path = (new, Some t) \<Longrightarrow> f t = Some x \<Longrightarrow> assign_at v path f = Some (write_path new path x)"
proof (induction path arbitrary: v new)
  case (Cons name path)
  show ?case
  proof (cases "if isNull v then Map_v [] else v")
    case (Map_v m)
    obtain w r where w: "resolve_walk (case map_of m name of None \<Rightarrow> Null | Some v \<Rightarrow> v) path = (w, r)" by fastforce
    then have "new = Map_v (map_modify m name (\<lambda>_. w))" "r = Some t" using Cons.prems(1) Map_v by simp_all
    then show ?thesis using Cons.IH [of _ w] w Map_v Cons.prems(2) by (simp add: map_modify_const)
  qed (use Cons.prems in \<open>auto simp: isNull_def split: if_splits\<close>)
qed auto

text \<open>After a write the path reads the written value, and paths that leave it read as before.\<close>

lemma assign_at_read:
  "assign_at v path f = Some w \<Longrightarrow> \<exists>t x. f t = Some x \<and> read_walk w path = Inr x \<and> (\<forall>y. read_walk v path = Inr y \<longrightarrow> t = y)"
proof (induction path arbitrary: v w)
  case (Cons name path)
  show ?case
  proof (cases "if isNull v then Map_v [] else v")
    case (Map_v m)
    let ?old = "case map_of m name of None \<Rightarrow> Null | Some v \<Rightarrow> v"
    obtain u where u: "assign_at ?old path f = Some u" "w = Map_v (map_modify m name (\<lambda>_. u))"
      using Cons.prems Map_v by auto
    obtain t x where t: "f t = Some x" "read_walk u path = Inr x" "\<forall>y. read_walk ?old path = Inr y \<longrightarrow> t = y"
      using Cons.IH [OF u(1)] by blast
    have "\<forall>y. read_walk v (name # path) = Inr y \<longrightarrow> t = y"
      using t(3) Map_v by (auto simp: isNull_def split: if_splits option.splits)
    then show ?thesis using t(1,2) u(2) by (auto simp: map_of_modify)
  qed (use Cons.prems in \<open>auto simp: isNull_def split: if_splits\<close>)
qed auto

fun diverge :: "u8 list list \<Rightarrow> u8 list list \<Rightarrow> bool" where
  "diverge (a # p) (b # q) = (a \<noteq> b \<or> diverge p q)"
| "diverge _ _ = False"

lemma assign_at_others:
  "assign_at v path f = Some w \<Longrightarrow> diverge path other \<Longrightarrow> read_walk v other = Inr y \<Longrightarrow> read_walk w other = Inr y"
proof (induction path other arbitrary: v w rule: diverge.induct)
  case (1 a p b q)
  obtain m where m: "v = Map_v m" using 1(4) by (cases v) auto
  obtain u where u: "assign_at (case map_of m a of None \<Rightarrow> Null | Some v \<Rightarrow> v) p f = Some u" "w = Map_v (map_modify m a (\<lambda>_. u))"
    using 1(2) m by (auto simp: isNull_def)
  show ?case
  proof (cases "a = b")
    case True
    then show ?thesis using 1 m u by (auto simp: map_of_modify split: option.splits)
  next
    case False
    then show ?thesis using 1(4) m u by (simp add: map_of_modify split: option.splits)
  qed
qed simp_all

section \<open>Consistent parser states\<close>

text \<open>Exactly the declared names have a value, all values are well-formed, no name is declared twice, and the
  asset is the first declaration.\<close>

definition script_inv :: "'f Parser \<Rightarrow> bool" where
  "script_inv st \<longleftrightarrow> distinct (map fst (m_variables st)) \<and> fst ` set (m_variables st) = set (names_of st)
     \<and> (\<forall>p \<in> set (m_variables st). value_ok (snd p)) \<and> distinct (names_of st)
     \<and> (\<forall>d \<in> set (m_declarations st). decl_type d \<noteq> [] \<and> decl_variable d \<noteq> [])
     \<and> distinct (m_declaredStructs st)
     \<and> m_declaredAssetVariable st = (case m_declarations st of [] \<Rightarrow> [] | d # _ \<Rightarrow> decl_variable d)"

definition steps :: "'f Parser \<Rightarrow> 'f Parser \<Rightarrow> bool" where
  "steps st st' \<longleftrightarrow> ready st' \<and> work st' \<le> work st \<and> (\<exists>es. m_errors st' = m_errors st @ es) \<and> (script_inv st \<longrightarrow> script_inv st')"

lemma same_script_inv: "same_script st st' \<Longrightarrow> script_inv st' = script_inv st"
  by (simp add: same_script_def script_inv_def)

lemma moves_steps: "moves st st' \<Longrightarrow> steps st st'"
  using same_script_inv by (auto simp: moves_def steps_def)

lemma steps_trans: "steps st st1 \<Longrightarrow> steps st1 st2 \<Longrightarrow> steps st st2"
  by (auto simp: steps_def)

lemma steps_ready: "steps st st' \<Longrightarrow> ready st'"
  by (simp add: steps_def)

text \<open>A state that differs from another only in the script.\<close>

definition rescripted :: "'f Parser \<Rightarrow> 'f Parser \<Rightarrow> bool" where
  "rescripted st st' \<longleftrightarrow> m_lexer st' = m_lexer st \<and> m_token st' = m_token st \<and> m_errors st' = m_errors st"

lemma rescripted_steps: "rescripted st st' \<Longrightarrow> ready st \<Longrightarrow> (script_inv st \<Longrightarrow> script_inv st') \<Longrightarrow> steps st st'"
  by (auto simp: rescripted_def steps_def ready_def work_def)

lemma rescripted_set [simp]: "rescripted st (set_variable name v st)" "rescripted st (write_target path v st)"
  by (simp_all add: rescripted_def set_variable_def write_target_def)

lemma script_inv_variable: "script_inv st \<Longrightarrow> (\<exists>v. map_of (m_variables st) name = Some v) \<longleftrightarrow> name \<in> set (names_of st)"
  unfolding script_inv_def by (metis map_of_eq_None_iff not_Some_eq)

lemma script_inv_value: "script_inv st \<Longrightarrow> map_of (m_variables st) name = Some v \<Longrightarrow> value_ok v"
  unfolding script_inv_def by (blast dest: map_of_ok)

lemma script_inv_modify:
  assumes "script_inv st" "name \<in> set (names_of st)" "\<And>v. value_ok v \<Longrightarrow> value_ok (g v)"
  shows "script_inv (st\<lparr>m_variables := map_modify (m_variables st) name g\<rparr>)"
  using assms distinct_modify [of "m_variables st" name g] keys_modify [of "m_variables st" name g]
    modify_values [of g "m_variables st" name]
  by (auto simp: script_inv_def simp del: set_map)

lemma set_variable_inv: "script_inv st \<Longrightarrow> name \<in> set (names_of st) \<Longrightarrow> value_ok v \<Longrightarrow> script_inv (set_variable name v st)"
  unfolding set_variable_def by (rule script_inv_modify)

lemma write_target_inv: "script_inv st \<Longrightarrow> hd path \<in> set (names_of st) \<Longrightarrow> value_ok v \<Longrightarrow> script_inv (write_target path v st)"
  unfolding write_target_def by (rule script_inv_modify) (simp_all add: write_path_ok)

lemma set_variable_of: "map_of (m_variables (set_variable name v st)) = (map_of (m_variables st))(name \<mapsto> v)"
  by (auto simp: set_variable_def map_of_modify fun_eq_iff)

lemma names_set [simp]: "names_of (set_variable name v st) = names_of st" "names_of (write_target path v st) = names_of st"
  by (simp_all add: set_variable_def write_target_def)

section \<open>Scripts\<close>

record 'f Script =
  s_vars :: "u8 list \<Rightarrow> 'f Value option"
  s_decls :: "Declaration list"
  s_structs :: "u8 list list"
  s_asset :: "u8 list"

definition script_of :: "'f Parser \<Rightarrow> 'f Script" where
  "script_of st = \<lparr>s_vars = map_of (m_variables st), s_decls = m_declarations st,
     s_structs = m_declaredStructs st, s_asset = m_declaredAssetVariable st\<rparr>"

definition s_names :: "'f Script \<Rightarrow> u8 list list" where
  "s_names s = map decl_variable (s_decls s)"

definition script_declare :: "u8 list \<Rightarrow> u8 list \<Rightarrow> 'f Value \<Rightarrow> 'f Script \<Rightarrow> 'f Script" where
  "script_declare tn vn v s = s\<lparr>s_vars := (s_vars s)(vn \<mapsto> v), s_decls := s_decls s @ [\<lparr>decl_type = tn, decl_variable = vn\<rparr>],
     s_asset := if s_asset s = [] then vn else s_asset s\<rparr>"

definition script_assign :: "u8 list list \<Rightarrow> ('f Value \<Rightarrow> 'f Value option) \<Rightarrow> 'f Script \<Rightarrow> 'f Script option" where
  "script_assign path f s =
     (case s_vars s (hd path) of
        None \<Rightarrow> None
      | Some root \<Rightarrow> map_option (\<lambda>w. s\<lparr>s_vars := (s_vars s)(hd path \<mapsto> w)\<rparr>) (assign_at root (tl path) f))"

definition assigned :: "'f f64_ops \<Rightarrow> TokenType \<Rightarrow> 'f Value \<Rightarrow> 'f Value \<Rightarrow> 'f Value option" where
  "assigned fo op rhs v = (if validateAssignment fo op v rhs = None then Some (apply_assignment fo op v rhs) else None)"

definition add_entry :: "u8 list \<Rightarrow> 'f Value \<Rightarrow> 'f Value \<Rightarrow> 'f Value option" where
  "add_entry name x v =
     (case ensureMapValue v of
        None \<Rightarrow> None
      | Some m \<Rightarrow> if map_of m name = None then Some (Map_v (map_modify m name (\<lambda>_. x))) else None)"

definition add_instance :: "u8 list \<Rightarrow> u8 list \<Rightarrow> 'f Value \<Rightarrow> 'f Value option" where
  "add_instance tn n v =
     (case ensureListValue v of
        None \<Rightarrow> None
      | Some xs \<Rightarrow> if containsBindInstanceName xs n then None else Some (List_v (list_append xs (instance_value tn n))))"

text \<open>A struct declaration adds an entry to the field \<open>structs\<close> of the asset, an instance declaration an element to
  its field \<open>instances\<close>; both are assignments through a path.\<close>

lemma or_map_ensure: "(if isNull v then Map_v [] else v) = (case ensureMapValue v of None \<Rightarrow> v | Some m \<Rightarrow> Map_v m)"
  by (cases v) (simp_all add: ensureMapValue_def isNull_def)

lemma ensureMap_None: "ensureMapValue v = None \<Longrightarrow> \<not> isNull v \<and> asMap v = None"
  by (cases v) (simp_all add: ensureMapValue_def isNull_def)

lemma assign_field:
  "assign_at v [name] f = (case ensureMapValue v of None \<Rightarrow> None
     | Some m \<Rightarrow> map_option (\<lambda>w. Map_v (map_modify m name (\<lambda>_. w))) (f (field_or_null m name)))"
  by (cases v) (simp_all add: ensureMapValue_def isNull_def field_or_null_def)

lemma script_of_set: "script_of (set_variable name v st) = (script_of st)\<lparr>s_vars := (s_vars (script_of st))(name \<mapsto> v)\<rparr>"
  by (simp add: script_of_def set_variable_of) (simp add: set_variable_def)

lemma assign_asset_field:
  assumes "map_of (m_variables st) (m_declaredAssetVariable st) = Some root" "ensureMapValue root = Some m"
    and "f (field_or_null m name) = Some w"
  shows "script_assign [s_asset (script_of st), name] f (script_of st)
    = Some (script_of (set_variable (m_declaredAssetVariable st) (Map_v (map_modify m name (\<lambda>_. w))) st))"
proof -
  have "assign_at root [name] f = Some (Map_v (map_modify m name (\<lambda>_. w)))" using assms(2,3) by (simp only: assign_field) simp
  then show ?thesis using assms(1) unfolding script_of_set
    by (simp add: script_assign_def script_of_def del: assign_at.simps)
qed

lemma addBindStruct_assigns:
  assumes "addBindStruct name al fl line column st = (True, st')"
  shows "script_assign [s_asset (script_of st), msg ''structs''] (add_entry name (struct_value al fl)) (script_of st) = Some (script_of st')
    \<and> rescripted st st'"
proof -
  let ?m = "\<lambda>m. field_or_null m (msg ''structs'')"
  obtain root m sm where r: "map_of (m_variables st) (m_declaredAssetVariable st) = Some root" "ensureMapValue root = Some m"
      "ensureMapValue (?m m) = Some sm" "map_of sm name = None"
      "st' = set_variable (m_declaredAssetVariable st) (Map_v (map_modify m (msg ''structs'')
         (\<lambda>_. Map_v (map_modify sm name (\<lambda>_. struct_value al fl))))) st"
    using assms by (auto simp: addBindStruct_def declaredAssetRoot_def Let_def split: option.splits if_splits)
  have "add_entry name (struct_value al fl) (?m m) = Some (Map_v (map_modify sm name (\<lambda>_. struct_value al fl)))"
    using r(3,4) by (simp add: add_entry_def)
  from assign_asset_field [OF r(1,2), of "add_entry name (struct_value al fl)", OF this] show ?thesis using r(5) by simp
qed

lemma addBindInstance_assigns:
  assumes "addBindInstance tn n line column st = (True, st')"
  shows "script_assign [s_asset (script_of st), msg ''instances''] (add_instance tn n) (script_of st) = Some (script_of st')
    \<and> rescripted st st'"
proof -
  let ?m = "\<lambda>m. field_or_null m (msg ''instances'')"
  obtain root m xs where r: "map_of (m_variables st) (m_declaredAssetVariable st) = Some root" "ensureMapValue root = Some m"
      "ensureListValue (?m m) = Some xs" "\<not> containsBindInstanceName xs n"
      "st' = set_variable (m_declaredAssetVariable st) (Map_v (map_modify m (msg ''instances'')
         (\<lambda>_. List_v (list_append xs (instance_value tn n))))) st"
    using assms by (auto simp: addBindInstance_def declaredAssetRoot_def Let_def split: option.splits if_splits)
  have "add_instance tn n (?m m) = Some (List_v (list_append xs (instance_value tn n)))"
    using r(3,4) by (simp add: add_instance_def)
  from assign_asset_field [OF r(1,2), of "add_instance tn n", OF this] show ?thesis using r(5) by simp
qed

text \<open>The failing branches report an error; all branches keep the state consistent.\<close>

lemma steps_rescripted_error:
  "rescripted st st1 \<Longrightarrow> ready st \<Longrightarrow> (script_inv st \<Longrightarrow> script_inv st1) \<Longrightarrow> steps st (error_at l c m st1)"
  using rescripted_steps [of st st1] moves_steps [OF moves_error_at] steps_ready steps_trans by blast

lemma ensureMap_ok: "ensureMapValue v = Some m \<Longrightarrow> value_ok v \<Longrightarrow> value_ok (Map_v m)"
  by (cases v) (auto simp: ensureMapValue_def isNull_def)

lemma ensureList_ok: "ensureListValue v = Some xs \<Longrightarrow> value_ok v \<Longrightarrow> value_ok (List_v xs)"
  by (cases v) (auto simp: ensureListValue_def isNull_def)

lemma field_or_null_ok: "value_ok (Map_v m) \<Longrightarrow> value_ok (field_or_null m name)"
  unfolding field_or_null_def by (rule map_entry_ok)

lemma set_asset_inv:
  assumes "map_of (m_variables st) (m_declaredAssetVariable st) = Some root" "ensureMapValue root = Some m"
    and "value_ok (field_or_null m name) \<Longrightarrow> value_ok w" "script_inv st"
  shows "script_inv (set_variable (m_declaredAssetVariable st) (Map_v (map_modify m name (\<lambda>_. w))) st)"
proof (rule set_variable_inv [OF assms(4)])
  show "m_declaredAssetVariable st \<in> set (names_of st)" using script_inv_variable [OF assms(4)] assms(1) by blast
  have "value_ok (Map_v m)" using ensureMap_ok [OF assms(2)] script_inv_value [OF assms(4,1)] by blast
  then show "value_ok (Map_v (map_modify m name (\<lambda>_. w)))"
    using assms(3) field_or_null_ok map_modify_ok [of m "\<lambda>_. w" name] by blast
qed

lemma error_at_nonempty: "m_errors (error_at l c m st) \<noteq> []"
  by simp

lemma struct_value_ok: "value_ok al \<Longrightarrow> value_ok fl \<Longrightarrow> value_ok (struct_value al fl)"
  unfolding struct_value_def by (intro map_modify_ok) auto

lemma instance_value_ok: "value_ok (instance_value tn n)"
  unfolding instance_value_def by (intro map_modify_ok) auto

text \<open>The outcome of a statement part.\<close>

definition settles :: "'f Parser \<Rightarrow> (bool \<times> 'f Parser) option \<Rightarrow> ('f Parser \<Rightarrow> bool) \<Rightarrow> bool" where
  "settles st r Q \<longleftrightarrow> (\<exists>ok st'. r = Some (ok, st') \<and> steps st st' \<and> (if ok then m_errors st' = [] \<longrightarrow> Q st' else m_errors st' \<noteq> []))"

lemma settles_ok: "steps st st' \<Longrightarrow> (m_errors st' = [] \<Longrightarrow> Q st') \<Longrightarrow> settles st (Some (True, st')) Q"
  by (auto simp: settles_def)

lemma settles_error: "steps st st' \<Longrightarrow> m_errors st' \<noteq> [] \<Longrightarrow> settles st (Some (False, st')) Q"
  by (auto simp: settles_def)

lemma settles_steps: "steps st st1 \<Longrightarrow> settles st1 r Q \<Longrightarrow> settles st r Q"
  unfolding settles_def using steps_trans by blast

lemma settles_mono: "settles st r Q \<Longrightarrow> (\<And>st'. Q st' \<Longrightarrow> R st') \<Longrightarrow> settles st r R"
  unfolding settles_def by (metis (full_types))

lemma settles_report: "ready st \<Longrightarrow> settles st (Some (False, error_at l c m st)) Q"
  by (intro settles_error moves_steps moves_error_at error_at_nonempty)

lemma settles_set_error:
  "ready st \<Longrightarrow> (script_inv st \<Longrightarrow> script_inv (set_variable n v st)) \<Longrightarrow>
    settles st (Some (False, error_at l c m (set_variable n v st))) Q"
  by (intro settles_error steps_rescripted_error rescripted_set error_at_nonempty)

lemma settles_set:
  "ready st \<Longrightarrow> (script_inv st \<Longrightarrow> script_inv (set_variable n v st)) \<Longrightarrow> Q (set_variable n v st) \<Longrightarrow>
    settles st (Some (True, set_variable n v st)) Q"
  by (intro settles_ok rescripted_steps rescripted_set)

lemma addBindStruct_settles:
  assumes r: "ready st" and ok: "value_ok al" "value_ok fl"
  shows "settles st (Some (addBindStruct name al fl line column st)) (\<lambda>st'. rescripted st st' \<and> 
    script_assign [s_asset (script_of st), msg ''structs''] (add_entry name (struct_value al fl)) (script_of st) = Some (script_of st'))"
    (is "settles st (Some ?a) ?Q")
proof -
  let ?add = "\<lambda>sm. Map_v (map_modify sm name (\<lambda>_. struct_value al fl))"
  have Q: "?Q st'" if "?a = (True, st')" for st' using addBindStruct_assigns [OF that] by blast
  have "settles st (Some ?a) (\<lambda>st'. ?a = (True, st'))"
  proof (cases "map_of (m_variables st) (m_declaredAssetVariable st)")
    case None
    then show ?thesis using settles_report [OF r] by (simp add: addBindStruct_def declaredAssetRoot_def)
  next
    case (Some root)
    show ?thesis
    proof (cases "ensureMapValue root")
      case None
      then show ?thesis using Some settles_report [OF r] by (simp add: addBindStruct_def declaredAssetRoot_def)
    next
      case m: (Some m)
      note inv = set_asset_inv [OF Some m, of "msg ''structs''"]
      show ?thesis
      proof (cases "ensureMapValue (field_or_null m (msg ''structs''))")
        case None
        then show ?thesis using Some m settles_set_error [OF r inv] by (simp add: addBindStruct_def declaredAssetRoot_def)
      next
        case sm: (Some sm)
        have sok: "value_ok (Map_v sm)" if "value_ok (field_or_null m (msg ''structs''))" using ensureMap_ok [OF sm that] .
        then have "value_ok (?add sm)" if "value_ok (field_or_null m (msg ''structs''))"
          using map_modify_ok [of sm "\<lambda>_. struct_value al fl"] struct_value_ok [OF ok] that by blast
        then show ?thesis using Some m sm settles_set_error [OF r inv [OF sok]] settles_set [OF r inv, of "?add sm"]
          by (simp add: addBindStruct_def declaredAssetRoot_def Let_def)
      qed
    qed
  qed
  then show ?thesis by (rule settles_mono) (rule Q)
qed

lemma addBindInstance_settles:
  assumes r: "ready st"
  shows "settles st (Some (addBindInstance tn n line column st)) (\<lambda>st'. rescripted st st' \<and> 
    script_assign [s_asset (script_of st), msg ''instances''] (add_instance tn n) (script_of st) = Some (script_of st'))"
    (is "settles st (Some ?a) ?Q")
proof -
  let ?add = "\<lambda>xs. List_v (list_append xs (instance_value tn n))"
  have Q: "?Q st'" if "?a = (True, st')" for st' using addBindInstance_assigns [OF that] by blast
  have "settles st (Some ?a) (\<lambda>st'. ?a = (True, st'))"
  proof (cases "map_of (m_variables st) (m_declaredAssetVariable st)")
    case None
    then show ?thesis using settles_report [OF r] by (simp add: addBindInstance_def declaredAssetRoot_def)
  next
    case (Some root)
    show ?thesis
    proof (cases "ensureMapValue root")
      case None
      then show ?thesis using Some settles_report [OF r] by (simp add: addBindInstance_def declaredAssetRoot_def)
    next
      case m: (Some m)
      note inv = set_asset_inv [OF Some m, of "msg ''instances''"]
      show ?thesis
      proof (cases "ensureListValue (field_or_null m (msg ''instances''))")
        case None
        then show ?thesis using Some m settles_set_error [OF r inv] by (simp add: addBindInstance_def declaredAssetRoot_def)
      next
        case xs: (Some xs)
        have sok: "value_ok (List_v xs)" if "value_ok (field_or_null m (msg ''instances''))" using ensureList_ok [OF xs that] .
        then have "value_ok (?add xs)" if "value_ok (field_or_null m (msg ''instances''))"
          using value_ok_append [OF _ instance_value_ok] that by blast
        then show ?thesis using Some m xs settles_set_error [OF r inv [OF sok]] settles_set [OF r inv, of "?add xs"]
          by (simp add: addBindInstance_def declaredAssetRoot_def Let_def)
      qed
    qed
  qed
  then show ?thesis by (rule settles_mono) (rule Q)
qed

section \<open>Attributes\<close>

inductive gArguments :: "key list \<Rightarrow> 'f Value list \<Rightarrow> bool" where
  a_one: "gArguments [(StringLiteral, t)] (list_append [] (String_v t))"
| a_more: "gArguments ts xs \<Longrightarrow> gArguments (ts @ [(Comma, c), (StringLiteral, t)]) (list_append xs (String_v t))"

inductive gCall :: "key list \<Rightarrow> 'f Value list \<Rightarrow> bool" where
  c_none: "gCall [] []"
| c_empty: "gCall [(LeftParen, a), (RightParen, b)] []"
| c_arguments: "gArguments ts xs \<Longrightarrow> gCall ((LeftParen, a) # ts @ [(RightParen, b)]) xs"

inductive gAttribute :: "key list \<Rightarrow> 'f Value \<Rightarrow> bool" where
  at_one: "gCall cs args \<Longrightarrow> gAttribute ((LeftBracket, a) # (Identifier, n) # cs @ [(RightBracket, b)]) (attribute_value n args)"

inductive gAttributes :: "key list \<Rightarrow> 'f Value list \<Rightarrow> bool" where
  at_none: "gAttributes [] []"
| at_more: "gAttributes ts xs \<Longrightarrow> gAttribute us v \<Longrightarrow> gAttributes (ts @ us) (list_append xs v)"

text \<open>A part of the parser that returns: it moves the parser, and without an error its result satisfies \<open>Q\<close>.\<close>

definition returns :: "'f Parser \<Rightarrow> ('a \<times> 'f Parser) option \<Rightarrow> ('a \<Rightarrow> 'f Parser \<Rightarrow> bool) \<Rightarrow> bool" where
  "returns st r Q \<longleftrightarrow> (\<exists>x st'. r = Some (x, st') \<and> moves st st' \<and> (m_errors st' = [] \<longrightarrow> Q x st'))"

lemma returns_ok: "moves st st' \<Longrightarrow> (m_errors st' = [] \<Longrightarrow> Q x st') \<Longrightarrow> returns st (Some (x, st')) Q"
  by (auto simp: returns_def)

lemma returns_moves: "moves st st1 \<Longrightarrow> returns st1 r Q \<Longrightarrow> returns st r Q"
  unfolding returns_def using moves_trans by blast

lemma returns_mono: "returns st r Q \<Longrightarrow> (\<And>x st'. Q x st' \<Longrightarrow> R x st') \<Longrightarrow> returns st r R"
  unfolding returns_def by blast

lemma returns_expected: "moves st st1 \<Longrightarrow> returns st (Some (x, errorExpected m st1)) Q"
  using moves_errorExpected [OF moves_ready, of st st1 m] moves_trans by (intro returns_ok) blast+

lemma expected_errors [simp]: "has_errors (errorExpected m st)" "has_errors (error_at l c m st)"
  by (simp_all add: has_errors_def errorExpected_def p_error_def)

lemma returns_expect:
  assumes "moves st st1" "t \<noteq> EndOfFile"
    and "type_of st1 = t \<Longrightarrow> moves st (p_advance st1) \<Longrightarrow> work (p_advance st1) < work st1 \<Longrightarrow> returns st (k (p_advance st1)) R"
  shows "returns st (let (ok, st2) = p_expect t m st1 in if \<not> ok then Some (e, st2) else k st2) R"
proof (cases "type_of st1 = t")
  case True
  have "moves st (p_advance st1)" "work (p_advance st1) < work st1"
    using p_advance_moves [OF moves_ready [OF assms(1)]] assms(1,2) True moves_trans by blast+
  then show ?thesis using assms(3) True by (simp add: p_expect_def)
next
  case False
  then show ?thesis using returns_expected [OF assms(1)] by (simp add: p_expect_def)
qed

lemma returns_bind:
  assumes "returns st f Q" "\<And>x st1. moves st st1 \<Longrightarrow> m_errors st1 = [] \<longrightarrow> Q x st1 \<Longrightarrow> returns st (k x st1) R"
  shows "returns st (do { (x, st1) \<leftarrow> f; k x st1 }) R"
proof -
  obtain x st1 where x: "f = Some (x, st1)" "moves st st1" "m_errors st1 = [] \<longrightarrow> Q x st1"
    using assms(1) unfolding returns_def by blast
  then show ?thesis using assms(2) [OF x(2,3)] by simp
qed

lemma returns_seq:
  assumes "returns st f Q" "\<And>x st1. moves st st1 \<Longrightarrow> m_errors st1 = [] \<Longrightarrow> Q x st1 \<Longrightarrow> returns st (k x st1) R"
  shows "returns st (do { (x, st1) \<leftarrow> f; if has_errors st1 then Some (e, st1) else k x st1 }) R"
  using assms by (auto simp: returns_def has_errors_def)

lemma eats_next: "eats st0 pre st \<Longrightarrow> type_of st = t \<Longrightarrow> t \<noteq> EndOfFile \<Longrightarrow> eats st0 (pre @ [(t, tok_text (m_token st))]) (p_advance st)"
  using eats_snoc [of st0 pre st] by (simp add: token_key_def)

lemma moves_next:
  assumes "moves st0 st"
  shows "moves st0 (p_advance st)" "type_of st \<noteq> EndOfFile \<Longrightarrow> work (p_advance st) < work st"
  using moves_trans [OF assms advance_moves [OF moves_ready [OF assms]]] advance_works [OF moves_ready [OF assms]] by blast+

definition arguments_so_far :: "key list \<Rightarrow> 'f Value list \<Rightarrow> bool" where
  "arguments_so_far pre xs \<longleftrightarrow> xs = [] \<and> pre = [] \<or> (\<exists>ts c. gArguments ts xs \<and> pre = ts @ [(Comma, c)])"

lemma arguments_more: "arguments_so_far pre xs \<Longrightarrow> gArguments (pre @ [(StringLiteral, t)]) (list_append xs (String_v t))"
  using a_one a_more by (fastforce simp: arguments_so_far_def)

lemma attribute_arguments_returns:
  "work st < n \<Longrightarrow> moves st0 st \<Longrightarrow> eats st0 (open @ pre) st \<Longrightarrow> arguments_so_far pre args \<Longrightarrow> value_ok (List_v args) \<Longrightarrow>
   returns st0 (attribute_arguments n args st) (\<lambda>r st1. \<exists>xs ts. r = Inr xs \<and> value_ok (List_v xs) \<and> gArguments ts xs \<and> eats st0 (open @ ts) st1)"
proof (induction n arbitrary: st pre args)
  case (Suc n)
  note p = Suc.prems
  show ?case
  proof (cases "type_of st = StringLiteral")
    case False
    then show ?thesis using returns_expected [OF p(2)] by (simp add: parseAttributeArgument_def)
  next
    case True
    let ?st1 = "p_advance st" and ?args = "list_append args (String_v (tok_text (m_token st)))"
    have m: "moves st0 ?st1" and w: "work ?st1 < work st" using moves_next [OF p(2)] True by simp_all
    let ?pre = "pre @ [(StringLiteral, tok_text (m_token st))]"
    have e: "eats st0 (open @ ?pre) ?st1" using eats_next [OF p(3) True] by simp
    have g: "gArguments ?pre ?args" using arguments_more [OF p(4)] .
    have ok: "value_ok (List_v ?args)" using value_ok_append [OF p(5), of "String_v (tok_text (m_token st))"] by simp
    have "returns st0 (attribute_arguments n ?args (p_advance ?st1))
        (\<lambda>r st1. \<exists>xs ts. r = Inr xs \<and> value_ok (List_v xs) \<and> gArguments ts xs \<and> eats st0 (open @ ts) st1)"
      if t: "type_of ?st1 = Comma" and m2: "moves st0 (p_advance ?st1)" and w2: "work (p_advance ?st1) < work ?st1"
    proof (rule Suc.IH [OF _ m2 _ _ ok])
      show "eats st0 (open @ ?pre @ [(Comma, tok_text (m_token ?st1))]) (p_advance ?st1)" using eats_next [OF e t] by simp
      show "arguments_so_far (?pre @ [(Comma, tok_text (m_token ?st1))]) ?args" using g by (auto simp: arguments_so_far_def)
    qed (use w w2 p(1) in simp)
    then show ?thesis using True m e g ok
      by (auto simp: parseAttributeArgument_def Let_def has_errors_def intro!: returns_expect [unfolded Let_def] returns_ok)
  qed
qed simp

lemma attribute_value_ok: "value_ok (List_v args) \<Longrightarrow> value_ok (attribute_value name args)"
  unfolding attribute_value_def by (intro map_modify_ok) auto

lemma advance_no_errors: "moves st0 st \<Longrightarrow> m_errors (p_advance st) = [] \<Longrightarrow> m_errors st = []"
  using moves_no_errors [OF advance_moves [OF moves_ready]] .

lemma attribute_call_returns:
  assumes n: "work st < n" and m: "moves st0 st" and e: "eats st0 pre st"
  shows "returns st0 (attribute_call n st) (\<lambda>r st1. \<exists>xs cs. r = Inr xs \<and> value_ok (List_v xs) \<and> gCall cs xs \<and> eats st0 (pre @ cs) st1)"
    (is "returns st0 _ ?Q")
proof (cases "type_of st = LeftParen")
  case False
  then show ?thesis using m e c_none by (auto simp: attribute_call_def intro!: returns_ok exI [of _ "[]"])
next
  case True
  let ?a = "tok_text (m_token st)" and ?st1 = "p_advance st"
  have m1: "moves st0 ?st1" and w1: "work ?st1 < n" using moves_next [OF m] True n by simp_all
  have e1: "eats st0 ((pre @ [(LeftParen, ?a)]) @ []) ?st1" using eats_next [OF e True] by simp
  let ?args = "\<lambda>r st2. \<exists>xs ts. r = Inr xs \<and> value_ok (List_v xs) \<and> eats st0 (pre @ (LeftParen, ?a) # ts) st2
    \<and> (\<forall>b. gCall ((LeftParen, ?a) # ts @ [(RightParen, b)]) xs)"
  have "returns st0 (if type_of ?st1 \<noteq> RightParen then attribute_arguments n [] ?st1 else Some (Inr [], ?st1)) ?args"
  proof (cases "type_of ?st1 = RightParen")
    case True
    then show ?thesis using m1 e1 by (auto intro!: returns_ok c_empty exI [of _ "[]"])
  next
    case False
    have "returns st0 (attribute_arguments n [] ?st1)
        (\<lambda>r st2. \<exists>xs ts. r = Inr xs \<and> value_ok (List_v xs) \<and> gArguments ts xs \<and> eats st0 ((pre @ [(LeftParen, ?a)]) @ ts) st2)"
      by (rule attribute_arguments_returns [OF w1 m1 e1]) (simp_all add: arguments_so_far_def)
    then show ?thesis using False c_arguments unfolding returns_def by fastforce
  qed
  then have "returns st0 (do { (r, st2) \<leftarrow> (if type_of ?st1 \<noteq> RightParen then attribute_arguments n [] ?st1 else Some (Inr [], ?st1));
      case r of Inl _ \<Rightarrow> Some (Inl (), st2)
      | Inr args \<Rightarrow> let (ok, st3) = p_expect RightParen (msg ''expected '' @ [0x27, 0x29, 0x27] @ msg '' after attribute arguments'') st2
           in if \<not> ok then Some (Inl (), st3) else Some (Inr args, st3) }) ?Q"
  proof (rule returns_bind)
    fix r :: "unit + 'a Value list" and st2
    assume m2: "moves st0 st2" and r: "m_errors st2 = [] \<longrightarrow> ?args r st2"
    show "returns st0 (case r of Inl _ \<Rightarrow> Some (Inl (), st2)
      | Inr args \<Rightarrow> let (ok, st3) = p_expect RightParen (msg ''expected '' @ [0x27, 0x29, 0x27] @ msg '' after attribute arguments'') st2
           in if \<not> ok then Some (Inl (), st3) else Some (Inr args, st3)) ?Q"
    proof (cases r)
      case (Inl u)
      then show ?thesis using m2 r by (auto intro: returns_ok)
    next
      case (Inr xs)
      have "returns st0 (Some (Inr xs, p_advance st2)) ?Q" if t: "type_of st2 = RightParen" and m3: "moves st0 (p_advance st2)"
      proof (rule returns_ok [OF m3])
        assume "m_errors (p_advance st2) = []"
        then obtain ts where ts: "value_ok (List_v xs)" "eats st0 (pre @ (LeftParen, ?a) # ts) st2" "\<forall>b. gCall ((LeftParen, ?a) # ts @ [(RightParen, b)]) xs"
          using advance_no_errors [OF m2] r Inr by auto
        then show "?Q (Inr xs) (p_advance st2)" using eats_next [OF ts(2) t] by fastforce
      qed
      then show ?thesis unfolding Inr sum.case by (intro returns_expect [OF m2]) simp_all
    qed
  qed
  then show ?thesis using True by (simp add: attribute_call_def Let_def)
qed

lemma close_attribute_returns:
  assumes m: "moves st0 st"
    and c: "m_errors st = [] \<Longrightarrow> value_ok (List_v args) \<and> (\<exists>cs. gCall cs args \<and> eats st0 ((LeftBracket, a) # (Identifier, n) # cs) st)"
  shows "returns st0 (Some (close_attribute n args st)) (\<lambda>v st1. value_ok v \<and> (\<exists>ts. gAttribute ts v \<and> eats st0 ts st1))" (is "returns st0 _ ?Q")
proof -
  have "returns st0 (Some (attribute_value n args, p_advance st)) ?Q" if t: "type_of st = RightBracket"
  proof (rule returns_ok [OF moves_next(1) [OF m]])
    assume "m_errors (p_advance st) = []"
    then obtain cs where cs: "value_ok (List_v args)" "gCall cs args" "eats st0 ((LeftBracket, a) # (Identifier, n) # cs) st"
      using c advance_no_errors [OF m] by blast
    then show "?Q (attribute_value n args) (p_advance st)"
      using at_one [OF cs(2)] eats_next [OF cs(3) t] attribute_value_ok [OF cs(1)] by fastforce
  qed
  then show ?thesis using returns_expected [OF m] by (auto simp: close_attribute_def p_expect_def)
qed

lemma parseAttribute_returns:
  assumes n: "work st \<le> n" and st: "ready st"
  shows "returns st (parseAttribute n st) (\<lambda>v st1. value_ok v \<and> (\<exists>ts. gAttribute ts v \<and> eats st ts st1))"
    (is "returns st _ ?Q")
  unfolding parseAttribute_def
proof (rule returns_expect [OF moves_refl [OF st]])
  let ?st1 = "p_advance st"
  assume t: "type_of st = LeftBracket" and m1: "moves st ?st1" and w1: "work ?st1 < work st"
  let ?a = "tok_text (m_token st)" and ?n = "tok_text (m_token ?st1)" and ?st2 = "p_advance ?st1"
  have "returns st (do { (r, st2) \<leftarrow> attribute_call n ?st2;
      case r of Inl _ \<Rightarrow> Some (Null, st2) | Inr args \<Rightarrow> Some (close_attribute ?n args st2) }) ?Q" if i: "type_of ?st1 = Identifier"
  proof (rule returns_bind [OF attribute_call_returns])
    show "work ?st2 < n" "moves st ?st2" using moves_next [OF m1] i w1 n by simp_all
    show "eats st [(LeftBracket, ?a), (Identifier, ?n)] ?st2" using eats_next [OF eats_next [OF eats_none t] i] by simp
  next
    fix r :: "unit + 'a Value list" and st2
    assume m2: "moves st st2" and r: "m_errors st2 = [] \<longrightarrow> (\<exists>xs cs. r = Inr xs \<and> value_ok (List_v xs) \<and> gCall cs xs
        \<and> eats st ([(LeftBracket, ?a), (Identifier, ?n)] @ cs) st2)"
    show "returns st (case r of Inl _ \<Rightarrow> Some (Null, st2) | Inr args \<Rightarrow> Some (close_attribute ?n args st2)) ?Q"
      using m2 r by (cases r) (auto intro!: returns_ok close_attribute_returns [of _ _ _ ?a])
  qed
  then show "returns st (if type_of ?st1 \<noteq> Identifier then Some (Null, errorExpected (msg ''expected attribute name'') ?st1)
         else let name = ?n in do { (r, st2) \<leftarrow> attribute_call n ?st2;
      case r of Inl _ \<Rightarrow> Some (Null, st2) | Inr args \<Rightarrow> Some (close_attribute name args st2) }) ?Q"
    by (simp add: Let_def returns_expected [OF m1])
qed simp

lemma gAttribute_nonempty: "gAttribute ts v \<Longrightarrow> ts \<noteq> []"
  by (auto elim: gAttribute.cases)

lemma eats_less: "eats st ts st1 \<Longrightarrow> ts \<noteq> [] \<Longrightarrow> ready st \<Longrightarrow> work st1 < work st"
  using eats_work [of st ts st1] by (cases ts) auto

lemma attribute_list_returns:
  "work st < n \<Longrightarrow> moves st0 st \<Longrightarrow> eats st0 pre st \<Longrightarrow> gAttributes pre xs \<Longrightarrow> value_ok (List_v xs) \<Longrightarrow>
   returns st0 (attribute_list n xs st) (\<lambda>v st1. \<exists>ys ts. v = List_v ys \<and> value_ok v \<and> gAttributes ts ys \<and> eats st0 ts st1)"
proof (induction n arbitrary: st pre xs)
  case (Suc n)
  note p = Suc.prems
  show ?case
  proof (cases "type_of st = LeftBracket")
    case False
    then show ?thesis using p(3-5) by simp (rule returns_ok [OF p(2)], auto)
  next
    case True
    have r: "ready st" using moves_ready [OF p(2)] .
    have "returns st0 (do { (attribute, st1) \<leftarrow> parseAttribute n st;
        if has_errors st1 then Some (Null, st1) else attribute_list n (list_append xs attribute) st1 })
      (\<lambda>v st1. \<exists>ys ts. v = List_v ys \<and> value_ok v \<and> gAttributes ts ys \<and> eats st0 ts st1)"
    proof (rule returns_seq [OF returns_moves [OF p(2) parseAttribute_returns [OF _ r]]])
      fix v :: "'a Value" and st1
      assume m: "moves st0 st1" and v: "value_ok v \<and> (\<exists>ts. gAttribute ts v \<and> eats st ts st1)"
      then obtain ts where ts: "gAttribute ts v" "eats st ts st1" by blast
      have "work st1 < n" using eats_less [OF ts(2) gAttribute_nonempty [OF ts(1)] r] p(1) by simp
      then show "returns st0 (attribute_list n (list_append xs v) st1)
          (\<lambda>v st1. \<exists>ys ts. v = List_v ys \<and> value_ok v \<and> gAttributes ts ys \<and> eats st0 ts st1)"
        using Suc.IH [OF _ m eats_append [OF p(3) ts(2)] at_more [OF p(4) ts(1)]] value_ok_append [OF p(5)] v by blast
    qed (use p(1) in simp)
    then show ?thesis using True by simp
  qed
qed simp

lemma parseAttributeList_returns:
  assumes "work st < n" "moves st0 st"
  shows "returns st0 (parseAttributeList n st) (\<lambda>v st1. \<exists>ys ts. v = List_v ys \<and> value_ok v \<and> gAttributes ts ys \<and> eats st ts st1)"
  unfolding parseAttributeList_def
  by (rule returns_moves [OF assms(2) attribute_list_returns [OF assms(1), of st "[]"]])
    (use moves_ready [OF assms(2)] in \<open>simp_all add: moves_refl eats_none at_none\<close>)

section \<open>Struct fields\<close>

inductive gFields :: "key list \<Rightarrow> 'f Value list \<Rightarrow> u8 list list \<Rightarrow> bool" where
  f_none: "gFields [] [] []"
| f_more: "gFields ts xs ns \<Longrightarrow> gAttributes as al \<Longrightarrow> fn \<notin> set ns \<Longrightarrow>
    gFields (ts @ as @ [(Identifier, tn), (Identifier, fn), (Semicolon, c)]) (list_append xs (field_value tn fn (List_v al))) (ns @ [fn])"

lemma field_value_ok: "value_ok v \<Longrightarrow> value_ok (field_value tn fn v)"
  unfolding field_value_def by (intro map_modify_ok) auto

lemma isNameInList_iff: "isNameInList names name \<longleftrightarrow> name \<in> set names"
  by (auto simp: isNameInList_def list_ex_iff)

text \<open>A state reached by an error report.\<close>

lemma moves_report: "moves st0 st \<Longrightarrow> moves st0 (error_at l c m st)"
  using moves_trans [OF _ moves_error_at [OF moves_ready]] .

lemma moves_expected: "moves st0 st \<Longrightarrow> moves st0 (errorExpected m st)"
  using moves_errorExpected [OF moves_ready] moves_trans by blast

lemma expected_nonempty: "m_errors (errorExpected m st) \<noteq> []"
  by (simp add: errorExpected_def p_error_def)

lemma parseStructField_moves:
  assumes m: "moves st0 st" and e: "eats st0 pre st" and r: "parseStructField attributes names st = (v, names1, st3)"
  shows "moves st0 st3 \<and> (m_errors st3 = [] \<longrightarrow> (\<exists>tn fn c. v = field_value tn fn attributes \<and> fn \<notin> set names \<and> names1 = names @ [fn]
     \<and> eats st0 (pre @ [(Identifier, tn), (Identifier, fn), (Semicolon, c)]) st3))"
proof -
  let ?st1 = "p_advance st" let ?st2 = "p_advance ?st1"
  have m2: "moves st0 ?st1" "moves st0 ?st2" using moves_next(1) m by blast+
  show ?thesis
  proof (cases "type_of st = Identifier \<and> type_of ?st1 = Identifier \<and> tok_text (m_token ?st1) \<notin> set names \<and> type_of ?st2 = Semicolon")
    case True
    then have "eats st0 (pre @ [(Identifier, tok_text (m_token st)), (Identifier, tok_text (m_token ?st1)), (Semicolon, tok_text (m_token ?st2))]) (p_advance ?st2)"
      using eats_next [OF eats_next [OF eats_next [OF e]]] by simp
    then show ?thesis using r True moves_next(1) [OF m2(2)]
      by (auto simp: parseStructField_def isNameInList_iff p_expect_def Let_def)
  next
    case False
    then show ?thesis using r m m2
      by (auto simp: parseStructField_def isNameInList_iff p_expect_def Let_def expected_nonempty error_at_nonempty
          split: if_splits intro: moves_expected moves_report)
  qed
qed

lemma gAttributes_Nil: "gAttributes ts xs \<Longrightarrow> xs = [] \<Longrightarrow> ts = []"
  by (induction rule: gAttributes.induct) (simp_all add: list_append_def usize_max_def split: if_splits)

lemma struct_fields_returns:
  "work st + 1 < n \<Longrightarrow> moves st0 st \<Longrightarrow> eats st0 (open @ pre) st \<Longrightarrow> gFields pre xs names \<Longrightarrow> value_ok (List_v xs) \<Longrightarrow>
   returns st0 (struct_fields n xs names st) (\<lambda>r st1. \<exists>ys ts ns. r = Inr ys \<and> value_ok (List_v ys) \<and> gFields ts ys ns \<and> eats st0 (open @ ts) st1)"
proof (induction n arbitrary: st pre xs names)
  case (Suc n)
  note p = Suc.prems
  let ?Q = "\<lambda>(r :: unit + 'a Value list) st1. \<exists>ys ts ns. r = Inr ys \<and> value_ok (List_v ys) \<and> gFields ts ys ns \<and> eats st0 (open @ ts) st1"
  have r: "ready st" using moves_ready [OF p(2)] .
  have "returns st0 (do { (attributes, st1) \<leftarrow> parseAttributeList n st;
      if has_errors st1 then Some (Inl (), st1)
      else if type_of st1 = RightBrace then
          (if attributes \<noteq> List_v [] then Some (Inl (), errorExpected (msg ''expected field declaration after attributes'') st1)
           else Some (Inr xs, st1))
        else let (field, names1, st2) = parseStructField attributes names st1
          in if has_errors st2 then Some (Inl (), st2)
             else struct_fields n (list_append xs field) names1 st2 }) ?Q"
  proof (rule returns_seq [OF parseAttributeList_returns [OF _ p(2)]])
    fix v :: "'a Value" and st1
    assume m1: "moves st0 st1" and "\<exists>ys ts. v = List_v ys \<and> value_ok v \<and> gAttributes ts ys \<and> eats st ts st1"
    then obtain al as where v: "v = List_v al" "value_ok v" "gAttributes as al" "eats st as st1" by blast
    have e1: "eats st0 ((open @ pre) @ as) st1" using eats_append [OF p(3) v(4)] .
    have "returns st0 (let (field, names1, st2) = parseStructField v names st1
          in if has_errors st2 then Some (Inl (), st2)
             else struct_fields n (list_append xs field) names1 st2) ?Q"
    proof -
      obtain f names1 st2 where s: "parseStructField v names st1 = (f, names1, st2)" by (metis prod_cases3)
      have f: "moves st0 st2" using parseStructField_moves [OF m1 e1 s] by blast
      show ?thesis
      proof (cases "m_errors st2 = []")
        case False
        then show ?thesis using s f by (auto simp: has_errors_def intro: returns_ok)
      next
        case True
        then obtain tn fn c where fn: "f = field_value tn fn v" "fn \<notin> set names" "names1 = names @ [fn]"
          "eats st (as @ [(Identifier, tn), (Identifier, fn), (Semicolon, c)]) st2"
          using parseStructField_moves [OF moves_refl [OF moves_ready [OF m1]] eats_none s] eats_append [OF v(4)] by force
        have "work st2 < work st" using eats_less [OF fn(4) _ r] by simp
        moreover have "eats st0 (open @ pre @ as @ [(Identifier, tn), (Identifier, fn), (Semicolon, c)]) st2"
          using eats_append [OF p(3) fn(4)] by simp
        ultimately have "returns st0 (struct_fields n (list_append xs f) names1 st2) ?Q"
          using Suc.IH [OF _ f _ f_more [OF p(4) v(3) fn(2)] value_ok_append [OF p(5) field_value_ok [OF v(2) [unfolded v(1)]]]]
            fn v(1) p(1) by simp
        then show ?thesis using s True by (simp add: has_errors_def)
      qed
    qed
    moreover have "returns st0 (Some (Inr xs, st1)) ?Q" if "v = List_v []"
      using v gAttributes_Nil [OF v(3)] e1 p(4,5) that by (intro returns_ok [OF m1]) auto
    ultimately show "returns st0 (if type_of st1 = RightBrace then
          (if v \<noteq> List_v [] then Some (Inl (), errorExpected (msg ''expected field declaration after attributes'') st1)
           else Some (Inr xs, st1))
        else let (field, names1, st2) = parseStructField v names st1
          in if has_errors st2 then Some (Inl (), st2)
             else struct_fields n (list_append xs field) names1 st2) ?Q"
      by (simp add: returns_expected [OF m1] del: value_ok.simps)
  qed (use p(1) in simp)
  moreover have "returns st0 (Some (Inr xs, st)) ?Q" using p(3-5) by (intro returns_ok [OF p(2)]) auto
  ultimately show ?case by (simp add: returns_expected [OF p(2)] del: value_ok.simps)
qed simp

section \<open>Statements\<close>

text \<open>The statement forms and their effects: a declaration with or without an initial value, an assignment
  through a path, a struct declaration and a struct instance.\<close>

inductive gStatement :: "'f f64_ops \<Rightarrow> 'f Script \<Rightarrow> key list \<Rightarrow> 'f Script \<Rightarrow> bool" for fo :: "'f f64_ops" where
  s_declare: "tn \<notin> set (s_structs s) \<Longrightarrow> tn \<noteq> msg ''struct'' \<Longrightarrow> tn \<noteq> [] \<Longrightarrow> vn \<noteq> [] \<Longrightarrow> s_vars s vn = None \<Longrightarrow>
    gStatement fo s [(Identifier, tn), (Identifier, vn), (Semicolon, c)] (script_declare tn vn Null s)"
| s_define: "tn \<notin> set (s_structs s) \<Longrightarrow> tn \<noteq> msg ''struct'' \<Longrightarrow> tn \<noteq> [] \<Longrightarrow> vn \<noteq> [] \<Longrightarrow> s_vars s vn = None \<Longrightarrow>
    gAdditive fo (s_names s) es v \<Longrightarrow>
    gStatement fo s ((Identifier, tn) # (Identifier, vn) # (Equal, e) # es @ [(Semicolon, c)]) (script_declare tn vn v s)"
| s_assign: "path_tokens ps path \<Longrightarrow> assignment_op op \<Longrightarrow> hd path \<in> set (s_names s) \<Longrightarrow> gAdditive fo (s_names s) es rhs \<Longrightarrow>
    script_assign path (assigned fo op rhs) s = Some s' \<Longrightarrow> gStatement fo s (ps @ (op, e) # es @ [(Semicolon, c)]) s'"
| s_struct: "gAttributes as al \<Longrightarrow> gFields fs xs ns \<Longrightarrow> name \<notin> set (s_structs s) \<Longrightarrow>
    script_assign [s_asset s, msg ''structs''] (add_entry name (struct_value (List_v al) (List_v xs))) s = Some s' \<Longrightarrow>
    gStatement fo s (as @ (Identifier, msg ''struct'') # (Identifier, name) # (LeftBrace, a) # fs @ [(RightBrace, b), (Semicolon, c)])
      (s'\<lparr>s_structs := s_structs s' @ [name]\<rparr>)"
| s_instance: "tn \<in> set (s_structs s) \<Longrightarrow> tn \<noteq> msg ''struct'' \<Longrightarrow>
    script_assign [s_asset s, msg ''instances''] (add_instance tn n) s = Some s' \<Longrightarrow>
    gStatement fo s [(Identifier, tn), (Identifier, n), (Semicolon, c)] s'"

inductive gScript :: "'f f64_ops \<Rightarrow> 'f Script \<Rightarrow> key list \<Rightarrow> 'f Script \<Rightarrow> bool" for fo :: "'f f64_ops" where
  sc_none: "gScript fo s [] s"
| sc_more: "gStatement fo s ts s1 \<Longrightarrow> gScript fo s1 us s2 \<Longrightarrow> gScript fo s (ts @ us) s2"

lemma script_of_moves: "moves st st1 \<Longrightarrow> script_of st1 = script_of st"
  by (simp add: moves_def same_script_def script_of_def)

lemma inv_moves: "moves st st1 \<Longrightarrow> script_inv st1 = script_inv st"
  by (simp add: moves_def same_script_inv)

lemma s_names_of [simp]: "s_names (script_of st) = names_of st"
  by (simp add: s_names_def script_of_def)

text \<open>The tokens between two states, whatever happened to the script.\<close>

inductive scans :: "Lexer \<times> Token \<Rightarrow> key list \<Rightarrow> Lexer \<times> Token \<Rightarrow> bool" where
  scans_none: "scans p [] p"
| scans_token: "tok_type t \<noteq> EndOfFile \<Longrightarrow> next_token lx = (t', lx') \<Longrightarrow> scans (lx', t') ts p \<Longrightarrow> scans (lx, t) (token_key t # ts) p"

abbreviation at :: "'f Parser \<Rightarrow> Lexer \<times> Token" where
  "at st \<equiv> (m_lexer st, m_token st)"

lemma scans_append: "scans p a q \<Longrightarrow> scans q b r \<Longrightarrow> scans p (a @ b) r"
  by (induction rule: scans.induct) (auto intro: scans_token)

lemma at_advance: "next_token (m_lexer st) = (t, lx) \<Longrightarrow> at (p_advance st) = (lx, t)"
  by (simp add: p_advance_def Let_def p_error_def error_at_def)

lemma eats_scans: "eats st ts st' \<Longrightarrow> scans (at st) ts (at st')"
proof (induction rule: eats.induct)
  case (eats_token st ts st')
  obtain t lx where n: "next_token (m_lexer st) = (t, lx)" by fastforce
  then show ?case using scans_token [OF eats_token(1) n] eats_token(3) by (simp only: at_advance)
qed (rule scans_none)

lemma rescripted_at: "rescripted st st' \<Longrightarrow> at st' = at st"
  by (simp add: rescripted_def)

lemma scans_lex: "scans (lx, t) ts (lx', t') \<Longrightarrow> tok_type t' = EndOfFile \<Longrightarrow>
    map token_key (t # lex_tokens (length ts) lx) = ts @ [token_key t']"
  by (induction "(lx, t)" ts "(lx', t')" arbitrary: lx t rule: scans.induct) auto

subsection \<open>The outcome of a statement\<close>

text \<open>\<open>st0\<close> is the state before the statement and \<open>pre\<close> the tokens already read.\<close>

definition done_by :: "'f f64_ops \<Rightarrow> 'f Parser \<Rightarrow> 'f Parser \<Rightarrow> bool" where
  "done_by fo st0 st' \<longleftrightarrow> (\<exists>ts. scans (at st0) ts (at st') \<and> gStatement fo (script_of st0) ts (script_of st'))"

lemma done_byI: "eats st0 ts st1 \<Longrightarrow> rescripted st1 st' \<Longrightarrow> gStatement fo (script_of st0) ts (script_of st') \<Longrightarrow> done_by fo st0 st'"
  using eats_scans rescripted_at unfolding done_by_def by metis

lemma settles_expect:
  assumes "moves st st1" "t \<noteq> EndOfFile"
    and "type_of st1 = t \<Longrightarrow> moves st (p_advance st1) \<Longrightarrow> settles st (k (p_advance st1)) R"
  shows "settles st (let (ok, st2) = p_expect t m st1 in if \<not> ok then Some (False, st2) else k st2) R"
proof (cases "type_of st1 = t")
  case True
  then show ?thesis using assms(3) moves_next(1) [OF assms(1)] by (simp add: p_expect_def)
next
  case False
  then show ?thesis using settles_error [OF moves_steps [OF moves_expected [OF assms(1)]] expected_nonempty] by (simp add: p_expect_def)
qed

lemma settles_seq:
  assumes "returns st f Q" "\<And>x st1. moves st st1 \<Longrightarrow> m_errors st1 = [] \<Longrightarrow> Q x st1 \<Longrightarrow> settles st (k x st1) R"
  shows "settles st (do { (x, st1) \<leftarrow> f; if has_errors st1 then Some (False, st1) else k x st1 }) R"
proof -
  obtain x st1 where x: "f = Some (x, st1)" "moves st st1" "m_errors st1 = [] \<longrightarrow> Q x st1"
    using assms(1) unfolding returns_def by blast
  then show ?thesis using assms(2) [OF x(2)] settles_error [OF moves_steps [OF x(2)]] by (simp add: has_errors_def)
qed

lemma settles_moves_error: "moves st st1 \<Longrightarrow> settles st (Some (False, error_at l c m st1)) Q"
  by (intro settles_error moves_steps moves_report error_at_nonempty)

lemma settles_expected: "moves st st1 \<Longrightarrow> settles st (Some (False, errorExpected m st1)) Q"
  by (intro settles_error moves_steps moves_expected expected_nonempty)

lemma yields_returns: "yields st r Q \<Longrightarrow> returns st r (\<lambda>v st'. value_ok v \<and> Q v st')"
  unfolding yields_def returns_def by blast

subsection \<open>Declarations\<close>

lemma declareVariable_settles:
  assumes r: "ready st" and inv: "script_inv st" and v: "value_ok v"
  shows "settles st (Some (declareVariable tn vn v l c l' c' st)) (\<lambda>st'. rescripted st st' \<and> tn \<noteq> [] \<and> vn \<noteq> []
    \<and> s_vars (script_of st) vn = None \<and> script_of st' = script_declare tn vn v (script_of st))"
proof (cases "tn = [] \<or> vn = [] \<or> map_of (m_variables st) vn \<noteq> None")
  case True
  then show ?thesis using settles_report [OF r] by (auto simp: declareVariable_def)
next
  case False
  then obtain st' where d: "declareVariable tn vn v l c l' c' st = (True, st')"
    by (simp add: declareVariable_def Let_def)
  have re: "rescripted st st'"
    using False d by (auto simp: declareVariable_def Let_def rescripted_def set_variable_def)
  have vars: "m_variables st' = map_modify (m_variables st) vn (\<lambda>_. v)" "m_declarations st' = m_declarations st @ [\<lparr>decl_type = tn, decl_variable = vn\<rparr>]"
      "m_declaredStructs st' = m_declaredStructs st" "m_declaredAssetVariable st' = (if m_declaredAssetVariable st = [] then vn else m_declaredAssetVariable st)"
    using False d by (auto simp: declareVariable_def Let_def set_variable_def)
  have new: "vn \<notin> set (names_of st)" using script_inv_variable [OF inv] False by auto
  have "script_inv st'"
    using inv False new v distinct_modify [of "m_variables st" vn "\<lambda>_. v"] keys_modify [of "m_variables st" vn "\<lambda>_. v"]
      modify_values [of "\<lambda>_. v" "m_variables st" vn]
    by (auto simp: script_inv_def vars split: list.splits simp del: set_map)
  then have "steps st st'" using rescripted_steps [OF re r] by blast
  moreover have "script_of st' = script_declare tn vn v (script_of st)"
    by (simp add: script_of_def script_declare_def vars map_of_modify fun_eq_iff)
  ultimately show ?thesis using False re unfolding d by (intro settles_ok) (simp_all add: script_of_def)
qed

text \<open>Parsing an expression in the middle of a statement.\<close>

lemma expression_returns:
  assumes "moves st0 st" "2 * work st + 2 < n"
  shows "returns st0 (parseExpression fo n st) (\<lambda>v st1. value_ok v \<and> (\<exists>ts. eats st ts st1 \<and> gAdditive fo (names_of st0) ts v))"
proof -
  have "returns st0 (parseExpression fo n st) (\<lambda>v st1. value_ok v \<and> eaten st (gAdditive fo (names_of st)) v st1)"
    using returns_moves [OF assms(1) yields_returns [OF parseExpression_returns [OF moves_ready [OF assms(1)] assms(2)]]] .
  then show ?thesis by (rule returns_mono) (auto simp: eaten_def moves_names [OF assms(1)])
qed

text \<open>A statement part that ran from \<open>st\<close> on leads to a state of the whole statement.\<close>

lemma statement_start:
  assumes "moves st0 st" "script_inv st0"
  shows "script_inv st" "script_of st = script_of st0" "names_of st = names_of st0" "ready st"
  using assms inv_moves script_of_moves moves_names moves_ready by blast+

lemma script_of_structs: "s_structs (script_of st) = m_declaredStructs st"
  by (simp add: script_of_def)

lemma finish_declaration:
  assumes m: "moves st st3" and e: "eats st0 ts st3" and m0: "moves st0 st" and inv: "script_inv st0" and v: "value_ok v"
    and g: "tn \<noteq> [] \<Longrightarrow> vn \<noteq> [] \<Longrightarrow> s_vars (script_of st0) vn = None \<Longrightarrow> gStatement fo (script_of st0) ts (script_declare tn vn v (script_of st0))"
  shows "settles st (Some (declareVariable tn vn v l c l' c' st3)) (done_by fo st0)"
proof -
  have m3: "moves st0 st3" using moves_trans [OF m0 m] .
  note s = statement_start [OF m3 inv]
  show ?thesis
    by (rule settles_steps [OF moves_steps [OF m] settles_mono [OF declareVariable_settles [OF s(4,1) v]]])
      (use g e in \<open>auto simp: s(2) intro!: done_byI [OF e]\<close>)
qed

lemma parseDeclaration_settles:
  assumes m: "moves st0 st" and e: "eats st0 [(Identifier, tn)] st" and inv: "script_inv st0" and n: "2 * work st + 2 < n"
    and t: "type_of st = Identifier" and tn: "tn \<notin> set (m_declaredStructs st)" "tn \<noteq> msg ''struct''"
  shows "settles st (parseDeclaration fo n tn l c st) (done_by fo st0)"
proof -
  let ?vn = "tok_text (m_token st)" and ?st1 = "p_advance st"
  let ?st2 = "p_advance ?st1"
  have r: "ready st" using moves_ready [OF m] .
  have m1: "moves st ?st1" and w1: "work ?st1 < work st" using moves_next [OF moves_refl [OF r]] t by simp_all
  have e1: "eats st0 [(Identifier, tn), (Identifier, ?vn)] ?st1" using eats_next [OF e t] by simp
  have st: "tn \<notin> set (s_structs (script_of st0))" using tn(1) statement_start(2) [OF m inv] by (simp flip: script_of_structs)
  note plain = s_declare [OF st tn(2)] and initial = s_define [OF st tn(2)]
  show ?thesis
  proof (cases "type_of ?st1 = Equal")
    case False
    have "settles st (Some (declareVariable tn ?vn Null l c l' c' (p_advance ?st1))) (done_by fo st0)" if "type_of ?st1 = Semicolon" for l' c'
      using eats_next [OF e1 that] plain moves_next(1) [OF m1] by (intro finish_declaration [OF _ _ m inv]) auto
    then show ?thesis using False
      by (auto simp: parseDeclaration_def Let_def intro!: settles_expect [OF m1, unfolded Let_def])
  next
    case True
    have m2: "moves st ?st2" and w2: "work ?st2 < work st" using moves_next [OF m1] True w1 by simp_all
    have e2: "eats st0 [(Identifier, tn), (Identifier, ?vn), (Equal, tok_text (m_token ?st1))] ?st2" using eats_next [OF e1 True] by simp
    have "settles st (do { (v, st3) \<leftarrow> parseExpression fo n ?st2;
        if has_errors st3 then Some (False, st3)
        else let (ok, st4) = p_expect Semicolon (msg ''expected '' @ [0x27, 0x3B, 0x27] @ msg '' after declaration'') st3
          in if \<not> ok then Some (False, st4) else Some (declareVariable tn ?vn v l c l' c' st4) }) (done_by fo st0)" for l' c'
    proof (rule settles_seq [OF expression_returns [OF m2]])
      fix v st3
      assume m3: "moves st st3" and v: "value_ok v \<and> (\<exists>ts. eats ?st2 ts st3 \<and> gAdditive fo (names_of st) ts v)"
      then obtain ts where ts: "eats ?st2 ts st3" "gAdditive fo (s_names (script_of st0)) ts v"
        using statement_start(3) [OF m inv] by auto
      show "settles st (let (ok, st4) = p_expect Semicolon (msg ''expected '' @ [0x27, 0x3B, 0x27] @ msg '' after declaration'') st3
          in if \<not> ok then Some (False, st4) else Some (declareVariable tn ?vn v l c l' c' st4)) (done_by fo st0)"
      proof (rule settles_expect [OF m3])
        assume t3: "type_of st3 = Semicolon" and m4: "moves st (p_advance st3)"
        have "eats st0 ((Identifier, tn) # (Identifier, ?vn) # (Equal, tok_text (m_token ?st1)) # ts @ [(Semicolon, tok_text (m_token st3))]) (p_advance st3)"
          using eats_next [OF eats_append [OF e2 ts(1)] t3] by simp
        then show "settles st (Some (declareVariable tn ?vn v l c l' c' (p_advance st3))) (done_by fo st0)"
          using initial [OF _ _ _ ts(2)] v by (intro finish_declaration [OF m4 _ m inv]) auto
      qed simp
    qed (use n w2 in simp)
    then show ?thesis using True by (simp add: parseDeclaration_def Let_def)
  qed
qed

subsection \<open>Structs\<close>

lemma parseStructInstanceDeclaration_settles:
  assumes m: "moves st0 st" and e: "eats st0 [(Identifier, tn)] st" and inv: "script_inv st0"
    and t: "type_of st = Identifier" and tn: "tn \<in> set (m_declaredStructs st)" "tn \<noteq> msg ''struct''"
  shows "settles st (Some (parseStructInstanceDeclaration tn st)) (done_by fo st0)"
proof -
  let ?n = "tok_text (m_token st)" and ?st1 = "p_advance st"
  let ?st2 = "p_advance ?st1"
  have r: "ready st" using moves_ready [OF m] .
  have m1: "moves st ?st1" using moves_next [OF moves_refl [OF r]] by simp
  have e1: "eats st0 [(Identifier, tn), (Identifier, ?n)] ?st1" using eats_next [OF e t] by simp
  have st: "tn \<in> set (s_structs (script_of st0))" using tn(1) statement_start(2) [OF m inv] by (simp flip: script_of_structs)
  have "settles st (Some (addBindInstance tn ?n l c ?st2)) (done_by fo st0)" if t1: "type_of ?st1 = Semicolon" for l c
  proof -
    have m2: "moves st ?st2" using moves_next(1) [OF m1] .
    note s = statement_start [OF moves_trans [OF m m2] inv]
    have "eats st0 [(Identifier, tn), (Identifier, ?n), (Semicolon, tok_text (m_token ?st1))] ?st2" using eats_next [OF e1 t1] by simp
    then show ?thesis using s_instance [OF st tn(2)]
      by (intro settles_steps [OF moves_steps [OF m2] settles_mono [OF addBindInstance_settles [OF s(4)]]])
        (auto simp: s(2) intro: done_byI)
  qed
  moreover have "settles st (Some (False, errorExpected m ?st1)) (done_by fo st0)" for m by (rule settles_expected [OF m1])
  ultimately show ?thesis by (simp add: parseStructInstanceDeclaration_def p_expect_def Let_def)
qed

lemma add_struct_inv: "script_inv st \<Longrightarrow> name \<notin> set (m_declaredStructs st) \<Longrightarrow> script_inv (st\<lparr>m_declaredStructs := m_declaredStructs st @ [name]\<rparr>)"
  by (simp add: script_inv_def)

lemma script_assign_structs: "script_assign path f s = Some s' \<Longrightarrow> s_structs s' = s_structs s"
  by (auto simp: script_assign_def split: option.splits)

lemma finish_struct:
  assumes m: "moves st0 st5" and inv: "script_inv st0" and ok: "value_ok al" "value_ok fl" and name: "name \<notin> set (m_declaredStructs st0)"
    and g: "\<And>s'. m_errors st5 = [] \<Longrightarrow> script_assign [s_asset (script_of st0), msg ''structs''] (add_entry name (struct_value al fl)) (script_of st0) = Some s' \<Longrightarrow>
      \<exists>ts. eats st0 ts st5 \<and> gStatement fo (script_of st0) ts (s'\<lparr>s_structs := s_structs s' @ [name]\<rparr>)"
  shows "settles st5 (let (added, st6) = addBindStruct name al fl l c st5
     in if \<not> added then Some (False, st6) else Some (True, st6\<lparr>m_declaredStructs := m_declaredStructs st6 @ [name]\<rparr>)) (done_by fo st0)"
proof -
  note s = statement_start [OF m inv]
  obtain ok st6 where a: "addBindStruct name al fl l c st5 = (ok, st6)" by fastforce
  have "\<exists>ok st'. Some (addBindStruct name al fl l c st5) = Some (ok, st') \<and> steps st5 st' \<and> (if ok then m_errors st' = [] \<longrightarrow> rescripted st5 st' \<and>
      script_assign [s_asset (script_of st5), msg ''structs''] (add_entry name (struct_value al fl)) (script_of st5) = Some (script_of st') else m_errors st' \<noteq> [])"
    using addBindStruct_settles [OF s(4) ok] unfolding settles_def .
  then have st6: "steps st5 st6" "if ok then m_errors st6 = [] \<longrightarrow> rescripted st5 st6 \<and>
      script_assign [s_asset (script_of st0), msg ''structs''] (add_entry name (struct_value al fl)) (script_of st0) = Some (script_of st6) else m_errors st6 \<noteq> []"
    using a s(2) by auto
  show ?thesis
  proof (cases ok)
    case False
    then show ?thesis using a st6 by (auto intro: settles_error)
  next
    case True
    let ?st7 = "st6\<lparr>m_declaredStructs := m_declaredStructs st6 @ [name]\<rparr>"
    have as: "script_assign [s_asset (script_of st5), msg ''structs''] (add_entry name (struct_value al fl)) (script_of st5) = Some (script_of st6)"
        and re: "rescripted st5 st6"
      using addBindStruct_assigns [of name al fl l c st5 st6] a True by auto
    have sa: "s_structs (script_of st6) = m_declaredStructs st0"
      using script_assign_structs [OF as] by (simp only: s(2) script_of_structs)
    have "script_inv st6" using st6(1) s(1) by (simp add: steps_def)
    moreover have "name \<notin> set (m_declaredStructs st6)" using name sa [unfolded script_of_structs] by simp
    ultimately have "script_inv ?st7" by (rule add_struct_inv)
    moreover have "rescripted st6 ?st7" by (simp add: rescripted_def)
    ultimately have "steps st5 ?st7" using rescripted_steps [of st6 ?st7] steps_ready [OF st6(1)] steps_trans [OF st6(1)] by blast
    moreover have "done_by fo st0 ?st7" if none: "m_errors st6 = []"
    proof -
      have "script_of ?st7 = (script_of st6)\<lparr>s_structs := s_structs (script_of st6) @ [name]\<rparr>" by (simp add: script_of_def)
      moreover have "m_errors st5 = []" using re none by (simp add: rescripted_def)
      ultimately obtain ts where "eats st0 ts st5" "gStatement fo (script_of st0) ts (script_of ?st7)"
        using g [of "script_of st6"] st6(2) True none by auto
      then show ?thesis using re by (auto intro: done_byI simp: rescripted_def)
    qed
    ultimately show ?thesis using a True by (auto intro: settles_ok)
  qed
qed

lemma struct_fields_clean:
  "struct_fields n xs names st = Some (Inr ys, st') \<Longrightarrow> m_errors st' = [] \<or> ys = xs \<and> st' = st"
proof (induction n arbitrary: xs names st)
  case (Suc n)
  show ?case
  proof (cases "type_of st = RightBrace \<or> type_of st = EndOfFile \<or> parseAttributeList n st = None")
    case True
    then show ?thesis using Suc.prems by (auto split: if_splits)
  next
    case False
    then obtain v st1 f names1 st2 where a: "parseAttributeList n st = Some (v, st1)" and f: "parseStructField v names st1 = (f, names1, st2)"
      by (metis not_None_eq prod.exhaust)
    show ?thesis
    proof (cases "m_errors st1 \<noteq> [] \<or> type_of st1 = RightBrace")
      case True
      then show ?thesis using Suc.prems False a by (auto simp: has_errors_def split: if_splits)
    next
      case no: False
      then have "m_errors st2 = []" "struct_fields n (list_append xs f) names1 st2 = Some (Inr ys, st')"
        using Suc.prems False a f by (auto simp: has_errors_def split: if_splits)
      then show ?thesis using Suc.IH by metis
    qed
  qed
qed simp

lemma parseStructDeclaration_settles:
  assumes m: "moves st0 st" and e: "eats st0 (as @ [(Identifier, msg ''struct'')]) st" and inv: "script_inv st0" and n: "work st + 1 < n"
    and t: "type_of st = Identifier" and a: "gAttributes as al" "value_ok (List_v al)"
  shows "settles st (parseStructDeclaration n (List_v al) l c st) (done_by fo st0)"
proof -
  let ?n = "tok_text (m_token st)" and ?st1 = "p_advance st"
  let ?st2 = "p_advance ?st1"
  let ?close = "\<lambda>fieldList st3. let (ok, st4) = p_expect RightBrace (msg ''expected '' @ [0x27, 0x7D, 0x27] @ msg '' after struct fields'') st3
        in if \<not> ok then Some (False, st4)
           else let (ok, st5) = p_expect Semicolon (msg ''expected '' @ [0x27, 0x3B, 0x27] @ msg '' after struct declaration'') st4
             in if \<not> ok then Some (False, st5)
                else let (added, st6) = addBindStruct ?n (List_v al) (List_v fieldList) l c st5
                  in if \<not> added then Some (False, st6)
                     else Some (True, st6\<lparr>m_declaredStructs := m_declaredStructs st6 @ [?n]\<rparr>)"
  have r: "ready st" using moves_ready [OF m] .
  have m1: "moves st ?st1" and w1: "work ?st1 < work st" using moves_next [OF moves_refl [OF r]] t by simp_all
  let ?open = "as @ [(Identifier, msg ''struct''), (Identifier, ?n)]"
  have e1: "eats st0 ?open ?st1" using eats_next [OF e t] by simp
  have main: "settles st (do { (r, st3) \<leftarrow> struct_fields n [] [] ?st2; case r of Inl _ \<Rightarrow> Some (False, st3) | Inr fieldList \<Rightarrow> ?close fieldList st3 }) (done_by fo st0)"
    if tb: "type_of ?st1 = LeftBrace" and name: "?n \<notin> set (m_declaredStructs st0)"
  proof -
    let ?openb = "?open @ [(LeftBrace, tok_text (m_token ?st1))]"
    have m2: "moves st ?st2" and w2: "work ?st2 + 1 < n" using moves_next [OF m1] tb w1 n by simp_all
    have m2': "moves st0 ?st2" using moves_trans [OF m m2] .
    have e2: "eats st0 (?openb @ []) ?st2" using eats_next [OF e1 tb] by simp
    obtain r st3 where f: "struct_fields n [] [] ?st2 = Some (r, st3)" "moves ?st2 st3"
      using struct_fields_returns [OF w2 moves_refl [OF moves_ready [OF m2]], of "[]" "[]" "[]" "[]"] 
      by (auto simp: returns_def eats_none f_none)
    have m3: "moves st0 st3" and fl: "m_errors st3 = [] \<longrightarrow> (\<exists>ys ts ns. r = Inr ys \<and> value_ok (List_v ys) \<and> gFields ts ys ns \<and> eats st0 (?openb @ ts) st3)"
      using struct_fields_returns [OF w2 m2' e2 f_none] f(1) by (auto simp: returns_def)
    have m3': "moves st st3" using moves_trans [OF m2 f(2)] .
    show ?thesis
    proof (cases r)
      case (Inl u)
      then show ?thesis using f fl settles_error [OF moves_steps [OF m3']] by auto
    next
      case (Inr ys)
      have "settles st (?close ys st3) (done_by fo st0)"
      proof (rule settles_expect [OF m3'], goal_cases)
        case 2
        note brace = 2
        let ?st4 = "p_advance st3"
        show ?case
        proof (rule settles_expect [OF brace(2)], goal_cases)
          case 2
          let ?st5 = "p_advance ?st4"
          have m5: "moves st0 ?st5" using moves_trans [OF m 2(2)] .
          show ?case
          proof (rule settles_steps [OF moves_steps [OF 2(2)] finish_struct [OF m5 inv a(2) _ name]])
            show "value_ok (List_v ys)" using struct_fields_clean [of n "[]" "[]" ?st2 ys st3] f(1) fl Inr by auto
          next
            fix s'
            assume ne: "m_errors ?st5 = []" and sa: "script_assign [s_asset (script_of st0), msg ''structs'']
              (add_entry ?n (struct_value (List_v al) (List_v ys))) (script_of st0) = Some s'"
            have "m_errors ?st4 = []" using advance_no_errors [OF moves_trans [OF m brace(2)] ne] .
            then have "m_errors st3 = []" using advance_no_errors [OF m3] by blast
            then obtain ts ns where ts: "gFields ts ys ns" "eats st0 (?openb @ ts) st3" using fl Inr by auto
            show "\<exists>ts. eats st0 ts ?st5 \<and> gStatement fo (script_of st0) ts (s'\<lparr>s_structs := s_structs s' @ [?n]\<rparr>)"
              using s_struct [OF a(1) ts(1) _ sa] name eats_next [OF eats_next [OF ts(2) brace(1)] 2(1)]
              by (auto simp: script_of_structs)
          qed
        qed simp
      qed simp
      then show ?thesis using f(1) Inr by simp
    qed
  qed
  have "?n \<notin> set (m_declaredStructs st0)" if "\<not> isDeclaredStruct ?st1 ?n"
    using that moves_trans [OF m m1] by (simp add: isDeclaredStruct_def isNameInList_iff moves_def same_script_def)
  then have "settles st (if isDeclaredStruct ?st1 ?n then Some (False, error_at l c (msg ''duplicate struct declaration'') ?st1)
      else let (ok, st2) = p_expect LeftBrace (msg ''expected '' @ [0x27, 0x7B, 0x27] @ msg '' after struct name'') ?st1
           in if \<not> ok then Some (False, st2)
              else do { (r, st3) \<leftarrow> struct_fields n [] [] st2; case r of Inl _ \<Rightarrow> Some (False, st3) | Inr fieldList \<Rightarrow> ?close fieldList st3 }) (done_by fo st0)"
    using main settles_moves_error [OF m1]
    by (cases "isDeclaredStruct ?st1 ?n") (simp_all only: if_True if_False simp_thms, intro settles_expect [OF m1], simp_all)
  then show ?thesis unfolding parseStructDeclaration_def Let_def .
qed

subsection \<open>Assignments\<close>

lemma assignment_reports: "validateAssignment fo op v rhs = Some m \<Longrightarrow> m \<noteq> None"
  by (cases op) (auto simp: validateAssignment_def validateNumericOperands_def split: if_splits Value.splits)

lemma apply_assignment_ok: "value_ok v \<Longrightarrow> value_ok rhs \<Longrightarrow> value_ok (apply_assignment fo op v rhs)"
  unfolding apply_assignment_def using assignments_ok [of v rhs fo] by (simp split: TokenType.split)

lemma resolveTarget_cases:
  assumes "script_inv st"
  obtains (undeclared) m where "resolveTarget path create l c st = (None, error_at l c m st)"
  | (walked) root new t where "hd path \<in> set (names_of st)" "map_of (m_variables st) (hd path) = Some root" "value_ok root"
      "resolve_walk root (tl path) = (new, t)"
      "resolveTarget path create l c st = (t, if t = None then error_at l c (msg ''cannot access field on non-map value'') (set_variable (hd path) new st)
          else set_variable (hd path) new st)"
proof (cases "hd path \<in> set (names_of st)")
  case False
  then show thesis using undeclared by (simp add: resolveTarget_def isDeclared_iff)
next
  case True
  then obtain root where r: "map_of (m_variables st) (hd path) = Some root" using script_inv_variable [OF assms] by blast
  obtain new t where w: "resolve_walk root (tl path) = (new, t)" by fastforce
  show thesis
    using walked [OF True r script_inv_value [OF assms r] w] True r w by (cases t) (simp_all add: resolveTarget_def isDeclared_iff Let_def)
qed

lemma write_target_script:
  assumes "map_of (m_variables st) (hd path) = Some root" "resolve_walk root (tl path) = (new, Some t)" "f t = Some x"
  shows "script_assign path f (script_of st) = Some (script_of (write_target path x (set_variable (hd path) new st)))"
proof -
  have "assign_at root (tl path) f = Some (write_path new (tl path) x)" using resolve_write [where f = f and x = x, OF assms(2,3)] .
  then show ?thesis using assms(1)
    by (simp add: script_assign_def script_of_def write_target_def set_variable_def map_modify_const map_of_modify fun_eq_iff)
qed

lemma assign_to_script:
  assumes "script_inv st" "assign_to fo op path rhs l c l' c' st = Some (True, st')"
  shows "rescripted st st' \<and> hd path \<in> set (names_of st) \<and> script_assign path (assigned fo op rhs) (script_of st) = Some (script_of st')"
proof (rule resolveTarget_cases [OF assms(1), where path = path and create = "op = Equal" and l = l and c = c], goal_cases)
  case (1 m)
  then show ?thesis using assms(2) by (simp add: assign_to_def)
next
  case (2 root new t)
  obtain v where v: "t = Some v" using assms(2) 2(5) by (cases t) (simp_all add: assign_to_def)
  have n: "validateAssignment fo op v rhs = None" and st': "st' = write_target path (apply_assignment fo op v rhs) (set_variable (hd path) new st)"
    using 2(5) v assms(2) by (cases "validateAssignment fo op v rhs"; simp add: assign_to_def)+
  have "assigned fo op rhs v = Some (apply_assignment fo op v rhs)" using n unfolding assigned_def by (rule if_P)
  then have "script_assign path (assigned fo op rhs) (script_of st) = Some (script_of st')"
    using write_target_script [OF 2(2)] 2(4) v st' by simp
  moreover have "rescripted st st'" using st' by (simp add: rescripted_def set_variable_def write_target_def)
  ultimately show ?thesis using 2(1) by blast
qed

lemma assign_to_settles:
  assumes r: "ready st" and inv: "script_inv st" and rhs: "value_ok rhs"
  shows "settles st (assign_to fo op path rhs l c l' c' st)
    (\<lambda>st'. rescripted st st' \<and> hd path \<in> set (names_of st) \<and> script_assign path (assigned fo op rhs) (script_of st) = Some (script_of st'))"
proof (rule resolveTarget_cases [OF inv, where path = path and create = "op = Equal" and l = l and c = c], goal_cases)
  case (1 m)
  then show ?thesis using settles_report [OF r] by (simp add: assign_to_def)
next
  case (2 root new t)
  let ?st4 = "set_variable (hd path) new st"
  have ok: "value_ok new" "\<forall>x. t = Some x \<longrightarrow> value_ok x" using resolve_walk_ok [OF 2(3,4)] by blast+
  have inv4: "script_inv ?st4" by (rule set_variable_inv [OF inv 2(1) ok(1)])
  have err: "settles st (Some (False, error_at l c m ?st4)) Q" for l c m Q by (rule settles_set_error [OF r inv4])
  show ?thesis
  proof (cases t)
    case None
    then show ?thesis using 2(5) err by (simp add: assign_to_def)
  next
    case t: (Some v)
    show ?thesis
    proof (cases "validateAssignment fo op v rhs")
      case (Some mo)
      then obtain m where "mo = Some m" using assignment_reports [OF Some] by blast
      then show ?thesis using 2(5) t Some err by (simp add: assign_to_def report_def)
    next
      case None
      let ?st5 = "write_target path (apply_assignment fo op v rhs) ?st4"
      have "script_inv ?st5" using write_target_inv [OF inv4 _ apply_assignment_ok [OF _ rhs]] 2(1) ok(2) t by simp
      moreover have a: "assign_to fo op path rhs l c l' c' st = Some (True, ?st5)" using 2(5) t None by (simp add: assign_to_def)
      ultimately show ?thesis using assign_to_script [OF inv a] rescripted_steps [OF _ r] by (auto intro: settles_ok)
    qed
  qed
qed

lemma path_loop_moves: "path_loop n path st = Some (r, st1) \<Longrightarrow> moves st0 st \<Longrightarrow> moves st0 st1"
proof (induction n arbitrary: path st)
  case (Suc n)
  have "moves st0 (p_advance st)" "moves st0 (p_advance (p_advance st))" using moves_next(1) Suc.prems(2) by blast+
  then show ?case using Suc moves_expected by (auto simp: Let_def split: if_splits)
qed simp

lemma parseAssignment_settles:
  assumes m: "moves st0 st" and e: "eats st0 [(Identifier, name)] st" and inv: "script_inv st0" and n: "2 * work st + 2 < n"
  shows "settles st (parseAssignment fo n name l c st) (done_by fo st0)"
proof -
  have r: "ready st" using moves_ready [OF m] .
  obtain p st1 where p: "path_loop n [name] st = Some (p, st1)" "moves st0 st1" "p = None \<longrightarrow> m_errors st1 \<noteq> []"
      "\<forall>path. p = Some path \<longrightarrow> (\<exists>ts. ts \<noteq> [] \<and> eats st0 ts st1 \<and> path_tokens ts path)"
    using path_loop_returns [OF _ m e path_one, of n] n by fastforce
  have m1: "moves st st1" using path_loop_moves [OF p(1) moves_refl [OF r]] .
  show ?thesis
  proof (cases p)
    case None
    then show ?thesis using p(1,3) settles_error [OF moves_steps [OF m1]] by (auto simp: parseAssignment_def)
  next
    case (Some path)
    obtain ps where ps: "eats st0 ps st1" "path_tokens ps path" using p(4) Some by blast
    let ?op = "type_of st1" and ?st2 = "p_advance st1"
    let ?run = "do { (rhs, st3) \<leftarrow> parseExpression fo n ?st2;
       if has_errors st3 then Some (False, st3)
       else let (ok, st4) = p_expect Semicolon (msg ''expected '' @ [0x27, 0x3B, 0x27] @ msg '' after expression'') st3
         in if \<not> ok then Some (False, st4) else assign_to fo ?op path rhs l c (tok_line (m_token st1)) (tok_column (m_token st1)) st4 }"
    have run: "settles st ?run (done_by fo st0)" if op: "assignment_op ?op"
    proof -
      have neof: "?op \<noteq> EndOfFile" using op by (auto simp: assignment_op_def)
      have m2: "moves st ?st2" and w2: "2 * work ?st2 + 2 < n" using moves_next [OF m1] neof n m1 by (simp_all add: moves_def)
      have e2: "eats st0 (ps @ [(?op, tok_text (m_token st1))]) ?st2" using eats_next [OF ps(1) refl neof] .
      show ?thesis
      proof (rule settles_seq [OF expression_returns [OF m2 w2]])
        fix rhs st3
        assume m3: "moves st st3" and v: "value_ok rhs \<and> (\<exists>ts. eats ?st2 ts st3 \<and> gAdditive fo (names_of st) ts rhs)"
        then obtain ts where ts: "eats ?st2 ts st3" "gAdditive fo (s_names (script_of st0)) ts rhs" and ok: "value_ok rhs"
          using statement_start(3) [OF m inv] by auto
        show "settles st (let (ok, st4) = p_expect Semicolon (msg ''expected '' @ [0x27, 0x3B, 0x27] @ msg '' after expression'') st3
          in if \<not> ok then Some (False, st4) else assign_to fo ?op path rhs l c (tok_line (m_token st1)) (tok_column (m_token st1)) st4) (done_by fo st0)"
        proof (rule settles_expect [OF m3])
          assume t3: "type_of st3 = Semicolon" and m4: "moves st (p_advance st3)"
          note s = statement_start [OF moves_trans [OF m m4] inv]
          have e4: "eats st0 (ps @ (?op, tok_text (m_token st1)) # ts @ [(Semicolon, tok_text (m_token st3))]) (p_advance st3)"
            using eats_next [OF eats_append [OF e2 ts(1)] t3] by simp
          show "settles st (assign_to fo ?op path rhs l c (tok_line (m_token st1)) (tok_column (m_token st1)) (p_advance st3)) (done_by fo st0)"
          proof (rule settles_steps [OF moves_steps [OF m4] settles_mono [OF assign_to_settles [OF s(4,1) ok]]])
            fix st'
            assume a: "rescripted (p_advance st3) st' \<and> hd path \<in> set (names_of (p_advance st3))
              \<and> script_assign path (assigned fo ?op rhs) (script_of (p_advance st3)) = Some (script_of st')"
            have h: "hd path \<in> set (s_names (script_of st0))" using a s(3) by simp
            have sa: "script_assign path (assigned fo ?op rhs) (script_of st0) = Some (script_of st')" using a s(2) by simp
            show "done_by fo st0 st'" using done_byI [OF e4 _ s_assign [OF ps(2) op h ts(2) sa]] a by blast
          qed
        qed simp
      qed
    qed
    show ?thesis
    proof (cases "assignment_op ?op")
      case True
      then have "parseAssignment fo n name l c st = ?run" using p(1) Some by (simp add: parseAssignment_def Let_def)
      then show ?thesis using run [OF True] by simp
    next
      case False
      then show ?thesis using p(1) Some by (simp add: parseAssignment_def Let_def settles_expected [OF m1])
    qed
  qed
qed

subsection \<open>Whole scripts\<close>

lemma parseStatement_settles:
  assumes r: "ready st" and inv: "script_inv st" and n: "2 * work st + 4 < n" and neof: "type_of st \<noteq> EndOfFile"
  shows "\<exists>ok st'. parseStatement fo n st = Some (ok, st') \<and> steps st st'
    \<and> (if ok then work st' < work st \<and> (m_errors st' = [] \<longrightarrow> done_by fo st st') else m_errors st' \<noteq> [])"
proof -
  have w0: "work st < n" using n by simp
  obtain v st1 where a: "parseAttributeList n st = Some (v, st1)" "moves st st1"
      and v: "m_errors st1 = [] \<longrightarrow> (\<exists>ys ts. v = List_v ys \<and> value_ok v \<and> gAttributes ts ys \<and> eats st ts st1)"
    using parseAttributeList_returns [OF w0 moves_refl [OF r]] unfolding returns_def by blast
  show ?thesis
  proof (cases "m_errors st1 = [] \<and> type_of st1 = Identifier")
    case False
    then show ?thesis using a moves_steps [OF a(2)] moves_steps [OF moves_expected [OF a(2)]] expected_nonempty
      by (auto simp: parseStatement_def has_errors_def)
  next
    case True
    then obtain al as where al: "v = List_v al" "value_ok (List_v al)" "gAttributes as al" "eats st as st1" using v by auto
    let ?name = "tok_text (m_token st1)" and ?st2 = "p_advance st1"
    have m2: "moves st ?st2" and w2: "work ?st2 < work st" using moves_next [OF a(2)] True a(2) by (auto simp: moves_def)
    have e2: "eats st (as @ [(Identifier, ?name)]) ?st2" using eats_next [OF al(4)] True by simp
    have n2: "2 * work ?st2 + 2 < n" "work ?st2 + 1 < n" using n w2 by simp_all
    let ?r = "if ?name = msg ''struct'' \<and> type_of ?st2 = Identifier then
            parseStructDeclaration n v (tok_line (m_token st1)) (tok_column (m_token st1)) ?st2
          else if v \<noteq> List_v [] then
            Some (False, error_at (tok_line (m_token st1)) (tok_column (m_token st1)) (msg ''attributes are only supported on struct declarations'') ?st2)
          else if type_of ?st2 = Identifier then
            (if isDeclaredStruct ?st2 ?name then Some (parseStructInstanceDeclaration ?name ?st2)
             else parseDeclaration fo n ?name (tok_line (m_token st1)) (tok_column (m_token st1)) ?st2)
          else parseAssignment fo n ?name (tok_line (m_token st1)) (tok_column (m_token st1)) ?st2"
    have p: "parseStatement fo n st = ?r" using a(1) True unfolding parseStatement_def by (simp add: has_errors_def Let_def)
    have "settles ?st2 ?r (done_by fo st)"
    proof (cases "?name = msg ''struct'' \<and> type_of ?st2 = Identifier")
      case True
      then have "settles ?st2 (parseStructDeclaration n v (tok_line (m_token st1)) (tok_column (m_token st1)) ?st2) (done_by fo st)"
        unfolding al(1) using e2 by (intro parseStructDeclaration_settles [OF m2 _ inv n2(2) _ al(3,2)]) simp_all
      then show ?thesis unfolding if_P [OF True] .
    next
      case no: False
      note m2r = moves_refl [OF moves_ready [OF m2]]
      show ?thesis unfolding if_not_P [OF no]
      proof (cases "v = List_v []")
        case False
        then show "settles ?st2 (if v \<noteq> List_v [] then
            Some (False, error_at (tok_line (m_token st1)) (tok_column (m_token st1)) (msg ''attributes are only supported on struct declarations'') ?st2)
          else if type_of ?st2 = Identifier then
            (if isDeclaredStruct ?st2 ?name then Some (parseStructInstanceDeclaration ?name ?st2)
             else parseDeclaration fo n ?name (tok_line (m_token st1)) (tok_column (m_token st1)) ?st2)
          else parseAssignment fo n ?name (tok_line (m_token st1)) (tok_column (m_token st1)) ?st2) (done_by fo st)"
          unfolding if_P [OF False] by (intro settles_moves_error m2r)
      next
        case True
        then have "as = []" using gAttributes_Nil [OF al(3)] al(1) by simp
        then have e2': "eats st [(Identifier, ?name)] ?st2" using e2 by simp
        show "settles ?st2 (if v \<noteq> List_v [] then
            Some (False, error_at (tok_line (m_token st1)) (tok_column (m_token st1)) (msg ''attributes are only supported on struct declarations'') ?st2)
          else if type_of ?st2 = Identifier then
            (if isDeclaredStruct ?st2 ?name then Some (parseStructInstanceDeclaration ?name ?st2)
             else parseDeclaration fo n ?name (tok_line (m_token st1)) (tok_column (m_token st1)) ?st2)
          else parseAssignment fo n ?name (tok_line (m_token st1)) (tok_column (m_token st1)) ?st2) (done_by fo st)"
          using True no parseStructInstanceDeclaration_settles [OF m2 e2' inv] parseDeclaration_settles [OF m2 e2' inv n2(1)]
            parseAssignment_settles [OF m2 e2' inv n2(1)]
          by (simp only: not_True_eq_False if_False split: if_split) (auto simp: isDeclaredStruct_def isNameInList_iff)
      qed
    qed
    then show ?thesis unfolding p settles_def
      using steps_trans [OF moves_steps [OF m2]] w2 by (fastforce simp: steps_def split: if_splits)
  qed
qed

lemma parseStatements_returns:
  "ready st \<Longrightarrow> script_inv st \<Longrightarrow> 2 * work st + 4 < n \<Longrightarrow> work st < k \<Longrightarrow>
   \<exists>ok st'. parseStatements fo n k st = Some (ok, st') \<and> steps st st' \<and> (ok \<longleftrightarrow> m_errors st' = [])
     \<and> (ok \<longrightarrow> type_of st' = EndOfFile \<and> (\<exists>ts. scans (at st) ts (at st') \<and> gScript fo (script_of st) ts (script_of st')))"
proof (induction k arbitrary: st)
  case (Suc k)
  show ?case
  proof (cases "type_of st = EndOfFile")
    case True
    then show ?thesis using moves_steps [OF moves_refl [OF Suc.prems(1)]] scans_none [of "at st"] sc_none [of fo "script_of st"] by auto
  next
    case False
    obtain ok st1 where s: "parseStatement fo n st = Some (ok, st1)" "steps st st1"
        "if ok then work st1 < work st \<and> (m_errors st1 = [] \<longrightarrow> done_by fo st st1) else m_errors st1 \<noteq> []"
      using parseStatement_settles [OF Suc.prems(1-3) False] by blast
    show ?thesis
    proof (cases ok)
      case no: False
      then show ?thesis using s False by auto
    next
      case True
      then have "work st1 < work st" "ready st1" "script_inv st1" using s Suc.prems(2) by (auto simp: steps_def)
      then obtain ok' st' where r: "parseStatements fo n k st1 = Some (ok', st')" "steps st1 st'" "ok' \<longleftrightarrow> m_errors st' = []"
          "ok' \<longrightarrow> type_of st' = EndOfFile \<and> (\<exists>ts. scans (at st1) ts (at st') \<and> gScript fo (script_of st1) ts (script_of st'))"
        using Suc.IH [of st1] Suc.prems(3,4) by auto
      have "\<exists>ts. scans (at st) ts (at st') \<and> gScript fo (script_of st) ts (script_of st')" if ok'
      proof -
        have "m_errors st1 = []" using r(2,3) \<open>ok'\<close> by (auto simp: steps_def)
        then obtain us where us: "scans (at st) us (at st1)" "gStatement fo (script_of st) us (script_of st1)"
          using s(3) True by (auto simp: done_by_def)
        obtain ts where "scans (at st1) ts (at st')" "gScript fo (script_of st1) ts (script_of st')" using r(4) \<open>ok'\<close> by blast
        then show ?thesis using scans_append [OF us(1)] sc_more [OF us(2)] by blast
      qed
      then show ?thesis using s(1) r steps_trans [OF s(2) r(2)] True False by auto
    qed
  qed
qed simp

lemma Parser_new_start:
  fixes source
  defines "st \<equiv> Parser_new source :: 'f Parser"
  shows "ready st" "work st \<le> length source" "m_variables st = []" "m_declarations st = []" "m_declaredStructs st = []"
    "m_declaredAssetVariable st = []" "next_token (Lexer_new source) = (m_token st, m_lexer st)"
proof -
  obtain st0 :: "'f Parser" where s: "st = p_advance st0" "m_lexer st0 = Lexer_new source" "type_of st0 = EndOfFile"
      "m_variables st0 = []" "m_declarations st0 = []" "m_declaredStructs st0 = []" "m_declaredAssetVariable st0 = []"
    unfolding st_def Parser_new_def by force
  have "ready st0" "work st0 = length source" using s lex_inv_new by (simp_all add: ready_def work_def rest_def Lexer_new_def)
  then have "moves st0 st" "work st \<le> length source" using advance_moves [of st0] s(1) by (auto simp: moves_def)
  then show "ready st" "work st \<le> length source" "m_variables st = []" "m_declarations st = []" "m_declaredStructs st = []"
      "m_declaredAssetVariable st = []"
    using s by (simp_all add: moves_def same_script_def)
  show "next_token (Lexer_new source) = (m_token st, m_lexer st)"
    using at_advance [of st0] s(1,2) by (cases "next_token (m_lexer st0)") auto
qed

text \<open>The tokens of a source up to its end.\<close>

definition source_tokens :: "u8 list \<Rightarrow> key list \<Rightarrow> bool" where
  "source_tokens source ts \<longleftrightarrow> (\<exists>t. map token_key (lex_tokens (Suc (length ts)) (Lexer_new source)) = ts @ [(EndOfFile, t)])"

lemma scans_source:
  assumes "scans (at (Parser_new source :: 'f Parser)) ts (lx, t)" "tok_type t = EndOfFile"
  shows "source_tokens source ts"
  using scans_lex [OF assms] Parser_new_start(7) [of source, where 'f = 'f] assms(2)
  by (auto simp: source_tokens_def token_key_def)

section \<open>Documents\<close>

definition document_ok :: "'f Document \<Rightarrow> bool" where
  "document_ok d \<longleftrightarrow> distinct (map fst (d_variables d)) \<and> fst ` set (d_variables d) = decl_variable ` set (d_declarations d)
     \<and> distinct (map decl_variable (d_declarations d)) \<and> (\<forall>p \<in> set (d_variables d). value_ok (snd p))"

definition document_script :: "'f Document \<Rightarrow> 'f Script \<Rightarrow> bool" where
  "document_script d s \<longleftrightarrow> s_vars s = map_of (d_variables d) \<and> s_decls s = d_declarations d \<and> s_asset s = d_assetVariable d"

definition empty_script :: "'f Script" where
  "empty_script = \<lparr>s_vars = (\<lambda>_. None), s_decls = [], s_structs = [], s_asset = []\<rparr>"

lemma document_of_ok: "script_inv st \<Longrightarrow> document_ok (document_of a b st)"
  by (simp add: document_ok_def document_of_def script_inv_def)

lemma document_of_simps [simp]:
  "d_assetType (document_of a b st) = a" "d_assetVariable (document_of a b st) = b" "d_variables (document_of a b st) = m_variables st"
  "d_declarations (document_of a b st) = m_declarations st" "d_errors (document_of a b st) = m_errors st"
  by (simp_all add: document_of_def)

lemma error_at_inv: "script_inv st \<Longrightarrow> script_inv (error_at l c m st)"
  using same_script_inv [of st "error_at l c m st"] by simp

text \<open>C37: Parsing a source always ends, with a document in which exactly the declared names have a value, every
  name is declared once and every value is well-formed. It succeeds exactly when it reports no
  error; the asset is then the first declaration, and the tokens of the source are a sequence of
  grammatical statements whose effects, run in order from the empty script, give the variables
  and declarations of the document.\<close>

theorem parse_correct:
  "\<exists>ok d. parse (fo :: 'f f64_ops) source = Some (ok, d) \<and> document_ok d \<and> ok = (d_errors d = [])
    \<and> (if ok then \<exists>first more ts s. d_declarations d = first # more \<and> d_assetType d = decl_type first \<and> d_assetVariable d = decl_variable first
         \<and> asset d \<noteq> None \<and> source_tokens source ts \<and> gScript fo empty_script ts s \<and> document_script d s
       else d_assetType d = [] \<and> d_assetVariable d = [])"
proof -
  let ?st = "Parser_new source :: 'f Parser" let ?n = "document_fuel source"
  note st = Parser_new_start [of source, where 'f = 'f]
  have inv: "script_inv ?st" by (simp add: script_inv_def st)
  have f: "2 * work ?st + 4 < ?n" "work ?st < ?n" using st(2) by (simp_all add: document_fuel_def)
  have e: "script_of ?st = empty_script" by (simp add: script_of_def empty_script_def st fun_eq_iff)
  obtain ok st1 where r: "parseStatements fo ?n ?n ?st = Some (ok, st1)" "steps ?st st1" "ok \<longleftrightarrow> m_errors st1 = []"
      "ok \<longrightarrow> type_of st1 = EndOfFile \<and> (\<exists>ts. scans (at ?st) ts (at st1) \<and> gScript fo (script_of ?st) ts (script_of st1))"
    using parseStatements_returns [OF st(1) inv f] by blast
  have inv1: "script_inv st1" using r(2) inv by (simp add: steps_def)
  show ?thesis
  proof (cases "ok \<and> m_declarations st1 \<noteq> []")
    case False
    then show ?thesis using r(1,3) document_of_ok [OF inv1] document_of_ok [OF error_at_inv [OF inv1]]
      by (auto simp: parse_def finalizeExplicitDeclaration_def)
  next
    case True
    then obtain first more where d: "m_declarations st1 = first # more" by (auto simp: neq_Nil_conv)
    have a: "m_declaredAssetVariable st1 = decl_variable first" "decl_variable first \<noteq> []" using inv1 d by (auto simp: script_inv_def)
    let ?d = "document_of (decl_type first) (decl_variable first) st1"
    have p: "parse fo source = Some (True, ?d)" using r(1) True d a by (simp add: parse_def finalizeExplicitDeclaration_def)
    obtain ts where ts: "scans (at ?st) ts (at st1)" "gScript fo empty_script ts (script_of st1)" using r(4) True e by auto
    have "source_tokens source ts" using scans_source [OF ts(1)] r(4) True by blast
    moreover have "document_script ?d (script_of st1)" by (simp add: document_script_def script_of_def a)
    moreover have "asset ?d \<noteq> None"
      using script_inv_variable [OF inv1, of "decl_variable first"] d by (auto simp: asset_def)
    ultimately show ?thesis using p ts(2) d r(3) True document_of_ok [OF inv1]
      by (intro exI [of _ True] exI [of _ ?d] conjI) auto
  qed
qed

lemma gStatement_asset: "gStatement fo s ts s' \<Longrightarrow> s_asset s \<noteq> [] \<Longrightarrow> s_asset s' = s_asset s"
  by (induction rule: gStatement.induct) (auto simp: script_declare_def script_assign_def split: option.splits)

lemma gScript_asset: "gScript fo s ts s' \<Longrightarrow> s_asset s \<noteq> [] \<Longrightarrow> s_asset s' = s_asset s"
  by (induction rule: gScript.induct) (simp_all add: gStatement_asset)

text \<open>A source that is accepted, run by the model.\<close>

lemma parse_example:
  "map_option (\<lambda>(ok, d). (ok, asset d)) (parse int_f64_ops (map of_char ''t a; a.x = -2 * (3 + 1); a.x += 1;''))
    = Some (True, Some (Map_v [(msg ''x'', Integer (- 7))]))"
  by code_simp

text \<open>Parsing with an implicit asset does the same from the script that already declares the asset, without a
  value; an empty asset type or name is an error, and the asset type and variable of the document are the given ones.\<close>

lemma parse_implicit_correct:
  "\<exists>ok d. parseWithImplicitAsset (fo :: 'f f64_ops) source ty var = Some (ok, d) \<and> document_ok d \<and> ok = (d_errors d = [])
    \<and> (if ty = [] \<or> var = [] then \<not> ok \<and> d_assetType d = [] \<and> d_assetVariable d = []
       else d_assetType d = ty \<and> d_assetVariable d = var)
    \<and> (if ok then asset d \<noteq> None \<and> (\<exists>ts s. source_tokens source ts \<and> gScript fo (script_declare ty var Null empty_script) ts s \<and> document_script d s)
       else True)"
proof (cases "ty = [] \<or> var = []")
  case True
  let ?st = "Parser_new source :: 'f Parser"
  have "script_inv ?st" by (simp add: script_inv_def Parser_new_start)
  then have "document_ok (document_of [] [] (error_at 1 1 m ?st))" for m by (intro document_of_ok error_at_inv)
  then show ?thesis using True by (auto simp: parseWithImplicitAsset_def declareImplicitAsset_def)
next
  case False
  let ?n = "document_fuel source"
  note st = Parser_new_start [of source, where 'f = 'f]
  let ?st = "(set_variable var Null (Parser_new source :: 'f Parser))\<lparr>m_declaredAssetVariable := var,
     m_declarations := [\<lparr>decl_type = ty, decl_variable = var\<rparr>]\<rparr>"
  have inv: "script_inv ?st" using False by (simp add: script_inv_def set_variable_def st)
  have r: "ready ?st" "work ?st = work (Parser_new source :: 'f Parser)" "at ?st = at (Parser_new source :: 'f Parser)"
    using st(1) by (simp_all add: ready_def work_def set_variable_def)
  have f: "2 * work ?st + 4 < ?n" "work ?st < ?n" using st(2) r(2) by (simp_all add: document_fuel_def)
  have e: "script_of ?st = script_declare ty var Null empty_script"
    by (simp add: script_of_def script_declare_def empty_script_def set_variable_def st fun_eq_iff)
  obtain ok st1 where p: "parseStatements fo ?n ?n ?st = Some (ok, st1)" "steps ?st st1" "ok \<longleftrightarrow> m_errors st1 = []"
      "ok \<longrightarrow> type_of st1 = EndOfFile \<and> (\<exists>ts. scans (at ?st) ts (at st1) \<and> gScript fo (script_of ?st) ts (script_of st1))"
    using parseStatements_returns [OF r(1) inv f] by blast
  let ?d = "document_of ty var st1"
  have inv1: "script_inv st1" using p(2) inv by (simp add: steps_def)
  have w: "parseWithImplicitAsset fo source ty var = Some (ok, ?d)"
    using p(1) False st(3,4) by (simp add: parseWithImplicitAsset_def declareImplicitAsset_def)
  have "asset ?d \<noteq> None \<and> (\<exists>ts s. source_tokens source ts \<and> gScript fo (script_declare ty var Null empty_script) ts s \<and> document_script ?d s)" if ok
  proof -
    obtain ts where ts: "scans (at ?st) ts (at st1)" "gScript fo (script_of ?st) ts (script_of st1)" "type_of st1 = EndOfFile"
      using p(4) \<open>ok\<close> by blast
    have a: "m_declaredAssetVariable st1 = var" using gScript_asset [OF ts(2)] False by (simp add: script_of_def)
    then have "var \<in> set (names_of st1)" using inv1 False by (cases "m_declarations st1") (auto simp: script_inv_def)
    then have "asset ?d \<noteq> None" using script_inv_variable [OF inv1, of var] by (auto simp: asset_def)
    moreover have "source_tokens source ts" using scans_source [of source ts "m_lexer st1" "m_token st1", where 'f = 'f] ts(1,3) r(3) by simp
    moreover have "document_script ?d (script_of st1)" by (simp add: document_script_def script_of_def a)
    ultimately show ?thesis using ts(2) unfolding e by blast
  qed
  then show ?thesis using w False p(3) document_of_ok [OF inv1] by (intro exI [of _ ok] exI [of _ ?d] conjI) auto
qed

lemma resolveRead_iff:
  "resolveRead path st = (y, st) \<longleftrightarrow> hd path \<in> set (names_of st) \<and> (\<exists>root. map_of (m_variables st) (hd path) = Some root \<and> read_walk root (tl path) = Inr y)"
proof -
  have e: "p_error m st \<noteq> st" for m
  proof
    assume "p_error m st = st"
    then have "m_errors (p_error m st) = m_errors st" by simp
    then show False by (simp add: p_error_def error_at_def)
  qed
  then show ?thesis by (auto simp: resolveRead_def isDeclared_iff split: option.splits sum.splits)
qed

lemma script_assign_effect:
  assumes "script_assign path f (script_of st) = Some (script_of st')"
  obtains root w where "map_of (m_variables st) (hd path) = Some root" "assign_at root (tl path) f = Some w"
    "map_of (m_variables st') = (map_of (m_variables st))(hd path \<mapsto> w)" "m_declarations st' = m_declarations st"
  using assms by (auto simp: script_assign_def script_of_def split: option.splits)

text \<open>C38: An assignment does what it says: when it succeeds, the target path reads as the result of the operator
  applied to its old value (null when it had none) and the right-hand side, every path that leaves the target path
  reads as before, no error is reported and the parser state stays consistent.\<close>

theorem assignment_correct:
  assumes "script_inv st" "ready st" "value_ok rhs" "assign_to fo op path rhs l c l' c' st = Some (True, st')"
  shows "\<exists>old. resolveRead path st' = (apply_assignment fo op old rhs, st') \<and> validateAssignment fo op old rhs = None
    \<and> (\<forall>y. resolveRead path st = (y, st) \<longrightarrow> old = y)
    \<and> (\<forall>other y. diverge path other \<longrightarrow> resolveRead other st = (y, st) \<longrightarrow> resolveRead other st' = (y, st'))
    \<and> script_inv st' \<and> m_errors st' = m_errors st"
proof -
  note a = assign_to_script [OF assms(1,4)]
  obtain ok st2 where "assign_to fo op path rhs l c l' c' st = Some (ok, st2)" "steps st st2"
    using assign_to_settles [OF assms(2,1,3)] unfolding settles_def by blast
  then have inv': "script_inv st'" using assms(1,4) by (auto simp: steps_def)
  obtain root w where r: "map_of (m_variables st) (hd path) = Some root" "assign_at root (tl path) (assigned fo op rhs) = Some w"
      "map_of (m_variables st') = (map_of (m_variables st))(hd path \<mapsto> w)" "m_declarations st' = m_declarations st"
    using script_assign_effect a by blast
  obtain t x where t: "assigned fo op rhs t = Some x" "read_walk w (tl path) = Inr x" "\<forall>y. read_walk root (tl path) = Inr y \<longrightarrow> t = y"
    using assign_at_read [OF r(2)] by blast
  have x: "validateAssignment fo op t rhs = None" "x = apply_assignment fo op t rhs" using t(1) by (simp_all add: assigned_def split: if_splits)
  have "resolveRead path st' = (x, st')" using a r(3,4) t(2) by (simp add: resolveRead_iff)
  moreover have "\<forall>y. resolveRead path st = (y, st) \<longrightarrow> t = y" using t(3) r(1) by (simp add: resolveRead_iff)
  moreover have "resolveRead other st' = (y, st')" if d: "diverge path other" "resolveRead other st = (y, st)" for other y
  proof -
    obtain p q where pq: "path = hd path # p" "other = hd other # q" "hd path \<noteq> hd other \<or> diverge p q"
      using d(1) by (cases "(path, other)" rule: diverge.cases) auto
    have tl: "tl path = p" "tl other = q" using pq(1,2) by (metis list.sel(3))+
    show ?thesis
    proof (cases "hd path = hd other")
      case False
      then show ?thesis using d(2) r(3,4) by (simp add: resolveRead_iff)
    next
      case True
      then have "read_walk w q = Inr y" using assign_at_others [OF r(2)] pq(3) d(2) r(1) tl by (auto simp: resolveRead_iff)
      then show ?thesis using d(2) r(3,4) True tl by (simp add: resolveRead_iff)
    qed
  qed
  ultimately show ?thesis using inv' a x by (intro exI [of _ t] conjI allI impI) (auto simp: rescripted_def)
qed

theorem assignment_correct_witness:
  "\<exists>st :: int Parser. \<exists>st'. assign_to int_f64_ops PlusEqual [[0x61], [0x62]] (Integer 5) 1 1 1 3 st = Some (True, st')
    \<and> resolveRead [[0x61], [0x62]] st = (Integer 2, st) \<and> resolveRead [[0x61], [0x62]] st' = (Integer 7, st')
    \<and> resolveRead [[0x61], [0x63]] st' = (String_v [0x78], st')"
proof -
  let ?m = "[([0x62], Integer 2), ([0x63], String_v [0x78])] :: (u8 list \<times> int Value) list"
  let ?st = "(Parser_new [] :: int Parser)\<lparr>m_variables := [([0x61], Map_v ?m)],
    m_declarations := [\<lparr>decl_type = [0x74], decl_variable = [0x61]\<rparr>], m_declaredAssetVariable := [0x61]\<rparr>"
  have st: "script_inv ?st" "ready ?st" "value_ok (Integer 5 :: int Value)"
    using Parser_new_start(1) [of "[]", where 'f = int]
    by (simp_all add: script_inv_def ready_def in_range_def s_Min_def s_Max_def Parser_new_start)
  have read: "resolveRead [[0x61], [0x62]] ?st = (Integer 2, ?st)" "resolveRead [[0x61], [0x63]] ?st = (String_v [0x78], ?st)"
    by (simp_all add: resolveRead_iff)
  have r: "in_range 64 2" "in_range 64 5" "in_range 64 7" by (simp_all add: in_range_def s_Min_def s_Max_def)
  then have add: "\<not> AddOverflows_s 64 2 5" by (simp add: AddOverflows_s_iff)
  have v: "validateAssignment int_f64_ops PlusEqual (Integer 2) (Integer 5) = None"
    using add by (simp add: validateAssignment_def validateNumericOperands_def isNumeric_def BinaryI64Overflows_def)
  obtain st' where run: "assign_to int_f64_ops PlusEqual [[0x61], [0x62]] (Integer 5) 1 1 1 3 ?st = Some (True, st')"
    using v by (simp add: assign_to_def resolveTarget_def isDeclared_iff isNull_def Let_def)
  have "apply_assignment int_f64_ops PlusEqual (Integer 2) (Integer 5) = Integer 7"
    using add by (simp add: apply_assignment_def value_plus_assign_def)
  moreover have "resolveRead [[0x61], [0x62]] st' = (apply_assignment int_f64_ops PlusEqual (Integer 2) (Integer 5), st')"
      "resolveRead [[0x61], [0x63]] st' = (String_v [0x78], st')"
    using assignment_correct [OF st run] read by auto
  ultimately show ?thesis using run read by metis
qed

end
