(* ===== verification/Volume_Disk.thy ===== *)
theory Volume_Disk
  imports Overflow "HOL-Library.AList" "HOL-Library.Monad_Syntax"
begin

text \<open>
  The storage layer of the volume file system, \<^verbatim>\<open>src/core/filesystem/volume_io.cpp\<close>: a volume is a
  sequence of segment files of equal size, addressed as one range of bytes. The host file system is a
  state of the model: the directory of the volume, the contents of the segment files, and the outcomes
  of the calls to come. A call
  that is not listed succeeds; a failing write may leave any number of its bytes behind. Segment paths
  are represented by their index, as if the path hash had no collisions. Offsets and sizes are natural
  numbers with the 64-bit limit written out where the code tests it. What a write call reports is
  taken to be final: buffering inside the stream classes is not modelled.
\<close>

section \<open>The host file system\<close>

datatype outcome = Done | Failed nat

datatype mount_point = Missing | Directory | OtherFile

record Disk =
  d_directory :: mount_point
  d_segments :: "(nat \<times> u8 list) list"
  d_faults :: "outcome list"

definition syscall :: "Disk \<Rightarrow> outcome \<times> Disk" where
  "syscall d = (case d_faults d of [] \<Rightarrow> (Done, d) | f # fs \<Rightarrow> (f, d\<lparr>d_faults := fs\<rparr>))"

definition file_at :: "Disk \<Rightarrow> nat \<Rightarrow> u8 list option" where
  "file_at d i = map_of (d_segments d) i"

definition set_file :: "nat \<Rightarrow> u8 list \<Rightarrow> Disk \<Rightarrow> Disk" where
  "set_file i c d = d\<lparr>d_segments := AList.update i c (d_segments d)\<rparr>"

definition remove_file :: "nat \<Rightarrow> Disk \<Rightarrow> Disk" where
  "remove_file i d = d\<lparr>d_segments := AList.delete i (d_segments d)\<rparr>"

text \<open>Writing into a file: bytes between its end and the offset become zero.\<close>

definition overwrite :: "u8 list \<Rightarrow> nat \<Rightarrow> u8 list \<Rightarrow> u8 list" where
  "overwrite f offset bytes =
     (if bytes = [] then f
      else take offset (f @ replicate (offset - length f) 0) @ bytes @ drop (offset + length bytes) f)"

section \<open>Sizes\<close>

definition u64_max :: nat where "u64_max = 2 ^ 64 - 1"
definition stream_max :: nat where "stream_max = 2 ^ 63 - 1"

definition add_u64 :: "nat \<Rightarrow> nat \<Rightarrow> nat option" where
  "add_u64 a b = (if a + b > u64_max then None else Some (a + b))"

text \<open>\<open>add_u64\<close> is \<open>AddNoOverflow\<close> at 64 bits.\<close>

lemma add_u64_word:
  "add_u64 (unat a) (unat b) = map_option unat (AddNoOverflow (a :: u64) b)"
proof -
  have b: "unat a < 2 ^ 64" "unat b < 2 ^ 64" using unsigned_less [of a] unsigned_less [of b] by simp_all
  show ?thesis
  proof (cases "unat a + unat b < 2 ^ 64")
    case True
    then have "AddNoOverflow a b = Some (a + b)" by (simp add: AddNoOverflow_Some_iff unat_plus_no_overflow)
    then show ?thesis using True b by (simp add: add_u64_def u64_max_def unat_plus_no_overflow)
  next
    case False
    then have "AddNoOverflow a b = None" by (simp add: AddNoOverflow_None_iff)
    then show ?thesis using False b by (simp add: add_u64_def u64_max_def)
  qed
qed

section \<open>The mounted volume\<close>

record FileRecord =
  rec_offset :: nat
  rec_size :: nat

record 'n Volume =
  m_mounted :: bool
  m_writable :: bool
  m_segmentSize :: nat
  m_metadataBytes :: nat
  m_nextFreeOffset :: nat
  m_maxSegments :: nat
  m_segmentPaths :: "nat list"
  m_files :: "('n \<times> FileRecord) list"

section \<open>Segments\<close>

definition ReadSegmentBytes :: "nat \<Rightarrow> nat \<Rightarrow> nat \<Rightarrow> Disk \<Rightarrow> u8 list option \<times> Disk" where
  "ReadSegmentBytes path offset n d =
     (let (opened, d1) = syscall d
      in case file_at d path of
           None \<Rightarrow> (None, d1)
         | Some f \<Rightarrow>
             if opened \<noteq> Done then (None, d1)
             else let (sought, d2) = syscall d1
               in if sought \<noteq> Done then (None, d2)
                  else let (r, d3) = syscall d2; bytes = take n (drop offset f)
                    in if r \<noteq> Done \<or> length bytes \<noteq> n then (None, d3) else (Some bytes, d3))"

definition WriteSegmentBytes :: "nat \<Rightarrow> nat \<Rightarrow> u8 list \<Rightarrow> Disk \<Rightarrow> bool \<times> Disk" where
  "WriteSegmentBytes path offset bytes d =
     (let (opened, d1) = syscall d
      in case file_at d path of
           None \<Rightarrow> (False, d1)
         | Some f \<Rightarrow>
             if opened \<noteq> Done then (False, d1)
             else let (sought, d2) = syscall d1
               in if sought \<noteq> Done then (False, d2)
                  else let (r, d3) = syscall d2
                    in case r of
                         Done \<Rightarrow> (True, set_file path (overwrite f offset bytes) d3)
                       | Failed k \<Rightarrow> (False, set_file path (overwrite f offset (take k bytes)) d3))"

text \<open>The chunks of a byte range: one per segment, in order.\<close>

function chunk_loop :: "nat \<Rightarrow> (nat \<Rightarrow> nat \<Rightarrow> nat \<Rightarrow> 's \<Rightarrow> bool \<times> 's) \<Rightarrow> nat \<Rightarrow> nat \<Rightarrow> 's \<Rightarrow> bool \<times> 's" where
  "chunk_loop segmentSize chunkFunc currentOffset remainingBytes s =
     (if remainingBytes = 0 \<or> segmentSize = 0 then (True, s)
      else let segmentIndex = currentOffset div segmentSize;
               segmentOffset = currentOffset mod segmentSize;
               chunkBytes = min remainingBytes (segmentSize - segmentOffset)
        in if segmentOffset > stream_max \<or> chunkBytes > stream_max then (False, s)
           else let (ok, s1) = chunkFunc segmentIndex segmentOffset chunkBytes s
             in if \<not> ok then (False, s1)
                else chunk_loop segmentSize chunkFunc (currentOffset + chunkBytes) (remainingBytes - chunkBytes) s1)"
  by pat_completeness auto
termination
  by (relation "measure (\<lambda>(_, _, _, remainingBytes, _). remainingBytes)") (auto simp: min_def)

declare chunk_loop.simps [simp del]

definition ForEachSegmentChunk ::
    "nat list \<Rightarrow> nat \<Rightarrow> nat \<Rightarrow> nat \<Rightarrow> (nat \<Rightarrow> nat \<Rightarrow> nat \<Rightarrow> 's \<Rightarrow> bool \<times> 's) \<Rightarrow> 's \<Rightarrow> bool \<times> 's" where
  "ForEachSegmentChunk segmentPaths segmentSize offset byteCount chunkFunc s =
     (if segmentSize = 0 then (False, s)
      else case add_u64 offset byteCount of
             None \<Rightarrow> (False, s)
           | Some endOffset \<Rightarrow>
               if length segmentPaths > u64_max div segmentSize then (False, s)
               else if endOffset > length segmentPaths * segmentSize then (False, s)
               else chunk_loop segmentSize chunkFunc offset byteCount s)"

definition read_chunk :: "nat list \<Rightarrow> nat \<Rightarrow> nat \<Rightarrow> nat \<Rightarrow> u8 list \<times> Disk \<Rightarrow> bool \<times> (u8 list \<times> Disk)" where
  "read_chunk segmentPaths i offset n s =
     (let (r, d1) = ReadSegmentBytes (segmentPaths ! i) offset n (snd s)
      in case r of None \<Rightarrow> (False, (fst s, d1)) | Some bytes \<Rightarrow> (True, (fst s @ bytes, d1)))"

definition write_chunk :: "nat list \<Rightarrow> nat \<Rightarrow> nat \<Rightarrow> nat \<Rightarrow> u8 list \<times> Disk \<Rightarrow> bool \<times> (u8 list \<times> Disk)" where
  "write_chunk segmentPaths i offset n s =
     (let (ok, d1) = WriteSegmentBytes (segmentPaths ! i) offset (take n (fst s)) (snd s)
      in (ok, (drop n (fst s), d1)))"

definition readBytesLocked :: "'n Volume \<Rightarrow> nat \<Rightarrow> nat \<Rightarrow> Disk \<Rightarrow> u8 list option \<times> Disk" where
  "readBytesLocked v offset byteCount d =
     (if byteCount = 0 then (Some [], d)
      else let (ok, (bytes, d1)) = ForEachSegmentChunk (m_segmentPaths v) (m_segmentSize v) offset byteCount
                                     (read_chunk (m_segmentPaths v)) ([], d)
        in (if ok then Some bytes else None, d1))"

definition computeLogicalCapacityLocked :: "'n Volume \<Rightarrow> nat option" where
  "computeLogicalCapacityLocked v =
     (if m_segmentSize v = 0 then None
      else if length (m_segmentPaths v) > u64_max div m_segmentSize v then None
      else Some (length (m_segmentPaths v) * m_segmentSize v))"

definition createSegmentLocked :: "nat \<Rightarrow> 'n Volume \<Rightarrow> Disk \<Rightarrow> bool \<times> 'n Volume \<times> Disk" where
  "createSegmentLocked segmentIndex v d =
     (if m_maxSegments v \<noteq> 0 \<and> segmentIndex \<ge> m_maxSegments v then (False, v, d)
      else if m_segmentSize v = 0 then (False, v, d)
      else let (opened, d1) = syscall d
        in if opened \<noteq> Done then (False, v, d1)
           else let d1 = set_file segmentIndex [] d1
             in if m_segmentSize v - 1 > stream_max then (False, v, d1)
                else let (sought, d2) = syscall d1
                  in if sought \<noteq> Done then (False, v, d2)
                     else let (written, d3) = syscall d2;
                              d4 = (if written = Failed 0 then d3 else set_file segmentIndex (replicate (m_segmentSize v) 0) d3)
                       in if written \<noteq> Done then (False, v, d4)
                          else if segmentIndex = length (m_segmentPaths v) then
                            (True, v\<lparr>m_segmentPaths := m_segmentPaths v @ [segmentIndex]\<rparr>, d4)
                          else if segmentIndex < length (m_segmentPaths v) then
                            (True, v\<lparr>m_segmentPaths := (m_segmentPaths v)[segmentIndex := segmentIndex]\<rparr>, d4)
                          else (False, v, d4))"

lemma createSegment_next:
  "createSegmentLocked (length (m_segmentPaths v)) v d = (True, v1, d1) \<Longrightarrow>
    v1 = v\<lparr>m_segmentPaths := m_segmentPaths v @ [length (m_segmentPaths v)]\<rparr> \<and> m_segmentSize v \<noteq> 0"
  by (auto simp: createSegmentLocked_def Let_def split: prod.splits if_splits)

function ensureCapacityLocked :: "nat \<Rightarrow> 'n Volume \<Rightarrow> Disk \<Rightarrow> bool \<times> 'n Volume \<times> Disk" where
  "ensureCapacityLocked requiredBytes v d =
     (case computeLogicalCapacityLocked v of
        None \<Rightarrow> (False, v, d)
      | Some capacity \<Rightarrow>
          if requiredBytes \<le> capacity then (True, v, d)
          else if \<not> m_writable v then (False, v, d)
          else case createSegmentLocked (length (m_segmentPaths v)) v d of
              (False, v1, d1) \<Rightarrow> (False, v1, d1)
            | (True, v1, d1) \<Rightarrow> ensureCapacityLocked requiredBytes v1 d1)"
  by pat_completeness auto
termination
proof (relation "measure (\<lambda>(requiredBytes, v, _). requiredBytes - length (m_segmentPaths v) * m_segmentSize v)", goal_cases)
  case (2 requiredBytes v d capacity r r2 v1 d1)
  then show ?case by (auto simp: computeLogicalCapacityLocked_def dest!: createSegment_next [OF sym] split: if_splits)
qed simp

declare ensureCapacityLocked.simps [simp del]

definition writeBytesLocked :: "nat \<Rightarrow> u8 list \<Rightarrow> 'n Volume \<Rightarrow> Disk \<Rightarrow> bool \<times> 'n Volume \<times> Disk" where
  "writeBytesLocked offset data v d =
     (if data = [] then (True, v, d)
      else case add_u64 offset (length data) of
             None \<Rightarrow> (False, v, d)
           | Some endOffset \<Rightarrow>
               let (enough, v1, d1) = ensureCapacityLocked endOffset v d
               in if \<not> enough then (False, v1, d1)
                  else let (ok, (_, d2)) = ForEachSegmentChunk (m_segmentPaths v1) (m_segmentSize v1) offset (length data)
                                             (write_chunk (m_segmentPaths v1)) (data, d1)
                    in (ok, v1, d2))"

section \<open>File sizes\<close>

definition FileSize :: "nat \<Rightarrow> Disk \<Rightarrow> nat option \<times> Disk" where
  "FileSize path d =
     (let (r, d1) = syscall d
      in case file_at d path of None \<Rightarrow> (None, d1) | Some f \<Rightarrow> (if r = Done then Some (length f) else None, d1))"

definition RemoveFile :: "nat \<Rightarrow> Disk \<Rightarrow> bool \<times> Disk" where
  "RemoveFile path d =
     (let (r, d1) = syscall d
      in if r \<noteq> Done \<or> file_at d path = None then (False, d1) else (True, remove_file path d1))"

definition ResizeFile :: "nat \<Rightarrow> nat \<Rightarrow> Disk \<Rightarrow> bool \<times> Disk" where
  "ResizeFile path byteCount d =
     (if byteCount > stream_max then (False, d)
      else let (r, d1) = syscall d
        in case file_at d path of
             None \<Rightarrow> (False, d1)
           | Some f \<Rightarrow> if r \<noteq> Done then (False, d1)
               else (True, set_file path (take byteCount f @ replicate (byteCount - length f) 0) d1))"

definition computePhysicalCapacityLocked :: "'n Volume \<Rightarrow> Disk \<Rightarrow> nat option \<times> Disk" where
  "computePhysicalCapacityLocked v d =
     (if m_segmentPaths v = [] \<or> m_segmentSize v = 0 then (None, d)
      else let fullSegmentCount = length (m_segmentPaths v) - 1
        in if fullSegmentCount > u64_max div m_segmentSize v then (None, d)
           else case FileSize (last (m_segmentPaths v)) d of
               (None, d1) \<Rightarrow> (None, d1)
             | (Some lastSegmentBytes, d1) \<Rightarrow>
                 if lastSegmentBytes = 0 \<or> lastSegmentBytes > m_segmentSize v then (None, d1)
                 else (add_u64 (fullSegmentCount * m_segmentSize v) lastSegmentBytes, d1))"

section \<open>Moving bytes\<close>

definition s_VolumeMoveChunkBytes :: nat where "s_VolumeMoveChunkBytes = 1024 * 1024"

text \<open>One step of a move: through the buffer.\<close>

definition copy_chunk :: "nat \<Rightarrow> nat \<Rightarrow> nat \<Rightarrow> 'n Volume \<Rightarrow> Disk \<Rightarrow> bool \<times> 'n Volume \<times> Disk" where
  "copy_chunk writeOffset readOffset copyBytes v d =
     (case readBytesLocked v readOffset copyBytes d of
        (None, d1) \<Rightarrow> (False, v, d1)
      | (Some bytes, d1) \<Rightarrow> writeBytesLocked writeOffset bytes v d1)"

function move_forward :: "nat \<Rightarrow> nat \<Rightarrow> nat \<Rightarrow> nat \<Rightarrow> nat \<Rightarrow> 'n Volume \<Rightarrow> Disk \<Rightarrow> bool \<times> 'n Volume \<times> Disk" where
  "move_forward chunk destination source byteCount movedBytes v d =
     (if movedBytes < byteCount \<and> chunk \<noteq> 0 then
        let copyBytes = min (byteCount - movedBytes) chunk;
            (ok, v1, d1) = copy_chunk (destination + movedBytes) (source + movedBytes) copyBytes v d
        in if \<not> ok then (False, v1, d1)
           else move_forward chunk destination source byteCount (movedBytes + copyBytes) v1 d1
      else (True, v, d))"
  by pat_completeness auto
termination by (relation "measure (\<lambda>(_, _, _, byteCount, movedBytes, _). byteCount - movedBytes)") auto

function move_backward :: "nat \<Rightarrow> nat \<Rightarrow> nat \<Rightarrow> nat \<Rightarrow> 'n Volume \<Rightarrow> Disk \<Rightarrow> bool \<times> 'n Volume \<times> Disk" where
  "move_backward chunk destination source remainingBytes v d =
     (if remainingBytes > 0 \<and> chunk \<noteq> 0 then
        let copyBytes = min remainingBytes chunk; chunkBegin = remainingBytes - copyBytes;
            (ok, v1, d1) = copy_chunk (destination + chunkBegin) (source + chunkBegin) copyBytes v d
        in if \<not> ok then (False, v1, d1)
           else move_backward chunk destination source (remainingBytes - copyBytes) v1 d1
      else (True, v, d))"
  by pat_completeness auto
termination by (relation "measure (\<lambda>(_, _, _, remainingBytes, _). remainingBytes)") auto

declare move_forward.simps [simp del] move_backward.simps [simp del]

definition moveBytesLocked :: "nat \<Rightarrow> nat \<Rightarrow> nat \<Rightarrow> 'n Volume \<Rightarrow> Disk \<Rightarrow> bool \<times> 'n Volume \<times> Disk" where
  "moveBytesLocked destinationOffset sourceOffset byteCount v d =
     (if byteCount = 0 \<or> destinationOffset = sourceOffset then (True, v, d)
      else if m_segmentSize v = 0 then (False, v, d)
      else case add_u64 sourceOffset byteCount of
          None \<Rightarrow> (False, v, d)
        | Some sourceEndOffset \<Rightarrow>
      case computeLogicalCapacityLocked v of
          None \<Rightarrow> (False, v, d)
        | Some capacityBytes \<Rightarrow>
            if sourceEndOffset > capacityBytes then (False, v, d)
            else case add_u64 destinationOffset byteCount of
                None \<Rightarrow> (False, v, d)
              | Some destinationEndOffset \<Rightarrow>
                  let (enough, v1, d1) = ensureCapacityLocked destinationEndOffset v d;
                      moveChunkBytes = min s_VolumeMoveChunkBytes (m_segmentSize v1)
                  in if \<not> enough then (False, v1, d1)
                     else if moveChunkBytes = 0 \<or> moveChunkBytes > usize_max then (False, v1, d1)
                     else if destinationOffset < sourceOffset
                       then move_forward moveChunkBytes destinationOffset sourceOffset byteCount 0 v1 d1
                       else move_backward moveChunkBytes destinationOffset sourceOffset byteCount v1 d1)"

section \<open>Trimming\<close>

definition divide_up :: "nat \<Rightarrow> nat \<Rightarrow> nat" where
  "divide_up x divisor = (if x = 0 \<or> divisor = 0 then 0 else 1 + (x - 1) div divisor)"

function trim_loop :: "nat \<Rightarrow> 'n Volume \<Rightarrow> Disk \<Rightarrow> bool \<times> 'n Volume \<times> Disk" where
  "trim_loop requiredSegments v d =
     (if length (m_segmentPaths v) > requiredSegments then
        let (ok, d1) = RemoveFile (last (m_segmentPaths v)) d
        in if \<not> ok then (False, v, d1)
           else trim_loop requiredSegments (v\<lparr>m_segmentPaths := butlast (m_segmentPaths v)\<rparr>) d1
      else (True, v, d))"
  by pat_completeness auto
termination by (relation "measure (\<lambda>(_, v, _). length (m_segmentPaths v))") auto

declare trim_loop.simps [simp del]

definition trim_last_segment :: "nat \<Rightarrow> 'n Volume \<Rightarrow> Disk \<Rightarrow> bool \<times> Disk" where
  "trim_last_segment requiredBytes v d =
     (let r = requiredBytes mod m_segmentSize v;
          requiredLastSegmentBytes = (if r = 0 then m_segmentSize v else r);
          lastSegmentPath = last (m_segmentPaths v)
      in case FileSize lastSegmentPath d of
           (None, d1) \<Rightarrow> (False, d1)
         | (Some n, d1) \<Rightarrow>
             if n = requiredLastSegmentBytes then (True, d1) else ResizeFile lastSegmentPath requiredLastSegmentBytes d1)"

definition trimSegmentsForNextFreeOffsetLocked :: "'n Volume \<Rightarrow> Disk \<Rightarrow> bool \<times> 'n Volume \<times> Disk" where
  "trimSegmentsForNextFreeOffsetLocked v d =
     (if \<not> m_writable v \<or> m_segmentSize v = 0 then (False, v, d)
      else if m_segmentPaths v = [] then (False, v, d)
      else let requiredBytes = max (m_nextFreeOffset v) (m_metadataBytes v);
               requiredSegments = max 1 (divide_up requiredBytes (m_segmentSize v))
        in if requiredSegments > length (m_segmentPaths v) then (False, v, d)
           else if requiredSegments > usize_max then (False, v, d)
           else let (trimmed, v1, d1) = trim_loop requiredSegments v d
             in if \<not> trimmed then (False, v1, d1)
                else let (ok, d2) = trim_last_segment requiredBytes v1 d1 in (ok, v1, d2))"

end
