(* ===== verification/Volume_Bytes.thy ===== *)
theory Volume_Bytes
  imports Volume_Disk
begin

text \<open>
  What the storage layer does to the bytes of a volume: reads return the bytes of the range or fail,
  writes and moves change the bytes of their range only, whatever call fails, and succeed when no
  call fails and there is room.
\<close>

section \<open>The bytes of a volume\<close>

definition byte_at :: "'n Volume \<Rightarrow> Disk \<Rightarrow> nat \<Rightarrow> u8 option" where
  "byte_at v d a =
     (if a div m_segmentSize v < length (m_segmentPaths v) then
        case file_at d (m_segmentPaths v ! (a div m_segmentSize v)) of
          None \<Rightarrow> None
        | Some f \<Rightarrow> if a mod m_segmentSize v < length f then Some (f ! (a mod m_segmentSize v)) else None
      else None)"

definition readable :: "'n Volume \<Rightarrow> Disk \<Rightarrow> nat \<Rightarrow> nat \<Rightarrow> bool" where
  "readable v d offset n \<longleftrightarrow> (\<forall>j<n. byte_at v d (offset + j) \<noteq> None)"

definition bytes_at :: "'n Volume \<Rightarrow> Disk \<Rightarrow> nat \<Rightarrow> nat \<Rightarrow> u8 list" where
  "bytes_at v d offset n = map (\<lambda>j. the (byte_at v d (offset + j))) [0..<n]"

text \<open>The segments are numbered in order and there is room for their offsets.\<close>

definition segments_ok :: "'n Volume \<Rightarrow> bool" where
  "segments_ok v \<longleftrightarrow> 0 < m_segmentSize v \<and> m_segmentPaths v = [0..<length (m_segmentPaths v)]"

abbreviation capacity :: "'n Volume \<Rightarrow> nat" where
  "capacity v \<equiv> length (m_segmentPaths v) * m_segmentSize v"

lemma length_bytes_at [simp]: "length (bytes_at v d offset n) = n"
  by (simp add: bytes_at_def)

lemma bytes_at_nth: "j < n \<Longrightarrow> bytes_at v d offset n ! j = the (byte_at v d (offset + j))"
  by (simp add: bytes_at_def)

lemma bytes_at_append: "bytes_at v d offset (m + n) = bytes_at v d offset m @ bytes_at v d (offset + m) n"
  by (rule nth_equalityI) (auto simp: bytes_at_def nth_append add.assoc)

lemma readable_iff: "readable v d offset n \<longleftrightarrow> (\<forall>a. offset \<le> a \<longrightarrow> a < offset + n \<longrightarrow> byte_at v d a \<noteq> None)"
  unfolding readable_def by (metis le_add1 le_add_diff_inverse nat_add_left_cancel_less)

lemma readable_append: "readable v d offset (m + n) \<longleftrightarrow> readable v d offset m \<and> readable v d (offset + m) n"
proof -
  have "offset \<le> a \<and> a < offset + (m + n) \<longleftrightarrow> (offset \<le> a \<and> a < offset + m) \<or> (offset + m \<le> a \<and> a < offset + m + n)" for a
    by linarith
  then show ?thesis unfolding readable_iff by blast
qed

lemma readable_mono: "readable v d offset n \<Longrightarrow> offset \<le> a \<Longrightarrow> a + k \<le> offset + n \<Longrightarrow> readable v d a k"
  unfolding readable_iff by (meson le_trans less_le_trans)

text \<open>Addresses inside one chunk.\<close>

lemma chunk_address:
  fixes S c j n :: nat
  assumes "0 < S" "n \<le> S - c mod S" "j < n"
  shows "(c + j) div S = c div S" "(c + j) mod S = c mod S + j"
proof -
  have less: "c mod S + j < S"
    using order.strict_trans2 [OF assms(3,2)] by (simp only: less_diff_conv add.commute [of j])
  have e: "c + j = (c mod S + j) + c div S * S" by simp
  show "(c + j) div S = c div S" using less assms(1) by (subst e) (simp only: div_mult_self1, simp)
  show "(c + j) mod S = c mod S + j" using less by (subst e) (simp only: mod_mult_self1, simp)
qed

section \<open>System calls\<close>

lemma syscall_segments: "syscall d = (r, d1) \<Longrightarrow> d_segments d1 = d_segments d"
  by (auto simp: syscall_def split: list.splits)

lemma syscall_file: "syscall d = (r, d1) \<Longrightarrow> file_at d1 i = file_at d i"
  by (simp add: file_at_def syscall_segments)

lemma syscall_ok: "d_faults d = [] \<Longrightarrow> syscall d = (Done, d)"
  by (simp add: syscall_def)

lemma file_at_set [simp]: "file_at (set_file i c d) k = (if k = i then Some c else file_at d k)"
  by (simp add: file_at_def set_file_def update_conv)

lemma file_at_remove [simp]: "file_at (remove_file i d) k = (if k = i then None else file_at d k)"
  by (simp add: file_at_def remove_file_def delete_conv)

lemma set_file_faults [simp]: "d_faults (set_file i c d) = d_faults d" "d_faults (remove_file i d) = d_faults d"
  by (simp_all add: set_file_def remove_file_def)

lemma byte_at_cong: "d_segments d1 = d_segments d \<Longrightarrow> byte_at v d1 a = byte_at v d a"
  by (simp add: byte_at_def file_at_def)

lemma readable_cong: "d_segments d1 = d_segments d \<Longrightarrow> readable v d1 a n = readable v d a n"
  by (simp add: readable_def byte_at_def file_at_def)

lemma bytes_at_cong: "d_segments d1 = d_segments d \<Longrightarrow> bytes_at v d1 a n = bytes_at v d a n"
  by (simp add: bytes_at_def byte_at_def file_at_def)

section \<open>Reading\<close>

lemma ReadSegmentBytes_segments: "ReadSegmentBytes p o1 n d = (r, d1) \<Longrightarrow> d_segments d1 = d_segments d"
  by (auto simp: ReadSegmentBytes_def Let_def dest!: syscall_segments split: prod.splits option.splits if_splits)

lemma ReadSegmentBytes_Some:
  "ReadSegmentBytes p o1 n d = (Some bytes, d1) \<Longrightarrow>
    \<exists>f. file_at d p = Some f \<and> bytes = take n (drop o1 f) \<and> length bytes = n"
  by (auto simp: ReadSegmentBytes_def Let_def dest!: syscall_segments split: prod.splits option.splits if_splits)

lemma ReadSegmentBytes_ok:
  "d_faults d = [] \<Longrightarrow> file_at d p = Some f \<Longrightarrow> o1 + n \<le> length f \<Longrightarrow>
    ReadSegmentBytes p o1 n d = (Some (take n (drop o1 f)), d)"
  by (simp add: ReadSegmentBytes_def syscall_ok Let_def)

text \<open>The bytes of a chunk lie in one file.\<close>

lemma chunk_bytes:
  assumes "segments_ok v" "c div m_segmentSize v < length (m_segmentPaths v)"
    "file_at d (m_segmentPaths v ! (c div m_segmentSize v)) = Some f"
    "k \<le> m_segmentSize v - c mod m_segmentSize v" "c mod m_segmentSize v + k \<le> length f"
  shows "readable v d c k" "bytes_at v d c k = take k (drop (c mod m_segmentSize v) f)"
proof -
  have b: "byte_at v d (c + j) = Some (f ! (c mod m_segmentSize v + j))" if "j < k" for j
    using assms that chunk_address [of "m_segmentSize v" k c j] by (simp add: byte_at_def segments_ok_def)
  show "readable v d c k" using b by (simp add: readable_def)
  show "bytes_at v d c k = take k (drop (c mod m_segmentSize v) f)"
    using b assms(5) by (intro nth_equalityI) (auto simp: bytes_at_nth)
qed

lemma chunk_file:
  assumes "segments_ok v" "readable v d c k" "0 < k" "k \<le> m_segmentSize v - c mod m_segmentSize v"
  obtains f where "file_at d (m_segmentPaths v ! (c div m_segmentSize v)) = Some f"
    "c mod m_segmentSize v + k \<le> length f"
proof -
  have "byte_at v d (c + (k - 1)) \<noteq> None" using assms(2,3) unfolding readable_def by (metis diff_less zero_less_one)
  then show thesis
    using that assms chunk_address [of "m_segmentSize v" k c "k - 1"]
    by (auto simp: byte_at_def segments_ok_def split: if_splits option.splits)
qed

lemma capacity_chunk: "0 < S \<Longrightarrow> c < (n::nat) * S \<Longrightarrow> c div S < n"
  by (simp add: less_mult_imp_div_less)

text \<open>
  The rule for a loop over chunks: \<open>I\<close> holds before every chunk, \<open>F\<close> after a failure.
\<close>

lemma chunk_loop_rule:
  assumes "chunk_loop S f c n s = (ok, s1)" "0 < S" "I c n s"
    and step: "\<And>c n k s b s1. I c n s \<Longrightarrow> 0 < k \<Longrightarrow> k \<le> n \<Longrightarrow> k \<le> S - c mod S \<Longrightarrow>
      f (c div S) (c mod S) k s = (b, s1) \<Longrightarrow> if b then I (c + k) (n - k) s1 else F s1"
    and large: "\<And>c n s. I c n s \<Longrightarrow> S > stream_max \<Longrightarrow> F s"
  shows "if ok then I (c + n) 0 s1 else F s1"
  using assms(1,3)
proof (induction n arbitrary: c s rule: less_induct)
  case (less n)
  define k where "k = min n (S - c mod S)"
  show ?case
  proof (cases "n = 0")
    case True
    then show ?thesis using less.prems by (auto simp: chunk_loop.simps)
  next
    case n: False
    have k: "0 < k" "k \<le> n" "k \<le> S - c mod S" using assms(2) n by (auto simp: k_def)
    show ?thesis
    proof (cases "c mod S > stream_max \<or> k > stream_max")
      case True
      then have "S > stream_max" using assms(2) k(3) mod_less_divisor [of S c] by linarith
      moreover have "ok = False \<and> s1 = s" using True less.prems n assms(2)
        by (subst (asm) chunk_loop.simps) (auto simp: Let_def k_def)
      ultimately show ?thesis using large less.prems(2) by simp
    next
      case False
      obtain b s2 where b: "f (c div S) (c mod S) k s = (b, s2)" by fastforce
      have "chunk_loop S f c n s = (if b then chunk_loop S f (c + k) (n - k) s2 else (False, s2))"
        using n assms(2) False b by (subst chunk_loop.simps) (auto simp: Let_def k_def)
      then show ?thesis
        using step [OF less.prems(2) k b] less.IH [of "n - k" "c + k" s2] k less.prems(1) by (cases b) auto
    qed
  qed
qed

lemma read_loop:
  assumes "segments_ok v" "c + n \<le> capacity v"
    "chunk_loop (m_segmentSize v) (read_chunk (m_segmentPaths v)) c n ([], d) = (ok, bytes, d1)"
  shows "d_segments d1 = d_segments d \<and> (ok \<longrightarrow> readable v d c n \<and> bytes = bytes_at v d c n)"
proof -
  let ?I = "\<lambda>c' n' s. c \<le> c' \<and> c' + n' = c + n \<and> d_segments (snd s) = d_segments d \<and>
      readable v d c (c' - c) \<and> fst s = bytes_at v d c (c' - c)"
  have "if ok then ?I (c + n) 0 (bytes, d1) else d_segments (snd (bytes, d1)) = d_segments d"
  proof (rule chunk_loop_rule [where I = ?I and F = "\<lambda>s. d_segments (snd s) = d_segments d", OF assms(3)])
    show "0 < m_segmentSize v" using assms(1) by (simp add: segments_ok_def)
    show "?I c n ([], d)" by (simp add: readable_def bytes_at_def)
  next
    fix c' n' k s b s1
    assume I: "?I c' n' s" and k: "0 < k" "k \<le> n'" "k \<le> m_segmentSize v - c' mod m_segmentSize v"
      and f: "read_chunk (m_segmentPaths v) (c' div m_segmentSize v) (c' mod m_segmentSize v) k s = (b, s1)"
    obtain r d2 where r: "ReadSegmentBytes (m_segmentPaths v ! (c' div m_segmentSize v)) (c' mod m_segmentSize v) k (snd s) = (r, d2)"
      by fastforce
    have seg: "d_segments d2 = d_segments d" using ReadSegmentBytes_segments [OF r] I by simp
    show "if b then ?I (c' + k) (n' - k) s1 else d_segments (snd s1) = d_segments d"
    proof (cases r)
      case None
      then show ?thesis using f r seg by (auto simp: read_chunk_def)
    next
      case (Some x)
      then obtain f where x: "file_at d (m_segmentPaths v ! (c' div m_segmentSize v)) = Some f"
          "x = take k (drop (c' mod m_segmentSize v) f)" "length x = k"
        using ReadSegmentBytes_Some r I by (metis file_at_def)
      have "c' div m_segmentSize v < length (m_segmentPaths v)"
        using assms(1,2) I k by (intro capacity_chunk) (auto simp: segments_ok_def)
      moreover have "c' mod m_segmentSize v + k \<le> length f" using x(2,3) k(1) by auto
      ultimately have "readable v d c' k" "x = bytes_at v d c' k" using chunk_bytes [OF assms(1)] x k(3) by auto
      then show ?thesis
        using f r Some seg I k readable_append [of v d c "c' - c" k] bytes_at_append [of v d c "c' - c" k]
        by (auto simp: read_chunk_def)
    qed
  qed auto
  then show ?thesis by (auto split: if_splits)
qed

lemma read_loop_ok:
  assumes "segments_ok v" "m_segmentSize v \<le> stream_max" "d_faults d = []" "readable v d c n"
    "chunk_loop (m_segmentSize v) (read_chunk (m_segmentPaths v)) c n (acc, d) = (ok, bytes, d1)"
  shows "ok \<and> d1 = d"
proof -
  let ?I = "\<lambda>c' n' s. readable v d c' n' \<and> snd s = d"
  have "if ok then ?I (c + n) 0 (bytes, d1) else False"
  proof (rule chunk_loop_rule [where I = ?I and F = "\<lambda>_. False", OF assms(5)])
    show "0 < m_segmentSize v" using assms(1) by (simp add: segments_ok_def)
    show "?I c n (acc, d)" using assms(4) by simp
  next
    fix c' n' k s b s1
    assume I: "?I c' n' s" and k: "0 < k" "k \<le> n'" "k \<le> m_segmentSize v - c' mod m_segmentSize v"
      and f: "read_chunk (m_segmentPaths v) (c' div m_segmentSize v) (c' mod m_segmentSize v) k s = (b, s1)"
    have r: "readable v d c' k" "readable v d (c' + k) (n' - k)"
      using I k readable_append [of v d c' k "n' - k"] by auto
    then obtain g where "file_at d (m_segmentPaths v ! (c' div m_segmentSize v)) = Some g"
        "c' mod m_segmentSize v + k \<le> length g"
      using chunk_file [OF assms(1) _ k(1) k(3)] by blast
    then show "if b then ?I (c' + k) (n' - k) s1 else False"
      using f I r(2) by (auto simp: read_chunk_def ReadSegmentBytes_ok [OF assms(3)])
  qed (use assms(2) in simp)
  then show ?thesis by (simp split: if_splits)
qed

section \<open>What a change keeps\<close>

text \<open>Every byte of the first state is there in the second, with its value unless its address is in \<open>X\<close>.\<close>

definition keeps :: "nat set \<Rightarrow> 'n Volume \<Rightarrow> Disk \<Rightarrow> 'm Volume \<Rightarrow> Disk \<Rightarrow> bool" where
  "keeps X v d v1 d1 \<longleftrightarrow>
     (\<forall>a. byte_at v d a \<noteq> None \<longrightarrow> byte_at v1 d1 a \<noteq> None \<and> (a \<notin> X \<longrightarrow> byte_at v1 d1 a = byte_at v d a))"

lemma keeps_same: "d_segments d1 = d_segments d \<Longrightarrow> keeps X v d v d1"
  by (simp add: keeps_def byte_at_def file_at_def)

lemma keeps_trans: "keeps X v d v1 d1 \<Longrightarrow> keeps Y v1 d1 v2 d2 \<Longrightarrow> X \<subseteq> Z \<Longrightarrow> Y \<subseteq> Z \<Longrightarrow> keeps Z v d v2 d2"
  unfolding keeps_def by (metis subsetD)

lemma keeps_mono: "keeps X v d v1 d1 \<Longrightarrow> X \<subseteq> Z \<Longrightarrow> keeps Z v d v1 d1"
  unfolding keeps_def by (meson subsetD)

lemma keeps_readable: "keeps X v d v1 d1 \<Longrightarrow> readable v d a n \<Longrightarrow> readable v1 d1 a n"
  unfolding keeps_def readable_def by blast

lemma keeps_bytes:
  assumes "keeps X v d v1 d1" "readable v d a n" "\<And>j. j < n \<Longrightarrow> a + j \<notin> X"
  shows "bytes_at v1 d1 a n = bytes_at v d a n"
  using assms unfolding keeps_def readable_def bytes_at_def by (intro map_cong) auto

text \<open>Files grow, within the segment size, and none appears or vanishes.\<close>

definition grows :: "nat \<Rightarrow> Disk \<Rightarrow> Disk \<Rightarrow> bool" where
  "grows S d d1 \<longleftrightarrow>
     (\<forall>i. case file_at d i of None \<Rightarrow> file_at d1 i = None
        | Some f \<Rightarrow> \<exists>g. file_at d1 i = Some g \<and> length f \<le> length g \<and> length g \<le> max (length f) S)"

lemma grows_same: "d_segments d1 = d_segments d \<Longrightarrow> grows S d d1"
  by (auto simp: grows_def file_at_def split: option.splits)

lemma grows_Some:
  "grows S d d1 \<Longrightarrow> file_at d i = Some f \<Longrightarrow> \<exists>g. file_at d1 i = Some g \<and> length f \<le> length g \<and> length g \<le> max (length f) S"
  by (auto simp: grows_def dest: spec [of _ i])

lemma grows_None: "grows S d d1 \<Longrightarrow> file_at d1 i = None \<longleftrightarrow> file_at d i = None"
  by (auto simp: grows_def split: option.splits dest: spec [of _ i])

lemma grows_trans:
  assumes "grows S d d1" "grows S d1 d2"
  shows "grows S d d2"
  unfolding grows_def
proof
  fix i
  show "case file_at d i of None \<Rightarrow> file_at d2 i = None
      | Some f \<Rightarrow> \<exists>g. file_at d2 i = Some g \<and> length f \<le> length g \<and> length g \<le> max (length f) S"
    using grows_None [OF assms(1), of i] grows_None [OF assms(2), of i]
      grows_Some [OF assms(1), of i] grows_Some [OF assms(2), of i]
    by (cases "file_at d i") fastforce+
qed

section \<open>Writing\<close>

lemma length_overwrite:
  "length (overwrite f o1 b) = (if b = [] then length f else max (length f) (o1 + length b))"
  by (auto simp: overwrite_def)

lemma overwrite_nth:
  "j < length (overwrite f o1 b) \<Longrightarrow>
    overwrite f o1 b ! j = (if o1 \<le> j \<and> j < o1 + length b then b ! (j - o1) else if j < length f then f ! j else 0)"
  by (cases "b = []") (auto simp: overwrite_def nth_append min_def)

lemma byte_at_set_file:
  assumes "segments_ok v" "i < length (m_segmentPaths v)" "d_segments d1 = d_segments (set_file i g d)"
  shows "byte_at v d1 a =
    (if a div m_segmentSize v = i then if a mod m_segmentSize v < length g then Some (g ! (a mod m_segmentSize v)) else None
     else byte_at v d a)"
proof -
  have f: "file_at d1 k = (if k = i then Some g else file_at d k)" for k
    using assms(3) file_at_set [of i g d k] by (simp add: file_at_def)
  have "m_segmentPaths v ! k = k" if "k < length (m_segmentPaths v)" for k
    using assms(1) that by (metis segments_ok_def add_0 nth_upt)
  then show ?thesis using assms(2) by (auto simp: byte_at_def f)
qed

lemma segment_path: "segments_ok v \<Longrightarrow> k < length (m_segmentPaths v) \<Longrightarrow> m_segmentPaths v ! k = k"
  by (metis segments_ok_def add_0 nth_upt)

lemma WriteSegmentBytes_cases:
  assumes "WriteSegmentBytes p o1 bytes d = (b, d1)"
  obtains "\<not> b" "d_segments d1 = d_segments d"
  | f k where "file_at d p = Some f" "d_segments d1 = d_segments (set_file p (overwrite f o1 (take k bytes)) d)"
      "b \<Longrightarrow> length bytes \<le> k"
proof (cases "\<not> b \<and> d_segments d1 = d_segments d")
  case False
  then have "\<exists>f k. file_at d p = Some f \<and> d_segments d1 = d_segments (set_file p (overwrite f o1 (take k bytes)) d) \<and>
      (b \<longrightarrow> length bytes \<le> k)"
    using assms
    by (auto simp: WriteSegmentBytes_def Let_def set_file_def dest!: syscall_segments
        split: prod.splits option.splits if_splits outcome.splits) (metis order_refl take_all)+
  then show thesis using that(2) by blast
qed (use that(1) in blast)

lemma write_chunk_keeps:
  assumes v: "segments_ok v" "c div m_segmentSize v < length (m_segmentPaths v)"
    and k: "length bytes \<le> m_segmentSize v - c mod m_segmentSize v"
    and w: "WriteSegmentBytes (m_segmentPaths v ! (c div m_segmentSize v)) (c mod m_segmentSize v) bytes d = (b, d1)"
  shows "keeps {c..<c + length bytes} v d v d1 \<and> grows (m_segmentSize v) d d1 \<and>
    (b \<longrightarrow> readable v d1 c (length bytes) \<and> bytes_at v d1 c (length bytes) = bytes)"
  using w
proof (cases rule: WriteSegmentBytes_cases)
  case 1
  then show ?thesis by (simp add: keeps_same grows_same)
next
  case (2 f m)
  define S i g where "S = m_segmentSize v" and "i = c div S" and "g = overwrite f (c mod S) (take m bytes)"
  have S: "0 < S" using v(1) by (simp add: segments_ok_def S_def)
  have i: "m_segmentPaths v ! i = i" using segment_path v by (simp add: i_def S_def)
  have f: "file_at d i = Some f" and d1: "d_segments d1 = d_segments (set_file i g d)"
    using 2(1,2) i by (simp_all add: S_def i_def g_def)
  note b1 = byte_at_set_file [OF v(1) _ d1, folded S_def]
  have len: "length f \<le> length g" by (simp add: g_def length_overwrite)
  have room: "c mod S + length bytes \<le> S" using k mod_less_divisor [OF S, of c] by (simp add: S_def)
  have "length g \<le> max (length f) S" using room by (auto simp: g_def length_overwrite)
  then have grows: "grows S d d1"
    using f len d1 file_at_set [of i g d] by (auto simp: grows_def file_at_def split: option.splits)
  have old: "byte_at v d a = (if a mod S < length f then Some (f ! (a mod S)) else None)" if "a div S = i" for a
    using that f i v(2) by (simp add: byte_at_def S_def i_def)
  have "keeps {c..<c + length bytes} v d v d1"
    unfolding keeps_def
  proof (intro allI impI)
    fix a assume a: "byte_at v d a \<noteq> None"
    show "byte_at v d1 a \<noteq> None \<and> (a \<notin> {c..<c + length bytes} \<longrightarrow> byte_at v d1 a = byte_at v d a)"
    proof (cases "a div S = i")
      case False
      then show ?thesis using a b1 [of a] v(2) by (simp add: i_def S_def)
    next
      case True
      have "a = i * S + a mod S" "c = i * S + c mod S" using div_mult_mod_eq [of a S] div_mult_mod_eq [of c S] True by (simp_all add: i_def)
      then have "a \<in> {c..<c + length bytes} \<longleftrightarrow> c mod S \<le> a mod S \<and> a mod S < c mod S + length bytes"
        unfolding atLeastLessThan_iff by linarith
      then show ?thesis
        using a len old [OF True] b1 [of a] v(2) True overwrite_nth [of "a mod S" f "c mod S" "take m bytes"]
        by (auto simp: i_def S_def g_def split: if_splits)
    qed
  qed
  moreover have "readable v d1 c (length bytes) \<and> bytes_at v d1 c (length bytes) = bytes" if "b"
  proof -
    have all: "take m bytes = bytes" using 2(3) that by simp
    have fi: "file_at d1 (m_segmentPaths v ! (c div m_segmentSize v)) = Some g"
      using d1 i file_at_set [of i g d i] by (simp add: file_at_def i_def S_def)
    have n: "c mod m_segmentSize v + length bytes \<le> length g \<or> bytes = []"
      using all by (auto simp: g_def length_overwrite S_def)
    show ?thesis
    proof (cases "bytes = []")
      case False
      then have "take (length bytes) (drop (c mod S) g) = bytes"
        using n all overwrite_nth [of _ f "c mod S" bytes] by (intro nth_equalityI) (auto simp: g_def S_def)
      then show ?thesis using chunk_bytes [OF v fi k] n False by (simp add: S_def)
    qed (simp add: readable_def bytes_at_def)
  qed
  ultimately show ?thesis using grows by (simp add: S_def)
qed

lemma write_loop:
  assumes v: "segments_ok v" "c + length data \<le> capacity v"
    and w: "chunk_loop (m_segmentSize v) (write_chunk (m_segmentPaths v)) c (length data) (data, d) = (ok, rest, d1)"
  shows "keeps {c..<c + length data} v d v d1 \<and> grows (m_segmentSize v) d d1 \<and>
    (ok \<longrightarrow> readable v d1 c (length data) \<and> bytes_at v d1 c (length data) = data)"
proof -
  let ?X = "{c..<c + length data}"
  let ?F = "\<lambda>s. keeps ?X v d v (snd s) \<and> grows (m_segmentSize v) d (snd s)"
  let ?I = "\<lambda>c' n' s. c \<le> c' \<and> c' + n' = c + length data \<and> fst s = drop (c' - c) data \<and> ?F s \<and>
      readable v (snd s) c (c' - c) \<and> bytes_at v (snd s) c (c' - c) = take (c' - c) data"
  have "if ok then ?I (c + length data) 0 (rest, d1) else ?F (rest, d1)"
  proof (rule chunk_loop_rule [where I = ?I and F = ?F, OF w])
    show "0 < m_segmentSize v" using v(1) by (simp add: segments_ok_def)
    show "?I c (length data) (data, d)" by (simp add: readable_def bytes_at_def keeps_same grows_same)
  next
    fix c' n' k s b s1
    assume I: "?I c' n' s" and k: "0 < k" "k \<le> n'" "k \<le> m_segmentSize v - c' mod m_segmentSize v"
      and f: "write_chunk (m_segmentPaths v) (c' div m_segmentSize v) (c' mod m_segmentSize v) k s = (b, s1)"
    define bytes where "bytes = take k (drop (c' - c) data)"
    have bytes: "length bytes = k" "take k (fst s) = bytes" using I k by (auto simp: bytes_def)
    obtain d2 where W: "WriteSegmentBytes (m_segmentPaths v ! (c' div m_segmentSize v)) (c' mod m_segmentSize v) bytes (snd s) = (b, d2)"
      and s1: "s1 = (drop k (fst s), d2)"
      using f bytes(2) by (auto simp: write_chunk_def split: prod.splits)
    have i: "c' div m_segmentSize v < length (m_segmentPaths v)"
      using v I k by (intro capacity_chunk) (auto simp: segments_ok_def)
    have step: "keeps {c'..<c' + k} v (snd s) v d2" "grows (m_segmentSize v) (snd s) d2"
      "b \<Longrightarrow> readable v d2 c' k \<and> bytes_at v d2 c' k = bytes"
      using write_chunk_keeps [OF v(1) i _ W] k(3) bytes(1) by simp_all
    have F: "keeps ?X v d v d2" "grows (m_segmentSize v) d d2"
      using I keeps_trans [OF _ step(1), of ?X v d ?X] grows_trans [OF _ step(2)] k by auto
    show "if b then ?I (c' + k) (n' - k) s1 else ?F s1"
    proof (cases b)
      case True
      have "c + j \<notin> {c'..<c' + k}" if "j < c' - c" for j using that by auto
      then have old: "readable v d2 c (c' - c)" "bytes_at v d2 c (c' - c) = take (c' - c) data"
        using keeps_readable [OF step(1), of c "c' - c"] keeps_bytes [OF step(1), of c "c' - c"] I by simp_all
      have cc: "c + (c' - c) = c'" using I by simp
      have new: "readable v d2 c' k" "bytes_at v d2 c' k = bytes" using step(3) [OF True] by auto
      have split: "take (c' - c + k) data = take (c' - c) data @ bytes" by (simp add: bytes_def take_add)
      have "readable v d2 c (c' - c + k)" using old new unfolding readable_append cc by simp
      moreover have "bytes_at v d2 c (c' - c + k) = take (c' - c + k) data"
        unfolding bytes_at_append cc split old new ..
      moreover have e: "c' - c + k = c' + k - c" "k + (c' - c) = c' + k - c" using I by simp_all
      moreover have "drop k (fst s) = drop (c' + k - c) data" using I by (simp add: add.commute)
      ultimately show ?thesis using True F I k s1 by simp
    qed (use F s1 in simp)
  qed simp
  then show ?thesis by (auto split: if_splits)
qed

lemma write_loop_ok:
  assumes "segments_ok v" "m_segmentSize v \<le> stream_max" "d_faults d = []" "c + length data \<le> capacity v"
    "\<And>i. i < length (m_segmentPaths v) \<Longrightarrow> file_at d i \<noteq> None"
    "chunk_loop (m_segmentSize v) (write_chunk (m_segmentPaths v)) c (length data) (data, d) = (ok, rest, d1)"
  shows "ok \<and> d_faults d1 = []"
proof -
  let ?I = "\<lambda>c' n' s. c \<le> c' \<and> c' + n' = c + length data \<and> d_faults (snd s) = [] \<and>
      (\<forall>i<length (m_segmentPaths v). file_at (snd s) i \<noteq> None)"
  have "if ok then ?I (c + length data) 0 (rest, d1) else False"
  proof (rule chunk_loop_rule [where I = ?I and F = "\<lambda>_. False", OF assms(6)])
    show "0 < m_segmentSize v" using assms(1) by (simp add: segments_ok_def)
    show "?I c (length data) (data, d)" using assms(3,5) by simp
  next
    fix c' n' k s b s1
    assume I: "?I c' n' s" and k: "0 < k" "k \<le> n'" "k \<le> m_segmentSize v - c' mod m_segmentSize v"
      and f: "write_chunk (m_segmentPaths v) (c' div m_segmentSize v) (c' mod m_segmentSize v) k s = (b, s1)"
    have "c' div m_segmentSize v < length (m_segmentPaths v)"
      using assms(1,4) I k by (intro capacity_chunk) (auto simp: segments_ok_def)
    then show "if b then ?I (c' + k) (n' - k) s1 else False"
      using f I k segment_path [OF assms(1)]
      by (auto simp: write_chunk_def WriteSegmentBytes_def syscall_ok Let_def split: option.splits)
  qed (use assms(2) in simp)
  then show ?thesis by (simp split: if_splits)
qed

section \<open>Room for a write\<close>

text \<open>A volume with more segments, and otherwise the same.\<close>

definition extends :: "'n Volume \<Rightarrow> 'n Volume \<Rightarrow> bool" where
  "extends v v1 \<longleftrightarrow> segments_ok v \<and> segments_ok v1 \<and> length (m_segmentPaths v) \<le> length (m_segmentPaths v1) \<and>
     v1 = v\<lparr>m_segmentPaths := m_segmentPaths v1\<rparr>"

lemma extends_refl: "segments_ok v \<Longrightarrow> extends v v"
  by (simp add: extends_def)

lemma extends_trans: "extends v v1 \<Longrightarrow> extends v1 v2 \<Longrightarrow> extends v v2"
  unfolding extends_def by (cases v, cases v1, cases v2) simp

lemma extends_fields:
  assumes "extends v v1"
  shows "m_segmentSize v1 = m_segmentSize v" "m_metadataBytes v1 = m_metadataBytes v"
    "m_nextFreeOffset v1 = m_nextFreeOffset v" "m_maxSegments v1 = m_maxSegments v" "m_files v1 = m_files v"
    "m_mounted v1 = m_mounted v" "m_writable v1 = m_writable v"
    "length (m_segmentPaths v) \<le> length (m_segmentPaths v1)" "segments_ok v" "segments_ok v1"
  using assms unfolding extends_def by (cases v, cases v1, simp)+

lemma extends_capacity: "extends v v1 \<Longrightarrow> capacity v \<le> capacity v1"
  by (simp add: extends_fields)

text \<open>What is there stays, and the new segments are full of zeros.\<close>

definition widens :: "'n Volume \<Rightarrow> Disk \<Rightarrow> 'n Volume \<Rightarrow> Disk \<Rightarrow> bool" where
  "widens v d v1 d1 \<longleftrightarrow> extends v v1 \<and>
     (\<forall>i<length (m_segmentPaths v1).
        file_at d1 i = (if i < length (m_segmentPaths v) then file_at d i else Some (replicate (m_segmentSize v) 0)))"

lemma widens_extends: "widens v d v1 d1 \<Longrightarrow> extends v v1"
  by (simp only: widens_def)

lemma widens_keeps:
  assumes "widens v d v1 d1"
  shows "keeps X v d v1 d1"
  unfolding keeps_def
proof (intro allI impI)
  fix a
  assume a: "byte_at v d a \<noteq> None"
  have e: "extends v v1" using assms by (simp add: widens_def)
  let ?i = "a div m_segmentSize v"
  have i: "?i < length (m_segmentPaths v)" using a by (simp add: byte_at_def split: if_splits)
  then have i1: "?i < length (m_segmentPaths v1)" using extends_fields(8) [OF e] by simp
  have "byte_at v1 d1 a = byte_at v d a"
    using i i1 assms segment_path [OF extends_fields(9) [OF e] i] segment_path [OF extends_fields(10) [OF e] i1]
    by (simp add: byte_at_def widens_def extends_fields(1) [OF e] split: option.split)
  then show "byte_at v1 d1 a \<noteq> None \<and> (a \<notin> X \<longrightarrow> byte_at v1 d1 a = byte_at v d a)" using a by simp
qed

lemma widens_refl: "segments_ok v \<Longrightarrow> d_segments d1 = d_segments d \<Longrightarrow> widens v d v d1"
  by (simp add: widens_def file_at_def extends_refl)

lemma widens_trans:
  assumes "widens v d v1 d1" "widens v1 d1 v2 d2"
  shows "widens v d v2 d2"
proof -
  have e: "extends v v1" "extends v1 v2" using assms by (auto simp: widens_def)
  have "length (m_segmentPaths v) \<le> length (m_segmentPaths v1)" using e by (simp add: extends_fields)
  then show ?thesis
    using assms extends_trans [OF e] extends_fields(1) [OF e(1)] unfolding widens_def by auto
qed

lemma createSegment_widens:
  assumes "segments_ok v" "createSegmentLocked (length (m_segmentPaths v)) v d = (b, v1, d1)"
  shows "widens v d v1 d1 \<and>
    (if b then v1 = v\<lparr>m_segmentPaths := m_segmentPaths v @ [length (m_segmentPaths v)]\<rparr> \<and>
        (\<forall>i. i \<noteq> length (m_segmentPaths v) \<longrightarrow> file_at d1 i = file_at d i) else v1 = v)"
proof -
  have "(\<forall>i. i \<noteq> length (m_segmentPaths v) \<longrightarrow> file_at d1 i = file_at d i) \<and>
    (if b then v1 = v\<lparr>m_segmentPaths := m_segmentPaths v @ [length (m_segmentPaths v)]\<rparr> \<and>
        file_at d1 (length (m_segmentPaths v)) = Some (replicate (m_segmentSize v) 0) else v1 = v)"
    using assms(2) by (auto simp: createSegmentLocked_def Let_def syscall_file split: prod.splits if_splits)
  moreover have "m_segmentPaths v @ [length (m_segmentPaths v)] = [0..<Suc (length (m_segmentPaths v))]"
    using assms(1) by (simp add: segments_ok_def)
  then have "extends v (v\<lparr>m_segmentPaths := m_segmentPaths v @ [length (m_segmentPaths v)]\<rparr>)"
    using assms(1) by (simp add: extends_def segments_ok_def)
  ultimately show ?thesis using extends_refl [OF assms(1)] by (auto simp: widens_def less_Suc_eq split: if_splits)
qed

lemma computeLogicalCapacity_eq:
  "computeLogicalCapacityLocked v = (if m_segmentSize v = 0 \<or> capacity v > u64_max then None else Some (capacity v))"
proof (cases "m_segmentSize v = 0")
  case False
  then have "length (m_segmentPaths v) > u64_max div m_segmentSize v \<longleftrightarrow> capacity v > u64_max"
    by (metis div_less_iff_less_mult less_eq_div_iff_mult_less_eq linorder_not_less neq0_conv)
  then show ?thesis by (simp add: computeLogicalCapacityLocked_def)
qed (simp add: computeLogicalCapacityLocked_def)

lemma ensureCapacity_widens:
  assumes "segments_ok v" "ensureCapacityLocked req v d = (b, v1, d1)"
  shows "widens v d v1 d1 \<and> (b \<longrightarrow> req \<le> capacity v1 \<and> capacity v1 \<le> u64_max \<and>
    (v1 \<noteq> v \<longrightarrow> capacity v < req) \<and> (\<forall>i\<ge>length (m_segmentPaths v1). file_at d1 i = file_at d i))"
  using assms
proof (induction req v d rule: ensureCapacityLocked.induct)
  case (1 req v d)
  show ?case
  proof (cases "computeLogicalCapacityLocked v")
    case None
    then show ?thesis using "1.prems" by (simp add: ensureCapacityLocked.simps widens_refl)
  next
    case (Some cap)
    then have cap: "cap = capacity v" "capacity v \<le> u64_max" by (auto simp: computeLogicalCapacity_eq split: if_splits)
    show ?thesis
    proof (cases "req \<le> cap \<or> \<not> m_writable v")
      case True
      then show ?thesis using "1.prems" Some cap by (subst (asm) ensureCapacityLocked.simps) (auto simp: widens_refl split: if_splits)
    next
      case grow: False
      obtain b2 v2 d2 where c: "createSegmentLocked (length (m_segmentPaths v)) v d = (b2, v2, d2)" by (metis prod_cases3)
      have e: "ensureCapacityLocked req v d = (if b2 then ensureCapacityLocked req v2 d2 else (False, v2, d2))"
        using Some grow c by (subst ensureCapacityLocked.simps) (simp split: bool.splits)
      note w = createSegment_widens [OF "1.prems"(1) c]
      show ?thesis
      proof (cases b2)
        case False
        then show ?thesis using e w "1.prems" by auto
      next
        case True
        then have c2: "createSegmentLocked (length (m_segmentPaths v)) v d = (True, v2, d2)" using c by simp
        have "segments_ok v2" using w True widens_extends extends_fields(10) by blast
        then have IH: "widens v2 d2 v1 d1 \<and> (b \<longrightarrow> req \<le> capacity v1 \<and> capacity v1 \<le> u64_max \<and>
            (v1 \<noteq> v2 \<longrightarrow> capacity v2 < req) \<and> (\<forall>i\<ge>length (m_segmentPaths v1). file_at d1 i = file_at d2 i))"
          using "1.IH" [OF Some _ _ c2 [symmetric] refl refl] grow e "1.prems"(2) True by simp
        then have "length (m_segmentPaths v2) \<le> length (m_segmentPaths v1)" using widens_extends extends_fields(8) by blast
        then show ?thesis using IH w True grow cap widens_trans [of v d v2 d2 v1 d1] by auto
      qed
    qed
  qed
qed

text \<open>When nothing fails and the sizes allow it there is room.\<close>

definition has_room :: "'n Volume \<Rightarrow> nat \<Rightarrow> bool" where
  "has_room v req \<longleftrightarrow> m_segmentSize v \<le> stream_max \<and> capacity v \<le> u64_max \<and>
     (req \<le> capacity v \<or>
      m_writable v \<and> req + m_segmentSize v \<le> u64_max \<and> (m_maxSegments v = 0 \<or> req \<le> m_maxSegments v * m_segmentSize v))"

lemma createSegment_ok:
  assumes "d_faults d = []" "0 < m_segmentSize v" "m_segmentSize v \<le> stream_max"
    "m_maxSegments v = 0 \<or> length (m_segmentPaths v) < m_maxSegments v"
  shows "\<exists>d1. createSegmentLocked (length (m_segmentPaths v)) v d =
      (True, v\<lparr>m_segmentPaths := m_segmentPaths v @ [length (m_segmentPaths v)]\<rparr>, d1) \<and> d_faults d1 = []"
  using assms by (auto simp: createSegmentLocked_def Let_def syscall_def)

lemma ensureCapacity_ok:
  assumes "segments_ok v" "d_faults d = []" "has_room v req" "ensureCapacityLocked req v d = (b, v1, d1)"
  shows "b \<and> d_faults d1 = []"
  using assms
proof (induction req v d rule: ensureCapacityLocked.induct)
  case (1 req v d)
  let ?n = "length (m_segmentPaths v)"
  have c: "computeLogicalCapacityLocked v = Some (capacity v)"
    using "1.prems"(1,3) by (simp add: computeLogicalCapacity_eq has_room_def segments_ok_def)
  show ?case
  proof (cases "req \<le> capacity v")
    case True
    then show ?thesis using "1.prems" c by (simp add: ensureCapacityLocked.simps)
  next
    case False
    have "m_maxSegments v = 0 \<or> ?n < m_maxSegments v"
      using False "1.prems"(3) by (auto simp: has_room_def) (metis mult_le_mono1 not_less order_trans)
    then obtain d2 where e: "createSegmentLocked ?n v d = (True, v\<lparr>m_segmentPaths := m_segmentPaths v @ [?n]\<rparr>, d2)"
        "d_faults d2 = []"
      using createSegment_ok [of d v] "1.prems"(1-3) by (auto simp: segments_ok_def has_room_def)
    have s: "segments_ok (v\<lparr>m_segmentPaths := m_segmentPaths v @ [?n]\<rparr>)"
      using createSegment_widens [OF "1.prems"(1) e(1)] extends_fields(10) unfolding widens_def by blast
    have r: "has_room (v\<lparr>m_segmentPaths := m_segmentPaths v @ [?n]\<rparr>) req"
      using False "1.prems"(3) by (auto simp: has_room_def)
    have w: "m_writable v" using False "1.prems"(3) by (auto simp: has_room_def)
    then have "ensureCapacityLocked req v d = ensureCapacityLocked req (v\<lparr>m_segmentPaths := m_segmentPaths v @ [?n]\<rparr>) d2"
      using False by (subst ensureCapacityLocked.simps) (simp add: c e)
    then show ?thesis using "1.IH" [OF c False _ e(1) [symmetric] _ refl] w s r e(2) "1.prems"(4) by simp
  qed
qed

section \<open>Byte ranges\<close>

lemma capacity_fits: "0 < S \<Longrightarrow> n > u64_max div S \<longleftrightarrow> n * S > u64_max"
  by (metis div_less_iff_less_mult)

lemma ForEachSegmentChunk_eq:
  "0 < S \<Longrightarrow> ForEachSegmentChunk P S c n f s =
    (if c + n \<le> length P * S \<and> length P * S \<le> u64_max then chunk_loop S f c n s else (False, s))"
  by (auto simp: ForEachSegmentChunk_def add_u64_def capacity_fits not_less not_le)

lemma readBytes_result:
  assumes "segments_ok v" "readBytesLocked v c n d = (r, d1)"
  shows "d_segments d1 = d_segments d \<and> (\<forall>b. r = Some b \<longrightarrow> readable v d c n \<and> b = bytes_at v d c n)"
proof (cases "n = 0")
  case False
  show ?thesis
  proof (cases "c + n \<le> capacity v \<and> capacity v \<le> u64_max")
    case True
    obtain ok b d2 where l: "chunk_loop (m_segmentSize v) (read_chunk (m_segmentPaths v)) c n ([], d) = (ok, b, d2)"
      by (metis prod_cases3)
    have "(r, d1) = (if ok then Some b else None, d2)"
      using assms False True l by (simp add: readBytesLocked_def ForEachSegmentChunk_eq segments_ok_def)
    then show ?thesis using read_loop [OF assms(1) _ l] True by auto
  next
    case no: False
    then have "r = None \<and> d1 = d"
      using assms False by (auto simp: readBytesLocked_def ForEachSegmentChunk_eq segments_ok_def)
    then show ?thesis by simp
  qed
qed (use assms(2) in \<open>auto simp: readBytesLocked_def readable_def bytes_at_def\<close>)

lemma readable_capacity: "readable v d c n \<Longrightarrow> 0 < n \<Longrightarrow> segments_ok v \<Longrightarrow> c + n \<le> capacity v"
proof -
  assume a: "readable v d c n" "0 < n" "segments_ok v"
  then have "byte_at v d (c + (n - 1)) \<noteq> None" unfolding readable_def by (metis diff_less zero_less_one)
  then have "(c + (n - 1)) div m_segmentSize v < length (m_segmentPaths v)" by (simp add: byte_at_def split: if_splits)
  then have "c + (n - 1) < capacity v" using a(3) by (simp add: segments_ok_def div_less_iff_less_mult)
  then show ?thesis using a(2) by simp
qed

lemma readBytes_ok:
  assumes "segments_ok v" "d_faults d = []" "m_segmentSize v \<le> stream_max" "capacity v \<le> u64_max" "readable v d c n"
  shows "readBytesLocked v c n d = (Some (bytes_at v d c n), d)"
proof (cases "n = 0")
  case False
  obtain ok b d2 where l: "chunk_loop (m_segmentSize v) (read_chunk (m_segmentPaths v)) c n ([], d) = (ok, b, d2)"
    by (metis prod_cases3)
  have room: "c + n \<le> capacity v" using readable_capacity assms(1,5) False by blast
  have "ok" "d2 = d" using read_loop_ok [OF assms(1,3,2,5) l] by auto
  moreover have "b = bytes_at v d c n" using read_loop [OF assms(1) room l] \<open>ok\<close> by simp
  ultimately show ?thesis
    using False l room assms(1,4) by (simp add: readBytesLocked_def ForEachSegmentChunk_eq segments_ok_def)
qed (simp add: readBytesLocked_def bytes_at_def)

text \<open>A write is a widening followed by the loop over the chunks.\<close>

lemma writeBytes_cases:
  assumes "segments_ok v" "writeBytesLocked c data v d = (b, v1, d1)" "data \<noteq> []"
  obtains "\<not> b" "widens v d v1 d1"
    "segments_ok v \<Longrightarrow> d_faults d = [] \<Longrightarrow> has_room v (c + length data) \<Longrightarrow> c + length data \<le> u64_max \<Longrightarrow> False"
  | d2 rest where "ensureCapacityLocked (c + length data) v d = (True, v1, d2)"
      "chunk_loop (m_segmentSize v1) (write_chunk (m_segmentPaths v1)) c (length data) (data, d2) = (b, rest, d1)"
      "c + length data \<le> capacity v1" "widens v d v1 d2"
proof (cases "c + length data > u64_max")
  case True
  then have "\<not> b \<and> v1 = v \<and> d1 = d" using assms(2,3) by (auto simp: writeBytesLocked_def add_u64_def)
  then show thesis using that(1) True widens_refl [OF assms(1), of d d] by auto
next
  case False
  then have a: "add_u64 c (length data) = Some (c + length data)" by (simp add: add_u64_def)
  obtain e v2 d2 where e: "ensureCapacityLocked (c + length data) v d = (e, v2, d2)" by (metis prod_cases3)
  note w = ensureCapacity_widens [OF assms(1) e]
  show thesis
  proof (cases e)
    case False
    then have "\<not> b \<and> v1 = v2 \<and> d1 = d2"
      using assms(2) unfolding writeBytesLocked_def by (simp add: assms(3) a e)
    then show thesis using that(1) w ensureCapacity_ok [OF assms(1) _ _ e] False by blast
  next
    case True
    have v2: "segments_ok v2" using w widens_extends extends_fields(10) by blast
    obtain ok rest d3 where l: "chunk_loop (m_segmentSize v2) (write_chunk (m_segmentPaths v2)) c (length data) (data, d2) = (ok, rest, d3)"
      by (metis prod_cases3)
    have "0 < m_segmentSize v2" using v2 by (simp add: segments_ok_def)
    moreover have "c + length data \<le> capacity v2" "capacity v2 \<le> u64_max" using w True by auto
    ultimately have "ForEachSegmentChunk (m_segmentPaths v2) (m_segmentSize v2) c (length data)
        (write_chunk (m_segmentPaths v2)) (data, d2) = (ok, rest, d3)"
      using l by (simp add: ForEachSegmentChunk_eq)
    then have eq: "b = ok" "v1 = v2" "d1 = d3"
      using assms(2) unfolding writeBytesLocked_def by (simp_all add: assms(3) a e True)
    show thesis by (rule that(2) [of d2 rest]) (use e l True w eq in simp_all)
  qed
qed

lemma writeBytes_effect:
  assumes "segments_ok v" "writeBytesLocked c data v d = (b, v1, d1)"
  shows "extends v v1 \<and> keeps {c..<c + length data} v d v1 d1 \<and>
    (b \<longrightarrow> readable v1 d1 c (length data) \<and> bytes_at v1 d1 c (length data) = data)"
proof (cases "data = []")
  case True
  then show ?thesis using assms by (auto simp: writeBytesLocked_def extends_refl keeps_same readable_def bytes_at_def)
next
  case False
  show ?thesis
    using assms False
  proof (cases rule: writeBytes_cases)
    case 1
    then show ?thesis using widens_keeps [OF 1(2)] widens_extends [OF 1(2)] by simp
  next
    case (2 d2 rest)
    have "segments_ok v1" using 2(4) widens_extends extends_fields(10) by blast
    then have l: "keeps {c..<c + length data} v1 d2 v1 d1 \<and>
        (b \<longrightarrow> readable v1 d1 c (length data) \<and> bytes_at v1 d1 c (length data) = data)"
      using write_loop [OF _ 2(3) 2(2)] by blast
    then show ?thesis
      using keeps_trans [OF widens_keeps [OF 2(4), of "{}"], of "{c..<c + length data}" v1 d1 "{c..<c + length data}"] widens_extends [OF 2(4)]
      by simp
  qed
qed

section \<open>The shape of the segment files\<close>

text \<open>
  There is a file for every segment and no other, none is empty or too long, and all but the last are full.
\<close>

definition exact :: "'n Volume \<Rightarrow> Disk \<Rightarrow> bool" where
  "exact v d \<longleftrightarrow>
     (\<forall>i. case file_at d i of None \<Rightarrow> length (m_segmentPaths v) \<le> i
        | Some f \<Rightarrow> i < length (m_segmentPaths v) \<and> 0 < length f \<and> length f \<le> m_segmentSize v \<and>
            (Suc i < length (m_segmentPaths v) \<longrightarrow> length f = m_segmentSize v))"

lemma exact_Some:
  "exact v d \<Longrightarrow> file_at d i = Some f \<Longrightarrow> i < length (m_segmentPaths v) \<and> 0 < length f \<and> length f \<le> m_segmentSize v \<and>
    (Suc i < length (m_segmentPaths v) \<longrightarrow> length f = m_segmentSize v)"
  by (auto simp: exact_def dest: spec [of _ i])

lemma exact_None: "exact v d \<Longrightarrow> file_at d i = None \<longleftrightarrow> length (m_segmentPaths v) \<le> i"
  by (auto simp: exact_def dest: spec [of _ i] split: option.splits)

lemma exact_grows:
  assumes "exact v d" "grows (m_segmentSize v) d d1"
  shows "exact v d1"
  unfolding exact_def
proof
  fix i
  show "case file_at d1 i of None \<Rightarrow> length (m_segmentPaths v) \<le> i
    | Some f \<Rightarrow> i < length (m_segmentPaths v) \<and> 0 < length f \<and> length f \<le> m_segmentSize v \<and>
        (Suc i < length (m_segmentPaths v) \<longrightarrow> length f = m_segmentSize v)"
  proof (cases "file_at d i")
    case None
    then show ?thesis using exact_None [OF assms(1), of i] grows_None [OF assms(2), of i] by simp
  next
    case (Some f)
    then show ?thesis using exact_Some [OF assms(1) Some] grows_Some [OF assms(2) Some] by auto
  qed
qed

text \<open>A segment whose last byte is there is full.\<close>

lemma readable_full:
  assumes "segments_ok v" "readable v d 0 n" "Suc i * m_segmentSize v \<le> n" "file_at d i = Some f"
  shows "m_segmentSize v \<le> length f"
proof -
  define S where "S = m_segmentSize v"
  have S: "0 < S" using assms(1) by (simp add: segments_ok_def S_def)
  have "byte_at v d (i * S + (S - 1)) \<noteq> None"
    using assms(2,3) S by (auto simp: readable_iff S_def [symmetric])
  moreover have "(i * S + (S - 1)) div S = i" using S div_mult_self3 [of S "i" "S - 1"] by (simp only: div_less)
  moreover have "(i * S + (S - 1)) mod S = S - 1" using S mod_mult_self3 [of "i" S "S - 1"] by (simp only: mod_less)
  ultimately have "i < length (m_segmentPaths v)" "file_at d (m_segmentPaths v ! i) \<noteq> None \<and> S - 1 < length (the (file_at d (m_segmentPaths v ! i)))"
    unfolding byte_at_def S_def [symmetric] by (auto split: if_splits option.splits)
  then show ?thesis using assms(4) segment_path [OF assms(1), of i] S by (simp add: S_def)
qed

lemma writeBytes_exact:
  assumes "segments_ok v" "writeBytesLocked c data v d = (True, v1, d1)" "exact v d" "readable v d 0 c"
  shows "exact v1 d1"
proof (cases "data = []")
  case True
  then show ?thesis using assms by (simp add: writeBytesLocked_def)
next
  case False
  show ?thesis
    using assms(1,2) False
  proof (cases rule: writeBytes_cases)
    case (2 d2 rest)
    have e: "extends v v1" using 2(4) by (rule widens_extends)
    have v1: "segments_ok v1" "m_segmentSize v1 = m_segmentSize v" using e by (simp_all add: extends_fields)
    have l: "keeps {c..<c + length data} v1 d2 v1 d1 \<and> grows (m_segmentSize v1) d2 d1 \<and> readable v1 d1 c (length data)"
      using write_loop [OF v1(1) 2(3,2)] by simp
    note en = ensureCapacity_widens [OF assms(1) 2(1)]
    have none: "file_at d1 i = None \<longleftrightarrow> length (m_segmentPaths v1) \<le> i" for i
      using en exact_None [OF assms(3), of i] extends_fields(8) [OF e] grows_None [of "m_segmentSize v1" d2 d1 i] l
      unfolding widens_def by (cases "i < length (m_segmentPaths v1)") auto
    have all: "readable v1 d1 0 (c + length data)"
      using keeps_readable [OF writeBytes_effect [OF assms(1,2), THEN conjunct2, THEN conjunct1] assms(4)] l
      by (simp add: readable_append)
    show ?thesis
      unfolding exact_def
    proof
      fix i
      show "case file_at d1 i of None \<Rightarrow> length (m_segmentPaths v1) \<le> i
        | Some f \<Rightarrow> i < length (m_segmentPaths v1) \<and> 0 < length f \<and> length f \<le> m_segmentSize v1 \<and>
            (Suc i < length (m_segmentPaths v1) \<longrightarrow> length f = m_segmentSize v1)"
      proof (cases "file_at d1 i")
        case (Some f)
        then have i: "i < length (m_segmentPaths v1)" using none [of i] by auto
        obtain g where g: "file_at d2 i = Some g" using grows_None [of "m_segmentSize v1" d2 d1 i] l Some by fastforce
        have fg: "length g \<le> length f \<and> length f \<le> max (length g) (m_segmentSize v1)"
          using grows_Some [OF _ g] l Some by fastforce
        have S: "0 < m_segmentSize v" using assms(1) by (simp add: segments_ok_def)
        have "0 < length g \<and> length g \<le> m_segmentSize v"
          using en g i exact_Some [OF assms(3), of i g] S unfolding widens_def by (auto split: if_splits)
        moreover have "length f = m_segmentSize v1" if "Suc i < length (m_segmentPaths v1)"
        proof (cases "Suc i < length (m_segmentPaths v)")
          case True
          then have "length g = m_segmentSize v"
            using en g i exact_Some [OF assms(3), of i g] unfolding widens_def by auto
          then show ?thesis using fg v1(2) by simp
        next
          case last: False
          then have "v1 \<noteq> v" using that by auto
          show ?thesis
          proof (cases "Suc i = length (m_segmentPaths v)")
            case True
            then have "Suc i * m_segmentSize v1 \<le> c + length data" using en \<open>v1 \<noteq> v\<close> v1(2) by simp
            then have "m_segmentSize v1 \<le> length f" by (rule readable_full [OF v1(1) all _ Some])
            then show ?thesis using fg calculation v1(2) by simp
          next
            case False
            then have "length g = m_segmentSize v" using en g i last unfolding widens_def by auto
            then show ?thesis using fg v1(2) by simp
          qed
        qed
        ultimately show ?thesis using Some i fg v1(2) by auto
      qed (use none [of i] in simp)
    qed
  qed simp
qed

lemma writeBytes_ok:
  assumes "segments_ok v" "d_faults d = []" "exact v d" "has_room v (c + length data)"
    "writeBytesLocked c data v d = (b, v1, d1)"
  shows "b \<and> d_faults d1 = []"
proof (cases "data = []")
  case True
  then show ?thesis using assms by (simp add: writeBytesLocked_def)
next
  case False
  have u: "c + length data \<le> u64_max" using assms(4) by (auto simp: has_room_def)
  show ?thesis
    using assms(1,5) False
  proof (cases rule: writeBytes_cases)
    case 1
    then show ?thesis using assms u by blast
  next
    case (2 d2 rest)
    have e: "extends v v1" using 2(4) by (rule widens_extends)
    have f: "d_faults d2 = []" using ensureCapacity_ok [OF assms(1,2,4) 2(1)] by simp
    have "file_at d2 i \<noteq> None" if "i < length (m_segmentPaths v1)" for i
      using 2(4) that exact_None [OF assms(3), of i] unfolding widens_def by auto
    moreover have "m_segmentSize v1 \<le> stream_max" using assms(4) e by (simp add: has_room_def extends_fields)
    ultimately show ?thesis using write_loop_ok [OF extends_fields(10) [OF e] _ f 2(3) _ 2(2)] by blast
  qed
qed

end
