(* ===== verification/Volume_Move.thy ===== *)
theory Volume_Move
  imports Volume_Bytes
begin

text \<open>
  Moving a byte range inside a volume, in either direction, and cutting the volume behind its last
  byte: the moved bytes arrive, every other byte stays, and without failures both succeed.
\<close>

section \<open>One chunk\<close>

lemma copy_chunk_effect:
  assumes "segments_ok v" "copy_chunk w r k v d = (b, v1, d1)"
  shows "extends v v1 \<and> keeps {w..<w + k} v d v1 d1 \<and>
    (b \<longrightarrow> readable v1 d1 w k \<and> bytes_at v1 d1 w k = bytes_at v d r k)"
proof -
  obtain x d2 where r: "readBytesLocked v r k d = (x, d2)" by fastforce
  note rb = readBytes_result [OF assms(1) r]
  show ?thesis
  proof (cases x)
    case None
    then show ?thesis using assms r rb by (simp add: copy_chunk_def extends_refl keeps_same)
  next
    case (Some y)
    then have wb: "writeBytesLocked w y v d2 = (b, v1, d1)" using assms(2) r by (simp add: copy_chunk_def)
    have y: "y = bytes_at v d r k" "length y = k" using rb Some by simp_all
    show ?thesis
      using writeBytes_effect [OF assms(1) wb] y keeps_trans [OF keeps_same [of d2 d "{}" v], of "{w..<w + k}" v1 d1 "{w..<w + k}"] rb
      by simp
  qed
qed

lemma writeBytes_within:
  assumes "segments_ok v" "writeBytesLocked c data v d = (b, v1, d1)" "c + length data \<le> capacity v" "capacity v \<le> u64_max"
  shows "v1 = v \<and> grows (m_segmentSize v) d d1"
proof (cases "data = []")
  case True
  then show ?thesis using assms by (simp add: writeBytesLocked_def grows_same)
next
  case False
  have e: "ensureCapacityLocked (c + length data) v d = (True, v, d)"
    using assms by (simp add: ensureCapacityLocked.simps computeLogicalCapacity_eq segments_ok_def)
  obtain ok rest d2 where l: "chunk_loop (m_segmentSize v) (write_chunk (m_segmentPaths v)) c (length data) (data, d) = (ok, rest, d2)"
    by (metis prod_cases3)
  have "add_u64 c (length data) = Some (c + length data)" using assms(3,4) by (simp add: add_u64_def)
  then have "v1 = v \<and> d1 = d2"
    using assms False e l by (simp add: writeBytesLocked_def ForEachSegmentChunk_eq segments_ok_def)
  then show ?thesis using write_loop [OF assms(1,3) l] by simp
qed

lemma copy_chunk_within:
  assumes "segments_ok v" "d_faults d = []" "exact v d" "m_segmentSize v \<le> stream_max" "capacity v \<le> u64_max"
    "w + k \<le> capacity v" "readable v d r k" "copy_chunk w r k v d = (b, v1, d1)"
  shows "b \<and> v1 = v \<and> d_faults d1 = [] \<and> exact v d1"
proof -
  have "readBytesLocked v r k d = (Some (bytes_at v d r k), d)"
    by (rule readBytes_ok) (use assms in simp_all)
  then have w: "writeBytesLocked w (bytes_at v d r k) v d = (b, v1, d1)" using assms(8) by (simp add: copy_chunk_def)
  have "b \<and> d_faults d1 = []"
    by (rule writeBytes_ok [OF assms(1-3) _ w]) (use assms in \<open>simp add: has_room_def\<close>)
  then show ?thesis using writeBytes_within [OF assms(1) w] assms(5,6) exact_grows [OF assms(3), of d1] by simp
qed

section \<open>Forward and backward\<close>

text \<open>What a finished move has done: the bytes of the source are at the destination.\<close>

definition moved_to :: "nat \<Rightarrow> nat \<Rightarrow> nat \<Rightarrow> 'n Volume \<Rightarrow> Disk \<Rightarrow> 'n Volume \<Rightarrow> Disk \<Rightarrow> bool" where
  "moved_to dst src n v d v1 d1 \<longleftrightarrow> readable v1 d1 dst n \<and> bytes_at v1 d1 dst n = bytes_at v d src n"

lemma moved_to_0 [simp]: "moved_to dst src 0 v d v1 d1"
  by (simp add: moved_to_def readable_def bytes_at_def)

lemma moved_to_append:
  "moved_to dst src (m + n) v d v1 d1 \<longleftrightarrow> moved_to dst src m v d v1 d1 \<and> moved_to (dst + m) (src + m) n v d v1 d1"
  by (auto simp: moved_to_def readable_append bytes_at_append)

lemma moved_to_later:
  assumes "moved_to dst src n v d v1 d1" "keeps X v1 d1 v2 d2" "\<And>j. j < n \<Longrightarrow> dst + j \<notin> X"
  shows "moved_to dst src n v d v2 d2"
  using assms keeps_readable [OF assms(2)] keeps_bytes [OF assms(2)] by (simp add: moved_to_def)

lemma moved_to_before:
  assumes "moved_to dst src n v1 d1 v2 d2" "keeps X v d v1 d1" "readable v d src n" "\<And>j. j < n \<Longrightarrow> src + j \<notin> X"
  shows "moved_to dst src n v d v2 d2"
  using assms keeps_bytes [OF assms(2,3,4)] by (simp add: moved_to_def)

lemma move_forward_effect:
  assumes "move_forward chunk dst src n m v d = (b, v1, d1)" "segments_ok v" "dst < src" "m \<le> n" "0 < chunk"
    "readable v d (src + m) (n - m)"
  shows "extends v v1 \<and> keeps {dst + m..<dst + n} v d v1 d1 \<and>
    (b \<longrightarrow> moved_to (dst + m) (src + m) (n - m) v d v1 d1)"
  using assms
proof (induction chunk dst src n m v d rule: move_forward.induct)
  case (1 chunk dst src n m v d)
  show ?case
  proof (cases "m < n")
    case False
    then show ?thesis using "1.prems" by (simp add: move_forward.simps extends_refl keeps_same)
  next
    case True
    define k where "k = min (n - m) chunk"
    have k: "0 < k" "m + k \<le> n" using True "1.prems"(5) by (auto simp: k_def)
    obtain ok v2 d2 where c: "copy_chunk (dst + m) (src + m) k v d = (ok, v2, d2)" by (metis prod_cases3)
    note ce = copy_chunk_effect [OF "1.prems"(2) c]
    have e: "move_forward chunk dst src n m v d =
        (if ok then move_forward chunk dst src n (m + k) v2 d2 else (False, v2, d2))"
      using True "1.prems"(5) c by (subst move_forward.simps) (simp add: k_def Let_def)
    show ?thesis
    proof (cases ok)
      case False
      then show ?thesis using ce e "1.prems"(1) k keeps_mono [of "{dst + m..<dst + m + k}" v d v1 d1 "{dst + m..<dst + n}"] by simp
    next
      case ok: True
      have v2: "segments_ok v2" using ce extends_fields(10) by blast
      have first: "moved_to (dst + m) (src + m) k v d v2 d2" using ce ok by (simp add: moved_to_def)
      have kept: "keeps {dst + m..<dst + m + k} v d v2 d2" using ce by simp
      have src: "readable v d (src + (m + k)) (n - (m + k))"
        using "1.prems"(6) by (rule readable_mono) (use k in auto)
      have IH: "extends v2 v1 \<and> keeps {dst + (m + k)..<dst + n} v2 d2 v1 d1 \<and>
          (b \<longrightarrow> moved_to (dst + (m + k)) (src + (m + k)) (n - (m + k)) v2 d2 v1 d1)"
        using "1.IH" [of k "(ok, v2, d2)" ok "(v2, d2)" v2 d2] True "1.prems" e ok c v2 k keeps_readable [OF kept src]
        by (simp add: k_def)
      have "keeps {dst + m..<dst + n} v d v1 d1" using keeps_trans [OF kept IH [THEN conjunct2, THEN conjunct1]] k by simp
      moreover have "moved_to (dst + m) (src + m) (n - m) v d v1 d1" if b
      proof -
        have "moved_to (dst + (m + k)) (src + (m + k)) (n - (m + k)) v d v1 d1"
          by (rule moved_to_before [OF _ kept src]) (use IH that "1.prems"(3) in auto)
        moreover have "moved_to (dst + m) (src + m) k v d v1 d1"
          by (rule moved_to_later [OF first, where X = "{dst + (m + k)..<dst + n}"]) (use IH in auto)
        ultimately have "moved_to (dst + m) (src + m) (k + (n - (m + k))) v d v1 d1"
          by (simp only: moved_to_append add.assoc)
        then show ?thesis using k by simp
      qed
      ultimately show ?thesis using ce IH extends_trans by blast
    qed
  qed
qed

lemma move_backward_effect:
  assumes "move_backward chunk dst src n v d = (b, v1, d1)" "segments_ok v" "src < dst" "0 < chunk" "readable v d src n"
  shows "extends v v1 \<and> keeps {dst..<dst + n} v d v1 d1 \<and> (b \<longrightarrow> moved_to dst src n v d v1 d1)"
  using assms
proof (induction chunk dst src n v d rule: move_backward.induct)
  case (1 chunk dst src n v d)
  show ?case
  proof (cases "n = 0")
    case True
    then show ?thesis using "1.prems" by (simp add: move_backward.simps extends_refl keeps_same)
  next
    case False
    define k where "k = min n chunk"
    have k: "0 < k" "k \<le> n" using False "1.prems"(4) by (auto simp: k_def)
    obtain ok v2 d2 where c: "copy_chunk (dst + (n - k)) (src + (n - k)) k v d = (ok, v2, d2)" by (metis prod_cases3)
    note ce = copy_chunk_effect [OF "1.prems"(2) c]
    have e: "move_backward chunk dst src n v d =
        (if ok then move_backward chunk dst src (n - k) v2 d2 else (False, v2, d2))"
      using False "1.prems"(4) c by (subst move_backward.simps) (simp add: k_def Let_def)
    show ?thesis
    proof (cases ok)
      case False
      have "keeps {dst..<dst + n} v d v2 d2"
        by (rule keeps_mono [OF ce [THEN conjunct2, THEN conjunct1]]) (use k in auto)
      then show ?thesis using ce e "1.prems"(1) False by simp
    next
      case ok: True
      have v2: "segments_ok v2" using ce extends_fields(10) by blast
      have last: "moved_to (dst + (n - k)) (src + (n - k)) k v d v2 d2" using ce ok by (simp add: moved_to_def)
      have kept: "keeps {dst + (n - k)..<dst + n} v d v2 d2" using ce k by simp
      have src: "readable v d src (n - k)"
        using "1.prems"(5) by (rule readable_mono) (use k in auto)
      have IH: "extends v2 v1 \<and> keeps {dst..<dst + (n - k)} v2 d2 v1 d1 \<and> (b \<longrightarrow> moved_to dst src (n - k) v2 d2 v1 d1)"
        using "1.IH" [of k "n - k" "(ok, v2, d2)" ok "(v2, d2)" v2 d2] False "1.prems" e ok c v2 k keeps_readable [OF kept src]
        by (simp add: k_def)
      have "keeps {dst..<dst + n} v d v1 d1"
        by (rule keeps_trans [OF kept IH [THEN conjunct2, THEN conjunct1]]) (use k in auto)
      moreover have "moved_to dst src n v d v1 d1" if b
      proof -
        have "moved_to dst src (n - k) v d v1 d1"
          by (rule moved_to_before [OF _ kept src]) (use IH that "1.prems"(3) in auto)
        moreover have "moved_to (dst + (n - k)) (src + (n - k)) k v d v1 d1"
          by (rule moved_to_later [OF last, where X = "{dst..<dst + (n - k)}"]) (use IH in auto)
        ultimately have "moved_to dst src (n - k + k) v d v1 d1" by (simp only: moved_to_append)
        then show ?thesis using k by simp
      qed
      ultimately show ?thesis using ce IH extends_trans by blast
    qed
  qed
qed

lemma move_forward_ok:
  assumes "move_forward chunk dst src n m v d = (b, v1, d1)" "segments_ok v" "dst < src" "m \<le> n" "0 < chunk"
    "readable v d (src + m) (n - m)" "d_faults d = []" "exact v d" "m_segmentSize v \<le> stream_max"
    "src + n \<le> capacity v" "capacity v \<le> u64_max"
  shows "b \<and> v1 = v \<and> d_faults d1 = [] \<and> exact v d1"
  using assms
proof (induction chunk dst src n m v d rule: move_forward.induct)
  case (1 chunk dst src n m v d)
  show ?case
  proof (cases "m < n")
    case False
    then show ?thesis using "1.prems" by (simp add: move_forward.simps)
  next
    case True
    define k where "k = min (n - m) chunk"
    have k: "0 < k" "m + k \<le> n" using True "1.prems"(5) by (auto simp: k_def)
    obtain ok v2 d2 where c: "copy_chunk (dst + m) (src + m) k v d = (ok, v2, d2)" by (metis prod_cases3)
    have "readable v d (src + m) k" using "1.prems"(6) by (rule readable_mono) (use k in auto)
    then have w: "ok" "v2 = v" "d_faults d2 = []" "exact v d2"
      using copy_chunk_within [OF "1.prems"(2,7,8,9,11) _ _ c] k "1.prems"(3,10) by auto
    have src: "readable v d2 (src + (m + k)) (n - (m + k))"
      by (rule keeps_readable [of "{dst + m..<dst + m + k}" v d])
        (use copy_chunk_effect [OF "1.prems"(2) c] w(2) readable_mono [OF "1.prems"(6)] k in auto)
    have "move_forward chunk dst src n (m + k) v d2 = (b, v1, d1)"
      using True "1.prems"(1,5) c w by (subst (asm) move_forward.simps) (simp add: k_def Let_def)
    then show ?thesis
      using "1.IH" [of k "(ok, v2, d2)" ok "(v2, d2)" v2 d2] True "1.prems" c w k src by (simp add: k_def)
  qed
qed

section \<open>The move\<close>

text \<open>A move that reports success has moved the bytes; whatever fails, only the destination is written.\<close>

lemma moveBytes_effect:
  assumes "segments_ok v" "readable v d src n" "moveBytesLocked dst src n v d = (b, v1, d1)"
  shows "extends v v1 \<and> keeps {dst..<dst + n} v d v1 d1 \<and> (b \<longrightarrow> moved_to dst src n v d v1 d1)"
proof (cases "n = 0 \<or> dst = src \<or> src + n > u64_max \<or> capacity v > u64_max \<or> src + n > capacity v \<or> dst + n > u64_max")
  case True
  then have "v1 = v \<and> d1 = d \<and> (b \<longrightarrow> n = 0 \<or> dst = src)"
    using assms(1,3) by (auto simp: moveBytesLocked_def computeLogicalCapacity_eq add_u64_def segments_ok_def split: if_splits)
  then show ?thesis
    using assms(1,2) by (cases "n = 0") (auto simp: extends_refl keeps_same, auto simp: moved_to_def)
next
  case False
  obtain e v2 d2 where c: "ensureCapacityLocked (dst + n) v d = (e, v2, d2)" by (metis prod_cases3)
  have w: "widens v d v2 d2" using ensureCapacity_widens [OF assms(1) c] by simp
  have v2: "extends v v2" "segments_ok v2" using w widens_extends extends_fields(10) by blast+
  note kw = widens_keeps [OF w]
  let ?chunk = "min s_VolumeMoveChunkBytes (m_segmentSize v2)"
  have eq: "(b, v1, d1) = (if \<not> e \<or> ?chunk = 0 \<or> ?chunk > usize_max then (False, v2, d2)
      else if dst < src then move_forward ?chunk dst src n 0 v2 d2 else move_backward ?chunk dst src n v2 d2)"
    using assms(1,3) False c
    by (auto simp: Let_def moveBytesLocked_def computeLogicalCapacity_eq add_u64_def segments_ok_def split: if_splits)
  show ?thesis
  proof (cases "\<not> e \<or> ?chunk = 0 \<or> ?chunk > usize_max")
    case True
    then show ?thesis using eq v2 kw by simp
  next
    case go: False
    have r: "readable v2 d2 src n" using keeps_readable [OF kw assms(2)] .
    have m: "extends v2 v1 \<and> keeps {dst..<dst + n} v2 d2 v1 d1 \<and> (b \<longrightarrow> moved_to dst src n v2 d2 v1 d1)"
    proof (cases "dst < src")
      case True
      then have "move_forward ?chunk dst src n 0 v2 d2 = (b, v1, d1)" unfolding eq if_not_P [OF go] by simp
      then show ?thesis using move_forward_effect [of ?chunk dst src n 0 v2 d2 b v1 d1] go v2 r True by simp
    next
      case down: False
      then have "move_backward ?chunk dst src n v2 d2 = (b, v1, d1)" unfolding eq if_not_P [OF go] by simp
      then show ?thesis using move_backward_effect [of ?chunk dst src n v2 d2 b v1 d1] go v2 r down False by simp
    qed
    have "keeps {dst..<dst + n} v d v1 d1" using keeps_trans [OF kw [of "{}"] m [THEN conjunct2, THEN conjunct1]] by simp
    then show ?thesis using m extends_trans [OF v2(1)] moved_to_before [OF _ kw [of "{}"] assms(2)] by auto
  qed
qed

lemma moveBytes_ok:
  assumes "segments_ok v" "readable v d src n" "moveBytesLocked dst src n v d = (b, v1, d1)"
    "dst \<le> src" "d_faults d = []" "exact v d" "m_segmentSize v \<le> stream_max" "capacity v \<le> u64_max"
  shows "b \<and> v1 = v \<and> d_faults d1 = [] \<and> exact v d1"
proof (cases "n = 0 \<or> dst = src")
  case True
  then show ?thesis using assms by (auto simp: moveBytesLocked_def)
next
  case False
  have r: "src + n \<le> capacity v" using readable_capacity assms(1,2) False by blast
  then have e: "ensureCapacityLocked (dst + n) v d = (True, v, d)"
    using assms(1,4,8) by (simp add: ensureCapacityLocked.simps computeLogicalCapacity_eq segments_ok_def)
  let ?chunk = "min s_VolumeMoveChunkBytes (m_segmentSize v)"
  have chunk: "0 < ?chunk" "?chunk \<le> usize_max" using assms(1) by (simp_all add: s_VolumeMoveChunkBytes_def segments_ok_def usize_max_def)
  have "\<not> usize_max < s_VolumeMoveChunkBytes" by (simp add: s_VolumeMoveChunkBytes_def usize_max_def)
  then have "move_forward ?chunk dst src n 0 v d = (b, v1, d1)"
    using assms False r e chunk
    by (simp add: Let_def moveBytesLocked_def computeLogicalCapacity_eq add_u64_def segments_ok_def)
  then show ?thesis using move_forward_ok [of ?chunk dst src n 0 v d b v1 d1] assms False r chunk by simp
qed

end
