(* ===== verification/Volume_Store.thy ===== *)
theory Volume_Store
  imports Volume_Move Hex_Name Binary Compact_String
begin

text \<open>
  The volume file system, \<^verbatim>\<open>src/core/filesystem/volume_metadata.cpp\<close>, \<^verbatim>\<open>volume_file_system.cpp\<close> and
  \<^verbatim>\<open>volume_session.cpp\<close>: named files in a volume, their index in the metadata area at its start, mounting
  and compaction. The hash map of files is an association list in any order; a result that depends on
  the order is sorted by the code. The payload of a file is the list of its bytes, so its pointer
  is null only when it is empty.
\<close>

type_synonym Files = "(NameHash \<times> FileRecord) list"
type_synonym VolumeFileSystem = "NameHash Volume"

section \<open>The metadata area\<close>

definition s_VolumeDefaultMetadataBytes :: nat where "s_VolumeDefaultMetadataBytes = 512 * 1024"
definition s_VolumeMinMetadataBytes :: nat where "s_VolumeMinMetadataBytes = 4 * 1024"
definition s_VolumeFallbackMetadataDivisor :: nat where "s_VolumeFallbackMetadataDivisor = 8"
definition s_VolumeMagic :: "u8 list" where "s_VolumeMagic = [78, 87, 66, 86, 79, 76, 49, 0]"

definition DefaultMetadataBytes :: "nat \<Rightarrow> nat" where
  "DefaultMetadataBytes segmentSize =
     (let n = s_VolumeDefaultMetadataBytes;
          n = (if n \<ge> segmentSize then segmentSize div s_VolumeFallbackMetadataDivisor else n)
      in if n < s_VolumeMinMetadataBytes then s_VolumeMinMetadataBytes else n)"

record VolumeHeaderDisk =
  h_magic :: "u8 list"
  h_segmentSize :: nat
  h_metadataBytes :: nat
  h_fileCount :: nat
  h_indexBytes :: nat
  h_nextFreeOffset :: nat

definition sizeof_header :: nat where "sizeof_header = 48"
definition sizeof_entry :: nat where "sizeof_entry = 80"

definition u64_bytes :: "nat \<Rightarrow> u8 list" where
  "u64_bytes n = le_bytes 8 (of_nat n :: u64)"

definition u64_at :: "u8 list \<Rightarrow> nat \<Rightarrow> nat" where
  "u64_at bytes i = unat (le_value (take 8 (drop i bytes)) :: u64)"

definition header_bytes :: "VolumeHeaderDisk \<Rightarrow> u8 list" where
  "header_bytes h = h_magic h @ u64_bytes (h_segmentSize h) @ u64_bytes (h_metadataBytes h) @
     u64_bytes (h_fileCount h) @ u64_bytes (h_indexBytes h) @ u64_bytes (h_nextFreeOffset h)"

definition header_of :: "u8 list \<Rightarrow> VolumeHeaderDisk" where
  "header_of b = \<lparr>h_magic = take 8 b, h_segmentSize = u64_at b 8, h_metadataBytes = u64_at b 16,
     h_fileCount = u64_at b 24, h_indexBytes = u64_at b 32, h_nextFreeOffset = u64_at b 40\<rparr>"

definition entry_bytes :: "NameHash \<times> FileRecord \<Rightarrow> u8 list" where
  "entry_bytes e = concat (map (le_bytes 8) (fst e)) @ u64_bytes (rec_offset (snd e)) @ u64_bytes (rec_size (snd e))"

definition entry_of :: "u8 list \<Rightarrow> NameHash \<times> FileRecord" where
  "entry_of b = (map (\<lambda>i. le_value (take 8 (drop (8 * i) b))) [0..<8],
     \<lparr>rec_offset = u64_at b 64, rec_size = u64_at b 72\<rparr>)"

definition ComputeVolumeIndexBytes :: "nat \<Rightarrow> nat option" where
  "ComputeVolumeIndexBytes fileCount =
     (if fileCount > u64_max div sizeof_entry then None else Some (fileCount * sizeof_entry))"

definition ComputeVolumeMetadataRequirement :: "nat \<Rightarrow> nat option" where
  "ComputeVolumeMetadataRequirement fileCount =
     (case ComputeVolumeIndexBytes fileCount of
        None \<Rightarrow> None
      | Some indexBytes \<Rightarrow> add_u64 sizeof_header indexBytes)"

definition canFitMetadataForFileCountLocked :: "nat \<Rightarrow> VolumeFileSystem \<Rightarrow> bool" where
  "canFitMetadataForFileCountLocked fileCount v =
     (case ComputeVolumeMetadataRequirement fileCount of None \<Rightarrow> False | Some n \<Rightarrow> n \<le> m_metadataBytes v)"

text \<open>The entries of the index, checked one by one.\<close>

fun load_entries :: "VolumeHeaderDisk \<Rightarrow> u8 list \<Rightarrow> nat \<Rightarrow> nat \<Rightarrow> Files \<Rightarrow> (Files \<times> nat) option" where
  "load_entries h indexData 0 cursor loadedFiles = Some (loadedFiles, cursor)"
| "load_entries h indexData (Suc n) cursor loadedFiles =
     (if h_indexBytes h - cursor < sizeof_entry then None
      else let (path, entry) = entry_of (drop cursor indexData); cursor = cursor + sizeof_entry
        in case add_u64 (rec_offset entry) (rec_size entry) of
             None \<Rightarrow> None
           | Some endOffset \<Rightarrow>
               if rec_offset entry < h_metadataBytes h then None
               else if endOffset > h_nextFreeOffset h then None
               else if map_of loadedFiles path \<noteq> None then None
               else load_entries h indexData n cursor ((path, entry) # loadedFiles))"

definition loadMetadataLocked :: "VolumeFileSystem \<Rightarrow> Disk \<Rightarrow> bool \<times> VolumeFileSystem \<times> Disk" where
  "loadMetadataLocked v d =
     (case readBytesLocked v 0 sizeof_header d of
        (None, d1) \<Rightarrow> (False, v, d1)
      | (Some b, d1) \<Rightarrow>
          let h = header_of b in
          if h_magic h \<noteq> s_VolumeMagic then (False, v, d1)
          else if h_segmentSize h \<noteq> m_segmentSize v then (False, v, d1)
          else if h_metadataBytes h \<le> sizeof_header \<or> h_metadataBytes h \<ge> m_segmentSize v then (False, v, d1)
          else case add_u64 sizeof_header (h_indexBytes h) of
              None \<Rightarrow> (False, v, d1)
            | Some headerTotalBytes \<Rightarrow>
          if headerTotalBytes > h_metadataBytes h then (False, v, d1)
          else if h_nextFreeOffset h < h_metadataBytes h then (False, v, d1)
          else case computeLogicalCapacityLocked v of
              None \<Rightarrow> (False, v, d1)
            | Some maxVolumeBytes \<Rightarrow>
          if h_nextFreeOffset h > maxVolumeBytes then (False, v, d1)
          else case computePhysicalCapacityLocked v d1 of
              (None, d2) \<Rightarrow> (False, v, d2)
            | (Some physicalCapacityBytes, d2) \<Rightarrow>
          if h_nextFreeOffset h > physicalCapacityBytes then (False, v, d2)
          else if h_indexBytes h > usize_max then (False, v, d2)
          else case ComputeVolumeIndexBytes (h_fileCount h) of
              None \<Rightarrow> (False, v, d2)
            | Some expectedIndexBytes \<Rightarrow>
          if h_indexBytes h \<noteq> expectedIndexBytes then (False, v, d2)
          else case readBytesLocked v sizeof_header (h_indexBytes h) d2 of
              (None, d3) \<Rightarrow> (False, v, d3)
            | (Some indexData, d3) \<Rightarrow>
          case load_entries h indexData (h_fileCount h) 0 [] of
              None \<Rightarrow> (False, v, d3)
            | Some (loadedFiles, cursor) \<Rightarrow>
                if cursor \<noteq> h_indexBytes h then (False, v, d3)
                else (True, v\<lparr>m_metadataBytes := h_metadataBytes h, m_nextFreeOffset := h_nextFreeOffset h,
                               m_files := loadedFiles\<rparr>, d3))"

text \<open>The order of the index: by name hash, which no two records share.\<close>

fun insert_record :: "NameHash \<times> 'r \<Rightarrow> (NameHash \<times> 'r) list \<Rightarrow> (NameHash \<times> 'r) list" where
  "insert_record x [] = [x]"
| "insert_record x (y # ys) = (if LessNameHash (fst x) (fst y) then x # y # ys else y # insert_record x ys)"

definition sort_records :: "(NameHash \<times> 'r) list \<Rightarrow> (NameHash \<times> 'r) list" where
  "sort_records xs = foldr insert_record xs []"

definition metadata_buffer :: "VolumeFileSystem \<Rightarrow> u8 list" where
  "metadata_buffer v =
     (let index = concat (map entry_bytes (sort_records (m_files v)));
          header = \<lparr>h_magic = s_VolumeMagic, h_segmentSize = m_segmentSize v, h_metadataBytes = m_metadataBytes v,
            h_fileCount = length (m_files v), h_indexBytes = length index, h_nextFreeOffset = m_nextFreeOffset v\<rparr>;
          buffer = header_bytes header @ index
      in buffer @ replicate (m_metadataBytes v - length buffer) 0)"

definition flushMetadataLocked :: "VolumeFileSystem \<Rightarrow> Disk \<Rightarrow> bool \<times> VolumeFileSystem \<times> Disk" where
  "flushMetadataLocked v d =
     (if m_segmentPaths v = [] then (False, v, d)
      else if m_nextFreeOffset v < m_metadataBytes v then (False, v, d)
      else case computeLogicalCapacityLocked v of
          None \<Rightarrow> (False, v, d)
        | Some maxVolumeBytes \<Rightarrow>
      if m_nextFreeOffset v > maxVolumeBytes then (False, v, d)
      else case ComputeVolumeIndexBytes (length (m_files v)) of
          None \<Rightarrow> (False, v, d)
        | Some expectedIndexBytes \<Rightarrow>
      if expectedIndexBytes > usize_max then (False, v, d)
      else let indexBytes = length (concat (map entry_bytes (sort_records (m_files v))))
        in if indexBytes \<noteq> expectedIndexBytes then (False, v, d)
           else case add_u64 sizeof_header indexBytes of
               None \<Rightarrow> (False, v, d)
             | Some totalMetaBytes \<Rightarrow>
                 if totalMetaBytes > m_metadataBytes v then (False, v, d)
                 else writeBytesLocked 0 (metadata_buffer v) v d)"

section \<open>Files\<close>

datatype MetadataFlushMode = Deferred | Immediate

definition writeFileLocked ::
    "MetadataFlushMode \<Rightarrow> NameHash \<Rightarrow> u8 list \<Rightarrow> VolumeFileSystem \<Rightarrow> Disk \<Rightarrow> bool \<times> VolumeFileSystem \<times> Disk" where
  "writeFileLocked flushMode virtualPath data v d =
     (if \<not> m_mounted v \<or> \<not> m_writable v then (False, v, d)
      else if IsZeroHash virtualPath then (False, v, d)
      else let existed = map_of (m_files v) virtualPath;
               fileCountAfterWrite = (if existed = None then length (m_files v) + 1 else length (m_files v))
        in if fileCountAfterWrite > u64_max then (False, v, d)
           else if \<not> canFitMetadataForFileCountLocked fileCountAfterWrite v then (False, v, d)
           else case add_u64 (m_nextFreeOffset v) (length data) of
               None \<Rightarrow> (False, v, d)
             | Some newFileEnd \<Rightarrow>
           case ensureCapacityLocked newFileEnd v d of
               (False, v1, d1) \<Rightarrow> (False, v1, d1)
             | (True, v1, d1) \<Rightarrow>
           case (if data = [] then (True, v1, d1) else writeBytesLocked (m_nextFreeOffset v) data v1 d1) of
               (False, v2, d2) \<Rightarrow> (False, v2, d2)
             | (True, v2, d2) \<Rightarrow>
           let v3 = v2\<lparr>m_files := AList.update virtualPath \<lparr>rec_offset = m_nextFreeOffset v, rec_size = length data\<rparr> (m_files v2),
                       m_nextFreeOffset := newFileEnd\<rparr>
           in if flushMode = Deferred then (True, v3, d2)
              else case flushMetadataLocked v3 d2 of
                  (True, v4, d4) \<Rightarrow> (True, v4, d4)
                | (False, v4, d4) \<Rightarrow>
                    (False, v4\<lparr>m_files := (case existed of
                                   Some previousRecord \<Rightarrow> AList.update virtualPath previousRecord (m_files v4)
                                 | None \<Rightarrow> AList.delete virtualPath (m_files v4)),
                               m_nextFreeOffset := m_nextFreeOffset v\<rparr>, d4))"

definition writeFile :: "NameHash \<Rightarrow> u8 list \<Rightarrow> VolumeFileSystem \<Rightarrow> Disk \<Rightarrow> bool \<times> VolumeFileSystem \<times> Disk" where
  "writeFile virtualPath data v d = writeFileLocked Immediate virtualPath data v d"

definition writeFileDeferred :: "NameHash \<Rightarrow> u8 list \<Rightarrow> VolumeFileSystem \<Rightarrow> Disk \<Rightarrow> bool \<times> VolumeFileSystem \<times> Disk" where
  "writeFileDeferred virtualPath data v d = writeFileLocked Deferred virtualPath data v d"

definition flushMetadata :: "VolumeFileSystem \<Rightarrow> Disk \<Rightarrow> bool \<times> VolumeFileSystem \<times> Disk" where
  "flushMetadata v d = (if \<not> m_mounted v \<or> \<not> m_writable v then (False, v, d) else flushMetadataLocked v d)"

definition readFileRecordLocked :: "NameHash \<Rightarrow> VolumeFileSystem \<Rightarrow> FileRecord option" where
  "readFileRecordLocked virtualPath v =
     (if \<not> m_mounted v then None else if IsZeroHash virtualPath then None else map_of (m_files v) virtualPath)"

definition readFile :: "NameHash \<Rightarrow> VolumeFileSystem \<Rightarrow> Disk \<Rightarrow> u8 list option \<times> Disk" where
  "readFile virtualPath v d =
     (case readFileRecordLocked virtualPath v of
        None \<Rightarrow> (None, d)
      | Some record \<Rightarrow>
          if rec_size record > usize_max then (None, d)
          else if rec_size record = 0 then (Some [], d)
          else readBytesLocked v (rec_offset record) (rec_size record) d)"

definition removeFile :: "NameHash \<Rightarrow> VolumeFileSystem \<Rightarrow> Disk \<Rightarrow> bool \<times> VolumeFileSystem \<times> Disk" where
  "removeFile virtualPath v d =
     (if \<not> m_mounted v \<or> \<not> m_writable v then (False, v, d)
      else if IsZeroHash virtualPath then (False, v, d)
      else case map_of (m_files v) virtualPath of
          None \<Rightarrow> (False, v, d)
        | Some removedRecord \<Rightarrow>
            case flushMetadataLocked (v\<lparr>m_files := AList.delete virtualPath (m_files v)\<rparr>) d of
              (True, v1, d1) \<Rightarrow> (True, v1, d1)
            | (False, v1, d1) \<Rightarrow> (False, v1\<lparr>m_files := AList.update virtualPath removedRecord (m_files v1)\<rparr>, d1))"

definition fileExists :: "NameHash \<Rightarrow> VolumeFileSystem \<Rightarrow> bool" where
  "fileExists virtualPath v =
     (if \<not> m_mounted v then False else if IsZeroHash virtualPath then False else map_of (m_files v) virtualPath \<noteq> None)"

definition fileSize :: "NameHash \<Rightarrow> VolumeFileSystem \<Rightarrow> nat option" where
  "fileSize virtualPath v =
     (if \<not> m_mounted v then None
      else if IsZeroHash virtualPath then None
      else map_option rec_size (map_of (m_files v) virtualPath))"

definition listFiles :: "VolumeFileSystem \<Rightarrow> NameHash list" where
  "listFiles v = map fst (sort_records (m_files v))"

fun total_bytes :: "Files \<Rightarrow> nat \<Rightarrow> nat option" where
  "total_bytes [] totalUsed = Some totalUsed"
| "total_bytes ((_, record) # files) totalUsed =
     (case add_u64 totalUsed (rec_size record) of None \<Rightarrow> None | Some n \<Rightarrow> total_bytes files n)"

definition usedBytes :: "VolumeFileSystem \<Rightarrow> nat" where
  "usedBytes v = (case total_bytes (m_files v) 0 of None \<Rightarrow> u64_max | Some n \<Rightarrow> n)"

definition wastedBytes :: "VolumeFileSystem \<Rightarrow> nat" where
  "wastedBytes v =
     (if m_nextFreeOffset v \<le> m_metadataBytes v then 0
      else case total_bytes (m_files v) 0 of
          None \<Rightarrow> 0
        | Some totalUsedBytes \<Rightarrow>
            let payloadSpan = m_nextFreeOffset v - m_metadataBytes v
            in if totalUsedBytes \<ge> payloadSpan then 0 else payloadSpan - totalUsedBytes)"

section \<open>Compaction\<close>

record FileLayout =
  l_path :: NameHash
  l_sourceOffset :: nat
  l_destinationOffset :: nat
  l_size :: nat

text \<open>The layouts as the files come, then the plan over the layouts in the order of their offsets.\<close>

fun gather_layouts :: "VolumeFileSystem \<Rightarrow> Files \<Rightarrow> FileLayout list \<Rightarrow> FileLayout list option" where
  "gather_layouts v [] layouts = Some layouts"
| "gather_layouts v ((path, record) # files) layouts =
     (case add_u64 (rec_offset record) (rec_size record) of
        None \<Rightarrow> None
      | Some endOffset \<Rightarrow>
          if rec_offset record < m_metadataBytes v then None
          else if endOffset > m_nextFreeOffset v then None
          else gather_layouts v files
            (layouts @ [\<lparr>l_path = path, l_sourceOffset = rec_offset record, l_destinationOffset = 0, l_size = rec_size record\<rparr>]))"

fun plan_layouts :: "FileLayout list \<Rightarrow> nat \<Rightarrow> nat \<Rightarrow> FileLayout list \<Rightarrow> (FileLayout list \<times> nat) option" where
  "plan_layouts [] compactedWriteOffset previousSourceEnd planned = Some (planned, compactedWriteOffset)"
| "plan_layouts (layout # layouts) compactedWriteOffset previousSourceEnd planned =
     (if l_sourceOffset layout < previousSourceEnd then None
      else case add_u64 (l_sourceOffset layout) (l_size layout) of
          None \<Rightarrow> None
        | Some sourceEnd \<Rightarrow>
      case add_u64 compactedWriteOffset (l_size layout) of
          None \<Rightarrow> None
        | Some writeOffset \<Rightarrow>
            plan_layouts layouts writeOffset sourceEnd (planned @ [layout\<lparr>l_destinationOffset := compactedWriteOffset\<rparr>]))"

fun move_layouts :: "FileLayout list \<Rightarrow> VolumeFileSystem \<Rightarrow> Disk \<Rightarrow> bool \<times> VolumeFileSystem \<times> Disk" where
  "move_layouts [] v d = (True, v, d)"
| "move_layouts (layout # layouts) v d =
     (if l_size layout = 0 \<or> l_destinationOffset layout = l_sourceOffset layout then move_layouts layouts v d
      else case moveBytesLocked (l_destinationOffset layout) (l_sourceOffset layout) (l_size layout) v d of
          (False, v1, d1) \<Rightarrow> (False, v1, d1)
        | (True, v1, d1) \<Rightarrow> move_layouts layouts v1 d1)"

definition apply_layouts :: "FileLayout list \<Rightarrow> Files \<Rightarrow> Files" where
  "apply_layouts layouts files =
     foldl (\<lambda>fs l. AList.update (l_path l) \<lparr>rec_offset = l_destinationOffset l, rec_size = l_size l\<rparr> fs) files layouts"

text \<open>
  \<open>Sort\<close> orders the layouts by their source offsets and leaves the order of equal ones open, so the
  sorting function is a parameter.
\<close>

definition compact ::
    "(FileLayout list \<Rightarrow> FileLayout list) \<Rightarrow> bool \<Rightarrow> VolumeFileSystem \<Rightarrow> Disk \<Rightarrow> bool \<times> VolumeFileSystem \<times> Disk" where
  "compact Sort shrinkSegments v d =
     (if \<not> m_mounted v \<or> \<not> m_writable v then (False, v, d)
      else case gather_layouts v (m_files v) [] of
          None \<Rightarrow> (False, v, d)
        | Some layouts \<Rightarrow>
      case plan_layouts (Sort layouts) (m_metadataBytes v) (m_metadataBytes v) [] of
          None \<Rightarrow> (False, v, d)
        | Some (planned, compactedWriteOffset) \<Rightarrow>
      case move_layouts planned v d of
          (False, v1, d1) \<Rightarrow> (False, v1, d1)
        | (True, v1, d1) \<Rightarrow>
      case flushMetadataLocked (v1\<lparr>m_files := apply_layouts planned (m_files v1), m_nextFreeOffset := compactedWriteOffset\<rparr>) d1 of
          (False, v2, d2) \<Rightarrow> (False, v2\<lparr>m_files := m_files v1, m_nextFreeOffset := m_nextFreeOffset v1\<rparr>, d2)
        | (True, v2, d2) \<Rightarrow>
            if \<not> shrinkSegments then (True, v2, d2)
            else trimSegmentsForNextFreeOffsetLocked v2 d2)"

section \<open>Mounting\<close>

datatype VolumeUsage = RuntimeReadOnly | RuntimeReadWrite | CookWrite

record VolumeMountDesc =
  desc_volumeName :: "u8 list"
  desc_segmentSize :: nat
  desc_metadataSize :: nat
  desc_maxSegments :: nat
  desc_createIfMissing :: bool
  desc_usage :: VolumeUsage

definition ValidVolumeName :: "u8 list \<Rightarrow> bool" where
  "ValidVolumeName volumeName =
     (volumeName \<noteq> [] \<and> list_all (\<lambda>ch. IsAsciiAlphaNumeric ch \<or> ch = 95 \<or> ch = 45) volumeName)"

definition unmountLocked :: "VolumeFileSystem \<Rightarrow> VolumeFileSystem" where
  "unmountLocked v = v\<lparr>m_mounted := False, m_writable := False, m_segmentSize := 0, m_metadataBytes := 0,
     m_nextFreeOffset := 0, m_maxSegments := 0, m_segmentPaths := [], m_files := []\<rparr>"

text \<open>Whether a segment file exists: \<open>None\<close> when the call fails.\<close>

definition FileExists :: "nat \<Rightarrow> Disk \<Rightarrow> bool option \<times> Disk" where
  "FileExists path d = (let (r, d1) = syscall d in (if r = Done then Some (file_at d path \<noteq> None) else None, d1))"

lemma file_at_key: "file_at d i \<noteq> None \<Longrightarrow> i \<in> fst ` set (d_segments d)"
  by (metis file_at_def map_of_eq_None_iff)

function scan_loop :: "nat \<Rightarrow> nat list \<Rightarrow> Disk \<Rightarrow> bool \<times> nat list \<times> Disk" where
  "scan_loop segmentIndex paths d =
     (let (r, d1) = syscall d
      in if r \<noteq> Done then (False, paths, d1)
         else if file_at d segmentIndex = None then (True, paths, d1)
         else let (regular, d2) = syscall d1
           in if regular \<noteq> Done then (False, paths, d2)
              else if segmentIndex \<ge> usize_max then (False, paths @ [segmentIndex], d2)
              else scan_loop (segmentIndex + 1) (paths @ [segmentIndex]) d2)"
  by pat_completeness auto
termination
proof (relation "measure (\<lambda>(i, _, d). card {j \<in> fst ` set (d_segments d). i \<le> j})", goal_cases)
  case (2 i paths d x r d1 y q d2)
  then have s: "d_segments d2 = d_segments d" by (auto dest!: syscall_segments [OF sym])
  have "i \<in> fst ` set (d_segments d)" using 2(4) file_at_key by auto
  then have "i \<in> {j \<in> fst ` set (d_segments d). i \<le> j} - {j \<in> fst ` set (d_segments d). i + 1 \<le> j}" by simp
  moreover have "{j \<in> fst ` set (d_segments d). i + 1 \<le> j} \<subseteq> {j \<in> fst ` set (d_segments d). i \<le> j}" by auto
  ultimately have "{j \<in> fst ` set (d_segments d). i + 1 \<le> j} \<subset> {j \<in> fst ` set (d_segments d). i \<le> j}" by blast
  then have "card {j \<in> fst ` set (d_segments d). i + 1 \<le> j} < card {j \<in> fst ` set (d_segments d). i \<le> j}"
    by (rule psubset_card_mono [rotated]) simp
  then show ?case using s by simp
qed simp

declare scan_loop.simps [simp del]

definition scanSegmentsLocked :: "VolumeFileSystem \<Rightarrow> Disk \<Rightarrow> bool \<times> VolumeFileSystem \<times> Disk" where
  "scanSegmentsLocked v d = (let (ok, paths, d1) = scan_loop 0 [] d in (ok, v\<lparr>m_segmentPaths := paths\<rparr>, d1))"

definition ReadVolumeHeaderFromSegment :: "nat \<Rightarrow> Disk \<Rightarrow> VolumeHeaderDisk option \<times> Disk" where
  "ReadVolumeHeaderFromSegment path d =
     (let (opened, d1) = syscall d
      in case file_at d path of
           None \<Rightarrow> (None, d1)
         | Some f \<Rightarrow>
             if opened \<noteq> Done then (None, d1)
             else let (r, d2) = syscall d1; b = take sizeof_header f
               in if r \<noteq> Done \<or> length b \<noteq> sizeof_header then (None, d2) else (Some (header_of b), d2))"

text \<open>The sizes of the segment files: every one but the last is full.\<close>

fun check_segment_sizes :: "nat \<Rightarrow> nat list \<Rightarrow> Disk \<Rightarrow> bool \<times> Disk" where
  "check_segment_sizes segmentSize [] d = (True, d)"
| "check_segment_sizes segmentSize (path # paths) d =
     (case FileSize path d of
        (None, d1) \<Rightarrow> (False, d1)
      | (Some n, d1) \<Rightarrow>
          if n = 0 then (False, d1)
          else if paths \<noteq> [] \<and> n \<noteq> segmentSize then (False, d1)
          else if paths = [] \<and> n > segmentSize then (False, d1)
          else check_segment_sizes segmentSize paths d1)"

text \<open>The directory of the volume: there, created, or the mount fails without unmounting.\<close>

definition mount_directory :: "VolumeMountDesc \<Rightarrow> bool \<Rightarrow> Disk \<Rightarrow> bool \<times> Disk" where
  "mount_directory desc isWritable d =
     (let (r, d1) = syscall d
      in if r \<noteq> Done then (False, d1)
         else if d_directory d1 = Missing then
           if \<not> desc_createIfMissing desc \<or> \<not> isWritable then (False, d1)
           else let (made, d2) = syscall d1
             in if made \<noteq> Done then (False, d2) else (True, d2\<lparr>d_directory := Directory\<rparr>)
         else let (asked, d2) = syscall d1 in (asked = Done \<and> d_directory d2 = Directory, d2))"

text \<open>A new volume: one empty segment with its metadata.\<close>

definition mount_new :: "VolumeMountDesc \<Rightarrow> VolumeFileSystem \<Rightarrow> Disk \<Rightarrow> bool \<times> VolumeFileSystem \<times> Disk" where
  "mount_new desc v d =
     (if \<not> desc_createIfMissing desc \<or> \<not> m_writable v \<or> desc_segmentSize desc = 0 then (False, v, d)
      else let v = v\<lparr>m_segmentSize := desc_segmentSize desc\<rparr>;
               v = v\<lparr>m_metadataBytes := (if desc_metadataSize desc = 0 then DefaultMetadataBytes (m_segmentSize v)
                                          else desc_metadataSize desc)\<rparr>
        in if m_metadataBytes v \<le> sizeof_header \<or> m_metadataBytes v \<ge> m_segmentSize v then (False, v, d)
           else case createSegmentLocked 0 (v\<lparr>m_nextFreeOffset := m_metadataBytes v\<rparr>) d of
               (False, v1, d1) \<Rightarrow> (False, v1, d1)
             | (True, v1, d1) \<Rightarrow> flushMetadataLocked v1 d1)"

definition mount_existing :: "VolumeMountDesc \<Rightarrow> VolumeFileSystem \<Rightarrow> Disk \<Rightarrow> bool \<times> VolumeFileSystem \<times> Disk" where
  "mount_existing desc v d =
     (case ReadVolumeHeaderFromSegment (m_segmentPaths v ! 0) d of
        (None, d1) \<Rightarrow> (False, v, d1)
      | (Some discovered, d1) \<Rightarrow>
          if h_magic discovered \<noteq> s_VolumeMagic then (False, v, d1)
          else if h_segmentSize discovered = 0 then (False, v, d1)
          else let v = v\<lparr>m_segmentSize := h_segmentSize discovered\<rparr>
            in case check_segment_sizes (m_segmentSize v) (m_segmentPaths v) d1 of
                 (False, d2) \<Rightarrow> (False, v, d2)
               | (True, d2) \<Rightarrow>
            case FileSize (m_segmentPaths v ! 0) d2 of
                 (None, d3) \<Rightarrow> (False, v, d3)
               | (Some firstSegmentFileSize, d3) \<Rightarrow>
                   if firstSegmentFileSize < sizeof_header then (False, v, d3)
                   else if desc_segmentSize desc \<noteq> 0 \<and> desc_segmentSize desc \<noteq> m_segmentSize v then (False, v, d3)
                   else case loadMetadataLocked v d3 of
                       (False, v1, d4) \<Rightarrow> (False, v1, d4)
                     | (True, v1, d4) \<Rightarrow>
                         (\<not> (desc_metadataSize desc \<noteq> 0 \<and> desc_metadataSize desc \<noteq> m_metadataBytes v1), v1, d4))"

definition mount :: "VolumeMountDesc \<Rightarrow> VolumeFileSystem \<Rightarrow> Disk \<Rightarrow> bool \<times> VolumeFileSystem \<times> Disk" where
  "mount desc v d =
     (let v = unmountLocked v
      in if \<not> ValidVolumeName (desc_volumeName desc) then (False, v, d)
         else let v = v\<lparr>m_writable := (desc_usage desc \<noteq> RuntimeReadOnly), m_maxSegments := desc_maxSegments desc\<rparr>
           in case mount_directory desc (m_writable v) d of
                (False, d1) \<Rightarrow> (False, v, d1)
              | (True, d1) \<Rightarrow>
           case scanSegmentsLocked v d1 of
                (False, v1, d2) \<Rightarrow> (False, unmountLocked v1, d2)
              | (True, v1, d2) \<Rightarrow>
           case (if m_segmentPaths v1 = [] then mount_new desc v1 d2 else mount_existing desc v1 d2) of
                (False, v2, d3) \<Rightarrow> (False, unmountLocked v2, d3)
              | (True, v2, d3) \<Rightarrow>
                  if m_maxSegments v2 \<noteq> 0 \<and> length (m_segmentPaths v2) > m_maxSegments v2
                  then (False, unmountLocked v2, d3)
                  else (True, v2\<lparr>m_mounted := True\<rparr>, d3))"

section \<open>Sessions\<close>

text \<open>Removing the segments of a volume, in order, up to the first that is not there.\<close>

function remove_loop :: "nat \<Rightarrow> Disk \<Rightarrow> bool \<times> Disk" where
  "remove_loop segmentIndex d =
     (case FileExists segmentIndex d of
        (None, d1) \<Rightarrow> (False, d1)
      | (Some False, d1) \<Rightarrow> (True, d1)
      | (Some True, d1) \<Rightarrow>
          case RemoveFile segmentIndex d1 of
            (False, d2) \<Rightarrow> (False, d2)
          | (True, d2) \<Rightarrow> if segmentIndex \<ge> usize_max then (False, d2) else remove_loop (segmentIndex + 1) d2)"
  by pat_completeness auto
termination by (relation "measure (\<lambda>(i, _). usize_max + 1 - i)") auto

declare remove_loop.simps [simp del]

definition RemoveExistingVolumeSegments :: "Disk \<Rightarrow> bool \<times> Disk" where
  "RemoveExistingVolumeSegments d =
     (let (r, d1) = syscall d
      in if r \<noteq> Done then (False, d1)
         else if d_directory d1 = Missing then (True, d1)
         else let (asked, d2) = syscall d1
           in if asked \<noteq> Done \<or> d_directory d2 \<noteq> Directory then (False, d2) else remove_loop 0 d2)"

definition RemoveVolumeSegments :: "u8 list \<Rightarrow> Disk \<Rightarrow> bool \<times> Disk" where
  "RemoveVolumeSegments volumeName d =
     (if \<not> ValidVolumeName volumeName then (False, d) else RemoveExistingVolumeSegments d)"

record VolumeBuildConfig =
  config_volumeName :: "u8 list"
  config_segmentSize :: nat
  config_metadataSize :: nat

definition session_create :: "VolumeBuildConfig \<Rightarrow> VolumeFileSystem \<Rightarrow> Disk \<Rightarrow> bool \<times> VolumeFileSystem \<times> Disk" where
  "session_create config v d =
     (case RemoveExistingVolumeSegments d of
        (False, d1) \<Rightarrow> (False, v, d1)
      | (True, d1) \<Rightarrow>
          mount \<lparr>desc_volumeName = config_volumeName config, desc_segmentSize = config_segmentSize config,
            desc_metadataSize = config_metadataSize config, desc_maxSegments = 0, desc_createIfMissing = True,
            desc_usage = CookWrite\<rparr> v d1)"

definition session_load :: "u8 list \<Rightarrow> VolumeFileSystem \<Rightarrow> Disk \<Rightarrow> bool \<times> VolumeFileSystem \<times> Disk" where
  "session_load volumeName v d =
     (case cs_assign CompactString_new volumeName of
        (False, _) \<Rightarrow> (False, v, d)
      | (True, name) \<Rightarrow>
          mount \<lparr>desc_volumeName = cs_view name, desc_segmentSize = 0, desc_metadataSize = 0, desc_maxSegments = 0,
            desc_createIfMissing = False, desc_usage = RuntimeReadOnly\<rparr> v d)"

definition session_pushData :: "NameHash \<Rightarrow> u8 list \<Rightarrow> VolumeFileSystem \<Rightarrow> Disk \<Rightarrow> bool \<times> VolumeFileSystem \<times> Disk" where
  "session_pushData virtualPath data v d =
     (if \<not> m_mounted v then (False, v, d)
      else if \<not> (m_mounted v \<and> m_writable v) then (False, v, d)
      else if IsZeroHash virtualPath then (False, v, d)
      else writeFile virtualPath data v d)"

definition session_pushDataDeferred ::
    "NameHash \<Rightarrow> u8 list \<Rightarrow> VolumeFileSystem \<Rightarrow> Disk \<Rightarrow> bool \<times> VolumeFileSystem \<times> Disk" where
  "session_pushDataDeferred virtualPath data v d =
     (if \<not> m_mounted v then (False, v, d)
      else if \<not> (m_mounted v \<and> m_writable v) then (False, v, d)
      else if IsZeroHash virtualPath then (False, v, d)
      else writeFileDeferred virtualPath data v d)"

text \<open>The forms that take the text of a path.\<close>

definition session_pushData_text ::
    "u8 list \<Rightarrow> u8 list \<Rightarrow> VolumeFileSystem \<Rightarrow> Disk \<Rightarrow> bool \<times> VolumeFileSystem \<times> Disk" where
  "session_pushData_text virtualPath data v d =
     (if virtualPath = [] then (False, v, d)
      else let virtualPathName = ComputeNameHash_view virtualPath
        in if IsZeroHash virtualPathName then (False, v, d) else session_pushData virtualPathName data v d)"

definition session_pushDataDeferred_text ::
    "u8 list \<Rightarrow> u8 list \<Rightarrow> VolumeFileSystem \<Rightarrow> Disk \<Rightarrow> bool \<times> VolumeFileSystem \<times> Disk" where
  "session_pushDataDeferred_text virtualPath data v d =
     (if virtualPath = [] then (False, v, d)
      else let virtualPathName = ComputeNameHash_view virtualPath
        in if IsZeroHash virtualPathName then (False, v, d) else session_pushDataDeferred virtualPathName data v d)"

definition session_flush ::
    "(FileLayout list \<Rightarrow> FileLayout list) \<Rightarrow> VolumeFileSystem \<Rightarrow> Disk \<Rightarrow> bool \<times> VolumeFileSystem \<times> Disk" where
  "session_flush Sort v d =
     (if \<not> m_mounted v then (False, v, d)
      else if \<not> (m_mounted v \<and> m_writable v) then (False, v, d)
      else compact Sort True v d)"

definition session_loadData :: "NameHash \<Rightarrow> VolumeFileSystem \<Rightarrow> Disk \<Rightarrow> u8 list option \<times> Disk" where
  "session_loadData virtualPath v d =
     (if \<not> m_mounted v then (None, d)
      else if IsZeroHash virtualPath then (None, d)
      else readFile virtualPath v d)"

definition session_loadData_text :: "u8 list \<Rightarrow> VolumeFileSystem \<Rightarrow> Disk \<Rightarrow> u8 list option \<times> Disk" where
  "session_loadData_text virtualPath v d =
     (if \<not> m_mounted v then (None, d)
      else if virtualPath = [] then (None, d)
      else let virtualPathName = ComputeNameHash_view virtualPath
        in if IsZeroHash virtualPathName then (None, d) else readFile virtualPathName v d)"

end
