(* ===== verification/Volume_Files.thy ===== *)
theory Volume_Files
  imports Volume_Store
begin

text \<open>
  The volume file system keeps a map from names to contents: every operation on files, whichever call of
  the host fails in it, either has its effect on the map or leaves it as it was.
\<close>

section \<open>The abstract state\<close>

definition content :: "VolumeFileSystem \<Rightarrow> Disk \<Rightarrow> NameHash \<Rightarrow> u8 list option" where
  "content v d p =
     (if IsZeroHash p then None
      else map_option (\<lambda>r. bytes_at v d (rec_offset r) (rec_size r)) (map_of (m_files v) p))"

text \<open>The invariant: the records lie between the metadata and the free space, and all of it is on disk.\<close>

definition records_ok :: "VolumeFileSystem \<Rightarrow> bool" where
  "records_ok v \<longleftrightarrow> distinct (map fst (m_files v)) \<and>
     sizeof_header + sizeof_entry * length (m_files v) \<le> m_metadataBytes v \<and>
     (\<forall>p r. map_of (m_files v) p = Some r \<longrightarrow> length p = 8 \<and>
        m_metadataBytes v \<le> rec_offset r \<and> rec_offset r + rec_size r \<le> m_nextFreeOffset v)"

definition vol_inv :: "VolumeFileSystem \<Rightarrow> Disk \<Rightarrow> bool" where
  "vol_inv v d \<longleftrightarrow> segments_ok v \<and> m_segmentPaths v \<noteq> [] \<and> sizeof_header < m_metadataBytes v \<and>
     m_metadataBytes v < m_segmentSize v \<and> m_metadataBytes v \<le> m_nextFreeOffset v \<and>
     readable v d 0 (m_nextFreeOffset v) \<and> records_ok v"

text \<open>What may change without changing the files: the metadata area and the free space.\<close>

definition free_area :: "VolumeFileSystem \<Rightarrow> nat set" where
  "free_area v = {a. a < m_metadataBytes v \<or> m_nextFreeOffset v \<le> a}"

lemma inv_keeps:
  assumes "vol_inv v d" "extends v v1" "keeps X v d v1 d1" "X \<subseteq> free_area v"
  shows "vol_inv v1 d1" "content v1 d1 = content v d"
proof -
  note f = extends_fields [OF assms(2)]
  have "m_segmentPaths v1 \<noteq> []" using assms(1) f(8) by (auto simp: vol_inv_def)
  then show "vol_inv v1 d1"
    using assms(1) f keeps_readable [OF assms(3)] by (simp add: vol_inv_def records_ok_def)
  show "content v1 d1 = content v d"
  proof
    fix p
    show "content v1 d1 p = content v d p"
    proof (cases "map_of (m_files v) p")
      case (Some r)
      have r: "m_metadataBytes v \<le> rec_offset r" "rec_offset r + rec_size r \<le> m_nextFreeOffset v"
        using assms(1) Some by (auto simp: vol_inv_def records_ok_def)
      have "readable v d (rec_offset r) (rec_size r)"
        by (rule readable_mono [of v d 0 "m_nextFreeOffset v"]) (use assms(1) r in \<open>auto simp: vol_inv_def\<close>)
      then have "bytes_at v1 d1 (rec_offset r) (rec_size r) = bytes_at v d (rec_offset r) (rec_size r)"
        by (rule keeps_bytes [OF assms(3)]) (use assms(4) r in \<open>auto simp: free_area_def\<close>)
      then show ?thesis using Some f(5) by (simp add: content_def)
    qed (use f(5) in \<open>simp add: content_def\<close>)
  qed
qed

text \<open>Fields that the bytes do not depend on.\<close>

lemma byte_at_fields [simp]:
  "byte_at (v\<lparr>m_files := fs\<rparr>) d a = byte_at v d a" "byte_at (v\<lparr>m_nextFreeOffset := n\<rparr>) d a = byte_at v d a"
  by (simp_all add: byte_at_def split: option.split)

lemma bytes_fields [simp]:
  "readable (v\<lparr>m_files := fs\<rparr>) d a k = readable v d a k" "readable (v\<lparr>m_nextFreeOffset := n\<rparr>) d a k = readable v d a k"
  "bytes_at (v\<lparr>m_files := fs\<rparr>) d a k = bytes_at v d a k" "bytes_at (v\<lparr>m_nextFreeOffset := n\<rparr>) d a k = bytes_at v d a k"
  "segments_ok (v\<lparr>m_files := fs\<rparr>) = segments_ok v" "segments_ok (v\<lparr>m_nextFreeOffset := n\<rparr>) = segments_ok v"
  by (simp_all add: readable_def bytes_at_def segments_ok_def)

lemma keeps_fields [simp]:
  "keeps X (v\<lparr>m_files := fs\<rparr>) d v1 d1 = keeps X v d v1 d1"
  "keeps X (v\<lparr>m_nextFreeOffset := n\<rparr>) d v1 d1 = keeps X v d v1 d1"
  "keeps X v d (v1\<lparr>m_files := fs\<rparr>) d1 = keeps X v d v1 d1"
  "keeps X v d (v1\<lparr>m_nextFreeOffset := n\<rparr>) d1 = keeps X v d v1 d1"
  by (simp_all add: keeps_def)

text \<open>The invariant and the contents depend on the map of the files only.\<close>

lemma length_distinct_map: "distinct (map fst fs) \<Longrightarrow> length fs = card (dom (map_of fs))"
  by (metis distinct_card dom_map_of_conv_image_fst length_map list.set_map)

lemma inv_files:
  assumes "vol_inv v d" "map_of fs = map_of (m_files v)" "distinct (map fst fs)"
  shows "vol_inv (v\<lparr>m_files := fs\<rparr>) d" "content (v\<lparr>m_files := fs\<rparr>) d = content v d"
proof -
  have "length fs = length (m_files v)"
    using assms length_distinct_map [of fs] length_distinct_map [of "m_files v"] by (simp add: vol_inv_def records_ok_def)
  then show "vol_inv (v\<lparr>m_files := fs\<rparr>) d"
    using assms by (simp add: vol_inv_def records_ok_def)
  show "content (v\<lparr>m_files := fs\<rparr>) d = content v d"
    using assms(2) by (simp add: content_def fun_eq_iff)
qed

lemma inv_insert:
  assumes "vol_inv v d" "readable v d (m_nextFreeOffset v) n" "\<not> IsZeroHash p" "length p = 8"
    "sizeof_header + sizeof_entry * (if map_of (m_files v) p = None then length (m_files v) + 1 else length (m_files v)) \<le> m_metadataBytes v"
  defines "v1 \<equiv> v\<lparr>m_files := AList.update p \<lparr>rec_offset = m_nextFreeOffset v, rec_size = n\<rparr> (m_files v),
    m_nextFreeOffset := m_nextFreeOffset v + n\<rparr>"
  shows "vol_inv v1 d" "content v1 d = (content v d)(p \<mapsto> bytes_at v d (m_nextFreeOffset v) n)"
proof -
  let ?fs = "AList.update p \<lparr>rec_offset = m_nextFreeOffset v, rec_size = n\<rparr> (m_files v)"
  have dist: "distinct (map fst (m_files v))" using assms(1) by (simp add: vol_inv_def records_ok_def)
  have d1: "distinct (map fst ?fs)" using dist by (rule distinct_update)
  have "finite (dom (map_of (m_files v)))" by (rule finite_dom_map_of)
  then have len: "length ?fs = (if map_of (m_files v) p = None then length (m_files v) + 1 else length (m_files v))"
    using length_distinct_map [OF d1] length_distinct_map [OF dist] by (auto simp: update_conv' insert_absorb domIff card_insert_if)
  show "vol_inv v1 d"
    using assms(1,2,4,5) d1 len readable_append [of v d 0 "m_nextFreeOffset v" n]
    by (auto simp: v1_def vol_inv_def records_ok_def update_conv' trans_le_add1)
  show "content v1 d = (content v d)(p \<mapsto> bytes_at v d (m_nextFreeOffset v) n)"
    using assms(3) by (auto simp: v1_def content_def update_conv' fun_eq_iff)
qed

lemma inv_delete:
  assumes "vol_inv v d"
  shows "vol_inv (v\<lparr>m_files := AList.delete p (m_files v)\<rparr>) d"
    "content (v\<lparr>m_files := AList.delete p (m_files v)\<rparr>) d = (content v d)(p := None)"
proof -
  have "length (AList.delete p (m_files v)) \<le> length (m_files v)" by (rule length_delete_le)
  then have "sizeof_header + sizeof_entry * length (AList.delete p (m_files v)) \<le> m_metadataBytes v"
    using assms by (auto simp: vol_inv_def records_ok_def intro: order_trans [rotated])
  then show "vol_inv (v\<lparr>m_files := AList.delete p (m_files v)\<rparr>) d"
    using assms by (auto simp: vol_inv_def records_ok_def delete_conv' distinct_delete)
  show "content (v\<lparr>m_files := AList.delete p (m_files v)\<rparr>) d = (content v d)(p := None)"
    by (auto simp: content_def delete_conv' fun_eq_iff)
qed

section \<open>The metadata area\<close>

lemma length_header_bytes [simp]: "length (h_magic h) = 8 \<Longrightarrow> length (header_bytes h) = sizeof_header"
  by (simp add: header_bytes_def u64_bytes_def sizeof_header_def)

lemma length_metadata_buffer:
  assumes "sizeof_header + length (concat (map entry_bytes (sort_records (m_files v)))) \<le> m_metadataBytes v"
  shows "length (metadata_buffer v) = m_metadataBytes v"
  using assms by (simp add: metadata_buffer_def Let_def s_VolumeMagic_def)

text \<open>A flush writes the metadata area, if it writes anything.\<close>

lemma flush_cases:
  assumes "flushMetadataLocked v d = (b, v1, d1)"
  obtains "\<not> b" "v1 = v" "d1 = d"
  | "writeBytesLocked 0 (metadata_buffer v) v d = (b, v1, d1)" "length (metadata_buffer v) = m_metadataBytes v"
      "sizeof_header + length (concat (map entry_bytes (sort_records (m_files v)))) \<le> m_metadataBytes v"
      "length (concat (map entry_bytes (sort_records (m_files v)))) = length (m_files v) * sizeof_entry"
proof -
  have "(\<not> b \<and> v1 = v \<and> d1 = d) \<or>
    (writeBytesLocked 0 (metadata_buffer v) v d = (b, v1, d1) \<and>
      sizeof_header + length (concat (map entry_bytes (sort_records (m_files v)))) \<le> m_metadataBytes v \<and>
      length (concat (map entry_bytes (sort_records (m_files v)))) = length (m_files v) * sizeof_entry)"
    using assms unfolding flushMetadataLocked_def Let_def add_u64_def ComputeVolumeIndexBytes_def
    by (simp split: if_splits option.splits)
  then show thesis using that length_metadata_buffer by blast
qed

lemma flush_effect:
  assumes "flushMetadataLocked v d = (b, v1, d1)" "segments_ok v"
  shows "extends v v1 \<and> keeps {0..<m_metadataBytes v} v d v1 d1"
  using assms(1)
proof (cases rule: flush_cases)
  case 1
  then show ?thesis using assms(2) by (simp add: extends_refl keeps_same)
next
  case 2
  then show ?thesis using writeBytes_effect [OF assms(2) 2(1)] by simp
qed

section \<open>What an operation does to the files\<close>

text \<open>The state before, up to the map of the files.\<close>

lemma inv_same:
  assumes "vol_inv v d" "extends v v1" "keeps (free_area v) v d v1 d1" "map_of fs = map_of (m_files v)" "distinct (map fst fs)"
  shows "vol_inv (v1\<lparr>m_files := fs\<rparr>) d1 \<and> content (v1\<lparr>m_files := fs\<rparr>) d1 = content v d"
proof -
  have "vol_inv v1 d1" "content v1 d1 = content v d" using inv_keeps [OF assms(1-3)] by auto
  then show ?thesis using inv_files [of v1 d1 fs] assms(4,5) extends_fields(5) [OF assms(2)] by simp
qed

lemma keeps_free: "keeps X v d v1 d1 \<Longrightarrow> X \<subseteq> free_area v \<Longrightarrow> keeps (free_area v) v d v1 d1"
  by (rule keeps_mono)

lemma flush_inv:
  assumes "vol_inv v d" "flushMetadataLocked v d = (b, v1, d1)"
  shows "vol_inv v1 d1 \<and> content v1 d1 = content v d \<and> extends v v1"
proof -
  have "extends v v1" "keeps {0..<m_metadataBytes v} v d v1 d1"
    using flush_effect [OF assms(2)] assms(1) by (simp_all add: vol_inv_def)
  moreover have "{0..<m_metadataBytes v} \<subseteq> free_area v" by (auto simp: free_area_def)
  ultimately show ?thesis using inv_keeps [OF assms(1)] by blast
qed

text \<open>The metadata area holds the index of the volume.\<close>

definition stored :: "VolumeFileSystem \<Rightarrow> Disk \<Rightarrow> bool" where
  "stored v d \<longleftrightarrow> bytes_at v d 0 (m_metadataBytes v) = metadata_buffer v"

lemma flush_stored:
  assumes "vol_inv v d" "flushMetadataLocked v d = (True, v1, d1)"
  shows "stored v1 d1"
  using assms(2)
proof (cases rule: flush_cases)
  case 2
  have ok: "segments_ok v" using assms(1) by (simp add: vol_inv_def)
  have e: "extends v v1" "bytes_at v1 d1 0 (m_metadataBytes v) = metadata_buffer v"
    using writeBytes_effect [OF ok 2(1)] 2(2) by auto
  have "metadata_buffer v1 = metadata_buffer v" using extends_fields [OF e(1)] by (simp add: metadata_buffer_def)
  then show ?thesis using e extends_fields(2) [OF e(1)] by (simp add: stored_def)
qed simp

lemma writeFile_cases:
  assumes "writeFileLocked mode p data v d = (b, v1, d1)" "vol_inv v d"
  obtains "\<not> b" "extends v v1" "keeps (free_area v) v d v1 d1"
  | v2 d2 where "extends v v2" "keeps (free_area v) v d v2 d2" "readable v2 d2 (m_nextFreeOffset v) (length data)"
      "bytes_at v2 d2 (m_nextFreeOffset v) (length data) = data" "\<not> IsZeroHash p" "m_mounted v" "m_writable v"
      "sizeof_header + sizeof_entry * (if map_of (m_files v) p = None then length (m_files v) + 1 else length (m_files v)) \<le> m_metadataBytes v"
      "(let v3 = v2\<lparr>m_files := AList.update p \<lparr>rec_offset = m_nextFreeOffset v, rec_size = length data\<rparr> (m_files v),
                    m_nextFreeOffset := m_nextFreeOffset v + length data\<rparr>
        in if mode = Deferred then b \<and> v1 = v3 \<and> d1 = d2
           else \<exists>v4. flushMetadataLocked v3 d2 = (b, v4, d1) \<and>
             v1 = (if b then v4 else v4\<lparr>m_files := (case map_of (m_files v) p of
                                   Some previousRecord \<Rightarrow> AList.update p previousRecord (m_files v4)
                                 | None \<Rightarrow> AList.delete p (m_files v4)),
                               m_nextFreeOffset := m_nextFreeOffset v\<rparr>))"
proof -
  let ?n = "if map_of (m_files v) p = None then length (m_files v) + 1 else length (m_files v)"
  have ok: "segments_ok v" using assms(2) by (simp add: vol_inv_def)
  have same: "extends v v" "keeps (free_area v) v d v d" using ok by (simp_all add: extends_refl keeps_same)
  show thesis
  proof (cases "m_mounted v \<and> m_writable v \<and> \<not> IsZeroHash p \<and> ?n \<le> u64_max \<and> canFitMetadataForFileCountLocked ?n v \<and>
      m_nextFreeOffset v + length data \<le> u64_max")
    case False
    then have "\<not> b \<and> v1 = v \<and> d1 = d"
      using assms(1) unfolding writeFileLocked_def Let_def add_u64_def by (simp split: if_splits)
    then show thesis using that(1) same by simp
  next
    case go: True
    have fits: "sizeof_header + sizeof_entry * ?n \<le> m_metadataBytes v"
      using go by (auto simp: canFitMetadataForFileCountLocked_def ComputeVolumeMetadataRequirement_def ComputeVolumeIndexBytes_def
          add_u64_def mult.commute split: option.splits if_splits)
    obtain e va da where e: "ensureCapacityLocked (m_nextFreeOffset v + length data) v d = (e, va, da)" by (metis prod_cases3)
    have w: "widens v d va da" using ensureCapacity_widens [OF ok e] by simp
    have va: "extends v va" "keeps {} v d va da" using w widens_extends widens_keeps by blast+
    have oka: "segments_ok va" using va(1) by (rule extends_fields(10))
    obtain wb vb db where wr: "(if data = [] then (True, va, da) else writeBytesLocked (m_nextFreeOffset v) data va da) = (wb, vb, db)"
      by (metis prod_cases3)
    have we: "extends va vb" "keeps {m_nextFreeOffset v..<m_nextFreeOffset v + length data} va da vb db"
      "wb \<Longrightarrow> readable vb db (m_nextFreeOffset v) (length data) \<and> bytes_at vb db (m_nextFreeOffset v) (length data) = data"
      using wr writeBytes_effect [OF oka, of "m_nextFreeOffset v" data da wb vb db] oka
      by (auto simp: extends_refl keeps_same readable_def bytes_at_def split: if_splits)
    have xb: "extends v vb" using va(1) we(1) by (rule extends_trans)
    have kb: "keeps (free_area v) v d vb db"
      by (rule keeps_trans [OF va(2) we(2)]) (auto simp: free_area_def)
    show thesis
    proof (cases "e \<and> wb")
      case False
      then have "\<not> b \<and> ((v1 = va \<and> d1 = da) \<or> (v1 = vb \<and> d1 = db))"
        using assms(1) go e wr unfolding writeFileLocked_def Let_def add_u64_def by (auto split: bool.splits)
      then show thesis using that(1) va xb kb keeps_mono [OF va(2), of "free_area v"] by auto
    next
      case True
      have files: "m_files vb = m_files v" using xb by (rule extends_fields(5))
      show thesis
      proof (rule that(2) [OF xb kb])
        show "(let v3 = vb\<lparr>m_files := AList.update p \<lparr>rec_offset = m_nextFreeOffset v, rec_size = length data\<rparr> (m_files v),
                    m_nextFreeOffset := m_nextFreeOffset v + length data\<rparr>
          in if mode = Deferred then b \<and> v1 = v3 \<and> d1 = db
             else \<exists>v4. flushMetadataLocked v3 db = (b, v4, d1) \<and>
               v1 = (if b then v4 else v4\<lparr>m_files := (case map_of (m_files v) p of
                                     Some previousRecord \<Rightarrow> AList.update p previousRecord (m_files v4)
                                   | None \<Rightarrow> AList.delete p (m_files v4)),
                                 m_nextFreeOffset := m_nextFreeOffset v\<rparr>))"
          using assms(1) go e wr True files unfolding writeFileLocked_def Let_def add_u64_def
          by (auto split: bool.splits prod.splits if_splits)
      qed (use go fits True we(3) in simp_all)
    qed
  qed
qed

lemma writeFile_spec:
  assumes "vol_inv v d" "length p = 8" "writeFileLocked mode p data v d = (b, v1, d1)"
  shows "vol_inv v1 d1 \<and> m_mounted v1 = m_mounted v \<and> content v1 d1 = (if b then (content v d)(p \<mapsto> data) else content v d) \<and>
    (b \<and> mode = Immediate \<longrightarrow> stored v1 d1)"
  using assms(3,1)
proof (cases rule: writeFile_cases)
  case 1
  then show ?thesis using inv_keeps [OF assms(1), of v1 "free_area v" d1] by (simp add: extends_fields)
next
  case (2 v2 d2)
  note f2 = extends_fields [OF 2(1)]
  define v3 where "v3 = v2\<lparr>m_files := AList.update p \<lparr>rec_offset = m_nextFreeOffset v, rec_size = length data\<rparr> (m_files v),
    m_nextFreeOffset := m_nextFreeOffset v + length data\<rparr>"
  have v2: "vol_inv v2 d2" "content v2 d2 = content v d" using inv_keeps [OF assms(1) 2(1,2)] by auto
  have v3: "vol_inv v3 d2" "content v3 d2 = (content v d)(p \<mapsto> data)"
    using inv_insert [OF v2(1) _ 2(5) assms(2), of "length data"] 2(3,4,8) v2(2) unfolding v3_def f2 by simp_all
  show ?thesis
  proof (cases "mode = Deferred")
    case True
    then show ?thesis using 2(9) v3 f2(6) by (simp add: Let_def v3_def)
  next
    case False
    define fs where "fs v4 = (case map_of (m_files v) p of
        Some previousRecord \<Rightarrow> AList.update p previousRecord (m_files v4) | None \<Rightarrow> AList.delete p (m_files v4))" for v4 :: VolumeFileSystem
    obtain v4 where v4: "flushMetadataLocked v3 d2 = (b, v4, d1)"
        "v1 = (if b then v4 else v4\<lparr>m_files := fs v4, m_nextFreeOffset := m_nextFreeOffset v\<rparr>)"
      using 2(9) False by (auto simp: Let_def v3_def fs_def)
    note fl = flush_inv [OF v3(1) v4(1)]
    note f4 = extends_fields [OF fl [THEN conjunct2, THEN conjunct2]]
    show ?thesis
    proof (cases b)
      case True
      then have "stored v1 d1" using v4 flush_stored [OF v3(1)] by simp
      then show ?thesis using True v4(2) fl v3(2) f4(6) f2(6) by (simp add: v3_def)
    next
      case failed: False
      let ?v = "v4\<lparr>m_files := m_files v, m_nextFreeOffset := m_nextFreeOffset v\<rparr>"
      have "extends v ?v"
        using 2(1) fl unfolding extends_def v3_def by (cases v, cases v2, cases v4) (simp add: segments_ok_def)
      moreover have "keeps (free_area v) v d ?v d1"
      proof -
        have "keeps {0..<m_metadataBytes v} v2 d2 v4 d1"
          using flush_effect [OF v4(1)] v3(1) f2(2) by (simp add: v3_def vol_inv_def)
        then have "keeps (free_area v) v d v4 d1" by (rule keeps_trans [OF 2(2)]) (auto simp: free_area_def)
        then show ?thesis by simp
      qed
      moreover have "m_files v4 = AList.update p \<lparr>rec_offset = m_nextFreeOffset v, rec_size = length data\<rparr> (m_files v)"
        using f4(5) by (simp add: v3_def)
      then have "map_of (fs v4) = map_of (m_files v)" "distinct (map fst (fs v4))"
        using assms(1) by (auto simp: fs_def update_conv' delete_conv' vol_inv_def records_ok_def fun_eq_iff
            intro: distinct_update distinct_delete split: option.splits)
      ultimately have "vol_inv (?v\<lparr>m_files := fs v4\<rparr>) d1 \<and> content (?v\<lparr>m_files := fs v4\<rparr>) d1 = content v d"
        using inv_same [OF assms(1), of ?v d1 "fs v4"] by simp
      moreover have "?v\<lparr>m_files := fs v4\<rparr> = v4\<lparr>m_files := fs v4, m_nextFreeOffset := m_nextFreeOffset v\<rparr>" by (cases v4) simp
      ultimately show ?thesis using failed v4(2) f4(6) f2(6) by (simp add: v3_def)
    qed
  qed
qed

lemma removeFile_spec:
  assumes "vol_inv v d" "removeFile p v d = (b, v1, d1)"
  shows "vol_inv v1 d1 \<and> m_mounted v1 = m_mounted v \<and>
    (if b then content v d p \<noteq> None \<and> content v1 d1 = (content v d)(p := None) else content v1 d1 = content v d)"
proof (cases "m_mounted v \<and> m_writable v \<and> \<not> IsZeroHash p \<and> map_of (m_files v) p \<noteq> None")
  case False
  then have "\<not> b \<and> v1 = v \<and> d1 = d" using assms(2) by (auto simp: removeFile_def split: if_splits)
  then show ?thesis using assms(1) by simp
next
  case True
  then obtain r where r: "map_of (m_files v) p = Some r" by auto
  let ?v = "v\<lparr>m_files := AList.delete p (m_files v)\<rparr>"
  obtain v2 where f: "flushMetadataLocked ?v d = (b, v2, d1)"
      "v1 = (if b then v2 else v2\<lparr>m_files := AList.update p r (m_files v2)\<rparr>)"
    using assms(2) True r by (auto simp: removeFile_def split: bool.splits prod.splits)
  note fl = flush_inv [OF inv_delete(1) [OF assms(1)] f(1)]
  note f2 = extends_fields [OF fl [THEN conjunct2, THEN conjunct2]]
  show ?thesis
  proof (cases b)
    case b: True
    then show ?thesis using f(2) fl f2(6) r True inv_delete(2) [OF assms(1), of p] by (simp add: content_def)
  next
    case failed: False
    let ?w = "v2\<lparr>m_files := m_files v\<rparr>"
    have "extends v ?w" using fl unfolding extends_def by (cases v, cases v2) (simp add: segments_ok_def)
    moreover have "keeps (free_area v) v d ?w d1"
    proof -
      have "keeps {0..<m_metadataBytes v} v d v2 d1" using flush_effect [OF f(1)] assms(1) by (simp add: vol_inv_def)
      then have "keeps (free_area v) v d v2 d1" by (rule keeps_mono) (auto simp: free_area_def)
      then show ?thesis by simp
    qed
    moreover have "m_files v2 = AList.delete p (m_files v)" using f2(5) by simp
    then have "map_of (AList.update p r (m_files v2)) = map_of (m_files v)" "distinct (map fst (AList.update p r (m_files v2)))"
      using assms(1) r by (auto simp: update_conv' delete_conv' vol_inv_def records_ok_def fun_eq_iff
          intro: distinct_update distinct_delete)
    ultimately have "vol_inv (?w\<lparr>m_files := AList.update p r (m_files v2)\<rparr>) d1 \<and>
        content (?w\<lparr>m_files := AList.update p r (m_files v2)\<rparr>) d1 = content v d"
      using inv_same [OF assms(1)] by blast
    then show ?thesis using failed f(2) f2(6) by simp
  qed
qed

lemma readFile_spec:
  assumes "vol_inv v d" "m_mounted v" "readFile p v d = (r, d1)"
  shows "d_segments d1 = d_segments d \<and> (r = content v d p \<or> r = None)"
proof (cases "readFileRecordLocked p v")
  case None
  then show ?thesis using assms(3) by (simp add: readFile_def)
next
  case (Some x)
  then have x: "\<not> IsZeroHash p" "map_of (m_files v) p = Some x" using assms(2) by (auto simp: readFileRecordLocked_def split: if_splits)
  have c: "content v d p = Some (bytes_at v d (rec_offset x) (rec_size x))" using x by (simp add: content_def)
  show ?thesis
  proof (cases "rec_size x > usize_max \<or> rec_size x = 0")
    case True
    then show ?thesis using assms(3) Some c by (auto simp: readFile_def bytes_at_def)
  next
    case False
    then have "readBytesLocked v (rec_offset x) (rec_size x) d = (r, d1)" using assms(3) Some by (simp add: readFile_def)
    then show ?thesis using readBytes_result [of v "rec_offset x" "rec_size x" d r d1] assms(1) c by (cases r) (auto simp: vol_inv_def)
  qed
qed

section \<open>Sorted records\<close>

lemma insert_record_facts:
  "set (insert_record x ys) = insert x (set ys)" "length (insert_record x ys) = Suc (length ys)"
  "distinct (map fst (insert_record x ys)) \<longleftrightarrow> fst x \<notin> fst ` set ys \<and> distinct (map fst ys)"
proof -
  show s: "set (insert_record x ys) = insert x (set ys)" for ys by (induction ys) auto
  show "length (insert_record x ys) = Suc (length ys)" by (induction ys) auto
  show "distinct (map fst (insert_record x ys)) \<longleftrightarrow> fst x \<notin> fst ` set ys \<and> distinct (map fst ys)"
    by (induction ys) (auto simp: s)
qed

lemma sort_records_facts:
  "set (sort_records xs) = set xs" "length (sort_records xs) = length xs"
  "distinct (map fst (sort_records xs)) = distinct (map fst xs)"
proof -
  show s: "set (sort_records xs) = set xs" for xs :: "(NameHash \<times> 'a) list"
    by (induction xs) (simp_all add: sort_records_def insert_record_facts)
  show "length (sort_records xs) = length xs" by (induction xs) (simp_all add: sort_records_def insert_record_facts)
  show "distinct (map fst (sort_records xs)) = distinct (map fst xs)"
    using s by (induction xs) (simp_all add: sort_records_def insert_record_facts)
qed

lemma sorted_insert_record:
  "sorted_wrt LessNameHash (map fst ys) \<Longrightarrow> \<forall>y\<in>insert x (set ys). length (fst y) = 8 \<Longrightarrow> fst x \<notin> fst ` set ys \<Longrightarrow>
    sorted_wrt LessNameHash (map fst (insert_record x ys))"
proof (induction ys)
  case (Cons y ys)
  note set = insert_record_facts(1) [of x ys]
  show ?case
  proof (cases "LessNameHash (fst x) (fst y)")
    case True
    then show ?thesis using Cons.prems(1) less_lanes_trans by (auto simp: LessNameHash_def)
  next
    case False
    then have "LessNameHash (fst y) (fst x)"
      using Cons.prems(2,3) less_lanes_total [of "fst x" "fst y"] by (auto simp: LessNameHash_def)
    then show ?thesis using False Cons set by auto
  qed
qed simp

lemma sorted_sort_records:
  "distinct (map fst xs) \<Longrightarrow> \<forall>x\<in>set xs. length (fst x) = 8 \<Longrightarrow> sorted_wrt LessNameHash (map fst (sort_records xs))"
proof (induction xs)
  case (Cons x xs)
  then show ?case
    using sorted_insert_record [of "sort_records xs" x] sort_records_facts(1) [of xs] by (simp add: sort_records_def)
qed (simp add: sort_records_def)

text \<open>A small volume with one file of three bytes.\<close>

definition sample_volume :: VolumeFileSystem where
  "sample_volume = \<lparr>m_mounted = True, m_writable = True, m_segmentSize = 512, m_metadataBytes = 208, m_nextFreeOffset = 211,
     m_maxSegments = 0, m_segmentPaths = [0], m_files = [(LANE_SEEDS, \<lparr>rec_offset = 208, rec_size = 3\<rparr>)]\<rparr>"

definition sample_disk :: Disk where
  "sample_disk = \<lparr>d_directory = Directory, d_segments = [(0, replicate 208 0 @ [1, 2, 3] @ replicate 301 0)], d_faults = []\<rparr>"

lemma length_seeds [simp]: "length LANE_SEEDS = 8"
  by (simp add: LANE_SEEDS_def)

lemma sample_inv: "vol_inv sample_volume sample_disk"
  by (auto simp: vol_inv_def segments_ok_def readable_def byte_at_def file_at_def records_ok_def sample_volume_def sample_disk_def
      sizeof_header_def sizeof_entry_def)

end
