(* ===== verification/Volume_Live.thy ===== *)
theory Volume_Live
  imports Volume_Files
begin

text \<open>
  Without failures of the host the operations on files succeed whenever the volume has room: the
  segment files keep their shape, which every operation relies on.
\<close>

definition host_ok :: "'n Volume \<Rightarrow> Disk \<Rightarrow> bool" where
  "host_ok v d \<longleftrightarrow> d_faults d = [] \<and> exact v d \<and> m_segmentSize v \<le> stream_max \<and> capacity v \<le> u64_max"

lemma host_ok_fields [simp]:
  "host_ok (v\<lparr>m_files := fs\<rparr>) d = host_ok v d" "host_ok (v\<lparr>m_nextFreeOffset := n\<rparr>) d = host_ok v d"
  by (simp_all add: host_ok_def exact_def cong: option.case_cong)

text \<open>Room for \<open>n\<close> more bytes.\<close>

definition room_for :: "'n Volume \<Rightarrow> nat \<Rightarrow> bool" where
  "room_for v n \<longleftrightarrow> m_nextFreeOffset v + n + m_segmentSize v \<le> u64_max \<and>
     (m_maxSegments v = 0 \<or> m_nextFreeOffset v + n \<le> m_maxSegments v * m_segmentSize v)"

lemma room_for_has_room: "host_ok v d \<Longrightarrow> m_writable v \<Longrightarrow> room_for v n \<Longrightarrow> has_room v (m_nextFreeOffset v + n)"
  by (simp add: host_ok_def room_for_def has_room_def)

lemma inv_capacity: "vol_inv v d \<Longrightarrow> m_nextFreeOffset v \<le> capacity v"
  using readable_capacity [of v d 0 "m_nextFreeOffset v"] by (simp add: vol_inv_def)

section \<open>The flush\<close>

lemma length_entry_bytes: "length (fst e) = 8 \<Longrightarrow> length (entry_bytes e) = sizeof_entry"
  by (simp add: entry_bytes_def u64_bytes_def sizeof_entry_def length_concat comp_def sum_list_triv)

lemma length_index:
  "\<forall>e\<in>set es. length (fst e) = 8 \<Longrightarrow> length (concat (map entry_bytes es)) = length es * sizeof_entry"
  by (induction es) (simp_all add: length_entry_bytes)

lemma inv_index:
  assumes "vol_inv v d"
  shows "length (concat (map entry_bytes (sort_records (m_files v)))) = length (m_files v) * sizeof_entry"
proof -
  have "\<forall>e\<in>set (sort_records (m_files v)). length (fst e) = 8"
    using assms by (auto simp: vol_inv_def records_ok_def sort_records_facts(1))
  then show ?thesis by (simp add: length_index sort_records_facts(2))
qed

lemma flush_writes:
  assumes "vol_inv v d" "capacity v \<le> u64_max"
  shows "flushMetadataLocked v d = writeBytesLocked 0 (metadata_buffer v) v d"
proof -
  have m: "sizeof_header + sizeof_entry * length (m_files v) \<le> m_metadataBytes v" "m_metadataBytes v < m_segmentSize v"
    "m_metadataBytes v \<le> m_nextFreeOffset v" "m_segmentPaths v \<noteq> []" "segments_ok v"
    using assms(1) by (auto simp: vol_inv_def records_ok_def)
  have cap: "m_nextFreeOffset v \<le> capacity v" using assms(1) by (rule inv_capacity)
  have u: "sizeof_entry * length (m_files v) \<le> u64_max" using m cap assms(2) by linarith
  then have "\<not> length (m_files v) > u64_max div sizeof_entry"
    by (simp add: sizeof_entry_def less_eq_div_iff_mult_less_eq mult.commute not_less)
  moreover have "u64_max = usize_max" by (simp add: u64_max_def usize_max_def)
  ultimately show ?thesis
    using m cap u assms(2) inv_index [OF assms(1)]
    by (simp add: flushMetadataLocked_def Let_def computeLogicalCapacity_eq segments_ok_def ComputeVolumeIndexBytes_def add_u64_def
        mult.commute)
qed

lemma flush_ok:
  assumes "vol_inv v d" "host_ok v d" "flushMetadataLocked v d = (b, v1, d1)"
  shows "b \<and> v1 = v \<and> host_ok v d1"
proof -
  have cap: "capacity v \<le> u64_max" "m_metadataBytes v \<le> capacity v" "segments_ok v"
    using assms(1,2) inv_capacity [OF assms(1)] by (auto simp: host_ok_def vol_inv_def)
  have w: "writeBytesLocked 0 (metadata_buffer v) v d = (b, v1, d1)"
    using flush_writes [OF assms(1) cap(1)] assms(3) by simp
  have len: "length (metadata_buffer v) = m_metadataBytes v"
    using assms(1) inv_index [OF assms(1)] by (intro length_metadata_buffer) (simp add: vol_inv_def records_ok_def mult.commute)
  have "b \<and> d_faults d1 = []"
    using writeBytes_ok [OF cap(3) _ _ _ w] assms(2) len cap by (simp add: host_ok_def has_room_def)
  moreover have "v1 = v \<and> grows (m_segmentSize v) d d1"
    using writeBytes_within [OF cap(3) w] len cap by simp
  ultimately show ?thesis using assms(2) exact_grows [of v d d1] by (simp add: host_ok_def)
qed

section \<open>Files\<close>

lemma ensure_then_write:
  assumes "segments_ok v" "ensureCapacityLocked (c + length data) v d = (True, w, e)" "data \<noteq> []"
  shows "writeBytesLocked c data w e = writeBytesLocked c data v d"
proof -
  note en = ensureCapacity_widens [OF assms(1,2)]
  have "segments_ok w" using en widens_extends extends_fields(10) by blast
  then have "ensureCapacityLocked (c + length data) w e = (True, w, e)"
    using en by (simp add: ensureCapacityLocked.simps computeLogicalCapacity_eq segments_ok_def)
  moreover have "add_u64 c (length data) = Some (c + length data)" using en by (simp add: add_u64_def)
  ultimately show ?thesis using assms(2,3) by (simp add: writeBytesLocked_def)
qed

lemma writeFile_ok:
  assumes inv: "vol_inv v d" and host: "host_ok v d" and m: "m_mounted v" "m_writable v" and p: "length p = 8" "\<not> IsZeroHash p"
    and fits: "sizeof_header + sizeof_entry * (if map_of (m_files v) p = None then length (m_files v) + 1 else length (m_files v)) \<le> m_metadataBytes v"
    and room: "room_for v (length data)"
    and w: "writeFileLocked mode p data v d = (b, v1, d1)"
  shows "b \<and> host_ok v1 d1 \<and> extends
    (v\<lparr>m_files := AList.update p \<lparr>rec_offset = m_nextFreeOffset v, rec_size = length data\<rparr> (m_files v),
       m_nextFreeOffset := m_nextFreeOffset v + length data\<rparr>) v1"
proof -
  let ?n = "if map_of (m_files v) p = None then length (m_files v) + 1 else length (m_files v)"
  have ok: "segments_ok v" "m_metadataBytes v < m_segmentSize v" using inv by (auto simp: vol_inv_def)
  have hr: "has_room v (m_nextFreeOffset v + length data)" using host m(2) room by (rule room_for_has_room)
  have u: "m_nextFreeOffset v + length data \<le> u64_max" "m_segmentSize v \<le> u64_max" using room by (auto simp: room_for_def)
  have n: "sizeof_entry * ?n \<le> u64_max" using fits ok(2) u(2) by linarith
  have can: "canFitMetadataForFileCountLocked ?n v"
    using n fits ok(2) u(2)
    by (simp add: canFitMetadataForFileCountLocked_def ComputeVolumeMetadataRequirement_def ComputeVolumeIndexBytes_def add_u64_def
        sizeof_entry_def sizeof_header_def not_less less_eq_div_iff_mult_less_eq)
  have nu: "?n \<le> u64_max" using n by (simp add: sizeof_entry_def split: if_splits)
  obtain va da where e: "ensureCapacityLocked (m_nextFreeOffset v + length data) v d = (True, va, da)"
    using ensureCapacity_ok [OF ok(1) _ hr] host by (metis host_ok_def prod_cases3)
  note en = ensureCapacity_widens [OF ok(1) e]
  obtain wb vb db where wr: "(if data = [] then (True, va, da) else writeBytesLocked (m_nextFreeOffset v) data va da) = (wb, vb, db)"
    by (metis prod_cases3)
  have B: "wb \<and> host_ok vb db \<and> extends v vb"
  proof (cases "data = []")
    case True
    have "va = v \<and> da = d"
      using e True inv_capacity [OF inv] host ok(1)
      by (simp add: ensureCapacityLocked.simps computeLogicalCapacity_eq segments_ok_def host_ok_def)
    then show ?thesis using wr True host extends_refl [OF ok(1)] by auto
  next
    case False
    then have wv: "writeBytesLocked (m_nextFreeOffset v) data v d = (wb, vb, db)"
      using wr ensure_then_write [OF ok(1) e] by simp
    have wb: "wb \<and> d_faults db = []" using writeBytes_ok [OF ok(1) _ _ hr wv] host by (simp add: host_ok_def)
    then have "exact vb db" using writeBytes_exact [OF ok(1), of _ data d vb db] wv host inv by (simp add: host_ok_def vol_inv_def)
    moreover have "extends v vb" using writeBytes_effect [OF ok(1) wv] by simp
    moreover have "capacity vb \<le> u64_max"
      using ok(1) wv False
    proof (cases rule: writeBytes_cases)
      case (2 d2 rest)
      then show ?thesis using ensureCapacity_widens [OF ok(1) 2(1)] by simp
    qed (use wb in simp)
    ultimately show ?thesis using wb host extends_fields(1) [of v vb] by (simp add: host_ok_def)
  qed
  note fb = extends_fields [OF B [THEN conjunct2, THEN conjunct2]]
  let ?v = "vb\<lparr>m_files := AList.update p \<lparr>rec_offset = m_nextFreeOffset v, rec_size = length data\<rparr> (m_files vb),
      m_nextFreeOffset := m_nextFreeOffset v + length data\<rparr>"
  have eq: "writeFileLocked md p data v d = (if md = Deferred then (True, ?v, db)
      else case flushMetadataLocked ?v db of
          (True, v4, d4) \<Rightarrow> (True, v4, d4)
        | (False, v4, d4) \<Rightarrow>
            (False, v4\<lparr>m_files := (case map_of (m_files v) p of
                           Some previousRecord \<Rightarrow> AList.update p previousRecord (m_files v4)
                         | None \<Rightarrow> AList.delete p (m_files v4)),
                       m_nextFreeOffset := m_nextFreeOffset v\<rparr>, d4))" for md
    using m p(2) can nu u(1) e wr B by (simp add: writeFileLocked_def Let_def add_u64_def split del: if_split)
  have "extends (v\<lparr>m_files := AList.update p \<lparr>rec_offset = m_nextFreeOffset v, rec_size = length data\<rparr> (m_files v),
     m_nextFreeOffset := m_nextFreeOffset v + length data\<rparr>) ?v"
    using B unfolding extends_def by (cases v, cases vb) (simp add: segments_ok_def)
  moreover have "host_ok ?v db" using B by simp
  moreover have "b \<and> v1 = ?v \<and> host_ok ?v d1"
  proof (cases "mode = Deferred")
    case True
    then have "b \<and> v1 = ?v \<and> d1 = db" using eq [of mode] w by auto
    then show ?thesis using B by simp
  next
    case False
    have v: "vol_inv ?v db" using writeFile_spec [OF inv p(1), of Deferred data True ?v db] eq [of Deferred] by simp
    obtain k v4 d4 where f: "flushMetadataLocked ?v db = (k, v4, d4)" by (metis prod_cases3)
    have "k \<and> v4 = ?v \<and> host_ok ?v d4" using flush_ok [OF v _ f] B by simp
    then show ?thesis using eq [of mode] w False f by simp
  qed
  ultimately show ?thesis by simp
qed

lemma removeFile_ok:
  assumes "vol_inv v d" "host_ok v d" "m_mounted v" "m_writable v" "content v d p \<noteq> None" "removeFile p v d = (b, v1, d1)"
  shows "b \<and> host_ok v1 d1"
proof -
  have p: "\<not> IsZeroHash p" "map_of (m_files v) p \<noteq> None" using assms(5) by (auto simp: content_def split: if_splits)
  let ?v = "v\<lparr>m_files := AList.delete p (m_files v)\<rparr>"
  obtain k v4 d4 where f: "flushMetadataLocked ?v d = (k, v4, d4)" by (metis prod_cases3)
  have "k \<and> v4 = ?v \<and> host_ok ?v d4" using flush_ok [OF inv_delete(1) [OF assms(1)] _ f] assms(2) by simp
  then show ?thesis using assms(3,4,6) p f by (auto simp: removeFile_def)
qed

lemma readFile_ok:
  assumes "vol_inv v d" "host_ok v d" "m_mounted v"
  shows "readFile p v d = (content v d p, d)"
proof (cases "readFileRecordLocked p v")
  case None
  then show ?thesis using assms(3) by (auto simp: readFile_def readFileRecordLocked_def content_def split: if_splits)
next
  case (Some x)
  then have x: "\<not> IsZeroHash p" "map_of (m_files v) p = Some x" using assms(3) by (auto simp: readFileRecordLocked_def split: if_splits)
  have c: "content v d p = Some (bytes_at v d (rec_offset x) (rec_size x))" using x by (simp add: content_def)
  have r: "rec_offset x + rec_size x \<le> m_nextFreeOffset v" using assms(1) x(2) by (auto simp: vol_inv_def records_ok_def)
  have "rec_size x \<le> usize_max"
    using r inv_capacity [OF assms(1)] assms(2) by (simp add: host_ok_def u64_max_def usize_max_def)
  moreover have "readable v d (rec_offset x) (rec_size x)"
    by (rule readable_mono [of v d 0 "m_nextFreeOffset v"]) (use assms(1) r in \<open>auto simp: vol_inv_def\<close>)
  then have "readBytesLocked v (rec_offset x) (rec_size x) d = (Some (bytes_at v d (rec_offset x) (rec_size x)), d)"
    by (intro readBytes_ok) (use assms(1,2) in \<open>auto simp: host_ok_def vol_inv_def\<close>)
  ultimately show ?thesis using Some c by (auto simp: readFile_def bytes_at_def)
qed

section \<open>Histories without failures\<close>

text \<open>What the caller has to respect: names, room for the payload, room in the index.\<close>

definition write_fits :: "VolumeFileSystem \<Rightarrow> NameHash \<Rightarrow> u8 list \<Rightarrow> bool" where
  "write_fits v p data \<longleftrightarrow> m_writable v \<and> length p = 8 \<and> \<not> IsZeroHash p \<and> room_for v (length data) \<and>
     sizeof_header + sizeof_entry * (if map_of (m_files v) p = None then length (m_files v) + 1 else length (m_files v)) \<le> m_metadataBytes v"

text \<open>C18: When no call of the host fails, a read returns the content of the name, a write that
  respects the limits of the volume succeeds, stores its data and changes nothing else, and removing a
  file that is there succeeds; the volume stays in order and its segment files keep their sizes.\<close>

theorem volume_operations_succeed:
  assumes "vol_inv v d" "host_ok v d" "m_mounted v"
  shows "readFile p v d = (content v d p, d) \<and>
    (case writeFileLocked mode p data v d of (b, v1, d1) \<Rightarrow>
       write_fits v p data \<longrightarrow> b \<and> vol_inv v1 d1 \<and> host_ok v1 d1 \<and> content v1 d1 = (content v d)(p \<mapsto> data)) \<and>
    (case removeFile p v d of (b, v1, d1) \<Rightarrow>
       m_writable v \<and> content v d p \<noteq> None \<longrightarrow> b \<and> vol_inv v1 d1 \<and> host_ok v1 d1 \<and> content v1 d1 = (content v d)(p := None))"
proof (intro conjI)
  show "readFile p v d = (content v d p, d)" using assms by (rule readFile_ok)
  obtain b v1 d1 where w: "writeFileLocked mode p data v d = (b, v1, d1)" by (metis prod_cases3)
  have "b \<and> vol_inv v1 d1 \<and> host_ok v1 d1 \<and> content v1 d1 = (content v d)(p \<mapsto> data)" if "write_fits v p data"
  proof -
    have f: "m_writable v" "length p = 8" "\<not> IsZeroHash p" "room_for v (length data)"
      "sizeof_header + sizeof_entry * (if map_of (m_files v) p = None then length (m_files v) + 1 else length (m_files v)) \<le> m_metadataBytes v"
      using that unfolding write_fits_def by blast+
    show ?thesis
      using writeFile_ok [OF assms f(1,2,3,5,4) w] writeFile_spec [OF assms(1) f(2) w] by simp
  qed
  then show "case writeFileLocked mode p data v d of (b, v1, d1) \<Rightarrow>
       write_fits v p data \<longrightarrow> b \<and> vol_inv v1 d1 \<and> host_ok v1 d1 \<and> content v1 d1 = (content v d)(p \<mapsto> data)"
    by (simp add: w)
  obtain k w e where r: "removeFile p v d = (k, w, e)" by (metis prod_cases3)
  show "case removeFile p v d of (b, v1, d1) \<Rightarrow>
       m_writable v \<and> content v d p \<noteq> None \<longrightarrow> b \<and> vol_inv v1 d1 \<and> host_ok v1 d1 \<and> content v1 d1 = (content v d)(p := None)"
    using removeFile_ok [OF assms _ _ r] removeFile_spec [OF assms(1) r] by (simp add: r)
qed

lemma sample_host: "host_ok sample_volume sample_disk"
  by (simp add: host_ok_def exact_def file_at_def sample_volume_def sample_disk_def stream_max_def u64_max_def)

lemma sample_name: "\<not> IsZeroHash LANE_SEEDS"
  by (simp add: IsZeroHash_def LANE_SEEDS_def FNV64_OFFSET_BASIS_def upt_rec)

theorem volume_operations_succeed_witness:
  "readFile LANE_SEEDS sample_volume sample_disk = (Some [1, 2, 3], sample_disk) \<and>
    fst (writeFileLocked Immediate LANE_SEEDS [7, 8] sample_volume sample_disk) \<and>
    fst (removeFile LANE_SEEDS sample_volume sample_disk)"
proof -
  have c: "content sample_volume sample_disk LANE_SEEDS = Some [1, 2, 3]"
    using sample_name by (simp add: content_def bytes_at_def byte_at_def file_at_def sample_volume_def sample_disk_def upt_rec nth_append)
  have m: "m_mounted sample_volume" "m_writable sample_volume" by (simp_all add: sample_volume_def)
  have "write_fits sample_volume LANE_SEEDS [7, 8]"
    using sample_name by (simp add: write_fits_def room_for_def sample_volume_def sizeof_header_def sizeof_entry_def u64_max_def)
  then show ?thesis
    using volume_operations_succeed [OF sample_inv sample_host m(1), of LANE_SEEDS "[7, 8]" Immediate] c m(2)
    by (auto split: prod.splits)
qed

end
