(* ===== verification/Volume_Compact.thy ===== *)
theory Volume_Compact
  imports Volume_Live "HOL-Library.Multiset"
begin

text \<open>
  Compaction: the files move towards the metadata without gaps and keep their contents, whatever order
  the sort gives to equal offsets. When it reports success that is so under any failures of the host,
  and without failures a refusal changes nothing.
\<close>

section \<open>The plan\<close>

definition total_size :: "FileLayout list \<Rightarrow> nat" where
  "total_size ls = sum_list (map l_size ls)"

text \<open>Consecutive destinations from \<open>c\<close>, sources in order and disjoint from \<open>e\<close>.\<close>

fun plan_ok :: "nat \<Rightarrow> nat \<Rightarrow> FileLayout list \<Rightarrow> bool" where
  "plan_ok c e [] = True"
| "plan_ok c e (l # ls) =
     (l_destinationOffset l = c \<and> e \<le> l_sourceOffset l \<and> plan_ok (c + l_size l) (l_sourceOffset l + l_size l) ls)"

abbreviation source_of :: "FileLayout \<Rightarrow> NameHash \<times> nat \<times> nat" where
  "source_of l \<equiv> (l_path l, l_sourceOffset l, l_size l)"

lemma total_size_simps [simp]: "total_size [] = 0" "total_size (l # ls) = l_size l + total_size ls"
  by (simp_all add: total_size_def)

lemma plan_layouts_Some:
  "plan_layouts ls c e acc = Some (planned, w) \<Longrightarrow>
    \<exists>ps. planned = acc @ ps \<and> plan_ok c e ps \<and> w = c + total_size ps \<and> map source_of ps = map source_of ls"
proof (induction ls c e acc rule: plan_layouts.induct)
  case (2 l ls c e acc)
  let ?l = "l\<lparr>l_destinationOffset := c\<rparr>"
  have g: "e \<le> l_sourceOffset l" "l_sourceOffset l + l_size l \<le> u64_max" "c + l_size l \<le> u64_max"
    and p: "plan_layouts ls (c + l_size l) (l_sourceOffset l + l_size l) (acc @ [?l]) = Some (planned, w)"
    using "2.prems" by (auto simp: add_u64_def split: if_splits)
  obtain ps where "planned = (acc @ [?l]) @ ps" "plan_ok (c + l_size l) (l_sourceOffset l + l_size l) ps"
      "w = c + l_size l + total_size ps" "map source_of ps = map source_of ls"
    using "2.IH" [OF _ _ _ p] g by (auto simp: add_u64_def)
  then show ?case using g(1) by (intro exI [of _ "?l # ps"]) simp
qed simp

lemma plan_bounds:
  "plan_ok c e ls \<Longrightarrow> l \<in> set ls \<Longrightarrow> c \<le> l_destinationOffset l \<and> l_destinationOffset l + l_size l \<le> c + total_size ls \<and> e \<le> l_sourceOffset l"
  by (induction c e ls rule: plan_ok.induct) fastforce+

lemma plan_end:
  "plan_ok c e ls \<Longrightarrow> c \<le> e \<Longrightarrow> e \<le> n \<Longrightarrow> \<forall>l\<in>set ls. l_sourceOffset l + l_size l \<le> n \<Longrightarrow> c + total_size ls \<le> n"
proof (induction c e ls rule: plan_ok.induct)
  case (2 c e l ls)
  have "c + l_size l + total_size ls \<le> n" by (rule "2.IH") (use "2.prems" in auto)
  then show ?case by simp
qed simp

lemma plan_layouts_ok:
  "sorted_wrt (\<lambda>a b. l_sourceOffset a + l_size a \<le> l_sourceOffset b) ls \<Longrightarrow> c \<le> e \<Longrightarrow>
    \<forall>l\<in>set ls. e \<le> l_sourceOffset l \<and> l_sourceOffset l + l_size l \<le> u64_max \<Longrightarrow> plan_layouts ls c e acc \<noteq> None"
proof (induction ls c e acc rule: plan_layouts.induct)
  case (2 l ls c e acc)
  then show ?case by (auto simp: add_u64_def)
qed simp

section \<open>The moves\<close>

lemma move_layouts_effect:
  assumes "move_layouts ls v d = (b, v1, d1)" "segments_ok v" "plan_ok c e ls" "c \<le> e"
    "\<forall>l\<in>set ls. readable v d (l_sourceOffset l) (l_size l)"
  shows "extends v v1 \<and> keeps {a. c \<le> a} v d v1 d1 \<and>
    (b \<longrightarrow> (\<forall>l\<in>set ls. moved_to (l_destinationOffset l) (l_sourceOffset l) (l_size l) v d v1 d1))"
  using assms
proof (induction ls arbitrary: v d c e)
  case Nil
  then show ?case by (simp add: extends_refl keeps_same)
next
  case (Cons l ls)
  let ?X = "{c..<c + l_size l}"
  have l: "l_destinationOffset l = c" "e \<le> l_sourceOffset l" "plan_ok (c + l_size l) (l_sourceOffset l + l_size l) ls"
    and r: "readable v d (l_sourceOffset l) (l_size l)"
    using Cons.prems(3,5) by auto
  obtain ok v2 d2 where m: "(if l_size l = 0 \<or> l_destinationOffset l = l_sourceOffset l then (True, v, d)
      else moveBytesLocked (l_destinationOffset l) (l_sourceOffset l) (l_size l) v d) = (ok, v2, d2)"
    by (metis prod_cases3)
  have step: "extends v v2 \<and> keeps ?X v d v2 d2 \<and> (ok \<longrightarrow> moved_to c (l_sourceOffset l) (l_size l) v d v2 d2)"
  proof (cases "l_size l = 0 \<or> c = l_sourceOffset l")
    case True
    then have "ok \<and> v2 = v \<and> d2 = d" using m l(1) by (auto split: if_splits)
    then show ?thesis using True r Cons.prems(2) by (auto simp: extends_refl keeps_same moved_to_def readable_def bytes_at_def)
  next
    case False
    then show ?thesis using m l(1) moveBytes_effect [OF Cons.prems(2) r] by simp
  qed
  have e: "move_layouts (l # ls) v d = (if ok then move_layouts ls v2 d2 else (False, v2, d2))"
    using m by (auto split: if_splits bool.splits)
  show ?case
  proof (cases ok)
    case False
    have "keeps {a. c \<le> a} v d v2 d2" by (rule keeps_mono [OF step [THEN conjunct2, THEN conjunct1]]) auto
    then show ?thesis using False e Cons.prems(1) step by simp
  next
    case True
    have src: "readable v d (l_sourceOffset x) (l_size x) \<and> l_sourceOffset l + l_size l \<le> l_sourceOffset x" if "x \<in> set ls" for x
      using that Cons.prems(5) plan_bounds [OF l(3)] by auto
    have IH: "extends v2 v1 \<and> keeps {a. c + l_size l \<le> a} v2 d2 v1 d1 \<and>
        (b \<longrightarrow> (\<forall>l\<in>set ls. moved_to (l_destinationOffset l) (l_sourceOffset l) (l_size l) v2 d2 v1 d1))"
    proof (rule Cons.IH [OF _ _ l(3)])
      show "move_layouts ls v2 d2 = (b, v1, d1)" using e True Cons.prems(1) by simp
      show "segments_ok v2" using step extends_fields(10) by blast
      show "\<forall>x\<in>set ls. readable v2 d2 (l_sourceOffset x) (l_size x)" using src keeps_readable step by blast
    qed (use Cons.prems(4) l(2) in simp)
    have "keeps {a. c \<le> a} v d v1 d1"
      by (rule keeps_trans [OF step [THEN conjunct2, THEN conjunct1] IH [THEN conjunct2, THEN conjunct1]]) auto
    moreover have "moved_to (l_destinationOffset x) (l_sourceOffset x) (l_size x) v d v1 d1" if "b" "x \<in> set (l # ls)" for x
    proof (cases "x = l")
      case x: True
      show ?thesis unfolding x l(1)
        by (rule moved_to_later [where X = "{a. c + l_size l \<le> a}"]) (use step True IH in auto)
    next
      case False
      then have x: "x \<in> set ls" using that(2) by simp
      show ?thesis
        by (rule moved_to_before [where X = ?X]) (use IH that(1) x step src [OF x] l(2) Cons.prems(4) in auto)
    qed
    ultimately show ?thesis using step IH extends_trans by blast
  qed
qed

lemma move_layouts_ok:
  assumes "move_layouts ls v d = (b, v1, d1)" "segments_ok v" "plan_ok c e ls" "c \<le> e"
    "\<forall>l\<in>set ls. readable v d (l_sourceOffset l) (l_size l)" "d_faults d = []" "exact v d"
    "m_segmentSize v \<le> stream_max" "capacity v \<le> u64_max"
  shows "b \<and> v1 = v \<and> d_faults d1 = [] \<and> exact v d1"
  using assms
proof (induction ls arbitrary: d c e)
  case (Cons l ls)
  have l: "l_destinationOffset l = c" "e \<le> l_sourceOffset l" "plan_ok (c + l_size l) (l_sourceOffset l + l_size l) ls"
    and r: "readable v d (l_sourceOffset l) (l_size l)"
    using Cons.prems(3,5) by auto
  obtain ok v2 d2 where m: "(if l_size l = 0 \<or> l_destinationOffset l = l_sourceOffset l then (True, v, d)
      else moveBytesLocked (l_destinationOffset l) (l_sourceOffset l) (l_size l) v d) = (ok, v2, d2)"
    by (metis prod_cases3)
  have step: "ok \<and> v2 = v \<and> d_faults d2 = [] \<and> exact v d2 \<and> keeps {c..<c + l_size l} v d v d2"
  proof (cases "l_size l = 0 \<or> c = l_sourceOffset l")
    case True
    then show ?thesis using m l(1) Cons.prems by (auto simp: keeps_same split: if_splits)
  next
    case False
    then have mv: "moveBytesLocked c (l_sourceOffset l) (l_size l) v d = (ok, v2, d2)" using m l(1) by simp
    show ?thesis
      using moveBytes_ok [OF Cons.prems(2) r mv _ Cons.prems(6-9)] moveBytes_effect [OF Cons.prems(2) r mv] l(2) Cons.prems(4)
      by auto
  qed
  have "move_layouts ls v d2 = (b, v1, d1)" using Cons.prems(1) m step by (auto split: if_splits bool.splits)
  moreover have "\<forall>x\<in>set ls. readable v d2 (l_sourceOffset x) (l_size x)"
    using Cons.prems(5) keeps_readable step by (metis list.set_intros(2))
  ultimately show ?case
    using Cons.IH [of d2 "c + l_size l" "l_sourceOffset l + l_size l"] step Cons.prems(2,4,8,9) l by auto
qed simp

section \<open>The records of a plan\<close>

lemma apply_layouts_map:
  "distinct (map l_path ls) \<Longrightarrow>
    map_of (apply_layouts ls fs) p =
      (case find (\<lambda>l. l_path l = p) ls of
         None \<Rightarrow> map_of fs p
       | Some l \<Rightarrow> Some \<lparr>rec_offset = l_destinationOffset l, rec_size = l_size l\<rparr>)"
proof (induction ls arbitrary: fs)
  case (Cons l ls)
  have "find (\<lambda>x. l_path x = l_path l) ls = None" using Cons.prems by (auto simp: find_None_iff rev_image_eqI)
  then show ?case using Cons by (auto simp: apply_layouts_def update_conv' split: option.splits)
qed (simp add: apply_layouts_def)

lemma distinct_apply_layouts: "distinct (map fst fs) \<Longrightarrow> distinct (map fst (apply_layouts ls fs))"
  unfolding apply_layouts_def by (induction ls arbitrary: fs) (simp_all add: distinct_update)

lemma gather_layouts_Some:
  "gather_layouts v fs acc = Some ls \<Longrightarrow>
    \<exists>gs. ls = acc @ gs \<and> map source_of gs = map (\<lambda>(p, r). (p, rec_offset r, rec_size r)) fs \<and>
      (\<forall>l\<in>set gs. m_metadataBytes v \<le> l_sourceOffset l \<and> l_sourceOffset l + l_size l \<le> m_nextFreeOffset v)"
proof (induction v fs acc rule: gather_layouts.induct)
  case (2 v p r fs acc)
  let ?l = "\<lparr>l_path = p, l_sourceOffset = rec_offset r, l_destinationOffset = 0, l_size = rec_size r\<rparr>"
  have g: "rec_offset r + rec_size r \<le> u64_max" "m_metadataBytes v \<le> rec_offset r" "rec_offset r + rec_size r \<le> m_nextFreeOffset v"
    and q: "gather_layouts v fs (acc @ [?l]) = Some ls"
    using "2.prems" by (auto simp: add_u64_def split: if_splits)
  obtain gs where "ls = (acc @ [?l]) @ gs" "map source_of gs = map (\<lambda>(p, r). (p, rec_offset r, rec_size r)) fs"
      "\<forall>l\<in>set gs. m_metadataBytes v \<le> l_sourceOffset l \<and> l_sourceOffset l + l_size l \<le> m_nextFreeOffset v"
    using "2.IH" [OF _ _ _ q] g by (auto simp: add_u64_def)
  then show ?case using g by (intro exI [of _ "?l # gs"]) simp
qed simp

lemma gather_layouts_ok:
  "\<forall>(p, r)\<in>set fs. m_metadataBytes v \<le> rec_offset r \<and> rec_offset r + rec_size r \<le> m_nextFreeOffset v \<Longrightarrow>
    m_nextFreeOffset v \<le> u64_max \<Longrightarrow> gather_layouts v fs acc \<noteq> None"
  by (induction v fs acc rule: gather_layouts.induct) (auto simp: add_u64_def)

section \<open>Trimming\<close>

lemma divide_up_eq: "0 < x \<Longrightarrow> 0 < S \<Longrightarrow> divide_up x S = Suc ((x - 1) div S)"
  by (simp add: divide_up_def)

text \<open>The required bytes end in the last required segment.\<close>

lemma required_segments:
  assumes "0 < x" "0 < S"
  defines "n \<equiv> max 1 (divide_up x S)" and "r \<equiv> (if x mod S = 0 then S else x mod S)"
  shows "0 < n" "0 < r" "r \<le> S" "x = (n - 1) * S + r"
proof -
  show "0 < n" "0 < r" "r \<le> S" using assms by (auto simp: n_def r_def intro: less_imp_le)
  have n: "n - 1 = (x - 1) div S" using assms by (simp add: n_def divide_up_eq)
  obtain y where y: "x = Suc y" using assms(1) by (cases x) auto
  show "x = (n - 1) * S + r"
  proof (cases "x mod S = 0")
    case True
    then have "x div S = Suc (y div S)" by (simp add: y div_Suc)
    then show ?thesis using True n y div_mult_mod_eq [of x S] by (simp add: r_def)
  next
    case False
    then have "x div S = y div S" by (simp add: y div_Suc)
    then show ?thesis using False n y div_mult_mod_eq [of x S] by (simp add: r_def)
  qed
qed

lemma required_le: "0 < n \<Longrightarrow> x = (n - 1) * S + r \<Longrightarrow> r \<le> S \<Longrightarrow> x \<le> n * (S :: nat)"
  by (cases n) auto

text \<open>Fewer segments, and the same bytes below \<open>n\<close>.\<close>

definition cut :: "nat \<Rightarrow> 'n Volume \<Rightarrow> Disk \<Rightarrow> 'n Volume \<Rightarrow> Disk \<Rightarrow> bool" where
  "cut n v d v1 d1 \<longleftrightarrow> segments_ok v1 \<and> v1 = v\<lparr>m_segmentPaths := m_segmentPaths v1\<rparr> \<and>
     (\<forall>a<n. byte_at v1 d1 a = byte_at v d a)"

lemma cut_fields:
  assumes "cut n v d v1 d1"
  shows "m_segmentSize v1 = m_segmentSize v" "m_metadataBytes v1 = m_metadataBytes v"
    "m_nextFreeOffset v1 = m_nextFreeOffset v" "m_files v1 = m_files v" "m_mounted v1 = m_mounted v"
    "m_writable v1 = m_writable v" "m_maxSegments v1 = m_maxSegments v" "segments_ok v1"
  using assms unfolding cut_def by (cases v, cases v1, simp)+

lemma cut_inv:
  assumes "vol_inv v d" "cut (m_nextFreeOffset v) v d v1 d1" "m_segmentPaths v1 \<noteq> []"
  shows "vol_inv v1 d1" "content v1 d1 = content v d"
proof -
  note f = cut_fields [OF assms(2)]
  have b: "byte_at v1 d1 a = byte_at v d a" if "a < m_nextFreeOffset v" for a using assms(2) that by (simp add: cut_def)
  show "vol_inv v1 d1"
    using assms f b by (simp add: vol_inv_def records_ok_def cut_def readable_def)
  show "content v1 d1 = content v d"
  proof
    fix p
    show "content v1 d1 p = content v d p"
    proof (cases "map_of (m_files v) p")
      case (Some r)
      then have "rec_offset r + rec_size r \<le> m_nextFreeOffset v" using assms(1) by (auto simp: vol_inv_def records_ok_def)
      then have "bytes_at v1 d1 (rec_offset r) (rec_size r) = bytes_at v d (rec_offset r) (rec_size r)"
        using b by (simp add: bytes_at_def)
      then show ?thesis using Some f(4) by (simp add: content_def)
    qed (use f(4) in \<open>simp add: content_def\<close>)
  qed
qed

lemma cut_trans: "cut n v d v1 d1 \<Longrightarrow> cut n v1 d1 v2 d2 \<Longrightarrow> cut n v d v2 d2"
  unfolding cut_def by (cases v, cases v1, cases v2) simp

lemma segment_below: "0 < S \<Longrightarrow> a < n * S \<Longrightarrow> a div S < (n::nat)"
  by (rule capacity_chunk)

lemma byte_at_drop_segment:
  assumes "segments_ok v" "n \<le> length (m_segmentPaths v)" "a < n * m_segmentSize v"
    "\<And>i. i < n \<Longrightarrow> file_at d1 i = file_at d i"
  shows "byte_at (v\<lparr>m_segmentPaths := [0..<n]\<rparr>) d1 a = byte_at v d a"
proof -
  have i: "a div m_segmentSize v < n" using assms(1,3) segment_below by (simp add: segments_ok_def)
  have "m_segmentPaths v ! (a div m_segmentSize v) = a div m_segmentSize v" using segment_path [OF assms(1)] i assms(2) by simp
  then show ?thesis using i assms(2,4) by (simp add: byte_at_def split: option.split)
qed

lemma trim_loop_effect:
  assumes "trim_loop n v d = (b, v1, d1)" "segments_ok v" "0 < n" "n \<le> length (m_segmentPaths v)"
  shows "cut (n * m_segmentSize v) v d v1 d1 \<and> n \<le> length (m_segmentPaths v1) \<and>
    length (m_segmentPaths v1) \<le> length (m_segmentPaths v) \<and> (b \<longrightarrow> length (m_segmentPaths v1) = n) \<and>
    (\<forall>i. file_at d1 i = (if i < length (m_segmentPaths v1) \<or> length (m_segmentPaths v) \<le> i then file_at d i else None))"
  using assms
proof (induction n v d rule: trim_loop.induct)
  case (1 n v d)
  let ?m = "length (m_segmentPaths v) - 1"
  show ?case
  proof (cases "length (m_segmentPaths v) > n")
    case False
    then show ?thesis using "1.prems" by (auto simp: trim_loop.simps cut_def)
  next
    case True
    have "length (m_segmentPaths v) = Suc ?m" using True by simp
    then have "m_segmentPaths v = [0..<Suc ?m]" using "1.prems"(2) unfolding segments_ok_def by metis
    then have last: "last (m_segmentPaths v) = ?m" "butlast (m_segmentPaths v) = [0..<?m]"
      by (metis last_snoc le0 upt_Suc_append, metis butlast_snoc le0 upt_Suc_append)
    obtain ok d2 where rm: "RemoveFile ?m d = (ok, d2)" by fastforce
    have files: "file_at d2 i = (if ok \<and> i = ?m then None else file_at d i)" for i
      using rm by (auto simp: RemoveFile_def Let_def syscall_file split: prod.splits if_splits)
    show ?thesis
    proof (cases ok)
      case False
      then have "v1 = v \<and> d1 = d2 \<and> \<not> b" using "1.prems"(1) True rm last by (simp add: trim_loop.simps)
      then show ?thesis using "1.prems" False files True by (auto simp: cut_def byte_at_def)
    next
      case ok: True
      let ?v = "v\<lparr>m_segmentPaths := [0..<?m]\<rparr>"
      have v2: "segments_ok ?v" "n \<le> length (m_segmentPaths ?v)" using "1.prems"(2) True by (simp_all add: segments_ok_def)
      have c: "cut (n * m_segmentSize v) v d ?v d2"
        unfolding cut_def
      proof (intro conjI allI impI)
        fix a assume a: "a < n * m_segmentSize v"
        have "n * m_segmentSize v \<le> ?m * m_segmentSize v" using v2(2) by (intro mult_le_mono1) simp
        with a have "a < ?m * m_segmentSize v" by (rule order.strict_trans2)
        then show "byte_at ?v d2 a = byte_at v d a"
          using byte_at_drop_segment [OF "1.prems"(2), of ?m a d2 d] files by simp
      qed (use v2 in simp_all)
      have "trim_loop n ?v d2 = (b, v1, d1)"
        using "1.prems"(1) True rm last ok by (subst (asm) trim_loop.simps) simp
      then have IH: "cut (n * m_segmentSize v) ?v d2 v1 d1 \<and> n \<le> length (m_segmentPaths v1) \<and>
          length (m_segmentPaths v1) \<le> ?m \<and> (b \<longrightarrow> length (m_segmentPaths v1) = n) \<and>
          (\<forall>i. file_at d1 i = (if i < length (m_segmentPaths v1) \<or> ?m \<le> i then file_at d2 i else None))"
        using "1.IH" [of "(ok, d2)" ok d2] True rm last ok v2 "1.prems"(3) by simp
      then show ?thesis using cut_trans [OF c] files ok True "1.prems"(3) by auto
    qed
  qed
qed

text \<open>The last segment gets its length, or keeps the one it has.\<close>

lemma trim_last_effect:
  assumes "trim_last_segment x v d = (b, d1)"
  defines "r \<equiv> (if x mod m_segmentSize v = 0 then m_segmentSize v else x mod m_segmentSize v)"
    and "i \<equiv> last (m_segmentPaths v)"
  shows "(d_segments d1 = d_segments d \<and> (b \<longrightarrow> (\<exists>f. file_at d i = Some f \<and> length f = r))) \<or>
    (\<exists>f. file_at d i = Some f \<and> d_segments d1 = d_segments (set_file i (take r f @ replicate (r - length f) 0) d))"
proof -
  obtain z d2 where z: "FileSize i d = (z, d2)" by fastforce
  have seg: "d_segments d2 = d_segments d" and zf: "z = Some n \<Longrightarrow> \<exists>f. file_at d i = Some f \<and> length f = n" for n
    using z by (auto simp: FileSize_def Let_def dest!: syscall_segments split: prod.splits option.splits if_splits)
  have e: "(b, d1) = (case z of None \<Rightarrow> (False, d2) | Some n \<Rightarrow> if n = r then (True, d2) else ResizeFile i r d2)"
    using assms(1) z unfolding trim_last_segment_def Let_def r_def [symmetric] i_def [symmetric] by simp
  show ?thesis
  proof (cases "z = None \<or> z = Some r")
    case True
    then show ?thesis using e seg zf by auto
  next
    case False
    then have rf: "ResizeFile i r d2 = (b, d1)" using e by (auto split: option.splits if_splits)
    have f2: "file_at d2 i = file_at d i" using seg by (simp add: file_at_def)
    show ?thesis
      using rf False zf f2 seg
      by (auto simp: ResizeFile_def Let_def set_file_def dest!: syscall_segments split: prod.splits option.splits if_splits)
  qed
qed

lemma trim_last_cut:
  assumes "trim_last_segment x v d = (b, d1)" "segments_ok v" "0 < x" "readable v d 0 x"
    "length (m_segmentPaths v) = max 1 (divide_up x (m_segmentSize v))"
  shows "cut x v d v d1 \<and> (\<forall>i. i \<noteq> length (m_segmentPaths v) - 1 \<longrightarrow> file_at d1 i = file_at d i) \<and>
    (b \<longrightarrow> (\<exists>f. file_at d1 (length (m_segmentPaths v) - 1) = Some f \<and> 0 < length f \<and> length f \<le> m_segmentSize v))"
proof -
  define S r i where "S = m_segmentSize v" and "r = (if x mod S = 0 then S else x mod S)" and "i = length (m_segmentPaths v) - 1"
  have S: "0 < S" using assms(2) by (simp add: segments_ok_def S_def)
  have rs: "0 < length (m_segmentPaths v)" "0 < r" "r \<le> S" "x = i * S + r"
    using required_segments [OF assms(3) S] assms(5) by (simp_all add: S_def r_def i_def)
  have last: "last (m_segmentPaths v) = i"
    using segment_path [OF assms(2), of i] rs(1) by (simp add: last_conv_nth i_def)
  consider (same) "d_segments d1 = d_segments d" "b \<longrightarrow> (\<exists>f. file_at d i = Some f \<and> length f = r)"
    | (resized) f where "file_at d i = Some f" "d_segments d1 = d_segments (set_file i (take r f @ replicate (r - length f) 0) d)"
    using trim_last_effect [OF assms(1)] unfolding last S_def [symmetric] r_def [symmetric] by blast
  then show ?thesis
  proof cases
    case same
    then show ?thesis using assms(2) rs by (auto simp: cut_def byte_at_def file_at_def i_def S_def)
  next
    case (resized f)
    let ?g = "take r f @ replicate (r - length f) 0"
    have files: "file_at d1 k = (if k = i then Some ?g else file_at d k)" for k
      using resized(2) file_at_set [of i ?g d k] by (simp add: file_at_def)
    have "byte_at v d1 a = byte_at v d a" if a: "a < x" for a
    proof (cases "a div S = i")
      case True
      have "a mod S < r" using a rs(4) True div_mult_mod_eq [of a S] by (metis add_less_cancel_left)
      moreover have "byte_at v d a \<noteq> None" using assms(4) a by (simp add: readable_def)
      then have "byte_at v d a = Some (f ! (a mod S)) \<and> a mod S < length f"
        using True resized(1) segment_path [OF assms(2), of i] rs(1)
        by (auto simp: byte_at_def S_def i_def split: if_splits)
      ultimately show ?thesis
        using byte_at_set_file [OF assms(2) _ resized(2), of a] True rs(1) by (simp add: S_def i_def nth_append)
    next
      case False
      then show ?thesis using byte_at_set_file [OF assms(2) _ resized(2), of a] rs(1) by (simp add: S_def i_def)
    qed
    then show ?thesis using assms(2) files rs by (auto simp: cut_def S_def i_def)
  qed
qed

text \<open>A trimmed volume keeps everything below the free space; when it is complete it is in shape again.\<close>

lemma trim_effect:
  assumes "trimSegmentsForNextFreeOffsetLocked v d = (b, v1, d1)" "vol_inv v d"
  shows "vol_inv v1 d1 \<and> content v1 d1 = content v d \<and>
    cut (m_nextFreeOffset v) v d v1 d1 \<and> (b \<and> exact v d \<longrightarrow> exact v1 d1)"
proof -
  let ?S = "m_segmentSize v" and ?x = "m_nextFreeOffset v"
  let ?n = "max 1 (divide_up ?x ?S)"
  have ok: "segments_ok v" "0 < ?S" "0 < ?x" "max ?x (m_metadataBytes v) = ?x"
    using assms(2) by (auto simp: vol_inv_def segments_ok_def)
  note rs = required_segments [OF ok(3,2)]
  show ?thesis
  proof (cases "m_writable v \<and> ?n \<le> length (m_segmentPaths v) \<and> ?n \<le> usize_max")
    case False
    then have "\<not> b \<and> v1 = v \<and> d1 = d"
      using assms ok by (auto simp: trimSegmentsForNextFreeOffsetLocked_def Let_def vol_inv_def split: if_splits)
    then show ?thesis using assms(2) ok(1) by (simp add: cut_def)
  next
    case True
    then have n: "?n \<le> length (m_segmentPaths v)" by simp
    obtain t v2 d2 where t: "trim_loop ?n v d = (t, v2, d2)" by (metis prod_cases3)
    note te = trim_loop_effect [OF t ok(1) rs(1) n]
    have "?x \<le> ?n * ?S" by (rule required_le [OF rs(1,4,3)])
    then have c2: "cut ?x v d v2 d2" using te by (auto simp: cut_def)
    note fields = cut_fields [OF c2]
    have v2: "segments_ok v2" "m_segmentPaths v2 \<noteq> []" using fields te rs(1) by auto
    have inv2: "vol_inv v2 d2" "content v2 d2 = content v d" using cut_inv [OF assms(2) c2 v2(2)] by auto
    have eq: "(b, v1, d1) = (if \<not> t then (False, v2, d2) else let (k, d3) = trim_last_segment ?x v2 d2 in (k, v2, d3))"
      using assms(1) True t ok v2 unfolding trimSegmentsForNextFreeOffsetLocked_def Let_def
      by (auto split: if_splits)
    show ?thesis
    proof (cases t)
      case False
      then show ?thesis using eq inv2 c2 by simp
    next
      case trimmed: True
      have l: "trim_last_segment ?x v2 d2 = (b, d1)" "v1 = v2" using eq trimmed by (auto split: prod.splits)
      have len: "length (m_segmentPaths v2) = ?n" using te trimmed by simp
      have "readable v2 d2 0 ?x" using inv2(1) fields(3) by (simp add: vol_inv_def)
      note lc = trim_last_cut [OF l(1) v2(1) ok(3) this len [folded fields(1)]]
      have "vol_inv v1 d1" "content v1 d1 = content v d"
        using cut_inv [OF inv2(1), of v2 d1] lc fields(3) v2(2) inv2(2) l(2) by auto
      moreover have "exact v1 d1" if "b" "exact v d"
        unfolding exact_def
      proof
        fix i
        show "case file_at d1 i of None \<Rightarrow> length (m_segmentPaths v1) \<le> i
          | Some f \<Rightarrow> i < length (m_segmentPaths v1) \<and> 0 < length f \<and> length f \<le> m_segmentSize v1 \<and>
              (Suc i < length (m_segmentPaths v1) \<longrightarrow> length f = m_segmentSize v1)"
        proof (cases "i = ?n - 1")
          case True
          then show ?thesis using lc that(1) len rs(1) l(2) fields(1) by auto
        next
          case False
          then have i: "file_at d1 i = (if i < ?n \<or> length (m_segmentPaths v) \<le> i then file_at d i else None)"
            using lc len te trimmed by auto
          show ?thesis
          proof (cases "i < ?n")
            case True
            then show ?thesis
              using i False n len l(2) fields(1) exact_Some [OF that(2), of i] exact_None [OF that(2), of i] ok(2)
              by (auto split: option.splits)
          next
            case False
            then show ?thesis using i len l(2) exact_None [OF that(2), of i] by auto
          qed
        qed
      qed
      ultimately show ?thesis using cut_trans [OF c2] lc l(2) by simp
    qed
  qed
qed

text \<open>The index on disk stays below the free space.\<close>

lemma cut_stored:
  assumes "cut (m_nextFreeOffset v) v d v1 d1" "m_metadataBytes v \<le> m_nextFreeOffset v" "stored v d"
  shows "stored v1 d1"
proof -
  note f = cut_fields [OF assms(1)]
  have "bytes_at v1 d1 0 (m_metadataBytes v) = bytes_at v d 0 (m_metadataBytes v)"
    using assms(1,2) by (simp add: cut_def bytes_at_def)
  then show ?thesis using assms(3) f by (simp add: stored_def metadata_buffer_def)
qed

lemma trim_loop_ok:
  assumes "trim_loop n v d = (b, v1, d1)" "segments_ok v" "0 < n" "d_faults d = []"
    "\<forall>i<length (m_segmentPaths v). file_at d i \<noteq> None"
  shows "b \<and> d_faults d1 = []"
  using assms
proof (induction n v d rule: trim_loop.induct)
  case (1 n v d)
  let ?m = "length (m_segmentPaths v) - 1"
  show ?case
  proof (cases "length (m_segmentPaths v) > n")
    case False
    then show ?thesis using "1.prems" by (simp add: trim_loop.simps)
  next
    case True
    have "length (m_segmentPaths v) = Suc ?m" using True by simp
    then have "m_segmentPaths v = [0..<Suc ?m]" using "1.prems"(2) unfolding segments_ok_def by metis
    then have last: "last (m_segmentPaths v) = ?m" "butlast (m_segmentPaths v) = [0..<?m]"
      by (metis last_snoc le0 upt_Suc_append, metis butlast_snoc le0 upt_Suc_append)
    have rm: "RemoveFile ?m d = (True, remove_file ?m d)"
      using "1.prems"(4,5) True by (simp add: RemoveFile_def syscall_ok)
    let ?v = "v\<lparr>m_segmentPaths := [0..<?m]\<rparr>"
    have "trim_loop n ?v (remove_file ?m d) = (b, v1, d1)"
      using "1.prems"(1) True rm last by (subst (asm) trim_loop.simps) simp
    then show ?thesis
      using "1.IH" [of "(True, remove_file ?m d)" True "remove_file ?m d"] True rm last "1.prems"(2-5)
      by (simp add: segments_ok_def)
  qed
qed

lemma trim_ok:
  assumes "trimSegmentsForNextFreeOffsetLocked v d = (b, v1, d1)" "vol_inv v d" "host_ok v d" "m_writable v"
  shows "b \<and> host_ok v1 d1"
proof -
  let ?S = "m_segmentSize v" and ?x = "m_nextFreeOffset v"
  let ?n = "max 1 (divide_up ?x ?S)"
  have ok: "segments_ok v" "0 < ?S" "0 < ?x" "max ?x (m_metadataBytes v) = ?x" "m_segmentPaths v \<noteq> []"
    using assms(2) by (auto simp: vol_inv_def segments_ok_def)
  have h: "d_faults d = []" "exact v d" "?S \<le> stream_max" "capacity v \<le> u64_max" using assms(3) by (auto simp: host_ok_def)
  have "(?x - 1) div ?S < length (m_segmentPaths v)"
    using inv_capacity [OF assms(2)] ok by (intro capacity_chunk) auto
  then have n: "?n \<le> length (m_segmentPaths v)" using ok by (simp add: divide_up_eq)
  have "length (m_segmentPaths v) \<le> capacity v" using ok(2) by simp
  then have "length (m_segmentPaths v) \<le> u64_max" using h(4) by (rule order_trans)
  then have nu: "?n \<le> usize_max" using n by (simp add: u64_max_def usize_max_def)
  obtain t v2 d2 where t: "trim_loop ?n v d = (t, v2, d2)" by (metis prod_cases3)
  have tt: "t" "d_faults d2 = []"
    using trim_loop_ok [OF t ok(1) _ h(1)] exact_None [OF h(2)] by auto
  note te = trim_loop_effect [OF t ok(1) required_segments(1) [OF ok(3,2)] n]
  note fields = cut_fields [OF te [THEN conjunct1]]
  have len: "length (m_segmentPaths v2) = ?n" using te tt by simp
  have "m_segmentPaths v2 \<noteq> []" using len by auto
  then have last: "last (m_segmentPaths v2) = ?n - 1"
    using segment_path [OF fields(8), of "?n - 1"] len by (simp add: last_conv_nth)
  have "?n - 1 < ?n" by simp
  then have "?n - 1 < length (m_segmentPaths v)" using n by (rule order.strict_trans2)
  then obtain f where "file_at d (?n - 1) = Some f" using exact_None [OF h(2), of "?n - 1"] by fastforce
  then have f: "file_at d2 (?n - 1) = Some f" using te len by simp
  have "?x mod ?S \<le> stream_max" using h(3) ok(2) by (meson less_imp_le mod_less_divisor order_trans)
  then have "fst (trim_last_segment ?x v2 d2) \<and> d_faults (snd (trim_last_segment ?x v2 d2)) = []"
    using f tt(2) h(3) fields(1)
    by (simp add: trim_last_segment_def Let_def last FileSize_def syscall_ok ResizeFile_def)
  then obtain d3 where l: "trim_last_segment ?x v2 d2 = (True, d3)" "d_faults d3 = []" by (metis prod.collapse)
  have r: "b \<and> v1 = v2 \<and> d1 = d3"
    using assms(1) unfolding trimSegmentsForNextFreeOffsetLocked_def Let_def ok(4) t prod.case l(1)
    using assms(4) ok(2,5) n nu tt(1) by (simp split: if_splits)
  have "exact v1 d1" using trim_effect [OF assms(1,2)] r h(2) by simp
  moreover have "capacity v1 \<le> u64_max"
  proof -
    have "capacity v1 \<le> capacity v" using r te fields(1) by simp
    then show ?thesis using h(4) by simp
  qed
  ultimately show ?thesis using r l(2) h(3) fields(1) by (simp add: host_ok_def)
qed

section \<open>Compaction\<close>

definition sorts_by_offset :: "(FileLayout list \<Rightarrow> FileLayout list) \<Rightarrow> bool" where
  "sorts_by_offset Sort \<longleftrightarrow>
     (\<forall>ls. mset (Sort ls) = mset ls \<and> sorted_wrt (\<lambda>a b. l_sourceOffset a \<le> l_sourceOffset b) (Sort ls))"

lemma sorts_set: "sorts_by_offset Sort \<Longrightarrow> set (Sort ls) = set ls"
  by (metis sorts_by_offset_def set_mset_mset)

text \<open>The bytes of all files.\<close>

definition file_bytes :: "VolumeFileSystem \<Rightarrow> nat" where
  "file_bytes v = sum_list (map (\<lambda>(p, r). rec_size r) (m_files v))"

text \<open>No file is empty and no two files share a byte.\<close>

definition separate :: "VolumeFileSystem \<Rightarrow> bool" where
  "separate v \<longleftrightarrow> (\<forall>p r. map_of (m_files v) p = Some r \<longrightarrow> 0 < rec_size r \<and>
     (\<forall>q s. map_of (m_files v) q = Some s \<longrightarrow> p \<noteq> q \<longrightarrow>
        rec_offset r + rec_size r \<le> rec_offset s \<or> rec_offset s + rec_size s \<le> rec_offset r))"

lemma record_fields: "\<lparr>rec_offset = rec_offset r, rec_size = rec_size r\<rparr> = r"
  by (cases r) simp

text \<open>A plan for the files of a volume.\<close>

definition plans :: "VolumeFileSystem \<Rightarrow> FileLayout list \<Rightarrow> bool" where
  "plans v ls \<longleftrightarrow> plan_ok (m_metadataBytes v) (m_metadataBytes v) ls \<and> distinct (map l_path ls) \<and>
     (\<forall>p. map_of (m_files v) p = map_of (map (\<lambda>l. (l_path l, \<lparr>rec_offset = l_sourceOffset l, rec_size = l_size l\<rparr>)) ls) p) \<and>
     length ls = length (m_files v) \<and> total_size ls = file_bytes v"

lemma plan_of_volume:
  assumes "vol_inv v d" "sorts_by_offset Sort" "gather_layouts v (m_files v) [] = Some gs"
    "plan_layouts (Sort gs) (m_metadataBytes v) (m_metadataBytes v) [] = Some (ls, w)"
  shows "plans v ls \<and> w = m_metadataBytes v + file_bytes v"
proof -
  have g: "map source_of gs = map (\<lambda>(p, r). (p, rec_offset r, rec_size r)) (m_files v)"
    using gather_layouts_Some [OF assms(3)] by auto
  have p: "plan_ok (m_metadataBytes v) (m_metadataBytes v) ls" "w = m_metadataBytes v + total_size ls"
    "map source_of ls = map source_of (Sort gs)"
    using plan_layouts_Some [OF assms(4)] by auto
  have perm: "mset (map source_of ls) = mset (map (\<lambda>(p, r). (p, rec_offset r, rec_size r)) (m_files v))"
    unfolding p(3) g [symmetric] using assms(2) by (simp add: sorts_by_offset_def)
  have paths: "map l_path ls = map fst (map source_of ls)" by (simp add: comp_def)
  have dist: "distinct (map fst (m_files v))" using assms(1) by (simp add: vol_inv_def records_ok_def)
  have "mset (map l_path ls) = mset (map fst (m_files v))"
    unfolding paths using arg_cong [OF perm, of "image_mset fst"] by (simp add: multiset.map_comp comp_def case_prod_unfold)
  then have dl: "distinct (map l_path ls)" using dist mset_eq_imp_distinct_iff by blast
  have sz: "mset (map l_size ls) = mset (map (\<lambda>(p, r). rec_size r) (m_files v))"
    using arg_cong [OF perm, of "image_mset (snd \<circ> snd)"] by (simp add: multiset.map_comp comp_def case_prod_unfold)
  then have total: "total_size ls = file_bytes v" unfolding total_size_def file_bytes_def by (metis sum_mset_sum_list)
  let ?es = "map (\<lambda>l. (l_path l, \<lparr>rec_offset = l_sourceOffset l, rec_size = l_size l\<rparr>)) ls"
  have "mset ?es = mset (m_files v)"
    using arg_cong [OF perm, of "image_mset (\<lambda>(p, a, b). (p, \<lparr>rec_offset = a, rec_size = b\<rparr>))"]
    by (simp add: record_fields multiset.map_comp comp_def case_prod_unfold)
  moreover have "distinct (map fst ?es)" using dl by (simp add: comp_def)
  moreover have "set ?es = set (m_files v)" using \<open>mset ?es = mset (m_files v)\<close> by (rule mset_eq_setD)
  ultimately have "map_of (m_files v) q = map_of ?es q" for q
    using dist map_of_inject_set [of ?es "m_files v"] by simp
  moreover have "length ls = length (m_files v)" using mset_eq_length [OF perm] by simp
  ultimately show ?thesis using p(1,2) dl total by (simp add: plans_def)
qed

text \<open>The volume after the moves, with the records of the plan.\<close>

lemma plan_records:
  assumes "plans v ls" "map_of (m_files v) p = Some r"
  obtains l where "l \<in> set ls" "l_path l = p" "l_sourceOffset l = rec_offset r" "l_size l = rec_size r"
proof -
  have "map_of (map (\<lambda>l. (l_path l, \<lparr>rec_offset = l_sourceOffset l, rec_size = l_size l\<rparr>)) ls) p = Some r"
    using assms by (simp add: plans_def)
  then have "(p, r) \<in> set (map (\<lambda>l. (l_path l, \<lparr>rec_offset = l_sourceOffset l, rec_size = l_size l\<rparr>)) ls)"
    by (rule map_of_SomeD)
  then show thesis using that by auto
qed

lemma plan_layout:
  assumes "plans v ls" "l \<in> set ls"
  shows "map_of (m_files v) (l_path l) = Some \<lparr>rec_offset = l_sourceOffset l, rec_size = l_size l\<rparr>"
proof -
  have "distinct (map fst (map (\<lambda>l. (l_path l, \<lparr>rec_offset = l_sourceOffset l, rec_size = l_size l\<rparr>)) ls))"
    using assms(1) by (simp add: plans_def comp_def)
  then show ?thesis using assms by (simp add: plans_def)
qed

lemma plan_find:
  assumes "plans v ls" "l \<in> set ls"
  shows "find (\<lambda>x. l_path x = l_path l) ls = Some l"
proof -
  have "find (\<lambda>x. l_path x = l_path l) ls \<noteq> None" using assms(2) by (auto simp: find_None_iff)
  then obtain x where x: "find (\<lambda>x. l_path x = l_path l) ls = Some x" by auto
  then have "x \<in> set ls" "l_path x = l_path l" by (auto simp: find_Some_iff)
  moreover have "inj_on l_path (set ls)" using assms(1) by (simp add: plans_def distinct_map)
  ultimately show ?thesis using x assms(2) by (auto dest: inj_onD)
qed

lemma plan_none:
  assumes "plans v ls" "find (\<lambda>l. l_path l = p) ls = None"
  shows "map_of (m_files v) p = None"
proof (rule ccontr)
  assume "map_of (m_files v) p \<noteq> None"
  then obtain r where "map_of (m_files v) p = Some r" by auto
  then obtain l where "l \<in> set ls" "l_path l = p" using plan_records [OF assms(1)] by blast
  then show False using assms(2) by (auto simp: find_None_iff)
qed

lemma apply_plan:
  assumes "plans v ls"
  shows "map_of (apply_layouts ls (m_files v)) p =
    (case find (\<lambda>l. l_path l = p) ls of None \<Rightarrow> None
     | Some l \<Rightarrow> Some \<lparr>rec_offset = l_destinationOffset l, rec_size = l_size l\<rparr>)"
  using assms plan_none [OF assms] by (auto simp: apply_layouts_map plans_def split: option.split)

lemma moved_inv:
  assumes inv: "vol_inv v d" and plan: "plans v ls" and mv: "move_layouts ls v d = (True, v1, d1)"
  defines "v2 \<equiv> v1\<lparr>m_files := apply_layouts ls (m_files v1), m_nextFreeOffset := m_metadataBytes v + file_bytes v\<rparr>"
  shows "vol_inv v2 d1" "content v2 d1 = content v d" "extends v v1"
proof -
  let ?m = "m_metadataBytes v"
  have p: "plan_ok ?m ?m ls" "total_size ls = file_bytes v" using plan by (auto simp: plans_def)
  have src: "?m \<le> l_sourceOffset l \<and> l_sourceOffset l + l_size l \<le> m_nextFreeOffset v \<and> length (l_path l) = 8"
    if "l \<in> set ls" for l
  proof -
    have "\<forall>p r. map_of (m_files v) p = Some r \<longrightarrow> length p = 8 \<and> ?m \<le> rec_offset r \<and> rec_offset r + rec_size r \<le> m_nextFreeOffset v"
      using inv by (simp add: vol_inv_def records_ok_def)
    then show ?thesis using plan_layout [OF plan that] by fastforce
  qed
  have r: "\<forall>l\<in>set ls. readable v d (l_sourceOffset l) (l_size l)"
    using src inv readable_mono [of v d 0 "m_nextFreeOffset v"] by (auto simp: vol_inv_def)
  have ok: "segments_ok v" "?m \<le> m_nextFreeOffset v" using inv by (simp_all add: vol_inv_def)
  note mve = move_layouts_effect [OF mv ok(1) p(1) order_refl r]
  show e: "extends v v1" using mve by simp
  note f = extends_fields [OF e]
  have moved: "moved_to (l_destinationOffset l) (l_sourceOffset l) (l_size l) v d v1 d1" if "l \<in> set ls" for l
    using mve that by simp
  have dst: "?m \<le> l_destinationOffset l \<and> l_destinationOffset l + l_size l \<le> ?m + file_bytes v" if "l \<in> set ls" for l
    using plan_bounds [OF p(1) that] p(2) by simp
  have "?m + file_bytes v \<le> m_nextFreeOffset v" using plan_end [OF p(1) order_refl ok(2)] src p(2) by simp
  then have all: "readable v1 d1 0 (?m + file_bytes v)"
    using inv keeps_readable [OF mve [THEN conjunct2, THEN conjunct1], of 0 "m_nextFreeOffset v"]
      readable_mono [of v1 d1 0 "m_nextFreeOffset v" 0 "?m + file_bytes v"] by (simp add: vol_inv_def)
  note ap = apply_plan [OF plan, folded f(5)]
  have dist: "distinct (map fst (apply_layouts ls (m_files v1)))"
    using inv f(5) by (simp add: distinct_apply_layouts vol_inv_def records_ok_def)
  have dom: "map_of (apply_layouts ls (m_files v1)) q = None \<longleftrightarrow> map_of (m_files v) q = None" for q
  proof (cases "find (\<lambda>l. l_path l = q) ls")
    case None
    then have "map_of (m_files v) q = None" by (rule plan_none [OF plan])
    then show ?thesis using None ap [of q] by simp
  next
    case (Some l)
    then have "l \<in> set ls" "l_path l = q" by (auto simp: find_Some_iff)
    then show ?thesis using Some ap [of q] plan_layout [OF plan, of l] by simp
  qed
  then have "dom (map_of (apply_layouts ls (m_files v1))) = dom (map_of (m_files v))" unfolding dom_def by simp
  then have len: "length (apply_layouts ls (m_files v1)) = length (m_files v)"
    using inv length_distinct_map [OF dist] length_distinct_map [of "m_files v"] by (simp add: vol_inv_def records_ok_def)
  have rec: "\<exists>l\<in>set ls. l_path l = q \<and> s = \<lparr>rec_offset = l_destinationOffset l, rec_size = l_size l\<rparr>"
    if "map_of (apply_layouts ls (m_files v1)) q = Some s" for q s
    using that unfolding ap by (auto simp: find_Some_iff split: option.splits)
  have recs: "length q = 8 \<and> ?m \<le> rec_offset s \<and> rec_offset s + rec_size s \<le> ?m + file_bytes v"
    if "map_of (apply_layouts ls (m_files v1)) q = Some s" for q s
    using rec [OF that] dst src by auto
  have "m_segmentPaths v1 \<noteq> []" using inv f(8) by (auto simp: vol_inv_def)
  then show "vol_inv v2 d1"
    using inv f all dist len recs by (simp add: v2_def vol_inv_def records_ok_def)
  show "content v2 d1 = content v d"
  proof
    fix q
    show "content v2 d1 q = content v d q"
    proof (cases "map_of (m_files v) q")
      case None
      then have "map_of (apply_layouts ls (m_files v1)) q = None" using dom [of q] by simp
      then show ?thesis using None by (simp add: content_def v2_def)
    next
      case (Some s)
      then obtain l where l: "l \<in> set ls" "l_path l = q" "l_sourceOffset l = rec_offset s" "l_size l = rec_size s"
        using plan_records [OF plan] by blast
      have "map_of (apply_layouts ls (m_files v1)) q = Some \<lparr>rec_offset = l_destinationOffset l, rec_size = l_size l\<rparr>"
        using plan_find [OF plan l(1)] l(2) ap [of q] by simp
      then show ?thesis using Some moved [OF l(1)] l(3,4) by (simp add: content_def v2_def moved_to_def)
    qed
  qed
qed

lemma readable_sources:
  assumes "vol_inv v d" "plans v ls"
  shows "\<forall>l\<in>set ls. readable v d (l_sourceOffset l) (l_size l)"
proof
  fix l assume "l \<in> set ls"
  then have "l_sourceOffset l + l_size l \<le> m_nextFreeOffset v"
    using plan_layout [OF assms(2)] assms(1) unfolding vol_inv_def records_ok_def by fastforce
  then show "readable v d (l_sourceOffset l) (l_size l)"
    using assms(1) readable_mono [of v d 0 "m_nextFreeOffset v"] by (simp add: vol_inv_def)
qed

lemma separate_plan:
  assumes "vol_inv v d" "capacity v \<le> u64_max" "separate v" "sorts_by_offset Sort"
  shows "\<exists>gs ls w. gather_layouts v (m_files v) [] = Some gs \<and>
    plan_layouts (Sort gs) (m_metadataBytes v) (m_metadataBytes v) [] = Some (ls, w)"
proof -
  have dist: "distinct (map fst (m_files v))" and recs: "\<forall>(p, r)\<in>set (m_files v). m_metadataBytes v \<le> rec_offset r \<and>
      rec_offset r + rec_size r \<le> m_nextFreeOffset v"
    using assms(1) by (auto simp: vol_inv_def records_ok_def)
  have nu: "m_nextFreeOffset v \<le> u64_max" using inv_capacity [OF assms(1)] assms(2) by simp
  obtain gs where gs: "gather_layouts v (m_files v) [] = Some gs" using gather_layouts_ok [OF recs nu] by blast
  have g: "map source_of gs = map (\<lambda>(p, r). (p, rec_offset r, rec_size r)) (m_files v)"
    "\<forall>l\<in>set gs. m_metadataBytes v \<le> l_sourceOffset l \<and> l_sourceOffset l + l_size l \<le> m_nextFreeOffset v"
    using gather_layouts_Some [OF gs] by auto
  have map: "map_of (m_files v) (l_path l) = Some \<lparr>rec_offset = l_sourceOffset l, rec_size = l_size l\<rparr>" if "l \<in> set gs" for l
  proof -
    have "source_of l \<in> set (map source_of gs)" using that by simp
    then have "(l_path l, \<lparr>rec_offset = l_sourceOffset l, rec_size = l_size l\<rparr>) \<in> set (m_files v)"
      unfolding g(1) by (auto simp: record_fields)
    then show ?thesis using dist by simp
  qed
  have "distinct (map l_path gs)"
    using dist arg_cong [OF g(1), of "map fst"] by (simp add: comp_def case_prod_unfold)
  moreover have "mset (map l_path (Sort gs)) = mset (map l_path gs)" using assms(4) by (simp add: sorts_by_offset_def)
  ultimately have ds: "distinct (map l_path (Sort gs))" by (metis mset_eq_imp_distinct_iff)
  have sorted: "sorted_wrt (\<lambda>a b. l_sourceOffset a \<le> l_sourceOffset b) (Sort gs)" using assms(4) by (simp add: sorts_by_offset_def)
  have "sorted_wrt (\<lambda>a b. l_sourceOffset a + l_size a \<le> l_sourceOffset b) (Sort gs)"
    unfolding sorted_wrt_iff_nth_less
  proof (intro allI impI)
    fix i j assume ij: "i < j" "j < length (Sort gs)"
    let ?a = "Sort gs ! i" and ?b = "Sort gs ! j"
    have mem: "?a \<in> set gs" "?b \<in> set gs" using ij sorts_set [OF assms(4)] by (metis nth_mem order_less_trans)+
    have "l_path ?a \<noteq> l_path ?b" using ds ij by (simp add: distinct_conv_nth)
    moreover have "l_sourceOffset ?a \<le> l_sourceOffset ?b" using sorted ij by (simp add: sorted_wrt_iff_nth_less)
    ultimately show "l_sourceOffset ?a + l_size ?a \<le> l_sourceOffset ?b"
      using assms(3) map [OF mem(1)] map [OF mem(2)] unfolding separate_def by fastforce
  qed
  then have "plan_layouts (Sort gs) (m_metadataBytes v) (m_metadataBytes v) [] \<noteq> None"
    by (rule plan_layouts_ok) (use g(2) nu sorts_set [OF assms(4)] in auto)
  then show ?thesis using gs by auto
qed

text \<open>What compaction does, and what a completed one leaves on disk.\<close>

lemma compact_result:
  assumes "vol_inv v d" "sorts_by_offset Sort" "compact Sort shrinkSegments v d = (b, v1, d1)"
  shows "(b \<longrightarrow> vol_inv v1 d1 \<and> content v1 d1 = content v d \<and>
      m_nextFreeOffset v1 = m_metadataBytes v1 + file_bytes v \<and> m_mounted v1 = m_mounted v \<and> stored v1 d1) \<and>
    (host_ok v d \<longrightarrow> (if b then host_ok v1 d1 else v1 = v \<and> d1 = d) \<and> (m_mounted v \<and> m_writable v \<and> separate v \<longrightarrow> b))"
proof (cases "\<exists>gs ls w. m_mounted v \<and> m_writable v \<and> gather_layouts v (m_files v) [] = Some gs \<and>
    plan_layouts (Sort gs) (m_metadataBytes v) (m_metadataBytes v) [] = Some (ls, w)")
  case False
  then have "\<not> b \<and> v1 = v \<and> d1 = d" using assms(3) by (auto simp: compact_def split: if_splits option.splits)
  then show ?thesis using separate_plan [OF assms(1) _ _ assms(2)] False by (auto simp: host_ok_def)
next
  case True
  then obtain gs ls w where g: "m_mounted v" "m_writable v" "gather_layouts v (m_files v) [] = Some gs"
    "plan_layouts (Sort gs) (m_metadataBytes v) (m_metadataBytes v) [] = Some (ls, w)" by blast
  have plan: "plans v ls" and w: "w = m_metadataBytes v + file_bytes v"
    using plan_of_volume [OF assms(1,2) g(3,4)] by auto
  have ok: "segments_ok v" using assms(1) by (simp add: vol_inv_def)
  obtain m v2 d2 where mv: "move_layouts ls v d = (m, v2, d2)" by (metis prod_cases3)
  have live_move: "m \<and> v2 = v \<and> host_ok v d2" if "host_ok v d"
    using move_layouts_ok [OF mv ok _ order_refl readable_sources [OF assms(1) plan], of "m_metadataBytes v"] that plan
    by (simp add: host_ok_def plans_def)
  show ?thesis
  proof (cases m)
    case False
    then have "\<not> b" using assms(3) g mv by (simp add: compact_def)
    then show ?thesis using live_move False by blast
  next
    case moved: True
    let ?v = "v2\<lparr>m_files := apply_layouts ls (m_files v2), m_nextFreeOffset := w\<rparr>"
    have inv: "vol_inv ?v d2" "content ?v d2 = content v d" and e2: "extends v v2"
      using moved_inv [OF assms(1) plan] mv moved w by auto
    obtain f v3 d3 where fl: "flushMetadataLocked ?v d2 = (f, v3, d3)" by (metis prod_cases3)
    note fi = flush_inv [OF inv(1) fl]
    note f3 = extends_fields [OF fi [THEN conjunct2, THEN conjunct2]]
    have live_flush: "f \<and> v3 = ?v \<and> host_ok ?v d3" if "host_ok v d"
      using flush_ok [OF inv(1) _ fl] live_move [OF that] by simp
    show ?thesis
    proof (cases f)
      case False
      then have "\<not> b" using assms(3) g mv moved fl by (simp add: compact_def)
      then show ?thesis using live_flush False by blast
    next
      case flushed: True
      have size: "m_nextFreeOffset v3 = m_metadataBytes v3 + file_bytes v" "m_mounted v3 = m_mounted v" "m_writable v3 = m_writable v"
        using f3 w extends_fields [OF e2] by simp_all
      have st: "stored v3 d3" by (rule flush_stored [OF inv(1)]) (use fl flushed in simp)
      have nf: "m_metadataBytes v3 \<le> m_nextFreeOffset v3" using fi by (simp add: vol_inv_def)
      have r: "(b, v1, d1) = (if \<not> shrinkSegments then (True, v3, d3) else trimSegmentsForNextFreeOffsetLocked v3 d3)"
        using assms(3) g mv moved fl flushed by (simp add: compact_def)
      show ?thesis
      proof (cases shrinkSegments)
        case False
        then show ?thesis using r fi inv(2) size live_flush st by auto
      next
        case True
        then have t: "trimSegmentsForNextFreeOffsetLocked v3 d3 = (b, v1, d1)" using r by simp
        have "b \<and> host_ok v1 d1" if "host_ok v d"
          by (rule trim_ok [OF t]) (use fi live_flush [OF that] size(3) g(2) in auto)
        moreover note te = trim_effect [OF t fi [THEN conjunct1]]
        moreover have "stored v1 d1" by (rule cut_stored [OF _ nf st]) (use te in simp)
        ultimately show ?thesis using inv(2) fi size cut_fields [of "m_nextFreeOffset v3" v3 d3 v1 d1] by auto
      qed
    qed
  qed
qed

text \<open>C17: Compaction that succeeds keeps the content of every name, leaves no gap between the files,
  and writes the index that describes them. Whatever order the sort gives to equal offsets, without
  failures of the host it succeeds on files that are not empty and share no byte, and when it fails there
  it changes nothing.\<close>

theorem compact_correct:
  assumes "vol_inv v d" "sorts_by_offset Sort" "compact Sort shrinkSegments v d = (b, v1, d1)"
  shows "(b \<longrightarrow> vol_inv v1 d1 \<and> content v1 d1 = content v d \<and>
      m_nextFreeOffset v1 = m_metadataBytes v1 + file_bytes v \<and> m_mounted v1 = m_mounted v \<and> stored v1 d1) \<and>
    (host_ok v d \<longrightarrow> (if b then host_ok v1 d1 else v1 = v \<and> d1 = d) \<and> (m_mounted v \<and> m_writable v \<and> separate v \<longrightarrow> b))"
  using assms by (rule compact_result)

lemma sort_key_sorts: "sorts_by_offset (sort_key l_sourceOffset)"
  using sorted_sort_key [of l_sourceOffset] by (auto simp: sorts_by_offset_def sorted_map)

theorem compact_correct_witness:
  "case compact (sort_key l_sourceOffset) True sample_volume sample_disk of (b, v1, d1) \<Rightarrow>
     b \<and> vol_inv v1 d1 \<and> host_ok v1 d1 \<and> content v1 d1 = content sample_volume sample_disk \<and> m_nextFreeOffset v1 = m_metadataBytes v1 + 3"
proof -
  obtain b v1 d1 where c: "compact (sort_key l_sourceOffset) True sample_volume sample_disk = (b, v1, d1)" by (metis prod_cases3)
  have "m_mounted sample_volume" "m_writable sample_volume" "separate sample_volume" "file_bytes sample_volume = 3"
    by (simp_all add: sample_volume_def separate_def file_bytes_def)
  then show ?thesis using compact_correct [OF sample_inv sort_key_sorts c] sample_host c by auto
qed

text \<open>
  Two layouts at one offset, which an empty file and its successor have: whether the plan goes through
  depends on their order, which the sorting leaves open.
\<close>

lemma empty_file_order:
  fixes empty full :: FileLayout
  assumes "l_sourceOffset empty = l_sourceOffset full" "l_size empty = 0" "0 < l_size full" "l_sourceOffset full + l_size full \<le> u64_max"
  shows "plan_layouts [empty, full] (l_sourceOffset full) (l_sourceOffset full) [] \<noteq> None"
    "plan_layouts [full, empty] (l_sourceOffset full) (l_sourceOffset full) [] = None"
  using assms by (simp_all add: add_u64_def)

end
