(* ===== verification/Volume_Mount.thy ===== *)
theory Volume_Mount
  imports Volume_Compact
begin

text \<open>
  Mounting: the index that a flush writes is the one that a mount reads, and a volume that mounts is in
  order whatever bytes were found on disk.
\<close>

section \<open>The bytes of the index\<close>

lemma u64_at_bytes:
  assumes "n \<le> u64_max"
  shows "u64_at (pre @ u64_bytes n @ suf) (length pre) = n"
proof -
  have "n < 2 ^ 64" using assms by (simp add: u64_max_def)
  then show ?thesis by (simp add: u64_at_def u64_bytes_def le_u64 unat_small_u64)
qed

lemma length_u64_bytes [simp]: "length (u64_bytes n) = 8"
  by (simp add: u64_bytes_def)

definition header_ok :: "VolumeHeaderDisk \<Rightarrow> bool" where
  "header_ok h \<longleftrightarrow> length (h_magic h) = 8 \<and> h_segmentSize h \<le> u64_max \<and> h_metadataBytes h \<le> u64_max \<and>
     h_fileCount h \<le> u64_max \<and> h_indexBytes h \<le> u64_max \<and> h_nextFreeOffset h \<le> u64_max"

lemma header_of_bytes:
  assumes "header_ok h"
  shows "header_of (header_bytes h @ rest) = h"
proof -
  note at = u64_at_bytes [of "h_segmentSize h" "h_magic h"]
    u64_at_bytes [of "h_metadataBytes h" "h_magic h @ u64_bytes (h_segmentSize h)"]
    u64_at_bytes [of "h_fileCount h" "h_magic h @ u64_bytes (h_segmentSize h) @ u64_bytes (h_metadataBytes h)"]
    u64_at_bytes [of "h_indexBytes h" "h_magic h @ u64_bytes (h_segmentSize h) @ u64_bytes (h_metadataBytes h) @ u64_bytes (h_fileCount h)"]
    u64_at_bytes [of "h_nextFreeOffset h" "h_magic h @ u64_bytes (h_segmentSize h) @ u64_bytes (h_metadataBytes h) @
      u64_bytes (h_fileCount h) @ u64_bytes (h_indexBytes h)"]
  show ?thesis using at assms by (simp add: header_of_def header_bytes_def header_ok_def)
qed

lemma take_concat_lanes:
  "i < length h \<Longrightarrow> take 8 (drop (8 * i) (concat (map (le_bytes 8) h) @ r)) = le_bytes 8 (h ! i :: u64)"
proof (induction h arbitrary: i)
  case (Cons a h)
  then show ?case by (cases i) simp_all
qed simp

lemma length_lanes: "length (concat (map (le_bytes 8) (h :: NameHash))) = 8 * length h"
  by (induction h) simp_all

lemma entry_of_bytes:
  assumes "length (fst e) = 8" "rec_offset (snd e) \<le> u64_max" "rec_size (snd e) \<le> u64_max"
  shows "entry_of (entry_bytes e @ rest) = e"
proof -
  let ?l = "concat (map (le_bytes 8) (fst e))"
  have l: "length ?l = 64" using assms(1) by (simp add: length_lanes)
  have lane: "le_value (take 8 (drop (8 * i) (entry_bytes e @ rest))) = fst e ! i" if "i < 8" for i
    using that assms(1) take_concat_lanes [of i "fst e" "u64_bytes (rec_offset (snd e)) @ u64_bytes (rec_size (snd e)) @ rest"]
    by (simp add: entry_bytes_def le_u64)
  have "map (\<lambda>i. le_value (take 8 (drop (8 * i) (entry_bytes e @ rest)))) [0..<8] = map ((!) (fst e)) [0..<8]"
    using lane by (intro map_cong) auto
  then have "map (\<lambda>i. le_value (take 8 (drop (8 * i) (entry_bytes e @ rest)))) [0..<8] = fst e"
    using assms(1) map_nth [of "fst e"] by metis
  moreover have "u64_at (entry_bytes e @ rest) 64 = rec_offset (snd e)"
    using u64_at_bytes [OF assms(2), of ?l] l by (simp add: entry_bytes_def)
  moreover have "u64_at (entry_bytes e @ rest) 72 = rec_size (snd e)"
    using u64_at_bytes [OF assms(3), of "?l @ u64_bytes (rec_offset (snd e))"] l by (simp add: entry_bytes_def)
  ultimately show ?thesis by (simp add: entry_of_def record_fields)
qed

section \<open>Loading entries\<close>

lemma load_entries_ok:
  assumes "\<forall>e\<in>set es. length (fst e) = 8 \<and> h_metadataBytes h \<le> rec_offset (snd e) \<and>
      rec_offset (snd e) + rec_size (snd e) \<le> h_nextFreeOffset h"
    "distinct (map fst es)" "fst ` set es \<inter> fst ` set loaded = {}" "h_nextFreeOffset h \<le> u64_max"
    "h_indexBytes h = length pre + length es * sizeof_entry"
  shows "load_entries h (pre @ concat (map entry_bytes es)) (length es) (length pre) loaded =
    Some (rev es @ loaded, h_indexBytes h)"
  using assms
proof (induction es arbitrary: pre loaded)
  case (Cons e es)
  have e: "length (fst e) = 8" "h_metadataBytes h \<le> rec_offset (snd e)" "rec_offset (snd e) + rec_size (snd e) \<le> h_nextFreeOffset h"
    using Cons.prems(1) by simp_all
  have eo: "entry_of (entry_bytes e @ rest) = e" for rest
    by (rule entry_of_bytes) (use e Cons.prems(4) in auto)
  have len: "length (entry_bytes e) = sizeof_entry" using e(1) by (rule length_entry_bytes)
  have new: "map_of loaded (fst e) = None" using Cons.prems(3) by (auto simp: map_of_eq_None_iff)
  have "load_entries h ((pre @ entry_bytes e) @ concat (map entry_bytes es)) (length es) (length (pre @ entry_bytes e)) (e # loaded) =
      Some (rev es @ e # loaded, h_indexBytes h)"
    by (rule Cons.IH) (use Cons.prems len in auto)
  then show ?case
    using e new Cons.prems(4,5) len eo
    by (simp add: add_u64_def case_prod_unfold Let_def)
qed simp

lemma load_entries_safe:
  assumes "load_entries h indexData n cursor loaded = Some (fs, c)" "distinct (map fst loaded)"
    "\<forall>e\<in>set loaded. length (fst e) = 8 \<and> h_metadataBytes h \<le> rec_offset (snd e) \<and>
      rec_offset (snd e) + rec_size (snd e) \<le> h_nextFreeOffset h"
  shows "distinct (map fst fs) \<and> length fs = n + length loaded \<and>
    (\<forall>e\<in>set fs. length (fst e) = 8 \<and> h_metadataBytes h \<le> rec_offset (snd e) \<and>
      rec_offset (snd e) + rec_size (snd e) \<le> h_nextFreeOffset h)"
  using assms
proof (induction h indexData n cursor loaded rule: load_entries.induct)
  case (2 h indexData n cursor loaded)
  obtain p r where e: "entry_of (drop cursor indexData) = (p, r)" by fastforce
  have len: "length p = 8" using e by (auto simp: entry_of_def)
  have g: "h_metadataBytes h \<le> rec_offset r" "rec_offset r + rec_size r \<le> h_nextFreeOffset h" "rec_offset r + rec_size r \<le> u64_max"
    "map_of loaded p = None" "\<not> h_indexBytes h - cursor < sizeof_entry"
    "load_entries h indexData n (cursor + sizeof_entry) ((p, r) # loaded) = Some (fs, c)"
    using "2.prems"(1) e by (auto simp: add_u64_def split: if_splits)
  have "distinct (map fst fs) \<and> length fs = n + length ((p, r) # loaded) \<and>
    (\<forall>e\<in>set fs. length (fst e) = 8 \<and> h_metadataBytes h \<le> rec_offset (snd e) \<and>
      rec_offset (snd e) + rec_size (snd e) \<le> h_nextFreeOffset h)"
    by (rule "2.IH" [OF g(5) refl e [symmetric] refl _ _ _ _ g(6)])
      (use g len "2.prems"(2,3) in \<open>auto simp: add_u64_def map_of_eq_None_iff\<close>)
  then show ?case by simp
qed simp

section \<open>Segments found on disk\<close>

lemma same_bytes:
  "m_segmentSize w = m_segmentSize v \<Longrightarrow> m_segmentPaths w = m_segmentPaths v \<Longrightarrow> byte_at w d a = byte_at v d a"
  by (simp add: byte_at_def split: option.split)

text \<open>The segments in use have the right sizes; other files may lie around.\<close>

definition sized :: "'n Volume \<Rightarrow> Disk \<Rightarrow> bool" where
  "sized v d \<longleftrightarrow> (\<forall>i<length (m_segmentPaths v). \<exists>f. file_at d i = Some f \<and> 0 < length f \<and> length f \<le> m_segmentSize v \<and>
     (Suc i < length (m_segmentPaths v) \<longrightarrow> length f = m_segmentSize v))"

lemma exact_sized: "exact v d \<Longrightarrow> sized v d"
  unfolding sized_def by (metis exact_None exact_Some not_le option.exhaust)

lemma sized_readable:
  assumes "segments_ok v" "sized v d" "m_segmentPaths v \<noteq> []" "file_at d (length (m_segmentPaths v) - 1) = Some f"
    "n \<le> (length (m_segmentPaths v) - 1) * m_segmentSize v + length f"
  shows "readable v d 0 n"
  unfolding readable_def
proof (intro allI impI)
  fix a assume a: "a < n"
  define S l where "S = m_segmentSize v" and "l = length (m_segmentPaths v) - 1"
  have S: "0 < S" using assms(1) by (simp add: segments_ok_def S_def)
  have l: "length (m_segmentPaths v) = Suc l" using assms(3) by (simp add: l_def)
  have f: "length f \<le> S" using assms(2,4) l by (auto simp: sized_def S_def)
  have i: "a div S < Suc l" using a assms(5) f S by (intro capacity_chunk) (auto simp: S_def l_def)
  obtain g where g: "file_at d (a div S) = Some g" "a div S < l \<longrightarrow> length g = S"
    using assms(2) i l by (auto simp: sized_def S_def)
  have "a mod S < length g"
  proof (cases "a div S < l")
    case True
    then show ?thesis using g(2) S by simp
  next
    case False
    then have "a div S = l" using i by simp
    then have "g = f" using g(1) assms(4) l by simp
    note \<open>a div S = l\<close>
    then show ?thesis
      using \<open>g = f\<close> a assms(5) div_mult_mod_eq [of a S] by (simp add: S_def [symmetric] l)
  qed
  then show "byte_at v d (0 + a) \<noteq> None"
    using g(1) i l segment_path [OF assms(1), of "a div S"] by (simp add: byte_at_def S_def)
qed

lemma readable_physical:
  assumes "segments_ok v" "exact v d" "readable v d 0 n" "0 < n"
    "file_at d (length (m_segmentPaths v) - 1) = Some f"
  shows "n \<le> (length (m_segmentPaths v) - 1) * m_segmentSize v + length f"
proof -
  define S l a where "S = m_segmentSize v" and "l = length (m_segmentPaths v) - 1" and "a = n - 1"
  have S: "0 < S" using assms(1) by (simp add: segments_ok_def S_def)
  have "byte_at v d a \<noteq> None" using assms(3,4) by (auto simp: readable_def a_def)
  then have i: "a div S < length (m_segmentPaths v)" by (simp add: byte_at_def S_def split: if_splits)
  then obtain g where g: "file_at d (a div S) = Some g" "a mod S < length g"
    using \<open>byte_at v d a \<noteq> None\<close> segment_path [OF assms(1)] by (auto simp: byte_at_def S_def split: option.splits if_splits)
  have "a < l * S + length f"
  proof (cases "a div S = l")
    case True
    then have "g = f" using g(1) assms(5) by (simp add: l_def)
    then show ?thesis using True g(2) div_mult_mod_eq [of a S] by simp
  next
    case False
    then have "a div S < l" using i by (simp add: l_def)
    then have "Suc (a div S) * S \<le> l * S" by (intro mult_le_mono1) simp
    then show ?thesis using div_mult_mod_eq [of a S] mod_less_divisor [OF S, of a] by (simp only: mult_Suc)
  qed
  then show ?thesis using assms(4) by (simp add: S_def l_def a_def)
qed

lemma physical_Some:
  assumes "computePhysicalCapacityLocked v d = (Some c, d1)" "segments_ok v"
  shows "d_segments d1 = d_segments d \<and> m_segmentPaths v \<noteq> [] \<and>
    (\<exists>f. file_at d (length (m_segmentPaths v) - 1) = Some f \<and>
       c = (length (m_segmentPaths v) - 1) * m_segmentSize v + length f)"
proof -
  have ne: "m_segmentPaths v \<noteq> []" using assms(1) by (auto simp: computePhysicalCapacityLocked_def split: if_splits)
  then have last: "last (m_segmentPaths v) = length (m_segmentPaths v) - 1"
    using segment_path [OF assms(2), of "length (m_segmentPaths v) - 1"] by (simp add: last_conv_nth)
  show ?thesis
    using assms(1) ne
    by (auto simp: computePhysicalCapacityLocked_def FileSize_def add_u64_def Let_def last dest!: syscall_segments
        split: if_splits prod.splits option.splits)
qed

section \<open>Loading the metadata\<close>

lemma loadMetadata_segments:
  assumes "loadMetadataLocked v d = (b, v1, d1)" "segments_ok v"
  shows "d_segments d1 = d_segments d"
proof -
  obtain r da where r: "readBytesLocked v 0 sizeof_header d = (r, da)" by fastforce
  obtain c db where c: "computePhysicalCapacityLocked v da = (c, db)" by fastforce
  have seg: "d_segments da = d_segments d" "d_segments db = d_segments da"
    using readBytes_result [OF assms(2) r] c
    by (auto simp: computePhysicalCapacityLocked_def FileSize_def Let_def dest!: syscall_segments
        split: if_splits prod.splits option.splits)
  have "d1 = da \<or> d1 = db \<or> (\<exists>n x. readBytesLocked v sizeof_header n db = (x, d1))"
    using assms(1) r c unfolding loadMetadataLocked_def Let_def
    by (auto split: option.splits if_splits prod.splits)
  then show ?thesis using seg readBytes_result [OF assms(2)] by fastforce
qed

text \<open>What a successful load has checked.\<close>

lemma loadMetadata_safe:
  assumes "loadMetadataLocked v d = (True, v1, d1)" "segments_ok v" "sized v d"
  shows "vol_inv v1 d1 \<and> d_segments d1 = d_segments d \<and>
    v1 = v\<lparr>m_metadataBytes := m_metadataBytes v1, m_nextFreeOffset := m_nextFreeOffset v1, m_files := m_files v1\<rparr>"
proof -
  obtain b da where b: "readBytesLocked v 0 sizeof_header d = (Some b, da)"
    using assms(1) by (auto simp: loadMetadataLocked_def split: prod.splits option.splits)
  define h where "h = header_of b"
  obtain c db where c: "computePhysicalCapacityLocked v da = (Some c, db)"
    using assms(1) b by (auto simp: loadMetadataLocked_def Let_def split: prod.splits option.splits if_splits)
  obtain ib dc where ib: "readBytesLocked v sizeof_header (h_indexBytes h) db = (Some ib, dc)"
    using assms(1) b c by (auto simp: loadMetadataLocked_def Let_def h_def split: prod.splits option.splits if_splits)
  obtain fs k where fs: "load_entries h ib (h_fileCount h) 0 [] = Some (fs, k)"
    using assms(1) b c ib by (auto simp: loadMetadataLocked_def Let_def h_def split: prod.splits option.splits if_splits)
  have g: "sizeof_header < h_metadataBytes h" "h_metadataBytes h < m_segmentSize v"
    "sizeof_header + h_indexBytes h \<le> h_metadataBytes h" "h_metadataBytes h \<le> h_nextFreeOffset h" "h_nextFreeOffset h \<le> c"
    "h_indexBytes h = h_fileCount h * sizeof_entry"
    "v1 = v\<lparr>m_metadataBytes := h_metadataBytes h, m_nextFreeOffset := h_nextFreeOffset h, m_files := fs\<rparr>" "d1 = dc"
    using assms(1) b c ib fs
    by (auto simp: loadMetadataLocked_def Let_def h_def add_u64_def ComputeVolumeIndexBytes_def not_less
        split: prod.splits option.splits if_splits)
  have seg: "d_segments da = d_segments d" "d_segments db = d_segments da" "d_segments dc = d_segments db"
    using readBytes_result [OF assms(2) b] physical_Some [OF c assms(2)] readBytes_result [OF assms(2) ib] by auto
  have same: "d_segments d1 = d_segments d" using seg g(8) by simp
  obtain f where f: "file_at d (length (m_segmentPaths v) - 1) = Some f"
      "c = (length (m_segmentPaths v) - 1) * m_segmentSize v + length f" and ne: "m_segmentPaths v \<noteq> []"
    using physical_Some [OF c assms(2)] seg(1) by (auto simp: file_at_def)
  have r: "readable v d 0 (h_nextFreeOffset h)" by (rule sized_readable [OF assms(2,3) ne f(1)]) (use f(2) g(5) in simp)
  note le = load_entries_safe [OF fs]
  have "readable v1 d1 0 (m_nextFreeOffset v1)"
  proof -
    have "readable v d1 0 (h_nextFreeOffset h)" using r readable_cong [OF same, of v 0 "h_nextFreeOffset h"] by simp
    moreover have "byte_at v1 d1 a = byte_at v d1 a" for a by (rule same_bytes) (use g(7) in simp_all)
    moreover have "m_nextFreeOffset v1 = h_nextFreeOffset h" using g(7) by simp
    ultimately show ?thesis by (simp add: readable_def)
  qed
  moreover have "records_ok v1" using le g by (auto simp: records_ok_def mult.commute)
  ultimately show ?thesis using g same ne assms(2) by (simp add: vol_inv_def segments_ok_def)
qed

section \<open>Finding the segments\<close>

lemma scan_loop_result:
  assumes "scan_loop i ps d = (b, qs, d1)"
  shows "d_segments d1 = d_segments d \<and>
    (b \<longrightarrow> (\<exists>n\<ge>i. qs = ps @ [i..<n] \<and> (\<forall>k. i \<le> k \<and> k < n \<longrightarrow> file_at d k \<noteq> None) \<and> file_at d n = None))"
  using assms
proof (induction i ps d rule: scan_loop.induct)
  case (1 i ps d)
  obtain r da where r: "syscall d = (r, da)" by fastforce
  obtain r2 db where r2: "syscall da = (r2, db)" by fastforce
  have seg: "d_segments da = d_segments d" "d_segments db = d_segments d"
    using syscall_segments [OF r] syscall_segments [OF r2] by simp_all
  show ?case
  proof (cases "r = Done \<and> file_at d i \<noteq> None \<and> r2 = Done \<and> i < usize_max")
    case False
    then have "qs = ps \<or> \<not> b" "d_segments d1 = d_segments d" "b \<longrightarrow> file_at d i = None"
      using "1.prems" r r2 seg by (auto simp: scan_loop.simps [of i] Let_def split: if_splits)
    then show ?thesis by (auto intro!: exI [of _ i])
  next
    case True
    then have "scan_loop (i + 1) (ps @ [i]) db = (b, qs, d1)"
      using "1.prems" r r2 by (auto simp: scan_loop.simps [of i] Let_def)
    then have IH: "d_segments d1 = d_segments db \<and> (b \<longrightarrow> (\<exists>n\<ge>i + 1. qs = (ps @ [i]) @ [i + 1..<n] \<and>
        (\<forall>k. i + 1 \<le> k \<and> k < n \<longrightarrow> file_at db k \<noteq> None) \<and> file_at db n = None))"
      using "1.IH" [OF refl r [symmetric] _ _ refl r2 [symmetric]] True by simp
    have f: "file_at db k = file_at d k" for k using seg by (simp add: file_at_def)
    have "\<exists>n\<ge>i. qs = ps @ [i..<n] \<and> (\<forall>k. i \<le> k \<and> k < n \<longrightarrow> file_at d k \<noteq> None) \<and> file_at d n = None" if bt: b
    proof -
      obtain n where n: "i + 1 \<le> n" "qs = (ps @ [i]) @ [i + 1..<n]" "\<forall>k. i + 1 \<le> k \<and> k < n \<longrightarrow> file_at d k \<noteq> None"
          "file_at d n = None"
        using IH bt f by auto
      have "file_at d k \<noteq> None" if "i \<le> k" "k < n" for k using n(3) True that by (cases "k = i") auto
      moreover have "qs = ps @ [i..<n]" using n(1,2) by (simp add: upt_conv_Cons)
      ultimately show ?thesis using n(1,4) by (intro exI [of _ n]) simp
    qed
    then show ?thesis using IH seg by simp
  qed
qed

lemma scan_loop_ok:
  "d_faults d = [] \<Longrightarrow> \<forall>k. i \<le> k \<and> k < n \<longrightarrow> file_at d k \<noteq> None \<Longrightarrow> file_at d n = None \<Longrightarrow> i \<le> n \<Longrightarrow> n \<le> usize_max \<Longrightarrow>
    scan_loop i ps d = (True, ps @ [i..<n], d)"
proof (induction "n - i" arbitrary: i ps)
  case 0
  then show ?case by (simp add: scan_loop.simps [of i] syscall_ok)
next
  case (Suc m)
  have i: "file_at d i \<noteq> None" "i < usize_max" "i < n" using Suc.hyps(2) Suc.prems by auto
  have "scan_loop (i + 1) (ps @ [i]) d = (True, (ps @ [i]) @ [i + 1..<n], d)"
    by (rule Suc.hyps(1)) (use Suc.hyps(2) Suc.prems in auto)
  then show ?case using i Suc.prems(1) by (auto simp: scan_loop.simps [of i] syscall_ok upt_conv_Cons)
qed

lemma check_sizes_result:
  "check_segment_sizes S ps d = (b, d1) \<Longrightarrow> d_segments d1 = d_segments d \<and>
    (b \<longrightarrow> (\<forall>i<length ps. \<exists>f. file_at d (ps ! i) = Some f \<and> 0 < length f \<and> length f \<le> S \<and>
      (Suc i < length ps \<longrightarrow> length f = S)))"
proof (induction S ps d rule: check_segment_sizes.induct)
  case (2 S p ps d)
  obtain z d2 where z: "FileSize p d = (z, d2)" by fastforce
  have seg: "d_segments d2 = d_segments d" and zf: "z = Some n \<Longrightarrow> \<exists>f. file_at d p = Some f \<and> length f = n" for n
    using z by (auto simp: FileSize_def Let_def dest!: syscall_segments split: prod.splits option.splits if_splits)
  have f2: "file_at d2 k = file_at d k" for k using seg by (simp add: file_at_def)
  show ?case
  proof (cases "\<exists>n. z = Some n \<and> 0 < n \<and> (ps \<noteq> [] \<longrightarrow> n = S) \<and> (ps = [] \<longrightarrow> n \<le> S)")
    case False
    then have "\<not> b \<and> d1 = d2" using "2.prems" z by (auto split: option.splits if_splits)
    then show ?thesis using seg by simp
  next
    case True
    then obtain n where n: "z = Some n" "0 < n" "ps \<noteq> [] \<longrightarrow> n = S" "ps = [] \<longrightarrow> n \<le> S" by blast
    then have c: "check_segment_sizes S ps d2 = (b, d1)" using "2.prems" z by auto
    have IH: "d_segments d1 = d_segments d2 \<and>
      (b \<longrightarrow> (\<forall>i<length ps. \<exists>f. file_at d2 (ps ! i) = Some f \<and> 0 < length f \<and> length f \<le> S \<and> (Suc i < length ps \<longrightarrow> length f = S)))"
      by (rule "2.IH" [OF z [symmetric] n(1)]) (use n c in auto)
    show ?thesis
    proof (intro conjI impI allI)
      show "d_segments d1 = d_segments d" using IH seg by simp
      fix i assume b: b and i: "i < length (p # ps)"
      show "\<exists>f. file_at d ((p # ps) ! i) = Some f \<and> 0 < length f \<and> length f \<le> S \<and> (Suc i < length (p # ps) \<longrightarrow> length f = S)"
      proof (cases i)
        case 0
        then show ?thesis using zf [OF n(1)] n(2-4) by (cases ps) auto
      next
        case (Suc j)
        then show ?thesis using IH b i f2 by auto
      qed
    qed
  qed
qed simp

lemma check_sizes_ok:
  "d_faults d = [] \<Longrightarrow> \<forall>i<length ps. \<exists>f. file_at d (ps ! i) = Some f \<and> 0 < length f \<and> length f \<le> S \<and>
      (Suc i < length ps \<longrightarrow> length f = S) \<Longrightarrow> check_segment_sizes S ps d = (True, d)"
proof (induction ps)
  case (Cons p ps)
  obtain f where f: "file_at d p = Some f" "0 < length f" "length f \<le> S" "ps \<noteq> [] \<longrightarrow> length f = S"
    using Cons.prems(2) by (auto dest: spec [of _ 0])
  have "check_segment_sizes S ps d = (True, d)"
  proof (rule Cons.IH [OF Cons.prems(1)], intro allI impI)
    fix i assume "i < length ps"
    then have "Suc i < length (p # ps)" by simp
    then show "\<exists>f. file_at d (ps ! i) = Some f \<and> 0 < length f \<and> length f \<le> S \<and> (Suc i < length ps \<longrightarrow> length f = S)"
      using Cons.prems(2) [rule_format, of "Suc i"] by simp
  qed
  then show ?case using f Cons.prems(1) by (auto simp: FileSize_def syscall_ok)
qed simp

section \<open>Mounting whatever is there\<close>

lemma mount_existing_safe:
  assumes "mount_existing desc v d = (b, v1, d1)" "m_segmentPaths v = [0..<n]" "0 < n"
  shows "d_segments d1 = d_segments d \<and> (b \<longrightarrow> vol_inv v1 d1 \<and> m_writable v1 = m_writable v \<and> m_maxSegments v1 = m_maxSegments v \<and>
    m_segmentPaths v1 = m_segmentPaths v)"
proof -
  obtain hd0 da where h: "ReadVolumeHeaderFromSegment (m_segmentPaths v ! 0) d = (hd0, da)" by fastforce
  have sa: "d_segments da = d_segments d"
    using h by (auto simp: ReadVolumeHeaderFromSegment_def Let_def dest!: syscall_segments split: prod.splits option.splits if_splits)
  show ?thesis
  proof (cases "\<exists>h. hd0 = Some h \<and> h_magic h = s_VolumeMagic \<and> h_segmentSize h \<noteq> 0")
    case False
    then have "\<not> b \<and> d1 = da" using assms(1) h by (auto simp: mount_existing_def Let_def split: option.splits if_splits)
    then show ?thesis using sa by simp
  next
    case True
    then obtain hh where hh: "hd0 = Some hh" "h_magic hh = s_VolumeMagic" "h_segmentSize hh \<noteq> 0" by blast
    let ?v = "v\<lparr>m_segmentSize := h_segmentSize hh\<rparr>"
    have ok: "segments_ok ?v" using assms(2) hh(3) by (simp add: segments_ok_def)
    obtain c db where c: "check_segment_sizes (h_segmentSize hh) (m_segmentPaths v) da = (c, db)" by fastforce
    note cr = check_sizes_result [OF c]
    obtain z dc where z: "FileSize (m_segmentPaths v ! 0) db = (z, dc)" by fastforce
    have sc: "d_segments dc = d_segments db"
      using z by (auto simp: FileSize_def Let_def dest!: syscall_segments split: prod.splits option.splits if_splits)
    obtain k v2 dd where l: "loadMetadataLocked ?v dc = (k, v2, dd)" by (metis prod_cases3)
    have sd: "d_segments dd = d_segments dc" using loadMetadata_segments [OF l ok] .
    show ?thesis
    proof (cases "c \<and> k \<and> b")
      case False
      then have "\<not> b \<and> (d1 = db \<or> d1 = dc \<or> d1 = dd)"
        using assms(1) h hh c z l by (auto simp: mount_existing_def Let_def split: option.splits if_splits bool.splits)
      then show ?thesis using sa cr sc sd by auto
    next
      case True
      then have r: "v1 = v2 \<and> d1 = dd"
        using assms(1) h hh c z l by (auto simp: mount_existing_def Let_def split: option.splits if_splits bool.splits)
      have "sized ?v dc"
        using cr True sc sa assms(2) by (auto simp: sized_def file_at_def)
      then have "vol_inv v2 dd \<and> v2 = ?v\<lparr>m_metadataBytes := m_metadataBytes v2, m_nextFreeOffset := m_nextFreeOffset v2, m_files := m_files v2\<rparr>"
        using loadMetadata_safe [of ?v dc v2 dd] l True ok by simp
      moreover then have "m_writable v2 = m_writable v" "m_maxSegments v2 = m_maxSegments v" "m_segmentPaths v2 = m_segmentPaths v"
        by (cases v2, simp)+
      ultimately show ?thesis using r sa cr sc sd by auto
    qed
  qed
qed

text \<open>The first segment of a new volume.\<close>

lemma first_segment:
  assumes "createSegmentLocked 0 v d = (True, v1, d1)" "m_segmentPaths v = []" "m_files v = []" "m_segmentSize v \<noteq> 0"
    "sizeof_header < m_metadataBytes v" "m_metadataBytes v < m_segmentSize v" "m_nextFreeOffset v = m_metadataBytes v"
  shows "v1 = v\<lparr>m_segmentPaths := [0]\<rparr> \<and> vol_inv v1 d1 \<and>
    (\<forall>i. file_at d1 i = (if i = 0 then Some (replicate (m_segmentSize v) 0) else file_at d i))"
proof -
  have ok: "segments_ok v" using assms(2,4) by (simp add: segments_ok_def)
  have "createSegmentLocked (length (m_segmentPaths v)) v d = (True, v1, d1)" using assms(1,2) by simp
  note cs = createSegment_widens [OF ok this]
  have v1: "v1 = v\<lparr>m_segmentPaths := [0]\<rparr>" "file_at d1 0 = Some (replicate (m_segmentSize v) 0)"
    "i \<noteq> 0 \<Longrightarrow> file_at d1 i = file_at d i" for i
    using cs assms(2) by (auto simp: widens_def)
  have ok1: "segments_ok v1" using assms(4) v1(1) by (simp add: segments_ok_def)
  have "sized v1 d1" using v1 assms(4) by (simp add: sized_def)
  then have "readable v1 d1 0 (m_metadataBytes v)"
    by (rule sized_readable [OF ok1, of d1 "replicate (m_segmentSize v) 0"]) (use v1 assms in auto)
  then have "vol_inv v1 d1" using v1(1) assms ok1 by (auto simp: vol_inv_def records_ok_def sizeof_header_def)
  then show ?thesis using v1 by simp
qed

lemma mount_new_safe:
  assumes "mount_new desc v d = (True, v1, d1)" "m_segmentPaths v = []" "m_files v = []"
  shows "vol_inv v1 d1 \<and> m_writable v1 = m_writable v \<and> m_maxSegments v1 = m_maxSegments v"
proof -
  let ?m = "if desc_metadataSize desc = 0 then DefaultMetadataBytes (desc_segmentSize desc) else desc_metadataSize desc"
  let ?v = "v\<lparr>m_segmentSize := desc_segmentSize desc, m_metadataBytes := ?m, m_nextFreeOffset := ?m\<rparr>"
  obtain k v2 d2 where c: "createSegmentLocked 0 ?v d = (k, v2, d2)" by (metis prod_cases3)
  have g: "desc_segmentSize desc \<noteq> 0" "sizeof_header < ?m" "?m < desc_segmentSize desc" "k" "flushMetadataLocked v2 d2 = (True, v1, d1)"
    using assms(1) c by (auto simp: mount_new_def Let_def split: if_splits bool.splits)
  define m where "m = ?m"
  note c = c [folded m_def] and g = g [folded m_def]
  have f: "v2 = v\<lparr>m_segmentSize := desc_segmentSize desc, m_metadataBytes := m, m_nextFreeOffset := m,
      m_segmentPaths := [0]\<rparr> \<and> vol_inv v2 d2"
    using first_segment [of _ d v2 d2, OF c [unfolded eqTrueI [OF g(4)]]] g(1-4) assms(2,3) by auto
  note fi = flush_inv [OF f [THEN conjunct2] g(5)]
  show ?thesis using fi f extends_fields [OF fi [THEN conjunct2, THEN conjunct2]] by simp
qed

text \<open>Without failures of the host a new volume is made.\<close>

lemma mount_new_ok:
  assumes host: "d_faults d = []" "\<And>i. file_at d i = None" "desc_segmentSize desc \<le> stream_max"
    and v: "m_segmentPaths v = []" "m_files v = []" "m_writable v" "m_maxSegments v = 0"
    and desc: "desc_createIfMissing desc"
      "m = (if desc_metadataSize desc = 0 then DefaultMetadataBytes (desc_segmentSize desc) else desc_metadataSize desc)"
      "sizeof_header < m" "m < desc_segmentSize desc"
    and w: "w = v\<lparr>m_segmentSize := desc_segmentSize desc, m_metadataBytes := m, m_nextFreeOffset := m, m_segmentPaths := [0]\<rparr>"
  shows "\<exists>d1. mount_new desc v d = (True, w, d1) \<and> vol_inv w d1 \<and> host_ok w d1"
proof -
  let ?v = "v\<lparr>m_segmentSize := desc_segmentSize desc, m_metadataBytes := m, m_nextFreeOffset := m\<rparr>"
  obtain d2 where c: "createSegmentLocked 0 ?v d = (True, w, d2)" "d_faults d2 = []"
    using createSegment_ok [of d ?v] host v desc(4) by (auto simp: w)
  have f: "vol_inv w d2" and files: "file_at d2 i = (if i = 0 then Some (replicate (desc_segmentSize desc) 0) else None)" for i
    using first_segment [OF c(1)] host(2) v desc(3,4) by auto
  have "exact w d2" unfolding exact_def files using desc(4) by (simp add: w)
  then have h: "host_ok w d2" using c(2) host(3) by (simp add: host_ok_def w stream_max_def u64_max_def)
  obtain b v1 d1 where fl: "flushMetadataLocked w d2 = (b, v1, d1)" by (metis prod_cases3)
  have r: "b \<and> v1 = w \<and> host_ok w d1" using flush_ok [OF f(1) h fl] by blast
  have "vol_inv w d1" using flush_inv [OF f(1) fl] r by simp
  moreover have "mount_new desc v d = (True, w, d1)"
    by (cases "desc_metadataSize desc = 0") (use c(1) fl r v(3) desc in \<open>simp_all add: mount_new_def Let_def\<close>)
  ultimately show ?thesis using r by blast
qed

lemma mount_directory_segments:
  "mount_directory desc w d = (b, d1) \<Longrightarrow> d_segments d1 = d_segments d"
  by (auto simp: mount_directory_def Let_def dest!: syscall_segments split: prod.splits if_splits)

lemma vol_inv_mounted [simp]: "vol_inv (v\<lparr>m_mounted := b\<rparr>) d = vol_inv v d"
  using same_bytes [of "v\<lparr>m_mounted := b\<rparr>" v d] by (simp add: vol_inv_def segments_ok_def records_ok_def readable_def)

text \<open>The two ways to mount, on the segments that the scan found.\<close>

lemma mount_body_safe:
  assumes "(if m_segmentPaths w = [] then mount_new desc w d else mount_existing desc w d) = (k, v1, d1)"
    "m_segmentPaths w = [0..<n]" "m_files w = []"
  shows "(k \<longrightarrow> vol_inv v1 d1 \<and> m_writable v1 = m_writable w \<and> m_maxSegments v1 = m_maxSegments w) \<and>
    (\<not> m_writable w \<longrightarrow> d_segments d1 = d_segments d)"
proof (cases "n = 0")
  case True
  then have m: "mount_new desc w d = (k, v1, d1)" using assms(1,2) by simp
  then have "\<not> m_writable w \<Longrightarrow> d1 = d" by (simp add: mount_new_def)
  then show ?thesis using m mount_new_safe [of desc w d v1 d1] assms(2,3) True by auto
next
  case False
  then have "mount_existing desc w d = (k, v1, d1)" using assms(1,2) by simp
  then show ?thesis using mount_existing_safe [of desc w d k v1 d1 n] assms(2) False by simp
qed

text \<open>C16: Whatever the segment files contain and whatever calls fail, a mount that succeeds yields a
  volume in order, writable exactly if the usage asks for it, within the limit on segments; a mount that
  fails leaves nothing mounted, and a read-only mount changes no segment file.\<close>

theorem mount_safe:
  assumes "mount desc v d = (b, v1, d1)"
  shows "(if b then vol_inv v1 d1 \<and> m_mounted v1 \<and> (m_writable v1 \<longleftrightarrow> desc_usage desc \<noteq> RuntimeReadOnly) \<and>
      (desc_maxSegments desc = 0 \<or> length (m_segmentPaths v1) \<le> desc_maxSegments desc) else \<not> m_mounted v1) \<and>
    (desc_usage desc = RuntimeReadOnly \<longrightarrow> d_segments d1 = d_segments d)"
proof -
  let ?v = "(unmountLocked v)\<lparr>m_writable := (desc_usage desc \<noteq> RuntimeReadOnly), m_maxSegments := desc_maxSegments desc\<rparr>"
  have um: "\<not> m_mounted (unmountLocked w)" "m_files (unmountLocked w) = []" for w by (simp_all add: unmountLocked_def)
  obtain dir da where dir: "mount_directory desc (m_writable ?v) d = (dir, da)" by fastforce
  have sa: "d_segments da = d_segments d" using mount_directory_segments [OF dir] .
  obtain sc ps db where sl: "scan_loop 0 [] da = (sc, ps, db)" by (metis prod_cases3)
  note slr = scan_loop_result [OF sl]
  let ?w = "?v\<lparr>m_segmentPaths := ps\<rparr>"
  have scan: "scanSegmentsLocked ?v da = (sc, ?w, db)" by (simp add: scanSegmentsLocked_def sl)
  obtain k v2 dc where mo: "(if m_segmentPaths ?w = [] then mount_new desc ?w db else mount_existing desc ?w db) = (k, v2, dc)"
    by (metis prod_cases3)
  have body: "(k \<longrightarrow> vol_inv v2 dc \<and> m_writable v2 = m_writable ?w \<and> m_maxSegments v2 = m_maxSegments ?w) \<and>
      (\<not> m_writable ?w \<longrightarrow> d_segments dc = d_segments db)" if "sc"
  proof -
    obtain n where "ps = [0..<n]" using slr \<open>sc\<close> by auto
    then show ?thesis using mount_body_safe [OF mo, of n] um by simp
  qed
  show ?thesis
  proof (cases "ValidVolumeName (desc_volumeName desc) \<and> dir \<and> sc \<and> k")
    case False
    then have "\<not> b \<and> \<not> m_mounted v1 \<and> (d1 = d \<or> d1 = da \<or> d1 = db \<or> (sc \<and> d1 = dc))"
      using assms dir scan mo um by (auto simp: mount_def Let_def split: if_splits bool.splits)
    then show ?thesis using sa slr body by auto
  next
    case True
    have "(b, v1, d1) = (if m_maxSegments v2 \<noteq> 0 \<and> length (m_segmentPaths v2) > m_maxSegments v2
        then (False, unmountLocked v2, dc) else (True, v2\<lparr>m_mounted := True\<rparr>, dc))"
      using assms dir scan mo True by (auto simp: mount_def Let_def split: if_splits bool.splits)
    moreover have "vol_inv (v2\<lparr>m_mounted := True\<rparr>) dc" using body True by simp
    ultimately show ?thesis using body True um sa slr by (auto split: if_splits)
  qed
qed

theorem mount_safe_witness:
  "case mount \<lparr>desc_volumeName = [97], desc_segmentSize = 0, desc_metadataSize = 0, desc_maxSegments = 4, desc_createIfMissing = False,
      desc_usage = RuntimeReadOnly\<rparr> sample_volume sample_disk of (b, v1, d1) \<Rightarrow>
     (if b then vol_inv v1 d1 \<and> m_mounted v1 \<and> \<not> m_writable v1 \<and> length (m_segmentPaths v1) \<le> 4 else \<not> m_mounted v1) \<and>
     d_segments d1 = d_segments sample_disk"
proof -
  let ?desc = "\<lparr>desc_volumeName = [97], desc_segmentSize = 0, desc_metadataSize = 0, desc_maxSegments = 4, desc_createIfMissing = False,
    desc_usage = RuntimeReadOnly\<rparr>"
  obtain b v1 d1 where m: "mount ?desc sample_volume sample_disk = (b, v1, d1)" by (metis prod_cases3)
  show ?thesis using mount_safe [OF m] m by (cases b) simp_all
qed

section \<open>Mounting what was flushed\<close>

lemma bytes_at_slice: "k + n \<le> m \<Longrightarrow> bytes_at v d (c + k) n = take n (drop k (bytes_at v d c m))"
  by (intro nth_equalityI) (simp_all add: bytes_at_nth add.assoc)

lemma loadMetadata_ok:
  assumes inv: "vol_inv v d" and host: "host_ok v d" and st: "stored v d"
    and w: "m_segmentSize w = m_segmentSize v" "m_segmentPaths w = m_segmentPaths v"
  shows "loadMetadataLocked w d = (True, w\<lparr>m_metadataBytes := m_metadataBytes v, m_nextFreeOffset := m_nextFreeOffset v,
    m_files := rev (sort_records (m_files v))\<rparr>, d)"
proof -
  define es index where "es = sort_records (m_files v)" and "index = concat (map entry_bytes es)"
  define h where "h = \<lparr>h_magic = s_VolumeMagic, h_segmentSize = m_segmentSize v, h_metadataBytes = m_metadataBytes v,
      h_fileCount = length (m_files v), h_indexBytes = length index, h_nextFreeOffset = m_nextFreeOffset v\<rparr>"
  have vi: "segments_ok v" "sizeof_header < m_metadataBytes v" "m_metadataBytes v < m_segmentSize v"
    "m_metadataBytes v \<le> m_nextFreeOffset v" "readable v d 0 (m_nextFreeOffset v)" "m_segmentPaths v \<noteq> []"
    "sizeof_header + sizeof_entry * length (m_files v) \<le> m_metadataBytes v"
    using inv by (auto simp: vol_inv_def records_ok_def)
  have ho: "d_faults d = []" "exact v d" "m_segmentSize v \<le> stream_max" "capacity v \<le> u64_max"
    using host by (auto simp: host_ok_def)
  have cap: "m_nextFreeOffset v \<le> capacity v" using inv by (rule inv_capacity)
  have ilen: "length index = length (m_files v) * sizeof_entry" using inv_index [OF inv] by (simp add: index_def es_def)
  have fit: "sizeof_header + length index \<le> m_metadataBytes v" using vi(7) ilen by (simp add: mult.commute)
  have mag: "length s_VolumeMagic = 8" by (simp add: s_VolumeMagic_def)
  have mb: "metadata_buffer v = header_bytes h @ index @ replicate (m_metadataBytes v - (sizeof_header + length index)) 0"
    by (simp add: metadata_buffer_def Let_def h_def index_def es_def mag)
  have hlen: "length (header_bytes h) = sizeof_header" by (simp add: h_def mag)
  have "readable v d 0 n" if "n \<le> m_metadataBytes v" for n
    using vi(4,5) that readable_mono [of v d 0 "m_nextFreeOffset v" 0 n] by simp
  then have rd: "readable w d c n" if "c + n \<le> m_metadataBytes v" for c n
    using that same_bytes [OF w, of d] readable_append [of v d 0 c n] by (simp add: readable_def)
  have okw: "segments_ok w" using vi(1) w by (simp add: segments_ok_def)
  have bw: "bytes_at w d c n = bytes_at v d c n" for c n using same_bytes [OF w, of d] by (simp add: bytes_at_def)
  have "readBytesLocked w 0 sizeof_header d = (Some (bytes_at w d 0 sizeof_header), d)"
    by (rule readBytes_ok) (use okw ho w rd fit in auto)
  moreover have "bytes_at w d 0 sizeof_header = header_bytes h"
    using bytes_at_slice [of 0 sizeof_header "m_metadataBytes v" v d 0] fit st mb hlen by (simp add: bw stored_def)
  ultimately have r1: "readBytesLocked w 0 sizeof_header d = (Some (header_bytes h), d)" by simp
  have "readBytesLocked w sizeof_header (length index) d = (Some (bytes_at w d sizeof_header (length index)), d)"
    by (rule readBytes_ok) (use okw ho w rd fit in auto)
  moreover have "bytes_at w d sizeof_header (length index) = index"
    using bytes_at_slice [of sizeof_header "length index" "m_metadataBytes v" v d 0] fit st mb hlen by (simp add: bw stored_def)
  ultimately have r2: "readBytesLocked w sizeof_header (length index) d = (Some index, d)" by simp
  have u: "m_segmentSize v \<le> u64_max" "m_metadataBytes v \<le> u64_max" "m_nextFreeOffset v \<le> u64_max" "length index \<le> u64_max"
    "length (m_files v) \<le> u64_max"
    using ho(3,4) vi(3,7) cap fit ilen by (auto simp: stream_max_def u64_max_def sizeof_entry_def)
  have ho1: "header_of (header_bytes h) = h"
    using header_of_bytes [of h "[]"] u mag by (simp add: header_ok_def h_def)
  let ?l = "length (m_segmentPaths v) - 1"
  have "?l < length (m_segmentPaths v)" using vi(6) by simp
  then obtain f where f: "file_at d ?l = Some f"
    using exact_None [OF ho(2), of ?l] by (cases "file_at d ?l") auto
  have fl: "0 < length f" "length f \<le> m_segmentSize v" using exact_Some [OF ho(2) f] by auto
  have lastp: "last (m_segmentPaths v) = ?l"
    using segment_path [OF vi(1), of ?l] vi(6) by (simp add: last_conv_nth)
  have phys: "m_nextFreeOffset v \<le> ?l * m_segmentSize v + length f"
    using readable_physical [OF vi(1) ho(2) vi(5) _ f] vi(2,4) by simp
  have "?l * m_segmentSize v + length f \<le> capacity v"
    using fl(2) vi(6) by (cases "length (m_segmentPaths v)") auto
  then have lu: "?l * m_segmentSize v + length f \<le> u64_max" using ho(4) by simp
  then have "\<not> ?l > u64_max div m_segmentSize v"
    using capacity_fits [of "m_segmentSize v" ?l] vi(1) by (simp add: segments_ok_def)
  then have pc: "computePhysicalCapacityLocked w d = (Some (?l * m_segmentSize v + length f), d)"
    using vi(1-3,6) f fl lastp lu ho(1) w
    by (simp add: computePhysicalCapacityLocked_def Let_def FileSize_def syscall_ok add_u64_def segments_ok_def)
  have le: "load_entries h index (length (m_files v)) 0 [] = Some (rev es, length index)"
  proof -
    have "\<forall>e\<in>set es. length (fst e) = 8 \<and> h_metadataBytes h \<le> rec_offset (snd e) \<and>
        rec_offset (snd e) + rec_size (snd e) \<le> h_nextFreeOffset h"
      using inv by (auto simp: es_def sort_records_facts h_def vol_inv_def records_ok_def)
    moreover have "distinct (map fst es)" "length es = length (m_files v)"
      using inv by (simp_all add: es_def sort_records_facts vol_inv_def records_ok_def)
    ultimately show ?thesis
      using load_entries_ok [of es h "[]" "[]"] u(3) ilen by (simp add: h_def index_def)
  qed
  have ci: "ComputeVolumeIndexBytes (length (m_files v)) = Some (length index)"
    using u(4) ilen by (simp add: ComputeVolumeIndexBytes_def sizeof_entry_def not_less less_eq_div_iff_mult_less_eq)
  have lc: "computeLogicalCapacityLocked w = Some (capacity v)"
    using vi(1) ho(4) w by (simp add: computeLogicalCapacity_eq segments_ok_def)
  have au: "add_u64 sizeof_header (length index) = Some (sizeof_header + length index)"
    using fit u(2) by (simp add: add_u64_def)
  have hf: "h_magic h = s_VolumeMagic" "h_segmentSize h = m_segmentSize w" "h_metadataBytes h = m_metadataBytes v"
    "h_fileCount h = length (m_files v)" "h_indexBytes h = length index" "h_nextFreeOffset h = m_nextFreeOffset v"
    using w by (simp_all add: h_def)
  have "u64_max = usize_max" by (simp add: u64_max_def usize_max_def)
  then show ?thesis
    unfolding loadMetadataLocked_def Let_def
    using vi(2-4) fit cap phys u(4) w by (simp add: r1 ho1 hf au lc pc ci r2 le es_def)
qed

text \<open>The header is found in the first segment.\<close>

lemma header_found:
  assumes "vol_inv v d" "host_ok v d" "stored v d"
  obtains h where "ReadVolumeHeaderFromSegment 0 d = (Some h, d)" "h_magic h = s_VolumeMagic" "h_segmentSize h = m_segmentSize v"
proof -
  have vi: "segments_ok v" "sizeof_header < m_metadataBytes v" "m_metadataBytes v < m_segmentSize v"
    "m_metadataBytes v \<le> m_nextFreeOffset v" "readable v d 0 (m_nextFreeOffset v)" "m_segmentPaths v \<noteq> []"
    using assms(1) by (auto simp: vol_inv_def)
  have z: "m_segmentPaths v ! 0 = 0" using segment_path [OF vi(1), of 0] vi(6) by simp
  obtain f where f: "file_at d 0 = Some f"
    using exact_None [of v d 0] assms(2) vi(6) by (cases "file_at d 0") (auto simp: host_ok_def)
  have b: "byte_at v d a = (if a < length f then Some (f ! a) else None)" if "a < m_segmentSize v" for a
    using that vi(6) z f by (simp add: byte_at_def)
  have "byte_at v d (sizeof_header - 1) \<noteq> None"
    using vi(2-5) by (auto simp: readable_def)
  then have len: "sizeof_header \<le> length f" using b [of "sizeof_header - 1"] vi(2,3) by (auto split: if_splits)
  have mag: "length s_VolumeMagic = 8" by (simp add: s_VolumeMagic_def)
  define m where "m = metadata_buffer v"
  have "take sizeof_header f = take sizeof_header m"
  proof -
    have "take sizeof_header f = bytes_at v d 0 sizeof_header"
      using len b vi(2,3) by (intro nth_equalityI) (simp_all add: bytes_at_nth)
    then show ?thesis
      using bytes_at_slice [of 0 sizeof_header "m_metadataBytes v" v d 0] vi(2) assms(3) by (simp add: stored_def m_def)
  qed
  moreover obtain n i r where "m = header_bytes \<lparr>h_magic = s_VolumeMagic, h_segmentSize = m_segmentSize v,
      h_metadataBytes = m_metadataBytes v, h_fileCount = n, h_indexBytes = i, h_nextFreeOffset = m_nextFreeOffset v\<rparr> @ r"
    by (simp add: m_def metadata_buffer_def Let_def)
  ultimately have t: "take sizeof_header f = header_bytes \<lparr>h_magic = s_VolumeMagic, h_segmentSize = m_segmentSize v,
      h_metadataBytes = m_metadataBytes v, h_fileCount = n, h_indexBytes = i, h_nextFreeOffset = m_nextFreeOffset v\<rparr>"
    by (simp add: mag)
  have "h_magic (header_of (take sizeof_header f)) = s_VolumeMagic" "h_segmentSize (header_of (take sizeof_header f)) = m_segmentSize v"
    using u64_at_bytes [of "m_segmentSize v" s_VolumeMagic] assms(2)
    by (simp_all add: t header_of_def header_bytes_def mag host_ok_def stream_max_def u64_max_def)
  then show thesis
    using len f assms(2) that [of "header_of (take sizeof_header f)"]
    by (simp add: ReadVolumeHeaderFromSegment_def syscall_ok host_ok_def Let_def)
qed

lemma mount_existing_ok:
  assumes "vol_inv v d" "host_ok v d" "stored v d" "m_segmentPaths w = m_segmentPaths v"
    "desc_segmentSize desc \<in> {0, m_segmentSize v}" "desc_metadataSize desc \<in> {0, m_metadataBytes v}"
  shows "mount_existing desc w d = (True, w\<lparr>m_segmentSize := m_segmentSize v, m_metadataBytes := m_metadataBytes v,
    m_nextFreeOffset := m_nextFreeOffset v, m_files := rev (sort_records (m_files v))\<rparr>, d)"
proof -
  have vi: "segments_ok v" "sizeof_header < m_metadataBytes v" "m_metadataBytes v < m_segmentSize v"
    "m_metadataBytes v \<le> m_nextFreeOffset v" "readable v d 0 (m_nextFreeOffset v)" "m_segmentPaths v \<noteq> []"
    using assms(1) by (auto simp: vol_inv_def)
  have ho: "d_faults d = []" "exact v d" using assms(2) by (auto simp: host_ok_def)
  have z: "m_segmentPaths w ! 0 = 0" using segment_path [OF vi(1), of 0] vi(6) assms(4) by simp
  obtain h where h: "ReadVolumeHeaderFromSegment 0 d = (Some h, d)" "h_magic h = s_VolumeMagic" "h_segmentSize h = m_segmentSize v"
    by (rule header_found [OF assms(1-3)])
  have "check_segment_sizes (m_segmentSize v) (m_segmentPaths w) d = (True, d)"
    by (rule check_sizes_ok [OF ho(1)])
      (use exact_sized [OF ho(2)] segment_path [OF vi(1)] assms(4) in \<open>simp add: sized_def\<close>)
  moreover obtain f where f: "file_at d 0 = Some f"
    using exact_None [OF ho(2), of 0] vi(6) by (cases "file_at d 0") auto
  moreover have "sizeof_header \<le> length f"
    using h(1) f by (auto simp: ReadVolumeHeaderFromSegment_def Let_def split: if_splits prod.splits)
  moreover have "loadMetadataLocked (w\<lparr>m_segmentSize := m_segmentSize v\<rparr>) d = (True, w\<lparr>m_segmentSize := m_segmentSize v,
      m_metadataBytes := m_metadataBytes v, m_nextFreeOffset := m_nextFreeOffset v, m_files := rev (sort_records (m_files v))\<rparr>, d)"
    using loadMetadata_ok [OF assms(1-3), of "w\<lparr>m_segmentSize := m_segmentSize v\<rparr>"] assms(4) by simp
  ultimately show ?thesis
    using h z vi(2,3) assms(5,6) ho(1)
    by (auto simp: mount_existing_def FileSize_def syscall_ok)
qed

text \<open>The volume that a mount of the flushed volume gives.\<close>

definition remounted :: "VolumeMountDesc \<Rightarrow> VolumeFileSystem \<Rightarrow> VolumeFileSystem" where
  "remounted desc v = v\<lparr>m_mounted := True, m_writable := (desc_usage desc \<noteq> RuntimeReadOnly),
     m_maxSegments := desc_maxSegments desc, m_files := rev (sort_records (m_files v))\<rparr>"

definition desc_matches :: "VolumeMountDesc \<Rightarrow> VolumeFileSystem \<Rightarrow> bool" where
  "desc_matches desc v \<longleftrightarrow> ValidVolumeName (desc_volumeName desc) \<and>
     (desc_segmentSize desc = 0 \<or> desc_segmentSize desc = m_segmentSize v) \<and>
     (desc_metadataSize desc = 0 \<or> desc_metadataSize desc = m_metadataBytes v) \<and>
     (desc_maxSegments desc = 0 \<or> length (m_segmentPaths v) \<le> desc_maxSegments desc)"

lemma mount_ok:
  assumes "vol_inv v d" "host_ok v d" "stored v d" "d_directory d = Directory" "desc_matches desc v"
  shows "mount desc u d = (True, remounted desc v, d)"
proof -
  have vi: "segments_ok v" "m_segmentPaths v \<noteq> []" using assms(1) by (auto simp: vol_inv_def)
  have ho: "d_faults d = []" "exact v d" "capacity v \<le> u64_max" using assms(2) by (auto simp: host_ok_def)
  let ?w = "(unmountLocked u)\<lparr>m_writable := (desc_usage desc \<noteq> RuntimeReadOnly), m_maxSegments := desc_maxSegments desc\<rparr>"
  have "length (m_segmentPaths v) \<le> capacity v" using vi(1) by (simp add: segments_ok_def)
  then have "length (m_segmentPaths v) \<le> u64_max" using ho(3) by linarith
  then have "scan_loop 0 [] d = (True, [] @ [0..<length (m_segmentPaths v)], d)"
    using exact_None [OF ho(2)] ho(1) by (intro scan_loop_ok) (simp_all add: u64_max_def usize_max_def)
  then have "scanSegmentsLocked ?w d = (True, ?w\<lparr>m_segmentPaths := m_segmentPaths v\<rparr>, d)"
    using vi(1) by (simp add: scanSegmentsLocked_def segments_ok_def)
  moreover have "mount_directory desc b d = (True, d)" for b
    using ho(1) assms(4) by (simp add: mount_directory_def syscall_ok)
  moreover have "mount_existing desc (?w\<lparr>m_segmentPaths := m_segmentPaths v\<rparr>) d = (True,
      ?w\<lparr>m_segmentPaths := m_segmentPaths v, m_segmentSize := m_segmentSize v, m_metadataBytes := m_metadataBytes v,
        m_nextFreeOffset := m_nextFreeOffset v, m_files := rev (sort_records (m_files v))\<rparr>, d)"
    using mount_existing_ok [OF assms(1-3), of "?w\<lparr>m_segmentPaths := m_segmentPaths v\<rparr>" desc] assms(5)
    by (simp add: desc_matches_def)
  ultimately show ?thesis
    using assms(5) vi(2) by (cases u, cases v) (simp add: mount_def Let_def desc_matches_def remounted_def unmountLocked_def not_less)
qed

text \<open>Mounting it changes no file and keeps the volume in order.\<close>

lemma remounted_same:
  assumes "vol_inv v d"
  shows "content (remounted desc v) d = content v d" "vol_inv (remounted desc v) d" "host_ok (remounted desc v) d = host_ok v d"
proof -
  let ?fs = "rev (sort_records (m_files v))"
  have dist: "distinct (map fst (m_files v))" "distinct (map fst ?fs)"
    using assms sort_records_facts(3) [of "m_files v"] rev_map [of fst "sort_records (m_files v)"] distinct_rev
    by (metis records_ok_def vol_inv_def)+
  have "map_of ?fs = map_of (m_files v)"
    using dist by (intro map_of_eqI) (auto simp: sort_records_facts map_of_inject_set)
  then have mo: "map_of ?fs p = map_of (m_files v) p" for p by simp
  have b: "byte_at (remounted desc v) d a = byte_at v d a" for a by (rule same_bytes) (simp_all add: remounted_def)
  show "content (remounted desc v) d = content v d"
    using mo b by (auto simp: content_def remounted_def bytes_at_def fun_eq_iff)
  show "vol_inv (remounted desc v) d"
    using assms mo dist(2) b
    by (simp add: vol_inv_def records_ok_def remounted_def segments_ok_def readable_def sort_records_facts)
  show "host_ok (remounted desc v) d = host_ok v d"
    by (simp add: host_ok_def exact_def remounted_def cong: option.case_cong)
qed

end
