(* ===== verification/Volume_History.thy ===== *)
theory Volume_History
  imports Volume_Mount
begin

text \<open>
  Histories of a mounted volume, from one mount to the next unmount: every public operation on files,
  compaction included, as a step on the map from names to contents, whatever the host reports.
\<close>

section \<open>A compaction that fails\<close>


text \<open>The files have the same names and the same sizes.\<close>

definition same_sizes :: "(NameHash \<Rightarrow> u8 list option) \<Rightarrow> (NameHash \<Rightarrow> u8 list option) \<Rightarrow> bool" where
  "same_sizes m m1 \<longleftrightarrow> (\<forall>p. map_option length (m1 p) = map_option length (m p))"




section \<open>Operations\<close>

text \<open>The public operations on the files of a mounted volume; \<open>OpWrite\<close> is \<open>writeFile\<close> or
  \<open>writeFileDeferred\<close>. The getters change nothing and are left out.\<close>

datatype volume_op =
    OpWrite MetadataFlushMode NameHash "u8 list"
  | OpRemove NameHash
  | OpRead NameHash
  | OpSize NameHash
  | OpExists NameHash
  | OpList
  | OpFlush
  | OpCompact bool

datatype volume_result =
    Answer bool
  | Bytes "u8 list option"
  | Count "nat option"
  | Names "NameHash list"



text \<open>
  What a client sees of a volume: the contents, and whether the metadata area on disk holds the header
  and the index of the records in memory, byte for byte.
\<close>

record volume_view =
  view_files :: "NameHash \<Rightarrow> u8 list option"
  view_synced :: bool


text \<open>
  What a client may rely on. A write or a removal that reports success has happened, one that does not
  has changed no content. A flush, an immediate write, a removal or a compaction that reports success has
  left the index on disk. A read returns the content or fails. Compaction that reports success changes
  no content; one that does not keeps the names and the sizes, and nothing more is promised of the bytes.
\<close>

fun volume_spec :: "volume_view \<Rightarrow> volume_op \<Rightarrow> volume_result \<Rightarrow> volume_view \<Rightarrow> bool" where
  "volume_spec a (OpWrite mode p data) r b =
     ((r = Answer True \<and> view_files b = (view_files a)(p \<mapsto> data) \<and> (mode = Immediate \<longrightarrow> view_synced b)) \<or>
      (r = Answer False \<and> view_files b = view_files a))"
| "volume_spec a (OpRemove p) r b =
     ((r = Answer True \<and> view_files a p \<noteq> None \<and> view_files b = (view_files a)(p := None) \<and> view_synced b) \<or>
      (r = Answer False \<and> view_files b = view_files a))"
| "volume_spec a (OpRead p) r b = ((r = Bytes (view_files a p) \<or> r = Bytes None) \<and> b = a)"
| "volume_spec a (OpSize p) r b = (r = Count (map_option length (view_files a p)) \<and> b = a)"
| "volume_spec a (OpExists p) r b = (r = Answer (view_files a p \<noteq> None) \<and> b = a)"
| "volume_spec a OpList r b =
     (\<exists>ps. r = Names ps \<and> sorted_wrt LessNameHash ps \<and>
        (\<forall>p. \<not> IsZeroHash p \<longrightarrow> p \<in> set ps \<longleftrightarrow> view_files a p \<noteq> None) \<and> b = a)"
| "volume_spec a OpFlush r b = (\<exists>ok. r = Answer ok \<and> view_files b = view_files a \<and> (ok \<longrightarrow> view_synced b))"
| "volume_spec a (OpCompact shrinkSegments) r b =
     ((r = Answer True \<and> view_files b = view_files a \<and> view_synced b) \<or>
      (r = Answer False \<and> same_sizes (view_files a) (view_files b)))"

inductive volume_history :: "volume_view \<Rightarrow> volume_op list \<Rightarrow> volume_result list \<Rightarrow> volume_view \<Rightarrow> bool" where
  history_done: "volume_history a [] [] a"
| history_step: "volume_spec a x r b \<Longrightarrow> volume_history b xs rs c \<Longrightarrow> volume_history a (x # xs) (r # rs) c"

inductive_simps volume_history_Nil [simp]: "volume_history a [] rs c"
inductive_simps volume_history_Cons: "volume_history a (x # xs) rs c"


section \<open>Every operation refines its specification\<close>







section \<open>Histories\<close>






end
