(* ===== verification/Volume_Session.thy ===== *)
theory Volume_Session
  imports Volume_Mount
begin

text \<open>
  Building a volume and loading it again, \<^verbatim>\<open>src/core/filesystem/volume_session.cpp\<close> and the session that
  \<^verbatim>\<open>volume_build.cpp\<close> runs: old segments are removed, the files are pushed, the volume is compacted and
  flushed, and what a later load reads are the files that were pushed.
\<close>

section \<open>The directory stays\<close>

text \<open>Only mounting creates the directory; what reads and writes segments leaves it alone.\<close>

lemma syscall_directory: "syscall d = (r, d1) \<Longrightarrow> d_directory d1 = d_directory d"
  by (auto simp: syscall_def split: list.splits)

lemma file_directory [simp]: "d_directory (set_file i c d) = d_directory d" "d_directory (remove_file i d) = d_directory d"
  by (simp_all add: set_file_def remove_file_def)

lemma FileSize_directory: "FileSize p d = (r, d1) \<Longrightarrow> d_directory d1 = d_directory d"
  by (auto simp: FileSize_def Let_def dest!: syscall_directory split: prod.splits option.splits)

lemma RemoveFile_directory: "RemoveFile p d = (r, d1) \<Longrightarrow> d_directory d1 = d_directory d"
  by (auto simp: RemoveFile_def Let_def dest!: syscall_directory split: prod.splits if_splits)

lemma ResizeFile_directory: "ResizeFile p n d = (r, d1) \<Longrightarrow> d_directory d1 = d_directory d"
  by (auto simp: ResizeFile_def Let_def dest!: syscall_directory split: prod.splits if_splits option.splits)

lemma ReadSegment_directory: "ReadSegmentBytes p c n d = (r, d1) \<Longrightarrow> d_directory d1 = d_directory d"
  by (auto simp: ReadSegmentBytes_def Let_def dest!: syscall_directory split: prod.splits if_splits option.splits)

lemma WriteSegment_directory: "WriteSegmentBytes p c bs d = (r, d1) \<Longrightarrow> d_directory d1 = d_directory d"
  by (auto simp: WriteSegmentBytes_def Let_def dest!: syscall_directory split: prod.splits if_splits option.splits outcome.splits)

lemma chunks_directory:
  assumes "ForEachSegmentChunk ps S c n f s = (ok, s1)"
    and "\<And>i k m s b s1. f i k m s = (b, s1) \<Longrightarrow> d_directory (snd s1) = d_directory (snd s)"
  shows "d_directory (snd s1) = d_directory (snd s)"
proof -
  consider "s1 = s" | "0 < S" "chunk_loop S f c n s = (ok, s1)"
    using assms(1) by (auto simp: ForEachSegmentChunk_def split: if_splits option.splits)
  then show ?thesis
  proof cases
    case 2
    have "if ok then d_directory (snd s1) = d_directory (snd s) else d_directory (snd s1) = d_directory (snd s)"
      by (rule chunk_loop_rule [OF 2(2,1), where I = "\<lambda>_ _ t. d_directory (snd t) = d_directory (snd s)"])
        (use assms(2) in auto)
    then show ?thesis by (cases ok) simp_all
  qed simp
qed

lemma readBytes_directory: "readBytesLocked v c n d = (r, d1) \<Longrightarrow> d_directory d1 = d_directory d"
proof -
  assume r: "readBytesLocked v c n d = (r, d1)"
  obtain ok bs d2 where f: "ForEachSegmentChunk (m_segmentPaths v) (m_segmentSize v) c n (read_chunk (m_segmentPaths v)) ([], d) = (ok, bs, d2)"
    by (metis prod_cases3)
  have "d_directory (snd (bs, d2)) = d_directory (snd ([] :: u8 list, d))"
    by (rule chunks_directory [OF f])
      (auto simp: read_chunk_def Let_def dest: ReadSegment_directory split: prod.splits option.splits)
  then show ?thesis using r f by (auto simp: readBytesLocked_def Let_def split: if_splits)
qed

lemma createSegment_directory: "createSegmentLocked i v d = (b, v1, d1) \<Longrightarrow> d_directory d1 = d_directory d"
  by (auto simp: createSegmentLocked_def Let_def dest!: syscall_directory split: prod.splits if_splits)

lemma ensureCapacity_directory: "ensureCapacityLocked n v d = (b, v1, d1) \<Longrightarrow> d_directory d1 = d_directory d"
proof (induction n v d rule: ensureCapacityLocked.induct)
  case (1 n v d)
  obtain k v2 d2 where c: "createSegmentLocked (length (m_segmentPaths v)) v d = (k, v2, d2)" by (metis prod_cases3)
  consider "d1 = d" | "d1 = d2" | "ensureCapacityLocked n v2 d2 = (b, v1, d1)" "k"
      "\<exists>cap. computeLogicalCapacityLocked v = Some cap \<and> \<not> n \<le> cap \<and> m_writable v"
    using "1.prems" c by (subst (asm) ensureCapacityLocked.simps) (auto split: option.splits if_splits bool.splits)
  then show ?case
  proof cases
    case 3
    then have "d_directory d1 = d_directory d2" using "1.IH" [OF _ _ _ c [symmetric] _ refl] by auto
    then show ?thesis using createSegment_directory [OF c] by simp
  qed (use createSegment_directory [OF c] in simp_all)
qed

lemma writeBytes_directory: "writeBytesLocked c data v d = (b, v1, d1) \<Longrightarrow> d_directory d1 = d_directory d"
proof -
  assume w: "writeBytesLocked c data v d = (b, v1, d1)"
  obtain k v2 d2 where e: "ensureCapacityLocked (c + length data) v d = (k, v2, d2)" by (metis prod_cases3)
  obtain ok bs d3 where f: "ForEachSegmentChunk (m_segmentPaths v2) (m_segmentSize v2) c (length data)
      (write_chunk (m_segmentPaths v2)) (data, d2) = (ok, bs, d3)" by (metis prod_cases3)
  have "d_directory (snd (bs, d3)) = d_directory (snd (data, d2))"
    by (rule chunks_directory [OF f]) (auto simp: write_chunk_def Let_def dest: WriteSegment_directory split: prod.splits)
  then show ?thesis
    using w e f ensureCapacity_directory [OF e]
    by (auto simp: writeBytesLocked_def Let_def add_u64_def split: if_splits option.splits)
qed

lemma copy_directory: "copy_chunk x y n v d = (b, v1, d1) \<Longrightarrow> d_directory d1 = d_directory d"
  by (auto simp: copy_chunk_def dest!: readBytes_directory writeBytes_directory split: prod.splits option.splits)

lemma move_forward_directory: "move_forward k x y n m v d = (b, v1, d1) \<Longrightarrow> d_directory d1 = d_directory d"
proof (induction k x y n m v d rule: move_forward.induct)
  case (1 k x y n m v d)
  obtain ok v2 d2 where c: "copy_chunk (x + m) (y + m) (min (n - m) k) v d = (ok, v2, d2)" by (metis prod_cases3)
  show ?case
    using "1.prems" "1.IH" [OF _ refl c [symmetric] refl] c copy_directory [OF c]
    by (subst (asm) move_forward.simps) (auto simp: Let_def split: if_splits)
qed

lemma move_backward_directory: "move_backward k x y n v d = (b, v1, d1) \<Longrightarrow> d_directory d1 = d_directory d"
proof (induction k x y n v d rule: move_backward.induct)
  case (1 k x y n v d)
  obtain ok v2 d2 where c: "copy_chunk (x + (n - min n k)) (y + (n - min n k)) (min n k) v d = (ok, v2, d2)" by (metis prod_cases3)
  show ?case
    using "1.prems" "1.IH" [OF _ refl refl c [symmetric] refl] c copy_directory [OF c]
    by (subst (asm) move_backward.simps) (auto simp: Let_def split: if_splits)
qed

lemma moveBytes_directory: "moveBytesLocked x y n v d = (b, v1, d1) \<Longrightarrow> d_directory d1 = d_directory d"
  by (auto simp: moveBytesLocked_def Let_def
      dest!: ensureCapacity_directory move_forward_directory move_backward_directory split: if_splits option.splits prod.splits)

lemma move_layouts_directory: "move_layouts ls v d = (b, v1, d1) \<Longrightarrow> d_directory d1 = d_directory d"
proof (induction ls v d rule: move_layouts.induct)
  case (2 l ls v d)
  obtain ok v2 d2 where m: "moveBytesLocked (l_destinationOffset l) (l_sourceOffset l) (l_size l) v d = (ok, v2, d2)"
    by (metis prod_cases3)
  show ?case using "2.prems" "2.IH" m moveBytes_directory [OF m] by (auto split: if_splits bool.splits)
qed simp

lemma flush_directory: "flushMetadataLocked v d = (b, v1, d1) \<Longrightarrow> d_directory d1 = d_directory d"
  by (auto elim!: flush_cases dest: writeBytes_directory)

lemma trim_directory: "trimSegmentsForNextFreeOffsetLocked v d = (b, v1, d1) \<Longrightarrow> d_directory d1 = d_directory d"
proof -
  assume t: "trimSegmentsForNextFreeOffsetLocked v d = (b, v1, d1)"
  have loop: "trim_loop n w e = (k, w1, e1) \<Longrightarrow> d_directory e1 = d_directory e" for n w e k w1 e1
  proof (induction n w e rule: trim_loop.induct)
    case (1 n w e)
    obtain ok e2 where r: "RemoveFile (last (m_segmentPaths w)) e = (ok, e2)" by fastforce
    show ?case
      using "1.prems" "1.IH" [OF _ r [symmetric]] r RemoveFile_directory [OF r]
      by (subst (asm) trim_loop.simps) (auto simp: Let_def split: if_splits)
  qed
  have last: "trim_last_segment n w e = (k, e1) \<Longrightarrow> d_directory e1 = d_directory e" for n w e k e1
    by (auto simp: trim_last_segment_def Let_def dest!: FileSize_directory ResizeFile_directory split: prod.splits option.splits if_splits)
  show ?thesis
    using t unfolding trimSegmentsForNextFreeOffsetLocked_def Let_def
    by (auto dest!: loop last split: if_splits prod.splits)
qed

lemma compact_directory: "compact Sort s v d = (b, v1, d1) \<Longrightarrow> d_directory d1 = d_directory d"
  by (auto simp: compact_def dest!: move_layouts_directory flush_directory trim_directory
      split: if_splits option.splits prod.splits bool.splits)

lemma writeFile_directory: "writeFileLocked mode p data v d = (b, v1, d1) \<Longrightarrow> d_directory d1 = d_directory d"
  by (auto simp: writeFileLocked_def Let_def dest!: ensureCapacity_directory writeBytes_directory flush_directory
      split: if_splits option.splits prod.splits bool.splits)

section \<open>Creating a volume\<close>

text \<open>What a build may find: nothing, or the segments of an older volume without a gap.\<close>

definition host_clean :: "Disk \<Rightarrow> bool" where
  "host_clean d \<longleftrightarrow> d_faults d = [] \<and> d_directory d \<noteq> OtherFile \<and>
     (\<exists>n\<le>usize_max. (d_directory d = Missing \<longrightarrow> n = 0) \<and> (\<forall>i. file_at d i \<noteq> None \<longleftrightarrow> i < n))"

lemma remove_loop_ok:
  "d_faults d = [] \<Longrightarrow> \<forall>k. i \<le> k \<and> k < n \<longrightarrow> file_at d k \<noteq> None \<Longrightarrow> file_at d n = None \<Longrightarrow> i \<le> n \<Longrightarrow> n \<le> usize_max \<Longrightarrow>
    \<exists>d1. remove_loop i d = (True, d1) \<and> d_faults d1 = [] \<and> d_directory d1 = d_directory d \<and>
      (\<forall>k. file_at d1 k = (if i \<le> k \<and> k < n then None else file_at d k))"
proof (induction "n - i" arbitrary: i d)
  case 0
  then show ?case by (auto simp: remove_loop.simps [of i] FileExists_def syscall_ok)
next
  case (Suc m)
  let ?d = "remove_file i d"
  have i: "i < n" "file_at d i \<noteq> None" "i < usize_max" using Suc.hyps(2) Suc.prems by auto
  have fd: "d_faults ?d = []" "d_directory ?d = d_directory d" using Suc.prems(1) by (simp_all add: remove_file_def)
  have "\<exists>d1. remove_loop (i + 1) ?d = (True, d1) \<and> d_faults d1 = [] \<and> d_directory d1 = d_directory ?d \<and>
      (\<forall>k. file_at d1 k = (if i + 1 \<le> k \<and> k < n then None else file_at ?d k))"
    by (rule Suc.hyps(1)) (use Suc.hyps(2) Suc.prems i fd in auto)
  with fd(2) obtain d1 where d1: "remove_loop (i + 1) ?d = (True, d1)" "d_faults d1 = []" "d_directory d1 = d_directory d"
      "\<forall>k. file_at d1 k = (if i + 1 \<le> k \<and> k < n then None else file_at ?d k)" by auto
  have "remove_loop i d = (True, d1)"
    using i d1(1) Suc.prems(1) by (simp add: remove_loop.simps [of i] FileExists_def RemoveFile_def syscall_ok)
  moreover have "file_at d1 k = (if i \<le> k \<and> k < n then None else file_at d k)" for k
    using d1(4) i(1) by (cases "k = i") auto
  ultimately show ?case using d1(2,3) by blast
qed

lemma remove_existing_ok:
  assumes "host_clean d"
  shows "\<exists>d1. RemoveExistingVolumeSegments d = (True, d1) \<and> d_faults d1 = [] \<and> d_directory d1 = d_directory d \<and>
    (\<forall>i. file_at d1 i = None)"
proof -
  obtain n where n: "n \<le> usize_max" "d_directory d = Missing \<longrightarrow> n = 0" "\<And>i. file_at d i \<noteq> None \<longleftrightarrow> i < n"
    using assms by (auto simp: host_clean_def)
  have f: "d_faults d = []" "d_directory d \<noteq> OtherFile" using assms by (auto simp: host_clean_def)
  show ?thesis
  proof (cases "d_directory d = Missing")
    case True
    then have "file_at d i = None" for i using n(2) n(3) [of i] by auto
    then show ?thesis using True f by (simp add: RemoveExistingVolumeSegments_def syscall_ok)
  next
    case False
    have "\<forall>k. 0 \<le> k \<and> k < n \<longrightarrow> file_at d k \<noteq> None" "file_at d n = None" using n(3) by blast+
    then obtain d1 where d1: "remove_loop 0 d = (True, d1)" "d_faults d1 = []" "d_directory d1 = d_directory d"
        "\<forall>k. file_at d1 k = (if 0 \<le> k \<and> k < n then None else file_at d k)"
      using remove_loop_ok [OF f(1), of 0 n] n(1) by blast
    have "file_at d1 i = None" for i using d1(4) n(3) [of i] by auto
    moreover have "d_directory d = Directory" using False f(2) by (cases "d_directory d") auto
    ultimately show ?thesis using d1 f by (simp add: RemoveExistingVolumeSegments_def syscall_ok)
  qed
qed

definition config_metadata :: "VolumeBuildConfig \<Rightarrow> nat" where
  "config_metadata config =
     (if config_metadataSize config = 0 then DefaultMetadataBytes (config_segmentSize config) else config_metadataSize config)"

text \<open>The volume that creation gives.\<close>

definition created :: "VolumeBuildConfig \<Rightarrow> VolumeFileSystem \<Rightarrow> VolumeFileSystem" where
  "created config v = v\<lparr>m_mounted := True, m_writable := True, m_segmentSize := config_segmentSize config,
     m_metadataBytes := config_metadata config, m_nextFreeOffset := config_metadata config, m_maxSegments := 0,
     m_segmentPaths := [0], m_files := []\<rparr>"

lemma host_ok_mounted [simp]: "host_ok (v\<lparr>m_mounted := b\<rparr>) d = host_ok v d"
  by (simp add: host_ok_def exact_def cong: option.case_cong)

lemma session_create_ok:
  assumes "host_clean d" "ValidVolumeName (config_volumeName config)" "config_segmentSize config \<le> stream_max"
    "sizeof_header < config_metadata config" "config_metadata config < config_segmentSize config"
  shows "\<exists>d1. session_create config u d = (True, created config u, d1) \<and> vol_inv (created config u) d1 \<and>
    host_ok (created config u) d1 \<and> d_directory d1 = Directory"
proof -
  obtain d2 where r: "RemoveExistingVolumeSegments d = (True, d2)" "d_faults d2 = []" "d_directory d2 = d_directory d"
      "\<And>i. file_at d2 i = None"
    using remove_existing_ok [OF assms(1)] by blast
  let ?desc = "\<lparr>desc_volumeName = config_volumeName config, desc_segmentSize = config_segmentSize config,
    desc_metadataSize = config_metadataSize config, desc_maxSegments = 0, desc_createIfMissing = True, desc_usage = CookWrite\<rparr>"
  let ?v = "(unmountLocked u)\<lparr>m_writable := True, m_maxSegments := 0\<rparr>"
  let ?d = "d2\<lparr>d_directory := Directory\<rparr>"
  have files: "file_at ?d i = None" for i using r(4) [of i] by (simp add: file_at_def)
  have dir: "mount_directory ?desc True d2 = (True, ?d)"
    using r(2,3) assms(1) by (cases "d_directory d") (auto simp: mount_directory_def syscall_ok host_clean_def)
  have scan: "scanSegmentsLocked ?v ?d = (True, ?v, ?d)"
    using scan_loop_ok [of ?d 0 0 "[]"] files r(2) by (simp add: scanSegmentsLocked_def unmountLocked_def)
  let ?w = "?v\<lparr>m_segmentSize := config_segmentSize config, m_metadataBytes := config_metadata config,
    m_nextFreeOffset := config_metadata config, m_segmentPaths := [0]\<rparr>"
  have "\<exists>d1. mount_new ?desc ?v ?d = (True, ?w, d1) \<and> vol_inv ?w d1 \<and> host_ok ?w d1"
    by (rule mount_new_ok) (use r(2) files assms in \<open>simp_all add: unmountLocked_def config_metadata_def\<close>)
  then obtain d1 where d1: "mount_new ?desc ?v ?d = (True, ?w, d1)" "vol_inv ?w d1" "host_ok ?w d1" by blast
  have c: "created config u = ?w\<lparr>m_mounted := True\<rparr>" by (cases u) (simp add: created_def unmountLocked_def)
  have "mount ?desc u d2 = (True, ?w\<lparr>m_mounted := True\<rparr>, d1)"
    using assms(2) dir scan d1(1) by (simp add: mount_def unmountLocked_def)
  then have m: "session_create config u d = (True, created config u, d1)"
    unfolding c using r(1) by (simp add: session_create_def)
  obtain k v3 d3 where s: "createSegmentLocked 0 (?v\<lparr>m_segmentSize := config_segmentSize config, m_metadataBytes := config_metadata config,
      m_nextFreeOffset := config_metadata config\<rparr>) ?d = (k, v3, d3)" by (metis prod_cases3)
  have "d1 = d3 \<or> flushMetadataLocked v3 d3 = (True, ?w, d1)"
    using d1(1) s by (cases "config_metadataSize config = 0") (auto simp: mount_new_def Let_def config_metadata_def split: if_splits bool.splits)
  then have "d_directory d1 = Directory" using createSegment_directory [OF s] flush_directory by fastforce
  then show ?thesis using m d1(2,3) c by (metis vol_inv_mounted host_ok_mounted)
qed

section \<open>Pushing files\<close>

text \<open>The file map of a build in the order of its iteration: the text of each path and the payload.\<close>

fun push_files :: "(u8 list \<times> u8 list) list \<Rightarrow> VolumeFileSystem \<Rightarrow> Disk \<Rightarrow> bool \<times> VolumeFileSystem \<times> Disk" where
  "push_files [] v d = (True, v, d)"
| "push_files ((virtualPath, payloadBytes) # files) v d =
     (case session_pushDataDeferred_text virtualPath payloadBytes v d of
        (False, v1, d1) \<Rightarrow> (False, v1, d1)
      | (True, v1, d1) \<Rightarrow> push_files files v1 d1)"

text \<open>What the pushed files make of a map of names: a later file replaces an earlier one of the same name.\<close>

definition pushed :: "(u8 list \<times> u8 list) list \<Rightarrow> NameHash \<Rightarrow> u8 list option" where
  "pushed files = map_of (rev (map (\<lambda>(t, data). (ComputeNameHash_view t, data)) files))"

lemma pushed_Nil [simp]: "pushed [] = Map.empty"
  by (simp add: pushed_def)

lemma add_pushed_Cons: "m ++ pushed ((t, data) # files) = m(ComputeNameHash_view t \<mapsto> data) ++ pushed files"
  by (simp add: pushed_def map_add_def fun_eq_iff map_of_append split: option.split)

definition building :: "VolumeFileSystem \<Rightarrow> Disk \<Rightarrow> bool" where
  "building v d \<longleftrightarrow> vol_inv v d \<and> host_ok v d \<and> m_mounted v \<and> m_writable v \<and> m_maxSegments v = 0 \<and>
     d_directory d = Directory"

lemma length_update_le: "length (AList.update k x al) \<le> length al + 1"
  by (induction al) auto

lemma length_update_text: "length (snd (UpdateCanonicalNameHashText h t)) = length h"
  by (induction h t rule: UpdateCanonicalNameHashText.induct) (simp_all add: UpdateCanonicalNameHashLanes_def)

lemma length_name: "length (ComputeNameHash_view t) = 8"
  using length_update_text [of InitializeNameHash t]
  by (auto simp: ComputeNameHash_view_def zero_hash_def InitializeNameHash_def LANE_SEEDS_def split: prod.split)

lemma push_ok:
  assumes b: "building v d" and p: "length p = 8" "\<not> IsZeroHash p"
    and room: "sizeof_header + sizeof_entry * (length (m_files v) + 1) \<le> m_metadataBytes v"
      "m_nextFreeOffset v + length data + m_segmentSize v \<le> u64_max"
  shows "\<exists>v1 d1. session_pushDataDeferred p data v d = (True, v1, d1) \<and> building v1 d1 \<and>
    content v1 d1 = (content v d)(p \<mapsto> data) \<and> m_nextFreeOffset v1 = m_nextFreeOffset v + length data \<and>
    m_metadataBytes v1 = m_metadataBytes v \<and> m_segmentSize v1 = m_segmentSize v \<and>
    length (m_files v1) \<le> length (m_files v) + 1 \<and> (separate v \<and> data \<noteq> [] \<longrightarrow> separate v1)"
proof -
  have v: "vol_inv v d" "host_ok v d" "m_mounted v" "m_writable v" "m_maxSegments v = 0" "d_directory d = Directory"
    using b by (auto simp: building_def)
  obtain k v1 d1 where w: "writeFileLocked Deferred p data v d = (k, v1, d1)" by (metis prod_cases3)
  let ?r = "\<lparr>rec_offset = m_nextFreeOffset v, rec_size = length data\<rparr>"
  let ?v = "v\<lparr>m_files := AList.update p ?r (m_files v), m_nextFreeOffset := m_nextFreeOffset v + length data\<rparr>"
  have r: "k \<and> host_ok v1 d1 \<and> extends ?v v1"
    by (rule writeFile_ok [OF v(1-4) p _ _ w]) (use room v(5) in \<open>auto simp: room_for_def\<close>)
  note f = extends_fields [OF r [THEN conjunct2, THEN conjunct2]]
  note sp = writeFile_spec [OF v(1) p(1) w]
  have "separate v1" if "separate v" "data \<noteq> []"
  proof -
    have "map_of (m_files v) q = Some s \<Longrightarrow> rec_offset s + rec_size s \<le> m_nextFreeOffset v" for q s
      using v(1) by (simp add: vol_inv_def records_ok_def)
    then show ?thesis
      using that f(5) by (auto simp: separate_def update_conv)
  qed
  moreover have "building v1 d1"
    using sp r f v writeFile_directory [OF w] by (simp add: building_def)
  moreover have "session_pushDataDeferred p data v d = (True, v1, d1)"
    using v(3,4) p(2) w r by (simp add: session_pushDataDeferred_def writeFileDeferred_def)
  moreover have "length (m_files v1) \<le> length (m_files v) + 1"
    using f(5) length_update_le [of p ?r "m_files v"] by simp
  ultimately show ?thesis using sp r f by auto
qed

definition payload_bytes :: "(u8 list \<times> u8 list) list \<Rightarrow> nat" where
  "payload_bytes files = sum_list (map (\<lambda>(t, data). length data) files)"

text \<open>What a build has to be given: files with a path that has a name. An empty payload is accepted, but
  two files that start at the same offset, an empty one and the next, may be compacted in either order
  (lemma \<open>empty_file_order\<close>), so only a list without empty payloads is sure to be built.\<close>

definition files_named :: "(u8 list \<times> u8 list) list \<Rightarrow> bool" where
  "files_named files = list_all (\<lambda>(t, data). t \<noteq> [] \<and> \<not> IsZeroHash (ComputeNameHash_view t)) files"

definition no_empty_payload :: "(u8 list \<times> u8 list) list \<Rightarrow> bool" where
  "no_empty_payload files = list_all (\<lambda>(t, data). data \<noteq> []) files"

lemma push_files_ok:
  assumes "building v d" "files_named files"
    "sizeof_header + sizeof_entry * (length (m_files v) + length files) \<le> m_metadataBytes v"
    "m_nextFreeOffset v + payload_bytes files + m_segmentSize v \<le> u64_max"
  shows "\<exists>v1 d1. push_files files v d = (True, v1, d1) \<and> building v1 d1 \<and> content v1 d1 = content v d ++ pushed files \<and>
    (separate v \<and> no_empty_payload files \<longrightarrow> separate v1)"
  using assms
proof (induction files arbitrary: v d)
  case (Cons x files)
  obtain t data where x: "x = (t, data)" by fastforce
  let ?p = "ComputeNameHash_view t"
  have t: "t \<noteq> []" "\<not> IsZeroHash ?p" "files_named files" using Cons.prems(2) by (auto simp: files_named_def x)
  have "\<exists>v1 d1. session_pushDataDeferred ?p data v d = (True, v1, d1) \<and> building v1 d1 \<and>
      content v1 d1 = (content v d)(?p \<mapsto> data) \<and> m_nextFreeOffset v1 = m_nextFreeOffset v + length data \<and>
      m_metadataBytes v1 = m_metadataBytes v \<and> m_segmentSize v1 = m_segmentSize v \<and> length (m_files v1) \<le> length (m_files v) + 1 \<and>
      (separate v \<and> data \<noteq> [] \<longrightarrow> separate v1)"
    by (rule push_ok [OF Cons.prems(1) length_name t(2)])
      (use Cons.prems(3,4) in \<open>auto simp: payload_bytes_def x algebra_simps\<close>)
  then obtain v1 d1 where p: "session_pushDataDeferred ?p data v d = (True, v1, d1)" "building v1 d1"
      "content v1 d1 = (content v d)(?p \<mapsto> data)" "m_nextFreeOffset v1 = m_nextFreeOffset v + length data"
      "m_metadataBytes v1 = m_metadataBytes v" "m_segmentSize v1 = m_segmentSize v" "length (m_files v1) \<le> length (m_files v) + 1"
      "separate v \<and> data \<noteq> [] \<longrightarrow> separate v1"
    by blast
  have "\<exists>v2 d2. push_files files v1 d1 = (True, v2, d2) \<and> building v2 d2 \<and> content v2 d2 = content v1 d1 ++ pushed files \<and>
      (separate v1 \<and> no_empty_payload files \<longrightarrow> separate v2)"
    by (rule Cons.IH [OF p(2) t(3)]) (use Cons.prems(3,4) p in \<open>auto simp: payload_bytes_def x sizeof_entry_def\<close>)
  then show ?case
    using p(1,3,8) t by (auto simp: x session_pushDataDeferred_text_def Let_def add_pushed_Cons no_empty_payload_def)
qed simp

section \<open>A build and a load\<close>

record VolumeBuildInfo =
  info_fileCount :: nat
  info_segmentCount :: nat

text \<open>The session of \<open>BuildVolume\<close>: create, push, flush, and the counts it reports.\<close>

definition build_session ::
    "(FileLayout list \<Rightarrow> FileLayout list) \<Rightarrow> VolumeBuildConfig \<Rightarrow> (u8 list \<times> u8 list) list \<Rightarrow> VolumeFileSystem \<Rightarrow> Disk \<Rightarrow>
     VolumeBuildInfo option \<times> VolumeFileSystem \<times> Disk" where
  "build_session Sort config files v d =
     (case session_create config v d of
        (False, v1, d1) \<Rightarrow> (None, v1, d1)
      | (True, v1, d1) \<Rightarrow>
     case push_files files v1 d1 of
        (False, v2, d2) \<Rightarrow> (None, v2, d2)
      | (True, v2, d2) \<Rightarrow>
     case session_flush Sort v2 d2 of
        (False, v3, d3) \<Rightarrow> (None, v3, d3)
      | (True, v3, d3) \<Rightarrow>
          (Some \<lparr>info_fileCount = length (m_files v3), info_segmentCount = length (m_segmentPaths v3)\<rparr>, v3, d3))"

text \<open>A build that has room: for its metadata, and for the payload below the 64-bit limit.\<close>

definition build_fits :: "VolumeBuildConfig \<Rightarrow> (u8 list \<times> u8 list) list \<Rightarrow> bool" where
  "build_fits config files \<longleftrightarrow> ValidVolumeName (config_volumeName config) \<and> config_segmentSize config \<le> stream_max \<and>
     sizeof_header < config_metadata config \<and> config_metadata config < config_segmentSize config \<and>
     sizeof_header + sizeof_entry * length files \<le> config_metadata config \<and>
     config_metadata config + payload_bytes files + config_segmentSize config \<le> u64_max"

lemma build_session_ok:
  assumes "host_clean d" "build_fits config files" "files_named files" "sorts_by_offset Sort"
  shows "case build_session Sort config files u d of
      (None, w, d1) \<Rightarrow> \<not> no_empty_payload files \<and> d_faults d1 = []
    | (Some info, w, d1) \<Rightarrow> vol_inv w d1 \<and> host_ok w d1 \<and> stored w d1 \<and> d_directory d1 = Directory \<and>
        content w d1 = pushed files \<and> info_segmentCount info = length (m_segmentPaths w) \<and>
        info_fileCount info = length (m_files w)"
proof -
  let ?v = "created config u"
  obtain da where c: "session_create config u d = (True, ?v, da)" "vol_inv ?v da" "host_ok ?v da" "d_directory da = Directory"
    using session_create_ok [of d config u] assms(1,2) by (auto simp: build_fits_def)
  have "building ?v da" "separate ?v" using c by (simp_all add: building_def created_def separate_def)
  then obtain v1 db where p: "push_files files ?v da = (True, v1, db)" "building v1 db" "content v1 db = content ?v da ++ pushed files"
      "no_empty_payload files \<longrightarrow> separate v1"
    using push_files_ok [of ?v da files] assms(2,3) by (auto simp: build_fits_def created_def)
  have v1: "vol_inv v1 db" "host_ok v1 db" "m_mounted v1" "m_writable v1" "d_directory db = Directory"
    using p(2) by (auto simp: building_def)
  have e: "content v1 db = pushed files"
    unfolding p(3) by (simp add: content_def created_def fun_eq_iff map_add_def split: option.split)
  obtain b w d1 where k: "compact Sort True v1 db = (b, w, d1)" by (metis prod_cases3)
  note cr = compact_result [OF v1(1) assms(4) k]
  have dir: "d_directory d1 = Directory" using compact_directory [OF k] v1(5) by simp
  show ?thesis
  proof (cases b)
    case True
    then have "host_ok w d1 \<and> vol_inv w d1 \<and> stored w d1 \<and> content w d1 = content v1 db" using cr v1(2) by simp
    moreover have "build_session Sort config files u d =
        (Some \<lparr>info_fileCount = length (m_files w), info_segmentCount = length (m_segmentPaths w)\<rparr>, w, d1)"
      using c(1) p(1) k v1(3,4) True by (simp add: build_session_def session_flush_def)
    ultimately show ?thesis using e dir by simp
  next
    case False
    then have "\<not> no_empty_payload files \<and> d_faults d1 = []" using cr v1(2-4) p(4) by (auto simp: host_ok_def)
    moreover have "build_session Sort config files u d = (None, w, d1)"
      using c(1) p(1) k v1(3,4) False by (simp add: build_session_def session_flush_def)
    ultimately show ?thesis by simp
  qed
qed

text \<open>A load of what was flushed reads the files.\<close>

lemma session_load_ok:
  assumes "vol_inv v d" "host_ok v d" "stored v d" "d_directory d = Directory"
    "cs_assign CompactString_new volumeName = (True, name)" "ValidVolumeName (cs_view name)"
  shows "\<exists>w. session_load volumeName u d = (True, w, d) \<and> m_mounted w \<and> \<not> m_writable w \<and> vol_inv w d \<and> host_ok w d \<and>
    content w d = content v d"
proof -
  let ?desc = "\<lparr>desc_volumeName = cs_view name, desc_segmentSize = 0, desc_metadataSize = 0, desc_maxSegments = 0,
    desc_createIfMissing = False, desc_usage = RuntimeReadOnly\<rparr>"
  have "mount ?desc u d = (True, remounted ?desc v, d)"
    by (rule mount_ok [OF assms(1-4)]) (use assms(6) in \<open>simp add: desc_matches_def\<close>)
  then have "session_load volumeName u d = (True, remounted ?desc v, d)" using assms(5) by (simp add: session_load_def)
  moreover have "m_mounted (remounted ?desc v)" "\<not> m_writable (remounted ?desc v)" by (simp_all add: remounted_def)
  ultimately show ?thesis using remounted_same [OF assms(1), of ?desc] assms(2) by auto
qed

lemma loadData_text_ok:
  assumes "vol_inv v d" "host_ok v d" "m_mounted v"
  shows "session_loadData_text t v d = (if t = [] then None else content v d (ComputeNameHash_view t), d)"
  using assms readFile_ok [OF assms]
  by (simp add: session_loadData_text_def Let_def content_def)

definition sample_config :: VolumeBuildConfig where
  "sample_config = \<lparr>config_volumeName = [97], config_segmentSize = 512, config_metadataSize = 208\<rparr>"

lemma sample_assign: "\<exists>name. cs_assign CompactString_new [97] = (True, name) \<and> cs_view name = [97]"
  using cs_assign_ok [OF cs_inv_new, of "[97]"] by (cases "cs_assign CompactString_new [97]") (simp add: Canonicalize_def ToAsciiLower_def)

end
