(* ===== verification/Volume_Publish.thy ===== *)
theory Volume_Publish
  imports Volume_Session
begin

text \<open>
  Publishing a volume, \<^verbatim>\<open>src/core/filesystem/volume_staging.cpp\<close> and \<^verbatim>\<open>volume_build.cpp\<close>: a volume is built in a
  stage directory; the segments of the old volume are moved from the output to a backup directory, those of
  the new one from the stage to the output, and a failure moves the old ones back. The state has
  the three directories with their segments, other entries left out; they share the outcomes of the calls to
  come. A removal of a directory that fails may have removed any of its entries: the bits of the outcome
  say which. The parents of the directories are taken to exist.
\<close>

section \<open>Three directories\<close>

datatype place = Output | Stage | Backup

record Folder =
  f_kind :: mount_point
  f_segments :: "(nat \<times> u8 list) list"

record Staging =
  st_output :: Folder
  st_stage :: Folder
  st_backup :: Folder
  st_faults :: "outcome list"

primrec folder :: "place \<Rightarrow> Staging \<Rightarrow> Folder" where
  "folder Output s = st_output s"
| "folder Stage s = st_stage s"
| "folder Backup s = st_backup s"

primrec set_folder :: "place \<Rightarrow> Folder \<Rightarrow> Staging \<Rightarrow> Staging" where
  "set_folder Output f s = s\<lparr>st_output := f\<rparr>"
| "set_folder Stage f s = s\<lparr>st_stage := f\<rparr>"
| "set_folder Backup f s = s\<lparr>st_backup := f\<rparr>"

definition segment_in :: "place \<Rightarrow> Staging \<Rightarrow> nat \<Rightarrow> u8 list option" where
  "segment_in p s i = (if f_kind (folder p s) = Directory then map_of (f_segments (folder p s)) i else None)"

definition host_call :: "Staging \<Rightarrow> outcome \<times> Staging" where
  "host_call s = (case st_faults s of [] \<Rightarrow> (Done, s) | f # fs \<Rightarrow> (f, s\<lparr>st_faults := fs\<rparr>))"

text \<open>Queries: \<open>None\<close> when the call fails.\<close>

definition folder_exists :: "place \<Rightarrow> Staging \<Rightarrow> bool option \<times> Staging" where
  "folder_exists p s =
     (let (r, s1) = host_call s in (if r = Done then Some (f_kind (folder p s) \<noteq> Missing) else None, s1))"

definition folder_is_directory :: "place \<Rightarrow> Staging \<Rightarrow> bool option \<times> Staging" where
  "folder_is_directory p s =
     (let (r, s1) = host_call s in (if r = Done then Some (f_kind (folder p s) = Directory) else None, s1))"

definition segment_exists :: "place \<Rightarrow> nat \<Rightarrow> Staging \<Rightarrow> bool option \<times> Staging" where
  "segment_exists p i s = (let (r, s1) = host_call s in (if r = Done then Some (segment_in p s i \<noteq> None) else None, s1))"

text \<open>Creating a directory: one that is a file already is no error.\<close>

definition EnsureDirectories :: "place \<Rightarrow> Staging \<Rightarrow> bool \<times> Staging" where
  "EnsureDirectories p s =
     (case folder_is_directory p s of
        (None, s1) \<Rightarrow> (False, s1)
      | (Some True, s1) \<Rightarrow> (True, s1)
      | (Some False, s1) \<Rightarrow>
          let (made, s2) = host_call s1
          in if made \<noteq> Done then (False, s2)
             else if f_kind (folder p s2) = Missing then (True, set_folder p \<lparr>f_kind = Directory, f_segments = []\<rparr> s2)
             else (True, s2))"

definition RemoveAllIfExists :: "place \<Rightarrow> Staging \<Rightarrow> bool \<times> Staging" where
  "RemoveAllIfExists p s =
     (case folder_exists p s of
        (None, s1) \<Rightarrow> (False, s1)
      | (Some False, s1) \<Rightarrow> (True, s1)
      | (Some True, s1) \<Rightarrow>
          let (removed, s2) = host_call s1
          in case removed of
               Done \<Rightarrow> (True, set_folder p \<lparr>f_kind = Missing, f_segments = []\<rparr> s2)
             | Failed k \<Rightarrow> (False, set_folder p
                 ((folder p s2)\<lparr>f_segments := nths (f_segments (folder p s2)) {i. \<not> bit k i}\<rparr>) s2))"

definition EnsureEmptyDirectory :: "place \<Rightarrow> Staging \<Rightarrow> bool \<times> Staging" where
  "EnsureEmptyDirectory p s =
     (case RemoveAllIfExists p s of (False, s1) \<Rightarrow> (False, s1) | (True, s1) \<Rightarrow> EnsureDirectories p s1)"

text \<open>Renaming a segment into another directory replaces what is there under its name.\<close>

definition RenamePath :: "place \<Rightarrow> place \<Rightarrow> nat \<Rightarrow> Staging \<Rightarrow> bool \<times> Staging" where
  "RenamePath from to i s =
     (let (r, s1) = host_call s
      in if r \<noteq> Done \<or> f_kind (folder to s1) \<noteq> Directory then (False, s1)
         else case segment_in from s1 i of
             None \<Rightarrow> (False, s1)
           | Some bytes \<Rightarrow>
               let s2 = set_folder from ((folder from s1)\<lparr>f_segments := AList.delete i (f_segments (folder from s1))\<rparr>) s1
               in (True, set_folder to ((folder to s2)\<lparr>f_segments := AList.update i bytes (f_segments (folder to s2))\<rparr>) s2))"

definition RemoveSegment :: "place \<Rightarrow> nat \<Rightarrow> Staging \<Rightarrow> bool \<times> Staging" where
  "RemoveSegment p i s =
     (let (r, s1) = host_call s
      in if r \<noteq> Done \<or> segment_in p s1 i = None then (False, s1)
         else (True, set_folder p ((folder p s1)\<lparr>f_segments := AList.delete i (f_segments (folder p s1))\<rparr>) s1))"

section \<open>Promotion\<close>

definition CleanupStagedDirectoryBestEffort :: "place \<Rightarrow> Staging \<Rightarrow> Staging" where
  "CleanupStagedDirectoryBestEffort p s = snd (RemoveAllIfExists p s)"

fun restore_loop :: "place \<Rightarrow> place \<Rightarrow> nat list \<Rightarrow> Staging \<Rightarrow> bool \<times> Staging" where
  "restore_loop fromDirectory toDirectory [] s = (True, s)"
| "restore_loop fromDirectory toDirectory (fileName # fileNames) s =
     (case RenamePath fromDirectory toDirectory fileName s of
        (False, s1) \<Rightarrow> (False, s1)
      | (True, s1) \<Rightarrow> restore_loop fromDirectory toDirectory fileNames s1)"

definition RestoreVolumeSegments :: "place \<Rightarrow> place \<Rightarrow> nat list \<Rightarrow> Staging \<Rightarrow> bool \<times> Staging" where
  "RestoreVolumeSegments fromDirectory toDirectory fileNames s =
     (if fileNames = [] then (True, s)
      else case EnsureDirectories toDirectory s of
          (False, s1) \<Rightarrow> (False, s1)
        | (True, s1) \<Rightarrow> restore_loop fromDirectory toDirectory fileNames s1)"

definition rollbackMovedFiles :: "nat list \<Rightarrow> Staging \<Rightarrow> nat list \<times> Staging" where
  "rollbackMovedFiles moved s =
     (if moved = [] then (moved, s)
      else case RestoreVolumeSegments Backup Output moved s of
          (False, s1) \<Rightarrow> (moved, s1)
        | (True, s1) \<Rightarrow> ([], CleanupStagedDirectoryBestEffort Backup s1))"

definition moveSegmentToBackup :: "bool \<Rightarrow> nat \<Rightarrow> nat list \<Rightarrow> Staging \<Rightarrow> bool \<times> nat list \<times> Staging" where
  "moveSegmentToBackup destinationCreated segmentIndex moved s =
     (case (if destinationCreated then (True, s) else EnsureDirectories Backup s) of
        (False, s1) \<Rightarrow> (False, moved, s1)
      | (True, s1) \<Rightarrow>
          case RenamePath Output Backup segmentIndex s1 of
            (False, s2) \<Rightarrow> let (moved, s3) = rollbackMovedFiles moved s2 in (False, moved, s3)
          | (True, s2) \<Rightarrow> (True, moved @ [segmentIndex], s2))"

function backup_loop :: "nat \<Rightarrow> bool \<Rightarrow> nat list \<Rightarrow> Staging \<Rightarrow> bool \<times> nat list \<times> Staging" where
  "backup_loop segmentIndex destinationCreated moved s =
     (case segment_exists Output segmentIndex s of
        (None, s1) \<Rightarrow> let (moved, s2) = rollbackMovedFiles moved s1 in (False, moved, s2)
      | (Some False, s1) \<Rightarrow> (True, moved, s1)
      | (Some True, s1) \<Rightarrow>
          case moveSegmentToBackup destinationCreated segmentIndex moved s1 of
            (False, moved, s2) \<Rightarrow> (False, moved, s2)
          | (True, moved, s2) \<Rightarrow>
              if segmentIndex \<ge> usize_max then let (moved, s3) = rollbackMovedFiles moved s2 in (False, moved, s3)
              else backup_loop (segmentIndex + 1) True moved s2)"
  by pat_completeness auto
termination by (relation "measure (\<lambda>(i, _). usize_max + 1 - i)") auto

declare backup_loop.simps [simp del]

definition MoveExistingVolumeSegments :: "Staging \<Rightarrow> bool \<times> nat list \<times> Staging" where
  "MoveExistingVolumeSegments s =
     (case folder_exists Output s of
        (None, s1) \<Rightarrow> (False, [], s1)
      | (Some False, s1) \<Rightarrow> (True, [], s1)
      | (Some True, s1) \<Rightarrow>
          case folder_is_directory Output s1 of
            (Some True, s2) \<Rightarrow> backup_loop 0 False [] s2
          | (_, s2) \<Rightarrow> (False, [], s2))"

fun promote_loop :: "nat list \<Rightarrow> nat \<Rightarrow> Staging \<Rightarrow> bool \<times> nat \<times> Staging" where
  "promote_loop [] movedCount s = (True, movedCount, s)"
| "promote_loop (segmentIndex # rest) movedCount s =
     (case RenamePath Stage Output segmentIndex s of
        (False, s1) \<Rightarrow> (False, movedCount, s1)
      | (True, s1) \<Rightarrow> promote_loop rest (movedCount + 1) s1)"

definition MoveStagedVolumeSegments :: "nat \<Rightarrow> Staging \<Rightarrow> bool \<times> nat \<times> Staging" where
  "MoveStagedVolumeSegments segmentCount s =
     (if segmentCount = 0 then (False, 0, s)
      else case EnsureDirectories Output s of
          (False, s1) \<Rightarrow> (False, 0, s1)
        | (True, s1) \<Rightarrow> promote_loop [0..<segmentCount] 0 s1)"

definition RemovePromotedVolumeSegmentsBestEffort :: "nat \<Rightarrow> Staging \<Rightarrow> Staging" where
  "RemovePromotedVolumeSegmentsBestEffort segmentCount s =
     foldl (\<lambda>s segmentIndex. snd (RemoveSegment Output segmentIndex s)) s [0..<segmentCount]"

definition PromoteStagedVolume :: "nat \<Rightarrow> Staging \<Rightarrow> bool \<times> Staging" where
  "PromoteStagedVolume segmentCount s =
     (case MoveExistingVolumeSegments s of
        (False, _, s1) \<Rightarrow> (False, s1)
      | (True, movedBackupFiles, s1) \<Rightarrow>
     case MoveStagedVolumeSegments segmentCount s1 of
        (False, movedStageSegmentCount, s2) \<Rightarrow>
          let s3 = RemovePromotedVolumeSegmentsBestEffort movedStageSegmentCount s2;
              (restored, s4) = RestoreVolumeSegments Backup Output movedBackupFiles s3
          in (False, if restored then CleanupStagedDirectoryBestEffort Stage (CleanupStagedDirectoryBestEffort Backup s4) else s4)
      | (True, _, s2) \<Rightarrow>
          (True, CleanupStagedDirectoryBestEffort Stage (CleanupStagedDirectoryBestEffort Backup s2)))"

section \<open>Building\<close>

text \<open>The session sees the stage directory.\<close>

definition stage_disk :: "Staging \<Rightarrow> Disk" where
  "stage_disk s = \<lparr>d_directory = f_kind (st_stage s), d_segments = f_segments (st_stage s), d_faults = st_faults s\<rparr>"

definition with_stage :: "Disk \<Rightarrow> Staging \<Rightarrow> Staging" where
  "with_stage d s = s\<lparr>st_stage := \<lparr>f_kind = d_directory d, f_segments = d_segments d\<rparr>, st_faults := d_faults d\<rparr>"

text \<open>Every return before the dismissal of the guard cleans the stage directory.\<close>

definition BuildVolume ::
    "(FileLayout list \<Rightarrow> FileLayout list) \<Rightarrow> VolumeBuildConfig \<Rightarrow> (u8 list \<times> u8 list) list \<Rightarrow> VolumeFileSystem \<Rightarrow> Staging \<Rightarrow>
     VolumeBuildInfo option \<times> Staging" where
  "BuildVolume Sort config files v s =
     (case EnsureEmptyDirectory Stage s of
        (False, s1) \<Rightarrow> (None, s1)
      | (True, s1) \<Rightarrow>
     case RemoveAllIfExists Backup s1 of
        (False, s2) \<Rightarrow> (None, CleanupStagedDirectoryBestEffort Stage s2)
      | (True, s2) \<Rightarrow>
     case build_session Sort config files v (stage_disk s2) of
        (None, _, d) \<Rightarrow> (None, CleanupStagedDirectoryBestEffort Stage (with_stage d s2))
      | (Some info, _, d) \<Rightarrow>
     case PromoteStagedVolume (info_segmentCount info) (with_stage d s2) of
        (False, s3) \<Rightarrow> (None, CleanupStagedDirectoryBestEffort Stage s3)
      | (True, s3) \<Rightarrow> (Some info, s3))"

section \<open>What the calls change\<close>

lemma folder_set [simp]: "folder p (set_folder q f s) = (if p = q then f else folder p s)"
  by (cases p; cases q) simp_all

lemma folder_faults [simp]: "folder p (s\<lparr>st_faults := fs\<rparr>) = folder p s"
  by (cases p) simp_all

lemma set_folder_faults [simp]: "st_faults (set_folder p f s) = st_faults s"
  by (cases p) simp_all

declare folder.simps [simp del] set_folder.simps [simp del]

lemma segment_set [simp]:
  "segment_in p (set_folder q f s) i =
    (if p = q then if f_kind f = Directory then map_of (f_segments f) i else None else segment_in p s i)"
  by (simp add: segment_in_def)

lemma segment_folder: "folder p s1 = folder q s \<Longrightarrow> segment_in p s1 i = segment_in q s i"
  by (simp add: segment_in_def)

lemma host_call_folder: "host_call s = (r, s1) \<Longrightarrow> folder p s1 = folder p s"
  by (auto simp: host_call_def split: list.splits)

lemma host_call_segment: "host_call s = (r, s1) \<Longrightarrow> segment_in p s1 i = segment_in p s i"
  by (simp add: segment_in_def host_call_folder)

lemma query_segment:
  "folder_exists p s = (r, s1) \<Longrightarrow> segment_in q s1 i = segment_in q s i"
  "folder_is_directory p s = (r, s1) \<Longrightarrow> segment_in q s1 i = segment_in q s i"
  "segment_exists p k s = (r, s1) \<Longrightarrow> segment_in q s1 i = segment_in q s i"
  by (auto simp: folder_exists_def folder_is_directory_def segment_exists_def Let_def dest: host_call_segment split: prod.splits if_splits)

lemma EnsureDirectories_segment:
  assumes "EnsureDirectories p s = (b, s1)"
  shows "segment_in q s1 i = segment_in q s i"
proof -
  obtain r s2 where r: "folder_is_directory p s = (r, s2)" by fastforce
  obtain k s3 where k: "host_call s2 = (k, s3)" by fastforce
  have "segment_in q s2 i = segment_in q s i" "segment_in q s3 i = segment_in q s2 i"
    using query_segment(2) [OF r] host_call_segment [OF k] by simp_all
  moreover have "s1 = s2 \<or> s1 = s3 \<or> (f_kind (folder p s3) = Missing \<and> s1 = set_folder p \<lparr>f_kind = Directory, f_segments = []\<rparr> s3)"
    using assms r k by (auto simp: EnsureDirectories_def Let_def split: option.splits bool.splits if_splits)
  moreover have "segment_in p s3 i = None" if "f_kind (folder p s3) = Missing" using that by (simp add: segment_in_def)
  ultimately show ?thesis by auto
qed

lemma RemoveAll_segment: "RemoveAllIfExists p s = (b, s1) \<Longrightarrow> q \<noteq> p \<Longrightarrow> segment_in q s1 i = segment_in q s i"
  using query_segment(1)
  by (auto simp: RemoveAllIfExists_def Let_def dest: host_call_segment split: option.splits bool.splits prod.splits outcome.splits)

lemma cleanup_segment [simp]: "q \<noteq> p \<Longrightarrow> segment_in q (CleanupStagedDirectoryBestEffort p s) i = segment_in q s i"
  using RemoveAll_segment [of p s "fst (RemoveAllIfExists p s)" "snd (RemoveAllIfExists p s)" q i]
  by (simp add: CleanupStagedDirectoryBestEffort_def)

lemma RenamePath_cases:
  assumes "RenamePath from to i s = (b, s1)"
  obtains "\<not> b" "\<And>q k. segment_in q s1 k = segment_in q s k"
  | s2 bytes where "b" "\<And>q. folder q s2 = folder q s" "f_kind (folder to s) = Directory" "segment_in from s i = Some bytes"
      "s1 = set_folder to ((folder to (set_folder from ((folder from s)\<lparr>f_segments := AList.delete i (f_segments (folder from s))\<rparr>) s2))
         \<lparr>f_segments := AList.update i bytes (f_segments (folder to
            (set_folder from ((folder from s)\<lparr>f_segments := AList.delete i (f_segments (folder from s))\<rparr>) s2)))\<rparr>)
        (set_folder from ((folder from s)\<lparr>f_segments := AList.delete i (f_segments (folder from s))\<rparr>) s2)"
proof -
  obtain r s2 where r: "host_call s = (r, s2)" by fastforce
  have f: "folder q s2 = folder q s" "segment_in q s2 k = segment_in q s k" for q k
    using host_call_folder [OF r] host_call_segment [OF r] by simp_all
  show thesis
  proof (cases "r = Done \<and> f_kind (folder to s) = Directory \<and> segment_in from s i \<noteq> None")
    case False
    then have "\<not> b \<and> s1 = s2" using assms r f by (auto simp: RenamePath_def split: if_splits option.splits)
    then show thesis using f that(1) by blast
  next
    case True
    then obtain bytes where "segment_in from s i = Some bytes" by blast
    then show thesis using assms r f True that(2) [of s2 bytes] by (simp add: RenamePath_def Let_def)
  qed
qed

lemma RenamePath_segment:
  assumes "RenamePath from to i s = (b, s1)" "from \<noteq> to"
  shows "segment_in q s1 k =
      (if b \<and> k = i \<and> q = to then segment_in from s i else if b \<and> k = i \<and> q = from then None else segment_in q s k)"
    "b \<Longrightarrow> segment_in from s i \<noteq> None"
  using assms(1)
proof (atomize (full), cases rule: RenamePath_cases)
  case (2 s2 bytes)
  have "f_kind (folder from s) = Directory" using 2(4) by (simp add: segment_in_def split: if_splits)
  then show "segment_in q s1 k =
      (if b \<and> k = i \<and> q = to then segment_in from s i else if b \<and> k = i \<and> q = from then None else segment_in q s k) \<and>
    (b \<longrightarrow> segment_in from s i \<noteq> None)"
    using 2(1,3,4) assms(2) 2(2) unfolding 2(5) by (auto simp: segment_in_def update_conv delete_conv)
qed simp

lemma RemoveSegment_segment:
  "RemoveSegment p i s = (b, s1) \<Longrightarrow> segment_in q s1 k = (if b \<and> k = i \<and> q = p then None else segment_in q s k)"
  by (auto simp: RemoveSegment_def Let_def segment_in_def delete_conv host_call_folder split: prod.splits if_splits)

section \<open>Moving segments\<close>

lemma restore_loop_effect:
  assumes "restore_loop Backup Output names s = (b, s1)" "distinct names"
  shows "(if i \<in> set names then
        (segment_in Backup s i \<noteq> None \<and> segment_in Output s1 i = segment_in Backup s i \<and> segment_in Backup s1 i = None) \<or>
        (\<not> b \<and> segment_in Output s1 i = segment_in Output s i \<and> segment_in Backup s1 i = segment_in Backup s i)
      else segment_in Output s1 i = segment_in Output s i \<and> segment_in Backup s1 i = segment_in Backup s i) \<and>
    segment_in Stage s1 i = segment_in Stage s i"
  using assms
proof (induction names arbitrary: s)
  case (Cons n names)
  obtain k s2 where r: "RenamePath Backup Output n s = (k, s2)" by fastforce
  note rp = RenamePath_segment [OF r]
  show ?case
  proof (cases k)
    case False
    then show ?thesis using Cons.prems(1) r rp(1) by auto
  next
    case True
    then have "restore_loop Backup Output names s2 = (b, s1)" using Cons.prems(1) r by simp
    from Cons.IH [OF this] Cons.prems(2) show ?thesis using rp True by (cases "i = n") auto
  qed
qed simp

lemma Restore_effect:
  assumes "RestoreVolumeSegments Backup Output names s = (b, s1)" "distinct names"
  shows "(if i \<in> set names then
        (segment_in Backup s i \<noteq> None \<and> segment_in Output s1 i = segment_in Backup s i \<and> segment_in Backup s1 i = None) \<or>
        (\<not> b \<and> segment_in Output s1 i = segment_in Output s i \<and> segment_in Backup s1 i = segment_in Backup s i)
      else segment_in Output s1 i = segment_in Output s i \<and> segment_in Backup s1 i = segment_in Backup s i) \<and>
    segment_in Stage s1 i = segment_in Stage s i"
proof (cases "names = []")
  case True
  then show ?thesis using assms(1) by (simp add: RestoreVolumeSegments_def)
next
  case False
  obtain k s2 where e: "EnsureDirectories Output s = (k, s2)" by fastforce
  note es = EnsureDirectories_segment [OF e]
  show ?thesis
  proof (cases k)
    case True
    then have "restore_loop Backup Output names s2 = (b, s1)" using assms(1) False e by (simp add: RestoreVolumeSegments_def)
    from restore_loop_effect [OF this assms(2), of i] show ?thesis unfolding es .
  qed (use assms(1) False e es in \<open>auto simp: RestoreVolumeSegments_def\<close>)
qed

text \<open>A segment is safe when it is in the output or in the backup.\<close>

definition safe :: "(nat \<Rightarrow> u8 list option) \<Rightarrow> nat \<Rightarrow> Staging \<Rightarrow> bool" where
  "safe old i s \<longleftrightarrow> segment_in Output s i = old i \<or> segment_in Backup s i = old i"

lemma rollback_safe:
  assumes "rollbackMovedFiles moved s = (moved1, s1)" "distinct moved" "\<forall>i\<in>set moved. segment_in Backup s i = old i"
    "safe old i s" "i \<notin> set moved \<Longrightarrow> segment_in Output s i = old i"
  shows "safe old i s1"
proof (cases "moved = []")
  case True
  then show ?thesis using assms(1,4) by (simp add: rollbackMovedFiles_def)
next
  case False
  obtain b s2 where r: "RestoreVolumeSegments Backup Output moved s = (b, s2)" by fastforce
  note e = Restore_effect [OF r assms(2), of i]
  have "s1 = (if b then CleanupStagedDirectoryBestEffort Backup s2 else s2)"
    using assms(1) False r by (auto simp: rollbackMovedFiles_def split: if_splits)
  then show ?thesis using e assms(3-5) by (auto simp: safe_def split: if_splits)
qed

text \<open>The first \<open>n\<close> segments are in the backup, the others where they were.\<close>

definition backed_up :: "(nat \<Rightarrow> u8 list option) \<Rightarrow> nat \<Rightarrow> Staging \<Rightarrow> bool" where
  "backed_up old n s \<longleftrightarrow> (\<forall>i<n. segment_in Backup s i = old i \<and> old i \<noteq> None \<and> segment_in Output s i = None) \<and>
     (\<forall>i\<ge>n. segment_in Output s i = old i)"

lemma backed_up_safe: "backed_up old n s \<Longrightarrow> safe old i s"
  by (cases "i < n") (auto simp: backed_up_def safe_def)

lemma backed_up_cong: "(\<And>p i. segment_in p s1 i = segment_in p s i) \<Longrightarrow> backed_up old n s1 = backed_up old n s"
  by (simp add: backed_up_def)

lemma backed_up_rollback:
  assumes "backed_up old n s" "rollbackMovedFiles [0..<n] s = (moved, s1)"
  shows "safe old i s1"
  by (rule rollback_safe [OF assms(2) _ _ backed_up_safe [OF assms(1)]]) (use assms(1) in \<open>auto simp: backed_up_def\<close>)

lemma move_to_backup:
  assumes "moveSegmentToBackup c n [0..<n] s = (b, moved, s1)" "backed_up old n s"
  shows "if b then moved = [0..<Suc n] \<and> backed_up old (Suc n) s1 \<and> (\<forall>i. segment_in Stage s1 i = segment_in Stage s i)
    else \<forall>i. safe old i s1"
proof -
  obtain k s2 where e: "(if c then (True, s) else EnsureDirectories Backup s) = (k, s2)" by fastforce
  have es: "segment_in p s2 i = segment_in p s i" for p i
    using e EnsureDirectories_segment [of Backup s k s2 p i] by (cases c) auto
  obtain r s3 where r: "RenamePath Output Backup n s2 = (r, s3)" by fastforce
  note rp = RenamePath_segment [OF r]
  have b2: "backed_up old n s2" using assms(2) backed_up_cong [OF es] by simp
  show ?thesis
  proof (cases k)
    case False
    then have "\<not> b \<and> s1 = s2" using assms(1) e by (simp add: moveSegmentToBackup_def)
    then show ?thesis using backed_up_safe [OF b2] by simp
  next
    case k: True
    show ?thesis
    proof (cases r)
      case False
      obtain m s4 where m: "rollbackMovedFiles [0..<n] s3 = (m, s4)" by fastforce
      have "backed_up old n s3" using b2 backed_up_cong [of s3 s2] rp(1) False by simp
      moreover have "\<not> b \<and> s1 = s4" using assms(1) e k r False m by (auto simp: moveSegmentToBackup_def)
      ultimately show ?thesis using backed_up_rollback [OF _ m] by simp
    next
      case True
      then have "b \<and> moved = [0..<Suc n] \<and> s1 = s3" using assms(1) e k r by (auto simp: moveSegmentToBackup_def)
      moreover have "backed_up old (Suc n) s3"
        using b2 rp True by (auto simp: backed_up_def less_Suc_eq)
      ultimately show ?thesis using rp(1) True es by simp
    qed
  qed
qed

lemma backup_loop_effect:
  assumes "backup_loop k c [0..<k] s = (b, moved, s1)" "backed_up old k s"
  shows "if b then \<exists>n. moved = [0..<n] \<and> old n = None \<and> backed_up old n s1 \<and> (\<forall>i. segment_in Stage s1 i = segment_in Stage s i)
    else \<forall>i. safe old i s1"
  using assms
proof (induction "usize_max + 1 - k" arbitrary: k c s rule: less_induct)
  case less
  obtain r s2 where r: "segment_exists Output k s = (r, s2)" by fastforce
  have same: "segment_in p s2 i = segment_in p s i" for p i by (rule query_segment(3) [OF r])
  have b2: "backed_up old k s2" using less.prems(2) backed_up_cong [OF same] by simp
  consider "r = None" | "r = Some False" | "r = Some True" by (cases r) auto
  then show ?case
  proof cases
    case 1
    obtain m s3 where m: "rollbackMovedFiles [0..<k] s2 = (m, s3)" by fastforce
    have "\<not> b \<and> s1 = s3" using less.prems(1) r 1 m by (subst (asm) backup_loop.simps) simp
    then show ?thesis using backed_up_rollback [OF b2 m] by simp
  next
    case 2
    then have "b \<and> moved = [0..<k] \<and> s1 = s2" using less.prems(1) r by (subst (asm) backup_loop.simps) simp
    moreover have "segment_in Output s k = None"
      using r 2 by (auto simp: segment_exists_def Let_def split: prod.splits if_splits)
    then have "old k = None" using less.prems(2) by (simp add: backed_up_def)
    ultimately show ?thesis using b2 same by auto
  next
    case 3
    obtain q m s3 where q: "moveSegmentToBackup c k [0..<k] s2 = (q, m, s3)" by (metis prod_cases3)
    note mv = move_to_backup [OF q b2]
    show ?thesis
    proof (cases q)
      case False
      then have "\<not> b \<and> s1 = s3" using less.prems(1) r 3 q by (subst (asm) backup_loop.simps) simp
      then show ?thesis using mv False by simp
    next
      case moved: True
      then have m: "m = [0..<Suc k]" "backed_up old (Suc k) s3" "\<And>i. segment_in Stage s3 i = segment_in Stage s i"
        using mv same by simp_all
      obtain m2 s4 where rb: "rollbackMovedFiles [0..<Suc k] s3 = (m2, s4)" by fastforce
      have eq: "(b, moved, s1) = (if k \<ge> usize_max then (False, m2, s4) else backup_loop (Suc k) True [0..<Suc k] s3)"
        using less.prems(1) r 3 q moved m(1) rb by (subst (asm) backup_loop.simps) (auto simp del: upt_Suc)
      show ?thesis
      proof (cases "k \<ge> usize_max")
        case True
        then show ?thesis using eq backed_up_rollback [OF m(2) rb] by simp
      next
        case False
        then have "backup_loop (Suc k) True [0..<Suc k] s3 = (b, moved, s1)" using eq by simp
        from less.hyps [OF _ this m(2), unfolded m(3)] False show ?thesis by simp
      qed
    qed
  qed
qed

lemma MoveExisting_effect:
  assumes "MoveExistingVolumeSegments s = (b, moved, s1)"
  shows "if b then \<exists>n. moved = [0..<n] \<and> segment_in Output s n = None \<and> backed_up (segment_in Output s) n s1 \<and>
      (\<forall>i. segment_in Stage s1 i = segment_in Stage s i)
    else \<forall>i. safe (segment_in Output s) i s1"
proof -
  obtain r s2 where r: "folder_exists Output s = (r, s2)" by fastforce
  obtain q s3 where q: "folder_is_directory Output s2 = (q, s3)" by fastforce
  have same: "segment_in p s2 i = segment_in p s i" "segment_in p s3 i = segment_in p s i" for p i
    using query_segment(1) [OF r] query_segment(2) [OF q] by simp_all
  consider "r = None" | "r = Some False" | "r = Some True" "q \<noteq> Some True" | "r = Some True" "q = Some True" by (cases r) auto
  then show ?thesis
  proof cases
    case 1
    then show ?thesis using assms r same by (simp add: MoveExistingVolumeSegments_def safe_def)
  next
    case 2
    then have "b \<and> moved = [0..<0] \<and> s1 = s2" using assms r by (simp add: MoveExistingVolumeSegments_def)
    moreover have "segment_in Output s 0 = None"
      using r 2 by (auto simp: folder_exists_def segment_in_def Let_def split: prod.splits if_splits)
    ultimately show ?thesis using same by (auto simp: backed_up_def intro!: exI [of _ 0])
  next
    case 3
    then have "\<not> b \<and> s1 = s3" using assms r q
      by (auto simp: MoveExistingVolumeSegments_def split: option.splits bool.splits)
    then show ?thesis using same by (simp add: safe_def)
  next
    case 4
    then have "backup_loop 0 False [0..<0] s3 = (b, moved, s1)" using assms r q by (simp add: MoveExistingVolumeSegments_def)
    moreover have "backed_up (segment_in Output s) 0 s3" using same by (simp add: backed_up_def)
    ultimately show ?thesis using backup_loop_effect [of 0 False s3 b moved s1 "segment_in Output s", unfolded same(2)] by simp
  qed
qed

section \<open>Promoting and undoing\<close>

lemma promote_loop_effect:
  assumes "promote_loop [j..<n] j s = (b, m, s1)" "j \<le> n"
  shows "j \<le> m \<and> m \<le> n \<and> (b \<longrightarrow> m = n) \<and> segment_in Backup s1 i = segment_in Backup s i \<and>
    (if j \<le> i \<and> i < m then segment_in Output s1 i = segment_in Stage s i \<and> segment_in Stage s i \<noteq> None
     else segment_in Output s1 i = segment_in Output s i)"
  using assms
proof (induction "n - j" arbitrary: j s)
  case (Suc l)
  then have j: "j < n" "[j..<n] = j # [Suc j..<n]" by (auto simp: upt_rec)
  obtain r s2 where r: "RenamePath Stage Output j s = (r, s2)" by fastforce
  note rp = RenamePath_segment [OF r]
  show ?case
  proof (cases r)
    case False
    then have "\<not> b \<and> m = j \<and> s1 = s2" using Suc.prems(1) r j(2) by simp
    then show ?thesis using False rp(1) j by auto
  next
    case True
    then have p: "promote_loop [Suc j..<n] (Suc j) s2 = (b, m, s1)" using Suc.prems(1) r j(2) by simp
    have IH: "Suc j \<le> m \<and> m \<le> n \<and> (b \<longrightarrow> m = n) \<and> segment_in Backup s1 i = segment_in Backup s2 i \<and>
        (if Suc j \<le> i \<and> i < m then segment_in Output s1 i = segment_in Stage s2 i \<and> segment_in Stage s2 i \<noteq> None
         else segment_in Output s1 i = segment_in Output s2 i)"
      by (rule Suc.hyps(1) [OF _ p]) (use Suc.hyps(2) j in auto)
    then show ?thesis using rp True by (cases "i = j") (auto split: if_splits)
  qed
qed auto

lemma MoveStaged_effect:
  assumes "MoveStagedVolumeSegments n s = (b, m, s1)"
  shows "m \<le> n \<and> (b \<longrightarrow> m = n \<and> 0 < n) \<and> segment_in Backup s1 i = segment_in Backup s i \<and>
    (if i < m then segment_in Output s1 i = segment_in Stage s i \<and> segment_in Stage s i \<noteq> None
     else segment_in Output s1 i = segment_in Output s i)"
proof -
  obtain k s2 where e: "EnsureDirectories Output s = (k, s2)" by fastforce
  note es = EnsureDirectories_segment [OF e]
  show ?thesis
  proof (cases "n \<noteq> 0 \<and> k")
    case True
    then have "promote_loop [0..<n] 0 s2 = (b, m, s1)" using assms e by (simp add: MoveStagedVolumeSegments_def)
    from promote_loop_effect [OF this, of i] show ?thesis using True unfolding es by simp
  next
    case False
    then have "\<not> b \<and> m = 0 \<and> (s1 = s \<or> s1 = s2)" using assms e by (auto simp: MoveStagedVolumeSegments_def split: if_splits)
    then show ?thesis using es by auto
  qed
qed

lemma RemovePromoted_segment:
  "segment_in q (RemovePromotedVolumeSegmentsBestEffort m s) i \<in> {segment_in q s i, None} \<and>
    (q \<noteq> Output \<or> m \<le> i \<longrightarrow> segment_in q (RemovePromotedVolumeSegmentsBestEffort m s) i = segment_in q s i)"
proof (induction m)
  case (Suc m)
  let ?s = "RemovePromotedVolumeSegmentsBestEffort m s"
  obtain b s1 where r: "RemoveSegment Output m ?s = (b, s1)" by fastforce
  have "RemovePromotedVolumeSegmentsBestEffort (Suc m) s = s1"
    using r by (simp add: RemovePromotedVolumeSegmentsBestEffort_def)
  then show ?case using Suc RemoveSegment_segment [OF r, of q i] by auto
qed (simp add: RemovePromotedVolumeSegmentsBestEffort_def)

text \<open>A publication that succeeds puts the staged segments in place; one that fails loses no old segment.\<close>

lemma Promote_effect:
  assumes "PromoteStagedVolume num s = (b, s1)"
  shows "if b then \<exists>n. segment_in Output s n = None \<and> (\<forall>i<n. segment_in Output s i \<noteq> None) \<and>
      (\<forall>i. segment_in Output s1 i = (if i < num then segment_in Stage s i else if i < n then None else segment_in Output s i)) \<and>
      (\<forall>i<num. segment_in Stage s i \<noteq> None)
    else \<forall>i. (\<forall>k\<le>i. segment_in Output s k \<noteq> None) \<longrightarrow> safe (segment_in Output s) i s1"
proof -
  obtain e moved s2 where e: "MoveExistingVolumeSegments s = (e, moved, s2)" by (metis prod_cases3)
  note ee = MoveExisting_effect [OF e]
  show ?thesis
  proof (cases e)
    case False
    then have "\<not> b \<and> s1 = s2" using assms e by (simp add: PromoteStagedVolume_def)
    then show ?thesis using ee False by simp
  next
    case True
    then obtain n where n: "moved = [0..<n]" "segment_in Output s n = None" "backed_up (segment_in Output s) n s2"
        "\<And>i. segment_in Stage s2 i = segment_in Stage s i" using ee by auto
    obtain p m s3 where p: "MoveStagedVolumeSegments num s2 = (p, m, s3)" by (metis prod_cases3)
    note pe = MoveStaged_effect [OF p]
    show ?thesis
    proof (cases p)
      case promoted: True
      then have "b" "segment_in Output s1 i = segment_in Output s3 i" for i using assms e True p by (auto simp: PromoteStagedVolume_def)
      moreover have "segment_in Output s3 i =
          (if i < num then segment_in Stage s i else if i < n then None else segment_in Output s i)" for i
        using pe [of i] promoted n(3,4) by (auto simp: backed_up_def)
      moreover have "segment_in Stage s i \<noteq> None" if "i < num" for i using pe [of i] that promoted n(4) by auto
      moreover have "segment_in Output s i \<noteq> None" if "i < n" for i using n(3) that by (simp add: backed_up_def)
      ultimately show ?thesis using n(2) by auto
    next
      case False
      obtain q s4 where q: "RestoreVolumeSegments Backup Output [0..<n] (RemovePromotedVolumeSegmentsBestEffort m s3) = (q, s4)"
        by fastforce
      have r: "\<not> b" "s1 = (if q then CleanupStagedDirectoryBestEffort Stage (CleanupStagedDirectoryBestEffort Backup s4) else s4)"
        using assms e True p False n(1) q by (auto simp: PromoteStagedVolume_def Let_def)
      have "safe (segment_in Output s) i s1" if "\<forall>k\<le>i. segment_in Output s k \<noteq> None" for i
      proof -
        have i: "i < n" using that n(2) by (meson not_le)
        have "segment_in Backup (RemovePromotedVolumeSegmentsBestEffort m s3) i = segment_in Output s i"
          using RemovePromoted_segment [of Backup m s3 i] pe [of i] n(3) i by (auto simp: backed_up_def)
        then show ?thesis using Restore_effect [OF q, of i] i r(2) by (auto simp: safe_def)
      qed
      then show ?thesis using r(1) by simp
    qed
  qed
qed

section \<open>Without failures\<close>

lemma host_call_ok: "st_faults s = [] \<Longrightarrow> host_call s = (Done, s)"
  by (simp add: host_call_def)

lemma RenamePath_ok:
  assumes "st_faults s = []" "f_kind (folder to s) = Directory" "segment_in from s i \<noteq> None" "from \<noteq> to"
  shows "\<exists>s1. RenamePath from to i s = (True, s1) \<and> st_faults s1 = [] \<and> (\<forall>p. f_kind (folder p s1) = f_kind (folder p s))"
  using assms by (auto simp: RenamePath_def host_call_ok Let_def)

lemma EnsureDirectories_ok:
  assumes "st_faults s = []" "f_kind (folder p s) \<noteq> OtherFile"
  shows "\<exists>s1. EnsureDirectories p s = (True, s1) \<and> st_faults s1 = [] \<and> f_kind (folder p s1) = Directory \<and>
    (\<forall>q. q \<noteq> p \<longrightarrow> folder q s1 = folder q s)"
  using assms by (cases "f_kind (folder p s)") (auto simp: EnsureDirectories_def folder_is_directory_def host_call_ok Let_def)

lemma RemoveAll_ok:
  assumes "st_faults s = []"
  shows "\<exists>s1. RemoveAllIfExists p s = (True, s1) \<and> st_faults s1 = [] \<and> f_kind (folder p s1) = Missing \<and>
    (\<forall>q. q \<noteq> p \<longrightarrow> folder q s1 = folder q s)"
  using assms
  by (cases "f_kind (folder p s) = Missing") (auto simp: RemoveAllIfExists_def folder_exists_def host_call_ok Let_def)

lemma cleanup_ok:
  assumes "st_faults s = []"
  shows "st_faults (CleanupStagedDirectoryBestEffort p s) = []" "q \<noteq> p \<Longrightarrow> folder q (CleanupStagedDirectoryBestEffort p s) = folder q s"
  using RemoveAll_ok [OF assms, of p] by (auto simp: CleanupStagedDirectoryBestEffort_def)

lemma EnsureEmpty_ok:
  assumes "st_faults s = []"
  shows "\<exists>s1. EnsureEmptyDirectory p s = (True, s1) \<and> st_faults s1 = [] \<and> folder p s1 = \<lparr>f_kind = Directory, f_segments = []\<rparr> \<and>
    (\<forall>q. q \<noteq> p \<longrightarrow> folder q s1 = folder q s)"
proof -
  obtain s2 where s2: "RemoveAllIfExists p s = (True, s2)" "st_faults s2 = []" "f_kind (folder p s2) = Missing"
      "\<forall>q. q \<noteq> p \<longrightarrow> folder q s2 = folder q s"
    using RemoveAll_ok [OF assms, of p] by blast
  then show ?thesis
    by (auto simp: EnsureEmptyDirectory_def EnsureDirectories_def folder_is_directory_def host_call_ok Let_def)
qed

lemma backup_loop_ok:
  assumes "backup_loop k c moved s = (b, m, s1)" "st_faults s = []" "f_kind (folder Output s) = Directory"
    "\<forall>i. segment_in Output s i \<noteq> None \<longleftrightarrow> k \<le> i \<and> i < n" "k \<le> n" "n \<le> usize_max"
    "f_kind (folder Backup s) = (if c then Directory else Missing)"
  shows "b \<and> st_faults s1 = [] \<and> f_kind (folder Output s1) = Directory"
  using assms(1-5,7)
proof (induction "n - k" arbitrary: k c moved s)
  case 0
  then have "segment_exists Output k s = (Some False, s)" by (simp add: segment_exists_def host_call_ok)
  then show ?case using 0 by (subst (asm) backup_loop.simps) simp
next
  case (Suc l)
  then have k: "k < n" "segment_in Output s k \<noteq> None" by auto
  have ex: "segment_exists Output k s = (Some True, s)" using Suc.prems(2) k(2) by (simp add: segment_exists_def host_call_ok)
  obtain s2 where e: "(if c then (True, s) else EnsureDirectories Backup s) = (True, s2)" "st_faults s2 = []"
      "f_kind (folder Backup s2) = Directory" "folder Output s2 = folder Output s"
    using EnsureDirectories_ok [OF Suc.prems(2), of Backup] Suc.prems(2,6) by (cases c) auto
  have seg: "segment_in Output s2 i = segment_in Output s i" for i using segment_folder [OF e(4)] .
  obtain s3 where r: "RenamePath Output Backup k s2 = (True, s3)" "st_faults s3 = []" "\<forall>p. f_kind (folder p s3) = f_kind (folder p s2)"
    using RenamePath_ok [OF e(2,3), of Output k] k(2) seg by auto
  have m: "moveSegmentToBackup c k moved s = (True, moved @ [k], s3)" using e(1) r(1) by (simp add: moveSegmentToBackup_def)
  have l: "backup_loop (k + 1) True (moved @ [k]) s3 = (b, m, s1)"
    using Suc.prems(1) ex m k(1) assms(6) by (subst (asm) backup_loop.simps) simp
  have "segment_in Output s3 i \<noteq> None \<longleftrightarrow> k + 1 \<le> i \<and> i < n" for i
    using RenamePath_segment(1) [OF r(1), of Output i] seg [of i] Suc.prems(4) by auto
  then show ?case
    by (intro Suc.hyps(1) [OF _ l]) (use Suc.hyps(2) Suc.prems(3) k(1) r e(3,4) in auto)
qed

lemma promote_loop_ok:
  assumes "promote_loop [j..<n] j s = (b, m, s1)" "st_faults s = []" "f_kind (folder Output s) = Directory"
    "\<forall>i. j \<le> i \<and> i < n \<longrightarrow> segment_in Stage s i \<noteq> None"
  shows "b \<and> st_faults s1 = [] \<and> f_kind (folder Output s1) = Directory"
  using assms
proof (induction "n - j" arbitrary: j s)
  case (Suc l)
  then have j: "j < n" "[j..<n] = j # [Suc j..<n]" by (auto simp: upt_rec)
  obtain s2 where r: "RenamePath Stage Output j s = (True, s2)" "st_faults s2 = []" "\<forall>p. f_kind (folder p s2) = f_kind (folder p s)"
    using RenamePath_ok [OF Suc.prems(2,3), of Stage j] Suc.prems(4) j(1) by auto
  have l: "promote_loop [Suc j..<n] (Suc j) s2 = (b, m, s1)" using Suc.prems(1) r(1) j(2) by simp
  have "segment_in Stage s2 i \<noteq> None" if "Suc j \<le> i" "i < n" for i
    using RenamePath_segment(1) [OF r(1), of Stage i] Suc.prems(4) that by auto
  then show ?case by (intro Suc.hyps(1) [OF _ l]) (use Suc.hyps(2) Suc.prems(3) r in auto)
qed simp

lemma Promote_ok:
  assumes "st_faults s = []" "f_kind (folder Output s) \<noteq> OtherFile" "f_kind (folder Backup s) = Missing"
    "\<forall>i. segment_in Output s i \<noteq> None \<longleftrightarrow> i < n" "n \<le> usize_max" "0 < num" "\<forall>i<num. segment_in Stage s i \<noteq> None"
  shows "\<exists>s1. PromoteStagedVolume num s = (True, s1) \<and> st_faults s1 = [] \<and> f_kind (folder Output s1) = Directory"
proof -
  obtain b moved s2 where e: "MoveExistingVolumeSegments s = (b, moved, s2)" by (metis prod_cases3)
  have b: "b \<and> st_faults s2 = [] \<and> f_kind (folder Output s2) = f_kind (folder Output s)"
  proof (cases "f_kind (folder Output s)")
    case Missing
    then show ?thesis using e assms(1) by (simp add: MoveExistingVolumeSegments_def folder_exists_def host_call_ok)
  next
    case Directory
    then have "backup_loop 0 False [] s = (b, moved, s2)"
      using e assms(1) by (simp add: MoveExistingVolumeSegments_def folder_exists_def folder_is_directory_def host_call_ok)
    then show ?thesis using backup_loop_ok [of 0 False "[]" s b moved s2 n] assms Directory by simp
  qed (use assms(2) in simp)
  have stage: "segment_in Stage s2 i = segment_in Stage s i" for i using MoveExisting_effect [OF e] b by auto
  obtain s3 where d: "EnsureDirectories Output s2 = (True, s3)" "st_faults s3 = []" "f_kind (folder Output s3) = Directory"
      "folder Stage s3 = folder Stage s2"
    using EnsureDirectories_ok [of s2 Output] b assms(2) by auto
  obtain p m s4 where p: "promote_loop [0..<num] 0 s3 = (p, m, s4)" by (metis prod_cases3)
  have "segment_in Stage s3 i = segment_in Stage s i" for i using segment_folder [OF d(4)] stage by simp
  then have "p \<and> st_faults s4 = [] \<and> f_kind (folder Output s4) = Directory"
    using promote_loop_ok [OF p d(2,3)] assms(7) by simp
  then show ?thesis
    using e b d(1) p assms(6) cleanup_ok
    by (simp add: PromoteStagedVolume_def MoveStagedVolumeSegments_def)
qed

section \<open>What a build leaves behind\<close>

lemma with_stage_folder [simp]: "p \<noteq> Stage \<Longrightarrow> folder p (with_stage d s) = folder p s"
  by (cases p) (simp_all add: with_stage_def folder.simps)

lemma with_stage_segment:
  "segment_in Stage (with_stage d s) i = (if d_directory d = Directory then file_at d i else None)"
  by (simp add: segment_in_def with_stage_def folder.simps file_at_def)

text \<open>C15: Whatever calls of the host fail, and wherever, a build that fails loses no segment of the volume
  that was there: each is still in the output directory or in the backup directory. A build that succeeds
  has put the segments its session wrote in the output directory.\<close>

theorem build_volume_keeps_old:
  "case BuildVolume Sort config files v s of
     (None, s1) \<Rightarrow> \<forall>i. (\<forall>k\<le>i. segment_in Output s k \<noteq> None) \<longrightarrow>
       segment_in Output s1 i = segment_in Output s i \<or> segment_in Backup s1 i = segment_in Output s i
   | (Some info, s1) \<Rightarrow> \<exists>s2 w d. build_session Sort config files v (stage_disk s2) = (Some info, w, d) \<and>
       (\<forall>i<info_segmentCount info. file_at d i \<noteq> None \<and> segment_in Output s1 i = file_at d i)"
proof -
  let ?kept = "\<lambda>s1. \<forall>i. (\<forall>k\<le>i. segment_in Output s k \<noteq> None) \<longrightarrow> safe (segment_in Output s) i s1"
  obtain a s1 where a: "EnsureEmptyDirectory Stage s = (a, s1)" by fastforce
  have s1: "segment_in Output s1 i = segment_in Output s i" for i
    using a RemoveAll_segment [of Stage s] EnsureDirectories_segment [of Stage]
    by (cases "RemoveAllIfExists Stage s") (auto simp: EnsureEmptyDirectory_def split: bool.splits)
  obtain b s2 where b: "RemoveAllIfExists Backup s1 = (b, s2)" by fastforce
  have s2: "segment_in Output s2 i = segment_in Output s i" for i using RemoveAll_segment [OF b] s1 by simp
  obtain info w d where c: "build_session Sort config files v (stage_disk s2) = (info, w, d)" by (metis prod_cases3)
  have s3: "segment_in Output (with_stage d s2) i = segment_in Output s i" for i using s2 segment_folder [OF with_stage_folder] by simp
  obtain e s4 where e: "PromoteStagedVolume (info_segmentCount (the info)) (with_stage d s2) = (e, s4)" by fastforce
  note pe = Promote_effect [OF e]
  have eq: "BuildVolume Sort config files v s =
      (if \<not> a then (None, s1) else if \<not> b then (None, CleanupStagedDirectoryBestEffort Stage s2)
       else if info = None then (None, CleanupStagedDirectoryBestEffort Stage (with_stage d s2))
       else if \<not> e then (None, CleanupStagedDirectoryBestEffort Stage s4) else (info, s4))"
    using a b c e by (auto simp: BuildVolume_def split: option.splits)
  show ?thesis
  proof (cases "a \<and> b \<and> info \<noteq> None \<and> e")
    case True
    then obtain i where i: "info = Some i" by blast
    have "file_at d k \<noteq> None \<and> segment_in Output s4 k = file_at d k" if "k < info_segmentCount i" for k
      using pe True i that by (auto simp: with_stage_segment split: if_splits)
    moreover have "BuildVolume Sort config files v s = (Some i, s4)" using eq True i by simp
    ultimately show ?thesis using c i by (simp only: prod.case option.case) blast
  next
    case False
    then have "fst (BuildVolume Sort config files v s) = None" by (auto simp: eq)
    moreover have "?kept (snd (BuildVolume Sort config files v s))"
    proof (cases "a \<and> b \<and> info \<noteq> None")
      case True
      then show ?thesis using False pe s3 by (auto simp: eq safe_def)
    qed (use s1 s2 s3 in \<open>auto simp: eq safe_def\<close>)
    ultimately show ?thesis by (cases "BuildVolume Sort config files v s") (simp add: safe_def)
  qed
qed

text \<open>The volume in the output directory.\<close>

definition output_disk :: "Staging \<Rightarrow> Disk" where
  "output_disk s = \<lparr>d_directory = f_kind (st_output s), d_segments = f_segments (st_output s), d_faults = st_faults s\<rparr>"

lemma same_files:
  assumes "\<And>i. file_at e i = file_at d i"
  shows "vol_inv v e = vol_inv v d" "stored v e = stored v d" "content v e = content v d" "exact v e = exact v d"
proof -
  have "byte_at v e a = byte_at v d a" for a and v :: VolumeFileSystem using assms by (simp add: byte_at_def)
  then show "vol_inv v e = vol_inv v d" "stored v e = stored v d" "content v e = content v d"
    by (simp_all add: vol_inv_def readable_def stored_def bytes_at_def content_def fun_eq_iff)
  show "exact v e = exact v d" using assms by (simp add: exact_def)
qed

definition staging_clean :: "Staging \<Rightarrow> bool" where
  "staging_clean s \<longleftrightarrow> st_faults s = [] \<and> f_kind (st_output s) \<noteq> OtherFile \<and>
     (\<exists>n\<le>usize_max. \<forall>i. segment_in Output s i \<noteq> None \<longleftrightarrow> i < n)"

text \<open>C14: Take a build from any list of files whose paths have names, over nothing or over the segments of
  an older volume, with room for the files and their index, and no failure of the host. If no payload is
  empty, the build succeeds. A list with an empty payload may fail to build, because the compaction that
  ends the build rejects an empty file that its sort puts behind the next one; then the segments in the
  output directory stay what they were. Whenever the build succeeds, with empty payloads or without, the
  volume it leaves in the output directory loads read-only, and loading a path gives the payload pushed
  last under the name of the path, and nothing for any other path.\<close>

theorem build_volume_roundtrip:
  assumes "staging_clean s" "build_fits config files" "files_named files" "sorts_by_offset Sort"
    "cs_assign CompactString_new volumeName = (True, name)" "config_volumeName config = cs_view name"
  shows "case BuildVolume Sort config files u s of
      (None, s1) \<Rightarrow> \<not> no_empty_payload files \<and> (\<forall>i. segment_in Output s1 i = segment_in Output s i)
    | (Some info, s1) \<Rightarrow>
        (case session_load volumeName w (output_disk s1) of (ok, v1, d2) \<Rightarrow> ok \<and> \<not> m_writable v1 \<and>
           (\<forall>t. session_loadData_text t v1 d2 = (if t = [] then None else pushed files (ComputeNameHash_view t), d2)))"
proof -
  obtain n where s: "st_faults s = []" "f_kind (folder Output s) \<noteq> OtherFile" "n \<le> usize_max"
      "\<forall>i. segment_in Output s i \<noteq> None \<longleftrightarrow> i < n"
    using assms(1) by (auto simp: staging_clean_def folder.simps)
  obtain s1 where s1: "EnsureEmptyDirectory Stage s = (True, s1)" "st_faults s1 = []"
      "folder Stage s1 = \<lparr>f_kind = Directory, f_segments = []\<rparr>" "folder Output s1 = folder Output s"
    using EnsureEmpty_ok [OF s(1), of Stage] by auto
  obtain s2 where s2: "RemoveAllIfExists Backup s1 = (True, s2)" "st_faults s2 = []" "f_kind (folder Backup s2) = Missing"
      "folder Stage s2 = folder Stage s1" "folder Output s2 = folder Output s1"
    using RemoveAll_ok [OF s1(2), of Backup] by auto
  have "host_clean (stage_disk s2)"
    using s2(2,4) s1(3) by (auto simp: host_clean_def stage_disk_def folder.simps file_at_def intro!: exI [of _ 0])
  note built = build_session_ok [OF this assms(2-4), of u]
  obtain res v d where bs: "build_session Sort config files u (stage_disk s2) = (res, v, d)" by (metis prod_cases3)
  have kept: "segment_in Output (CleanupStagedDirectoryBestEffort Stage (with_stage d s2)) i = segment_in Output s i" for i
    using cleanup_segment [of Output Stage "with_stage d s2" i] segment_folder [of Output "with_stage d s2" Output s i] s2(5) s1(4)
    by simp
  show ?thesis
  proof (cases res)
    case None
    then have "BuildVolume Sort config files u s = (None, CleanupStagedDirectoryBestEffort Stage (with_stage d s2))"
      using s1(1) s2(1) bs by (simp add: BuildVolume_def)
    then show ?thesis using None bs built kept by simp
  next
    case (Some info)
    then have b: "build_session Sort config files u (stage_disk s2) = (Some info, v, d)" "vol_inv v d" "host_ok v d"
        "stored v d" "d_directory d = Directory" "content v d = pushed files" "info_segmentCount info = length (m_segmentPaths v)"
      using built bs by simp_all
    let ?s = "with_stage d s2"
    have ex: "exact v d" "d_faults d = []" using b(3) by (simp_all add: host_ok_def)
    have stage: "segment_in Stage ?s i = file_at d i" for i by (simp add: with_stage_segment b(5))
    have out: "segment_in Output ?s i = segment_in Output s i" for i by (rule segment_folder) (simp add: s2(5) s1(4))
    have "\<exists>s3. PromoteStagedVolume (info_segmentCount info) ?s = (True, s3) \<and> st_faults s3 = [] \<and> f_kind (folder Output s3) = Directory"
    proof (rule Promote_ok [of ?s n])
      show "st_faults ?s = []" by (simp add: with_stage_def ex(2))
      show "0 < info_segmentCount info" using b(2,7) by (simp add: vol_inv_def)
      show "\<forall>i<info_segmentCount info. segment_in Stage ?s i \<noteq> None" using exact_None [OF ex(1)] b(7) stage by simp
      show "\<forall>i. (segment_in Output ?s i \<noteq> None) = (i < n)" using s(4) out by simp
    qed (use s(2,3) s2(3,5) s1(4) in simp_all)
    then obtain s3 where s3: "PromoteStagedVolume (info_segmentCount info) ?s = (True, s3)" "st_faults s3 = []"
        "f_kind (folder Output s3) = Directory" by blast
    have files: "file_at (output_disk s3) i = file_at d i" for i
    proof -
      have "file_at (output_disk s3) i = segment_in Output s3 i"
        using s3(3) by (simp add: output_disk_def file_at_def segment_in_def folder.simps)
      moreover obtain k where k: "segment_in Output ?s k = None" "\<And>i. segment_in Output s3 i =
          (if i < info_segmentCount info then segment_in Stage ?s i else if i < k then None else segment_in Output ?s i)"
        using Promote_effect [OF s3(1)] by auto
      moreover have "n \<le> k" using k(1) out s(4) not_le by metis
      moreover have "segment_in Output s i = None" if "n \<le> i" using s(4) that not_le by metis
      ultimately show ?thesis using stage out exact_None [OF ex(1), of i] b(7) by (auto simp: not_less)
    qed
    have dir: "d_directory (output_disk s3) = Directory" "d_faults (output_disk s3) = []"
      using s3(2,3) by (simp_all add: output_disk_def folder.simps)
    note sf = same_files [of "output_disk s3" d, OF files]
    have host: "host_ok v (output_disk s3)" using b(3) dir(2) sf(4) by (simp add: host_ok_def)
    have "ValidVolumeName (cs_view name)" using assms(2,6) by (simp add: build_fits_def)
    then obtain v1 where l: "session_load volumeName w (output_disk s3) = (True, v1, output_disk s3)" "m_mounted v1"
        "\<not> m_writable v1" "vol_inv v1 (output_disk s3)" "host_ok v1 (output_disk s3)" "content v1 (output_disk s3) = pushed files"
      using session_load_ok [of v "output_disk s3" volumeName name] sf b(2,4,6) host dir(1) assms(5) by metis
    have "BuildVolume Sort config files u s = (Some info, s3)"
      using s1(1) s2(1) b(1) s3(1) by (simp add: BuildVolume_def)
    then show ?thesis using l loadData_text_ok [OF l(4,5,2)] by simp
  qed
qed

section \<open>Samples\<close>

text \<open>An output directory with one old segment.\<close>

definition sample_staging :: "outcome list \<Rightarrow> Staging" where
  "sample_staging fs = \<lparr>st_output = \<lparr>f_kind = Directory, f_segments = [(0, [9])]\<rparr>,
     st_stage = \<lparr>f_kind = Missing, f_segments = []\<rparr>, st_backup = \<lparr>f_kind = OtherFile, f_segments = []\<rparr>, st_faults = fs\<rparr>"

lemma sample_output: "segment_in Output (sample_staging fs) i = (if i = 0 then Some [9] else None)"
  by (simp add: segment_in_def sample_staging_def folder.simps)

theorem build_volume_keeps_old_witness:
  "case BuildVolume (sort_key l_sourceOffset) sample_config [([98], [1, 2, 3])] sample_volume (sample_staging (replicate 40 Done @ [Failed 2])) of
     (None, s1) \<Rightarrow> segment_in Output s1 0 = Some [9] \<or> segment_in Backup s1 0 = Some [9]
   | (Some info, s1) \<Rightarrow> \<forall>i<info_segmentCount info. segment_in Output s1 i \<noteq> None"
  using build_volume_keeps_old [where Sort = "sort_key l_sourceOffset" and config = sample_config and files = "[([98], [1, 2, 3])]"
      and v = sample_volume and s = "sample_staging (replicate 40 Done @ [Failed 2])"]
  by (auto simp: sample_output split: option.splits prod.splits dest: spec [of _ 0])

theorem build_volume_roundtrip_witness:
  "case BuildVolume (sort_key l_sourceOffset) sample_config [([98], [1, 2, 3]), ([99], [4])] sample_volume (sample_staging []) of (info, s1) \<Rightarrow>
     info \<noteq> None \<and> (case session_load [97] sample_volume (output_disk s1) of (ok, v1, d2) \<Rightarrow> ok \<and>
       session_loadData_text [98] v1 d2 = (Some [1, 2, 3], d2) \<and> session_loadData_text [100] v1 d2 = (None, d2))"
proof -
  obtain name where n: "cs_assign CompactString_new [97] = (True, name)" "config_volumeName sample_config = cs_view name"
    using sample_assign unfolding sample_config_def by (metis VolumeBuildConfig.select_convs(1))
  let ?files = "[([98], [1, 2, 3]), ([99], [4])] :: (u8 list \<times> u8 list) list"
  have "staging_clean (sample_staging [])"
    unfolding staging_clean_def sample_output
    by (auto simp: sample_staging_def usize_max_def intro!: exI [of _ 1])
  moreover have "build_fits sample_config ?files"
    by (simp add: build_fits_def sample_config_def ValidVolumeName_def IsAsciiAlphaNumeric_def config_metadata_def payload_bytes_def
        stream_max_def u64_max_def sizeof_header_def sizeof_entry_def)
  moreover have "files_named ?files" "no_empty_payload ?files" by code_simp+
  moreover have "pushed ?files (ComputeNameHash_view [98]) = Some [1, 2, 3]" "pushed ?files (ComputeNameHash_view [100]) = None"
    by code_simp+
  ultimately show ?thesis
    using build_volume_roundtrip [OF _ _ _ sort_key_sorts n, of "sample_staging []" ?files sample_volume sample_volume]
    by (auto split: prod.splits option.splits)
qed

end
