(* ===== verification/Path_Text.thy ===== *)
theory Path_Text
  imports Text_Utils
begin

text \<open>
  Path texts: the class \<open>Path\<close> of \<^verbatim>\<open>src/global/filesystem/path.h\<close> as it is compiled where the
  separator is \<open>/\<close> and there are no root names, and the safety test of archive members
  (\<^verbatim>\<open>src/global/filesystem/archive.h\<close>). A path is the list of the bytes of its text; the iterator keeps
  its two positions. The second half states what the operations mean: the segments of a text, the
  directory a text names from a working directory, and the operations over them.
\<close>

type_synonym path = "u8 list"

section \<open>Separators and roots\<close>

definition SLASH :: u8 where "SLASH = 0x2F"
definition DOT :: u8 where "DOT = 0x2E"

definition IsSeparator :: "u8 \<Rightarrow> bool" where
  "IsSeparator ch = (ch = SLASH)"

definition PreferredSeparator :: u8 where
  "PreferredSeparator = SLASH"

definition RootNameLength :: "path \<Rightarrow> nat" where
  "RootNameLength t = 0"

definition RootDirectoryLength :: "path \<Rightarrow> nat" where
  "RootDirectoryLength t = (let rootNameLength = RootNameLength t in
     if rootNameLength < length t \<and> IsSeparator (t ! rootNameLength) then rootNameLength + 1
     else if rootNameLength = 0 \<and> t \<noteq> [] \<and> IsSeparator (t ! 0) then 1
     else 0)"

definition IsDot :: "path \<Rightarrow> bool" where
  "IsDot t = (length t = 1 \<and> t ! 0 = DOT)"

definition IsDotDot :: "path \<Rightarrow> bool" where
  "IsDotDot t = (length t = 2 \<and> t ! 0 = DOT \<and> t ! 1 = DOT)"

section \<open>The iterator\<close>

record Iterator =
  m_begin :: nat
  m_end :: nat
  m_atEnd :: bool

definition moveToEnd :: "path \<Rightarrow> Iterator" where
  "moveToEnd t = \<lparr>m_begin = length t, m_end = length t, m_atEnd = True\<rparr>"

function findComponentEnd :: "path \<Rightarrow> nat \<Rightarrow> nat" where
  "findComponentEnd t b =
     (if b < length t \<and> \<not> IsSeparator (t ! b) then findComponentEnd t (b + 1) else b)"
  by pat_completeness auto
termination by (relation "measure (\<lambda>(t, b). length t - b)") auto

function skip_separators :: "path \<Rightarrow> nat \<Rightarrow> nat" where
  "skip_separators t b =
     (if b < length t \<and> IsSeparator (t ! b) then skip_separators t (b + 1) else b)"
  by pat_completeness auto
termination by (relation "measure (\<lambda>(t, b). length t - b)") auto

declare findComponentEnd.simps [simp del] skip_separators.simps [simp del]

definition moveToFirst :: "path \<Rightarrow> Iterator" where
  "moveToFirst t =
     (if t = [] then moveToEnd t
      else if IsSeparator (t ! 0) then \<lparr>m_begin = 0, m_end = 1, m_atEnd = False\<rparr>
      else let e = findComponentEnd t 0 in \<lparr>m_begin = 0, m_end = e, m_atEnd = (0 = e)\<rparr>)"

definition moveToNext :: "path \<Rightarrow> Iterator \<Rightarrow> Iterator" where
  "moveToNext t it =
     (if m_atEnd it then it
      else let nextBegin = skip_separators t (m_end it) in
        if length t \<le> nextBegin then moveToEnd t
        else \<lparr>m_begin = nextBegin, m_end = findComponentEnd t nextBegin, m_atEnd = False\<rparr>)"

definition path_begin :: "path \<Rightarrow> Iterator" where
  "path_begin t = moveToFirst t"

definition path_end :: "path \<Rightarrow> Iterator" where
  "path_end t = moveToEnd t"

definition deref :: "path \<Rightarrow> Iterator \<Rightarrow> path" where
  "deref t it = take (m_end it - m_begin it) (drop (m_begin it) t)"

text \<open>The components a range loop visits from an iterator on. The loop ends at the end iterator; an iterator
  of a path is past the end exactly when it equals it (\<open>iterator_end\<close>), which is how the loop is
  written here.\<close>

lemma findComponentEnd_ge: "b \<le> findComponentEnd t b"
  by (induction t b rule: findComponentEnd.induct) (subst findComponentEnd.simps, auto)

lemma skip_separators_ge: "b \<le> skip_separators t b"
  by (induction t b rule: skip_separators.induct) (subst skip_separators.simps, auto)

lemma skip_separators_stop: "skip_separators t b < length t \<Longrightarrow> \<not> IsSeparator (t ! skip_separators t b)"
  by (induction t b rule: skip_separators.induct) (metis skip_separators.simps)

lemma findComponentEnd_gt: "b < length t \<Longrightarrow> \<not> IsSeparator (t ! b) \<Longrightarrow> b < findComponentEnd t b"
  using findComponentEnd_ge [of "b + 1" t] by (subst findComponentEnd.simps) simp

lemma moveToNext_progress:
  assumes "\<not> m_atEnd it" "\<not> m_atEnd (moveToNext t it)"
  shows "length t - m_end (moveToNext t it) < length t - m_end it"
proof -
  let ?b = "skip_separators t (m_end it)"
  have b: "?b < length t" using assms by (auto simp: moveToNext_def Let_def moveToEnd_def split: if_splits)
  have "?b < findComponentEnd t ?b" by (rule findComponentEnd_gt [OF b skip_separators_stop [OF b]])
  moreover have "m_end it \<le> ?b" by (rule skip_separators_ge)
  ultimately show ?thesis using assms b by (simp add: moveToNext_def Let_def)
qed

function components_from :: "path \<Rightarrow> Iterator \<Rightarrow> path list" where
  "components_from t it =
     (if m_atEnd it then [] else deref t it # components_from t (moveToNext t it))"
  by pat_completeness auto
termination
  by (relation "measure (\<lambda>(t, it). if m_atEnd it then 0 else Suc (length t - m_end it))")
    (auto dest: moveToNext_progress)

declare components_from.simps [simp del]

definition path_components :: "path \<Rightarrow> path list" where
  "path_components t = components_from t (path_begin t)"

section \<open>Queries\<close>

definition is_absolute :: "path \<Rightarrow> bool" where
  "is_absolute t = (if t = [] then False else IsSeparator (t ! 0))"

definition has_filename :: "path \<Rightarrow> bool" where
  "has_filename t = (if t = [] then False else \<not> IsSeparator (last t))"

fun trimTrailingSeparators :: "path \<Rightarrow> nat \<Rightarrow> nat" where
  "trimTrailingSeparators t 0 = 0"
| "trimTrailingSeparators t (Suc e) =
     (if Suc e > RootDirectoryLength t \<and> IsSeparator (t ! e) then trimTrailingSeparators t e else Suc e)"

text \<open>The loop that \<open>parent_path\<close>, \<open>filename\<close> and \<open>filenameBeginInText\<close> share: back to the last separator
  after \<open>boundary\<close>.\<close>

fun component_begin :: "path \<Rightarrow> nat \<Rightarrow> nat \<Rightarrow> nat" where
  "component_begin t boundary 0 = 0"
| "component_begin t boundary (Suc b) =
     (if Suc b > boundary \<and> \<not> IsSeparator (t ! b) then component_begin t boundary b else Suc b)"

definition parent_path :: "path \<Rightarrow> path" where
  "parent_path t =
     (if t = [] then []
      else let rootDirectoryLength = RootDirectoryLength t; e = trimTrailingSeparators t (length t) in
        if rootDirectoryLength \<noteq> 0 \<and> e \<le> rootDirectoryLength then take rootDirectoryLength t
        else let separator = component_begin t rootDirectoryLength e in
          if separator = 0 then []
          else if rootDirectoryLength \<noteq> 0 \<and> separator \<le> rootDirectoryLength then take rootDirectoryLength t
          else take (trimTrailingSeparators t (separator - 1)) t)"

definition filename :: "path \<Rightarrow> path" where
  "filename t =
     (if t = [] then []
      else let rootNameLength = RootNameLength t; rootDirectoryLength = RootDirectoryLength t;
               e = trimTrailingSeparators t (length t) in
        if rootDirectoryLength \<noteq> 0 \<and> e \<le> rootDirectoryLength \<or> rootNameLength \<noteq> 0 \<and> e \<le> rootNameLength then []
        else let boundary = (if rootDirectoryLength \<noteq> 0 then rootDirectoryLength else rootNameLength);
                 b = component_begin t boundary e
          in take (e - b) (drop b t))"

definition filenameBeginInText :: "path \<Rightarrow> nat" where
  "filenameBeginInText t =
     (let rootNameLength = RootNameLength t; rootDirectoryLength = RootDirectoryLength t;
          boundary = (if rootDirectoryLength \<noteq> 0 then rootDirectoryLength else rootNameLength)
      in component_begin t boundary (length t))"

fun extension_loop :: "path \<Rightarrow> nat \<Rightarrow> nat \<Rightarrow> nat" where
  "extension_loop t fileBegin 0 = length t"
| "extension_loop t fileBegin (Suc i) =
     (if Suc i > fileBegin then
        if t ! i = DOT then (if i = fileBegin then length t else i)
        else extension_loop t fileBegin i
      else length t)"

definition extensionBeginInText :: "path \<Rightarrow> nat" where
  "extensionBeginInText t =
     (if t = [] then length t else extension_loop t (filenameBeginInText t) (length t))"

definition stem :: "path \<Rightarrow> path" where
  "stem t = (let fileName = filename t; e = extensionBeginInText fileName in
     if e = length fileName then fileName else take e fileName)"

definition extension :: "path \<Rightarrow> path" where
  "extension t = (let fileName = filename t; e = extensionBeginInText fileName in
     if e = length fileName then [] else drop e fileName)"

section \<open>Changes\<close>

definition appendComponent :: "path \<Rightarrow> path \<Rightarrow> path" where
  "appendComponent t c =
     (if c = [] then t
      else if t \<noteq> [] \<and> \<not> IsSeparator (last t) then t @ [PreferredSeparator] @ c
      else t @ c)"

definition path_div :: "path \<Rightarrow> path \<Rightarrow> path" where
  "path_div t rhs =
     (if rhs = [] then t else if is_absolute rhs then rhs else appendComponent t rhs)"

definition path_concat :: "path \<Rightarrow> path \<Rightarrow> path" where
  "path_concat t rhs = t @ rhs"

definition remove_extension :: "path \<Rightarrow> path" where
  "remove_extension t = (let e = extensionBeginInText t in if e < length t then take e t else t)"

definition replace_extension :: "path \<Rightarrow> path \<Rightarrow> path" where
  "replace_extension t replacement =
     (let t' = remove_extension t in
      if replacement = [] then t'
      else (if hd replacement \<noteq> DOT then t' @ [DOT] else t') @ replacement)"

definition toGenericString :: "bool \<Rightarrow> path \<Rightarrow> u8 list" where
  "toGenericString generic t = map (\<lambda>ch. if generic \<and> IsSeparator ch then SLASH else ch) t"

definition normalize_component :: "bool \<Rightarrow> path \<Rightarrow> path \<Rightarrow> path" where
  "normalize_component absolute out c =
     (if c = [] \<or> IsDot c then out
      else if length c = 1 \<and> IsSeparator (c ! 0) then out
      else if IsDotDot c then
        if out \<noteq> [] \<and> filename out \<noteq> [] \<and> \<not> IsDotDot (filename out) then parent_path out
        else if \<not> absolute then appendComponent out c
        else out
      else appendComponent out c)"

definition appendNormalizedTo :: "path \<Rightarrow> path \<Rightarrow> path" where
  "appendNormalizedTo t out =
     (let rootNameLength = RootNameLength t; rootDirectoryLength = RootDirectoryLength t;
          absolute = is_absolute t;
          out = (if rootNameLength \<noteq> 0 then out @ take rootNameLength t else out);
          out = (if rootNameLength < rootDirectoryLength then out @ [PreferredSeparator] else out);
          out = foldl (normalize_component absolute) out (path_components t)
      in if out = [] \<and> \<not> absolute then out @ [DOT] else out)"

definition lexically_normal :: "path \<Rightarrow> path" where
  "lexically_normal t = appendNormalizedTo t []"

text \<open>\<open>lexically_relative\<close>: drop the components both normalised paths begin with, one \<open>..\<close> for each that is left
  of the base, then what is left of the path.\<close>

fun drop_common :: "path list \<Rightarrow> path list \<Rightarrow> path list \<times> path list" where
  "drop_common (p # ps) (b # bs) = (if p = b then drop_common ps bs else (p # ps, b # bs))"
| "drop_common ps bs = (ps, bs)"

definition lexically_relative :: "path \<Rightarrow> path \<Rightarrow> path" where
  "lexically_relative t base =
     (let normalizedPath = lexically_normal t; normalizedBase = lexically_normal base in
      if is_absolute normalizedPath \<noteq> is_absolute normalizedBase then []
      else let (pathRest, baseRest) = drop_common (path_components normalizedPath) (path_components normalizedBase);
               out = foldl (\<lambda>out c. if c = [SLASH] then out else appendComponent out [DOT, DOT]) [] baseRest;
               out = foldl appendComponent out pathRest
           in if out = [] then [DOT] else out)"

definition path_equal :: "path \<Rightarrow> path \<Rightarrow> bool" where
  "path_equal lhs rhs = (lhs = rhs)"

fun path_less :: "path \<Rightarrow> path \<Rightarrow> bool" where
  "path_less _ [] = False"
| "path_less [] (b # bs) = True"
| "path_less (a # as) (b # bs) = (a < b \<or> a = b \<and> path_less as bs)"

section \<open>Archive members\<close>

definition IsArchivePathSeparator :: "u8 \<Rightarrow> bool" where
  "IsArchivePathSeparator ch = (ch = SLASH \<or> ch = 0x5C)"

function safe_loop :: "path \<Rightarrow> nat \<Rightarrow> nat \<Rightarrow> bool" where
  "safe_loop t segmentBegin i =
     (if length t < i then True
      else let atEnd = (i = length t); ch = (if atEnd then SLASH else t ! i) in
        if \<not> atEnd \<and> (ch < 0x20 \<or> ch = 0x3A) then False
        else if \<not> atEnd \<and> \<not> IsArchivePathSeparator ch then safe_loop t segmentBegin (i + 1)
        else let segmentLength = i - segmentBegin in
          if segmentLength = 0 then False
          else let segment = take segmentLength (drop segmentBegin t) in
            if segment = [DOT] \<or> segment = [DOT, DOT] then False
            else safe_loop t (i + 1) (i + 1))"
  by pat_completeness auto
termination by (relation "measure (\<lambda>(t, _, i). Suc (length t) - i)") auto

declare safe_loop.simps [simp del]

definition IsSafeArchiveRelativePath :: "path \<Rightarrow> bool" where
  "IsSafeArchiveRelativePath t =
     (if t = [] \<or> IsArchivePathSeparator (hd t) then False else safe_loop t 0 0)"

end
