(* ===== verification/Path_Normal.thy ===== *)
theory Path_Normal
  imports Path_Text "HOL-Library.Sublist"
begin

text \<open>
  What path texts mean and what the operations of \<open>Path_Text\<close> do to the meaning: the segments of a text,
  the directory a text names seen from a working directory, the normal form, relative paths, and the
  archive members that stay below the directory they are joined to.
\<close>

section \<open>Segments\<close>

fun pieces :: "(u8 \<Rightarrow> bool) \<Rightarrow> u8 list \<Rightarrow> u8 list list" where
  "pieces d [] = [[]]"
| "pieces d (x # xs) =
     (if d x then [] # pieces d xs else (x # hd (pieces d xs)) # tl (pieces d xs))"

definition segments :: "path \<Rightarrow> path list" where
  "segments t = filter (\<lambda>c. c \<noteq> []) (pieces IsSeparator t)"

definition segment :: "path \<Rightarrow> bool" where
  "segment c = (c \<noteq> [] \<and> SLASH \<notin> set c)"

definition dot :: path where "dot = [DOT]"
definition dotdot :: path where "dotdot = [DOT, DOT]"

definition path_text :: "bool \<Rightarrow> path list \<Rightarrow> path" where
  "path_text absolute cs = (if absolute then [SLASH] else []) @ join SLASH cs"

lemma pieces_not_Nil [simp]: "pieces d t \<noteq> []"
  by (induction t) auto

lemma pieces_append: "d x \<Longrightarrow> pieces d (a @ x # b) = pieces d a @ pieces d b"
  by (induction a) auto

lemma pieces_none: "(\<And>x. x \<in> set c \<Longrightarrow> \<not> d x) \<Longrightarrow> pieces d c = [c]"
  by (induction c) auto

lemma segments_Nil [simp]: "segments [] = []"
  by (simp add: segments_def)

lemma segments_append: "segments (a @ SLASH # b) = segments a @ segments b"
  by (simp add: segments_def pieces_append IsSeparator_def)

lemma segments_Cons [simp]: "segments (SLASH # b) = segments b"
  using segments_append [of "[]" b] by simp

lemma segments_none: "SLASH \<notin> set c \<Longrightarrow> segments c = (if c = [] then [] else [c])"
  by (subst segments_def, subst pieces_none) (auto simp: IsSeparator_def)

lemma segments_one [simp]: "segment c \<Longrightarrow> segments c = [c]"
  by (simp add: segments_none segment_def)

lemma segments_seps: "set s \<subseteq> {SLASH} \<Longrightarrow> segments s = []"
  by (induction s) auto

lemma segments_append_seps: "set s \<subseteq> {SLASH} \<Longrightarrow> segments (a @ s) = segments a"
  by (cases s) (auto simp: segments_append segments_seps)

lemma segments_seps_append: "set s \<subseteq> {SLASH} \<Longrightarrow> segments (s @ a) = segments a"
  by (induction s) auto

lemma split_induct [case_names none split]:
  assumes "\<And>c. SLASH \<notin> set c \<Longrightarrow> P c" "\<And>a b. P a \<Longrightarrow> P b \<Longrightarrow> P (a @ SLASH # b)"
  shows "P (t :: path)"
proof (induction t rule: length_induct)
  case (1 t)
  show ?case
  proof (cases "SLASH \<in> set t")
    case True
    then obtain a b where "t = a @ SLASH # b" by (meson split_list)
    then show ?thesis using 1 assms(2) by simp
  qed (rule assms(1))
qed

lemma segments_segment: "\<forall>c \<in> set (segments t). segment c"
proof (induction t rule: split_induct)
  case (none c)
  then show ?case by (cases "c = []") (simp_all add: segments_none segment_def)
next
  case (split a b)
  then show ?case unfolding segments_append set_append by blast
qed

lemma segments_Nil_iff: "segments t = [] \<longleftrightarrow> set t \<subseteq> {SLASH}"
proof (induction t rule: split_induct)
  case (none c)
  then show ?case by (cases c) (auto simp: segments_none)
qed (auto simp: segments_append)

lemma join_snoc: "cs \<noteq> [] \<Longrightarrow> join d (cs @ [c]) = join d cs @ [d] @ c"
  by (induction d cs rule: join.induct) auto

lemma segments_join: "list_all segment cs \<Longrightarrow> segments (join SLASH cs) = cs"
  by (induction SLASH cs rule: join.induct) (auto simp: segments_append)

lemma join_hd: "list_all segment cs \<Longrightarrow> cs \<noteq> [] \<Longrightarrow> join SLASH cs \<noteq> [] \<and> hd (join SLASH cs) \<noteq> SLASH"
  by (induction SLASH cs rule: join.induct) (auto simp: segment_def hd_append, (metis hd_in_set)+)

lemma join_last: "list_all segment cs \<Longrightarrow> cs \<noteq> [] \<Longrightarrow> last (join SLASH cs) \<noteq> SLASH"
proof (induction SLASH cs rule: join.induct)
  case (3 p q ps)
  then show ?case using join_hd [of "q # ps"] by simp
qed (auto simp: segment_def dest: last_in_set)

lemma segments_render [simp]: "list_all segment cs \<Longrightarrow> segments (path_text absolute cs) = cs"
  by (simp add: path_text_def segments_join)

lemma is_absolute_iff: "is_absolute t \<longleftrightarrow> t \<noteq> [] \<and> hd t = SLASH"
  by (simp add: is_absolute_def IsSeparator_def hd_conv_nth)

lemma is_absolute_render [simp]: "list_all segment cs \<Longrightarrow> is_absolute (path_text absolute cs) = absolute"
  using join_hd [of cs] by (cases "cs = []") (auto simp: path_text_def is_absolute_iff)

lemma RootDirectoryLength_eq: "RootDirectoryLength t = (if is_absolute t then 1 else 0)"
  by (auto simp: RootDirectoryLength_def RootNameLength_def is_absolute_def)

section \<open>The iterator yields the segments\<close>

lemma findComponentEnd_eq: "findComponentEnd t b = b + length (takeWhile (\<lambda>c. \<not> IsSeparator c) (drop b t))"
proof (induction t b rule: findComponentEnd.induct)
  case (1 t b)
  show ?case
  proof (cases "b < length t")
    case True
    then show ?thesis using 1 by (subst findComponentEnd.simps) (simp add: Cons_nth_drop_Suc [symmetric])
  qed (simp add: findComponentEnd.simps)
qed

lemma skip_separators_eq: "skip_separators t b = b + length (takeWhile IsSeparator (drop b t))"
proof (induction t b rule: skip_separators.induct)
  case (1 t b)
  show ?case
  proof (cases "b < length t")
    case True
    then show ?thesis using 1 by (subst skip_separators.simps) (simp add: Cons_nth_drop_Suc [symmetric])
  qed (simp add: skip_separators.simps)
qed

lemma segments_dropWhile: "segments (dropWhile IsSeparator t) = segments t"
  by (induction t) (auto simp: IsSeparator_def)

lemma segments_first:
  assumes "t \<noteq> []" "\<not> IsSeparator (hd t)"
  shows "segments t = takeWhile (\<lambda>c. \<not> IsSeparator c) t # segments (dropWhile (\<lambda>c. \<not> IsSeparator c) t)"
proof -
  let ?a = "takeWhile (\<lambda>c. \<not> IsSeparator c) t" and ?b = "dropWhile (\<lambda>c. \<not> IsSeparator c) t"
  have a: "segment ?a"
    using assms by (cases t) (auto simp: segment_def IsSeparator_def dest: set_takeWhileD)
  show ?thesis
  proof (cases ?b)
    case Nil
    then have "?a = t" by (metis append_Nil2 takeWhile_dropWhile_id)
    with a have "segments t = [t]" by (metis segments_one)
    with \<open>?a = t\<close> Nil show ?thesis by (simp del: dropWhile_eq_Nil_conv takeWhile_eq_all_conv)
  next
    case (Cons x b)
    then have "x = SLASH" by (metis IsSeparator_def dropWhile_eq_Cons_conv)
    then have "t = ?a @ SLASH # b" using Cons takeWhile_dropWhile_id [of "\<lambda>c. \<not> IsSeparator c" t] by simp
    then have "segments t = segments ?a @ segments b" by (metis segments_append)
    with a Cons \<open>x = SLASH\<close> show ?thesis by simp
  qed
qed

lemma components_from_eq:
  "components_from t it = (if m_atEnd it then [] else deref t it # segments (drop (m_end it) t))"
proof (induction t it rule: components_from.induct)
  case (1 t it)
  show ?case
  proof (cases "m_atEnd it")
    case True
    then show ?thesis by (simp add: components_from.simps)
  next
    case False
    let ?r = "drop (m_end it) t" and ?n = "skip_separators t (m_end it)" and ?P = "\<lambda>c. \<not> IsSeparator c"
    have d: "drop ?n t = dropWhile IsSeparator ?r"
      by (simp add: skip_separators_eq dropWhile_eq_drop add.commute)
    have "components_from t (moveToNext t it) = segments (drop ?n t)"
    proof (cases "length t \<le> ?n")
      case True
      then show ?thesis using False 1 by (simp add: moveToNext_def Let_def moveToEnd_def)
    next
      case n: False
      then have s: "\<not> IsSeparator (hd (drop ?n t))" "drop ?n t \<noteq> []"
        using skip_separators_stop [of t "m_end it"] by (simp_all add: hd_drop_conv_nth)
      have e: "drop (findComponentEnd t ?n) t = dropWhile ?P (drop ?n t)"
        "take (findComponentEnd t ?n - ?n) (drop ?n t) = takeWhile ?P (drop ?n t)"
        by (simp_all add: findComponentEnd_eq dropWhile_eq_drop takeWhile_eq_take [symmetric] add.commute)
      have "moveToNext t it = \<lparr>m_begin = ?n, m_end = findComponentEnd t ?n, m_atEnd = False\<rparr>"
        using n False by (simp add: moveToNext_def Let_def)
      then show ?thesis using 1 False segments_first [OF s(2,1)] e by (simp add: deref_def)
    qed
    then show ?thesis using False d by (subst components_from.simps) (simp add: segments_dropWhile)
  qed
qed

lemma path_components_eq: "path_components t = (if is_absolute t then [[SLASH]] else []) @ segments t"
proof (cases "t = []")
  case True
  then show ?thesis by (simp add: path_components_def path_begin_def moveToFirst_def moveToEnd_def components_from_eq is_absolute_def)
next
  case t: False
  show ?thesis
  proof (cases "is_absolute t")
    case True
    then obtain r where "t = SLASH # r" using t by (cases t) (auto simp: is_absolute_iff)
    then show ?thesis
      by (simp add: path_components_def path_begin_def moveToFirst_def components_from_eq deref_def is_absolute_iff IsSeparator_def)
  next
    case False
    then have h: "\<not> IsSeparator (hd t)" using t by (simp add: is_absolute_def hd_conv_nth)
    let ?P = "\<lambda>c. \<not> IsSeparator c"
    have e: "findComponentEnd t 0 = length (takeWhile ?P t)" by (simp add: findComponentEnd_eq)
    then have "0 < findComponentEnd t 0" using t h by (cases t) auto
    then show ?thesis using False t h segments_first [OF t h] e
      by (simp add: path_components_def path_begin_def moveToFirst_def components_from_eq deref_def is_absolute_def
          Let_def dropWhile_eq_drop takeWhile_eq_take [symmetric])
  qed
qed

text \<open>Where the source compares an iterator with \<open>end()\<close>, the model asks \<open>m_atEnd\<close>: the two agree on every
  iterator a loop of the source holds.\<close>

definition reached :: "path \<Rightarrow> Iterator \<Rightarrow> bool" where
  "reached t it = (\<exists>n. it = (moveToNext t ^^ n) (path_begin t))"

lemma moveToNext_end: "m_atEnd (moveToNext t it) \<longleftrightarrow> moveToNext t it = path_end t" if "m_atEnd it \<longleftrightarrow> it = path_end t"
  using that by (auto simp: moveToNext_def Let_def moveToEnd_def path_end_def)

lemma iterator_end: "reached t it \<Longrightarrow> m_atEnd it \<longleftrightarrow> it = path_end t"
proof -
  have b: "m_atEnd (path_begin t) \<longleftrightarrow> path_begin t = path_end t"
    using findComponentEnd_gt [of 0 t] by (auto simp: path_begin_def moveToFirst_def moveToEnd_def path_end_def Let_def)
  have "m_atEnd ((moveToNext t ^^ n) (path_begin t)) \<longleftrightarrow> (moveToNext t ^^ n) (path_begin t) = path_end t" for n
    by (induction n) (simp_all add: b moveToNext_end)
  then show "reached t it \<Longrightarrow> m_atEnd it \<longleftrightarrow> it = path_end t" by (auto simp: reached_def)
qed

section \<open>Parent and file name\<close>

lemma trimTrailingSeparators_eq:
  "m \<le> e \<Longrightarrow> (\<And>i. m \<le> i \<Longrightarrow> i < e \<Longrightarrow> IsSeparator (t ! i)) \<Longrightarrow> RootDirectoryLength t \<le> m \<Longrightarrow>
   m = RootDirectoryLength t \<or> m \<noteq> 0 \<and> \<not> IsSeparator (t ! (m - 1)) \<Longrightarrow> trimTrailingSeparators t e = m"
proof (induction e)
  case (Suc e)
  show ?case
  proof (cases "m = Suc e")
    case True
    then show ?thesis using Suc.prems by auto
  next
    case False
    then show ?thesis using Suc by simp
  qed
qed simp

lemma component_begin_eq:
  "m \<le> e \<Longrightarrow> (\<And>i. m \<le> i \<Longrightarrow> i < e \<Longrightarrow> \<not> IsSeparator (t ! i)) \<Longrightarrow> b \<le> m \<Longrightarrow>
   m = b \<or> m \<noteq> 0 \<and> IsSeparator (t ! (m - 1)) \<Longrightarrow> component_begin t b e = m"
proof (induction e)
  case (Suc e)
  show ?case
  proof (cases "m = Suc e")
    case True
    then show ?thesis using Suc.prems by auto
  next
    case False
    then show ?thesis using Suc by simp
  qed
qed simp

text \<open>The text of a path with a segment: what stands before its last segment, that segment, and the separators
  after it.\<close>

lemma last_segment_split:
  assumes "segments t \<noteq> []"
  obtains q c s where "t = q @ c @ s" "segment c" "q = [] \<or> last q = SLASH" "set s \<subseteq> {SLASH}"
    "segments t = segments q @ [c]"
proof -
  define s where "s = rev (takeWhile IsSeparator (rev t))"
  define u where "u = rev (dropWhile IsSeparator (rev t))"
  define c where "c = rev (takeWhile (\<lambda>x. \<not> IsSeparator x) (rev u))"
  define q where "q = rev (dropWhile (\<lambda>x. \<not> IsSeparator x) (rev u))"
  have t: "t = u @ s" unfolding s_def u_def by (metis rev_append rev_rev_ident takeWhile_dropWhile_id)
  have u: "u = q @ c" unfolding q_def c_def by (metis rev_append rev_rev_ident takeWhile_dropWhile_id)
  have s: "set s \<subseteq> {SLASH}" unfolding s_def by (auto simp: IsSeparator_def dest: set_takeWhileD)
  have c: "SLASH \<notin> set c" unfolding c_def by (auto simp: IsSeparator_def dest: set_takeWhileD)
  have tu: "segments t = segments u" using t s by (simp add: segments_append_seps)
  then have une: "rev u \<noteq> []" using assms by auto
  then have "\<not> IsSeparator (hd (rev u))" unfolding u_def by (metis hd_dropWhile rev_rev_ident)
  then have cne: "c \<noteq> []" using une unfolding c_def by (cases "rev u") auto
  have q: "q = [] \<or> last q = SLASH"
    unfolding q_def by (metis (no_types, lifting) IsSeparator_def hd_dropWhile last_rev rev_is_Nil_conv)
  have seg: "segment c" using c cne by (simp add: segment_def)
  have "segments u = segments q @ [c]"
  proof (cases "q = []")
    case True
    then show ?thesis using u seg by simp
  next
    case False
    then have "q = butlast q @ [SLASH]" using q by (metis append_butlast_last_id)
    then have "u = butlast q @ SLASH # c" "segments q = segments (butlast q)"
      using u by (metis append.assoc append_Cons append_Nil, metis append_Nil2 segments_Nil segments_append)
    then show ?thesis using seg by (simp add: segments_append)
  qed
  then show thesis using that [of q c s] t u tu seg q s by simp
qed

lemma set_SLASH_nth: "set s \<subseteq> {SLASH} \<Longrightarrow> i < length s \<Longrightarrow> s ! i = SLASH"
  by (metis nth_mem singletonD subsetD)

lemma segment_nth: "segment c \<Longrightarrow> i < length c \<Longrightarrow> \<not> IsSeparator (c ! i)"
  by (metis IsSeparator_def nth_mem segment_def)

lemma last_segment_positions:
  assumes t: "t = q @ c @ s" and c: "segment c" and q: "q = [] \<or> last q = SLASH" and s: "set s \<subseteq> {SLASH}"
  shows "t \<noteq> []" "RootDirectoryLength t \<le> length q" "is_absolute t \<longleftrightarrow> is_absolute q"
    "trimTrailingSeparators t (length t) = length q + length c"
    "component_begin t (RootDirectoryLength t) (length q + length c) = length q"
    "RootDirectoryLength t < length q + length c"
proof -
  have ne: "c \<noteq> []" using c by (simp add: segment_def)
  show "t \<noteq> []" using t ne by simp
  show a: "is_absolute t \<longleftrightarrow> is_absolute q"
    using t c by (cases q; cases c) (auto simp: is_absolute_iff segment_def)
  then show r: "RootDirectoryLength t \<le> length q" by (cases q) (auto simp: RootDirectoryLength_eq is_absolute_iff)
  then show "RootDirectoryLength t < length q + length c" using ne by (cases c) auto
  show "trimTrailingSeparators t (length t) = length q + length c"
  proof (rule trimTrailingSeparators_eq)
    show "IsSeparator (t ! i)" if "length q + length c \<le> i" "i < length t" for i
    proof -
      have "t = (q @ c) @ s" using t by simp
      then have "t ! i = s ! (i - (length q + length c))" using that(1) nth_append [of "q @ c" s i] by simp
      then show ?thesis using set_SLASH_nth [OF s, of "i - (length q + length c)"] that t by (simp add: IsSeparator_def)
    qed
    have "\<not> IsSeparator (c ! (length c - 1))" using segment_nth [OF c] ne by simp
    then show "length q + length c = RootDirectoryLength t \<or>
      length q + length c \<noteq> 0 \<and> \<not> IsSeparator (t ! (length q + length c - 1))"
      using t ne by (cases c rule: rev_cases) (simp_all add: nth_append)
  qed (use t r in auto)
  show "component_begin t (RootDirectoryLength t) (length q + length c) = length q"
  proof (rule component_begin_eq)
    show "\<not> IsSeparator (t ! i)" if "length q \<le> i" "i < length q + length c" for i
    proof -
      have "i - length q < length c" using that by arith
      then show ?thesis using that t segment_nth [OF c, of "i - length q"] by (simp add: nth_append)
    qed
    have "t ! (length q - 1) = SLASH" if "q \<noteq> []"
      using that q t by (simp add: nth_append last_conv_nth)
    then show "length q = RootDirectoryLength t \<or> length q \<noteq> 0 \<and> IsSeparator (t ! (length q - 1))"
      using r by (cases "q = []") (simp_all add: IsSeparator_def)
  qed (use r in auto)
qed

lemma filename_split:
  assumes "t = q @ c @ s" "segment c" "q = [] \<or> last q = SLASH" "set s \<subseteq> {SLASH}"
  shows "filename t = c"
proof -
  note p = last_segment_positions [OF assms]
  have b: "(if RootDirectoryLength t \<noteq> 0 then RootDirectoryLength t else RootNameLength t) = RootDirectoryLength t"
    by (simp add: RootNameLength_def)
  have n: "\<not> (RootDirectoryLength t \<noteq> 0 \<and> length q + length c \<le> RootDirectoryLength t
    \<or> RootNameLength t \<noteq> 0 \<and> length q + length c \<le> RootNameLength t)"
    using p(6) by (simp add: RootNameLength_def)
  show ?thesis unfolding filename_def Let_def p(4) b p(5) using p(1) n assms(1) by auto
qed

lemma root_only:
  assumes "t \<noteq> []" "set t \<subseteq> {SLASH}"
  shows "is_absolute t" "trimTrailingSeparators t (length t) = 1"
proof -
  show a: "is_absolute t" using assms by (cases t) (simp_all add: is_absolute_iff)
  show "trimTrailingSeparators t (length t) = 1"
    by (rule trimTrailingSeparators_eq)
      (use assms a in \<open>auto simp: RootDirectoryLength_eq set_SLASH_nth IsSeparator_def Suc_le_eq\<close>)
qed

lemma filename_eq: "filename t = (if segments t = [] then [] else last (segments t))"
proof (cases "segments t = []")
  case True
  then have "set t \<subseteq> {SLASH}" by (simp add: segments_Nil_iff)
  then show ?thesis using True root_only [of t] by (simp add: filename_def Let_def RootDirectoryLength_eq)
next
  case False
  then show ?thesis by (rule last_segment_split) (simp add: filename_split)
qed

definition strip :: "path \<Rightarrow> path" where
  "strip q = take (trimTrailingSeparators q (length q)) q"

lemma trim_take:
  "e \<le> length q \<Longrightarrow> is_absolute (q @ r) = is_absolute q \<Longrightarrow>
   trimTrailingSeparators (q @ r) e = trimTrailingSeparators q e"
  by (induction e) (simp_all add: RootDirectoryLength_eq nth_append)

lemma trim_le: "trimTrailingSeparators q e \<le> e"
  by (induction e) auto

lemma parent_path_split:
  assumes "t = q @ c @ s" "segment c" "q = [] \<or> last q = SLASH" "set s \<subseteq> {SLASH}"
  shows "parent_path t = strip q"
proof -
  note p = last_segment_positions [OF assms]
  have "take (RootDirectoryLength t) t = strip q" if "RootDirectoryLength t \<noteq> 0" "length q \<le> RootDirectoryLength t"
  proof -
    have a: "is_absolute q" and "length q = 1" using that p(2,3) by (auto simp: RootDirectoryLength_eq split: if_splits)
    then have "q = [SLASH]" by (cases q) (auto simp: is_absolute_iff)
    then show ?thesis using assms(1) that p(2) by (simp add: strip_def RootDirectoryLength_eq is_absolute_iff)
  qed
  moreover have "take (trimTrailingSeparators t (length q - 1)) t = strip q"
    if "q \<noteq> []" "RootDirectoryLength t < length q"
  proof -
    have l: "IsSeparator (q ! (length q - 1))" using that assms(3) by (simp add: last_conv_nth IsSeparator_def)
    have "trimTrailingSeparators q (length q) = trimTrailingSeparators q (length q - 1)"
      using l that p(3) by (cases "length q") (simp_all add: RootDirectoryLength_eq)
    moreover have "trimTrailingSeparators t (length q - 1) = trimTrailingSeparators q (length q - 1)"
      using trim_take [of "length q - 1" q "c @ s"] p(3) assms(1) by simp
    moreover have "trimTrailingSeparators q (length q - 1) \<le> length q"
      using trim_le [of q "length q - 1"] by simp
    ultimately show ?thesis using assms(1) by (simp add: strip_def)
  qed
  moreover have "strip q = []" if "q = []" using that by (simp add: strip_def)
  moreover have "\<not> (RootDirectoryLength t \<noteq> 0 \<and> length q + length c \<le> RootDirectoryLength t)" using p(6) by simp
  ultimately show ?thesis unfolding parent_path_def Let_def p(4) p(5) using p(1,2)
    by (cases "q = []"; cases "RootDirectoryLength t < length q") simp_all
qed

lemma strip_segments: "segments (strip q) = segments q \<and> is_absolute (strip q) = is_absolute q"
proof (cases "segments q = []")
  case True
  then have s: "set q \<subseteq> {SLASH}" by (simp add: segments_Nil_iff)
  show ?thesis
  proof (cases "q = []")
    case False
    then have "strip q = [SLASH]" using root_only [OF False s] s by (cases q) (auto simp: strip_def)
    then show ?thesis using root_only [OF False s] True by (simp add: is_absolute_iff)
  qed (simp add: strip_def)
next
  case False
  then obtain r c s where q: "q = r @ c @ s" "segment c" "r = [] \<or> last r = SLASH" "set s \<subseteq> {SLASH}"
    "segments q = segments r @ [c]" by (rule last_segment_split)
  then have "strip q = r @ c" unfolding strip_def last_segment_positions(4) [OF q(1-4)] by simp
  then have "q = strip q @ s" using q(1) by simp
  then have "segments q = segments (strip q)" using q(4) by (metis segments_append_seps)
  moreover have "is_absolute (strip q) = is_absolute q"
    using \<open>q = strip q @ s\<close> \<open>strip q = r @ c\<close> q(2) by (metis append_is_Nil_conv hd_append2 is_absolute_iff segment_def)
  ultimately show ?thesis by simp
qed

lemma parent_path_eq: "segments (parent_path t) = butlast (segments t) \<and> is_absolute (parent_path t) = is_absolute t"
proof (cases "segments t = []")
  case True
  then have s: "set t \<subseteq> {SLASH}" by (simp add: segments_Nil_iff)
  show ?thesis
  proof (cases "t = []")
    case False
    then have "parent_path t = [SLASH]" using root_only [OF False s] s
      by (cases t) (auto simp: parent_path_def Let_def RootDirectoryLength_eq)
    then show ?thesis using root_only [OF False s] True by (simp add: is_absolute_iff)
  qed (simp add: parent_path_def is_absolute_iff)
next
  case False
  then obtain q c s where t: "t = q @ c @ s" "segment c" "q = [] \<or> last q = SLASH" "set s \<subseteq> {SLASH}"
    "segments t = segments q @ [c]" by (rule last_segment_split)
  then show ?thesis using parent_path_split [OF t(1-4)] strip_segments [of q] last_segment_positions(3) [OF t(1-4)] by simp
qed

section \<open>Rendered paths\<close>

lemma render_snoc: "path_text absolute (cs @ [c]) = (if cs = [] then path_text absolute [] @ c else path_text absolute cs @ [SLASH] @ c)"
  by (cases "cs = []") (simp_all add: path_text_def join_snoc)

lemma render_Nil_iff: "list_all segment cs \<Longrightarrow> path_text absolute cs = [] \<longleftrightarrow> \<not> absolute \<and> cs = []"
  using join_hd [of cs] by (auto simp: path_text_def)

lemma render_last:
  "list_all segment cs \<Longrightarrow> path_text absolute cs \<noteq> [] \<Longrightarrow> IsSeparator (last (path_text absolute cs)) \<longleftrightarrow> cs = []"
  using join_hd [of cs] join_last [of cs] by (auto simp: path_text_def IsSeparator_def)

lemma appendComponent_render:
  assumes "list_all segment cs" "segment c"
  shows "appendComponent (path_text absolute cs) c = path_text absolute (cs @ [c])"
proof (cases "cs = []")
  case True
  then show ?thesis using assms by (auto simp: appendComponent_def path_text_def segment_def IsSeparator_def)
next
  case False
  then have "path_text absolute cs \<noteq> []" using assms(1) by (simp add: render_Nil_iff)
  then show ?thesis using False assms render_last [OF assms(1), of absolute]
    by (simp add: appendComponent_def render_snoc segment_def PreferredSeparator_def)
qed

lemma segments_appendComponent:
  "set c \<noteq> {} \<Longrightarrow> segments (appendComponent t c) = segments t @ segments c \<and> is_absolute (appendComponent t c) = (if t = [] then is_absolute c else is_absolute t)"
proof -
  assume c: "set c \<noteq> {}"
  consider "t = []" | "t \<noteq> []" "last t = SLASH" | "t \<noteq> []" "last t \<noteq> SLASH" by blast
  then show ?thesis
  proof cases
    case 2
    then have t: "t = butlast t @ [SLASH]" by (metis append_butlast_last_id)
    have "segments (t @ c) = segments t @ segments c"
      by (metis append.assoc append_Cons append_Nil append_Nil2 segments_Nil segments_append t)
    then show ?thesis using 2 c by (auto simp: appendComponent_def IsSeparator_def is_absolute_iff)
  qed (use c in \<open>auto simp: appendComponent_def IsSeparator_def PreferredSeparator_def segments_append is_absolute_iff\<close>)
qed

lemma strip_render: "list_all segment cs \<Longrightarrow> strip (path_text absolute cs) = path_text absolute cs"
proof (cases "cs = []")
  case True
  then show ?thesis by (cases absolute) (simp_all add: strip_def path_text_def RootDirectoryLength_eq is_absolute_iff)
next
  case False
  assume cs: "list_all segment cs"
  then have r: "path_text absolute cs \<noteq> []" using False by (simp add: render_Nil_iff)
  then have "\<not> IsSeparator (last (path_text absolute cs))" using render_last [OF cs] False by simp
  with r show ?thesis by (cases "length (path_text absolute cs)") (simp_all add: strip_def last_conv_nth)
qed

lemma strip_append_seps:
  assumes "list_all segment cs" "cs \<noteq> []"
  shows "strip (path_text absolute cs @ [SLASH]) = path_text absolute cs"
proof -
  let ?r = "path_text absolute cs"
  have r: "?r \<noteq> []" using assms by (simp add: render_Nil_iff)
  then have a: "is_absolute (?r @ [SLASH]) = is_absolute ?r" by (simp add: is_absolute_iff)
  have "1 < Suc (length ?r)" using r by (cases ?r) auto
  then have "trimTrailingSeparators (?r @ [SLASH]) (Suc (length ?r)) = trimTrailingSeparators (?r @ [SLASH]) (length ?r)"
    by (simp add: RootDirectoryLength_eq IsSeparator_def)
  also have "\<dots> = trimTrailingSeparators ?r (length ?r)" using a by (simp add: trim_take)
  finally show ?thesis using strip_render [OF assms(1), of absolute] trim_le [of ?r "length ?r"] by (simp add: strip_def)
qed

lemma parent_path_render:
  assumes "list_all segment cs" "segment c"
  shows "parent_path (path_text absolute (cs @ [c])) = path_text absolute cs"
proof (cases "cs = []")
  case True
  have "parent_path (path_text absolute [c]) = strip (path_text absolute [])"
    by (rule parent_path_split [where c = c and s = "[]"]) (use assms in \<open>auto simp: path_text_def\<close>)
  then show ?thesis using True strip_render [of "[]" absolute] by simp
next
  case False
  have "parent_path (path_text absolute (cs @ [c])) = strip (path_text absolute cs @ [SLASH])"
    by (rule parent_path_split [where c = c and s = "[]"]) (use assms False in \<open>simp_all add: render_snoc\<close>)
  then show ?thesis using strip_append_seps [OF assms(1) False] by simp
qed

section \<open>The normal form\<close>

definition push_segment :: "bool \<Rightarrow> path list \<Rightarrow> path \<Rightarrow> path list" where
  "push_segment absolute st c =
     (if c = dot then st
      else if c = dotdot then
        if st \<noteq> [] \<and> last st \<noteq> dotdot then butlast st
        else if absolute then st else st @ [c]
      else st @ [c])"

definition normal_segments :: "bool \<Rightarrow> path list \<Rightarrow> path list" where
  "normal_segments absolute cs = foldl (push_segment absolute) [] cs"

lemma segment_dots [simp]: "segment dot" "segment dotdot"
  by (simp_all add: segment_def dot_def dotdot_def DOT_def SLASH_def)

lemma IsDot_iff: "IsDot c \<longleftrightarrow> c = dot"
  by (cases c) (auto simp: IsDot_def dot_def)

lemma IsDotDot_iff: "IsDotDot c \<longleftrightarrow> c = dotdot"
  by (cases c; cases "tl c") (auto simp: IsDotDot_def dotdot_def)

lemma push_segment_segments: "list_all segment st \<Longrightarrow> segment c \<Longrightarrow> list_all segment (push_segment absolute st c)"
  by (auto simp: push_segment_def list_all_iff dest: in_set_butlastD)

lemma normalize_component_render:
  assumes st: "list_all segment st" and c: "segment c"
  shows "normalize_component absolute (path_text absolute st) c = path_text absolute (push_segment absolute st c)"
proof -
  have n: "c \<noteq> []" "\<not> (length c = 1 \<and> IsSeparator (c ! 0))"
    using c by (cases c; auto simp: segment_def IsSeparator_def)+
  have f: "filename (path_text absolute st) = (if st = [] then [] else last st)" using st by (simp add: filename_eq)
  have l: "st \<noteq> [] \<Longrightarrow> last st \<noteq> []" using st by (auto simp: list_all_iff segment_def)
  have p: "st \<noteq> [] \<Longrightarrow> parent_path (path_text absolute st) = path_text absolute (butlast st)"
    using parent_path_render [of "butlast st" "last st" absolute] st
    by (simp add: list_all_iff in_set_butlastD)
  show ?thesis unfolding normalize_component_def IsDot_iff IsDotDot_iff push_segment_def f
    using n l p st c by (auto simp: appendComponent_render render_Nil_iff)
qed

lemma fold_normalize:
  "list_all segment cs \<Longrightarrow> list_all segment st \<Longrightarrow>
   foldl (normalize_component absolute) (path_text absolute st) cs = path_text absolute (foldl (push_segment absolute) st cs)
   \<and> list_all segment (foldl (push_segment absolute) st cs)"
  by (induction cs arbitrary: st) (auto simp: normalize_component_render push_segment_segments)

lemma list_all_segments: "list_all segment (segments t)"
  using segments_segment by (simp add: list_all_iff)

lemma lexically_normal_eq:
  "lexically_normal t = (let cs = normal_segments (is_absolute t) (segments t) in
     if cs = [] \<and> \<not> is_absolute t then [DOT] else path_text (is_absolute t) cs)"
proof -
  let ?a = "is_absolute t"
  have f: "foldl (normalize_component ?a) (path_text ?a []) (path_components t) = path_text ?a (normal_segments ?a (segments t))"
    "list_all segment (normal_segments ?a (segments t))"
    using fold_normalize [OF list_all_segments, of "[]" ?a t]
    by (auto simp: path_components_eq normal_segments_def normalize_component_def IsDot_iff dot_def DOT_def SLASH_def IsSeparator_def)
  have r: "path_text False [] = []" "path_text True [] = [SLASH]" by (simp_all add: path_text_def)
  show ?thesis
  proof (cases ?a)
    case True
    then show ?thesis using f(1) r by (simp add: lexically_normal_def appendNormalizedTo_def RootNameLength_def
          RootDirectoryLength_eq PreferredSeparator_def Let_def)
  next
    case False
    then show ?thesis using f r by (simp add: lexically_normal_def appendNormalizedTo_def RootNameLength_def
          RootDirectoryLength_eq Let_def render_Nil_iff)
  qed
qed

text \<open>The directory a path names: \<open>enter\<close> is one step, \<open>resolve cwd t\<close> the walk of the whole text from \<open>cwd\<close>.\<close>

definition enter :: "path list \<Rightarrow> path \<Rightarrow> path list" where
  "enter dir c = (if c = dot then dir else if c = dotdot then butlast dir else dir @ [c])"

definition resolve :: "path list \<Rightarrow> path \<Rightarrow> path list" where
  "resolve cwd t = foldl enter (if is_absolute t then [] else cwd) (segments t)"

definition names :: "path list \<Rightarrow> bool" where
  "names ns = list_all (\<lambda>c. segment c \<and> c \<noteq> dot \<and> c \<noteq> dotdot) ns"

text \<open>A normal stack: some \<open>..\<close>, none below a root, and then names.\<close>

definition normal_stack :: "bool \<Rightarrow> path list \<Rightarrow> bool" where
  "normal_stack absolute st = (\<exists>k ns. st = replicate k dotdot @ ns \<and> names ns \<and> (absolute \<longrightarrow> k = 0))"

lemma dots_differ [simp]: "dot \<noteq> dotdot" "dotdot \<noteq> dot"
  by (simp_all add: dot_def dotdot_def)

lemma names_Cons [simp]: "names (c # ns) \<longleftrightarrow> segment c \<and> c \<noteq> dot \<and> c \<noteq> dotdot \<and> names ns"
  by (auto simp: names_def)

lemma names_Nil [simp]: "names []"
  by (simp add: names_def)

lemma names_append [simp]: "names (a @ b) \<longleftrightarrow> names a \<and> names b"
  by (simp add: names_def)

lemma normal_stackI: "st = replicate k dotdot @ ns \<Longrightarrow> names ns \<Longrightarrow> absolute \<longrightarrow> k = 0 \<Longrightarrow> normal_stack absolute st"
  by (auto simp: normal_stack_def)

lemma normal_stack_push:
  assumes "normal_stack absolute st" "segment c"
  shows "normal_stack absolute (push_segment absolute st c)"
proof -
  obtain k ns where st: "st = replicate k dotdot @ ns" "names ns" "absolute \<longrightarrow> k = 0"
    using assms(1) by (auto simp: normal_stack_def)
  consider "c = dot" | "c \<noteq> dot" "c \<noteq> dotdot" | "c = dotdot" by blast
  then show ?thesis
  proof cases
    case 1
    then show ?thesis using assms(1) by (simp add: push_segment_def)
  next
    case 2
    then show ?thesis using st assms(2) by (intro normal_stackI [of _ k "ns @ [c]"]) (simp_all add: push_segment_def)
  next
    case 3
    show ?thesis
    proof (cases ns rule: rev_cases)
      case Nil
      show ?thesis
      proof (cases absolute)
        case True
        then show ?thesis using 3 st Nil by (simp add: push_segment_def normal_stackI [of _ 0 "[]"])
      next
        case False
        then have "push_segment absolute st c = replicate (Suc k) dotdot"
          using 3 st Nil by (cases k) (simp_all add: push_segment_def replicate_append_same)
        then show ?thesis using False by (intro normal_stackI [of _ "Suc k" "[]"]) simp_all
      qed
    next
      case (snoc ms m)
      then show ?thesis using 3 st by (intro normal_stackI [of _ k ms]) (simp_all add: push_segment_def butlast_append)
    qed
  qed
qed

lemma normal_stack_fold: "list_all segment cs \<Longrightarrow> normal_stack absolute st \<Longrightarrow> normal_stack absolute (foldl (push_segment absolute) st cs)"
  by (induction cs arbitrary: st) (auto intro: normal_stack_push)

lemma normal_segments_stack: "normal_stack (is_absolute t) (normal_segments (is_absolute t) (segments t))"
  unfolding normal_segments_def
  by (rule normal_stack_fold [OF list_all_segments]) (auto simp: normal_stack_def)

lemma enter_names: "names ns \<Longrightarrow> foldl enter dir ns = dir @ ns"
  by (induction ns arbitrary: dir) (auto simp: enter_def names_def)

lemma enter_replicate: "foldl enter dir (replicate k dotdot) = take (length dir - k) dir"
  by (induction k arbitrary: dir) (auto simp: enter_def butlast_conv_take)

lemma enter_push:
  assumes "normal_stack absolute st" "segment c" "absolute \<longrightarrow> dir = []"
  shows "foldl enter dir (push_segment absolute st c) = enter (foldl enter dir st) c"
proof -
  obtain k ns where st: "st = replicate k dotdot @ ns" "names ns" "absolute \<longrightarrow> k = 0"
    using assms(1) by (auto simp: normal_stack_def)
  show ?thesis
  proof (cases "c = dotdot")
    case True
    show ?thesis
    proof (cases ns rule: rev_cases)
      case Nil
      then show ?thesis using True st assms(3) by (cases absolute; cases k) (auto simp: push_segment_def enter_def)
    next
      case (snoc ms m)
      then show ?thesis using True st
        by (simp add: push_segment_def enter_names butlast_append) (simp add: enter_def butlast_append)
    qed
  qed (auto simp: push_segment_def enter_def)
qed

lemma enter_fold:
  "list_all segment cs \<Longrightarrow> normal_stack absolute st \<Longrightarrow> absolute \<longrightarrow> dir = [] \<Longrightarrow>
   foldl enter dir (foldl (push_segment absolute) st cs) = foldl enter (foldl enter dir st) cs"
  by (induction cs arbitrary: st) (auto simp: enter_push normal_stack_push)

lemma normal_segments_resolve:
  "foldl enter (if is_absolute t then [] else cwd) (normal_segments (is_absolute t) (segments t)) = resolve cwd t"
proof -
  have "foldl enter (if is_absolute t then [] else cwd) (foldl (push_segment (is_absolute t)) [] (segments t))
    = foldl enter (foldl enter (if is_absolute t then [] else cwd) []) (segments t)"
    by (rule enter_fold [OF list_all_segments]) (auto simp: normal_stack_def)
  then show ?thesis by (simp add: normal_segments_def resolve_def)
qed

lemma normal_stack_segments: "normal_stack absolute st \<Longrightarrow> list_all segment st"
  by (auto simp: normal_stack_def names_def list_all_iff)

lemma dot_path [simp]: "segments [DOT] = [dot]" "\<not> is_absolute [DOT]"
  using segments_one [OF segment_dots(1)] by (simp_all add: dot_def is_absolute_iff DOT_def SLASH_def)

lemma segments_normal:
  "segments (lexically_normal t) = (let cs = normal_segments (is_absolute t) (segments t) in
     if cs = [] \<and> \<not> is_absolute t then [dot] else cs)"
  "is_absolute (lexically_normal t) = is_absolute t"
proof -
  have s: "list_all segment (normal_segments (is_absolute t) (segments t))"
    by (rule normal_stack_segments [OF normal_segments_stack])
  show "segments (lexically_normal t) = (let cs = normal_segments (is_absolute t) (segments t) in
      if cs = [] \<and> \<not> is_absolute t then [dot] else cs)"
    unfolding lexically_normal_eq Let_def if_distrib [of segments] segments_render [OF s] dot_path ..
  show "is_absolute (lexically_normal t) = is_absolute t"
    unfolding lexically_normal_eq Let_def using is_absolute_render [OF s] by simp
qed

lemma resolve_normal: "resolve cwd (lexically_normal t) = resolve cwd t"
proof -
  have "foldl enter d (if cs = [] \<and> b then [dot] else cs) = foldl enter d cs" for d cs b
    by (simp add: enter_def)
  then show ?thesis
    unfolding resolve_def [of _ "lexically_normal t"] segments_normal Let_def by (simp add: normal_segments_resolve)
qed

lemma push_normal: "normal_stack absolute (st @ cs) \<Longrightarrow> foldl (push_segment absolute) st cs = st @ cs"
proof (induction cs arbitrary: st)
  case (Cons c cs)
  obtain k ns where st: "st @ c # cs = replicate k dotdot @ ns" "names ns" "absolute \<longrightarrow> k = 0"
    using Cons.prems by (auto simp: normal_stack_def)
  have "push_segment absolute st c = st @ [c]"
  proof (cases "length st < k")
    case True
    then have "c = dotdot" "st = replicate (length st) dotdot" "\<not> absolute"
    proof -
      have "(st @ c # cs) ! length st = dotdot" unfolding st(1) using True by (simp add: nth_append)
      then show "c = dotdot" by simp
      have "take (length st) (st @ c # cs) = replicate (length st) dotdot" unfolding st(1) using True by (simp add: min_def)
      then show "st = replicate (length st) dotdot" by simp
      show "\<not> absolute" using st(3) True by auto
    qed
    then show ?thesis by (cases "length st") (simp_all add: push_segment_def)
  next
    case False
    then have "c = ns ! (length st - k)" "length st - k < length ns"
      using arg_cong [OF st(1), of "\<lambda>l. l ! length st"] arg_cong [OF st(1), of length] by (auto simp: nth_append)
    then have "c \<in> set ns" by simp
    then show ?thesis using st(2) by (auto simp: names_def list_all_iff push_segment_def)
  qed
  then show ?case using Cons by simp
qed simp

lemma lexically_normal_idem: "lexically_normal (lexically_normal t) = lexically_normal t"
proof -
  let ?a = "is_absolute t" and ?cs = "normal_segments (is_absolute t) (segments t)"
  have "normal_segments ?a ?cs = ?cs"
    using push_normal [of ?a "[]" ?cs] normal_segments_stack [of t] by (simp add: normal_segments_def)
  moreover have "normal_segments ?a [dot] = []" by (simp add: normal_segments_def push_segment_def)
  ultimately show ?thesis unfolding lexically_normal_eq [of "lexically_normal t"] segments_normal Let_def
    by (subst lexically_normal_eq) (auto simp: Let_def)
qed

text \<open>Relative texts that name the same directory from everywhere have the same normal stack.\<close>

lemma fresh_segment: "\<exists>c. segment c \<and> c \<notin> set ns"
proof -
  let ?c = "replicate (Suc (sum_list (map length ns))) DOT"
  have "?c \<notin> set ns"
  proof
    assume "?c \<in> set ns"
    then have "length ?c \<in> set (map length ns)" by (metis image_eqI set_map)
    then have "length ?c \<le> sum_list (map length ns)" by (rule member_le_sum_list) simp
    then show False by simp
  qed
  then show ?thesis by (intro exI [of _ ?c]) (simp add: segment_def DOT_def SLASH_def)
qed

lemma normal_stack_unique:
  assumes "normal_stack False s1" "normal_stack False s2" "\<And>dir. foldl enter dir s1 = foldl enter dir s2"
  shows "s1 = s2"
proof -
  obtain k1 n1 where 1: "s1 = replicate k1 dotdot @ n1" "names n1" using assms(1) by (auto simp: normal_stack_def)
  obtain k2 n2 where 2: "s2 = replicate k2 dotdot @ n2" "names n2" using assms(2) by (auto simp: normal_stack_def)
  obtain c where c: "c \<notin> set (n1 @ n2)" using fresh_segment by blast
  let ?m = "k1 + k2"
  have e: "replicate (?m - k1) c @ n1 = replicate (?m - k2) c @ n2"
    using assms(3) [of "replicate ?m c"] 1 2 by (simp add: enter_replicate enter_names)
  have t: "takeWhile (\<lambda>x. x = c) (replicate j c @ n) = replicate j c" if "c \<notin> set n" for j n
    using that by (cases n) (auto simp: takeWhile_append)
  have "replicate (?m - k1) c = replicate (?m - k2) c"
    using arg_cong [OF e, of "takeWhile (\<lambda>x. x = c)"] c t [of n1] t [of n2] by simp
  then have "?m - k1 = ?m - k2" by (metis length_replicate)
  then show ?thesis using e 1 2 by simp
qed

section \<open>Normalisation\<close>

text \<open>C19: \<open>lexically_normal\<close> decides when two texts name the same place: their normal forms are equal exactly when
  both or neither are absolute and they name the same directory seen from every working directory. The normal
  form names what the text names, is a fixed point, and has no \<open>.\<close>, no empty segment, and \<open>..\<close> only in front
  of a relative path (the text \<open>.\<close> alone stands for the working directory itself).\<close>

theorem lexically_normal_correct:
  "(lexically_normal p = lexically_normal q) =
     (is_absolute p = is_absolute q \<and> (\<forall>cwd. resolve cwd p = resolve cwd q))
   \<and> resolve cwd (lexically_normal p) = resolve cwd p
   \<and> lexically_normal (lexically_normal p) = lexically_normal p
   \<and> (lexically_normal p = [DOT]
      \<or> (\<exists>st. normal_stack (is_absolute p) st \<and> lexically_normal p = path_text (is_absolute p) st))"
proof -
  let ?n = "\<lambda>t. normal_segments (is_absolute t) (segments t)"
  have "lexically_normal p = lexically_normal q"
    if "is_absolute p = is_absolute q" "\<forall>cwd. resolve cwd p = resolve cwd q"
  proof -
    have "foldl enter (if is_absolute p then [] else dir) (?n p) = foldl enter (if is_absolute p then [] else dir) (?n q)" for dir
      using normal_segments_resolve [of p dir] normal_segments_resolve [of q dir] that by simp
    note same = this
    have "?n p = ?n q"
    proof (cases "is_absolute p")
      case True
      then show ?thesis using same normal_segments_stack [of p] normal_segments_stack [of q] that(1)
        by (auto simp: normal_stack_def enter_names)
    next
      case False
      then have "normal_stack False (?n p)" "normal_stack False (?n q)"
        using normal_segments_stack [of p] normal_segments_stack [of q] that(1) by auto
      moreover have "foldl enter dir (?n p) = foldl enter dir (?n q)" for dir using same [of dir] False by simp
      ultimately show ?thesis by (rule normal_stack_unique)
    qed
    then show ?thesis unfolding lexically_normal_eq that(1) by (simp only:)
  qed
  moreover have "is_absolute p = is_absolute q \<and> resolve cwd p = resolve cwd q"
    if "lexically_normal p = lexically_normal q" for cwd
    using that segments_normal(2) [of p] segments_normal(2) [of q] resolve_normal by metis
  moreover have "lexically_normal p = [DOT]
      \<or> (\<exists>st. normal_stack (is_absolute p) st \<and> lexically_normal p = path_text (is_absolute p) st)"
    using normal_segments_stack [of p] unfolding lexically_normal_eq Let_def by auto
  ultimately show ?thesis using lexically_normal_idem resolve_normal by blast
qed

end
