(* ===== verification/Path_Relative.thy ===== *)
theory Path_Relative
  imports Path_Normal
begin

text \<open>
  Relative paths, stems and extensions, the safety test of archive members, ancestors, and the absolute paths
  of \<^verbatim>\<open>src/global/filesystem/operations.h\<close>. The working directory the operating system reports
  (\<open>GetCurrentPath\<close>) is a parameter: \<open>None\<close> where the call fails.
\<close>

section \<open>Relative paths\<close>

lemma drop_common_split:
  "drop_common ps bs = (pr, br) \<Longrightarrow> \<exists>pre. ps = pre @ pr \<and> bs = pre @ br \<and> (pr = [] \<or> br = [] \<or> hd pr \<noteq> hd br)"
proof (induction ps bs arbitrary: pr br rule: drop_common.induct)
  case (1 p ps b bs)
  show ?case
  proof (cases "p = b")
    case True
    then obtain pre where "ps = pre @ pr" "bs = pre @ br" "pr = [] \<or> br = [] \<or> hd pr \<noteq> hd br"
      using 1 by auto
    then show ?thesis using True by (intro exI [of _ "b # pre"]) simp
  qed (use 1(2) in auto)
qed auto

lemma fold_appendComponent:
  "list_all segment cs \<Longrightarrow> list_all segment st \<Longrightarrow>
   foldl appendComponent (path_text absolute st) cs = path_text absolute (st @ cs)"
  by (induction cs arbitrary: st) (simp_all add: appendComponent_render)

lemma fold_up:
  "list_all segment br \<Longrightarrow> list_all segment st \<Longrightarrow>
   foldl (\<lambda>out c. if c = [SLASH] then out else appendComponent out [DOT, DOT]) (path_text absolute st) br
   = path_text absolute (st @ replicate (length br) dotdot)"
proof (induction br arbitrary: st)
  case (Cons c br)
  have "c \<noteq> [SLASH]" using Cons.prems(1) by (auto simp: segment_def)
  moreover have "[DOT, DOT] = dotdot" by (simp add: dotdot_def)
  ultimately show ?case using Cons by (simp add: appendComponent_render)
qed simp

lemma drop_common_same [simp]: "drop_common (a @ ps) (a @ bs) = drop_common ps bs"
  by (induction a) auto

lemma drop_common_segments:
  assumes "drop_common (segments t) (segments b) = (pr, br)"
  shows "list_all segment pr" "list_all segment br"
  using drop_common_split [OF assms] list_all_segments [of t] list_all_segments [of b] by auto

lemma lexically_relative_eq:
  assumes "is_absolute t = is_absolute b"
    and d: "drop_common (segments (lexically_normal t)) (segments (lexically_normal b)) = (pr, br)"
  shows "lexically_relative t b =
    (let cs = replicate (length br) dotdot @ pr in if cs = [] then [DOT] else path_text False cs)"
proof -
  note s = drop_common_segments [OF d]
  have r: "[] = path_text False []" by (simp add: path_text_def)
  have dd: "list_all segment (replicate (length br) dotdot)" by (simp add: list_all_iff)
  have "foldl (\<lambda>out c. if c = [SLASH] then out else appendComponent out [DOT, DOT]) [] br
    = path_text False (replicate (length br) dotdot)"
    using fold_up [OF s(2), of "[]" False] r by simp
  moreover have "foldl appendComponent (path_text False (replicate (length br) dotdot)) pr
    = path_text False (replicate (length br) dotdot @ pr)"
    by (rule fold_appendComponent [OF s(1) dd])
  moreover have "drop_common (path_components (lexically_normal t)) (path_components (lexically_normal b)) = (pr, br)"
    using d assms(1) by (simp add: path_components_eq segments_normal(2))
  moreover have "path_text False (replicate (length br) dotdot @ pr) = [] \<longleftrightarrow> replicate (length br) dotdot @ pr = []"
    using render_Nil_iff [of "replicate (length br) dotdot @ pr" False] dd s(1) by simp
  ultimately show ?thesis using assms(1)
    by (simp add: lexically_relative_def segments_normal(2) Let_def)
qed

lemma absolute_normal:
  assumes "is_absolute t"
  shows "names (resolve cwd t)" "segments (lexically_normal t) = resolve cwd t" "lexically_normal t = path_text True (resolve cwd t)"
proof -
  let ?n = "normal_segments True (segments t)"
  have n: "names ?n" using normal_segments_stack [of t] assms by (auto simp: normal_stack_def)
  then have r: "resolve cwd t = ?n" using normal_segments_resolve [of t cwd] assms by (simp add: enter_names)
  then show "names (resolve cwd t)" using n by simp
  show "segments (lexically_normal t) = resolve cwd t" using r assms by (simp add: segments_normal)
  show "lexically_normal t = path_text True (resolve cwd t)" using r assms by (simp add: lexically_normal_eq)
qed

lemma names_segments: "names ns \<Longrightarrow> list_all segment ns"
  by (auto simp: names_def list_all_iff)

lemma names_butlast: "names ns \<Longrightarrow> names (butlast ns)"
  by (cases ns rule: rev_cases) auto

lemma names_no_dots: "names ns \<Longrightarrow> dotdot \<notin> set ns \<and> dot \<notin> set ns"
  by (auto simp: names_def list_all_iff)

lemma relative_segments:
  assumes "is_absolute t" "is_absolute b" "resolve [] t = pre @ pr" "resolve [] b = pre @ br"
    "pr = [] \<or> br = [] \<or> hd pr \<noteq> hd br"
  shows "lexically_relative t b =
    (let cs = replicate (length br) dotdot @ pr in if cs = [] then [DOT] else path_text False cs)"
proof (rule lexically_relative_eq)
  have "drop_common pr br = (pr, br)" using assms(5) by (cases pr; cases br) auto
  then show "drop_common (segments (lexically_normal t)) (segments (lexically_normal b)) = (pr, br)"
    using assms absolute_normal(2) [of _ "[]"] by simp
qed (use assms in simp)

lemma common_split:
  fixes ps bs :: "path list"
  obtains pre pr br where "ps = pre @ pr" "bs = pre @ br" "pr = [] \<or> br = [] \<or> hd pr \<noteq> hd br"
  using drop_common_split [of ps bs "fst (drop_common ps bs)" "snd (drop_common ps bs)"] by auto

text \<open>C21: for absolute paths \<open>lexically_relative\<close> is the way from the base to the path: walked from the directory
  the base names it ends where the path ends; it is never absolute; and it goes up (has a \<open>..\<close>) exactly
  when the path is not below the base.\<close>

theorem lexically_relative_correct:
  assumes "is_absolute t" "is_absolute base"
  shows "resolve (resolve cwd base) (lexically_relative t base) = resolve cwd t
    \<and> \<not> is_absolute (lexically_relative t base)
    \<and> (dotdot \<notin> set (segments (lexically_relative t base))) = prefix (resolve cwd base) (resolve cwd t)"
proof -
  have c: "resolve cwd t = resolve [] t" "resolve cwd base = resolve [] base" using assms by (simp_all add: resolve_def)
  obtain pre pr br where s: "resolve [] t = pre @ pr" "resolve [] base = pre @ br"
    "pr = [] \<or> br = [] \<or> hd pr \<noteq> hd br" by (rule common_split)
  let ?cs = "replicate (length br) dotdot @ pr"
  have n: "names pr" "names br" using absolute_normal(1) [OF assms(1)] absolute_normal(1) [OF assms(2)] s
    by (metis names_append)+
  have l: "list_all segment ?cs" using names_segments [OF n(1)] by (auto simp: list_all_iff)
  have r: "lexically_relative t base = (if ?cs = [] then [DOT] else path_text False ?cs)"
    using relative_segments [OF assms s] by (simp add: Let_def)
  have sg: "segments (lexically_relative t base) = (if ?cs = [] then [dot] else ?cs)" and
    na: "\<not> is_absolute (lexically_relative t base)"
    unfolding r using l by simp_all
  have "foldl enter (pre @ br) ?cs = pre @ pr" using n by (simp add: enter_replicate enter_names)
  then have "resolve (pre @ br) (lexically_relative t base) = pre @ pr"
    using na sg by (auto simp: resolve_def enter_def)
  moreover have "(dotdot \<notin> set (segments (lexically_relative t base))) = (br = [])"
    using sg names_no_dots [OF n(1)] by auto
  moreover have "prefix (pre @ br) (pre @ pr) = (br = [])" using s(3) by (cases br; cases pr) auto
  ultimately show ?thesis using c s na by simp
qed

theorem lexically_relative_witness:
  "lexically_relative [SLASH, 0x61, SLASH, 0x62] [SLASH, 0x61, SLASH, 0x63] = [DOT, DOT, SLASH, 0x62]
   \<and> resolve (resolve [] [SLASH, 0x61, SLASH, 0x63]) (lexically_relative [SLASH, 0x61, SLASH, 0x62] [SLASH, 0x61, SLASH, 0x63])
     = resolve [] [SLASH, 0x61, SLASH, 0x62]"
proof
  show "resolve (resolve [] [SLASH, 0x61, SLASH, 0x63]) (lexically_relative [SLASH, 0x61, SLASH, 0x62] [SLASH, 0x61, SLASH, 0x63])
     = resolve [] [SLASH, 0x61, SLASH, 0x62]"
    using lexically_relative_correct [of "[SLASH, 0x61, SLASH, 0x62]" "[SLASH, 0x61, SLASH, 0x63]" "[]"]
    by (simp add: is_absolute_iff)
  show "lexically_relative [SLASH, 0x61, SLASH, 0x62] [SLASH, 0x61, SLASH, 0x63] = [DOT, DOT, SLASH, 0x62]"
    by code_simp
qed

text \<open>Between relative texts it is not that: the component \<open>.\<close> of the base \<open>.\<close> is counted as a directory to leave,
  and a \<open>..\<close> of the base as one that another \<open>..\<close> undoes.\<close>

lemma lexically_relative_dot:
  "lexically_relative [0x61] [DOT] = [DOT, DOT, SLASH, 0x61]
   \<and> resolve (resolve [[0x78]] [DOT]) [DOT, DOT, SLASH, 0x61] \<noteq> resolve [[0x78]] [0x61]"
  by code_simp

lemma lexically_relative_up:
  "lexically_relative [0x61] [DOT, DOT, SLASH, 0x62] = [DOT, DOT, SLASH, DOT, DOT, SLASH, 0x61]
   \<and> resolve (resolve [[0x78], [0x79]] [DOT, DOT, SLASH, 0x62]) [DOT, DOT, SLASH, DOT, DOT, SLASH, 0x61]
     \<noteq> resolve [[0x78], [0x79]] [0x61]"
  by code_simp

section \<open>Stem and extension\<close>

text \<open>The search of \<open>extensionBeginInText\<close> finds the last dot after the first character of the file name.\<close>

lemma extension_loop_spec:
  "n \<le> length t \<Longrightarrow> DOT \<notin> set (drop n t) \<Longrightarrow> f \<le> n \<Longrightarrow>
   (extension_loop t f n = length t \<and> DOT \<notin> set (drop (f + 1) t)
    \<or> f < extension_loop t f n \<and> extension_loop t f n < length t \<and> t ! extension_loop t f n = DOT
      \<and> DOT \<notin> set (drop (extension_loop t f n + 1) t))"
proof (induction n)
  case 0
  then show ?case by (cases t) auto
next
  case (Suc i)
  have d: "drop i t = t ! i # drop (Suc i) t" using Suc.prems(1) by (simp add: Cons_nth_drop_Suc)
  show ?case
  proof (cases "f < Suc i")
    case True
    consider "t ! i = DOT" "i = f" | "t ! i = DOT" "i \<noteq> f" | "t ! i \<noteq> DOT" by blast
    then show ?thesis
    proof cases
      case 3
      then show ?thesis using Suc True d by auto
    qed (use Suc True in auto)
  next
    case False
    have "extension_loop t f (Suc i) = length t" by (simp only: extension_loop.simps False if_False)
    moreover have "Suc i = f" using False Suc.prems(3) by simp
    moreover have "DOT \<notin> set (drop (f + 1) t)"
      using Suc.prems(2) \<open>Suc i = f\<close> set_drop_subset_set_drop [of f "f + 1" t] by auto
    ultimately show ?thesis by blast
  qed
qed

lemma component_begin_le: "component_begin t b e \<le> e"
  by (induction e) auto

lemma filenameBeginInText_eq: "filenameBeginInText t = component_begin t (RootDirectoryLength t) (length t)"
  by (simp add: filenameBeginInText_def RootNameLength_def Let_def)

lemma extensionBegin_spec:
  assumes "t \<noteq> []"
  shows "extensionBeginInText t = length t \<and> DOT \<notin> set (drop (filenameBeginInText t + 1) t)
    \<or> filenameBeginInText t < extensionBeginInText t \<and> extensionBeginInText t < length t
      \<and> t ! extensionBeginInText t = DOT \<and> DOT \<notin> set (drop (extensionBeginInText t + 1) t)"
proof -
  have "filenameBeginInText t \<le> length t" by (simp add: filenameBeginInText_eq component_begin_le)
  then show ?thesis using extension_loop_spec [of "length t" t "filenameBeginInText t"] assms
    by (simp add: extensionBeginInText_def)
qed

lemma filenameBegin_segment: "segment c \<Longrightarrow> filenameBeginInText c = 0"
proof -
  assume c: "segment c"
  have "\<not> is_absolute c" using c by (cases c) (auto simp: segment_def is_absolute_iff)
  moreover have "component_begin c 0 (length c) = 0"
    by (rule component_begin_eq) (use segment_nth [OF c] in auto)
  ultimately show ?thesis by (simp add: filenameBeginInText_eq RootDirectoryLength_eq)
qed

text \<open>The stem and the extension cut the file name, the last segment of the text, before its last dot: both
  together are the file name; an extension starts with a dot, holds no other dot and never makes the stem
  empty; and a name has no extension exactly when there is no dot after its first character. The parent
  holds the other segments.\<close>

lemma filename_parts:
  "segments (parent_path t) = butlast (segments t) \<and> is_absolute (parent_path t) = is_absolute t
   \<and> filename t = (if segments t = [] then [] else last (segments t))
   \<and> stem t @ extension t = filename t
   \<and> (extension t = [] \<and> DOT \<notin> set (drop 1 (filename t))
      \<or> (\<exists>e. extension t = DOT # e \<and> DOT \<notin> set e \<and> stem t \<noteq> []))"
proof -
  let ?f = "filename t" and ?e = "extensionBeginInText (filename t)"
  have "stem t @ extension t = ?f" by (simp add: stem_def extension_def Let_def)
  moreover have "extension t = [] \<and> DOT \<notin> set (drop 1 ?f) \<or> (\<exists>e. extension t = DOT # e \<and> DOT \<notin> set e \<and> stem t \<noteq> [])"
  proof (cases "?f = []")
    case True
    then show ?thesis by (simp add: extension_def extensionBeginInText_def)
  next
    case False
    then have "segment ?f" using list_all_segments [of t] by (auto simp: filename_eq list_all_iff split: if_splits)
    then have b: "filenameBeginInText ?f = 0" by (rule filenameBegin_segment)
    have "drop ?e ?f = ?f ! ?e # drop (?e + 1) ?f" if "?e < length ?f" using that by (simp add: Cons_nth_drop_Suc)
    then show ?thesis using extensionBegin_spec [OF False] b False
      by (auto simp: extension_def stem_def Let_def)
  qed
  ultimately show ?thesis using parent_path_eq [of t] filename_eq [of t] by blast
qed

lemma remove_extension_split:
  assumes "t = q @ c" "segment c" "q = [] \<or> last q = SLASH"
  shows "remove_extension t = q @ stem t"
proof -
  have a: "t = q @ c @ []" using assms(1) by simp
  note p = last_segment_positions [OF a assms(2,3)]
  have f: "filename t = c" using filename_split [OF a assms(2,3)] by simp
  have fb: "filenameBeginInText t = length q"
    using p(5) assms(1) by (simp add: filenameBeginInText_eq)
  have c: "c \<noteq> []" using assms(2) by (simp add: segment_def)
  have loop: "n \<le> length c \<Longrightarrow> extension_loop t (length q) (length q + n) =
      (if extension_loop c 0 n = length c then length t else length q + extension_loop c 0 n)" for n
    using assms(1) by (induction n) (auto simp: nth_append, (cases "length q"; simp)+)
  have "extensionBeginInText t = (if extensionBeginInText c = length c then length t else length q + extensionBeginInText c)"
    using loop [of "length c"] p(1) fb c assms(1) filenameBegin_segment [OF assms(2)] by (simp add: extensionBeginInText_def)
  moreover have "extensionBeginInText c \<le> length c" using extensionBegin_spec [OF c] by auto
  ultimately show ?thesis using f assms(1) by (auto simp: remove_extension_def stem_def Let_def)
qed

section \<open>Ancestors\<close>

lemma parent_path_take: "\<exists>n. parent_path t = take n t"
proof (cases "t = []")
  case False
  have "\<exists>n. (if a then take x t else if b then [] else if c then take y t else take z t) = take n t" for a b c x y z
    by (cases a; cases b; cases c) (auto intro: exI [of _ x] exI [of _ y] exI [of _ z] exI [of _ 0])
  then show ?thesis using False unfolding parent_path_def Let_def by simp
qed (simp add: parent_path_def)

function ancestor_loop :: "path \<Rightarrow> path \<Rightarrow> bool" where
  "ancestor_loop parent normalizedDirectory =
     (if parent = [] then False
      else if parent = normalizedDirectory then True
      else let nextParent = parent_path parent in
        if nextParent = parent then False else ancestor_loop nextParent normalizedDirectory)"
  by pat_completeness auto
termination
proof (relation "measure (\<lambda>(parent, _). length parent)")
  fix parent :: path and x
  assume "x = parent_path parent" "x \<noteq> parent"
  then have "length x < length parent" using parent_path_take [of parent] by (auto simp: not_le min_def)
  then show "((x, d), parent, d) \<in> measure (\<lambda>(parent, _). length parent)" for d :: path by simp
qed auto

declare ancestor_loop.simps [simp del]

definition PathHasDirectoryAncestor :: "path \<Rightarrow> path \<Rightarrow> bool" where
  "PathHasDirectoryAncestor normalizedPath normalizedDirectory =
     (if normalizedPath = [] \<or> normalizedDirectory = [] then False
      else ancestor_loop (parent_path normalizedPath) normalizedDirectory)"

lemma render_inject: "list_all segment a \<Longrightarrow> list_all segment b \<Longrightarrow> path_text x a = path_text x b \<longleftrightarrow> a = b"
  by (metis segments_render)

lemma ancestor_loop_render:
  "list_all segment ns \<Longrightarrow> list_all segment ds \<Longrightarrow> ancestor_loop (path_text True ns) (path_text True ds) = prefix ds ns"
proof (induction ns rule: rev_induct)
  case Nil
  have "parent_path (path_text True []) = path_text True []"
    by (simp add: parent_path_def path_text_def RootDirectoryLength_eq is_absolute_iff)
  then show ?case using Nil render_inject [of "[]" ds True]
    by (subst ancestor_loop.simps) (auto simp: render_Nil_iff)
next
  case (snoc c ns)
  have "parent_path (path_text True (ns @ [c])) = path_text True ns" using snoc.prems by (simp add: parent_path_render)
  moreover have "path_text True ns \<noteq> path_text True (ns @ [c])" using snoc.prems render_inject [of ns "ns @ [c]" True] by simp
  moreover have "path_text True (ns @ [c]) \<noteq> []" using snoc.prems by (simp add: render_Nil_iff)
  ultimately show ?case using snoc render_inject [of "ns @ [c]" ds True]
    by (subst ancestor_loop.simps) (auto simp: Let_def)
qed

lemma PathHasDirectoryAncestor_eq:
  assumes "is_absolute t" "is_absolute d"
  shows "PathHasDirectoryAncestor (lexically_normal t) (lexically_normal d) = prefix (resolve cwd d) (butlast (resolve cwd t))"
proof -
  let ?t = "resolve cwd t" and ?d = "resolve cwd d"
  have l: "list_all segment ?t" "list_all segment ?d"
    using absolute_normal(1) [OF assms(1)] absolute_normal(1) [OF assms(2)] names_segments by blast+
  have n: "lexically_normal t = path_text True ?t" "lexically_normal d = path_text True ?d"
    using assms by (simp_all add: absolute_normal(3))
  have root: "parent_path (path_text True []) = path_text True []"
    by (simp add: parent_path_def path_text_def RootDirectoryLength_eq is_absolute_iff)
  show ?thesis
  proof (cases ?t rule: rev_cases)
    case Nil
    then show ?thesis using n l root ancestor_loop_render [of "[]" ?d] render_inject [of "[]" ?d True]
      by (simp add: PathHasDirectoryAncestor_def render_Nil_iff)
  next
    case (snoc ns c)
    then have "list_all segment ns" "segment c" using l by auto
    then show ?thesis using n l snoc ancestor_loop_render [of ns ?d]
      by (simp add: PathHasDirectoryAncestor_def render_Nil_iff parent_path_render)
  qed
qed

section \<open>Archive members\<close>

lemma pieces_coarser:
  "(\<And>x. d x \<Longrightarrow> d' x) \<Longrightarrow> p \<in> set (pieces d t) \<Longrightarrow> set (pieces d' p) \<subseteq> set (pieces d' t)"
proof (induction t arbitrary: p rule: length_induct)
  case (1 t)
  show ?case
  proof (cases "\<exists>x \<in> set t. d x")
    case True
    then obtain a x b where t: "t = a @ x # b" "d x" by (meson split_list)
    then have "p \<in> set (pieces d a) \<or> p \<in> set (pieces d b)" using 1(3) by (simp add: pieces_append)
    then have "set (pieces d' p) \<subseteq> set (pieces d' a) \<or> set (pieces d' p) \<subseteq> set (pieces d' b)"
      using 1(1) [rule_format, of a p] 1(1) [rule_format, of b p] 1(2) t(1) by auto
    then show ?thesis using 1(2) [OF t(2)] t(1) by (auto simp: pieces_append)
  next
    case False
    then have "pieces d t = [t]" by (auto intro: pieces_none)
    then show ?thesis using 1(3) by simp
  qed
qed

text \<open>What \<open>IsSafeArchiveRelativePath\<close> accepts, with no positions in it.\<close>

definition safe_text :: "path \<Rightarrow> bool" where
  "safe_text t = (list_all (\<lambda>ch. \<not> (ch < 0x20 \<or> ch = 0x3A)) t
     \<and> list_all (\<lambda>p. p \<notin> {[], dot, dotdot}) (pieces IsArchivePathSeparator t))"

lemma pieces_segment_first:
  assumes "\<And>x. x \<in> set c \<Longrightarrow> \<not> d x" "d x"
  shows "pieces d (c @ x # r) = c # pieces d r"
  using assms by (simp add: pieces_append pieces_none)

lemma safe_loop_eq:
  "b \<le> i \<Longrightarrow> i \<le> length t \<Longrightarrow> list_all (\<lambda>ch. \<not> (ch < 0x20 \<or> ch = 0x3A) \<and> \<not> IsArchivePathSeparator ch) (take (i - b) (drop b t)) \<Longrightarrow>
   safe_loop t b i = safe_text (drop b t)"
proof (induction t b i rule: safe_loop.induct)
  case (1 t b i)
  define c where "c = take (i - b) (drop b t)"
  have c: "\<not> IsArchivePathSeparator x" "\<not> (x < 0x20 \<or> x = 0x3A)" if "x \<in> set c" for x
    using 1(5) [folded c_def] that by (auto simp: list_all_iff)
  have len: "(i - b = 0) = (c = [])" using 1(3,4) by (auto simp: c_def)
  show ?case
  proof (cases "i = length t")
    case True
    then have cd: "c = drop b t" by (simp add: c_def)
    have p: "pieces IsArchivePathSeparator (drop b t) = [drop b t]" using c(1) cd by (simp add: pieces_none)
    have end1: "safe_loop t (i + 1) (i + 1)" using True by (simp add: safe_loop.simps)
    have "safe_loop t b i = (\<not> (i - b = 0) \<and> \<not> (c = [DOT] \<or> c = [DOT, DOT]))"
      using True end1 by (subst safe_loop.simps) (simp add: Let_def c_def)
    moreover have "list_all (\<lambda>ch. \<not> (ch < 0x20 \<or> ch = 0x3A)) (drop b t)"
      using c(2) unfolding cd by (simp add: list_all_iff)
    ultimately show ?thesis using len unfolding cd safe_text_def p by (auto simp: dot_def dotdot_def)
  next
    case False
    then have i: "i < length t" using 1(4) by simp
    let ?x = "t ! i" and ?r = "drop (i + 1) t"
    have d: "drop b t = c @ ?x # ?r"
      unfolding c_def using i 1(3) by (metis Cons_nth_drop_Suc Suc_eq_plus1 append_take_drop_id drop_drop le_add_diff_inverse2)
    consider "?x < 0x20 \<or> ?x = 0x3A" | "\<not> (?x < 0x20 \<or> ?x = 0x3A)" "\<not> IsArchivePathSeparator ?x"
      | "\<not> (?x < 0x20 \<or> ?x = 0x3A)" "IsArchivePathSeparator ?x" by blast
    then show ?thesis
    proof cases
      case 1
      then have "\<not> safe_loop t b i" using i by (subst safe_loop.simps) (simp add: Let_def)
      moreover have "\<not> safe_text (drop b t)" unfolding d safe_text_def using 1 by auto
      ultimately show ?thesis by simp
    next
      case 2
      have "take (i + 1 - b) (drop b t) = c @ [?x]"
        unfolding c_def using i 1(3) by (simp add: Suc_diff_le take_Suc_conv_app_nth)
      then have "safe_loop t b (i + 1) = safe_text (drop b t)"
        using 1(1) i 2 1(3) c by (auto simp: list_all_iff)
      then show ?thesis using i 2 by (subst safe_loop.simps) (simp add: Let_def)
    next
      case 3
      have r: "safe_loop t (i + 1) (i + 1) = safe_text ?r" if "c \<noteq> []" "\<not> (c = [DOT] \<or> c = [DOT, DOT])"
        using 1(2) i 3 that len by (auto simp: c_def)
      have "safe_loop t b i = (\<not> (i - b = 0) \<and> \<not> (c = [DOT] \<or> c = [DOT, DOT]) \<and> safe_loop t (i + 1) (i + 1))"
        using i 3 by (subst safe_loop.simps) (simp add: Let_def c_def)
      moreover have "pieces IsArchivePathSeparator (drop b t) = c # pieces IsArchivePathSeparator ?r"
        unfolding d by (rule pieces_segment_first) (use c(1) 3 in auto)
      moreover have "list_all (\<lambda>ch. \<not> (ch < 0x20 \<or> ch = 0x3A)) (drop b t)
        = list_all (\<lambda>ch. \<not> (ch < 0x20 \<or> ch = 0x3A)) ?r"
        unfolding d using c(2) 3 by (auto simp: list_all_iff)
      ultimately show ?thesis using r len by (auto simp: safe_text_def dot_def dotdot_def)
    qed
  qed
qed

lemma IsSafeArchiveRelativePath_eq: "IsSafeArchiveRelativePath t = safe_text t"
proof (cases "t = [] \<or> IsArchivePathSeparator (hd t)")
  case True
  then have "[] \<in> set (pieces IsArchivePathSeparator t)" by (cases t) auto
  then show ?thesis using True by (auto simp: IsSafeArchiveRelativePath_def safe_text_def list_all_iff)
next
  case False
  then show ?thesis using safe_loop_eq [of 0 0 t] by (simp add: IsSafeArchiveRelativePath_def)
qed

lemma pieces_join: "join SLASH (pieces IsSeparator t) = t"
proof (induction t)
  case (Cons x t)
  obtain p ps where p: "pieces IsSeparator t = p # ps" by (cases "pieces IsSeparator t") auto
  then show ?case using Cons by (cases ps) (auto simp: IsSeparator_def [of x])
qed simp

lemma safe_member:
  assumes "IsSafeArchiveRelativePath m"
  shows "names (segments m)" "segments m \<noteq> []" "m = path_text False (segments m)"
proof -
  have p: "p \<notin> {[], dot, dotdot}" if "p \<in> set (pieces IsSeparator m)" for p
  proof -
    have "set (pieces IsArchivePathSeparator p) \<subseteq> set (pieces IsArchivePathSeparator m)"
      by (rule pieces_coarser [OF _ that]) (simp add: IsSeparator_def IsArchivePathSeparator_def)
    moreover have "pieces IsArchivePathSeparator p = [p]" if "p \<in> {[], dot, dotdot}"
      by (rule pieces_none) (use that in \<open>auto simp: dot_def dotdot_def DOT_def IsArchivePathSeparator_def SLASH_def\<close>)
    ultimately show ?thesis using assms by (auto simp: IsSafeArchiveRelativePath_eq safe_text_def list_all_iff)
  qed
  then have s: "segments m = pieces IsSeparator m" by (simp add: segments_def filter_id_conv)
  then show "names (segments m)" using p list_all_segments [of m] by (auto simp: names_def list_all_iff)
  show "segments m \<noteq> []" using s by simp
  show "m = path_text False (segments m)" using s pieces_join [of m] by (simp add: path_text_def)
qed

lemma path_div_member:
  assumes "IsSafeArchiveRelativePath m"
  shows "segments (path_div d m) = segments d @ segments m" "is_absolute (path_div d m) = is_absolute d"
    "path_div d m \<noteq> []"
proof -
  note s = safe_member [OF assms]
  have ne: "m \<noteq> []" using assms by (auto simp: IsSafeArchiveRelativePath_def)
  have na: "\<not> is_absolute m" using s(1,3) names_segments is_absolute_render by metis
  then show "segments (path_div d m) = segments d @ segments m" "is_absolute (path_div d m) = is_absolute d"
    using ne segments_appendComponent [of m d] by (auto simp: path_div_def is_absolute_iff)
  show "path_div d m \<noteq> []" using ne na by (simp add: path_div_def appendComponent_def)
qed

text \<open>C20: an archive member that passes \<open>IsSafeArchiveRelativePath\<close> stays below the directory it is joined to: the
  joined path names, from every working directory, what the directory names followed by the member's own
  segments, at least one, none of them \<open>.\<close> or \<open>..\<close>; and the member is its own normal form. The test itself
  accepts exactly the texts without control characters and colons whose parts between slashes and
  backslashes are all non-empty and neither \<open>.\<close> nor \<open>..\<close>.\<close>

theorem archive_member_below:
  assumes "IsSafeArchiveRelativePath m"
  shows "resolve cwd (path_div d m) = resolve cwd d @ segments m \<and> segments m \<noteq> [] \<and> names (segments m)
    \<and> lexically_normal m = m \<and> safe_text m"
proof -
  note s = safe_member [OF assms] and p = path_div_member [OF assms, of d]
  have na: "\<not> is_absolute m" using s(1,3) names_segments is_absolute_render by metis
  have "resolve cwd (path_div d m) = resolve cwd d @ segments m"
    using p(1,2) s(1) by (simp add: resolve_def enter_names)
  moreover have "lexically_normal m = m"
  proof -
    have "normal_segments False (segments m) = segments m"
      using push_normal [of False "[]" "segments m"] s(1) by (simp add: normal_segments_def normal_stackI [of _ 0 "segments m"])
    then show ?thesis using na s(2,3) by (simp add: lexically_normal_eq)
  qed
  ultimately show ?thesis using s assms by (simp add: IsSafeArchiveRelativePath_eq)
qed

theorem archive_member_below_witness:
  "IsSafeArchiveRelativePath [0x61, SLASH, 0x62]
   \<and> resolve [] (path_div [SLASH, 0x70] [0x61, SLASH, 0x62]) = [[0x70], [0x61], [0x62]]
   \<and> \<not> IsSafeArchiveRelativePath [0x61, 0x5C, DOT, DOT, 0x5C, 0x62]"
proof -
  have s: "IsSafeArchiveRelativePath [0x61, SLASH, 0x62]" by code_simp
  have e: "resolve [] [SLASH, 0x70] @ segments [0x61, SLASH, 0x62] = [[0x70], [0x61], [0x62]]" by code_simp
  have "\<not> IsSafeArchiveRelativePath [0x61, 0x5C, DOT, DOT, 0x5C, 0x62]" by code_simp
  then show ?thesis using s e archive_member_below [OF s, of "[]" "[SLASH, 0x70]"] by simp
qed

section \<open>Absolute paths and staging directories\<close>

definition LexicallyNormal :: "path \<Rightarrow> path" where
  "LexicallyNormal t = lexically_normal t"

definition AbsolutePath :: "path option \<Rightarrow> path \<Rightarrow> path option" where
  "AbsolutePath currentPath t =
     (if is_absolute t then Some (lexically_normal t)
      else case currentPath of None \<Rightarrow> None | Some cwd \<Rightarrow> Some (lexically_normal (path_div cwd t)))"

text \<open>The result of \<open>ResolveAbsolutePath\<close>: the path, or whether it failed with an error code set.\<close>

definition ResolveAbsolutePath :: "path option \<Rightarrow> path \<Rightarrow> path \<Rightarrow> bool + path" where
  "ResolveAbsolutePath currentPath baseDirectory relativeOrAbsolute =
     (if relativeOrAbsolute = [] then Inl False
      else let candidate = relativeOrAbsolute;
               candidate = (if \<not> is_absolute candidate then path_div baseDirectory candidate else candidate)
           in case AbsolutePath currentPath candidate of
                None \<Rightarrow> Inl True
              | Some absolutePath \<Rightarrow> Inr (LexicallyNormal absolutePath))"

definition stage_suffix :: "u8 list" where "stage_suffix = [0x5F, 0x73, 0x74, 0x61, 0x67, 0x65]"
definition backup_suffix :: "u8 list" where "backup_suffix = [0x5F, 0x62, 0x61, 0x63, 0x6B, 0x75, 0x70]"

definition BuildStagedDirectoryPaths :: "path \<Rightarrow> u8 list \<Rightarrow> path \<times> path" where
  "BuildStagedDirectoryPaths outputDirectory stageToken =
     (let outputParentDirectory = parent_path outputDirectory;
          stageBaseDirectory = (if outputParentDirectory = [] then outputDirectory else outputParentDirectory)
      in (path_div stageBaseDirectory ([DOT] @ stageToken @ stage_suffix),
          path_div stageBaseDirectory ([DOT] @ stageToken @ backup_suffix)))"

lemma segments_path_div:
  assumes "\<not> is_absolute t"
  shows "segments (path_div d t) = segments d @ segments t"
    "is_absolute (path_div d t) = is_absolute d"
  using segments_appendComponent [of t d] assms by (auto simp: path_div_def is_absolute_iff)

lemma resolve_path_div: "resolve cwd (path_div d t) = resolve (resolve cwd d) t"
proof (cases "is_absolute t")
  case True
  then show ?thesis by (auto simp: path_div_def resolve_def is_absolute_iff)
next
  case False
  then show ?thesis by (simp add: resolve_def segments_path_div)
qed

lemma AbsolutePath_eq:
  assumes "\<And>c. currentPath = Some c \<Longrightarrow> is_absolute c" "AbsolutePath currentPath t = Some a"
  shows "is_absolute a \<and> resolve [] a = resolve (case currentPath of None \<Rightarrow> [] | Some c \<Rightarrow> resolve [] c) t
    \<and> lexically_normal a = a"
proof (cases "is_absolute t")
  case True
  then have "resolve (case currentPath of None \<Rightarrow> [] | Some c \<Rightarrow> resolve [] c) t = resolve [] t" by (simp add: resolve_def)
  then show ?thesis using assms(2) True
    by (auto simp: AbsolutePath_def segments_normal(2) resolve_normal lexically_normal_idem)
next
  case False
  then show ?thesis using assms
    by (auto simp: AbsolutePath_def segments_normal(2) resolve_normal lexically_normal_idem segments_path_div resolve_path_div
        split: option.splits)
qed

lemma ResolveAbsolutePath_ok:
  assumes "\<And>c. currentPath = Some c \<Longrightarrow> is_absolute c" "is_absolute base" "t \<noteq> []"
  shows "\<exists>a. ResolveAbsolutePath currentPath base t = Inr a \<and> is_absolute a \<and> lexically_normal a = a
    \<and> resolve [] a = resolve (resolve [] base) t"
proof -
  let ?c = "if \<not> is_absolute t then path_div base t else t"
  have a: "is_absolute ?c" using assms(2) by (simp add: segments_path_div)
  have "resolve [] ?c = resolve (resolve [] base) t"
    by (simp add: resolve_path_div) (simp add: resolve_def)
  then show ?thesis using a assms(3)
    by (auto simp: ResolveAbsolutePath_def AbsolutePath_def LexicallyNormal_def Let_def lexically_normal_idem
        segments_normal(2) resolve_normal)
qed

text \<open>The stage and the backup directory are two different directories next to the output directory.\<close>

lemma BuildStagedDirectoryPaths_siblings:
  assumes "is_absolute out" "resolve [] out \<noteq> []" "lexically_normal out = out" "SLASH \<notin> set token"
  shows "\<exists>s b. resolve [] (fst (BuildStagedDirectoryPaths out token)) = butlast (resolve [] out) @ [s]
    \<and> resolve [] (snd (BuildStagedDirectoryPaths out token)) = butlast (resolve [] out) @ [b] \<and> s \<noteq> b"
proof -
  let ?s = "[DOT] @ token @ stage_suffix" and ?b = "[DOT] @ token @ backup_suffix"
  have r: "resolve [] (parent_path out) = butlast (resolve [] out)" "parent_path out \<noteq> []"
  proof -
    have p: "segments (parent_path out) = butlast (segments out)" "is_absolute (parent_path out)"
      using parent_path_eq [of out] assms(1) by simp_all
    have s: "segments out = resolve [] out" "names (resolve [] out)"
      using absolute_normal [OF assms(1)] assms(3) by metis+
    have "names (butlast (resolve [] out))" by (rule names_butlast [OF s(2)])
    then show "resolve [] (parent_path out) = butlast (resolve [] out)" using p s(1)
      by (simp add: resolve_def [of _ "parent_path out"] enter_names)
    show "parent_path out \<noteq> []" using p(2) by (auto simp: is_absolute_iff)
  qed
  have seg: "segment ?s" "segment ?b" using assms(4)
    by (auto simp: segment_def stage_suffix_def backup_suffix_def DOT_def SLASH_def)
  have nd: "?s \<noteq> dot" "?s \<noteq> dotdot" "?b \<noteq> dot" "?b \<noteq> dotdot"
    by (cases token; auto simp: dot_def dotdot_def stage_suffix_def backup_suffix_def)+
  have one: "resolve d (path_div p c) = resolve d p @ [c]" if "segment c" "c \<noteq> dot" "c \<noteq> dotdot" for d p c
  proof -
    have "\<not> is_absolute c" using that(1) by (cases c) (auto simp: segment_def is_absolute_iff)
    then show ?thesis using that by (simp add: resolve_path_div resolve_def [of _ c] enter_def)
  qed
  have "BuildStagedDirectoryPaths out token = (path_div (parent_path out) ?s, path_div (parent_path out) ?b)"
    using r(2) by (simp add: BuildStagedDirectoryPaths_def Let_def)
  moreover have "?s \<noteq> ?b" by (simp add: stage_suffix_def backup_suffix_def)
  ultimately show ?thesis using one [OF seg(1) nd(1,2)] one [OF seg(2) nd(3,4)] r(1)
    by (intro exI [of _ ?s] exI [of _ ?b]) simp
qed

end
