(* ===== verification/Asset_Paths.thy ===== *)
theory Asset_Paths
  imports Path_Relative Compact_String Hex_Name
begin

text \<open>
  Virtual asset paths: \<^verbatim>\<open>src/core/assets/paths.h\<close> and the resolution of the cook directories
  (\<^verbatim>\<open>src/core/assets/cook_paths.cpp\<close>). An asset below an asset root is named by the virtual root and
  its canonical path without the extension; \<open>ResolveVirtualAssetPath\<close> goes back. Log messages are left out. A
  directory listing is the list of its entries, each with the answer of \<open>is_regular_file\<close> (\<open>None\<close> for an
  error), and whether the listing ended in an error.
\<close>

section \<open>Roots\<close>

record ResolvedAssetRoot =
  root_path :: path
  virtualRoot :: ACompactString

definition s_AssetsDirectoryName :: "u8 list" where
  "s_AssetsDirectoryName = [0x61, 0x73, 0x73, 0x65, 0x74, 0x73]"

definition s_EngineVirtualRoot :: "u8 list" where
  "s_EngineVirtualRoot = [0x65, 0x6E, 0x67, 0x69, 0x6E, 0x65]"

definition s_ProjectVirtualRoot :: "u8 list" where
  "s_ProjectVirtualRoot = [0x70, 0x72, 0x6F, 0x6A, 0x65, 0x63, 0x74]"

definition s_NwbExtension :: "u8 list" where
  "s_NwbExtension = [DOT, 0x6E, 0x77, 0x62]"

section \<open>Operations\<close>

fun relative_text_loop :: "path list \<Rightarrow> u8 list \<Rightarrow> bool \<Rightarrow> (u8 list \<times> bool) option" where
  "relative_text_loop [] out hasComponent = Some (out, hasComponent)"
| "relative_text_loop (component # cs) out hasComponent =
     (let componentText = CanonicalizeText component in
      if componentText = [] \<or> componentText = [DOT] then relative_text_loop cs out hasComponent
      else if componentText = [DOT, DOT] \<or> SLASH \<in> set componentText then None
      else relative_text_loop cs ((if hasComponent then out @ [SLASH] else out) @ componentText) True)"

definition BuildRelativeAssetPathText :: "path \<Rightarrow> u8 list option" where
  "BuildRelativeAssetPathText relativePath =
     (case relative_text_loop (path_components relativePath) [] False of
        None \<Rightarrow> None
      | Some (out, hasComponent) \<Rightarrow> if hasComponent then Some out else None)"

definition ExtractAssetVirtualRoot :: "u8 list \<Rightarrow> ACompactString option" where
  "ExtractAssetVirtualRoot virtualPath =
     (case path_components virtualPath of
        [] \<Rightarrow> None
      | component # _ \<Rightarrow>
          let (ok, outVirtualRoot) = cs_assign CompactString_new component in
          if ok \<and> cs_view outVirtualRoot \<noteq> [] then Some outVirtualRoot else None)"

definition BuildDerivedAssetVirtualPathText :: "path \<Rightarrow> u8 list \<Rightarrow> path \<Rightarrow> u8 list option" where
  "BuildDerivedAssetVirtualPathText assetRoot vroot sourceOrMetaPath =
     (let relativePath = lexically_relative sourceOrMetaPath assetRoot in
      if relativePath = [] then None
      else let logicalPath = remove_extension relativePath in
        case BuildRelativeAssetPathText logicalPath of
          None \<Rightarrow> None
        | Some relativePathText \<Rightarrow>
            if length vroot > usize_max - 1 \<or> length relativePathText > usize_max - length vroot - 1 then None
            else Some (vroot @ [SLASH] @ relativePathText))"

definition BuildDerivedAssetVirtualPath :: "path \<Rightarrow> u8 list \<Rightarrow> path \<Rightarrow> NameHash option" where
  "BuildDerivedAssetVirtualPath assetRoot vroot sourceOrMetaPath =
     (case BuildDerivedAssetVirtualPathText assetRoot vroot sourceOrMetaPath of
        None \<Rightarrow> None
      | Some virtualPathText \<Rightarrow>
          let outVirtualPath = ComputeNameHash_view virtualPathText in
          if outVirtualPath = zero_hash then None else Some outVirtualPath)"

definition HasReservedAssetVirtualRoot :: "u8 list \<Rightarrow> bool" where
  "HasReservedAssetVirtualRoot virtualPath =
     (case ExtractAssetVirtualRoot virtualPath of
        None \<Rightarrow> False
      | Some vroot \<Rightarrow> cs_view vroot = s_EngineVirtualRoot \<or> cs_view vroot = s_ProjectVirtualRoot)"

fun resolve_components :: "path list \<Rightarrow> path \<Rightarrow> path option" where
  "resolve_components [] out = Some out"
| "resolve_components (component # cs) out =
     (let componentText = CanonicalizeText component in
      if componentText = [] \<or> componentText = [DOT] \<or> componentText = [DOT, DOT] \<or> SLASH \<in> set componentText then None
      else resolve_components cs (path_div out componentText))"

definition ResolveVirtualAssetPath :: "ResolvedAssetRoot list \<Rightarrow> u8 list \<Rightarrow> path option" where
  "ResolveVirtualAssetPath assetRoots virtualPath =
     (case path_components virtualPath of
        [] \<Rightarrow> None
      | component # rest \<Rightarrow>
          let (ok, requestedVirtualRoot) = cs_assign CompactString_new component in
          if \<not> ok \<or> cs_view requestedVirtualRoot = [] then None
          else case find (\<lambda>r. cs_equal (virtualRoot r) requestedVirtualRoot) assetRoots of
                 None \<Rightarrow> None
               | Some r \<Rightarrow> map_option lexically_normal (resolve_components rest (root_path r)))"

text \<open>The paired source of a metadata file: the one regular file beside it with its stem and another extension.\<close>

fun paired_loop :: "u8 list \<Rightarrow> (path \<times> bool option) list \<Rightarrow> path option \<Rightarrow> nat \<Rightarrow> (path option \<times> nat) option" where
  "paired_loop nwbStem [] matched matchCount = Some (matched, matchCount)"
| "paired_loop nwbStem ((candidatePath, regular) # es) matched matchCount =
     (case regular of
        None \<Rightarrow> None
      | Some isRegularFile \<Rightarrow>
          if \<not> isRegularFile then paired_loop nwbStem es matched matchCount
          else if CanonicalizeText (extension candidatePath) = s_NwbExtension then paired_loop nwbStem es matched matchCount
          else if CanonicalizeText (stem candidatePath) \<noteq> nwbStem then paired_loop nwbStem es matched matchCount
          else if matchCount + 1 > 1 then None
          else paired_loop nwbStem es (Some (lexically_normal candidatePath)) (matchCount + 1))"

definition ResolvePairedSourcePathFromMetadata ::
    "(path \<Rightarrow> (path \<times> bool option) list \<times> bool) \<Rightarrow> path \<Rightarrow> path option" where
  "ResolvePairedSourcePathFromMetadata listing nwbFilePath =
     (let parentDirectory = parent_path nwbFilePath in
      if parentDirectory = [] then None
      else let nwbStem = CanonicalizeText (stem nwbFilePath) in
        if nwbStem = [] then None
        else let (entries, errorCode) = listing parentDirectory in
          if entries \<noteq> [] \<and> errorCode then None
          else case paired_loop nwbStem entries None 0 of
            None \<Rightarrow> None
          | Some (matched, matchCount) \<Rightarrow>
              if errorCode then None else if matchCount = 0 then None else matched)"

text \<open>The directories of a cook: \<open>currentPath\<close> is the working directory, \<open>ensure\<close> the outcome of creating the
  cache directory.\<close>

record AssetCookOptions =
  opt_repoRoot :: "u8 list"
  opt_assetRoots :: "(u8 list \<times> ACompactString) list"
  opt_outputDirectory :: "u8 list"
  opt_cacheDirectory :: "u8 list"

record ResolvedCookPaths =
  repoRoot :: path
  assetRoots :: "ResolvedAssetRoot list"
  outputDirectory :: path
  cacheDirectory :: path

fun resolve_roots :: "path option \<Rightarrow> path \<Rightarrow> (u8 list \<times> ACompactString) list \<Rightarrow> ResolvedAssetRoot list option" where
  "resolve_roots currentPath repo [] = Some []"
| "resolve_roots currentPath repo ((rootText, vroot) # rs) =
     (if cs_view vroot \<noteq> s_EngineVirtualRoot \<and> cs_view vroot \<noteq> s_ProjectVirtualRoot then None
      else case ResolveAbsolutePath currentPath repo rootText of
        Inl _ \<Rightarrow> None
      | Inr resolvedAssetRoot \<Rightarrow>
          if CanonicalizeText (filename resolvedAssetRoot) \<noteq> s_AssetsDirectoryName then None
          else map_option (\<lambda>roots. \<lparr>root_path = resolvedAssetRoot, virtualRoot = vroot\<rparr> # roots)
                 (resolve_roots currentPath repo rs))"

definition default_cache :: "u8 list" where
  "default_cache = [0x5F, 0x5F, 0x62, 0x75, 0x69, 0x6C, 0x64, 0x5F, 0x6F, 0x62, 0x6A, SLASH,
     0x61, 0x73, 0x73, 0x65, 0x74, 0x5F, 0x63, 0x61, 0x63, 0x68, 0x65]"

definition ResolveCookPaths ::
    "path option \<Rightarrow> (path \<Rightarrow> bool) \<Rightarrow> AssetCookOptions \<Rightarrow> ResolvedCookPaths option" where
  "ResolveCookPaths currentPath ensure options =
     (if opt_assetRoots options = [] then None
      else if opt_outputDirectory options = [] then None
      else let start = (if opt_repoRoot options = [] then [DOT] else opt_repoRoot options) in
        case AbsolutePath currentPath start of
          None \<Rightarrow> None
        | Some absolute \<Rightarrow>
            let repo = lexically_normal absolute in
            case resolve_roots currentPath repo (opt_assetRoots options) of
              None \<Rightarrow> None
            | Some roots \<Rightarrow>
                (case ResolveAbsolutePath currentPath repo (opt_outputDirectory options) of
                   Inl _ \<Rightarrow> None
                 | Inr outDir \<Rightarrow>
                     let requested = (if opt_cacheDirectory options = [] then path_div repo default_cache
                                      else opt_cacheDirectory options) in
                     (case ResolveAbsolutePath currentPath repo requested of
                        Inl _ \<Rightarrow> None
                      | Inr cache \<Rightarrow>
                          if \<not> ensure cache then None
                          else Some \<lparr>repoRoot = repo, assetRoots = roots, outputDirectory = outDir, cacheDirectory = cache\<rparr>)))"

section \<open>The text of a virtual path\<close>

definition logical_segments :: "path list \<Rightarrow> path list" where
  "logical_segments cs = filter (\<lambda>t. t \<noteq> [] \<and> t \<noteq> dot) (map CanonicalizeText cs)"

definition bad_segment :: "path \<Rightarrow> bool" where
  "bad_segment t = (t = dotdot \<or> SLASH \<in> set t)"

lemma join_append_one: "join d (acc @ [t]) = (if acc = [] then t else join d acc @ [d] @ t)"
  by (simp add: join_snoc)

lemma relative_text_loop_eq:
  "relative_text_loop cs (join SLASH acc) (acc \<noteq> []) =
     (if list_ex bad_segment (logical_segments cs) then None
      else Some (join SLASH (acc @ logical_segments cs), acc @ logical_segments cs \<noteq> []))"
proof (induction cs arbitrary: acc)
  case Nil
  then show ?case by (simp add: logical_segments_def)
next
  case (Cons c cs)
  let ?t = "CanonicalizeText c"
  consider "?t = [] \<or> ?t = dot" | "bad_segment ?t" "\<not> (?t = [] \<or> ?t = dot)" | "\<not> bad_segment ?t" "\<not> (?t = [] \<or> ?t = dot)"
    by blast
  then show ?case
  proof cases
    case 1
    then show ?thesis using Cons by (auto simp: logical_segments_def Let_def dot_def)
  next
    case 2
    then show ?thesis by (auto simp: logical_segments_def Let_def bad_segment_def dot_def dotdot_def)
  next
    case 3
    then have "relative_text_loop (c # cs) (join SLASH acc) (acc \<noteq> [])
      = relative_text_loop cs (join SLASH (acc @ [?t])) (acc @ [?t] \<noteq> [])"
      by (auto simp: join_append_one bad_segment_def dot_def dotdot_def Let_def)
    then show ?thesis using Cons [of "acc @ [?t]"] 3 by (simp add: logical_segments_def)
  qed
qed

lemma BuildRelativeAssetPathText_eq:
  "BuildRelativeAssetPathText t =
     (let ts = logical_segments (path_components t) in
      if list_ex bad_segment ts \<or> ts = [] then None else Some (join SLASH ts))"
  using relative_text_loop_eq [of "path_components t" "[]"]
  by (simp add: BuildRelativeAssetPathText_def Let_def)

lemma CanonicalizeText_idem [simp]: "CanonicalizeText (CanonicalizeText t) = CanonicalizeText t"
  by (simp add: CanonicalizeText_def Canonicalize_idem)

lemma logical_segments_ok:
  assumes "\<not> list_ex bad_segment (logical_segments cs)"
  shows "names (logical_segments cs)" "map CanonicalizeText (logical_segments cs) = logical_segments cs"
proof -
  show "names (logical_segments cs)"
    using assms by (auto simp: names_def list_all_iff list_ex_iff bad_segment_def logical_segments_def segment_def)
  have "CanonicalizeText t = t" if "t \<in> set (logical_segments cs)" for t
    using that by (auto simp: logical_segments_def)
  then show "map CanonicalizeText (logical_segments cs) = logical_segments cs" by (simp add: map_idI)
qed

lemma stem_segment: "segment c \<Longrightarrow> segment (stem c)"
proof -
  assume c: "segment c"
  then have f: "filename c = c" by (simp add: filename_eq)
  have "c \<noteq> []" using c by (simp add: segment_def)
  then have "extensionBeginInText c = length c \<or> 0 < extensionBeginInText c"
    using extensionBegin_spec [of c] by auto
  then show ?thesis using c f by (auto simp: stem_def segment_def Let_def dest: in_set_takeD)
qed

lemma remove_extension_render:
  assumes "list_all segment cs" "segment c"
  shows "remove_extension (path_text False (cs @ [c])) = path_text False (cs @ [stem c])"
proof -
  let ?q = "if cs = [] then [] else path_text False cs @ [SLASH]"
  have r: "path_text False (cs @ [x]) = ?q @ x" for x by (simp add: render_snoc) (simp add: path_text_def)
  have f: "filename (path_text False (cs @ [c])) = c" "filename c = c" using assms by (simp_all add: filename_eq)
  have "remove_extension (path_text False (cs @ [c])) = ?q @ stem (path_text False (cs @ [c]))"
    by (rule remove_extension_split [OF r assms(2)]) simp
  then show ?thesis using r f by (simp add: stem_def)
qed

lemma derive_segments:
  assumes "is_absolute root" "is_absolute src" "BuildDerivedAssetVirtualPathText root v src = Some vp"
  obtains ns where "resolve [] src = resolve [] root @ ns" "ns \<noteq> []"
    "\<not> list_ex bad_segment (logical_segments (butlast ns @ [stem (last ns)]))"
    "logical_segments (butlast ns @ [stem (last ns)]) \<noteq> []"
    "vp = v @ [SLASH] @ join SLASH (logical_segments (butlast ns @ [stem (last ns)]))"
proof -
  obtain pre pr br where s: "resolve [] src = pre @ pr" "resolve [] root = pre @ br"
    "pr = [] \<or> br = [] \<or> hd pr \<noteq> hd br" by (rule common_split)
  let ?cs = "replicate (length br) dotdot @ pr"
  have "names pr" using absolute_normal(1) [OF assms(2), of "[]"] s(1) by simp
  then have l: "list_all segment ?cs" using names_segments [of pr] by (auto simp: list_all_iff)
  have rel: "lexically_relative src root = (if ?cs = [] then [DOT] else path_text False ?cs)"
    using relative_segments [OF assms(2,1) s] by (simp add: Let_def)
  have sdot: "stem dotdot = dot" "stem dot = dot" by code_simp+
  have clog: "logical_segments [dot] = []"
    by (simp add: logical_segments_def CanonicalizeText_def dot_def DOT_def) code_simp
  obtain ds d where ds: "(if ?cs = [] then [dot] else ?cs) = ds @ [d]" by (cases "if ?cs = [] then [dot] else ?cs" rule: rev_cases) (auto split: if_splits)
  have "list_all segment (ds @ [d])" unfolding ds [symmetric] using l by simp
  then have lds: "list_all segment ds" "segment d" by simp_all
  have rel2: "lexically_relative src root = path_text False (ds @ [d])"
    using rel ds by (auto simp: path_text_def dot_def)
  have comps: "path_components (remove_extension (lexically_relative src root)) = ds @ [stem d]"
    unfolding rel2 remove_extension_render [OF lds] path_components_eq
    using lds stem_segment [OF lds(2)] by simp
  have ne: "lexically_relative src root \<noteq> []" unfolding rel2 using lds by (simp add: render_Nil_iff)
  let ?ts = "logical_segments (ds @ [stem d])"
  have ok: "\<not> list_ex bad_segment ?ts" "?ts \<noteq> []" "vp = v @ [SLASH] @ join SLASH ?ts"
    using assms(3) ne unfolding BuildDerivedAssetVirtualPathText_def Let_def BuildRelativeAssetPathText_eq comps
    by (auto split: if_splits)
  have dd: "dotdot \<notin> set ds"
  proof
    assume "dotdot \<in> set ds"
    moreover have "CanonicalizeText dotdot = dotdot" by code_simp
    ultimately have "dotdot \<in> set ?ts" by (force simp: logical_segments_def dotdot_def dot_def)
    then show False using ok(1) by (auto simp: list_ex_iff bad_segment_def)
  qed
  have cs: "?cs \<noteq> []"
  proof
    assume "?cs = []"
    then show False using ds ok(2) clog sdot by (cases ds) auto
  qed
  have "br = []"
  proof (rule ccontr)
    assume b: "br \<noteq> []"
    then have "ds = [] \<or> hd ds = dotdot" using ds cs by (cases br; cases ds) auto
    then have "ds = []" using dd by (metis hd_in_set)
    then have "d = dotdot" using ds cs b by (cases br) auto
    then show False using ok(2) clog sdot \<open>ds = []\<close> by simp
  qed
  then have "pr \<noteq> []" "ds = butlast pr" "d = last pr" using cs ds by (auto simp: butlast_append)
  then show thesis using that [of pr] ok s \<open>br = []\<close> by simp
qed

section \<open>Back from a virtual path\<close>

lemma resolve_components_eq:
  assumes "names ts" "map CanonicalizeText ts = ts"
  shows "\<exists>p. resolve_components ts out = Some p \<and> resolve cwd p = resolve cwd out @ ts \<and> is_absolute p = is_absolute out"
  using assms
proof (induction ts arbitrary: out)
  case (Cons t ts)
  have t: "segment t" "t \<noteq> dot" "t \<noteq> dotdot" "CanonicalizeText t = t" using Cons.prems by auto
  then have na: "\<not> is_absolute t" by (cases t) (auto simp: segment_def is_absolute_iff)
  have "resolve cwd (path_div out t) = resolve cwd out @ [t]" "is_absolute (path_div out t) = is_absolute out"
    using t na by (simp_all add: resolve_path_div segments_path_div) (simp add: resolve_def enter_def)
  then show ?case using Cons.IH [of "path_div out t"] Cons.prems t
    by (auto simp: Let_def segment_def dot_def dotdot_def)
qed simp

lemma virtual_components:
  assumes "segment v" "list_all segment ts" "ts \<noteq> []"
  shows "path_components (v @ [SLASH] @ join SLASH ts) = v # ts"
proof -
  have r: "v @ [SLASH] @ join SLASH ts = path_text False (v # ts)" using assms(3) by (cases ts) (simp_all add: path_text_def)
  show ?thesis unfolding r path_components_eq using assms by simp
qed

lemma assign_view:
  assumes "cs_inv v"
  shows "fst (cs_assign CompactString_new (cs_view v))" "cs_view (snd (cs_assign CompactString_new (cs_view v))) = cs_view v"
proof -
  have "length (cs_view v) \<le> s_MaxLength" using assms by (auto simp: cs_inv_def cs_view_def)
  moreover have "0 \<notin> set (cs_view v)" using assms by (auto simp: cs_inv_def is_canonical_def)
  moreover have "map Canonicalize (cs_view v) = cs_view v"
    by (rule map_idI) (use assms in \<open>auto simp: cs_inv_def is_canonical_def Canonicalize_def ToAsciiLower_def\<close>)
  ultimately show "fst (cs_assign CompactString_new (cs_view v))"
    "cs_view (snd (cs_assign CompactString_new (cs_view v))) = cs_view v"
    using cs_assign_ok [OF cs_inv_new, of "cs_view v"] by simp_all
qed

text \<open>C22: deriving the virtual path of a source file and resolving it again ends at the file, without its extension
  and in canonical letters. When \<open>BuildDerivedAssetVirtualPathText\<close> succeeds for a source and the root \<open>r\<close> that
  \<open>ResolveVirtualAssetPath\<close> finds under its virtual root, the source lies below \<open>r\<close>; and the text it gives
  resolves to the normal path of \<open>r\<close> followed by the canonical segments of the source below \<open>r\<close>, the last one
  cut to its stem (a segment that is just \<open>.\<close> is left out). So it never resolves outside the root.\<close>

theorem asset_path_roundtrip:
  assumes "is_absolute (root_path r)" "is_absolute src" "cs_inv (virtualRoot r)" "segment (cs_view (virtualRoot r))"
    and "find (\<lambda>q. cs_equal (virtualRoot q) (virtualRoot r)) roots = Some r"
    and "BuildDerivedAssetVirtualPathText (root_path r) (cs_view (virtualRoot r)) src = Some vp"
  shows "\<exists>ns. resolve [] src = resolve [] (root_path r) @ ns \<and> ns \<noteq> []
    \<and> vp = path_text False (cs_view (virtualRoot r) # logical_segments (butlast ns @ [stem (last ns)]))
    \<and> ResolveVirtualAssetPath roots vp
      = Some (path_text True (resolve [] (root_path r) @ logical_segments (butlast ns @ [stem (last ns)])))"
proof -
  let ?v = "cs_view (virtualRoot r)"
  obtain ns where ns: "resolve [] src = resolve [] (root_path r) @ ns" "ns \<noteq> []"
    and bad: "\<not> list_ex bad_segment (logical_segments (butlast ns @ [stem (last ns)]))"
    and ne: "logical_segments (butlast ns @ [stem (last ns)]) \<noteq> []"
    and vp: "vp = ?v @ [SLASH] @ join SLASH (logical_segments (butlast ns @ [stem (last ns)]))"
    by (rule derive_segments [OF assms(1,2,6)])
  define ts where "ts = logical_segments (butlast ns @ [stem (last ns)])"
  have ts: "names ts" "map CanonicalizeText ts = ts" "ts \<noteq> []" "vp = ?v @ [SLASH] @ join SLASH ts"
    using logical_segments_ok [OF bad] ne vp by (simp_all add: ts_def)
  have c: "path_components vp = ?v # ts"
    unfolding ts(4) by (rule virtual_components [OF assms(4) names_segments [OF ts(1)] ts(3)])
  obtain p where p: "resolve_components ts (root_path r) = Some p" "resolve [] p = resolve [] (root_path r) @ ts" "is_absolute p"
    using resolve_components_eq [OF ts(1,2), of "root_path r" "[]"] assms(1) by auto
  obtain w where w: "cs_assign CompactString_new ?v = (True, w)" "cs_view w = ?v"
    using assign_view [OF assms(3)] by (metis prod.collapse)
  then have "find (\<lambda>q. cs_equal (virtualRoot q) w) roots = Some r" using assms(5) by (simp add: cs_equal_def)
  then have "ResolveVirtualAssetPath roots vp = Some (lexically_normal p)"
    using c w p(1) assms(4) by (simp add: ResolveVirtualAssetPath_def segment_def)
  moreover have "lexically_normal p = path_text True (resolve [] (root_path r) @ ts)" using absolute_normal(3) [OF p(3), of "[]"] p(2) by simp
  moreover have "vp = path_text False (?v # ts)" using ts(3,4) by (cases ts) (simp_all add: path_text_def)
  ultimately show ?thesis using ns by (intro exI [of _ ns]) (simp add: ts_def [symmetric])
qed

definition sample_root :: ResolvedAssetRoot where
  "sample_root = \<lparr>root_path = [SLASH, 0x61], virtualRoot = snd (cs_assign CompactString_new s_ProjectVirtualRoot)\<rparr>"

theorem asset_path_roundtrip_witness:
  "\<exists>vp. BuildDerivedAssetVirtualPathText [SLASH, 0x61] s_ProjectVirtualRoot [SLASH, 0x61, SLASH, 0x42, DOT, 0x6E] = Some vp
   \<and> ResolveVirtualAssetPath [sample_root] vp = Some [SLASH, 0x61, SLASH, 0x62]"
proof -
  have v: "cs_inv (virtualRoot sample_root) \<and> cs_view (virtualRoot sample_root) = map Canonicalize s_ProjectVirtualRoot"
    using cs_assign_ok [OF cs_inv_new, of s_ProjectVirtualRoot] by (simp add: sample_root_def s_ProjectVirtualRoot_def)
  have c: "map Canonicalize s_ProjectVirtualRoot = s_ProjectVirtualRoot" "segment s_ProjectVirtualRoot" by code_simp+
  have d: "BuildDerivedAssetVirtualPathText [SLASH, 0x61] s_ProjectVirtualRoot [SLASH, 0x61, SLASH, 0x42, DOT, 0x6E]
      = Some (s_ProjectVirtualRoot @ [SLASH, 0x62])"
  proof -
    have "lexically_relative [SLASH, 0x61, SLASH, 0x42, DOT, 0x6E] [SLASH, 0x61] = [0x42, DOT, 0x6E]" by code_simp
    moreover have "BuildRelativeAssetPathText (remove_extension [0x42, DOT, 0x6E]) = Some [0x62]" by code_simp
    ultimately show ?thesis
      by (simp add: BuildDerivedAssetVirtualPathText_def usize_max_def s_ProjectVirtualRoot_def)
  qed
  have a: "is_absolute (root_path sample_root)" "is_absolute [SLASH, 0x61, SLASH, 0x42, DOT, 0x6E]"
    by (simp_all add: sample_root_def is_absolute_iff)
  have f: "find (\<lambda>q. cs_equal (virtualRoot q) (virtualRoot sample_root)) [sample_root] = Some sample_root"
    by (simp add: cs_equal_def)
  have dv: "BuildDerivedAssetVirtualPathText (root_path sample_root) (cs_view (virtualRoot sample_root)) [SLASH, 0x61, SLASH, 0x42, DOT, 0x6E]
      = Some (s_ProjectVirtualRoot @ [SLASH, 0x62])" using d v c by (simp add: sample_root_def)
  have vs: "segment (cs_view (virtualRoot sample_root))" using v c by simp
  obtain ns where ns: "resolve [] [SLASH, 0x61, SLASH, 0x42, DOT, 0x6E] = resolve [] (root_path sample_root) @ ns"
    "ResolveVirtualAssetPath [sample_root] (s_ProjectVirtualRoot @ [SLASH, 0x62])
      = Some (path_text True (resolve [] (root_path sample_root) @ logical_segments (butlast ns @ [stem (last ns)])))"
    using asset_path_roundtrip [OF a(1) a(2) conjunct1 [OF v] vs f dv] by blast
  have r: "resolve [] [SLASH, 0x61, SLASH, 0x42, DOT, 0x6E] = [[0x61], [0x42, DOT, 0x6E]]"
    "resolve [] [SLASH, 0x61] = [[0x61]]" by code_simp+
  then have "ns = [[0x42, DOT, 0x6E]]" using ns(1) by (simp add: sample_root_def)
  moreover have "path_text True ([[0x61]] @ logical_segments (butlast [[0x42, DOT, 0x6E]] @ [stem (last [[0x42, DOT, 0x6E]])]))
    = [SLASH, 0x61, SLASH, 0x62]" by code_simp
  ultimately show ?thesis using ns(2) d r by (simp add: sample_root_def)
qed

end
