(* ===== verification/Host_Tree.thy ===== *)
theory Host_Tree
  imports Path_Relative "HOL-Library.AList"
begin

text \<open>
  The host's directory tree and the operations of \<^verbatim>\<open>src/global/filesystem/operations.h\<close> and
  \<^verbatim>\<open>directory_iterator.h\<close> that work on it, as compiled for POSIX. The tree is the list of its entries
  under their locations, the names from the root; the system calls have their documented effect on it, or
  fail when the next of \<open>faults\<close> says so (a failing write leaves that many bytes behind). There are no
  symbolic links, so \<open>stat\<close> and \<open>lstat\<close> agree. An \<open>ErrorCode\<close> is whether it is set; an operation returns
  its value, its error and the host.
\<close>

section \<open>The host\<close>

datatype node = Dir | Regular "u8 list"

type_synonym location = "path list"

record Host =
  entries :: "(location \<times> node) list"
  cwd :: location
  faults :: "nat option list"

definition os_call :: "Host \<Rightarrow> nat option \<times> Host" where
  "os_call h = (case faults h of [] \<Rightarrow> (None, h) | f # fs \<Rightarrow> (f, h\<lparr>faults := fs\<rparr>))"

definition node_at :: "Host \<Rightarrow> location \<Rightarrow> node option" where
  "node_at h p = (if p = [] then Some Dir else map_of (entries h) p)"

definition put_node :: "location \<Rightarrow> node \<Rightarrow> Host \<Rightarrow> Host" where
  "put_node p n h = h\<lparr>entries := AList.update p n (entries h)\<rparr>"

definition drop_node :: "location \<Rightarrow> Host \<Rightarrow> Host" where
  "drop_node p h = h\<lparr>entries := AList.delete p (entries h)\<rparr>"

text \<open>The lookup of a path: every directory that is walked through must be there. A trailing separator asks
  for a directory.\<close>

fun walk :: "Host \<Rightarrow> location \<Rightarrow> path list \<Rightarrow> location option" where
  "walk h d [] = Some d"
| "walk h d (c # cs) = (if node_at h d = Some Dir then walk h (enter d c) cs else None)"

definition locate :: "Host \<Rightarrow> path \<Rightarrow> location option" where
  "locate h t =
     (if t = [] then None
      else walk h (if is_absolute t then [] else cwd h) (segments t @ (if has_filename t then [] else [dot])))"

definition lookup :: "Host \<Rightarrow> path \<Rightarrow> node option" where
  "lookup h t = (case locate h t of None \<Rightarrow> None | Some p \<Rightarrow> node_at h p)"

text \<open>What \<open>readdir\<close> yields for a directory.\<close>

definition child_names :: "Host \<Rightarrow> location \<Rightarrow> path list" where
  "child_names h p = map last (filter (\<lambda>q. q \<noteq> [] \<and> butlast q = p) (map fst (entries h)))"

definition readdir_names :: "Host \<Rightarrow> location \<Rightarrow> path list" where
  "readdir_names h p = dot # dotdot # child_names h p"

section \<open>Queries\<close>

definition StatPath :: "path \<Rightarrow> Host \<Rightarrow> node option \<times> bool \<times> Host" where
  "StatPath t h = (let (f, h1) = os_call h in
     case f of Some _ \<Rightarrow> (None, True, h1) | None \<Rightarrow> (lookup h1 t, False, h1))"

definition FileExists_at :: "path \<Rightarrow> Host \<Rightarrow> bool \<times> bool \<times> Host" where
  "FileExists_at t h = (let (n, e, h1) = StatPath t h in (n \<noteq> None, e, h1))"

definition IsDirectory_at :: "path \<Rightarrow> Host \<Rightarrow> bool \<times> bool \<times> Host" where
  "IsDirectory_at t h = (let (n, e, h1) = StatPath t h in (n = Some Dir, e, h1))"

definition IsDirectoryNoFollow_at :: "path \<Rightarrow> Host \<Rightarrow> bool \<times> bool \<times> Host" where
  "IsDirectoryNoFollow_at t h = (let (n, e, h1) = StatPath t h in (n = Some Dir, e, h1))"

definition IsRegularFile_at :: "path \<Rightarrow> Host \<Rightarrow> bool \<times> bool \<times> Host" where
  "IsRegularFile_at t h = (let (n, e, h1) = StatPath t h in (case n of Some (Regular _) \<Rightarrow> True | _ \<Rightarrow> False, e, h1))"

definition IsRootComponent :: "path \<Rightarrow> bool" where
  "IsRootComponent t = (length t \<noteq> 0 \<and> length t = RootDirectoryLength t)"

section \<open>Creating directories\<close>

definition CreateDirectorySingle :: "path \<Rightarrow> Host \<Rightarrow> bool \<times> bool \<times> Host" where
  "CreateDirectorySingle t h = (let (f, h1) = os_call h in
     case f of Some _ \<Rightarrow> (False, True, h1)
     | None \<Rightarrow> (case locate h1 t of
                  None \<Rightarrow> (False, True, h1)
                | Some p \<Rightarrow> if node_at h1 p \<noteq> None then (False, False, h1) else (True, False, put_node p Dir h1)))"

fun create_loop :: "path list \<Rightarrow> path \<Rightarrow> bool \<Rightarrow> Host \<Rightarrow> bool \<times> bool \<times> Host" where
  "create_loop [] current createdAny h = (createdAny, False, h)"
| "create_loop (component # cs) current createdAny h =
     (if IsRootComponent component then create_loop cs component createdAny h
      else let current = (if current = [] then component else path_div current component);
               (directory, err, h1) = IsDirectory_at current h
           in if directory then create_loop cs current createdAny h1
              else if err then (False, True, h1)
              else let (created, err2, h2) = CreateDirectorySingle current h1
                   in if err2 then (False, True, h2)
                      else create_loop cs current (createdAny \<or> created) h2)"

definition CreateDirectories_at :: "path \<Rightarrow> Host \<Rightarrow> bool \<times> bool \<times> Host" where
  "CreateDirectories_at t h =
     (if t = [] then (False, False, h)
      else create_loop (path_components (lexically_normal t)) [] False h)"

definition EnsureDirectories_at :: "path \<Rightarrow> Host \<Rightarrow> bool \<times> bool \<times> Host" where
  "EnsureDirectories_at t h = (let (created, err, h1) = CreateDirectories_at t h in
     if created then (True, err, h1) else (\<not> err, err, h1))"

section \<open>Listing directories\<close>

text \<open>\<open>DirectoryIterator::collect\<close>: the calls of \<open>readdir\<close>, one more for the end, and \<open>closedir\<close>.\<close>

fun read_entries :: "path \<Rightarrow> path list \<Rightarrow> path list \<Rightarrow> Host \<Rightarrow> path list \<times> bool \<times> Host" where
  "read_entries t [] acc h = (let (f, h1) = os_call h in (acc, f \<noteq> None, h1))"
| "read_entries t (fileName # ns) acc h =
     (let (f, h1) = os_call h in
      if f \<noteq> None then (acc, True, h1)
      else if fileName = dot \<or> fileName = dotdot then read_entries t ns acc h1
      else read_entries t ns (acc @ [path_div t fileName]) h1)"

definition DirectoryIterator :: "path \<Rightarrow> Host \<Rightarrow> path list \<times> bool \<times> Host" where
  "DirectoryIterator t h = (let (f, h1) = os_call h in
     case locate h1 t of None \<Rightarrow> ([], True, h1)
     | Some p \<Rightarrow>
         if f \<noteq> None \<or> node_at h1 p \<noteq> Some Dir then ([], True, h1)
         else let (es, err, h2) = read_entries t (readdir_names h1 p) [] h1; (g, h3) = os_call h2
              in (es, err \<or> g \<noteq> None, h3))"

fun collect_loop :: "(path \<Rightarrow> path list \<Rightarrow> Host \<Rightarrow> path list \<times> bool \<times> Host) \<Rightarrow> path list \<Rightarrow> path list \<Rightarrow> Host
    \<Rightarrow> path list \<times> bool \<times> Host" where
  "collect_loop rec [] acc h = (acc, False, h)"
| "collect_loop rec (e # es) acc h =
     (let (isDirectory, directoryError, h1) = IsDirectoryNoFollow_at e h in
      if directoryError then (acc @ [e], True, h1)
      else if isDirectory then
        let (acc2, err, h2) = rec e (acc @ [e]) h1 in
        if err then (acc2, True, h2) else collect_loop rec es acc2 h2
      else collect_loop rec es (acc @ [e]) h1)"

text \<open>The recursion into subdirectories has the depth of the tree as its fuel; \<open>host_depth\<close> is one more than the
  length of the longest location.\<close>

primrec collect :: "nat \<Rightarrow> path \<Rightarrow> path list \<Rightarrow> Host \<Rightarrow> path list \<times> bool \<times> Host" where
  "collect 0 t acc h = (acc, True, h)"
| "collect (Suc n) t acc h =
     (let (es, err, h1) = DirectoryIterator t h in
      if err then (acc, True, h1) else collect_loop (collect n) es acc h1)"

definition host_depth :: "Host \<Rightarrow> nat" where
  "host_depth h = Suc (foldr max (map (length \<circ> fst) (entries h)) 0)"

definition RecursiveDirectoryIterator :: "path \<Rightarrow> Host \<Rightarrow> path list \<times> bool \<times> Host" where
  "RecursiveDirectoryIterator t h = collect (host_depth h) t [] h"

section \<open>Removing trees\<close>

fun remove_children :: "(path \<Rightarrow> Host \<Rightarrow> nat \<times> bool \<times> Host) \<Rightarrow> path \<Rightarrow> path list \<Rightarrow> nat \<Rightarrow> Host \<Rightarrow> nat \<times> bool \<times> Host" where
  "remove_children rec t [] removedCount h = (let (f, h1) = os_call h in (removedCount, f \<noteq> None, h1))"
| "remove_children rec t (nm # ns) removedCount h =
     (let (f, h1) = os_call h in
      if f \<noteq> None then (removedCount, True, h1)
      else if nm = dot \<or> nm = dotdot then remove_children rec t ns removedCount h1
      else let (k, err, h2) = rec (path_div t nm) h1 in
        if err then (removedCount + k, True, h2) else remove_children rec t ns (removedCount + k) h2)"

primrec RemoveAllImpl :: "nat \<Rightarrow> path \<Rightarrow> Host \<Rightarrow> nat \<times> bool \<times> Host" where
  "RemoveAllImpl 0 t h = (0, True, h)"
| "RemoveAllImpl (Suc n) t h =
     (let (f, h1) = os_call h in
      if f \<noteq> None then (0, True, h1)
      else case locate h1 t of None \<Rightarrow> (0, False, h1)
      | Some p \<Rightarrow>
          (case node_at h1 p of
             None \<Rightarrow> (0, False, h1)
           | Some (Regular _) \<Rightarrow>
               let (g, h2) = os_call h1 in if g \<noteq> None then (0, True, h2) else (1, False, drop_node p h2)
           | Some Dir \<Rightarrow>
               let (g, h2) = os_call h1 in
               if g \<noteq> None then (0, True, h2)
               else let (removedCount, err, h3) = remove_children (RemoveAllImpl n) t (readdir_names h2 p) 0 h2;
                        (c, h4) = os_call h3
                    in if err \<or> c \<noteq> None then (removedCount, True, h4)
                       else let (r, h5) = os_call h4
                            in if r \<noteq> None \<or> p = [] \<or> child_names h5 p \<noteq> [] then (removedCount, True, h5)
                               else (removedCount + 1, False, drop_node p h5)))"

definition RemoveAll :: "path \<Rightarrow> Host \<Rightarrow> nat \<times> bool \<times> Host" where
  "RemoveAll t h = RemoveAllImpl (host_depth h) t h"

definition RemoveAllIfExists_at :: "path \<Rightarrow> Host \<Rightarrow> bool \<times> bool \<times> Host" where
  "RemoveAllIfExists_at t h =
     (let (present, err, h1) = FileExists_at t h in
      if err \<or> \<not> present then (\<not> err, err, h1)
      else let (removedCount, err2, h2) = RemoveAll t h1 in
        if err2 then (False, True, h2)
        else if removedCount \<noteq> 0 then (True, False, h2)
        else let (stillExists, err3, h3) = FileExists_at t h2 in (\<not> err3 \<and> \<not> stillExists, err3, h3))"

definition EnsureEmptyDirectory_at :: "path \<Rightarrow> Host \<Rightarrow> bool \<times> bool \<times> Host" where
  "EnsureEmptyDirectory_at t h =
     (let (ok, err, h1) = RemoveAllIfExists_at t h in
      if \<not> ok then (False, err, h1) else EnsureDirectories_at t h1)"

section \<open>Files\<close>

definition CanRepresentStreamSize :: "nat \<Rightarrow> bool" where
  "CanRepresentStreamSize n = (n \<le> 2 ^ 63 - 1)"

text \<open>A directory can be opened for reading, but reading it fails.\<close>

definition ReadWholeBinaryFile :: "path \<Rightarrow> Host \<Rightarrow> u8 list option \<times> bool \<times> Host" where
  "ReadWholeBinaryFile t h =
     (let (n, err, h1) = StatPath t h in
      case n of None \<Rightarrow> (None, True, h1)
      | Some Dir \<Rightarrow> (None, False, h1)
      | Some (Regular bytes) \<Rightarrow>
          if length bytes > usize_max \<or> \<not> CanRepresentStreamSize (length bytes) then (None, False, h1)
          else let (f, h2) = os_call h1 in
            if f \<noteq> None then (None, False, h2)
            else if length bytes = 0 then (Some [], False, h2)
            else let (g, h3) = os_call h2 in
              if g \<noteq> None then (None, False, h3) else (Some bytes, False, h3))"

definition WriteBinaryFile :: "path \<Rightarrow> u8 list \<Rightarrow> Host \<Rightarrow> bool \<times> Host" where
  "WriteBinaryFile t bytes h =
     (let (f, h1) = os_call h in
      case locate h1 t of None \<Rightarrow> (False, h1)
      | Some p \<Rightarrow>
          if f \<noteq> None \<or> node_at h1 p = Some Dir then (False, h1)
          else let h2 = put_node p (Regular []) h1 in
            if \<not> CanRepresentStreamSize (length bytes) then (False, h2)
            else if bytes = [] then (True, h2)
            else let (g, h3) = os_call h2 in
              (case g of None \<Rightarrow> (True, put_node p (Regular bytes) h3)
               | Some k \<Rightarrow> (False, put_node p (Regular (take k bytes)) h3)))"

end
