(* ===== verification/Host_Safety.thy ===== *)
theory Host_Safety
  imports Host_Tree
begin

text \<open>
  What the operations on the host tree leave alone: a location is the lexical resolution of its path, the
  tree stays well-formed, and an operation on a path changes nothing outside the subtree it names, except
  for directories it creates on the way there. All of it holds whatever calls fail.
\<close>

section \<open>Locations\<close>

lemma os_call_keeps [simp]:
  "entries (snd (os_call h)) = entries h" "cwd (snd (os_call h)) = cwd h"
  by (auto simp: os_call_def split: list.split)

lemma os_callE:
  assumes "os_call h = (f, h1)"
  shows "entries h1 = entries h" "cwd h1 = cwd h" "node_at h1 = node_at h" "locate h1 = locate h" "lookup h1 = lookup h"
proof -
  show e: "entries h1 = entries h" and c: "cwd h1 = cwd h" using os_call_keeps [of h] assms by simp_all
  show n: "node_at h1 = node_at h" by (rule ext) (simp add: node_at_def e)
  have "walk h1 d cs = walk h d cs" for d cs by (induction cs arbitrary: d) (simp_all add: n)
  then show l: "locate h1 = locate h" by (intro ext) (simp add: locate_def c)
  show "lookup h1 = lookup h" unfolding lookup_def l n ..
qed

lemma walk_snoc:
  "walk h d (cs @ [c]) = (case walk h d cs of None \<Rightarrow> None | Some q \<Rightarrow> if node_at h q = Some Dir then Some (enter q c) else None)"
  by (induction cs arbitrary: d) (simp_all split: option.split)

lemma walk_enter: "walk h d cs = Some p \<Longrightarrow> p = foldl enter d cs"
  by (induction cs arbitrary: d) (auto split: if_splits)

lemma locate_resolve: "locate h t = Some p \<Longrightarrow> p = resolve (cwd h) t"
  by (auto simp: locate_def resolve_def enter_def dest!: walk_enter split: if_splits)

definition tree_ok :: "Host \<Rightarrow> bool" where
  "tree_ok h \<longleftrightarrow> distinct (map fst (entries h)) \<and> names (cwd h)
     \<and> (\<forall>q \<in> fst ` set (entries h). q \<noteq> [] \<and> names q \<and> node_at h (butlast q) = Some Dir)"

lemma node_at_entry: "node_at h p = Some n \<Longrightarrow> p \<noteq> [] \<Longrightarrow> p \<in> fst ` set (entries h)"
  by (auto simp: node_at_def dest: map_of_SomeD intro: rev_image_eqI)

lemma entry_node_at: "p \<in> fst ` set (entries h) \<Longrightarrow> p \<noteq> [] \<Longrightarrow> node_at h p \<noteq> None"
  by (simp add: node_at_def map_of_eq_None_iff)

lemma parent_dir: "tree_ok h \<Longrightarrow> node_at h p = Some n \<Longrightarrow> p \<noteq> [] \<Longrightarrow> names p \<and> node_at h (butlast p) = Some Dir"
  using node_at_entry by (fastforce simp: tree_ok_def)

lemma names_enter: "names d \<Longrightarrow> segment c \<Longrightarrow> names (enter d c)"
  by (auto simp: enter_def intro: names_butlast)

lemma names_resolve: "names d \<Longrightarrow> names (resolve d t)"
proof -
  have "names d \<Longrightarrow> list_all segment cs \<Longrightarrow> names (foldl enter d cs)" for d cs
    by (induction cs arbitrary: d) (auto intro: names_enter)
  then show "names d \<Longrightarrow> names (resolve d t)" using list_all_segments by (simp add: resolve_def)
qed

lemma locate_parent:
  assumes "tree_ok h" "locate h t = Some p" "p \<noteq> []"
  shows "names p" "node_at h (butlast p) = Some Dir"
proof -
  show "names p" using locate_resolve [OF assms(2)] assms(1) names_resolve by (auto simp: tree_ok_def)
  let ?cs = "segments t @ (if has_filename t then [] else [dot])"
  have w: "walk h (if is_absolute t then [] else cwd h) ?cs = Some p" "t \<noteq> []"
    using assms(2) by (auto simp: locate_def split: if_splits)
  have "?cs \<noteq> [] \<or> p = []"
  proof (cases "segments t = []")
    case True
    then have "is_absolute t" using w(2) segments_Nil_iff [of t] by (cases t) (auto simp: is_absolute_iff)
    then show ?thesis using w(1) True by (auto split: if_splits)
  qed simp
  then obtain ds c where cs: "?cs = ds @ [c]" using assms(3) by (metis rev_exhaust)
  then obtain q where q: "node_at h q = Some Dir" "p = enter q c" using w(1)
    by (auto simp: walk_snoc simp del: append_assoc split: option.splits if_splits)
  show "node_at h (butlast p) = Some Dir"
  proof (cases "c = dot \<or> c = dotdot")
    case True
    show ?thesis
    proof (cases "c = dot")
      case True
      then show ?thesis using q parent_dir [OF assms(1) q(1)] assms(3) by (simp add: enter_def)
    next
      case False
      then have p: "p = butlast q" using q(2) True by (simp add: enter_def)
      then have "node_at h p = Some Dir" using parent_dir [OF assms(1) q(1)] assms(3) by (cases "q = []") auto
      then show ?thesis using parent_dir [OF assms(1)] assms(3) by simp
    qed
  next
    case False
    then show ?thesis using q by (simp add: enter_def)
  qed
qed

section \<open>Updates\<close>

lemma node_at_put: "p \<noteq> [] \<Longrightarrow> node_at (put_node p n h) q = (if q = p then Some n else node_at h q)"
  by (simp add: node_at_def put_node_def update_conv')

lemma node_at_drop: "p \<noteq> [] \<Longrightarrow> node_at (drop_node p h) q = (if q = p then None else node_at h q)"
  by (auto simp: node_at_def drop_node_def delete_conv')

lemma cwd_put [simp]: "cwd (put_node p n h) = cwd h" "faults (put_node p n h) = faults h"
  by (simp_all add: put_node_def)

lemma cwd_drop [simp]: "cwd (drop_node p h) = cwd h" "faults (drop_node p h) = faults h"
  by (simp_all add: drop_node_def)

lemma keys_put: "fst ` set (entries (put_node p n h)) = insert p (fst ` set (entries h))"
  by (simp add: put_node_def dom_update)

lemma keys_drop: "fst ` set (entries (drop_node p h)) = fst ` set (entries h) - {p}"
  using arg_cong [OF delete_keys [of p "entries h"], of set] by (simp add: drop_node_def)

lemma tree_ok_put:
  assumes "tree_ok h" "p \<noteq> []" "names p" "node_at h (butlast p) = Some Dir" "node_at h p = Some Dir \<longrightarrow> n = Dir"
  shows "tree_ok (put_node p n h)"
proof -
  have "distinct (map fst (entries (put_node p n h)))"
    using assms(1) by (simp add: tree_ok_def put_node_def distinct_update)
  moreover have "q \<noteq> [] \<and> names q \<and> node_at (put_node p n h) (butlast q) = Some Dir"
    if "q \<in> fst ` set (entries (put_node p n h))" for q
  proof -
    have q: "q = p \<or> q \<in> fst ` set (entries h)" using that by (simp only: keys_put insert_iff)
    then have "q \<noteq> [] \<and> names q \<and> node_at h (butlast q) = Some Dir" using assms(1-4) by (auto simp: tree_ok_def)
    then show ?thesis using assms(5) by (auto simp: node_at_put [OF assms(2)])
  qed
  ultimately show ?thesis using assms(1) by (simp add: tree_ok_def)
qed

lemma tree_ok_drop:
  assumes "tree_ok h" "p \<noteq> []" "\<And>q. q \<in> fst ` set (entries h) \<Longrightarrow> q \<noteq> [] \<Longrightarrow> butlast q \<noteq> p"
  shows "tree_ok (drop_node p h)"
proof -
  have "distinct (map fst (entries (drop_node p h)))"
    using assms(1) by (simp add: tree_ok_def drop_node_def distinct_delete)
  moreover have "q \<noteq> [] \<and> names q \<and> node_at (drop_node p h) (butlast q) = Some Dir"
    if "q \<in> fst ` set (entries (drop_node p h))" for q
  proof -
    have "q \<in> fst ` set (entries h)" using that by (simp only: keys_drop Diff_iff)
    then show ?thesis using assms by (auto simp: tree_ok_def node_at_drop)
  qed
  ultimately show ?thesis using assms(1) by (simp add: tree_ok_def)
qed

section \<open>The frame of an operation\<close>

definition frame :: "location \<Rightarrow> Host \<Rightarrow> Host \<Rightarrow> bool" where
  "frame P h h' \<longleftrightarrow> cwd h' = cwd h \<and> tree_ok h'
     \<and> (\<forall>p. prefix P p \<or> node_at h' p = node_at h p
            \<or> strict_prefix p P \<and> node_at h p = None \<and> node_at h' p = Some Dir)"

lemma frame_refl: "tree_ok h \<Longrightarrow> frame P h h"
  by (simp add: frame_def)

lemma frame_trans: "frame P h h1 \<Longrightarrow> frame P h1 h2 \<Longrightarrow> frame P h h2"
  unfolding frame_def by (metis option.distinct(1))

lemma frame_ok: "frame P h h' \<Longrightarrow> tree_ok h'"
  by (simp add: frame_def)

lemma frame_cwd: "frame P h h' \<Longrightarrow> cwd h' = cwd h"
  by (simp add: frame_def)

lemma frame_call: "tree_ok h \<Longrightarrow> os_call h = (f, h1) \<Longrightarrow> frame P h h1"
  using os_callE [of h f h1] by (simp add: frame_def tree_ok_def)

lemma frame_put:
  assumes "tree_ok h" "locate h t = Some p" "p \<noteq> []" "node_at h p = Some Dir \<longrightarrow> n = Dir"
    and "prefix P p \<or> strict_prefix p P \<and> node_at h p = None \<and> n = Dir"
  shows "frame P h (put_node p n h)"
proof -
  have "tree_ok (put_node p n h)"
    using tree_ok_put [OF assms(1,3) locate_parent [OF assms(1-3)] assms(4)] .
  then show ?thesis using assms(5) by (auto simp: frame_def node_at_put [OF assms(3)])
qed

lemma frame_drop:
  assumes "tree_ok h" "p \<noteq> []" "\<And>q. q \<in> fst ` set (entries h) \<Longrightarrow> q \<noteq> [] \<Longrightarrow> butlast q \<noteq> p" "prefix P p"
  shows "frame P h (drop_node p h)"
  using tree_ok_drop [OF assms(1-3)] assms(4) by (auto simp: frame_def node_at_drop [OF assms(2)])

lemma frame_stat: "tree_ok h \<Longrightarrow> StatPath t h = (n, e, h1) \<Longrightarrow> frame P h h1"
  by (auto simp: StatPath_def intro: frame_call split: prod.splits option.splits)

lemma frame_queries:
  assumes "tree_ok h"
  shows "FileExists_at t h = (b, e, h1) \<Longrightarrow> frame P h h1" "IsDirectory_at t h = (b, e, h1) \<Longrightarrow> frame P h h1"
  using frame_stat [OF assms] by (auto simp: FileExists_at_def IsDirectory_at_def split: prod.splits)

lemma frame_CreateDirectorySingle:
  assumes "tree_ok h" "CreateDirectorySingle t h = (b, e, h')"
    and "prefix P (resolve (cwd h) t) \<or> strict_prefix (resolve (cwd h) t) P"
  shows "frame P h h'"
proof -
  obtain f h1 where c: "os_call h = (f, h1)" by fastforce
  note s = os_callE [OF c] and f1 = frame_call [OF assms(1) c, of P]
  show ?thesis
  proof (cases "f = None \<and> (\<exists>p. locate h t = Some p \<and> node_at h p = None)")
    case True
    then obtain p where p: "f = None" "locate h t = Some p" "node_at h p = None" by blast
    then have "p \<noteq> []" by (auto simp: node_at_def)
    then have "frame P h1 (put_node p Dir h1)"
      using frame_ok [OF f1] p s assms(3) locate_resolve [OF p(2)] by (intro frame_put) auto
    then show ?thesis using assms(2) c p s frame_trans [OF f1] by (simp add: CreateDirectorySingle_def)
  next
    case False
    then have "h' = h1" using assms(2) c s by (auto simp: CreateDirectorySingle_def split: option.splits if_splits)
    then show ?thesis using f1 by simp
  qed
qed

lemma segment_relative: "segment c \<Longrightarrow> \<not> is_absolute c"
  by (cases c) (auto simp: segment_def is_absolute_iff)

lemma path_div_one:
  "segment c \<Longrightarrow> segments (path_div t c) = segments t @ [c] \<and> is_absolute (path_div t c) = is_absolute t
   \<and> resolve d (path_div t c) = enter (resolve d t) c"
proof -
  assume c: "segment c"
  then have "\<not> is_absolute c" by (rule segment_relative)
  then show ?thesis using c by (simp add: segments_path_div resolve_path_div) (simp add: resolve_def)
qed

lemma path_div_text:
  "list_all segment ds \<Longrightarrow> segment c \<Longrightarrow> path_div (path_text absolute ds) c = path_text absolute (ds @ [c])"
proof -
  assume ds: "list_all segment ds" and c: "segment c"
  have "c \<noteq> []" "\<not> is_absolute c" using c segment_relative by (auto simp: segment_def)
  then show ?thesis using appendComponent_render [OF ds c] by (simp add: path_div_def)
qed

lemma resolve_text: "names ds \<Longrightarrow> resolve d (path_text True ds) = ds"
  using names_segments [of ds] by (simp add: resolve_def enter_names)

lemma not_root_component: "segment c \<Longrightarrow> \<not> IsRootComponent c"
  by (cases c) (auto simp: IsRootComponent_def RootDirectoryLength_eq is_absolute_iff segment_def)

lemma frame_create_loop:
  assumes "tree_ok h" "names (ds @ cs)" "\<And>p. prefix p (ds @ cs) \<Longrightarrow> prefix P p \<or> strict_prefix p P"
    and "create_loop cs (path_text True ds) any h = (b, e, h')"
  shows "frame P h h'"
  using assms
proof (induction cs arbitrary: ds any h)
  case Nil
  then show ?case by (simp add: frame_refl)
next
  case (Cons c cs)
  have n: "names ds" "segment c" "list_all segment ds" using Cons.prems(2) names_segments [of ds] by auto
  have cur: "(if path_text True ds = [] then c else path_div (path_text True ds) c) = path_text True (ds @ [c])"
    using n(2,3) by (simp add: path_div_text) (simp add: path_text_def)
  have nc: "names (ds @ [c])" using Cons.prems(2) by simp
  have rc: "resolve d (path_text True (ds @ [c])) = ds @ [c]" for d by (rule resolve_text [OF nc])
  have side: "prefix P (ds @ [c]) \<or> strict_prefix (ds @ [c]) P" by (rule Cons.prems(3)) simp
  obtain dir err h1 where d: "IsDirectory_at (path_text True (ds @ [c])) h = (dir, err, h1)" by (metis prod_cases3)
  have f1: "frame P h h1" by (rule frame_queries(2) [OF Cons.prems(1) d])
  obtain cr err2 h2 where m: "CreateDirectorySingle (path_text True (ds @ [c])) h1 = (cr, err2, h2)" by (metis prod_cases3)
  have f2: "frame P h1 h2" by (rule frame_CreateDirectorySingle [OF frame_ok [OF f1] m]) (use rc side in auto)
  have IH: "frame P h0 h'" if "tree_ok h0" "create_loop cs (path_text True (ds @ [c])) any0 h0 = (b, e, h')" for h0 any0
    by (rule Cons.IH [OF that(1) _ _ that(2)]) (use Cons.prems(2,3) in auto)
  show ?case
  proof (cases dir)
    case True
    then show ?thesis using Cons.prems(4) cur d not_root_component [OF n(2)] IH [OF frame_ok [OF f1]] frame_trans [OF f1]
      by (simp add: Let_def)
  next
    case nd: False
    show ?thesis
    proof (cases "err \<or> err2")
      case True
      then have "h' = h1 \<or> h' = h2" using Cons.prems(4) cur d m nd not_root_component [OF n(2)]
        by (cases err) (simp_all add: Let_def)
      then show ?thesis using f1 frame_trans [OF f1 f2] by auto
    next
      case False
      then have "create_loop cs (path_text True (ds @ [c])) (any \<or> cr) h2 = (b, e, h')"
        using Cons.prems(4) cur d m nd not_root_component [OF n(2)] by (simp add: Let_def)
      then show ?thesis using IH [OF frame_ok [OF f2]] frame_trans [OF frame_trans [OF f1 f2]] by blast
    qed
  qed
qed

lemma create_components:
  assumes "is_absolute t"
  shows "create_loop (path_components (lexically_normal t)) [] any h
    = create_loop (resolve d t) (path_text True []) any h"
proof -
  have "path_components (lexically_normal t) = [SLASH] # resolve d t"
    using assms absolute_normal(2) [OF assms, of d] by (simp add: path_components_eq segments_normal(2))
  moreover have "IsRootComponent [SLASH]" by (simp add: IsRootComponent_def RootDirectoryLength_eq is_absolute_iff)
  ultimately show ?thesis by (simp add: path_text_def)
qed

lemma frame_EnsureDirectories:
  assumes "tree_ok h" "is_absolute t" "prefix P (resolve [] t) \<or> prefix (resolve [] t) P"
    and "EnsureDirectories_at t h = (ok, e, h')"
  shows "frame P h h'"
proof -
  obtain cr err h1 where c: "CreateDirectories_at t h = (cr, err, h1)" by (metis prod_cases3)
  have "t \<noteq> []" using assms(2) by (auto simp: is_absolute_iff)
  then have "create_loop (resolve [] t) (path_text True []) False h = (cr, err, h1)"
    using c create_components [OF assms(2), of False h "[]"] by (simp add: CreateDirectories_at_def)
  moreover have "prefix P p \<or> strict_prefix p P" if "prefix p (resolve [] t)" for p
    using that assms(3) by (metis prefix_order.dual_order.trans prefix_order.le_less prefix_same_cases)
  ultimately have "frame P h h1"
    using absolute_normal(1) [OF assms(2), of "[]"] by (intro frame_create_loop [OF assms(1), of "[]"]) simp_all
  moreover have "h' = h1" using assms(4) c by (auto simp: EnsureDirectories_at_def split: if_splits)
  ultimately show ?thesis by simp
qed

lemma child_names_segments: "tree_ok h \<Longrightarrow> c \<in> set (child_names h p) \<Longrightarrow> segment c \<and> c \<noteq> dot \<and> c \<noteq> dotdot"
proof -
  assume h: "tree_ok h" and "c \<in> set (child_names h p)"
  then obtain q where q: "q \<in> fst ` set (entries h)" "q \<noteq> []" "c = last q" by (auto simp: child_names_def)
  then have "names q" using h by (auto simp: tree_ok_def)
  then show ?thesis using q(2,3) by (cases q rule: rev_cases) auto
qed

lemma frame_remove_loop:
  assumes "tree_ok h" "prefix P (resolve (cwd h) t)"
    and "\<And>c. c \<in> set ns \<Longrightarrow> c = dot \<or> c = dotdot \<or> segment c"
    and "\<And>t h k e h'. tree_ok h \<Longrightarrow> prefix P (resolve (cwd h) t) \<Longrightarrow> rec t h = (k, e, h') \<Longrightarrow> frame P h h'"
    and "remove_children rec t ns n h = (k, e, h')"
  shows "frame P h h'"
  using assms(1,2,3,5)
proof (induction ns arbitrary: n h)
  case Nil
  then show ?case by (auto intro: frame_call split: prod.splits)
next
  case (Cons c ns)
  obtain f h1 where c: "os_call h = (f, h1)" by fastforce
  have f1: "frame P h h1" by (rule frame_call [OF Cons.prems(1) c])
  have p1: "prefix P (resolve (cwd h1) t)" using Cons.prems(2) frame_cwd [OF f1] by simp
  obtain kk err h2 where r: "rec (path_div t c) h1 = (kk, err, h2)" by (metis prod_cases3)
  consider "f \<noteq> None" | "f = None" "c = dot \<or> c = dotdot" | "f = None" "c \<noteq> dot" "c \<noteq> dotdot" by blast
  then show ?case
  proof cases
    case 1
    then show ?thesis using Cons.prems(4) c f1 by simp
  next
    case 2
    then have "remove_children rec t ns n h1 = (k, e, h')" using Cons.prems(4) c by auto
    then show ?thesis using Cons.IH [OF frame_ok [OF f1] p1] Cons.prems(3) frame_trans [OF f1] by simp
  next
    case 3
    then have "segment c" using Cons.prems(3) by force
    then have "resolve (cwd h1) (path_div t c) = resolve (cwd h1) t @ [c]"
      using path_div_one [of c t "cwd h1"] 3 by (simp add: enter_def)
    then have f2: "frame P h1 h2" using assms(4) [OF frame_ok [OF f1] _ r] p1 by simp
    show ?thesis
    proof (cases err)
      case True
      then show ?thesis using Cons.prems(4) c r 3 frame_trans [OF f1 f2] by simp
    next
      case False
      then have "remove_children rec t ns (n + kk) h2 = (k, e, h')" using Cons.prems(4) c r 3 by simp
      moreover have "prefix P (resolve (cwd h2) t)" using p1 frame_cwd [OF f2] by simp
      ultimately show ?thesis using Cons.IH [OF frame_ok [OF f2]] Cons.prems(3) frame_trans [OF frame_trans [OF f1 f2]]
        by simp
    qed
  qed
qed

lemma no_child: "child_names h p = [] \<Longrightarrow> q \<in> fst ` set (entries h) \<Longrightarrow> q \<noteq> [] \<Longrightarrow> butlast q \<noteq> p"
  by (auto simp: child_names_def filter_empty_conv)

lemma frame_RemoveAllImpl:
  "tree_ok h \<Longrightarrow> prefix P (resolve (cwd h) t) \<Longrightarrow> RemoveAllImpl n t h = (k, e, h') \<Longrightarrow> frame P h h'"
proof (induction n arbitrary: t h k e h')
  case 0
  then show ?case by (simp add: frame_refl)
next
  case (Suc n)
  obtain f h1 where c1: "os_call h = (f, h1)" by fastforce
  have f1: "frame P h h1" by (rule frame_call [OF Suc.prems(1) c1])
  note s1 = os_callE [OF c1]
  show ?case
  proof (cases "f = None \<and> (\<exists>p nd. locate h1 t = Some p \<and> node_at h1 p = Some nd)")
    case False
    then have "h' = h1" using Suc.prems(3) c1 by (auto split: option.splits if_splits)
    then show ?thesis using f1 by simp
  next
    case True
    then obtain p nd where p: "f = None" "locate h1 t = Some p" "node_at h1 p = Some nd" by blast
    have pp: "prefix P p" using locate_resolve [OF p(2)] Suc.prems(2) s1(2) by simp
    obtain g h2 where c2: "os_call h1 = (g, h2)" by fastforce
    have f2: "frame P h h2" by (rule frame_trans [OF f1 frame_call [OF frame_ok [OF f1] c2]])
    note s2 = os_callE [OF c2]
    show ?thesis
    proof (cases nd)
      case (Regular bs)
      have ne: "p \<noteq> []" using p(3) Regular by (auto simp: node_at_def)
      have "butlast q \<noteq> p" if "q \<in> fst ` set (entries h2)" "q \<noteq> []" for q
        using frame_ok [OF f2] that p(3) Regular s2(3) by (auto simp: tree_ok_def)
      then have "frame P h2 (drop_node p h2)" using frame_drop [OF frame_ok [OF f2] ne _ pp] by blast
      then show ?thesis using Suc.prems(3) c1 c2 p Regular f2 frame_trans [OF f2] by (auto split: if_splits)
    next
      case Dir
      show ?thesis
      proof (cases "g = None")
        case False
        then show ?thesis using Suc.prems(3) c1 c2 p Dir f2 by simp
      next
        case g: True
        obtain rk re h3 where l: "remove_children (RemoveAllImpl n) t (readdir_names h2 p) 0 h2 = (rk, re, h3)" by (metis prod_cases3)
        obtain c h4 where c4: "os_call h3 = (c, h4)" by fastforce
        obtain r h5 where c5: "os_call h4 = (r, h5)" by fastforce
        have f3: "frame P h h3"
        proof (rule frame_trans [OF f2], rule frame_remove_loop [OF frame_ok [OF f2] _ _ _ l])
          show "prefix P (resolve (cwd h2) t)" using Suc.prems(2) frame_cwd [OF f2] by simp
          show "c = dot \<or> c = dotdot \<or> segment c" if "c \<in> set (readdir_names h2 p)" for c
            using that child_names_segments [OF frame_ok [OF f2]] by (auto simp: readdir_names_def)
        qed (rule Suc.IH)
        have f4: "frame P h h4" by (rule frame_trans [OF f3 frame_call [OF frame_ok [OF f3] c4]])
        have f5: "frame P h h5" by (rule frame_trans [OF f4 frame_call [OF frame_ok [OF f4] c5]])
        have "h' = h4 \<or> h' = h5 \<or> p \<noteq> [] \<and> child_names h5 p = [] \<and> h' = drop_node p h5"
          using Suc.prems(3) c1 c2 p Dir g l c4 c5 by (auto simp: Let_def split: if_splits)
        then show ?thesis using f4 f5 frame_trans [OF f5 frame_drop [OF frame_ok [OF f5] _ _ pp]] no_child by blast
      qed
    qed
  qed
qed

lemma frame_EnsureEmptyDirectory:
  assumes "tree_ok h" "is_absolute t" "EnsureEmptyDirectory_at t h = (ok, e, h')"
  shows "frame (resolve [] t) h h'"
proof -
  let ?P = "resolve [] t"
  have r: "resolve d t = ?P" for d using assms(2) by (simp add: resolve_def)
  obtain ok1 e1 h1 where a: "RemoveAllIfExists_at t h = (ok1, e1, h1)" by (metis prod_cases3)
  obtain x1 x2 g1 where x: "FileExists_at t h = (x1, x2, g1)" by (metis prod_cases3)
  obtain y1 y2 g2 where y: "RemoveAll t g1 = (y1, y2, g2)" by (metis prod_cases3)
  obtain z1 z2 g3 where z: "FileExists_at t g2 = (z1, z2, g3)" by (metis prod_cases3)
  have k1: "frame ?P h g1" by (rule frame_queries(1) [OF assms(1) x])
  have k2: "frame ?P h g2"
    by (rule frame_trans [OF k1 frame_RemoveAllImpl [OF frame_ok [OF k1] _ y [unfolded RemoveAll_def]]]) (simp add: r [of "cwd g1"])
  have k3: "frame ?P h g3" by (rule frame_trans [OF k2 frame_queries(1) [OF frame_ok [OF k2] z]])
  have "h1 = g1 \<or> h1 = g2 \<or> h1 = g3" using a x y z by (auto simp: RemoveAllIfExists_at_def split: if_splits)
  then have f1: "frame ?P h h1" using k1 k2 k3 by blast
  show ?thesis
  proof (cases ok1)
    case True
    then have "EnsureDirectories_at t h1 = (ok, e, h')" using assms(3) a by (simp add: EnsureEmptyDirectory_at_def)
    then show ?thesis using frame_trans [OF f1 frame_EnsureDirectories [OF frame_ok [OF f1] assms(2)]] by simp
  next
    case False
    then show ?thesis using assms(3) a f1 by (simp add: EnsureEmptyDirectory_at_def)
  qed
qed

lemma frame_ReadWholeBinaryFile: "tree_ok h \<Longrightarrow> ReadWholeBinaryFile t h = (bs, e, h') \<Longrightarrow> frame P h h'"
proof -
  assume h: "tree_ok h" and r: "ReadWholeBinaryFile t h = (bs, e, h')"
  obtain n err h1 where s: "StatPath t h = (n, err, h1)" by (metis prod_cases3)
  obtain f h2 where c2: "os_call h1 = (f, h2)" by fastforce
  obtain g h3 where c3: "os_call h2 = (g, h3)" by fastforce
  have f1: "frame P h h1" by (rule frame_stat [OF h s])
  have f2: "frame P h h2" by (rule frame_trans [OF f1 frame_call [OF frame_ok [OF f1] c2]])
  have f3: "frame P h h3" by (rule frame_trans [OF f2 frame_call [OF frame_ok [OF f2] c3]])
  have "h' = h1 \<or> h' = h2 \<or> h' = h3" using r s c2 c3
    by (auto simp: ReadWholeBinaryFile_def split: option.splits node.splits if_splits)
  then show ?thesis using f1 f2 f3 by blast
qed

lemma frame_WriteBinaryFile:
  assumes "tree_ok h" "prefix P (resolve (cwd h) t)" "WriteBinaryFile t bytes h = (ok, h')"
  shows "frame P h h'"
proof -
  obtain f h1 where c1: "os_call h = (f, h1)" by fastforce
  have f1: "frame P h h1" by (rule frame_call [OF assms(1) c1])
  show ?thesis
  proof (cases "f = None \<and> (\<exists>p. locate h1 t = Some p \<and> node_at h1 p \<noteq> Some Dir)")
    case False
    then have "h' = h1" using assms(3) c1 by (auto simp: WriteBinaryFile_def split: option.splits)
    then show ?thesis using f1 by simp
  next
    case True
    then obtain p where p: "f = None" "locate h1 t = Some p" "node_at h1 p \<noteq> Some Dir" by blast
    have ne: "p \<noteq> []" using p(3) by (auto simp: node_at_def)
    have pp: "prefix P p" using locate_resolve [OF p(2)] assms(2) frame_cwd [OF f1] by simp
    note par = locate_parent [OF frame_ok [OF f1] p(2) ne]
    let ?h2 = "put_node p (Regular []) h1"
    have f2: "frame P h ?h2" by (rule frame_trans [OF f1 frame_put [OF frame_ok [OF f1] p(2) ne]]) (use p pp in auto)
    obtain g h3 where c3: "os_call ?h2 = (g, h3)" by fastforce
    have f3: "frame P h h3" by (rule frame_trans [OF f2 frame_call [OF frame_ok [OF f2] c3]])
    have put: "frame P h (put_node p (Regular x) h3)" for x
    proof (rule frame_trans [OF f3])
      note s3 = os_callE [OF c3]
      have "butlast p \<noteq> p" using ne by (metis length_butlast length_greater_0_conv less_irrefl diff_less zero_less_one)
      then have "node_at h3 (butlast p) = Some Dir" "node_at h3 p \<noteq> Some Dir"
        using s3(3) par(2) by (simp_all add: node_at_put [OF ne])
      then have "tree_ok (put_node p (Regular x) h3)" using tree_ok_put [OF frame_ok [OF f3] ne par(1)] by blast
      then show "frame P h3 (put_node p (Regular x) h3)" using pp by (auto simp: frame_def node_at_put [OF ne])
    qed
    have "h' = ?h2 \<or> (\<exists>x. h' = put_node p (Regular x) h3)"
      using assms(3) c1 c3 p by (auto simp: WriteBinaryFile_def Let_def split: option.splits if_splits)
    then show ?thesis using f2 put by auto
  qed
qed

end
