(* ===== verification/Crash_Archive.thy ===== *)
theory Crash_Archive
  imports Host_Safety
begin

text \<open>
  Crash packages: the writer \<open>BuildPackageArchive\<close> of \<^verbatim>\<open>src/core/crash/package.cpp\<close> and the reader
  \<open>ExtractCrashArchive\<close> of \<^verbatim>\<open>src/logger/server/crash_ingest.cpp\<close>, over the host tree. An archive is a header
  line and, for every file, a header with its relative path and size, its bytes and an end line.
\<close>

section \<open>Texts\<close>

definition s_ArchiveHeaderLine :: "u8 list" where
  "s_ArchiveHeaderLine = [0x4E, 0x57, 0x42, 0x43, 0x52, 0x41, 0x53, 0x48, 0x50, 0x4B, 0x47, 0x20, 0x31]"

definition s_ArchiveHeaderText :: "u8 list" where
  "s_ArchiveHeaderText = [0x4E, 0x57, 0x42, 0x43, 0x52, 0x41, 0x53, 0x48, 0x50, 0x4B, 0x47, 0x20, 0x31, LF]"

definition s_ArchiveFileHeaderPrefix :: "u8 list" where
  "s_ArchiveFileHeaderPrefix = [0x46, 0x49, 0x4C, 0x45, 0x20]"

definition s_ArchiveEntryEndLine :: "u8 list" where
  "s_ArchiveEntryEndLine = [0x45, 0x4E, 0x44]"

definition s_ArchiveEntryEndText :: "u8 list" where
  "s_ArchiveEntryEndText = [LF, 0x45, 0x4E, 0x44, LF]"

section \<open>Writing\<close>

definition AppendArchiveText :: "u8 list \<Rightarrow> u8 list \<Rightarrow> u8 list" where
  "AppendArchiveText out t = out @ t"

text \<open>The digits of a number, last first, as \<open>AppendUnsignedToFixedBuffer\<close> makes them; the 32 bytes of the buffer
  hold every 64-bit number.\<close>

definition AppendArchiveUnsigned :: "u8 list \<Rightarrow> nat \<Rightarrow> u8 list" where
  "AppendArchiveUnsigned out n = AppendArchiveText out (decimal_digits n)"

definition append_entry :: "u8 list \<Rightarrow> path \<Rightarrow> u8 list \<Rightarrow> u8 list" where
  "append_entry out pathText fileBytes =
     (let out = AppendArchiveText out s_ArchiveFileHeaderPrefix;
          out = AppendArchiveText out pathText;
          out = AppendArchiveText out [0x20];
          out = AppendArchiveUnsigned out (length fileBytes);
          out = AppendArchiveText out [LF];
          out = out @ fileBytes
      in AppendArchiveText out s_ArchiveEntryEndText)"

fun archive_loop :: "path \<Rightarrow> path list \<Rightarrow> u8 list \<Rightarrow> bool \<Rightarrow> Host \<Rightarrow> bool \<times> u8 list \<times> Host" where
  "archive_loop packageDirectory [] outArchive wroteFile h = (wroteFile, outArchive, h)"
| "archive_loop packageDirectory (e # es) outArchive wroteFile h =
     (let (regular, entryError, h1) = IsRegularFile_at e h in
      if \<not> regular \<or> entryError then archive_loop packageDirectory es outArchive wroteFile h1
      else let (fileBytes, readError, h2) = ReadWholeBinaryFile e h1 in
        case fileBytes of None \<Rightarrow> (False, outArchive, h2)
        | Some bytes \<Rightarrow>
            archive_loop packageDirectory es
              (append_entry outArchive (toGenericString True (lexically_relative e packageDirectory)) bytes) True h2)"

definition BuildPackageArchive :: "path \<Rightarrow> Host \<Rightarrow> bool \<times> u8 list \<times> Host" where
  "BuildPackageArchive packageDirectory h =
     (let outArchive = AppendArchiveText [] s_ArchiveHeaderText;
          (es, err, h1) = RecursiveDirectoryIterator packageDirectory h
      in if err then (False, outArchive, h1) else archive_loop packageDirectory es outArchive False h1)"

section \<open>Reading\<close>

fun last_space :: "u8 list \<Rightarrow> nat \<Rightarrow> nat option" where
  "last_space body 0 = None"
| "last_space body (Suc i) = (if body ! i = 0x20 then Some i else last_space body i)"

definition ParseFileHeader :: "u8 list \<Rightarrow> (path \<times> nat) option" where
  "ParseFileHeader line =
     (let n = length s_ArchiveFileHeaderPrefix in
      if length line \<le> n \<or> take n line \<noteq> s_ArchiveFileHeaderPrefix then None
      else let body = drop n line in
        case last_space body (length body) of
          None \<Rightarrow> None
        | Some split \<Rightarrow>
            if split = 0 \<or> split + 1 \<ge> length body then None
            else case ParseU64 (drop (split + 1) body) of
                   None \<Rightarrow> None
                 | Some fileSize \<Rightarrow>
                     if IsSafeArchiveRelativePath (take split body) then Some (take split body, unat fileSize) else None)"

definition WriteExtractedFile :: "path \<Rightarrow> path \<Rightarrow> u8 list \<Rightarrow> Host \<Rightarrow> bool \<times> Host" where
  "WriteExtractedFile packageDirectory relativePath bytes h =
     (let outputPath = path_div packageDirectory relativePath; outputDirectory = parent_path outputPath in
      if outputDirectory \<noteq> [] then
        let (ok, err, h1) = EnsureDirectories_at outputDirectory h in
        if \<not> ok then (False, h1) else WriteBinaryFile outputPath bytes h1
      else WriteBinaryFile outputPath bytes h)"

datatype extract_error = Unreadable_archive | Invalid_header | Directory_failed | Truncated_file_header
  | Malformed_file_header | Truncated_payload | Write_failed | Malformed_footer | No_files

lemma skip_while_ge: "i \<le> skip_while P t i"
  by (induction P t i rule: skip_while.induct) (subst skip_while.simps, auto)

lemma NextLfByteLine_progress:
  "NextLfByteLine t cursor = (Some line, cursor1) \<Longrightarrow> cursor < cursor1 \<and> cursor1 \<le> length t"
  using skip_while_ge [of cursor "\<lambda>c. c \<noteq> LF" t]
  by (auto simp: NextLfByteLine_def Let_def split: if_splits)

function extract_loop :: "u8 list \<Rightarrow> path \<Rightarrow> nat \<Rightarrow> nat \<Rightarrow> Host \<Rightarrow> extract_error option \<times> Host" where
  "extract_loop archiveBytes packageDirectory cursor fileCount h =
     (if cursor < length archiveBytes then
        case NextLfByteLine archiveBytes cursor of
          (None, _) \<Rightarrow> (Some Truncated_file_header, h)
        | (Some line, cursor1) \<Rightarrow>
            (case ParseFileHeader line of
               None \<Rightarrow> (Some Malformed_file_header, h)
             | Some (relativePath, fileSize) \<Rightarrow>
                 if cursor1 > length archiveBytes \<or> fileSize > length archiveBytes - cursor1 then (Some Truncated_payload, h)
                 else let (ok, h1) = WriteExtractedFile packageDirectory relativePath
                                       (take fileSize (drop cursor1 archiveBytes)) h in
                   if \<not> ok then (Some Write_failed, h1)
                   else case NextLfByteLine archiveBytes (cursor1 + fileSize) of
                          (None, _) \<Rightarrow> (Some Malformed_footer, h1)
                        | (Some separator, cursor2) \<Rightarrow>
                            if separator \<noteq> [] then (Some Malformed_footer, h1)
                            else (case NextLfByteLine archiveBytes cursor2 of
                                    (None, _) \<Rightarrow> (Some Malformed_footer, h1)
                                  | (Some endMarker, cursor3) \<Rightarrow>
                                      if endMarker \<noteq> s_ArchiveEntryEndLine then (Some Malformed_footer, h1)
                                      else extract_loop archiveBytes packageDirectory cursor3 (fileCount + 1) h1))
      else if fileCount = 0 then (Some No_files, h) else (None, h))"
  by pat_completeness auto
termination
  by (relation "measure (\<lambda>(archiveBytes, _, cursor, _, _). length archiveBytes - cursor)")
    (auto dest!: NextLfByteLine_progress [OF sym])

declare extract_loop.simps [simp del]

definition ExtractCrashArchive :: "path \<Rightarrow> path \<Rightarrow> Host \<Rightarrow> extract_error option \<times> Host" where
  "ExtractCrashArchive archivePath packageDirectory h =
     (let (archive, readError, h1) = ReadWholeBinaryFile archivePath h in
      case archive of None \<Rightarrow> (Some Unreadable_archive, h1)
      | Some archiveBytes \<Rightarrow>
          (case NextLfByteLine archiveBytes 0 of
             (None, _) \<Rightarrow> (Some Invalid_header, h1)
           | (Some line, cursor) \<Rightarrow>
               if line \<noteq> s_ArchiveHeaderLine then (Some Invalid_header, h1)
               else let (ok, err, h2) = EnsureEmptyDirectory_at packageDirectory h1 in
                 if \<not> ok then (Some Directory_failed, h2)
                 else extract_loop archiveBytes packageDirectory cursor 0 h2))"

section \<open>Extraction stays in its directory\<close>

lemma parent_member:
  assumes "IsSafeArchiveRelativePath m" "is_absolute d"
  shows "is_absolute (parent_path (path_div d m))" "resolve c (parent_path (path_div d m)) = resolve c d @ butlast (segments m)"
    "parent_path (path_div d m) \<noteq> []"
proof -
  note p = path_div_member [OF assms(1), of d] and m = safe_member [OF assms(1)]
  have s: "segments (parent_path (path_div d m)) = segments d @ butlast (segments m)" "is_absolute (parent_path (path_div d m))"
    using parent_path_eq [of "path_div d m"] p m(2) assms(2) by (simp_all add: butlast_append)
  then show "is_absolute (parent_path (path_div d m))" by simp
  show "resolve c (parent_path (path_div d m)) = resolve c d @ butlast (segments m)"
    using s assms(2) names_butlast [OF m(1)] by (simp add: resolve_def enter_names)
  show "parent_path (path_div d m) \<noteq> []" using s(2) by (auto simp: is_absolute_iff)
qed

lemma frame_WriteExtractedFile:
  assumes "tree_ok h" "is_absolute d" "IsSafeArchiveRelativePath m" "WriteExtractedFile d m bytes h = (ok, h')"
  shows "frame (resolve [] d) h h'"
proof -
  let ?P = "resolve [] d" and ?t = "path_div d m"
  note p = parent_member [OF assms(3,2)]
  obtain e1 e2 h1 where e: "EnsureDirectories_at (parent_path ?t) h = (e1, e2, h1)" by (metis prod_cases3)
  have f1: "frame ?P h h1" by (rule frame_EnsureDirectories [OF assms(1) p(1) _ e]) (simp add: p(2))
  have "resolve c d = ?P" for c using assms(2) by (simp add: resolve_def)
  then have r: "prefix ?P (resolve c ?t)" for c using archive_member_below [OF assms(3), of c d] by (metis prefixI)
  show ?thesis
  proof (cases e1)
    case True
    then have "WriteBinaryFile ?t bytes h1 = (ok, h')" using assms(4) e p(3) by (simp add: WriteExtractedFile_def Let_def)
    then show ?thesis using frame_trans [OF f1 frame_WriteBinaryFile [OF frame_ok [OF f1] r]] by blast
  next
    case False
    then show ?thesis using assms(4) e p(3) f1 by (simp add: WriteExtractedFile_def Let_def)
  qed
qed

lemma ParseFileHeader_safe: "ParseFileHeader line = Some (m, n) \<Longrightarrow> IsSafeArchiveRelativePath m"
  by (auto simp: ParseFileHeader_def Let_def split: if_splits option.splits)

lemma frame_extract_loop:
  assumes "is_absolute d" "tree_ok h" "extract_loop bytes d cursor n h = (r, h')"
  shows "frame (resolve [] d) h h'"
  using assms
proof (induction bytes d cursor n h rule: extract_loop.induct)
  case (1 bytes d cursor n h)
  let ?P = "resolve [] d"
  show ?case
  proof (cases "\<exists>line c1 m k. cursor < length bytes \<and> NextLfByteLine bytes cursor = (Some line, c1)
      \<and> ParseFileHeader line = Some (m, k) \<and> \<not> (c1 > length bytes \<or> k > length bytes - c1)")
    case False
    then have "h' = h" using 1(4) by (subst (asm) extract_loop.simps) (auto split: if_splits prod.splits option.splits)
    then show ?thesis using 1(3) by (simp add: frame_refl)
  next
    case True
    then obtain line c1 m k where l: "cursor < length bytes" "NextLfByteLine bytes cursor = (Some line, c1)"
      "ParseFileHeader line = Some (m, k)" "\<not> (c1 > length bytes \<or> k > length bytes - c1)" by blast
    obtain ok h1 where w: "WriteExtractedFile d m (take k (drop c1 bytes)) h = (ok, h1)" by fastforce
    have f1: "frame ?P h h1" by (rule frame_WriteExtractedFile [OF 1(3,2) ParseFileHeader_safe [OF l(3)] w])
    show ?thesis
    proof (cases "ok \<and> (\<exists>c2 c3. NextLfByteLine bytes (c1 + k) = (Some [], c2)
        \<and> NextLfByteLine bytes c2 = (Some s_ArchiveEntryEndLine, c3))")
      case True
      then obtain c2 c3 where c: "ok" "NextLfByteLine bytes (c1 + k) = (Some [], c2)"
        "NextLfByteLine bytes c2 = (Some s_ArchiveEntryEndLine, c3)" by blast
      then have "extract_loop bytes d c3 (n + 1) h1 = (r, h')"
        using 1(4) l w by (subst (asm) extract_loop.simps) simp
      then show ?thesis
        using frame_trans [OF f1] 1(1) l w c frame_ok [OF f1] 1(2) by (metis (no_types, lifting))
    next
      case False
      then have "h' = h1" using 1(4) l w
        by (subst (asm) extract_loop.simps) (auto split: if_splits prod.splits option.splits)
      then show ?thesis using f1 by simp
    qed
  qed
qed

text \<open>C23: whatever bytes an archive holds and whatever system calls fail, extracting it changes nothing outside the
  package directory: every location that is not below it keeps its file or directory or its absence, except
  that missing directories above the package directory may have been created; and the tree stays
  well-formed.\<close>

theorem extraction_stays_inside:
  assumes "tree_ok h" "is_absolute packageDirectory" "ExtractCrashArchive archivePath packageDirectory h = (r, h')"
    and "\<not> prefix (resolve [] packageDirectory) p"
  shows "tree_ok h' \<and> cwd h' = cwd h
    \<and> (node_at h' p = node_at h p
       \<or> strict_prefix p (resolve [] packageDirectory) \<and> node_at h p = None \<and> node_at h' p = Some Dir)"
proof -
  let ?P = "resolve [] packageDirectory"
  obtain a e1 h1 where a: "ReadWholeBinaryFile archivePath h = (a, e1, h1)" by (metis prod_cases3)
  have f1: "frame ?P h h1" by (rule frame_ReadWholeBinaryFile [OF assms(1) a])
  obtain ok e2 h2 where e: "EnsureEmptyDirectory_at packageDirectory h1 = (ok, e2, h2)" by (metis prod_cases3)
  have f2: "frame ?P h h2" by (rule frame_trans [OF f1 frame_EnsureEmptyDirectory [OF frame_ok [OF f1] assms(2) e]])
  have "h' = h1 \<or> h' = h2 \<or> (\<exists>bytes c. extract_loop bytes packageDirectory c 0 h2 = (r, h'))"
    using assms(3) a e by (auto simp: ExtractCrashArchive_def split: option.splits prod.splits if_splits)
  then have "frame ?P h h'"
    using f1 f2 frame_trans [OF f2 frame_extract_loop [OF assms(2) frame_ok [OF f2]]] by blast
  then show ?thesis using assms(4) unfolding frame_def by blast
qed

text \<open>An archive whose only file would leave the package directory, on a host with a file in its way.\<close>

definition escaping_archive :: "u8 list" where
  "escaping_archive = s_ArchiveHeaderText @ s_ArchiveFileHeaderPrefix @ [0x2E, 0x2E, 0x2F, 0x62, 0x20, 0x31, LF, 0x58]
     @ s_ArchiveEntryEndText"

definition exposed_host :: Host where
  "exposed_host = \<lparr>entries = [([[0x61]], Regular escaping_archive), ([[0x62]], Regular [])], cwd = [], faults = []\<rparr>"

theorem extraction_stays_inside_witness:
  "node_at (snd (ExtractCrashArchive [0x2F, 0x61] [0x2F, 0x78] exposed_host)) [[0x62]] = Some (Regular [])"
proof -
  have h: "tree_ok exposed_host" "is_absolute [0x2F, 0x78]" "\<not> prefix (resolve [] [0x2F, 0x78]) [[0x62]]"
    "node_at exposed_host [[0x62]] = Some (Regular [])" "\<not> strict_prefix [[0x62]] (resolve [] [0x2F, 0x78])"
    by code_simp+
  then show ?thesis
    using extraction_stays_inside [OF h(1,2) surjective_pairing [of "ExtractCrashArchive [0x2F, 0x61] [0x2F, 0x78] exposed_host"] h(3)]
    by simp
qed

end
