(* ===== verification/Host_Effects.thy ===== *)
theory Host_Effects
  imports Host_Safety
begin

text \<open>
  What the operations on the host tree do when no system call fails: creating the directories of a path,
  listing a subtree, removing one, reading and writing a file.
\<close>

definition quiet :: "Host \<Rightarrow> bool" where
  "quiet h \<longleftrightarrow> faults h = []"

lemma quiet_call [simp]: "quiet h \<Longrightarrow> os_call h = (None, h)"
  by (simp add: quiet_def os_call_def)

lemma quiet_put [simp]: "quiet (put_node p n h) = quiet h" "quiet (drop_node p h) = quiet h"
  by (simp_all add: quiet_def)

section \<open>Paths of the tree\<close>

lemma ancestors:
  "tree_ok h \<Longrightarrow> node_at h q \<noteq> None \<Longrightarrow> strict_prefix p q \<Longrightarrow> node_at h p = Some Dir"
proof (induction q rule: rev_induct)
  case (snoc c q)
  then obtain n where "node_at h (q @ [c]) = Some n" by auto
  then have d: "node_at h q = Some Dir" using parent_dir [OF snoc.prems(1)] by fastforce
  have "p = q \<or> strict_prefix p q" using snoc.prems(3) by (auto simp: strict_prefix_def prefix_snoc)
  then show ?case using d snoc by auto
qed simp

lemma walk_text:
  "tree_ok h \<Longrightarrow> names q \<Longrightarrow> q = [] \<or> node_at h (butlast q) = Some Dir \<Longrightarrow> walk h [] q = Some q"
proof (induction q rule: rev_induct)
  case (snoc c q)
  then have d: "node_at h q = Some Dir" by simp
  then have "q = [] \<or> node_at h (butlast q) = Some Dir" using parent_dir [OF snoc.prems(1)] by blast
  then have "walk h [] q = Some q" using snoc by simp
  then show ?case using d snoc.prems(2) by (simp add: walk_snoc enter_def)
qed simp

lemma has_filename_text: "list_all segment q \<Longrightarrow> q \<noteq> [] \<Longrightarrow> has_filename (path_text True q)"
  using render_last [of q True] by (simp add: has_filename_def render_Nil_iff)

lemma locate_text:
  assumes "tree_ok h" "names q" "q = [] \<or> node_at h (butlast q) = Some Dir"
  shows "locate h (path_text True q) = Some q"
proof -
  have l: "list_all segment q" by (rule names_segments [OF assms(2)])
  show ?thesis
  proof (cases "q = []")
    case True
    have "path_text True [] = [SLASH]" "\<not> has_filename [SLASH]" by (simp_all add: path_text_def has_filename_def IsSeparator_def)
    then show ?thesis using True by (simp add: locate_def is_absolute_iff node_at_def enter_def)
  next
    case False
    then show ?thesis using walk_text [OF assms] has_filename_text [OF l False] l
      by (simp add: locate_def render_Nil_iff)
  qed
qed

lemma lookup_text: "tree_ok h \<Longrightarrow> names q \<Longrightarrow> lookup h (path_text True q) = node_at h q"
proof -
  assume h: "tree_ok h" and q: "names q"
  show ?thesis
  proof (cases "q = [] \<or> node_at h (butlast q) = Some Dir")
    case True
    then show ?thesis using locate_text [OF h q True] by (simp add: lookup_def)
  next
    case False
    then have "node_at h q = None" using parent_dir [OF h, of q] by fastforce
    moreover have "locate h (path_text True q) = None"
    proof (rule ccontr)
      assume "locate h (path_text True q) \<noteq> None"
      then obtain p where p: "locate h (path_text True q) = Some p" by blast
      then have "p = q" using locate_resolve [OF p] resolve_text [OF q] by simp
      then show False using locate_parent(2) [OF h p] False by simp
    qed
    ultimately show ?thesis by (simp add: lookup_def)
  qed
qed

section \<open>Creating directories\<close>

lemma create_loop_quiet:
  assumes "tree_ok h" "quiet h" "names (ds @ cs)" "node_at h ds = Some Dir"
    and "\<And>p. prefix p (ds @ cs) \<Longrightarrow> node_at h p \<in> {None, Some Dir}"
  shows "\<exists>b h'. create_loop cs (path_text True ds) any h = (b, False, h') \<and> quiet h' \<and> tree_ok h' \<and> cwd h' = cwd h
    \<and> (\<forall>p. node_at h' p = (if prefix p (ds @ cs) then Some Dir else node_at h p))"
  using assms
proof (induction cs arbitrary: ds any h)
  case Nil
  have "node_at h p = Some Dir" if "prefix p ds" for p
    using ancestors [OF Nil(1), of ds p] Nil(4) that by (auto simp: strict_prefix_def)
  then show ?case using Nil by auto
next
  case (Cons c cs)
  have n: "names ds" "segment c" "list_all segment ds" using Cons.prems(3) names_segments [of ds] by auto
  let ?q = "ds @ [c]"
  have cur: "(if path_text True ds = [] then c else path_div (path_text True ds) c) = path_text True ?q"
    using n(2,3) by (simp add: path_div_text) (simp add: path_text_def)
  have nq: "names ?q" using Cons.prems(3) by simp
  have look: "lookup h (path_text True ?q) = node_at h ?q" by (rule lookup_text [OF Cons.prems(1) nq])
  have loc: "locate h (path_text True ?q) = Some ?q" by (rule locate_text [OF Cons.prems(1) nq]) (use Cons.prems(4) in simp)
  have isd: "IsDirectory_at (path_text True ?q) h = (node_at h ?q = Some Dir, False, h)"
    using Cons.prems(2) look by (simp add: IsDirectory_at_def StatPath_def)
  have at: "node_at h ?q = None \<or> node_at h ?q = Some Dir" using Cons.prems(5) [of ?q] by simp
  show ?case
  proof (cases "node_at h ?q = Some Dir")
    case True
    have "\<exists>b h'. create_loop cs (path_text True ?q) any h = (b, False, h') \<and> quiet h' \<and> tree_ok h' \<and> cwd h' = cwd h
      \<and> (\<forall>p. node_at h' p = (if prefix p (?q @ cs) then Some Dir else node_at h p))"
      by (rule Cons.IH) (use Cons.prems True in auto)
    then show ?thesis using isd True cur not_root_component [OF n(2)] by simp
  next
    case False
    then have none: "node_at h ?q = None" using at by simp
    let ?h = "put_node ?q Dir h"
    have mk: "CreateDirectorySingle (path_text True ?q) h = (True, False, ?h)"
      using Cons.prems(2) loc none by (simp add: CreateDirectorySingle_def)
    have ok: "tree_ok ?h" using tree_ok_put [OF Cons.prems(1) _ nq, of Dir] Cons.prems(4) none by simp
    have at2: "node_at ?h p = (if p = ?q then Some Dir else node_at h p)" for p by (rule node_at_put) simp
    have "\<exists>b h'. create_loop cs (path_text True ?q) (any \<or> True) ?h = (b, False, h') \<and> quiet h' \<and> tree_ok h' \<and> cwd h' = cwd ?h
      \<and> (\<forall>p. node_at h' p = (if prefix p (?q @ cs) then Some Dir else node_at ?h p))"
      by (rule Cons.IH) (use Cons.prems ok at2 in auto)
    then obtain b h' where r: "create_loop cs (path_text True ?q) True ?h = (b, False, h')" "quiet h'" "tree_ok h'" "cwd h' = cwd h"
      "\<And>p. node_at h' p = (if prefix p (?q @ cs) then Some Dir else node_at ?h p)" by auto
    have "node_at h' p = (if prefix p (ds @ c # cs) then Some Dir else node_at h p)" for p
      using r(5) [of p] at2 [of p] by auto
    then show ?thesis using r isd mk none cur not_root_component [OF n(2)] by simp
  qed
qed

lemma EnsureDirectories_quiet:
  assumes "tree_ok h" "quiet h" "is_absolute t"
    and "\<And>p. prefix p (resolve [] t) \<Longrightarrow> node_at h p \<in> {None, Some Dir}"
  shows "\<exists>h'. EnsureDirectories_at t h = (True, False, h') \<and> quiet h' \<and> tree_ok h' \<and> cwd h' = cwd h
    \<and> (\<forall>p. node_at h' p = (if prefix p (resolve [] t) then Some Dir else node_at h p))"
proof -
  have "t \<noteq> []" using assms(3) by (auto simp: is_absolute_iff)
  moreover have "\<exists>b h'. create_loop (resolve [] t) (path_text True []) False h = (b, False, h') \<and> quiet h' \<and> tree_ok h' \<and> cwd h' = cwd h
    \<and> (\<forall>p. node_at h' p = (if prefix p ([] @ resolve [] t) then Some Dir else node_at h p))"
    by (rule create_loop_quiet [OF assms(1,2)])
      (use absolute_normal(1) [OF assms(3), of "[]"] assms(4) in \<open>auto simp: node_at_def\<close>)
  ultimately show ?thesis using create_components [OF assms(3), of False h "[]"]
    by (auto simp: EnsureDirectories_at_def CreateDirectories_at_def split: if_splits)
qed

section \<open>Listing\<close>

lemma read_entries_quiet:
  "quiet h \<Longrightarrow> read_entries t ns acc h = (acc @ map (path_div t) (filter (\<lambda>c. c \<noteq> dot \<and> c \<noteq> dotdot) ns), False, h)"
  by (induction ns arbitrary: acc) simp_all

lemma DirectoryIterator_quiet:
  assumes "tree_ok h" "quiet h" "names q" "node_at h q = Some Dir"
  shows "DirectoryIterator (path_text True q) h = (map (\<lambda>c. path_text True (q @ [c])) (child_names h q), False, h)"
proof -
  have "q = [] \<or> node_at h (butlast q) = Some Dir" using parent_dir [OF assms(1,4)] by blast
  then have l: "locate h (path_text True q) = Some q" by (rule locate_text [OF assms(1,3)])
  have c: "segment c \<and> c \<noteq> dot \<and> c \<noteq> dotdot" if "c \<in> set (child_names h q)" for c
    using child_names_segments [OF assms(1) that] .
  have "filter (\<lambda>c. c \<noteq> dot \<and> c \<noteq> dotdot) (readdir_names h q) = child_names h q"
    using c by (simp add: readdir_names_def filter_id_conv)
  moreover have "map (path_div (path_text True q)) (child_names h q) = map (\<lambda>c. path_text True (q @ [c])) (child_names h q)"
    using c path_div_text [OF names_segments [OF assms(3)]] by simp
  ultimately show ?thesis using l assms(2,4) read_entries_quiet [OF assms(2), of "path_text True q" "readdir_names h q" "[]"]
    by (simp add: DirectoryIterator_def)
qed

definition below :: "Host \<Rightarrow> location \<Rightarrow> location set" where
  "below h q = {p \<in> fst ` set (entries h). strict_prefix q p}"

lemma child_names_distinct: "tree_ok h \<Longrightarrow> distinct (child_names h q)"
proof -
  assume h: "tree_ok h"
  let ?l = "filter (\<lambda>p. p \<noteq> [] \<and> butlast p = q) (map fst (entries h))"
  have "distinct ?l" using h by (simp add: tree_ok_def)
  moreover have "inj_on last (set ?l)"
    by (rule inj_onI) (auto, metis append_butlast_last_id)
  ultimately show ?thesis by (simp add: child_names_def distinct_map)
qed

lemma child_names_iff: "c \<in> set (child_names h q) \<longleftrightarrow> q @ [c] \<in> fst ` set (entries h)"
proof -
  have "c \<in> set (child_names h q) \<longleftrightarrow> (\<exists>p \<in> fst ` set (entries h). p \<noteq> [] \<and> butlast p = q \<and> c = last p)"
    by (auto simp: child_names_def)
  also have "\<dots> \<longleftrightarrow> q @ [c] \<in> fst ` set (entries h)" by (metis append_butlast_last_id butlast_snoc last_snoc snoc_eq_iff_butlast)
  finally show ?thesis .
qed

lemma below_children:
  assumes "tree_ok h"
  shows "below h q = (\<Union>c \<in> set (child_names h q). insert (q @ [c]) (below h (q @ [c])))"
proof (rule set_eqI)
  fix p
  show "p \<in> below h q \<longleftrightarrow> p \<in> (\<Union>c \<in> set (child_names h q). insert (q @ [c]) (below h (q @ [c])))"
  proof
    assume p: "p \<in> below h q"
    then obtain c r where r: "p = q @ c # r" by (auto simp: below_def elim: strict_prefixE')
    have pk: "p \<in> fst ` set (entries h)" using p by (simp add: below_def)
    have "q @ [c] \<in> fst ` set (entries h)"
    proof (cases "r = []")
      case False
      have "node_at h (q @ [c]) = Some Dir"
        by (rule ancestors [OF assms, of p]) (use entry_node_at [OF pk] r False in \<open>auto simp: strict_prefix_def\<close>)
      then show ?thesis by (rule node_at_entry) simp
    qed (use pk r in simp)
    then have "c \<in> set (child_names h q)" by (simp add: child_names_iff)
    moreover have "p = q @ [c] \<or> p \<in> below h (q @ [c])" using pk r by (auto simp: below_def strict_prefix_def)
    ultimately show "p \<in> (\<Union>c \<in> set (child_names h q). insert (q @ [c]) (below h (q @ [c])))" by auto
  next
    assume "p \<in> (\<Union>c \<in> set (child_names h q). insert (q @ [c]) (below h (q @ [c])))"
    then show "p \<in> below h q" by (auto simp: below_def child_names_iff strict_prefix_def dest: append_prefixD)
  qed
qed

lemma below_file: "tree_ok h \<Longrightarrow> node_at h q = Some (Regular b) \<Longrightarrow> below h q = {}"
proof (rule ccontr)
  assume h: "tree_ok h" and n: "node_at h q = Some (Regular b)" and "below h q \<noteq> {}"
  then obtain p where p: "p \<in> fst ` set (entries h)" "strict_prefix q p" by (auto simp: below_def)
  then have "p \<noteq> []" by auto
  then have "node_at h q = Some Dir" by (rule ancestors [OF h entry_node_at [OF p(1)] p(2)])
  then show False using n by simp
qed

lemma below_disjoint: "c \<noteq> d \<Longrightarrow> insert (q @ [c]) (below h (q @ [c])) \<inter> insert (q @ [d]) (below h (q @ [d])) = {}"
  by (auto simp: below_def strict_prefix_def prefix_def)

lemma collect_quiet:
  assumes "tree_ok h" "quiet h"
  shows "names q \<Longrightarrow> node_at h q = Some Dir \<Longrightarrow> n \<noteq> 0 \<Longrightarrow>
    (\<And>p. p \<in> below h q \<Longrightarrow> length p < n + length q) \<Longrightarrow>
    \<exists>qs. collect n (path_text True q) acc h = (acc @ map (path_text True) qs, False, h) \<and> distinct qs \<and> set qs = below h q"
proof (induction n arbitrary: q acc)
  case (Suc n)
  have loop: "\<exists>qs. collect_loop (collect n) (map (\<lambda>c. path_text True (q @ [c])) cs) acc h
      = (acc @ map (path_text True) qs, False, h) \<and> distinct qs
      \<and> set qs = (\<Union>c \<in> set cs. insert (q @ [c]) (below h (q @ [c])))"
    if "set cs \<subseteq> set (child_names h q)" "distinct cs" for cs acc
    using that
  proof (induction cs arbitrary: acc)
    case (Cons c cs)
    let ?t = "path_text True (q @ [c])"
    have ck: "q @ [c] \<in> fst ` set (entries h)" using Cons.prems(1) by (simp add: child_names_iff)
    have nq: "names (q @ [c])" using ck assms(1) unfolding tree_ok_def by blast
    obtain nd where nd: "node_at h (q @ [c]) = Some nd" using entry_node_at [OF ck] by auto
    have isd: "IsDirectoryNoFollow_at ?t h = (nd = Dir, False, h)"
      using assms lookup_text [OF assms(1) nq] nd by (simp add: IsDirectoryNoFollow_at_def StatPath_def)
    obtain qs where qs: "\<And>acc. \<exists>qs. collect_loop (collect n) (map (\<lambda>c. path_text True (q @ [c])) cs) acc h
      = (acc @ map (path_text True) qs, False, h) \<and> distinct qs
      \<and> set qs = (\<Union>c \<in> set cs. insert (q @ [c]) (below h (q @ [c])))"
      using Cons by simp
    have dis: "insert (q @ [c]) (below h (q @ [c])) \<inter> (\<Union>d \<in> set cs. insert (q @ [d]) (below h (q @ [d]))) = {}"
    proof -
      have "insert (q @ [c]) (below h (q @ [c])) \<inter> insert (q @ [d]) (below h (q @ [d])) = {}" if "d \<in> set cs" for d
        by (rule below_disjoint) (use that Cons.prems(2) in auto)
      then show ?thesis by blast
    qed
    show ?case
    proof (cases "nd = Dir")
      case True
      have "q @ [c] \<in> below h q" using ck by (simp add: below_def strict_prefix_def)
      then have n0: "n \<noteq> 0" using Suc.prems(4) [of "q @ [c]"] by simp
      have lim: "length p < n + length (q @ [c])" if "p \<in> below h (q @ [c])" for p
      proof -
        have "p \<in> below h q" using that by (auto simp: below_def strict_prefix_def dest: append_prefixD)
        then show ?thesis using Suc.prems(4) [of p] by simp
      qed
      obtain rs where rs: "collect n ?t (acc @ [?t]) h = ((acc @ [?t]) @ map (path_text True) rs, False, h)"
        "distinct rs" "set rs = below h (q @ [c])"
        using Suc.IH [OF nq nd [unfolded True] n0 lim, of "acc @ [?t]"] by auto
      obtain ts where ts: "collect_loop (collect n) (map (\<lambda>c. path_text True (q @ [c])) cs) ((acc @ [?t]) @ map (path_text True) rs) h
        = (((acc @ [?t]) @ map (path_text True) rs) @ map (path_text True) ts, False, h)" "distinct ts"
        "set ts = (\<Union>c \<in> set cs. insert (q @ [c]) (below h (q @ [c])))" using qs by blast
      have "q @ [c] \<notin> below h (q @ [c])" by (simp add: below_def)
      then show ?thesis using isd True rs ts dis
        by (intro exI [of _ "(q @ [c]) # rs @ ts"]) (auto simp: Let_def)
    next
      case False
      then obtain b where "nd = Regular b" by (cases nd) auto
      then have e: "below h (q @ [c]) = {}" using below_file [OF assms(1)] nd by simp
      obtain ts where ts: "collect_loop (collect n) (map (\<lambda>c. path_text True (q @ [c])) cs) (acc @ [?t]) h
        = ((acc @ [?t]) @ map (path_text True) ts, False, h)" "distinct ts"
        "set ts = (\<Union>c \<in> set cs. insert (q @ [c]) (below h (q @ [c])))" using qs by blast
      then show ?thesis using isd False dis e by (intro exI [of _ "(q @ [c]) # ts"]) (auto simp: Let_def)
    qed
  qed simp
  show ?case
    using loop [of "child_names h q" acc] child_names_distinct [OF assms(1)] below_children [OF assms(1), of q]
      DirectoryIterator_quiet [OF assms Suc.prems(1,2)] by simp
qed simp

lemma host_depth_bound: "p \<in> fst ` set (entries h) \<Longrightarrow> length p < host_depth h"
proof -
  have "x \<in> set xs \<Longrightarrow> x \<le> foldr max xs 0" for x :: nat and xs by (induction xs) auto
  then show "p \<in> fst ` set (entries h) \<Longrightarrow> length p < host_depth h" by (force simp: host_depth_def less_Suc_eq_le)
qed

lemma RecursiveDirectoryIterator_quiet:
  assumes "tree_ok h" "quiet h" "names q" "node_at h q = Some Dir"
  shows "\<exists>qs. RecursiveDirectoryIterator (path_text True q) h = (map (path_text True) qs, False, h) \<and> distinct qs \<and> set qs = below h q"
proof -
  have "length p < host_depth h + length q" if "p \<in> below h q" for p
    using host_depth_bound [of p h] that by (simp add: below_def trans_less_add1)
  moreover have "host_depth h \<noteq> 0" by (simp add: host_depth_def)
  ultimately show ?thesis using collect_quiet [OF assms(1-4), of "host_depth h" "[]"]
    by (simp add: RecursiveDirectoryIterator_def)
qed

section \<open>Removing\<close>

definition keep :: "(location \<Rightarrow> bool) \<Rightarrow> Host \<Rightarrow> Host" where
  "keep A h = h\<lparr>entries := filter (\<lambda>e. A (fst e)) (entries h)\<rparr>"

lemma keep_simps [simp]:
  "faults (keep A h) = faults h" "cwd (keep A h) = cwd h" "quiet (keep A h) = quiet h"
  by (simp_all add: keep_def quiet_def)

lemma keep_keep: "keep A (keep B h) = keep (\<lambda>p. B p \<and> A p) h"
  by (simp add: keep_def)

lemma keep_cong: "(\<And>p. p \<in> fst ` set (entries h) \<Longrightarrow> A p = B p) \<Longrightarrow> keep A h = keep B h"
  unfolding keep_def by (metis (mono_tags, lifting) filter_cong imageI)

lemma keep_id: "(\<And>p. p \<in> fst ` set (entries h) \<Longrightarrow> A p) \<Longrightarrow> keep A h = h"
  using keep_cong [of h A "\<lambda>_. True"] by (simp add: keep_def)

lemma keys_keep: "fst ` set (entries (keep A h)) = {p \<in> fst ` set (entries h). A p}"
  by (auto simp: keep_def)

lemma drop_keep: "drop_node p h = keep (\<lambda>q. q \<noteq> p) h"
proof -
  have "AList.delete p al = filter (\<lambda>e. fst e \<noteq> p) al" for al :: "(location \<times> node) list"
    by (induction al) auto
  then show ?thesis by (simp add: drop_node_def keep_def)
qed

lemma node_at_keep: "p \<noteq> [] \<Longrightarrow> node_at (keep A h) p = (if A p then node_at h p else None)"
proof -
  have "map_of (filter (\<lambda>e. A (fst e)) al) p = (if A p then map_of al p else None)" for al :: "(location \<times> node) list"
    by (induction al) auto
  then show "p \<noteq> [] \<Longrightarrow> node_at (keep A h) p = (if A p then node_at h p else None)"
    by (simp add: node_at_def keep_def)
qed

definition shallow :: "nat \<Rightarrow> location \<Rightarrow> Host \<Rightarrow> bool" where
  "shallow n q h \<longleftrightarrow> (\<forall>p \<in> fst ` set (entries h). prefix q p \<longrightarrow> length p < n + length q)"

definition removes :: "nat \<Rightarrow> location \<Rightarrow> Host \<Rightarrow> bool" where
  "removes n q h \<longleftrightarrow> (\<exists>k. RemoveAllImpl n (path_text True q) h = (k, False, keep (\<lambda>p. \<not> prefix q p) h)
     \<and> (k = 0 \<longleftrightarrow> node_at h q = None))"

lemma remove_children_quiet:
  assumes rec: "\<And>q h. tree_ok h \<Longrightarrow> quiet h \<Longrightarrow> names q \<Longrightarrow> q \<noteq> [] \<Longrightarrow> n \<noteq> 0 \<Longrightarrow> shallow n q h \<Longrightarrow> removes n q h"
    and P: "names P"
  shows "tree_ok h \<Longrightarrow> quiet h \<Longrightarrow> shallow (Suc n) P h \<Longrightarrow>
    (\<And>c. c \<in> set ns \<Longrightarrow> segment c \<and> (n = 0 \<longrightarrow> c = dot \<or> c = dotdot)) \<Longrightarrow>
    \<exists>k'. remove_children (RemoveAllImpl n) (path_text True P) ns k h
      = (k', False, keep (\<lambda>p. \<not> (\<exists>c \<in> set ns. c \<noteq> dot \<and> c \<noteq> dotdot \<and> prefix (P @ [c]) p)) h)"
proof (induction ns arbitrary: k h)
  case Nil
  then show ?case by (simp add: keep_id)
next
  case (Cons c ns)
  show ?case
  proof (cases "c = dot \<or> c = dotdot")
    case True
    then show ?thesis using Cons by (auto simp: keep_def)
  next
    case False
    have nq: "names (P @ [c])" using P Cons.prems(4) False by simp
    have "shallow n (P @ [c]) h" using Cons.prems(3) by (auto simp: shallow_def dest: append_prefixD)
    moreover have "n \<noteq> 0" using Cons.prems(4) False by auto
    ultimately obtain j where j: "RemoveAllImpl n (path_text True (P @ [c])) h = (j, False, keep (\<lambda>p. \<not> prefix (P @ [c]) p) h)"
      using rec [OF Cons.prems(1,2) nq] by (auto simp: removes_def)
    let ?h = "keep (\<lambda>p. \<not> prefix (P @ [c]) p) h"
    have ok: "tree_ok ?h"
      by (rule frame_ok [OF frame_RemoveAllImpl [where P = "[]", OF Cons.prems(1) _ j]]) simp
    have sh: "shallow (Suc n) P ?h" using Cons.prems(3) unfolding shallow_def keys_keep by blast
    obtain k' where "remove_children (RemoveAllImpl n) (path_text True P) ns (k + j) ?h
      = (k', False, keep (\<lambda>p. \<not> (\<exists>c \<in> set ns. c \<noteq> dot \<and> c \<noteq> dotdot \<and> prefix (P @ [c]) p)) ?h)"
      using Cons.IH [OF ok _ sh] Cons.prems(2,4) by auto
    moreover have "keep (\<lambda>p. \<not> (\<exists>c \<in> set ns. c \<noteq> dot \<and> c \<noteq> dotdot \<and> prefix (P @ [c]) p)) ?h
      = keep (\<lambda>p. \<not> (\<exists>c \<in> set (c # ns). c \<noteq> dot \<and> c \<noteq> dotdot \<and> prefix (P @ [c]) p)) h"
      unfolding keep_keep by (rule keep_cong) (use False in auto)
    moreover have "path_div (path_text True P) c = path_text True (P @ [c])"
      using names_segments [OF P] Cons.prems(4) by (simp add: path_div_text)
    ultimately show ?thesis using Cons.prems(2) False j by simp
  qed
qed

lemma RemoveAllImpl_quiet:
  "tree_ok h \<Longrightarrow> quiet h \<Longrightarrow> names q \<Longrightarrow> q \<noteq> [] \<Longrightarrow> n \<noteq> 0 \<Longrightarrow> shallow n q h \<Longrightarrow> removes n q h"
proof (induction n arbitrary: q h)
  case (Suc n)
  have keys: "p \<in> fst ` set (entries h) \<Longrightarrow> prefix q p \<Longrightarrow> p = q \<or> strict_prefix q p \<and> node_at h q = Some Dir" for p
    using ancestors [OF Suc.prems(1) entry_node_at, of p q] Suc.prems(4) by (cases "p = []") (auto simp: strict_prefix_def)
  have look: "locate h (path_text True q) = Some q" if "node_at h q \<noteq> None"
    using that locate_text [OF Suc.prems(1,3)] parent_dir [OF Suc.prems(1)] by blast
  consider "node_at h q = None" | b where "node_at h q = Some (Regular b)" | "node_at h q = Some Dir"
    by (cases "node_at h q") (auto, metis node.exhaust)
  then show ?case
  proof cases
    case 1
    have "keep (\<lambda>p. \<not> prefix q p) h = h"
      by (rule keep_id) (use keys 1 entry_node_at Suc.prems(4) in fastforce)
    moreover have "RemoveAllImpl (Suc n) (path_text True q) h = (0, False, h)"
      using Suc.prems(2) 1 locate_resolve [of h "path_text True q"] resolve_text [OF Suc.prems(3)]
      by (auto split: option.split)
    ultimately show ?thesis using 1 by (simp add: removes_def)
  next
    case 2
    have "drop_node q h = keep (\<lambda>p. \<not> prefix q p) h"
      unfolding drop_keep by (rule keep_cong) (use keys 2 in auto)
    then show ?thesis using Suc.prems(2) 2 look by (simp add: removes_def)
  next
    case 3
    let ?ns = "readdir_names h q"
    have n0: "shallow (Suc n) q h" by (rule Suc.prems(6))
    have seg: "segment c \<and> (n = 0 \<longrightarrow> c = dot \<or> c = dotdot)" if "c \<in> set ?ns" for c
    proof (cases "c \<in> set (child_names h q)")
      case True
      then have "length (q @ [c]) < Suc n + length q"
        using n0 unfolding shallow_def child_names_iff by (metis prefixI)
      then show ?thesis using child_names_segments [OF Suc.prems(1) True] by auto
    next
      case False
      then show ?thesis using that by (auto simp: readdir_names_def)
    qed
    obtain k where k: "remove_children (RemoveAllImpl n) (path_text True q) ?ns 0 h
      = (k, False, keep (\<lambda>p. \<not> (\<exists>c \<in> set ?ns. c \<noteq> dot \<and> c \<noteq> dotdot \<and> prefix (q @ [c]) p)) h)"
      using remove_children_quiet [OF Suc.IH Suc.prems(3) Suc.prems(1,2) n0 seg] by blast
    let ?h = "keep (\<lambda>p. \<not> strict_prefix q p) h"
    have eq: "keep (\<lambda>p. \<not> (\<exists>c \<in> set ?ns. c \<noteq> dot \<and> c \<noteq> dotdot \<and> prefix (q @ [c]) p)) h = ?h"
    proof (rule keep_cong)
      fix p assume p: "p \<in> fst ` set (entries h)"
      have "strict_prefix q p \<longleftrightarrow> p \<in> below h q" using p by (simp add: below_def)
      also have "\<dots> \<longleftrightarrow> (\<exists>c \<in> set (child_names h q). prefix (q @ [c]) p)"
      proof -
        have "prefix (q @ [c]) p \<longleftrightarrow> p = q @ [c] \<or> p \<in> below h (q @ [c])" for c
          using p by (auto simp: below_def strict_prefix_def)
        then show ?thesis by (subst below_children [OF Suc.prems(1), of q]) auto
      qed
      also have "\<dots> \<longleftrightarrow> (\<exists>c \<in> set ?ns. c \<noteq> dot \<and> c \<noteq> dotdot \<and> prefix (q @ [c]) p)"
        using child_names_segments [OF Suc.prems(1)] by (auto simp: readdir_names_def)
      finally show "(\<not> (\<exists>c \<in> set ?ns. c \<noteq> dot \<and> c \<noteq> dotdot \<and> prefix (q @ [c]) p)) = (\<not> strict_prefix q p)" by simp
    qed
    have "q @ [c] \<notin> fst ` set (entries ?h)" for c by (simp only: keys_keep) (auto simp: strict_prefix_def)
    then have "child_names ?h q = []" using child_names_iff [of _ ?h q] by (metis last_in_set)
    moreover have "drop_node q ?h = keep (\<lambda>p. \<not> prefix q p) h"
      unfolding drop_keep keep_keep by (rule keep_cong) (auto simp: strict_prefix_def)
    ultimately show ?thesis using Suc.prems(2,4) 3 look k [unfolded eq] by (simp add: removes_def)
  qed
qed simp

lemma EnsureEmptyDirectory_quiet:
  assumes "tree_ok h" "quiet h" "is_absolute t" "lexically_normal t = t" "resolve [] t \<noteq> []"
    and "\<And>p. strict_prefix p (resolve [] t) \<Longrightarrow> node_at h p \<in> {None, Some Dir}"
  shows "\<exists>h'. EnsureEmptyDirectory_at t h = (True, False, h') \<and> quiet h' \<and> tree_ok h' \<and> cwd h' = cwd h
    \<and> (\<forall>p. node_at h' p = (if prefix p (resolve [] t) then Some Dir
                        else if prefix (resolve [] t) p then None else node_at h p))"
proof -
  let ?P = "resolve [] t"
  have n: "names ?P" and t: "t = path_text True ?P"
    using absolute_normal [OF assms(3), of "[]"] assms(4) by simp_all
  let ?h = "keep (\<lambda>p. \<not> prefix ?P p) h"
  have sh: "shallow (host_depth h) ?P h" unfolding shallow_def by (simp add: host_depth_bound trans_less_add1)
  obtain k where k: "RemoveAll t h = (k, False, ?h)" "k = 0 \<longleftrightarrow> node_at h ?P = None"
    using RemoveAllImpl_quiet [OF assms(1,2) n assms(5) _ sh] t
    by (auto simp: removes_def RemoveAll_def host_depth_def)
  have ok: "tree_ok ?h"
    by (rule frame_ok [OF frame_RemoveAllImpl [where P = "[]", OF assms(1) _ k(1) [unfolded RemoveAll_def]]]) simp
  have at: "node_at ?h p = (if prefix ?P p then None else node_at h p)" for p
    using assms(5) by (cases "p = []") (auto simp: node_at_keep, simp add: node_at_def)
  have ex: "FileExists_at t h = (node_at h ?P \<noteq> None, False, h)"
    using assms(2) lookup_text [OF assms(1) n] t by (simp add: FileExists_at_def StatPath_def)
  have rm: "RemoveAllIfExists_at t h = (True, False, ?h)"
  proof (cases "node_at h ?P = None")
    case True
    have "\<not> prefix ?P p" if "p \<in> fst ` set (entries h)" for p
    proof
      assume pp: "prefix ?P p"
      then have "p \<noteq> []" using assms(5) by auto
      then have "node_at h p \<noteq> None" using entry_node_at [OF that] by simp
      then show False using ancestors [OF assms(1) _, of p ?P] True pp
        by (cases "p = ?P") (auto simp: strict_prefix_def)
    qed
    then have "?h = h" by (rule keep_id)
    then show ?thesis using ex True by (simp add: RemoveAllIfExists_at_def)
  next
    case False
    then show ?thesis using ex k by (simp add: RemoveAllIfExists_at_def)
  qed
  have "\<exists>h'. EnsureDirectories_at t ?h = (True, False, h') \<and> quiet h' \<and> tree_ok h' \<and> cwd h' = cwd ?h
    \<and> (\<forall>p. node_at h' p = (if prefix p ?P then Some Dir else node_at ?h p))"
  proof (rule EnsureDirectories_quiet [OF ok _ assms(3)])
    show "node_at ?h p \<in> {None, Some Dir}" if "prefix p ?P" for p
      using that assms(6) [of p] by (auto simp: at strict_prefix_def)
  qed (use assms(2) in simp)
  then obtain h' where h': "EnsureDirectories_at t ?h = (True, False, h')" "quiet h'" "tree_ok h'" "cwd h' = cwd h"
    "\<And>p. node_at h' p = (if prefix p ?P then Some Dir else node_at ?h p)" by auto
  then show ?thesis using rm at by (intro exI [of _ h']) (simp add: EnsureEmptyDirectory_at_def)
qed

section \<open>Files\<close>

lemma WriteBinaryFile_quiet:
  assumes "tree_ok h" "quiet h" "names q" "q \<noteq> []" "node_at h (butlast q) = Some Dir" "node_at h q \<noteq> Some Dir"
    and "CanRepresentStreamSize (length bytes)"
  shows "\<exists>h'. WriteBinaryFile (path_text True q) bytes h = (True, h') \<and> quiet h' \<and> tree_ok h' \<and> cwd h' = cwd h
    \<and> (\<forall>p. node_at h' p = (if p = q then Some (Regular bytes) else node_at h p))"
proof -
  have l: "locate h (path_text True q) = Some q" by (rule locate_text [OF assms(1,3)]) (use assms(5) in simp)
  let ?h = "put_node q (Regular []) h"
  let ?h' = "if bytes = [] then ?h else put_node q (Regular bytes) ?h"
  have w: "WriteBinaryFile (path_text True q) bytes h = (True, ?h')"
    using assms(2,6,7) l by (simp add: WriteBinaryFile_def Let_def)
  have "tree_ok ?h'"
  proof (rule frame_ok [OF frame_WriteBinaryFile [where P = "[]", OF assms(1) _ w]])
  qed simp
  moreover have "node_at ?h' p = (if p = q then Some (Regular bytes) else node_at h p)" for p
    by (simp add: node_at_put [OF assms(4)])
  ultimately show ?thesis using w assms(2) by (intro exI [of _ ?h']) simp
qed

lemma ReadWholeBinaryFile_quiet:
  assumes "quiet h" "lookup h t = Some (Regular bytes)" "CanRepresentStreamSize (length bytes)"
  shows "ReadWholeBinaryFile t h = (Some bytes, False, h)"
proof -
  have "\<not> usize_max < length bytes" using assms(3) by (simp add: CanRepresentStreamSize_def usize_max_def)
  then show ?thesis using assms by (simp add: ReadWholeBinaryFile_def StatPath_def)
qed

end
