(* ===== verification/Crash_Roundtrip.thy ===== *)
theory Crash_Roundtrip
  imports Crash_Archive Host_Effects
begin

text \<open>
  An archive that was built from a directory is extracted to the same files: the lines and headers are read
  as they were written, and every file arrives at its relative location.
\<close>

section \<open>Lines and headers\<close>

lemma skip_while_length: "skip_while P t i = i + length (takeWhile P (drop i t))"
proof (induction P t i rule: skip_while.induct)
  case (1 P t i)
  show ?case
  proof (cases "i < length t")
    case True
    then show ?thesis using 1 by (subst skip_while.simps) (simp add: Cons_nth_drop_Suc [symmetric])
  qed (simp add: skip_while.simps)
qed

lemma NextLfByteLine_line:
  assumes "LF \<notin> set line" "line = [] \<or> last line \<noteq> CR"
  shows "NextLfByteLine (pre @ line @ LF # rest) (length pre) = (Some line, length pre + length line + 1)"
proof -
  let ?t = "pre @ line @ LF # rest"
  have "takeWhile (\<lambda>c. c \<noteq> LF) (line @ LF # rest) = line" using assms(1) by (auto intro: takeWhile_append_stop)
  then have s: "skip_while (\<lambda>c. c \<noteq> LF) ?t (length pre) = length pre + length line"
    by (simp add: skip_while_length)
  have "?t ! (length pre + length line - 1) \<noteq> CR" if "line \<noteq> []"
  proof -
    have "?t ! (length pre + (length line - 1)) = line ! (length line - 1)" using that by (simp only: nth_append_length_plus) (simp add: nth_append)
    then show ?thesis using that assms(2) by (cases line rule: rev_cases) (auto simp: nth_append)
  qed
  then have e: "(if length pre + length line > length pre \<and> ?t ! (length pre + length line - 1) = CR
      then length pre + length line - 1 else length pre + length line) = length pre + length line"
    by auto
  show ?thesis unfolding NextLfByteLine_def Let_def s e by simp
qed

lemma ParseU64_digits: "n < 2 ^ 64 \<Longrightarrow> ParseU64 (decimal_digits n) = Some (of_nat n)"
proof -
  assume n: "n < 2 ^ 64"
  have d: "decimal_digits n \<noteq> []" "takeWhile is_digit (decimal_digits n) = decimal_digits n"
    "digits_value (decimal_digits n) = n"
    using decimal_digits_spec [of n] takeWhile_all by auto
  show ?thesis unfolding ParseU64_def ParseU64FromChars_def Let_def d(2,3) using d(1) n by simp
qed

lemma last_space_spec:
  "0x20 \<notin> set ds \<Longrightarrow> k \<le> length ds \<Longrightarrow> last_space (a @ 0x20 # ds) (length a + 1 + k) = Some (length a)"
proof (induction k)
  case (Suc k)
  then have "ds ! k \<noteq> 0x20" by (metis Suc_le_eq nth_mem)
  then show ?case using Suc by (simp add: nth_append)
qed simp

lemma digits_plain: "c \<in> set (decimal_digits n) \<Longrightarrow> c \<noteq> 0x20 \<and> c \<noteq> LF \<and> c \<noteq> CR"
proof -
  assume c: "c \<in> set (decimal_digits n)"
  then have "is_digit c" using decimal_digits_spec [of n] by (simp add: list_all_iff)
  then show ?thesis by (auto simp: is_digit_def LF_def CR_def)
qed

definition header_line :: "path \<Rightarrow> nat \<Rightarrow> u8 list" where
  "header_line m n = s_ArchiveFileHeaderPrefix @ m @ 0x20 # decimal_digits n"

lemma ParseFileHeader_line:
  assumes "IsSafeArchiveRelativePath m" "n < 2 ^ 64"
  shows "ParseFileHeader (header_line m n) = Some (m, n)"
proof -
  let ?b = "m @ 0x20 # decimal_digits n" and ?k = "length s_ArchiveFileHeaderPrefix"
  have l: "last_space ?b (length ?b) = Some (length m)"
    using last_space_spec [of "decimal_digits n" "length (decimal_digits n)" m] digits_plain [of "0x20" n]
    by (cases "0x20 \<in> set (decimal_digits n)") (simp_all del: last_space.simps)
  have h: "take ?k (header_line m n) = s_ArchiveFileHeaderPrefix" "drop ?k (header_line m n) = ?b"
    "\<not> length (header_line m n) \<le> ?k" by (simp_all add: header_line_def)
  have m: "m \<noteq> []" using assms(1) by (auto simp: IsSafeArchiveRelativePath_def)
  have d: "decimal_digits n \<noteq> []" using decimal_digits_spec [of n] by simp
  show ?thesis unfolding ParseFileHeader_def Let_def h l
    using m d assms ParseU64_digits [OF assms(2)] h(3) by (simp add: unat_of_nat_small)
qed

lemma header_line_plain:
  assumes "IsSafeArchiveRelativePath m"
  shows "LF \<notin> set (header_line m n)" "last (header_line m n) \<noteq> CR"
proof -
  have "LF \<notin> set m" using assms by (auto simp: IsSafeArchiveRelativePath_eq safe_text_def list_all_iff LF_def)
  then show "LF \<notin> set (header_line m n)"
    using digits_plain [of _ n] by (auto simp: header_line_def s_ArchiveFileHeaderPrefix_def LF_def)
  have "decimal_digits n \<noteq> []" using decimal_digits_spec [of n] by simp
  then have "last (header_line m n) \<in> set (decimal_digits n)" by (simp add: header_line_def)
  then show "last (header_line m n) \<noteq> CR" using digits_plain by blast
qed

definition archive_entry :: "path \<times> u8 list \<Rightarrow> u8 list" where
  "archive_entry f = header_line (fst f) (length (snd f)) @ LF # snd f @ s_ArchiveEntryEndText"

lemma append_entry_eq: "append_entry out m b = out @ archive_entry (m, b)"
  by (simp add: append_entry_def AppendArchiveText_def AppendArchiveUnsigned_def archive_entry_def header_line_def Let_def)

text \<open>One entry of an archive, read at its position.\<close>

lemma extract_entry:
  assumes "IsSafeArchiveRelativePath m" "length b < 2 ^ 64"
    and "WriteExtractedFile d m b h = (True, h1)"
  shows "extract_loop (pre @ archive_entry (m, b) @ rest) d (length pre) n h
    = extract_loop (pre @ archive_entry (m, b) @ rest) d (length (pre @ archive_entry (m, b))) (n + 1) h1"
proof -
  let ?l = "header_line m (length b)" and ?E = "s_ArchiveEntryEndLine"
  let ?t = "pre @ archive_entry (m, b) @ rest"
  note plain = header_line_plain [OF assms(1), of "length b"]
  have t1: "?t = pre @ ?l @ LF # (b @ s_ArchiveEntryEndText @ rest)" by (simp add: archive_entry_def)
  have t2: "?t = (pre @ ?l @ LF # b) @ [] @ LF # (?E @ LF # rest)"
    by (simp add: archive_entry_def s_ArchiveEntryEndText_def s_ArchiveEntryEndLine_def)
  have t3: "?t = ((pre @ ?l @ LF # b) @ [LF]) @ ?E @ LF # rest" using t2 by simp
  have n1: "NextLfByteLine ?t (length pre) = (Some ?l, length pre + length ?l + 1)"
    unfolding t1 by (rule NextLfByteLine_line) (use plain in auto)
  have n2: "NextLfByteLine ?t (length pre + length ?l + 1 + length b) = (Some [], length pre + length ?l + 1 + length b + 1)"
    using NextLfByteLine_line [of "[]" "pre @ ?l @ LF # b" "?E @ LF # rest"] t2 by (simp add: add.assoc)
  have n3: "NextLfByteLine ?t (length pre + length ?l + 1 + length b + 1) = (Some ?E, length (pre @ archive_entry (m, b)))"
    using NextLfByteLine_line [of ?E "(pre @ ?l @ LF # b) @ [LF]" rest] t3
    by (simp add: s_ArchiveEntryEndLine_def LF_def CR_def archive_entry_def s_ArchiveEntryEndText_def add.assoc)
  have len: "length pre < length ?t" "\<not> length ?t < length pre + length ?l + 1"
    "\<not> length ?t - (length pre + length ?l + 1) < length b" by (simp_all add: archive_entry_def)
  have pay: "take (length b) (drop (length pre + length ?l + 1) ?t) = b" by (simp add: t1)
  show ?thesis
    using n1 n2 n3 len pay ParseFileHeader_line [OF assms(1,2)] assms(3)
    by (subst extract_loop.simps) (simp del: append_assoc length_append)
qed

section \<open>The files of a package\<close>

text \<open>A list of files under their relative locations, none of which is a directory of another.\<close>

type_synonym package = "(location \<times> u8 list) list"

definition package_ok :: "package \<Rightarrow> bool" where
  "package_ok fs \<longleftrightarrow> distinct (map fst fs)
     \<and> (\<forall>a \<in> set (map fst fs). \<forall>b \<in> set (map fst fs). \<not> strict_prefix a b)
     \<and> (\<forall>f \<in> set fs. IsSafeArchiveRelativePath (path_text False (fst f)) \<and> list_all segment (fst f)
          \<and> CanRepresentStreamSize (length (snd f)))"

definition package_bytes :: "package \<Rightarrow> u8 list" where
  "package_bytes fs = concat (map (\<lambda>f. archive_entry (path_text False (fst f), snd f)) fs)"

definition package_node :: "package \<Rightarrow> location \<Rightarrow> node option" where
  "package_node fs r = (case map_of fs r of Some b \<Rightarrow> Some (Regular b)
     | None \<Rightarrow> if r = [] \<or> (\<exists>a \<in> set (map fst fs). strict_prefix r a) then Some Dir else None)"

lemma join_append: "a \<noteq> [] \<Longrightarrow> b \<noteq> [] \<Longrightarrow> join d (a @ b) = join d a @ [d] @ join d b"
proof (induction d a rule: join.induct)
  case (2 d p)
  then show ?case by (cases b) simp_all
qed simp_all

lemma path_div_location:
  assumes "list_all segment D" "D \<noteq> []" "list_all segment r" "r \<noteq> []"
  shows "path_div (path_text True D) (path_text False r) = path_text True (D @ r)"
proof -
  have r: "path_text False r \<noteq> []" "\<not> is_absolute (path_text False r)" using assms(3,4) by (simp_all add: render_Nil_iff)
  have D: "path_text True D \<noteq> []" "\<not> IsSeparator (last (path_text True D))"
    using render_last [OF assms(1), of True] assms(1,2) by (simp_all add: render_Nil_iff)
  show ?thesis using r D join_append [OF assms(2,4), of SLASH]
    by (simp add: path_div_def appendComponent_def PreferredSeparator_def) (simp add: path_text_def)
qed

text \<open>What extraction needs of the tree before the remaining files, and what it has reached.\<close>

definition extracted :: "location \<Rightarrow> package \<Rightarrow> Host \<Rightarrow> bool" where
  "extracted D fs h \<longleftrightarrow> tree_ok h \<and> quiet h \<and> (\<forall>r. node_at h (D @ r) = package_node fs r)"

lemma extract_file:
  assumes D: "names D" "D \<noteq> []" and ok: "package_ok (fs @ [(r, b)])" and h: "extracted D fs h"
  shows "\<exists>h'. WriteExtractedFile (path_text True D) (path_text False r) b h = (True, h') \<and> extracted D (fs @ [(r, b)]) h'"
proof -
  let ?m = "path_text False r" and ?d = "path_text True D"
  have m: "IsSafeArchiveRelativePath ?m" "list_all segment r" "CanRepresentStreamSize (length b)"
    using ok by (auto simp: package_ok_def)
  have sg: "segments ?m = r" using m(2) by simp
  have rn: "names r" "r \<noteq> []" using safe_member [OF m(1)] sg by auto
  have new: "map_of fs r = None" "\<not> (\<exists>a \<in> set (map fst fs). strict_prefix r a)"
    using ok by (auto simp: package_ok_def map_of_eq_None_iff)
  have old: "map_of fs s = None" if "strict_prefix s r" for s
    using ok that by (auto simp: package_ok_def map_of_eq_None_iff)
  have hk: "tree_ok h" "quiet h" and at: "\<And>s. node_at h (D @ s) = package_node fs s" using h by (auto simp: extracted_def)
  have abs: "is_absolute ?d" using names_segments [OF D(1)] by simp
  have tx: "path_div ?d ?m = path_text True (D @ r)"
    by (rule path_div_location [OF names_segments [OF D(1)] D(2) m(2) rn(2)])
  note par = parent_member [OF m(1) abs]
  have pr: "resolve [] (parent_path (path_div ?d ?m)) = D @ butlast r" using par(2) [of "[]"] resolve_text [OF D(1)] sg by simp
  have "map_of fs [] = None" by (rule old) (use rn(2) in \<open>cases r; simp\<close>)
  then have DD: "node_at h D = Some Dir" using at [of "[]"] by (simp add: package_node_def)
  have up: "node_at h p \<in> {None, Some Dir}" if "prefix p (D @ butlast r)" for p
  proof (cases "prefix D p")
    case True
    then obtain s where s: "p = D @ s" by (auto simp: prefix_def)
    then have "strict_prefix s r" using that rn(2) by (cases r rule: rev_cases) (auto simp: strict_prefix_def prefix_snoc prefix_def)
    then show ?thesis using s at [of s] old by (simp add: package_node_def)
  next
    case False
    then have "strict_prefix p D" using prefix_same_cases [OF that, of D] by (auto simp: strict_prefix_def)
    then show ?thesis using ancestors [OF hk(1), of D p] DD by simp
  qed
  obtain h1 where e: "EnsureDirectories_at (parent_path (path_div ?d ?m)) h = (True, False, h1)" "quiet h1" "tree_ok h1"
    "\<And>p. node_at h1 p = (if prefix p (D @ butlast r) then Some Dir else node_at h p)"
    using EnsureDirectories_quiet [OF hk par(1)] up pr by auto
  have np: "\<not> prefix (D @ r) (D @ butlast r)" using rn(2) by (cases r rule: rev_cases) (auto dest!: prefix_length_le)
  have "\<exists>h'. WriteBinaryFile (path_text True (D @ r)) b h1 = (True, h') \<and> quiet h' \<and> tree_ok h' \<and> cwd h' = cwd h1
    \<and> (\<forall>p. node_at h' p = (if p = D @ r then Some (Regular b) else node_at h1 p))"
  proof (rule WriteBinaryFile_quiet [OF e(3,2)])
    show "node_at h1 (butlast (D @ r)) = Some Dir" using rn(2) by (simp add: e(4) butlast_append)
    have "node_at h1 (D @ r) = package_node fs r" using np at [of r] by (simp add: e(4))
    then show "node_at h1 (D @ r) \<noteq> Some Dir" using new rn(2) by (simp add: package_node_def)
  qed (use D rn m in auto)
  then obtain h' where w: "WriteBinaryFile (path_text True (D @ r)) b h1 = (True, h')" "quiet h'" "tree_ok h'"
    "\<And>p. node_at h' p = (if p = D @ r then Some (Regular b) else node_at h1 p)" by blast
  have "node_at h' (D @ s) = package_node (fs @ [(r, b)]) s" for s
  proof -
    have pf: "prefix s (butlast r) \<longleftrightarrow> strict_prefix s r"
      using rn(2) by (cases r rule: rev_cases) (auto simp: strict_prefix_def prefix_snoc)
    consider "s = r" | "strict_prefix s r" | "s \<noteq> r" "\<not> strict_prefix s r" by blast
    then show ?thesis
    proof cases
      case 1
      then show ?thesis using new(1) by (simp add: w(4) package_node_def map_add_def split: option.split)
    next
      case 2
      then show ?thesis using old pf by (auto simp: w(4) e(4) package_node_def map_add_def)
    next
      case 3
      then show ?thesis using pf at [of s] by (auto simp: w(4) e(4) package_node_def map_add_def split: option.split)
    qed
  qed
  moreover have "WriteExtractedFile ?d ?m b h = (True, h')"
    using e(1) w(1) par(3) tx by (simp add: WriteExtractedFile_def Let_def)
  ultimately show ?thesis using w(2,3) by (auto simp: extracted_def)
qed

lemma extract_package:
  assumes D: "names D" "D \<noteq> []"
  shows "package_ok (fs @ gs) \<Longrightarrow> extracted D fs h \<Longrightarrow> n \<noteq> 0 \<or> gs \<noteq> [] \<Longrightarrow>
    \<exists>h'. extract_loop (pre @ package_bytes gs) (path_text True D) (length pre) n h = (None, h') \<and> extracted D (fs @ gs) h'"
proof (induction gs arbitrary: fs pre n h)
  case Nil
  then show ?case by (subst extract_loop.simps) (simp add: package_bytes_def)
next
  case (Cons g gs)
  obtain r b where g: "g = (r, b)" by fastforce
  have ok: "package_ok (fs @ [(r, b)])" using Cons.prems(1) g by (auto simp: package_ok_def)
  obtain h1 where w: "WriteExtractedFile (path_text True D) (path_text False r) b h = (True, h1)" "extracted D (fs @ [(r, b)]) h1"
    using extract_file [OF D ok Cons.prems(2)] by blast
  have m: "IsSafeArchiveRelativePath (path_text False r)" "length b < 2 ^ 64"
    using ok by (auto simp: package_ok_def CanRepresentStreamSize_def)
  have pb: "package_bytes (g # gs) = archive_entry (path_text False r, b) @ package_bytes gs" by (simp add: package_bytes_def g)
  have "extract_loop (pre @ package_bytes (g # gs)) (path_text True D) (length pre) n h
    = extract_loop ((pre @ archive_entry (path_text False r, b)) @ package_bytes gs) (path_text True D)
        (length (pre @ archive_entry (path_text False r, b))) (n + 1) h1"
    unfolding pb using extract_entry [OF m w(1), of pre "package_bytes gs" n] by simp
  moreover have "\<exists>h'. extract_loop ((pre @ archive_entry (path_text False r, b)) @ package_bytes gs) (path_text True D)
      (length (pre @ archive_entry (path_text False r, b))) (n + 1) h1 = (None, h') \<and> extracted D ((fs @ [(r, b)]) @ gs) h'"
    by (rule Cons.IH) (use Cons.prems(1) g w(2) in auto)
  ultimately show ?case using g by simp
qed

section \<open>Building\<close>

definition files_of :: "Host \<Rightarrow> location \<Rightarrow> location list \<Rightarrow> package" where
  "files_of h S qs = concat (map (\<lambda>q. case node_at h q of Some (Regular b) \<Rightarrow> [(drop (length S) q, b)] | _ \<Rightarrow> []) qs)"

lemma toGenericString_id: "toGenericString True t = t"
proof -
  have "(if True \<and> IsSeparator ch then SLASH else ch) = ch" for ch by (simp add: IsSeparator_def)
  then show ?thesis by (simp add: toGenericString_def)
qed

lemma relative_below:
  assumes "names S" "names (S @ r)" "r \<noteq> []"
  shows "lexically_relative (path_text True (S @ r)) (path_text True S) = path_text False r"
  using relative_segments [where pre = S and pr = r and br = "[]" and t = "path_text True (S @ r)" and b = "path_text True S"]
    assms resolve_text [OF assms(1)] resolve_text [OF assms(2)] names_segments [OF assms(1)] names_segments [OF assms(2)]
  by simp

lemma archive_loop_quiet:
  assumes "tree_ok h" "quiet h" "names S"
  shows "(\<And>q. q \<in> set qs \<Longrightarrow> strict_prefix S q \<and> names q \<and>
      (\<forall>b. node_at h q = Some (Regular b) \<longrightarrow> CanRepresentStreamSize (length b))) \<Longrightarrow>
    archive_loop (path_text True S) (map (path_text True) qs) out wrote h
      = (wrote \<or> files_of h S qs \<noteq> [], out @ package_bytes (files_of h S qs), h)"
proof (induction qs arbitrary: out wrote)
  case Nil
  then show ?case by (simp add: files_of_def package_bytes_def)
next
  case (Cons q qs)
  let ?t = "path_text True q"
  have q: "strict_prefix S q" "names q" using Cons.prems by auto
  then obtain r where r: "q = S @ r" "r \<noteq> []" by (auto simp: strict_prefix_def prefix_def)
  have look: "lookup h ?t = node_at h q" by (rule lookup_text [OF assms(1) q(2)])
  have IH: "archive_loop (path_text True S) (map (path_text True) qs) out' w h
      = (w \<or> files_of h S qs \<noteq> [], out' @ package_bytes (files_of h S qs), h)" for out' w
    by (rule Cons.IH) (use Cons.prems in auto)
  show ?case
  proof (cases "\<exists>b. node_at h q = Some (Regular b)")
    case True
    then obtain b where b: "node_at h q = Some (Regular b)" by blast
    then have rd: "ReadWholeBinaryFile ?t h = (Some b, False, h)"
      using Cons.prems look by (intro ReadWholeBinaryFile_quiet [OF assms(2)]) auto
    have reg: "IsRegularFile_at ?t h = (True, False, h)" using assms(2) look b by (simp add: IsRegularFile_at_def StatPath_def)
    have f: "files_of h S (q # qs) = (r, b) # files_of h S qs" using b r(1) by (simp add: files_of_def)
    have rel: "lexically_relative ?t (path_text True S) = path_text False r"
      using relative_below [OF assms(3) _ r(2)] q(2) r(1) by simp
    show ?thesis using reg rd rel IH f by (simp add: toGenericString_id append_entry_eq package_bytes_def)
  next
    case False
    then have "IsRegularFile_at ?t h = (False, False, h)" using assms(2) look
      by (auto simp: IsRegularFile_at_def StatPath_def split: option.split node.split)
    moreover have "files_of h S (q # qs) = files_of h S qs"
      using False by (auto simp: files_of_def split: option.split node.split)
    ultimately show ?thesis using IH by simp
  qed
qed

lemma files_of_iff:
  assumes "set qs = below h S"
  shows "(r, b) \<in> set (files_of h S qs) \<longleftrightarrow> r \<noteq> [] \<and> node_at h (S @ r) = Some (Regular b)"
proof -
  have "(r, b) \<in> set (files_of h S qs) \<longleftrightarrow> (\<exists>q \<in> below h S. node_at h q = Some (Regular b) \<and> r = drop (length S) q)"
    by (auto simp: files_of_def assms split: option.splits node.splits) (metis option.inject)+
  also have "\<dots> \<longleftrightarrow> r \<noteq> [] \<and> node_at h (S @ r) = Some (Regular b)"
  proof
    assume "\<exists>q \<in> below h S. node_at h q = Some (Regular b) \<and> r = drop (length S) q"
    then show "r \<noteq> [] \<and> node_at h (S @ r) = Some (Regular b)" by (auto simp: below_def strict_prefix_def prefix_def)
  next
    assume r: "r \<noteq> [] \<and> node_at h (S @ r) = Some (Regular b)"
    then have "S @ r \<in> below h S" using node_at_entry [of h "S @ r"] by (auto simp: below_def strict_prefix_def)
    then show "\<exists>q \<in> below h S. node_at h q = Some (Regular b) \<and> r = drop (length S) q" using r by force
  qed
  finally show ?thesis .
qed

lemma files_of_distinct:
  "distinct qs \<Longrightarrow> (\<And>q. q \<in> set qs \<Longrightarrow> prefix S q) \<Longrightarrow> distinct (map fst (files_of h S qs))"
proof (induction qs)
  case (Cons q qs)
  have "drop (length S) q \<notin> fst ` set (files_of h S qs)"
  proof
    assume "drop (length S) q \<in> fst ` set (files_of h S qs)"
    then obtain p where p: "p \<in> set qs" "drop (length S) p = drop (length S) q"
      by (auto simp: files_of_def split: option.splits node.splits)
    then have "p = q" using Cons.prems(2) [of p] Cons.prems(2) [of q] by (auto simp: prefix_def)
    then show False using p(1) Cons.prems(1) by simp
  qed
  then show ?case using Cons by (auto simp: files_of_def split: option.split node.split)
qed (simp add: files_of_def)

text \<open>C24: a crash package survives its archive. Let \<open>source\<close> be a directory of a well-formed host whose files have
  relative paths the archive test accepts, at least one of them; then building its archive succeeds when no
  system call fails. A server whose tree has room for the package directory (no file where a directory
  above it is needed) and whose archive file holds these bytes extracts it successfully, and afterwards the
  files below the package directory are exactly the files below \<open>source\<close>, with their contents.\<close>

theorem crash_package_roundtrip:
  assumes client: "tree_ok c" "faults c = []" "is_absolute source" "lexically_normal source = source"
      "node_at c (resolve [] source) = Some Dir"
    and files: "\<And>r b. node_at c (resolve [] source @ r) = Some (Regular b) \<Longrightarrow>
      IsSafeArchiveRelativePath (path_text False r) \<and> CanRepresentStreamSize (length b)"
    and some: "node_at c (resolve [] source @ r0) = Some (Regular b0)"
    and archive: "BuildPackageArchive source c = (ok, bytes, c')" "CanRepresentStreamSize (length bytes)"
    and server: "tree_ok s" "faults s = []" "is_absolute target" "lexically_normal target = target" "resolve [] target \<noteq> []"
      "\<And>p. strict_prefix p (resolve [] target) \<Longrightarrow> node_at s p \<in> {None, Some Dir}"
      "lookup s archivePath = Some (Regular bytes)"
  shows "ok \<and> (\<exists>s'. ExtractCrashArchive archivePath target s = (None, s') \<and> tree_ok s'
    \<and> (\<forall>r b. node_at s' (resolve [] target @ r) = Some (Regular b) \<longleftrightarrow> node_at c (resolve [] source @ r) = Some (Regular b)))"
proof -
  let ?S = "resolve [] source" and ?D = "resolve [] target"
  have q: "quiet c" "quiet s" using client(2) server(2) by (simp_all add: quiet_def)
  have S: "names ?S" "source = path_text True ?S" using absolute_normal [OF client(3), of "[]"] client(4) by simp_all
  have D: "names ?D" "target = path_text True ?D" using absolute_normal [OF server(3), of "[]"] server(4) by simp_all
  obtain qs where qs: "RecursiveDirectoryIterator source c = (map (path_text True) qs, False, c)" "distinct qs" "set qs = below c ?S"
    using RecursiveDirectoryIterator_quiet [OF client(1) q(1) S(1) client(5)] S(2) by auto
  define fs where "fs = files_of c ?S qs"
  have iff: "(r, b) \<in> set fs \<longleftrightarrow> r \<noteq> [] \<and> node_at c (?S @ r) = Some (Regular b)" for r b
    unfolding fs_def by (rule files_of_iff [OF qs(3)])
  have same: "node_at c (?S @ r) = Some (Regular b) \<longleftrightarrow> (r, b) \<in> set fs" for r b
    using iff client(5) by (cases "r = []") auto
  have below: "strict_prefix ?S p \<and> names p \<and> (\<forall>b. node_at c p = Some (Regular b) \<longrightarrow> CanRepresentStreamSize (length b))"
    if "p \<in> set qs" for p
  proof -
    have p: "p \<in> fst ` set (entries c)" "strict_prefix ?S p" using that qs(3) by (auto simp: below_def)
    then have "names p" using client(1) unfolding tree_ok_def by blast
    moreover obtain r where "p = ?S @ r" using p(2) by (auto simp: strict_prefix_def prefix_def)
    ultimately show ?thesis using p(2) files by blast
  qed
  have built: "ok = (fs \<noteq> [])" "bytes = s_ArchiveHeaderText @ package_bytes fs"
    using archive(1) qs(1) archive_loop_quiet [OF client(1) q(1) S(1), of qs s_ArchiveHeaderText False, OF below] S(2)
    by (auto simp: BuildPackageArchive_def AppendArchiveText_def fs_def)
  have ne: "fs \<noteq> []" using same [of r0 b0] some by auto
  have pok: "package_ok ([] @ fs)"
  proof -
    have "distinct (map fst fs)" unfolding fs_def
      by (rule files_of_distinct [OF qs(2)]) (use below in \<open>auto simp: strict_prefix_def\<close>)
    moreover have "\<not> strict_prefix a b" if "(a, x) \<in> set fs" "(b, y) \<in> set fs" for a b x y
    proof
      assume "strict_prefix a b"
      then have "strict_prefix (?S @ a) (?S @ b)" by (auto simp: strict_prefix_def)
      then show False using ancestors [OF client(1), of "?S @ b" "?S @ a"] same [THEN iffD2, OF that(1)]
        same [THEN iffD2, OF that(2)] by simp
    qed
    moreover have "IsSafeArchiveRelativePath (path_text False r) \<and> list_all segment r \<and> CanRepresentStreamSize (length b)"
      if "(r, b) \<in> set fs" for r b
    proof -
      have n: "node_at c (?S @ r) = Some (Regular b)" using that same by simp
      then have "names (?S @ r)" using parent_dir [OF client(1) n] iff that by auto
      then show ?thesis using files [OF n] names_segments [of r] by simp
    qed
    ultimately show ?thesis by (fastforce simp: package_ok_def)
  qed
  have rd: "ReadWholeBinaryFile archivePath s = (Some bytes, False, s)"
    by (rule ReadWholeBinaryFile_quiet [OF q(2) server(7) archive(2)])
  have hl: "NextLfByteLine bytes 0 = (Some s_ArchiveHeaderLine, length s_ArchiveHeaderText)"
    using NextLfByteLine_line [of s_ArchiveHeaderLine "[]" "package_bytes fs"]
    by (simp add: built(2) s_ArchiveHeaderLine_def s_ArchiveHeaderText_def LF_def CR_def)
  obtain s1 where s1: "EnsureEmptyDirectory_at target s = (True, False, s1)" "quiet s1" "tree_ok s1"
    "\<And>p. node_at s1 p = (if prefix p ?D then Some Dir else if prefix ?D p then None else node_at s p)"
    using EnsureEmptyDirectory_quiet [OF server(1) q(2) server(3-6)] by auto
  have "extracted ?D [] s1" using s1 by (auto simp: extracted_def package_node_def)
  then obtain s' where s': "extract_loop bytes target (length s_ArchiveHeaderText) 0 s1 = (None, s')" "extracted ?D fs s'"
    using extract_package [OF D(1) server(5) pok, of s1 0 s_ArchiveHeaderText] ne D(2) built(2) by auto
  have "ExtractCrashArchive archivePath target s = (None, s')"
    using rd hl s1(1) s'(1) by (simp add: ExtractCrashArchive_def)
  moreover have "node_at s' (?D @ r) = Some (Regular b) \<longleftrightarrow> (r, b) \<in> set fs" for r b
  proof -
    have "map_of fs r = Some b \<longleftrightarrow> (r, b) \<in> set fs" using pok by (simp add: package_ok_def)
    moreover have "node_at s' (?D @ r) = package_node fs r" using s'(2) by (simp add: extracted_def)
    ultimately show ?thesis by (cases "map_of fs r") (simp_all add: package_node_def)
  qed
  ultimately show ?thesis using built(1) ne same s'(2) by (auto simp: extracted_def)
qed

text \<open>A package of one file in a subdirectory, and a server that holds its archive.\<close>

definition example_client :: Host where
  "example_client = \<lparr>entries = [([[0x73]], Dir), ([[0x73], [0x64]], Dir), ([[0x73], [0x64], [0x66]], Regular [0x58, LF])],
     cwd = [], faults = []\<rparr>"

definition example_archive :: "u8 list" where
  "example_archive = s_ArchiveHeaderText @ s_ArchiveFileHeaderPrefix @ [0x64, 0x2F, 0x66, 0x20, 0x32, LF, 0x58, LF]
     @ s_ArchiveEntryEndText"

definition example_server :: Host where
  "example_server = \<lparr>entries = [([[0x61]], Regular example_archive)], cwd = [], faults = []\<rparr>"

lemma example_built: "BuildPackageArchive [0x2F, 0x73] example_client = (True, example_archive, example_client)"
proof -
  have "RecursiveDirectoryIterator [0x2F, 0x73] example_client
      = ([[0x2F, 0x73, 0x2F, 0x64], [0x2F, 0x73, 0x2F, 0x64, 0x2F, 0x66]], False, example_client)"
    by code_simp
  moreover have "IsRegularFile_at [0x2F, 0x73, 0x2F, 0x64] example_client = (False, False, example_client)"
    "IsRegularFile_at [0x2F, 0x73, 0x2F, 0x64, 0x2F, 0x66] example_client = (True, False, example_client)"
    by code_simp+
  moreover have "ReadWholeBinaryFile [0x2F, 0x73, 0x2F, 0x64, 0x2F, 0x66] example_client
      = (Some [0x58, LF], False, example_client)"
  proof -
    have "lookup example_client [0x2F, 0x73, 0x2F, 0x64, 0x2F, 0x66] = Some (Regular [0x58, LF])" by code_simp
    then show ?thesis
      by (intro ReadWholeBinaryFile_quiet) (simp_all add: quiet_def example_client_def CanRepresentStreamSize_def)
  qed
  moreover have "lexically_relative [0x2F, 0x73, 0x2F, 0x64, 0x2F, 0x66] [0x2F, 0x73] = [0x64, 0x2F, 0x66]"
    "append_entry s_ArchiveHeaderText (toGenericString True [0x64, 0x2F, 0x66]) [0x58, LF] = example_archive"
    by code_simp+
  ultimately show ?thesis by (simp add: BuildPackageArchive_def AppendArchiveText_def)
qed

theorem crash_package_roundtrip_witness:
  "\<exists>s'. ExtractCrashArchive [0x2F, 0x61] [0x2F, 0x78] example_server = (None, s')
     \<and> node_at s' [[0x78], [0x64], [0x66]] = Some (Regular [0x58, LF])"
proof -
  have paths: "resolve [] [0x2F, 0x73] = [[0x73]]" "is_absolute [0x2F, 0x73]" "lexically_normal [0x2F, 0x73] = [0x2F, 0x73]"
    "resolve [] [0x2F, 0x78] = [[0x78]]" "is_absolute [0x2F, 0x78]" "lexically_normal [0x2F, 0x78] = [0x2F, 0x78]"
    by code_simp+
  have hosts: "tree_ok example_client" "tree_ok example_server"
    "lookup example_server [0x2F, 0x61] = Some (Regular example_archive)"
    "node_at example_client [[0x73]] = Some Dir" "node_at example_client [[0x73], [0x64], [0x66]] = Some (Regular [0x58, LF])"
    by code_simp+
  have n: "length example_archive = 32" by code_simp
  have safe: "IsSafeArchiveRelativePath (path_text False [[0x64], [0x66]])" by code_simp
  have files: "IsSafeArchiveRelativePath (path_text False r) \<and> CanRepresentStreamSize (length b)"
    if "node_at example_client (resolve [] [0x2F, 0x73] @ r) = Some (Regular b)" for r b
  proof -
    have "r = [[0x64], [0x66]] \<and> b = [0x58, LF]"
      using that by (auto simp: paths node_at_def example_client_def split: if_splits)
    then show ?thesis using safe by (simp add: CanRepresentStreamSize_def)
  qed
  have room: "node_at example_server p \<in> {None, Some Dir}" if "strict_prefix p (resolve [] [0x2F, 0x78])" for p
    using that by (cases p) (auto simp: paths node_at_def strict_prefix_def)
  obtain s' where s': "ExtractCrashArchive [0x2F, 0x61] [0x2F, 0x78] example_server = (None, s')"
    "\<And>r b. node_at s' (resolve [] [0x2F, 0x78] @ r) = Some (Regular b)
       \<longleftrightarrow> node_at example_client (resolve [] [0x2F, 0x73] @ r) = Some (Regular b)"
    using crash_package_roundtrip [OF hosts(1) _ paths(2,3) _ files _ example_built _ hosts(2) _ paths(5,6) _ room hosts(3),
        of "[[0x64], [0x66]]" "[0x58, LF]"] paths hosts(4,5) n
    by (auto simp: example_client_def example_server_def CanRepresentStreamSize_def)
  then show ?thesis using s'(2) [of "[[0x64], [0x66]]" "[0x58, LF]"] paths hosts(5) by auto
qed

end
