(* ===== verification/Telemetry_Codec.thy ===== *)
theory Telemetry_Codec
  imports Binary
begin

text \<open>
  Telemetry events: the kinds and headers of \<^verbatim>\<open>src/core/telemetry/event.h\<close>, the recorder that collects
  events (\<^verbatim>\<open>recorder.h\<close>, \<^verbatim>\<open>recorder.cpp\<close>) and the wire format of single events and of streams
  (\<^verbatim>\<open>codec.h\<close>, \<^verbatim>\<open>codec.cpp\<close>). A packed header is the concatenation of its fields in little-endian order. An
  enumeration keeps the word it is stored in, because a decoded header may hold any. The clock that
  stamps a recorded event is an argument; a pointer is an option of the bytes behind it.
\<close>

section \<open>Packed fields\<close>

fun split_fields :: "nat list \<Rightarrow> u8 list \<Rightarrow> u8 list list" where
  "split_fields [] b = []"
| "split_fields (n # ns) b = take n b # split_fields ns (drop n b)"

section \<open>Event kinds and capture flags\<close>

definition s_TelemetryFormatVersion :: u16 where "s_TelemetryFormatVersion = 1"
definition s_EventMagic :: u32 where "s_EventMagic = 0x4E574254"

definition Kind_Unknown :: u16 where "Kind_Unknown = 0"
definition Kind_TextLog :: u16 where "Kind_TextLog = 1"
definition Kind_Diagnostic :: u16 where "Kind_Diagnostic = 2"
definition Kind_PerfFrame :: u16 where "Kind_PerfFrame = 3"
definition Kind_FrameGraphFrame :: u16 where "Kind_FrameGraphFrame = 4"
definition Kind_MemoryFrame :: u16 where "Kind_MemoryFrame = 5"

definition Capture_None :: u32 where "Capture_None = 0"
definition Capture_TextLog :: u32 where "Capture_TextLog = push_bit 0 1"
definition Capture_Diagnostic :: u32 where "Capture_Diagnostic = push_bit 1 1"
definition Capture_Perf :: u32 where "Capture_Perf = push_bit 2 1"
definition Capture_FrameGraph :: u32 where "Capture_FrameGraph = push_bit 3 1"
definition Capture_All :: u32 where
  "Capture_All = Capture_TextLog OR Capture_Diagnostic OR Capture_Perf OR Capture_FrameGraph"

definition AnyCapture :: "u32 \<Rightarrow> bool" where
  "AnyCapture v = (v \<noteq> 0)"

definition HasCapture :: "u32 \<Rightarrow> u32 \<Rightarrow> bool" where
  "HasCapture v flag = AnyCapture (v AND flag)"

definition IsValidEventKind :: "u16 \<Rightarrow> bool" where
  "IsValidEventKind kind =
     (kind \<in> {Kind_Unknown, Kind_TextLog, Kind_Diagnostic, Kind_PerfFrame, Kind_FrameGraphFrame, Kind_MemoryFrame})"

definition CaptureFlagForEventKind :: "u16 \<Rightarrow> u32" where
  "CaptureFlagForEventKind kind =
     (if kind = Kind_TextLog then Capture_TextLog
      else if kind = Kind_Diagnostic then Capture_Diagnostic
      else if kind = Kind_PerfFrame \<or> kind = Kind_MemoryFrame then Capture_Perf
      else if kind = Kind_FrameGraphFrame then Capture_FrameGraph
      else Capture_None)"

definition CaptureAllowsEventKind :: "u32 \<Rightarrow> u16 \<Rightarrow> bool" where
  "CaptureAllowsEventKind capture kind = HasCapture capture (CaptureFlagForEventKind kind)"

record EventHeader =
  h_magic :: u32
  h_version :: u16
  h_kind :: u16
  h_reserved :: u8
  h_streamId :: u32
  h_frameIndex :: u64
  h_timestampNanoseconds :: u64
  h_payloadBytes :: u64

definition EventHeader_new :: EventHeader where
  "EventHeader_new = \<lparr>h_magic = s_EventMagic, h_version = s_TelemetryFormatVersion, h_kind = Kind_Unknown, h_reserved = 0,
     h_streamId = 0, h_frameIndex = 0, h_timestampNanoseconds = 0, h_payloadBytes = 0\<rparr>"

definition header_valid :: "EventHeader \<Rightarrow> bool" where
  "header_valid h = (h_magic h = s_EventMagic \<and> h_kind h \<noteq> Kind_Unknown \<and> IsValidEventKind (h_kind h))"

section \<open>The recorder\<close>

record EventRecord =
  e_header :: EventHeader
  e_payload :: "u8 list"

record Recorder =
  r_events :: "EventRecord list"
  r_capture :: u32

definition Recorder_new :: Recorder where
  "Recorder_new = \<lparr>r_events = [], r_capture = Capture_None\<rparr>"

definition recorder_clear :: "Recorder \<Rightarrow> Recorder" where
  "recorder_clear r = r\<lparr>r_events := []\<rparr>"

definition setCaptureOptions :: "u32 \<Rightarrow> Recorder \<Rightarrow> Recorder" where
  "setCaptureOptions options r =
     (let r = r\<lparr>r_capture := options\<rparr> in if \<not> AnyCapture (r_capture r) then r\<lparr>r_events := []\<rparr> else r)"

definition enabledUnlocked :: "u16 \<Rightarrow> Recorder \<Rightarrow> bool" where
  "enabledUnlocked kind r = CaptureAllowsEventKind (r_capture r) kind"

definition eventCount :: "Recorder \<Rightarrow> nat" where
  "eventCount r = length (r_events r)"

definition eventAt :: "nat \<Rightarrow> Recorder \<Rightarrow> EventRecord option" where
  "eventAt index r = (if index \<ge> length (r_events r) then None else Some (r_events r ! index))"

definition appendUnlocked :: "EventHeader \<Rightarrow> u8 list option \<Rightarrow> usize \<Rightarrow> Recorder \<Rightarrow> bool \<times> Recorder" where
  "appendUnlocked header payload payloadBytes r =
     (if \<not> header_valid header then (False, r)
      else if h_payloadBytes header \<noteq> payloadBytes then (False, r)
      else if payloadBytes \<noteq> 0 \<and> payload = None then (False, r)
      else let copied = (case payload of None \<Rightarrow> [] | Some bytes \<Rightarrow> take (unat payloadBytes) bytes)
           in (True, r\<lparr>r_events := r_events r @ [\<lparr>e_header = header, e_payload = copied\<rparr>]\<rparr>))"

text \<open>The two ways to take over a payload, by moving it or by copying its bytes, have the same effect.\<close>

definition appendPayloadUnlocked :: "EventHeader \<Rightarrow> u8 list \<Rightarrow> Recorder \<Rightarrow> bool \<times> Recorder" where
  "appendPayloadUnlocked header payload r =
     (if \<not> header_valid header then (False, r)
      else if h_payloadBytes header \<noteq> of_nat (length payload) then (False, r)
      else (True, r\<lparr>r_events := r_events r @ [\<lparr>e_header = header, e_payload = payload\<rparr>]\<rparr>))"

definition MakeEventHeader :: "u64 \<Rightarrow> u16 \<Rightarrow> u64 \<Rightarrow> usize \<Rightarrow> u32 \<Rightarrow> EventHeader" where
  "MakeEventHeader now kind frameIndex payloadBytes streamId =
     EventHeader_new\<lparr>h_kind := kind, h_streamId := streamId, h_frameIndex := frameIndex,
       h_timestampNanoseconds := now, h_payloadBytes := payloadBytes\<rparr>"

definition recordBinary :: "u64 \<Rightarrow> u16 \<Rightarrow> u64 \<Rightarrow> u8 list option \<Rightarrow> usize \<Rightarrow> u32 \<Rightarrow> Recorder \<Rightarrow> bool \<times> Recorder" where
  "recordBinary now kind frameIndex payload payloadBytes streamId r =
     (if \<not> enabledUnlocked kind r then (False, r)
      else appendUnlocked (MakeEventHeader now kind frameIndex payloadBytes streamId) payload payloadBytes r)"

definition recordPayload :: "u64 \<Rightarrow> u16 \<Rightarrow> u64 \<Rightarrow> u8 list \<Rightarrow> u32 \<Rightarrow> Recorder \<Rightarrow> bool \<times> Recorder" where
  "recordPayload now kind frameIndex payload streamId r =
     (if \<not> enabledUnlocked kind r then (False, r)
      else appendPayloadUnlocked (MakeEventHeader now kind frameIndex (of_nat (length payload)) streamId) payload r)"

text \<open>\<open>RecordBuiltPayload\<close>: the payload is only built when its kind is captured.\<close>

definition RecordBuiltPayload ::
    "u64 \<Rightarrow> u16 \<Rightarrow> u64 \<Rightarrow> u32 \<Rightarrow> (unit \<Rightarrow> bool \<times> u8 list) \<Rightarrow> Recorder \<Rightarrow> bool \<times> Recorder" where
  "RecordBuiltPayload now kind frameIndex streamId buildPayload r =
     (if \<not> enabledUnlocked kind r then (False, r)
      else let (ok, payload) = buildPayload () in
        if \<not> ok then (False, r) else recordPayload now kind frameIndex payload streamId r)"

section \<open>Encoding\<close>

definition s_StreamMagic :: u32 where "s_StreamMagic = 0x4E574253"

record EncodedStreamHeader =
  s_magic :: u32
  s_version :: u16
  s_reserved :: u16
  s_eventCount :: u64
  s_payloadBytes :: u64

definition stream_layout :: "nat list" where "stream_layout = [4, 2, 2, 8, 8]"

definition stream_image :: "EncodedStreamHeader \<Rightarrow> u8 list" where
  "stream_image h = concat [le_bytes 4 (s_magic h), le_bytes 2 (s_version h), le_bytes 2 (s_reserved h),
     le_bytes 8 (s_eventCount h), le_bytes 8 (s_payloadBytes h)]"

definition stream_of_image :: "u8 list \<Rightarrow> EncodedStreamHeader" where
  "stream_of_image b = (let f = split_fields stream_layout b in
     \<lparr>s_magic = le_value (f ! 0), s_version = le_value (f ! 1), s_reserved = le_value (f ! 2),
      s_eventCount = le_value (f ! 3), s_payloadBytes = le_value (f ! 4)\<rparr>)"

definition event_layout :: "nat list" where "event_layout = [4, 2, 2, 1, 4, 8, 8, 8]"

definition EncodeHeader :: "EventHeader \<Rightarrow> u8 list" where
  "EncodeHeader h = concat [le_bytes 4 (h_magic h), le_bytes 2 (h_version h), le_bytes 2 (h_kind h), le_bytes 1 (h_reserved h),
     le_bytes 4 (h_streamId h), le_bytes 8 (h_frameIndex h), le_bytes 8 (h_timestampNanoseconds h), le_bytes 8 (h_payloadBytes h)]"

definition DecodeHeader :: "u8 list \<Rightarrow> EventHeader" where
  "DecodeHeader b = (let f = split_fields event_layout b in
     \<lparr>h_magic = le_value (f ! 0), h_version = le_value (f ! 1), h_kind = le_value (f ! 2), h_reserved = le_value (f ! 3),
      h_streamId = le_value (f ! 4), h_frameIndex = le_value (f ! 5), h_timestampNanoseconds = le_value (f ! 6),
      h_payloadBytes = le_value (f ! 7)\<rparr>)"

definition ValidatePayloadPointer :: "u8 list option \<Rightarrow> usize \<Rightarrow> bool" where
  "ValidatePayloadPointer payload payloadBytes = (payloadBytes = 0 \<or> payload \<noteq> None)"

definition ValidateEventPayload :: "EventHeader \<Rightarrow> u8 list option \<Rightarrow> usize \<Rightarrow> bool" where
  "ValidateEventPayload header payload payloadBytes =
     (ValidatePayloadPointer payload payloadBytes \<and> h_payloadBytes header = payloadBytes \<and> header_valid header)"

definition ValidateStreamHeader :: "EncodedStreamHeader \<Rightarrow> bool" where
  "ValidateStreamHeader h = (s_magic h = s_StreamMagic \<and> s_reserved h = 0)"

definition pointed :: "u8 list option \<Rightarrow> usize \<Rightarrow> u8 list" where
  "pointed payload payloadBytes = (case payload of None \<Rightarrow> [] | Some bytes \<Rightarrow> take (unat payloadBytes) bytes)"

definition AppendEncodedEvent ::
    "u8 list \<Rightarrow> EventHeader \<Rightarrow> u8 list option \<Rightarrow> usize \<Rightarrow> binary_error + bool \<times> u8 list" where
  "AppendEncodedEvent outBytes header payload payloadBytes =
     (if \<not> ValidateEventPayload header payload payloadBytes then Inr (False, outBytes)
      else if payloadBytes > umax - 37 then Inr (False, outBytes)
      else case AppendPOD outBytes (EncodeHeader header) of
             Inl e \<Rightarrow> Inl e
           | Inr out \<Rightarrow>
               Inr (True, if payloadBytes \<noteq> 0 then AppendBytesNoReserveUnchecked out (pointed payload payloadBytes) else out))"

definition EncodeEvent :: "EventHeader \<Rightarrow> u8 list option \<Rightarrow> usize \<Rightarrow> u8 list \<Rightarrow> binary_error + bool \<times> u8 list" where
  "EncodeEvent header payload payloadBytes outBytes =
     (if \<not> ValidateEventPayload header payload payloadBytes then Inr (False, outBytes)
      else let (fits, encodedBytes) = AddBinaryReserveBytes 37 payloadBytes in
        if \<not> fits then Inr (False, outBytes)
        else case AppendEncodedEvent [] header payload payloadBytes of
               Inl e \<Rightarrow> Inl e
             | Inr (ok, out) \<Rightarrow> Inr (ok \<and> length out = unat encodedBytes, out))"

definition record_bytes :: "EventRecord \<Rightarrow> usize" where
  "record_bytes e = of_nat (length (e_payload e))"

definition EncodeEvent_record :: "EventRecord \<Rightarrow> u8 list \<Rightarrow> binary_error + bool \<times> u8 list" where
  "EncodeEvent_record e outBytes = EncodeEvent (e_header e) (Some (e_payload e)) (record_bytes e) outBytes"

text \<open>The first loop of \<open>EncodeEventStream\<close> checks the events and adds up their sizes, the second appends them.\<close>

fun stream_size :: "EventRecord list \<Rightarrow> usize \<Rightarrow> usize option" where
  "stream_size [] payloadBytes = Some payloadBytes"
| "stream_size (e # es) payloadBytes =
     (if \<not> ValidateEventPayload (e_header e) (Some (e_payload e)) (record_bytes e) then None
      else let (fits, n) = AddBinaryReserveBytes payloadBytes 37 in
        if \<not> fits then None
        else let (fits, n) = AddBinaryReserveBytes n (record_bytes e) in
          if \<not> fits then None else stream_size es n)"

fun append_events :: "EventRecord list \<Rightarrow> u8 list \<Rightarrow> binary_error + bool \<times> u8 list" where
  "append_events [] outBytes = Inr (True, outBytes)"
| "append_events (e # es) outBytes =
     (case AppendEncodedEvent outBytes (e_header e) (Some (e_payload e)) (record_bytes e) of
        Inl err \<Rightarrow> Inl err
      | Inr (ok, out) \<Rightarrow> if \<not> ok then Inr (False, out) else append_events es out)"

definition EncodeEventStream :: "Recorder option \<Rightarrow> u8 list \<Rightarrow> binary_error + bool \<times> u8 list" where
  "EncodeEventStream events outBytes =
     (case events of
        None \<Rightarrow> Inr (False, outBytes)
      | Some r \<Rightarrow>
          (case stream_size (r_events r) 0 of
             None \<Rightarrow> Inr (False, outBytes)
           | Some payloadBytes \<Rightarrow>
               (case AddBinaryReserveBytes 24 payloadBytes of
                  (fits, encodedBytes) \<Rightarrow>
                    if \<not> fits then Inr (False, outBytes)
                    else (case AppendPOD [] (stream_image \<lparr>s_magic = s_StreamMagic, s_version = s_TelemetryFormatVersion,
                             s_reserved = 0, s_eventCount = of_nat (eventCount r), s_payloadBytes = payloadBytes\<rparr>) of
                           Inl e \<Rightarrow> Inl e
                         | Inr out \<Rightarrow>
                             (case append_events (r_events r) out of
                                Inl e \<Rightarrow> Inl e
                              | Inr (ok, out) \<Rightarrow> Inr (ok \<and> length out = unat encodedBytes, out))))))"

section \<open>Decoding\<close>

datatype DecodeStatus = Decode_Ok | TruncatedHeader | InvalidHeader | PayloadSizeOverflow | TruncatedPayload

type_synonym DecodeResult = "DecodeStatus \<times> nat"

definition ReadHeader :: "u8 list \<Rightarrow> DecodeResult \<times> EventHeader" where
  "ReadHeader encoded =
     (case ReadPOD encoded 0 37 of
        None \<Rightarrow> ((TruncatedHeader, 0), EventHeader_new)
      | Some (b, cursor) \<Rightarrow> ((Decode_Ok, cursor), DecodeHeader b))"

definition DecodeEvent :: "u8 list option \<Rightarrow> DecodeResult \<times> EventRecord" where
  "DecodeEvent bytes =
     (let out = \<lparr>e_header = EventHeader_new, e_payload = []\<rparr> in
      case bytes of
        None \<Rightarrow> ((TruncatedHeader, 0), out)
      | Some encoded \<Rightarrow>
          if length encoded < 37 then ((TruncatedHeader, 0), out)
          else let ((status, bytesRead), header) = ReadHeader encoded; out = out\<lparr>e_header := header\<rparr> in
            if status \<noteq> Decode_Ok then ((status, bytesRead), out)
            else if \<not> header_valid header then ((InvalidHeader, bytesRead), out)
            else if h_payloadBytes header > umax then ((PayloadSizeOverflow, bytesRead), out)
            else let payloadBytes = unat (h_payloadBytes header) in
              if length encoded - bytesRead < payloadBytes then ((TruncatedPayload, bytesRead), out)
              else ((Decode_Ok, bytesRead + payloadBytes), out\<lparr>e_payload := take payloadBytes (drop bytesRead encoded)\<rparr>))"

primrec decode_events :: "nat \<Rightarrow> u8 list \<Rightarrow> nat \<Rightarrow> nat \<Rightarrow> Recorder \<Rightarrow> DecodeResult \<times> Recorder" where
  "decode_events 0 encoded cursor streamEnd r =
     (if cursor \<noteq> streamEnd then ((InvalidHeader, cursor), r) else ((Decode_Ok, cursor), r))"
| "decode_events (Suc n) encoded cursor streamEnd r =
     (let ((status, bytesRead), event) = DecodeEvent (Some (take (streamEnd - cursor) (drop cursor encoded))) in
      if status \<noteq> Decode_Ok then ((status, cursor + bytesRead), r)
      else let cursor = cursor + bytesRead; (ok, r) = appendPayloadUnlocked (e_header event) (e_payload event) r in
        if \<not> ok then ((InvalidHeader, cursor), r) else decode_events n encoded cursor streamEnd r)"

definition DecodeEventStream :: "u8 list option \<Rightarrow> Recorder \<Rightarrow> DecodeResult \<times> Recorder" where
  "DecodeEventStream bytes r =
     (let r = recorder_clear r in
      case bytes of
        None \<Rightarrow> ((TruncatedHeader, 0), r)
      | Some encoded \<Rightarrow>
          if length encoded < 24 then ((TruncatedHeader, 0), r)
          else (case ReadPOD encoded 0 24 of
                 None \<Rightarrow> ((TruncatedHeader, 0), r)
               | Some (b, cursor) \<Rightarrow>
                   let streamHeader = stream_of_image b in
                   if \<not> ValidateStreamHeader streamHeader then ((InvalidHeader, cursor), r)
                   else if s_payloadBytes streamHeader > umax then ((PayloadSizeOverflow, cursor), r)
                   else let streamPayloadBytes = unat (s_payloadBytes streamHeader) in
                     if length encoded - cursor < streamPayloadBytes then ((TruncatedPayload, cursor), r)
                     else decode_events (unat (s_eventCount streamHeader)) encoded cursor (cursor + streamPayloadBytes) r))"

section \<open>Images of headers\<close>

lemma split_fields_concat: "split_fields (map length fs) (concat fs @ suf) = fs"
  by (induction fs) simp_all

lemma concat_split_fields: "length b = sum_list ns \<Longrightarrow> concat (split_fields ns b) = b"
  by (induction ns arbitrary: b) simp_all

lemma bit_le_value: "bit (le_value bs :: 'a::len word) i \<Longrightarrow> i < 8 * length bs"
proof (induction bs arbitrary: i)
  case (Cons b bs)
  show ?case
  proof (cases "i < 8")
    case False
    then have "bit (le_value bs :: 'a word) (i - 8)" using Cons.prems bit_imp_le_length [of b i] by (auto simp: bit_simps)
    then show ?thesis using Cons.IH [of "i - 8"] by simp
  qed simp
qed simp

lemma le_bytes_value: "8 * length bs \<le> LENGTH('a) \<Longrightarrow> le_bytes (length bs) (le_value bs :: 'a::len word) = bs"
proof (induction bs)
  case (Cons b bs)
  have "ucast (ucast b OR push_bit 8 (le_value bs) :: 'a word) = b"
  proof (rule bit_word_eqI)
    fix i
    assume i: "i < LENGTH(8)"
    then have "i < LENGTH('a)" using Cons.prems by simp
    then show "bit (ucast (ucast b OR push_bit 8 (le_value bs) :: 'a word) :: u8) i = bit b i" using i by (simp add: bit_simps)
  qed
  moreover have "drop_bit 8 (ucast b OR push_bit 8 (le_value bs) :: 'a word) = le_value bs"
  proof (rule bit_word_eqI)
    fix i
    assume "i < LENGTH('a)"
    have "i + 8 < LENGTH('a)" if "bit (le_value bs :: 'a word) i" using bit_le_value [OF that] Cons.prems by simp
    moreover have "\<not> bit b (8 + i)" using bit_imp_le_length [of b "8 + i"] by auto
    ultimately show "bit (drop_bit 8 (ucast b OR push_bit 8 (le_value bs) :: 'a word)) i = bit (le_value bs :: 'a word) i"
      by (auto simp: bit_simps ac_simps)
  qed
  ultimately show ?case using Cons by simp
qed simp

lemma le_value_whole: "LENGTH('a) = 8 * n \<Longrightarrow> le_value (le_bytes n w) = (w :: 'a::len word)"
  by (simp add: le_value_bytes take_bit_word_eq_self)

lemma le_value_fields [simp]:
  "le_value (le_bytes 1 x) = (x :: u8)" "le_value (le_bytes (Suc 0) x) = (x :: u8)" "le_value (le_bytes 2 y) = (y :: u16)"
  "le_value (le_bytes 4 z) = (z :: u32)" "le_value (le_bytes 8 w) = (w :: u64)"
  by (rule le_value_whole; simp)+

lemma length_header [simp]: "length (EncodeHeader h) = 37" "length (stream_image s) = 24"
  by (simp_all add: EncodeHeader_def stream_image_def)

lemma DecodeHeader_EncodeHeader [simp]: "DecodeHeader (EncodeHeader h @ suf) = h" "DecodeHeader (EncodeHeader h) = h"
proof -
  let ?f = "[le_bytes 4 (h_magic h), le_bytes 2 (h_version h), le_bytes 2 (h_kind h), le_bytes 1 (h_reserved h),
     le_bytes 4 (h_streamId h), le_bytes 8 (h_frameIndex h), le_bytes 8 (h_timestampNanoseconds h), le_bytes 8 (h_payloadBytes h)]"
  have "split_fields event_layout (EncodeHeader h @ suf) = ?f" for suf
    using split_fields_concat [of ?f suf] by (simp only: EncodeHeader_def event_layout_def list.map length_le_bytes)
  then show "DecodeHeader (EncodeHeader h @ suf) = h" for suf by (simp add: DecodeHeader_def Let_def)
  from this [of "[]"] show "DecodeHeader (EncodeHeader h) = h" by simp
qed

lemma stream_of_image_image [simp]: "stream_of_image (stream_image s @ suf) = s" "stream_of_image (stream_image s) = s"
proof -
  let ?f = "[le_bytes 4 (s_magic s), le_bytes 2 (s_version s), le_bytes 2 (s_reserved s),
     le_bytes 8 (s_eventCount s), le_bytes 8 (s_payloadBytes s)]"
  have "split_fields stream_layout (stream_image s @ suf) = ?f" for suf
    using split_fields_concat [of ?f suf] by (simp only: stream_image_def stream_layout_def list.map length_le_bytes)
  then show "stream_of_image (stream_image s @ suf) = s" for suf by (simp add: stream_of_image_def Let_def)
  from this [of "[]"] show "stream_of_image (stream_image s) = s" by simp
qed

lemma le_bytes_field:
  "length b = n \<Longrightarrow> 8 * n \<le> LENGTH('a) \<Longrightarrow> le_bytes n (le_value b :: 'a::len word) = b"
  using le_bytes_value [of b] by simp

lemma EncodeHeader_DecodeHeader: "length b = 37 \<Longrightarrow> EncodeHeader (DecodeHeader b) = b"
  using concat_split_fields [of b event_layout]
  by (simp add: EncodeHeader_def DecodeHeader_def event_layout_def Let_def le_bytes_field del: One_nat_def)

lemma stream_image_of_image: "length b = 24 \<Longrightarrow> stream_image (stream_of_image b) = b"
  using concat_split_fields [of b stream_layout]
  by (simp add: stream_image_def stream_of_image_def stream_layout_def Let_def le_bytes_field)

section \<open>Events in order\<close>

definition event_ok :: "EventRecord \<Rightarrow> bool" where
  "event_ok e = (header_valid (e_header e) \<and> unat (h_payloadBytes (e_header e)) = length (e_payload e))"

definition recorder_ok :: "Recorder \<Rightarrow> bool" where
  "recorder_ok r = list_all event_ok (r_events r)"

lemma recorder_ok_new: "recorder_ok Recorder_new" "recorder_ok (recorder_clear r)"
  by (simp_all add: recorder_ok_def Recorder_new_def recorder_clear_def)

lemma recorder_ok_setCaptureOptions: "recorder_ok r \<Longrightarrow> recorder_ok (setCaptureOptions o' r)"
  by (simp add: recorder_ok_def setCaptureOptions_def Let_def)

lemma recorder_ok_append:
  assumes "recorder_ok r" "case payload of None \<Rightarrow> True | Some b \<Rightarrow> unat payloadBytes \<le> length b"
  shows "recorder_ok (snd (appendUnlocked header payload payloadBytes r))"
  using assms by (auto simp: appendUnlocked_def recorder_ok_def event_ok_def Let_def min_def split: option.splits)

lemma recorder_ok_appendPayload:
  assumes "recorder_ok r" "length payload < 2 ^ 64"
  shows "recorder_ok (snd (appendPayloadUnlocked header payload r))"
  using assms by (auto simp: appendPayloadUnlocked_def recorder_ok_def event_ok_def unat_of_nat_small)

lemma event_ok_bytes:
  assumes "event_ok e"
  shows "h_payloadBytes (e_header e) = record_bytes e" "unat (record_bytes e) = length (e_payload e)" "length (e_payload e) < 2 ^ 64"
proof -
  have "unat (h_payloadBytes (e_header e)) < 2 ^ LENGTH(64)" by (rule unsigned_less)
  then show l: "length (e_payload e) < 2 ^ 64" using assms by (simp add: event_ok_def)
  show "h_payloadBytes (e_header e) = record_bytes e" using assms
    unfolding event_ok_def record_bytes_def by (metis of_nat_unat ucast_id)
  show "unat (record_bytes e) = length (e_payload e)" using l by (simp add: record_bytes_def unat_of_nat_small)
qed

lemma event_ok_Validate: "event_ok e \<Longrightarrow> ValidateEventPayload (e_header e) (Some (e_payload e)) (record_bytes e)"
  using event_ok_bytes [of e] by (simp add: ValidateEventPayload_def ValidatePayloadPointer_def event_ok_def)

definition event_bytes :: "EventRecord \<Rightarrow> u8 list" where
  "event_bytes e = EncodeHeader (e_header e) @ e_payload e"

definition stream_bytes :: "EventRecord list \<Rightarrow> u8 list" where
  "stream_bytes es = concat (map event_bytes es)"

lemma stream_bytes_simps [simp]: "stream_bytes [] = []" "stream_bytes (e # es) = event_bytes e @ stream_bytes es"
  "stream_bytes (es @ es') = stream_bytes es @ stream_bytes es'"
  by (simp_all add: stream_bytes_def)

lemma length_event_bytes [simp]: "length (event_bytes e) = 37 + length (e_payload e)"
  by (simp add: event_bytes_def)

lemma length_stream_bytes: "37 * length es \<le> length (stream_bytes es)"
  by (induction es) simp_all

section \<open>Encoding succeeds within the sizes\<close>

lemma AppendPOD_fits: "length out + length b < 2 ^ 64 \<Longrightarrow> AppendPOD out b = Inr (out @ b)"
  by (auto simp: AppendPOD_def CanAppendBytes_def usize_max_def)

lemma AppendEncodedEvent_fits:
  assumes "event_ok e" "length out + length (event_bytes e) < 2 ^ 64"
  shows "AppendEncodedEvent out (e_header e) (Some (e_payload e)) (record_bytes e) = Inr (True, out @ event_bytes e)"
proof -
  note b = event_ok_bytes [OF assms(1)]
  have "\<not> umax - 37 < record_bytes e"
    unfolding umax_minus_less using assms(2) b(2) by simp
  moreover have "record_bytes e = 0 \<longleftrightarrow> e_payload e = []" using b(2) by (simp add: unat_eq_0 [symmetric])
  ultimately show ?thesis
    using event_ok_Validate [OF assms(1)] AppendPOD_fits [of out "EncodeHeader (e_header e)"] assms(2) b
    by (simp add: AppendEncodedEvent_def pointed_def event_bytes_def not_less)
qed

lemma stream_size_sum:
  "list_all event_ok es \<Longrightarrow> stream_size es n =
    (if unat n + length (stream_bytes es) < 2 ^ 64 then Some (of_nat (unat n + length (stream_bytes es))) else None)"
proof (induction es arbitrary: n)
  case Nil
  show ?case using unsigned_less [of n] by simp
next
  case (Cons e es)
  have e: "event_ok e" using Cons.prems by simp
  note b = event_ok_bytes [OF e] and v = event_ok_Validate [OF e]
  obtain f1 n1 where a1: "AddBinaryReserveBytes n 37 = (f1, n1)" by fastforce
  obtain f2 n2 where a2: "AddBinaryReserveBytes n1 (record_bytes e) = (f2, n2)" by fastforce
  have s1: "f1 \<longleftrightarrow> unat n + 37 < 2 ^ 64" "f1 \<Longrightarrow> unat n1 = unat n + 37"
    using AddBinaryReserveBytes_spec [of n 37] a1 by simp_all
  have s2: "f2 \<longleftrightarrow> unat n1 + length (e_payload e) < 2 ^ 64" "f2 \<Longrightarrow> unat n2 = unat n1 + length (e_payload e)"
    using AddBinaryReserveBytes_spec [of n1 "record_bytes e"] a2 b by simp_all
  show ?case
  proof (cases "f1 \<and> f2")
    case True
    then have "unat n2 = unat n + (37 + length (e_payload e))" using s1 s2 by simp
    then show ?thesis using True v a1 a2 Cons by (simp add: ac_simps)
  next
    case False
    then have "\<not> unat n + 37 + length (e_payload e) < 2 ^ 64" using s1 s2 by auto
    then show ?thesis using False v a1 a2 by auto
  qed
qed

lemma append_events_fits:
  "list_all event_ok es \<Longrightarrow> length out + length (stream_bytes es) < 2 ^ 64 \<Longrightarrow>
    append_events es out = Inr (True, out @ stream_bytes es)"
  by (induction es arbitrary: out) (simp_all add: AppendEncodedEvent_fits)

definition stream_header :: "EventRecord list \<Rightarrow> EncodedStreamHeader" where
  "stream_header es = \<lparr>s_magic = s_StreamMagic, s_version = s_TelemetryFormatVersion, s_reserved = 0,
     s_eventCount = of_nat (length es), s_payloadBytes = of_nat (length (stream_bytes es))\<rparr>"

lemma EncodeEventStream_fits:
  assumes "recorder_ok r"
  shows "EncodeEventStream (Some r) out =
    (if 24 + length (stream_bytes (r_events r)) < 2 ^ 64
     then Inr (True, stream_image (stream_header (r_events r)) @ stream_bytes (r_events r)) else Inr (False, out))"
proof -
  let ?es = "r_events r"
  have es: "list_all event_ok ?es" using assms by (simp add: recorder_ok_def)
  obtain f n where a: "AddBinaryReserveBytes 24 (of_nat (length (stream_bytes ?es))) = (f, n)" by fastforce
  show ?thesis
  proof (cases "length (stream_bytes ?es) < 2 ^ 64")
    case True
    then have u: "unat (of_nat (length (stream_bytes ?es)) :: usize) = length (stream_bytes ?es)"
      by (intro unat_of_nat_small) simp
    then have f: "f \<longleftrightarrow> 24 + length (stream_bytes ?es) < 2 ^ 64" "f \<Longrightarrow> unat n = 24 + length (stream_bytes ?es)"
      using AddBinaryReserveBytes_spec [of 24 "of_nat (length (stream_bytes ?es))"] a by simp_all
    show ?thesis
    proof (cases f)
      case fits: True
      then have "AppendPOD [] (stream_image (stream_header ?es)) = Inr (stream_image (stream_header ?es))"
        using AppendPOD_fits [of "[]" "stream_image (stream_header ?es)"] by simp
      moreover have "append_events ?es (stream_image (stream_header ?es)) = Inr (True, stream_image (stream_header ?es) @ stream_bytes ?es)"
        using f fits es by (intro append_events_fits) simp_all
      ultimately show ?thesis using fits f True a stream_size_sum [OF es, of 0]
        by (simp add: EncodeEventStream_def stream_header_def eventCount_def)
    next
      case False
      then show ?thesis using f True a stream_size_sum [OF es, of 0] by (simp add: EncodeEventStream_def)
    qed
  next
    case False
    then show ?thesis using stream_size_sum [OF es, of 0] by (simp add: EncodeEventStream_def)
  qed
qed

section \<open>Decoding what was encoded\<close>

lemma ReadPOD_prefix: "ReadPOD (b @ suf) 0 (length b) = Some (b, length b)"
  using ReadBytes_middle [of "[]" b suf] by (simp add: ReadPOD_def)

lemma DecodeEvent_event:
  assumes "event_ok e"
  shows "DecodeEvent (Some (event_bytes e @ suf)) = ((Decode_Ok, length (event_bytes e)), e)"
proof -
  have "ReadHeader (event_bytes e @ suf) = ((Decode_Ok, 37), e_header e)"
    using ReadPOD_prefix [of "EncodeHeader (e_header e)" "e_payload e @ suf"] by (simp add: ReadHeader_def event_bytes_def)
  then show ?thesis using assms event_ok_bytes [OF assms]
    by (simp add: DecodeEvent_def event_ok_def event_bytes_def Let_def not_less)
qed

lemma appendPayload_event: "event_ok e \<Longrightarrow> appendPayloadUnlocked (e_header e) (e_payload e) r = (True, r\<lparr>r_events := r_events r @ [e]\<rparr>)"
  using event_ok_bytes [of e] by (simp add: appendPayloadUnlocked_def event_ok_def record_bytes_def)

lemma decode_events_stream:
  "list_all event_ok es \<Longrightarrow> decode_events (length es) (pre @ stream_bytes es @ suf) (length pre)
    (length pre + length (stream_bytes es)) r
   = ((Decode_Ok, length pre + length (stream_bytes es)), r\<lparr>r_events := r_events r @ es\<rparr>)"
proof (induction es arbitrary: pre r)
  case (Cons e es)
  have e: "event_ok e" using Cons.prems by simp
  let ?all = "pre @ stream_bytes (e # es) @ suf" and ?stop = "length pre + length (stream_bytes (e # es))"
  have IH: "decode_events (length es) ?all (length pre + length (event_bytes e)) ?stop (r\<lparr>r_events := r_events r @ [e]\<rparr>)
      = ((Decode_Ok, ?stop), r\<lparr>r_events := r_events r @ e # es\<rparr>)"
    using Cons.IH [of "pre @ event_bytes e" "r\<lparr>r_events := r_events r @ [e]\<rparr>"] Cons.prems
    by (simp add: add.assoc)
  have t: "take (?stop - length pre) (drop (length pre) ?all) = event_bytes e @ stream_bytes es" by simp
  show ?case
    by (simp only: length_Cons decode_events.simps t DecodeEvent_event [OF e] appendPayload_event [OF e] Let_def prod.case IH)
      simp
qed simp

lemma DecodeEventStream_built:
  assumes "recorder_ok r" "24 + length (stream_bytes (r_events r)) < 2 ^ 64"
  shows "DecodeEventStream (Some (stream_image (stream_header (r_events r)) @ stream_bytes (r_events r) @ suf)) r0
    = ((Decode_Ok, 24 + length (stream_bytes (r_events r))), r0\<lparr>r_events := r_events r\<rparr>)"
proof -
  let ?es = "r_events r" and ?h = "stream_header (r_events r)"
  have es: "list_all event_ok ?es" using assms(1) by (simp add: recorder_ok_def)
  have "length ?es < 2 ^ 64" using length_stream_bytes [of ?es] assms(2) by simp
  then have h: "ValidateStreamHeader ?h" "unat (s_eventCount ?h) = length ?es" "unat (s_payloadBytes ?h) = length (stream_bytes ?es)"
    using assms(2) by (simp_all add: ValidateStreamHeader_def stream_header_def unat_of_nat_small)
  show ?thesis
    using ReadPOD_prefix [of "stream_image ?h" "stream_bytes ?es @ suf"] h
      decode_events_stream [OF es, of "stream_image ?h" suf "recorder_clear r0"]
    by (simp add: DecodeEventStream_def Let_def recorder_clear_def)
qed

section \<open>What decoding accepts\<close>

lemma ReadHeader_whole: "37 \<le> length b \<Longrightarrow> ReadHeader b = ((Decode_Ok, 37), DecodeHeader (take 37 b))"
  by (simp add: ReadHeader_def ReadPOD_def ReadBytes_def CanReadBytes_def)

lemma DecodeEvent_bounds:
  assumes "DecodeEvent (Some b) = ((st, n), e)"
  shows "n \<le> length b"
proof (cases "length b < 37")
  case True
  then show ?thesis using assms by (simp add: DecodeEvent_def)
next
  case False
  then show ?thesis using assms ReadHeader_whole [of b]
    by (simp add: DecodeEvent_def Let_def split: if_splits) linarith
qed

lemma DecodeEvent_sound:
  assumes "DecodeEvent (Some b) = ((Decode_Ok, n), e)"
  shows "event_ok e \<and> n = length (event_bytes e) \<and> take n b = event_bytes e"
proof -
  let ?h = "DecodeHeader (take 37 b)"
  have len: "37 \<le> length b" using assms by (auto simp: DecodeEvent_def Let_def split: if_splits)
  then have rh: "ReadHeader b = ((Decode_Ok, 37), ?h)" by (rule ReadHeader_whole)
  let ?p = "unat (h_payloadBytes ?h)"
  have "header_valid ?h \<and> ?p \<le> length b - 37 \<and> 37 + ?p = n \<and> \<lparr>e_header = ?h, e_payload = take ?p (drop 37 b)\<rparr> = e"
    using assms len rh by (simp add: DecodeEvent_def Let_def not_less split: if_splits)
  then have e: "header_valid ?h" "?p \<le> length b - 37" "n = 37 + ?p" "e = \<lparr>e_header = ?h, e_payload = take ?p (drop 37 b)\<rparr>"
    by simp_all
  then have "event_ok e" "n = length (event_bytes e)" using len by (simp_all add: event_ok_def min_def)
  moreover have "event_bytes e = take 37 b @ take ?p (drop 37 b)"
    using e(4) len EncodeHeader_DecodeHeader [of "take 37 b"] by (simp add: event_bytes_def)
  moreover have "take n b = take 37 b @ take ?p (drop 37 b)" unfolding e(3) by (rule take_add)
  ultimately show ?thesis by simp
qed

lemma decode_events_sound:
  assumes "decode_events k encoded cursor streamEnd r = ((st, n), r')" "cursor \<le> streamEnd" "streamEnd \<le> length encoded"
  shows "n \<le> streamEnd \<and> (\<exists>es. r' = r\<lparr>r_events := r_events r @ es\<rparr> \<and> list_all event_ok es
    \<and> cursor + length (stream_bytes es) \<le> streamEnd \<and> take (length (stream_bytes es)) (drop cursor encoded) = stream_bytes es
    \<and> (st = Decode_Ok \<longrightarrow> length es = k \<and> n = streamEnd \<and> cursor + length (stream_bytes es) = streamEnd))"
  using assms
proof (induction k arbitrary: cursor r)
  case 0
  then show ?case by (auto split: if_splits intro!: exI [of _ "[]"])
next
  case (Suc k)
  let ?b = "take (streamEnd - cursor) (drop cursor encoded)"
  obtain st1 m e where d: "DecodeEvent (Some ?b) = ((st1, m), e)" by (metis surj_pair)
  have "m \<le> streamEnd - cursor" using DecodeEvent_bounds [OF d] by simp
  then have m: "cursor + m \<le> streamEnd" using Suc.prems(2) by linarith
  show ?case
  proof (cases "st1 = Decode_Ok")
    case True
    then have e: "event_ok e" "m = length (event_bytes e)" "take m ?b = event_bytes e" using DecodeEvent_sound d by blast+
    then have "decode_events k encoded (cursor + m) streamEnd (r\<lparr>r_events := r_events r @ [e]\<rparr>) = ((st, n), r')"
      using Suc.prems(1) d True appendPayload_event [OF e(1), of r] by (simp add: Let_def)
    then obtain es where es: "n \<le> streamEnd" "r' = r\<lparr>r_events := r_events r @ e # es\<rparr>" "list_all event_ok es"
      "cursor + m + length (stream_bytes es) \<le> streamEnd"
      "take (length (stream_bytes es)) (drop (cursor + m) encoded) = stream_bytes es"
      "st = Decode_Ok \<longrightarrow> length es = k \<and> n = streamEnd \<and> cursor + m + length (stream_bytes es) = streamEnd"
      using Suc.IH [OF _ m Suc.prems(3), of "r\<lparr>r_events := r_events r @ [e]\<rparr>"] by auto
    have "take m (drop cursor encoded) = event_bytes e" using e(3) m by (simp add: min_absorb1)
    then have "take (m + length (stream_bytes es)) (drop cursor encoded) = stream_bytes (e # es)"
      using es(5) by (simp add: take_add add.commute)
    then have "take (length (stream_bytes (e # es))) (drop cursor encoded) = stream_bytes (e # es)" using e(2) by simp
    then show ?thesis using es e by (intro conjI exI [of _ "e # es"]) auto
  next
    case False
    then have "st = st1" "n = cursor + m" "r' = r" using Suc.prems(1) d by (auto simp: Let_def)
    then show ?thesis using m False by (auto intro!: exI [of _ "[]"])
  qed
qed

text \<open>C25: a recorder full of events survives its stream. Encoding fails only when the sizes leave the 64-bit
  range, leaves the output alone then, and never reports the overflow of a buffer; otherwise decoding the bytes,
  with anything behind them, returns exactly these events in order and the number of bytes
  that were written; and any strict prefix of them is reported as truncated, with no event taken.\<close>

theorem event_stream_roundtrip:
  assumes "recorder_ok r"
  shows "\<exists>ok bytes. EncodeEventStream (Some r) out = Inr (ok, bytes)
    \<and> (ok \<longleftrightarrow> 24 + length (stream_bytes (r_events r)) < 2 ^ 64) \<and> (\<not> ok \<longrightarrow> bytes = out)
    \<and> (ok \<longrightarrow> DecodeEventStream (Some (bytes @ suf)) r0 = ((Decode_Ok, length bytes), r0\<lparr>r_events := r_events r\<rparr>)
        \<and> (\<forall>k < length bytes. fst (fst (DecodeEventStream (Some (take k bytes)) r0)) \<in> {TruncatedHeader, TruncatedPayload}
              \<and> snd (DecodeEventStream (Some (take k bytes)) r0) = r0\<lparr>r_events := []\<rparr>))"
proof (cases "24 + length (stream_bytes (r_events r)) < 2 ^ 64")
  case True
  let ?es = "r_events r" and ?h = "stream_header (r_events r)"
  let ?b = "stream_image ?h @ stream_bytes ?es"
  have es: "list_all event_ok ?es" using assms by (simp add: recorder_ok_def)
  have enc: "EncodeEventStream (Some r) out = Inr (True, ?b)" using EncodeEventStream_fits [OF assms] True by simp
  have "length ?es < 2 ^ 64" using length_stream_bytes [of ?es] True by simp
  then have h: "ValidateStreamHeader ?h" "unat (s_eventCount ?h) = length ?es" "unat (s_payloadBytes ?h) = length (stream_bytes ?es)"
    using True by (simp_all add: ValidateStreamHeader_def stream_header_def unat_of_nat_small)
  have "DecodeEventStream (Some (?b @ suf)) r0 = ((Decode_Ok, length ?b), r0\<lparr>r_events := ?es\<rparr>)"
    using DecodeEventStream_built [OF assms True] by simp
  moreover have "fst (fst (DecodeEventStream (Some (take k ?b)) r0)) \<in> {TruncatedHeader, TruncatedPayload}
      \<and> snd (DecodeEventStream (Some (take k ?b)) r0) = r0\<lparr>r_events := []\<rparr>" if "k < length ?b" for k
  proof (cases "k < 24")
    case True
    then show ?thesis by (simp add: DecodeEventStream_def Let_def recorder_clear_def)
  next
    case False
    then have "take k ?b = stream_image ?h @ take (k - 24) (stream_bytes ?es)" "k - 24 < length (stream_bytes ?es)"
      using that by simp_all
    then have "DecodeEventStream (Some (take k ?b)) r0 = ((TruncatedPayload, 24), r0\<lparr>r_events := []\<rparr>)"
      using ReadPOD_prefix [of "stream_image ?h" "take (k - 24) (stream_bytes ?es)"] h
      by (simp add: DecodeEventStream_def Let_def recorder_clear_def)
    then show ?thesis by simp
  qed
  ultimately show ?thesis using enc True by blast
next
  case False
  then show ?thesis using EncodeEventStream_fits [OF assms, of out] by (intro exI [of _ False] exI [of _ out]) simp
qed

definition sample_recorder :: Recorder where
  "sample_recorder = \<lparr>r_events = [\<lparr>e_header = EventHeader_new\<lparr>h_kind := Kind_TextLog, h_payloadBytes := 1\<rparr>, e_payload = [0x41]\<rparr>],
     r_capture = Capture_All\<rparr>"

theorem event_stream_roundtrip_witness:
  "\<exists>bytes. EncodeEventStream (Some sample_recorder) [] = Inr (True, bytes)
     \<and> DecodeEventStream (Some (bytes @ [1])) Recorder_new
       = ((Decode_Ok, length bytes), Recorder_new\<lparr>r_events := r_events sample_recorder\<rparr>)"
proof -
  have ok: "recorder_ok sample_recorder"
    by (simp add: recorder_ok_def sample_recorder_def event_ok_def header_valid_def EventHeader_new_def IsValidEventKind_def
        Kind_TextLog_def Kind_Unknown_def)
  have "24 + length (stream_bytes (r_events sample_recorder)) < 2 ^ 64" by (simp add: sample_recorder_def)
  then show ?thesis using event_stream_roundtrip [OF ok, of "[]" "[1]" Recorder_new] by auto
qed

text \<open>C26: whatever bytes a stream decoder is given, it never reads past them, the events it keeps are valid with
  payloads of their announced size, and the capture options stay; when it accepts, the events written
  again are the bytes that were read, but for the version field of the stream header, which is the current one.\<close>

theorem decode_stream_canonical:
  assumes "DecodeEventStream (Some bytes) r0 = ((st, n), r)" "length bytes < 2 ^ 64"
  shows "n \<le> length bytes \<and> recorder_ok r \<and> r_capture r = r_capture r0
    \<and> (st = Decode_Ok \<longrightarrow> EncodeEventStream (Some r) out
        = Inr (True, take 4 bytes @ le_bytes 2 s_TelemetryFormatVersion @ take (n - 6) (drop 6 bytes)))"
proof (cases "24 \<le> length bytes")
  case False
  then show ?thesis using assms(1) by (auto simp: DecodeEventStream_def Let_def recorder_clear_def recorder_ok_def)
next
  case True
  let ?b = "take 24 bytes"
  define h where "h = stream_of_image ?b"
  have pod: "ReadPOD bytes 0 24 = Some (?b, 24)" using True by (simp add: ReadPOD_def ReadBytes_def CanReadBytes_def)
  show ?thesis
  proof (cases "ValidateStreamHeader h \<and> unat (s_payloadBytes h) \<le> length bytes - 24")
    case False
    then show ?thesis using assms(1) True pod
      by (auto simp: DecodeEventStream_def Let_def recorder_clear_def recorder_ok_def h_def split: if_splits)
  next
    case hd: True
    let ?stop = "24 + unat (s_payloadBytes h)"
    have "decode_events (unat (s_eventCount h)) bytes 24 ?stop (recorder_clear r0) = ((st, n), r)"
      using assms(1) True pod hd by (simp add: DecodeEventStream_def Let_def h_def [symmetric] split: if_splits)
    moreover have "?stop \<le> length bytes" using hd True by linarith
    ultimately obtain es where es: "n \<le> ?stop" "r = r0\<lparr>r_events := es\<rparr>" "list_all event_ok es"
      "24 + length (stream_bytes es) \<le> ?stop" "take (length (stream_bytes es)) (drop 24 bytes) = stream_bytes es"
      "st = Decode_Ok \<Longrightarrow> length es = unat (s_eventCount h) \<and> n = ?stop \<and> 24 + length (stream_bytes es) = ?stop"
      using decode_events_sound [of "unat (s_eventCount h)" bytes 24 ?stop "recorder_clear r0" st n r]
      by (auto simp: recorder_clear_def)
    have ok: "recorder_ok r" using es(2,3) by (simp add: recorder_ok_def)
    have "EncodeEventStream (Some r) out
        = Inr (True, take 4 bytes @ le_bytes 2 s_TelemetryFormatVersion @ take (n - 6) (drop 6 bytes))" if "st = Decode_Ok"
    proof -
      note e = es(6) [OF that]
      have "stream_header es = h\<lparr>s_version := s_TelemetryFormatVersion\<rparr>"
        using hd e by (simp add: stream_header_def ValidateStreamHeader_def)
      moreover have "stream_image (h\<lparr>s_version := v\<rparr>) = take 4 bytes @ le_bytes 2 v @ take 18 (drop 6 bytes)" for v
      proof -
        have f: "split_fields stream_layout ?b = [take 4 bytes, take 2 (drop 4 bytes), take 2 (drop 6 bytes), take 8 (drop 8 bytes), take 8 (drop 16 bytes)]"
          using True by (simp add: stream_layout_def take_drop min_def)
        show ?thesis using True unfolding h_def stream_of_image_def stream_image_def f
          using take_add [of 2 16 "drop 6 bytes"] take_add [of 8 8 "drop 8 bytes"]
          by (simp add: Let_def le_bytes_field)
      qed
      moreover have "24 + length (stream_bytes es) < 2 ^ 64" using e \<open>?stop \<le> length bytes\<close> assms(2) by linarith
      moreover have "take (n - 6) (drop 6 bytes) = take 18 (drop 6 bytes) @ stream_bytes es"
      proof -
        have "n - 6 = 18 + length (stream_bytes es)" using e by linarith
        then show ?thesis using es(5) by (simp add: take_add)
      qed
      ultimately show ?thesis using EncodeEventStream_fits [OF ok, of out] es(2) by simp
    qed
    then show ?thesis using es ok \<open>?stop \<le> length bytes\<close> by auto
  qed
qed

definition sample_stream_header :: EncodedStreamHeader where
  "sample_stream_header = \<lparr>s_magic = s_StreamMagic, s_version = 9, s_reserved = 0, s_eventCount = 0, s_payloadBytes = 0\<rparr>"

theorem decode_stream_canonical_witness:
  "EncodeEventStream (Some Recorder_new) []
     = Inr (True, stream_image (sample_stream_header\<lparr>s_version := s_TelemetryFormatVersion\<rparr>))"
proof -
  let ?b = "stream_image sample_stream_header"
  have d: "DecodeEventStream (Some ?b) Recorder_new = ((Decode_Ok, 24), Recorder_new)" "length ?b < 2 ^ 64"
    using ReadPOD_prefix [of ?b "[]"]
    by (simp_all add: DecodeEventStream_def ValidateStreamHeader_def sample_stream_header_def recorder_clear_def Recorder_new_def)
  have "take 4 ?b @ le_bytes 2 v @ take 18 (drop 6 ?b) = stream_image (sample_stream_header\<lparr>s_version := v\<rparr>)" for v
    by (simp add: stream_image_def sample_stream_header_def)
  then show ?thesis using decode_stream_canonical [OF d, of "[]"] by simp
qed

end
