(* ===== verification/Telemetry_Payloads.thy ===== *)
theory Telemetry_Payloads
  imports Telemetry_Codec Hex_Name Overflow
begin

text \<open>
  The payloads of text logs, diagnostics and frame graphs: \<^verbatim>\<open>src/core/telemetry/text_log.h\<close>,
  \<^verbatim>\<open>text_log.cpp\<close>, \<^verbatim>\<open>diagnostic.h\<close>, \<^verbatim>\<open>diagnostic.cpp\<close>, \<^verbatim>\<open>frame_graph.h\<close>, \<^verbatim>\<open>frame_graph.cpp\<close>. A builder clears its output
  and returns it with its success; a parser returns the payload it has filled so far, also when it fails. Characters are
  bytes, as on the targets where \<open>tchar\<close> is \<open>char\<close>. A name is its hash.
\<close>

section \<open>Text logs\<close>

definition s_TextLogPayloadVersion :: u16 where "s_TextLogPayloadVersion = 1"
definition s_TextLogPayloadMagic :: u32 where "s_TextLogPayloadMagic = 0x4E574C47"

text \<open>\<open>Info\<close>, \<open>EssentialInfo\<close>, \<open>Warning\<close>, \<open>CriticalWarning\<close>, \<open>Error\<close>, \<open>Fatal\<close>, \<open>Assert\<close>.\<close>

definition LogType_values :: "u8 list" where "LogType_values = [0, 1, 2, 3, 4, 5, 6]"

definition LogType_Info :: u8 where "LogType_Info = 0"

definition IsValidTextLogType :: "u8 \<Rightarrow> bool" where
  "IsValidTextLogType typ' = (typ' \<in> set LogType_values)"

record EncodedTextLogPayloadHeader =
  tl_magic :: u32
  tl_version :: u16
  tl_type :: u8
  tl_reserved :: u8
  tl_messageBytes :: u64

definition text_log_layout :: "nat list" where "text_log_layout = [4, 2, 1, 1, 8]"

definition text_log_image :: "EncodedTextLogPayloadHeader \<Rightarrow> u8 list" where
  "text_log_image h = concat [le_bytes 4 (tl_magic h), le_bytes 2 (tl_version h), le_bytes 1 (tl_type h),
     le_bytes 1 (tl_reserved h), le_bytes 8 (tl_messageBytes h)]"

definition text_log_of_image :: "u8 list \<Rightarrow> EncodedTextLogPayloadHeader" where
  "text_log_of_image b = (let f = split_fields text_log_layout b in
     \<lparr>tl_magic = le_value (f ! 0), tl_version = le_value (f ! 1), tl_type = le_value (f ! 2), tl_reserved = le_value (f ! 3),
      tl_messageBytes = le_value (f ! 4)\<rparr>)"

record TextLogPayload =
  tp_type :: u8
  tp_messageUtf8 :: "u8 list"

definition ValidatePayloadHeader :: "EncodedTextLogPayloadHeader \<Rightarrow> bool" where
  "ValidatePayloadHeader h = (tl_magic h = s_TextLogPayloadMagic \<and> tl_reserved h = 0 \<and> IsValidTextLogType (tl_type h))"

definition BuildTextLogPayload :: "u8 \<Rightarrow> u8 list \<Rightarrow> binary_error + bool \<times> u8 list" where
  "BuildTextLogPayload typ' message =
     (if \<not> IsValidTextLogType typ' then Inr (False, [])
      else let messageUtf8 = message; (fits, payloadBytes) = AddBinaryReserveBytes 16 (of_nat (length messageUtf8)) in
        if \<not> fits then Inr (False, [])
        else case AppendPOD [] (text_log_image \<lparr>tl_magic = s_TextLogPayloadMagic, tl_version = s_TextLogPayloadVersion,
                 tl_type = typ', tl_reserved = 0, tl_messageBytes = of_nat (length messageUtf8)\<rparr>) of
               Inl e \<Rightarrow> Inl e
             | Inr out \<Rightarrow>
                 let out = (if messageUtf8 \<noteq> [] then AppendBytesNoReserveUnchecked out messageUtf8 else out)
                 in Inr (length out = unat payloadBytes, out))"

definition ParseTextLogPayload :: "u8 list option \<Rightarrow> bool \<times> TextLogPayload" where
  "ParseTextLogPayload payload =
     (let out = \<lparr>tp_type = LogType_Info, tp_messageUtf8 = []\<rparr> in
      case payload of
        None \<Rightarrow> (False, out)
      | Some encoded \<Rightarrow>
          if length encoded < 16 then (False, out)
          else (case ReadPOD encoded 0 16 of
                  None \<Rightarrow> (False, out)
                | Some (b, cursor) \<Rightarrow>
                    let header = text_log_of_image b in
                    if \<not> ValidatePayloadHeader header then (False, out)
                    else if tl_messageBytes header > umax then (False, out)
                    else let messageBytes = unat (tl_messageBytes header) in
                      if length encoded - cursor \<noteq> messageBytes then (False, out)
                      else (True, \<lparr>tp_type = tl_type header, tp_messageUtf8 = take messageBytes (drop cursor encoded)\<rparr>)))"

text \<open>The header of a payload always fits its empty buffer (\<open>BuildTextLogPayload_cases\<close> and its companions), so
  that the exception of \<open>AppendPOD\<close> is no result of recording.\<close>

definition RecordTextLog :: "u64 \<Rightarrow> u8 \<Rightarrow> u8 list \<Rightarrow> u64 \<Rightarrow> u32 \<Rightarrow> Recorder \<Rightarrow> bool \<times> Recorder" where
  "RecordTextLog now typ' message frameIndex streamId r =
     RecordBuiltPayload now Kind_TextLog frameIndex streamId (\<lambda>_. case BuildTextLogPayload typ' message of
       Inl _ \<Rightarrow> (False, []) | Inr x \<Rightarrow> x) r"

section \<open>Diagnostics\<close>

definition s_DiagnosticPayloadVersion :: u16 where "s_DiagnosticPayloadVersion = 1"
definition s_DiagnosticPayloadMagic :: u32 where "s_DiagnosticPayloadMagic = 0x4E574447"
definition TerminatesProcess :: u16 where "TerminatesProcess = push_bit 0 1"

record DiagnosticEventRecord =
  d_event :: "u8 list option"
  d_category :: "u8 list option"
  d_expression :: "u8 list option"
  d_message :: "u8 list option"
  d_file :: "u8 list option"
  d_instructionPointer :: u64
  d_line :: u32
  d_terminatesProcess :: bool

record EncodedDiagnosticPayloadHeader =
  dh_magic :: u32
  dh_version :: u16
  dh_flags :: u16
  dh_instructionPointer :: u64
  dh_line :: u32
  dh_eventBytes :: u32
  dh_categoryBytes :: u32
  dh_expressionBytes :: u32
  dh_messageBytes :: u32
  dh_fileBytes :: u32

definition diagnostic_layout :: "nat list" where "diagnostic_layout = [4, 2, 2, 8, 4, 4, 4, 4, 4, 4]"

definition diagnostic_image :: "EncodedDiagnosticPayloadHeader \<Rightarrow> u8 list" where
  "diagnostic_image h = concat [le_bytes 4 (dh_magic h), le_bytes 2 (dh_version h), le_bytes 2 (dh_flags h),
     le_bytes 8 (dh_instructionPointer h), le_bytes 4 (dh_line h), le_bytes 4 (dh_eventBytes h), le_bytes 4 (dh_categoryBytes h),
     le_bytes 4 (dh_expressionBytes h), le_bytes 4 (dh_messageBytes h), le_bytes 4 (dh_fileBytes h)]"

definition diagnostic_of_image :: "u8 list \<Rightarrow> EncodedDiagnosticPayloadHeader" where
  "diagnostic_of_image b = (let f = split_fields diagnostic_layout b in
     \<lparr>dh_magic = le_value (f ! 0), dh_version = le_value (f ! 1), dh_flags = le_value (f ! 2),
      dh_instructionPointer = le_value (f ! 3), dh_line = le_value (f ! 4), dh_eventBytes = le_value (f ! 5),
      dh_categoryBytes = le_value (f ! 6), dh_expressionBytes = le_value (f ! 7), dh_messageBytes = le_value (f ! 8),
      dh_fileBytes = le_value (f ! 9)\<rparr>)"

record DiagnosticPayload =
  dp_event :: "u8 list"
  dp_category :: "u8 list"
  dp_expression :: "u8 list"
  dp_message :: "u8 list"
  dp_file :: "u8 list"
  dp_instructionPointer :: u64
  dp_line :: u32
  dp_terminatesProcess :: bool

definition SafeStringView :: "u8 list option \<Rightarrow> u8 list" where
  "SafeStringView t = (case t of None \<Rightarrow> [] | Some s \<Rightarrow> s)"

definition AddTextBytes :: "usize \<Rightarrow> u8 list \<Rightarrow> bool \<times> usize" where
  "AddTextBytes inOutPayloadBytes t =
     (if \<not> FitsU32_u (of_nat (length t)) then (False, inOutPayloadBytes)
      else AddBinaryReserveBytes inOutPayloadBytes (of_nat (length t)))"

fun add_texts :: "usize \<Rightarrow> u8 list list \<Rightarrow> bool \<times> usize" where
  "add_texts n [] = (True, n)"
| "add_texts n (t # ts) = (let (fits, n) = AddTextBytes n t in if \<not> fits then (False, n) else add_texts n ts)"

definition ValidateDiagnosticHeader :: "EncodedDiagnosticPayloadHeader \<Rightarrow> bool" where
  "ValidateDiagnosticHeader h = (dh_magic h = s_DiagnosticPayloadMagic \<and> dh_flags h AND NOT TerminatesProcess = 0)"

definition ReadText :: "u8 list \<Rightarrow> nat \<Rightarrow> u32 \<Rightarrow> (u8 list \<times> nat) option" where
  "ReadText payload cursor byteCount =
     (if \<not> CanReadBytes payload cursor (unat byteCount) then None
      else Some (take (unat byteCount) (drop cursor payload), cursor + unat byteCount))"

definition diagnostic_texts :: "DiagnosticEventRecord \<Rightarrow> u8 list list" where
  "diagnostic_texts rec = map SafeStringView [d_event rec, d_category rec, d_expression rec, d_message rec, d_file rec]"

definition BuildDiagnosticPayload :: "DiagnosticEventRecord \<Rightarrow> binary_error + bool \<times> u8 list" where
  "BuildDiagnosticPayload rec =
     (let texts = diagnostic_texts rec; (fits, payloadBytes) = add_texts 40 texts in
      if \<not> fits then Inr (False, [])
      else case AppendPOD [] (diagnostic_image \<lparr>dh_magic = s_DiagnosticPayloadMagic, dh_version = s_DiagnosticPayloadVersion,
               dh_flags = if d_terminatesProcess rec then TerminatesProcess else 0,
               dh_instructionPointer = d_instructionPointer rec, dh_line = d_line rec,
               dh_eventBytes = of_nat (length (texts ! 0)), dh_categoryBytes = of_nat (length (texts ! 1)),
               dh_expressionBytes = of_nat (length (texts ! 2)), dh_messageBytes = of_nat (length (texts ! 3)),
               dh_fileBytes = of_nat (length (texts ! 4))\<rparr>) of
             Inl e \<Rightarrow> Inl e
           | Inr out \<Rightarrow>
               let out = foldl AppendTextBytesNoReserveUnchecked out texts
               in Inr (length out = unat payloadBytes, out))"

definition ParseDiagnosticPayload :: "u8 list option \<Rightarrow> bool \<times> DiagnosticPayload" where
  "ParseDiagnosticPayload payload =
     (let out = \<lparr>dp_event = [], dp_category = [], dp_expression = [], dp_message = [], dp_file = [],
                 dp_instructionPointer = 0, dp_line = 0, dp_terminatesProcess = False\<rparr> in
      case payload of
        None \<Rightarrow> (False, out)
      | Some encoded \<Rightarrow>
          if length encoded < 40 then (False, out)
          else (case ReadPOD encoded 0 40 of
                  None \<Rightarrow> (False, out)
                | Some (b, cursor) \<Rightarrow>
                    let header = diagnostic_of_image b in
                    if \<not> ValidateDiagnosticHeader header then (False, out)
                    else let out = out\<lparr>dp_instructionPointer := dh_instructionPointer header, dp_line := dh_line header,
                                       dp_terminatesProcess := (dh_flags header AND TerminatesProcess \<noteq> 0)\<rparr> in
                      (case ReadText encoded cursor (dh_eventBytes header) of
                         None \<Rightarrow> (False, out)
                       | Some (t, cursor) \<Rightarrow> let out = out\<lparr>dp_event := t\<rparr> in
                      (case ReadText encoded cursor (dh_categoryBytes header) of
                         None \<Rightarrow> (False, out)
                       | Some (t, cursor) \<Rightarrow> let out = out\<lparr>dp_category := t\<rparr> in
                      (case ReadText encoded cursor (dh_expressionBytes header) of
                         None \<Rightarrow> (False, out)
                       | Some (t, cursor) \<Rightarrow> let out = out\<lparr>dp_expression := t\<rparr> in
                      (case ReadText encoded cursor (dh_messageBytes header) of
                         None \<Rightarrow> (False, out)
                       | Some (t, cursor) \<Rightarrow> let out = out\<lparr>dp_message := t\<rparr> in
                      (case ReadText encoded cursor (dh_fileBytes header) of
                         None \<Rightarrow> (False, out)
                       | Some (t, cursor) \<Rightarrow> let out = out\<lparr>dp_file := t\<rparr> in
                           (cursor = length encoded, out))))))))"

definition RecordDiagnostic :: "u64 \<Rightarrow> DiagnosticEventRecord \<Rightarrow> u64 \<Rightarrow> u32 \<Rightarrow> Recorder \<Rightarrow> bool \<times> Recorder" where
  "RecordDiagnostic now rec frameIndex streamId r =
     RecordBuiltPayload now Kind_Diagnostic frameIndex streamId (\<lambda>_. case BuildDiagnosticPayload rec of
       Inl _ \<Rightarrow> (False, []) | Inr x \<Rightarrow> x) r"

section \<open>Images\<close>

lemma length_images [simp]: "length (text_log_image h) = 16" "length (diagnostic_image d) = 40"
  by (simp_all add: text_log_image_def diagnostic_image_def)

lemma text_log_of_image_image [simp]: "text_log_of_image (text_log_image h) = h"
proof -
  let ?f = "[le_bytes 4 (tl_magic h), le_bytes 2 (tl_version h), le_bytes 1 (tl_type h), le_bytes 1 (tl_reserved h),
     le_bytes 8 (tl_messageBytes h)]"
  have "split_fields text_log_layout (text_log_image h) = ?f"
    using split_fields_concat [of ?f "[]"] by (simp only: text_log_image_def text_log_layout_def list.map length_le_bytes append_Nil2)
  then show ?thesis by (simp add: text_log_of_image_def Let_def)
qed

lemma diagnostic_of_image_image [simp]: "diagnostic_of_image (diagnostic_image h) = h"
proof -
  let ?f = "[le_bytes 4 (dh_magic h), le_bytes 2 (dh_version h), le_bytes 2 (dh_flags h),
     le_bytes 8 (dh_instructionPointer h), le_bytes 4 (dh_line h), le_bytes 4 (dh_eventBytes h), le_bytes 4 (dh_categoryBytes h),
     le_bytes 4 (dh_expressionBytes h), le_bytes 4 (dh_messageBytes h), le_bytes 4 (dh_fileBytes h)]"
  have "split_fields diagnostic_layout (diagnostic_image h) = ?f"
    using split_fields_concat [of ?f "[]"] by (simp only: diagnostic_image_def diagnostic_layout_def list.map length_le_bytes append_Nil2)
  then show ?thesis by (simp add: diagnostic_of_image_def Let_def)
qed

lemma ReadPOD_image: "length b = n \<Longrightarrow> ReadPOD (b @ suf) 0 n = Some (b, n)"
  using ReadPOD_prefix [of b suf] by simp

section \<open>Text logs are read back\<close>

lemma BuildTextLogPayload_cases:
  assumes "length message < 2 ^ 64"
  shows "BuildTextLogPayload typ' message = (if IsValidTextLogType typ' \<and> 16 + length message < 2 ^ 64
    then Inr (True, text_log_image \<lparr>tl_magic = s_TextLogPayloadMagic, tl_version = s_TextLogPayloadVersion, tl_type = typ',
               tl_reserved = 0, tl_messageBytes = of_nat (length message)\<rparr> @ message) else Inr (False, []))"
proof -
  obtain f n where a: "AddBinaryReserveBytes 16 (of_nat (length message)) = (f, n)" by fastforce
  have "unat (of_nat (length message) :: usize) = length message" using assms by (intro unat_of_nat_small) simp
  then have "f \<longleftrightarrow> 16 + length message < 2 ^ 64" "f \<Longrightarrow> unat n = 16 + length message"
    using AddBinaryReserveBytes_spec [of 16 "of_nat (length message)"] a by simp_all
  then show ?thesis using a by (simp add: BuildTextLogPayload_def AppendPOD_fits)
qed

lemma ParseTextLogPayload_image:
  assumes "ValidatePayloadHeader h"
  shows "fst (ParseTextLogPayload (Some (text_log_image h @ rest))) \<longleftrightarrow> unat (tl_messageBytes h) = length rest"
    "unat (tl_messageBytes h) = length rest \<Longrightarrow> ParseTextLogPayload (Some (text_log_image h @ rest))
      = (True, \<lparr>tp_type = tl_type h, tp_messageUtf8 = rest\<rparr>)"
  using assms by (auto simp: ParseTextLogPayload_def Let_def ReadPOD_image)

lemma text_log_roundtrip:
  assumes "length message < 2 ^ 64"
  shows "\<exists>ok payload. BuildTextLogPayload typ' message = Inr (ok, payload)
    \<and> (ok \<longleftrightarrow> IsValidTextLogType typ' \<and> 16 + length message < 2 ^ 64)
    \<and> (ok \<longrightarrow> ParseTextLogPayload (Some payload) = (True, \<lparr>tp_type = typ', tp_messageUtf8 = message\<rparr>)
        \<and> (\<forall>k < length payload. \<not> fst (ParseTextLogPayload (Some (take k payload))))
        \<and> (\<forall>x. x \<noteq> [] \<longrightarrow> \<not> fst (ParseTextLogPayload (Some (payload @ x)))))"
proof (cases "IsValidTextLogType typ' \<and> 16 + length message < 2 ^ 64")
  case True
  define h where "h = \<lparr>tl_magic = s_TextLogPayloadMagic, tl_version = s_TextLogPayloadVersion, tl_type = typ',
    tl_reserved = 0, tl_messageBytes = of_nat (length message)\<rparr>"
  let ?p = "text_log_image h @ message"
  have h: "ValidatePayloadHeader h" "unat (tl_messageBytes h) = length message" "tl_type h = typ'"
    using True assms by (simp_all add: h_def ValidatePayloadHeader_def unat_of_nat_small)
  have "BuildTextLogPayload typ' message = Inr (True, ?p)" using BuildTextLogPayload_cases [OF assms] True by (simp add: h_def)
  moreover have "ParseTextLogPayload (Some ?p) = (True, \<lparr>tp_type = typ', tp_messageUtf8 = message\<rparr>)"
    using ParseTextLogPayload_image(2) [OF h(1,2)] h(3) by simp
  moreover have "\<not> fst (ParseTextLogPayload (Some (take k ?p)))" if "k < length ?p" for k
  proof (cases "k < 16")
    case True
    then show ?thesis by (simp add: ParseTextLogPayload_def Let_def)
  next
    case False
    then have "take k ?p = text_log_image h @ take (k - 16) message" "k - 16 < length message" using that by simp_all
    then show ?thesis using ParseTextLogPayload_image(1) [OF h(1), of "take (k - 16) message"] h(2) by simp
  qed
  moreover have "\<not> fst (ParseTextLogPayload (Some (?p @ x)))" if "x \<noteq> []" for x
    using ParseTextLogPayload_image(1) [OF h(1), of "message @ x"] h(2) that by simp
  ultimately show ?thesis using True by blast
next
  case False
  then show ?thesis using BuildTextLogPayload_cases [OF assms] by (intro exI [of _ False] exI [of _ "[]"]) simp
qed

section \<open>Diagnostics are read back\<close>

lemma FitsU32_length: "n < 2 ^ 64 \<Longrightarrow> FitsU32_u (of_nat n) \<longleftrightarrow> n < 2 ^ 32"
  by (auto simp: FitsU32_u_def word_le_nat_alt unat_of_nat_small)

lemma AddTextBytes_spec:
  assumes "length t < 2 ^ 64"
  shows "fst (AddTextBytes n t) \<longleftrightarrow> length t < 2 ^ 32 \<and> unat n + length t < 2 ^ 64"
    "fst (AddTextBytes n t) \<Longrightarrow> unat (snd (AddTextBytes n t)) = unat n + length t"
  using AddBinaryReserveBytes_spec [of n "of_nat (length t)"] FitsU32_length [OF assms] unat_small_u64 [OF assms]
  by (auto simp: AddTextBytes_def)

lemma add_texts_spec:
  assumes "\<forall>t \<in> set ts. length t < 2 ^ 64"
  shows "(fst (add_texts n ts) \<longleftrightarrow> (\<forall>t \<in> set ts. length t < 2 ^ 32) \<and> unat n + sum_list (map length ts) < 2 ^ 64)
    \<and> (fst (add_texts n ts) \<longrightarrow> unat (snd (add_texts n ts)) = unat n + sum_list (map length ts))"
  using assms
proof (induction n ts rule: add_texts.induct)
  case (1 n)
  then show ?case using unsigned_less [of n] by simp
next
  case (2 n t ts)
  obtain f m where a: "AddTextBytes n t = (f, m)" by fastforce
  then have f: "f \<longleftrightarrow> length t < 2 ^ 32 \<and> unat n + length t < 2 ^ 64" "f \<Longrightarrow> unat m = unat n + length t"
    using AddTextBytes_spec [of t n] 2(2) by simp_all
  show ?case
  proof (cases f)
    case True
    then show ?thesis using 2(1) [OF a [symmetric]] 2(2) a f by (auto simp: add.assoc)
  next
    case False
    then have "\<not> (length t < 2 ^ 32 \<and> unat n + (length t + sum_list (map length ts)) < 2 ^ 64)" using f by auto
    then show ?thesis using False a by auto
  qed
qed

lemma ReadText_at:
  assumes "drop c b = t @ suf" "unat n = length t" "c \<le> length b"
  shows "ReadText b c n = Some (t, c + length t)" "drop (c + length t) b = suf" "c + length t \<le> length b"
proof -
  have l: "length b - c = length t + length suf" using arg_cong [OF assms(1), of length] by simp
  then show "c + length t \<le> length b" using assms(3) by simp
  have "drop (c + length t) b = drop (length t) (drop c b)" by (simp add: add.commute)
  then show "drop (c + length t) b = suf" using assms(1) by simp
  show "ReadText b c n = Some (t, c + length t)" using assms l by (simp add: ReadText_def CanReadBytes_def)
qed

definition diagnostic_header :: "DiagnosticEventRecord \<Rightarrow> EncodedDiagnosticPayloadHeader" where
  "diagnostic_header rec =
     \<lparr>dh_magic = s_DiagnosticPayloadMagic, dh_version = s_DiagnosticPayloadVersion,
      dh_flags = if d_terminatesProcess rec then TerminatesProcess else 0,
      dh_instructionPointer = d_instructionPointer rec, dh_line = d_line rec,
      dh_eventBytes = of_nat (length (SafeStringView (d_event rec))),
      dh_categoryBytes = of_nat (length (SafeStringView (d_category rec))),
      dh_expressionBytes = of_nat (length (SafeStringView (d_expression rec))),
      dh_messageBytes = of_nat (length (SafeStringView (d_message rec))),
      dh_fileBytes = of_nat (length (SafeStringView (d_file rec)))\<rparr>"

definition diagnostic_payload :: "DiagnosticEventRecord \<Rightarrow> DiagnosticPayload" where
  "diagnostic_payload rec =
     \<lparr>dp_event = SafeStringView (d_event rec), dp_category = SafeStringView (d_category rec),
      dp_expression = SafeStringView (d_expression rec), dp_message = SafeStringView (d_message rec),
      dp_file = SafeStringView (d_file rec), dp_instructionPointer = d_instructionPointer rec, dp_line = d_line rec,
      dp_terminatesProcess = d_terminatesProcess rec\<rparr>"

lemma append_text [simp]: "AppendTextBytesNoReserveUnchecked out t = out @ t"
  by (simp add: AppendTextBytesNoReserveUnchecked_def)

lemma length_concat_sum: "length (concat ts) = sum_list (map length ts)"
  by (rule length_concat)

lemma BuildDiagnosticPayload_cases:
  assumes "\<forall>t \<in> set (diagnostic_texts rec). length t < 2 ^ 64"
  shows "BuildDiagnosticPayload rec =
    (if (\<forall>t \<in> set (diagnostic_texts rec). length t < 2 ^ 32) \<and> 40 + length (concat (diagnostic_texts rec)) < 2 ^ 64
     then Inr (True, diagnostic_image (diagnostic_header rec) @ concat (diagnostic_texts rec)) else Inr (False, []))"
proof -
  let ?ts = "diagnostic_texts rec"
  obtain f n where a: "add_texts 40 ?ts = (f, n)" by fastforce
  then have f: "f \<longleftrightarrow> (\<forall>t \<in> set ?ts. length t < 2 ^ 32) \<and> 40 + length (concat ?ts) < 2 ^ 64"
    "f \<Longrightarrow> unat n = 40 + length (concat ?ts)"
    using add_texts_spec [OF assms, of 40] by (simp_all add: length_concat_sum)
  show ?thesis
  proof (cases f)
    case True
    have c: "(\<forall>t \<in> set ?ts. length t < 2 ^ 32) \<and> 40 + length (concat ?ts) < 2 ^ 64" "unat n = 40 + length (concat ?ts)"
      using True f by simp_all
    show ?thesis unfolding if_P [OF c(1)] using True a c(2)
      by (simp add: BuildDiagnosticPayload_def diagnostic_header_def AppendPOD_fits diagnostic_texts_def Let_def)
  next
    case False
    then show ?thesis using a f(1) by (auto simp: BuildDiagnosticPayload_def Let_def)
  qed
qed

lemma ParseDiagnosticPayload_size:
  assumes "fst (ParseDiagnosticPayload (Some (diagnostic_image h @ rest)))"
  shows "length rest = unat (dh_eventBytes h) + unat (dh_categoryBytes h) + unat (dh_expressionBytes h)
    + unat (dh_messageBytes h) + unat (dh_fileBytes h)"
  using assms
  by (auto simp: ParseDiagnosticPayload_def ReadPOD_image ReadText_def Let_def split: if_splits)

lemma TerminatesProcess_bits [simp]:
  "TerminatesProcess AND NOT TerminatesProcess = 0" "0 AND NOT TerminatesProcess = (0 :: u16)"
  "TerminatesProcess AND TerminatesProcess \<noteq> 0" "TerminatesProcess \<noteq> 0"
  by (simp_all add: TerminatesProcess_def)

lemma ParseDiagnosticPayload_built:
  assumes "\<forall>t \<in> set (diagnostic_texts rec). length t < 2 ^ 32"
  shows "ParseDiagnosticPayload (Some (diagnostic_image (diagnostic_header rec) @ concat (diagnostic_texts rec)))
    = (True, diagnostic_payload rec)"
proof -
  let ?h = "diagnostic_header rec" and ?v = SafeStringView
  let ?b = "diagnostic_image ?h @ concat (diagnostic_texts rec)"
  have n: "unat (dh_eventBytes ?h) = length (?v (d_event rec))" "unat (dh_categoryBytes ?h) = length (?v (d_category rec))"
    "unat (dh_expressionBytes ?h) = length (?v (d_expression rec))" "unat (dh_messageBytes ?h) = length (?v (d_message rec))"
    "unat (dh_fileBytes ?h) = length (?v (d_file rec))"
    using assms by (simp_all add: diagnostic_header_def diagnostic_texts_def unat_of_nat_small)
  have d0: "drop 40 ?b = ?v (d_event rec) @ ?v (d_category rec) @ ?v (d_expression rec) @ ?v (d_message rec) @ ?v (d_file rec) @ []"
    "40 \<le> length ?b" by (simp_all add: diagnostic_texts_def)
  note r1 = ReadText_at [OF d0(1) n(1) d0(2)]
  note r2 = ReadText_at [OF r1(2) n(2) r1(3)]
  note r3 = ReadText_at [OF r2(2) n(3) r2(3)]
  note r4 = ReadText_at [OF r3(2) n(4) r3(3)]
  note r5 = ReadText_at [OF r4(2) n(5) r4(3)]
  have "ValidateDiagnosticHeader ?h" by (simp add: ValidateDiagnosticHeader_def diagnostic_header_def)
  moreover have "\<not> length ?b < 40" using d0(2) by simp
  moreover have "ReadPOD ?b 0 40 = Some (diagnostic_image ?h, 40)" by (rule ReadPOD_image) simp
  moreover have "40 + length (?v (d_event rec)) + length (?v (d_category rec)) + length (?v (d_expression rec))
      + length (?v (d_message rec)) + length (?v (d_file rec)) = length ?b" by (simp add: diagnostic_texts_def)
  moreover have "(dh_flags ?h AND TerminatesProcess \<noteq> 0) = d_terminatesProcess rec" "dh_instructionPointer ?h = d_instructionPointer rec"
    "dh_line ?h = d_line rec" by (simp_all add: diagnostic_header_def)
  ultimately show ?thesis using r1(1) r2(1) r3(1) r4(1) r5(1)
    by (simp only: ParseDiagnosticPayload_def Let_def option.case prod.case diagnostic_of_image_image if_False not_True_eq_False)
      (simp add: diagnostic_payload_def)
qed

lemma diagnostic_roundtrip:
  assumes "\<forall>t \<in> set (diagnostic_texts rec). length t < 2 ^ 64"
  shows "\<exists>ok payload. BuildDiagnosticPayload rec = Inr (ok, payload)
    \<and> (ok \<longleftrightarrow> (\<forall>t \<in> set (diagnostic_texts rec). length t < 2 ^ 32) \<and> 40 + length (concat (diagnostic_texts rec)) < 2 ^ 64)
    \<and> (ok \<longrightarrow> ParseDiagnosticPayload (Some payload) = (True, diagnostic_payload rec)
        \<and> (\<forall>k < length payload. \<not> fst (ParseDiagnosticPayload (Some (take k payload))))
        \<and> (\<forall>x. x \<noteq> [] \<longrightarrow> \<not> fst (ParseDiagnosticPayload (Some (payload @ x)))))"
proof (cases "(\<forall>t \<in> set (diagnostic_texts rec). length t < 2 ^ 32) \<and> 40 + length (concat (diagnostic_texts rec)) < 2 ^ 64")
  case True
  let ?h = "diagnostic_header rec" and ?ts = "diagnostic_texts rec"
  let ?p = "diagnostic_image ?h @ concat ?ts"
  have "BuildDiagnosticPayload rec = Inr (True, ?p)" using BuildDiagnosticPayload_cases [OF assms] True by simp
  moreover have ok: "ParseDiagnosticPayload (Some ?p) = (True, diagnostic_payload rec)"
    using ParseDiagnosticPayload_built True by blast
  have size: "length rest = length (concat ?ts)" if "fst (ParseDiagnosticPayload (Some (diagnostic_image ?h @ rest)))" for rest
    using ParseDiagnosticPayload_size [OF that] ParseDiagnosticPayload_size [of ?h "concat ?ts"] ok by simp
  moreover have "\<not> fst (ParseDiagnosticPayload (Some (take k ?p)))" if "k < length ?p" for k
  proof (cases "k < 40")
    case True
    then show ?thesis by (simp add: ParseDiagnosticPayload_def Let_def)
  next
    case False
    then have "take k ?p = diagnostic_image ?h @ take (k - 40) (concat ?ts)" "k - 40 < length (concat ?ts)" using that by simp_all
    then show ?thesis using size [of "take (k - 40) (concat ?ts)"] by auto
  qed
  moreover have "\<not> fst (ParseDiagnosticPayload (Some (?p @ x)))" if "x \<noteq> []" for x
    using size [of "concat ?ts @ x"] that by auto
  ultimately show ?thesis using True ok by blast
next
  case False
  then show ?thesis using BuildDiagnosticPayload_cases [OF assms] by (intro exI [of _ False] exI [of _ "[]"]) auto
qed

end
