(* ===== verification/Telemetry_Graph.thy ===== *)
theory Telemetry_Graph
  imports Telemetry_Payloads
begin

text \<open>
  Frame graphs: the payload of \<^verbatim>\<open>src/core/telemetry/frame_graph.h\<close> and \<^verbatim>\<open>frame_graph.cpp\<close>, the builder
  that contributors fill (\<^verbatim>\<open>frame_graph_contributor.h\<close>, \<^verbatim>\<open>frame_graph_contributor.cpp\<close>) and the registry that
  joins their graphs (\<^verbatim>\<open>frame_graph_registry.cpp\<close>). A contributor is a function on the builder. A description and
  a payload of a node differ only in who owns the label, so they are one record here; the same holds for edges.
\<close>

section \<open>Nodes and edges\<close>

definition s_FrameGraphPayloadVersion :: u16 where "s_FrameGraphPayloadVersion = 1"
definition s_FrameGraphPayloadMagic :: u32 where "s_FrameGraphPayloadMagic = 0x4E574647"

definition Node_Pass :: u8 where "Node_Pass = 1"
definition Node_Resource :: u8 where "Node_Resource = 2"
definition Node_External :: u8 where "Node_External = 3"
definition Edge_Reads :: u8 where "Edge_Reads = 1"
definition Edge_Writes :: u8 where "Edge_Writes = 2"
definition Edge_DependsOn :: u8 where "Edge_DependsOn = 3"

definition IsValidFrameGraphNodeKind :: "u8 \<Rightarrow> bool" where
  "IsValidFrameGraphNodeKind kind = (kind \<in> {Node_Pass, Node_Resource, Node_External})"

definition IsValidFrameGraphEdgeKind :: "u8 \<Rightarrow> bool" where
  "IsValidFrameGraphEdgeKind kind = (kind \<in> {Edge_Reads, Edge_Writes, Edge_DependsOn})"

record FrameGraphNode =
  n_name :: NameHash
  n_label :: "u8 list"
  n_kind :: u8
  n_flags :: u8

record FrameGraphEdge =
  g_fromNodeIndex :: u32
  g_toNodeIndex :: u32
  g_kind :: u8
  g_flags :: u8

record FrameGraphPayload =
  fp_frameIndex :: u64
  fp_nodes :: "FrameGraphNode list"
  fp_edges :: "FrameGraphEdge list"

definition IsValidStringTableText :: "u8 list \<Rightarrow> bool" where
  "IsValidStringTableText t = (t \<noteq> [] \<and> \<not> HasEmbeddedNull t \<and> length t < 2 ^ 32 - 1)"

definition ValidateNodeInput :: "FrameGraphNode \<Rightarrow> bool" where
  "ValidateNodeInput node =
     (\<not> IsZeroHash (n_name node) \<and> IsValidFrameGraphNodeKind (n_kind node) \<and> IsValidStringTableText (n_label node))"

definition ValidateEdgeInput :: "nat \<Rightarrow> FrameGraphEdge \<Rightarrow> bool" where
  "ValidateEdgeInput nodeCount edge =
     (IsValidFrameGraphEdgeKind (g_kind edge) \<and> unat (g_fromNodeIndex edge) < nodeCount \<and> unat (g_toNodeIndex edge) < nodeCount)"

section \<open>Images\<close>

record EncodedFrameGraphPayloadHeader =
  fh_magic :: u32
  fh_version :: u16
  fh_reserved :: u16
  fh_frameIndex :: u64
  fh_nodeCount :: u32
  fh_edgeCount :: u32
  fh_stringTableBytes :: u32

definition graph_layout :: "nat list" where "graph_layout = [4, 2, 2, 8, 4, 4, 4]"

definition graph_image :: "EncodedFrameGraphPayloadHeader \<Rightarrow> u8 list" where
  "graph_image h = concat [le_bytes 4 (fh_magic h), le_bytes 2 (fh_version h), le_bytes 2 (fh_reserved h),
     le_bytes 8 (fh_frameIndex h), le_bytes 4 (fh_nodeCount h), le_bytes 4 (fh_edgeCount h), le_bytes 4 (fh_stringTableBytes h)]"

definition graph_of_image :: "u8 list \<Rightarrow> EncodedFrameGraphPayloadHeader" where
  "graph_of_image b = (let f = split_fields graph_layout b in
     \<lparr>fh_magic = le_value (f ! 0), fh_version = le_value (f ! 1), fh_reserved = le_value (f ! 2),
      fh_frameIndex = le_value (f ! 3), fh_nodeCount = le_value (f ! 4), fh_edgeCount = le_value (f ! 5),
      fh_stringTableBytes = le_value (f ! 6)\<rparr>)"

record EncodedFrameGraphNode =
  en_nameHash :: NameHash
  en_labelOffset :: u32
  en_kind :: u8
  en_flags :: u8
  en_reserved :: u16

definition hash_image :: "NameHash \<Rightarrow> u8 list" where
  "hash_image h = concat (map (le_bytes 8) h)"

definition hash_of_image :: "u8 list \<Rightarrow> NameHash" where
  "hash_of_image b = map le_value (split_fields (replicate 8 8) b)"

definition node_layout :: "nat list" where "node_layout = [64, 4, 1, 1, 2]"

definition node_image :: "EncodedFrameGraphNode \<Rightarrow> u8 list" where
  "node_image n = concat [hash_image (en_nameHash n), le_bytes 4 (en_labelOffset n), le_bytes 1 (en_kind n),
     le_bytes 1 (en_flags n), le_bytes 2 (en_reserved n)]"

definition node_of_image :: "u8 list \<Rightarrow> EncodedFrameGraphNode" where
  "node_of_image b = (let f = split_fields node_layout b in
     \<lparr>en_nameHash = hash_of_image (f ! 0), en_labelOffset = le_value (f ! 1), en_kind = le_value (f ! 2),
      en_flags = le_value (f ! 3), en_reserved = le_value (f ! 4)\<rparr>)"

record EncodedFrameGraphEdge =
  ee_fromNodeIndex :: u32
  ee_toNodeIndex :: u32
  ee_kind :: u8
  ee_flags :: u8
  ee_reserved :: u16

definition edge_layout :: "nat list" where "edge_layout = [4, 4, 1, 1, 2]"

definition edge_image :: "EncodedFrameGraphEdge \<Rightarrow> u8 list" where
  "edge_image e = concat [le_bytes 4 (ee_fromNodeIndex e), le_bytes 4 (ee_toNodeIndex e), le_bytes 1 (ee_kind e),
     le_bytes 1 (ee_flags e), le_bytes 2 (ee_reserved e)]"

definition edge_of_image :: "u8 list \<Rightarrow> EncodedFrameGraphEdge" where
  "edge_of_image b = (let f = split_fields edge_layout b in
     \<lparr>ee_fromNodeIndex = le_value (f ! 0), ee_toNodeIndex = le_value (f ! 1), ee_kind = le_value (f ! 2),
      ee_flags = le_value (f ! 3), ee_reserved = le_value (f ! 4)\<rparr>)"

definition ValidateGraphHeader :: "EncodedFrameGraphPayloadHeader \<Rightarrow> bool" where
  "ValidateGraphHeader h = (fh_magic h = s_FrameGraphPayloadMagic \<and> fh_reserved h = 0)"

definition ValidateEncodedNode :: "EncodedFrameGraphNode \<Rightarrow> bool" where
  "ValidateEncodedNode n = (en_reserved n = 0 \<and> \<not> IsZeroHash (en_nameHash n) \<and> IsValidFrameGraphNodeKind (en_kind n))"

definition ValidateEncodedEdge :: "nat \<Rightarrow> EncodedFrameGraphEdge \<Rightarrow> bool" where
  "ValidateEncodedEdge nodeCount e =
     (ee_reserved e = 0 \<and> IsValidFrameGraphEdgeKind (ee_kind e)
      \<and> unat (ee_fromNodeIndex e) < nodeCount \<and> unat (ee_toNodeIndex e) < nodeCount)"

section \<open>Building\<close>

fun table_size :: "FrameGraphNode list \<Rightarrow> usize \<Rightarrow> usize option" where
  "table_size [] stringTableBytes = Some stringTableBytes"
| "table_size (node # nodes) stringTableBytes =
     (if \<not> ValidateNodeInput node then None
      else let (fits, n) = AddStringTableTextReserveBytes stringTableBytes (of_nat (length (n_label node))) in
        if \<not> fits then None else table_size nodes n)"

definition graph_bytes :: "usize \<Rightarrow> usize \<Rightarrow> usize \<Rightarrow> usize option" where
  "graph_bytes nodeCount edgeCount stringTableBytes =
     (let (fits, n) = AddBinaryRepeatedReserveBytes 28 nodeCount 72 in
      if \<not> fits then None
      else let (fits, n) = AddBinaryRepeatedReserveBytes n edgeCount 12 in
        if \<not> fits then None
        else let (fits, n) = AddBinaryReserveBytes n stringTableBytes in if \<not> fits then None else Some n)"

definition encode_node :: "FrameGraphNode \<Rightarrow> u32 \<Rightarrow> EncodedFrameGraphNode" where
  "encode_node node labelOffset =
     \<lparr>en_nameHash = n_name node, en_labelOffset = labelOffset, en_kind = n_kind node, en_flags = n_flags node, en_reserved = 0\<rparr>"

fun encode_nodes :: "FrameGraphNode list \<Rightarrow> u8 list \<Rightarrow> (EncodedFrameGraphNode list \<times> u8 list) option" where
  "encode_nodes [] stringTable = Some ([], stringTable)"
| "encode_nodes (node # nodes) stringTable =
     (case AppendStringTableText stringTable (n_label node) of
        (ok, stringTable, labelOffset) \<Rightarrow>
          if \<not> ok then None
          else map_option (\<lambda>(encoded, t). (encode_node node labelOffset # encoded, t)) (encode_nodes nodes stringTable))"

definition encode_edge :: "FrameGraphEdge \<Rightarrow> EncodedFrameGraphEdge" where
  "encode_edge edge = \<lparr>ee_fromNodeIndex = g_fromNodeIndex edge, ee_toNodeIndex = g_toNodeIndex edge, ee_kind = g_kind edge,
     ee_flags = g_flags edge, ee_reserved = 0\<rparr>"

fun append_pods :: "u8 list list \<Rightarrow> u8 list \<Rightarrow> binary_error + u8 list" where
  "append_pods [] out = Inr out"
| "append_pods (b # bs) out = (case AppendPOD out b of Inl e \<Rightarrow> Inl e | Inr out \<Rightarrow> append_pods bs out)"

definition BuildFrameGraphPayload ::
    "u64 \<Rightarrow> FrameGraphNode list \<Rightarrow> FrameGraphEdge list \<Rightarrow> binary_error + bool \<times> u8 list" where
  "BuildFrameGraphPayload frameIndex nodes edges =
     (if length nodes > 2 ^ 32 - 1 \<or> length edges > 2 ^ 32 - 1 then Inr (False, [])
      else case table_size nodes 0 of
        None \<Rightarrow> Inr (False, [])
      | Some stringTableBytes \<Rightarrow>
          if \<not> list_all (ValidateEdgeInput (length nodes)) edges then Inr (False, [])
          else (case graph_bytes (of_nat (length nodes)) (of_nat (length edges)) stringTableBytes of
                  None \<Rightarrow> Inr (False, [])
                | Some payloadBytes \<Rightarrow>
                    (case encode_nodes nodes [] of
                       None \<Rightarrow> Inr (False, [])
                     | Some (encodedNodes, stringTable) \<Rightarrow>
                         let header = \<lparr>fh_magic = s_FrameGraphPayloadMagic, fh_version = s_FrameGraphPayloadVersion,
                               fh_reserved = 0, fh_frameIndex = frameIndex, fh_nodeCount = of_nat (length nodes),
                               fh_edgeCount = of_nat (length edges), fh_stringTableBytes = of_nat (length stringTable)\<rparr> in
                         (case append_pods (graph_image header # map node_image encodedNodes
                                            @ map (edge_image \<circ> encode_edge) edges) [] of
                            Inl e \<Rightarrow> Inl e
                          | Inr out \<Rightarrow>
                              let out = (if stringTable \<noteq> [] then AppendBytesNoReserveUnchecked out stringTable else out)
                              in Inr (length out = unat payloadBytes, out)))))"

section \<open>Parsing\<close>

primrec parse_nodes ::
    "nat \<Rightarrow> u8 list \<Rightarrow> nat \<Rightarrow> nat \<Rightarrow> nat \<Rightarrow> FrameGraphPayload \<Rightarrow> bool \<times> nat \<times> FrameGraphPayload" where
  "parse_nodes 0 encoded cursor stringTableOffset stringTableBytes out = (True, cursor, out)"
| "parse_nodes (Suc k) encoded cursor stringTableOffset stringTableBytes out =
     (case ReadPOD encoded cursor 72 of
        None \<Rightarrow> (False, cursor, out)
      | Some (b, cursor) \<Rightarrow>
          let encodedNode = node_of_image b in
          if \<not> ValidateEncodedNode encodedNode then (False, cursor, out)
          else (case ReadStringTableTextView encoded stringTableOffset stringTableBytes (en_labelOffset encodedNode) of
                  None \<Rightarrow> (False, cursor, out)
                | Some labelView \<Rightarrow>
                    let node = \<lparr>n_name = en_nameHash encodedNode, n_label = labelView, n_kind = en_kind encodedNode,
                                n_flags = en_flags encodedNode\<rparr>
                    in parse_nodes k encoded cursor stringTableOffset stringTableBytes (out\<lparr>fp_nodes := fp_nodes out @ [node]\<rparr>)))"

primrec parse_edges :: "nat \<Rightarrow> u8 list \<Rightarrow> nat \<Rightarrow> nat \<Rightarrow> FrameGraphPayload \<Rightarrow> bool \<times> nat \<times> FrameGraphPayload" where
  "parse_edges 0 encoded cursor nodeCount out = (True, cursor, out)"
| "parse_edges (Suc k) encoded cursor nodeCount out =
     (case ReadPOD encoded cursor 12 of
        None \<Rightarrow> (False, cursor, out)
      | Some (b, cursor) \<Rightarrow>
          let encodedEdge = edge_of_image b in
          if \<not> ValidateEncodedEdge nodeCount encodedEdge then (False, cursor, out)
          else let edge = \<lparr>g_fromNodeIndex = ee_fromNodeIndex encodedEdge, g_toNodeIndex = ee_toNodeIndex encodedEdge,
                           g_kind = ee_kind encodedEdge, g_flags = ee_flags encodedEdge\<rparr>
               in parse_edges k encoded cursor nodeCount (out\<lparr>fp_edges := fp_edges out @ [edge]\<rparr>))"

definition ParseFrameGraphPayload :: "u8 list option \<Rightarrow> bool \<times> FrameGraphPayload" where
  "ParseFrameGraphPayload payload =
     (let out = \<lparr>fp_frameIndex = 0, fp_nodes = [], fp_edges = []\<rparr> in
      case payload of
        None \<Rightarrow> (False, out)
      | Some encoded \<Rightarrow>
          if length encoded < 28 then (False, out)
          else (case ReadPOD encoded 0 28 of
                  None \<Rightarrow> (False, out)
                | Some (b, cursor) \<Rightarrow>
                    let header = graph_of_image b in
                    if \<not> ValidateGraphHeader header then (False, out)
                    else if graph_bytes (ucast (fh_nodeCount header)) (ucast (fh_edgeCount header))
                              (ucast (fh_stringTableBytes header)) \<noteq> Some (of_nat (length encoded)) then (False, out)
                    else (case AddBinaryRepeatedReserveBytes 28 (ucast (fh_nodeCount header)) 72 of (fits, edgeOffset) \<Rightarrow>
                      if \<not> fits then (False, out)
                      else (case AddBinaryRepeatedReserveBytes edgeOffset (ucast (fh_edgeCount header)) 12 of
                        (fits, stringTableOffset) \<Rightarrow>
                        if \<not> fits then (False, out)
                        else let out = out\<lparr>fp_frameIndex := fh_frameIndex header\<rparr> in
                          (case parse_nodes (unat (fh_nodeCount header)) encoded cursor (unat stringTableOffset)
                                  (unat (fh_stringTableBytes header)) out of
                             (ok, cursor, out) \<Rightarrow>
                               if \<not> ok then (False, out)
                               else (case parse_edges (unat (fh_edgeCount header)) encoded cursor (unat (fh_nodeCount header)) out of
                                  (ok, cursor, out) \<Rightarrow>
                                    if \<not> ok then (False, out) else (cursor = unat stringTableOffset, out)))))))"

definition RecordFrameGraph ::
    "u64 \<Rightarrow> u64 \<Rightarrow> FrameGraphNode list \<Rightarrow> FrameGraphEdge list \<Rightarrow> u32 \<Rightarrow> Recorder \<Rightarrow> bool \<times> Recorder" where
  "RecordFrameGraph now frameIndex nodes edges streamId r =
     RecordBuiltPayload now Kind_FrameGraphFrame frameIndex streamId (\<lambda>_. case BuildFrameGraphPayload frameIndex nodes edges of
       Inl _ \<Rightarrow> (False, []) | Inr x \<Rightarrow> x) r"

section \<open>Contributors\<close>

record FrameGraphPendingNameEdge =
  pe_toName :: NameHash
  pe_fromNodeIndex :: u32
  pe_kind :: u8
  pe_flags :: u8

record FrameGraphBuilder =
  b_nodes :: "FrameGraphNode list"
  b_edges :: "FrameGraphEdge list"
  b_pendingNameEdges :: "FrameGraphPendingNameEdge list"

text \<open>A node handle is its index; the invalid one has every bit set.\<close>

definition handle_valid :: "u32 \<Rightarrow> bool" where
  "handle_valid index = (index \<noteq> umax)"

definition addNode :: "NameHash \<Rightarrow> u8 list \<Rightarrow> u8 \<Rightarrow> u8 \<Rightarrow> FrameGraphBuilder \<Rightarrow> u32 \<times> FrameGraphBuilder" where
  "addNode name label kind flags b =
     (of_nat (length (b_nodes b)),
      b\<lparr>b_nodes := b_nodes b @ [\<lparr>n_name = name, n_label = label, n_kind = kind, n_flags = flags\<rparr>]\<rparr>)"

definition addPass :: "NameHash \<Rightarrow> u8 list \<Rightarrow> u8 \<Rightarrow> FrameGraphBuilder \<Rightarrow> u32 \<times> FrameGraphBuilder" where
  "addPass scope label flags b = addNode scope label Node_Pass flags b"

definition addResource :: "NameHash \<Rightarrow> u8 list \<Rightarrow> u8 \<Rightarrow> FrameGraphBuilder \<Rightarrow> u32 \<times> FrameGraphBuilder" where
  "addResource name label flags b = addNode name label Node_Resource flags b"

definition addExternal :: "NameHash \<Rightarrow> u8 list \<Rightarrow> u8 \<Rightarrow> FrameGraphBuilder \<Rightarrow> u32 \<times> FrameGraphBuilder" where
  "addExternal name label flags b = addNode name label Node_External flags b"

definition addEdge :: "u32 \<Rightarrow> u32 \<Rightarrow> u8 \<Rightarrow> u8 \<Rightarrow> FrameGraphBuilder \<Rightarrow> FrameGraphBuilder" where
  "addEdge from_node to_node kind flags b =
     (if \<not> handle_valid from_node \<or> \<not> handle_valid to_node then b
      else b\<lparr>b_edges := b_edges b @ [\<lparr>g_fromNodeIndex = from_node, g_toNodeIndex = to_node, g_kind = kind, g_flags = flags\<rparr>]\<rparr>)"

definition dependsOnByName :: "u32 \<Rightarrow> NameHash \<Rightarrow> u8 \<Rightarrow> FrameGraphBuilder \<Rightarrow> FrameGraphBuilder" where
  "dependsOnByName from_node dependencyName flags b =
     (if \<not> handle_valid from_node then b
      else b\<lparr>b_pendingNameEdges := b_pendingNameEdges b
             @ [\<lparr>pe_toName = dependencyName, pe_fromNodeIndex = from_node, pe_kind = Edge_DependsOn, pe_flags = flags\<rparr>]\<rparr>)"

text \<open>The lookup keeps the first node of a name, because \<open>emplace\<close> does not replace.\<close>

fun node_index :: "FrameGraphNode list \<Rightarrow> nat \<Rightarrow> NameHash \<Rightarrow> u32 option" where
  "node_index [] i name = None"
| "node_index (node # nodes) i name = (if EqualHash (n_name node) name then Some (of_nat i) else node_index nodes (i + 1) name)"

fun resolve_pending :: "FrameGraphNode list \<Rightarrow> FrameGraphPendingNameEdge list \<Rightarrow> FrameGraphEdge list \<Rightarrow> FrameGraphEdge list" where
  "resolve_pending nodes [] edges = edges"
| "resolve_pending nodes (pending # ps) edges =
     (case node_index nodes 0 (pe_toName pending) of
        None \<Rightarrow> resolve_pending nodes ps edges
      | Some index \<Rightarrow>
          resolve_pending nodes ps (edges @ [\<lparr>g_fromNodeIndex = pe_fromNodeIndex pending, g_toNodeIndex = index,
            g_kind = pe_kind pending, g_flags = pe_flags pending\<rparr>]))"

definition ResolvePendingNameEdges ::
    "FrameGraphNode list \<Rightarrow> FrameGraphEdge list \<Rightarrow> FrameGraphPendingNameEdge list \<Rightarrow> FrameGraphEdge list" where
  "ResolvePendingNameEdges nodes edges pendingNameEdges =
     (if nodes = [] \<or> pendingNameEdges = [] then edges else resolve_pending nodes pendingNameEdges edges)"

definition registerContributor :: "'c \<Rightarrow> 'c list \<Rightarrow> 'c list" where
  "registerContributor c contributors = (if c \<in> set contributors then contributors else contributors @ [c])"

definition unregisterContributor :: "'c \<Rightarrow> 'c list \<Rightarrow> 'c list" where
  "unregisterContributor c contributors = removeAll c contributors"

fun run_contributors ::
    "('c \<Rightarrow> FrameGraphBuilder \<Rightarrow> bool \<times> FrameGraphBuilder) \<Rightarrow> 'c list \<Rightarrow> bool \<Rightarrow> FrameGraphBuilder \<Rightarrow> bool \<times> FrameGraphBuilder"
where
  "run_contributors run [] hasGraph b = (hasGraph, b)"
| "run_contributors run (c # cs) hasGraph b = (let (appended, b) = run c b in run_contributors run cs (hasGraph \<or> appended) b)"

definition registry_record ::
    "('c \<Rightarrow> FrameGraphBuilder \<Rightarrow> bool \<times> FrameGraphBuilder) \<Rightarrow> 'c list \<Rightarrow> u64 \<Rightarrow> u64 \<Rightarrow> u32 \<Rightarrow> Recorder \<Rightarrow> bool \<times> Recorder"
where
  "registry_record run contributors now frameIndex streamId r =
     (if \<not> HasCapture (r_capture r) Capture_FrameGraph then (False, r)
      else if contributors = [] then (False, r)
      else let (hasGraph, b) = run_contributors run contributors False \<lparr>b_nodes = [], b_edges = [], b_pendingNameEdges = []\<rparr> in
        if \<not> hasGraph then (False, r)
        else RecordFrameGraph now frameIndex (b_nodes b)
               (ResolvePendingNameEdges (b_nodes b) (b_edges b) (b_pendingNameEdges b)) streamId r)"

section \<open>Images are read back\<close>

lemma length_hash_image [simp]: "length (hash_image h) = 8 * length h"
  by (induction h) (simp_all add: hash_image_def)

lemma hash_of_image_image: "length h = 8 \<Longrightarrow> hash_of_image (hash_image h) = h"
  using split_fields_concat [of "map (le_bytes 8) h" "[]"]
  by (simp add: hash_of_image_def hash_image_def comp_def map_replicate_const)

lemma length_hash_of_image [simp]: "length (hash_of_image b) = 8"
proof -
  have "length (split_fields ns b) = length ns" for ns by (induction ns arbitrary: b) simp_all
  then show ?thesis by (simp add: hash_of_image_def)
qed

lemma length_graph_images [simp]:
  "length (graph_image h) = 28" "length (edge_image e) = 12" "length (node_image n) = 8 * length (en_nameHash n) + 8"
  by (simp_all add: graph_image_def edge_image_def node_image_def)

lemma graph_of_image_image [simp]: "graph_of_image (graph_image h) = h"
proof -
  let ?f = "[le_bytes 4 (fh_magic h), le_bytes 2 (fh_version h), le_bytes 2 (fh_reserved h),
     le_bytes 8 (fh_frameIndex h), le_bytes 4 (fh_nodeCount h), le_bytes 4 (fh_edgeCount h), le_bytes 4 (fh_stringTableBytes h)]"
  have "split_fields graph_layout (graph_image h) = ?f"
    using split_fields_concat [of ?f "[]"] by (simp only: graph_image_def graph_layout_def list.map length_le_bytes append_Nil2)
  then show ?thesis by (simp add: graph_of_image_def Let_def)
qed

lemma edge_of_image_image [simp]: "edge_of_image (edge_image e) = e"
proof -
  let ?f = "[le_bytes 4 (ee_fromNodeIndex e), le_bytes 4 (ee_toNodeIndex e), le_bytes 1 (ee_kind e),
     le_bytes 1 (ee_flags e), le_bytes 2 (ee_reserved e)]"
  have "split_fields edge_layout (edge_image e) = ?f"
    using split_fields_concat [of ?f "[]"] by (simp only: edge_image_def edge_layout_def list.map length_le_bytes append_Nil2)
  then show ?thesis by (simp add: edge_of_image_def Let_def)
qed

lemma node_of_image_image [simp]:
  assumes "length (en_nameHash n) = 8"
  shows "node_of_image (node_image n) = n"
proof -
  let ?f = "[hash_image (en_nameHash n), le_bytes 4 (en_labelOffset n), le_bytes 1 (en_kind n),
     le_bytes 1 (en_flags n), le_bytes 2 (en_reserved n)]"
  have "map length ?f = node_layout" using assms by (simp add: node_layout_def)
  then have "split_fields node_layout (node_image n) = ?f"
    using split_fields_concat [of ?f "[]"] by (simp only: node_image_def append_Nil2)
  then show ?thesis using assms by (simp add: node_of_image_def Let_def hash_of_image_image)
qed

section \<open>Sizes\<close>

lemma AddBinaryRepeatedReserveBytes_small:
  assumes "unat a + unat c * unat b < 2 ^ 64"
  shows "\<exists>n. AddBinaryRepeatedReserveBytes a c b = (True, n) \<and> unat n = unat a + unat c * unat b"
proof -
  have m: "unat (c * b) = unat c * unat b" using assms by (intro unat_mult_no_overflow) simp
  have "\<not> (b \<noteq> 0 \<and> umax div b < c)"
  proof
    assume b: "b \<noteq> 0 \<and> umax div b < c"
    then have "(2 ^ 64 - 1) div unat b < unat c" by (simp add: word_less_nat_alt unat_div unat_umax)
    moreover have "0 < unat b" using b unat_gt_0 by blast
    ultimately have "2 ^ 64 - 1 < unat c * unat b" by (simp add: div_less_iff_less_mult)
    then show False using assms by simp
  qed
  then have "AddBinaryRepeatedReserveBytes a c b = AddBinaryReserveBytes a (c * b)"
    by (auto simp: AddBinaryRepeatedReserveBytes_def)
  then show ?thesis using AddBinaryReserveBytes_spec [of a "c * b"] m assms by (cases "AddBinaryReserveBytes a (c * b)") simp
qed

lemma AddBinaryReserveBytes_small:
  assumes "unat a + unat b < 2 ^ 64"
  shows "\<exists>n. AddBinaryReserveBytes a b = (True, n) \<and> unat n = unat a + unat b"
  using AddBinaryReserveBytes_spec [of a b] assms by (cases "AddBinaryReserveBytes a b") simp

lemma graph_bytes_small:
  assumes "unat n < 2 ^ 32" "unat e < 2 ^ 32" "unat t < 2 ^ 32"
  shows "\<exists>total. graph_bytes n e t = Some total \<and> unat total = 28 + unat n * 72 + unat e * 12 + unat t"
    "\<exists>off. AddBinaryRepeatedReserveBytes 28 n 72 = (True, off) \<and> unat off = 28 + unat n * 72
      \<and> (\<exists>off2. AddBinaryRepeatedReserveBytes off e 12 = (True, off2) \<and> unat off2 = 28 + unat n * 72 + unat e * 12)"
proof -
  obtain n1 where 1: "AddBinaryRepeatedReserveBytes 28 n 72 = (True, n1)" "unat n1 = 28 + unat n * 72"
    using AddBinaryRepeatedReserveBytes_small [of 28 n 72] assms by auto
  obtain n2 where 2: "AddBinaryRepeatedReserveBytes n1 e 12 = (True, n2)" "unat n2 = 28 + unat n * 72 + unat e * 12"
    using AddBinaryRepeatedReserveBytes_small [of n1 e 12] 1(2) assms by auto
  obtain n3 where 3: "AddBinaryReserveBytes n2 t = (True, n3)" "unat n3 = 28 + unat n * 72 + unat e * 12 + unat t"
    using AddBinaryReserveBytes_small [of n2 t] 2(2) assms by auto
  show "\<exists>total. graph_bytes n e t = Some total \<and> unat total = 28 + unat n * 72 + unat e * 12 + unat t"
    using 1 2 3 by (simp add: graph_bytes_def)
  show "\<exists>off. AddBinaryRepeatedReserveBytes 28 n 72 = (True, off) \<and> unat off = 28 + unat n * 72
      \<and> (\<exists>off2. AddBinaryRepeatedReserveBytes off e 12 = (True, off2) \<and> unat off2 = 28 + unat n * 72 + unat e * 12)"
    using 1 2 by simp
qed

lemma table_reserve_value:
  assumes "fst (AddStringTableTextReserveBytes a n)"
  shows "unat (snd (AddStringTableTextReserveBytes a n)) = unat a + unat n + 1"
proof -
  have c: "n \<noteq> 0" "\<not> n > umax - 1" "AddStringTableTextReserveBytes a n = AddBinaryReserveBytes a (n + 1)"
    using assms by (auto simp: AddStringTableTextReserveBytes_def Let_def split: if_splits)
  have "unat n + unat (1 :: usize) < 2 ^ LENGTH(64)" using c(2) unfolding umax_minus_less by simp
  then have "unat (n + 1) = unat n + 1" using unat_plus_no_overflow [of n 1] by simp
  then show ?thesis using AddBinaryReserveBytes_spec(2) [of a "n + 1"] assms c(3) by simp
qed

definition label_bytes :: "FrameGraphNode list \<Rightarrow> nat" where
  "label_bytes nodes = sum_list (map (\<lambda>node. length (n_label node) + 1) nodes)"

lemma label_bytes_simps [simp]: "label_bytes [] = 0"
  "label_bytes (node # nodes) = length (n_label node) + 1 + label_bytes nodes"
  by (simp_all add: label_bytes_def)

lemma table_size_spec:
  assumes "unat n < 2 ^ 32"
  shows "(case table_size nodes n of
      None \<Rightarrow> \<not> (list_all ValidateNodeInput nodes \<and> unat n + label_bytes nodes < 2 ^ 32)
    | Some m \<Rightarrow> list_all ValidateNodeInput nodes \<and> unat n + label_bytes nodes < 2 ^ 32 \<and> unat m = unat n + label_bytes nodes)"
  using assms
proof (induction nodes arbitrary: n)
  case Nil
  then show ?case by simp
next
  case (Cons node nodes)
  show ?case
  proof (cases "ValidateNodeInput node")
    case True
    have l: "length (n_label node) < 2 ^ 64" "0 < length (n_label node)"
      using True by (simp_all add: ValidateNodeInput_def IsValidStringTableText_def)
    obtain f m where a: "AddStringTableTextReserveBytes n (of_nat (length (n_label node))) = (f, m)" by fastforce
    have u: "unat (of_nat (length (n_label node)) :: usize) = length (n_label node)" by (rule unat_small_u64 [OF l(1)])
    have f: "f \<longleftrightarrow> unat n + length (n_label node) + 1 < 2 ^ 32" "f \<Longrightarrow> unat m = unat n + length (n_label node) + 1"
      using table_reserve_words [of n "of_nat (length (n_label node))"] table_reserve_value [of n "of_nat (length (n_label node))"]
        a u l(2) by simp_all
    show ?thesis
    proof (cases f)
      case fits: True
      then have "unat m < 2 ^ 32" using f by simp
      then show ?thesis using Cons.IH [of m] True a fits f(2) by (simp add: ac_simps split: option.splits)
    next
      case False
      then show ?thesis using True a f(1) by simp
    qed
  next
    case False
    then show ?thesis by simp
  qed
qed

section \<open>Building succeeds within the limits\<close>

lemma encode_nodes_texts:
  "encode_nodes nodes tbl
   = map_option (\<lambda>(t, offs). (map2 encode_node nodes offs, t)) (append_texts tbl (map n_label nodes))"
  by (induction nodes arbitrary: tbl) (auto simp: option.map_comp comp_def case_prod_beta split: prod.split)

lemma append_texts_fits:
  "\<forall>t \<in> set ts. t \<noteq> [] \<Longrightarrow> length tbl + sum_list (map (\<lambda>t. length t + 1) ts) < 2 ^ 32 \<Longrightarrow>
   \<exists>tbl' offs. append_texts tbl ts = Some (tbl', offs) \<and> length offs = length ts
     \<and> length tbl' = length tbl + sum_list (map (\<lambda>t. length t + 1) ts)"
proof (induction ts arbitrary: tbl)
  case (Cons t ts)
  have a: "AppendStringTableText tbl t = (True, tbl @ t @ [0], of_nat (length tbl))"
    using Cons.prems AppendStringTableText_cases [of tbl t] by simp
  obtain tbl' offs where "append_texts (tbl @ t @ [0]) ts = Some (tbl', offs)" "length offs = length ts"
    "length tbl' = length tbl + length t + 1 + sum_list (map (\<lambda>t. length t + 1) ts)"
    using Cons.IH [of "tbl @ t @ [0]"] Cons.prems by auto
  then show ?case using a by simp
qed simp

lemma append_pods_fits: "length out + length (concat bs) < 2 ^ 64 \<Longrightarrow> append_pods bs out = Inr (out @ concat bs)"
  by (induction bs arbitrary: out) (simp_all add: AppendPOD_fits)

definition graph_ok :: "FrameGraphNode list \<Rightarrow> FrameGraphEdge list \<Rightarrow> bool" where
  "graph_ok nodes edges \<longleftrightarrow> length nodes < 2 ^ 32 \<and> length edges < 2 ^ 32 \<and> list_all ValidateNodeInput nodes
     \<and> label_bytes nodes < 2 ^ 32 \<and> list_all (ValidateEdgeInput (length nodes)) edges"

definition graph_header :: "u64 \<Rightarrow> FrameGraphNode list \<Rightarrow> FrameGraphEdge list \<Rightarrow> EncodedFrameGraphPayloadHeader" where
  "graph_header frameIndex nodes edges =
     \<lparr>fh_magic = s_FrameGraphPayloadMagic, fh_version = s_FrameGraphPayloadVersion, fh_reserved = 0,
      fh_frameIndex = frameIndex, fh_nodeCount = of_nat (length nodes), fh_edgeCount = of_nat (length edges),
      fh_stringTableBytes = of_nat (label_bytes nodes)\<rparr>"

definition nodes_bytes :: "FrameGraphNode list \<Rightarrow> u32 list \<Rightarrow> u8 list" where
  "nodes_bytes nodes offs = concat (map node_image (map2 encode_node nodes offs))"

definition edges_bytes :: "FrameGraphEdge list \<Rightarrow> u8 list" where
  "edges_bytes edges = concat (map (edge_image \<circ> encode_edge) edges)"

lemma nodes_bytes_simps [simp]: "nodes_bytes [] offs = []"
  "nodes_bytes (node # nodes) (off # offs) = node_image (encode_node node off) @ nodes_bytes nodes offs"
  by (simp_all add: nodes_bytes_def)

lemma edges_bytes_simps [simp]: "edges_bytes [] = []" "edges_bytes (e # es) = edge_image (encode_edge e) @ edges_bytes es"
  by (simp_all add: edges_bytes_def)

lemma encode_node_simps [simp]: "en_nameHash (encode_node node off) = n_name node" "en_labelOffset (encode_node node off) = off"
  "en_kind (encode_node node off) = n_kind node" "en_flags (encode_node node off) = n_flags node"
  "en_reserved (encode_node node off) = 0"
  by (simp_all add: encode_node_def)

lemma node_of_fields: "\<lparr>n_name = n_name node, n_label = n_label node, n_kind = n_kind node, n_flags = n_flags node\<rparr> = node"
  by simp

lemma edge_of_encoded: "\<lparr>g_fromNodeIndex = ee_fromNodeIndex (encode_edge e), g_toNodeIndex = ee_toNodeIndex (encode_edge e),
    g_kind = ee_kind (encode_edge e), g_flags = ee_flags (encode_edge e)\<rparr> = e"
  by (simp add: encode_edge_def)

lemma length_nodes_bytes:
  "length offs = length nodes \<Longrightarrow> \<forall>node \<in> set nodes. length (n_name node) = 8 \<Longrightarrow> length (nodes_bytes nodes offs) = 72 * length nodes"
proof (induction nodes arbitrary: offs)
  case (Cons node nodes)
  then show ?case by (cases offs) simp_all
qed simp

lemma length_edges_bytes [simp]: "length (edges_bytes edges) = 12 * length edges"
  by (induction edges) simp_all

lemma append_table: "(if t \<noteq> [] then AppendBytesNoReserveUnchecked out t else out) = out @ t"
  by simp

lemma unat_small_u32: "n < 2 ^ 32 \<Longrightarrow> unat (of_nat n :: u32) = n"
  by (simp add: unat_of_nat_small)

lemma BuildFrameGraphPayload_ok:
  assumes names: "\<forall>node \<in> set nodes. length (n_name node) = 8" and ok: "graph_ok nodes edges"
  shows "\<exists>tbl offs. append_texts [] (map n_label nodes) = Some (tbl, offs) \<and> length offs = length nodes
    \<and> length tbl = label_bytes nodes
    \<and> BuildFrameGraphPayload frameIndex nodes edges
      = Inr (True, graph_image (graph_header frameIndex nodes edges) @ nodes_bytes nodes offs @ edges_bytes edges @ tbl)"
proof -
  have v: "\<forall>t \<in> set (map n_label nodes). t \<noteq> []"
    using ok by (auto simp: graph_ok_def list_all_iff ValidateNodeInput_def IsValidStringTableText_def)
  have lb: "label_bytes nodes = sum_list (map (\<lambda>t. length t + 1) (map n_label nodes))" by (simp add: label_bytes_def comp_def)
  obtain tbl offs where t: "append_texts [] (map n_label nodes) = Some (tbl, offs)" "length offs = length nodes"
    "length tbl = label_bytes nodes"
    using append_texts_fits [OF v, of "[]"] ok lb by (auto simp: graph_ok_def)
  have n: "unat (of_nat (length nodes) :: usize) = length nodes" "unat (of_nat (length edges) :: usize) = length edges"
    using ok by (simp_all add: graph_ok_def unat_small_u64)
  obtain m where m: "table_size nodes 0 = Some m" "unat m = label_bytes nodes"
    using table_size_spec [of 0 nodes] ok by (auto simp: graph_ok_def split: option.splits)
  obtain total where total: "graph_bytes (of_nat (length nodes)) (of_nat (length edges)) m = Some total"
    "unat total = 28 + length nodes * 72 + length edges * 12 + label_bytes nodes"
    using graph_bytes_small(1) [of "of_nat (length nodes)" "of_nat (length edges)" m] n m(2) ok by (auto simp: graph_ok_def)
  let ?pods = "graph_image (graph_header frameIndex nodes edges) # map node_image (map2 encode_node nodes offs)
    @ map (edge_image \<circ> encode_edge) edges"
  have c: "concat ?pods = graph_image (graph_header frameIndex nodes edges) @ nodes_bytes nodes offs @ edges_bytes edges"
    by (simp add: nodes_bytes_def edges_bytes_def)
  have l: "length (concat ?pods) = 28 + 72 * length nodes + 12 * length edges"
    unfolding c using length_nodes_bytes [OF t(2) names] by simp
  then have "append_pods ?pods [] = Inr (concat ?pods)" using ok append_pods_fits [of "[]" ?pods] by (simp add: graph_ok_def)
  moreover have "\<not> (length nodes > 2 ^ 32 - 1 \<or> length edges > 2 ^ 32 - 1)" using ok by (simp add: graph_ok_def)
  moreover have "length (concat ?pods @ tbl) = unat total" using l t(3) total(2) by simp
  ultimately have "BuildFrameGraphPayload frameIndex nodes edges = Inr (True, concat ?pods @ tbl)"
    using m(1) total(1) ok t
    by (simp add: BuildFrameGraphPayload_def append_table graph_ok_def encode_nodes_texts graph_header_def [symmetric] Let_def
        del: append_pods.simps)
  then show ?thesis using t c by simp
qed

lemma BuildFrameGraphPayload_fails:
  assumes "\<not> graph_ok nodes edges"
  shows "BuildFrameGraphPayload frameIndex nodes edges = Inr (False, [])"
  using assms table_size_spec [of 0 nodes]
  by (auto simp: BuildFrameGraphPayload_def graph_ok_def split: option.splits)

section \<open>Parsing what was built\<close>

lemma ReadPOD_at:
  "length pod = n \<Longrightarrow> ReadPOD (pre @ pod @ suf) (length pre) n = Some (pod, length pre + n)"
  using ReadBytes_middle [of pre pod suf] by (simp add: ReadPOD_def)

lemma parse_nodes_images:
  assumes "length offs = length nodes" "\<forall>node \<in> set nodes. length (n_name node) = 8 \<and> ValidateNodeInput node"
    "encoded = pre @ nodes_bytes nodes offs @ suf"
    "\<forall>i < length nodes. ReadStringTableTextView encoded toff tbytes (offs ! i) = Some (n_label (nodes ! i))"
  shows "parse_nodes (length nodes) encoded (length pre) toff tbytes out
    = (True, length pre + 72 * length nodes, out\<lparr>fp_nodes := fp_nodes out @ nodes\<rparr>)"
  using assms
proof (induction nodes arbitrary: offs pre out)
  case (Cons node nodes)
  then obtain off offs' where o: "offs = off # offs'" by (cases offs) auto
  let ?n = "encode_node node off"
  have n: "length (en_nameHash ?n) = 8" "ValidateEncodedNode ?n"
    using Cons.prems(2) by (auto simp: ValidateEncodedNode_def ValidateNodeInput_def)
  have e: "encoded = pre @ node_image ?n @ nodes_bytes nodes offs' @ suf" using Cons.prems(3) o by simp
  have r: "ReadPOD encoded (length pre) 72 = Some (node_image ?n, length pre + 72)"
    unfolding e using n(1) by (intro ReadPOD_at) simp
  have "\<forall>i < length nodes. ReadStringTableTextView encoded toff tbytes (offs' ! i) = Some (n_label (nodes ! i))"
    using Cons.prems(4) o by auto
  then have IH: "parse_nodes (length nodes) encoded (length (pre @ node_image ?n)) toff tbytes (out\<lparr>fp_nodes := fp_nodes out @ [node]\<rparr>)
      = (True, length (pre @ node_image ?n) + 72 * length nodes, out\<lparr>fp_nodes := fp_nodes out @ node # nodes\<rparr>)"
    using Cons.IH [of offs' "pre @ node_image ?n" "out\<lparr>fp_nodes := fp_nodes out @ [node]\<rparr>"] Cons.prems(1,2) o e by simp
  have "ReadStringTableTextView encoded toff tbytes off = Some (n_label node)" using Cons.prems(4) o by force
  then show ?case using IH r n by (simp add: Let_def node_of_fields add.assoc)
qed simp

lemma parse_edges_images:
  assumes "encoded = pre @ edges_bytes edges @ suf" "list_all (ValidateEdgeInput nodeCount) edges"
  shows "parse_edges (length edges) encoded (length pre) nodeCount out
    = (True, length pre + 12 * length edges, out\<lparr>fp_edges := fp_edges out @ edges\<rparr>)"
  using assms
proof (induction edges arbitrary: pre out)
  case (Cons edge edges)
  let ?e = "encode_edge edge"
  have v: "ValidateEncodedEdge nodeCount ?e"
    using Cons.prems(2) by (simp add: ValidateEncodedEdge_def ValidateEdgeInput_def encode_edge_def)
  have e: "encoded = pre @ edge_image ?e @ edges_bytes edges @ suf" using Cons.prems(1) by simp
  have r: "ReadPOD encoded (length pre) 12 = Some (edge_image ?e, length pre + 12)" unfolding e by (intro ReadPOD_at) simp
  have IH: "parse_edges (length edges) encoded (length (pre @ edge_image ?e)) nodeCount (out\<lparr>fp_edges := fp_edges out @ [edge]\<rparr>)
      = (True, length (pre @ edge_image ?e) + 12 * length edges, out\<lparr>fp_edges := fp_edges out @ edge # edges\<rparr>)"
    using Cons.IH [of "pre @ edge_image ?e" "out\<lparr>fp_edges := fp_edges out @ [edge]\<rparr>"] Cons.prems(2) e by simp
  then show ?case using r v by (simp add: Let_def edge_of_encoded)
qed simp

lemma graph_header_simps:
  assumes "graph_ok nodes edges"
  shows "ValidateGraphHeader (graph_header f nodes edges)" "unat (fh_nodeCount (graph_header f nodes edges)) = length nodes"
    "unat (fh_edgeCount (graph_header f nodes edges)) = length edges"
    "unat (fh_stringTableBytes (graph_header f nodes edges)) = label_bytes nodes" "fh_frameIndex (graph_header f nodes edges) = f"
  using assms by (simp_all add: graph_header_def ValidateGraphHeader_def graph_ok_def unat_small_u32)

lemma graph_bytes_header:
  "\<exists>total. graph_bytes (ucast (fh_nodeCount h)) (ucast (fh_edgeCount h)) (ucast (fh_stringTableBytes h)) = Some total
     \<and> unat total = 28 + unat (fh_nodeCount h) * 72 + unat (fh_edgeCount h) * 12 + unat (fh_stringTableBytes h)"
  "\<exists>off. AddBinaryRepeatedReserveBytes 28 (ucast (fh_nodeCount h)) 72 = (True, off)
     \<and> (\<exists>off2. AddBinaryRepeatedReserveBytes off (ucast (fh_edgeCount h)) 12 = (True, off2)
          \<and> unat off2 = 28 + unat (fh_nodeCount h) * 72 + unat (fh_edgeCount h) * 12)"
proof -
  have u2: "unat x < 2 ^ 32" for x :: u32 using unsigned_less [where 'a = nat, of x] by simp
  have u: "unat (ucast x :: usize) = unat x" "unat x < 2 ^ 32" for x :: u32
    using u2 [of x] by (simp_all add: unsigned_ucast_eq take_bit_nat_eq_self)
  show "\<exists>total. graph_bytes (ucast (fh_nodeCount h)) (ucast (fh_edgeCount h)) (ucast (fh_stringTableBytes h)) = Some total
     \<and> unat total = 28 + unat (fh_nodeCount h) * 72 + unat (fh_edgeCount h) * 12 + unat (fh_stringTableBytes h)"
    using graph_bytes_small(1) [of "ucast (fh_nodeCount h)" "ucast (fh_edgeCount h)" "ucast (fh_stringTableBytes h)"] u by simp
  show "\<exists>off. AddBinaryRepeatedReserveBytes 28 (ucast (fh_nodeCount h)) 72 = (True, off)
     \<and> (\<exists>off2. AddBinaryRepeatedReserveBytes off (ucast (fh_edgeCount h)) 12 = (True, off2)
          \<and> unat off2 = 28 + unat (fh_nodeCount h) * 72 + unat (fh_edgeCount h) * 12)"
    using graph_bytes_small(2) [of "ucast (fh_nodeCount h)" "ucast (fh_edgeCount h)" 0] u by auto
qed

lemma ParseFrameGraphPayload_size:
  assumes "fst (ParseFrameGraphPayload (Some (graph_image h @ rest)))" "28 + length rest < 2 ^ 64"
  shows "length rest = unat (fh_nodeCount h) * 72 + unat (fh_edgeCount h) * 12 + unat (fh_stringTableBytes h)"
proof -
  obtain total where t: "graph_bytes (ucast (fh_nodeCount h)) (ucast (fh_edgeCount h)) (ucast (fh_stringTableBytes h)) = Some total"
    "unat total = 28 + unat (fh_nodeCount h) * 72 + unat (fh_edgeCount h) * 12 + unat (fh_stringTableBytes h)"
    using graph_bytes_header(1) by blast
  have "graph_bytes (ucast (fh_nodeCount h)) (ucast (fh_edgeCount h)) (ucast (fh_stringTableBytes h))
      = Some (of_nat (length (graph_image h @ rest)))"
    using assms(1) ReadPOD_image [of "graph_image h" 28 rest]
    by (simp add: ParseFrameGraphPayload_def Let_def split: if_splits)
  then have "total = of_nat (28 + length rest)" using t(1) by simp
  then have "unat total = 28 + length rest" using unat_small_u64 [OF assms(2)] by simp
  then show ?thesis using t(2) by simp
qed

lemma ParseFrameGraphPayload_built:
  assumes names: "\<forall>node \<in> set nodes. length (n_name node) = 8" and ok: "graph_ok nodes edges"
    and t: "append_texts [] (map n_label nodes) = Some (tbl, offs)" "length offs = length nodes" "length tbl = label_bytes nodes"
  shows "ParseFrameGraphPayload (Some (graph_image (graph_header f nodes edges) @ nodes_bytes nodes offs @ edges_bytes edges @ tbl))
    = (True, \<lparr>fp_frameIndex = f, fp_nodes = nodes, fp_edges = edges\<rparr>)"
proof -
  let ?h = "graph_header f nodes edges"
  let ?b = "graph_image ?h @ nodes_bytes nodes offs @ edges_bytes edges @ tbl"
  note h = graph_header_simps [OF ok, of f]
  have ln: "length (nodes_bytes nodes offs) = 72 * length nodes" by (rule length_nodes_bytes [OF t(2) names])
  have len: "length ?b = 28 + length nodes * 72 + length edges * 12 + label_bytes nodes" using ln t(3) by simp
  obtain total where total: "graph_bytes (ucast (fh_nodeCount ?h)) (ucast (fh_edgeCount ?h)) (ucast (fh_stringTableBytes ?h)) = Some total"
    "unat total = length ?b"
    using graph_bytes_header(1) [of ?h] len unfolding h by auto
  have small: "length ?b < 2 ^ 64" using total(2) unsigned_less [where 'a = nat, of total] by simp
  then have "total = of_nat (length ?b)" using total(2) by (metis of_nat_unat ucast_id)
  moreover obtain off off2 where off: "AddBinaryRepeatedReserveBytes 28 (ucast (fh_nodeCount ?h)) 72 = (True, off)"
    "AddBinaryRepeatedReserveBytes off (ucast (fh_edgeCount ?h)) 12 = (True, off2)"
    "unat off2 = 28 + length nodes * 72 + length edges * 12"
    using graph_bytes_header(2) [of ?h] unfolding h by auto
  have valid: "\<forall>node \<in> set nodes. length (n_name node) = 8 \<and> ValidateNodeInput node"
    using names ok by (simp add: graph_ok_def list_all_iff)
  have texts: "\<forall>x \<in> set (map n_label nodes). 0 \<notin> set x \<and> length x < 2 ^ 64"
    using valid by (auto simp: ValidateNodeInput_def IsValidStringTableText_def HasEmbeddedNull_def list_ex_iff)
  have views: "\<forall>i < length nodes. ReadStringTableTextView ?b (unat off2) (label_bytes nodes) (offs ! i) = Some (n_label (nodes ! i))"
    using append_texts_read [OF t(1) texts, of "graph_image ?h @ nodes_bytes nodes offs @ edges_bytes edges" "[]"] off(3) ln t(3)
    by (simp add: ac_simps)
  have pn: "parse_nodes (length nodes) ?b 28 (unat off2) (label_bytes nodes) \<lparr>fp_frameIndex = f, fp_nodes = [], fp_edges = []\<rparr>
      = (True, 28 + 72 * length nodes, \<lparr>fp_frameIndex = f, fp_nodes = nodes, fp_edges = []\<rparr>)"
    using parse_nodes_images [OF t(2) valid, of ?b "graph_image ?h" "edges_bytes edges @ tbl" "unat off2" "label_bytes nodes"
        "\<lparr>fp_frameIndex = f, fp_nodes = [], fp_edges = []\<rparr>"] views by simp
  have pe: "parse_edges (length edges) ?b (28 + 72 * length nodes) (length nodes) \<lparr>fp_frameIndex = f, fp_nodes = nodes, fp_edges = []\<rparr>
      = (True, unat off2, \<lparr>fp_frameIndex = f, fp_nodes = nodes, fp_edges = edges\<rparr>)"
    using parse_edges_images [of ?b "graph_image ?h @ nodes_bytes nodes offs" edges tbl "length nodes"
        "\<lparr>fp_frameIndex = f, fp_nodes = nodes, fp_edges = []\<rparr>"] ok ln off(3) by (simp add: graph_ok_def)
  have "\<not> length ?b < 28" using len by simp
  moreover have "ReadPOD ?b 0 28 = Some (graph_image ?h, 28)" by (rule ReadPOD_image) simp
  ultimately show ?thesis using total(1) h off(1,2) pn pe
    by (simp only: ParseFrameGraphPayload_def Let_def option.case prod.case graph_of_image_image if_False not_True_eq_False)
      simp
qed

text \<open>A frame graph survives its payload. Building succeeds exactly when every node has a name, a known kind
  and a label that a string table holds, every edge a known kind and two nodes of the graph, and the counts and the labels
  with their terminators fit 32 bits; it never overflows a buffer. Parsing what was built returns the frame, the nodes with
  their names and labels and the edges; and neither a strict prefix nor an extension of it is accepted.\<close>

lemma frame_graph_roundtrip:
  assumes names: "\<forall>node \<in> set nodes. length (n_name node) = 8"
  shows "\<exists>ok payload. BuildFrameGraphPayload frameIndex nodes edges = Inr (ok, payload) \<and> (ok \<longleftrightarrow> graph_ok nodes edges)
    \<and> (ok \<longrightarrow> ParseFrameGraphPayload (Some payload) = (True, \<lparr>fp_frameIndex = frameIndex, fp_nodes = nodes, fp_edges = edges\<rparr>)
        \<and> (\<forall>k < length payload. \<not> fst (ParseFrameGraphPayload (Some (take k payload))))
        \<and> (\<forall>x. x \<noteq> [] \<and> length (payload @ x) < 2 ^ 64 \<longrightarrow> \<not> fst (ParseFrameGraphPayload (Some (payload @ x)))))"
proof (cases "graph_ok nodes edges")
  case True
  let ?h = "graph_header frameIndex nodes edges"
  obtain tbl offs where t: "append_texts [] (map n_label nodes) = Some (tbl, offs)" "length offs = length nodes"
    "length tbl = label_bytes nodes"
    "BuildFrameGraphPayload frameIndex nodes edges = Inr (True, graph_image ?h @ nodes_bytes nodes offs @ edges_bytes edges @ tbl)"
    using BuildFrameGraphPayload_ok [OF names True] by blast
  let ?rest = "nodes_bytes nodes offs @ edges_bytes edges @ tbl"
  have ok: "ParseFrameGraphPayload (Some (graph_image ?h @ ?rest))
      = (True, \<lparr>fp_frameIndex = frameIndex, fp_nodes = nodes, fp_edges = edges\<rparr>)"
    by (rule ParseFrameGraphPayload_built [OF names True t(1-3)])
  have size: "length ?rest = length nodes * 72 + length edges * 12 + label_bytes nodes" "28 + length ?rest < 2 ^ 64"
    using length_nodes_bytes [OF t(2) names] t(3) True by (simp_all add: graph_ok_def)
  have eq: "length r = length ?rest" if "fst (ParseFrameGraphPayload (Some (graph_image ?h @ r)))" "28 + length r < 2 ^ 64" for r
    using ParseFrameGraphPayload_size [OF that] size(1) unfolding graph_header_simps [OF True] by simp
  have "\<not> fst (ParseFrameGraphPayload (Some (take k (graph_image ?h @ ?rest))))" if "k < length (graph_image ?h @ ?rest)" for k
  proof (cases "k < 28")
    case True
    then show ?thesis by (simp add: ParseFrameGraphPayload_def Let_def)
  next
    case False
    then have "take k (graph_image ?h @ ?rest) = graph_image ?h @ take (k - 28) ?rest" "k - 28 < length ?rest" using that by simp_all
    moreover from this have "28 + length (take (k - 28) ?rest) < 2 ^ 64" using size(2) by simp
    ultimately show ?thesis using eq [of "take (k - 28) ?rest"] by auto
  qed
  moreover have "\<not> fst (ParseFrameGraphPayload (Some ((graph_image ?h @ ?rest) @ x)))"
    if "x \<noteq> [] \<and> length ((graph_image ?h @ ?rest) @ x) < 2 ^ 64" for x
    using eq [of "?rest @ x"] that by auto
  ultimately show ?thesis using t(4) ok True by blast
next
  case False
  then show ?thesis using BuildFrameGraphPayload_fails by auto
qed

section \<open>Whatever is parsed is a graph\<close>

lemma text_scan_nonzero: "k \<le> i \<Longrightarrow> i < text_scan b a r k \<Longrightarrow> b ! (a + i) \<noteq> 0"
proof (induction b a r k rule: text_scan.induct)
  case (1 b a r k)
  show ?case
  proof (cases "k < r \<and> b ! (a + k) \<noteq> 0")
    case True
    then have "i < text_scan b a r (k + 1)" using 1(3) by (subst (asm) text_scan.simps) simp
    then show ?thesis using 1(1) [OF True] 1(2) True by (cases "k = i") simp_all
  next
    case False
    then have "text_scan b a r k = k" by (subst text_scan.simps) auto
    then show ?thesis using 1(2,3) by simp
  qed
qed

lemma ReadStringTableTextView_sound:
  assumes "ReadStringTableTextView b off n o' = Some t"
  shows "t \<noteq> [] \<and> 0 \<notin> set t \<and> length t < n"
proof -
  let ?o = "unat o'"
  define k where "k = text_scan b (off + ?o) (n - ?o) 0"
  have c: "off \<le> length b" "n \<le> length b - off" "?o < n" "k \<noteq> 0" "k < n - ?o" "t = take k (drop (off + ?o) b)"
    using assms by (auto simp: ReadStringTableTextView_def CanReadBytes_def k_def Let_def split: if_splits)
  then have l: "length t = k" by simp
  have "t ! i \<noteq> 0" if "i < k" for i
  proof -
    have "t ! i = b ! (off + ?o + i)" using c that by (simp add: nth_drop)
    moreover have "b ! (off + ?o + i) \<noteq> 0" using text_scan_nonzero [of 0 i b "off + ?o" "n - ?o"] that by (simp add: k_def)
    ultimately show ?thesis by simp
  qed
  then have "0 \<notin> set t" using l by (metis in_set_conv_nth)
  then show ?thesis using c l by auto
qed

definition node_typed :: "FrameGraphNode \<Rightarrow> bool" where
  "node_typed node = (length (n_name node) = 8 \<and> ValidateNodeInput node)"

definition graph_typed :: "FrameGraphPayload \<Rightarrow> bool" where
  "graph_typed g = (list_all node_typed (fp_nodes g) \<and> list_all (ValidateEdgeInput (length (fp_nodes g))) (fp_edges g))"

lemma parse_nodes_typed:
  assumes "parse_nodes k b cursor toff n out = (ok, cursor', out')" "list_all node_typed (fp_nodes out)" "n < 2 ^ 32"
  shows "list_all node_typed (fp_nodes out') \<and> fp_edges out' = fp_edges out
    \<and> (ok \<longrightarrow> length (fp_nodes out') = length (fp_nodes out) + k)"
  using assms
proof (induction k arbitrary: cursor out)
  case (Suc k)
  show ?case
  proof (cases "\<exists>pod c view. ReadPOD b cursor 72 = Some (pod, c) \<and> ValidateEncodedNode (node_of_image pod)
      \<and> ReadStringTableTextView b toff n (en_labelOffset (node_of_image pod)) = Some view")
    case True
    then obtain pod c view where r: "ReadPOD b cursor 72 = Some (pod, c)" "ValidateEncodedNode (node_of_image pod)"
      "ReadStringTableTextView b toff n (en_labelOffset (node_of_image pod)) = Some view" by blast
    let ?node = "\<lparr>n_name = en_nameHash (node_of_image pod), n_label = view, n_kind = en_kind (node_of_image pod),
      n_flags = en_flags (node_of_image pod)\<rparr>"
    have "node_typed ?node"
      using r(2) ReadStringTableTextView_sound [OF r(3)] Suc.prems(3)
      by (auto simp: node_typed_def ValidateEncodedNode_def ValidateNodeInput_def IsValidStringTableText_def HasEmbeddedNull_def
          list_ex_iff node_of_image_def Let_def)
    moreover have "parse_nodes k b c toff n (out\<lparr>fp_nodes := fp_nodes out @ [?node]\<rparr>) = (ok, cursor', out')"
      using Suc.prems(1) r by (simp add: Let_def)
    ultimately show ?thesis using Suc.IH [of c "out\<lparr>fp_nodes := fp_nodes out @ [?node]\<rparr>"] Suc.prems(2,3) by simp
  next
    case False
    then have "\<not> ok \<and> out' = out" using Suc.prems(1) by (auto simp: Let_def split: option.splits prod.splits if_splits)
    then show ?thesis using Suc.prems(2) by simp
  qed
qed simp

lemma parse_edges_typed:
  assumes "parse_edges k b cursor n out = (ok, cursor', out')" "list_all (ValidateEdgeInput n) (fp_edges out)"
  shows "list_all (ValidateEdgeInput n) (fp_edges out') \<and> fp_nodes out' = fp_nodes out"
  using assms
proof (induction k arbitrary: cursor out)
  case (Suc k)
  show ?case
  proof (cases "\<exists>pod c. ReadPOD b cursor 12 = Some (pod, c) \<and> ValidateEncodedEdge n (edge_of_image pod)")
    case True
    then obtain pod c where r: "ReadPOD b cursor 12 = Some (pod, c)" "ValidateEncodedEdge n (edge_of_image pod)" by blast
    let ?e = "edge_of_image pod"
    let ?edge = "\<lparr>g_fromNodeIndex = ee_fromNodeIndex ?e, g_toNodeIndex = ee_toNodeIndex ?e, g_kind = ee_kind ?e, g_flags = ee_flags ?e\<rparr>"
    have "ValidateEdgeInput n ?edge" using r(2) by (simp add: ValidateEncodedEdge_def ValidateEdgeInput_def)
    moreover have "parse_edges k b c n (out\<lparr>fp_edges := fp_edges out @ [?edge]\<rparr>) = (ok, cursor', out')"
      using Suc.prems(1) r by (simp add: Let_def)
    ultimately show ?thesis using Suc.IH [of c "out\<lparr>fp_edges := fp_edges out @ [?edge]\<rparr>"] Suc.prems(2) by simp
  next
    case False
    then have "out' = out" using Suc.prems(1) by (auto simp: Let_def split: option.splits prod.splits if_splits)
    then show ?thesis using Suc.prems(2) by simp
  qed
qed simp

text \<open>C27: whatever bytes the parser of frame graphs is given, and whether it accepts them or not, the graph it leaves is
  well-typed: every node has a name of eight lanes that is not the empty name, one of the three kinds and a
  label without null bytes, and every edge has one of the three kinds and leads from a node of the
  graph to a node of the graph.\<close>

theorem parsed_graph_typed: "graph_typed (snd (ParseFrameGraphPayload payload))"
proof -
  let ?empty = "\<lparr>fp_frameIndex = 0, fp_nodes = [], fp_edges = []\<rparr>"
  have e: "graph_typed ?empty" by (simp add: graph_typed_def)
  show ?thesis
  proof (cases "\<exists>b pod c. payload = Some b \<and> 28 \<le> length b \<and> ReadPOD b 0 28 = Some (pod, c)")
    case True
    then obtain b pod c where b: "payload = Some b" "28 \<le> length b" "ReadPOD b 0 28 = Some (pod, c)" by blast
    define h where "h = graph_of_image pod"
    obtain off off2 where o: "AddBinaryRepeatedReserveBytes 28 (ucast (fh_nodeCount h)) 72 = (True, off)"
      "AddBinaryRepeatedReserveBytes off (ucast (fh_edgeCount h)) 12 = (True, off2)"
      using graph_bytes_header(2) [of h] by auto
    obtain ok1 c1 out1 where n: "parse_nodes (unat (fh_nodeCount h)) b c (unat off2) (unat (fh_stringTableBytes h))
        (?empty\<lparr>fp_frameIndex := fh_frameIndex h\<rparr>) = (ok1, c1, out1)" by (metis prod_cases3)
    have "unat (fh_stringTableBytes h) < 2 ^ 32" using unsigned_less [where 'a = nat, of "fh_stringTableBytes h"] by simp
    then have t1: "list_all node_typed (fp_nodes out1)" "fp_edges out1 = []" "ok1 \<Longrightarrow> length (fp_nodes out1) = unat (fh_nodeCount h)"
      using parse_nodes_typed [OF n] by simp_all
    obtain ok2 c2 out2 where ed: "parse_edges (unat (fh_edgeCount h)) b c1 (unat (fh_nodeCount h)) out1 = (ok2, c2, out2)"
      by (metis prod_cases3)
    have t2: "list_all (ValidateEdgeInput (unat (fh_nodeCount h))) (fp_edges out2)" "fp_nodes out2 = fp_nodes out1"
      using parse_edges_typed [OF ed] t1(2) by simp_all
    have "snd (ParseFrameGraphPayload payload) \<in> {?empty, out1} \<or> ok1 \<and> snd (ParseFrameGraphPayload payload) = out2"
      using b o n ed
      by (auto simp: ParseFrameGraphPayload_def Let_def h_def [symmetric])
    then show ?thesis using e t1 t2 by (auto simp: graph_typed_def)
  next
    case False
    then have "snd (ParseFrameGraphPayload payload) = ?empty"
      by (auto simp: ParseFrameGraphPayload_def Let_def split: option.split)
    then show ?thesis using e by simp
  qed
qed

section \<open>From the recorder to the reader of a stream\<close>

lemma RecordBuiltPayload_cases:
  assumes "kind \<noteq> Kind_Unknown" "IsValidEventKind kind"
  shows "RecordBuiltPayload now kind frameIndex streamId build r
    = (if enabledUnlocked kind r \<and> fst (build ())
       then (True, r\<lparr>r_events := r_events r @ [\<lparr>e_header = MakeEventHeader now kind frameIndex (of_nat (length (snd (build ())))) streamId,
                                        e_payload = snd (build ())\<rparr>]\<rparr>)
       else (False, r))"
proof -
  have "header_valid (MakeEventHeader now kind frameIndex n streamId)" "h_payloadBytes (MakeEventHeader now kind frameIndex n streamId) = n"
    for n using assms by (simp_all add: header_valid_def MakeEventHeader_def EventHeader_new_def)
  then show ?thesis
    by (cases "build ()") (simp add: RecordBuiltPayload_def recordPayload_def appendPayloadUnlocked_def)
qed

lemma recorded_event_ok:
  assumes "kind \<noteq> Kind_Unknown" "IsValidEventKind kind" "length payload < 2 ^ 64"
  shows "event_ok \<lparr>e_header = MakeEventHeader now kind frameIndex (of_nat (length payload)) streamId, e_payload = payload\<rparr>"
  using assms by (simp add: event_ok_def header_valid_def MakeEventHeader_def EventHeader_new_def unat_small_u64)

text \<open>C28: a frame graph that is recorded reaches the reader of the stream. Recording succeeds exactly when the recorder
  captures frame graphs and the graph can be built, and otherwise changes nothing; after it, decoding the encoded
  stream into an empty recorder yields the earlier events and one more, which carries the kind, the frame, the stream and
  the time of the recording and whose payload parses to the graph.\<close>

theorem capture_roundtrip:
  assumes r: "recorder_ok r" and names: "\<forall>node \<in> set nodes. length (n_name node) = 8"
    and rec: "RecordFrameGraph now frameIndex nodes edges streamId r = (ok, r')"
  shows "(ok \<longleftrightarrow> HasCapture (r_capture r) Capture_FrameGraph \<and> graph_ok nodes edges) \<and> (\<not> ok \<longrightarrow> r' = r)
    \<and> (\<forall>bytes. ok \<and> EncodeEventStream (Some r') [] = Inr (True, bytes) \<longrightarrow>
        (\<exists>e. DecodeEventStream (Some bytes) Recorder_new = ((Decode_Ok, length bytes), Recorder_new\<lparr>r_events := r_events r @ [e]\<rparr>)
          \<and> h_kind (e_header e) = Kind_FrameGraphFrame \<and> h_frameIndex (e_header e) = frameIndex
          \<and> h_streamId (e_header e) = streamId \<and> h_timestampNanoseconds (e_header e) = now
          \<and> ParseFrameGraphPayload (Some (e_payload e))
              = (True, \<lparr>fp_frameIndex = frameIndex, fp_nodes = nodes, fp_edges = edges\<rparr>)))"
proof -
  have kind: "Kind_FrameGraphFrame \<noteq> Kind_Unknown" "IsValidEventKind Kind_FrameGraphFrame"
    by (simp_all add: Kind_FrameGraphFrame_def Kind_Unknown_def IsValidEventKind_def)
  have en: "enabledUnlocked Kind_FrameGraphFrame r = HasCapture (r_capture r) Capture_FrameGraph"
    by (simp add: enabledUnlocked_def CaptureAllowsEventKind_def CaptureFlagForEventKind_def Kind_FrameGraphFrame_def
        Kind_TextLog_def Kind_Diagnostic_def Kind_PerfFrame_def Kind_MemoryFrame_def)
  obtain b payload where p: "BuildFrameGraphPayload frameIndex nodes edges = Inr (b, payload)" "b \<longleftrightarrow> graph_ok nodes edges"
    "b \<Longrightarrow> ParseFrameGraphPayload (Some payload) = (True, \<lparr>fp_frameIndex = frameIndex, fp_nodes = nodes, fp_edges = edges\<rparr>)"
    by (cases "graph_ok nodes edges")
      (use BuildFrameGraphPayload_fails BuildFrameGraphPayload_ok [OF names] ParseFrameGraphPayload_built [OF names] in \<open>blast, blast\<close>)
  let ?e = "\<lparr>e_header = MakeEventHeader now Kind_FrameGraphFrame frameIndex (of_nat (length payload)) streamId, e_payload = payload\<rparr>"
  have res: "(ok, r') = (if HasCapture (r_capture r) Capture_FrameGraph \<and> b
      then (True, r\<lparr>r_events := r_events r @ [?e]\<rparr>) else (False, r))"
    using rec [symmetric]
    by (simp only: RecordFrameGraph_def RecordBuiltPayload_cases [OF kind] en p(1) sum.case fst_conv snd_conv)
  show ?thesis
  proof (cases ok)
    case True
    then have ok: "HasCapture (r_capture r) Capture_FrameGraph" b "r' = r\<lparr>r_events := r_events r @ [?e]\<rparr>"
      using res by (auto split: if_splits)
    have len: "length payload < 2 ^ 64"
    proof -
      obtain tbl offs where "length offs = length nodes" "length tbl = label_bytes nodes"
        "payload = graph_image (graph_header frameIndex nodes edges) @ nodes_bytes nodes offs @ edges_bytes edges @ tbl"
        using BuildFrameGraphPayload_ok [OF names, of edges frameIndex] p(1,2) ok(2) by auto
      then show ?thesis using length_nodes_bytes [OF _ names, of offs] p(2) ok(2) by (simp add: graph_ok_def)
    qed
    have r': "recorder_ok r'" using r recorded_event_ok [OF kind len] ok(3) by (simp add: recorder_ok_def)
    have "DecodeEventStream (Some bytes) Recorder_new = ((Decode_Ok, length bytes), Recorder_new\<lparr>r_events := r_events r'\<rparr>)"
      if enc: "EncodeEventStream (Some r') [] = Inr (True, bytes)" for bytes
    proof -
      let ?es = "r_events r'" and ?h = "stream_header (r_events r')"
      have fits: "24 + length (stream_bytes ?es) < 2 ^ 64" and bytes: "bytes = stream_image ?h @ stream_bytes ?es"
        using enc EncodeEventStream_fits [OF r', of "[]"] by (auto split: if_splits)
      then show ?thesis using DecodeEventStream_built [OF r' fits, of "[]" Recorder_new] by simp
    qed
    moreover have "h_kind (e_header ?e) = Kind_FrameGraphFrame" "h_frameIndex (e_header ?e) = frameIndex"
      "h_streamId (e_header ?e) = streamId" "h_timestampNanoseconds (e_header ?e) = now"
      by (simp_all add: MakeEventHeader_def EventHeader_new_def)
    ultimately show ?thesis using True ok p(2,3) by auto
  next
    case False
    then show ?thesis using res p(2) by (auto split: if_splits)
  qed
qed

definition sample_node :: FrameGraphNode where
  "sample_node = \<lparr>n_name = replicate 8 1, n_label = [0x61], n_kind = Node_Pass, n_flags = 2\<rparr>"

definition sample_edge :: FrameGraphEdge where
  "sample_edge = \<lparr>g_fromNodeIndex = 0, g_toNodeIndex = 0, g_kind = Edge_Reads, g_flags = 3\<rparr>"

lemma sample_graph_ok: "graph_ok [sample_node] [sample_edge]"
proof -
  have "\<not> IsZeroHash (replicate 8 1)" by code_simp
  then show ?thesis
    by (simp add: graph_ok_def sample_node_def sample_edge_def ValidateNodeInput_def ValidateEdgeInput_def
        IsValidFrameGraphNodeKind_def IsValidFrameGraphEdgeKind_def IsValidStringTableText_def HasEmbeddedNull_def)
qed

lemma frame_graph_roundtrip_example:
  "\<exists>payload. BuildFrameGraphPayload 7 [sample_node] [sample_edge] = Inr (True, payload)
     \<and> ParseFrameGraphPayload (Some payload) = (True, \<lparr>fp_frameIndex = 7, fp_nodes = [sample_node], fp_edges = [sample_edge]\<rparr>)"
proof -
  have "\<forall>node \<in> set [sample_node]. length (n_name node) = 8" by (simp add: sample_node_def)
  from frame_graph_roundtrip [OF this, of 7 "[sample_edge]"] show ?thesis using sample_graph_ok by auto
qed

theorem capture_roundtrip_witness:
  "fst (RecordFrameGraph 5 7 [sample_node] [sample_edge] 3 sample_recorder)
   \<and> RecordFrameGraph 5 7 [sample_node] [sample_edge] 3 Recorder_new = (False, Recorder_new)"
proof -
  have n: "\<forall>node \<in> set [sample_node]. length (n_name node) = 8" by (simp add: sample_node_def)
  have r: "recorder_ok sample_recorder" "recorder_ok Recorder_new"
    by (simp_all add: recorder_ok_def sample_recorder_def Recorder_new_def event_ok_def header_valid_def EventHeader_new_def
        IsValidEventKind_def Kind_TextLog_def Kind_Unknown_def)
  have c: "HasCapture (r_capture sample_recorder) Capture_FrameGraph" "\<not> HasCapture (r_capture Recorder_new) Capture_FrameGraph"
    by code_simp+
  show ?thesis
    using capture_roundtrip [OF r(1) n surjective_pairing, of 5 7 "[sample_edge]" 3]
      capture_roundtrip [OF r(2) n surjective_pairing, of 5 7 "[sample_edge]" 3] c sample_graph_ok
    by (metis surjective_pairing)
qed

section \<open>Joined graphs\<close>

text \<open>Every edge of a builder leads between its nodes, and so does every edge that is found by name.\<close>

definition builder_ok :: "FrameGraphBuilder \<Rightarrow> bool" where
  "builder_ok b \<longleftrightarrow> length (b_nodes b) < 2 ^ 32 - 1 \<and> list_all (ValidateEdgeInput (length (b_nodes b))) (b_edges b)
     \<and> list_all (\<lambda>p. unat (pe_fromNodeIndex p) < length (b_nodes b) \<and> IsValidFrameGraphEdgeKind (pe_kind p)) (b_pendingNameEdges b)"

lemma builder_ok_addNode:
  assumes "builder_ok b" "length (b_nodes b) + 1 < 2 ^ 32 - 1" "addNode name label kind flags b = (index, b')"
  shows "builder_ok b' \<and> handle_valid index \<and> unat index < length (b_nodes b')"
proof -
  have i: "unat index = length (b_nodes b)" using assms by (auto simp: addNode_def unat_of_nat_small)
  then have "index \<noteq> umax" using assms(2) by (auto simp: unat_umax)
  then show ?thesis using assms i
    by (auto simp: builder_ok_def addNode_def handle_valid_def ValidateEdgeInput_def list_all_iff less_SucI)
qed

lemma builder_ok_addEdge:
  assumes "builder_ok b" "IsValidFrameGraphEdgeKind kind"
    "\<forall>i \<in> {from_node, to_node}. handle_valid i \<longrightarrow> unat i < length (b_nodes b)"
  shows "builder_ok (addEdge from_node to_node kind flags b)"
  using assms by (simp add: builder_ok_def addEdge_def ValidateEdgeInput_def)

lemma builder_ok_dependsOnByName:
  assumes "builder_ok b" "handle_valid from_node \<longrightarrow> unat from_node < length (b_nodes b)"
  shows "builder_ok (dependsOnByName from_node name flags b)"
  using assms by (simp add: builder_ok_def dependsOnByName_def IsValidFrameGraphEdgeKind_def)

lemma node_index_found:
  "node_index nodes i name = Some index \<Longrightarrow> i + length nodes < 2 ^ 32 \<Longrightarrow>
    i \<le> unat index \<and> unat index < i + length nodes \<and> EqualHash (n_name (nodes ! (unat index - i))) name
    \<and> (\<forall>j < unat index - i. \<not> EqualHash (n_name (nodes ! j)) name)"
proof (induction nodes i name rule: node_index.induct)
  case (2 node nodes i name)
  show ?case
  proof (cases "EqualHash (n_name node) name")
    case True
    then have "unat index = i" using 2(2,3) by (auto simp: unat_of_nat_small)
    then show ?thesis using True by simp
  next
    case False
    then have "i + 1 \<le> unat index \<and> unat index < i + 1 + length nodes \<and> EqualHash (n_name (nodes ! (unat index - (i + 1)))) name
        \<and> (\<forall>j < unat index - (i + 1). \<not> EqualHash (n_name (nodes ! j)) name)"
      using 2 by simp
    moreover from this have "unat index - i = Suc (unat index - (i + 1))" by linarith
    ultimately show ?thesis using False by (auto simp: nth_Cons split: nat.split)
  qed
qed simp

lemma resolve_pending_valid:
  "length nodes < 2 ^ 32 \<Longrightarrow> list_all (ValidateEdgeInput (length nodes)) edges \<Longrightarrow>
   list_all (\<lambda>p. unat (pe_fromNodeIndex p) < length nodes \<and> IsValidFrameGraphEdgeKind (pe_kind p)) ps \<Longrightarrow>
   list_all (ValidateEdgeInput (length nodes)) (resolve_pending nodes ps edges)"
proof (induction nodes ps edges rule: resolve_pending.induct)
  case (2 nodes p ps edges)
  show ?case
  proof (cases "node_index nodes 0 (pe_toName p)")
    case None
    then show ?thesis using 2 by simp
  next
    case (Some index)
    then have "unat index < length nodes" using node_index_found [OF Some] 2(3) by simp
    then show ?thesis using 2(2) [OF Some] 2(3-5) Some by (simp add: ValidateEdgeInput_def)
  qed
qed simp

lemma joined_graph_edges:
  assumes "\<forall>c \<in> set cs. \<forall>b. builder_ok b \<longrightarrow> builder_ok (snd (run c b))" "builder_ok b" "run_contributors run cs hasGraph b = (has', b')"
  shows "list_all (ValidateEdgeInput (length (b_nodes b'))) (ResolvePendingNameEdges (b_nodes b') (b_edges b') (b_pendingNameEdges b'))"
proof -
  have "builder_ok b'" using assms
  proof (induction cs arbitrary: hasGraph b)
    case (Cons c cs)
    obtain a b1 where "run c b = (a, b1)" by fastforce
    then show ?case using Cons.IH [of b1 "hasGraph \<or> a"] Cons.prems by force
  qed simp
  then show ?thesis by (simp add: builder_ok_def ResolvePendingNameEdges_def resolve_pending_valid)
qed

end
