(* ===== verification/Tlsf_Bits.thy ===== *)
theory Tlsf_Bits
  imports Nwb_Prelude
begin

text \<open>
  The bit scans of the engine's TLSF allocator (\<^verbatim>\<open>src/core/alloc/tlsf.cpp\<close>):
  find-first-set and find-last-set over 32-bit words, in the form compiled with the compiler's builtins and in
  the portable fallback form, their composition over 64-bit sizes, and the start-up self test.

  The main lemma, \<open>fls_of_range\<close>, reads the position of the highest set bit off the range of the number, so
  that the later theories never look at single bits; the fallback form is shown equal to the builtin form.
\<close>

unbundle bit_operations_syntax

section \<open>The compiler's builtins\<close>

text \<open>\<open>__builtin_clz\<close> counts leading zeros (of a non-zero word), \<open>__builtin_ffs\<close> gives one plus
  the position of the lowest set bit, or zero.\<close>

definition builtin_clz :: "u32 \<Rightarrow> nat" where
  "builtin_clz word = length (takeWhile (\<lambda>i. \<not> bit word i) (rev [0..<32]))"

definition builtin_ffs :: "u32 \<Rightarrow> nat" where
  "builtin_ffs word = (if word = 0 then 0 else length (takeWhile (\<lambda>i. \<not> bit word i) [0..<32]) + 1)"

section \<open>The scans\<close>

definition tlsf_ffs :: "u32 \<Rightarrow> int" where
  "tlsf_ffs word = int (builtin_ffs word) - 1"

definition tlsf_fls :: "u32 \<Rightarrow> int" where
  "tlsf_fls word =
     (let b = if word \<noteq> 0 then 32 - int (builtin_clz word) else 0
      in b - 1)"

text \<open>The fallback: each test halves the range the highest set bit lies in, moving the word up.\<close>

definition fls_step :: "u32 \<Rightarrow> nat \<Rightarrow> u32 \<times> int \<Rightarrow> u32 \<times> int" where
  "fls_step m n = (\<lambda>(word, b). if word AND m = 0 then (push_bit n word, b - int n) else (word, b))"

definition tlsf_fls_generic :: "u32 \<Rightarrow> int" where
  "tlsf_fls_generic word =
     (let b = 32;
          b = (if word = 0 then b - 1 else b);
          s = fls_step 0xffff0000 16 (word, b);
          s = fls_step 0xff000000 8 s;
          s = fls_step 0xf0000000 4 s;
          s = fls_step 0xc0000000 2 s;
          s = fls_step 0x80000000 1 s
      in snd s)"

definition tlsf_ffs_portable :: "u32 \<Rightarrow> int" where
  "tlsf_ffs_portable word = tlsf_fls_generic (word AND (NOT word + 1)) - 1"

definition tlsf_fls_portable :: "u32 \<Rightarrow> int" where
  "tlsf_fls_portable word = tlsf_fls_generic word - 1"

definition tlsf_fls_sizet :: "usize \<Rightarrow> int" where
  "tlsf_fls_sizet sz =
     (let high = (ucast (drop_bit 32 sz) :: u32)
      in if high \<noteq> 0 then 32 + tlsf_fls high
         else tlsf_fls (ucast (sz AND 0xffffffff)))"

text \<open>The self test of debug builds adds up a mask for every scan that misbehaves.\<close>

definition test_ffs_fls :: int where
  "test_ffs_fls =
     (if tlsf_ffs 0 = - 1 then 0 else 0x1)
     + (if tlsf_fls 0 = - 1 then 0 else 0x2)
     + (if tlsf_ffs 1 = 0 then 0 else 0x4)
     + (if tlsf_fls 1 = 0 then 0 else 0x8)
     + (if tlsf_ffs 0x80000000 = 31 then 0 else 0x10)
     + (if tlsf_ffs 0x80008000 = 15 then 0 else 0x20)
     + (if tlsf_fls 0x80000008 = 31 then 0 else 0x40)
     + (if tlsf_fls 0x7FFFFFFF = 30 then 0 else 0x80)
     + (if tlsf_fls_sizet 0x80000000 = 31 then 0 else 0x100)
     + (if tlsf_fls_sizet 0x100000000 = 32 then 0 else 0x200)
     + (if tlsf_fls_sizet (- 1) = 63 then 0 else 0x400)"

section \<open>Reading a scan off the range of the number\<close>

lemma bit_unat_div: "bit (w :: 'a::len word) k \<longleftrightarrow> odd (unat w div 2 ^ k)"
proof -
  have "bit w k \<longleftrightarrow> bit (unat w) k" by (simp add: bit_unsigned_iff)
  then show ?thesis by (simp only: bit_iff_odd)
qed

lemma pow2_less_exp: "2 ^ k \<le> n \<Longrightarrow> n < (2 :: nat) ^ m \<Longrightarrow> k < m"
proof -
  assume "2 ^ k \<le> n" "n < 2 ^ m"
  then have "(2 :: nat) ^ k < 2 ^ m" by (rule le_less_trans)
  then show ?thesis by (rule power_less_imp_less_exp [rotated]) simp
qed

lemma unat_drop_bit: "unat (drop_bit k (w :: 'a::len word)) = unat w div 2 ^ k"
proof -
  have "unat (drop_bit k w) = drop_bit k (unat w)" by (simp add: unsigned_drop_bit_eq take_bit_nat_eq_self)
  then show ?thesis by (simp only: drop_bit_eq_div)
qed

lemma unat_push_bit:
  "unat w * 2 ^ k < 2 ^ LENGTH('a) \<Longrightarrow> unat (push_bit k (w :: 'a::len word)) = unat w * 2 ^ k"
proof -
  assume "unat w * 2 ^ k < 2 ^ LENGTH('a)"
  moreover have "unat (push_bit k w) = take_bit LENGTH('a) (push_bit k (unat w))" by (rule unsigned_push_bit_eq)
  ultimately show ?thesis by (simp add: push_bit_eq_mult take_bit_nat_eq_self)
qed

lemma bits_of_range:
  fixes w :: "'a::len word"
  assumes "2 ^ k \<le> unat w" "unat w < 2 ^ Suc k"
  shows "bit w k" "k < j \<Longrightarrow> \<not> bit w j"
proof -
  have "unat w div 2 ^ k = 1" using assms by (intro div_nat_eqI) auto
  then show "bit w k" by (simp add: bit_unat_div)
  assume "k < j"
  then have "(2 :: nat) ^ Suc k \<le> 2 ^ j" by (intro power_increasing) auto
  then show "\<not> bit w j" using assms(2) by (simp add: bit_unat_div)
qed

lemma range_of_bits:
  fixes w :: "'a::len word"
  assumes "bit w k" "\<And>j. k < j \<Longrightarrow> \<not> bit w j"
  shows "2 ^ k \<le> unat w" "unat w < 2 ^ Suc k"
proof -
  show "2 ^ k \<le> unat w"
  proof (rule ccontr)
    assume "\<not> 2 ^ k \<le> unat w"
    then show False using assms(1) by (simp add: bit_unat_div)
  qed
  have "take_bit (Suc k) w = w"
  proof (rule bit_eqI)
    show "bit (take_bit (Suc k) w) n \<longleftrightarrow> bit w n" for n
      using assms(2) [of n] by (cases "k < n") (auto simp: bit_take_bit_iff)
  qed
  then have "take_bit (Suc k) (unat w) = unat w" by (metis unsigned_take_bit_eq)
  then show "unat w < 2 ^ Suc k" by (metis take_bit_nat_less_exp)
qed

lemma takeWhile_rev_upt:
  assumes "k < n" "P k" "\<And>j. k < j \<Longrightarrow> \<not> P j"
  shows "length (takeWhile (\<lambda>i. \<not> P i) (rev [0..<n])) = n - Suc k"
proof -
  have "[0..<n] = [0..<k] @ k # [Suc k..<n]"
    using assms(1) by (metis append_Cons append_Nil less_imp_le_nat upt_add_eq_append upt_rec
        le_add_diff_inverse zero_le)
  then have "takeWhile (\<lambda>i. \<not> P i) (rev [0..<n]) = rev [Suc k..<n]"
    using takeWhile_append_stop [of "rev [Suc k..<n]" "\<lambda>i. \<not> P i" k "rev [0..<k]"] assms(2,3) by simp
  then show ?thesis by simp
qed

lemma fls_of_range:
  assumes "2 ^ k \<le> unat w" "unat w < 2 ^ Suc k"
  shows "tlsf_fls w = int k"
proof -
  have "w \<noteq> 0" using assms(1) by auto
  have "(2 :: nat) ^ k < 2 ^ 32" using assms(1) unsigned_less [of w, where 'a = nat] by simp
  then have k: "k < 32" by (rule power_less_imp_less_exp [rotated]) simp
  have "builtin_clz w = 32 - Suc k"
    unfolding builtin_clz_def using takeWhile_rev_upt [OF k, of "bit w"] bits_of_range [OF assms] by blast
  then show ?thesis using k \<open>w \<noteq> 0\<close> by (simp add: tlsf_fls_def)
qed

lemma fls_zero [simp]: "tlsf_fls 0 = - 1"
  by (simp add: tlsf_fls_def)

lemma ex_log2: "0 < (n :: nat) \<Longrightarrow> \<exists>k. 2 ^ k \<le> n \<and> n < 2 ^ Suc k"
  using ex_power_ivl1 [of 2 n] by (simp add: Suc_le_eq)

lemma fls_sizet_of_range:
  assumes "2 ^ k \<le> unat sz" "unat sz < 2 ^ Suc k"
  shows "tlsf_fls_sizet sz = int k"
proof (cases "k < 32")
  case True
  then have small: "unat sz < 2 ^ 32"
    using assms(2) power_increasing [of "Suc k" 32 "2 :: nat"] by linarith
  have "unat (drop_bit 32 sz) = unat sz div 2 ^ 32"
    by (rule unat_drop_bit)
  then have "unat (drop_bit 32 sz) = 0" using small by simp
  then have "drop_bit 32 sz = 0" by (simp add: unat_eq_0)
  moreover have "unat (ucast (sz AND 0xffffffff) :: u32) = unat sz"
  proof -
    have "sz AND 0xffffffff = take_bit 32 sz"
      by (simp add: take_bit_eq_mask mask_eq_exp_minus_1)
    then show ?thesis using small
      by (simp add: unsigned_ucast_eq unsigned_take_bit_eq take_bit_nat_eq_self_iff)
  qed
  ultimately show ?thesis using fls_of_range assms by (simp add: tlsf_fls_sizet_def)
next
  case False
  define high where "high = (ucast (drop_bit 32 sz) :: u32)"
  have "unat (drop_bit 32 sz) = unat sz div 2 ^ 32"
    by (rule unat_drop_bit)
  moreover have "unat sz div 2 ^ 32 < 2 ^ 32"
    using unsigned_less [of sz, where 'a = nat] by (simp add: less_mult_imp_div_less)
  ultimately have h: "unat high = unat sz div 2 ^ 32"
    by (simp add: high_def unsigned_ucast_eq take_bit_nat_eq_self_iff)
  obtain j where j: "k = 32 + j" using False by (metis le_Suc_ex not_le)
  have "2 ^ j \<le> unat high"
    using assms(1) by (simp add: h j power_add less_eq_div_iff_mult_less_eq ac_simps)
  moreover have "unat high < 2 ^ Suc j"
    using assms(2) by (simp add: h j power_add less_mult_imp_div_less ac_simps)
  ultimately have "tlsf_fls high = int j" "high \<noteq> 0" using fls_of_range by auto
  then show ?thesis by (simp add: tlsf_fls_sizet_def high_def [symmetric] j)
qed


section \<open>The portable scans\<close>

lemma and_high_mask:
  fixes w :: u32
  assumes "k \<le> 32"
  shows "w AND push_bit k (mask (32 - k)) = 0 \<longleftrightarrow> unat w < 2 ^ k"
proof -
  have "w AND push_bit k (mask (32 - k)) = 0 \<longleftrightarrow> take_bit k w = w"
  proof
    assume z: "w AND push_bit k (mask (32 - k)) = 0"
    show "take_bit k w = w"
    proof (rule bit_eqI)
      fix i assume "possible_bit TYPE(32 word) i"
      then have i: "i < 32" by simp
      have "\<not> bit (w AND push_bit k (mask (32 - k))) i" using z by simp
      then show "bit (take_bit k w) i \<longleftrightarrow> bit w i"
        using i assms by (auto simp: bit_simps)
    qed
  next
    assume t: "take_bit k w = w"
    show "w AND push_bit k (mask (32 - k)) = 0"
    proof (rule bit_eqI)
      fix i
      have "bit (take_bit k w) i \<longleftrightarrow> bit w i" using t by simp
      then show "bit (w AND push_bit k (mask (32 - k))) i \<longleftrightarrow> bit 0 i"
        by (auto simp: bit_simps)
    qed
  qed
  also have "\<dots> \<longleftrightarrow> take_bit k (unat w) = unat w"
    by (metis unsigned_take_bit_eq unsigned_word_eqI)
  also have "\<dots> \<longleftrightarrow> unat w < 2 ^ k" by (rule take_bit_nat_eq_self_iff)
  finally show ?thesis .
qed

text \<open>A step halves the leading zeros; \<open>b\<close> goes down by as much as the highest set bit goes up.\<close>

definition highest :: "u32 \<Rightarrow> nat \<Rightarrow> bool" where
  "highest w k \<longleftrightarrow> 2 ^ k \<le> unat w \<and> unat w < 2 ^ Suc k"

lemma fls_step_highest:
  assumes w: "highest w k" and k: "k < 32" and z: "31 < 2 * n + k" and n: "n \<le> 16"
    and m: "m = push_bit (32 - n) (mask n)"
  shows "\<exists>w' k'. fls_step m n (w, b) = (w', b + int k - int k') \<and> highest w' k' \<and> k' < 32 \<and> 31 < n + k'"
proof (cases "unat w < 2 ^ (32 - n)")
  case True
  have "(2 :: nat) ^ k < 2 ^ (32 - n)" using w True unfolding highest_def by linarith
  then have kn: "k < 32 - n" by (rule power_less_imp_less_exp [rotated]) simp
  have "unat w * 2 ^ n < 2 ^ (32 - n) * 2 ^ n" using True by simp
  then have "unat w * 2 ^ n < 2 ^ 32" using n by (simp flip: power_add)
  then have u: "unat (push_bit n w) = unat w * 2 ^ n"
    by (simp add: unat_push_bit)
  have "fls_step m n (w, b) = (push_bit n w, b + int k - int (k + n))"
    using and_high_mask [of "32 - n" w] True n by (simp add: fls_step_def m)
  moreover have "highest (push_bit n w) (k + n)" using w by (simp add: highest_def u power_add)
  moreover have "k + n < 32" "31 < n + (k + n)" using kn z by auto
  ultimately show ?thesis by blast
next
  case False
  have "(2 :: nat) ^ (32 - n) < 2 ^ Suc k" using w False unfolding highest_def by linarith
  then have "32 - n < Suc k" by (rule power_less_imp_less_exp [rotated]) simp
  then show ?thesis
    using and_high_mask [of "32 - n" w] False n w k
    by (intro exI [of _ w] exI [of _ k]) (simp add: fls_step_def m)
qed

lemma high_masks:
  "(0xffff0000 :: u32) = push_bit (32 - 16) (mask 16)" "(0xff000000 :: u32) = push_bit (32 - 8) (mask 8)"
  "(0xf0000000 :: u32) = push_bit (32 - 4) (mask 4)" "(0xc0000000 :: u32) = push_bit (32 - 2) (mask 2)"
  "(0x80000000 :: u32) = push_bit (32 - 1) (mask 1)"
  by (simp_all add: mask_eq_exp_minus_1)

text \<open>The fallback agrees with the builtins on every word.\<close>

lemma fls_generic_highest:
  assumes "highest w k"
  shows "tlsf_fls_generic w = int k + 1"
proof -
  have "(2 :: nat) ^ k < 2 ^ 32"
    using assms unsigned_less [of w, where 'a = nat] by (simp add: highest_def)
  then have k: "k < 32" by (rule power_less_imp_less_exp [rotated]) simp
  have w: "w \<noteq> 0" using assms by (auto simp: highest_def)
  obtain w1 k1 where 1: "fls_step 0xffff0000 16 (w, 32) = (w1, 32 + int k - int k1)"
      "highest w1 k1" "k1 < 32" "31 < 16 + k1"
    using fls_step_highest [OF assms k _ _ high_masks(1), of "32"] by auto
  obtain w2 k2 where 2: "fls_step 0xff000000 8 (w1, 32 + int k - int k1) = (w2, 32 + int k - int k2)"
      "highest w2 k2" "k2 < 32" "31 < 8 + k2"
    using fls_step_highest [OF 1(2,3) _ _ high_masks(2), of "32 + int k - int k1"] 1(4) by auto
  obtain w3 k3 where 3: "fls_step 0xf0000000 4 (w2, 32 + int k - int k2) = (w3, 32 + int k - int k3)"
      "highest w3 k3" "k3 < 32" "31 < 4 + k3"
    using fls_step_highest [OF 2(2,3) _ _ high_masks(3), of "32 + int k - int k2"] 2(4) by auto
  obtain w4 k4 where 4: "fls_step 0xc0000000 2 (w3, 32 + int k - int k3) = (w4, 32 + int k - int k4)"
      "highest w4 k4" "k4 < 32" "31 < 2 + k4"
    using fls_step_highest [OF 3(2,3) _ _ high_masks(4), of "32 + int k - int k3"] 3(4) by auto
  obtain w5 k5 where 5: "fls_step 0x80000000 1 (w4, 32 + int k - int k4) = (w5, 32 + int k - int k5)"
      "highest w5 k5" "k5 < 32" "31 < 1 + k5"
    using fls_step_highest [OF 4(2,3) _ _ high_masks(5), of "32 + int k - int k4"] 4(4) by auto
  have "k5 = 31" using 5(3,4) by simp
  then show ?thesis using w by (simp add: tlsf_fls_generic_def Let_def 1(1) 2(1) 3(1) 4(1) 5(1) [simplified])
qed

lemma ex_highest: "w \<noteq> 0 \<Longrightarrow> \<exists>k. highest w k"
  using ex_log2 [of "unat w"] by (auto simp: highest_def unat_gt_0)

lemma fls_portable_eq: "tlsf_fls_portable w = tlsf_fls w"
proof (cases "w = 0")
  case True
  then show ?thesis by (simp add: tlsf_fls_portable_def tlsf_fls_generic_def fls_step_def)
next
  case False
  then obtain k where "highest w k" using ex_highest by blast
  then show ?thesis
    using fls_generic_highest [of w k] fls_of_range [of k w] by (simp add: tlsf_fls_portable_def highest_def)
qed

lemma ffs_of_lowest:
  assumes "bit w k" "\<And>j. j < k \<Longrightarrow> \<not> bit w j"
  shows "tlsf_ffs w = int k"
proof -
  have k: "k < 32" using assms(1) bit_imp_le_length [of w k] by auto
  have "[0..<32] = [0..<k] @ k # [Suc k..<32]"
    using k by (metis append_Cons append_Nil less_imp_le_nat upt_add_eq_append upt_rec le_add_diff_inverse zero_le)
  then have "takeWhile (\<lambda>i. \<not> bit w i) [0..<32] = [0..<k]"
    using takeWhile_append_stop [of "[0..<k]" "\<lambda>i. \<not> bit w i" k "[Suc k..<32]"] assms by simp
  moreover have "w \<noteq> 0" using assms(1) by auto
  ultimately show ?thesis by (simp add: tlsf_ffs_def builtin_ffs_def)
qed

lemma ex_lowest: "w \<noteq> (0 :: 'a::len word) \<Longrightarrow> \<exists>k. bit w k \<and> (\<forall>j<k. \<not> bit w j)"
proof -
  assume "w \<noteq> 0"
  then obtain n where "bit w n" by (metis bit_0_eq bit_word_eqI bot_apply bot_bool_def)
  then show ?thesis using exists_least_iff [of "bit w"] by auto
qed

text \<open>Clearing all but the lowest set bit.\<close>

lemma and_neg_lowest:
  fixes w :: "'a::len word"
  assumes "bit w k" "\<And>j. j < k \<Longrightarrow> \<not> bit w j"
  shows "w AND (NOT w + 1) = push_bit k 1"
proof -
  have k: "k < LENGTH('a)" using assms(1) by (rule bit_imp_le_length)
  define u where "u = drop_bit (Suc k) w"
  have part: "push_bit k 1 + push_bit (Suc k) v = push_bit k 1 OR push_bit (Suc k) v" for v :: "'a word"
  proof (rule disjunctive_add)
    show "\<not> bit (push_bit k 1 :: 'a word) n \<or> \<not> bit (push_bit (Suc k) v) n" for n
      by (cases "n = k") (simp_all only: bit_push_bit_iff, auto simp: bit_simps)
  qed
  have w: "w = push_bit k 1 OR push_bit (Suc k) u"
  proof (rule bit_eqI)
    fix i
    show "bit w i \<longleftrightarrow> bit (push_bit k 1 OR push_bit (Suc k) u) i"
      using assms k by (cases "i < k"; cases "i = k") (auto simp: bit_simps u_def simp del: push_bit_Suc dest: bit_imp_le_length)
  qed
  have "NOT w + 1 = - w" by (simp flip: minus_eq_not_plus_1)
  also have "\<dots> = push_bit k 1 + push_bit (Suc k) (NOT u)"
    unfolding w part [symmetric] by (simp add: push_bit_eq_mult not_eq_complement algebra_simps)
  finally have "NOT w + 1 = push_bit k 1 OR push_bit (Suc k) (NOT u)" by (simp only: part)
  then show ?thesis
    by (simp only: w, intro bit_eqI) (auto simp: bit_simps simp del: push_bit_Suc)
qed

lemma ffs_portable_eq: "tlsf_ffs_portable w = tlsf_ffs w"
proof (cases "w = 0")
  case True
  then show ?thesis
    by (simp add: tlsf_ffs_portable_def tlsf_fls_generic_def fls_step_def tlsf_ffs_def builtin_ffs_def)
next
  case False
  then obtain k where k: "bit w k" "\<forall>j<k. \<not> bit w j" using ex_lowest by blast
  have "k < 32" using bit_imp_le_length [OF k(1)] by simp
  then have "unat (push_bit k 1 :: u32) = 2 ^ k"
    using unat_push_bit [of "1 :: u32" k] power_strict_increasing [of k 32 "2 :: nat"] by simp
  then have "highest (push_bit k 1) k" by (simp add: highest_def)
  then show ?thesis
    using fls_generic_highest [of _ k] and_neg_lowest [of w k] ffs_of_lowest [of w k] k
    by (simp add: tlsf_ffs_portable_def)
qed

text \<open>The builtin and the portable forms of the scans agree on every word.\<close>

lemma portable_scans:
  "tlsf_fls_portable w = tlsf_fls w \<and> tlsf_ffs_portable w = tlsf_ffs w"
  by (simp add: fls_portable_eq ffs_portable_eq)

text \<open>The self test of debug builds passes.\<close>

lemma test_ffs_fls_passes: "test_ffs_fls = 0"
proof -
  have "tlsf_ffs 0 = - 1" by (simp add: tlsf_ffs_def builtin_ffs_def)
  moreover have "tlsf_ffs 1 = 0" "tlsf_ffs 0x80000000 = 31" "tlsf_ffs 0x80008000 = 15"
    by (simp_all add: tlsf_ffs_portable_def tlsf_fls_generic_def fls_step_def flip: ffs_portable_eq)
  moreover have "tlsf_fls 1 = 0" using fls_of_range [of 0 1] by simp
  moreover have "tlsf_fls 0x80000008 = 31" using fls_of_range [of 31 "0x80000008"] by simp
  moreover have "tlsf_fls 0x7FFFFFFF = 30" using fls_of_range [of 30 "0x7FFFFFFF"] by simp
  moreover have "tlsf_fls_sizet 0x80000000 = 31" using fls_sizet_of_range [of 31 "0x80000000"] by simp
  moreover have "tlsf_fls_sizet 0x100000000 = 32" using fls_sizet_of_range [of 32 "0x100000000"] by simp
  moreover have "tlsf_fls_sizet (- 1) = 63" using fls_sizet_of_range [of 63 "- 1"] by (simp add: unat_umax)
  ultimately show ?thesis by (simp add: test_ffs_fls_def)
qed

end
