(* ===== verification/Tlsf_Mapping.thy ===== *)
theory Tlsf_Mapping
  imports Tlsf_Bits Overflow
begin

text \<open>
  Sizes and size classes of the TLSF allocator (\<^verbatim>\<open>src/core/alloc/tlsf.cpp\<close>): the constants
  of the 64-bit build, rounding of sizes and pointers to an alignment, the adjustment of a request, and the two
  mappings from a size to the first- and second-level index of a free list.

  A class \<open>(fl, sl)\<close> holds the sizes from \<open>class_lo\<close> up to \<open>class_lo\<close> plus \<open>class_width\<close>.
  \<open>mapping_insert_class\<close> shows that the class a block is filed under contains its size;
  \<open>mapping_search_class\<close> shows that every block of the class a request is searched under, and of every
  later class, is large enough.  So the allocator never has to look at the sizes of the blocks in a list.
\<close>

unbundle bit_operations_syntax

lemma ex2I: "P a b \<Longrightarrow> \<exists>x y. P x y"
  by blast

section \<open>Constants\<close>

text \<open>\<open>ALIGN_SIZE_LOG2 = 3\<close>, \<open>SL_INDEX_COUNT_LOG2 = 5\<close>, \<open>FL_INDEX_MAX = 32\<close>.\<close>

definition ALIGN_SIZE :: usize where [simp]: "ALIGN_SIZE = 8"
definition SL_INDEX_COUNT :: int where [simp]: "SL_INDEX_COUNT = 32"
definition FL_INDEX_SHIFT :: int where [simp]: "FL_INDEX_SHIFT = 8"
definition FL_INDEX_COUNT :: int where [simp]: "FL_INDEX_COUNT = 25"
definition SMALL_BLOCK_SIZE :: usize where [simp]: "SMALL_BLOCK_SIZE = 256"

text \<open>Four words make a \<open>block_header_t\<close>; the overhead of a used block is its size field.\<close>

definition block_header_bytes :: usize where [simp]: "block_header_bytes = 32"
definition block_header_overhead :: usize where [simp]: "block_header_overhead = 8"
definition block_size_min :: usize where [simp]: "block_size_min = 24"
definition block_size_max :: usize where [simp]: "block_size_max = 0x100000000"

section \<open>Rounding\<close>

definition align_up :: "usize \<Rightarrow> usize \<Rightarrow> usize" where
  "align_up x align = (x + (align - 1)) AND NOT (align - 1)"

definition align_down :: "usize \<Rightarrow> usize \<Rightarrow> usize" where
  "align_down x align = x - (x AND (align - 1))"

definition align_ptr :: "nat \<Rightarrow> usize \<Rightarrow> nat" where
  "align_ptr ptr align = unat ((of_nat ptr + (align - 1)) AND NOT (align - 1))"

definition adjust_request_size :: "usize \<Rightarrow> usize \<Rightarrow> usize" where
  "adjust_request_size sz align =
     (if sz \<noteq> 0
      then let aligned = align_up sz align
           in if aligned < block_size_max
              then (if aligned > block_size_min then aligned else block_size_min)
              else 0
      else 0)"

section \<open>Size classes\<close>

definition mapping_insert :: "usize \<Rightarrow> int \<times> int" where
  "mapping_insert sz =
     (if sz < SMALL_BLOCK_SIZE then (0, sint (ucast sz :: u32) div 8)
      else let fl = tlsf_fls_sizet sz
           in if fl < FL_INDEX_SHIFT then (0, 0)
              else let shift = nat (fl - 5);
                       sl = sint ((ucast (drop_bit shift sz) :: u32) XOR 32)
                   in (fl - (FL_INDEX_SHIFT - 1), sl))"

definition mapping_search :: "usize \<Rightarrow> int \<times> int" where
  "mapping_search sz =
     (if sz \<ge> SMALL_BLOCK_SIZE
      then let shift = tlsf_fls_sizet sz - 5;
               round = push_bit (nat (if shift > 0 then shift else 0)) 1 - 1
           in mapping_insert (sz + round)
      else mapping_insert sz)"

section \<open>Rounding, as numbers\<close>

lemma unat_and_not_mask: "unat (w AND NOT (mask k) :: 'a::len word) = unat w div 2 ^ k * 2 ^ k"
proof -
  have "w AND NOT (mask k) = push_bit k (drop_bit k w)"
    by (rule bit_eqI) (auto simp: bit_simps)
  moreover have "unat w div 2 ^ k * 2 ^ k \<le> unat w" by simp
  then have "unat (drop_bit k w) * 2 ^ k < 2 ^ LENGTH('a)"
    using unsigned_less [of w, where 'a = nat] unfolding unat_drop_bit by linarith
  ultimately show ?thesis by (simp add: unat_push_bit unat_drop_bit)
qed

lemma unat_and_mask_mod: "unat (w AND mask k :: 'a::len word) = unat w mod 2 ^ k"
  by (metis take_bit_eq_mask take_bit_eq_mod unsigned_take_bit_eq)

text \<open>Powers of two below \<open>2 ^ 64\<close>.\<close>

lemma pow2_minus_1: "(2 :: 'a::len word) ^ k - 1 = mask k"
  by (simp add: mask_eq_exp_minus_1)

lemma round_up_pow2: "(n + (2 ^ k - 1)) div 2 ^ k * 2 ^ k = round_up n (2 ^ k)"
proof -
  define a where "a = (2 :: nat) ^ k"
  have a: "0 < a" by (simp add: a_def)
  have n: "n = n div a * a + n mod a" by simp
  show ?thesis unfolding a_def [symmetric]
  proof (cases "n mod a = 0")
    case True
    then obtain q where q: "n = q * a" by (metis mod_0_imp_dvd dvd_div_mult_self)
    have "(q * a + (a - 1)) div a = q" using a by (intro div_nat_eqI) (auto simp: algebra_simps)
    then show "(n + (a - 1)) div a * a = round_up n a" using True q by (simp add: round_up_def)
  next
    case False
    define q r where "q = n div a" and "r = n mod a"
    have r: "0 < r" "r < a" "n = q * a + r" using a False by (auto simp: q_def r_def)
    have "(n + (a - 1)) div a = q + 1" using r by (intro div_nat_eqI) (auto simp: algebra_simps)
    moreover have "round_up n a = q * a + a" using r False by (simp add: round_up_def r_def [symmetric])
    ultimately show "(n + (a - 1)) div a * a = round_up n a" by simp
  qed
qed

lemma unat_align_up:
  assumes "unat x + 2 ^ k \<le> 2 ^ 64"
  shows "unat (align_up x (2 ^ k)) = round_up (unat x) (2 ^ k)"
proof -
  have k: "k \<le> 64" using assms by (metis add_leD2 one_less_numeral_iff power_le_imp_le_exp semiring_norm(76))
  have m: "unat (mask k :: u64) = 2 ^ k - 1"
  proof -
    have "(0 :: nat) < 2 ^ k" by simp
    then have "2 ^ k - 1 < (2 :: nat) ^ LENGTH(64)"
      using power_increasing [OF k, of "2 :: nat"] by (simp add: less_eq_Suc_le Suc_leI)
    then have "unat (of_nat (2 ^ k - 1) :: u64) = 2 ^ k - 1" by (rule unat_of_nat_small)
    moreover have "of_nat (2 ^ k - 1) = (mask k :: u64)"
      by (simp add: mask_eq_exp_minus_1 of_nat_diff)
    ultimately show ?thesis by simp
  qed
  have "unat (x + mask k) = unat x + (2 ^ k - 1)"
  proof (subst unat_plus_no_overflow)
    have "(0 :: nat) < 2 ^ k" by simp
    then show "unat x + unat (mask k :: u64) < 2 ^ LENGTH(64)" using assms unfolding m by simp
  qed (simp add: m)
  then show ?thesis
    by (simp only: align_up_def pow2_minus_1 unat_and_not_mask round_up_pow2)
qed

lemma unat_align_down: "unat (align_down x (2 ^ k)) = unat x div 2 ^ k * 2 ^ k"
proof -
  have "unat (x AND mask k) \<le> unat x" unfolding unat_and_mask_mod by simp
  then have "unat (x - (x AND mask k)) = unat x - unat x mod 2 ^ k"
    by (simp add: unat_sub word_le_nat_alt unat_and_mask_mod)
  also have "\<dots> = unat x div 2 ^ k * 2 ^ k" by (rule minus_mod_eq_div_mult)
  finally show ?thesis by (simp add: align_down_def pow2_minus_1)
qed

lemma align_ptr_round_up:
  assumes "p + 2 ^ k \<le> 2 ^ 64"
  shows "align_ptr p (2 ^ k) = round_up p (2 ^ k)"
proof -
  have "(0 :: nat) < 2 ^ k" by simp
  then have "p < 2 ^ 64" using assms by linarith
  then have "unat (of_nat p :: u64) = p" by (simp add: unat_of_nat_small)
  then show ?thesis
    using unat_align_up [of "of_nat p" k] assms by (simp add: align_ptr_def align_up_def)
qed

section \<open>The sizes of a class\<close>

definition class_lo :: "nat \<Rightarrow> nat \<Rightarrow> nat" where
  "class_lo fl sl = (if fl = 0 then 8 * sl else (32 + sl) * 2 ^ (fl + 2))"

definition class_width :: "nat \<Rightarrow> nat" where
  "class_width fl = (if fl = 0 then 8 else 2 ^ (fl + 2))"

lemma unat_sz: "n < 2 ^ 64 \<Longrightarrow> unat (of_nat n :: u64) = n"
  by (simp add: unat_of_nat_small)

lemma sint_small: "unat (w :: u32) < 2 ^ 31 \<Longrightarrow> sint w = int (unat w)"
proof -
  assume a: "unat w < 2 ^ 31"
  have "sint w = signed_take_bit (LENGTH(32) - Suc 0) (uint w)" by (rule sint_uint)
  also have "\<dots> = uint w" using a by (intro signed_take_bit_int_eq_self) (simp_all add: uint_nat del: int_nat_eq of_nat_unat)
  finally show ?thesis by (simp only: uint_nat)
qed

lemma unat_xor_32: "32 \<le> q \<Longrightarrow> q < 64 \<Longrightarrow> unat ((of_nat q :: u32) XOR 32) = q - 32"
proof -
  have "\<forall>q \<in> set [32..<64]. unat ((of_nat q :: u32) XOR 32) = q - 32" by code_simp
  moreover assume "32 \<le> q" "q < 64"
  then have "q \<in> set [32..<64]" by (simp only: set_upt atLeastLessThan_iff simp_thms)
  ultimately show ?thesis by (rule bspec)
qed

lemma mapping_insert_small:
  assumes "n < 256"
  shows "mapping_insert (of_nat n) = (0, int (n div 8))"
proof -
  have "unat (of_nat n :: u64) = n" using assms by (simp add: unat_sz)
  moreover have "unat (ucast (of_nat n :: u64) :: u32) = n"
    using assms by (simp add: unsigned_ucast_eq take_bit_nat_eq_self unat_sz)
  ultimately show ?thesis
    using assms by (simp add: mapping_insert_def word_less_nat_alt sint_small zdiv_int)
qed

lemma mapping_insert_large:
  assumes n: "2 ^ k \<le> n" "n < 2 ^ Suc k" and k: "8 \<le> k" "k < 64"
  shows "mapping_insert (of_nat n) = (int (k - 7), int (n div 2 ^ (k - 5) - 32))"
proof -
  have "n < 2 ^ 64" using n(2) power_increasing [of "Suc k" 64 "2 :: nat"] k(2) by simp
  then have u: "unat (of_nat n :: u64) = n" by (rule unat_sz)
  have "(2 :: nat) ^ 8 \<le> 2 ^ k" using k(1) by (rule power_increasing) simp
  then have big: "\<not> (of_nat n :: u64) < SMALL_BLOCK_SIZE"
    using n(1) by (simp add: word_less_nat_alt u)
  have fls: "tlsf_fls_sizet (of_nat n) = int k"
    by (rule fls_sizet_of_range) (simp_all only: u n)
  obtain s where s: "k = s + 5" using k(1) that [of "k - 5"] by simp
  define q where "q = n div 2 ^ s"
  have q: "32 \<le> q" "q < 64"
    using n by (simp_all add: q_def s power_add less_eq_div_iff_mult_less_eq less_mult_imp_div_less ac_simps)
  have d: "unat (ucast (drop_bit s (of_nat n :: u64)) :: u32) = q"
    using q(2) by (simp add: unsigned_ucast_eq unat_drop_bit u q_def take_bit_nat_eq_self)
  have "sint ((ucast (drop_bit s (of_nat n :: u64)) :: u32) XOR 32) = int (q - 32)"
  proof -
    have "ucast (drop_bit s (of_nat n :: u64)) = (of_nat q :: u32)"
      using d by (metis of_nat_unat ucast_id)
    then show ?thesis using unat_xor_32 [OF q] q by (simp add: sint_small)
  qed
  then show ?thesis using big fls k(1) by (simp add: mapping_insert_def s q_def)
qed

lemma next_multiple: "(n :: nat) < n div 2 ^ s * 2 ^ s + 2 ^ s"
proof -
  have "n mod 2 ^ s < 2 ^ s" by simp
  then show ?thesis using div_mult_mod_eq [of n "2 ^ s"] by linarith
qed

text \<open>The class a size is filed under.\<close>

definition class_contains :: "nat \<Rightarrow> nat \<Rightarrow> nat \<Rightarrow> bool" where
  "class_contains fl sl n \<longleftrightarrow> sl < 32 \<and> class_lo fl sl \<le> n \<and> n < class_lo fl sl + class_width fl"

lemma large_split:
  assumes "256 \<le> n" "n < (2 :: nat) ^ m"
  obtains k where "2 ^ k \<le> n" "n < 2 ^ Suc k" "8 \<le> k" "k < m"
proof -
  obtain k where k: "2 ^ k \<le> n" "n < 2 ^ Suc k" using ex_log2 [of n] assms(1) by auto
  have "(2 :: nat) ^ 8 < 2 ^ Suc k" using assms(1) k(2) by simp
  then have "8 < Suc k" by (rule power_less_imp_less_exp [rotated]) simp
  moreover have "k < m" using k(1) assms(2) by (rule pow2_less_exp)
  ultimately show ?thesis using k that by simp
qed

lemma quotient_range:
  assumes "2 ^ k \<le> n" "n < (2 :: nat) ^ Suc k" "k = s + 5"
  shows "32 \<le> n div 2 ^ s" "n div 2 ^ s < 64"
  using assms(1,2)
  by (simp_all add: assms(3) power_add less_eq_div_iff_mult_less_eq less_mult_imp_div_less ac_simps)

lemma mapping_insert_class:
  assumes "n < 2 ^ 63"
  shows "\<exists>fl sl. mapping_insert (of_nat n) = (int fl, int sl) \<and> class_contains fl sl n \<and> (\<forall>m\<ge>8. n < 2 ^ m \<longrightarrow> fl + 7 < m)"
proof (cases "n < 256")
  case True
  have "class_contains 0 (n div 8) n" using True by (auto simp: class_contains_def class_lo_def class_width_def)
  then show ?thesis using mapping_insert_small [OF True]
    by (intro ex2I [of _ 0 "n div 8"]) auto
next
  case False
  then obtain k where k: "2 ^ k \<le> n" "n < 2 ^ Suc k" "8 \<le> k" "k < 63"
    using large_split [of n 63] assms by auto
  obtain s where s: "k = s + 5" "3 \<le> s" using k(3) that [of "k - 5"] by simp
  note q = quotient_range [OF k(1,2) s(1)]
  have fl: "k - 7 = s - 2" "s - 2 \<noteq> 0" "s - 2 + 2 = s" using s by auto
  have "class_lo (s - 2) (n div 2 ^ s - 32) = n div 2 ^ s * 2 ^ s"
    using q fl by (simp add: class_lo_def)
  moreover have "n div 2 ^ s * 2 ^ s \<le> n" by simp
  moreover have "n < n div 2 ^ s * 2 ^ s + 2 ^ s"
    by (rule next_multiple)
  ultimately have "class_contains (s - 2) (n div 2 ^ s - 32) n"
    using q fl by (simp add: class_contains_def class_width_def)
  moreover have "mapping_insert (of_nat n) = (int (s - 2), int (n div 2 ^ s - 32))"
    using mapping_insert_large [OF k(1-3)] k(4) s fl by simp
  moreover have "s - 2 + 7 < m" if "n < 2 ^ m" for m
  proof -
    have "k < m" using k(1) that by (rule pow2_less_exp)
    then show ?thesis using s by simp
  qed
  ultimately show ?thesis by blast
qed

text \<open>Classes are ordered like their sizes.\<close>

definition class_le :: "nat \<Rightarrow> nat \<Rightarrow> nat \<Rightarrow> nat \<Rightarrow> bool" where
  "class_le fl sl fl' sl' \<longleftrightarrow> fl < fl' \<or> fl = fl' \<and> sl \<le> sl'"

lemma class_end:
  "sl < 32 \<Longrightarrow> class_lo fl sl + class_width fl \<le> class_lo (Suc fl) 0"
proof -
  assume "sl < 32"
  then have "class_lo fl sl + class_width fl \<le> class_lo fl 31 + class_width fl"
    by (simp add: class_lo_def)
  also have "\<dots> = class_lo (Suc fl) 0" by (simp add: class_lo_def class_width_def algebra_simps)
  finally show ?thesis .
qed

lemma class_start_mono: "fl \<le> fl' \<Longrightarrow> class_lo fl 0 \<le> class_lo fl' 0"
proof (induction rule: dec_induct)
  case (step n)
  have "class_lo n 0 \<le> class_lo (Suc n) 0" using class_end [of 0 n] by simp
  with step show ?case by simp
qed simp

lemma class_lo_mono:
  assumes "class_le fl sl fl' sl'" "sl < 32"
  shows "class_lo fl sl \<le> class_lo fl' sl'"
proof (cases "fl < fl'")
  case True
  have "class_lo fl sl \<le> class_lo (Suc fl) 0" using class_end [OF assms(2), of fl] by simp
  also have "\<dots> \<le> class_lo fl' 0" using True by (intro class_start_mono) simp
  also have "\<dots> \<le> class_lo fl' sl'" by (simp add: class_lo_def)
  finally show ?thesis .
qed (use assms in \<open>auto simp: class_le_def class_lo_def\<close>)

lemma class_of_larger:
  assumes "class_contains fl' sl' n" "class_lo fl sl \<le> n" "sl < 32"
  shows "class_le fl sl fl' sl'"
proof (rule ccontr)
  assume "\<not> class_le fl sl fl' sl'"
  then consider "fl' < fl" | "fl' = fl" "sl' < sl" unfolding class_le_def by linarith
  then have "class_lo fl' sl' + class_width fl' \<le> class_lo fl sl"
  proof cases
    case 1
    have "class_lo fl' sl' + class_width fl' \<le> class_lo (Suc fl') 0"
      using assms(1) by (intro class_end) (simp add: class_contains_def)
    also have "\<dots> \<le> class_lo fl 0" using 1 by (intro class_start_mono) simp
    also have "\<dots> \<le> class_lo fl sl" by (simp add: class_lo_def)
    finally show ?thesis .
  next
    case 2
    then have "class_lo fl sl' + class_width fl \<le> class_lo fl (Suc sl')"
      by (simp add: class_lo_def class_width_def algebra_simps)
    also have "\<dots> \<le> class_lo fl sl"
      using 2 assms(3) by (intro class_lo_mono) (auto simp: class_le_def)
    finally show ?thesis using 2 by simp
  qed
  with assms(1,2) show False by (simp add: class_contains_def)
qed

text \<open>A search starts at the first class that holds no size below the request.\<close>

lemma mapping_search_class:
  assumes n: "n < 2 ^ 32" "8 dvd n"
  shows "\<exists>fl sl. mapping_search (of_nat n) = (int fl, int sl) \<and> sl < 32 \<and> fl \<le> 25 \<and> n \<le> class_lo fl sl
    \<and> class_lo fl sl \<le> n + n div 32"
proof (cases "n < 256")
  case True
  then have "mapping_search (of_nat n) = (int 0, int (n div 8))"
    using mapping_insert_small [OF True] by (simp add: mapping_search_def word_le_nat_alt unat_sz)
  then show ?thesis using True n(2) by (intro ex2I [of _ 0 "n div 8"]) (auto simp: class_lo_def)
next
  case False
  then obtain k where k: "2 ^ k \<le> n" "n < 2 ^ Suc k" "8 \<le> k" "k < 32"
    using large_split [of n 32] n by auto
  obtain s where s: "k = s + 5" "3 \<le> s" using k(3) that [of "k - 5"] by simp
  define m where "m = n + (2 ^ s - 1)"
  have "(2 :: nat) ^ s \<le> 2 ^ k" using s by (intro power_increasing) auto
  then have m: "m < 2 ^ Suc (Suc k)" using k(2) unfolding m_def power_Suc by linarith
  have fls: "tlsf_fls_sizet (of_nat n) = int k"
    by (rule fls_sizet_of_range) (use k n in \<open>simp_all add: unat_sz\<close>)
  have "push_bit s 1 - 1 = (of_nat (2 ^ s - 1) :: u64)"
    by (simp add: push_bit_eq_mult of_nat_diff)
  then have "of_nat n + (push_bit s 1 - 1) = (of_nat m :: u64)"
    unfolding m_def of_nat_add [symmetric] by (simp only: of_nat_add)
  then have same: "mapping_search (of_nat n) = mapping_insert (of_nat m)"
    using False n fls s by (simp add: mapping_search_def word_le_nat_alt unat_sz)
  have "2 ^ s \<le> n div 32" using k(1) by (simp add: s(1) power_add less_eq_div_iff_mult_less_eq ac_simps)
  then have m_le: "m \<le> n + n div 32" by (simp add: m_def)
  have "\<exists>fl sl. mapping_insert (of_nat m) = (int fl, int sl) \<and> sl < 32 \<and> fl \<le> 25 \<and> n \<le> class_lo fl sl
      \<and> class_lo fl sl \<le> n + n div 32"
  proof (cases "m < 2 ^ Suc k")
    case True
    have "2 ^ k \<le> m" using k(1) unfolding m_def by linarith
    note q = quotient_range [OF this True s(1)]
    have "m < m div 2 ^ s * 2 ^ s + 2 ^ s"
      by (rule next_multiple)
    then have "n \<le> m div 2 ^ s * 2 ^ s" by (simp add: m_def)
    moreover have p: "4 * 2 ^ (s - 2) = (2 :: nat) ^ s"
    proof -
      have "s = 2 + (s - 2)" using s(2) by simp
      then have "(2 :: nat) ^ s = 2 ^ 2 * 2 ^ (s - 2)" by (metis power_add)
      then show ?thesis by simp
    qed
    moreover have "m div 2 ^ s * 2 ^ s \<le> n + n div 32" using m_le by (meson div_times_less_eq_dividend le_trans)
    ultimately show ?thesis
      using mapping_insert_large [of k m] \<open>2 ^ k \<le> m\<close> True k q s
      by (intro ex2I [of _ "k - 7" "m div 2 ^ s - 32"]) (auto simp: class_lo_def p)
  next
    case False
    then have "m div 2 ^ Suc s = 32"
    proof (intro div_nat_eqI)
      show "m < 2 ^ Suc s * Suc 32" using k(2) False s by (simp add: m_def power_add)
    qed (simp add: s power_add)
    moreover have "32 * 2 ^ Suc s \<le> n + n div 32"
      using m_le False by (simp add: s(1) power_add)
    ultimately show ?thesis
      using mapping_insert_large [of "Suc k" m] False m k s
      by (intro ex2I [of _ "k - 6" 0]) (auto simp: class_lo_def Suc_diff_le power_add)
  qed
  then show ?thesis by (simp add: same)
qed

section \<open>Requests\<close>

text \<open>The block size a request asks for, and the size of a free block that is sure to be found for it.\<close>

definition request :: "nat \<Rightarrow> nat" where
  "request n = (if n \<noteq> 0 \<and> round_up n 8 < 2 ^ 32 then max 24 (round_up n 8) else 0)"

definition good_fit :: "nat \<Rightarrow> nat" where
  "good_fit n = (case mapping_search (of_nat n) of (fl, sl) \<Rightarrow> class_lo (nat fl) (nat sl))"

lemma round_up_8: "round_up n 8 < n + 8" "8 dvd round_up n 8"
  using round_up_dvd [of 8 n] by (auto simp: round_up_def)

lemma adjust_request:
  assumes "unat sz + 2 ^ k \<le> 2 ^ 64"
  shows "adjust_request_size sz (2 ^ k) =
    (if unat sz \<noteq> 0 \<and> round_up (unat sz) (2 ^ k) < 2 ^ 32 then of_nat (max 24 (round_up (unat sz) (2 ^ k))) else 0)"
proof -
  let ?r = "round_up (unat sz) (2 ^ k)"
  have u: "unat (align_up sz (2 ^ k)) = ?r" using unat_align_up [OF assms] .
  then have "align_up sz (2 ^ k) = of_nat ?r" by (metis of_nat_unat ucast_id)
  then show ?thesis
    using u by (auto simp: adjust_request_size_def Let_def word_less_nat_alt unat_eq_0 max_def)
qed

lemma adjust_request_8:
  "unat sz + 8 \<le> 2 ^ 64 \<Longrightarrow> adjust_request_size sz ALIGN_SIZE = of_nat (request (unat sz))"
  using adjust_request [of sz 3] by (simp add: request_def)

lemma request_facts:
  assumes "request n \<noteq> 0"
  shows "8 dvd request n" "24 \<le> request n" "n \<le> request n" "request n < 2 ^ 32"
  using assms round_up_8 [of n] round_up_ge [of n 8] by (auto simp: request_def max_def split: if_splits)

lemma request_lt: "request n < 2 ^ 32"
  by (auto simp: request_def)

lemma good_fit_bounds:
  assumes "n < 2 ^ 32" "8 dvd n"
  shows "n \<le> good_fit n" "good_fit n \<le> n + n div 32"
  using mapping_search_class [OF assms] by (auto simp: good_fit_def)

end
