(* ===== verification/Tlsf_Heap.thy ===== *)
theory Tlsf_Heap
  imports Tlsf_Mapping
begin

text \<open>
  The memory of the TLSF allocator (\<^verbatim>\<open>src/core/alloc/tlsf.cpp\<close>) and the operations on block
  headers and free lists.

  Memory is a map from the address of an 8-byte cell to its contents; every field of a \<open>block_header_t\<close>
  is one cell: \<open>prev_phys_block\<close> at the block's address, \<open>size\<close> at offset 8, \<open>next_free\<close> at 16
  and \<open>prev_free\<close> at 24.  Addresses are numbers below \<open>2 ^ 64\<close>; sizes are 64-bit words.  The blocks of a
  pool, their links and the payload handed to the client all live in this one memory, so that an operation that
  writes into somebody else's block would be visible.

  \<open>control_t\<close> is a record: its address (which is also the address of \<open>block_null\<close>, its first member, whose
  fields are cells of the memory), the bitmaps and the heads of the lists.  The bitmaps and heads are fields of the record
  and not cells: an operation reaches them by name only, and the memory it reaches through a block pointer is
  \<open>block_null\<close> or lies in the pool behind the control structure.  Assertions are compiled out.
  The build is one for a 64-bit little-endian machine.
  An operation that would write outside the arrays of \<open>control_t\<close> has no behaviour: it returns \<open>None\<close>.
  The search reads the lists only where the bitmaps have a bit; on a damaged control structure, where a bit of the first
  level has no list behind it, what it reads is not what the code reads.
\<close>

unbundle bit_operations_syntax

section \<open>Memory\<close>

type_synonym memory = "nat \<Rightarrow> u64"

record control_t =
  block_null :: nat
  fl_bitmap :: u32
  sl_bitmap :: "u32 list"
  blocks :: "nat list list"
  heap :: memory

definition block_header_free_bit :: u64 where "block_header_free_bit = 1"
definition block_header_prev_free_bit :: u64 where "block_header_prev_free_bit = 2"

section \<open>Block headers\<close>

definition block_size :: "memory \<Rightarrow> nat \<Rightarrow> usize" where
  "block_size m block = m (block + 8) AND NOT (block_header_free_bit OR block_header_prev_free_bit)"

definition block_set_size :: "memory \<Rightarrow> nat \<Rightarrow> usize \<Rightarrow> memory" where
  "block_set_size m block sz =
     (let oldsize = m (block + 8)
      in m(block + 8 := sz OR (oldsize AND (block_header_free_bit OR block_header_prev_free_bit))))"

definition block_is_last :: "memory \<Rightarrow> nat \<Rightarrow> bool" where
  "block_is_last m block = (block_size m block = 0)"

definition block_is_free :: "memory \<Rightarrow> nat \<Rightarrow> bool" where
  "block_is_free m block = (m (block + 8) AND block_header_free_bit \<noteq> 0)"

definition block_set_free :: "memory \<Rightarrow> nat \<Rightarrow> memory" where
  "block_set_free m block = m(block + 8 := m (block + 8) OR block_header_free_bit)"

definition block_set_used :: "memory \<Rightarrow> nat \<Rightarrow> memory" where
  "block_set_used m block = m(block + 8 := m (block + 8) AND NOT block_header_free_bit)"

definition block_is_prev_free :: "memory \<Rightarrow> nat \<Rightarrow> bool" where
  "block_is_prev_free m block = (m (block + 8) AND block_header_prev_free_bit \<noteq> 0)"

definition block_set_prev_free :: "memory \<Rightarrow> nat \<Rightarrow> memory" where
  "block_set_prev_free m block = m(block + 8 := m (block + 8) OR block_header_prev_free_bit)"

definition block_set_prev_used :: "memory \<Rightarrow> nat \<Rightarrow> memory" where
  "block_set_prev_used m block = m(block + 8 := m (block + 8) AND NOT block_header_prev_free_bit)"

definition block_from_ptr :: "nat \<Rightarrow> nat" where
  "block_from_ptr ptr = ptr - 16"

definition block_to_ptr :: "nat \<Rightarrow> nat" where
  "block_to_ptr block = block + 16"

definition offset_to_block :: "nat \<Rightarrow> usize \<Rightarrow> nat" where
  "offset_to_block ptr sz = (ptr + unat sz) mod 2 ^ 64"

definition block_prev :: "memory \<Rightarrow> nat \<Rightarrow> nat" where
  "block_prev m block = unat (m block)"

definition block_next :: "memory \<Rightarrow> nat \<Rightarrow> nat" where
  "block_next m block = offset_to_block (block_to_ptr block) (block_size m block - block_header_overhead)"

definition block_link_next :: "memory \<Rightarrow> nat \<Rightarrow> memory \<times> nat" where
  "block_link_next m block =
     (let next = block_next m block
      in (m(next := of_nat block), next))"

definition block_mark_as_free :: "memory \<Rightarrow> nat \<Rightarrow> memory" where
  "block_mark_as_free m block =
     (let (m, next) = block_link_next m block;
          m = block_set_prev_free m next
      in block_set_free m block)"

definition block_mark_as_used :: "memory \<Rightarrow> nat \<Rightarrow> memory" where
  "block_mark_as_used m block =
     (let next = block_next m block;
          m = block_set_prev_used m next
      in block_set_used m block)"

section \<open>Free lists\<close>

definition next_free :: "memory \<Rightarrow> nat \<Rightarrow> nat" where
  "next_free m block = unat (m (block + 16))"

definition prev_free :: "memory \<Rightarrow> nat \<Rightarrow> nat" where
  "prev_free m block = unat (m (block + 24))"

definition index_in_range :: "int \<Rightarrow> int \<Rightarrow> bool" where
  "index_in_range fl sl \<longleftrightarrow> \<not> (fl < 0 \<or> fl \<ge> FL_INDEX_COUNT \<or> sl < 0 \<or> sl \<ge> SL_INDEX_COUNT)"

definition list_head :: "control_t \<Rightarrow> int \<Rightarrow> int \<Rightarrow> nat" where
  "list_head control fl sl = blocks control ! nat fl ! nat sl"

definition set_head :: "control_t \<Rightarrow> int \<Rightarrow> int \<Rightarrow> nat \<Rightarrow> control_t" where
  "set_head control fl sl block =
     control\<lparr>blocks := (blocks control)[nat fl := (blocks control ! nat fl)[nat sl := block]]\<rparr>"

definition search_suitable_block :: "control_t \<Rightarrow> int \<Rightarrow> int \<Rightarrow> nat \<times> int \<times> int" where
  "search_suitable_block control fl sl =
     (if \<not> index_in_range fl sl then (0, fl, sl)
      else let sl_map = sl_bitmap control ! nat fl AND push_bit (nat sl) (NOT 0)
           in if sl_map = 0
              then let fl_map = fl_bitmap control AND push_bit (nat (fl + 1)) (NOT 0)
                   in if fl_map = 0 then (0, fl, sl)
                      else let fl = tlsf_ffs fl_map;
                               sl_map = sl_bitmap control ! nat fl;
                               sl = tlsf_ffs sl_map
                           in (list_head control fl sl, fl, sl)
              else let sl = tlsf_ffs sl_map
                   in (list_head control fl sl, fl, sl))"

definition remove_free_block :: "control_t \<Rightarrow> nat \<Rightarrow> int \<Rightarrow> int \<Rightarrow> control_t" where
  "remove_free_block control block fl sl =
     (if \<not> index_in_range fl sl then control
      else let prev = prev_free (heap control) block;
               next = next_free (heap control) block;
               control = control\<lparr>heap := (heap control)(next + 24 := of_nat prev)\<rparr>;
               control = control\<lparr>heap := (heap control)(prev + 16 := of_nat next)\<rparr>
           in if list_head control fl sl = block
              then let control = set_head control fl sl next
                   in if next = block_null control
                      then let map = sl_bitmap control ! nat fl AND NOT (push_bit (nat sl) 1);
                               control = control\<lparr>sl_bitmap := (sl_bitmap control)[nat fl := map]\<rparr>
                           in if map = 0
                              then control\<lparr>fl_bitmap := fl_bitmap control AND NOT (push_bit (nat fl) 1)\<rparr>
                              else control
                      else control
              else control)"

definition insert_free_block :: "control_t \<Rightarrow> nat \<Rightarrow> int \<Rightarrow> int \<Rightarrow> control_t option" where
  "insert_free_block control block fl sl =
     (if \<not> index_in_range fl sl then None
      else let current = list_head control fl sl;
               control = control\<lparr>heap := (heap control)(block + 16 := of_nat current)\<rparr>;
               control = control\<lparr>heap := (heap control)(block + 24 := of_nat (block_null control))\<rparr>;
               control = control\<lparr>heap := (heap control)(current + 24 := of_nat block)\<rparr>;
               control = set_head control fl sl block;
               control = control\<lparr>fl_bitmap := fl_bitmap control OR push_bit (nat fl) 1\<rparr>
           in Some (control\<lparr>sl_bitmap :=
                (sl_bitmap control)[nat fl := sl_bitmap control ! nat fl OR push_bit (nat sl) 1]\<rparr>))"

definition block_remove :: "control_t \<Rightarrow> nat \<Rightarrow> control_t" where
  "block_remove control block =
     (let (fl, sl) = mapping_insert (block_size (heap control) block)
      in remove_free_block control block fl sl)"

definition block_insert :: "control_t \<Rightarrow> nat \<Rightarrow> control_t option" where
  "block_insert control block =
     (let (fl, sl) = mapping_insert (block_size (heap control) block)
      in insert_free_block control block fl sl)"

section \<open>Splitting and merging\<close>

definition block_can_split :: "memory \<Rightarrow> nat \<Rightarrow> usize \<Rightarrow> bool" where
  "block_can_split m block sz = (block_size m block \<ge> block_header_bytes + sz)"

definition block_split :: "memory \<Rightarrow> nat \<Rightarrow> usize \<Rightarrow> memory \<times> nat" where
  "block_split m block sz =
     (let remaining = offset_to_block (block_to_ptr block) (sz - block_header_overhead);
          remain_size = block_size m block - (sz + block_header_overhead);
          m = block_set_size m remaining remain_size;
          m = block_set_size m block sz;
          m = block_mark_as_free m remaining
      in (m, remaining))"

definition block_absorb :: "memory \<Rightarrow> nat \<Rightarrow> nat \<Rightarrow> memory \<times> nat" where
  "block_absorb m prev block =
     (let m = m(prev + 8 := m (prev + 8) + (block_size m block + block_header_overhead));
          (m, _) = block_link_next m prev
      in (m, prev))"

definition block_merge_prev :: "control_t \<Rightarrow> nat \<Rightarrow> control_t \<times> nat" where
  "block_merge_prev control block =
     (if block_is_prev_free (heap control) block
      then let prev = block_prev (heap control) block;
               control = block_remove control prev;
               (m, block) = block_absorb (heap control) prev block
           in (control\<lparr>heap := m\<rparr>, block)
      else (control, block))"

definition block_merge_next :: "control_t \<Rightarrow> nat \<Rightarrow> control_t \<times> nat" where
  "block_merge_next control block =
     (let next = block_next (heap control) block
      in if block_is_free (heap control) next
         then let control = block_remove control next;
                  (m, block) = block_absorb (heap control) block next
              in (control\<lparr>heap := m\<rparr>, block)
         else (control, block))"

definition block_trim_free :: "control_t \<Rightarrow> nat \<Rightarrow> usize \<Rightarrow> control_t option" where
  "block_trim_free control block sz =
     (if block_can_split (heap control) block sz
      then let (m, remaining_block) = block_split (heap control) block sz;
               (m, _) = block_link_next m block;
               m = block_set_prev_free m remaining_block
           in block_insert (control\<lparr>heap := m\<rparr>) remaining_block
      else Some control)"

definition block_trim_used :: "control_t \<Rightarrow> nat \<Rightarrow> usize \<Rightarrow> control_t option" where
  "block_trim_used control block sz =
     (if block_can_split (heap control) block sz
      then let (m, remaining_block) = block_split (heap control) block sz;
               m = block_set_prev_used m remaining_block;
               (control, remaining_block) = block_merge_next (control\<lparr>heap := m\<rparr>) remaining_block
           in block_insert control remaining_block
      else Some control)"

definition block_trim_free_leading :: "control_t \<Rightarrow> nat \<Rightarrow> usize \<Rightarrow> (control_t \<times> nat) option" where
  "block_trim_free_leading control block sz =
     (if block_can_split (heap control) block sz
      then let (m, remaining_block) = block_split (heap control) block (sz - block_header_overhead);
               m = block_set_prev_free m remaining_block;
               (m, _) = block_link_next m block
           in map_option (\<lambda>control. (control, remaining_block)) (block_insert (control\<lparr>heap := m\<rparr>) block)
      else Some (control, block))"

end
