(* ===== verification/Tlsf_Alloc.thy ===== *)
theory Tlsf_Alloc
  imports Tlsf_Heap "HOL-Library.Monad_Syntax"
begin

text \<open>
  The public operations of the TLSF allocator (\<^verbatim>\<open>src/core/alloc/tlsf.cpp\<close>): creation of an
  allocator over a block of memory, adding and removing pools, allocation, aligned allocation, release and
  reallocation, and the walkers and consistency checks.

  An operation returns \<open>None\<close> where the code would write outside the arrays of \<open>control_t\<close>; a failed
  request is the null pointer \<open>0\<close>.  The checks follow links and block sizes through memory and need not end on a
  damaged heap, so they are partial functions.
\<close>

unbundle bit_operations_syntax

section \<open>Creation\<close>

text \<open>\<open>sizeof(control_t)\<close>: a header, \<open>1 + 25\<close> bitmaps of 4 bytes and \<open>25 * 32\<close> pointers.\<close>

definition tlsf_size :: usize where "tlsf_size = 6536"
definition tlsf_align_size :: usize where "tlsf_align_size = ALIGN_SIZE"
definition tlsf_block_size_min :: usize where "tlsf_block_size_min = block_size_min"
definition tlsf_block_size_max :: usize where "tlsf_block_size_max = block_size_max"
definition tlsf_pool_overhead :: usize where "tlsf_pool_overhead = 2 * block_header_overhead"
definition tlsf_alloc_overhead :: usize where "tlsf_alloc_overhead = block_header_overhead"

text \<open>The self test runs in debug builds only; it passes (\<open>test_ffs_fls_passes\<close>), so both builds agree.\<close>

definition control_construct :: "memory \<Rightarrow> nat \<Rightarrow> control_t" where
  "control_construct m control =
     \<lparr>block_null = control, fl_bitmap = 0, sl_bitmap = replicate 25 0,
      blocks = replicate 25 (replicate 32 control),
      heap = m(control + 16 := of_nat control, control + 24 := of_nat control)\<rparr>"

definition tlsf_create :: "memory \<Rightarrow> nat \<Rightarrow> control_t option" where
  "tlsf_create m mem =
     (if test_ffs_fls \<noteq> 0 then None
      else if mem mod 8 \<noteq> 0 then None
      else Some (control_construct m mem))"

definition tlsf_add_pool :: "control_t \<Rightarrow> nat \<Rightarrow> usize \<Rightarrow> (control_t \<times> nat) option" where
  "tlsf_add_pool control mem bytes =
     (let pool_overhead = tlsf_pool_overhead;
          pool_bytes = align_down (bytes - pool_overhead) ALIGN_SIZE
      in if mem mod 8 \<noteq> 0 then Some (control, 0)
         else if pool_bytes < block_size_min \<or> pool_bytes > block_size_max then Some (control, 0)
         else let block = offset_to_block mem (- block_header_overhead);
                  m = block_set_size (heap control) block pool_bytes;
                  m = block_set_free m block;
                  m = block_set_prev_used m block
              in do {
                control \<leftarrow> block_insert (control\<lparr>heap := m\<rparr>) block;
                let (m, next) = block_link_next (heap control) block;
                let m = block_set_size m next 0;
                let m = block_set_used m next;
                let m = block_set_prev_free m next;
                Some (control\<lparr>heap := m\<rparr>, mem)
              })"

text \<open>The outer \<open>None\<close> is missing behaviour, the inner one the null handle.\<close>

definition tlsf_create_with_pool :: "memory \<Rightarrow> nat \<Rightarrow> usize \<Rightarrow> control_t option option" where
  "tlsf_create_with_pool m mem bytes =
     (let controlBytes = tlsf_size
      in if mem = 0 \<or> bytes < controlBytes then Some None
         else let poolBytes = bytes - controlBytes
              in if poolBytes < tlsf_pool_overhead then Some None
                 else (case tlsf_create m mem of
                         None \<Rightarrow> Some None
                       | Some tlsf \<Rightarrow>
                           do {
                             (tlsf, pool) \<leftarrow> tlsf_add_pool tlsf (mem + unat controlBytes) poolBytes;
                             Some (if pool = 0 then None else Some tlsf)
                           }))"

definition tlsf_get_pool :: "nat \<Rightarrow> nat" where
  "tlsf_get_pool tlsf = tlsf + unat tlsf_size"

definition tlsf_remove_pool :: "control_t \<Rightarrow> nat \<Rightarrow> control_t" where
  "tlsf_remove_pool control pool =
     (let block = offset_to_block pool (- block_header_overhead);
          (fl, sl) = mapping_insert (block_size (heap control) block)
      in remove_free_block control block fl sl)"

section \<open>Allocation\<close>

definition block_locate_free :: "control_t \<Rightarrow> usize \<Rightarrow> control_t \<times> nat" where
  "block_locate_free control sz =
     (let (block, fl, sl) =
            (if sz \<noteq> 0
             then let (fl, sl) = mapping_search sz
                  in if fl \<ge> 0 \<and> fl < FL_INDEX_COUNT then search_suitable_block control fl sl
                     else (0, fl, sl)
             else (0, 0, 0))
      in if block \<noteq> 0 then (remove_free_block control block fl sl, block) else (control, block))"

definition block_prepare_used :: "control_t \<Rightarrow> nat \<Rightarrow> usize \<Rightarrow> (control_t \<times> nat) option" where
  "block_prepare_used control block sz =
     (if block \<noteq> 0
      then do {
        control \<leftarrow> block_trim_free control block sz;
        let control = control\<lparr>heap := block_mark_as_used (heap control) block\<rparr>;
        Some (control, block_to_ptr block)
      }
      else Some (control, 0))"

definition tlsf_block_size :: "memory \<Rightarrow> nat \<Rightarrow> usize" where
  "tlsf_block_size m ptr = (if ptr \<noteq> 0 then block_size m (block_from_ptr ptr) else 0)"

definition tlsf_malloc :: "control_t \<Rightarrow> usize \<Rightarrow> (control_t \<times> nat) option" where
  "tlsf_malloc control sz =
     (let adjust = adjust_request_size sz ALIGN_SIZE;
          (control, block) = block_locate_free control adjust
      in block_prepare_used control block adjust)"

text \<open>The offset of the first address from the block's payload on that is aligned and leaves no gap smaller than
  a free block.\<close>

definition alignment_gap :: "nat \<Rightarrow> usize \<Rightarrow> usize" where
  "alignment_gap ptr align =
     (let gap_minimum = block_header_bytes;
          aligned = align_ptr ptr align;
          gap = of_nat aligned - of_nat ptr
      in if gap \<noteq> 0 \<and> gap < gap_minimum
         then let gap_remain = gap_minimum - gap;
                  offset = (if gap_remain > align then gap_remain else align);
                  next_aligned = aligned + unat offset;
                  aligned = align_ptr next_aligned align
              in of_nat aligned - of_nat ptr
         else gap)"

definition tlsf_memalign :: "control_t \<Rightarrow> usize \<Rightarrow> usize \<Rightarrow> (control_t \<times> nat) option" where
  "tlsf_memalign control align sz =
     (let adjust = adjust_request_size sz ALIGN_SIZE;
          gap_minimum = block_header_bytes;
          size_with_gap = adjust_request_size (adjust + align + gap_minimum) align;
          aligned_size = (if adjust \<noteq> 0 \<and> align > ALIGN_SIZE then size_with_gap else adjust);
          (control, block) = block_locate_free control aligned_size
      in do {
        (control, block) \<leftarrow>
          (if block \<noteq> 0
           then let gap = alignment_gap (block_to_ptr block) align
                in if gap \<noteq> 0 then block_trim_free_leading control block gap else Some (control, block)
           else Some (control, block));
        block_prepare_used control block adjust
      })"

definition tlsf_free :: "control_t \<Rightarrow> nat \<Rightarrow> control_t option" where
  "tlsf_free control ptr =
     (if ptr \<noteq> 0
      then let block = block_from_ptr ptr;
               control = control\<lparr>heap := block_mark_as_free (heap control) block\<rparr>;
               (control, block) = block_merge_prev control block;
               (control, block) = block_merge_next control block
           in block_insert control block
      else Some control)"

text \<open>\<open>NWB_MEMCPY\<close> between two blocks: whole cells, and the low bytes of the last one (the code runs on
  little-endian machines).\<close>

definition copy_bytes :: "memory \<Rightarrow> nat \<Rightarrow> nat \<Rightarrow> nat \<Rightarrow> memory" where
  "copy_bytes m dst src n =
     (\<lambda>x. if dst \<le> x \<and> x < dst + n \<and> (x - dst) mod 8 = 0
          then let v = m (src + (x - dst)); k = dst + n - x
               in if 8 \<le> k then v else (v AND mask (8 * k)) OR (m x AND NOT (mask (8 * k)))
          else m x)"

definition tlsf_realloc :: "control_t \<Rightarrow> nat \<Rightarrow> usize \<Rightarrow> (control_t \<times> nat) option" where
  "tlsf_realloc control ptr sz =
     (if ptr \<noteq> 0 \<and> sz = 0 then map_option (\<lambda>control. (control, 0)) (tlsf_free control ptr)
      else if ptr = 0 then tlsf_malloc control sz
      else let block = block_from_ptr ptr;
               next = block_next (heap control) block;
               cursize = block_size (heap control) block;
               combined = cursize + block_size (heap control) next + block_header_overhead;
               adjust = adjust_request_size sz ALIGN_SIZE
           in if adjust > cursize \<and> (\<not> block_is_free (heap control) next \<or> adjust > combined)
              then do {
                (control, p) \<leftarrow> tlsf_malloc control sz;
                if p \<noteq> 0
                then let minsize = (if cursize < sz then cursize else sz);
                         control = control\<lparr>heap := copy_bytes (heap control) p ptr (unat minsize)\<rparr>
                     in map_option (\<lambda>control. (control, p)) (tlsf_free control ptr)
                else Some (control, p)
              }
              else let control =
                         (if adjust > cursize
                          then let control = fst (block_merge_next control block)
                               in control\<lparr>heap := block_mark_as_used (heap control) block\<rparr>
                          else control)
                   in map_option (\<lambda>control. (control, ptr)) (block_trim_used control block adjust))"

section \<open>Walking and checking\<close>

text \<open>\<open>tlsf_insist\<close> takes one off the status for every condition that fails.\<close>

definition tlsf_insist :: "bool \<Rightarrow> int \<Rightarrow> int" where
  "tlsf_insist x st = (if x then st else st - 1)"

partial_function (option) walk_blocks ::
  "memory \<Rightarrow> (nat \<Rightarrow> usize \<Rightarrow> bool \<Rightarrow> 'u \<Rightarrow> 'u) \<Rightarrow> nat \<Rightarrow> 'u \<Rightarrow> 'u option" where
  "walk_blocks m walker block user =
     (if block \<noteq> 0 \<and> \<not> block_is_last m block
      then walk_blocks m walker (block_next m block)
             (walker (block_to_ptr block) (block_size m block) (\<not> block_is_free m block) user)
      else Some user)"

declare walk_blocks.simps [code]

definition tlsf_walk_pool ::
  "memory \<Rightarrow> nat \<Rightarrow> (nat \<Rightarrow> usize \<Rightarrow> bool \<Rightarrow> 'u \<Rightarrow> 'u) \<Rightarrow> 'u \<Rightarrow> 'u option" where
  "tlsf_walk_pool m pool walker user =
     walk_blocks m walker (offset_to_block pool (- block_header_overhead)) user"

record integrity_t =
  prev_status :: int
  status :: int

definition integrity_walker :: "memory \<Rightarrow> nat \<Rightarrow> usize \<Rightarrow> bool \<Rightarrow> integrity_t \<Rightarrow> integrity_t" where
  "integrity_walker m ptr sz used integ =
     (let block = block_from_ptr ptr;
          this_prev_status = (if block_is_prev_free m block then 1 else 0);
          this_status = (if block_is_free m block then 1 else 0);
          this_block_size = block_size m block;
          st = tlsf_insist (prev_status integ = this_prev_status) 0;
          st = tlsf_insist (sz = this_block_size) st
      in integ\<lparr>prev_status := this_status, status := status integ + st\<rparr>)"

definition tlsf_check_pool :: "memory \<Rightarrow> nat \<Rightarrow> int option" where
  "tlsf_check_pool m pool =
     map_option status (tlsf_walk_pool m pool (integrity_walker m) \<lparr>prev_status = 0, status = 0\<rparr>)"

partial_function (option) check_list ::
  "control_t \<Rightarrow> int \<Rightarrow> int \<Rightarrow> nat \<Rightarrow> int \<Rightarrow> int option" where
  "check_list control i j block st =
     (if block \<noteq> block_null control
      then let m = heap control;
               st = tlsf_insist (block_is_free m block) st;
               st = tlsf_insist (\<not> block_is_prev_free m block) st;
               st = tlsf_insist (\<not> block_is_free m (block_next m block)) st;
               st = tlsf_insist (block_is_prev_free m (block_next m block)) st;
               st = tlsf_insist (block_size m block \<ge> block_size_min) st;
               st = tlsf_insist (mapping_insert (block_size m block) = (i, j)) st
           in check_list control i j (next_free m block) st
      else Some st)"

declare check_list.simps [code]

definition check_class :: "control_t \<Rightarrow> nat \<Rightarrow> nat \<Rightarrow> int \<Rightarrow> int option" where
  "check_class control i j st =
     (let fl_map = fl_bitmap control AND push_bit i 1;
          sl_list = sl_bitmap control ! i;
          sl_map = sl_list AND push_bit j 1;
          block = blocks control ! i ! j;
          st = (if fl_map = 0 then tlsf_insist (sl_map = 0) st else st)
      in if sl_map = 0
         then Some (tlsf_insist (block = block_null control) st)
         else let st = tlsf_insist (sl_list \<noteq> 0) st;
                  st = tlsf_insist (block \<noteq> block_null control) st
              in check_list control (int i) (int j) block st)"

fun check_classes :: "control_t \<Rightarrow> (nat \<times> nat) list \<Rightarrow> int \<Rightarrow> int option" where
  "check_classes control [] st = Some st"
| "check_classes control ((i, j) # ijs) st =
     do { st \<leftarrow> check_class control i j st; check_classes control ijs st }"

definition tlsf_check :: "control_t \<Rightarrow> int option" where
  "tlsf_check control = check_classes control (List.product [0..<25] [0..<32]) 0"

end
