(* ===== verification/Tlsf_Shape.thy ===== *)
theory Tlsf_Shape
  imports Tlsf_Heap
begin

text \<open>
  The physical layout of a TLSF pool: headers as words, a pool as a sequence of blocks that tile it, and the
  effect of the header operations on that sequence.

  A pool that starts at address \<open>b\<close> is described by the list of its blocks, each a size and whether it is
  free; \<open>laid_out\<close> says that memory agrees with the list, the sentinel at the end included.  \<open>focus\<close>
  takes the layout apart at one block, so that an operation on it is a statement about the five cells around it.
\<close>

unbundle bit_operations_syntax

section \<open>Header words\<close>

definition hdr :: "nat \<Rightarrow> bool \<Rightarrow> bool \<Rightarrow> u64" where
  "hdr s f p = of_nat s OR (if f then block_header_free_bit else 0) OR (if p then block_header_prev_free_bit else 0)"

lemma bit_flags [bit_simps]:
  "bit block_header_free_bit i \<longleftrightarrow> i = 0"
  "bit block_header_prev_free_bit i \<longleftrightarrow> i = 1"
  by (auto simp: block_header_free_bit_def block_header_prev_free_bit_def bit_1_iff bit_2_iff)

lemma low_bits_clear:
  assumes "8 dvd s"
  shows "\<not> bit (of_nat s :: u64) 0" "\<not> bit (of_nat s :: u64) (Suc 0)"
proof -
  obtain q where q: "s = 8 * q" using assms by (rule dvdE)
  have "even s" "even (s div 2)" unfolding q by presburger+
  then have "\<not> bit s 0" "\<not> bit s (Suc 0)" by (simp_all add: bit_iff_odd)
  then show "\<not> bit (of_nat s :: u64) 0" "\<not> bit (of_nat s :: u64) (Suc 0)"
    by (simp_all add: bit_simps)
qed

lemma bit_hdr [bit_simps]:
  "bit (hdr s f p) i \<longleftrightarrow> bit (of_nat s :: u64) i \<or> i = 0 \<and> f \<or> i = 1 \<and> p"
  by (auto simp: hdr_def bit_simps)

lemma hdr_flags:
  "hdr s f p OR block_header_free_bit = hdr s True p"
  "hdr s f p OR block_header_prev_free_bit = hdr s f True"
  by (rule bit_eqI; auto simp: bit_simps)+

lemma hdr_clear:
  assumes "8 dvd s"
  shows "hdr s f p AND NOT block_header_free_bit = hdr s False p"
    and "hdr s f p AND NOT block_header_prev_free_bit = hdr s f False"
    and "hdr s f p AND NOT (block_header_free_bit OR block_header_prev_free_bit) = of_nat s"
    and "hdr s f p AND block_header_free_bit \<noteq> 0 \<longleftrightarrow> f"
    and "hdr s f p AND block_header_prev_free_bit \<noteq> 0 \<longleftrightarrow> p"
proof -
  note l = low_bits_clear [OF assms]
  show "hdr s f p AND NOT block_header_free_bit = hdr s False p"
    using l by (intro bit_eqI) (auto simp: bit_simps intro: gr0I)
  show "hdr s f p AND NOT block_header_prev_free_bit = hdr s f False"
    using l by (intro bit_eqI) (auto simp: bit_simps intro: gr0I)
  show "hdr s f p AND NOT (block_header_free_bit OR block_header_prev_free_bit) = of_nat s"
    using l by (intro bit_eqI) (auto simp: bit_simps intro: gr0I)
  have "hdr s f p AND block_header_free_bit = (if f then block_header_free_bit else 0)"
    using l by (intro bit_eqI) (auto simp: bit_simps intro: gr0I)
  then show "hdr s f p AND block_header_free_bit \<noteq> 0 \<longleftrightarrow> f" by (simp add: block_header_free_bit_def)
  have "hdr s f p AND block_header_prev_free_bit = (if p then block_header_prev_free_bit else 0)"
    using l by (intro bit_eqI) (auto simp: bit_simps intro: gr0I)
  then show "hdr s f p AND block_header_prev_free_bit \<noteq> 0 \<longleftrightarrow> p" by (simp add: block_header_prev_free_bit_def)
qed

text \<open>Any word keeps its flags when its size is replaced.\<close>

lemma hdr_replace:
  "of_nat s OR (x AND (block_header_free_bit OR block_header_prev_free_bit)) = hdr s (bit x 0) (bit x 1)"
  by (rule bit_eqI) (auto simp: bit_simps)

lemma hdr_sum:
  assumes "8 dvd s"
  shows "hdr s f p = of_nat s + ((if f then 1 else 0) + (if p then 2 else 0))"
proof -
  note l = low_bits_clear [OF assms]
  define w where "w = (if f then block_header_free_bit else 0) OR (if p then block_header_prev_free_bit else 0)"
  have "bit w i \<Longrightarrow> i = 0 \<or> i = Suc 0" for i by (auto simp: w_def bit_simps split: if_splits)
  then have "of_nat s + w = of_nat s OR w" using l by (intro disjunctive_add) auto
  then have "hdr s f p = of_nat s + w" by (simp add: hdr_def w_def or.assoc)
  also have "w = (if f then 1 else 0) + (if p then 2 else 0)"
    by (simp add: w_def block_header_free_bit_def block_header_prev_free_bit_def)
  finally show ?thesis .
qed

lemma hdr_add:
  assumes "8 dvd s" "8 dvd t"
  shows "hdr s f p + (of_nat t + 8) = hdr (s + 8 + t) f p"
  using assms by (simp add: hdr_sum)

section \<open>Block lists\<close>

type_synonym block_list = "(nat \<times> bool) list"

definition span :: "block_list \<Rightarrow> nat" where
  "span bs = (\<Sum>(s, f) \<leftarrow> bs. s + 8)"

lemma span_simps [simp]:
  "span [] = 0" "span ((s, f) # bs) = s + 8 + span bs" "span (xs @ ys) = span xs + span ys"
  by (simp_all add: span_def)

definition size_ok :: "nat \<Rightarrow> bool" where
  "size_ok s \<longleftrightarrow> 8 dvd s \<and> 24 \<le> s"

definition sizes_ok :: "block_list \<Rightarrow> bool" where
  "sizes_ok bs \<longleftrightarrow> (\<forall>(s, f) \<in> set bs. size_ok s)"

lemma sizes_ok_simps [simp]:
  "sizes_ok []" "sizes_ok ((s, f) # bs) \<longleftrightarrow> size_ok s \<and> sizes_ok bs" "sizes_ok (xs @ ys) \<longleftrightarrow> sizes_ok xs \<and> sizes_ok ys"
  by (auto simp: sizes_ok_def)

text \<open>The header in front of a list of blocks: that of its first block, or of the sentinel.\<close>

definition head_size :: "block_list \<Rightarrow> nat" where
  "head_size bs = (case bs of [] \<Rightarrow> 0 | (s, f) # _ \<Rightarrow> s)"

definition head_free :: "block_list \<Rightarrow> bool" where
  "head_free bs = (case bs of [] \<Rightarrow> False | (s, f) # _ \<Rightarrow> f)"

definition last_free :: "bool \<Rightarrow> block_list \<Rightarrow> bool" where
  "last_free pf xs = (if xs = [] then pf else snd (last xs))"

lemma head_simps [simp]:
  "head_size [] = 0" "head_size ((s, f) # bs) = s" "head_free [] = False" "head_free ((s, f) # bs) = f"
  by (simp_all add: head_size_def head_free_def)

lemma last_free_simps [simp]:
  "last_free pf [] = pf" "last_free pf ((s, f) # xs) = last_free f xs" "last_free pf (xs @ ys) = last_free (last_free pf xs) ys"
  by (auto simp: last_free_def)

lemma head_size_dvd: "sizes_ok bs \<Longrightarrow> 8 dvd head_size bs"
  by (cases bs) (auto simp: size_ok_def)

section \<open>Layout\<close>

text \<open>The part of the layout behind the first header; the whole; and the part in front of a block.\<close>

fun laid_tail :: "memory \<Rightarrow> nat \<Rightarrow> block_list \<Rightarrow> bool" where
  "laid_tail m b [] = True"
| "laid_tail m b ((s, f) # bs) =
     ((f \<longrightarrow> m (b + 8 + s) = of_nat b) \<and> m (b + 8 + s + 8) = hdr (head_size bs) (head_free bs) f
      \<and> laid_tail m (b + 8 + s) bs)"

definition laid_out :: "memory \<Rightarrow> nat \<Rightarrow> bool \<Rightarrow> block_list \<Rightarrow> bool" where
  "laid_out m b pf bs \<longleftrightarrow> m (b + 8) = hdr (head_size bs) (head_free bs) pf \<and> laid_tail m b bs"

fun laid_front :: "memory \<Rightarrow> nat \<Rightarrow> bool \<Rightarrow> block_list \<Rightarrow> bool" where
  "laid_front m b pf [] = True"
| "laid_front m b pf ((s, f) # bs) =
     (m (b + 8) = hdr s f pf \<and> (f \<longrightarrow> m (b + 8 + s) = of_nat b) \<and> laid_front m (b + 8 + s) f bs)"

lemma laid_out_Nil: "laid_out m b pf [] \<longleftrightarrow> m (b + 8) = hdr 0 False pf"
  by (simp add: laid_out_def)

lemma laid_out_Cons:
  "laid_out m b pf ((s, f) # bs) \<longleftrightarrow>
     m (b + 8) = hdr s f pf \<and> (f \<longrightarrow> m (b + 8 + s) = of_nat b) \<and> laid_out m (b + 8 + s) f bs"
  by (auto simp: laid_out_def)

lemma laid_out_append:
  "laid_out m b pf (xs @ ys) \<longleftrightarrow> laid_front m b pf xs \<and> laid_out m (b + span xs) (last_free pf xs) ys"
  by (induction xs arbitrary: b pf) (auto simp: laid_out_Cons ac_simps split: prod.splits)

lemma laid_tail_cong:
  "sizes_ok bs \<Longrightarrow> (\<And>x. b + 8 < x \<Longrightarrow> m' x = m x) \<Longrightarrow> laid_tail m' b bs = laid_tail m b bs"
proof (induction bs arbitrary: b)
  case (Cons x bs)
  obtain s f where x: "x = (s, f)" by (cases x)
  have "laid_tail m' (b + 8 + s) bs = laid_tail m (b + 8 + s) bs"
    using Cons.prems by (intro Cons.IH) (auto simp: x)
  then show ?case using Cons.prems by (simp add: x size_ok_def)
qed simp

lemma laid_front_cong:
  "sizes_ok bs \<Longrightarrow> (\<And>x. b + 8 \<le> x \<Longrightarrow> x \<le> b + span bs \<Longrightarrow> m' x = m x) \<Longrightarrow>
   laid_front m' b pf bs = laid_front m b pf bs"
proof (induction bs arbitrary: b pf)
  case (Cons x bs)
  obtain s f where x: "x = (s, f)" by (cases x)
  have "laid_front m' (b + 8 + s) f bs = laid_front m (b + 8 + s) f bs"
    using Cons.prems by (intro Cons.IH) (auto simp: x)
  then show ?case using Cons.prems by (simp add: x size_ok_def)
qed simp

lemma laid_out_cong:
  "sizes_ok bs \<Longrightarrow> (\<And>x. b + 8 \<le> x \<Longrightarrow> m' x = m x) \<Longrightarrow> laid_out m' b pf bs = laid_out m b pf bs"
  using laid_tail_cong [of bs b m' m] by (simp add: laid_out_def)

text \<open>The layout taken apart at a block, and at two neighbouring blocks.\<close>

lemma focus:
  "laid_out m b pf (xs @ (s, f) # ys) \<longleftrightarrow>
     laid_front m b pf xs
     \<and> m (b + span xs + 8) = hdr s f (last_free pf xs)
     \<and> (f \<longrightarrow> m (b + span xs + 8 + s) = of_nat (b + span xs))
     \<and> m (b + span xs + 8 + s + 8) = hdr (head_size ys) (head_free ys) f
     \<and> laid_tail m (b + span xs + 8 + s) ys"
  by (simp add: laid_out_append laid_out_Cons) (simp add: laid_out_def)

lemma focus2:
  "laid_out m b pf (xs @ (s, f) # (t, g) # ys) \<longleftrightarrow>
     laid_front m b pf xs
     \<and> m (b + span xs + 8) = hdr s f (last_free pf xs)
     \<and> (f \<longrightarrow> m (b + span xs + 8 + s) = of_nat (b + span xs))
     \<and> m (b + span xs + 8 + s + 8) = hdr t g f
     \<and> (g \<longrightarrow> m (b + span xs + 8 + s + 8 + t) = of_nat (b + span xs + 8 + s))
     \<and> m (b + span xs + 8 + s + 8 + t + 8) = hdr (head_size ys) (head_free ys) g
     \<and> laid_tail m (b + span xs + 8 + s + 8 + t) ys"
  by (auto simp: focus)

section \<open>Blocks with their addresses\<close>

fun located :: "nat \<Rightarrow> block_list \<Rightarrow> (nat \<times> nat \<times> bool) list" where
  "located b [] = []"
| "located b ((s, f) # bs) = (b, s, f) # located (b + 8 + s) bs"

lemma located_append [simp]: "located b (xs @ ys) = located b xs @ located (b + span xs) ys"
  by (induction b xs rule: located.induct) (auto simp: ac_simps)

lemma located_range:
  "(a, s, f) \<in> set (located b bs) \<Longrightarrow> b \<le> a \<and> a + s + 8 \<le> b + span bs"
proof (induction b bs rule: located.induct)
  case (2 b t g bs)
  then show ?case by (cases "(a, s, f) = (b, t, g)") auto
qed simp

lemma located_split:
  assumes "(a, s, f) \<in> set (located b bs)"
  obtains xs ys where "bs = xs @ (s, f) # ys" "a = b + span xs"
proof -
  have "\<exists>xs ys. bs = xs @ (s, f) # ys \<and> a = b + span xs" using assms
  proof (induction b bs rule: located.induct)
    case (2 b t g bs)
    show ?case
    proof (cases "(a, s, f) = (b, t, g)")
      case True
      then show ?thesis by (intro ex2I [of _ "[]" bs]) simp
    next
      case False
      then obtain xs ys where "bs = xs @ (s, f) # ys" "a = b + 8 + t + span xs" using 2 by auto
      then show ?thesis by (intro ex2I [of _ "(t, g) # xs" ys]) simp
    qed
  qed simp
  then show ?thesis using that by blast
qed

lemma located_focus: "(b + span xs, s, f) \<in> set (located b (xs @ (s, f) # ys))"
  by simp

lemma located_apart:
  assumes "(a, s, f) \<in> set (located b bs)" "(a', s', f') \<in> set (located b bs)" "(a, s, f) \<noteq> (a', s', f')"
  shows "a + 8 + s \<le> a' \<or> a' + 8 + s' \<le> a"
proof -
  obtain xs ys where bs: "bs = xs @ (s, f) # ys" and a: "a = b + span xs" using located_split [OF assms(1)] .
  have "(a', s', f') \<in> set (located b xs) \<or> (a', s', f') \<in> set (located (a + 8 + s) ys)"
    using assms(2,3) by (auto simp: bs a ac_simps)
  then show ?thesis using located_range [of a' s' f'] by (fastforce simp: a)
qed

lemma located_sizes: "sizes_ok bs \<Longrightarrow> (a, s, f) \<in> set (located b bs) \<Longrightarrow> size_ok s"
  by (induction b bs rule: located.induct) auto

text \<open>What memory says about a block of the pool.\<close>

lemma located_header:
  assumes "laid_out m b pf bs" "(a, s, f) \<in> set (located b bs)"
  shows "\<exists>p. m (a + 8) = hdr s f p"
  using located_split [OF assms(2)] assms(1) by (metis focus)

section \<open>The payloads of the client\<close>

definition payload_cells :: "nat \<Rightarrow> block_list \<Rightarrow> nat set" where
  "payload_cells b bs = {x. \<exists>a s. (a, s, False) \<in> set (located b bs) \<and> a + 16 \<le> x \<and> x < a + 16 + s}"

lemma payload_append: "payload_cells b (xs @ ys) = payload_cells b xs \<union> payload_cells (b + span xs) ys"
  by (auto simp: payload_cells_def)

lemma payload_Cons:
  "payload_cells b ((s, f) # bs) = (if f then {} else {b + 16..<b + 16 + s}) \<union> payload_cells (b + 8 + s) bs"
proof (rule set_eqI)
  fix x
  have "x \<in> payload_cells b ((s, f) # bs) \<longleftrightarrow> (\<not> f \<and> b + 16 \<le> x \<and> x < b + 16 + s) \<or> x \<in> payload_cells (b + 8 + s) bs"
    unfolding payload_cells_def by (simp, blast)
  then show "x \<in> payload_cells b ((s, f) # bs) \<longleftrightarrow>
      x \<in> (if f then {} else {b + 16..<b + 16 + s}) \<union> payload_cells (b + 8 + s) bs" by auto
qed

lemma payload_Nil [simp]: "payload_cells b [] = {}"
  by (simp add: payload_cells_def)

lemma payload_range: "x \<in> payload_cells b bs \<Longrightarrow> b + 16 \<le> x \<and> x < b + span bs + 8"
  by (auto simp: payload_cells_def dest: located_range)

lemma payload_not_free:
  assumes "(a, s, True) \<in> set (located b bs)" "x \<in> payload_cells b bs"
  shows "x < a + 8 \<or> a + 16 + s \<le> x"
proof -
  obtain a' s' where *: "(a', s', False) \<in> set (located b bs)" "a' + 16 \<le> x" "x < a' + 16 + s'"
    using assms(2) by (auto simp: payload_cells_def)
  then show ?thesis using located_apart [OF assms(1) *(1)] by auto
qed

lemma payload_not_header:
  assumes "(a, s, f) \<in> set (located b bs)"
  shows "a + 8 \<notin> payload_cells b bs"
proof
  assume "a + 8 \<in> payload_cells b bs"
  then obtain a' s' where *: "(a', s', False) \<in> set (located b bs)" "a' + 16 \<le> a + 8" "a + 8 < a' + 16 + s'"
    by (auto simp: payload_cells_def)
  then show False using located_apart [OF assms *(1)] by auto
qed

end
