(* ===== verification/Tlsf_Lists.thy ===== *)
theory Tlsf_Lists
  imports Tlsf_Shape
begin

text \<open>
  The segregated free lists of the TLSF allocator: doubly linked lists threaded through the free blocks, one for
  each size class, with \<open>block_null\<close> as the end of every list, and the two levels of bitmaps over them.

  \<open>free_lists_ok\<close> relates \<open>control_t\<close> to one list of addresses per class.  \<open>free_lists c F\<close> is the contract the
  allocator uses: the lists hold exactly the registered blocks \<open>F\<close>, each in the class of its size.  Removing and
  inserting a block, the search, and memory changes elsewhere are described in terms of \<open>F\<close> alone.
\<close>

unbundle bit_operations_syntax

section \<open>Doubly linked lists\<close>

fun dlist :: "memory \<Rightarrow> nat \<Rightarrow> nat list \<Rightarrow> nat \<Rightarrow> bool" where
  "dlist m p [] n = True"
| "dlist m p (a # as) n = (prev_free m a = p \<and> next_free m a = hd (as @ [n]) \<and> dlist m a as n)"

definition same_links :: "memory \<Rightarrow> memory \<Rightarrow> nat set \<Rightarrow> bool" where
  "same_links m m' A \<longleftrightarrow> (\<forall>a \<in> A. m' (a + 16) = m (a + 16) \<and> m' (a + 24) = m (a + 24))"

lemma dlist_append:
  "dlist m p (xs @ ys) n \<longleftrightarrow> dlist m p xs (hd (ys @ [n])) \<and> dlist m (last (p # xs)) ys n"
  by (induction xs arbitrary: p) (auto simp: hd_append)

lemma dlist_cong: "same_links m m' (set as) \<Longrightarrow> dlist m p as n \<Longrightarrow> dlist m' p as n"
  by (induction as arbitrary: p) (auto simp: same_links_def next_free_def prev_free_def)

text \<open>Blocks are 32 bytes apart, so the links of different blocks are different cells.\<close>

definition apart :: "nat set \<Rightarrow> bool" where
  "apart A \<longleftrightarrow> (\<forall>x \<in> A. \<forall>y \<in> A. x \<noteq> y \<longrightarrow> x + 32 \<le> y \<or> y + 32 \<le> x) \<and> (\<forall>x \<in> A. x + 32 \<le> 2 ^ 64)"

lemma apartD: "apart A \<Longrightarrow> x \<in> A \<Longrightarrow> y \<in> A \<Longrightarrow> x = y \<or> x + 32 \<le> y \<or> y + 32 \<le> x"
  by (auto simp: apart_def)

lemma apart_small: "apart A \<Longrightarrow> x \<in> A \<Longrightarrow> unat (of_nat x :: u64) = x"
  by (intro unat_sz) (fastforce simp: apart_def)

lemma apart_subset: "apart A \<Longrightarrow> B \<subseteq> A \<Longrightarrow> apart B"
  by (auto simp: apart_def)

lemma dlist_unlink:
  assumes d: "dlist m z (xs @ a # ys) z" and dis: "distinct (xs @ a # ys)"
    and A: "apart (insert z (set (xs @ a # ys)))" and z: "z \<notin> set (xs @ a # ys)"
    and m': "m' = m(hd (ys @ [z]) + 24 := of_nat (last (z # xs)), last (z # xs) + 16 := of_nat (hd (ys @ [z])))"
  shows "dlist m' z (xs @ ys) z"
proof -
  let ?A = "insert z (set (xs @ a # ys))"
  let ?p = "last (z # xs)" and ?n = "hd (ys @ [z])"
  have pA: "?p \<in> insert z (set xs)" by (cases xs rule: rev_cases) auto
  have nA: "?n \<in> insert z (set ys)" by (cases ys) auto
  have cell: "x + 16 \<noteq> ?n + 24" "?p + 16 \<noteq> x + 24" if "x \<in> ?A" for x
    using apartD [OF A that, of ?n] apartD [OF A that, of ?p] pA nA by auto
  have at_n: "m' (?n + 24) = of_nat ?p" and at_p: "m' (?p + 16) = of_nat ?n"
    using cell(2) [of ?n] nA by (auto simp: m')
  have keep24: "m' (x + 24) = m (x + 24)" if "x \<in> ?A" "x \<noteq> ?n" for x
    using that cell(2) [OF that(1)] by (auto simp: m')
  have keep16: "m' (x + 16) = m (x + 16)" if "x \<in> ?A" "x \<noteq> ?p" for x
    using that cell(1) [OF that(1)] by (auto simp: m')
  have small: "unat (of_nat ?p :: u64) = ?p" "unat (of_nat ?n :: u64) = ?n"
    using apart_small [OF A] pA nA by auto
  have split: "dlist m z xs a" "dlist m a ys z" using d by (auto simp: dlist_append)
  have front: "dlist m' z xs ?n"
  proof (cases xs rule: rev_cases)
    case (snoc xs' x)
    have x: "?p = x" "x \<noteq> ?n" using snoc nA dis z by auto
    have "same_links m m' (set xs')"
      unfolding same_links_def
    proof (intro ballI conjI)
      fix y assume y: "y \<in> set xs'"
      then have "y \<noteq> ?p" "y \<noteq> ?n" "y \<in> ?A" using snoc x dis z nA by auto
      then show "m' (y + 16) = m (y + 16)" "m' (y + 24) = m (y + 24)" using keep16 keep24 by blast+
    qed
    moreover have "dlist m z xs' x" using split(1) by (simp add: snoc dlist_append)
    ultimately have "dlist m' z xs' x" by (rule dlist_cong)
    moreover have "prev_free m' x = last (z # xs')"
      using split(1) snoc x keep24 [of x] by (simp add: dlist_append prev_free_def)
    moreover have "next_free m' x = ?n" using at_p small x by (simp add: next_free_def)
    ultimately show ?thesis by (simp add: snoc dlist_append)
  qed simp
  have rest: "dlist m' ?p ys z"
  proof (cases ys)
    case (Cons y ys')
    have y: "?n = y" "y \<noteq> ?p" using Cons pA dis z by auto
    have "same_links m m' (set ys')"
      unfolding same_links_def
    proof (intro ballI conjI)
      fix x assume x: "x \<in> set ys'"
      then have "x \<noteq> ?p" "x \<noteq> ?n" "x \<in> ?A" using Cons y dis z pA by auto
      then show "m' (x + 16) = m (x + 16)" "m' (x + 24) = m (x + 24)" using keep16 keep24 by blast+
    qed
    moreover have "dlist m y ys' z" using split(2) by (simp add: Cons)
    ultimately have "dlist m' y ys' z" by (rule dlist_cong)
    moreover have "next_free m' y = hd (ys' @ [z])"
      using split(2) Cons y keep16 [of y] by (simp add: next_free_def)
    moreover have "prev_free m' y = ?p" using at_n small y by (simp add: prev_free_def)
    ultimately show ?thesis by (simp add: Cons)
  qed simp
  show ?thesis using front rest by (simp add: dlist_append)
qed

lemma dlist_push:
  assumes d: "dlist m z as z" and A: "apart (insert z (insert a (set as)))" and a: "a \<notin> set as" "a \<noteq> z" "z \<notin> set as"
    and dis: "distinct as"
    and m': "m' = m(a + 16 := of_nat (hd (as @ [z])), a + 24 := of_nat z, hd (as @ [z]) + 24 := of_nat a)"
  shows "dlist m' z (a # as) z"
proof -
  let ?n = "hd (as @ [z])"
  let ?A = "insert z (insert a (set as))"
  have nA: "?n \<in> insert z (set as)" by (cases as) auto
  then have na: "?n \<noteq> a" using a by auto
  have far: "x = y \<or> x + 32 \<le> y \<or> y + 32 \<le> x" if "x \<in> ?A" "y \<in> ?A" for x y using apartD [OF A that] .
  have "m' (a + 16) = of_nat ?n" "m' (a + 24) = of_nat z"
    using far [of ?n a] nA na by (auto simp: m')
  then have own: "next_free m' a = ?n" "prev_free m' a = z"
    using apart_small [OF A] nA by (auto simp: next_free_def prev_free_def)
  have same: "m' (x + 16) = m (x + 16)" "x \<noteq> ?n \<Longrightarrow> m' (x + 24) = m (x + 24)" if "x \<in> set as" for x
    using far [of x a] far [of x ?n] that nA a by (auto simp: m')
  have "dlist m' a as z"
  proof (cases as)
    case (Cons y ys)
    have "same_links m m' (set ys)" using same dis Cons by (auto simp: same_links_def)
    moreover have "dlist m y ys z" using d by (simp add: Cons)
    ultimately have "dlist m' y ys z" by (rule dlist_cong)
    moreover have "next_free m' y = hd (ys @ [z])" using d Cons same(1) [of y] by (simp add: next_free_def)
    moreover have "prev_free m' y = a" using Cons apart_small [OF A, of a] by (simp add: m' prev_free_def)
    ultimately show ?thesis by (simp add: Cons)
  qed simp
  then show ?thesis using own by simp
qed

section \<open>Bitmaps\<close>

text \<open>\<open>1U << k\<close> and \<open>~0U << k\<close>, in the form the simplifier gives them.\<close>

lemma bit_set_flag: "k < LENGTH('a) \<Longrightarrow> bit (w OR 2 ^ k :: 'a::len word) i \<longleftrightarrow> bit w i \<or> i = k"
  by (auto simp: bit_simps)

lemma bit_clear_flag: "bit (w AND NOT (2 ^ k) :: 'a::len word) i \<longleftrightarrow> bit w i \<and> i \<noteq> k"
  by (auto simp: bit_simps dest: bit_imp_le_length)

lemma bit_from: "bit (w AND NOT (mask k) :: 'a::len word) i \<longleftrightarrow> bit w i \<and> k \<le> i"
  by (auto simp: bit_simps dest: bit_imp_le_length)

section \<open>All lists together\<close>

definition listed :: "(nat \<Rightarrow> nat \<Rightarrow> nat list) \<Rightarrow> nat set" where
  "listed L = {a. \<exists>fl < 25. \<exists>sl < 32. a \<in> set (L fl sl)}"

definition class_list_ok :: "control_t \<Rightarrow> (nat \<Rightarrow> nat \<Rightarrow> nat list) \<Rightarrow> nat \<Rightarrow> nat \<Rightarrow> bool" where
  "class_list_ok c L fl sl \<longleftrightarrow>
     blocks c ! fl ! sl = hd (L fl sl @ [block_null c]) \<and> dlist (heap c) (block_null c) (L fl sl) (block_null c)
     \<and> distinct (L fl sl) \<and> (bit (sl_bitmap c ! fl) sl \<longleftrightarrow> L fl sl \<noteq> [])"

definition free_lists_ok :: "control_t \<Rightarrow> (nat \<Rightarrow> nat \<Rightarrow> nat list) \<Rightarrow> bool" where
  "free_lists_ok c L \<longleftrightarrow>
     length (sl_bitmap c) = 25 \<and> length (blocks c) = 25 \<and> (\<forall>fl < 25. length (blocks c ! fl) = 32)
     \<and> (\<forall>fl < 25. \<forall>sl < 32. class_list_ok c L fl sl)
     \<and> (\<forall>fl. bit (fl_bitmap c) fl \<longleftrightarrow> fl < 25 \<and> sl_bitmap c ! fl \<noteq> 0)
     \<and> (\<forall>fl < 25. \<forall>sl < 32. \<forall>fl' < 25. \<forall>sl' < 32. (fl, sl) \<noteq> (fl', sl') \<longrightarrow> set (L fl sl) \<inter> set (L fl' sl') = {})
     \<and> block_null c \<notin> listed L \<and> apart (insert (block_null c) (listed L))"

abbreviation (input) class_upd :: "(nat \<Rightarrow> nat \<Rightarrow> nat list) \<Rightarrow> nat \<Rightarrow> nat \<Rightarrow> nat list \<Rightarrow> nat \<Rightarrow> nat \<Rightarrow> nat list" where
  "class_upd L fl sl as \<equiv> L(fl := (L fl)(sl := as))"

lemma index_in_range_nat: "index_in_range (int fl) (int sl) \<longleftrightarrow> fl < 25 \<and> sl < 32"
  by (auto simp: index_in_range_def)

lemma free_lists_okD:
  assumes "free_lists_ok c L"
  shows "length (sl_bitmap c) = 25" "length (blocks c) = 25" "\<And>fl. fl < 25 \<Longrightarrow> length (blocks c ! fl) = 32"
    and "\<And>fl sl. fl < 25 \<Longrightarrow> sl < 32 \<Longrightarrow> class_list_ok c L fl sl"
    and "\<And>fl. bit (fl_bitmap c) fl \<longleftrightarrow> fl < 25 \<and> sl_bitmap c ! fl \<noteq> 0"
    and "\<And>fl sl fl' sl' a. fl < 25 \<Longrightarrow> sl < 32 \<Longrightarrow> fl' < 25 \<Longrightarrow> sl' < 32 \<Longrightarrow>
      a \<in> set (L fl sl) \<Longrightarrow> a \<in> set (L fl' sl') \<Longrightarrow> fl = fl' \<and> sl = sl'"
    and "block_null c \<notin> listed L" "apart (insert (block_null c) (listed L))"
  using assms unfolding free_lists_ok_def by blast+

lemma in_listed: "fl < 25 \<Longrightarrow> sl < 32 \<Longrightarrow> a \<in> set (L fl sl) \<Longrightarrow> a \<in> listed L"
  by (auto simp: listed_def)

lemma remove_free_block_fields:
  assumes ok: "free_lists_ok c L" and i: "fl < 25" "sl < 32" and L: "L fl sl = xs @ a # ys"
    and p: "p = last (block_null c # xs)" and n: "n = hd (ys @ [block_null c])"
  shows "remove_free_block c a (int fl) (int sl) =
    c\<lparr>fl_bitmap := (if xs = [] \<and> ys = [] \<and> sl_bitmap c ! fl AND NOT (push_bit sl 1) = 0
                   then fl_bitmap c AND NOT (push_bit fl 1) else fl_bitmap c),
      sl_bitmap := (if xs = [] \<and> ys = [] then (sl_bitmap c)[fl := sl_bitmap c ! fl AND NOT (push_bit sl 1)] else sl_bitmap c),
      blocks := (if xs = [] then (blocks c)[fl := (blocks c ! fl)[sl := n]] else blocks c),
      heap := (heap c)(n + 24 := of_nat p, p + 16 := of_nat n)\<rparr>"
proof -
  have cl: "class_list_ok c L fl sl" using free_lists_okD(4) [OF ok i] .
  have d: "prev_free (heap c) a = p" "next_free (heap c) a = n"
    using cl by (simp_all add: class_list_ok_def L dlist_append p n)
  have "list_head c (int fl) (int sl) = hd (xs @ a # ys @ [block_null c])"
    using cl by (simp add: list_head_def class_list_ok_def L)
  then have head: "list_head c (int fl) (int sl) = a \<longleftrightarrow> xs = []"
    using cl by (cases xs) (auto simp: class_list_ok_def L)
  have "n = block_null c \<longleftrightarrow> ys = []"
  proof (cases ys)
    case (Cons y ys')
    then have "y \<in> listed L" using in_listed [OF i, of y] L by simp
    then show ?thesis using free_lists_okD(7) [OF ok] Cons n by auto
  qed (simp add: n)
  then show ?thesis
    using i head by (simp add: remove_free_block_def index_in_range_nat d Let_def list_head_def set_head_def)
qed

lemma free_lists_ok_remove:
  assumes ok: "free_lists_ok c L" and i: "fl < 25" "sl < 32" and a: "a \<in> set (L fl sl)"
  shows "free_lists_ok (remove_free_block c a (int fl) (int sl)) (class_upd L fl sl (remove1 a (L fl sl)))"
    and "block_null (remove_free_block c a (int fl) (int sl)) = block_null c"
    and "heap (remove_free_block c a (int fl) (int sl)) x \<noteq> heap c x \<Longrightarrow>
      \<exists>y \<in> insert (block_null c) (listed L - {a}). x = y + 16 \<or> x = y + 24"
proof -
  obtain xs ys where L: "L fl sl = xs @ a # ys" using split_list [OF a] by blast
  define z p n where "z = block_null c" and "p = last (z # xs)" and "n = hd (ys @ [z])"
  define c' where "c' = remove_free_block c a (int fl) (int sl)"
  define L' where "L' = class_upd L fl sl (xs @ ys)"
  note fields = remove_free_block_fields [OF ok i L p_def [unfolded z_def] n_def [unfolded z_def]]
  note c' = c'_def [unfolded fields]
  have cl: "class_list_ok c L fl sl" using free_lists_okD(4) [OF ok i] .
  have dis: "distinct (xs @ a # ys)" using cl by (simp add: class_list_ok_def L)
  have p: "p \<in> insert z (set xs)" and n: "n \<in> insert z (set ys)"
    unfolding p_def n_def by (cases xs rule: rev_cases; cases ys; simp)+
  have sub: "set (L fl sl) \<subseteq> listed L" using in_listed [OF i] by auto
  have null: "z \<notin> listed L" and A: "apart (insert z (listed L))" using free_lists_okD(7,8) [OF ok] by (simp_all add: z_def)
  have heap: "heap c' = (heap c)(n + 24 := of_nat p, p + 16 := of_nat n)" by (simp add: c')
  have pn: "p \<in> insert z (listed L - {a})" "n \<in> insert z (listed L - {a})"
    using p n sub dis by (auto simp: L)
  show frame: "\<exists>y \<in> insert (block_null c) (listed L - {a}). x = y + 16 \<or> x = y + 24"
    if "heap (remove_free_block c a (int fl) (int sl)) x \<noteq> heap c x" for x
    using that pn unfolding c'_def [symmetric] heap by (auto simp: z_def split: if_splits)
  show "block_null (remove_free_block c a (int fl) (int sl)) = block_null c" by (simp add: fields)
  have z': "block_null c' = z" by (simp add: c' z_def)
  have smaller: "set (L' f s) \<subseteq> set (L f s)" for f s by (auto simp: L'_def L)
  then have listed: "listed L' \<subseteq> listed L" unfolding listed_def by blast
  have other: "same_links (heap c) (heap c') (set (L fl' sl'))" if "fl' < 25" "sl' < 32" "(fl', sl') \<noteq> (fl, sl)" for fl' sl'
    unfolding same_links_def
  proof (intro ballI)
    fix y assume y: "y \<in> set (L fl' sl')"
    then have y': "y \<in> listed L" using in_listed that by blast
    have ne: "y \<noteq> p" "y \<noteq> n"
      using p n y y' null free_lists_okD(6) [OF ok that(1,2) i, of y] that(3) by (auto simp: L)
    have "y + 32 \<le> p \<or> p + 32 \<le> y" "y + 32 \<le> n \<or> n + 32 \<le> y"
      using apartD [OF A, of y p] apartD [OF A, of y n] ne y' pn by auto
    then show "heap c' (y + 16) = heap c (y + 16) \<and> heap c' (y + 24) = heap c (y + 24)"
      by (auto simp: heap)
  qed
  have "free_lists_ok c' L'"
    unfolding free_lists_ok_def
  proof (intro conjI allI impI)
    show "length (sl_bitmap c') = 25" "length (blocks c') = 25" using free_lists_okD(1,2) [OF ok] by (simp_all add: c')
    show "length (blocks c' ! fl') = 32" if "fl' < 25" for fl'
      using that free_lists_okD(2,3) [OF ok] by (cases "fl' = fl") (auto simp: c')
    show "class_list_ok c' L' fl' sl'" if r: "fl' < 25" "sl' < 32" for fl' sl'
    proof (cases "(fl', sl') = (fl, sl)")
      case True
      have "dlist (heap c') z (xs @ ys) z"
      proof (rule dlist_unlink [of "heap c"])
        show "dlist (heap c) z (xs @ a # ys) z" using cl by (simp add: class_list_ok_def L z_def)
        show "apart (insert z (set (xs @ a # ys)))" using A sub by (auto simp: L intro: apart_subset)
        show "z \<notin> set (xs @ a # ys)" using null sub by (auto simp: L)
      qed (use dis in \<open>simp_all add: heap p_def n_def\<close>)
      moreover have "blocks c' ! fl ! sl = hd ((xs @ ys) @ [z])"
      proof (cases xs)
        case Nil
        then show ?thesis using i free_lists_okD(2,3) [OF ok] by (simp add: c' n_def)
      next
        case (Cons x xs')
        then show ?thesis using cl by (simp add: c' class_list_ok_def L)
      qed
      moreover have "bit (sl_bitmap c' ! fl) sl \<longleftrightarrow> xs @ ys \<noteq> []"
        using cl i free_lists_okD(1) [OF ok] by (auto simp: c' class_list_ok_def L bit_clear_flag)
      ultimately show ?thesis using True dis by (simp add: class_list_ok_def L'_def z')
    next
      case False
      have o: "class_list_ok c L fl' sl'" using free_lists_okD(4) [OF ok r] .
      have "dlist (heap c) z (L fl' sl') z" using o by (simp only: class_list_ok_def z_def)
      with other [OF r False] have "dlist (heap c') z (L fl' sl') z" by (rule dlist_cong)
      moreover have "blocks c' ! fl' ! sl' = blocks c ! fl' ! sl'"
        using False i free_lists_okD(2) [OF ok] by (cases "fl' = fl") (auto simp: c')
      moreover have "bit (sl_bitmap c' ! fl') sl' \<longleftrightarrow> bit (sl_bitmap c ! fl') sl'"
        using False i free_lists_okD(1) [OF ok] by (cases "fl' = fl") (auto simp: c' bit_clear_flag)
      moreover have "L' fl' sl' = L fl' sl'" using False by (auto simp: L'_def)
      ultimately show ?thesis using o by (simp add: class_list_ok_def z' z_def)
    qed
    show "bit (fl_bitmap c') fl' \<longleftrightarrow> fl' < 25 \<and> sl_bitmap c' ! fl' \<noteq> 0" for fl'
    proof -
      have "bit (sl_bitmap c ! fl) sl" using cl by (simp add: class_list_ok_def L)
      then have "sl_bitmap c ! fl \<noteq> 0" by auto
      then show ?thesis
        using free_lists_okD(1) [OF ok] free_lists_okD(5) [OF ok, of fl'] i
        by (cases "fl' = fl") (simp_all add: c' bit_clear_flag)
    qed
    show "set (L' fl1 sl1) \<inter> set (L' fl2 sl2) = {}"
      if "fl1 < 25" "sl1 < 32" "fl2 < 25" "sl2 < 32" "(fl1, sl1) \<noteq> (fl2, sl2)" for fl1 sl1 fl2 sl2
      using that free_lists_okD(6) [OF ok that(1-4)] smaller by blast
    show "block_null c' \<notin> listed L'" using null listed z' by auto
    show "apart (insert (block_null c') (listed L'))" using A listed z' by (auto intro: apart_subset)
  qed
  moreover have "remove1 a (L fl sl) = xs @ ys" using dis by (simp add: L remove1_append)
  ultimately show "free_lists_ok (remove_free_block c a (int fl) (int sl)) (class_upd L fl sl (remove1 a (L fl sl)))"
    by (simp add: c'_def L'_def)
qed

lemma free_lists_ok_insert:
  assumes ok: "free_lists_ok c L" and i: "fl < 25" "sl < 32" and new: "a \<notin> listed L" "a \<noteq> block_null c"
    and A: "apart (insert (block_null c) (insert a (listed L)))"
  obtains c' where "insert_free_block c a (int fl) (int sl) = Some c'" "free_lists_ok c' (class_upd L fl sl (a # L fl sl))"
    "block_null c' = block_null c"
    "\<And>x. heap c' x \<noteq> heap c x \<Longrightarrow> \<exists>y \<in> insert (block_null c) (insert a (listed L)). x = y + 24 \<or> x = a + 16"
proof -
  define z n where "z = block_null c" and "n = hd (L fl sl @ [z])"
  define c' where "c' = c\<lparr>fl_bitmap := fl_bitmap c OR push_bit fl 1,
      sl_bitmap := (sl_bitmap c)[fl := sl_bitmap c ! fl OR push_bit sl 1],
      blocks := (blocks c)[fl := (blocks c ! fl)[sl := a]],
      heap := (heap c)(a + 16 := of_nat n, a + 24 := of_nat z, n + 24 := of_nat a)\<rparr>"
  define L' where "L' = class_upd L fl sl (a # L fl sl)"
  have cl: "class_list_ok c L fl sl" using free_lists_okD(4) [OF ok i] .
  have ins: "insert_free_block c a (int fl) (int sl) = Some c'"
    using i cl by (simp add: insert_free_block_def index_in_range_nat Let_def list_head_def set_head_def c'_def
        class_list_ok_def n_def z_def)
  have n: "n \<in> insert z (set (L fl sl))" unfolding n_def by (cases "L fl sl") auto
  have sub: "set (L fl sl) \<subseteq> listed L" using in_listed [OF i] by auto
  have null: "z \<notin> listed L" using free_lists_okD(7) [OF ok] by (simp add: z_def)
  have heap: "heap c' = (heap c)(a + 16 := of_nat n, a + 24 := of_nat z, n + 24 := of_nat a)" by (simp add: c'_def)
  have frame: "\<exists>y \<in> insert (block_null c) (insert a (listed L)). x = y + 24 \<or> x = a + 16" if "heap c' x \<noteq> heap c x" for x
    using that n sub unfolding heap by (auto simp: z_def split: if_splits)
  have z': "block_null c' = z" by (simp add: c'_def z_def)
  have into: "set (L' f s) \<subseteq> insert a (set (L f s))" for f s by (auto simp: L'_def)
  then have listed: "listed L' \<subseteq> insert a (listed L)" unfolding listed_def by blast
  have far: "x = y \<or> x + 32 \<le> y \<or> y + 32 \<le> x" if "x \<in> insert z (insert a (listed L))" "y \<in> insert z (insert a (listed L))" for x y
    using apartD [OF A] that by (simp add: z_def)
  have other: "same_links (heap c) (heap c') (set (L fl' sl'))" if "fl' < 25" "sl' < 32" "(fl', sl') \<noteq> (fl, sl)" for fl' sl'
    unfolding same_links_def
  proof (intro ballI)
    fix y assume y: "y \<in> set (L fl' sl')"
    then have y': "y \<in> listed L" using in_listed that by blast
    then have ne: "y \<noteq> a" "y \<noteq> n"
      using n y null new free_lists_okD(6) [OF ok that(1,2) i, of y] that(3) by auto
    have "y + 32 \<le> a \<or> a + 32 \<le> y" "y + 32 \<le> n \<or> n + 32 \<le> y"
      using far [of y a] far [of y n] ne y' n sub by auto
    then show "heap c' (y + 16) = heap c (y + 16) \<and> heap c' (y + 24) = heap c (y + 24)"
      by (auto simp: heap)
  qed
  have "free_lists_ok c' L'"
    unfolding free_lists_ok_def
  proof (intro conjI allI impI)
    show "length (sl_bitmap c') = 25" "length (blocks c') = 25" using free_lists_okD(1,2) [OF ok] by (simp_all add: c'_def)
    show "length (blocks c' ! fl') = 32" if "fl' < 25" for fl'
      using that free_lists_okD(2,3) [OF ok] by (cases "fl' = fl") (auto simp: c'_def)
    show "class_list_ok c' L' fl' sl'" if r: "fl' < 25" "sl' < 32" for fl' sl'
    proof (cases "(fl', sl') = (fl, sl)")
      case True
      have "dlist (heap c') z (a # L fl sl) z"
      proof (rule dlist_push [of "heap c"])
        show "dlist (heap c) z (L fl sl) z" "distinct (L fl sl)" using cl by (simp_all add: class_list_ok_def z_def)
        show "apart (insert z (insert a (set (L fl sl))))"
          using A sub by (auto simp: z_def intro: apart_subset)
        show "a \<notin> set (L fl sl)" "a \<noteq> z" "z \<notin> set (L fl sl)" using null sub new by (auto simp: z_def)
      qed (simp add: heap n_def)
      then show ?thesis
        using True i cl new sub free_lists_okD(1,2,3) [OF ok]
        by (simp add: class_list_ok_def L'_def z' c'_def bit_set_flag) (auto simp: z_def)
    next
      case False
      have o: "class_list_ok c L fl' sl'" using free_lists_okD(4) [OF ok r] .
      have "dlist (heap c) z (L fl' sl') z" using o by (simp only: class_list_ok_def z_def)
      with other [OF r False] have "dlist (heap c') z (L fl' sl') z" by (rule dlist_cong)
      moreover have "blocks c' ! fl' ! sl' = blocks c ! fl' ! sl'"
        using False i free_lists_okD(2) [OF ok] by (cases "fl' = fl") (auto simp: c'_def)
      moreover have "bit (sl_bitmap c' ! fl') sl' \<longleftrightarrow> bit (sl_bitmap c ! fl') sl'"
        using False i free_lists_okD(1) [OF ok] by (cases "fl' = fl") (auto simp: c'_def bit_set_flag)
      moreover have "L' fl' sl' = L fl' sl'" using False by (auto simp: L'_def)
      ultimately show ?thesis using o by (simp add: class_list_ok_def z' z_def)
    qed
    show "bit (fl_bitmap c') fl' \<longleftrightarrow> fl' < 25 \<and> sl_bitmap c' ! fl' \<noteq> 0" for fl'
    proof (cases "fl' = fl")
      case True
      have "bit (sl_bitmap c ! fl OR push_bit sl 1) sl" using i by (simp add: bit_set_flag)
      then have "sl_bitmap c ! fl OR push_bit sl 1 \<noteq> 0" by auto
      then show ?thesis using True i free_lists_okD(1) [OF ok] by (simp add: c'_def bit_set_flag)
    next
      case False
      then show ?thesis using free_lists_okD(5) [OF ok, of fl'] i by (simp add: c'_def bit_set_flag)
    qed
    show "set (L' fl1 sl1) \<inter> set (L' fl2 sl2) = {}"
      if r: "fl1 < 25" "sl1 < 32" "fl2 < 25" "sl2 < 32" and ne: "(fl1, sl1) \<noteq> (fl2, sl2)" for fl1 sl1 fl2 sl2
    proof -
      have "a \<notin> set (L f s)" if "f < 25" "s < 32" for f s using new in_listed that by blast
      moreover have "set (L fl1 sl1) \<inter> set (L fl2 sl2) = {}" using free_lists_okD(6) [OF ok r] ne by blast
      ultimately show ?thesis using r ne by (auto simp: L'_def)
    qed
    show "block_null c' \<notin> listed L'" using null listed z' new by (auto simp: z_def)
    show "apart (insert (block_null c') (listed L'))"
      using A listed z' by (auto simp: z_def intro: apart_subset)
  qed
  then show ?thesis using that ins frame z' by (simp add: L'_def z_def)
qed

lemma free_lists_ok_heap:
  assumes ok: "free_lists_ok c L" and same: "same_links (heap c) m (listed L)"
  shows "free_lists_ok (c\<lparr>heap := m\<rparr>) L"
proof -
  have "class_list_ok (c\<lparr>heap := m\<rparr>) L fl sl" if r: "fl < 25" "sl < 32" for fl sl
  proof -
    have "set (L fl sl) \<subseteq> listed L" using in_listed [OF r] by auto
    then have "same_links (heap c) m (set (L fl sl))" using same by (auto simp: same_links_def)
    then show ?thesis
      using free_lists_okD(4) [OF ok r] by (auto simp: class_list_ok_def intro: dlist_cong)
  qed
  then show ?thesis using ok by (simp add: free_lists_ok_def)
qed

section \<open>Searching\<close>

lemma ffs_lowest_from:
  assumes "w \<noteq> 0"
  obtains k where "tlsf_ffs w = int k" "bit w k" "\<And>j. bit w j \<Longrightarrow> k \<le> j"
proof -
  obtain k where k: "bit w k" "\<forall>j < k. \<not> bit w j" using ex_lowest [OF assms] by blast
  then show ?thesis using that [of k] ffs_of_lowest [of w k] by (auto intro: leI)
qed

lemma search_suitable_block_ok:
  assumes ok: "free_lists_ok c L" and i: "fl < 25" "sl < 32"
  shows "(\<exists>fl' sl'. search_suitable_block c (int fl) (int sl) = (0, fl', sl')
        \<and> (\<forall>f < 25. \<forall>s < 32. class_le fl sl f s \<longrightarrow> L f s = []))
    \<or> (\<exists>fl' sl'. fl' < 25 \<and> sl' < 32 \<and> class_le fl sl fl' sl' \<and> L fl' sl' \<noteq> []
        \<and> search_suitable_block c (int fl) (int sl) = (hd (L fl' sl'), int fl', int sl'))"
proof -
  have head: "list_head c (int f) (int s) = hd (L f s) \<and> L f s \<noteq> []"
    if "f < 25" "s < 32" "bit (sl_bitmap c ! f) s" for f s
    using free_lists_okD(4) [OF ok that(1,2)] that(3) by (auto simp: class_list_ok_def list_head_def)
  have used: "bit (sl_bitmap c ! f) s \<longleftrightarrow> L f s \<noteq> []" if "f < 25" "s < 32" for f s
    using free_lists_okD(4) [OF ok that] by (simp add: class_list_ok_def)
  define sm where "sm = sl_bitmap c ! fl AND push_bit sl (NOT 0)"
  define fm where "fm = fl_bitmap c AND push_bit (Suc fl) (NOT 0)"
  have sm: "bit sm s \<longleftrightarrow> bit (sl_bitmap c ! fl) s \<and> sl \<le> s" for s by (simp add: sm_def bit_from)
  have fm: "bit fm f \<longleftrightarrow> f < 25 \<and> sl_bitmap c ! f \<noteq> 0 \<and> fl < f" for f
    using i free_lists_okD(5) [OF ok, of f] by (auto simp: fm_def bit_from)
  have bits: "s < 32" if "bit w s" for w :: u32 and s using bit_imp_le_length [OF that] by simp
  show ?thesis
  proof (cases "sm = 0")
    case False
    then obtain s where s: "tlsf_ffs sm = int s" "bit sm s" by (rule ffs_lowest_from)
    have "s < 32" "bit (sl_bitmap c ! fl) s" "sl \<le> s" using s(2) bits by (auto simp: sm)
    then show ?thesis
      using head [OF i(1), of s] i False s(1)
      by (intro disjI2 ex2I [of _ fl s])
        (simp add: class_le_def search_suitable_block_def index_in_range_nat sm_def Let_def)
  next
    case True
    show ?thesis
    proof (cases "fm = 0")
      case True: True
      have "L f s = []" if "f < 25" "s < 32" "class_le fl sl f s" for f s
      proof -
        have "\<not> bit sm s" "\<not> bit fm f" using True \<open>sm = 0\<close> by simp_all
        then have "\<not> bit (sl_bitmap c ! f) s" using that by (auto simp: class_le_def sm fm)
        then show ?thesis using used that by blast
      qed
      moreover have "search_suitable_block c (int fl) (int sl) = (0, int fl, int sl)"
        using i True \<open>sm = 0\<close>
        by (simp add: search_suitable_block_def index_in_range_nat sm_def fm_def Let_def nat_add_distrib)
      ultimately show ?thesis by blast
    next
      case False
      then obtain f where f: "tlsf_ffs fm = int f" "bit fm f" by (rule ffs_lowest_from)
      have fr: "f < 25" "sl_bitmap c ! f \<noteq> 0" "fl < f" using f(2) by (auto simp: fm)
      obtain s where s: "tlsf_ffs (sl_bitmap c ! f) = int s" "bit (sl_bitmap c ! f) s"
        using ffs_lowest_from [OF fr(2)] by blast
      have "s < 32" using s(2) bits by blast
      then show ?thesis
        using head [OF fr(1) _ s(2)] fr i True False s(1) f(1)
        by (intro disjI2 ex2I [of _ f s])
          (simp add: class_le_def search_suitable_block_def index_in_range_nat sm_def fm_def Let_def nat_add_distrib)
    qed
  qed
qed

section \<open>The registered blocks\<close>

text \<open>\<open>F\<close> holds the address and size of every registered block.\<close>

definition files_by_class :: "(nat \<times> nat) set \<Rightarrow> (nat \<Rightarrow> nat \<Rightarrow> nat list) \<Rightarrow> bool" where
  "files_by_class F L \<longleftrightarrow>
     (\<forall>fl < 25. \<forall>sl < 32. set (L fl sl) = {a. \<exists>s. (a, s) \<in> F \<and> mapping_insert (of_nat s) = (int fl, int sl)})"

definition one_size :: "(nat \<times> nat) set \<Rightarrow> bool" where
  "one_size F \<longleftrightarrow> (\<forall>a s s'. (a, s) \<in> F \<longrightarrow> (a, s') \<in> F \<longrightarrow> s = s') \<and> (\<forall>(a, s) \<in> F. s < 2 ^ 32)"

definition free_lists :: "control_t \<Rightarrow> (nat \<times> nat) set \<Rightarrow> bool" where
  "free_lists c F \<longleftrightarrow> one_size F \<and> (\<exists>L. free_lists_ok c L \<and> files_by_class F L)"

lemma class_of_size:
  assumes "s < 2 ^ 32"
  obtains fl sl where "mapping_insert (of_nat s) = (int fl, int sl)" "fl < 25" "sl < 32" "class_contains fl sl s"
proof -
  have "s < 2 ^ 63" using assms by simp
  then obtain fl sl where c: "mapping_insert (of_nat s) = (int fl, int sl)" "class_contains fl sl s"
      "\<forall>m\<ge>8. s < 2 ^ m \<longrightarrow> fl + 7 < m"
    using mapping_insert_class [of s] by blast
  from c(3) [rule_format, of 32] have "fl < 25" using assms by simp
  moreover have "sl < 32" using c(2) by (simp add: class_contains_def)
  ultimately show ?thesis using c that by blast
qed

lemma files_by_classD:
  "files_by_class F L \<Longrightarrow> fl < 25 \<Longrightarrow> sl < 32 \<Longrightarrow>
   a \<in> set (L fl sl) \<longleftrightarrow> (\<exists>s. (a, s) \<in> F \<and> mapping_insert (of_nat s) = (int fl, int sl))"
  by (simp add: files_by_class_def)

lemma listed_registered:
  assumes "one_size F" "files_by_class F L"
  shows "listed L = fst ` F"
proof
  show "listed L \<subseteq> fst ` F" using assms(2) by (force simp: listed_def files_by_classD)
  show "fst ` F \<subseteq> listed L"
  proof
    fix a assume "a \<in> fst ` F"
    then obtain s where s: "(a, s) \<in> F" by auto
    then have "s < 2 ^ 32" using assms(1) by (auto simp: one_size_def)
    then obtain fl sl where "mapping_insert (of_nat s) = (int fl, int sl)" "fl < 25" "sl < 32" by (rule class_of_size)
    moreover from this have "a \<in> set (L fl sl)" using s assms(2) by (auto simp: files_by_classD)
    ultimately show "a \<in> listed L" by (intro in_listed)
  qed
qed

lemma free_lists_apart:
  assumes "free_lists c F"
  shows "block_null c \<notin> fst ` F" "apart (insert (block_null c) (fst ` F))"
  using assms free_lists_okD(7,8) listed_registered unfolding free_lists_def by metis+

lemma free_lists_heap:
  "free_lists c F \<Longrightarrow> same_links (heap c) m (fst ` F) \<Longrightarrow> free_lists (c\<lparr>heap := m\<rparr>) F"
  unfolding free_lists_def using free_lists_ok_heap listed_registered by metis

lemma free_lists_remove:
  assumes F: "free_lists c F" and a: "(a, s) \<in> F" and sz: "block_size (heap c) a = of_nat s"
  shows "free_lists (block_remove c a) (F - {(a, s)})" "block_null (block_remove c a) = block_null c"
    and "heap (block_remove c a) x \<noteq> heap c x \<Longrightarrow>
      \<exists>y \<in> insert (block_null c) (fst ` (F - {(a, s)})). x = y + 16 \<or> x = y + 24"
    and "mapping_insert (of_nat s) = (fl, sl) \<Longrightarrow> block_remove c a = remove_free_block c a fl sl"
proof -
  obtain L where L: "free_lists_ok c L" "files_by_class F L" and one: "one_size F"
    using F by (auto simp: free_lists_def)
  have "s < 2 ^ 32" using one a by (auto simp: one_size_def)
  then obtain fl sl where i: "mapping_insert (of_nat s) = (int fl, int sl)" "fl < 25" "sl < 32" by (rule class_of_size)
  have mem: "a \<in> set (L fl sl)" using a i L(2) by (auto simp: files_by_classD)
  have r: "block_remove c a = remove_free_block c a (int fl) (int sl)" by (simp add: block_remove_def sz i(1))
  show "mapping_insert (of_nat s) = (fl, sl) \<Longrightarrow> block_remove c a = remove_free_block c a fl sl" for fl sl
    by (simp add: block_remove_def sz)
  have names: "fst ` (F - {(a, s)}) = fst ` F - {a}"
    using one a by (auto simp: one_size_def image_iff)
  note rem = free_lists_ok_remove [OF L(1) i(2,3) mem, folded r]
  show "block_null (block_remove c a) = block_null c" by (rule rem(2))
  show "\<exists>y \<in> insert (block_null c) (fst ` (F - {(a, s)})). x = y + 16 \<or> x = y + 24"
    if "heap (block_remove c a) x \<noteq> heap c x"
    using rem(3) [OF that] by (simp add: listed_registered [OF one L(2)] names)
  have "files_by_class (F - {(a, s)}) (class_upd L fl sl (remove1 a (L fl sl)))"
    unfolding files_by_class_def
  proof (intro allI impI set_eqI)
    fix fl' sl' y :: nat assume r: "fl' < 25" "sl' < 32"
    have "distinct (L fl sl)" using free_lists_okD(4) [OF L(1) i(2,3)] by (simp add: class_list_ok_def)
    then have "y \<in> set (class_upd L fl sl (remove1 a (L fl sl)) fl' sl') \<longleftrightarrow> y \<in> set (L fl' sl') \<and> ((fl', sl') = (fl, sl) \<longrightarrow> y \<noteq> a)"
      by auto
    also have "\<dots> \<longleftrightarrow> y \<in> {y. \<exists>t. (y, t) \<in> F - {(a, s)} \<and> mapping_insert (of_nat t) = (int fl', int sl')}"
      using one a i(1) unfolding one_size_def by (auto simp: files_by_classD [OF L(2) r])
    finally show "y \<in> set (class_upd L fl sl (remove1 a (L fl sl)) fl' sl') \<longleftrightarrow>
        y \<in> {y. \<exists>t. (y, t) \<in> F - {(a, s)} \<and> mapping_insert (of_nat t) = (int fl', int sl')}" .
  qed
  moreover have "one_size (F - {(a, s)})" using one by (auto simp: one_size_def)
  ultimately show "free_lists (block_remove c a) (F - {(a, s)})" using rem(1) unfolding free_lists_def by blast
qed

lemma free_lists_insert:
  assumes F: "free_lists c F" and a: "a \<notin> fst ` F" "a \<noteq> block_null c" "s < 2 ^ 32"
    and A: "apart (insert (block_null c) (insert a (fst ` F)))" and sz: "block_size (heap c) a = of_nat s"
  obtains c' where "block_insert c a = Some c'" "free_lists c' (insert (a, s) F)" "block_null c' = block_null c"
    "\<And>x. heap c' x \<noteq> heap c x \<Longrightarrow> \<exists>y \<in> insert (block_null c) (insert a (fst ` F)). x = y + 24 \<or> x = a + 16"
proof -
  obtain L where L: "free_lists_ok c L" "files_by_class F L" and one: "one_size F"
    using F by (auto simp: free_lists_def)
  obtain fl sl where i: "mapping_insert (of_nat s) = (int fl, int sl)" "fl < 25" "sl < 32"
    using class_of_size [OF a(3)] by blast
  have names: "listed L = fst ` F" using listed_registered [OF one L(2)] .
  have r: "block_insert c a = insert_free_block c a (int fl) (int sl)" by (simp add: block_insert_def sz i(1))
  obtain c' where c': "block_insert c a = Some c'" "free_lists_ok c' (class_upd L fl sl (a # L fl sl))"
    "block_null c' = block_null c"
    "\<And>x. heap c' x \<noteq> heap c x \<Longrightarrow> \<exists>y \<in> insert (block_null c) (insert a (listed L)). x = y + 24 \<or> x = a + 16"
    using free_lists_ok_insert [OF L(1) i(2,3), of a] a A unfolding r names by blast
  have "files_by_class (insert (a, s) F) (class_upd L fl sl (a # L fl sl))"
    unfolding files_by_class_def
  proof (intro allI impI set_eqI)
    fix fl' sl' y :: nat assume r: "fl' < 25" "sl' < 32"
    have "y \<in> set (class_upd L fl sl (a # L fl sl) fl' sl') \<longleftrightarrow> y \<in> set (L fl' sl') \<or> ((fl', sl') = (fl, sl) \<and> y = a)"
      by auto
    also have "\<dots> \<longleftrightarrow> y \<in> {y. \<exists>t. (y, t) \<in> insert (a, s) F \<and> mapping_insert (of_nat t) = (int fl', int sl')}"
      using i(1) by (auto simp: files_by_classD [OF L(2) r])
    finally show "y \<in> set (class_upd L fl sl (a # L fl sl) fl' sl') \<longleftrightarrow>
        y \<in> {y. \<exists>t. (y, t) \<in> insert (a, s) F \<and> mapping_insert (of_nat t) = (int fl', int sl')}" .
  qed
  moreover have "one_size (insert (a, s) F)"
    using one a unfolding one_size_def by (auto simp: image_iff)
  ultimately have "free_lists c' (insert (a, s) F)" using c'(2) unfolding free_lists_def by blast
  then show ?thesis using that c' by (simp add: names)
qed

text \<open>The search for a block: whatever it returns is registered and large enough, and it finds nothing only when
  no registered block reaches the first size of the class the request is searched under.\<close>

lemma free_lists_search:
  assumes F: "free_lists c F" and n: "n < 2 ^ 32" "8 dvd n" and ms: "mapping_search (of_nat n) = (int fl, int sl)" and fl: "fl < 25"
  shows "(\<exists>fl' sl'. search_suitable_block c (int fl) (int sl) = (0, fl', sl') \<and> (\<forall>(a, s) \<in> F. s < class_lo fl sl))
    \<or> (\<exists>a s fl' sl'. search_suitable_block c (int fl) (int sl) = (a, fl', sl') \<and> (a, s) \<in> F \<and> n \<le> s
        \<and> mapping_insert (of_nat s) = (fl', sl'))"
proof -
  obtain L where L: "free_lists_ok c L" "files_by_class F L" and one: "one_size F"
    using F by (auto simp: free_lists_def)
  have sl: "sl < 32" and lo: "n \<le> class_lo fl sl" using mapping_search_class [OF n] ms by auto
  from search_suitable_block_ok [OF L(1) fl sl] show ?thesis
  proof (elim disjE exE conjE)
    fix fl' sl'
    assume none: "\<forall>f < 25. \<forall>s < 32. class_le fl sl f s \<longrightarrow> L f s = []"
      and res: "search_suitable_block c (int fl) (int sl) = (0, fl', sl')"
    have "s < class_lo fl sl" if as: "(a, s) \<in> F" for a s
    proof (rule ccontr)
      assume "\<not> s < class_lo fl sl"
      moreover have "s < 2 ^ 32" using one as by (auto simp: one_size_def)
      then obtain f t where i: "mapping_insert (of_nat s) = (int f, int t)" "f < 25" "t < 32" "class_contains f t s"
        by (rule class_of_size)
      ultimately have "class_le fl sl f t" using class_of_larger sl by simp
      then have "L f t = []" using none i by blast
      moreover have "a \<in> set (L f t)" using as i L(2) by (auto simp: files_by_classD)
      ultimately show False by simp
    qed
    then show ?thesis using res by blast
  next
    fix fl' sl'
    assume f: "fl' < 25" "sl' < 32" "class_le fl sl fl' sl'" "L fl' sl' \<noteq> []"
      and res: "search_suitable_block c (int fl) (int sl) = (hd (L fl' sl'), int fl', int sl')"
    then obtain s where s: "(hd (L fl' sl'), s) \<in> F" "mapping_insert (of_nat s) = (int fl', int sl')"
      using files_by_classD [OF L(2) f(1,2), of "hd (L fl' sl')"] by auto
    have "s < 2 ^ 32" using one s(1) by (auto simp: one_size_def)
    then have "class_contains fl' sl' s" using class_of_size [of s] s(2) by (metis of_nat_eq_iff prod.inject)
    then have "n \<le> s" using class_lo_mono [OF f(3) sl] lo by (simp add: class_contains_def)
    then show ?thesis using res s by blast
  qed
qed

end
