(* ===== verification/Tlsf_Headers.thy ===== *)
theory Tlsf_Headers
  imports Tlsf_Shape
begin

text \<open>
  The header operations of the TLSF allocator as updates of cells: for a block whose header is a known word
  and whose right neighbour lies inside the address space, each operation is an explicit update of the memory.
\<close>

section \<open>Reading a header\<close>

lemma block_size_hdr: "m (a + 8) = hdr s f p \<Longrightarrow> 8 dvd s \<Longrightarrow> block_size m a = of_nat s"
  by (simp only: block_size_def hdr_clear(3))

lemma block_is_free_hdr: "m (a + 8) = hdr s f p \<Longrightarrow> 8 dvd s \<Longrightarrow> block_is_free m a \<longleftrightarrow> f"
  by (simp add: block_is_free_def hdr_clear)

lemma block_is_prev_free_hdr: "m (a + 8) = hdr s f p \<Longrightarrow> 8 dvd s \<Longrightarrow> block_is_prev_free m a \<longleftrightarrow> p"
  by (simp add: block_is_prev_free_def hdr_clear)

lemma of_nat_minus_8: "8 \<le> n \<Longrightarrow> (of_nat n - 8 :: u64) = of_nat (n - 8)"
  by (simp add: of_nat_diff)

lemma offset_to_block_plain:
  "8 \<le> n \<Longrightarrow> a + 8 + n < 2 ^ 64 \<Longrightarrow> offset_to_block (block_to_ptr a) (of_nat n - block_header_overhead) = a + 8 + n"
proof -
  assume n: "8 \<le> n" "a + 8 + n < 2 ^ 64"
  then have "unat (of_nat n - block_header_overhead) = n - 8"
    unfolding block_header_overhead_def of_nat_minus_8 [OF n(1)] by (intro unat_sz) linarith
  then show ?thesis using n by (simp add: offset_to_block_def block_to_ptr_def)
qed

lemma block_next_hdr:
  "m (a + 8) = hdr s f p \<Longrightarrow> 8 dvd s \<Longrightarrow> 8 \<le> s \<Longrightarrow> a + 8 + s < 2 ^ 64 \<Longrightarrow> block_next m a = a + 8 + s"
  using offset_to_block_plain [of s a] by (simp add: block_next_def block_size_hdr)

section \<open>Changing a header\<close>

lemma set_flags_hdr:
  assumes "m (a + 8) = hdr s f p"
  shows "block_set_free m a = m(a + 8 := hdr s True p)"
    and "block_set_prev_free m a = m(a + 8 := hdr s f True)"
    and "8 dvd s \<Longrightarrow> block_set_used m a = m(a + 8 := hdr s False p)"
    and "8 dvd s \<Longrightarrow> block_set_prev_used m a = m(a + 8 := hdr s f False)"
  by (simp_all add: block_set_free_def block_set_prev_free_def block_set_used_def block_set_prev_used_def
      assms hdr_flags hdr_clear)

lemma set_size_any: "block_set_size m a (of_nat n) = m(a + 8 := hdr n (bit (m (a + 8)) 0) (bit (m (a + 8)) 1))"
  by (simp add: block_set_size_def Let_def hdr_replace)

lemma set_size_hdr:
  assumes "m (a + 8) = hdr s f p" "8 dvd s"
  shows "block_set_size m a (of_nat n) = m(a + 8 := hdr n f p)"
  using low_bits_clear [OF assms(2)] by (auto simp: set_size_any assms(1) bit_simps)

lemma link_next_hdr:
  assumes "m (a + 8) = hdr s f p" "size_ok s" "a + s + 24 \<le> 2 ^ 64"
  shows "block_link_next m a = (m(a + 8 + s := of_nat a), a + 8 + s)"
  using assms by (simp add: block_link_next_def Let_def block_next_hdr size_ok_def)

lemma mark_as_free_hdr:
  assumes "m (a + 8) = hdr s f p" "size_ok s" "a + s + 24 \<le> 2 ^ 64" "m (a + 8 + s + 8) = hdr t g q"
  shows "block_mark_as_free m a = m(a + 8 + s := of_nat a, a + 8 + s + 8 := hdr t g True, a + 8 := hdr s True p)"
  using assms by (simp add: block_mark_as_free_def Let_def link_next_hdr set_flags_hdr size_ok_def)

lemma mark_as_used_hdr:
  assumes "m (a + 8) = hdr s f p" "size_ok s" "a + s + 24 \<le> 2 ^ 64" "m (a + 8 + s + 8) = hdr t g q" "8 dvd t"
  shows "block_mark_as_used m a = m(a + 8 + s + 8 := hdr t g False, a + 8 := hdr s False p)"
proof -
  have "block_next m a = a + 8 + s" using assms by (simp add: block_next_hdr size_ok_def)
  then show ?thesis
    using assms by (simp add: block_mark_as_used_def Let_def set_flags_hdr size_ok_def)
qed

lemma absorb_hdr:
  assumes "m (a + 8) = hdr s f p" "size_ok s" "m (a + 8 + s + 8) = hdr t g q" "8 dvd t" "a + 8 + s + t + 24 \<le> 2 ^ 64"
  shows "block_absorb m a (a + 8 + s) = (m(a + 8 := hdr (s + 8 + t) f p, a + 8 + s + 8 + t := of_nat a), a)"
proof -
  define m1 where "m1 = m(a + 8 := hdr (s + 8 + t) f p)"
  have "m (a + 8) + (block_size m (a + 8 + s) + block_header_overhead) = hdr (s + 8 + t) f p"
    using assms hdr_add [of s t f p] block_size_hdr [of m "a + 8 + s" t g q] by (simp add: size_ok_def)
  moreover have "block_link_next m1 a = (m1(a + 8 + (s + 8 + t) := of_nat a), a + 8 + (s + 8 + t))"
    using assms by (intro link_next_hdr [of _ _ _ f p]) (auto simp: m1_def size_ok_def)
  ultimately show ?thesis by (simp add: block_absorb_def Let_def m1_def ac_simps)
qed

lemma split_hdr:
  assumes h: "m (a + 8) = hdr s f p" "size_ok s" and n: "size_ok n" "n + 32 \<le> s"
    and e: "a + s + 24 \<le> 2 ^ 64" "m (a + 8 + s + 8) = hdr t g q"
  shows "block_split m a (of_nat n) =
    (m(a + 8 := hdr n f p,
       a + 8 + n + 8 := hdr (s - n - 8) True (bit (m (a + 8 + n + 8)) 1),
       a + 8 + s := of_nat (a + 8 + n),
       a + 8 + s + 8 := hdr t g True), a + 8 + n)"
proof -
  let ?r = "a + 8 + n" and ?k = "s - n - 8" and ?e = "a + 8 + s"
  have r: "offset_to_block (block_to_ptr a) (of_nat n - block_header_overhead) = ?r"
    using assms by (intro offset_to_block_plain) (auto simp: size_ok_def)
  have k: "size_ok ?k" "?r + 8 + ?k = ?e" using n h(2) by (auto simp: size_ok_def)
  have sz: "block_size m a - (of_nat n + block_header_overhead) = of_nat ?k"
    using assms by (simp add: block_size_hdr size_ok_def of_nat_diff)
  define m1 where "m1 = m(?r + 8 := hdr ?k (bit (m (?r + 8)) 0) (bit (m (?r + 8)) 1))"
  define m2 where "m2 = m1(a + 8 := hdr n f p)"
  have s1: "block_set_size m ?r (of_nat ?k) = m1" by (simp only: set_size_any m1_def)
  have s2: "block_set_size m1 a (of_nat n) = m2"
    unfolding m2_def using h n by (intro set_size_hdr) (auto simp: m1_def size_ok_def)
  have free: "block_mark_as_free m2 ?r =
      m2(?r + 8 + ?k := of_nat ?r, ?r + 8 + ?k + 8 := hdr t g True, ?r + 8 := hdr ?k True (bit (m (?r + 8)) 1))"
    using h n e k by (intro mark_as_free_hdr [where q = q]) (auto simp: m2_def m1_def size_ok_def)
  have "block_split m a (of_nat n) =
      (m2(?e := of_nat ?r, ?e + 8 := hdr t g True, ?r + 8 := hdr ?k True (bit (m (?r + 8)) 1)), ?r)"
    by (simp only: block_split_def Let_def r sz s1 s2 free k(2))
  moreover have "m2(?e := of_nat ?r, ?e + 8 := hdr t g True, ?r + 8 := hdr ?k True (bit (m (?r + 8)) 1)) =
      m(a + 8 := hdr n f p, ?r + 8 := hdr ?k True (bit (m (?r + 8)) 1), ?e := of_nat ?r, ?e + 8 := hdr t g True)"
    using n by (auto simp: m2_def m1_def size_ok_def fun_eq_iff)
  ultimately show ?thesis by simp
qed

end
