(* ===== verification/Tlsf_Pool.thy ===== *)
theory Tlsf_Pool
  imports Tlsf_Lists Tlsf_Headers
begin

text \<open>
  One pool of the TLSF allocator with its free lists.  \<open>pool_holds c b bs F\<close> says that the pool at \<open>b\<close> is laid out
  as \<open>bs\<close> and that the lists hold the blocks \<open>F\<close>, some of the free blocks of \<open>bs\<close>.  Every primitive step of the
  allocator, registering, unregistering, marking, splitting and absorbing a block, is a lemma from one such state
  to the next that also says which payloads are untouched.
\<close>

section \<open>States of a pool\<close>

definition registered :: "nat \<Rightarrow> block_list \<Rightarrow> (nat \<times> nat) set" where
  "registered b bs = {(a, s). (a, s, True) \<in> set (located b bs)}"

definition fits :: "control_t \<Rightarrow> nat \<Rightarrow> block_list \<Rightarrow> bool" where
  "fits c b bs \<longleftrightarrow> 8 dvd b \<and> block_null c + 32 \<le> b \<and> b + span bs + 16 \<le> 2 ^ 64 \<and> span bs \<le> 2 ^ 32"

definition pool_holds :: "control_t \<Rightarrow> nat \<Rightarrow> block_list \<Rightarrow> (nat \<times> nat) set \<Rightarrow> bool" where
  "pool_holds c b bs F \<longleftrightarrow>
     laid_out (heap c) b False bs \<and> sizes_ok bs \<and> fits c b bs \<and> free_lists c F \<and> F \<subseteq> registered b bs"

definition preserves :: "memory \<Rightarrow> memory \<Rightarrow> nat set \<Rightarrow> bool" where
  "preserves m m' X \<longleftrightarrow> (\<forall>x \<in> X. m' x = m x)"

lemma preserves_refl [simp]: "preserves m m X"
  by (simp add: preserves_def)

lemma preserves_trans [trans]: "preserves m m' X \<Longrightarrow> preserves m' m'' X \<Longrightarrow> preserves m m'' X"
  by (simp add: preserves_def)

lemma preserves_mono: "preserves m m' X \<Longrightarrow> Y \<subseteq> X \<Longrightarrow> preserves m m' Y"
  by (auto simp: preserves_def)

lemma registered_append: "registered b (xs @ ys) = registered b xs \<union> registered (b + span xs) ys"
  by (auto simp: registered_def)

lemma registered_Cons: "registered b ((s, f) # bs) = (if f then {(b, s)} else {}) \<union> registered (b + 8 + s) bs"
  by (auto simp: registered_def)

lemma registered_Nil [simp]: "registered b [] = {}"
  by (simp add: registered_def)

lemma registered_range: "(a, s) \<in> registered b bs \<Longrightarrow> b \<le> a \<and> a + s + 8 \<le> b + span bs"
  by (auto simp: registered_def dest: located_range)

lemma registered_sizes: "sizes_ok bs \<Longrightarrow> (a, s) \<in> registered b bs \<Longrightarrow> size_ok s"
  by (auto simp: registered_def dest: located_sizes)

text \<open>The blocks of a pool are 32 bytes apart from each other and from \<open>block_null\<close>.\<close>

lemma registered_apart:
  assumes "sizes_ok bs" "fits c b bs"
  shows "apart (insert (block_null c) (fst ` registered b bs))"
proof -
  have "x + 32 \<le> y \<or> y + 32 \<le> x" if "(x, s) \<in> registered b bs" "(y, t) \<in> registered b bs" "x \<noteq> y" for x y s t
  proof -
    have "24 \<le> s" "24 \<le> t" using that registered_sizes [OF assms(1)] by (auto simp: size_ok_def)
    moreover have "x + 8 + s \<le> y \<or> y + 8 + t \<le> x"
      using that located_apart [of x s True b bs y t True] by (auto simp: registered_def)
    ultimately show ?thesis by linarith
  qed
  moreover have "block_null c + 32 \<le> x \<and> x + 32 \<le> 2 ^ 64" if "(x, s) \<in> registered b bs" for x s
  proof -
    have "24 \<le> s" using that registered_sizes [OF assms(1)] by (auto simp: size_ok_def)
    then show ?thesis using registered_range [OF that] assms(2) unfolding fits_def by linarith
  qed
  moreover have "block_null c + 32 \<le> 2 ^ 64" using assms(2) by (simp add: fits_def)
  ultimately show ?thesis unfolding apart_def by fastforce
qed

section \<open>Cells of the layout and cells of the links\<close>

definition layout_cells :: "nat \<Rightarrow> block_list \<Rightarrow> nat set" where
  "layout_cells b bs = insert (b + 8)
     {x. \<exists>a s f. (a, s, f) \<in> set (located b bs) \<and> (x = a + 16 + s \<or> f \<and> x = a + 8 + s)}"

lemma layout_cells_Cons:
  "layout_cells (b + 8 + s) bs \<subseteq> layout_cells b ((s, f) # bs)" "b + 8 \<in> layout_cells b ((s, f) # bs)"
  "f \<Longrightarrow> b + 8 + s \<in> layout_cells b ((s, f) # bs)"
  by (auto simp: layout_cells_def)

lemma laid_out_cells: "preserves m m' (layout_cells b bs) \<Longrightarrow> laid_out m b pf bs \<Longrightarrow> laid_out m' b pf bs"
proof (induction bs arbitrary: b pf)
  case Nil
  then show ?case by (simp add: laid_out_Nil preserves_def layout_cells_def)
next
  case (Cons x bs)
  obtain s f where x: "x = (s, f)" by (cases x)
  have k: "preserves m m' (layout_cells b ((s, f) # bs))" using Cons.prems by (simp add: x)
  have "laid_out m' (b + 8 + s) f bs"
    using Cons.IH [of "b + 8 + s" f] Cons.prems(2) preserves_mono [OF k layout_cells_Cons(1)] by (simp add: x laid_out_Cons)
  then show ?case using Cons.prems(2) k layout_cells_Cons(2,3) by (simp add: x laid_out_Cons preserves_def)
qed

definition links :: "control_t \<Rightarrow> (nat \<times> nat) set \<Rightarrow> nat set" where
  "links c F = {x. \<exists>y \<in> insert (block_null c) (fst ` F). x = y + 16 \<or> x = y + 24}"

lemma links_mono: "F \<subseteq> G \<Longrightarrow> links c F \<subseteq> links c G"
  by (auto simp: links_def)

lemma links_not_layout:
  assumes "sizes_ok bs" "fits c b bs" "x \<in> links c (registered b bs)"
  shows "x \<notin> layout_cells b bs" "x \<notin> payload_cells b bs"
proof -
  obtain y where y: "y = block_null c \<or> y \<in> fst ` registered b bs" and x: "x = y + 16 \<or> x = y + 24"
    using assms(3) by (auto simp: links_def)
  have "x \<notin> layout_cells b bs \<and> x \<notin> payload_cells b bs"
    using y
  proof
    assume "y = block_null c"
    then have "x < b" using assms(2) x by (auto simp: fits_def)
    then show ?thesis
      using payload_range [of x b bs] by (auto simp: layout_cells_def dest: located_range)
  next
    assume "y \<in> fst ` registered b bs"
    then obtain t where t: "(y, t, True) \<in> set (located b bs)" by (auto simp: registered_def)
    have t24: "24 \<le> t" using located_sizes [OF assms(1) t] by (simp add: size_ok_def)
    have "x \<noteq> b + 8" using located_range [OF t] x by auto
    moreover have "x \<noteq> a + 16 + s \<and> x \<noteq> a + 8 + s" if "(a, s, f) \<in> set (located b bs)" for a s f
    proof (cases "(a, s, f) = (y, t, True)")
      case True
      then show ?thesis using t24 x by auto
    next
      case False
      then show ?thesis using located_apart [OF that t] located_sizes [OF assms(1) that] x t24 by (auto simp: size_ok_def)
    qed
    ultimately have "x \<notin> layout_cells b bs" by (auto simp: layout_cells_def)
    moreover have "x \<notin> payload_cells b bs" using payload_not_free [OF t, of x] x t24 by auto
    ultimately show ?thesis by blast
  qed
  then show "x \<notin> layout_cells b bs" "x \<notin> payload_cells b bs" by auto
qed

text \<open>Changing links keeps the layout and every payload.\<close>

lemma links_only:
  assumes P: "laid_out (heap c) b False bs" "sizes_ok bs" "fits c b bs"
    and ch: "\<And>x. m' x \<noteq> heap c x \<Longrightarrow> x \<in> links c (registered b bs)"
  shows "laid_out m' b False bs" "preserves (heap c) m' (payload_cells b bs)"
proof -
  have "preserves (heap c) m' (layout_cells b bs)" "preserves (heap c) m' (payload_cells b bs)"
    unfolding preserves_def using ch links_not_layout [OF P(2,3)] by blast+
  then show "laid_out m' b False bs" "preserves (heap c) m' (payload_cells b bs)"
    using laid_out_cells P(1) by blast+
qed

lemma pool_holdsD:
  assumes "pool_holds c b bs F"
  shows "laid_out (heap c) b False bs" "sizes_ok bs" "fits c b bs" "free_lists c F" "F \<subseteq> registered b bs"
  using assms by (auto simp: pool_holds_def)

lemma pool_header:
  assumes "pool_holds c b (xs @ (s, f) # ys) F"
  shows "heap c (b + span xs + 8) = hdr s f (last_free False xs)" "size_ok s"
    "heap c (b + span xs + 8 + s + 8) = hdr (head_size ys) (head_free ys) f" "8 dvd head_size ys"
    "b + span xs + s + 24 \<le> 2 ^ 64" "s < 2 ^ 32" "8 dvd b + span xs" "f \<Longrightarrow> heap c (b + span xs + 8 + s) = of_nat (b + span xs)"
proof -
  note P = pool_holdsD [OF assms]
  show "heap c (b + span xs + 8) = hdr s f (last_free False xs)"
    "heap c (b + span xs + 8 + s + 8) = hdr (head_size ys) (head_free ys) f"
    "f \<Longrightarrow> heap c (b + span xs + 8 + s) = of_nat (b + span xs)"
    using P(1) by (auto simp: focus)
  show "size_ok s" "8 dvd head_size ys" using P(2) by (auto simp: head_size_dvd)
  show "b + span xs + s + 24 \<le> 2 ^ 64" "s < 2 ^ 32" using P(3) by (auto simp: fits_def)
  have "8 dvd span xs" using P(2) by (induction xs) (auto simp: size_ok_def dvd_add)
  then show "8 dvd b + span xs" using P(3) by (auto simp: fits_def)
qed

section \<open>Registering and unregistering\<close>

lemma unregister_step:
  assumes P: "pool_holds c b bs F" and a: "(a, s) \<in> F"
  shows "pool_holds (block_remove c a) b bs (F - {(a, s)})" "preserves (heap c) (heap (block_remove c a)) (payload_cells b bs)"
    and "heap (block_remove c a) x \<noteq> heap c x \<Longrightarrow> x \<in> links c (F - {(a, s)})"
    and "block_null (block_remove c a) = block_null c"
proof -
  note D = pool_holdsD [OF P]
  have reg: "(a, s, True) \<in> set (located b bs)" using a D(5) by (auto simp: registered_def)
  obtain p where "heap c (a + 8) = hdr s True p" using located_header [OF D(1) reg] by blast
  then have sz: "block_size (heap c) a = of_nat s"
    using located_sizes [OF D(2) reg] by (simp add: block_size_hdr size_ok_def)
  note r = free_lists_remove [OF D(4) a sz]
  show ch: "x \<in> links c (F - {(a, s)})" if "heap (block_remove c a) x \<noteq> heap c x" for x
    using r(3) [OF that] by (simp add: links_def)
  have sub: "links c (F - {(a, s)}) \<subseteq> links c (registered b bs)" using D(5) by (intro links_mono) auto
  note l = links_only [OF D(1-3), of "heap (block_remove c a)"]
  show "preserves (heap c) (heap (block_remove c a)) (payload_cells b bs)" using l(2) ch sub by blast
  show "block_null (block_remove c a) = block_null c" by (rule r(2))
  then have "fits (block_remove c a) b bs" using D(3) by (simp add: fits_def)
  then show "pool_holds (block_remove c a) b bs (F - {(a, s)})"
    using l(1) ch sub D r(1) unfolding pool_holds_def by blast
qed

lemma register_step:
  assumes P: "pool_holds c b bs F" and a: "(a, s, True) \<in> set (located b bs)" "a \<notin> fst ` F"
  obtains c' where "block_insert c a = Some c'" "pool_holds c' b bs (insert (a, s) F)"
    "preserves (heap c) (heap c') (payload_cells b bs)" "block_null c' = block_null c"
proof -
  note D = pool_holdsD [OF P]
  obtain p where "heap c (a + 8) = hdr s True p" using located_header [OF D(1) a(1)] by blast
  then have sz: "block_size (heap c) a = of_nat s"
    using located_sizes [OF D(2) a(1)] by (simp add: block_size_hdr size_ok_def)
  have reg: "(a, s) \<in> registered b bs" using a(1) by (simp add: registered_def)
  have A: "apart (insert (block_null c) (fst ` registered b bs))" using registered_apart [OF D(2,3)] .
  have "a \<noteq> block_null c" using registered_range [OF reg] D(3) by (auto simp: fits_def)
  moreover have "s < 2 ^ 32" using registered_range [OF reg] D(3) by (auto simp: fits_def)
  moreover have "apart (insert (block_null c) (insert a (fst ` F)))"
  proof (rule apart_subset [OF A])
    have "a \<in> fst ` registered b bs" using reg by (metis fst_conv imageI)
    then show "insert (block_null c) (insert a (fst ` F)) \<subseteq> insert (block_null c) (fst ` registered b bs)"
      using image_mono [OF D(5), of fst] by blast
  qed
  ultimately obtain c' where c': "block_insert c a = Some c'" "free_lists c' (insert (a, s) F)" "block_null c' = block_null c"
    "\<And>x. heap c' x \<noteq> heap c x \<Longrightarrow> \<exists>y \<in> insert (block_null c) (insert a (fst ` F)). x = y + 24 \<or> x = a + 16"
    using free_lists_insert [OF D(4) a(2) _ _ _ sz] by metis
  have "x \<in> links c (registered b bs)" if "heap c' x \<noteq> heap c x" for x
  proof -
    have "a \<in> fst ` registered b bs" using reg by (metis fst_conv imageI)
    moreover have "fst ` F \<subseteq> fst ` registered b bs" using D(5) by (rule image_mono)
    ultimately show ?thesis using c'(4) [OF that] unfolding links_def by blast
  qed
  note l = links_only [OF D(1-3), of "heap c'", OF this]
  have "fits c' b bs" using D(3) c'(3) by (simp add: fits_def)
  then have "pool_holds c' b bs (insert (a, s) F)" using l(1) D c'(2) reg unfolding pool_holds_def by blast
  then show ?thesis using that c' l(2) by blast
qed

section \<open>Replacing a run of blocks\<close>

lemma laid_out_middle:
  "laid_out m b pf (xs @ zs @ ys) \<longleftrightarrow>
     laid_front m b pf xs \<and> laid_front m (b + span xs) (last_free pf xs) zs
     \<and> m (b + span xs + span zs + 8) = hdr (head_size ys) (head_free ys) (last_free (last_free pf xs) zs)
     \<and> laid_tail m (b + span xs + span zs) ys"
  by (simp add: laid_out_append) (simp add: laid_out_def)

lemma replace_step:
  assumes P: "pool_holds c b (xs @ ws @ ys) F" and a: "a = b + span xs" and e: "e = a + span ws"
    and un: "fst ` F \<inter> fst ` registered a ws = {}"
    and ch: "\<And>x. m' x \<noteq> heap c x \<Longrightarrow> a + 8 \<le> x \<and> x \<le> e + 8"
    and zs: "sizes_ok zs" "span zs = span ws"
    and laid: "laid_front m' a (last_free False xs) zs"
      "m' (e + 8) = hdr (head_size ys) (head_free ys) (last_free (last_free False xs) zs)"
  shows "pool_holds (c\<lparr>heap := m'\<rparr>) b (xs @ zs @ ys) F \<and> preserves (heap c) m' (payload_cells b xs \<union> payload_cells e ys)"
proof
  note D = pool_holdsD [OF P]
  have sub: "F \<subseteq> registered b xs \<union> registered e ys"
  proof
    fix y assume y: "y \<in> F"
    then have "y \<in> registered b xs \<union> registered a ws \<union> registered e ys"
      using D(5) by (auto simp: registered_append a e ac_simps)
    moreover have "y \<notin> registered a ws" using un y by blast
    ultimately show "y \<in> registered b xs \<union> registered e ys" by blast
  qed
  have xs: "sizes_ok xs" and ys: "sizes_ok ys" using D(2) by auto
  have "same_links (heap c) m' (fst ` F)"
    unfolding same_links_def
  proof
    fix y assume "y \<in> fst ` F"
    then obtain t where t: "(y, t) \<in> registered b xs \<or> (y, t) \<in> registered e ys" using sub by force
    then have "24 \<le> t" using registered_sizes xs ys by (auto simp: size_ok_def)
    then have "y + 24 < a + 8 \<or> e + 8 < y + 16" using t by (auto dest!: registered_range simp: a)
    then have "\<not> (a + 8 \<le> y + 16 \<and> y + 16 \<le> e + 8)" "\<not> (a + 8 \<le> y + 24 \<and> y + 24 \<le> e + 8)" by linarith+
    then show "m' (y + 16) = heap c (y + 16) \<and> m' (y + 24) = heap c (y + 24)" using ch by blast
  qed
  then have fl: "free_lists (c\<lparr>heap := m'\<rparr>) F" using D(4) by (rule free_lists_heap [rotated])
  have "laid_out m' b False (xs @ zs @ ys)"
  proof -
    have "laid_front m' b False xs = laid_front (heap c) b False xs"
      using ch by (intro laid_front_cong [OF xs]) (force simp: a)
    moreover have "laid_tail m' e ys = laid_tail (heap c) e ys"
      using ch by (intro laid_tail_cong [OF ys]) force
    ultimately show ?thesis using D(1) laid zs(2) by (simp add: laid_out_middle a e)
  qed
  moreover have "fits (c\<lparr>heap := m'\<rparr>) b (xs @ zs @ ys)" using D(3) zs(2) by (simp add: fits_def)
  moreover have "F \<subseteq> registered b (xs @ zs @ ys)" using sub zs(2) by (auto simp: registered_append a e ac_simps)
  ultimately show "pool_holds (c\<lparr>heap := m'\<rparr>) b (xs @ zs @ ys) F" using fl xs ys zs(1) by (simp add: pool_holds_def)
  show "preserves (heap c) m' (payload_cells b xs \<union> payload_cells e ys)"
    unfolding preserves_def
  proof
    fix x assume "x \<in> payload_cells b xs \<union> payload_cells e ys"
    then have "x < a + 8 \<or> e + 8 < x" by (auto dest: payload_range simp: a)
    then show "m' x = heap c x" using ch [of x] by (cases "m' x = heap c x") auto
  qed
qed

section \<open>Marking\<close>

lemma mark_free_step:
  assumes P: "pool_holds c b (xs @ (s, False) # ys) F" and a: "a = b + span xs"
  shows "pool_holds (c\<lparr>heap := block_mark_as_free (heap c) a\<rparr>) b (xs @ (s, True) # ys) F"
    and "preserves (heap c) (block_mark_as_free (heap c) a) (payload_cells b xs \<union> payload_cells (a + 8 + s) ys)"
proof -
  note h = pool_header [OF P, folded a]
  have m': "block_mark_as_free (heap c) a = (heap c)(a + 8 + s := of_nat a,
      a + 8 + s + 8 := hdr (head_size ys) (head_free ys) True, a + 8 := hdr s True (last_free False xs))"
    using h by (intro mark_as_free_hdr) auto
  have un: "fst ` F \<inter> fst ` registered a [(s, False)] = {}" by (simp add: registered_Cons)
  have P': "pool_holds c b (xs @ [(s, False)] @ ys) F" using P by simp
  have "pool_holds (c\<lparr>heap := block_mark_as_free (heap c) a\<rparr>) b (xs @ [(s, True)] @ ys) F
      \<and> preserves (heap c) (block_mark_as_free (heap c) a) (payload_cells b xs \<union> payload_cells (a + 8 + s) ys)"
    by (rule replace_step [OF P' a _ un, where zs = "[(s, True)]"])
      (use h(2) in \<open>auto simp: m' size_ok_def split: if_splits\<close>)
  then show "pool_holds (c\<lparr>heap := block_mark_as_free (heap c) a\<rparr>) b (xs @ (s, True) # ys) F"
    "preserves (heap c) (block_mark_as_free (heap c) a) (payload_cells b xs \<union> payload_cells (a + 8 + s) ys)" by simp_all
qed

lemma mark_used_step:
  assumes P: "pool_holds c b (xs @ (s, f) # ys) F" and a: "a = b + span xs" and un: "a \<notin> fst ` F"
  shows "pool_holds (c\<lparr>heap := block_mark_as_used (heap c) a\<rparr>) b (xs @ (s, False) # ys) F"
    and "preserves (heap c) (block_mark_as_used (heap c) a) (payload_cells b xs \<union> payload_cells (a + 8 + s) ys)"
    and "preserves (heap c) (block_mark_as_used (heap c) a) {a + 16..<a + 16 + s}"
proof -
  note h = pool_header [OF P, folded a]
  have m': "block_mark_as_used (heap c) a = (heap c)(
      a + 8 + s + 8 := hdr (head_size ys) (head_free ys) False, a + 8 := hdr s False (last_free False xs))"
    using h by (intro mark_as_used_hdr) auto
  have un': "fst ` F \<inter> fst ` registered a [(s, f)] = {}" using un by (auto simp: registered_Cons)
  have P': "pool_holds c b (xs @ [(s, f)] @ ys) F" using P by simp
  have "pool_holds (c\<lparr>heap := block_mark_as_used (heap c) a\<rparr>) b (xs @ [(s, False)] @ ys) F
      \<and> preserves (heap c) (block_mark_as_used (heap c) a) (payload_cells b xs \<union> payload_cells (a + 8 + s) ys)"
    by (rule replace_step [OF P' a _ un', where zs = "[(s, False)]"])
      (use h(2) in \<open>auto simp: m' size_ok_def split: if_splits\<close>)
  then show "pool_holds (c\<lparr>heap := block_mark_as_used (heap c) a\<rparr>) b (xs @ (s, False) # ys) F"
    "preserves (heap c) (block_mark_as_used (heap c) a) (payload_cells b xs \<union> payload_cells (a + 8 + s) ys)" by simp_all
  show "preserves (heap c) (block_mark_as_used (heap c) a) {a + 16..<a + 16 + s}" by (auto simp: preserves_def m')
qed

section \<open>Absorbing\<close>

lemma absorb_cells:
  assumes P: "pool_holds c b (xs @ (s, f) # (t, g) # ys) F" and a: "a = b + span xs"
  shows "block_absorb (heap c) a (a + 8 + s) =
    ((heap c)(a + 8 := hdr (s + 8 + t) f (last_free False xs), a + 8 + s + 8 + t := of_nat a), a)"
proof -
  note h = pool_header [OF P, folded a]
  have P2: "pool_holds c b ((xs @ [(s, f)]) @ (t, g) # ys) F" using P by simp
  note h2 = pool_header [OF P2]
  show ?thesis
    using h h2 by (intro absorb_hdr [where q = f and g = g]) (auto simp: a size_ok_def ac_simps)
qed

lemma absorb_step:
  assumes P: "pool_holds c b (xs @ (s, True) # (t, True) # ys) F" and a: "a = b + span xs"
    and un: "a \<notin> fst ` F" "a + 8 + s \<notin> fst ` F"
  shows "pool_holds (c\<lparr>heap := fst (block_absorb (heap c) a (a + 8 + s))\<rparr>) b (xs @ (s + 8 + t, True) # ys) F"
    and "preserves (heap c) (fst (block_absorb (heap c) a (a + 8 + s))) (payload_cells b xs \<union> payload_cells (a + 8 + (s + 8 + t)) ys)"
    and "snd (block_absorb (heap c) a (a + 8 + s)) = a"
proof -
  define m' where "m' = (heap c)(a + 8 := hdr (s + 8 + t) True (last_free False xs), a + 8 + s + 8 + t := of_nat a)"
  have ab: "block_absorb (heap c) a (a + 8 + s) = (m', a)" using absorb_cells [OF P a] by (simp add: m'_def)
  have so: "size_ok s" "size_ok t" using pool_holdsD(2) [OF P] by auto
  have P2: "pool_holds c b ((xs @ [(s, True)]) @ (t, True) # ys) F" using P by simp
  have hn: "heap c (a + 8 + s + 8 + t + 8) = hdr (head_size ys) (head_free ys) True"
    using pool_header(3) [OF P2] by (simp add: a ac_simps)
  have un': "fst ` F \<inter> fst ` registered a [(s, True), (t, True)] = {}" using un by (auto simp: registered_Cons)
  have P': "pool_holds c b (xs @ [(s, True), (t, True)] @ ys) F" using P by simp
  have "pool_holds (c\<lparr>heap := m'\<rparr>) b (xs @ [(s + 8 + t, True)] @ ys) F
      \<and> preserves (heap c) m' (payload_cells b xs \<union> payload_cells (a + 8 + (s + 8 + t)) ys)"
    by (rule replace_step [OF P' a _ un', where zs = "[(s + 8 + t, True)]"])
      (use hn so in \<open>auto simp: m'_def size_ok_def ac_simps split: if_splits\<close>)
  then show "pool_holds (c\<lparr>heap := fst (block_absorb (heap c) a (a + 8 + s))\<rparr>) b (xs @ (s + 8 + t, True) # ys) F"
    "preserves (heap c) (fst (block_absorb (heap c) a (a + 8 + s))) (payload_cells b xs \<union> payload_cells (a + 8 + (s + 8 + t)) ys)"
    by (simp_all add: ab)
  show "snd (block_absorb (heap c) a (a + 8 + s)) = a" by (simp add: ab)
qed

text \<open>A used block that absorbs its free neighbour is marked used again.\<close>

lemma absorb_used_step:
  fixes c m'
  assumes P: "pool_holds c b (xs @ (s, False) # (t, True) # ys) F" and a: "a = b + span xs"
    and un: "a + 8 + s \<notin> fst ` F"
  defines "m' \<equiv> block_mark_as_used (fst (block_absorb (heap c) a (a + 8 + s))) a"
  shows "pool_holds (c\<lparr>heap := m'\<rparr>) b (xs @ (s + 8 + t, False) # ys) F"
    and "preserves (heap c) m' (payload_cells b xs \<union> payload_cells (a + 8 + (s + 8 + t)) ys)"
    and "preserves (heap c) m' {a + 16..<a + 16 + s}"
proof -
  note ab = absorb_cells [OF P a]
  have so: "size_ok s" "size_ok t" using pool_holdsD(2) [OF P] by auto
  have P2: "pool_holds c b ((xs @ [(s, False)]) @ (t, True) # ys) F" using P by simp
  note h = pool_header [OF P2]
  define m where "m = fst (block_absorb (heap c) a (a + 8 + s))"
  have m: "m = (heap c)(a + 8 := hdr (s + 8 + t) False (last_free False xs), a + 8 + s + 8 + t := of_nat a)"
    by (simp add: m_def ab)
  have "block_mark_as_used m a = m(a + 8 + (s + 8 + t) + 8 := hdr (head_size ys) (head_free ys) False,
      a + 8 := hdr (s + 8 + t) False (last_free False xs))"
    using h so by (intro mark_as_used_hdr [where f = False and q = True]) (auto simp: m a size_ok_def ac_simps)
  then have m': "m' = (heap c)(a + 8 := hdr (s + 8 + t) False (last_free False xs), a + 8 + s + 8 + t := of_nat a,
      a + 8 + s + 8 + t + 8 := hdr (head_size ys) (head_free ys) False)"
    by (auto simp: m'_def m_def [symmetric] m fun_eq_iff)
  have un': "fst ` F \<inter> fst ` registered a [(s, False), (t, True)] = {}" using un by (auto simp: registered_Cons)
  have P': "pool_holds c b (xs @ [(s, False), (t, True)] @ ys) F" using P by simp
  have "pool_holds (c\<lparr>heap := m'\<rparr>) b (xs @ [(s + 8 + t, False)] @ ys) F
      \<and> preserves (heap c) m' (payload_cells b xs \<union> payload_cells (a + 8 + (s + 8 + t)) ys)"
    by (rule replace_step [OF P' a _ un', where zs = "[(s + 8 + t, False)]"])
      (use so in \<open>auto simp: m' size_ok_def ac_simps split: if_splits\<close>)
  then show "pool_holds (c\<lparr>heap := m'\<rparr>) b (xs @ (s + 8 + t, False) # ys) F"
    "preserves (heap c) m' (payload_cells b xs \<union> payload_cells (a + 8 + (s + 8 + t)) ys)" by simp_all
  show "preserves (heap c) m' {a + 16..<a + 16 + s}" using so by (auto simp: preserves_def m' size_ok_def)
qed

section \<open>Splitting\<close>

lemma split_cells:
  assumes P: "pool_holds c b (xs @ (s, f) # ys) F" and a: "a = b + span xs" and n: "size_ok n" "n + 32 \<le> s"
  obtains g where "block_split (heap c) a (of_nat n) =
    ((heap c)(a + 8 := hdr n f (last_free False xs), a + 8 + n + 8 := hdr (s - n - 8) True g,
       a + 8 + s := of_nat (a + 8 + n), a + 8 + s + 8 := hdr (head_size ys) (head_free ys) True), a + 8 + n)"
  using split_hdr [of "heap c" a s f "last_free False xs" n] pool_header [OF P, folded a] n by blast

lemma split_sizes:
  assumes "size_ok s" "size_ok n" "n + 32 \<le> s"
  shows "size_ok (s - n - 8)" "n + 8 + (s - n - 8) = s"
  using assms by (auto simp: size_ok_def dvd_diff_nat)

text \<open>The memory of \<open>block_trim_free\<close>, \<open>block_trim_free_leading\<close> and \<open>block_trim_used\<close> after the split.\<close>

lemma split_free_step:
  assumes P: "pool_holds c b (xs @ (s, True) # ys) F" and a: "a = b + span xs" and n: "size_ok n" "n + 32 \<le> s"
    and un: "a \<notin> fst ` F"
  obtains m r where "block_split (heap c) a (of_nat n) = (m, r)" "r = a + 8 + n"
    "block_set_prev_free (fst (block_link_next m a)) r = fst (block_link_next (block_set_prev_free m r) a)"
    "pool_holds (c\<lparr>heap := block_set_prev_free (fst (block_link_next m a)) r\<rparr>) b (xs @ (n, True) # (s - n - 8, True) # ys) F"
    "preserves (heap c) (block_set_prev_free (fst (block_link_next m a)) r) (payload_cells b xs \<union> payload_cells (a + 8 + s) ys)"
proof -
  let ?r = "a + 8 + n" and ?k = "s - n - 8"
  note h = pool_header [OF P, folded a]
  note k = split_sizes [OF h(2) n]
  obtain g where sp: "block_split (heap c) a (of_nat n) =
    ((heap c)(a + 8 := hdr n True (last_free False xs), ?r + 8 := hdr ?k True g,
       a + 8 + s := of_nat ?r, a + 8 + s + 8 := hdr (head_size ys) (head_free ys) True), ?r)"
    using split_cells [OF P a n] by blast
  define m where "m = (heap c)(a + 8 := hdr n True (last_free False xs), ?r + 8 := hdr ?k True g,
       a + 8 + s := of_nat ?r, a + 8 + s + 8 := hdr (head_size ys) (head_free ys) True)"
  define m' where "m' = m(?r := of_nat a, ?r + 8 := hdr ?k True True)"
  have n24: "24 \<le> n" using n by (simp add: size_ok_def)
  have link: "block_link_next m a = (m(?r := of_nat a), ?r)"
    using h n by (intro link_next_hdr) (auto simp: m_def size_ok_def)
  have one: "block_set_prev_free (m(?r := of_nat a)) ?r = m'"
    unfolding m'_def using n n24 by (intro set_flags_hdr(2)) (auto simp: m_def)
  have two: "block_set_prev_free m ?r = m(?r + 8 := hdr ?k True True)"
    using n n24 by (intro set_flags_hdr(2)) (auto simp: m_def)
  have "block_link_next (m(?r + 8 := hdr ?k True True)) a = (m(?r + 8 := hdr ?k True True, ?r := of_nat a), ?r)"
    using h n by (intro link_next_hdr) (auto simp: m_def size_ok_def)
  then have order: "fst (block_link_next (block_set_prev_free m ?r) a) = m'"
    by (simp add: two m'_def fun_upd_twist)
  have un': "fst ` F \<inter> fst ` registered a [(s, True)] = {}" using un by (auto simp: registered_Cons)
  have P': "pool_holds c b (xs @ [(s, True)] @ ys) F" using P by simp
  have "pool_holds (c\<lparr>heap := m'\<rparr>) b (xs @ [(n, True), (?k, True)] @ ys) F
      \<and> preserves (heap c) m' (payload_cells b xs \<union> payload_cells (a + 8 + s) ys)"
  proof (rule replace_step [OF P' a _ un'])
    show "a + 8 \<le> x \<and> x \<le> a + 8 + s + 8" if "m' x \<noteq> heap c x" for x
      using that k n by (auto simp: m'_def m_def size_ok_def split: if_splits)
    show "sizes_ok [(n, True), (?k, True)]" using k n by simp
    show "span [(n, True), (?k, True)] = span [(s, True)]" using k by simp
    show "laid_front m' a (last_free False xs) [(n, True), (?k, True)]"
      using n n24 k(2) by (auto simp: m'_def m_def ac_simps)
    show "m' (a + 8 + s + 8) = hdr (head_size ys) (head_free ys) (last_free (last_free False xs) [(n, True), (?k, True)])"
      using n n24 by (simp add: m'_def m_def)
  qed simp
  then have res: "pool_holds (c\<lparr>heap := m'\<rparr>) b (xs @ (n, True) # (?k, True) # ys) F"
    "preserves (heap c) m' (payload_cells b xs \<union> payload_cells (a + 8 + s) ys)" by simp_all
  have final: "block_set_prev_free (fst (block_link_next m a)) ?r = m'" by (simp only: link one fst_conv)
  show ?thesis
  proof (rule that)
    show "block_split (heap c) a (of_nat n) = (m, ?r)" by (simp only: sp m_def)
    show "block_set_prev_free (fst (block_link_next m a)) ?r = fst (block_link_next (block_set_prev_free m ?r) a)"
      by (simp only: final order)
  qed (use res in \<open>simp_all only: final\<close>)
qed

lemma split_used_step:
  assumes P: "pool_holds c b (xs @ (s, False) # ys) F" and a: "a = b + span xs" and n: "size_ok n" "n + 32 \<le> s"
  obtains m r where "block_split (heap c) a (of_nat n) = (m, r)" "r = a + 8 + n"
    "pool_holds (c\<lparr>heap := block_set_prev_used m r\<rparr>) b (xs @ (n, False) # (s - n - 8, True) # ys) F"
    "preserves (heap c) (block_set_prev_used m r) (payload_cells b xs \<union> payload_cells (a + 8 + s) ys)"
    "preserves (heap c) (block_set_prev_used m r) {a + 16..<a + 16 + n}"
proof -
  let ?r = "a + 8 + n" and ?k = "s - n - 8"
  note h = pool_header [OF P, folded a]
  note k = split_sizes [OF h(2) n]
  obtain g where sp: "block_split (heap c) a (of_nat n) =
    ((heap c)(a + 8 := hdr n False (last_free False xs), ?r + 8 := hdr ?k True g,
       a + 8 + s := of_nat ?r, a + 8 + s + 8 := hdr (head_size ys) (head_free ys) True), ?r)"
    using split_cells [OF P a n] by blast
  define m where "m = (heap c)(a + 8 := hdr n False (last_free False xs), ?r + 8 := hdr ?k True g,
       a + 8 + s := of_nat ?r, a + 8 + s + 8 := hdr (head_size ys) (head_free ys) True)"
  define m' where "m' = m(?r + 8 := hdr ?k True False)"
  have n24: "24 \<le> n" using n by (simp add: size_ok_def)
  have set: "block_set_prev_used m ?r = m'"
    unfolding m'_def using n n24 k(1) by (intro set_flags_hdr(4)) (auto simp: m_def size_ok_def)
  have un': "fst ` F \<inter> fst ` registered a [(s, False)] = {}" by (simp add: registered_Cons)
  have P': "pool_holds c b (xs @ [(s, False)] @ ys) F" using P by simp
  have "pool_holds (c\<lparr>heap := m'\<rparr>) b (xs @ [(n, False), (?k, True)] @ ys) F
      \<and> preserves (heap c) m' (payload_cells b xs \<union> payload_cells (a + 8 + s) ys)"
  proof (rule replace_step [OF P' a _ un'])
    show "a + 8 \<le> x \<and> x \<le> a + 8 + s + 8" if "m' x \<noteq> heap c x" for x
      using that k n by (auto simp: m'_def m_def size_ok_def split: if_splits)
    show "sizes_ok [(n, False), (?k, True)]" using k n by simp
    show "span [(n, False), (?k, True)] = span [(s, False)]" using k by simp
    show "laid_front m' a (last_free False xs) [(n, False), (?k, True)]"
      using n n24 k(2) by (auto simp: m'_def m_def ac_simps)
    show "m' (a + 8 + s + 8) = hdr (head_size ys) (head_free ys) (last_free (last_free False xs) [(n, False), (?k, True)])"
      using n n24 by (simp add: m'_def m_def)
  qed simp
  then have res: "pool_holds (c\<lparr>heap := m'\<rparr>) b (xs @ (n, False) # (?k, True) # ys) F"
    "preserves (heap c) m' (payload_cells b xs \<union> payload_cells (a + 8 + s) ys)" by simp_all
  have own: "preserves (heap c) m' {a + 16..<a + 16 + n}" using n by (auto simp: preserves_def m'_def m_def)
  show ?thesis
  proof (rule that)
    show "block_split (heap c) a (of_nat n) = (m, ?r)" by (simp only: sp m_def)
  qed (use res own in \<open>simp_all only: set\<close>)
qed

end
