(* ===== verification/Tlsf_Correct.thy ===== *)
theory Tlsf_Correct
  imports Tlsf_Alloc Tlsf_Pool
begin

text \<open>
  The invariant of the TLSF allocator and the effect of allocation and release.

  \<open>tlsf_ok c b bs\<close>: the pool at \<open>b\<close> is laid out as \<open>bs\<close>, no two neighbouring blocks are free, and the
  free lists hold exactly the free blocks.  \<open>allocs b bs\<close> is what the client sees of it: the map from the
  pointers handed out to the sizes of their blocks.
\<close>

section \<open>The invariant\<close>

fun coalesced :: "bool \<Rightarrow> block_list \<Rightarrow> bool" where
  "coalesced pf [] = True"
| "coalesced pf ((s, f) # bs) = (\<not> (pf \<and> f) \<and> coalesced f bs)"

lemma coalesced_append: "coalesced pf (xs @ ys) \<longleftrightarrow> coalesced pf xs \<and> coalesced (last_free pf xs) ys"
  by (induction xs arbitrary: pf) auto

lemma coalesced_head: "coalesced pf ys \<longleftrightarrow> \<not> (pf \<and> head_free ys) \<and> coalesced False ys"
  by (cases ys) auto

definition tlsf_ok :: "control_t \<Rightarrow> nat \<Rightarrow> block_list \<Rightarrow> bool" where
  "tlsf_ok c b bs \<longleftrightarrow> pool_holds c b bs (registered b bs) \<and> coalesced False bs"

definition allocs :: "nat \<Rightarrow> block_list \<Rightarrow> nat \<rightharpoonup> nat" where
  "allocs b bs = map_of (map (\<lambda>(a, s, f). (a + 16, s)) (filter (\<lambda>(a, s, f). \<not> f) (located b bs)))"

lemma allocs_iff: "allocs b bs p = Some n \<longleftrightarrow> (\<exists>a. p = a + 16 \<and> (a, n, False) \<in> set (located b bs))"
proof (induction bs arbitrary: b)
  case (Cons x bs)
  obtain s f where x: "x = (s, f)" by (cases x)
  have low: "b + 8 + s \<le> a" if "(a, n, g) \<in> set (located (b + 8 + s) bs)" for a n g
    using located_range [OF that] by simp
  show ?case
  proof (cases "\<not> f \<and> p = b + 16")
    case True
    then have "allocs b (x # bs) p = Some s" by (simp add: allocs_def x)
    then show ?thesis using True low by (fastforce simp: x)
  next
    case False
    then have "allocs b (x # bs) p = allocs (b + 8 + s) bs p" by (auto simp: allocs_def x)
    then show ?thesis using False Cons.IH [of "b + 8 + s"] by (auto simp: x)
  qed
qed (simp add: allocs_def)

lemma allocs_append: "allocs b (xs @ ys) = allocs (b + span xs) ys ++ allocs b xs"
  by (simp add: allocs_def)

lemma allocs_Cons: "allocs b ((s, f) # bs) = (if f then allocs (b + 8 + s) bs else (allocs (b + 8 + s) bs)(b + 16 \<mapsto> s))"
  by (auto simp: allocs_def)

lemma allocs_Nil [simp]: "allocs b [] = Map.empty"
  by (simp add: allocs_def)

lemma allocs_range: "allocs b bs p = Some n \<Longrightarrow> b + 16 \<le> p \<and> p + n \<le> b + span bs + 8"
  by (auto simp: allocs_iff dest: located_range)

lemma allocs_outside: "p < b + 16 \<or> b + span bs + 8 < p \<Longrightarrow> allocs b bs p = None"
  using allocs_range [of b bs p] by (cases "allocs b bs p") auto

text \<open>Turning one block used or free adds or removes one pointer.\<close>

lemma allocs_used: "allocs b (xs @ (s, False) # ys) = (allocs b (xs @ (s, True) # ys))(b + span xs + 16 \<mapsto> s)"
proof -
  have "allocs b xs (b + span xs + 16) = None" by (rule allocs_outside) simp
  then show ?thesis by (auto simp: allocs_append allocs_Cons map_add_def fun_eq_iff split: option.splits)
qed

lemma allocs_freed: "allocs b (xs @ (s, True) # ys) = (allocs b (xs @ (s, False) # ys))(b + span xs + 16 := None)"
proof -
  have "allocs b xs (b + span xs + 16) = None" "allocs (b + span xs + 8 + s) ys (b + span xs + 16) = None"
    by (rule allocs_outside; simp)+
  then show ?thesis by (auto simp: allocs_append allocs_Cons map_add_def fun_eq_iff split: option.splits)
qed

text \<open>Splitting or joining free blocks changes nothing for the client.\<close>

lemma allocs_free_run:
  "span zs = span ws \<Longrightarrow> \<forall>(s, f) \<in> set zs. f \<Longrightarrow> \<forall>(s, f) \<in> set ws. f \<Longrightarrow> allocs b (xs @ zs @ ys) = allocs b (xs @ ws @ ys)"
proof -
  have free: "allocs a us = Map.empty" if "\<forall>(s, f) \<in> set us. f" for a and us :: block_list
    using that by (induction us arbitrary: a) (auto simp: allocs_Cons)
  assume "span zs = span ws" "\<forall>(s, f) \<in> set zs. f" "\<forall>(s, f) \<in> set ws. f"
  then show ?thesis by (simp add: allocs_append free)
qed

lemma payload_of_allocs:
  "payload_cells b bs = {x. \<exists>p n. allocs b bs p = Some n \<and> p \<le> x \<and> x < p + n}"
  unfolding payload_cells_def allocs_iff by blast

lemma tlsf_okD:
  assumes "tlsf_ok c b bs"
  shows "pool_holds c b bs (registered b bs)" "coalesced False bs" "sizes_ok bs" "fits c b bs"
  using assms pool_holdsD(2,3) by (auto simp: tlsf_ok_def)

text \<open>The client's view: blocks are aligned, inside the pool and disjoint.\<close>

lemma allocs_sound:
  assumes "tlsf_ok c b bs" "allocs b bs p = Some n"
  shows "8 dvd p" "24 \<le> n" "b + 16 \<le> p" "p + n \<le> b + span bs + 8"
    and "allocs b bs q = Some k \<Longrightarrow> p \<noteq> q \<Longrightarrow> p + n + 8 \<le> q \<or> q + k + 8 \<le> p"
    and "tlsf_block_size (heap c) p = of_nat n"
proof -
  note D = tlsf_okD [OF assms(1)]
  obtain a where a: "p = a + 16" "(a, n, False) \<in> set (located b bs)" using assms(2) by (auto simp: allocs_iff)
  obtain xs ys where bs: "bs = xs @ (n, False) # ys" "a = b + span xs" using located_split [OF a(2)] .
  note h = pool_header [OF D(1) [unfolded bs(1)]]
  show "8 dvd p" using h(7) a(1) bs(2) by (simp add: dvd_add)
  show "24 \<le> n" using located_sizes [OF D(3) a(2)] by (simp add: size_ok_def)
  show "b + 16 \<le> p" "p + n \<le> b + span bs + 8" using located_range [OF a(2)] a(1) by auto
  show "allocs b bs q = Some k \<Longrightarrow> p \<noteq> q \<Longrightarrow> p + n + 8 \<le> q \<or> q + k + 8 \<le> p"
    using located_apart [OF a(2)] a(1) by (fastforce simp: allocs_iff)
  show "tlsf_block_size (heap c) p = of_nat n"
    using h(1,2) a(1) bs(2) by (simp add: tlsf_block_size_def block_from_ptr_def block_size_hdr size_ok_def)
qed

section \<open>Blocks outside the lists\<close>

definition others :: "nat \<Rightarrow> block_list \<Rightarrow> nat \<Rightarrow> block_list \<Rightarrow> (nat \<times> nat) set" where
  "others b xs e ys = registered b xs \<union> registered e ys"

definition other_payloads :: "nat \<Rightarrow> block_list \<Rightarrow> nat \<Rightarrow> block_list \<Rightarrow> nat set" where
  "other_payloads b xs e ys = payload_cells b xs \<union> payload_cells e ys"

lemma registered_focus:
  "registered b (xs @ (s, f) # ys) = (if f then {(b + span xs, s)} else {}) \<union> others b xs (b + span xs + 8 + s) ys"
  by (auto simp: registered_append registered_Cons others_def)

lemma others_names: "y \<in> fst ` others b xs e ys \<Longrightarrow> y < b + span xs \<or> e \<le> y"
  by (auto simp: others_def dest!: registered_range)

lemma unlisted_others:
  assumes "pool_holds c b (xs @ ws @ ys) F" "fst ` F \<inter> fst ` registered (b + span xs) ws = {}"
  shows "F \<subseteq> others b xs (b + span xs + span ws) ys"
proof
  fix y assume y: "y \<in> F"
  then have "y \<in> registered b xs \<union> registered (b + span xs) ws \<union> registered (b + span xs + span ws) ys"
    using pool_holdsD(5) [OF assms(1)] by (auto simp: registered_append ac_simps)
  moreover have "y \<notin> registered (b + span xs) ws" using assms(2) y by blast
  ultimately show "y \<in> others b xs (b + span xs + span ws) ys" by (auto simp: others_def)
qed

lemma can_split_iff:
  assumes "heap c (a + 8) = hdr s f p" "size_ok s" "s < 2 ^ 32" "n \<le> 2 ^ 32"
  shows "block_can_split (heap c) a (of_nat n) \<longleftrightarrow> n + 32 \<le> s"
proof -
  have "unat (block_header_bytes + of_nat n) = n + 32"
  proof -
    have "block_header_bytes + of_nat n = of_nat (n + 32)" by simp
    then show ?thesis using assms(4) unat_sz [of "n + 32"] by (simp del: of_nat_add)
  qed
  moreover have "block_size (heap c) a = of_nat s" using assms(1,2) by (simp add: block_size_hdr size_ok_def)
  ultimately show ?thesis using assms(3) by (simp add: block_can_split_def word_le_nat_alt unat_sz)
qed

text \<open>What trimming a block of size \<open>s\<close> to \<open>n\<close> leaves: the block and the piece cut off, if it is large enough.\<close>

definition trimmed :: "nat \<Rightarrow> nat \<Rightarrow> nat \<times> block_list" where
  "trimmed s n = (if n + 32 \<le> s then (n, [(s - n - 8, True)]) else (s, []))"

lemma trimmed_facts:
  assumes "size_ok s" "size_ok n" "n \<le> s"
  shows "n \<le> fst (trimmed s n)" "fst (trimmed s n) \<le> s" "fst (trimmed s n) + 8 + span (snd (trimmed s n)) = s + 8" "size_ok (fst (trimmed s n))"
    "sizes_ok (snd (trimmed s n))" "\<forall>(t, f) \<in> set (snd (trimmed s n)). f"
  using assms split_sizes [of s n] by (auto simp: trimmed_def)

lemma trim_free_ok:
  assumes P: "pool_holds c b (xs @ (s, True) # ys) F" and a: "a = b + span xs" and n: "size_ok n" "n \<le> s" and un: "a \<notin> fst ` F"
  obtains c' where "block_trim_free c a (of_nat n) = Some c'"
    "pool_holds c' b (xs @ (fst (trimmed s n), True) # snd (trimmed s n) @ ys) (F \<union> registered (a + 8 + fst (trimmed s n)) (snd (trimmed s n)))"
    "preserves (heap c) (heap c') (other_payloads b xs (a + 8 + s) ys)" "block_null c' = block_null c"
proof -
  note h = pool_header [OF P, folded a]
  have can: "block_can_split (heap c) a (of_nat n) \<longleftrightarrow> n + 32 \<le> s"
    using h n by (intro can_split_iff) auto
  show ?thesis
  proof (cases "n + 32 \<le> s")
    case False
    then show ?thesis using that [of c] P can by (simp add: block_trim_free_def trimmed_def)
  next
    case True
    let ?r = "a + 8 + n" and ?k = "s - n - 8"
    have k: "?k + (8 + (8 + n)) = s + 8" using True n by (simp add: size_ok_def)
    obtain m where m: "block_split (heap c) a (of_nat n) = (m, ?r)"
      "pool_holds (c\<lparr>heap := block_set_prev_free (fst (block_link_next m a)) ?r\<rparr>) b (xs @ (n, True) # (?k, True) # ys) F"
      "preserves (heap c) (block_set_prev_free (fst (block_link_next m a)) ?r) (payload_cells b xs \<union> payload_cells (a + 8 + s) ys)"
      using split_free_step [OF P a n(1) True un] by metis
    define m' where "m' = block_set_prev_free (fst (block_link_next m a)) ?r"
    define c1 where "c1 = c\<lparr>heap := m'\<rparr>"
    have P1: "pool_holds c1 b (xs @ (n, True) # (?k, True) # ys) F" using m(2) by (simp add: c1_def m'_def)
    have "F \<subseteq> others b xs (a + 8 + s) ys"
      using unlisted_others [of c b xs "[(s, True)]" ys F] P un by (simp add: registered_Cons a ac_simps)
    then have "?r \<notin> fst ` F" using others_names [of ?r b xs "a + 8 + s" ys] n True by (auto simp: a)
    moreover have "(?r, ?k, True) \<in> set (located b (xs @ (n, True) # (?k, True) # ys))" by (simp add: a)
    ultimately obtain c' where c': "block_insert c1 ?r = Some c'"
      "pool_holds c' b (xs @ (n, True) # (?k, True) # ys) (insert (?r, ?k) F)"
      "preserves (heap c1) (heap c') (payload_cells b (xs @ (n, True) # (?k, True) # ys))" "block_null c' = block_null c1"
      using register_step [OF P1] by blast
    have e: "?r + 8 + ?k = a + 8 + s" using k by simp
    have "payload_cells b (xs @ (n, True) # (?k, True) # ys) = other_payloads b xs (a + 8 + s) ys"
      by (simp only: payload_append payload_Cons other_payloads_def a [symmetric] e) simp
    then have "preserves (heap c) (heap c') (other_payloads b xs (a + 8 + s) ys)"
      using preserves_trans [of "heap c" m'] m(3) c'(3) by (simp add: other_payloads_def m'_def c1_def)
    moreover have "block_trim_free c a (of_nat n) = Some c'"
      using can True c'(1) m(1) by (simp add: block_trim_free_def c1_def m'_def split_beta)
    ultimately show ?thesis
      using that [of c'] c'(2,4) True by (simp add: trimmed_def registered_Cons c1_def)
  qed
qed

lemma prepare_used_ok:
  assumes P: "pool_holds c b (xs @ (s, True) # ys) (others b xs (a + 8 + s) ys)" and a: "a = b + span xs" "a \<noteq> 0"
    and n: "size_ok n" "n \<le> s"
  obtains c' where "block_prepare_used c a (of_nat n) = Some (c', a + 16)"
    "pool_holds c' b (xs @ (fst (trimmed s n), False) # snd (trimmed s n) @ ys)
       (registered b (xs @ (fst (trimmed s n), False) # snd (trimmed s n) @ ys))"
    "preserves (heap c) (heap c') (other_payloads b xs (a + 8 + s) ys)" "block_null c' = block_null c"
proof -
  let ?k = "fst (trimmed s n)" and ?zs = "snd (trimmed s n)" and ?F = "others b xs (a + 8 + s) ys"
  note h = pool_header [OF P, folded a(1)]
  note k = trimmed_facts [OF h(2) n]
  have un: "a \<notin> fst ` ?F" using others_names [of a b xs "a + 8 + s" ys] by (auto simp: a(1))
  obtain c1 where c1: "block_trim_free c a (of_nat n) = Some c1"
    "pool_holds c1 b (xs @ (?k, True) # ?zs @ ys) (?F \<union> registered (a + 8 + ?k) ?zs)"
    "preserves (heap c) (heap c1) (other_payloads b xs (a + 8 + s) ys)" "block_null c1 = block_null c"
    using trim_free_ok [OF P a(1) n un] .
  have "a \<notin> fst ` registered (a + 8 + ?k) ?zs" by (auto dest: registered_range)
  then have un1: "a \<notin> fst ` (?F \<union> registered (a + 8 + ?k) ?zs)" using un by auto
  note mu = mark_used_step [OF c1(2) a(1) un1]
  have e: "a + 8 + ?k + span ?zs = a + 8 + s" using k(3) by simp
  have F: "?F \<union> registered (a + 8 + ?k) ?zs = registered b (xs @ (?k, False) # ?zs @ ys)"
    by (simp only: registered_append registered_Cons others_def a(1) [symmetric] e) auto
  have free: "payload_cells (a + 8 + ?k) ?zs = {}" by (auto simp: trimmed_def payload_Cons)
  have "preserves (heap c1) (block_mark_as_used (heap c1) a) (other_payloads b xs (a + 8 + s) ys)"
    using mu(2) free e by (simp add: payload_append other_payloads_def)
  then have "preserves (heap c) (block_mark_as_used (heap c1) a) (other_payloads b xs (a + 8 + s) ys)"
    using c1(3) by (rule preserves_trans [rotated])
  then show ?thesis
    using that [of "c1\<lparr>heap := block_mark_as_used (heap c1) a\<rparr>"] mu(1) c1(1,4) a(2)
    by (simp add: block_prepare_used_def F block_to_ptr_def)
qed

section \<open>Allocation\<close>

text \<open>The search takes a large enough free block out of the lists, or reports that there is none of the size that
  is sure to be found.\<close>

definition no_fit :: "nat \<Rightarrow> block_list \<Rightarrow> nat \<Rightarrow> bool" where
  "no_fit b bs n \<longleftrightarrow> (\<forall>(s, f) \<in> set bs. f \<longrightarrow> s < good_fit n)"

lemma registered_sizes_of: "(\<exists>a. (a, s) \<in> registered b bs) \<longleftrightarrow> (s, True) \<in> set bs"
proof (induction bs arbitrary: b)
  case (Cons x bs)
  obtain t f where x: "x = (t, f)" by (cases x)
  show ?case using Cons.IH [of "b + 8 + t"] by (cases f) (auto simp: x registered_Cons)
qed simp

lemma no_fit_registered: "no_fit b bs n \<longleftrightarrow> (\<forall>(a, s) \<in> registered b bs. s < good_fit n)"
  using registered_sizes_of [of _ b bs] by (fastforce simp: no_fit_def)

lemma locate_ok:
  assumes P: "pool_holds c b bs (registered b bs)" and n: "size_ok n" "n < 2 ^ 32"
  shows "(block_locate_free c (of_nat n) = (c, 0) \<and> no_fit b bs n)
    \<or> (\<exists>xs s ys a. bs = xs @ (s, True) # ys \<and> a = b + span xs \<and> a \<noteq> 0 \<and> n \<le> s
        \<and> block_locate_free c (of_nat n) = (block_remove c a, a)
        \<and> pool_holds (block_remove c a) b bs (others b xs (a + 8 + s) ys)
        \<and> preserves (heap c) (heap (block_remove c a)) (payload_cells b bs) \<and> block_null (block_remove c a) = block_null c)"
proof -
  note D = pool_holdsD [OF P]
  have n8: "8 dvd n" using n by (simp add: size_ok_def)
  obtain fl sl where ms: "mapping_search (of_nat n) = (int fl, int sl)" "sl < 32" "fl \<le> 25"
    using mapping_search_class [OF n(2) n8] by blast
  have gf: "good_fit n = class_lo fl sl" by (simp add: good_fit_def ms(1))
  have "of_nat n \<noteq> (0 :: u64)" using n unat_sz [of n] by (auto simp: size_ok_def unat_eq_0)
  then have locate: "block_locate_free c (of_nat n) =
      (case (if fl < 25 then search_suitable_block c (int fl) (int sl) else (0, int fl, int sl)) of
         (block, fl, sl) \<Rightarrow> if block \<noteq> 0 then (remove_free_block c block fl sl, block) else (c, block))"
    by (simp add: block_locate_free_def ms(1))
  show ?thesis
  proof (cases "fl < 25")
    case False
    then have "fl = 25" using ms(3) by simp
    then have "2 ^ 32 \<le> good_fit n" by (simp add: gf class_lo_def)
    moreover have "s < 2 ^ 32" if "(a, s) \<in> registered b bs" for a s
      using registered_range [OF that] D(3) by (auto simp: fits_def)
    ultimately have "no_fit b bs n" by (fastforce simp: no_fit_registered)
    then show ?thesis using locate False by simp
  next
    case True
    from free_lists_search [OF D(4) n(2) n8 ms(1) True] show ?thesis
    proof (elim disjE exE conjE)
      fix fl' sl'
      assume "search_suitable_block c (int fl) (int sl) = (0, fl', sl')" "\<forall>(a, s) \<in> registered b bs. s < class_lo fl sl"
      then show ?thesis using locate True by (simp add: no_fit_registered gf)
    next
      fix a s fl' sl'
      assume res: "search_suitable_block c (int fl) (int sl) = (a, fl', sl')" "(a, s) \<in> registered b bs" "n \<le> s"
        "mapping_insert (of_nat s) = (fl', sl')"
      have at: "(a, s, True) \<in> set (located b bs)" using res(2) by (simp add: registered_def)
      obtain xs ys where bs: "bs = xs @ (s, True) # ys" "a = b + span xs" using located_split [OF at] .
      have P': "pool_holds c b (xs @ (s, True) # ys) (registered b bs)" using P by (simp add: bs(1))
      note h = pool_header [OF P', folded bs(2)]
      have sz: "block_size (heap c) a = of_nat s" using h(1,2) by (simp add: block_size_hdr size_ok_def)
      have "a \<noteq> 0" using D(3) bs(2) by (simp add: fits_def)
      moreover have "registered b bs - {(a, s)} = others b xs (a + 8 + s) ys"
      proof -
        have "(a, s) \<notin> others b xs (a + 8 + s) ys"
        proof
          assume "(a, s) \<in> others b xs (a + 8 + s) ys"
          then have "a \<in> fst ` others b xs (a + 8 + s) ys" by (metis fst_conv imageI)
          then show False using others_names [of a b xs "a + 8 + s" ys] bs(2) by simp
        qed
        then show ?thesis by (auto simp: bs registered_focus)
      qed
      moreover have "block_locate_free c (of_nat n) = (remove_free_block c a fl' sl', a)"
        using locate True res(1) \<open>a \<noteq> 0\<close> by simp
      ultimately show ?thesis
        using unregister_step(1,2,4) [OF P res(2)] free_lists_remove(4) [OF D(4) res(2) sz res(4)] res(3) bs by metis
    qed
  qed
qed

lemma registered_others: "registered b (xs @ (s, True) # ys) = insert (b + span xs, s) (others b xs (b + span xs + 8 + s) ys)"
  by (simp add: registered_focus)

text \<open>A successful allocation of at least \<open>n\<close> bytes: the client has one more block, at a pointer it did not have,
  and its other blocks keep their contents.\<close>

definition gives :: "control_t \<Rightarrow> nat \<Rightarrow> block_list \<Rightarrow> nat \<Rightarrow> control_t \<Rightarrow> nat \<Rightarrow> bool" where
  "gives c b bs n c' p \<longleftrightarrow>
     (\<exists>bs' k. p \<noteq> 0 \<and> tlsf_ok c' b bs' \<and> span bs' = span bs \<and> block_null c' = block_null c
       \<and> allocs b bs p = None \<and> n \<le> k \<and> allocs b bs' = (allocs b bs)(p \<mapsto> k)
       \<and> preserves (heap c) (heap c') (payload_cells b bs))"

lemma gives_mono: "gives c b bs n c' p \<Longrightarrow> m \<le> n \<Longrightarrow> gives c b bs m c' p"
  unfolding gives_def by (meson order_trans)

text \<open>The part of \<open>tlsf_malloc\<close> behind the adjustment of the request.\<close>

lemma allocate_ok:
  assumes ok: "tlsf_ok c b bs" and n: "size_ok n" "n < 2 ^ 32"
    and r: "r = (case block_locate_free c (of_nat n) of (c, block) \<Rightarrow> block_prepare_used c block (of_nat n))"
  shows "(r = Some (c, 0) \<and> no_fit b bs n)
    \<or> (\<exists>c' p. r = Some (c', p) \<and> gives c b bs n c' p)"
proof -
  note D = tlsf_okD [OF ok]
  from locate_ok [OF D(1) n] show ?thesis
  proof (elim disjE conjE exE)
    assume "block_locate_free c (of_nat n) = (c, 0)" "no_fit b bs n"
    then show ?thesis by (simp add: r block_prepare_used_def)
  next
    fix xs s ys a
    assume bs: "bs = xs @ (s, True) # ys" "a = b + span xs" "a \<noteq> 0" and ns: "n \<le> s"
      and loc: "block_locate_free c (of_nat n) = (block_remove c a, a)"
      and P: "pool_holds (block_remove c a) b bs (others b xs (a + 8 + s) ys)"
      and kp: "preserves (heap c) (heap (block_remove c a)) (payload_cells b bs)" "block_null (block_remove c a) = block_null c"
    let ?k = "fst (trimmed s n)" and ?zs = "snd (trimmed s n)"
    define bs' where "bs' = xs @ (?k, False) # ?zs @ ys"
    have so: "size_ok s" using D(3) by (simp add: bs)
    note k = trimmed_facts [OF so n(1) ns]
    obtain c' where c': "block_prepare_used (block_remove c a) a (of_nat n) = Some (c', a + 16)"
      "pool_holds c' b bs' (registered b bs')"
      "preserves (heap (block_remove c a)) (heap c') (other_payloads b xs (a + 8 + s) ys)" "block_null c' = block_null (block_remove c a)"
      using prepare_used_ok [OF P [unfolded bs(1)] bs(2,3) n(1) ns] unfolding bs'_def by blast
    have others: "payload_cells b bs = other_payloads b xs (a + 8 + s) ys"
      by (simp add: bs payload_append payload_Cons other_payloads_def)
    have "coalesced False bs'"
      using D(2) coalesced_head [of True ys] k(6)
      by (auto simp: bs bs'_def coalesced_append trimmed_def)
    then have "tlsf_ok c' b bs'" using c'(2) by (simp add: tlsf_ok_def)
    moreover have "span bs' = span bs" using k(3) by (simp add: bs bs'_def)
    moreover have "allocs b bs' = (allocs b bs)(a + 16 \<mapsto> ?k)"
    proof -
      have "allocs b (xs @ [(?k, True)] @ ?zs @ ys) = allocs b (xs @ [(s, True)] @ ys)"
        using allocs_free_run [of "(?k, True) # ?zs" "[(s, True)]" b xs ys] k(3,6) by simp
      then show ?thesis using allocs_used [of b xs ?k "?zs @ ys"] by (simp add: bs bs'_def)
    qed
    moreover have "allocs b bs (a + 16) = None"
      by (simp add: bs allocs_freed)
    moreover have "preserves (heap c) (heap c') (payload_cells b bs)"
      using kp(1) c'(3) unfolding others by (rule preserves_trans)
    ultimately have "gives c b bs n c' (a + 16)"
      using c'(4) kp(2) k(1) unfolding gives_def by (intro exI [of _ bs'] exI [of _ ?k]) simp
    then show ?thesis using c'(1) loc by (intro disjI2) (simp add: r)
  qed
qed

lemma malloc_ok:
  assumes ok: "tlsf_ok c b bs" and sz: "unat sz + 8 \<le> 2 ^ 64"
  shows "(tlsf_malloc c sz = Some (c, 0) \<and> (request (unat sz) = 0 \<or> no_fit b bs (request (unat sz))))
    \<or> (\<exists>c' p. tlsf_malloc c sz = Some (c', p) \<and> gives c b bs (unat sz) c' p)"
proof (cases "request (unat sz) = 0")
  case True
  then have "adjust_request_size sz ALIGN_SIZE = 0" using adjust_request_8 [OF sz] by simp
  then show ?thesis using True
    by (simp add: tlsf_malloc_def block_locate_free_def block_prepare_used_def)
next
  case False
  note rq = request_facts [OF False]
  have "tlsf_malloc c sz = (case block_locate_free c (of_nat (request (unat sz))) of
      (c, block) \<Rightarrow> block_prepare_used c block (of_nat (request (unat sz))))"
    using adjust_request_8 [OF sz] by (simp add: tlsf_malloc_def Let_def)
  from allocate_ok [OF ok _ rq(4) this] show ?thesis
    using rq(1-3) gives_mono by (fastforce simp: size_ok_def)
qed

section \<open>Release\<close>

lemma pool_one_size: "pool_holds c b bs F \<Longrightarrow> (a, s) \<in> F \<Longrightarrow> a \<notin> fst ` (F - {(a, s)})"
  by (auto simp: pool_holds_def free_lists_def one_size_def)

text \<open>Merging with the block in front.\<close>

lemma merge_prev_ok:
  assumes P: "pool_holds c b (xs @ (s, True) # ys) (others b xs e ys)" and e: "e = b + span xs + 8 + s" and co: "coalesced False xs"
  obtains c' xs1 s1 where "block_merge_prev c (b + span xs) = (c', b + span xs1)"
    "pool_holds c' b (xs1 @ (s1, True) # ys) (others b xs1 e ys)" "e = b + span xs1 + 8 + s1"
    "coalesced False xs1" "\<not> last_free False xs1" "allocs b (xs1 @ (s1, True) # ys) = allocs b (xs @ (s, True) # ys)"
    "preserves (heap c) (heap c') (other_payloads b xs e ys)" "payload_cells b xs1 = payload_cells b xs" "block_null c' = block_null c"
proof -
  define a where "a = b + span xs"
  note h = pool_header [OF P, folded a_def]
  have pf: "block_is_prev_free (heap c) a \<longleftrightarrow> last_free False xs"
    using h(1,2) by (simp add: block_is_prev_free_hdr size_ok_def)
  show ?thesis
  proof (cases "last_free False xs")
    case False
    then show ?thesis using that [of c xs s] P e co pf by (simp add: block_merge_prev_def a_def)
  next
    case True
    then obtain zs t where xs: "xs = zs @ [(t, True)]"
      by (cases xs rule: rev_cases) (auto simp: last_free_def)
    define p where "p = b + span zs"
    have ap: "a = p + 8 + t" by (simp add: a_def xs p_def)
    have P1: "pool_holds c b (zs @ (t, True) # (s, True) # ys) (others b xs e ys)" using P by (simp add: xs)
    note hp = pool_header [OF P1, folded p_def]
    have "heap c a = of_nat p" using hp(8) by (simp add: ap)
    then have prev: "block_prev (heap c) a = p" using hp(5) unat_sz [of p] by (simp add: block_prev_def)
    have mem: "(p, t) \<in> others b xs e ys" by (simp add: others_def xs registered_append registered_Cons p_def)
    define c1 where "c1 = block_remove c p"
    note un = unregister_step [OF P1 mem, folded c1_def]
    have rest: "others b xs e ys - {(p, t)} = others b zs e ys"
    proof -
      have "(p, t) \<notin> others b zs e ys"
      proof
        assume "(p, t) \<in> others b zs e ys"
        then have "p \<in> fst ` others b zs e ys" by (metis fst_conv imageI)
        then show False using others_names [of p b zs e ys] by (simp add: e xs p_def)
      qed
      then show ?thesis by (auto simp: others_def xs registered_append registered_Cons p_def)
    qed
    have "p \<notin> fst ` others b zs e ys" "p + 8 + t \<notin> fst ` others b zs e ys"
      using others_names [of p b zs e ys] others_names [of "p + 8 + t" b zs e ys] by (auto simp: e xs p_def)
    note ab = absorb_step [OF un(1) [unfolded rest] p_def this]
    define c' where "c' = c1\<lparr>heap := fst (block_absorb (heap c1) p (p + 8 + t))\<rparr>"
    have e': "p + 8 + (t + 8 + s) = e" by (simp add: e xs p_def)
    have pay: "payload_cells b zs = payload_cells b xs" by (simp add: xs payload_append payload_Cons)
    show ?thesis
    proof (rule that)
      show "block_merge_prev c (b + span xs) = (c', b + span zs)"
        unfolding a_def [symmetric] p_def [symmetric]
        using pf True prev ab(3) by (simp add: block_merge_prev_def Let_def ap [symmetric] c'_def c1_def split_beta)
      show "pool_holds c' b (zs @ (t + 8 + s, True) # ys) (others b zs e ys)" using ab(1) by (simp add: c'_def)
      show "e = b + span zs + 8 + (t + 8 + s)" using e' by (simp add: p_def)
      show "coalesced False zs" "\<not> last_free False zs" using co by (auto simp: xs coalesced_append)
      show "allocs b (zs @ (t + 8 + s, True) # ys) = allocs b (xs @ (s, True) # ys)"
        using allocs_free_run [of "[(t + 8 + s, True)]" "[(t, True), (s, True)]" b zs ys] by (simp add: xs)
      have "preserves (heap c) (heap c1) (other_payloads b xs e ys)"
      proof (rule preserves_mono [OF un(2)])
        have "b + span zs + 8 + t + 8 + s = e" by (simp add: e xs)
        then show "other_payloads b xs e ys \<subseteq> payload_cells b (zs @ (t, True) # (s, True) # ys)"
          by (simp add: other_payloads_def xs payload_append payload_Cons)
      qed
      moreover have "preserves (heap c1) (heap c') (other_payloads b xs e ys)"
        using ab(2) pay e' by (simp add: other_payloads_def c'_def)
      ultimately show "preserves (heap c) (heap c') (other_payloads b xs e ys)" by (rule preserves_trans)
    qed (use pay un(4) in \<open>simp_all add: c'_def\<close>)
  qed
qed

text \<open>Merging with the block behind.\<close>

lemma merge_next_ok:
  assumes P: "pool_holds c b (xs @ (s, True) # ys) (others b xs e ys)" and e: "e = b + span xs + 8 + s" and co: "coalesced False ys"
  obtains c' ys1 s1 e1 where "block_merge_next c (b + span xs) = (c', b + span xs)"
    "pool_holds c' b (xs @ (s1, True) # ys1) (others b xs e1 ys1)" "e1 = b + span xs + 8 + s1" "e1 + span ys1 = e + span ys"
    "coalesced True ys1" "allocs b (xs @ (s1, True) # ys1) = allocs b (xs @ (s, True) # ys)"
    "preserves (heap c) (heap c') (other_payloads b xs e ys)" "payload_cells e1 ys1 = payload_cells e ys" "block_null c' = block_null c"
proof -
  define a where "a = b + span xs"
  note h = pool_header [OF P, folded a_def]
  have ae: "a + 8 + s = e" by (simp add: a_def e)
  have nxt: "block_next (heap c) a = e" using h ae by (simp add: block_next_hdr size_ok_def)
  have "heap c (e + 8) = hdr (head_size ys) (head_free ys) True" using h(3) ae by simp
  then have nf: "block_is_free (heap c) e \<longleftrightarrow> head_free ys" using h(4) by (rule block_is_free_hdr)
  show ?thesis
  proof (cases "head_free ys")
    case False
    then have "coalesced True ys" using co coalesced_head [of True ys] by simp
    then show ?thesis using that [of c s ys e] P e False nf nxt by (simp add: block_merge_next_def Let_def a_def [symmetric])
  next
    case True
    then obtain t zs where ys: "ys = (t, True) # zs" by (cases ys) auto
    have P1: "pool_holds c b (xs @ (s, True) # (t, True) # zs) (others b xs e ys)" using P by (simp add: ys)
    have mem: "(e, t) \<in> others b xs e ys" by (simp add: others_def ys registered_Cons)
    define c1 where "c1 = block_remove c e"
    note un = unregister_step [OF P1 mem, folded c1_def]
    define e1 where "e1 = e + 8 + t"
    have rest: "others b xs e ys - {(e, t)} = others b xs e1 zs"
    proof -
      have "(e, t) \<notin> others b xs e1 zs"
      proof
        assume "(e, t) \<in> others b xs e1 zs"
        then have "e \<in> fst ` others b xs e1 zs" by (metis fst_conv imageI)
        then show False using others_names [of e b xs e1 zs] by (simp add: e e1_def)
      qed
      then show ?thesis by (auto simp: others_def ys registered_Cons e1_def)
    qed
    have "a \<notin> fst ` others b xs e1 zs" "a + 8 + s \<notin> fst ` others b xs e1 zs"
      using others_names [of a b xs e1 zs] others_names [of "a + 8 + s" b xs e1 zs] by (auto simp: e1_def e a_def)
    note ab = absorb_step [OF un(1) [unfolded rest] a_def this]
    define c' where "c' = c1\<lparr>heap := fst (block_absorb (heap c1) a (a + 8 + s))\<rparr>"
    have e1: "a + 8 + (s + 8 + t) = e1" by (simp add: e1_def ae [symmetric])
    have pay: "payload_cells e1 zs = payload_cells e ys" by (simp add: ys payload_Cons e1_def)
    show ?thesis
    proof (rule that)
      show "block_merge_next c (b + span xs) = (c', b + span xs)"
        unfolding a_def [symmetric]
        using nf True nxt ab(3) by (simp add: block_merge_next_def Let_def c'_def c1_def split_beta ae)
      show "pool_holds c' b (xs @ (s + 8 + t, True) # zs) (others b xs e1 zs)" using ab(1) by (simp add: c'_def)
      show "e1 = b + span xs + 8 + (s + 8 + t)" using e1 by (simp add: a_def)
      show "e1 + span zs = e + span ys" by (simp add: e1_def ys)
      show "coalesced True zs" using co by (simp add: ys)
      show "allocs b (xs @ (s + 8 + t, True) # zs) = allocs b (xs @ (s, True) # ys)"
        using allocs_free_run [of "[(s + 8 + t, True)]" "[(s, True), (t, True)]" b xs zs] by (simp add: ys)
      have "preserves (heap c) (heap c1) (other_payloads b xs e ys)"
        by (rule preserves_mono [OF un(2)]) (auto simp: other_payloads_def ys payload_append payload_Cons e)
      moreover have "preserves (heap c1) (heap c') (other_payloads b xs e ys)"
        using ab(2) pay e1 by (simp add: other_payloads_def c'_def)
      ultimately show "preserves (heap c) (heap c') (other_payloads b xs e ys)" by (rule preserves_trans)
    qed (use pay un(4) in \<open>simp_all add: c'_def\<close>)
  qed
qed

text \<open>Putting the merged block back into the lists restores the invariant.\<close>

lemma insert_ok:
  assumes P: "pool_holds c b (xs @ (s, True) # ys) (others b xs e ys)" and e: "e = b + span xs + 8 + s"
    and co: "coalesced False xs" "\<not> last_free False xs" "coalesced True ys"
  obtains c' where "block_insert c (b + span xs) = Some c'" "tlsf_ok c' b (xs @ (s, True) # ys)"
    "preserves (heap c) (heap c') (payload_cells b (xs @ (s, True) # ys))" "block_null c' = block_null c"
proof -
  have "b + span xs \<notin> fst ` others b xs e ys" using others_names [of "b + span xs" b xs e ys] by (auto simp: e)
  then obtain c' where c': "block_insert c (b + span xs) = Some c'"
    "pool_holds c' b (xs @ (s, True) # ys) (insert (b + span xs, s) (others b xs e ys))"
    "preserves (heap c) (heap c') (payload_cells b (xs @ (s, True) # ys))" "block_null c' = block_null c"
    using register_step [OF P located_focus] by blast
  moreover have "coalesced False (xs @ (s, True) # ys)" using co by (simp add: coalesced_append)
  ultimately show ?thesis using that by (simp add: tlsf_ok_def registered_others e)
qed

lemma free_ok:
  assumes ok: "tlsf_ok c b bs" and p: "allocs b bs p = Some n"
  obtains c' bs' where "tlsf_free c p = Some c'" "tlsf_ok c' b bs'" "span bs' = span bs" "block_null c' = block_null c"
    "allocs b bs' = (allocs b bs)(p := None)" "preserves (heap c) (heap c') (payload_cells b bs')"
proof -
  note D = tlsf_okD [OF ok]
  obtain a where a: "p = a + 16" "(a, n, False) \<in> set (located b bs)" using p by (auto simp: allocs_iff)
  obtain xs ys where bs: "bs = xs @ (n, False) # ys" "a = b + span xs" using located_split [OF a(2)] .
  define e where "e = b + span xs + 8 + n"
  have F: "registered b bs = others b xs e ys" by (simp add: bs registered_focus e_def)
  have P: "pool_holds c b (xs @ (n, False) # ys) (others b xs e ys)" using D(1) by (simp add: bs [symmetric] F [symmetric])
  have co: "coalesced False xs" "coalesced False ys" using D(2) by (auto simp: bs coalesced_append)
  note mf = mark_free_step [OF P bs(2)]
  define c1 where "c1 = c\<lparr>heap := block_mark_as_free (heap c) a\<rparr>"
  have P1: "pool_holds c1 b (xs @ (n, True) # ys) (others b xs e ys)" using mf(1) by (simp add: c1_def)
  have k1: "preserves (heap c) (heap c1) (other_payloads b xs e ys)"
    using mf(2) by (simp add: c1_def other_payloads_def e_def bs(2))
  obtain c2 xs1 s1 where 2: "block_merge_prev c1 a = (c2, b + span xs1)"
    "pool_holds c2 b (xs1 @ (s1, True) # ys) (others b xs1 e ys)" "e = b + span xs1 + 8 + s1"
    "coalesced False xs1" "\<not> last_free False xs1" "allocs b (xs1 @ (s1, True) # ys) = allocs b (xs @ (n, True) # ys)"
    "preserves (heap c1) (heap c2) (other_payloads b xs e ys)" "payload_cells b xs1 = payload_cells b xs" "block_null c2 = block_null c1"
    using merge_prev_ok [OF P1 e_def co(1)] unfolding bs(2) by blast
  obtain c3 ys1 s2 e1 where 3: "block_merge_next c2 (b + span xs1) = (c3, b + span xs1)"
    "pool_holds c3 b (xs1 @ (s2, True) # ys1) (others b xs1 e1 ys1)" "e1 = b + span xs1 + 8 + s2" "e1 + span ys1 = e + span ys"
    "coalesced True ys1" "allocs b (xs1 @ (s2, True) # ys1) = allocs b (xs1 @ (s1, True) # ys)"
    "preserves (heap c2) (heap c3) (other_payloads b xs1 e ys)" "payload_cells e1 ys1 = payload_cells e ys" "block_null c3 = block_null c2"
    by (rule merge_next_ok [OF 2(2,3) co(2)])
  obtain c4 where 4: "block_insert c3 (b + span xs1) = Some c4" "tlsf_ok c4 b (xs1 @ (s2, True) # ys1)"
    "preserves (heap c3) (heap c4) (payload_cells b (xs1 @ (s2, True) # ys1))" "block_null c4 = block_null c3"
    by (rule insert_ok [OF 3(2,3) 2(4,5) 3(5)])
  have pay: "payload_cells b (xs1 @ (s2, True) # ys1) = other_payloads b xs e ys"
    using 2(8) 3(8) by (simp add: payload_append payload_Cons other_payloads_def 3(3) [symmetric])
  show ?thesis
  proof (rule that)
    show "tlsf_free c p = Some c4"
      using 2(1) 3(1) 4(1) by (simp add: tlsf_free_def a(1) block_from_ptr_def c1_def [symmetric])
    show "tlsf_ok c4 b (xs1 @ (s2, True) # ys1)" by (rule 4(2))
    show "span (xs1 @ (s2, True) # ys1) = span bs" using 2(3) 3(3,4) by (simp add: bs(1) e_def)
    show "block_null c4 = block_null c" using 2(9) 3(9) 4(4) by (simp add: c1_def)
    show "allocs b (xs1 @ (s2, True) # ys1) = (allocs b bs)(p := None)"
      unfolding 3(6) 2(6) by (simp only: allocs_freed bs a(1))
    have "other_payloads b xs1 e ys = other_payloads b xs e ys" using 2(8) by (simp add: other_payloads_def)
    then show "preserves (heap c) (heap c4) (payload_cells b (xs1 @ (s2, True) # ys1))"
      using k1 2(7) 3(7) 4(3) unfolding pay by (metis preserves_trans)
  qed
qed

end
