(* ===== verification/Tlsf_Align.thy ===== *)
theory Tlsf_Align
  imports Tlsf_Correct
begin

text \<open>
  Aligned allocation in the TLSF allocator: the gap in front of an aligned payload, trimming a leading block off,
  and the correctness of \<open>tlsf_memalign\<close> for every power of two up to \<open>2 ^ 62\<close>.
\<close>

section \<open>The gap\<close>

lemma of_nat_diff_small: "b \<le> a \<Longrightarrow> (of_nat a - of_nat b :: u64) = of_nat (a - b)"
  by (simp add: of_nat_diff)

lemma round_up_multiple: "0 < a \<Longrightarrow> a dvd n \<Longrightarrow> round_up n a = n"
  by (simp add: round_up_def)

lemma round_up_less: "0 < a \<Longrightarrow> round_up n a < n + a"
  by (simp add: round_up_def)

lemma alignment_gap_small:
  assumes "8 dvd ptr" "k \<le> 3" "ptr + 8 \<le> 2 ^ 64"
  shows "alignment_gap ptr (2 ^ k) = 0" "2 ^ k dvd ptr"
proof -
  have "(2 :: nat) ^ k dvd 2 ^ 3" using assms(2) by (rule le_imp_power_dvd)
  then show d: "2 ^ k dvd ptr" using assms(1) by (simp add: dvd_trans)
  have "(2 :: nat) ^ k \<le> 2 ^ 3" using assms(2) by (rule power_increasing) simp
  then have "align_ptr ptr (2 ^ k) = ptr"
    using assms(3) d by (subst align_ptr_round_up) (auto simp: round_up_multiple)
  then show "alignment_gap ptr (2 ^ k) = 0" by (simp add: alignment_gap_def)
qed

lemma alignment_gap_ok:
  assumes ptr: "8 dvd ptr" and k: "4 \<le> k" and room: "ptr + 2 ^ k + 32 \<le> 2 ^ 64"
  shows "\<exists>g. alignment_gap ptr (2 ^ k) = of_nat g \<and> (g = 0 \<or> 32 \<le> g) \<and> 8 dvd g \<and> g \<le> 2 ^ k + 24 \<and> 2 ^ k dvd ptr + g"
proof -
  let ?A = "(2 :: nat) ^ k"
  have A16: "16 \<le> ?A" using power_increasing [OF k, of "2 :: nat"] by simp
  have "(2 :: nat) ^ 3 dvd ?A" using k by (intro le_imp_power_dvd) simp
  then have A8: "8 dvd ?A" by simp
  have A64: "?A < 2 ^ 64" using room by simp
  then have uA: "unat (2 ^ k :: u64) = ?A" using unat_sz [of ?A] by simp
  define al where "al = round_up ptr ?A"
  have al: "align_ptr ptr (2 ^ k) = al" "ptr \<le> al" "al < ptr + ?A" "?A dvd al"
    using align_ptr_round_up [of ptr k] room round_up_ge [of ptr ?A] round_up_less [of ?A ptr] round_up_dvd [of ?A ptr]
    by (simp_all add: al_def)
  define g where "g = al - ptr"
  have g: "g < ?A" "al = ptr + g" using al(2,3) by (auto simp: g_def)
  have "8 dvd al" using A8 al(4) by (rule dvd_trans)
  then have g8: "8 dvd g" using ptr by (simp add: g_def dvd_diff_nat)
  have gap: "of_nat al - of_nat ptr = (of_nat g :: u64)" using g(2) by simp
  have ug: "unat (of_nat g :: u64) = g" using g(1) A64 by (intro unat_sz) simp
  show ?thesis
  proof (cases "g \<noteq> 0 \<and> g < 32")
    case False
    have "alignment_gap ptr (2 ^ k) = of_nat g"
    proof (cases "g = 0")
      case True
      then show ?thesis using g(2) by (simp add: alignment_gap_def al(1))
    next
      case big: False
      then have "\<not> (of_nat g :: u64) < 32" using False ug by (simp add: word_less_nat_alt)
      then show ?thesis unfolding alignment_gap_def al(1) gap Let_def by simp
    qed
    then show ?thesis using False g g8 al(4) by (intro exI [of _ g]) auto
  next
    case True
    define off where "off = (if 32 - g > ?A then 32 - g else ?A)"
    have ur: "unat (32 - of_nat g :: u64) = 32 - g"
    proof -
      have "(32 - of_nat g :: u64) = of_nat (32 - g)" using True by (simp add: of_nat_diff)
      then show ?thesis using True unat_sz [of "32 - g"] by simp
    qed
    have "of_nat g \<noteq> (0 :: u64)" "(of_nat g :: u64) < 32"
      using True ug by (auto simp: word_less_nat_alt unat_eq_0)
    moreover have "unat (if 32 - of_nat g > (2 ^ k :: u64) then 32 - of_nat g else (2 ^ k :: u64)) = off"
      using ur uA by (simp add: off_def word_less_nat_alt)
    ultimately have step: "alignment_gap ptr (2 ^ k) = of_nat (align_ptr (al + off) (2 ^ k)) - of_nat ptr"
      unfolding alignment_gap_def al(1) gap Let_def block_header_bytes_def by simp
    define g' where "g' = (if 32 - g > ?A then g + 2 * ?A else g + ?A)"
    have short: "?A = 16 \<and> g = 8" if "32 - g > ?A"
    proof -
      have "\<not> 5 \<le> k"
      proof
        assume "5 \<le> k"
        then have "(2 :: nat) ^ 5 \<le> 2 ^ k" by (rule power_increasing) simp
        then show False using that by simp
      qed
      then have "k = 4" using k by simp
      then show ?thesis using that True g8 g(1) by (auto elim!: dvdE)
    qed
    have "align_ptr (al + off) (2 ^ k) = ptr + g'"
    proof (cases "32 - g > ?A")
      case True
      then have A: "?A = 16" and g8': "g = 8" using short by simp_all
      obtain q where q: "al = 16 * q" using al(4) unfolding A by (rule dvdE)
      have "round_up (al + off) ?A = al + 32"
        using True unfolding A by (simp add: off_def A g8' round_up_def q mod_add_eq)
      then show ?thesis
        using align_ptr_round_up [of "al + off" k] room True g8' g(2) by (simp add: A g'_def off_def)
    next
      case False
      then have "?A dvd al + off" using al(4) by (simp add: off_def)
      moreover have "al + off + ?A \<le> 2 ^ 64"
      proof -
        obtain q where q: "al + off = ?A * q" using calculation by (rule dvdE)
        have "k < 64" using A64 by (rule power_less_imp_less_exp [rotated]) simp
        then obtain j where j: "64 = k + j" by (metis le_Suc_ex less_imp_le_nat)
        have e: "(2 :: nat) ^ 64 = ?A * 2 ^ j" by (simp only: j power_add)
        have "al + off < 2 ^ 64" using False g True room by (simp add: off_def)
        then have "?A * q < ?A * 2 ^ j" by (simp only: q e)
        then have "q < 2 ^ j" by simp
        then have "?A * (q + 1) \<le> ?A * 2 ^ j" by (intro mult_le_mono2) simp
        then show ?thesis by (simp only: q e distrib_left mult_1_right)
      qed
      ultimately have "align_ptr (al + off) (2 ^ k) = al + off"
        by (simp add: align_ptr_round_up round_up_multiple)
      then show ?thesis using False g(2) by (simp add: g'_def off_def)
    qed
    then have "alignment_gap ptr (2 ^ k) = of_nat g'" using step by simp
    moreover have "32 \<le> g' \<and> g' \<le> ?A + 24"
    proof (cases "32 - g > ?A")
      case True
      then show ?thesis using short by (simp add: g'_def)
    next
      case False
      then show ?thesis using True g8 by (auto simp: g'_def elim!: dvdE)
    qed
    moreover have "8 dvd g'" "?A dvd ptr + g'" using g8 A8 al(4) g(2) by (auto simp: g'_def add.assoc [symmetric])
    ultimately show ?thesis by blast
  qed
qed

section \<open>Trimming a leading block\<close>

lemma trim_leading_ok:
  assumes P: "pool_holds c b (xs @ (s, True) # ys) (others b xs (a + 8 + s) ys)" and a: "a = b + span xs"
    and g: "8 dvd g" "32 \<le> g" "g + 32 \<le> s"
  obtains c' where "block_trim_free_leading c a (of_nat g) = Some (c', a + g)"
    "pool_holds c' b ((xs @ [(g - 8, True)]) @ (s - g, True) # ys) (others b (xs @ [(g - 8, True)]) (a + 8 + s) ys)"
    "preserves (heap c) (heap c') (other_payloads b xs (a + 8 + s) ys)" "block_null c' = block_null c"
proof -
  define n where "n = g - 8"
  have n: "size_ok n" "n + 32 \<le> s" "g = n + 8" using g by (auto simp: n_def size_ok_def dvd_diff_nat)
  note h = pool_header [OF P, folded a]
  have can: "block_can_split (heap c) a (of_nat g)"
    using can_split_iff [of c a s True "last_free False xs" g] h g by auto
  have un: "a \<notin> fst ` others b xs (a + 8 + s) ys" using others_names [of a b xs "a + 8 + s" ys] by (auto simp: a)
  obtain m r where m: "block_split (heap c) a (of_nat n) = (m, r)" "r = a + 8 + n"
    "block_set_prev_free (fst (block_link_next m a)) r = fst (block_link_next (block_set_prev_free m r) a)"
    "pool_holds (c\<lparr>heap := block_set_prev_free (fst (block_link_next m a)) r\<rparr>) b (xs @ (n, True) # (s - n - 8, True) # ys)
       (others b xs (a + 8 + s) ys)"
    "preserves (heap c) (block_set_prev_free (fst (block_link_next m a)) r) (payload_cells b xs \<union> payload_cells (a + 8 + s) ys)"
    by (rule split_free_step [OF P a n(1,2) un])
  define c1 where "c1 = c\<lparr>heap := fst (block_link_next (block_set_prev_free m r) a)\<rparr>"
  have k: "s - n - 8 = s - g" by (simp add: n(3))
  have P1: "pool_holds c1 b (xs @ (n, True) # (s - g, True) # ys) (others b xs (a + 8 + s) ys)"
    using m(4) unfolding k c1_def m(3) .
  have at: "(a, n, True) \<in> set (located b (xs @ (n, True) # (s - g, True) # ys))" by (simp add: a)
  obtain c' where c': "block_insert c1 a = Some c'"
    "pool_holds c' b (xs @ (n, True) # (s - g, True) # ys) (insert (a, n) (others b xs (a + 8 + s) ys))"
    "preserves (heap c1) (heap c') (payload_cells b (xs @ (n, True) # (s - g, True) # ys))" "block_null c' = block_null c1"
    by (rule register_step [OF P1 at un])
  have e: "a + 8 + n + 8 + (s - g) = a + 8 + s" using g n(3) by simp
  have pay: "payload_cells b (xs @ (n, True) # (s - g, True) # ys) = other_payloads b xs (a + 8 + s) ys"
    by (simp only: payload_append payload_Cons other_payloads_def a [symmetric] e) simp
  have F: "insert (a, n) (others b xs (a + 8 + s) ys) = others b (xs @ [(n, True)]) (a + 8 + s) ys"
    by (auto simp: others_def registered_append registered_Cons a)
  have "of_nat g - block_header_overhead = (of_nat n :: u64)" by (simp add: n(3))
  then have "block_trim_free_leading c a (of_nat g) = Some (c', a + g)"
    using can m(1,2) c'(1) by (simp add: block_trim_free_leading_def split_beta c1_def n(3))
  moreover have "preserves (heap c) (heap c1) (other_payloads b xs (a + 8 + s) ys)"
    using m(5) by (simp add: c1_def m(3) other_payloads_def)
  then have "preserves (heap c) (heap c') (other_payloads b xs (a + 8 + s) ys)"
    using c'(3) unfolding pay by (rule preserves_trans)
  ultimately show ?thesis using that [of c'] c'(2,4) F by (simp add: n_def c1_def)
qed

section \<open>\<open>tlsf_memalign\<close>\<close>

lemma gives_aligned:
  assumes ok: "tlsf_ok c b bs" and bs: "bs = xs @ (s, True) # ys" "a = b + span xs"
    and kp: "preserves (heap c) (heap c1) (payload_cells b bs)" "block_null c1 = block_null c"
    and P: "pool_holds c1 b ((xs @ zs) @ (t, True) # ys) (others b (xs @ zs) (a + 8 + s) ys)"
    and zs: "\<forall>(u, f) \<in> set zs. f" "span zs + t = s" "length zs \<le> 1" and n: "size_ok n" "n \<le> t"
  obtains c' where "block_prepare_used c1 (a + span zs) (of_nat n) = Some (c', a + span zs + 16)"
    "gives c b bs n c' (a + span zs + 16)"
proof -
  note D = tlsf_okD [OF ok]
  let ?k = "fst (trimmed t n)" and ?cs = "snd (trimmed t n)"
  define bs' where "bs' = (xs @ zs) @ (?k, False) # ?cs @ ys"
  have a': "a + span zs = b + span (xs @ zs)" by (simp add: bs)
  have e: "a + 8 + s = a + span zs + 8 + t" using zs(2) by simp
  have "size_ok t" using pool_holdsD(2) [OF P] by simp
  note k = trimmed_facts [OF this n]
  have "a + span zs \<noteq> 0" using D(4) bs(2) by (simp add: fits_def)
  then obtain c' where c': "block_prepare_used c1 (a + span zs) (of_nat n) = Some (c', a + span zs + 16)"
    "pool_holds c' b bs' (registered b bs')"
    "preserves (heap c1) (heap c') (other_payloads b (xs @ zs) (a + span zs + 8 + t) ys)" "block_null c' = block_null c1"
    unfolding bs'_def using prepare_used_ok [OF P [unfolded e] a' _ n] by blast
  have free: "payload_cells x us = {}" if "\<forall>(u, f) \<in> set us. f" for x and us :: block_list
    using that by (induction us arbitrary: x) (auto simp: payload_Cons)
  have pay: "other_payloads b (xs @ zs) (a + span zs + 8 + t) ys = payload_cells b bs"
    by (simp only: other_payloads_def payload_append free [OF zs(1)] e [symmetric]) (simp add: bs payload_append payload_Cons)
  have "\<not> last_free False xs" "coalesced False xs" "coalesced True ys"
    using D(2) by (auto simp: bs coalesced_append)
  moreover have "zs = [] \<or> (\<exists>u. zs = [(u, True)])" using zs(1,3) by (cases zs) auto
  ultimately have "coalesced False bs'"
    using coalesced_head [of True ys] by (auto simp: bs'_def coalesced_append trimmed_def)
  then have "tlsf_ok c' b bs'" using c'(2) by (simp add: tlsf_ok_def)
  moreover have "span bs' = span bs" using k(3) zs(2) by (simp add: bs bs'_def)
  moreover have al: "allocs b (xs @ (zs @ (?k, True) # ?cs) @ ys) = allocs b bs"
    using allocs_free_run [of "zs @ (?k, True) # ?cs" "[(s, True)]" b xs ys] zs(1,2) k(3,6) by (auto simp: bs)
  then have "allocs b bs' = (allocs b bs)(a + span zs + 16 \<mapsto> ?k)"
    using allocs_used [of b "xs @ zs" ?k "?cs @ ys"] by (simp add: bs'_def a')
  moreover have "allocs b bs (a + span zs + 16) = None"
  proof -
    have "allocs b ((xs @ zs) @ (?k, True) # ?cs @ ys) (b + span (xs @ zs) + 16) = None" by (simp only: allocs_freed fun_upd_same)
    then show ?thesis using al by (simp add: a')
  qed
  moreover have "preserves (heap c) (heap c') (payload_cells b bs)" using kp(1) c'(3) unfolding pay by (rule preserves_trans)
  ultimately have "gives c b bs n c' (a + span zs + 16)"
    unfolding gives_def using c'(4) kp(2) k(1) by (intro exI [of _ bs'] exI [of _ ?k]) simp
  then show ?thesis using that c'(1) by blast
qed

text \<open>The size searched for: room for the request, the alignment and a leading free block.\<close>

definition aligned_request :: "nat \<Rightarrow> nat \<Rightarrow> nat" where
  "aligned_request k n =
     (if request n = 0 then 0
      else if k \<le> 3 then request n
      else if round_up (request n + 2 ^ k + 32) (2 ^ k) < 2 ^ 32 then round_up (request n + 2 ^ k + 32) (2 ^ k) else 0)"

lemma aligned_request_size:
  assumes k: "k \<le> 62" and sz: "unat sz + 8 \<le> 2 ^ 64"
  shows "(let adjust = adjust_request_size sz ALIGN_SIZE;
              size_with_gap = adjust_request_size (adjust + 2 ^ k + block_header_bytes) (2 ^ k)
          in if adjust \<noteq> 0 \<and> 2 ^ k > ALIGN_SIZE then size_with_gap else adjust) = of_nat (aligned_request k (unat sz))"
proof -
  define r where "r = request (unat sz)"
  have r: "adjust_request_size sz ALIGN_SIZE = of_nat r" "r < 2 ^ 32"
    using adjust_request_8 [OF sz] request_lt by (simp_all add: r_def)
  have p62: "(2 :: nat) ^ k \<le> 2 ^ 62" using k by (intro power_increasing) auto
  have uA: "unat (2 ^ k :: u64) = 2 ^ k" using unat_sz [of "2 ^ k"] p62 by simp
  have big: "ALIGN_SIZE < (2 ^ k :: u64) \<longleftrightarrow> 3 < k"
  proof -
    have "(2 :: nat) ^ 3 < 2 ^ k \<longleftrightarrow> 3 < k" by (rule power_strict_increasing_iff) simp
    then show ?thesis by (simp add: word_less_nat_alt uA)
  qed
  have zero: "of_nat r = (0 :: u64) \<longleftrightarrow> r = 0" using r(2) unat_sz [of r] by (auto simp: unat_eq_0 [symmetric])
  have sum: "unat (of_nat r + 2 ^ k + block_header_bytes :: u64) = r + 2 ^ k + 32"
  proof -
    have "of_nat r + 2 ^ k + block_header_bytes = (of_nat (r + 2 ^ k + 32) :: u64)" by simp
    then show ?thesis using r(2) p62 unat_sz [of "r + 2 ^ k + 32"] by (simp del: of_nat_add)
  qed
  have adj: "adjust_request_size (of_nat r + 2 ^ k + block_header_bytes) (2 ^ k) =
      (if round_up (r + 2 ^ k + 32) (2 ^ k) < 2 ^ 32 then of_nat (max 24 (round_up (r + 2 ^ k + 32) (2 ^ k))) else 0)"
  proof -
    have "r + 2 ^ k + 32 + 2 ^ k \<le> 2 ^ 64" using r(2) p62 by simp
    note A = adjust_request [of "of_nat r + 2 ^ k + block_header_bytes" k, unfolded sum, OF this]
    have "r + 2 ^ k + 32 \<noteq> 0" by simp
    then show ?thesis unfolding A by (simp only: simp_thms)
  qed
  have "max 24 (round_up (r + 2 ^ k + 32) (2 ^ k)) = round_up (r + 2 ^ k + 32) (2 ^ k)"
    using round_up_ge [of "r + 2 ^ k + 32" "2 ^ k"] by simp
  then show ?thesis
    unfolding Let_def r(1) adj big zero by (auto simp: aligned_request_def r_def [symmetric])
qed

lemma aligned_request_facts:
  assumes "aligned_request k n \<noteq> 0"
  shows "size_ok (aligned_request k n)" "aligned_request k n < 2 ^ 32" "request n \<noteq> 0"
    "3 < k \<Longrightarrow> request n + 2 ^ k + 32 \<le> aligned_request k n" "k \<le> 3 \<Longrightarrow> aligned_request k n = request n"
proof -
  show r: "request n \<noteq> 0" using assms by (auto simp: aligned_request_def split: if_splits)
  note rq = request_facts [OF r]
  show "aligned_request k n < 2 ^ 32" using rq by (auto simp: aligned_request_def)
  show ge: "3 < k \<Longrightarrow> request n + 2 ^ k + 32 \<le> aligned_request k n"
    using assms round_up_ge [of "request n + 2 ^ k + 32" "2 ^ k"] by (auto simp: aligned_request_def split: if_splits)
  show "k \<le> 3 \<Longrightarrow> aligned_request k n = request n" by (simp add: aligned_request_def)
  show "size_ok (aligned_request k n)"
  proof (cases "k \<le> 3")
    case True
    then show ?thesis using rq r by (simp add: aligned_request_def size_ok_def)
  next
    case False
    then have "(2 :: nat) ^ 3 dvd 2 ^ k" by (intro le_imp_power_dvd) simp
    moreover have "2 ^ k dvd round_up (request n + 2 ^ k + 32) (2 ^ k)" by (rule round_up_dvd) simp
    ultimately have "8 dvd round_up (request n + 2 ^ k + 32) (2 ^ k)" by (auto intro: dvd_trans)
    then show ?thesis using False assms ge by (auto simp: aligned_request_def size_ok_def split: if_splits)
  qed
qed

lemma memalign_ok:
  assumes ok: "tlsf_ok c b bs" and sz: "unat sz + 8 \<le> 2 ^ 64" and k: "k \<le> 62"
  shows "(tlsf_memalign c (2 ^ k) sz = Some (c, 0)
        \<and> (aligned_request k (unat sz) = 0 \<or> no_fit b bs (aligned_request k (unat sz))))
    \<or> (\<exists>c' p. tlsf_memalign c (2 ^ k) sz = Some (c', p) \<and> gives c b bs (unat sz) c' p \<and> 2 ^ k dvd p)"
proof -
  define q where "q = aligned_request k (unat sz)"
  define place where "place c a = (if a \<noteq> 0
      then (let gap = alignment_gap (block_to_ptr a) (2 ^ k)
            in if gap \<noteq> 0 then block_trim_free_leading c a gap else Some (c, a))
      else Some (c, a))" for c a
  have eq: "tlsf_memalign c (2 ^ k) sz = (case block_locate_free c (of_nat q) of (c, a) \<Rightarrow>
      Option.bind (place c a) (\<lambda>(c, a). block_prepare_used c a (of_nat (request (unat sz)))))"
    unfolding tlsf_memalign_def Let_def aligned_request_size [OF k sz, unfolded Let_def]
    unfolding adjust_request_8 [OF sz] place_def q_def Let_def ..
  show ?thesis
  proof (cases "q = 0")
    case True
    then show ?thesis
      by (simp add: eq block_locate_free_def place_def block_prepare_used_def q_def)
  next
    case False
    note fq = aligned_request_facts [OF False [unfolded q_def], folded q_def]
    note rq = request_facts [OF fq(3)]
    have rs: "size_ok (request (unat sz))" using rq by (simp add: size_ok_def)
    note D = tlsf_okD [OF ok]
    from locate_ok [OF D(1) fq(1,2)] show ?thesis
    proof (elim disjE conjE exE)
      assume "block_locate_free c (of_nat q) = (c, 0)" "no_fit b bs q"
      then show ?thesis by (simp add: eq place_def block_prepare_used_def q_def)
    next
      fix xs s ys a
      assume bs: "bs = xs @ (s, True) # ys" "a = b + span xs" "a \<noteq> 0" and qs: "q \<le> s"
        and loc: "block_locate_free c (of_nat q) = (block_remove c a, a)"
        and P: "pool_holds (block_remove c a) b bs (others b xs (a + 8 + s) ys)"
        and kp: "preserves (heap c) (heap (block_remove c a)) (payload_cells b bs)" "block_null (block_remove c a) = block_null c"
      define c1 where "c1 = block_remove c a"
      have P1: "pool_holds c1 b (xs @ (s, True) # ys) (others b xs (a + 8 + s) ys)" using P by (simp add: c1_def bs(1))
      note h = pool_header [OF P1, folded bs(2)]
      have ptr8: "8 dvd a + 16" using h(7) by (simp add: dvd_add)
      have "\<exists>g. alignment_gap (a + 16) (2 ^ k) = of_nat g \<and> (g = 0 \<or> 32 \<le> g) \<and> 8 dvd g
          \<and> g + request (unat sz) \<le> s \<and> (g = 0 \<or> g + 32 \<le> s) \<and> 2 ^ k dvd a + 16 + g"
      proof (cases "k \<le> 3")
        case True
        then show ?thesis using alignment_gap_small [OF ptr8 True] h(5) fq(5) qs by (intro exI [of _ 0]) auto
      next
        case False
        then have room: "request (unat sz) + 2 ^ k + 32 \<le> s" using fq(4) qs by simp
        then have "a + 16 + 2 ^ k + 32 \<le> 2 ^ 64" using h(5) rq(2) by simp
        then show ?thesis
          using alignment_gap_ok [OF ptr8, of k] False room rq(2) by fastforce
      qed
      then obtain g where g: "alignment_gap (a + 16) (2 ^ k) = of_nat g" "g = 0 \<or> 32 \<le> g" "8 dvd g"
        "g + request (unat sz) \<le> s" "g = 0 \<or> g + 32 \<le> s" "2 ^ k dvd a + 16 + g" by blast
      have ug: "of_nat g = (0 :: u64) \<longleftrightarrow> g = 0"
        using g(4) h(6) unat_sz [of g] by (auto simp: unat_eq_0 [symmetric])
      show ?thesis
      proof (cases "g = 0")
        case True
        have pl: "place c1 a = Some (c1, a)" using g(1) True bs(3) by (simp add: place_def block_to_ptr_def)
        obtain c' where c': "block_prepare_used c1 (a + span []) (of_nat (request (unat sz))) = Some (c', a + span [] + 16)"
          "gives c b bs (request (unat sz)) c' (a + span [] + 16)"
          by (rule gives_aligned [OF ok bs(1,2), of c1 "[]" s "request (unat sz)"])
            (use kp P1 rs g(4) True in \<open>simp_all add: c1_def\<close>)
        then show ?thesis
          using loc pl g(6) True gives_mono [OF c'(2) rq(3)] by (intro disjI2) (simp add: eq c1_def)
      next
        case False
        then have g': "32 \<le> g" "g + 32 \<le> s" using g by auto
        obtain c2 where c2: "block_trim_free_leading c1 a (of_nat g) = Some (c2, a + g)"
          "pool_holds c2 b ((xs @ [(g - 8, True)]) @ (s - g, True) # ys) (others b (xs @ [(g - 8, True)]) (a + 8 + s) ys)"
          "preserves (heap c1) (heap c2) (other_payloads b xs (a + 8 + s) ys)" "block_null c2 = block_null c1"
          by (rule trim_leading_ok [OF P1 bs(2) g(3) g'])
        have pay: "payload_cells b bs = other_payloads b xs (a + 8 + s) ys"
          by (simp add: bs payload_append payload_Cons other_payloads_def)
        have k2: "preserves (heap c) (heap c2) (payload_cells b bs)" "block_null c2 = block_null c"
          using preserves_trans [of "heap c" "heap c1" "payload_cells b bs" "heap c2"] kp c2(3,4) by (simp_all add: c1_def pay)
        have sp: "span [(g - 8, True)] = g" using g' by simp
        obtain c' where c': "block_prepare_used c2 (a + span [(g - 8, True)]) (of_nat (request (unat sz))) =
            Some (c', a + span [(g - 8, True)] + 16)" "gives c b bs (request (unat sz)) c' (a + span [(g - 8, True)] + 16)"
          by (rule gives_aligned [OF ok bs(1,2) k2 c2(2) _ _ _ rs]) (use g' g(4) in simp_all)
        have pl: "place c1 a = Some (c2, a + g)"
          using g(1) False ug bs(3) c2(1) by (simp add: place_def block_to_ptr_def)
        have "tlsf_memalign c (2 ^ k) sz = Some (c', a + g + 16)"
          unfolding eq loc c1_def [symmetric] using pl c'(1) [unfolded sp] by simp
        moreover have "2 ^ k dvd a + g + 16" using g(6) by (simp only: add.assoc add.commute [of g])
        ultimately show ?thesis using gives_mono [OF c'(2) [unfolded sp] rq(3)] by blast
      qed
    qed
  qed
qed

end
