(* ===== verification/Tlsf_Realloc.thy ===== *)
theory Tlsf_Realloc
  imports Tlsf_Correct
begin

text \<open>
  Reallocation in the TLSF allocator: trimming a used block, absorbing the free neighbour, and moving a block by
  copying it.  The contents are compared byte by byte, over the part that fits the old and the new size.
\<close>

unbundle bit_operations_syntax

section \<open>Trimming a used block\<close>

lemma trim_used_ok:
  assumes ok: "tlsf_ok c b (xs @ (s, False) # ys)" and a: "a = b + span xs" and n: "size_ok n" "n \<le> s"
  obtains c' k ys' where "block_trim_used c a (of_nat n) = Some c'" "tlsf_ok c' b (xs @ (k, False) # ys')" "n \<le> k"
    "k + span ys' = s + span ys" "block_null c' = block_null c"
    "allocs b (xs @ (k, False) # ys') = (allocs b (xs @ (s, False) # ys))(a + 16 \<mapsto> k)"
    "preserves (heap c) (heap c') (other_payloads b xs (a + 8 + s) ys)" "preserves (heap c) (heap c') {a + 16..<a + 16 + n}"
proof -
  note D = tlsf_okD [OF ok]
  note h = pool_header [OF D(1), folded a]
  have can: "block_can_split (heap c) a (of_nat n) \<longleftrightarrow> n + 32 \<le> s" using h n by (intro can_split_iff) auto
  show ?thesis
  proof (cases "n + 32 \<le> s")
    case False
    have "allocs b (xs @ (s, False) # ys) (a + 16) = Some s" by (simp add: allocs_used a)
    then show ?thesis using that [of c s ys] ok n can False by (simp add: block_trim_used_def fun_upd_idem)
  next
    case True
    let ?r = "a + 8 + n" and ?k = "s - n - 8" and ?xs = "xs @ [(n, False)]"
    define e where "e = a + 8 + s"
    have F: "registered b (xs @ (s, False) # ys) = others b xs e ys" by (simp add: registered_focus a e_def)
    have F': "others b xs e ys = others b ?xs e ys" by (simp add: others_def registered_append registered_Cons)
    obtain m r where m: "block_split (heap c) a (of_nat n) = (m, r)" "r = ?r"
      "pool_holds (c\<lparr>heap := block_set_prev_used m r\<rparr>) b (xs @ (n, False) # (?k, True) # ys) (others b xs e ys)"
      "preserves (heap c) (block_set_prev_used m r) (payload_cells b xs \<union> payload_cells (a + 8 + s) ys)"
      "preserves (heap c) (block_set_prev_used m r) {a + 16..<a + 16 + n}"
      by (rule split_used_step [OF D(1) [unfolded F] a n(1) True])
    define c1 where "c1 = c\<lparr>heap := block_set_prev_used m r\<rparr>"
    have P1: "pool_holds c1 b (?xs @ (?k, True) # ys) (others b ?xs e ys)" using m(3) by (simp add: c1_def F')
    have e': "e = b + span ?xs + 8 + ?k" using True by (simp add: e_def a)
    have co: "coalesced False xs" "coalesced False ys" using D(2) by (auto simp: coalesced_append)
    obtain c2 ys1 s1 e1 where 2: "block_merge_next c1 (b + span ?xs) = (c2, b + span ?xs)"
      "pool_holds c2 b (?xs @ (s1, True) # ys1) (others b ?xs e1 ys1)" "e1 = b + span ?xs + 8 + s1" "e1 + span ys1 = e + span ys"
      "coalesced True ys1" "allocs b (?xs @ (s1, True) # ys1) = allocs b (?xs @ (?k, True) # ys)"
      "preserves (heap c1) (heap c2) (other_payloads b ?xs e ys)" "payload_cells e1 ys1 = payload_cells e ys"
      "block_null c2 = block_null c1"
      by (rule merge_next_ok [OF P1 e' co(2)])
    have cx: "coalesced False ?xs" "\<not> last_free False ?xs" using co(1) by (auto simp: coalesced_append)
    obtain c3 where 3: "block_insert c2 (b + span ?xs) = Some c3" "tlsf_ok c3 b (?xs @ (s1, True) # ys1)"
      "preserves (heap c2) (heap c3) (payload_cells b (?xs @ (s1, True) # ys1))" "block_null c3 = block_null c2"
      by (rule insert_ok [OF 2(2,3) cx 2(5)])
    have ra: "?r = b + span ?xs" by (simp add: a)
    have pay: "other_payloads b ?xs e ys = other_payloads b xs e ys \<union> {a + 16..<a + 16 + n}"
      by (auto simp: other_payloads_def payload_append payload_Cons a)
    have pay': "payload_cells b (?xs @ (s1, True) # ys1) = other_payloads b ?xs e ys"
    proof -
      have "payload_cells b (?xs @ (s1, True) # ys1) = payload_cells b ?xs \<union> payload_cells (b + span ?xs + 8 + s1) ys1"
        by (simp only: payload_append payload_Cons) simp
      then show ?thesis by (simp only: 2(3) [symmetric] 2(8) other_payloads_def)
    qed
    have "preserves (heap c) (heap c1) (other_payloads b ?xs e ys)"
      using m(4,5) unfolding pay by (auto simp: preserves_def c1_def other_payloads_def e_def)
    then have kp: "preserves (heap c) (heap c3) (other_payloads b ?xs e ys)"
      using 2(7) 3(3) unfolding pay' by (metis preserves_trans)
    have kp': "preserves (heap c) (heap c3) (other_payloads b xs (a + 8 + s) ys)" "preserves (heap c) (heap c3) {a + 16..<a + 16 + n}"
      using kp unfolding pay by (simp_all add: preserves_def e_def)
    show ?thesis
    proof (rule that [of c3 n "(s1, True) # ys1"])
      show "block_trim_used c a (of_nat n) = Some c3"
        using can True 3(1) 2(1) [folded ra] unfolding block_trim_used_def m(1) Let_def prod.case c1_def [symmetric]
        by (simp add: m(2) ra)
      show "tlsf_ok c3 b (xs @ (n, False) # (s1, True) # ys1)" using 3(2) by simp
      show "n + span ((s1, True) # ys1) = s + span ys" using 2(3,4) True by (simp add: e')
      show "block_null c3 = block_null c" using 2(9) 3(4) by (simp add: c1_def)
      show "allocs b (xs @ (n, False) # (s1, True) # ys1) = (allocs b (xs @ (s, False) # ys))(a + 16 \<mapsto> n)"
      proof -
        have "allocs b (xs @ (n, False) # (s1, True) # ys1) = allocs b (xs @ (n, False) # (?k, True) # ys)"
          using 2(6) by simp
        also have "\<dots> = (allocs b (xs @ [(n, True), (?k, True)] @ ys))(a + 16 \<mapsto> n)"
          using allocs_used [of b xs n "(?k, True) # ys"] by (simp add: a)
        also have "allocs b (xs @ [(n, True), (?k, True)] @ ys) = allocs b (xs @ [(s, True)] @ ys)"
          using True by (intro allocs_free_run) auto
        also have "allocs b (xs @ [(s, True)] @ ys) = (allocs b (xs @ (s, False) # ys))(a + 16 := None)"
          using allocs_freed [of b xs s ys] by (simp add: a)
        finally show ?thesis by (simp add: fun_eq_iff)
      qed
    qed (use kp' in simp_all)
  qed
qed

section \<open>Bytes\<close>

definition read_byte :: "memory \<Rightarrow> nat \<Rightarrow> u8" where
  "read_byte m x = ucast (drop_bit (8 * (x mod 8)) (m (x - x mod 8)))"

lemma read_byte_keeps:
  assumes "preserves m m' {p..<p + n}" "8 dvd p" "i < n"
  shows "read_byte m' (p + i) = read_byte m (p + i)"
proof -
  obtain q where q: "p = 8 * q" using assms(2) by (rule dvdE)
  have "(p + i) mod 8 = i mod 8" by (simp add: q)
  then have "p + i - (p + i) mod 8 = p + (i - i mod 8)" by (simp add: mod_less_eq_dividend)
  moreover have "i - i mod 8 < n" using assms(3) by (rule le_less_trans [rotated]) simp
  then have "p + (i - i mod 8) \<in> {p..<p + n}" unfolding atLeastLessThan_iff by linarith
  then have "m' (p + (i - i mod 8)) = m (p + (i - i mod 8))" using assms(1) unfolding preserves_def by blast
  ultimately show ?thesis by (simp only: read_byte_def)
qed

lemma copy_bytes_read:
  assumes "8 dvd dst" "8 dvd src" "i < n"
  shows "read_byte (copy_bytes m dst src n) (dst + i) = read_byte m (src + i)"
proof -
  define j q where "j = i mod 8" and "q = i - i mod 8"
  have i: "i = q + j" "j < 8" "q mod 8 = 0" by (auto simp: j_def q_def minus_mod_eq_mult_div)
  have d: "(dst + i) mod 8 = j" "(src + i) mod 8 = j" using assms(1,2) by (auto simp: j_def elim!: dvdE)
  have cell: "copy_bytes m dst src n (dst + q) =
      (if 8 \<le> n - q then m (src + q) else (m (src + q) AND mask (8 * (n - q))) OR (m (dst + q) AND NOT (mask (8 * (n - q)))))"
    using i assms(3) by (simp add: copy_bytes_def Let_def)
  have "bit (drop_bit (8 * j) (copy_bytes m dst src n (dst + q))) t \<longleftrightarrow> bit (drop_bit (8 * j) (m (src + q))) t" if "t < 8" for t
  proof (cases "8 \<le> n - q")
    case False
    have "8 * j + t < 8 * (n - q)" using that assms(3) i by linarith
    then show ?thesis using False by (simp add: cell bit_simps)
  qed (simp add: cell)
  then have "(ucast (drop_bit (8 * j) (copy_bytes m dst src n (dst + q))) :: u8) = ucast (drop_bit (8 * j) (m (src + q)))"
    by (intro bit_eqI) (auto simp: bit_simps)
  then show ?thesis using d i by (simp add: read_byte_def)
qed

lemma copy_bytes_only: "copy_bytes m dst src n x \<noteq> m x \<Longrightarrow> dst \<le> x \<and> x < dst + n"
  by (auto simp: copy_bytes_def split: if_splits)

text \<open>Writing into the payload of a used block is the client's business.\<close>

lemma payload_write_ok:
  assumes ok: "tlsf_ok c b bs" and p: "allocs b bs p = Some n" and ch: "\<And>x. m' x \<noteq> heap c x \<Longrightarrow> p \<le> x \<and> x < p + n"
  shows "tlsf_ok (c\<lparr>heap := m'\<rparr>) b bs"
proof -
  note D = tlsf_okD [OF ok]
  obtain a where a: "p = a + 16" "(a, n, False) \<in> set (located b bs)" using p by (auto simp: allocs_iff)
  obtain xs ys where bs: "bs = xs @ (n, False) # ys" "a = b + span xs" using located_split [OF a(2)] .
  have P: "pool_holds c b (xs @ [(n, False)] @ ys) (registered b bs)" using D(1) by (simp add: bs(1))
  note h = pool_header [OF D(1) [unfolded bs(1)], folded bs(2)]
  have same: "m' (a + 8) = heap c (a + 8)" "m' (a + 8 + n + 8) = heap c (a + 8 + n + 8)"
    using ch [of "a + 8"] ch [of "a + 8 + n + 8"] by (auto simp: a(1))
  have "pool_holds (c\<lparr>heap := m'\<rparr>) b (xs @ [(n, False)] @ ys) (registered b bs)
      \<and> preserves (heap c) m' (payload_cells b xs \<union> payload_cells (a + 8 + n) ys)"
  proof (rule replace_step [OF P bs(2)])
    show "a + 8 + n = a + span [(n, False)]" by simp
    show "a + 8 \<le> x \<and> x \<le> a + 8 + n + 8" if "m' x \<noteq> heap c x" for x using ch [OF that] by (simp add: a(1))
    show "sizes_ok [(n, False)]" using h(2) by simp
    show "laid_front m' a (last_free False xs) [(n, False)]" using h(1) by (simp add: same)
    show "m' (a + 8 + n + 8) = hdr (head_size ys) (head_free ys) (last_free (last_free False xs) [(n, False)])"
      using h(3) by (simp only: same(2)) simp
  qed (simp_all add: registered_Cons)
  then show ?thesis using D(2) by (simp add: tlsf_ok_def bs(1))
qed

section \<open>\<open>tlsf_realloc\<close>\<close>

text \<open>A successful reallocation to at least \<open>n\<close> bytes: the block at \<open>p\<close> is replaced by one at \<open>q\<close>, which is
  \<open>p\<close> or a pointer the client did not have; what fits of the contents is at \<open>q\<close>; all other blocks are untouched.\<close>

definition resizes :: "control_t \<Rightarrow> nat \<Rightarrow> block_list \<Rightarrow> nat \<Rightarrow> nat \<Rightarrow> nat \<Rightarrow> control_t \<Rightarrow> nat \<Rightarrow> bool" where
  "resizes c b bs p old n c' q \<longleftrightarrow>
     (\<exists>bs' k. q \<noteq> 0 \<and> tlsf_ok c' b bs' \<and> span bs' = span bs \<and> block_null c' = block_null c
       \<and> (q = p \<or> allocs b bs q = None) \<and> n \<le> k \<and> allocs b bs' = (allocs b bs)(p := None, q \<mapsto> k)
       \<and> preserves (heap c) (heap c') (payload_cells b bs - {p..<p + old})
       \<and> (\<forall>i < min old n. read_byte (heap c') (q + i) = read_byte (heap c) (p + i)))"

lemma request_small: "n \<le> request n \<or> request n = 0"
  using request_facts(3) by blast

text \<open>Shrinking in place, or growing into the slack of the block.\<close>

lemma trim_in_place:
  assumes ok: "tlsf_ok c1 b (xs @ (s, False) # ys)" and a: "a = b + span xs" and n: "size_ok r" "r \<le> s" "n \<le> r"
    and bs: "span (xs @ (s, False) # ys) = span bs" "allocs b (xs @ (s, False) # ys) = (allocs b bs)(a + 16 \<mapsto> s)"
    and null: "block_null c1 = block_null c"
    and others: "payload_cells b bs - {a + 16..<a + 16 + old} \<subseteq> other_payloads b xs (a + 8 + s) ys"
    and kp: "preserves (heap c) (heap c1) (other_payloads b xs (a + 8 + s) ys)" "preserves (heap c) (heap c1) {a + 16..<a + 16 + old}"
    and p8: "8 dvd a + 16"
  obtains c' where "block_trim_used c1 a (of_nat r) = Some c'" "resizes c b bs (a + 16) old n c' (a + 16)"
proof -
  obtain c' k ys' where c': "block_trim_used c1 a (of_nat r) = Some c'" "tlsf_ok c' b (xs @ (k, False) # ys')" "r \<le> k"
    "k + span ys' = s + span ys" "block_null c' = block_null c1"
    "allocs b (xs @ (k, False) # ys') = (allocs b (xs @ (s, False) # ys))(a + 16 \<mapsto> k)"
    "preserves (heap c1) (heap c') (other_payloads b xs (a + 8 + s) ys)" "preserves (heap c1) (heap c') {a + 16..<a + 16 + r}"
    by (rule trim_used_ok [OF ok a n(1,2)])
  have "read_byte (heap c') (a + 16 + i) = read_byte (heap c) (a + 16 + i)" if "i < min old n" for i
  proof -
    have "preserves (heap c) (heap c') {a + 16..<a + 16 + min old n}"
      using kp(2) c'(8) n(3) by (auto simp: preserves_def)
    then show ?thesis using p8 that by (rule read_byte_keeps)
  qed
  moreover have "preserves (heap c) (heap c') (payload_cells b bs - {a + 16..<a + 16 + old})"
    using preserves_trans [OF kp(1) c'(7)] others by (rule preserves_mono)
  moreover have "span (xs @ (k, False) # ys') = span bs" using bs(1) c'(4) by simp
  moreover have "allocs b (xs @ (k, False) # ys') = (allocs b bs)(a + 16 := None, a + 16 \<mapsto> k)"
    by (simp add: c'(6) bs(2) fun_eq_iff)
  ultimately have "resizes c b bs (a + 16) old n c' (a + 16)"
    unfolding resizes_def using c'(2,3,5) n(3) null
    by (intro exI [of _ "xs @ (k, False) # ys'"] exI [of _ k]) simp
  then show ?thesis using that c'(1) by blast
qed

text \<open>Growing into the free neighbour.\<close>

lemma grow_into_next:
  assumes ok: "tlsf_ok c b (xs @ (s, False) # (t, True) # zs)" and a: "a = b + span xs"
  obtains c1 where "c1 = (let c' = fst (block_merge_next c a) in c'\<lparr>heap := block_mark_as_used (heap c') a\<rparr>)"
    "tlsf_ok c1 b (xs @ (s + 8 + t, False) # zs)" "block_null c1 = block_null c"
    "preserves (heap c) (heap c1) (other_payloads b xs (a + 8 + (s + 8 + t)) zs)" "preserves (heap c) (heap c1) {a + 16..<a + 16 + s}"
proof -
  note D = tlsf_okD [OF ok]
  note h = pool_header [OF D(1), folded a]
  let ?n = "a + 8 + s" and ?e = "a + 8 + (s + 8 + t)"
  have nxt: "block_next (heap c) a = ?n" using h by (simp add: block_next_hdr size_ok_def)
  have "heap c (?n + 8) = hdr t True False" using h(3) by simp
  moreover have "8 dvd t" using D(3) by (simp add: size_ok_def)
  ultimately have nf: "block_is_free (heap c) ?n" by (simp add: block_is_free_hdr)
  have F: "registered b (xs @ (s, False) # (t, True) # zs) = insert (?n, t) (others b xs ?e zs)"
    by (auto simp: registered_append registered_Cons others_def a ac_simps)
  have new: "(?n, t) \<notin> others b xs ?e zs"
  proof
    assume "(?n, t) \<in> others b xs ?e zs"
    then have "?n \<in> fst ` others b xs ?e zs" by (metis fst_conv imageI)
    then show False using others_names [of ?n b xs ?e zs] by (simp add: a)
  qed
  define c' where "c' = block_remove c ?n"
  have mem: "(?n, t) \<in> registered b (xs @ (s, False) # (t, True) # zs)" by (simp add: F)
  note un = unregister_step [OF D(1) mem, folded c'_def]
  have rest: "registered b (xs @ (s, False) # (t, True) # zs) - {(?n, t)} = others b xs ?e zs" using new by (simp add: F)
  have "?n \<notin> fst ` others b xs ?e zs" using others_names [of ?n b xs ?e zs] by (auto simp: a)
  note ab = absorb_used_step [OF un(1) [unfolded rest] a this]
  define m' where "m' = block_mark_as_used (fst (block_absorb (heap c') a ?n)) a"
  note ab' = ab [folded m'_def]
  define c1 where "c1 = c'\<lparr>heap := m'\<rparr>"
  have pay: "payload_cells b (xs @ (s, False) # (t, True) # zs) = other_payloads b xs ?e zs \<union> {a + 16..<a + 16 + s}"
  proof -
    have e: "a + 8 + s + 8 + t = ?e" by simp
    show ?thesis by (simp only: other_payloads_def payload_append payload_Cons a [symmetric] e) auto
  qed
  show ?thesis
  proof (rule that [of c1])
    show "c1 = (let c' = fst (block_merge_next c a) in c'\<lparr>heap := block_mark_as_used (heap c') a\<rparr>)"
      using nf by (simp add: block_merge_next_def nxt Let_def c'_def [symmetric] split_beta c1_def m'_def)
    have "registered b (xs @ (s + 8 + t, False) # zs) = others b xs ?e zs" by (simp add: registered_focus a)
    moreover have "coalesced False (xs @ (s + 8 + t, False) # zs)"
      using D(2) coalesced_head [of True zs] by (simp add: coalesced_append)
    ultimately show "tlsf_ok c1 b (xs @ (s + 8 + t, False) # zs)" using ab'(1) by (simp add: tlsf_ok_def c1_def)
    show "block_null c1 = block_null c" using un(4) by (simp add: c1_def)
    show "preserves (heap c) (heap c1) (other_payloads b xs ?e zs)"
      using un(2) ab'(2) unfolding pay by (simp add: preserves_def c1_def other_payloads_def)
    show "preserves (heap c) (heap c1) {a + 16..<a + 16 + s}"
      using un(2) ab'(3) unfolding pay by (simp add: preserves_def c1_def)
  qed
qed

text \<open>Moving: a new block, a copy, and the release of the old block.\<close>

lemma move_ok:
  assumes ok: "tlsf_ok c b bs" and p: "allocs b bs p = Some s" and g: "gives c b bs n c1 q" and k: "k \<le> n" "k = min s n"
    and c2: "c2 = c1\<lparr>heap := copy_bytes (heap c1) q p k\<rparr>"
  obtains c' where "tlsf_free c2 p = Some c'" "resizes c b bs p s n c' q"
proof -
  obtain bs1 j where g: "q \<noteq> 0" "tlsf_ok c1 b bs1" "span bs1 = span bs" "block_null c1 = block_null c"
    "allocs b bs q = None" "n \<le> j" "allocs b bs1 = (allocs b bs)(q \<mapsto> j)" "preserves (heap c) (heap c1) (payload_cells b bs)"
    using g by (auto simp: gives_def)
  have qp: "q \<noteq> p" using p g(5) by auto
  have p1: "allocs b bs1 p = Some s" and q1: "allocs b bs1 q = Some j" using p qp by (simp_all add: g(7))
  have ok2: "tlsf_ok c2 b bs1" unfolding c2
    using copy_bytes_only [of "heap c1" q p k] k g(6) by (intro payload_write_ok [OF g(2) q1]) fastforce
  obtain c' bs' where f: "tlsf_free c2 p = Some c'" "tlsf_ok c' b bs'" "span bs' = span bs1" "block_null c' = block_null c2"
    "allocs b bs' = (allocs b bs1)(p := None)" "preserves (heap c2) (heap c') (payload_cells b bs')"
    by (rule free_ok [OF ok2 p1])
  have al: "allocs b bs' = (allocs b bs)(p := None, q \<mapsto> j)" using qp by (simp add: f(5) g(7) fun_upd_twist)
  note sp = allocs_sound [OF ok p] and sq = allocs_sound [OF g(2) q1]
  have apart: "q + j + 8 \<le> r \<or> r + t + 8 \<le> q" if "allocs b bs r = Some t" for r t
    using sq(5) [of r t] that g(5) by (cases "r = q") (auto simp: g(7))
  have other: "preserves (heap c) (heap c') (payload_cells b bs - {p..<p + s})"
    unfolding preserves_def
  proof
    fix x assume x: "x \<in> payload_cells b bs - {p..<p + s}"
    then obtain r t where r: "allocs b bs r = Some t" "r \<le> x" "x < r + t" by (auto simp: payload_of_allocs)
    have "r \<noteq> p" using x r p by auto
    moreover have "r \<noteq> q" using r(1) g(5) by auto
    ultimately have "allocs b bs' r = Some t" using r(1) by (simp add: al)
    then have "x \<in> payload_cells b bs'" using r(2,3) by (auto simp: payload_of_allocs)
    then have "heap c' x = heap c2 x" using f(6) by (simp add: preserves_def)
    also have "\<dots> = heap c1 x"
      using copy_bytes_only [of "heap c1" q p k x] apart [OF r(1)] r k g(6) by (force simp: c2)
    also have "\<dots> = heap c x" using g(8) x by (simp add: preserves_def)
    finally show "heap c' x = heap c x" .
  qed
  have "read_byte (heap c') (q + i) = read_byte (heap c) (p + i)" if i: "i < min s n" for i
  proof -
    have "q + i - (q + i) mod 8 = q + (i - i mod 8)" for i using sq(1) by (auto elim!: dvdE simp: mod_less_eq_dividend)
    have "allocs b bs' q = Some j" by (simp add: al)
    then have "{q..<q + j} \<subseteq> payload_cells b bs'" unfolding payload_of_allocs by fastforce
    then have "preserves (heap c2) (heap c') {q..<q + j}" using f(6) by (rule preserves_mono [rotated])
    then have "read_byte (heap c') (q + i) = read_byte (heap c2) (q + i)"
      using sq(1) i g(6) by (intro read_byte_keeps) auto
    also have "\<dots> = read_byte (heap c1) (p + i)"
      using copy_bytes_read [OF sq(1) sp(1), of i k] i k(2) by (simp add: c2)
    also have "\<dots> = read_byte (heap c) (p + i)"
    proof -
      have "{p..<p + s} \<subseteq> payload_cells b bs" unfolding payload_of_allocs using p by fastforce
      then have "preserves (heap c) (heap c1) {p..<p + s}" using g(8) by (rule preserves_mono [rotated])
      then show ?thesis using sp(1) i by (intro read_byte_keeps) auto
    qed
    finally show ?thesis .
  qed
  then have "resizes c b bs p s n c' q"
    unfolding resizes_def using g(1,3,4,5,6) f(2,3,4) al other
    by (intro exI [of _ bs'] exI [of _ j]) (simp add: c2)
  then show ?thesis using that f(1) by blast
qed

lemma realloc_ok:
  assumes ok: "tlsf_ok c b bs" and p: "allocs b bs p = Some s" and sz: "unat sz + 8 \<le> 2 ^ 64" and rq: "request (unat sz) \<noteq> 0"
  shows "(tlsf_realloc c p sz = Some (c, 0) \<and> no_fit b bs (request (unat sz)))
    \<or> (\<exists>c' q. tlsf_realloc c p sz = Some (c', q) \<and> resizes c b bs p s (unat sz) c' q)"
proof -
  note D = tlsf_okD [OF ok]
  define r where "r = request (unat sz)"
  note rf = request_facts [OF rq, folded r_def]
  have rs: "size_ok r" using rf by (simp add: size_ok_def)
  have adj: "adjust_request_size sz ALIGN_SIZE = of_nat r" using adjust_request_8 [OF sz] by (simp add: r_def)
  obtain a where a: "p = a + 16" "(a, s, False) \<in> set (located b bs)" using p by (auto simp: allocs_iff)
  obtain xs ys where bs: "bs = xs @ (s, False) # ys" "a = b + span xs" using located_split [OF a(2)] .
  note h = pool_header [OF D(1) [unfolded bs(1)], folded bs(2)]
  have cur: "block_size (heap c) a = of_nat s" using h(1,2) by (simp add: block_size_hdr size_ok_def)
  have nxt: "block_next (heap c) a = a + 8 + s" using h by (simp add: block_next_hdr size_ok_def)
  have hn: "heap c (a + 8 + s + 8) = hdr (head_size ys) (head_free ys) False" using h(3) by simp
  have nsz: "block_size (heap c) (a + 8 + s) = of_nat (head_size ys)" using block_size_hdr [of "heap c" "a + 8 + s", OF hn h(4)] .
  have nfree: "block_is_free (heap c) (a + 8 + s) \<longleftrightarrow> head_free ys" using block_is_free_hdr [of "heap c" "a + 8 + s", OF hn h(4)] .
  have hs: "s + head_size ys + 8 < 2 ^ 33"
    using D(4) by (cases ys) (auto simp: fits_def bs)
  have small: "unat (of_nat r :: u64) = r" "unat (of_nat s :: u64) = s" "unat (of_nat s + of_nat (head_size ys) + 8 :: u64) = s + head_size ys + 8"
  proof -
    show "unat (of_nat r :: u64) = r" "unat (of_nat s :: u64) = s" using rf(4) h(6) by (auto intro: unat_sz)
    have "of_nat s + of_nat (head_size ys) + 8 = (of_nat (s + head_size ys + 8) :: u64)" by simp
    then show "unat (of_nat s + of_nat (head_size ys) + 8 :: u64) = s + head_size ys + 8"
      using hs unat_sz [of "s + head_size ys + 8"] by (simp del: of_nat_add)
  qed
  have p0: "p \<noteq> 0" "sz \<noteq> 0" using a(1) rq by (auto simp: request_def)
  have step: "tlsf_realloc c p sz =
    (if s < r \<and> (\<not> head_free ys \<or> s + head_size ys + 8 < r)
     then Option.bind (tlsf_malloc c sz) (\<lambda>(c1, q).
       if q \<noteq> 0 then map_option (\<lambda>c. (c, q))
         (tlsf_free (c1\<lparr>heap := copy_bytes (heap c1) q p (min s (unat sz))\<rparr>) p) else Some (c1, q))
     else map_option (\<lambda>c. (c, p)) (block_trim_used
       (if s < r then (let c' = fst (block_merge_next c a) in c'\<lparr>heap := block_mark_as_used (heap c') a\<rparr>) else c) a (of_nat r)))"
  proof -
    have mm: "unat (if of_nat s < sz then of_nat s else sz :: u64) = min s (unat sz)"
      using small(2) by (auto simp: word_less_nat_alt min_def)
    have bp: "block_from_ptr p = a" by (simp add: a(1) block_from_ptr_def)
    show ?thesis
      unfolding tlsf_realloc_def Let_def bp cur nxt nsz nfree adj mm
      using p0 by (simp add: word_less_nat_alt small) blast
  qed
  show ?thesis
  proof (cases "s < r \<and> (\<not> head_free ys \<or> s + head_size ys + 8 < r)")
    case True
    from malloc_ok [OF ok sz] show ?thesis
    proof (elim disjE conjE exE)
      assume "tlsf_malloc c sz = Some (c, 0)" "request (unat sz) = 0"
      then show ?thesis using rq by simp
    next
      assume "tlsf_malloc c sz = Some (c, 0)" "no_fit b bs (request (unat sz))"
      then show ?thesis using step True by simp
    next
      fix c1 q assume m: "tlsf_malloc c sz = Some (c1, q)" and g: "gives c b bs (unat sz) c1 q"
      obtain c' where "tlsf_free (c1\<lparr>heap := copy_bytes (heap c1) q p (min s (unat sz))\<rparr>) p = Some c'"
        "resizes c b bs p s (unat sz) c' q"
        by (rule move_ok [OF ok p g _ refl refl]) simp
      moreover have "q \<noteq> 0" using g by (auto simp: gives_def)
      ultimately show ?thesis using step True m by auto
    qed
  next
    case False
    have p8: "8 dvd a + 16" using allocs_sound(1) [OF ok p] by (simp add: a(1))
    have pays: "payload_cells b bs - {a + 16..<a + 16 + s} \<subseteq> other_payloads b xs (a + 8 + s) ys"
      by (auto simp: bs payload_append payload_Cons other_payloads_def)
    have al: "allocs b bs (a + 16) = Some s" using p by (simp add: a(1))
    show ?thesis
    proof (cases "s < r")
      case le: False
      obtain c' where "block_trim_used c a (of_nat r) = Some c'" "resizes c b bs (a + 16) s (unat sz) c' (a + 16)"
        by (rule trim_in_place [OF ok [unfolded bs(1)] bs(2) rs _ rf(3), of bs c s])
          (use le pays p8 al in \<open>simp_all add: bs(1) fun_upd_idem\<close>)
      then show ?thesis using step le by (simp add: a(1))
    next
      case True
      then obtain t zs where ys: "ys = (t, True) # zs" and fit: "r \<le> s + 8 + t" using False by (cases ys) auto
      obtain c1 where c1: "c1 = (let c' = fst (block_merge_next c a) in c'\<lparr>heap := block_mark_as_used (heap c') a\<rparr>)"
        "tlsf_ok c1 b (xs @ (s + 8 + t, False) # zs)" "block_null c1 = block_null c"
        "preserves (heap c) (heap c1) (other_payloads b xs (a + 8 + (s + 8 + t)) zs)" "preserves (heap c) (heap c1) {a + 16..<a + 16 + s}"
        by (rule grow_into_next [OF ok [unfolded bs(1) ys] bs(2)])
      have sp: "span (xs @ (s + 8 + t, False) # zs) = span bs" by (simp add: bs(1) ys)
      have alx: "allocs b (xs @ (s + 8 + t, False) # zs) = (allocs b bs)(a + 16 \<mapsto> s + 8 + t)"
      proof -
        have "allocs b (xs @ [(s + 8 + t, True)] @ zs) = allocs b (xs @ [(s, True), (t, True)] @ zs)"
          by (rule allocs_free_run) auto
        also have "\<dots> = (allocs b bs)(a + 16 := None)"
          using allocs_freed [of b xs s ys] by (simp add: bs ys)
        finally show ?thesis using allocs_used [of b xs "s + 8 + t" zs] by (simp add: bs(2) fun_eq_iff)
      qed
      have "payload_cells b bs - {a + 16..<a + 16 + s} \<subseteq> other_payloads b xs (a + 8 + (s + 8 + t)) zs"
      proof -
        have e: "a + 8 + s + 8 + t = a + 8 + (s + 8 + t)" by simp
        show ?thesis by (simp only: bs(1) ys other_payloads_def payload_append payload_Cons bs(2) [symmetric] e) auto
      qed
      then obtain c' where "block_trim_used c1 a (of_nat r) = Some c'" "resizes c b bs (a + 16) s (unat sz) c' (a + 16)"
        by (rule trim_in_place [OF c1(2) bs(2) rs fit rf(3) sp alx c1(3) _ c1(4,5) p8])
      then show ?thesis using step True False c1(1) by (simp add: a(1))
    qed
  qed
qed

end
