(* ===== verification/Tlsf_Check.thy ===== *)
theory Tlsf_Check
  imports Tlsf_Correct
begin

text \<open>
  The checks of the TLSF allocator, \<open>tlsf_check_pool\<close> and \<open>tlsf_check\<close>, end and report no error on a heap that
  satisfies the invariant.
\<close>

unbundle bit_operations_syntax

lemma offset_back: "8 \<le> p \<Longrightarrow> p < 2 ^ 64 \<Longrightarrow> offset_to_block p (- block_header_overhead) = p - 8"
proof -
  assume p: "8 \<le> p" "p < 2 ^ 64"
  have "unat (- block_header_overhead) = 2 ^ 64 - 8" by (simp add: block_header_overhead_def)
  then have "offset_to_block p (- block_header_overhead) = (p - 8 + 2 ^ 64) mod 2 ^ 64"
    using p by (simp add: offset_to_block_def add.commute)
  moreover have "(p - 8 + 2 ^ 64) mod 2 ^ 64 = p - 8" using p by (simp only: mod_add_self2) simp
  ultimately show ?thesis by simp
qed

section \<open>The walk over a pool\<close>

lemma walk_integrity:
  assumes "laid_out m b pf bs" "sizes_ok bs" "b + span bs + 16 \<le> 2 ^ 64" "b \<noteq> 0"
  shows "walk_blocks m (integrity_walker m) b \<lparr>prev_status = (if pf then 1 else 0), status = st\<rparr> =
    Some \<lparr>prev_status = (if last_free pf bs then 1 else 0), status = st\<rparr>"
  using assms
proof (induction bs arbitrary: b pf)
  case Nil
  then have "block_size m b = 0" by (simp add: laid_out_Nil block_size_hdr)
  then show ?case by (subst walk_blocks.simps) (simp add: block_is_last_def)
next
  case (Cons x bs)
  obtain s f where x: "x = (s, f)" by (cases x)
  have h: "m (b + 8) = hdr s f pf" "laid_out m (b + 8 + s) f bs" and s: "size_ok s"
    using Cons.prems by (auto simp: x laid_out_Cons)
  have sz: "block_size m b = of_nat s" and fr: "block_is_free m b \<longleftrightarrow> f" "block_is_prev_free m b \<longleftrightarrow> pf"
    using h(1) s by (auto simp: size_ok_def block_size_hdr block_is_free_hdr block_is_prev_free_hdr)
  have nx: "block_next m b = b + 8 + s"
    using h(1) s Cons.prems(3) by (intro block_next_hdr) (auto simp: x size_ok_def)
  have "unat (of_nat s :: u64) = s" using Cons.prems(3) by (intro unat_sz) (simp add: x)
  then have last: "\<not> block_is_last m b" using s by (auto simp: block_is_last_def sz size_ok_def simp flip: unat_eq_0)
  have step: "integrity_walker m (block_to_ptr b) (block_size m b) (\<not> block_is_free m b)
      \<lparr>prev_status = (if pf then 1 else 0), status = st\<rparr> = \<lparr>prev_status = (if f then 1 else 0), status = st\<rparr>"
    by (simp add: integrity_walker_def Let_def tlsf_insist_def block_from_ptr_def block_to_ptr_def fr)
  have "walk_blocks m (integrity_walker m) (b + 8 + s) \<lparr>prev_status = (if f then 1 else 0), status = st\<rparr> =
      Some \<lparr>prev_status = (if last_free f bs then 1 else 0), status = st\<rparr>"
    using h(2) Cons.prems by (intro Cons.IH) (auto simp: x)
  then show ?case using Cons.prems(4) last step nx by (subst walk_blocks.simps) (simp add: x)
qed

lemma check_pool_passes:
  assumes "tlsf_ok c b bs"
  shows "tlsf_check_pool (heap c) (b + 8) = Some 0"
proof -
  have P: "laid_out (heap c) b False bs" "sizes_ok bs" and "fits c b bs"
    using assms by (auto simp: tlsf_ok_def pool_holds_def)
  then have b: "b + span bs + 16 \<le> 2 ^ 64" "b \<noteq> 0" by (auto simp: fits_def)
  have "offset_to_block (b + 8) (- block_header_overhead) = b" using offset_back [of "b + 8"] b by simp
  then show ?thesis using walk_integrity [OF P b, of 0] by (simp add: tlsf_check_pool_def tlsf_walk_pool_def)
qed

section \<open>The check of the lists\<close>

text \<open>What \<open>check_list\<close> tests of one block.\<close>

definition filed :: "control_t \<Rightarrow> int \<Rightarrow> int \<Rightarrow> nat \<Rightarrow> bool" where
  "filed c i j a \<longleftrightarrow>
     (let m = heap c
      in a \<noteq> block_null c \<and> block_is_free m a \<and> \<not> block_is_prev_free m a \<and> \<not> block_is_free m (block_next m a)
         \<and> block_is_prev_free m (block_next m a) \<and> block_size m a \<ge> block_size_min
         \<and> mapping_insert (block_size m a) = (i, j))"

lemma check_list_passes:
  "dlist (heap c) p as (block_null c) \<Longrightarrow> \<forall>a \<in> set as. filed c i j a \<Longrightarrow>
   check_list c i j (hd (as @ [block_null c])) st = Some st"
proof (induction as arbitrary: p)
  case Nil
  then show ?case by (subst check_list.simps) simp
next
  case (Cons a as)
  have "check_list c i j (next_free (heap c) a) st = Some st" using Cons.IH [of a] Cons.prems by simp
  then show ?case
    using Cons.prems(2) by (subst check_list.simps) (simp add: filed_def Let_def tlsf_insist_def)
qed

lemma registered_filed:
  assumes ok: "tlsf_ok c b bs" and a: "(a, s) \<in> registered b bs" and i: "mapping_insert (of_nat s) = (i, j)"
  shows "filed c i j a"
proof -
  have P: "pool_holds c b bs (registered b bs)" and co: "coalesced False bs" using ok by (auto simp: tlsf_ok_def)
  obtain xs ys where bs: "bs = xs @ (s, True) # ys" "a = b + span xs"
    using a located_split unfolding registered_def by blast
  note h = pool_header [OF P [unfolded bs(1)], folded bs(2)]
  have nb: "\<not> last_free False xs" "\<not> head_free ys"
    using co coalesced_head [of True ys] by (auto simp: bs(1) coalesced_append)
  have d: "8 dvd s" "24 \<le> s" using h(2) by (auto simp: size_ok_def)
  have sz: "block_size (heap c) a = of_nat s" using block_size_hdr [of "heap c" a, OF h(1) d(1)] .
  have nx: "block_next (heap c) a = a + 8 + s" using h(1,5) d by (intro block_next_hdr) auto
  have "unat (of_nat s :: u64) = s" using h(6) by (intro unat_sz) simp
  then have "block_size_min \<le> block_size (heap c) a" using d(2) by (simp add: sz word_le_nat_alt)
  moreover have "a \<noteq> block_null c" using P by (auto simp: bs(2) pool_holds_def fits_def)
  ultimately show ?thesis
    using nb i block_is_free_hdr [of "heap c" a, OF h(1) d(1)] block_is_prev_free_hdr [of "heap c" a, OF h(1) d(1)]
      block_is_free_hdr [of "heap c" "a + 8 + s", OF h(3,4)] block_is_prev_free_hdr [of "heap c" "a + 8 + s", OF h(3,4)]
    by (simp add: filed_def Let_def sz nx)
qed

lemma check_class_passes:
  assumes ok: "tlsf_ok c b bs" and L: "free_lists_ok c L" "files_by_class (registered b bs) L" and i: "i < 25" "j < 32"
  shows "check_class c i j st = Some st"
proof -
  have cl: "class_list_ok c L i j" using free_lists_okD(4) [OF L(1) i] .
  have flag: "(w AND 2 ^ k = 0) \<longleftrightarrow> \<not> bit w k" if "k < 32" for w :: u32 and k
  proof -
    have "bit (w AND 2 ^ k) n \<longleftrightarrow> bit w k \<and> n = k" for n using that by (auto simp: bit_simps)
    then show ?thesis by (metis bit_0_eq bit_eq_iff bot_apply bot_bool_def)
  qed
  have "bit (sl_bitmap c ! i) j \<Longrightarrow> bit (fl_bitmap c) i"
    using free_lists_okD(5) [OF L(1), of i] i(1) by auto
  moreover have "\<forall>a \<in> set (L i j). filed c (int i) (int j) a"
    using files_by_classD [OF L(2) i] registered_filed [OF ok] by blast
  ultimately show ?thesis
    using cl i check_list_passes [of c "block_null c" "L i j" "int i" "int j" st]
    by (cases "L i j")
      (auto simp: check_class_def Let_def flag class_list_ok_def tlsf_insist_def filed_def)
qed

lemma check_passes:
  assumes ok: "tlsf_ok c b bs"
  shows "tlsf_check c = Some 0"
proof -
  obtain L where L: "free_lists_ok c L" "files_by_class (registered b bs) L"
    using ok by (auto simp: tlsf_ok_def pool_holds_def free_lists_def)
  have "check_classes c ijs 0 = Some 0" if "set ijs \<subseteq> {..<25} \<times> {..<32}" for ijs
    using that check_class_passes [OF ok L] by (induction ijs) auto
  then show ?thesis by (force simp: tlsf_check_def)
qed

end
