(* ===== verification/Tlsf_History.thy ===== *)
theory Tlsf_History
  imports Tlsf_Align Tlsf_Realloc Tlsf_Check
begin

text \<open>
  The TLSF allocator from its creation over a block of memory through any history of a client that keeps to the
  rules: it frees and reallocates what it holds, and writes only into what it holds.
\<close>

unbundle bit_operations_syntax

section \<open>Creation\<close>

lemma free_lists_empty:
  assumes "block_null c + 32 \<le> 2 ^ 64" "sl_bitmap c = replicate 25 0" "fl_bitmap c = 0"
    "blocks c = replicate 25 (replicate 32 (block_null c))"
  shows "free_lists c {}"
proof -
  have "free_lists_ok c (\<lambda>_ _. [])"
    using assms by (simp add: free_lists_ok_def class_list_ok_def listed_def apart_def)
  then show ?thesis by (auto simp: free_lists_def one_size_def files_by_class_def)
qed

text \<open>The pool with its single free block and the sentinel behind it.\<close>

lemma add_pool_ok:
  assumes F: "free_lists c {}" and p: "8 dvd p" "block_null c + 40 \<le> p" and fits: "p + s + 16 \<le> 2 ^ 64"
    and s: "s = unat (bytes - tlsf_pool_overhead) div 8 * 8" "24 \<le> s" "s < 2 ^ 32"
  obtains c' where "tlsf_add_pool c p bytes = Some (c', p)" "tlsf_ok c' (p - 8) [(s, True)]" "block_null c' = block_null c"
proof -
  define b where "b = p - 8"
  have bp: "b + 8 = p" "8 dvd b" "block_null c + 32 \<le> b" using p by (auto simp: b_def dvd_diff_nat)
  have sok: "size_ok s" using s by (simp add: size_ok_def)
  have down: "align_down (bytes - tlsf_pool_overhead) ALIGN_SIZE = of_nat s"
  proof -
    have "unat (align_down (bytes - tlsf_pool_overhead) ALIGN_SIZE) = s"
      using unat_align_down [of "bytes - tlsf_pool_overhead" 3] s(1) by simp
    then show ?thesis by (metis of_nat_unat ucast_id)
  qed
  have us: "unat (of_nat s :: u64) = s" using s(3) by (intro unat_sz) simp
  have range: "\<not> ((of_nat s :: u64) < block_size_min \<or> (of_nat s :: u64) > block_size_max)"
    using s(2,3) by (simp add: word_less_nat_alt us)
  have off: "offset_to_block p (- block_header_overhead) = b" 
    using offset_back [of p] p fits by (simp add: b_def del: block_header_overhead_def)
  define m where "m = (heap c)(b + 8 := hdr s True False)"
  have m: "block_set_prev_used (block_set_free (block_set_size (heap c) b (of_nat s)) b) b = m"
  proof -
    obtain x y where "block_set_size (heap c) b (of_nat s) = (heap c)(b + 8 := hdr s x y)" using set_size_any by blast
    moreover from this have "block_set_free (block_set_size (heap c) b (of_nat s)) b = (heap c)(b + 8 := hdr s True y)"
      by (simp add: set_flags_hdr(1) [of _ b s x y])
    ultimately show ?thesis using sok by (simp add: set_flags_hdr(4) [of _ b s True y] m_def size_ok_def)
  qed
  have F1: "free_lists (c\<lparr>heap := m\<rparr>) {}" using free_lists_heap [OF F] by (simp add: same_links_def)
  have sz: "block_size (heap (c\<lparr>heap := m\<rparr>)) b = of_nat s"
    using sok by (intro block_size_hdr) (auto simp: m_def size_ok_def)
  have "apart (insert (block_null (c\<lparr>heap := m\<rparr>)) (insert b (fst ` {})))"
    using bp s(2) fits by (auto simp: apart_def)
  then obtain c1 where c1: "block_insert (c\<lparr>heap := m\<rparr>) b = Some c1" "free_lists c1 (insert (b, s) {})" "block_null c1 = block_null c"
    "\<And>x. heap c1 x \<noteq> m x \<Longrightarrow> \<exists>y \<in> insert (block_null c) (insert b (fst ` {})). x = y + 24 \<or> x = b + 16"
    using free_lists_insert [OF F1, of b s] s(3) sz bp(3) by (auto simp del: fun_upd_apply)
  have h1: "heap c1 (b + 8) = hdr s True False"
    using c1(4) [of "b + 8"] bp(3) by (cases "heap c1 (b + 8) = m (b + 8)") (auto simp: m_def)
  have e: "b + s + 24 \<le> 2 ^ 64" using bp(1) fits by simp
  define e where "e = b + 8 + s"
  have link: "block_link_next (heap c1) b = ((heap c1)(e := of_nat b), e)"
    using link_next_hdr [of "heap c1" b s True False] h1 sok e by (simp add: e_def)
  define m' where "m' = (heap c1)(e := of_nat b, e + 8 := hdr 0 False True)"
  have m': "block_set_prev_free (block_set_used (block_set_size ((heap c1)(e := of_nat b)) e 0) e) e = m'"
  proof -
    define h where "h = (heap c1)(e := of_nat b)"
    obtain x y where 1: "block_set_size h e 0 = h(e + 8 := hdr 0 x y)" using set_size_any [of h e 0] by auto
    have 2: "block_set_used (h(e + 8 := hdr 0 x y)) e = h(e + 8 := hdr 0 False y)"
      by (simp add: set_flags_hdr(3) [of _ e 0 x y])
    have "block_set_prev_free (h(e + 8 := hdr 0 False y)) e = h(e + 8 := hdr 0 False True)"
      by (simp add: set_flags_hdr(2) [of _ e 0 False y])
    then show ?thesis by (simp only: h_def [symmetric] 1 2 m'_def)
  qed
  define c2 where "c2 = c1\<lparr>heap := m'\<rparr>"
  show ?thesis
  proof (rule that [of c2])
    have "p mod 8 = 0" using p(1) by simp
    then show "tlsf_add_pool c p bytes = Some (c2, p)"
      unfolding tlsf_add_pool_def Let_def down off m using range c1(1) link m'
      by (simp add: c2_def)
    have "laid_out m' b False [(s, True)]"
      using h1 s(2) by (simp add: laid_out_def m'_def e_def)
    moreover have "free_lists c2 {(b, s)}"
      unfolding c2_def using s(2) by (intro free_lists_heap) (auto simp: c1(2) same_links_def m'_def e_def)
    moreover have "span [(s, True)] \<le> 2 ^ 32"
    proof -
      have "8 dvd s" using sok by (simp add: size_ok_def)
      then show ?thesis using s(3) by (auto elim!: dvdE)
    qed
    ultimately show "tlsf_ok c2 (p - 8) [(s, True)]"
      using sok bp fits c1(3) by (simp add: tlsf_ok_def pool_holds_def fits_def registered_Cons c2_def flip: b_def)
    show "block_null c2 = block_null c" by (simp add: c2_def c1(3))
  qed
qed

text \<open>The bytes of the pool: what is left behind the control structure, without the header of the first block
  and the sentinel, in units of eight.\<close>

definition pool_room :: "usize \<Rightarrow> nat" where
  "pool_room bytes = (unat bytes - 6552) div 8 * 8"

lemma create_ok:
  assumes c: "tlsf_create_with_pool m mem bytes = Some (Some c)" and room: "mem + unat bytes \<le> 2 ^ 64" "pool_room bytes < 2 ^ 32"
  shows "tlsf_ok c (mem + 6528) [(pool_room bytes, True)] \<and> mem \<noteq> 0 \<and> 24 \<le> pool_room bytes \<and> 6552 \<le> unat bytes"
proof -
  define k where "k = bytes - tlsf_size"
  have ov: "unat tlsf_pool_overhead = 16" by (simp add: tlsf_pool_overhead_def)
  have g: "mem \<noteq> 0" "6536 \<le> unat bytes" "16 \<le> unat k"
    using c by (auto simp: tlsf_create_with_pool_def Let_def tlsf_size_def k_def tlsf_pool_overhead_def word_less_nat_alt not_less split: if_splits)
  have k: "unat k = unat bytes - 6536"
    using g(2) by (simp add: k_def tlsf_size_def unat_sub word_le_nat_alt)
  have k2: "unat (k - tlsf_pool_overhead) = unat bytes - 6552"
    using g(3) k by (simp add: unat_sub word_le_nat_alt ov)
  then have ps: "pool_room bytes = unat (k - tlsf_pool_overhead) div 8 * 8" by (simp add: pool_room_def)
  obtain t where t: "tlsf_create m mem = Some t"
    using c g by (auto simp: tlsf_create_with_pool_def Let_def split: if_splits option.splits)
  then have m8: "8 dvd mem" and td: "t = control_construct m mem"
    by (auto simp: tlsf_create_def mod_eq_0_iff_dvd split: if_splits)
  have F: "free_lists t {}"
    using room(1) g(2) by (intro free_lists_empty) (simp_all add: td control_construct_def)
  have add: "\<exists>pool. tlsf_add_pool t (mem + 6536) k = Some (c, pool) \<and> pool \<noteq> 0"
    using c g t by (auto simp: tlsf_create_with_pool_def Let_def tlsf_size_def k_def split: if_splits bind_splits)
  show ?thesis
  proof (cases "24 \<le> pool_room bytes")
    case True
    have p: "8 dvd mem + 6536" "block_null t + 40 \<le> mem + 6536" using m8 by (simp_all add: td control_construct_def)
    have "pool_room bytes \<le> unat bytes - 6552" by (simp add: pool_room_def)
    then have fits: "mem + 6536 + pool_room bytes + 16 \<le> 2 ^ 64" using room(1) g(3) k by linarith
    obtain c' where "tlsf_add_pool t (mem + 6536) k = Some (c', mem + 6536)" "tlsf_ok c' (mem + 6536 - 8) [(pool_room bytes, True)]"
      by (rule add_pool_ok [OF F p fits ps True room(2)])
    moreover have "mem + 6536 - 8 = mem + 6528" "6552 \<le> unat bytes" using g(2,3) k by simp_all
    ultimately show ?thesis using add True g(1) by auto
  next
    case False
    have "unat (align_down (k - tlsf_pool_overhead) ALIGN_SIZE) = pool_room bytes"
      using unat_align_down [of "k - tlsf_pool_overhead" 3] ps by simp
    then have "align_down (k - tlsf_pool_overhead) ALIGN_SIZE < block_size_min" using False by (simp add: word_less_nat_alt)
    then have "tlsf_add_pool t (mem + 6536) k = Some (t, 0)" by (simp add: tlsf_add_pool_def Let_def)
    then show ?thesis using add by simp
  qed
qed

text \<open>An aligned block of memory with room for a block of the least size gives an allocator.\<close>

lemma create_succeeds:
  assumes "mem \<noteq> 0" "8 dvd mem" "mem + unat bytes \<le> 2 ^ 64" "24 \<le> pool_room bytes" "pool_room bytes < 2 ^ 32"
  shows "\<exists>c. tlsf_create_with_pool m mem bytes = Some (Some c)"
proof -
  define k where "k = bytes - tlsf_size"
  have big: "6576 \<le> unat bytes" using assms(4) by (simp add: pool_room_def)
  have ov: "unat tlsf_pool_overhead = 16" by (simp add: tlsf_pool_overhead_def)
  have k: "unat k = unat bytes - 6536" using big by (simp add: k_def tlsf_size_def unat_sub word_le_nat_alt)
  have k2: "unat (k - tlsf_pool_overhead) = unat bytes - 6552" using big k by (simp add: unat_sub word_le_nat_alt ov)
  then have ps: "pool_room bytes = unat (k - tlsf_pool_overhead) div 8 * 8" by (simp add: pool_room_def)
  define t where "t = control_construct m mem"
  have t: "tlsf_create m mem = Some t" using assms(2) test_ffs_fls_passes by (simp add: tlsf_create_def t_def)
  have F: "free_lists t {}" using assms(3) big by (intro free_lists_empty) (simp_all add: t_def control_construct_def)
  have p: "8 dvd mem + 6536" "block_null t + 40 \<le> mem + 6536" using assms(2) by (simp_all add: t_def control_construct_def)
  have "pool_room bytes \<le> unat bytes - 6552" by (simp add: pool_room_def)
  then have fits: "mem + 6536 + pool_room bytes + 16 \<le> 2 ^ 64" using assms(3) big by linarith
  obtain c' where c': "tlsf_add_pool t (mem + 6536) k = Some (c', mem + 6536)"
    by (rule add_pool_ok [OF F p fits ps assms(4,5)])
  have "\<not> bytes < tlsf_size" "\<not> k < tlsf_pool_overhead" "unat tlsf_size = 6536"
    using big k ov by (simp_all add: word_less_nat_alt tlsf_size_def)
  then have "tlsf_create_with_pool m mem bytes = Some (Some c')"
    using assms(1) t c' by (simp add: tlsf_create_with_pool_def Let_def k_def [symmetric])
  then show ?thesis by blast
qed

section \<open>Histories\<close>

text \<open>The client knows what it holds: for each pointer the number of bytes it asked for.\<close>

type_synonym holding = "nat \<rightharpoonup> nat"

definition receives :: "holding \<Rightarrow> nat \<Rightarrow> nat \<Rightarrow> holding" where
  "receives A p n = (if p = 0 then A else A(p \<mapsto> n))"

inductive tlsf_reach :: "nat \<Rightarrow> usize \<Rightarrow> control_t \<Rightarrow> holding \<Rightarrow> bool" for mem :: nat and bytes :: usize where
  create: "mem + unat bytes \<le> 2 ^ 64 \<Longrightarrow> pool_room bytes < 2 ^ 32 \<Longrightarrow>
    tlsf_create_with_pool m mem bytes = Some (Some c) \<Longrightarrow> tlsf_reach mem bytes c Map.empty"
| malloc: "tlsf_reach mem bytes c A \<Longrightarrow> unat sz + 8 \<le> 2 ^ 64 \<Longrightarrow>
    tlsf_malloc c sz = Some (c', p) \<Longrightarrow> tlsf_reach mem bytes c' (receives A p (unat sz))"
| memalign: "tlsf_reach mem bytes c A \<Longrightarrow> unat sz + 8 \<le> 2 ^ 64 \<Longrightarrow> k \<le> 62 \<Longrightarrow>
    tlsf_memalign c (2 ^ k) sz = Some (c', p) \<Longrightarrow> tlsf_reach mem bytes c' (receives A p (unat sz))"
| free: "tlsf_reach mem bytes c A \<Longrightarrow> A p \<noteq> None \<Longrightarrow>
    tlsf_free c p = Some c' \<Longrightarrow> tlsf_reach mem bytes c' (A(p := None))"
| realloc: "tlsf_reach mem bytes c A \<Longrightarrow> A p \<noteq> None \<Longrightarrow> sz \<noteq> 0 \<Longrightarrow> unat sz \<le> 2 ^ 32 - 8 \<Longrightarrow>
    tlsf_realloc c p sz = Some (c', q) \<Longrightarrow>
    tlsf_reach mem bytes c' (if q = 0 then A else A(p := None, q \<mapsto> unat sz))"
| store: "tlsf_reach mem bytes c A \<Longrightarrow> A p = Some n \<Longrightarrow> (\<And>x. m' x \<noteq> heap c x \<Longrightarrow> p \<le> x \<and> x < p + n) \<Longrightarrow>
    tlsf_reach mem bytes (c\<lparr>heap := m'\<rparr>) A"

text \<open>What holds in every history, over the blocks of the pool.\<close>

definition serves :: "nat \<Rightarrow> block_list \<Rightarrow> holding \<Rightarrow> bool" where
  "serves b bs A \<longleftrightarrow> dom A = dom (allocs b bs) \<and> (\<forall>p n k. A p = Some n \<longrightarrow> allocs b bs p = Some k \<longrightarrow> n \<le> k)"

definition client_inv :: "nat \<Rightarrow> usize \<Rightarrow> control_t \<Rightarrow> block_list \<Rightarrow> holding \<Rightarrow> bool" where
  "client_inv mem bytes c bs A \<longleftrightarrow> tlsf_ok c (mem + 6528) bs \<and> span bs = pool_room bytes + 8
     \<and> pool_room bytes + 6552 \<le> unat bytes \<and> serves (mem + 6528) bs A"

definition same_contents :: "holding \<Rightarrow> control_t \<Rightarrow> control_t \<Rightarrow> bool" where
  "same_contents A c c' \<longleftrightarrow>
     (\<forall>p n i. A p = Some n \<longrightarrow> i < n \<longrightarrow> read_byte (heap c') (p + i) = read_byte (heap c) (p + i))"

lemma servesD: "serves b bs A \<Longrightarrow> A p = Some n \<Longrightarrow> \<exists>k. allocs b bs p = Some k \<and> n \<le> k"
  unfolding serves_def by (metis domI domD)

lemma serves_none: "serves b bs A \<Longrightarrow> allocs b bs p = None \<longleftrightarrow> A p = None"
  unfolding serves_def by (metis domIff)

lemma serves_gain: "serves b bs A \<Longrightarrow> allocs b bs' = (allocs b bs)(p \<mapsto> k) \<Longrightarrow> n \<le> k \<Longrightarrow> serves b bs' (A(p \<mapsto> n))"
  by (simp add: serves_def)

lemma serves_drop: "serves b bs A \<Longrightarrow> allocs b bs' = (allocs b bs)(p := None) \<Longrightarrow> serves b bs' (A(p := None))"
  by (simp add: serves_def)

lemma serves_move:
  "serves b bs A \<Longrightarrow> allocs b bs' = (allocs b bs)(p := None, q \<mapsto> k) \<Longrightarrow> n \<le> k \<Longrightarrow> serves b bs' (A(p := None, q \<mapsto> n))"
  by (simp add: serves_def)

lemma preserves_contents:
  assumes "tlsf_ok c b bs" "serves b bs A" "preserves (heap c) (heap c') X"
    and "\<And>p n k. B p = Some n \<Longrightarrow> A p = Some n \<and> (allocs b bs p = Some k \<longrightarrow> {p..<p + k} \<subseteq> X)"
  shows "same_contents B c c'"
  unfolding same_contents_def
proof (intro allI impI)
  fix p n i assume p: "B p = Some n" "i < n"
  obtain k where k: "allocs b bs p = Some k" "n \<le> k" using servesD [OF assms(2)] assms(4) [OF p(1)] by blast
  have "{p..<p + k} \<subseteq> X" using assms(4) [OF p(1)] k(1) by blast
  then have "{p..<p + n} \<subseteq> X" using k(2) by auto
  then have "preserves (heap c) (heap c') {p..<p + n}" using assms(3) preserves_mono by blast
  then show "read_byte (heap c') (p + i) = read_byte (heap c) (p + i)"
    using allocs_sound(1) [OF assms(1) k(1)] p(2) by (intro read_byte_keeps) auto
qed

lemma alloc_cells: "allocs b bs p = Some k \<Longrightarrow> {p..<p + k} \<subseteq> payload_cells b bs"
  unfolding payload_of_allocs by fastforce

text \<open>One step of each kind.\<close>

definition takes :: "nat \<Rightarrow> usize \<Rightarrow> control_t \<Rightarrow> holding \<Rightarrow> nat \<Rightarrow> control_t \<Rightarrow> nat \<Rightarrow> bool" where
  "takes mem bytes c A n c' p \<longleftrightarrow>
     p \<noteq> 0 \<and> A p = None \<and> (\<exists>bs'. client_inv mem bytes c' bs' (A(p \<mapsto> n))) \<and> same_contents A c c'"

lemma gives_takes:
  assumes inv: "client_inv mem bytes c bs A" and g: "gives c (mem + 6528) bs n c' p"
  shows "takes mem bytes c A n c' p"
proof -
  obtain bs' k where g: "p \<noteq> 0" "tlsf_ok c' (mem + 6528) bs'" "span bs' = span bs" "allocs (mem + 6528) bs p = None" "n \<le> k"
    "allocs (mem + 6528) bs' = (allocs (mem + 6528) bs)(p \<mapsto> k)" "preserves (heap c) (heap c') (payload_cells (mem + 6528) bs)"
    using g by (auto simp: gives_def)
  have i: "tlsf_ok c (mem + 6528) bs" "serves (mem + 6528) bs A" using inv by (auto simp: client_inv_def)
  have "same_contents A c c'"
    using alloc_cells by (intro preserves_contents [OF i g(7)]) blast
  then show ?thesis
    using inv g serves_gain [OF i(2) g(6,5)] serves_none [OF i(2)] unfolding takes_def client_inv_def by auto
qed

lemma malloc_step:
  assumes inv: "client_inv mem bytes c bs A" and sz: "unat sz + 8 \<le> 2 ^ 64"
  shows "\<exists>c' p. tlsf_malloc c sz = Some (c', p) \<and> (if p = 0 then c' = c else takes mem bytes c A (unat sz) c' p)"
proof -
  have "tlsf_ok c (mem + 6528) bs" using inv by (simp add: client_inv_def)
  from malloc_ok [OF this sz] show ?thesis
  proof (elim disjE exE conjE)
    fix c' p assume "tlsf_malloc c sz = Some (c', p)" "gives c (mem + 6528) bs (unat sz) c' p"
    moreover from this have "takes mem bytes c A (unat sz) c' p" using gives_takes [OF inv] by blast
    ultimately show ?thesis by (auto simp: takes_def)
  qed simp_all
qed

lemma memalign_step:
  assumes inv: "client_inv mem bytes c bs A" and sz: "unat sz + 8 \<le> 2 ^ 64" and k: "k \<le> 62"
  shows "\<exists>c' p. tlsf_memalign c (2 ^ k) sz = Some (c', p)
    \<and> (if p = 0 then c' = c else takes mem bytes c A (unat sz) c' p \<and> 2 ^ k dvd p)"
proof -
  have "tlsf_ok c (mem + 6528) bs" using inv by (simp add: client_inv_def)
  from memalign_ok [OF this sz k] show ?thesis
  proof (elim disjE exE conjE)
    fix c' p assume "tlsf_memalign c (2 ^ k) sz = Some (c', p)" "gives c (mem + 6528) bs (unat sz) c' p" "2 ^ k dvd p"
    moreover from this have "takes mem bytes c A (unat sz) c' p" using gives_takes [OF inv] by blast
    ultimately show ?thesis by (auto simp: takes_def)
  qed simp_all
qed

lemma free_step:
  assumes inv: "client_inv mem bytes c bs A" and p: "A p \<noteq> None"
  shows "\<exists>c' bs'. tlsf_free c p = Some c' \<and> client_inv mem bytes c' bs' (A(p := None)) \<and> same_contents (A(p := None)) c c'"
proof -
  have i: "tlsf_ok c (mem + 6528) bs" "serves (mem + 6528) bs A" using inv by (auto simp: client_inv_def)
  obtain n where n: "allocs (mem + 6528) bs p = Some n" using p servesD [OF i(2)] by fastforce
  obtain c' bs' where f: "tlsf_free c p = Some c'" "tlsf_ok c' (mem + 6528) bs'" "span bs' = span bs"
    "allocs (mem + 6528) bs' = (allocs (mem + 6528) bs)(p := None)" "preserves (heap c) (heap c') (payload_cells (mem + 6528) bs')"
    by (rule free_ok [OF i(1) n])
  have "same_contents (A(p := None)) c c'"
    using alloc_cells [of "mem + 6528" bs'] f(4)
    by (intro preserves_contents [OF i f(5)]) (auto simp: fun_upd_apply split: if_splits)
  then show ?thesis using f inv serves_drop [OF i(2) f(4)] by (auto simp: client_inv_def)
qed

lemma realloc_step:
  assumes inv: "client_inv mem bytes c bs A" and p: "A p = Some n" and sz: "sz \<noteq> 0" "unat sz \<le> 2 ^ 32 - 8"
  shows "\<exists>c' q. tlsf_realloc c p sz = Some (c', q) \<and>
    (if q = 0 then c' = c
     else (q = p \<or> A q = None) \<and> (\<exists>bs'. client_inv mem bytes c' bs' (A(p := None, q \<mapsto> unat sz)))
       \<and> same_contents (A(p := None)) c c'
       \<and> (\<forall>i < min n (unat sz). read_byte (heap c') (q + i) = read_byte (heap c) (p + i)))"
proof -
  have i: "tlsf_ok c (mem + 6528) bs" "serves (mem + 6528) bs A" using inv by (auto simp: client_inv_def)
  obtain s where s: "allocs (mem + 6528) bs p = Some s" "n \<le> s" using servesD [OF i(2) p] by blast
  have s64: "unat sz + 8 \<le> 2 ^ 64" using sz(2) by simp
  have "round_up (unat sz) 8 < 2 ^ 32" using sz(2) round_up_8(1) [of "unat sz"] by simp
  moreover have "unat sz \<noteq> 0" using sz(1) by (simp add: unat_eq_0)
  ultimately have rq: "request (unat sz) \<noteq> 0" by (simp add: request_def)
  from realloc_ok [OF i(1) s(1) s64 rq] show ?thesis
  proof (elim disjE exE conjE)
    fix c' q assume r: "tlsf_realloc c p sz = Some (c', q)" "resizes c (mem + 6528) bs p s (unat sz) c' q"
    obtain bs' k where z: "q \<noteq> 0" "tlsf_ok c' (mem + 6528) bs'" "span bs' = span bs" "q = p \<or> allocs (mem + 6528) bs q = None"
      "unat sz \<le> k" "allocs (mem + 6528) bs' = (allocs (mem + 6528) bs)(p := None, q \<mapsto> k)"
      "preserves (heap c) (heap c') (payload_cells (mem + 6528) bs - {p..<p + s})"
      "\<forall>i < min s (unat sz). read_byte (heap c') (q + i) = read_byte (heap c) (p + i)"
      using r(2) by (auto simp: resizes_def)
    have "same_contents (A(p := None)) c c'"
    proof (rule preserves_contents [OF i z(7)])
      fix r l j assume "(A(p := None)) r = Some l"
      then have r: "r \<noteq> p" "A r = Some l" by (auto split: if_splits)
      have "{r..<r + j} \<subseteq> payload_cells (mem + 6528) bs - {p..<p + s}" if a: "allocs (mem + 6528) bs r = Some j"
        using alloc_cells [OF a] allocs_sound(5) [OF i(1) s(1) a] r(1) by auto
      then show "A r = Some l \<and> (allocs (mem + 6528) bs r = Some j \<longrightarrow> {r..<r + j} \<subseteq> payload_cells (mem + 6528) bs - {p..<p + s})"
        using r(2) by blast
    qed
    moreover have "client_inv mem bytes c' bs' (A(p := None, q \<mapsto> unat sz))"
      using inv z(2,3) serves_move [OF i(2) z(6,5)] by (simp add: client_inv_def)
    moreover have "\<forall>i < min n (unat sz). read_byte (heap c') (q + i) = read_byte (heap c) (p + i)" using z(8) s(2) by simp
    ultimately show ?thesis using r(1) z(1,4) serves_none [OF i(2)] by (intro exI [of _ c'] exI [of _ q]) auto
  qed simp
qed

lemma store_step:
  assumes inv: "client_inv mem bytes c bs A" and p: "A p = Some n" and ch: "\<And>x. m' x \<noteq> heap c x \<Longrightarrow> p \<le> x \<and> x < p + n"
  shows "client_inv mem bytes (c\<lparr>heap := m'\<rparr>) bs A"
proof -
  have i: "tlsf_ok c (mem + 6528) bs" "serves (mem + 6528) bs A" using inv by (auto simp: client_inv_def)
  obtain s where s: "allocs (mem + 6528) bs p = Some s" "n \<le> s" using servesD [OF i(2) p] by blast
  have "tlsf_ok (c\<lparr>heap := m'\<rparr>) (mem + 6528) bs"
    using ch s(2) by (intro payload_write_ok [OF i(1) s(1)]) fastforce
  then show ?thesis using inv by (simp add: client_inv_def)
qed

lemma reach_inv: "tlsf_reach mem bytes c A \<Longrightarrow> \<exists>bs. client_inv mem bytes c bs A"
proof (induction rule: tlsf_reach.induct)
  case (create m c)
  note cr = create_ok [OF create(3,1,2)]
  have "serves (mem + 6528) [(pool_room bytes, True)] Map.empty" by (simp add: serves_def allocs_Cons)
  then show ?case using cr
    by (intro exI [of _ "[(pool_room bytes, True)]"]) (auto simp: client_inv_def pool_room_def)
next
  case (malloc c A sz c' p)
  then obtain bs where "client_inv mem bytes c bs A" by blast
  with malloc_step [OF this malloc(2)] malloc(3) show ?case by (auto simp: receives_def takes_def split: if_splits)
next
  case (memalign c A sz k c' p)
  then obtain bs where "client_inv mem bytes c bs A" by blast
  with memalign_step [OF this memalign(2,3)] memalign(4) show ?case by (auto simp: receives_def takes_def split: if_splits)
next
  case (free c A p c')
  then obtain bs where "client_inv mem bytes c bs A" by blast
  from free_step [OF this free(2)] free(3) show ?case by (auto simp: fun_upd_def)
next
  case (realloc c A p sz c' q)
  then obtain bs n where "client_inv mem bytes c bs A" "A p = Some n" by blast
  with realloc_step [OF this realloc(3,4)] realloc(5) show ?case by (auto split: if_splits)
next
  case (store c A p n m')
  then show ?case using store_step by blast
qed

text \<open>Where the blocks of the client are.\<close>

definition placed :: "nat \<Rightarrow> usize \<Rightarrow> holding \<Rightarrow> bool" where
  "placed mem bytes A \<longleftrightarrow>
     (\<forall>p n. A p = Some n \<longrightarrow> 8 dvd p \<and> mem + 6536 < p \<and> p + n + 8 \<le> mem + unat bytes
        \<and> (\<forall>q k. A q = Some k \<longrightarrow> q \<noteq> p \<longrightarrow> p + n + 8 \<le> q \<or> q + k + 8 \<le> p))"

lemma client_inv_placed:
  assumes inv: "client_inv mem bytes c bs A"
  shows "placed mem bytes A"
  unfolding placed_def
proof (intro allI impI)
  fix p n assume p: "A p = Some n"
  have i: "tlsf_ok c (mem + 6528) bs" "serves (mem + 6528) bs A" "span bs = pool_room bytes + 8" "pool_room bytes + 6552 \<le> unat bytes"
    using inv by (auto simp: client_inv_def)
  obtain s where s: "allocs (mem + 6528) bs p = Some s" "n \<le> s" using servesD [OF i(2) p] by blast
  note sound = allocs_sound [OF i(1) s(1)]
  have "p + n + 8 \<le> q \<or> q + k + 8 \<le> p" if "A q = Some k" "q \<noteq> p" for q k
    using servesD [OF i(2) that(1)] sound(5) that(2) s(2) by fastforce
  then show "8 dvd p \<and> mem + 6536 < p \<and> p + n + 8 \<le> mem + unat bytes \<and> (\<forall>q k. A q = Some k \<longrightarrow> q \<noteq> p \<longrightarrow> p + n + 8 \<le> q \<or> q + k + 8 \<le> p)"
    using sound(1,3,4) s(2) i(3,4) by auto
qed

text \<open>Once everything is released the pool is one free block again, so nothing is ever lost.\<close>

lemma all_released:
  assumes "tlsf_ok c b bs" "allocs b bs = Map.empty" "0 < span bs"
  obtains s where "bs = [(s, True)]" "span bs = s + 8"
proof -
  have free: "f" if mem: "(s, f) \<in> set bs" for s f
  proof (rule ccontr)
    assume "\<not> f"
    then obtain xs ys where "bs = xs @ (s, False) # ys" using split_list [OF mem] by auto
    then have "allocs b bs (b + span xs + 16) = Some s" using allocs_used [of b xs s ys] by simp
    then show False using assms(2) by simp
  qed
  obtain s f rest where bs: "bs = (s, f) # rest" using assms(3) by (cases bs) auto
  have "rest = []"
  proof (rule ccontr)
    assume "rest \<noteq> []"
    then obtain t g zs where "rest = (t, g) # zs" by (cases rest) auto
    moreover have "coalesced False bs" using assms(1) by (simp add: tlsf_ok_def)
    ultimately show False using free [of s f] free [of t g] bs by simp
  qed
  then show ?thesis using that [of s] free [of s f] bs by simp
qed

lemma malloc_when_empty:
  assumes inv: "client_inv mem bytes c bs Map.empty" and sz: "sz \<noteq> 0" "unat sz \<le> 2 ^ 32 - 8"
    and room: "request (unat sz) + request (unat sz) div 32 \<le> pool_room bytes"
  shows "\<exists>c' p. tlsf_malloc c sz = Some (c', p) \<and> p \<noteq> 0"
proof -
  have i: "tlsf_ok c (mem + 6528) bs" "allocs (mem + 6528) bs = Map.empty" "span bs = pool_room bytes + 8"
    using inv by (auto simp: client_inv_def serves_def)
  have "round_up (unat sz) 8 < 2 ^ 32" using sz(2) round_up_8(1) [of "unat sz"] by simp
  moreover have "unat sz \<noteq> 0" using sz(1) by (simp add: unat_eq_0)
  ultimately have rq: "request (unat sz) \<noteq> 0" by (simp add: request_def)
  note rf = request_facts [OF rq]
  obtain s where s: "bs = [(s, True)]" "span bs = s + 8" by (rule all_released [OF i(1,2)]) (use i(3) in simp_all)
  have "\<not> no_fit (mem + 6528) bs (request (unat sz))"
    using good_fit_bounds(2) [OF rf(4,1)] room s i(3) by (simp add: no_fit_def)
  moreover have "unat sz + 8 \<le> 2 ^ 64" using sz(2) by simp
  ultimately show ?thesis using malloc_ok [OF i(1), of sz] rq by (auto simp: gives_def)
qed

text \<open>The two borderline uses of \<open>tlsf_realloc\<close> are allocation and release.\<close>

lemma realloc_borders:
  "tlsf_realloc c 0 sz = tlsf_malloc c sz"
  "p \<noteq> 0 \<Longrightarrow> tlsf_realloc c p 0 = map_option (\<lambda>c. (c, 0)) (tlsf_free c p)"
  by (simp_all add: tlsf_realloc_def)

text \<open>Why the rules exclude what they exclude: a request near \<open>2 ^ 64\<close> wraps to the least block; a reallocation
  to more than the largest request trims the block to nothing; a pool of \<open>2 ^ 32\<close> bytes passes the test of its
  size, but has no class.\<close>

lemma request_wraps: "adjust_request_size (- 4) ALIGN_SIZE = 24"
  by (simp add: adjust_request_size_def align_up_def)

lemma realloc_too_large:
  assumes "p \<noteq> 0" "sz \<noteq> 0" "adjust_request_size sz ALIGN_SIZE = 0"
  shows "tlsf_realloc c p sz = map_option (\<lambda>c. (c, p)) (block_trim_used c (block_from_ptr p) 0)"
  using assms by (simp add: tlsf_realloc_def Let_def word_less_nat_alt)

lemma add_pool_too_large:
  assumes "8 dvd p" "align_down (bytes - tlsf_pool_overhead) ALIGN_SIZE = block_size_max"
  shows "tlsf_add_pool c p bytes = None"
proof -
  define b where "b = offset_to_block p (- block_header_overhead)"
  obtain x y where m: "block_set_size (heap c) b (of_nat (2 ^ 32)) = (heap c)(b + 8 := hdr (2 ^ 32) x y)"
    using set_size_any by blast
  define m' where "m' = (heap c)(b + 8 := hdr (2 ^ 32) True False)"
  have header: "block_set_prev_used (block_set_free (block_set_size (heap c) b (of_nat (2 ^ 32))) b) b = m'"
    unfolding m by (simp add: set_flags_hdr(1) [of _ b "2 ^ 32" x y] set_flags_hdr(4) [of _ b "2 ^ 32" True y] m'_def)
  have "block_size m' b = of_nat (2 ^ 32)" by (intro block_size_hdr) (auto simp: m'_def)
  moreover have "mapping_insert (of_nat (2 ^ 32)) = (25, 0)"
    using fls_sizet_of_range [of 32 "0x100000000"] by (simp add: mapping_insert_def Let_def)
  ultimately have none: "block_insert (c\<lparr>heap := m'\<rparr>) b = None"
    by (simp add: block_insert_def insert_free_block_def index_in_range_def)
  have size: "block_size_max = of_nat (2 ^ 32)" "p mod 8 = 0" using assms(1) by simp_all
  show ?thesis
    unfolding tlsf_add_pool_def Let_def b_def [symmetric] assms(2) size(1) header none using size(2)
    by (simp add: word_less_nat_alt)
qed

text \<open>C40: Take an allocator created by \<open>tlsf_create_with_pool\<close> over a block of memory with
  less than 4 GiB of pool, and any history of a client that keeps to the rules: it allocates at most \<open>2 ^
  64 - 8\<close> bytes, with alignments that are powers of two up to \<open>2 ^ 62\<close>, releases and
  reallocates only blocks it holds, the latter to at least 1 and at most \<open>2 ^ 32 - 8\<close> bytes, and
  writes only inside blocks it holds. Then the blocks the client holds are aligned to 8 bytes, lie inside the
  pool, and leave at least 8 bytes between each other. Both consistency checks end and find no error. No
  operation runs outside the arrays of the control structure. An allocation that returns null has changed
  nothing. One that returns a pointer returns one the client does not hold, aligned as requested, to a block of
  the requested size in its place among the others, and leaves the contents of every block as they were. A
  release leaves the contents of all other blocks. A reallocation that returns null has changed nothing; else it
  carries over the contents up to the smaller of both sizes and leaves the contents of all other blocks. When
  everything is released again, the whole pool is available: every request whose rounded size, plus a 32nd of
  it, is at most the pool is served.\<close>

theorem allocator_histories:
  assumes "tlsf_reach mem bytes c A"
  shows "placed mem bytes A \<and> tlsf_check c = Some 0 \<and> tlsf_check_pool (heap c) (mem + 6536) = Some 0
    \<and> (\<forall>sz. unat sz + 8 \<le> 2 ^ 64 \<longrightarrow> (\<exists>c' p. tlsf_malloc c sz = Some (c', p)
         \<and> (if p = 0 then c' = c else A p = None \<and> placed mem bytes (A(p \<mapsto> unat sz)) \<and> same_contents A c c')))
    \<and> (\<forall>k sz. k \<le> 62 \<and> unat sz + 8 \<le> 2 ^ 64 \<longrightarrow> (\<exists>c' p. tlsf_memalign c (2 ^ k) sz = Some (c', p)
         \<and> (if p = 0 then c' = c
            else A p = None \<and> 2 ^ k dvd p \<and> placed mem bytes (A(p \<mapsto> unat sz)) \<and> same_contents A c c')))
    \<and> (\<forall>p. A p \<noteq> None \<longrightarrow> (\<exists>c'. tlsf_free c p = Some c' \<and> same_contents (A(p := None)) c c'))
    \<and> (\<forall>p n sz. A p = Some n \<and> sz \<noteq> 0 \<and> unat sz \<le> 2 ^ 32 - 8 \<longrightarrow> (\<exists>c' q. tlsf_realloc c p sz = Some (c', q)
         \<and> (if q = 0 then c' = c
            else (q = p \<or> A q = None) \<and> placed mem bytes (A(p := None, q \<mapsto> unat sz)) \<and> same_contents (A(p := None)) c c'
              \<and> (\<forall>i < min n (unat sz). read_byte (heap c') (q + i) = read_byte (heap c) (p + i)))))
    \<and> (A = Map.empty \<longrightarrow> (\<forall>sz. sz \<noteq> 0 \<and> unat sz \<le> 2 ^ 32 - 8
         \<and> request (unat sz) + request (unat sz) div 32 \<le> pool_room bytes
         \<longrightarrow> (\<exists>c' p. tlsf_malloc c sz = Some (c', p) \<and> p \<noteq> 0)))"
proof -
  obtain bs where inv: "client_inv mem bytes c bs A" using reach_inv [OF assms] by blast
  have placed: "\<exists>bs. client_inv mem bytes c' bs B \<Longrightarrow> placed mem bytes B" for c' B using client_inv_placed by blast
  have takes: "A p = None \<and> placed mem bytes (A(p \<mapsto> n)) \<and> same_contents A c c'" if "takes mem bytes c A n c' p" for n c' p
    using that placed unfolding takes_def by blast
  have malloc: "\<exists>c' p. tlsf_malloc c sz = Some (c', p)
      \<and> (if p = 0 then c' = c else A p = None \<and> placed mem bytes (A(p \<mapsto> unat sz)) \<and> same_contents A c c')"
    if h: "unat sz + 8 \<le> 2 ^ 64" for sz
  proof -
    obtain c' p where "tlsf_malloc c sz = Some (c', p)" "if p = 0 then c' = c else takes mem bytes c A (unat sz) c' p"
      using malloc_step [OF inv h] by blast
    then show ?thesis using takes [of "unat sz" c' p] by (intro exI [of _ c'] exI [of _ p]) (simp split: if_splits)
  qed
  have memalign: "\<exists>c' p. tlsf_memalign c (2 ^ k) sz = Some (c', p)
      \<and> (if p = 0 then c' = c
         else A p = None \<and> 2 ^ k dvd p \<and> placed mem bytes (A(p \<mapsto> unat sz)) \<and> same_contents A c c')"
    if h: "k \<le> 62" "unat sz + 8 \<le> 2 ^ 64" for k sz
  proof -
    obtain c' p where "tlsf_memalign c (2 ^ k) sz = Some (c', p)"
      "if p = 0 then c' = c else takes mem bytes c A (unat sz) c' p \<and> 2 ^ k dvd p"
      using memalign_step [OF inv h(2,1)] by blast
    then show ?thesis using takes [of "unat sz" c' p] by (intro exI [of _ c'] exI [of _ p]) (simp split: if_splits)
  qed
  have realloc: "\<exists>c' q. tlsf_realloc c p sz = Some (c', q)
      \<and> (if q = 0 then c' = c
         else (q = p \<or> A q = None) \<and> placed mem bytes (A(p := None, q \<mapsto> unat sz)) \<and> same_contents (A(p := None)) c c'
           \<and> (\<forall>i < min n (unat sz). read_byte (heap c') (q + i) = read_byte (heap c) (p + i)))"
    if h: "A p = Some n" "sz \<noteq> 0" "unat sz \<le> 2 ^ 32 - 8" for p n sz
  proof -
    obtain c' q where r: "tlsf_realloc c p sz = Some (c', q)"
      "if q = 0 then c' = c
       else (q = p \<or> A q = None) \<and> (\<exists>bs'. client_inv mem bytes c' bs' (A(p := None, q \<mapsto> unat sz)))
         \<and> same_contents (A(p := None)) c c'
         \<and> (\<forall>i < min n (unat sz). read_byte (heap c') (q + i) = read_byte (heap c) (p + i))"
      using realloc_step [OF inv h] by blast
    then have "q \<noteq> 0 \<Longrightarrow> placed mem bytes (A(p := None, q \<mapsto> unat sz))" using placed [of c'] by (auto split: if_splits)
    then show ?thesis using r by (intro exI [of _ c'] exI [of _ q]) (simp split: if_splits)
  qed
  have free: "\<exists>c'. tlsf_free c p = Some c' \<and> same_contents (A(p := None)) c c'" if "A p \<noteq> None" for p
    using free_step [OF inv that] by blast
  have all: "\<exists>c' p. tlsf_malloc c sz = Some (c', p) \<and> p \<noteq> 0"
    if "A = Map.empty" "sz \<noteq> 0" "unat sz \<le> 2 ^ 32 - 8" "request (unat sz) + request (unat sz) div 32 \<le> pool_room bytes" for sz
    using malloc_when_empty [OF inv [unfolded that(1)] that(2-4)] .
  have ok: "tlsf_ok c (mem + 6528) bs" using inv by (simp add: client_inv_def)
  have checks: "tlsf_check c = Some 0" "tlsf_check_pool (heap c) (mem + 6536) = Some 0"
    using check_passes [OF ok] check_pool_passes [OF ok] by (simp_all add: ac_simps)
  show ?thesis
    by (intro conjI allI impI; (elim conjE)?)
      (fact client_inv_placed [OF inv], fact checks, fact checks, erule malloc, erule (1) memalign, erule free, erule (2) realloc, erule (3) all)
qed

text \<open>An allocator over 64 KiB serves a request of 100 bytes.\<close>

theorem allocator_histories_witness:
  "\<exists>c c' p. tlsf_reach 4096 65536 c Map.empty \<and> tlsf_malloc c 100 = Some (c', p) \<and> p \<noteq> 0"
proof -
  have ps: "pool_room 65536 = 58984" by (simp add: pool_room_def)
  obtain c where c: "tlsf_create_with_pool (\<lambda>_. 0) 4096 65536 = Some (Some c)"
    using create_succeeds [of 4096 65536 "\<lambda>_. 0"] ps by auto
  have r: "tlsf_reach 4096 65536 c Map.empty" by (rule tlsf_reach.create [OF _ _ c]) (simp_all add: ps)
  have "request 100 = 104" by (simp add: request_def round_up_def)
  then show ?thesis using allocator_histories [OF r] ps r by auto
qed

end
