(* ===== verification/Spec2Isabelle.thy ===== *)
theory Spec2Isabelle
  imports Overflow World View_Query Hex_Name Binary Meta_Script Volume_History Volume_Publish Asset_Paths Crash_Roundtrip
    Telemetry_Graph Tlsf_History
begin

text \<open>
  A verification library of the NWB engine.

  The engine is a set of libraries: \<^verbatim>\<open>src/global\<close> holds the types and helpers everything else uses,
  \<^verbatim>\<open>src/core\<close> the entity-component system, the metascript language and the services around them,
  \<^verbatim>\<open>src/impl\<close> the asset formats and the systems that render. The library models the parts whose
  correctness is a matter of integers, bytes, containers and their histories.

  \<^bold>\<open>Theories and sources.\<close>

    \<^item> \<open>Nwb_Prelude\<close>: the integer types of \<^verbatim>\<open>global/type.h\<close> and facts on words and lists.
    \<^item> \<open>Overflow\<close>: \<^verbatim>\<open>global/overflow.h\<close>, \<^verbatim>\<open>limit.h\<close>, \<^verbatim>\<open>simplemath.h\<close>, \<^verbatim>\<open>allocation_size.h\<close> and the
      arithmetic of \<^verbatim>\<open>algorithm.h\<close>. A signed n-bit integer is an \<open>int\<close> in range, an unsigned one a word.
    \<^item> \<open>Entity_Id\<close>: \<^verbatim>\<open>core/ecs/entity_id.h\<close> and \<^verbatim>\<open>entity_id.cpp\<close>: packed identifiers and the manager that
      recycles indices under generations.
    \<^item> \<open>Component_Pool\<close>: the sparse set of \<^verbatim>\<open>core/ecs/component.h\<close>.
    \<^item> \<open>Scheduler\<close>: \<^verbatim>\<open>core/ecs/system.h\<close> and \<^verbatim>\<open>system.cpp\<close>: access declarations, the stages built from them
      and the execution of a frame.
    \<^item> \<open>Message_Bus\<close>: \<^verbatim>\<open>core/ecs/message_bus.h\<close>: double-buffered channels.
    \<^item> \<open>World\<close>: \<^verbatim>\<open>core/ecs/world.h\<close> and \<^verbatim>\<open>world.cpp\<close>: the entity manager, the pools, the
      per-entity lists of component types with their free list, the scheduler and the bus, composed.
    \<^item> \<open>View_Query\<close>: \<^verbatim>\<open>core/ecs/query.h\<close>: queries over several pools.
    \<^item> \<open>Text_Utils\<close>: \<^verbatim>\<open>global/text_utils.h\<close>: trimming, lines, keys, splitting, decimal numbers.
    \<^item> \<open>Compact_String\<close>: \<^verbatim>\<open>global/compact_string.h\<close>: the inline string of fixed capacity.
    \<^item> \<open>Hex_Name\<close>: hexadecimal text of \<^verbatim>\<open>global/text_utils.h\<close>, the hash of \<^verbatim>\<open>global/hash_utils.h\<close> and the
      names of \<^verbatim>\<open>global/name.h\<close>.
    \<^item> \<open>Binary\<close>: \<^verbatim>\<open>global/binary.h\<close>: byte buffers, length-prefixed strings, vectors and string tables.
    \<^item> \<open>Meta_Lexer\<close>, \<open>Meta_Value\<close>, \<open>Meta_Expr\<close>, \<open>Meta_Document\<close>, \<open>Meta_Script\<close>: the metascript language of
      \<^verbatim>\<open>core/metascript\<close>: tokens, values, expressions, statements with documents, and what the parser
      promises of them.
    \<^item> \<open>Volume_Disk\<close>, \<open>Volume_Store\<close>: the volume file system of \<^verbatim>\<open>core/filesystem\<close> over a model of the
      host: segment files as one range of bytes (\<^verbatim>\<open>volume_io.cpp\<close>), the index of the files
      (\<^verbatim>\<open>volume_metadata.cpp\<close>), writing, reading, removing and compacting them and mounting
      (\<^verbatim>\<open>volume_file_system.cpp\<close>), and the sessions that build and load (\<^verbatim>\<open>volume_session.cpp\<close>).
    \<^item> \<open>Volume_Publish\<close>: the staged build of \<^verbatim>\<open>volume_build.cpp\<close> with the publication and rollback of
      \<^verbatim>\<open>volume_staging.cpp\<close>, over an output, a stage and a backup directory.
    \<^item> \<open>Volume_Bytes\<close>, \<open>Volume_Move\<close>, \<open>Volume_Files\<close>, \<open>Volume_Live\<close>, \<open>Volume_Compact\<close>, \<open>Volume_Mount\<close>,
      \<open>Volume_History\<close>, \<open>Volume_Session\<close>: what that file system guarantees, from the bytes of a range up to the
      history of a mounted volume and a session.
    \<^item> \<open>Path_Text\<close>, \<open>Path_Normal\<close>, \<open>Path_Relative\<close>: the paths of \<^verbatim>\<open>global/filesystem/path.h\<close>, the member test
      of \<^verbatim>\<open>archive.h\<close> and the path operations of \<^verbatim>\<open>operations.h\<close>; what a path names, its normal form and the
      way from one path to another.
    \<^item> \<open>Asset_Paths\<close>: the virtual paths of \<^verbatim>\<open>core/assets/paths.h\<close> and the directories of \<^verbatim>\<open>cook_paths.cpp\<close>.
    \<^item> \<open>Host_Tree\<close>, \<open>Host_Safety\<close>, \<open>Host_Effects\<close>: the directory tree of the host and the operations of
      \<^verbatim>\<open>operations.h\<close> and \<^verbatim>\<open>directory_iterator.h\<close> on it; what they leave alone whatever fails, and what they do
      when nothing fails.
    \<^item> \<open>Crash_Archive\<close>, \<open>Crash_Roundtrip\<close>: crash packages, their archive of \<^verbatim>\<open>core/crash/package.cpp\<close> and
      its extraction in \<^verbatim>\<open>logger/server/crash_ingest.cpp\<close>.
    \<^item> \<open>Telemetry_Codec\<close>, \<open>Telemetry_Payloads\<close>, \<open>Telemetry_Graph\<close>: \<^verbatim>\<open>core/telemetry\<close>: the recorder and the codec of
      event streams, and the payloads of text logs, diagnostics and frame graphs with the builder and registry of graphs.
    \<^item> \<open>Tlsf_Bits\<close>, \<open>Tlsf_Mapping\<close>, \<open>Tlsf_Heap\<close>, \<open>Tlsf_Alloc\<close>: the allocator of \<^verbatim>\<open>core/alloc/tlsf.cpp\<close>: bit
      scans, rounding and size classes, block headers and free lists over a memory of 8-byte cells, the public
      operations with the walkers and checks.
    \<^item> \<open>Tlsf_Shape\<close>, \<open>Tlsf_Headers\<close>, \<open>Tlsf_Lists\<close>, \<open>Tlsf_Pool\<close>, \<open>Tlsf_Correct\<close>, \<open>Tlsf_Align\<close>, \<open>Tlsf_Realloc\<close>,
      \<open>Tlsf_Check\<close>, \<open>Tlsf_History\<close>: what it guarantees, from the layout of a pool and the lists threaded through
      it, over each operation, to the history of a client.

  \<^bold>\<open>State and operations.\<close> A class is a record whose fields have the names of its members; an operation
  takes the record and returns it updated, with its result. A name that is taken in HOL, or that two
  classes share, has a prefix or suffix that names its class. A vector is a list, a hash map a map or an
  association list, a reference to an element its position, a linked list of nodes the node array with
  its indices. A violated assertion, an exception and a failure are values of an option or a sum.
  Integers are words where the code wraps or packs, and carry their range where it tests for overflow.

  \<^bold>\<open>What is shown.\<close> For the entity manager and the world: an invariant, its preservation by every
  operation, the effect of each operation on the abstract component map, and the same for whole
  histories; the manager provides the interface \<open>id_allocator\<close>, and a destroyed identifier stays dead until its
  generation wraps or the manager is cleared. For the pool: it implements a map, the
  interface \<open>component_store\<close>. For the scheduler: the stages are a first-fit partition into compatible
  sets, after any history a frame runs every update once, and its result does not depend on the order inside a
  stage if the systems keep to their access declarations. For the bus, the
  interface \<open>double_buffer\<close>: the messages of one frame are those the next one consumes. For views: both ways to
  iterate yield exactly the entities that have every component. For texts, names and binary data:
  round trips, exact failure conditions, bounds. For metascript: every token is a lexeme at its
  position, a rendered token list is read back, arithmetic is exact or reported, parsing always ends,
  and an accepted source is a sequence of grammatical statements whose effects give the document. For
  volumes: the operations refine a map from names to contents under every failure the host reports, with a
  failed compaction as the one failure that may change bytes; they succeed without failures when there is
  room, compaction keeps the contents and closes the gaps, what was flushed is found by the next mount, a
  mount checks what it finds, a failed build loses no old segment, and a volume that was built loads with the
  files that were pushed. Only files with a payload are sure to be built: the compaction that ends a build may
  reject an empty file. For paths: the normal form is canonical, a relative path leads to its target, an accepted member
  stays below its directory, virtual asset paths are resolved to their source. For crash packages:
  extraction never touches anything outside its directory, and recreates what was packed. For telemetry: streams
  and payloads are read back, every truncation is noticed, and whatever is decoded is well-typed. For the allocator:
  after any history of a client that keeps to the rules, its blocks are aligned, inside the pool and disjoint, every
  operation leaves the contents of the other blocks alone, the consistency checks pass, a failed request changes
  nothing, and a pool from which everything was released serves every request of nearly its size.

  \<^bold>\<open>Loops and fuel.\<close> Loops with a measure are total functions. The list walks of the world stop with
  \<open>None\<close> when a list of nodes is cyclic, and the invariant excludes it. The checks of the allocator are partial
  functions, and \<open>check_passes\<close> and \<open>check_pool_passes\<close> show that they end on every heap a client can reach. The parser takes fuel because
  its functions call each other through the state; \<open>document_fuel\<close> is twice the length of the source and
  six more, and \<open>parseStatements_returns\<close> shows that it is enough for every source: each level of recursion
  and each turn of a loop consumes a token, and a token at least one character. The loops of the volume
  file system end because a range, a list of segments or an index space gets smaller.

  \<^bold>\<open>Parameters.\<close> Floating-point arithmetic is a record of functions, which the properties do not
  constrain. The clock of the recorder and the contributors of a frame graph are arguments. The updates of systems and the components are type and function parameters. The order that an
  unstable sort gives to equal offsets is a parameter of compaction. The host file system is a state:
  the directory, the contents of the segment files, and a list of outcomes for the calls to come, of which
  any may be a failure; a failing write leaves any part of its bytes behind. The host tree of the crash packages
  is a second such state, with nested directories. The current directory and the listing of a
  directory are parameters of the functions on paths that use them.

  \<^bold>\<open>Not modelled.\<close> The lifetime of memory: arenas, views into strings, moved-from objects. Exceptions of
  allocators. Threads: a parallel operation is the set of the sequential calls it hands out, in any
  order. The mathematics library (floating point and SIMD), the arenas over the allocator and the job system,
  asset formats, graphics, the ECS systems on top of the modelled core, the transport of the logger
  and the command-line programs are listed in the manifest with their reasons. Of the volume file system: the
  buffers of the stream classes (a write call that reports success is final; an error that surfaces when the
  stream is closed is not checked by the code and not modelled) and collisions of the hash in segment file names. Of
  paths and the host tree: the branches for Windows with their root names, symbolic links, permissions. Of crash
  reporting: what gathers a package in the crashed process and reports it on the server. Of telemetry: the hooks
  into the logger and the diagnostics of the process. Of the allocator: several pools in one control structure,
  printing, and builds for 32-bit machines; bitmaps and list heads are fields of a record, not cells of the memory.
\<close>

end
